(* ===== verification/Prelude.thy ===== *)
theory Prelude
  imports Main "HOL-Library.Word"
begin

text \<open>
  Shared vocabulary of the development: the C integer types as words, computations that
  may stop with an error while threading a state, and the generic facts on words, lists
  and arrays that several components use.  Collections of rewrite rules that carry the
  component proofs are declared here.
\<close>

unbundle bit_operations_syntax

named_theorems layout_simps \<open>sizes and offsets of the C structures\<close>
named_theorems frame_simps \<open>fields an operation leaves alone\<close>

section \<open>C integer types\<close>

type_synonym u8 = "8 word"
type_synonym u16 = "16 word"
type_synonym u32 = "32 word"
type_synonym u64 = "64 word"

section \<open>Computations that may stop\<close>

text \<open>
  A C function that updates a state of type \<open>'s\<close> and either returns a value or stops
  with an error is a value of type \<open>('e + 'a) \<times> 's\<close>: the state is there in both cases,
  as it is in the program.  \<open>bindS\<close> is the early return \<open>if ((e = f()) != OK) return e;\<close>.
\<close>

type_synonym ('e, 'a, 's) outcome = "('e + 'a) \<times> 's"

definition bindS :: "('e, 'a, 's) outcome \<Rightarrow> ('a \<Rightarrow> 's \<Rightarrow> ('e, 'b, 's) outcome) \<Rightarrow> ('e, 'b, 's) outcome" where
  "bindS m f = (case m of (Inl e, s) \<Rightarrow> (Inl e, s) | (Inr x, s) \<Rightarrow> f x s)"

lemma bindS_simps [simp]:
  "bindS (Inl e, s) f = (Inl e, s)"
  "bindS (Inr x, s) f = f x s"
  by (simp_all add: bindS_def)

lemma bindS_eq_Inr:
  "bindS m f = (Inr y, t) \<longleftrightarrow> (\<exists>x s. m = (Inr x, s) \<and> f x s = (Inr y, t))"
  by (cases m; cases "fst m") (auto simp: bindS_def)

lemma bindS_split:
  "P (bindS m f) \<longleftrightarrow>
     (\<forall>e s. m = (Inl e, s) \<longrightarrow> P (Inl e, s)) \<and> (\<forall>x s. m = (Inr x, s) \<longrightarrow> P (f x s))"
  by (cases m; cases "fst m") (auto simp: bindS_def)

lemma bindS_assoc:
  "bindS (bindS m f) g = bindS m (\<lambda>x s. bindS (f x s) g)"
  by (cases m; cases "fst m") (auto simp: bindS_def)

lemma bindS_inv:
  assumes "P (snd m)" and "\<And>x s. P s \<Longrightarrow> P (snd (f x s))"
  shows "P (snd (bindS m f))"
proof -
  obtain r s where m: "m = (r, s)" by (cases m)
  then show ?thesis using assms by (cases r) simp_all
qed

lemma bindS_cong [fundef_cong]:
  assumes "m = m'" and "\<And>x s. m' = (Inr x, s) \<Longrightarrow> f x s = g x s"
  shows "bindS m f = bindS m' g"
proof (cases m')
  case (Pair r s)
  then show ?thesis using assms by (cases r) simp_all
qed

text \<open>The stateless form, on the sum type alone.\<close>

definition bindE :: "'e + 'a \<Rightarrow> ('a \<Rightarrow> 'e + 'b) \<Rightarrow> 'e + 'b" where
  "bindE m f = (case m of Inl e \<Rightarrow> Inl e | Inr x \<Rightarrow> f x)"

lemma bindE_simps [simp]:
  "bindE (Inl e) f = Inl e"
  "bindE (Inr x) f = f x"
  by (simp_all add: bindE_def)

lemma bindE_eq_Inr: "bindE m f = Inr y \<longleftrightarrow> (\<exists>x. m = Inr x \<and> f x = Inr y)"
  by (cases m) auto

section \<open>Words\<close>

text \<open>C masks are written as literals; each one is a \<open>take_bit\<close>.\<close>

named_theorems and_masks \<open>a conjunction with a literal mask is a truncation\<close>

lemma and_mask_take [and_masks]:
  fixes w :: "'a::len word"
  shows "w AND 1 = take_bit 1 w" "w AND 3 = take_bit 2 w" "w AND 7 = take_bit 3 w" "w AND 15 = take_bit 4 w"
    "w AND 31 = take_bit 5 w" "w AND 63 = take_bit 6 w" "w AND 127 = take_bit 7 w"
    "w AND 255 = take_bit 8 w" "w AND 511 = take_bit 9 w" "w AND 4095 = take_bit 12 w"
    "w AND 0x3ff = take_bit 10 w"
    "w AND 0xfffffffffff = take_bit 44 w" "w AND 0x3ffffff = take_bit 26 w"
  by (simp_all only: take_bit_eq_mask mask_numeral mask_0 numeral_One mask_Suc_0) (simp_all add: mask_eq_exp_minus_1)

lemma take_bit_64_word [simp]: "take_bit 64 (v::u64) = v"
  by (rule bit_word_eqI) (simp add: bit_simps)

text \<open>Putting the bytes of a word back together, lowest first.\<close>

lemma le_bytes_collect:
  fixes v :: u64
  shows
  "push_bit 8 (take_bit 8 (drop_bit 8 v)) OR take_bit 8 v = take_bit 16 v"
  "push_bit 16 (take_bit 8 (drop_bit 16 v)) OR take_bit 16 v = take_bit 24 v"
  "push_bit 24 (take_bit 8 (drop_bit 24 v)) OR take_bit 24 v = take_bit 32 v"
  "push_bit 32 (take_bit 8 (drop_bit 32 v)) OR take_bit 32 v = take_bit 40 v"
  "push_bit 40 (take_bit 8 (drop_bit 40 v)) OR take_bit 40 v = take_bit 48 v"
  "push_bit 48 (take_bit 8 (drop_bit 48 v)) OR take_bit 48 v = take_bit 56 v"
  "push_bit 56 (take_bit 8 (drop_bit 56 v)) OR take_bit 56 v = v"
  by (rule bit_word_eqI; auto simp: bit_simps not_le)+


lemma ucast_u8_u64: "ucast (ucast (x :: u8) :: u64) = x"
  by (rule bit_word_eqI) (simp add: bit_simps)

lemma ucast_take_u8: "ucast (take_bit 8 (ucast (x :: u8) :: u64)) = x"
  by (rule bit_word_eqI) (simp add: bit_simps)

lemma unat_u64_less: "unat (x :: u64) < 18446744073709551616"
  using unsigned_less [of x, where ?'a = nat] by simp

lemma unat_plus_small:
  fixes a b :: u64
  assumes "unat a + unat b < 2 ^ 64"
  shows "unat (a + b) = unat a + unat b"
  using assms by (simp add: unat_word_ariths)

text \<open>Two slots of a ring of size \<open>m\<close> that are less than \<open>m\<close> apart differ.\<close>

lemma ring_slots_differ:
  fixes a k n m :: nat
  assumes "k < n" and "n - k < m"
  shows "(a + k) mod m \<noteq> (a + n) mod m"
proof
  assume "(a + k) mod m = (a + n) mod m"
  then have "m dvd (a + n) - (a + k)" using assms(1) mod_eq_dvd_iff_nat [of "a + k" "a + n" m] by simp
  then have "m dvd n - k" by simp
  then show False using assms by (auto dest: dvd_imp_le)
qed

end
