(* ===== verification/Semu_Devices.thy ===== *)
theory Semu_Devices
  imports Prelude
begin

text \<open>
  The memory-mapped devices of the emulator \<open>semu/semu.c\<close>: RAM, the core local
  interruptor, the platform-level interrupt controller, the UART and the virtio disk.
  A device is a record with the fields of its C structure; a load or a store is a
  function with the guards and the \<open>switch\<close> of the C function.
\<close>

section \<open>Modes, exceptions and interrupts\<close>

datatype cpu_mode_t = USER | SUPERVISOR | MACHINE

fun mode_code :: "cpu_mode_t \<Rightarrow> u64" where
  "mode_code USER = 0"
| "mode_code SUPERVISOR = 1"
| "mode_code MACHINE = 3"

text \<open>
  \<open>ECALL_FROM m\<close> is the code \<open>8 + cpu->mode\<close> that \<open>cpu_execute\<close> returns without an
  enumerator of its own.
\<close>

datatype exception_t =
    OK
  | INSTRUCTION_ADDRESS_MISALIGNED
  | INSTRUCTION_ACCESS_FAULT
  | ILLEGAL_INSTRUCTION
  | BREAKPOINT
  | LOAD_ADDRESS_MISALIGNED
  | LOAD_ACCESS_FAULT
  | STORE_AMO_ADDRESS_MISALIGNED
  | STORE_AMO_ACCESS_FAULT
  | INSTRUCTION_PAGE_FAULT
  | LOAD_PAGE_FAULT
  | STORE_AMO_PAGE_FAULT
  | ECALL_FROM cpu_mode_t

fun exc_code :: "exception_t \<Rightarrow> u64" where
  "exc_code OK = - 1"
| "exc_code INSTRUCTION_ADDRESS_MISALIGNED = 0"
| "exc_code INSTRUCTION_ACCESS_FAULT = 1"
| "exc_code ILLEGAL_INSTRUCTION = 2"
| "exc_code BREAKPOINT = 3"
| "exc_code LOAD_ADDRESS_MISALIGNED = 4"
| "exc_code LOAD_ACCESS_FAULT = 5"
| "exc_code STORE_AMO_ADDRESS_MISALIGNED = 6"
| "exc_code STORE_AMO_ACCESS_FAULT = 7"
| "exc_code INSTRUCTION_PAGE_FAULT = 12"
| "exc_code LOAD_PAGE_FAULT = 13"
| "exc_code STORE_AMO_PAGE_FAULT = 15"
| "exc_code (ECALL_FROM m) = 8 + mode_code m"

datatype interrupt_t =
    NONE
  | SUPERVISOR_SOFTWARE_INTERRUPT
  | MACHINE_SOFTWARE_INTERRUPT
  | SUPERVISOR_TIMER_INTERRUPT
  | MACHINE_TIMER_INTERRUPT
  | SUPERVISOR_EXTERNAL_INTERRUPT
  | MACHINE_EXTERNAL_INTERRUPT

fun intr_code :: "interrupt_t \<Rightarrow> u64" where
  "intr_code NONE = - 1"
| "intr_code SUPERVISOR_SOFTWARE_INTERRUPT = 1"
| "intr_code MACHINE_SOFTWARE_INTERRUPT = 3"
| "intr_code SUPERVISOR_TIMER_INTERRUPT = 5"
| "intr_code MACHINE_TIMER_INTERRUPT = 7"
| "intr_code SUPERVISOR_EXTERNAL_INTERRUPT = 9"
| "intr_code MACHINE_EXTERNAL_INTERRUPT = 11"

fun exception_is_fatal :: "exception_t \<Rightarrow> bool" where
  "exception_is_fatal INSTRUCTION_ADDRESS_MISALIGNED = True"
| "exception_is_fatal INSTRUCTION_ACCESS_FAULT = True"
| "exception_is_fatal LOAD_ACCESS_FAULT = True"
| "exception_is_fatal STORE_AMO_ADDRESS_MISALIGNED = True"
| "exception_is_fatal STORE_AMO_ACCESS_FAULT = True"
| "exception_is_fatal _ = False"

text \<open>
  Why an operation does not return a value: a guest exception (a C return value other
  than \<open>OK\<close>), a call of \<open>fatal\<close> (which exits the emulator), or a step whose behaviour
  the C standard leaves undefined (an access outside an array, a division by zero).
\<close>

datatype stop =
    Exc exception_t
  | Fatal string
  | OutOfBounds
  | DivisionByZero

section \<open>RAM\<close>

abbreviation (input) RAM_SIZE :: u64 where "RAM_SIZE \<equiv> 0x8000000"
abbreviation (input) RAM_BASE :: u64 where "RAM_BASE \<equiv> 0x80000000"

record ram =
  ram_data :: "u64 \<Rightarrow> u8"

text \<open>\<open>memcpy\<close> of an image longer than the array is out of bounds.\<close>

definition ram_new :: "u8 list \<Rightarrow> stop + ram" where
  "ram_new code =
     (if length code \<le> unat RAM_SIZE
      then Inr \<lparr>ram_data = (\<lambda>i. if unat i < length code then code ! unat i else 0)\<rparr>
      else Inl OutOfBounds)"

text \<open>
  The \<open>switch\<close> of \<open>ram_load\<close> and \<open>ram_store\<close> falls through from the widest access to the
  narrowest, so a wider access is a few more bytes in front of a narrower one.  The
  bytes are addressed by \<open>index + k\<close> in 64-bit arithmetic; each must be inside the array.
\<close>

definition in_ram :: "u64 \<Rightarrow> nat \<Rightarrow> bool" where
  "in_ram index n \<longleftrightarrow> list_all (\<lambda>k. index + of_nat k < RAM_SIZE) [0..<n]"

definition ram_byte :: "ram \<Rightarrow> u64 \<Rightarrow> nat \<Rightarrow> u64" where
  "ram_byte r index k = push_bit (8 * k) (ucast (ram_data r (index + of_nat k)))"

definition ram_load :: "ram \<Rightarrow> u64 \<Rightarrow> u64 \<Rightarrow> stop + u64" where
  "ram_load r addr sz =
     (let index = addr - RAM_BASE in
      if sz = 64 then
        (if in_ram index 8 then
           Inr (ram_byte r index 7 OR ram_byte r index 6 OR ram_byte r index 5 OR
                ram_byte r index 4 OR ram_byte r index 3 OR ram_byte r index 2 OR
                ram_byte r index 1 OR ram_byte r index 0)
         else Inl OutOfBounds)
      else if sz = 32 then
        (if in_ram index 4 then
           Inr (ram_byte r index 3 OR ram_byte r index 2 OR
                ram_byte r index 1 OR ram_byte r index 0)
         else Inl OutOfBounds)
      else if sz = 16 then
        (if in_ram index 2 then Inr (ram_byte r index 1 OR ram_byte r index 0)
         else Inl OutOfBounds)
      else if sz = 8 then
        (if in_ram index 1 then Inr (ram_byte r index 0) else Inl OutOfBounds)
      else Inl (Exc LOAD_ACCESS_FAULT))"

definition ram_put :: "u64 \<Rightarrow> u64 \<Rightarrow> nat \<Rightarrow> ram \<Rightarrow> ram" where
  "ram_put index value k r =
     r\<lparr>ram_data := (ram_data r)(index + of_nat k := ucast (drop_bit (8 * k) value AND 0xff))\<rparr>"

definition ram_store :: "ram \<Rightarrow> u64 \<Rightarrow> u64 \<Rightarrow> u64 \<Rightarrow> stop + ram" where
  "ram_store r addr sz value =
     (let index = addr - RAM_BASE; put = ram_put index value in
      if sz = 64 then
        (if in_ram index 8 then
           Inr (put 0 (put 1 (put 2 (put 3 (put 4 (put 5 (put 6 (put 7 r))))))))
         else Inl OutOfBounds)
      else if sz = 32 then
        (if in_ram index 4 then Inr (put 0 (put 1 (put 2 (put 3 r))))
         else Inl OutOfBounds)
      else if sz = 16 then
        (if in_ram index 2 then Inr (put 0 (put 1 r)) else Inl OutOfBounds)
      else if sz = 8 then
        (if in_ram index 1 then Inr (put 0 r) else Inl OutOfBounds)
      else Inl (Exc STORE_AMO_ACCESS_FAULT))"

subsection \<open>RAM is a little-endian byte store\<close>

lemma bit_ram_byte:
  "bit (ram_byte r i k) n \<longleftrightarrow> n < 64 \<and> 8 * k \<le> n \<and> bit (ram_data r (i + of_nat k)) (n - 8 * k)"
  by (auto simp: ram_byte_def bit_simps)

lemma ram_byte_put:
  "ram_byte (ram_put i v j r) i k =
     (if of_nat k = (of_nat j :: u64) then push_bit (8 * k) (take_bit 8 (drop_bit (8 * j) v))
      else ram_byte r i k)"
  by (rule bit_word_eqI) (auto simp: ram_byte_def ram_put_def bit_simps and_masks) 

lemma ram_data_put:
  "ram_data (ram_put i v j r) a = (if a = i + of_nat j then ucast (take_bit 8 (drop_bit (8 * j) v)) else ram_data r a)"
  by (simp add: ram_put_def and_masks)

lemma ram_store_load:
  assumes "sz \<in> {8, 16, 32, 64}" and "ram_store r a sz v = Inr r'"
  shows "ram_load r' a sz = Inr (take_bit (unat sz) v)"
  using assms
  by (auto simp: ram_store_def ram_load_def Let_def ram_byte_put le_bytes_collect or.assoc split: if_splits)

lemma ram_store_frame:
  assumes sz: "sz \<in> {8, 16, 32, 64}" and st: "ram_store r a sz v = Inr r'"
    and far: "sz div 8 \<le> i - (a - RAM_BASE)"
  shows "ram_data r' i = ram_data r i"
proof -
  have skip: "ram_data (ram_put (a - RAM_BASE) v j s) i = ram_data s i"
    if "of_nat j < sz div 8" for j s
  proof -
    have "of_nat j \<noteq> i - (a - RAM_BASE)" using that far by auto
    then have "i \<noteq> a - RAM_BASE + of_nat j" by auto
    then show ?thesis by (simp only: ram_data_put if_False)
  qed
  show ?thesis
    using sz st by (auto simp: ram_store_def Let_def skip split: if_splits)
qed

lemma in_ram_iff:
  assumes "0 < n" "n \<le> 8"
  shows "in_ram i n \<longleftrightarrow> unat i + n \<le> unat RAM_SIZE"
proof
  assume "in_ram i n"
  then have a: "unat (i + of_nat k) < unat RAM_SIZE" if "k < n" for k
    using that by (auto simp: in_ram_def list_all_iff word_less_nat_alt)
  from assms obtain m where m: "n = Suc m" "m < 8" by (cases n) auto
  have "unat i < 2 ^ 27" using a [of 0] assms by simp
  with m have "unat (i + of_nat m) = unat i + m"
    by (simp add: unat_word_ariths unat_of_nat)
  with a [of m] m show "unat i + n \<le> unat RAM_SIZE" by simp
next
  assume "unat i + n \<le> unat RAM_SIZE"
  then show "in_ram i n"
    using assms by (auto simp: in_ram_def list_all_iff word_less_nat_alt unat_word_ariths unat_of_nat)
qed

lemma ram_access_ok:
  assumes "sz \<in> {8, 16, 32, 64}" and "RAM_BASE \<le> a"
  shows "(\<exists>x. ram_load r a sz = Inr x) \<longleftrightarrow> unat a + unat sz div 8 \<le> unat (RAM_BASE + RAM_SIZE)"
    and "(\<exists>r'. ram_store r a sz v = Inr r') \<longleftrightarrow> unat a + unat sz div 8 \<le> unat (RAM_BASE + RAM_SIZE)"
proof -
  have "unat (a - RAM_BASE) = unat a - unat RAM_BASE" "unat RAM_BASE \<le> unat a"
    using assms(2) by (simp_all add: unat_sub word_le_nat_alt)
  then show "(\<exists>x. ram_load r a sz = Inr x) \<longleftrightarrow> unat a + unat sz div 8 \<le> unat (RAM_BASE + RAM_SIZE)"
    and "(\<exists>r'. ram_store r a sz v = Inr r') \<longleftrightarrow> unat a + unat sz div 8 \<le> unat (RAM_BASE + RAM_SIZE)"
   using assms(1) by (auto simp: ram_load_def ram_store_def Let_def in_ram_iff)
qed


section \<open>Core local interruptor\<close>

abbreviation (input) CLINT_BASE :: u64 where "CLINT_BASE \<equiv> 0x2000000"
abbreviation (input) CLINT_SIZE :: u64 where "CLINT_SIZE \<equiv> 0x10000"
abbreviation (input) CLINT_MTIMECMP :: u64 where "CLINT_MTIMECMP \<equiv> 0x2004000"
abbreviation (input) CLINT_MTIME :: u64 where "CLINT_MTIME \<equiv> 0x200bff8"

record clint =
  mtime :: u64
  mtimecmp :: u64

definition clint_new :: clint where
  "clint_new = \<lparr>mtime = 0, mtimecmp = 0\<rparr>"

definition clint_load :: "clint \<Rightarrow> u64 \<Rightarrow> u64 \<Rightarrow> stop + u64" where
  "clint_load c addr sz =
     (if sz \<noteq> 64 then Inl (Exc LOAD_ACCESS_FAULT)
      else if addr = CLINT_MTIMECMP then Inr (mtimecmp c)
      else if addr = CLINT_MTIME then Inr (mtime c)
      else Inr 0)"

definition clint_store :: "clint \<Rightarrow> u64 \<Rightarrow> u64 \<Rightarrow> u64 \<Rightarrow> stop + clint" where
  "clint_store c addr sz value =
     (if sz \<noteq> 64 then Inl (Exc STORE_AMO_ACCESS_FAULT)
      else if addr = CLINT_MTIMECMP then Inr (c\<lparr>mtimecmp := value\<rparr>)
      else if addr = CLINT_MTIME then Inr (c\<lparr>mtime := value\<rparr>)
      else Inr c)"

section \<open>Platform-level interrupt controller\<close>

abbreviation (input) PLIC_BASE :: u64 where "PLIC_BASE \<equiv> 0xc000000"
abbreviation (input) PLIC_SIZE :: u64 where "PLIC_SIZE \<equiv> 0x4000000"
abbreviation (input) PLIC_PENDING :: u64 where "PLIC_PENDING \<equiv> 0xc001000"
abbreviation (input) PLIC_SENABLE :: u64 where "PLIC_SENABLE \<equiv> 0xc002080"
abbreviation (input) PLIC_SPRIORITY :: u64 where "PLIC_SPRIORITY \<equiv> 0xc201000"
abbreviation (input) PLIC_SCLAIM :: u64 where "PLIC_SCLAIM \<equiv> 0xc201004"

record plic =
  pending :: u64
  senable :: u64
  spriority :: u64
  sclaim :: u64

definition plic_new :: plic where
  "plic_new = \<lparr>pending = 0, senable = 0, spriority = 0, sclaim = 0\<rparr>"

definition plic_load :: "plic \<Rightarrow> u64 \<Rightarrow> u64 \<Rightarrow> stop + u64" where
  "plic_load p addr sz =
     (if sz \<noteq> 32 then Inl (Exc LOAD_ACCESS_FAULT)
      else if addr = PLIC_PENDING then Inr (pending p)
      else if addr = PLIC_SENABLE then Inr (senable p)
      else if addr = PLIC_SPRIORITY then Inr (spriority p)
      else if addr = PLIC_SCLAIM then Inr (sclaim p)
      else Inr 0)"

definition plic_store :: "plic \<Rightarrow> u64 \<Rightarrow> u64 \<Rightarrow> u64 \<Rightarrow> stop + plic" where
  "plic_store p addr sz value =
     (if sz \<noteq> 32 then Inl (Exc STORE_AMO_ACCESS_FAULT)
      else if addr = PLIC_PENDING then Inr (p\<lparr>pending := value\<rparr>)
      else if addr = PLIC_SENABLE then Inr (p\<lparr>senable := value\<rparr>)
      else if addr = PLIC_SPRIORITY then Inr (p\<lparr>spriority := value\<rparr>)
      else if addr = PLIC_SCLAIM then Inr (p\<lparr>sclaim := value\<rparr>)
      else Inr p)"

section \<open>UART\<close>

abbreviation (input) UART_BASE :: u64 where "UART_BASE \<equiv> 0x10000000"
abbreviation (input) UART_SIZE :: u64 where "UART_SIZE \<equiv> 0x100"
abbreviation (input) UART_RHR :: u64 where "UART_RHR \<equiv> 0x10000000"
abbreviation (input) UART_THR :: u64 where "UART_THR \<equiv> 0x10000000"
abbreviation (input) UART_LSR :: u64 where "UART_LSR \<equiv> 0x10000005"
abbreviation (input) UART_LSR_RX :: u8 where "UART_LSR_RX \<equiv> 1"
abbreviation (input) UART_LSR_TX :: u8 where "UART_LSR_TX \<equiv> 0x20"

text \<open>
  \<open>uart_out\<close> is the standard output that \<open>putchar\<close> appends to.  The mutex and the
  condition variable have no field: every function holds the mutex from its first to its
  last access, so each is one atomic step of the model.
\<close>

record uart =
  uart_data :: "u64 \<Rightarrow> u8"
  interrupting :: bool
  uart_out :: "u8 list"

definition uart_new :: uart where
  "uart_new =
     \<lparr>uart_data = (\<lambda>_. 0)(UART_LSR - UART_BASE := UART_LSR_TX), interrupting = False, uart_out = []\<rparr>"

text \<open>
  One turn of the loop of \<open>uart_thread_func\<close> after \<open>read\<close> has returned the character
  \<open>c\<close>: \<open>None\<close> while the thread waits on the condition variable.
\<close>

definition uart_thread_recv :: "u8 \<Rightarrow> uart \<Rightarrow> uart option" where
  "uart_thread_recv c u =
     (if uart_data u (UART_LSR - UART_BASE) AND UART_LSR_RX = 1 then None
      else Some (u\<lparr>uart_data :=
               (let d = (uart_data u)(0 := c) in
                d(UART_LSR - UART_BASE := d (UART_LSR - UART_BASE) OR UART_LSR_RX)),
             interrupting := True\<rparr>))"

text \<open>An access outside the 256 bytes of \<open>data\<close> is out of bounds.\<close>

definition uart_load :: "uart \<Rightarrow> u64 \<Rightarrow> u64 \<Rightarrow> (stop, u64, uart) outcome" where
  "uart_load u addr sz =
     (if sz \<noteq> 8 then (Inl (Exc LOAD_ACCESS_FAULT), u)
      else
        (let u' = (if addr = UART_RHR
                   then u\<lparr>uart_data := (uart_data u)
                          (UART_LSR - UART_BASE :=
                             uart_data u (UART_LSR - UART_BASE) AND NOT UART_LSR_RX)\<rparr>
                   else u)
         in if addr - UART_BASE < UART_SIZE
            then (Inr (ucast (uart_data u' (addr - UART_BASE))), u')
            else (Inl OutOfBounds, u')))"

definition uart_store :: "uart \<Rightarrow> u64 \<Rightarrow> u64 \<Rightarrow> u64 \<Rightarrow> stop + uart" where
  "uart_store u addr sz value =
     (if sz \<noteq> 8 then Inl (Exc STORE_AMO_ACCESS_FAULT)
      else if addr = UART_THR then Inr (u\<lparr>uart_out := uart_out u @ [ucast (value AND 0xff)]\<rparr>)
      else if addr - UART_BASE < UART_SIZE
        then Inr (u\<lparr>uart_data := (uart_data u)(addr - UART_BASE := ucast (value AND 0xff))\<rparr>)
      else Inl OutOfBounds)"

definition uart_is_interrupting :: "uart \<Rightarrow> bool \<times> uart" where
  "uart_is_interrupting u = (interrupting u, u\<lparr>interrupting := False\<rparr>)"

section \<open>Virtio disk\<close>

abbreviation (input) VIRTIO_BASE :: u64 where "VIRTIO_BASE \<equiv> 0x10001000"
abbreviation (input) VIRTIO_SIZE :: u64 where "VIRTIO_SIZE \<equiv> 0x1000"
abbreviation (input) VIRTIO_MAGIC :: u64 where "VIRTIO_MAGIC \<equiv> 0x10001000"
abbreviation (input) VIRTIO_VERSION :: u64 where "VIRTIO_VERSION \<equiv> 0x10001004"
abbreviation (input) VIRTIO_DEVICE_ID :: u64 where "VIRTIO_DEVICE_ID \<equiv> 0x10001008"
abbreviation (input) VIRTIO_VENDOR_ID :: u64 where "VIRTIO_VENDOR_ID \<equiv> 0x1000100c"
abbreviation (input) VIRTIO_DEVICE_FEATURES :: u64 where "VIRTIO_DEVICE_FEATURES \<equiv> 0x10001010"
abbreviation (input) VIRTIO_DRIVER_FEATURES :: u64 where "VIRTIO_DRIVER_FEATURES \<equiv> 0x10001020"
abbreviation (input) VIRTIO_GUEST_PAGE_SIZE :: u64 where "VIRTIO_GUEST_PAGE_SIZE \<equiv> 0x10001028"
abbreviation (input) VIRTIO_QUEUE_SEL :: u64 where "VIRTIO_QUEUE_SEL \<equiv> 0x10001030"
abbreviation (input) VIRTIO_QUEUE_NUM_MAX :: u64 where "VIRTIO_QUEUE_NUM_MAX \<equiv> 0x10001034"
abbreviation (input) VIRTIO_QUEUE_NUM :: u64 where "VIRTIO_QUEUE_NUM \<equiv> 0x10001038"
abbreviation (input) VIRTIO_QUEUE_PFN :: u64 where "VIRTIO_QUEUE_PFN \<equiv> 0x10001040"
abbreviation (input) VIRTIO_QUEUE_NOTIFY :: u64 where "VIRTIO_QUEUE_NOTIFY \<equiv> 0x10001050"
abbreviation (input) VIRTIO_STATUS :: u64 where "VIRTIO_STATUS \<equiv> 0x10001070"
abbreviation (input) VIRTIO_VRING_DESC_SIZE :: u64 where "VIRTIO_VRING_DESC_SIZE \<equiv> 16"
abbreviation (input) VIRTIO_DESC_NUM :: u64 where "VIRTIO_DESC_NUM \<equiv> 8"

text \<open>\<open>disk_len\<close> is the length of the buffer that \<open>disk\<close> points to (0 for the null pointer).\<close>

record virtio =
  vq_id :: u64
  driver_features :: u32
  page_size :: u32
  queue_sel :: u32
  queue_num :: u32
  queue_pfn :: u32
  queue_notify :: u32
  vstatus :: u32
  disk :: "u64 \<Rightarrow> u8"
  disk_len :: u64

definition virtio_new :: "u8 list \<Rightarrow> virtio" where
  "virtio_new d =
     \<lparr>vq_id = 0, driver_features = 0, page_size = 0, queue_sel = 0, queue_num = 0,
      queue_pfn = 0, queue_notify = - 1, vstatus = 0,
      disk = (\<lambda>i. if unat i < length d then d ! unat i else 0), disk_len = of_nat (length d)\<rparr>"

definition virtio_load :: "virtio \<Rightarrow> u64 \<Rightarrow> u64 \<Rightarrow> stop + u64" where
  "virtio_load v addr sz =
     (if sz \<noteq> 32 then Inl (Exc LOAD_ACCESS_FAULT)
      else if addr = VIRTIO_MAGIC then Inr 0x74726976
      else if addr = VIRTIO_VERSION then Inr 1
      else if addr = VIRTIO_DEVICE_ID then Inr 2
      else if addr = VIRTIO_VENDOR_ID then Inr 0x554d4551
      else if addr = VIRTIO_DEVICE_FEATURES then Inr 0
      else if addr = VIRTIO_DRIVER_FEATURES then Inr (ucast (driver_features v))
      else if addr = VIRTIO_QUEUE_NUM_MAX then Inr 8
      else if addr = VIRTIO_QUEUE_PFN then Inr (ucast (queue_pfn v))
      else if addr = VIRTIO_STATUS then Inr (ucast (vstatus v))
      else Inr 0)"

definition virtio_store :: "virtio \<Rightarrow> u64 \<Rightarrow> u64 \<Rightarrow> u64 \<Rightarrow> stop + virtio" where
  "virtio_store v addr sz value =
     (if sz \<noteq> 32 then Inl (Exc STORE_AMO_ACCESS_FAULT)
      else if addr = VIRTIO_DEVICE_FEATURES then Inr (v\<lparr>driver_features := ucast value\<rparr>)
      else if addr = VIRTIO_GUEST_PAGE_SIZE then Inr (v\<lparr>page_size := ucast value\<rparr>)
      else if addr = VIRTIO_QUEUE_SEL then Inr (v\<lparr>queue_sel := ucast value\<rparr>)
      else if addr = VIRTIO_QUEUE_NUM then Inr (v\<lparr>queue_num := ucast value\<rparr>)
      else if addr = VIRTIO_QUEUE_PFN then Inr (v\<lparr>queue_pfn := ucast value\<rparr>)
      else if addr = VIRTIO_QUEUE_NOTIFY then Inr (v\<lparr>queue_notify := ucast value\<rparr>)
      else if addr = VIRTIO_STATUS then Inr (v\<lparr>vstatus := ucast value\<rparr>)
      else Inr v)"

definition virtio_is_interrupting :: "virtio \<Rightarrow> bool \<times> virtio" where
  "virtio_is_interrupting v =
     (if queue_notify v \<noteq> - 1 then (True, v\<lparr>queue_notify := - 1\<rparr>) else (False, v))"

definition virtio_desc_addr :: "virtio \<Rightarrow> u64" where
  "virtio_desc_addr v = ucast (queue_pfn v) * ucast (page_size v)"

definition virtio_disk_read :: "virtio \<Rightarrow> u64 \<Rightarrow> stop + u64" where
  "virtio_disk_read v addr =
     (if addr < disk_len v then Inr (ucast (disk v addr)) else Inl OutOfBounds)"

definition virtio_disk_write :: "virtio \<Rightarrow> u64 \<Rightarrow> u64 \<Rightarrow> stop + virtio" where
  "virtio_disk_write v addr value =
     (if addr < disk_len v then Inr (v\<lparr>disk := (disk v)(addr := ucast value)\<rparr>)
      else Inl OutOfBounds)"

definition virtio_new_id :: "virtio \<Rightarrow> u64 \<times> virtio" where
  "virtio_new_id v = (vq_id v + 1, v\<lparr>vq_id := vq_id v + 1\<rparr>)"

end
