(* ===== verification/Semu_Bus.thy ===== *)
theory Semu_Bus
  imports Semu_Devices
begin

text \<open>
  The system bus of \<open>semu/semu.c\<close>: address decoding with the \<open>RANGE_CHECK\<close> macro,
  dispatch to RAM and the devices, and the disk transfer that follows a queue
  notification.  The lemmas show that decoding is exact below \<open>2^32\<close>, that addresses
  above it alias the device windows, and that a transfer moves exactly its bytes.
\<close>

section \<open>Address decoding\<close>

text \<open>
  \<open>RANGE_CHECK\<close> computes in 64-bit unsigned arithmetic, truncates to 32 bits and reads the
  sign.
\<close>

definition range_check :: "u64 \<Rightarrow> u64 \<Rightarrow> u64 \<Rightarrow> bool" where
  "range_check x minx sz \<longleftrightarrow> 0 \<le> sint (ucast ((x - minx) OR (minx + sz - 1 - x)) :: u32)"

record bus =
  bus_ram :: ram
  bus_clint :: clint
  bus_plic :: plic
  bus_uart :: uart
  bus_virtio :: virtio

definition bus_new :: "ram \<Rightarrow> virtio \<Rightarrow> bus" where
  "bus_new r vio =
     \<lparr>bus_ram = r, bus_clint = clint_new, bus_plic = plic_new, bus_uart = uart_new,
      bus_virtio = vio\<rparr>"

definition bus_load :: "bus \<Rightarrow> u64 \<Rightarrow> u64 \<Rightarrow> (stop, u64, bus) outcome" where
  "bus_load b addr sz =
     (if range_check addr CLINT_BASE CLINT_SIZE then (clint_load (bus_clint b) addr sz, b)
      else if range_check addr PLIC_BASE PLIC_SIZE then (plic_load (bus_plic b) addr sz, b)
      else if range_check addr UART_BASE UART_SIZE then
        (case uart_load (bus_uart b) addr sz of (r, u) \<Rightarrow> (r, b\<lparr>bus_uart := u\<rparr>))
      else if range_check addr VIRTIO_BASE VIRTIO_SIZE then (virtio_load (bus_virtio b) addr sz, b)
      else if RAM_BASE \<le> addr then (ram_load (bus_ram b) addr sz, b)
      else (Inl (Exc LOAD_ACCESS_FAULT), b))"

definition bus_store :: "bus \<Rightarrow> u64 \<Rightarrow> u64 \<Rightarrow> u64 \<Rightarrow> stop + bus" where
  "bus_store b addr sz value =
     (if range_check addr CLINT_BASE CLINT_SIZE then
        bindE (clint_store (bus_clint b) addr sz value) (\<lambda>c. Inr (b\<lparr>bus_clint := c\<rparr>))
      else if range_check addr PLIC_BASE PLIC_SIZE then
        bindE (plic_store (bus_plic b) addr sz value) (\<lambda>p. Inr (b\<lparr>bus_plic := p\<rparr>))
      else if range_check addr UART_BASE UART_SIZE then
        bindE (uart_store (bus_uart b) addr sz value) (\<lambda>u. Inr (b\<lparr>bus_uart := u\<rparr>))
      else if range_check addr VIRTIO_BASE VIRTIO_SIZE then
        bindE (virtio_store (bus_virtio b) addr sz value) (\<lambda>v. Inr (b\<lparr>bus_virtio := v\<rparr>))
      else if RAM_BASE \<le> addr then
        bindE (ram_store (bus_ram b) addr sz value) (\<lambda>r. Inr (b\<lparr>bus_ram := r\<rparr>))
      else Inl (Exc STORE_AMO_ACCESS_FAULT))"

section \<open>Disk transfer\<close>

text \<open>\<open>if (f() != OK) fatal(msg)\<close>.\<close>

fun or_fatal :: "string \<Rightarrow> stop + 'a \<Rightarrow> stop + 'a" where
  "or_fatal msg (Inl (Exc e)) = Inl (Fatal msg)"
| "or_fatal msg r = r"

definition bus_load_or_fatal :: "string \<Rightarrow> u64 \<Rightarrow> u64 \<Rightarrow> bus \<Rightarrow> (stop, u64, bus) outcome" where
  "bus_load_or_fatal msg addr sz b = (case bus_load b addr sz of (r, b') \<Rightarrow> (or_fatal msg r, b'))"

definition bus_store_or_fatal :: "string \<Rightarrow> u64 \<Rightarrow> u64 \<Rightarrow> u64 \<Rightarrow> bus \<Rightarrow> (stop, unit, bus) outcome" where
  "bus_store_or_fatal msg addr sz value b =
     (case or_fatal msg (bus_store b addr sz value) of Inl e \<Rightarrow> (Inl e, b) | Inr b' \<Rightarrow> (Inr (), b'))"

text \<open>
  The two loops \<open>for (uint64_t i = 0; i < len1; i++)\<close>: \<open>i\<close> is the index, the last number
  the turns that remain.
\<close>

fun dma_to_disk :: "u64 \<Rightarrow> u64 \<Rightarrow> u64 \<Rightarrow> nat \<Rightarrow> bus \<Rightarrow> (stop, unit, bus) outcome" where
  "dma_to_disk addr1 blk_sector i 0 b = (Inr (), b)"
| "dma_to_disk addr1 blk_sector i (Suc n) b =
     bindS (bus_load_or_fatal ''read from RAM'' (addr1 + i) 8 b) (\<lambda>data b.
       case virtio_disk_write (bus_virtio b) (blk_sector * 512 + i) data of
         Inl e \<Rightarrow> (Inl e, b)
       | Inr v \<Rightarrow> dma_to_disk addr1 blk_sector (i + 1) n (b\<lparr>bus_virtio := v\<rparr>))"

fun dma_from_disk :: "u64 \<Rightarrow> u64 \<Rightarrow> u64 \<Rightarrow> nat \<Rightarrow> bus \<Rightarrow> (stop, unit, bus) outcome" where
  "dma_from_disk addr1 blk_sector i 0 b = (Inr (), b)"
| "dma_from_disk addr1 blk_sector i (Suc n) b =
     (case virtio_disk_read (bus_virtio b) (blk_sector * 512 + i) of
        Inl e \<Rightarrow> (Inl e, b)
      | Inr data \<Rightarrow>
          bindS (bus_store_or_fatal ''write to RAM'' (addr1 + i) 8 data b)
            (\<lambda>_ b. dma_from_disk addr1 blk_sector (i + 1) n b))"

definition bus_disk_access :: "bus \<Rightarrow> (stop, unit, bus) outcome" where
  "bus_disk_access b =
     (let desc_addr = virtio_desc_addr (bus_virtio b);
          avail_addr = desc_addr + 0x40;
          used_addr = desc_addr + 4096
      in bindS (bus_load_or_fatal ''read offset'' (avail_addr + 1) 16 b) (\<lambda>offset b.
         bindS (bus_load_or_fatal ''read index'' (avail_addr + offset mod VIRTIO_DESC_NUM + 2) 16 b) (\<lambda>index b.
         let desc_addr0 = desc_addr + VIRTIO_VRING_DESC_SIZE * index in
         bindS (bus_load_or_fatal ''read address field in descriptor'' desc_addr0 64 b) (\<lambda>addr0 b.
         bindS (bus_load_or_fatal ''read next field in descriptor'' (desc_addr0 + 14) 16 b) (\<lambda>next0 b.
         let desc_addr1 = desc_addr + VIRTIO_VRING_DESC_SIZE * next0 in
         bindS (bus_load_or_fatal ''read address field in descriptor'' desc_addr1 64 b) (\<lambda>addr1 b.
         bindS (bus_load_or_fatal ''read length field in descriptor'' (desc_addr1 + 8) 32 b) (\<lambda>len1 b.
         bindS (bus_load_or_fatal ''read flags field in descriptor'' (desc_addr1 + 12) 16 b) (\<lambda>flags1 b.
         bindS (bus_load_or_fatal ''read sector field in virtio_blk_outhdr'' (addr0 + 8) 64 b) (\<lambda>blk_sector b.
         bindS (if flags1 AND 2 = 0
                then dma_to_disk addr1 blk_sector 0 (unat len1) b
                else dma_from_disk addr1 blk_sector 0 (unat len1) b) (\<lambda>_ b.
         case virtio_new_id (bus_virtio b) of (new_id, v) \<Rightarrow>
           bus_store_or_fatal ''write to RAM'' (used_addr + 2) 16 (new_id mod 8)
             (b\<lparr>bus_virtio := v\<rparr>)))))))))))"

section \<open>Address decoding is exact below $2^{32}$\<close>

lemma sint_u32_nonneg: "0 \<le> sint (w :: u32) \<longleftrightarrow> \<not> bit w 31"
  using bit_last_iff [of w] by (simp add: not_less)

lemma bit_diff_u64:
  assumes "n < 64"
  shows "bit (a - b :: u64) n \<longleftrightarrow> odd ((uint a - uint b) div 2 ^ n)"
proof -
  have "bit (a - b) n \<longleftrightarrow> bit (uint (a - b)) n"
    using assms by (simp add: bit_uint_iff)
  also have "uint (a - b) = take_bit 64 (uint a - uint b)"
    by (simp add: uint_word_ariths take_bit_eq_mod)
  also have "bit \<dots> n \<longleftrightarrow> bit (uint a - uint b) n"
    using assms by (simp add: bit_take_bit_iff)
  finally show ?thesis by (simp add: bit_iff_odd)
qed

lemma odd_div_window:
  fixes d q :: int
  assumes "- (2 ^ 32) \<le> d" "d < 2 ^ 32"
  shows "odd ((q * 2 ^ 32 + d) div 2 ^ 31) \<longleftrightarrow> (- (2 ^ 31) \<le> d \<and> d < 0) \<or> 2 ^ 31 \<le> d"
proof -
  have "(q * 2 ^ 32 + d) div 2 ^ 31 = 2 * q + d div 2 ^ 31"
    using div_mult_self1 [of "2 ^ 31 :: int" d "2 * q"] by (simp add: algebra_simps)
  moreover consider "d < - (2 ^ 31)" | "- (2 ^ 31) \<le> d" "d < 0" | "0 \<le> d" "d < 2 ^ 31" | "2 ^ 31 \<le> d"
    by linarith
  then have "odd (d div 2 ^ 31) \<longleftrightarrow> (- (2 ^ 31) \<le> d \<and> d < 0) \<or> 2 ^ 31 \<le> d"
  proof cases
    case 1
    then have "d div 2 ^ 31 = - 2"
      using assms by (intro int_div_pos_eq [of _ _ _ "d + 2 * 2 ^ 31"]) auto
    with 1 show ?thesis by auto
  next
    case 2
    then have "d div 2 ^ 31 = - 1"
      by (intro int_div_pos_eq [of _ _ _ "d + 2 ^ 31"]) auto
    with 2 show ?thesis by auto
  next
    case 4
    then have "d div 2 ^ 31 = 1"
      using assms by (intro int_div_pos_eq [of _ _ _ "d - 2 ^ 31"]) auto
    with 4 show ?thesis by auto
  qed (simp add: div_pos_pos_trivial)
  ultimately show ?thesis by auto
qed


lemma odd_diff_windows:
  fixes q r m :: int
  assumes "0 \<le> r" "r < 2 ^ 32" "0 \<le> m" "m \<le> 2 ^ 31"
  shows "odd ((q * 2 ^ 32 + r - m) div 2 ^ 31) \<longleftrightarrow> r < m \<or> m + 2 ^ 31 \<le> r"
    and "odd ((m - (q * 2 ^ 32 + r)) div 2 ^ 31) \<longleftrightarrow> m < r \<and> r \<le> m + 2 ^ 31 \<or> m = r + 2 ^ 31"
proof -
  have *: "q * 2 ^ 32 + r - m = q * 2 ^ 32 + (r - m)"
    "m - (q * 2 ^ 32 + r) = (- q) * 2 ^ 32 + (m - r)" by simp_all
  show "odd ((q * 2 ^ 32 + r - m) div 2 ^ 31) \<longleftrightarrow> r < m \<or> m + 2 ^ 31 \<le> r"
    using assms unfolding * by (subst odd_div_window) (simp, simp, linarith)
  show "odd ((m - (q * 2 ^ 32 + r)) div 2 ^ 31) \<longleftrightarrow> m < r \<and> r \<le> m + 2 ^ 31 \<or> m = r + 2 ^ 31"
    using assms unfolding * by (subst odd_div_window) (simp, simp, linarith)
qed

lemma bit31_diff:
  assumes "uint m < 2 ^ 31"
  shows "bit (x - m :: u64) 31 \<longleftrightarrow> uint x mod 2 ^ 32 < uint m \<or> uint m + 2 ^ 31 \<le> uint x mod 2 ^ 32"
    and "bit (m - x :: u64) 31 \<longleftrightarrow> uint m < uint x mod 2 ^ 32 \<and> uint x mod 2 ^ 32 \<le> uint m + 2 ^ 31"
proof -
  obtain q r where x: "uint x = q * 2 ^ 32 + r" and r: "0 \<le> r" "r < 2 ^ 32" "r = uint x mod 2 ^ 32"
    using that [of "uint x div 2 ^ 32" "uint x mod 2 ^ 32"] by simp
  note w = odd_diff_windows [OF r(1,2), of "uint m" q, folded x]
  show "bit (x - m) 31 \<longleftrightarrow> uint x mod 2 ^ 32 < uint m \<or> uint m + 2 ^ 31 \<le> uint x mod 2 ^ 32"
    "bit (m - x) 31 \<longleftrightarrow> uint m < uint x mod 2 ^ 32 \<and> uint x mod 2 ^ 32 \<le> uint m + 2 ^ 31"
    using w assms r by (auto simp: bit_diff_u64 simp flip: r(3))
qed

lemma range_check_iff:
  assumes "0 < uint sz" and "uint minx + uint sz \<le> 2 ^ 31"
  shows "range_check x minx sz \<longleftrightarrow>
           uint minx \<le> uint x mod 2 ^ 32 \<and> uint x mod 2 ^ 32 < uint minx + uint sz"
proof -
  let ?e = "minx + sz - 1"
  have m: "uint minx + uint sz - 1 < 2 ^ 31" "uint minx < 2 ^ 31" "0 \<le> uint minx + uint sz - 1"
    using assms uint_ge_0 [of minx] by linarith+
  then have e: "uint ?e = uint minx + uint sz - 1"
    by (simp add: uint_word_ariths mod_simps mod_pos_pos_trivial)
  have "range_check x minx sz \<longleftrightarrow> \<not> bit (x - minx) 31 \<and> \<not> bit (?e - x) 31"
    by (simp add: range_check_def sint_u32_nonneg bit_simps)
  also have "\<dots> \<longleftrightarrow> uint minx \<le> uint x mod 2 ^ 32 \<and> uint x mod 2 ^ 32 < uint minx + uint sz"
  proof -
    have window: "(\<not> (r < a \<or> a + 2 ^ 31 \<le> r) \<and> \<not> (a + s - 1 < r \<and> r \<le> a + s - 1 + 2 ^ 31))
        \<longleftrightarrow> a \<le> r \<and> r < a + s" if "a + s \<le> 2 ^ 31" "0 < s" "0 \<le> a" for a s r :: int
      using that by auto
    show ?thesis
      unfolding bit31_diff(1) [OF m(2), of x] bit31_diff(2) [of ?e x, unfolded e, OF m(1)]
      by (rule window [OF assms(2,1) uint_ge_0])
  qed
  finally show ?thesis .
qed

text \<open>Decoding looks at the low 32 bits only.\<close>

lemma range_check_alias:
  assumes "0 < uint sz" and "uint minx + uint sz \<le> 2 ^ 31" and "uint x mod 2 ^ 32 = uint y mod 2 ^ 32"
  shows "range_check x minx sz = range_check y minx sz"
  using assms by (simp add: range_check_iff)

lemma range_check_low:
  assumes "x < 2 ^ 32" and "0 < uint sz" and "uint minx + uint sz \<le> 2 ^ 31"
  shows "range_check x minx sz \<longleftrightarrow> minx \<le> x \<and> x < minx + sz"
proof -
  have "uint x < 2 ^ 32" using assms(1) by (simp add: word_less_def)
  moreover have "uint (minx + sz) = uint minx + uint sz"
    using assms by (simp add: uint_word_ariths mod_pos_pos_trivial)
  ultimately show ?thesis
    using assms by (simp add: range_check_iff word_le_def word_less_def mod_pos_pos_trivial)
qed

lemmas device_windows =
  range_check_low [of _ CLINT_SIZE CLINT_BASE, simplified]
  range_check_low [of _ PLIC_SIZE PLIC_BASE, simplified]
  range_check_low [of _ UART_SIZE UART_BASE, simplified]
  range_check_low [of _ VIRTIO_SIZE VIRTIO_BASE, simplified]

lemma ram_window:
  assumes "RAM_BASE \<le> x" and "x < RAM_BASE + RAM_SIZE"
  shows "\<not> range_check x CLINT_BASE CLINT_SIZE" "\<not> range_check x PLIC_BASE PLIC_SIZE"
    "\<not> range_check x UART_BASE UART_SIZE" "\<not> range_check x VIRTIO_BASE VIRTIO_SIZE"
proof -
  have "x < 2 ^ 32" using assms(2) by (rule less_trans) simp
  then show "\<not> range_check x CLINT_BASE CLINT_SIZE" "\<not> range_check x PLIC_BASE PLIC_SIZE"
    "\<not> range_check x UART_BASE UART_SIZE" "\<not> range_check x VIRTIO_BASE VIRTIO_SIZE"
    using assms(1) by (auto simp: device_windows word_le_def word_less_def)
qed

lemma bus_load_ram:
  assumes "RAM_BASE \<le> x" and "x < RAM_BASE + RAM_SIZE"
  shows "bus_load b x sz = (ram_load (bus_ram b) x sz, b)"
  using ram_window [OF assms] assms(1) by (simp add: bus_load_def)

lemma bus_store_ram:
  assumes "RAM_BASE \<le> x" and "x < RAM_BASE + RAM_SIZE"
  shows "bus_store b x sz v = bindE (ram_store (bus_ram b) x sz v) (\<lambda>r. Inr (b\<lparr>bus_ram := r\<rparr>))"
  using ram_window [OF assms] assms(1) by (simp add: bus_store_def)


text \<open>The memory map the emulator means to implement, in plain comparisons.\<close>

datatype region = Clint_window | Plic_window | Uart_window | Virtio_window | Ram_window | Hole

definition region_of :: "u64 \<Rightarrow> region" where
  "region_of a =
     (if 0x2000000 \<le> a \<and> a < 0x2010000 then Clint_window
      else if 0xc000000 \<le> a \<and> a < 0x10000000 then Plic_window
      else if 0x10000000 \<le> a \<and> a < 0x10000100 then Uart_window
      else if 0x10001000 \<le> a \<and> a < 0x10002000 then Virtio_window
      else if 0x80000000 \<le> a then Ram_window
      else Hole)"

fun region_load :: "region \<Rightarrow> bus \<Rightarrow> u64 \<Rightarrow> u64 \<Rightarrow> (stop, u64, bus) outcome" where
  "region_load Clint_window b a sz = (clint_load (bus_clint b) a sz, b)"
| "region_load Plic_window b a sz = (plic_load (bus_plic b) a sz, b)"
| "region_load Uart_window b a sz =
     (case uart_load (bus_uart b) a sz of (r, u) \<Rightarrow> (r, b\<lparr>bus_uart := u\<rparr>))"
| "region_load Virtio_window b a sz = (virtio_load (bus_virtio b) a sz, b)"
| "region_load Ram_window b a sz = (ram_load (bus_ram b) a sz, b)"
| "region_load Hole b a sz = (Inl (Exc LOAD_ACCESS_FAULT), b)"

fun region_store :: "region \<Rightarrow> bus \<Rightarrow> u64 \<Rightarrow> u64 \<Rightarrow> u64 \<Rightarrow> stop + bus" where
  "region_store Clint_window b a sz v = bindE (clint_store (bus_clint b) a sz v) (\<lambda>c. Inr (b\<lparr>bus_clint := c\<rparr>))"
| "region_store Plic_window b a sz v = bindE (plic_store (bus_plic b) a sz v) (\<lambda>c. Inr (b\<lparr>bus_plic := c\<rparr>))"
| "region_store Uart_window b a sz v = bindE (uart_store (bus_uart b) a sz v) (\<lambda>c. Inr (b\<lparr>bus_uart := c\<rparr>))"
| "region_store Virtio_window b a sz v = bindE (virtio_store (bus_virtio b) a sz v) (\<lambda>c. Inr (b\<lparr>bus_virtio := c\<rparr>))"
| "region_store Ram_window b a sz v = bindE (ram_store (bus_ram b) a sz v) (\<lambda>c. Inr (b\<lparr>bus_ram := c\<rparr>))"
| "region_store Hole b a sz v = Inl (Exc STORE_AMO_ACCESS_FAULT)"

lemma bus_decodes_memory_map:
  assumes "a < 2 ^ 32"
  shows "bus_load b a sz = region_load (region_of a) b a sz"
    and "bus_store b a sz v = region_store (region_of a) b a sz v"
  using assms by (simp_all add: bus_load_def bus_store_def region_of_def device_windows)

lemma bus_window_alias:
  "bus_load b 0x110000010 8 = (Inl OutOfBounds, b)"
  "bus_store b 0x110000010 8 v = Inl OutOfBounds"
  by (simp_all add: bus_load_def bus_store_def range_check_iff uart_load_def uart_store_def)

lemma bus_load_byte_in_ram:
  assumes "RAM_BASE \<le> a" and "unat a < unat (RAM_BASE + RAM_SIZE)"
  shows "bus_load_or_fatal msg a 8 b = (Inr (ucast (ram_data (bus_ram b) (a - RAM_BASE))), b)"
proof -
  have "a < RAM_BASE + RAM_SIZE" using assms(2) by (simp add: word_less_nat_alt)
  moreover have "unat (a - RAM_BASE) + 1 \<le> unat RAM_SIZE"
    using assms by (simp add: unat_sub word_le_nat_alt)
  ultimately show ?thesis
    using assms(1) by (simp add: bus_load_or_fatal_def bus_load_ram ram_load_def in_ram_iff ram_byte_def)
qed

lemma bus_store_byte_in_ram:
  assumes "RAM_BASE \<le> a" and "unat a < unat (RAM_BASE + RAM_SIZE)"
  shows "bus_store_or_fatal msg a 8 v b =
     (Inr (), b\<lparr>bus_ram := (bus_ram b)\<lparr>ram_data := (ram_data (bus_ram b))(a - RAM_BASE := ucast (take_bit 8 v))\<rparr>\<rparr>)"
proof -
  have "a < RAM_BASE + RAM_SIZE" using assms(2) by (simp add: word_less_nat_alt)
  moreover have "unat (a - RAM_BASE) + 1 \<le> unat RAM_SIZE"
    using assms by (simp add: unat_sub word_le_nat_alt)
  ultimately show ?thesis
    using assms(1) by (simp add: bus_store_or_fatal_def bus_store_ram ram_store_def in_ram_iff ram_put_def and_masks)
qed

definition copy_window :: "nat \<Rightarrow> nat \<Rightarrow> (u64 \<Rightarrow> u8) \<Rightarrow> (u64 \<Rightarrow> u8) \<Rightarrow> u64 \<Rightarrow> u8" where
  "copy_window lo n src dst j = (if lo \<le> unat j \<and> unat j < lo + n then src j else dst j)"

lemma copy_window_0 [simp]: "copy_window lo 0 src dst = dst"
  by (rule ext) (auto simp: copy_window_def)

lemma copy_window_Suc:
  assumes "unat p = lo"
  shows "copy_window (Suc lo) n src (dst(p := src p)) = copy_window lo (Suc n) src dst"
proof
  fix x
  have "x = p \<longleftrightarrow> unat x = lo"
    using assms by (auto simp: word_unat_eq_iff)
  then show "copy_window (Suc lo) n src (dst(p := src p)) x = copy_window lo (Suc n) src dst x"
    by (auto simp: copy_window_def)
qed

text \<open>
  A transfer to the disk copies \<open>n\<close> bytes of RAM, from \<open>addr1 + i\<close> on, to the disk from
  \<open>blk_sector * 512 + i\<close> on, and changes nothing else.
\<close>

lemma dma_to_disk_copies:
  assumes "RAM_BASE \<le> addr1"
    and "unat addr1 + unat i + n \<le> unat (RAM_BASE + RAM_SIZE)"
    and "unat (sec * 512) + unat i + n \<le> unat (disk_len (bus_virtio b))"
  shows "dma_to_disk addr1 sec i n b =
    (Inr (), b\<lparr>bus_virtio := (bus_virtio b)\<lparr>disk :=
       copy_window (unat (sec * 512) + unat i) n
         (\<lambda>j. ram_data (bus_ram b) (addr1 - RAM_BASE + (j - sec * 512))) (disk (bus_virtio b))\<rparr>\<rparr>)"
  using assms
proof (induction n arbitrary: i b)
  case 0
  then show ?case by simp
next
  case (Suc n)
  have i: "unat (i + 1) = unat i + 1" and a: "unat (addr1 + i) = unat addr1 + unat i"
    and s: "unat (sec * 512 + i) = unat (sec * 512) + unat i"
    using Suc.prems unat_u64_less [of "disk_len (bus_virtio b)"]
    by (simp_all add: unat_plus_small)
  have base: "RAM_BASE \<le> addr1 + i" "unat (addr1 + i) < unat (RAM_BASE + RAM_SIZE)"
    using Suc.prems a by (simp_all add: word_le_nat_alt)
  have dl: "sec * 512 + i < disk_len (bus_virtio b)"
    using Suc.prems s by (simp add: word_less_nat_alt)
  have pos: "addr1 + i - RAM_BASE = addr1 - RAM_BASE + (sec * 512 + i - sec * 512)" by simp
  let ?src = "\<lambda>j. ram_data (bus_ram b) (addr1 - RAM_BASE + (j - sec * 512))"
  let ?b = "b\<lparr>bus_virtio := (bus_virtio b)\<lparr>disk := (disk (bus_virtio b))(sec * 512 + i := ?src (sec * 512 + i))\<rparr>\<rparr>"
  have "dma_to_disk addr1 sec i (Suc n) b = dma_to_disk addr1 sec (i + 1) n ?b"
    using base dl by (simp add: bus_load_byte_in_ram virtio_disk_write_def pos ucast_u8_u64)
  also have "\<dots> = (Inr (), ?b\<lparr>bus_virtio := (bus_virtio ?b)\<lparr>disk :=
       copy_window (unat (sec * 512) + unat (i + 1)) n ?src (disk (bus_virtio ?b))\<rparr>\<rparr>)"
    using Suc.prems i by (subst Suc.IH) simp_all
  finally show ?case
    using copy_window_Suc [OF s, of n ?src "disk (bus_virtio b)"] i by simp
qed

lemma dma_from_disk_copies:
  assumes "RAM_BASE \<le> addr1"
    and "unat addr1 + unat i + n \<le> unat (RAM_BASE + RAM_SIZE)"
    and "unat (sec * 512) + unat i + n \<le> unat (disk_len (bus_virtio b))"
  shows "dma_from_disk addr1 sec i n b =
    (Inr (), b\<lparr>bus_ram := (bus_ram b)\<lparr>ram_data :=
       copy_window (unat (addr1 - RAM_BASE) + unat i) n
         (\<lambda>j. disk (bus_virtio b) (sec * 512 + (j - (addr1 - RAM_BASE)))) (ram_data (bus_ram b))\<rparr>\<rparr>)"
  using assms
proof (induction n arbitrary: i b)
  case 0
  then show ?case by simp
next
  case (Suc n)
  have off: "unat (addr1 - RAM_BASE) = unat addr1 - unat RAM_BASE" "unat RAM_BASE \<le> unat addr1"
    using Suc.prems by (simp_all add: unat_sub word_le_nat_alt)
  have i: "unat (i + 1) = unat i + 1" and a: "unat (addr1 + i) = unat addr1 + unat i"
    and s: "unat (sec * 512 + i) = unat (sec * 512) + unat i"
    and o: "unat (addr1 - RAM_BASE + i) = unat (addr1 - RAM_BASE) + unat i"
    using Suc.prems off unat_u64_less [of "disk_len (bus_virtio b)"]
    by (simp_all add: unat_plus_small)
  have base: "RAM_BASE \<le> addr1 + i" "unat (addr1 + i) < unat (RAM_BASE + RAM_SIZE)"
    using Suc.prems a by (simp_all add: word_le_nat_alt)
  have dl: "sec * 512 + i < disk_len (bus_virtio b)"
    using Suc.prems s by (simp add: word_less_nat_alt)
  have pos: "addr1 + i - RAM_BASE = addr1 - RAM_BASE + i" by simp
  let ?src = "\<lambda>j. disk (bus_virtio b) (sec * 512 + (j - (addr1 - RAM_BASE)))"
  let ?b = "b\<lparr>bus_ram := (bus_ram b)\<lparr>ram_data := (ram_data (bus_ram b))(addr1 - RAM_BASE + i := ?src (addr1 - RAM_BASE + i))\<rparr>\<rparr>"
  have "dma_from_disk addr1 sec i (Suc n) b = dma_from_disk addr1 sec (i + 1) n ?b"
    using base dl by (simp add: bus_store_byte_in_ram virtio_disk_read_def pos ucast_take_u8)
  also have "\<dots> = (Inr (), ?b\<lparr>bus_ram := (bus_ram ?b)\<lparr>ram_data :=
       copy_window (unat (addr1 - RAM_BASE) + unat (i + 1)) n ?src (ram_data (bus_ram ?b))\<rparr>\<rparr>)"
    using Suc.prems i by (subst Suc.IH) simp_all
  finally show ?case
    using copy_window_Suc [OF o, of n ?src "ram_data (bus_ram b)"] i by simp
qed

end
