(* ===== verification/Semu_Cpu.thy ===== *)
theory Semu_Cpu
  imports Semu_Bus
begin

text \<open>
  The processor state of \<open>semu/semu.c\<close> and its access paths: control and status
  registers with the \<open>SIE\<close> view of \<open>MIE\<close>, the three-level page walk of
  \<open>cpu_translate\<close>, fetch, load and store.  The walk is proved to compute the Sv39
  translation relation.
\<close>

section \<open>State\<close>

text \<open>
  \<open>regs\<close> and \<open>csrs\<close> are the C arrays; every index the code computes is masked to 5 bits
  (registers) or is a 12-bit field of the instruction (control registers).
\<close>

record cpu =
  regs :: "u64 \<Rightarrow> u64"
  pc :: u64
  csrs :: "u16 \<Rightarrow> u64"
  mode :: cpu_mode_t
  cbus :: bus
  enable_paging :: bool
  pagetable :: u64

definition cpu_new :: "u8 list \<Rightarrow> u8 list \<Rightarrow> stop + cpu" where
  "cpu_new code dsk =
     bindE (ram_new code) (\<lambda>r. Inr
       \<lparr>regs = (\<lambda>_. 0)(2 := RAM_BASE + RAM_SIZE), pc = RAM_BASE, csrs = (\<lambda>_. 0),
        mode = MACHINE, cbus = bus_new r (virtio_new dsk), enable_paging = False, pagetable = 0\<rparr>)"

section \<open>Control and status registers\<close>

abbreviation (input) MSTATUS :: u16 where "MSTATUS \<equiv> 0x300"
abbreviation (input) MEDELEG :: u16 where "MEDELEG \<equiv> 0x302"
abbreviation (input) MIDELEG :: u16 where "MIDELEG \<equiv> 0x303"
abbreviation (input) MIE :: u16 where "MIE \<equiv> 0x304"
abbreviation (input) MTVEC :: u16 where "MTVEC \<equiv> 0x305"
abbreviation (input) MEPC :: u16 where "MEPC \<equiv> 0x341"
abbreviation (input) MCAUSE :: u16 where "MCAUSE \<equiv> 0x342"
abbreviation (input) MTVAL :: u16 where "MTVAL \<equiv> 0x343"
abbreviation (input) MIP :: u16 where "MIP \<equiv> 0x344"
abbreviation (input) SSTATUS :: u16 where "SSTATUS \<equiv> 0x100"
abbreviation (input) SIE :: u16 where "SIE \<equiv> 0x104"
abbreviation (input) STVEC :: u16 where "STVEC \<equiv> 0x105"
abbreviation (input) SEPC :: u16 where "SEPC \<equiv> 0x141"
abbreviation (input) SCAUSE :: u16 where "SCAUSE \<equiv> 0x142"
abbreviation (input) STVAL :: u16 where "STVAL \<equiv> 0x143"
abbreviation (input) SIP :: u16 where "SIP \<equiv> 0x144"
abbreviation (input) SATP :: u16 where "SATP \<equiv> 0x180"

abbreviation (input) MIP_SSIP :: u64 where "MIP_SSIP \<equiv> 0x2"
abbreviation (input) MIP_MSIP :: u64 where "MIP_MSIP \<equiv> 0x8"
abbreviation (input) MIP_STIP :: u64 where "MIP_STIP \<equiv> 0x20"
abbreviation (input) MIP_MTIP :: u64 where "MIP_MTIP \<equiv> 0x80"
abbreviation (input) MIP_SEIP :: u64 where "MIP_SEIP \<equiv> 0x200"
abbreviation (input) MIP_MEIP :: u64 where "MIP_MEIP \<equiv> 0x800"

definition cpu_load_csr :: "cpu \<Rightarrow> u16 \<Rightarrow> u64" where
  "cpu_load_csr c addr =
     (if addr = SIE then csrs c MIE AND csrs c MIDELEG else csrs c addr)"

definition cpu_store_csr :: "u16 \<Rightarrow> u64 \<Rightarrow> cpu \<Rightarrow> cpu" where
  "cpu_store_csr addr value c =
     (if addr = SIE then
        c\<lparr>csrs := (csrs c)(MIE :=
            (csrs c MIE AND NOT (csrs c MIDELEG)) OR (value AND csrs c MIDELEG))\<rparr>
      else c\<lparr>csrs := (csrs c)(addr := value)\<rparr>)"

abbreviation (input) PAGE_SIZE :: u64 where "PAGE_SIZE \<equiv> 4096"

definition cpu_update_paging :: "u16 \<Rightarrow> cpu \<Rightarrow> cpu" where
  "cpu_update_paging csr_addr c =
     (if csr_addr \<noteq> SATP then c
      else c\<lparr>pagetable := (cpu_load_csr c SATP AND (push_bit 44 1 - 1)) * PAGE_SIZE,
             enable_paging := (8 = drop_bit 60 (cpu_load_csr c SATP))\<rparr>)"

section \<open>Address translation\<close>

definition lift_bus :: "cpu \<Rightarrow> (stop, 'a, bus) outcome \<Rightarrow> (stop, 'a, cpu) outcome" where
  "lift_bus c r = (case r of (x, b) \<Rightarrow> (x, c\<lparr>cbus := b\<rparr>))"

definition vpn :: "u64 \<Rightarrow> u64 list" where
  "vpn addr = [drop_bit 12 addr AND 0x1ff, drop_bit 21 addr AND 0x1ff, drop_bit 30 addr AND 0x1ff]"

definition ppn :: "u64 \<Rightarrow> u64 list" where
  "ppn pte = [drop_bit 10 pte AND 0x1ff, drop_bit 19 pte AND 0x1ff, drop_bit 28 pte AND 0x03ffffff]"

text \<open>
  The \<open>while (1)\<close> loop: one page table entry per level, from \<open>level\<close> down to 0.  It
  returns the level of the leaf and the entry.
\<close>

fun translate_walk :: "u64 \<Rightarrow> exception_t \<Rightarrow> nat \<Rightarrow> u64 \<Rightarrow> bus \<Rightarrow> (stop, nat \<times> u64, bus) outcome" where
  "translate_walk addr e level a b =
     bindS (bus_load b (a + vpn addr ! level * 8) 64) (\<lambda>pte b.
       let v = bit pte 0; r = bit pte 1; w = bit pte 2; x = bit pte 3 in
       if \<not> v \<or> (\<not> r \<and> w) then (Inl (Exc e), b)
       else if r \<or> x then (Inr (level, pte), b)
       else
         (case level of
            0 \<Rightarrow> (Inl (Exc e), b)
          | Suc l \<Rightarrow>
              translate_walk addr e l ((drop_bit 10 pte AND 0x0fffffffffff) * PAGE_SIZE) b))"

declare translate_walk.simps [simp del]

definition cpu_translate :: "cpu \<Rightarrow> u64 \<Rightarrow> exception_t \<Rightarrow> (stop, u64, cpu) outcome" where
  "cpu_translate c addr e =
     (if \<not> enable_paging c then (Inr addr, c)
      else
        bindS (lift_bus c (translate_walk addr e 2 (pagetable c) (cbus c))) (\<lambda>(level, pte) c.
          let offset = addr AND 0xfff in
          if level = 0 then
            (Inr (push_bit 12 (drop_bit 10 pte AND 0x0fffffffffff) OR offset), c)
          else if level = 1 then
            (Inr (push_bit 30 (ppn pte ! 2) OR push_bit 21 (ppn pte ! 1) OR
                  push_bit 12 (vpn addr ! 0) OR offset), c)
          else if level = 2 then
            (Inr (push_bit 30 (ppn pte ! 2) OR push_bit 21 (vpn addr ! 1) OR
                  push_bit 12 (vpn addr ! 0) OR offset), c)
          else (Inl (Exc e), c)))"

section \<open>Fetch, load and store\<close>

definition cpu_fetch :: "cpu \<Rightarrow> (stop, u64, cpu) outcome" where
  "cpu_fetch c =
     bindS (cpu_translate c (pc c) INSTRUCTION_PAGE_FAULT) (\<lambda>ppc c.
       case bus_load (cbus c) ppc 32 of
         (Inl (Exc e), b) \<Rightarrow> (Inl (Exc INSTRUCTION_ACCESS_FAULT), c\<lparr>cbus := b\<rparr>)
       | (r, b) \<Rightarrow> (r, c\<lparr>cbus := b\<rparr>))"

definition cpu_load :: "cpu \<Rightarrow> u64 \<Rightarrow> u64 \<Rightarrow> (stop, u64, cpu) outcome" where
  "cpu_load c addr sz =
     bindS (cpu_translate c addr LOAD_PAGE_FAULT) (\<lambda>pa c. lift_bus c (bus_load (cbus c) pa sz))"

definition cpu_store :: "cpu \<Rightarrow> u64 \<Rightarrow> u64 \<Rightarrow> u64 \<Rightarrow> (stop, unit, cpu) outcome" where
  "cpu_store c addr sz value =
     bindS (cpu_translate c addr STORE_AMO_PAGE_FAULT) (\<lambda>pa c.
       case bus_store (cbus c) pa sz value of
         Inl e \<Rightarrow> (Inl e, c)
       | Inr b \<Rightarrow> (Inr (), c\<lparr>cbus := b\<rparr>))"

section \<open>The walk computes the Sv39 translation\<close>

lemma bus_load_wide_state:
  assumes "sz \<noteq> 8"
  shows "snd (bus_load b a sz) = b"
  using assms by (simp add: bus_load_def uart_load_def)

lemma bus_load_64E:
  obtains e where "bus_load b a 64 = (Inl e, b)" | v where "bus_load b a 64 = (Inr v, b)"
  using bus_load_wide_state [of 64 b a]
  by (cases "bus_load b a 64"; cases "fst (bus_load b a 64)") auto

text \<open>The page tables as the walk sees them, and the Sv39 relation of the privileged manual.\<close>

definition pte_at :: "bus \<Rightarrow> u64 \<Rightarrow> u64 option" where
  "pte_at b p = (case fst (bus_load b p 64) of Inl _ \<Rightarrow> None | Inr v \<Rightarrow> Some v)"

definition pte_valid :: "u64 \<Rightarrow> bool" where
  "pte_valid pte \<longleftrightarrow> bit pte 0 \<and> (bit pte 2 \<longrightarrow> bit pte 1)"

definition pte_leaf :: "u64 \<Rightarrow> bool" where
  "pte_leaf pte \<longleftrightarrow> bit pte 1 \<or> bit pte 3"

definition pte_ppn :: "u64 \<Rightarrow> u64" where
  "pte_ppn pte = take_bit 44 (drop_bit 10 pte)"

definition va_vpn :: "nat \<Rightarrow> u64 \<Rightarrow> u64" where
  "va_vpn i va = take_bit 9 (drop_bit (12 + 9 * i) va)"

inductive sv39_leaf :: "(u64 \<Rightarrow> u64 option) \<Rightarrow> u64 \<Rightarrow> nat \<Rightarrow> u64 \<Rightarrow> nat \<Rightarrow> u64 \<Rightarrow> bool"
  for rd va where
  found: "rd (table + 8 * va_vpn i va) = Some pte \<Longrightarrow> pte_valid pte \<Longrightarrow> pte_leaf pte \<Longrightarrow>
    sv39_leaf rd va i table i pte"
| descend: "rd (table + 8 * va_vpn (Suc i) va) = Some pte \<Longrightarrow> pte_valid pte \<Longrightarrow> \<not> pte_leaf pte \<Longrightarrow>
    sv39_leaf rd va i (4096 * pte_ppn pte) l leaf \<Longrightarrow> sv39_leaf rd va (Suc i) table l leaf"

definition sv39_pa :: "nat \<Rightarrow> u64 \<Rightarrow> u64 \<Rightarrow> u64" where
  "sv39_pa l pte va =
     push_bit (12 + 9 * l) (drop_bit (9 * l) (pte_ppn pte)) OR take_bit (12 + 9 * l) va"

inductive_cases sv39_leaf_0E: "sv39_leaf rd va 0 table l pte"
inductive_cases sv39_leaf_SucE: "sv39_leaf rd va (Suc i) table l pte"

lemma vpn_va_vpn: "i \<le> 2 \<Longrightarrow> vpn va ! i = va_vpn i va"
  by (auto simp: vpn_def va_vpn_def and_masks numeral_2_eq_2 le_Suc_eq)

lemma sv39_leaf_level: "sv39_leaf rd va i table l pte \<Longrightarrow> l \<le> i"
  by (induction rule: sv39_leaf.induct) auto

lemma translate_walk_unfold:
  assumes "i \<le> 2"
  shows "translate_walk va e i a b =
    (case fst (bus_load b (a + 8 * va_vpn i va) 64) of
       Inl s \<Rightarrow> (Inl s, b)
     | Inr pte \<Rightarrow>
         if \<not> pte_valid pte then (Inl (Exc e), b)
         else if pte_leaf pte then (Inr (i, pte), b)
         else (case i of 0 \<Rightarrow> (Inl (Exc e), b)
               | Suc j \<Rightarrow> translate_walk va e j (4096 * pte_ppn pte) b))"
proof -
  have idx: "a + vpn va ! i * 8 = a + 8 * va_vpn i va"
    using assms by (simp add: vpn_va_vpn)
  show ?thesis
    by (subst translate_walk.simps, unfold idx, rule bus_load_64E [of b "a + 8 * va_vpn i va"])
      (simp_all add: Let_def pte_valid_def pte_leaf_def pte_ppn_def and_masks mult.commute split: nat.split)
qed

lemma sv39_leaf_unfold:
  "sv39_leaf rd va i a l pte \<longleftrightarrow>
     (\<exists>p. rd (a + 8 * va_vpn i va) = Some p \<and> pte_valid p \<and>
        (if pte_leaf p then l = i \<and> pte = p
         else (\<exists>j. i = Suc j \<and> sv39_leaf rd va j (4096 * pte_ppn p) l pte)))"
  by (subst sv39_leaf.simps) auto

lemma translate_walk_spec:
  assumes "i \<le> 2"
  shows "snd (translate_walk va e i a b) = b \<and>
    (fst (translate_walk va e i a b) = Inr (l, pte) \<longleftrightarrow> sv39_leaf (pte_at b) va i a l pte)"
  using assms
proof (induction i arbitrary: a)
  case 0
  show ?case
    unfolding sv39_leaf_unfold [of _ _ 0] pte_at_def
    by (cases "fst (bus_load b (a + 8 * va_vpn 0 va) 64)") (auto simp: translate_walk_unfold [of 0])
next
  case (Suc i)
  then have IH: "snd (translate_walk va e i a' b) = b"
    "fst (translate_walk va e i a' b) = Inr (l, pte) \<longleftrightarrow> sv39_leaf (pte_at b) va i a' l pte" for a'
    by auto
  show ?case
    unfolding sv39_leaf_unfold [of _ _ "Suc i"] translate_walk_unfold [OF Suc.prems]
    by (cases "fst (bus_load b (a + 8 * va_vpn (Suc i) va) 64)") (auto simp: pte_at_def IH)
qed

lemma sv39_pa_cases:
  "push_bit 12 (drop_bit 10 pte AND 0x0fffffffffff) OR (va AND 0xfff) = sv39_pa 0 pte va"
  "push_bit 30 (ppn pte ! 2) OR push_bit 21 (ppn pte ! 1) OR push_bit 12 (vpn va ! 0) OR (va AND 0xfff) = sv39_pa 1 pte va"
  "push_bit 30 (ppn pte ! 2) OR push_bit 21 (vpn va ! 1) OR push_bit 12 (vpn va ! 0) OR (va AND 0xfff) = sv39_pa 2 pte va"
proof -
  have split: "n - 12 < 9 \<or> 21 + (n - 21) = n" for n :: nat by arith
  show "push_bit 12 (drop_bit 10 pte AND 0x0fffffffffff) OR (va AND 0xfff) = sv39_pa 0 pte va"
    by (simp add: sv39_pa_def pte_ppn_def and_masks)
  show "push_bit 30 (ppn pte ! 2) OR push_bit 21 (ppn pte ! 1) OR push_bit 12 (vpn va ! 0) OR (va AND 0xfff) = sv39_pa 1 pte va"
    by (rule bit_word_eqI) (auto simp: sv39_pa_def pte_ppn_def and_masks ppn_def vpn_def bit_simps)
  show "push_bit 30 (ppn pte ! 2) OR push_bit 21 (vpn va ! 1) OR push_bit 12 (vpn va ! 0) OR (va AND 0xfff) = sv39_pa 2 pte va"
    by (rule bit_word_eqI, auto simp: sv39_pa_def pte_ppn_def and_masks ppn_def vpn_def bit_simps, (metis split)+)
qed

lemma translate_walk_level:
  assumes "fst (translate_walk va e 2 a b) = Inr (l, pte)"
  shows "l = 0 \<or> l = 1 \<or> l = 2"
  using assms sv39_leaf_level [of "pte_at b" va 2 a l pte] translate_walk_spec [of 2 va e a b l pte]
  by auto

lemma cpu_translate_paging:
  assumes "enable_paging c"
  shows "cpu_translate c va e =
    (case fst (translate_walk va e 2 (pagetable c) (cbus c)) of
       Inl s \<Rightarrow> (Inl s, c) | Inr (l, pte) \<Rightarrow> (Inr (sv39_pa l pte va), c))"
proof -
  have st: "translate_walk va e 2 (pagetable c) (cbus c) =
     (fst (translate_walk va e 2 (pagetable c) (cbus c)), cbus c)"
    using translate_walk_spec [of 2 va e "pagetable c" "cbus c"] by (simp add: prod_eq_iff)
  show ?thesis
  proof (cases "fst (translate_walk va e 2 (pagetable c) (cbus c))")
    case (Inl s)
    with st show ?thesis
      using assms by (simp add: cpu_translate_def lift_bus_def)
  next
    case (Inr lp)
    obtain l pte where lp: "lp = (l, pte)" by (cases lp)
    with Inr have "l = 0 \<or> l = 1 \<or> l = 2" by (auto dest: translate_walk_level)
    then show ?thesis
      using st assms Inr lp
      by (elim disjE) (simp_all add: cpu_translate_def lift_bus_def Let_def
          sv39_pa_cases [symmetric, unfolded One_nat_def])
  qed
qed

lemma cpu_translate_state [simp]: "snd (cpu_translate c va e) = c"
  by (cases "enable_paging c")
    (simp_all add: cpu_translate_paging split: sum.split prod.split, simp add: cpu_translate_def)

lemma cpu_translate_bare: "\<not> enable_paging c \<Longrightarrow> cpu_translate c va e = (Inr va, c)"
  by (simp add: cpu_translate_def)

lemma cpu_translate_iff_sv39:
  assumes "enable_paging c"
  shows "fst (cpu_translate c va e) = Inr pa \<longleftrightarrow>
    (\<exists>l pte. sv39_leaf (pte_at (cbus c)) va 2 (pagetable c) l pte \<and> pa = sv39_pa l pte va)"
proof -
  have leaf: "sv39_leaf (pte_at (cbus c)) va 2 (pagetable c) l pte \<longleftrightarrow>
      fst (translate_walk va e 2 (pagetable c) (cbus c)) = Inr (l, pte)" for l pte
    using translate_walk_spec [of 2 va e "pagetable c" "cbus c"] by auto
  show ?thesis
    unfolding leaf cpu_translate_paging [OF assms] by (auto split: sum.split)
qed

lemma sv39_pa_offset: "sv39_pa l pte va AND 0xfff = va AND 0xfff"
  by (rule bit_word_eqI) (auto simp: sv39_pa_def and_masks bit_simps)

lemma cpu_translate_offset:
  assumes "fst (cpu_translate c va e) = Inr pa"
  shows "pa AND 0xfff = va AND 0xfff"
  using assms
  by (cases "enable_paging c") (auto simp: cpu_translate_iff_sv39 sv39_pa_offset cpu_translate_bare)

lemma sie_view:
  "cpu_load_csr (cpu_store_csr SIE v c) SIE = v AND cpu_load_csr c MIDELEG"
  "cpu_load_csr (cpu_store_csr SIE v c) MIE AND NOT (cpu_load_csr c MIDELEG) =
     cpu_load_csr c MIE AND NOT (cpu_load_csr c MIDELEG)"
  "a \<noteq> SIE \<Longrightarrow> a \<noteq> MIE \<Longrightarrow> cpu_load_csr (cpu_store_csr SIE v c) a = cpu_load_csr c a"
  by (auto simp: cpu_load_csr_def cpu_store_csr_def intro!: bit_word_eqI simp: bit_simps)

lemma csr_store_load:
  "a \<noteq> SIE \<Longrightarrow> cpu_load_csr (cpu_store_csr a v c) a = v"
  "a \<noteq> SIE \<Longrightarrow> a' \<noteq> a \<Longrightarrow> a' \<noteq> SIE \<Longrightarrow> cpu_load_csr (cpu_store_csr a v c) a' = cpu_load_csr c a'"
  by (auto simp: cpu_load_csr_def cpu_store_csr_def)

end
