(* ===== verification/Semu_Exec.thy ===== *)
theory Semu_Exec
  imports Semu_Cpu
begin

text \<open>
  \<open>cpu_execute\<close> of \<open>semu/semu.c\<close>: one definition per opcode of its \<open>switch\<close>, composed
  by \<open>cpu_execute\<close> itself.  The program counter has already been advanced by 4 when an
  instruction executes, which is why the code adds \<open>imm - 4\<close>.
\<close>

section \<open>Fields and immediates\<close>

definition f_opcode :: "u64 \<Rightarrow> u64" where "f_opcode inst = inst AND 0x7f"
definition f_rd :: "u64 \<Rightarrow> u64" where "f_rd inst = drop_bit 7 inst AND 0x1f"
definition f_rs1 :: "u64 \<Rightarrow> u64" where "f_rs1 inst = drop_bit 15 inst AND 0x1f"
definition f_rs2 :: "u64 \<Rightarrow> u64" where "f_rs2 inst = drop_bit 20 inst AND 0x1f"
definition f_funct3 :: "u64 \<Rightarrow> u64" where "f_funct3 inst = drop_bit 12 inst AND 0x7"
definition f_funct7 :: "u64 \<Rightarrow> u64" where "f_funct7 inst = drop_bit 25 inst AND 0x7f"

text \<open>The C casts to signed types, widened back to \<open>uint64_t\<close>.\<close>

definition sext8 :: "u64 \<Rightarrow> u64" where "sext8 x = scast (ucast x :: u8)"
definition sext16 :: "u64 \<Rightarrow> u64" where "sext16 x = scast (ucast x :: u16)"
definition sext32 :: "u64 \<Rightarrow> u64" where "sext32 x = scast (ucast x :: u32)"

text \<open>\<open>(int32_t) x >> n\<close>, widened to \<open>uint64_t\<close>.\<close>

definition sar32 :: "nat \<Rightarrow> u64 \<Rightarrow> u64" where
  "sar32 n x = scast (signed_drop_bit n (ucast x :: u32))"

definition imm_load :: "u64 \<Rightarrow> u64" where "imm_load inst = sar32 20 inst"
definition imm_i :: "u64 \<Rightarrow> u64" where "imm_i inst = sar32 20 (inst AND 0xfff00000)"
definition imm_u :: "u64 \<Rightarrow> u64" where "imm_u inst = sext32 (inst AND 0xfffff000)"
definition imm_s :: "u64 \<Rightarrow> u64" where
  "imm_s inst = sar32 20 (inst AND 0xfe000000) OR (drop_bit 7 inst AND 0x1f)"
definition imm_b :: "u64 \<Rightarrow> u64" where
  "imm_b inst = sar32 19 (inst AND 0x80000000) OR push_bit 4 (inst AND 0x80) OR
     (drop_bit 20 inst AND 0x7e0) OR (drop_bit 7 inst AND 0x1e)"
definition imm_j :: "u64 \<Rightarrow> u64" where
  "imm_j inst = sar32 11 (inst AND 0x80000000) OR (inst AND 0xff000) OR
     (drop_bit 9 inst AND 0x800) OR (drop_bit 20 inst AND 0x7fe)"

definition set_reg :: "u64 \<Rightarrow> u64 \<Rightarrow> cpu \<Rightarrow> cpu" where
  "set_reg r v c = c\<lparr>regs := (regs c)(r := v)\<rparr>"

type_synonym exec = "(stop, unit, cpu) outcome"

definition illegal :: "cpu \<Rightarrow> exec" where
  "illegal c = (Inl (Exc ILLEGAL_INSTRUCTION), c)"

definition write_rd :: "u64 \<Rightarrow> u64 \<Rightarrow> cpu \<Rightarrow> exec" where
  "write_rd inst v c = (Inr (), set_reg (f_rd inst) v c)"

definition of_flag :: "bool \<Rightarrow> u64" where
  "of_flag b = (if b then 1 else 0)"

section \<open>Loads, stores and atomics\<close>

definition exec_load :: "u64 \<Rightarrow> cpu \<Rightarrow> exec" where
  "exec_load inst c =
     (let addr = regs c (f_rs1 inst) + imm_load inst; f3 = f_funct3 inst in
      if f3 = 0 then bindS (cpu_load c addr 8) (\<lambda>r. write_rd inst (sext8 r))
      else if f3 = 1 then bindS (cpu_load c addr 16) (\<lambda>r. write_rd inst (sext16 r))
      else if f3 = 2 then bindS (cpu_load c addr 32) (\<lambda>r. write_rd inst (sext32 r))
      else if f3 = 3 then bindS (cpu_load c addr 64) (\<lambda>r. write_rd inst r)
      else if f3 = 4 then bindS (cpu_load c addr 8) (\<lambda>r. write_rd inst r)
      else if f3 = 5 then bindS (cpu_load c addr 16) (\<lambda>r. write_rd inst r)
      else if f3 = 6 then bindS (cpu_load c addr 32) (\<lambda>r. write_rd inst r)
      else illegal c)"

definition exec_fence :: "u64 \<Rightarrow> cpu \<Rightarrow> exec" where
  "exec_fence inst c = (if f_funct3 inst = 0 then (Inr (), c) else illegal c)"

definition exec_store :: "u64 \<Rightarrow> cpu \<Rightarrow> exec" where
  "exec_store inst c =
     (let addr = regs c (f_rs1 inst) + imm_s inst; v = regs c (f_rs2 inst); f3 = f_funct3 inst in
      if f3 = 0 then cpu_store c addr 8 v
      else if f3 = 1 then cpu_store c addr 16 v
      else if f3 = 2 then cpu_store c addr 32 v
      else if f3 = 3 then cpu_store c addr 64 v
      else illegal c)"

definition exec_amo :: "u64 \<Rightarrow> cpu \<Rightarrow> exec" where
  "exec_amo inst c =
     (let funct5 = drop_bit 2 (f_funct7 inst AND 0x7c); f3 = f_funct3 inst;
          addr = regs c (f_rs1 inst); v = regs c (f_rs2 inst) in
      if f3 = 2 \<and> funct5 = 0 then
        bindS (cpu_load c addr 32) (\<lambda>t c. bindS (cpu_store c addr 32 (t + v)) (\<lambda>_. write_rd inst t))
      else if f3 = 3 \<and> funct5 = 0 then
        bindS (cpu_load c addr 64) (\<lambda>t c. bindS (cpu_store c addr 64 (t + v)) (\<lambda>_. write_rd inst t))
      else if f3 = 2 \<and> funct5 = 1 then
        bindS (cpu_load c addr 32) (\<lambda>t c. bindS (cpu_store c addr 32 v) (\<lambda>_. write_rd inst t))
      else if f3 = 3 \<and> funct5 = 1 then
        bindS (cpu_load c addr 64) (\<lambda>t c. bindS (cpu_store c addr 64 v) (\<lambda>_. write_rd inst t))
      else illegal c)"

section \<open>Integer computation\<close>

definition exec_op_imm :: "u64 \<Rightarrow> cpu \<Rightarrow> exec" where
  "exec_op_imm inst c =
     (let imm = imm_i inst; shamt = unat (ucast (imm AND 0x3f) :: u32);
          x = regs c (f_rs1 inst); f3 = f_funct3 inst in
      if f3 = 0 then write_rd inst (x + imm) c
      else if f3 = 1 then write_rd inst (push_bit shamt x) c
      else if f3 = 2 then write_rd inst (of_flag (x <s imm)) c
      else if f3 = 3 then write_rd inst (of_flag (x < imm)) c
      else if f3 = 4 then write_rd inst (x XOR imm) c
      else if f3 = 5 then
        (if drop_bit 1 (f_funct7 inst) = 0x00 then write_rd inst (drop_bit shamt x) c
         else if drop_bit 1 (f_funct7 inst) = 0x10 then write_rd inst (signed_drop_bit shamt x) c
         else illegal c)
      else if f3 = 6 then write_rd inst (x OR imm) c
      else if f3 = 7 then write_rd inst (x AND imm) c
      else illegal c)"

definition exec_auipc :: "u64 \<Rightarrow> cpu \<Rightarrow> exec" where
  "exec_auipc inst c = write_rd inst (pc c + imm_u inst - 4) c"

definition exec_op_imm32 :: "u64 \<Rightarrow> cpu \<Rightarrow> exec" where
  "exec_op_imm32 inst c =
     (let imm = imm_load inst; shamt = unat (ucast (imm AND 0x1f) :: u32);
          x = regs c (f_rs1 inst); f3 = f_funct3 inst in
      if f3 = 0 then write_rd inst (sext32 (x + imm)) c
      else if f3 = 1 then write_rd inst (sext32 (push_bit shamt x)) c
      else if f3 = 5 then
        (if f_funct7 inst = 0x00 then write_rd inst (scast (drop_bit shamt (ucast x :: u32))) c
         else if f_funct7 inst = 0x20 then write_rd inst (sar32 shamt x) c
         else illegal c)
      else illegal c)"

definition exec_op :: "u64 \<Rightarrow> cpu \<Rightarrow> exec" where
  "exec_op inst c =
     (let x = regs c (f_rs1 inst); y = regs c (f_rs2 inst);
          shamt = unat (ucast (y AND 0x3f) :: u32);
          f3 = f_funct3 inst; f7 = f_funct7 inst in
      if f3 = 0 \<and> f7 = 0x00 then write_rd inst (x + y) c
      else if f3 = 0 \<and> f7 = 0x01 then write_rd inst (x * y) c
      else if f3 = 0 \<and> f7 = 0x20 then write_rd inst (x - y) c
      else if f3 = 1 \<and> f7 = 0x00 then write_rd inst (push_bit shamt x) c
      else if f3 = 2 \<and> f7 = 0x00 then write_rd inst (of_flag (x <s y)) c
      else if f3 = 3 \<and> f7 = 0x00 then write_rd inst (of_flag (x < y)) c
      else if f3 = 4 \<and> f7 = 0x00 then write_rd inst (x XOR y) c
      else if f3 = 5 \<and> f7 = 0x00 then write_rd inst (drop_bit shamt x) c
      else if f3 = 5 \<and> f7 = 0x20 then write_rd inst (signed_drop_bit shamt x) c
      else if f3 = 6 \<and> f7 = 0x00 then write_rd inst (x OR y) c
      else if f3 = 7 \<and> f7 = 0x00 then write_rd inst (x AND y) c
      else illegal c)"

definition exec_lui :: "u64 \<Rightarrow> cpu \<Rightarrow> exec" where
  "exec_lui inst c = write_rd inst (imm_u inst) c"

text \<open>
  In \<open>remuw\<close> the guard tests all 64 bits of the divisor and the remainder divides by its
  low 32 bits: a divisor that is a nonzero multiple of \<open>2^32\<close> divides by zero.
\<close>

definition exec_op32 :: "u64 \<Rightarrow> cpu \<Rightarrow> exec" where
  "exec_op32 inst c =
     (let x = regs c (f_rs1 inst); y = regs c (f_rs2 inst);
          shamt = unat (ucast (y AND 0x1f) :: u32);
          f3 = f_funct3 inst; f7 = f_funct7 inst in
      if f3 = 0 \<and> f7 = 0x00 then write_rd inst (sext32 (x + y)) c
      else if f3 = 0 \<and> f7 = 0x20 then write_rd inst (sext32 (x - y)) c
      else if f3 = 1 \<and> f7 = 0x00 then write_rd inst (scast (push_bit shamt (ucast x :: u32))) c
      else if f3 = 5 \<and> f7 = 0x00 then write_rd inst (scast (drop_bit shamt (ucast x :: u32))) c
      else if f3 = 5 \<and> f7 = 0x01 then write_rd inst (if y = 0 then - 1 else x div y) c
      else if f3 = 5 \<and> f7 = 0x20 then write_rd inst (sar32 shamt x) c
      else if f3 = 7 \<and> f7 = 0x01 then
        (if y = 0 then write_rd inst x c
         else if (ucast y :: u32) = 0 then (Inl DivisionByZero, c)
         else write_rd inst (scast ((ucast x :: u32) mod ucast y)) c)
      else illegal c)"

section \<open>Control transfer\<close>

definition branch_to :: "u64 \<Rightarrow> bool \<Rightarrow> cpu \<Rightarrow> exec" where
  "branch_to inst taken c = (Inr (), if taken then c\<lparr>pc := pc c + (imm_b inst - 4)\<rparr> else c)"

definition exec_branch :: "u64 \<Rightarrow> cpu \<Rightarrow> exec" where
  "exec_branch inst c =
     (let x = regs c (f_rs1 inst); y = regs c (f_rs2 inst); f3 = f_funct3 inst in
      if f3 = 0 then branch_to inst (x = y) c
      else if f3 = 1 then branch_to inst (x \<noteq> y) c
      else if f3 = 4 then branch_to inst (x <s y) c
      else if f3 = 5 then branch_to inst (y <=s x) c
      else if f3 = 6 then branch_to inst (x < y) c
      else if f3 = 7 then branch_to inst (y \<le> x) c
      else illegal c)"

definition exec_jalr :: "u64 \<Rightarrow> cpu \<Rightarrow> exec" where
  "exec_jalr inst c =
     (let t = pc c; c = c\<lparr>pc := (regs c (f_rs1 inst) + imm_i inst) AND NOT 1\<rparr>
      in write_rd inst t c)"

definition exec_jal :: "u64 \<Rightarrow> cpu \<Rightarrow> exec" where
  "exec_jal inst c =
     (let c = set_reg (f_rd inst) (pc c) c in (Inr (), c\<lparr>pc := pc c + (imm_j inst - 4)\<rparr>))"

section \<open>System instructions\<close>

definition f_csr :: "u64 \<Rightarrow> u16" where
  "f_csr inst = ucast (drop_bit 20 (inst AND 0xfff00000))"

definition set_csr_bit :: "u16 \<Rightarrow> nat \<Rightarrow> bool \<Rightarrow> cpu \<Rightarrow> cpu" where
  "set_csr_bit a n v c =
     cpu_store_csr a (if v then cpu_load_csr c a OR push_bit n 1
                      else cpu_load_csr c a AND NOT (push_bit n 1)) c"

definition exec_sret :: "cpu \<Rightarrow> cpu" where
  "exec_sret c =
     (let c = c\<lparr>pc := cpu_load_csr c SEPC\<rparr>;
          c = c\<lparr>mode := (if bit (cpu_load_csr c SSTATUS) 8 then SUPERVISOR else USER)\<rparr>;
          c = set_csr_bit SSTATUS 1 (bit (cpu_load_csr c SSTATUS) 5) c;
          c = set_csr_bit SSTATUS 5 True c
      in set_csr_bit SSTATUS 8 False c)"

definition exec_mret :: "cpu \<Rightarrow> cpu" where
  "exec_mret c =
     (let c = c\<lparr>pc := cpu_load_csr c MEPC\<rparr>;
          mpp = drop_bit 11 (cpu_load_csr c MSTATUS) AND 3;
          c = c\<lparr>mode := (if mpp = 2 then MACHINE else if mpp = 1 then SUPERVISOR else USER)\<rparr>;
          c = set_csr_bit MSTATUS 3 (bit (cpu_load_csr c MSTATUS) 7) c;
          c = set_csr_bit MSTATUS 7 True c
      in cpu_store_csr MSTATUS (cpu_load_csr c MSTATUS AND NOT (push_bit 11 3)) c)"

text \<open>Read the register, store the new value, write \<open>rd\<close>, refresh the paging state.\<close>

definition csr_op :: "u64 \<Rightarrow> (u64 \<Rightarrow> u64) \<Rightarrow> cpu \<Rightarrow> exec" where
  "csr_op inst f c =
     (let addr = f_csr inst; t = cpu_load_csr c addr;
          c = cpu_store_csr addr (f t) c;
          c = set_reg (f_rd inst) t c
      in (Inr (), cpu_update_paging addr c))"

definition exec_system :: "u64 \<Rightarrow> cpu \<Rightarrow> exec" where
  "exec_system inst c =
     (let f3 = f_funct3 inst; f7 = f_funct7 inst; rs2 = f_rs2 inst; rs1 = f_rs1 inst in
      if f3 = 0 then
        (if rs2 = 0 \<and> f7 = 0 then (Inl (Exc (ECALL_FROM (mode c))), c)
         else if rs2 = 1 \<and> f7 = 0 then (Inl (Exc BREAKPOINT), c)
         else if rs2 = 2 \<and> f7 = 8 then (Inr (), exec_sret c)
         else if rs2 = 2 \<and> f7 = 0x18 then (Inr (), exec_mret c)
         else if f7 = 9 then (Inr (), c)
         else illegal c)
      else if f3 = 1 then csr_op inst (\<lambda>t. regs c rs1) c
      else if f3 = 2 then csr_op inst (\<lambda>t. t OR regs c rs1) c
      else if f3 = 3 then csr_op inst (\<lambda>t. t AND NOT (regs c rs1)) c
      else if f3 = 5 then csr_op inst (\<lambda>t. rs1) c
      else if f3 = 6 then csr_op inst (\<lambda>t. t OR rs1) c
      else if f3 = 7 then csr_op inst (\<lambda>t. t AND NOT rs1) c
      else illegal c)"

section \<open>The instruction switch\<close>

definition cpu_execute :: "cpu \<Rightarrow> u64 \<Rightarrow> exec" where
  "cpu_execute c inst =
     (let c = set_reg 0 0 c; opcode = f_opcode inst in
      if opcode = 0x03 then exec_load inst c
      else if opcode = 0x0f then exec_fence inst c
      else if opcode = 0x13 then exec_op_imm inst c
      else if opcode = 0x17 then exec_auipc inst c
      else if opcode = 0x1b then exec_op_imm32 inst c
      else if opcode = 0x23 then exec_store inst c
      else if opcode = 0x2f then exec_amo inst c
      else if opcode = 0x33 then exec_op inst c
      else if opcode = 0x37 then exec_lui inst c
      else if opcode = 0x3b then exec_op32 inst c
      else if opcode = 0x63 then exec_branch inst c
      else if opcode = 0x67 then exec_jalr inst c
      else if opcode = 0x6f then exec_jal inst c
      else if opcode = 0x73 then exec_system inst c
      else illegal c)"

end
