(* ===== verification/Semu_Isa.thy ===== *)
theory Semu_Isa
  imports Semu_Exec
begin

text \<open>
  A reference semantics for the RV64 integer and control-transfer instructions, written
  from the manual: instruction encodings, and the effect of an instruction on the
  architectural state (in which \<open>x0\<close> is zero).  The emulator's decoder inverts the
  encodings and \<open>cpu_execute\<close> computes the reference step on every one of them.
\<close>

section \<open>Encodings\<close>

lemma and_shifted_mask:
  fixes w :: "'a::len word"
  shows "w AND push_bit k (mask m) = push_bit k (take_bit m (drop_bit k w))"
  by (rule bit_word_eqI) (auto simp: bit_simps)

lemma and_field_masks [and_masks]:
  fixes w :: u64
  shows "w AND 0xfff00000 = push_bit 20 (take_bit 12 (drop_bit 20 w))"
    "w AND 0xfffff000 = push_bit 12 (take_bit 20 (drop_bit 12 w))"
    "w AND 0xfe000000 = push_bit 25 (take_bit 7 (drop_bit 25 w))"
    "w AND 0x80000000 = push_bit 31 (take_bit 1 (drop_bit 31 w))"
    "w AND 0x80 = push_bit 7 (take_bit 1 (drop_bit 7 w))"
    "w AND 0x7e0 = push_bit 5 (take_bit 6 (drop_bit 5 w))"
    "w AND 0x1e = push_bit 1 (take_bit 4 (drop_bit 1 w))"
    "w AND 0xff000 = push_bit 12 (take_bit 8 (drop_bit 12 w))"
    "w AND 0x800 = push_bit 11 (take_bit 1 (drop_bit 11 w))"
    "w AND 0x7fe = push_bit 1 (take_bit 10 (drop_bit 1 w))"
    "w AND 0x7c = push_bit 2 (take_bit 5 (drop_bit 2 w))"
  using and_shifted_mask [of w 20 12] and_shifted_mask [of w 12 20] and_shifted_mask [of w 25 7]
    and_shifted_mask [of w 31 1] and_shifted_mask [of w 7 1] and_shifted_mask [of w 5 6]
    and_shifted_mask [of w 1 4] and_shifted_mask [of w 12 8] and_shifted_mask [of w 11 1]
    and_shifted_mask [of w 1 10] and_shifted_mask [of w 2 5]
  by (simp_all add: mask_eq_exp_minus_1)

text \<open>Equality of 64-bit words, one bit at a time: the premise is decided position by position.\<close>

lemma word64_eqI:
  fixes a b :: u64
  assumes "list_all (\<lambda>n. bit a n = bit b n)
      [0, 1, 2, 3, 4, 5, 6, 7, 8, 9, 10, 11, 12, 13, 14, 15, 16, 17, 18, 19, 20, 21, 22, 23, 24,
       25, 26, 27, 28, 29, 30, 31, 32, 33, 34, 35, 36, 37, 38, 39, 40, 41, 42, 43, 44, 45, 46,
       47, 48, 49, 50, 51, 52, 53, 54, 55, 56, 57, 58, 59, 60, 61, 62, 63]"
  shows "a = b"
proof (rule bit_word_eqI)
  fix n assume "n < LENGTH(64)"
  then have "n \<in> set [0..<64]" by simp
  also have "[0..<64] = [0, 1, 2, 3, 4, 5, 6, 7, 8, 9, 10, 11, 12, 13, 14, 15, 16, 17, 18, 19, 20, 21, 22, 23, 24,
       25, 26, 27, 28, 29, 30, 31, 32, 33, 34, 35, 36, 37, 38, 39, 40, 41, 42, 43, 44, 45, 46,
       47, 48, 49, 50, 51, 52, 53, 54, 55, 56, 57, 58, 59, 60, 61, 62, 63]"
    by (simp add: upt_conv_Cons)
  finally show "bit a n = bit b n"
    using assms unfolding list_all_iff by blast
qed

type_synonym reg = "5 word"

definition enc_r :: "7 word \<Rightarrow> reg \<Rightarrow> reg \<Rightarrow> 3 word \<Rightarrow> reg \<Rightarrow> 7 word \<Rightarrow> u64" where
  "enc_r f7 rs2 rs1 f3 rd op =
     ucast op OR push_bit 7 (ucast rd) OR push_bit 12 (ucast f3) OR push_bit 15 (ucast rs1) OR
     push_bit 20 (ucast rs2) OR push_bit 25 (ucast f7)"

lemma bit_beyond [simp]:
  "7 \<le> n \<Longrightarrow> \<not> bit (w7 :: 7 word) n" "5 \<le> n \<Longrightarrow> \<not> bit (w5 :: 5 word) n"
  "3 \<le> n \<Longrightarrow> \<not> bit (w3 :: 3 word) n" "12 \<le> n \<Longrightarrow> \<not> bit (w12 :: 12 word) n"
  "20 \<le> n \<Longrightarrow> \<not> bit (w20 :: 20 word) n" "6 \<le> n \<Longrightarrow> \<not> bit (w6 :: 6 word) n"
  by (auto dest!: bit_imp_le_length)

lemma enc_r_fields:
  "f_opcode (enc_r f7 rs2 rs1 f3 rd op) = ucast op"
  "f_rd (enc_r f7 rs2 rs1 f3 rd op) = ucast rd"
  "f_rs1 (enc_r f7 rs2 rs1 f3 rd op) = ucast rs1"
  "f_rs2 (enc_r f7 rs2 rs1 f3 rd op) = ucast rs2"
  "f_funct3 (enc_r f7 rs2 rs1 f3 rd op) = ucast f3"
  "f_funct7 (enc_r f7 rs2 rs1 f3 rd op) = ucast f7"
  by (rule word64_eqI; simp add: enc_r_def f_opcode_def f_rd_def f_rs1_def f_rs2_def f_funct3_def f_funct7_def and_masks bit_simps)+

definition enc_i :: "12 word \<Rightarrow> reg \<Rightarrow> 3 word \<Rightarrow> reg \<Rightarrow> 7 word \<Rightarrow> u64" where
  "enc_i imm rs1 f3 rd op =
     ucast op OR push_bit 7 (ucast rd) OR push_bit 12 (ucast f3) OR push_bit 15 (ucast rs1) OR
     push_bit 20 (ucast imm)"

definition enc_s :: "12 word \<Rightarrow> reg \<Rightarrow> reg \<Rightarrow> 3 word \<Rightarrow> 7 word \<Rightarrow> u64" where
  "enc_s imm rs2 rs1 f3 op =
     ucast op OR push_bit 7 (take_bit 5 (ucast imm)) OR push_bit 12 (ucast f3) OR
     push_bit 15 (ucast rs1) OR push_bit 20 (ucast rs2) OR push_bit 25 (drop_bit 5 (ucast imm))"

definition enc_b :: "12 word \<Rightarrow> reg \<Rightarrow> reg \<Rightarrow> 3 word \<Rightarrow> 7 word \<Rightarrow> u64" where
  "enc_b imm rs2 rs1 f3 op =
     ucast op OR push_bit 7 (take_bit 1 (drop_bit 10 (ucast imm))) OR
     push_bit 8 (take_bit 4 (ucast imm)) OR push_bit 12 (ucast f3) OR
     push_bit 15 (ucast rs1) OR push_bit 20 (ucast rs2) OR
     push_bit 25 (take_bit 6 (drop_bit 4 (ucast imm))) OR push_bit 31 (drop_bit 11 (ucast imm))"

definition enc_u :: "20 word \<Rightarrow> reg \<Rightarrow> 7 word \<Rightarrow> u64" where
  "enc_u imm rd op = ucast op OR push_bit 7 (ucast rd) OR push_bit 12 (ucast imm)"

definition enc_j :: "20 word \<Rightarrow> reg \<Rightarrow> 7 word \<Rightarrow> u64" where
  "enc_j imm rd op =
     ucast op OR push_bit 7 (ucast rd) OR push_bit 12 (take_bit 8 (drop_bit 11 (ucast imm))) OR
     push_bit 20 (take_bit 1 (drop_bit 10 (ucast imm))) OR push_bit 21 (take_bit 10 (ucast imm)) OR
     push_bit 31 (drop_bit 19 (ucast imm))"

lemmas field_defs = f_opcode_def f_rd_def f_rs1_def f_rs2_def f_funct3_def f_funct7_def

lemma enc_i_fields:
  "f_opcode (enc_i imm rs1 f3 rd op) = ucast op"
  "f_rd (enc_i imm rs1 f3 rd op) = ucast rd"
  "f_rs1 (enc_i imm rs1 f3 rd op) = ucast rs1"
  "f_funct3 (enc_i imm rs1 f3 rd op) = ucast f3"
  "f_funct7 (enc_i imm rs1 f3 rd op) = drop_bit 5 (ucast imm)"
  "f_rs2 (enc_i imm rs1 f3 rd op) = take_bit 5 (ucast imm)"
  by (rule word64_eqI; simp add: enc_i_def field_defs and_masks bit_simps)+

lemma enc_s_fields:
  "f_opcode (enc_s imm rs2 rs1 f3 op) = ucast op"
  "f_rs1 (enc_s imm rs2 rs1 f3 op) = ucast rs1"
  "f_rs2 (enc_s imm rs2 rs1 f3 op) = ucast rs2"
  "f_funct3 (enc_s imm rs2 rs1 f3 op) = ucast f3"
  by (rule word64_eqI; simp add: enc_s_def field_defs and_masks bit_simps)+

lemma enc_b_fields:
  "f_opcode (enc_b imm rs2 rs1 f3 op) = ucast op"
  "f_rs1 (enc_b imm rs2 rs1 f3 op) = ucast rs1"
  "f_rs2 (enc_b imm rs2 rs1 f3 op) = ucast rs2"
  "f_funct3 (enc_b imm rs2 rs1 f3 op) = ucast f3"
  by (rule word64_eqI; simp add: enc_b_def field_defs and_masks bit_simps)+

lemma enc_u_fields:
  "f_opcode (enc_u uimm rd op) = ucast op"
  "f_rd (enc_u uimm rd op) = ucast rd"
  "f_opcode (enc_j uimm rd op) = ucast op"
  "f_rd (enc_j uimm rd op) = ucast rd"
  by (rule word64_eqI; simp add: enc_u_def enc_j_def field_defs and_masks bit_simps)+

lemma imm_i_decodes: "imm_i (enc_i imm rs1 f3 rd op) = scast imm" "imm_load (enc_i imm rs1 f3 rd op) = scast imm"
  by (rule word64_eqI; simp add: enc_i_def imm_i_def imm_load_def sar32_def and_masks bit_simps)+

lemma imm_s_decodes: "imm_s (enc_s imm rs2 rs1 f3 op) = scast imm"
  by (rule word64_eqI; simp add: enc_s_def imm_s_def sar32_def and_masks bit_simps)

lemma imm_b_decodes: "imm_b (enc_b imm rs2 rs1 f3 op) = push_bit 1 (scast imm)"
  by (rule word64_eqI; simp add: enc_b_def imm_b_def sar32_def and_masks bit_simps del: push_bit_Suc take_bit_Suc_0)

lemma imm_u_decodes: "imm_u (enc_u uimm rd op) = scast (push_bit 12 (ucast uimm) :: u32)"
  by (rule word64_eqI; simp add: enc_u_def imm_u_def sext32_def and_masks bit_simps)

lemma imm_j_decodes: "imm_j (enc_j uimm rd op) = push_bit 1 (scast uimm)"
  by (rule word64_eqI; simp add: enc_j_def imm_j_def sar32_def and_masks bit_simps del: push_bit_Suc take_bit_Suc_0)


section \<open>A reference semantics of the integer and control-transfer instructions\<close>

datatype rop = ADD | SUB | MUL | SLL | SLT | SLTU | XOR_R | SRL | SRA | OR_R | AND_R
datatype iop = ADDI | SLTI | SLTIU | XORI | ORI | ANDI
datatype shop = SLLI | SRLI | SRAI
datatype wop = ADDW | SUBW | SLLW | SRLW | SRAW
datatype bop = BEQ | BNE | BLT | BGE | BLTU | BGEU

datatype isa =
    Op rop reg reg reg
  | OpImm iop reg reg "12 word"
  | Shift shop reg reg "6 word"
  | OpW wop reg reg reg
  | AddIW reg reg "12 word"
  | ShiftW shop reg reg "5 word"
  | Lui reg "20 word"
  | Auipc reg "20 word"
  | Jal reg "20 word"
  | Jalr reg reg "12 word"
  | Branch bop reg reg "12 word"

fun rop_code :: "rop \<Rightarrow> 7 word \<times> 3 word" where
  "rop_code ADD = (0, 0)" | "rop_code SUB = (0x20, 0)" | "rop_code MUL = (1, 0)"
| "rop_code SLL = (0, 1)" | "rop_code SLT = (0, 2)" | "rop_code SLTU = (0, 3)"
| "rop_code XOR_R = (0, 4)" | "rop_code SRL = (0, 5)" | "rop_code SRA = (0x20, 5)"
| "rop_code OR_R = (0, 6)" | "rop_code AND_R = (0, 7)"

fun iop_code :: "iop \<Rightarrow> 3 word" where
  "iop_code ADDI = 0" | "iop_code SLTI = 2" | "iop_code SLTIU = 3"
| "iop_code XORI = 4" | "iop_code ORI = 6" | "iop_code ANDI = 7"

fun shop_code :: "shop \<Rightarrow> 6 word \<times> 3 word" where
  "shop_code SLLI = (0, 1)" | "shop_code SRLI = (0, 5)" | "shop_code SRAI = (0x10, 5)"

fun wop_code :: "wop \<Rightarrow> 7 word \<times> 3 word" where
  "wop_code ADDW = (0, 0)" | "wop_code SUBW = (0x20, 0)" | "wop_code SLLW = (0, 1)"
| "wop_code SRLW = (0, 5)" | "wop_code SRAW = (0x20, 5)"

fun bop_code :: "bop \<Rightarrow> 3 word" where
  "bop_code BEQ = 0" | "bop_code BNE = 1" | "bop_code BLT = 4"
| "bop_code BGE = 5" | "bop_code BLTU = 6" | "bop_code BGEU = 7"

definition shift_imm :: "6 word \<Rightarrow> 6 word \<Rightarrow> 12 word" where
  "shift_imm f6 sh = push_bit 6 (ucast f6) OR ucast sh"

fun encode :: "isa \<Rightarrow> u64" where
  "encode (Op f rd rs1 rs2) = enc_r (fst (rop_code f)) rs2 rs1 (snd (rop_code f)) rd 0x33"
| "encode (OpImm f rd rs1 imm) = enc_i imm rs1 (iop_code f) rd 0x13"
| "encode (Shift f rd rs1 sh) = enc_i (shift_imm (fst (shop_code f)) sh) rs1 (snd (shop_code f)) rd 0x13"
| "encode (OpW f rd rs1 rs2) = enc_r (fst (wop_code f)) rs2 rs1 (snd (wop_code f)) rd 0x3b"
| "encode (AddIW rd rs1 imm) = enc_i imm rs1 0 rd 0x1b"
| "encode (ShiftW f rd rs1 sh) = enc_i (shift_imm (fst (shop_code f)) (ucast sh)) rs1 (snd (shop_code f)) rd 0x1b"
| "encode (Lui rd imm) = enc_u imm rd 0x37"
| "encode (Auipc rd imm) = enc_u imm rd 0x17"
| "encode (Jal rd imm) = enc_j imm rd 0x6f"
| "encode (Jalr rd rs1 imm) = enc_i imm rs1 0 rd 0x67"
| "encode (Branch f rs1 rs2 imm) = enc_b imm rs2 rs1 (bop_code f) 0x63"

fun rop_val :: "rop \<Rightarrow> u64 \<Rightarrow> u64 \<Rightarrow> u64" where
  "rop_val ADD x y = x + y"
| "rop_val SUB x y = x - y"
| "rop_val MUL x y = x * y"
| "rop_val SLL x y = push_bit (unat (take_bit 6 y)) x"
| "rop_val SLT x y = (if sint x < sint y then 1 else 0)"
| "rop_val SLTU x y = (if uint x < uint y then 1 else 0)"
| "rop_val XOR_R x y = x XOR y"
| "rop_val SRL x y = drop_bit (unat (take_bit 6 y)) x"
| "rop_val SRA x y = signed_drop_bit (unat (take_bit 6 y)) x"
| "rop_val OR_R x y = x OR y"
| "rop_val AND_R x y = x AND y"

fun iop_val :: "iop \<Rightarrow> u64 \<Rightarrow> u64 \<Rightarrow> u64" where
  "iop_val ADDI x y = rop_val ADD x y"
| "iop_val SLTI x y = rop_val SLT x y"
| "iop_val SLTIU x y = rop_val SLTU x y"
| "iop_val XORI x y = rop_val XOR_R x y"
| "iop_val ORI x y = rop_val OR_R x y"
| "iop_val ANDI x y = rop_val AND_R x y"

fun shop_val :: "shop \<Rightarrow> 'a::len word \<Rightarrow> nat \<Rightarrow> 'a word" where
  "shop_val SLLI x n = push_bit n x"
| "shop_val SRLI x n = drop_bit n x"
| "shop_val SRAI x n = signed_drop_bit n x"

fun wop_val :: "wop \<Rightarrow> u32 \<Rightarrow> u32 \<Rightarrow> u32" where
  "wop_val ADDW x y = x + y"
| "wop_val SUBW x y = x - y"
| "wop_val SLLW x y = shop_val SLLI x (unat (take_bit 5 y))"
| "wop_val SRLW x y = shop_val SRLI x (unat (take_bit 5 y))"
| "wop_val SRAW x y = shop_val SRAI x (unat (take_bit 5 y))"

fun bop_taken :: "bop \<Rightarrow> u64 \<Rightarrow> u64 \<Rightarrow> bool" where
  "bop_taken BEQ x y \<longleftrightarrow> x = y"
| "bop_taken BNE x y \<longleftrightarrow> x \<noteq> y"
| "bop_taken BLT x y \<longleftrightarrow> sint x < sint y"
| "bop_taken BGE x y \<longleftrightarrow> sint y \<le> sint x"
| "bop_taken BLTU x y \<longleftrightarrow> uint x < uint y"
| "bop_taken BGEU x y \<longleftrightarrow> uint y \<le> uint x"

text \<open>
  The architectural state has \<open>x0 = 0\<close>; a write to \<open>x0\<close> is dropped.  \<open>pc\<close> is the address
  of the next instruction, so the executing one is at \<open>pc - 4\<close>.
\<close>

definition arch :: "cpu \<Rightarrow> cpu" where
  "arch c = c\<lparr>regs := (regs c)(0 := 0)\<rparr>"

definition xreg :: "cpu \<Rightarrow> reg \<Rightarrow> u64" where
  "xreg c r = regs c (ucast r)"

definition put_x :: "reg \<Rightarrow> u64 \<Rightarrow> cpu \<Rightarrow> cpu" where
  "put_x r v c = (if r = 0 then c else c\<lparr>regs := (regs c)(ucast r := v)\<rparr>)"

fun isa_step :: "isa \<Rightarrow> cpu \<Rightarrow> cpu" where
  "isa_step (Op f rd rs1 rs2) c = put_x rd (rop_val f (xreg c rs1) (xreg c rs2)) c"
| "isa_step (OpImm f rd rs1 imm) c = put_x rd (iop_val f (xreg c rs1) (scast imm)) c"
| "isa_step (Shift f rd rs1 sh) c = put_x rd (shop_val f (xreg c rs1) (unat sh)) c"
| "isa_step (OpW f rd rs1 rs2) c =
     put_x rd (scast (wop_val f (ucast (xreg c rs1)) (ucast (xreg c rs2)))) c"
| "isa_step (AddIW rd rs1 imm) c = put_x rd (scast (ucast (xreg c rs1) + scast imm :: u32)) c"
| "isa_step (ShiftW f rd rs1 sh) c = put_x rd (scast (shop_val f (ucast (xreg c rs1) :: u32) (unat sh))) c"
| "isa_step (Lui rd imm) c = put_x rd (scast (push_bit 12 (ucast imm) :: u32)) c"
| "isa_step (Auipc rd imm) c = put_x rd ((pc c - 4) + scast (push_bit 12 (ucast imm) :: u32)) c"
| "isa_step (Jal rd imm) c = (put_x rd (pc c) c)\<lparr>pc := (pc c - 4) + push_bit 1 (scast imm)\<rparr>"
| "isa_step (Jalr rd rs1 imm) c =
     (put_x rd (pc c) c)\<lparr>pc := (xreg c rs1 + scast imm) AND NOT 1\<rparr>"
| "isa_step (Branch f rs1 rs2 imm) c =
     (if bop_taken f (xreg c rs1) (xreg c rs2)
      then c\<lparr>pc := (pc c - 4) + push_bit 1 (scast imm)\<rparr> else c)"

lemma ucast_reg_back: "ucast (ucast (r :: reg) :: u64) = r"
  by (rule bit_word_eqI) (simp add: bit_simps)
lemma ucast_reg_eq_0 [simp]: "(ucast (r :: reg) :: u64) = 0 \<longleftrightarrow> r = 0"
  by (metis ucast_0 ucast_reg_back) 
lemma ucast_arith_u32:
  "ucast (x + y :: u64) = (ucast x + ucast y :: u32)"
  "ucast (x - y :: u64) = (ucast x - ucast y :: u32)"
proof -
  have p: "take_bit 32 (take_bit 64 k + take_bit 64 l) = take_bit 32 (k + l)" for k l :: int
    using take_bit_add [of 32 "take_bit 64 k" "take_bit 64 l"] take_bit_add [of 32 k l] by simp
  have m: "take_bit 32 (take_bit 64 k - take_bit 64 l) = take_bit 32 (k - l)" for k l :: int
    using take_bit_diff [of 32 "take_bit 64 k" "take_bit 64 l"] take_bit_diff [of 32 k l] by simp
  show "ucast (x + y) = (ucast x + ucast y :: u32)"
    by transfer (simp add: p)
  show "ucast (x - y) = (ucast x - ucast y :: u32)"
    by transfer (simp add: m)
qed

lemma unat_shamt6: "unat (ucast (ucast (sh :: 6 word) :: u64) :: u32) = unat sh"
  by (transfer) simp
lemma unat_take_6: "unat (ucast (take_bit 6 y :: u64) :: u32) = unat (take_bit 6 y)"
  by (transfer) (simp)
lemma push_bit_ucast_u32: "push_bit n (ucast x :: u32) = ucast (push_bit n x :: u64)"
  by (rule bit_word_eqI) (auto simp: bit_simps)
lemma ucast_scast_imm12: "ucast (scast (imm :: 12 word) :: u64) = (scast imm :: u32)"
  by (rule bit_word_eqI) (auto simp: bit_simps)

lemma arch_write:
  "arch (set_reg (ucast r) v c) = put_x r v (arch c)"
  by (auto simp: arch_def set_reg_def put_x_def fun_upd_twist)

lemma set_reg_0: "set_reg 0 0 c = arch c"
  by (simp add: set_reg_def arch_def)

lemma arch_idem [simp]: "arch (arch c) = arch c"
  by (simp add: arch_def)

lemma arch_pc [simp]: "arch (c\<lparr>pc := p\<rparr>) = (arch c)\<lparr>pc := p\<rparr>" "pc (arch c) = pc c"
  by (simp_all add: arch_def)

lemma put_x_pc [simp]: "pc (put_x r v c) = pc c"
  by (simp add: put_x_def)


section \<open>The emulator executes the reference semantics\<close>

lemma shift_imm_fields:
  "(scast (shift_imm f6 sh) :: u64) AND 0x3f = ucast sh"
  "(drop_bit 6 (ucast (shift_imm f6 sh)) :: u64) = ucast f6"
  by (rule word64_eqI; simp add: shift_imm_def and_masks bit_simps del: push_bit_Suc take_bit_Suc_0)+

lemma shift_imm5_fields:
  "(scast (shift_imm f6 (ucast (sh :: 5 word))) :: u64) AND 0x1f = ucast sh"
  "(drop_bit 5 (ucast (shift_imm f6 (ucast (sh :: 5 word)))) :: u64) = push_bit 1 (ucast f6)"
  by (rule word64_eqI; simp add: shift_imm_def and_masks bit_simps del: push_bit_Suc take_bit_Suc_0)+

lemma shamt_values:
  "unat (ucast (ucast (s5 :: 5 word) :: u64) :: u32) = unat s5"
  "unat (ucast (take_bit 5 y :: u64) :: u32) = unat (take_bit 5 y)"
  by (transfer; simp)+

lemma unat_take_5_u32: "unat (take_bit 5 (ucast (y :: u64) :: u32)) = unat (take_bit 5 y)"
  by (transfer) simp

lemma sar32_ucast: "sar32 n x = scast (signed_drop_bit n (ucast x :: u32))"
  by (simp add: sar32_def)

lemma set_reg_pc [simp]: "pc (set_reg r v c) = pc c"
  by (simp add: set_reg_def)

lemma arch_write_rd:
  assumes "f_rd inst = ucast r"
  shows "fst (write_rd inst v c) = Inr ()" "arch (snd (write_rd inst v c)) = put_x r v (arch c)"
  using assms by (simp_all add: write_rd_def arch_write)

lemmas op_exec = cpu_execute_def set_reg_0 Let_def enc_r_fields enc_i_fields enc_u_fields enc_b_fields

lemma execute_op: "cpu_execute c (encode (Op f rd rs1 rs2)) =
   write_rd (encode (Op f rd rs1 rs2)) (rop_val f (xreg (arch c) rs1) (xreg (arch c) rs2)) (arch c)"
  by (cases f) (simp_all add: op_exec exec_op_def xreg_def of_flag_def word_sless_alt word_less_def and_masks unat_take_6)

lemma execute_op_imm: "cpu_execute c (encode (OpImm f rd rs1 imm)) =
   write_rd (encode (OpImm f rd rs1 imm)) (iop_val f (xreg (arch c) rs1) (scast imm)) (arch c)"
  by (cases f) (simp_all add: op_exec exec_op_imm_def imm_i_decodes xreg_def of_flag_def word_sless_alt word_less_def)

lemma execute_shift: "cpu_execute c (encode (Shift f rd rs1 sh)) =
   write_rd (encode (Shift f rd rs1 sh)) (shop_val f (xreg (arch c) rs1) (unat sh)) (arch c)"
  by (cases f) (simp_all add: op_exec exec_op_imm_def imm_i_decodes xreg_def shift_imm_fields [unfolded One_nat_def] unat_shamt6)

lemma execute_opw: "cpu_execute c (encode (OpW f rd rs1 rs2)) =
   write_rd (encode (OpW f rd rs1 rs2)) (scast (wop_val f (ucast (xreg (arch c) rs1)) (ucast (xreg (arch c) rs2)))) (arch c)"
  by (cases f) (simp_all add: op_exec exec_op32_def xreg_def and_masks shamt_values unat_take_5_u32 sext32_def sar32_def ucast_arith_u32)

lemma execute_addiw: "cpu_execute c (encode (AddIW rd rs1 imm)) =
   write_rd (encode (AddIW rd rs1 imm)) (scast (ucast (xreg (arch c) rs1) + scast imm :: u32)) (arch c)"
  by (simp add: op_exec exec_op_imm32_def imm_i_decodes xreg_def sext32_def ucast_arith_u32 ucast_scast_imm12)

lemma execute_shiftw: "cpu_execute c (encode (ShiftW f rd rs1 sh)) =
   write_rd (encode (ShiftW f rd rs1 sh)) (scast (shop_val f (ucast (xreg (arch c) rs1) :: u32) (unat sh))) (arch c)"
  by (cases f) (simp_all add: op_exec exec_op_imm32_def imm_i_decodes xreg_def shift_imm5_fields shamt_values
      sext32_def sar32_def push_bit_ucast_u32)

lemma execute_upper:
  "cpu_execute c (encode (Lui rd imm)) =
     write_rd (encode (Lui rd imm)) (scast (push_bit 12 (ucast imm) :: u32)) (arch c)"
  "cpu_execute c (encode (Auipc rd imm)) =
     write_rd (encode (Auipc rd imm)) ((pc c - 4) + scast (push_bit 12 (ucast imm) :: u32)) (arch c)"
  by (simp_all add: op_exec exec_lui_def exec_auipc_def imm_u_decodes add_diff_eq diff_add_eq)

lemma execute_jal: "cpu_execute c (encode (Jal rd imm)) =
   (Inr (), (set_reg (ucast rd) (pc c) (arch c))\<lparr>pc := (pc c - 4) + push_bit 1 (scast imm)\<rparr>)"
  by (simp add: op_exec exec_jal_def imm_j_decodes add_diff_eq diff_add_eq del: push_bit_Suc)

lemma execute_jalr: "cpu_execute c (encode (Jalr rd rs1 imm)) =
   write_rd (encode (Jalr rd rs1 imm)) (pc c)
     ((arch c)\<lparr>pc := (xreg (arch c) rs1 + scast imm) AND NOT 1\<rparr>)"
  by (simp add: op_exec exec_jalr_def imm_i_decodes xreg_def)

lemma execute_branch: "cpu_execute c (encode (Branch f rs1 rs2 imm)) =
   (Inr (), if bop_taken f (xreg (arch c) rs1) (xreg (arch c) rs2)
            then (arch c)\<lparr>pc := (pc c - 4) + push_bit 1 (scast imm)\<rparr> else arch c)"
  by (cases f) (simp_all add: op_exec exec_branch_def branch_to_def imm_b_decodes xreg_def
      word_sless_alt word_sle_eq word_less_def word_le_def del: push_bit_Suc)

lemma encode_rd:
  "f_rd (encode (Op f rd rs1 rs2)) = ucast rd"
  "f_rd (encode (OpImm g rd rs1 imm)) = ucast rd"
  "f_rd (encode (Shift h rd rs1 sh)) = ucast rd"
  "f_rd (encode (OpW k rd rs1 rs2)) = ucast rd"
  "f_rd (encode (AddIW rd rs1 imm)) = ucast rd"
  "f_rd (encode (ShiftW h rd rs1 sh5)) = ucast rd"
  "f_rd (encode (Lui rd uimm)) = ucast rd"
  "f_rd (encode (Auipc rd uimm)) = ucast rd"
  "f_rd (encode (Jalr rd rs1 imm)) = ucast rd"
  by (simp_all add: enc_r_fields enc_i_fields enc_u_fields)

lemma put_x_pc_comm: "put_x r v (c\<lparr>pc := p\<rparr>) = (put_x r v c)\<lparr>pc := p\<rparr>"
  by (simp add: put_x_def)

lemmas execute_encoded = execute_op execute_op_imm execute_shift execute_opw execute_addiw
  execute_shiftw execute_upper execute_jal execute_jalr execute_branch

lemma execute_refines_isa:
  "fst (cpu_execute c (encode i)) = Inr () \<and> arch (snd (cpu_execute c (encode i))) = isa_step i (arch c)"
  by (cases i; simp only: execute_encoded arch_write_rd [OF encode_rd(1)] arch_write_rd [OF encode_rd(2)]
     arch_write_rd [OF encode_rd(3)] arch_write_rd [OF encode_rd(4)] arch_write_rd [OF encode_rd(5)]
     arch_write_rd [OF encode_rd(6)] arch_write_rd [OF encode_rd(7)] arch_write_rd [OF encode_rd(8)]
     arch_write_rd [OF encode_rd(9)] isa_step.simps arch_idem fst_conv snd_conv)
    (simp_all add: arch_write put_x_pc_comm)

end
