(* ===== verification/Semu_Trap.thy ===== *)
theory Semu_Trap
  imports Semu_Exec
begin

text \<open>
  Traps, pending interrupts and the main loop of \<open>semu/semu.c\<close>.  \<open>semu_step\<close> is one turn
  of the \<open>while (1)\<close> loop of \<open>main\<close>; \<open>semu_reach\<close> interleaves such turns with
  characters that arrive on the UART thread.
\<close>

section \<open>Taking a trap\<close>

text \<open>The vector offset of an interrupt: \<open>4 * cause\<close> in vectored mode, in 64 bits.\<close>

definition trap_target :: "u64 \<Rightarrow> bool \<Rightarrow> u64 \<Rightarrow> u64" where
  "trap_target tvec is_interrupt cause =
     (if is_interrupt then (tvec AND NOT 1) + (if bit tvec 0 then 4 * cause else 0)
      else tvec AND NOT 1)"

definition cpu_take_trap :: "exception_t \<Rightarrow> interrupt_t \<Rightarrow> cpu \<Rightarrow> cpu" where
  "cpu_take_trap e intr c =
     (let exception_pc = pc c - 4;
          prev_mode = mode c;
          is_interrupt = (intr \<noteq> NONE);
          cause = (if is_interrupt then push_bit 63 1 OR intr_code intr else exc_code e)
      in if prev_mode \<noteq> MACHINE \<and> bit (cpu_load_csr c MEDELEG) (unat (ucast cause :: u32))
         then
           let c = c\<lparr>mode := SUPERVISOR\<rparr>;
               c = c\<lparr>pc := trap_target (cpu_load_csr c STVEC) is_interrupt cause\<rparr>;
               c = cpu_store_csr SEPC (exception_pc AND NOT 1) c;
               c = cpu_store_csr SCAUSE cause c;
               c = cpu_store_csr STVAL 0 c;
               c = set_csr_bit SSTATUS 5 (bit (cpu_load_csr c SSTATUS) 1) c;
               c = set_csr_bit SSTATUS 1 False c
           in set_csr_bit SSTATUS 8 (prev_mode \<noteq> USER) c
         else
           let c = c\<lparr>mode := MACHINE\<rparr>;
               c = c\<lparr>pc := trap_target (cpu_load_csr c MTVEC) is_interrupt cause\<rparr>;
               c = cpu_store_csr MEPC (exception_pc AND NOT 1) c;
               c = cpu_store_csr MCAUSE cause c;
               c = cpu_store_csr MTVAL 0 c;
               c = set_csr_bit MSTATUS 7 (bit (cpu_load_csr c MSTATUS) 3) c;
               c = set_csr_bit MSTATUS 3 False c
           in cpu_store_csr MSTATUS (cpu_load_csr c MSTATUS AND NOT (push_bit 11 3)) c)"

section \<open>Pending interrupts\<close>

definition VIRTIO_IRQ :: u64 where "VIRTIO_IRQ = 1"
definition UART_IRQ :: u64 where "UART_IRQ = 10"

text \<open>
  The \<open>do ... while (0)\<close> block: poll the devices.  The result of \<open>bus_store\<close> is ignored,
  but an access outside an array is not.
\<close>

definition poll_claim :: "u64 \<Rightarrow> cpu \<Rightarrow> (stop, unit, cpu) outcome" where
  "poll_claim irq c =
     bindS (case bus_store (cbus c) PLIC_SCLAIM 32 irq of
              Inr b \<Rightarrow> (Inr (), c\<lparr>cbus := b\<rparr>)
            | Inl (Exc _) \<Rightarrow> (Inr (), c)
            | Inl e \<Rightarrow> (Inl e, c))
       (\<lambda>_ c. (Inr (), cpu_store_csr MIP (cpu_load_csr c MIP OR MIP_SEIP) c))"

definition poll_devices :: "cpu \<Rightarrow> (stop, unit, cpu) outcome" where
  "poll_devices c =
     (case uart_is_interrupting (bus_uart (cbus c)) of (ui, u) \<Rightarrow>
        let c = c\<lparr>cbus := (cbus c)\<lparr>bus_uart := u\<rparr>\<rparr> in
        if ui then poll_claim UART_IRQ c
        else
          (case virtio_is_interrupting (bus_virtio (cbus c)) of (vi, v) \<Rightarrow>
             let c = c\<lparr>cbus := (cbus c)\<lparr>bus_virtio := v\<rparr>\<rparr> in
             if vi then bindS (lift_bus c (bus_disk_access (cbus c))) (\<lambda>_. poll_claim VIRTIO_IRQ)
             else (Inr (), c)))"

definition take_pending :: "u64 \<Rightarrow> interrupt_t \<Rightarrow> cpu \<Rightarrow> interrupt_t \<times> cpu" where
  "take_pending m intr c = (intr, cpu_store_csr MIP (cpu_load_csr c MIP AND NOT m) c)"

definition select_pending :: "cpu \<Rightarrow> interrupt_t \<times> cpu" where
  "select_pending c =
     (let pend = cpu_load_csr c MIE AND cpu_load_csr c MIP in
      if pend AND MIP_MEIP \<noteq> 0 then take_pending MIP_MEIP MACHINE_EXTERNAL_INTERRUPT c
      else if pend AND MIP_MSIP \<noteq> 0 then take_pending MIP_MSIP MACHINE_SOFTWARE_INTERRUPT c
      else if pend AND MIP_MTIP \<noteq> 0 then take_pending MIP_MTIP MACHINE_TIMER_INTERRUPT c
      else if pend AND MIP_SEIP \<noteq> 0 then take_pending MIP_SEIP SUPERVISOR_EXTERNAL_INTERRUPT c
      else if pend AND MIP_SSIP \<noteq> 0 then take_pending MIP_SSIP SUPERVISOR_SOFTWARE_INTERRUPT c
      else if pend AND MIP_STIP \<noteq> 0 then take_pending MIP_STIP SUPERVISOR_TIMER_INTERRUPT c
      else (NONE, c))"

definition cpu_check_pending_interrupt :: "cpu \<Rightarrow> (stop, interrupt_t, cpu) outcome" where
  "cpu_check_pending_interrupt c =
     (if mode c = MACHINE \<and> \<not> bit (cpu_load_csr c MSTATUS) 3 then (Inr NONE, c)
      else if mode c = SUPERVISOR \<and> \<not> bit (cpu_load_csr c SSTATUS) 1 then (Inr NONE, c)
      else bindS (poll_devices c) (\<lambda>_ c. case select_pending c of (i, c) \<Rightarrow> (Inr i, c)))"

section \<open>The main loop\<close>

text \<open>
  How a turn of the loop ends: the loop goes on, \<open>main\<close> breaks out of it on a fatal
  exception, or the process stops inside a callee (\<open>fatal\<close>, undefined behaviour).
\<close>

datatype turn = Continue cpu | Exit exception_t cpu | Crash stop cpu

text \<open>The tail of the loop: poll, and take the interrupt if there is one.\<close>

definition semu_interrupt :: "cpu \<Rightarrow> turn" where
  "semu_interrupt c =
     (case cpu_check_pending_interrupt c of
        (Inl e, c) \<Rightarrow> Crash e c
      | (Inr NONE, c) \<Rightarrow> Continue c
      | (Inr intr, c) \<Rightarrow> Continue (cpu_take_trap OK intr c))"

text \<open>Advance the program counter, execute, trap on an exception.\<close>

definition semu_execute :: "u64 \<Rightarrow> cpu \<Rightarrow> turn" where
  "semu_execute inst c =
     (case cpu_execute (c\<lparr>pc := pc c + 4\<rparr>) inst of
        (Inl (Exc e), c) \<Rightarrow>
          (let c = cpu_take_trap e NONE c in
           if exception_is_fatal e then Exit e c else semu_interrupt c)
      | (Inl s, c) \<Rightarrow> Crash s c
      | (Inr _, c) \<Rightarrow> semu_interrupt c)"

text \<open>
  After a fetch that faults without being fatal, the loop goes on with \<open>inst = 0\<close>.
\<close>

definition semu_step :: "cpu \<Rightarrow> turn" where
  "semu_step c =
     (case cpu_fetch c of
        (Inl (Exc e), c) \<Rightarrow>
          (let c = cpu_take_trap e NONE c in
           if exception_is_fatal e then Exit e c else semu_execute 0 c)
      | (Inl s, c) \<Rightarrow> Crash s c
      | (Inr inst, c) \<Rightarrow> semu_execute inst c)"

text \<open>
  Reachable states of the emulator started on an image: turns of the loop, and
  characters delivered by the UART thread between them.
\<close>

inductive semu_reach :: "u8 list \<Rightarrow> u8 list \<Rightarrow> cpu \<Rightarrow> bool" for code dsk where
  boot: "cpu_new code dsk = Inr c \<Longrightarrow> semu_reach code dsk c"
| turn: "semu_reach code dsk c \<Longrightarrow> semu_step c = Continue c' \<Longrightarrow> semu_reach code dsk c'"
| input: "semu_reach code dsk c \<Longrightarrow> uart_thread_recv ch (bus_uart (cbus c)) = Some u \<Longrightarrow>
    semu_reach code dsk (c\<lparr>cbus := (cbus c)\<lparr>bus_uart := u\<rparr>\<rparr>)"

section \<open>Control registers after updates\<close>

lemma load_store_csr [simp]:
  assumes "a \<noteq> SIE" "b \<noteq> SIE"
  shows "cpu_load_csr (cpu_store_csr a v c) b = (if b = a then v else cpu_load_csr c b)"
  using assms by (simp add: cpu_load_csr_def cpu_store_csr_def)

lemma load_csr_frame [simp]:
  "cpu_load_csr (c\<lparr>pc := p\<rparr>) a = cpu_load_csr c a"
  "cpu_load_csr (c\<lparr>mode := m\<rparr>) a = cpu_load_csr c a"
  "cpu_load_csr (c\<lparr>cbus := b\<rparr>) a = cpu_load_csr c a"
  "cpu_load_csr (set_reg r v c) a = cpu_load_csr c a"
  by (simp_all add: cpu_load_csr_def set_reg_def)

lemma store_csr_frame [simp]:
  "pc (cpu_store_csr a v c) = pc c" "mode (cpu_store_csr a v c) = mode c"
  "cbus (cpu_store_csr a v c) = cbus c" "regs (cpu_store_csr a v c) = regs c"
  "enable_paging (cpu_store_csr a v c) = enable_paging c"
  "pagetable (cpu_store_csr a v c) = pagetable c"
  by (simp_all add: cpu_store_csr_def)

lemma set_csr_bit_frame [simp]:
  "pc (set_csr_bit a n v c) = pc c" "mode (set_csr_bit a n v c) = mode c"
  "cbus (set_csr_bit a n v c) = cbus c" "regs (set_csr_bit a n v c) = regs c"
  "enable_paging (set_csr_bit a n v c) = enable_paging c"
  "pagetable (set_csr_bit a n v c) = pagetable c"
  by (simp_all add: set_csr_bit_def)

lemma load_set_csr_bit_other [simp]:
  assumes "a \<noteq> SIE" "b \<noteq> SIE" "b \<noteq> a"
  shows "cpu_load_csr (set_csr_bit a n v c) b = cpu_load_csr c b"
  using assms by (simp add: set_csr_bit_def)

lemma bit_set_csr_bit [simp]:
  assumes "a \<noteq> SIE" "n < 64"
  shows "bit (cpu_load_csr (set_csr_bit a n v c) a) m \<longleftrightarrow>
    (if m = n then v else bit (cpu_load_csr c a) m)"
  using assms by (auto simp: set_csr_bit_def bit_simps dest: bit_imp_le_length)

section \<open>A trap and its return\<close>

definition delegated :: "cpu \<Rightarrow> u64 \<Rightarrow> bool" where
  "delegated c cause \<longleftrightarrow> mode c \<noteq> MACHINE \<and> bit (cpu_load_csr c MEDELEG) (unat (ucast cause :: u32))"

lemma trap_to_supervisor:
  assumes "delegated c (exc_code e)"
  shows "mode (cpu_take_trap e NONE c) = SUPERVISOR"
    "pc (cpu_take_trap e NONE c) = cpu_load_csr c STVEC AND NOT 1"
    "cpu_load_csr (cpu_take_trap e NONE c) SEPC = (pc c - 4) AND NOT 1"
    "cpu_load_csr (cpu_take_trap e NONE c) SCAUSE = exc_code e"
    "cpu_load_csr (cpu_take_trap e NONE c) STVAL = 0"
    "bit (cpu_load_csr (cpu_take_trap e NONE c) SSTATUS) (Suc 0) = False"
    "bit (cpu_load_csr (cpu_take_trap e NONE c) SSTATUS) 5 = bit (cpu_load_csr c SSTATUS) (Suc 0)"
    "bit (cpu_load_csr (cpu_take_trap e NONE c) SSTATUS) 8 = (mode c \<noteq> USER)"
    "cpu_load_csr (cpu_take_trap e NONE c) MEDELEG = cpu_load_csr c MEDELEG"
    "cpu_load_csr (cpu_take_trap e NONE c) STVEC = cpu_load_csr c STVEC"
  using assms by (simp_all add: cpu_take_trap_def delegated_def trap_target_def Let_def)

lemma trap_to_machine:
  assumes "\<not> delegated c (exc_code e)"
  shows "mode (cpu_take_trap e NONE c) = MACHINE"
    "pc (cpu_take_trap e NONE c) = cpu_load_csr c MTVEC AND NOT 1"
    "cpu_load_csr (cpu_take_trap e NONE c) MEPC = (pc c - 4) AND NOT 1"
    "cpu_load_csr (cpu_take_trap e NONE c) MCAUSE = exc_code e"
    "bit (cpu_load_csr (cpu_take_trap e NONE c) MSTATUS) 3 = False"
    "bit (cpu_load_csr (cpu_take_trap e NONE c) MSTATUS) 7 = bit (cpu_load_csr c MSTATUS) 3"
    "drop_bit 11 (cpu_load_csr (cpu_take_trap e NONE c) MSTATUS) AND 3 = 0"
  using assms unfolding delegated_def
  by (auto simp: cpu_take_trap_def trap_target_def Let_def bit_simps and.assoc)

lemma sret_fields:
  "mode (exec_sret c) = (if bit (cpu_load_csr c SSTATUS) 8 then SUPERVISOR else USER)"
  "pc (exec_sret c) = cpu_load_csr c SEPC"
  "bit (cpu_load_csr (exec_sret c) SSTATUS) (Suc 0) = bit (cpu_load_csr c SSTATUS) 5"
  by (simp_all add: exec_sret_def Let_def)

lemma mret_fields:
  "mode (exec_mret c) = (let mpp = drop_bit 11 (cpu_load_csr c MSTATUS) AND 3 in
      if mpp = 2 then MACHINE else if mpp = 1 then SUPERVISOR else USER)"
  "pc (exec_mret c) = cpu_load_csr c MEPC"
  "bit (cpu_load_csr (exec_mret c) MSTATUS) 3 = bit (cpu_load_csr c MSTATUS) 7"
  by (simp_all add: exec_mret_def Let_def bit_simps)


text \<open>A trap delegated to supervisor mode, then \<open>sret\<close>: back to the interrupted mode.\<close>

lemma supervisor_trap_return:
  assumes "delegated c (exc_code e)"
  shows "mode (exec_sret (cpu_take_trap e NONE c)) = mode c \<and>
     pc (exec_sret (cpu_take_trap e NONE c)) = (pc c - 4) AND NOT 1 \<and>
     bit (cpu_load_csr (exec_sret (cpu_take_trap e NONE c)) SSTATUS) 1 = bit (cpu_load_csr c SSTATUS) 1"
  using assms trap_to_supervisor [OF assms]
  by (cases "mode c") (auto simp: sret_fields delegated_def)

text \<open>
  A trap taken in machine mode, then \<open>mret\<close>: the mode is lost, because \<open>cpu_take_trap\<close>
  clears \<open>MPP\<close> whatever the interrupted mode was.
\<close>

lemma machine_trap_return:
  assumes "\<not> delegated c (exc_code e)"
  shows "mode (exec_mret (cpu_take_trap e NONE c)) = USER \<and>
     pc (exec_mret (cpu_take_trap e NONE c)) = (pc c - 4) AND NOT 1 \<and>
     bit (cpu_load_csr (exec_mret (cpu_take_trap e NONE c)) MSTATUS) 3 = bit (cpu_load_csr c MSTATUS) 3"
  using trap_to_machine [OF assms] by (simp add: mret_fields Let_def)

section \<open>Interrupt selection\<close>

text \<open>The architectural priority order of the interrupt bits.\<close>

definition intr_priority :: "(nat \<times> interrupt_t) list" where
  "intr_priority =
     [(11, MACHINE_EXTERNAL_INTERRUPT), (3, MACHINE_SOFTWARE_INTERRUPT), (7, MACHINE_TIMER_INTERRUPT),
      (9, SUPERVISOR_EXTERNAL_INTERRUPT), (1, SUPERVISOR_SOFTWARE_INTERRUPT), (5, SUPERVISOR_TIMER_INTERRUPT)]"

lemma and_power_iff_bit:
  fixes w :: u64
  shows "w AND 0x800 \<noteq> 0 \<longleftrightarrow> bit w 11" "w AND 0x8 \<noteq> 0 \<longleftrightarrow> bit w 3" "w AND 0x80 \<noteq> 0 \<longleftrightarrow> bit w 7"
    "w AND 0x200 \<noteq> 0 \<longleftrightarrow> bit w 9" "w AND 0x2 \<noteq> 0 \<longleftrightarrow> bit w 1" "w AND 0x20 \<noteq> 0 \<longleftrightarrow> bit w 5"
  using bit_iff_and_push_bit_not_eq_0 [of w 11] bit_iff_and_push_bit_not_eq_0 [of w 3]
    bit_iff_and_push_bit_not_eq_0 [of w 7] bit_iff_and_push_bit_not_eq_0 [of w 9]
    bit_iff_and_push_bit_not_eq_0 [of w 1] bit_iff_and_push_bit_not_eq_0 [of w 5]
  by simp_all

lemma select_pending_priority:
  "select_pending c =
     (case find (\<lambda>(n, i). bit (cpu_load_csr c MIE) n \<and> bit (cpu_load_csr c MIP) n) intr_priority of
        None \<Rightarrow> (NONE, c)
      | Some (n, i) \<Rightarrow> (i, set_csr_bit MIP n False c))"
  by (simp add: select_pending_def intr_priority_def Let_def take_pending_def set_csr_bit_def
     and_power_iff_bit bit_and_iff)

section \<open>The paging state agrees with SATP\<close>

text \<open>\<open>enable_paging\<close> and \<open>pagetable\<close> cache the fields of \<open>SATP\<close>; \<open>csrs[SIE]\<close> is never used.\<close>

definition paging_ok :: "cpu \<Rightarrow> bool" where
  "paging_ok c \<longleftrightarrow>
     (enable_paging c \<longleftrightarrow> drop_bit 60 (cpu_load_csr c SATP) = 8) \<and>
     pagetable c = take_bit 44 (cpu_load_csr c SATP) * PAGE_SIZE"

lemma paging_ok_frame [simp]:
  "paging_ok (c\<lparr>pc := p\<rparr>) = paging_ok c" "paging_ok (c\<lparr>mode := m\<rparr>) = paging_ok c"
  "paging_ok (c\<lparr>cbus := b\<rparr>) = paging_ok c" "paging_ok (set_reg r v c) = paging_ok c"
  by (simp_all add: paging_ok_def set_reg_def cpu_load_csr_def)

lemma paging_ok_store [simp]:
  "a \<noteq> SATP \<Longrightarrow> paging_ok (cpu_store_csr a v c) = paging_ok c"
  by (simp add: paging_ok_def cpu_store_csr_def cpu_load_csr_def)

lemma paging_ok_set_bit [simp]:
  "a \<noteq> SATP \<Longrightarrow> paging_ok (set_csr_bit a n v c) = paging_ok c"
  by (simp add: set_csr_bit_def)

lemma paging_ok_update: "paging_ok (cpu_update_paging SATP c)"
  by (auto simp: paging_ok_def cpu_update_paging_def cpu_load_csr_def and_masks)

lemma cpu_translateE:
  obtains r where "cpu_translate c a e = (r, c)"
  using cpu_translate_state [of c a e] by (metis prod.collapse)

lemma cpu_load_frame: "\<exists>b. snd (cpu_load c a sz) = c\<lparr>cbus := b\<rparr>"
proof -
  obtain r where "cpu_translate c a LOAD_PAGE_FAULT = (r, c)" by (rule cpu_translateE)
  then show ?thesis
    by (cases r) (auto simp: cpu_load_def lift_bus_def split: prod.split intro: exI [of _ "cbus c"])
qed

lemma cpu_store_frame: "\<exists>b. snd (cpu_store c a sz v) = c\<lparr>cbus := b\<rparr>"
proof -
  obtain r where "cpu_translate c a STORE_AMO_PAGE_FAULT = (r, c)" by (rule cpu_translateE)
  then show ?thesis
    by (cases r) (auto simp: cpu_store_def split: sum.split intro: exI [of _ "cbus c"])
qed

lemma paging_ok_load: "paging_ok (snd (cpu_load c a sz)) = paging_ok c"
  using cpu_load_frame [of c a sz] by auto

lemma paging_ok_store_mem: "paging_ok (snd (cpu_store c a sz v)) = paging_ok c"
  using cpu_store_frame [of c a sz v] by auto

lemmas paging_bind = bindS_inv [where P = paging_ok]

lemma paging_ok_write_rd [simp]: "paging_ok (snd (write_rd inst v c)) = paging_ok c"
  by (simp add: write_rd_def)

lemma paging_ok_illegal [simp]: "paging_ok (snd (illegal c)) = paging_ok c"
  by (simp add: illegal_def)

lemma paging_ok_csr_op:
  assumes "paging_ok c"
  shows "paging_ok (snd (csr_op inst f c))"
proof (cases "f_csr inst = SATP")
  case True
  then show ?thesis by (simp add: csr_op_def Let_def paging_ok_update)
next
  case False
  then show ?thesis using assms by (simp add: csr_op_def Let_def cpu_update_paging_def)
qed

lemma paging_ok_memory_ops:
  assumes "paging_ok c"
  shows "paging_ok (snd (exec_load inst c))" "paging_ok (snd (exec_store inst c))"
    "paging_ok (snd (exec_amo inst c))"
  using assms by (auto simp: exec_load_def exec_store_def exec_amo_def Let_def paging_ok_store_mem paging_ok_load
      intro!: paging_bind)

lemma paging_ok_compute_ops:
  "paging_ok (snd (exec_fence inst c)) = paging_ok c" "paging_ok (snd (exec_op_imm inst c)) = paging_ok c"
  "paging_ok (snd (exec_auipc inst c)) = paging_ok c" "paging_ok (snd (exec_op_imm32 inst c)) = paging_ok c"
  "paging_ok (snd (exec_op inst c)) = paging_ok c" "paging_ok (snd (exec_lui inst c)) = paging_ok c"
  "paging_ok (snd (exec_op32 inst c)) = paging_ok c" "paging_ok (snd (exec_branch inst c)) = paging_ok c"
  "paging_ok (snd (exec_jalr inst c)) = paging_ok c" "paging_ok (snd (exec_jal inst c)) = paging_ok c"
  by (simp_all add: exec_fence_def exec_op_imm_def exec_auipc_def exec_op_imm32_def exec_op_def
      exec_lui_def exec_op32_def exec_branch_def branch_to_def exec_jalr_def exec_jal_def Let_def)

lemma paging_ok_returns [simp]:
  "paging_ok (exec_sret c) = paging_ok c" "paging_ok (exec_mret c) = paging_ok c"
  by (simp_all add: exec_sret_def exec_mret_def Let_def)

lemma paging_ok_execute:
  assumes "paging_ok c"
  shows "paging_ok (snd (cpu_execute c inst))"
  using assms
  by (simp add: cpu_execute_def Let_def paging_ok_memory_ops paging_ok_compute_ops exec_system_def paging_ok_csr_op)

lemma paging_ok_trap [simp]: "paging_ok (cpu_take_trap e i c) = paging_ok c"
  by (simp add: cpu_take_trap_def Let_def)

lemma cpu_fetch_frame: "\<exists>b. snd (cpu_fetch c) = c\<lparr>cbus := b\<rparr>"
proof -
  obtain r where "cpu_translate c (pc c) INSTRUCTION_PAGE_FAULT = (r, c)" by (rule cpu_translateE)
  then show ?thesis
    by (cases r) (auto simp: cpu_fetch_def split: prod.split sum.split stop.split intro: exI [of _ "cbus c"])
qed

lemma poll_claim_frame: "paging_ok c \<Longrightarrow> paging_ok (snd (poll_claim irq c))"
  unfolding poll_claim_def by (rule paging_bind) (simp_all split: sum.split stop.split)

lemma poll_devices_frame: "paging_ok c \<Longrightarrow> paging_ok (snd (poll_devices c))"
  by (simp add: poll_devices_def Let_def lift_bus_def poll_claim_frame paging_bind split: prod.split)

lemma select_pending_frame: "paging_ok (snd (select_pending c)) = paging_ok c"
  by (simp add: select_pending_def take_pending_def Let_def)

lemma check_pending_frame:
  assumes "paging_ok c"
  shows "paging_ok (snd (cpu_check_pending_interrupt c))"
proof -
  have "paging_ok (snd (case select_pending c of (i, c) \<Rightarrow> (Inr i, c)))" if "paging_ok c" for c
    using that select_pending_frame [of c] by (simp add: case_prod_beta)
  then show ?thesis
    using assms by (auto simp: cpu_check_pending_interrupt_def intro!: paging_bind poll_devices_frame)
qed

fun turn_state :: "turn \<Rightarrow> cpu" where
  "turn_state (Continue c) = c"
| "turn_state (Exit e c) = c"
| "turn_state (Crash s c) = c"

lemma paging_ok_interrupt:
  assumes "paging_ok c"
  shows "paging_ok (turn_state (semu_interrupt c))"
  using check_pending_frame [OF assms]
  by (auto simp: semu_interrupt_def split: prod.split sum.split interrupt_t.split)

lemma paging_ok_semu_execute:
  assumes "paging_ok c"
  shows "paging_ok (turn_state (semu_execute inst c))"
  using paging_ok_execute [of "c\<lparr>pc := pc c + 4\<rparr>" inst] assms
  by (auto simp: semu_execute_def Let_def paging_ok_interrupt split: prod.split sum.split stop.split)

lemma paging_ok_step:
  assumes "paging_ok c"
  shows "paging_ok (turn_state (semu_step c))"
proof -
  obtain b where b: "snd (cpu_fetch c) = c\<lparr>cbus := b\<rparr>" using cpu_fetch_frame by blast
  then have "paging_ok (snd (cpu_fetch c))" using assms by simp
  then show ?thesis
    by (auto simp: semu_step_def Let_def paging_ok_semu_execute split: prod.split sum.split stop.split)
qed

lemma paging_ok_reach: "semu_reach code dsk c \<Longrightarrow> paging_ok c"
proof (induction rule: semu_reach.induct)
  case (boot c)
  then show ?case
    by (auto simp: cpu_new_def bindE_eq_Inr paging_ok_def cpu_load_csr_def)
next
  case (turn c c')
  then show ?case using paging_ok_step [of c] by simp
next
  case (input c ch u)
  then show ?case by simp
qed


section \<open>A page fault on a fetch traps twice\<close>

text \<open>
  After the trap for the page fault the loop still executes the word 0, an illegal
  instruction, and traps again: the cause and the program counter of the fault are
  overwritten before the handler runs.
\<close>

lemma execute_zero: "cpu_execute c 0 = (Inl (Exc ILLEGAL_INSTRUCTION), set_reg 0 0 c)"
  by (simp add: cpu_execute_def f_opcode_def illegal_def)

lemma delegated_frame [simp]:
  "delegated (set_reg r v c) n = delegated c n" "delegated (c\<lparr>pc := p\<rparr>) n = delegated c n"
  "delegated (c\<lparr>cbus := b\<rparr>) n = delegated c n"
  by (simp_all add: delegated_def set_reg_def cpu_load_csr_def)

lemma interrupt_masked:
  assumes "mode c = MACHINE \<and> \<not> bit (cpu_load_csr c MSTATUS) 3 \<or>
    mode c = SUPERVISOR \<and> \<not> bit (cpu_load_csr c SSTATUS) (Suc 0)"
  shows "semu_interrupt c = Continue c"
  using assms by (auto simp: semu_interrupt_def cpu_check_pending_interrupt_def)

lemma fetch_fault_step:
  assumes "cpu_fetch c = (Inl (Exc INSTRUCTION_PAGE_FAULT), c1)"
  shows "semu_step c = semu_interrupt (cpu_take_trap ILLEGAL_INSTRUCTION NONE
     (set_reg 0 0 ((cpu_take_trap INSTRUCTION_PAGE_FAULT NONE c1)
        \<lparr>pc := pc (cpu_take_trap INSTRUCTION_PAGE_FAULT NONE c1) + 4\<rparr>)))"
  using assms by (simp add: semu_step_def semu_execute_def execute_zero Let_def)

lemma set_reg_frame [simp]:
  "pc (set_reg r v c) = pc c" "mode (set_reg r v c) = mode c"
  by (simp_all add: set_reg_def)

lemma double_fault_machine:
  assumes "cpu_fetch c = (Inl (Exc INSTRUCTION_PAGE_FAULT), c1)"
    and "\<not> delegated c1 (exc_code INSTRUCTION_PAGE_FAULT)"
  shows "\<exists>c2. semu_step c = Continue c2 \<and> mode c2 = MACHINE \<and>
     cpu_load_csr c2 MCAUSE = exc_code ILLEGAL_INSTRUCTION \<and>
     cpu_load_csr c2 MEPC = cpu_load_csr c1 MTVEC AND NOT 1"
proof -
  let ?t = "cpu_take_trap INSTRUCTION_PAGE_FAULT NONE c1"
  let ?u = "set_reg 0 0 (?t\<lparr>pc := pc ?t + 4\<rparr>)"
  note t = trap_to_machine [OF assms(2)]
  have "\<not> delegated ?u (exc_code ILLEGAL_INSTRUCTION)"
    using t(1) by (simp add: delegated_def)
  note u = trap_to_machine [OF this]
  have "semu_step c = Continue (cpu_take_trap ILLEGAL_INSTRUCTION NONE ?u)"
    unfolding fetch_fault_step [OF assms(1)] by (rule interrupt_masked) (use u in simp)
  then show ?thesis
    using u t by (simp add: and.assoc)
qed

lemma double_fault_supervisor:
  assumes "cpu_fetch c = (Inl (Exc INSTRUCTION_PAGE_FAULT), c1)"
    and "delegated c1 (exc_code INSTRUCTION_PAGE_FAULT)" and "bit (cpu_load_csr c1 MEDELEG) 2"
  shows "\<exists>c2. semu_step c = Continue c2 \<and> mode c2 = SUPERVISOR \<and>
     cpu_load_csr c2 SCAUSE = exc_code ILLEGAL_INSTRUCTION \<and>
     cpu_load_csr c2 SEPC = cpu_load_csr c1 STVEC AND NOT 1"
proof -
  let ?t = "cpu_take_trap INSTRUCTION_PAGE_FAULT NONE c1"
  let ?u = "set_reg 0 0 (?t\<lparr>pc := pc ?t + 4\<rparr>)"
  note t = trap_to_supervisor [OF assms(2)]
  have "delegated ?u (exc_code ILLEGAL_INSTRUCTION)"
    using t assms(3) by (simp add: delegated_def)
  note u = trap_to_supervisor [OF this]
  have "semu_step c = Continue (cpu_take_trap ILLEGAL_INSTRUCTION NONE ?u)"
    unfolding fetch_fault_step [OF assms(1)] by (rule interrupt_masked) (use u in simp)
  then show ?thesis
    using u t by (simp add: and.assoc)
qed

end
