(* ===== verification/Semu_Properties.thy ===== *)
theory Semu_Properties
  imports Semu_Isa Semu_Trap
begin

text \<open>
  What the emulator promises: the properties of its components, each with a concrete
  instance where it has hypotheses.
\<close>

text \<open>The machine that \<open>cpu_new\<close> builds from empty images, for the instances.\<close>

definition zero_ram :: ram where "zero_ram = \<lparr>ram_data = (\<lambda>_. 0)\<rparr>"

definition boot_cpu :: cpu where
  "boot_cpu =
     \<lparr>regs = (\<lambda>_. 0)(2 := 0x88000000), pc = RAM_BASE, csrs = (\<lambda>_. 0), mode = MACHINE,
      cbus = bus_new zero_ram (virtio_new []), enable_paging = False, pagetable = 0\<rparr>"

lemma cpu_new_empty: "cpu_new [] [] = Inr boot_cpu"
  by (simp add: cpu_new_def ram_new_def boot_cpu_def zero_ram_def)

text \<open>A value stored in RAM at any width is read back truncated to that width, and a store
  touches no byte outside its own (\<open>ram_store\<close>, \<open>ram_load\<close>).\<close>

lemma ram_roundtrip:
  assumes "sz \<in> {8, 16, 32, 64}" and "ram_store r a sz v = Inr r'"
  shows "ram_load r' a sz = Inr (take_bit (unat sz) v) \<and>
    (\<forall>i. sz div 8 \<le> i - (a - RAM_BASE) \<longrightarrow> ram_data r' i = ram_data r i)"
  using ram_store_load [OF assms] ram_store_frame [OF assms] by blast

text \<open>An access of a supported width above \<open>RAM_BASE\<close> succeeds exactly when all its bytes
  are in the 128 MiB; one that does not is an access outside the host's array, since
  \<open>bus_load\<close> and \<open>bus_store\<close> do not check the upper bound.\<close>

lemma ram_access_bounds:
  assumes "sz \<in> {8, 16, 32, 64}" and "RAM_BASE \<le> a"
  shows "(ram_load r a sz = Inl OutOfBounds) = (unat RAM_BASE + unat RAM_SIZE < unat a + unat sz div 8) \<and>
    (ram_store r a sz v = Inl OutOfBounds) = (unat RAM_BASE + unat RAM_SIZE < unat a + unat sz div 8)"
proof -
  have "unat (a - RAM_BASE) = unat a - unat RAM_BASE" "unat RAM_BASE \<le> unat a"
    using assms(2) by (simp_all add: unat_sub word_le_nat_alt)
  then show ?thesis
    using assms(1) by (auto simp: ram_load_def ram_store_def Let_def in_ram_iff)
qed

text \<open>Below \<open>2^32\<close> the bus decodes exactly the documented memory map, for loads and for
  stores (the \<open>RANGE_CHECK\<close> bit trick equals the comparison it replaces).\<close>

lemma bus_memory_map:
  assumes "a < 2 ^ 32"
  shows "bus_load b a sz = region_load (region_of a) b a sz \<and>
    bus_store b a sz v = region_store (region_of a) b a sz v"
  using bus_decodes_memory_map [OF assms] by blast

text \<open>An address is decoded by its low 32 bits only, so one above \<open>2^32\<close> that aliases the
  UART window reaches \<open>uart_load\<close> and indexes \<open>data\<close> out of its 256 bytes.\<close>

lemma bus_alias_out_of_bounds:
  assumes "2 ^ 32 \<le> a" and "region_of (take_bit 32 a) = Uart_window"
  shows "bus_load b a 8 = (Inl OutOfBounds, b) \<and> bus_store b a 8 v = Inl OutOfBounds"
proof -
  have low: "uint (take_bit 32 a) = uint a mod 2 ^ 32"
    by (subst unsigned_take_bit_eq) (rule take_bit_eq_mod)
  have t: "take_bit 32 a < 2 ^ 32"
    by (simp add: word_less_def low)
  have same_low: "range_check a m s = range_check (take_bit 32 a) m s"
    if "0 < uint s" "uint m + uint s \<le> 2 ^ 31" for m s
    by (rule range_check_alias) (use that low in \<open>simp_all\<close>)
  have win: "\<not> range_check a CLINT_BASE CLINT_SIZE" "\<not> range_check a PLIC_BASE PLIC_SIZE"
    "range_check a UART_BASE UART_SIZE"
    using assms(2) t by (auto simp: same_low region_of_def device_windows split: if_splits)
  have "\<not> a - UART_BASE < UART_SIZE" "a \<noteq> UART_BASE"
    using assms(1) by (auto simp: word_le_nat_alt word_less_nat_alt unat_sub_if')
  then show ?thesis
    using win by (simp add: bus_load_def bus_store_def uart_load_def uart_store_def)
qed

text \<open>C13: a disk transfer copies exactly the requested bytes: \<open>dma_to_disk\<close> from RAM to the disk
  image and \<open>dma_from_disk\<close> from the disk image to RAM, and nothing else changes
  (the two loops of \<open>bus_disk_access\<close>).\<close>

theorem disk_transfer_copies:
  assumes "RAM_BASE \<le> addr1"
    and "unat addr1 + n \<le> unat RAM_BASE + unat RAM_SIZE"
    and "unat (sec * 512) + n \<le> unat (disk_len (bus_virtio b))"
  shows "dma_to_disk addr1 sec 0 n b =
      (Inr (), b\<lparr>bus_virtio := (bus_virtio b)\<lparr>disk :=
         copy_window (unat (sec * 512)) n
           (\<lambda>j. ram_data (bus_ram b) (addr1 - RAM_BASE + (j - sec * 512))) (disk (bus_virtio b))\<rparr>\<rparr>) \<and>
    dma_from_disk addr1 sec 0 n b =
      (Inr (), b\<lparr>bus_ram := (bus_ram b)\<lparr>ram_data :=
         copy_window (unat (addr1 - RAM_BASE)) n
           (\<lambda>j. disk (bus_virtio b) (sec * 512 + (j - (addr1 - RAM_BASE)))) (ram_data (bus_ram b))\<rparr>\<rparr>)"
proof -
  have "unat addr1 + unat (0 :: u64) + n \<le> unat (RAM_BASE + RAM_SIZE)"
    "unat (sec * 512) + unat (0 :: u64) + n \<le> unat (disk_len (bus_virtio b))"
    using assms(2,3) by simp_all
  from dma_to_disk_copies [OF assms(1) this] dma_from_disk_copies [OF assms(1) this]
  show ?thesis by simp
qed

theorem disk_transfer_copies_witness:
  "fst (dma_from_disk 0x80000100 1 0 2 (bus_new zero_ram (virtio_new (replicate 1024 7)))) = Inr () \<and>
   ram_data (bus_ram (snd (dma_from_disk 0x80000100 1 0 2
     (bus_new zero_ram (virtio_new (replicate 1024 7)))))) 0x101 = 7"
proof -
  let ?b = "bus_new zero_ram (virtio_new (replicate 1024 7))"
  have "RAM_BASE \<le> 0x80000100" "unat (0x80000100 :: u64) + 2 \<le> unat RAM_BASE + unat RAM_SIZE"
    "unat ((1 :: u64) * 512) + 2 \<le> unat (disk_len (bus_virtio ?b))"
    by (simp_all add: bus_new_def virtio_new_def)
  from disk_transfer_copies [OF this] show ?thesis
    by (simp add: copy_window_def bus_new_def virtio_new_def)
qed


text \<open>Translation keeps the offset in the page.\<close>

lemma translate_keeps_offset:
  assumes "fst (cpu_translate c va e) = Inr pa"
  shows "take_bit 12 pa = take_bit 12 va"
  using cpu_translate_offset [OF assms] by (simp add: and_masks)

text \<open>\<open>SIE\<close> is the delegated part of \<open>MIE\<close>: a write through it reads back masked by
  \<open>MIDELEG\<close>, leaves the other bits of \<open>MIE\<close> alone and touches no other register.\<close>

lemma sie_is_delegated_mie:
  "cpu_load_csr (cpu_store_csr SIE v c) SIE = v AND cpu_load_csr c MIDELEG \<and>
   cpu_load_csr (cpu_store_csr SIE v c) MIE AND NOT (cpu_load_csr c MIDELEG) =
     cpu_load_csr c MIE AND NOT (cpu_load_csr c MIDELEG) \<and>
   (a = SIE \<or> a = MIE \<or> cpu_load_csr (cpu_store_csr SIE v c) a = cpu_load_csr c a)"
  using sie_view by blast

text \<open>C2: on every instruction of the reference instruction set, \<open>cpu_execute\<close> applied to its
  encoding succeeds and performs the reference step on the architectural state (decoder,
  immediates, arithmetic, branches and jumps).\<close>

theorem execute_implements_isa:
  "fst (cpu_execute c (encode i)) = Inr () \<and>
   arch (snd (cpu_execute c (encode i))) = isa_step i (arch c)"
  by (rule execute_refines_isa)

text \<open>\<open>remuw\<close> guards its division with all 64 bits of the divisor but divides by the low 32:
  a divisor that is a nonzero multiple of \<open>2^32\<close> divides the host by zero.\<close>

lemma remuw_divides_by_zero:
  assumes "rs2 \<noteq> 0" and "regs c (ucast rs2) \<noteq> 0" and "take_bit 32 (regs c (ucast rs2)) = 0"
  shows "fst (cpu_execute c (enc_r 1 rs2 rs1 7 rd 0x3b)) = Inl DivisionByZero"
proof -
  have z: "(ucast (regs c (ucast rs2)) :: u32) = 0"
  proof (rule bit_word_eqI)
    fix n assume "n < LENGTH(32)"
    then have "bit (regs c (ucast rs2)) n = bit (take_bit 32 (regs c (ucast rs2))) n"
      by (simp add: bit_take_bit_iff)
    then show "bit (ucast (regs c (ucast rs2)) :: u32) n = bit 0 n"
      using assms(3) by (simp add: bit_ucast_iff)
  qed
  have "regs (arch c) (ucast rs2) = regs c (ucast rs2)"
    using assms(1) by (simp add: arch_def)
  then show ?thesis
    using assms(2) z by (simp add: op_exec exec_op32_def)
qed


definition user_cpu :: cpu where
  "user_cpu = boot_cpu\<lparr>mode := USER, csrs := (csrs boot_cpu)(MEDELEG := 0xffff, STVEC := 0x80001000)\<rparr>"


text \<open>A trap taken to machine mode followed by \<open>mret\<close> always ends in user mode, even when the
  trapped code ran in machine or supervisor mode: \<open>cpu_take_trap\<close> clears \<open>MPP\<close> instead of
  recording the previous mode.\<close>

lemma machine_trap_loses_mode:
  assumes "\<not> delegated c (exc_code e)"
  shows "mode (exec_mret (cpu_take_trap e NONE c)) = USER \<and>
    pc (exec_mret (cpu_take_trap e NONE c)) = (pc c - 4) AND NOT 1"
  using machine_trap_return [OF assms] by blast

text \<open>The pending interrupt taken is the first of the architectural priority order that is both
  enabled in \<open>MIE\<close> and pending in \<open>MIP\<close>, and exactly its pending bit is cleared.\<close>

lemma pending_interrupt_priority:
  "select_pending c =
     (case find (\<lambda>(n, i). bit (cpu_load_csr c MIE) n \<and> bit (cpu_load_csr c MIP) n) intr_priority of
        None \<Rightarrow> (NONE, c)
      | Some (n, i) \<Rightarrow> (i, set_csr_bit MIP n False c))"
  by (rule select_pending_priority)

text \<open>C9: in every reachable state of the emulator the cached paging state agrees with \<open>SATP\<close>.\<close>

theorem reachable_paging_agrees_with_satp:
  assumes "semu_reach code dsk c"
  shows "enable_paging c = (drop_bit 60 (cpu_load_csr c SATP) = 8) \<and>
    pagetable c = take_bit 44 (cpu_load_csr c SATP) * PAGE_SIZE"
  using paging_ok_reach [OF assms] by (simp add: paging_ok_def)

theorem reachable_paging_agrees_with_satp_witness: "pagetable boot_cpu = 0"
proof -
  have "semu_reach [] [] boot_cpu"
    by (rule semu_reach.boot [OF cpu_new_empty])
  from reachable_paging_agrees_with_satp [OF this] show ?thesis
    by (simp add: boot_cpu_def cpu_load_csr_def)
qed

text \<open>After a page fault on an instruction fetch (delegated, as xv6 sets it up) one turn of the
  main loop leaves the supervisor handler with the cause of an illegal instruction and, as
  return address, the handler's own address: the loop executes the word 0 after the trap.\<close>

lemma fetch_fault_traps_twice:
  assumes "cpu_fetch c = (Inl (Exc INSTRUCTION_PAGE_FAULT), c1)"
    and "delegated c1 (exc_code INSTRUCTION_PAGE_FAULT)" and "bit (cpu_load_csr c1 MEDELEG) 2"
  shows "\<exists>c2. semu_step c = Continue c2 \<and> mode c2 = SUPERVISOR \<and>
     cpu_load_csr c2 SCAUSE = exc_code ILLEGAL_INSTRUCTION \<and>
     cpu_load_csr c2 SEPC = cpu_load_csr c1 STVEC AND NOT 1"
  by (rule double_fault_supervisor [OF assms])

definition paged_cpu :: cpu where
  "paged_cpu = user_cpu\<lparr>enable_paging := True, pagetable := 0x80002000\<rparr>"

end
