(* ===== verification/Xv7_List.thy ===== *)
theory Xv7_List
  imports Prelude
begin

text \<open>
  The doubly linked circular list of \<open>xv7/kernel/list.c\<close>.  A \<open>struct list\<close> is an address;
  the store holds the two links of every address.  The list is represented by the
  sequence of its elements (\<open>dlist\<close>), and the operations refine cons, tail and removal.
  The interface used by the buddy allocator is the locale \<open>linked_lists\<close>: several lists
  with disjoint nodes in one store.
\<close>

section \<open>Kernel errors\<close>

text \<open>
  How a kernel function stops: \<open>panic(msg)\<close>, an access outside an object, or the caller
  goes to sleep on a lock that somebody holds.
\<close>

datatype kfault = Panic string | Wild string | Asleep string

section \<open>list.c\<close>

record lheap =
  lnext :: "u64 \<Rightarrow> u64"
  lprev :: "u64 \<Rightarrow> u64"

definition set_next :: "u64 \<Rightarrow> u64 \<Rightarrow> lheap \<Rightarrow> lheap" where
  "set_next e v h = h\<lparr>lnext := (lnext h)(e := v)\<rparr>"

definition set_prev :: "u64 \<Rightarrow> u64 \<Rightarrow> lheap \<Rightarrow> lheap" where
  "set_prev e v h = h\<lparr>lprev := (lprev h)(e := v)\<rparr>"

definition lst_init :: "u64 \<Rightarrow> lheap \<Rightarrow> lheap" where
  "lst_init lst h = set_prev lst lst (set_next lst lst h)"

definition lst_empty :: "u64 \<Rightarrow> lheap \<Rightarrow> bool" where
  "lst_empty lst h \<longleftrightarrow> lnext h lst = lst"

definition lst_remove :: "u64 \<Rightarrow> lheap \<Rightarrow> lheap" where
  "lst_remove e h =
     (let h = set_next (lprev h e) (lnext h e) h
      in set_prev (lnext h e) (lprev h e) h)"

definition lst_pop :: "u64 \<Rightarrow> lheap \<Rightarrow> (kfault, u64, lheap) outcome" where
  "lst_pop lst h =
     (if lnext h lst = lst then (Inl (Panic ''lst_pop''), h)
      else let p = lnext h lst in (Inr p, lst_remove p h))"

definition lst_push :: "u64 \<Rightarrow> u64 \<Rightarrow> lheap \<Rightarrow> lheap" where
  "lst_push lst p h =
     (let h = set_next p (lnext h lst) h;
          h = set_prev p lst h;
          h = set_prev (lnext h lst) p h
      in set_next lst p h)"

section \<open>Representation\<close>

text \<open>\<open>chain h a xs b\<close>: the links lead from \<open>a\<close> over \<open>xs\<close> to \<open>b\<close>, and back.\<close>

fun chain :: "lheap \<Rightarrow> u64 \<Rightarrow> u64 list \<Rightarrow> u64 \<Rightarrow> bool" where
  "chain h a [] b \<longleftrightarrow> lnext h a = b \<and> lprev h b = a"
| "chain h a (x # xs) b \<longleftrightarrow> lnext h a = x \<and> lprev h x = a \<and> chain h x xs b"

definition dlist :: "lheap \<Rightarrow> u64 \<Rightarrow> u64 list \<Rightarrow> bool" where
  "dlist h lst xs \<longleftrightarrow> chain h lst xs lst \<and> distinct (lst # xs)"

lemma link_simps [simp]:
  "lnext (set_next e v h) = (lnext h)(e := v)" "lprev (set_next e v h) = lprev h"
  "lprev (set_prev e v h) = (lprev h)(e := v)" "lnext (set_prev e v h) = lnext h"
  by (simp_all add: set_next_def set_prev_def)

lemma chain_append [simp]: "chain h a (xs @ y # ys) b \<longleftrightarrow> chain h a xs y \<and> chain h y ys b"
  by (induction xs arbitrary: a) auto

lemma chain_cong:
  assumes "\<forall>x \<in> set (a # xs). lnext h' x = lnext h x" and "\<forall>x \<in> set (b # xs). lprev h' x = lprev h x"
  shows "chain h' a xs b = chain h a xs b"
  using assms by (induction xs arbitrary: a) auto

lemma chain_next_last: "chain h a xs b \<Longrightarrow> lnext h (last (a # xs)) = b \<and> lprev h b = last (a # xs)"
  by (induction xs arbitrary: a) auto

lemma chain_first: "chain h a xs b \<Longrightarrow> lnext h a = hd (xs @ [b]) \<and> lprev h (hd (xs @ [b])) = a"
  by (cases xs) auto

lemma dlist_empty_iff: "dlist h lst xs \<Longrightarrow> lst_empty lst h \<longleftrightarrow> xs = []"
  by (cases xs) (auto simp: dlist_def lst_empty_def)

lemma dlist_init: "dlist (lst_init lst h) lst []"
  by (simp add: dlist_def lst_init_def)

text \<open>Rewiring the end of a chain, and its start.\<close>

lemma chain_retarget:
  assumes "chain h a xs b" and "b \<notin> set xs" and "distinct (a # xs)" and "c \<notin> set xs"
    and "lnext h' (last (a # xs)) = c" and "lprev h' c = last (a # xs)"
    and "\<forall>x \<in> set (butlast (a # xs)). lnext h' x = lnext h x" and "\<forall>x \<in> set xs. lprev h' x = lprev h x"
  shows "chain h' a xs c"
  using assms
proof (induction xs arbitrary: a)
  case (Cons x xs)
  have "lnext h' a = lnext h a" using Cons.prems(7) by simp
  moreover have "chain h' x xs c"
    by (rule Cons.IH) (use Cons.prems in auto)
  ultimately show ?case using Cons.prems by simp
qed simp

lemma remove_links:
  assumes "dlist h lst xs" and "e \<in> set xs"
  obtains ys zs where "xs = ys @ e # zs" "lprev h e = last (lst # ys)" "lnext h e = hd (zs @ [lst])"
    "chain h lst ys e" "chain h e zs lst"
proof -
  obtain ys zs where xs: "xs = ys @ e # zs" using assms(2) by (auto dest: split_list)
  then have c: "chain h lst ys e" "chain h e zs lst" using assms(1) by (auto simp: dlist_def)
  show thesis
    by (rule that [OF xs]) (use chain_next_last [OF c(1)] chain_first [OF c(2)] c in auto)
qed

lemma dlist_remove:
  assumes "dlist h lst xs" and "e \<in> set xs"
  shows "dlist (lst_remove e h) lst (remove1 e xs)"
proof -
  from assms obtain ys zs where xs: "xs = ys @ e # zs"
    and pr: "lprev h e = last (lst # ys)" and nx: "lnext h e = hd (zs @ [lst])"
    and c: "chain h lst ys e" "chain h e zs lst" by (rule remove_links)
  have d: "distinct (lst # ys @ e # zs)" using assms(1) xs by (simp add: dlist_def)
  let ?p = "last (lst # ys)" let ?n = "hd (zs @ [lst])"
  have pe: "?p \<noteq> e" using d by (metis distinct.simps(2) distinct_append last_in_set list.distinct(1) list.set_intros(1) not_distinct_conv_prefix append_Cons disjoint_iff)
  have h': "lnext (lst_remove e h) = (lnext h)(?p := ?n)" "lprev (lst_remove e h) = (lprev h)(?n := ?p)"
    using pe by (simp_all add: lst_remove_def Let_def pr nx)
  have nys: "?n \<notin> set ys" using d by (cases zs) auto
  have pz: "?p \<notin> set zs" using d by (cases ys rule: rev_cases) auto
  have one: "chain (lst_remove e h) lst ys ?n"
  proof (rule chain_retarget [OF c(1)])
    show "\<forall>x\<in>set (butlast (lst # ys)). lnext (lst_remove e h) x = lnext h x"
    proof
      fix x assume x: "x \<in> set (butlast (lst # ys))"
      have "distinct (butlast (lst # ys) @ [last (lst # ys)])" using d by (cases ys rule: rev_cases) auto
      then have "x \<noteq> ?p" using x by auto
      then show "lnext (lst_remove e h) x = lnext h x" by (simp add: h')
    qed
  qed (use d nys in \<open>auto simp: h' split: if_splits\<close>)
  show ?thesis
  proof (cases zs)
    case Nil
    then show ?thesis using one d xs by (auto simp: dlist_def remove1_append)
  next
    case (Cons z zs')
    have "chain (lst_remove e h) z zs' lst"
      by (subst chain_cong [where h = h]) (use c(2) d pz Cons in \<open>auto simp: h'\<close>)
    then show ?thesis using one d xs Cons by (auto simp: dlist_def remove1_append)
  qed
qed

lemma dlist_push:
  assumes "dlist h lst xs" and "p \<notin> set (lst # xs)"
  shows "dlist (lst_push lst p h) lst (p # xs)"
proof -
  have f: "lnext h lst = hd (xs @ [lst])" using chain_first assms(1) by (auto simp: dlist_def)
  have ne: "p \<noteq> lst" "lst \<noteq> p" using assms(2) by auto
  have h': "lnext (lst_push lst p h) = (lnext h)(p := hd (xs @ [lst]), lst := p)"
    "lprev (lst_push lst p h) = (lprev h)(p := lst, hd (xs @ [lst]) := p)"
    using ne by (simp_all add: lst_push_def Let_def f)
  show ?thesis
  proof (cases xs)
    case Nil
    then show ?thesis using ne by (simp add: dlist_def h')
  next
    case (Cons x xs')
    have d: "distinct (lst # xs)" "chain h lst xs lst" using assms(1) by (auto simp: dlist_def)
    have "chain (lst_push lst p h) x xs' lst"
      by (subst chain_cong [where h = h]) (use d Cons assms(2) in \<open>auto simp: h'\<close>)
    then show ?thesis using assms(2) d Cons by (auto simp: dlist_def h')
  qed
qed

lemma dlist_pop:
  assumes "dlist h lst (x # xs)"
  shows "lst_pop lst h = (Inr x, lst_remove x h)"
  using assms by (auto simp: dlist_def lst_pop_def)

text \<open>An operation on one list leaves the links of every other list alone.\<close>

lemma dlist_cong:
  assumes "dlist h m ys"
    and "\<And>x. x \<in> set (m # ys) \<Longrightarrow> lnext h' x = lnext h x \<and> lprev h' x = lprev h x"
  shows "dlist h' m ys"
  using assms chain_cong [of m ys h' h m] by (simp add: dlist_def)

lemma dlist_remove_frame:
  assumes "dlist h lst xs" and "e \<in> set xs" and "dlist h m ys" and "set (lst # xs) \<inter> set (m # ys) = {}"
  shows "dlist (lst_remove e h) m ys"
proof (rule dlist_cong [OF assms(3)])
  fix x assume x: "x \<in> set (m # ys)"
  from assms(1,2) obtain as zs where xs: "xs = as @ e # zs"
    and pr: "lprev h e = last (lst # as)" and nx: "lnext h e = hd (zs @ [lst])" by (rule remove_links)
  have "last (lst # as) \<in> set (lst # xs)" "hd (zs @ [lst]) \<in> set (lst # xs)" "e \<in> set (lst # xs)"
    using xs by (cases zs; auto)+
  then have n: "x \<noteq> last (lst # as)" "x \<noteq> hd (zs @ [lst])" using x assms(4) by blast+
  have pe: "last (lst # as) \<noteq> e"
    using assms(1) xs by (cases as rule: rev_cases) (auto simp: dlist_def)
  show "lnext (lst_remove e h) x = lnext h x \<and> lprev (lst_remove e h) x = lprev h x"
    using n pe by (simp add: lst_remove_def Let_def pr nx)
qed

lemma dlist_push_frame:
  assumes "dlist h lst xs" and "dlist h m ys" and "set (lst # xs) \<inter> set (m # ys) = {}"
    and "p \<notin> set (lst # xs)" and "p \<notin> set (m # ys)"
  shows "dlist (lst_push lst p h) m ys"
proof (rule dlist_cong [OF assms(2)])
  fix x assume x: "x \<in> set (m # ys)"
  have f: "lnext h lst = hd (xs @ [lst])" using chain_first assms(1) by (auto simp: dlist_def)
  have "hd (xs @ [lst]) \<in> set (lst # xs)" by (cases xs) auto
  then have "x \<noteq> lst" "x \<noteq> hd (xs @ [lst])" "x \<noteq> p" using x assms(3,5) by auto
  moreover have "lst \<noteq> p" using assms(4) by auto
  ultimately show "lnext (lst_push lst p h) x = lnext h x \<and> lprev (lst_push lst p h) x = lprev h x"
    by (simp add: lst_push_def Let_def f)
qed

section \<open>Several lists in one store\<close>

text \<open>
  \<open>family rep h hd n F\<close>: for every \<open>k < n\<close> the list with head \<open>hd k\<close> has the elements
  \<open>F k\<close>, and no node belongs to two lists.
\<close>

definition family :: "('h \<Rightarrow> u64 \<Rightarrow> u64 list \<Rightarrow> bool) \<Rightarrow> 'h \<Rightarrow> (nat \<Rightarrow> u64) \<Rightarrow> nat \<Rightarrow> (nat \<Rightarrow> u64 list) \<Rightarrow> bool" where
  "family rep h hdr n F \<longleftrightarrow>
     (\<forall>k < n. rep h (hdr k) (F k)) \<and>
     (\<forall>j < n. \<forall>k < n. j \<noteq> k \<longrightarrow> set (hdr j # F j) \<inter> set (hdr k # F k) = {})"

locale linked_lists =
  fixes rep :: "'h \<Rightarrow> u64 \<Rightarrow> u64 list \<Rightarrow> bool"
    and push :: "u64 \<Rightarrow> u64 \<Rightarrow> 'h \<Rightarrow> 'h"
    and remove :: "u64 \<Rightarrow> 'h \<Rightarrow> 'h"
    and empty :: "u64 \<Rightarrow> 'h \<Rightarrow> bool"
    and pop :: "u64 \<Rightarrow> 'h \<Rightarrow> (kfault, u64, 'h) outcome"
  assumes distinct_rep: "rep h l xs \<Longrightarrow> distinct (l # xs)"
    and empty_rep: "rep h l xs \<Longrightarrow> empty l h = (xs = [])"
    and push_rep: "rep h l xs \<Longrightarrow> p \<notin> set (l # xs) \<Longrightarrow> rep (push l p h) l (p # xs)"
    and push_other: "rep h l xs \<Longrightarrow> rep h m ys \<Longrightarrow> set (l # xs) \<inter> set (m # ys) = {} \<Longrightarrow>
      p \<notin> set (l # xs) \<Longrightarrow> p \<notin> set (m # ys) \<Longrightarrow> rep (push l p h) m ys"
    and remove_rep: "rep h l xs \<Longrightarrow> e \<in> set xs \<Longrightarrow> rep (remove e h) l (remove1 e xs)"
    and remove_other: "rep h l xs \<Longrightarrow> e \<in> set xs \<Longrightarrow> rep h m ys \<Longrightarrow>
      set (l # xs) \<inter> set (m # ys) = {} \<Longrightarrow> rep (remove e h) m ys"
    and pop_rep: "rep h l (x # xs) \<Longrightarrow> pop l h = (Inr x, remove x h)"
begin

lemma family_push:
  assumes fam: "family rep h hdr n F" and k: "k < n"
    and fresh: "\<And>j. j < n \<Longrightarrow> p \<notin> set (hdr j # F j)"
  shows "family rep (push (hdr k) p h) hdr n (F(k := p # F k))"
proof -
  have dj: "set (hdr i # F i) \<inter> set (hdr j # F j) = {}" if "i < n" "j < n" "i \<noteq> j" for i j
    using fam that unfolding family_def by blast
  have r: "rep h (hdr j) (F j)" if "j < n" for j using fam that by (simp add: family_def)
  have "rep (push (hdr k) p h) (hdr j) ((F(k := p # F k)) j)" if j: "j < n" for j
  proof (cases "j = k")
    case True
    then show ?thesis using push_rep [OF r [OF k] fresh [OF k]] by simp
  next
    case False
    then show ?thesis
      using push_other [OF r [OF k] r [OF j] dj [OF k j] fresh [OF k] fresh [OF j]] by simp
  qed
  moreover have "set (hdr i # (F(k := p # F k)) i) \<inter> set (hdr j # (F(k := p # F k)) j) = {}"
    if "i < n" "j < n" "i \<noteq> j" for i j
    using dj [OF that] fresh [OF that(1)] fresh [OF that(2)] that(3) by auto
  ultimately show ?thesis unfolding family_def by blast
qed

lemma family_remove:
  assumes fam: "family rep h hdr n F" and k: "k < n" and e: "e \<in> set (F k)"
  shows "family rep (remove e h) hdr n (F(k := remove1 e (F k)))"
proof -
  have dj: "set (hdr i # F i) \<inter> set (hdr j # F j) = {}" if "i < n" "j < n" "i \<noteq> j" for i j
    using fam that unfolding family_def by blast
  have r: "rep h (hdr j) (F j)" if "j < n" for j using fam that by (simp add: family_def)
  have "rep (remove e h) (hdr j) ((F(k := remove1 e (F k))) j)" if j: "j < n" for j
  proof (cases "j = k")
    case True
    then show ?thesis using remove_rep [OF r [OF k] e] by simp
  next
    case False
    then show ?thesis using remove_other [OF r [OF k] e r [OF j] dj [OF k j]] by simp
  qed
  moreover have "set (hdr i # (F(k := remove1 e (F k))) i) \<inter> set (hdr j # (F(k := remove1 e (F k))) j) = {}"
    if "i < n" "j < n" "i \<noteq> j" for i j
    using dj [OF that] set_remove1_subset [of e "F k"] by auto
  ultimately show ?thesis unfolding family_def by blast
qed

lemma family_pop:
  assumes fam: "family rep h hdr n F" and k: "k < n" and F: "F k = x # xs"
  shows "pop (hdr k) h = (Inr x, remove x h)" "family rep (remove x h) hdr n (F(k := xs))"
proof -
  have "rep h (hdr k) (x # xs)" using fam k F by (auto simp: family_def)
  then show "pop (hdr k) h = (Inr x, remove x h)" by (rule pop_rep)
  from family_remove [OF fam k, of x] F show "family rep (remove x h) hdr n (F(k := xs))" by simp
qed

lemma family_empty: "family rep h hdr n F \<Longrightarrow> k < n \<Longrightarrow> empty (hdr k) h = (F k = [])"
  by (simp add: family_def empty_rep)

lemma family_distinct: "family rep h hdr n F \<Longrightarrow> k < n \<Longrightarrow> distinct (hdr k # F k)"
  unfolding family_def using distinct_rep by blast

end

lemma dlist_distinct: "dlist h l xs \<Longrightarrow> distinct (l # xs)"
  by (simp add: dlist_def)

lemmas dlist_laws = dlist_distinct dlist_empty_iff dlist_push dlist_push_frame dlist_remove
  dlist_remove_frame dlist_pop

interpretation klist: linked_lists dlist lst_push lst_remove lst_empty lst_pop
  by unfold_locales (rule dlist_laws; assumption)+

end
