(* ===== verification/Xv7_Buddy.thy ===== *)
theory Xv7_Buddy
  imports Xv7_List
begin

text \<open>
  The buddy allocator of \<open>xv7/kernel/buddy.c\<close>.  The state holds the globals and the memory
  the allocator owns: the links of the free lists, and for every size \<open>k\<close> the two bit
  vectors \<open>alloc\<close> and \<open>split\<close>.  Each operation runs under the allocator's lock, so it is
  one function of the state.  \<open>bd_inv\<close> is the invariant: the existing unsplit blocks tile
  the heap, and the free lists hold exactly those that are not allocated.
\<close>

section \<open>Bit vectors\<close>

type_synonym bitvec = "int \<Rightarrow> u8"

definition bit_mask :: "int \<Rightarrow> u8" where
  "bit_mask index = push_bit (nat (index mod 8)) 1"

definition bit_isset :: "bitvec \<Rightarrow> int \<Rightarrow> bool" where
  "bit_isset array index \<longleftrightarrow> (let b = array (index div 8); m = bit_mask index in b AND m = m)"

definition bit_set :: "bitvec \<Rightarrow> int \<Rightarrow> bitvec" where
  "bit_set array index = array(index div 8 := array (index div 8) OR bit_mask index)"

definition bit_clear :: "bitvec \<Rightarrow> int \<Rightarrow> bitvec" where
  "bit_clear array index = array(index div 8 := array (index div 8) AND NOT (bit_mask index))"

lemma bit_isset_bit: "bit_isset array index = bit (array (index div 8)) (nat (index mod 8))"
proof -
  have n: "nat (index mod 8) < 8" by (simp add: nat_less_iff)
  then have "array (index div 8) AND bit_mask index =
      (if bit (array (index div 8)) (nat (index mod 8)) then bit_mask index else 0)"
    by (intro bit_word_eqI) (auto simp: bit_mask_def bit_simps)
  moreover have "bit_mask index \<noteq> 0"
  proof
    assume "bit_mask index = 0"
    then have "\<not> bit (bit_mask index) (nat (index mod 8))" by simp
    then show False using n by (simp add: bit_mask_def bit_simps)
  qed
  ultimately show ?thesis by (simp add: bit_isset_def Let_def)
qed

lemma mod_div_8_eq: "i div 8 = j div 8 \<Longrightarrow> nat (i mod 8) = nat (j mod 8) \<longleftrightarrow> i = (j :: int)"
  by (metis Euclidean_Rings.pos_mod_sign eq_nat_nat_iff mult_div_mod_eq zero_less_numeral)

lemma bit_isset_set [simp]: "bit_isset (bit_set array j) i \<longleftrightarrow> i = j \<or> bit_isset array i"
proof (cases "i div 8 = j div 8")
  case True
  have "nat (i mod 8) < 8" "nat (j mod 8) < 8" by (simp_all add: nat_less_iff)
  then show ?thesis
    using True mod_div_8_eq [OF True] by (auto simp: bit_isset_bit bit_set_def bit_mask_def bit_simps)
qed (auto simp: bit_isset_bit bit_set_def)

lemma bit_isset_clear [simp]: "bit_isset (bit_clear array j) i \<longleftrightarrow> i \<noteq> j \<and> bit_isset array i"
proof (cases "i div 8 = j div 8")
  case True
  have "nat (i mod 8) < 8" "nat (j mod 8) < 8" by (simp_all add: nat_less_iff)
  then show ?thesis
    using True mod_div_8_eq [OF True] by (auto simp: bit_isset_bit bit_clear_def bit_mask_def bit_simps)
qed (auto simp: bit_isset_bit bit_clear_def)

lemma bit_isset_zero [simp]: "\<not> bit_isset (\<lambda>_. 0) i"
  by (simp add: bit_isset_bit)

section \<open>State and index arithmetic\<close>

record buddy =
  nsizes :: nat
  bd_base :: u64
  bd_links :: lheap
  bd_alloc :: "nat \<Rightarrow> bitvec"
  bd_split :: "nat \<Rightarrow> bitvec"

text \<open>C's conversion to \<open>int\<close> and its division, which truncates towards zero.\<close>

definition to_int :: "int \<Rightarrow> int" where
  "to_int n = signed_take_bit 31 n"

definition cdiv :: "int \<Rightarrow> int \<Rightarrow> int" where
  "cdiv a b = sgn a * (\<bar>a\<bar> div b)"

definition ROUNDUP :: "int \<Rightarrow> int \<Rightarrow> int" where
  "ROUNDUP n sz = (cdiv (n - 1) sz + 1) * sz"

abbreviation (input) LEAF_SIZE :: int where "LEAF_SIZE \<equiv> 16"

definition MAXSIZE :: "buddy \<Rightarrow> nat" where
  "MAXSIZE s = nsizes s - 1"

definition BLK_SIZE :: "nat \<Rightarrow> int" where
  "BLK_SIZE k = 2 ^ k * LEAF_SIZE"

definition NBLK :: "buddy \<Rightarrow> nat \<Rightarrow> int" where
  "NBLK s k = 2 ^ (MAXSIZE s - k)"

text \<open>The address of \<open>bd_sizes[k].free\<close>: the array is at \<open>bd_base\<close>, its elements are 32 bytes.\<close>

definition free_head :: "buddy \<Rightarrow> nat \<Rightarrow> u64" where
  "free_head s k = bd_base s + 32 * of_nat k"

definition blk_index :: "buddy \<Rightarrow> nat \<Rightarrow> u64 \<Rightarrow> int" where
  "blk_index s k p = (let n = to_int (sint (p - bd_base s)) in to_int (cdiv n (BLK_SIZE k)))"

definition blk_addr :: "buddy \<Rightarrow> nat \<Rightarrow> int \<Rightarrow> u64" where
  "blk_addr s k bi = (let n = to_int (bi * BLK_SIZE k) in bd_base s + of_int n)"

definition blk_index_next :: "buddy \<Rightarrow> nat \<Rightarrow> u64 \<Rightarrow> int" where
  "blk_index_next s k p =
     (let d = sint (p - bd_base s); n = to_int (cdiv d (BLK_SIZE k))
      in if d mod BLK_SIZE k \<noteq> 0 then n + 1 else n)"

definition set_alloc :: "nat \<Rightarrow> int \<Rightarrow> buddy \<Rightarrow> buddy" where
  "set_alloc k bi s = s\<lparr>bd_alloc := (bd_alloc s)(k := bit_set (bd_alloc s k) bi)\<rparr>"

definition clear_alloc :: "nat \<Rightarrow> int \<Rightarrow> buddy \<Rightarrow> buddy" where
  "clear_alloc k bi s = s\<lparr>bd_alloc := (bd_alloc s)(k := bit_clear (bd_alloc s k) bi)\<rparr>"

definition set_split :: "nat \<Rightarrow> int \<Rightarrow> buddy \<Rightarrow> buddy" where
  "set_split k bi s = s\<lparr>bd_split := (bd_split s)(k := bit_set (bd_split s k) bi)\<rparr>"

definition clear_split :: "nat \<Rightarrow> int \<Rightarrow> buddy \<Rightarrow> buddy" where
  "clear_split k bi s = s\<lparr>bd_split := (bd_split s)(k := bit_clear (bd_split s k) bi)\<rparr>"

definition push_free :: "nat \<Rightarrow> u64 \<Rightarrow> buddy \<Rightarrow> buddy" where
  "push_free k p s = s\<lparr>bd_links := lst_push (free_head s k) p (bd_links s)\<rparr>"

definition remove_free :: "u64 \<Rightarrow> buddy \<Rightarrow> buddy" where
  "remove_free p s = s\<lparr>bd_links := lst_remove p (bd_links s)\<rparr>"

text \<open>
  \<open>while (size < n) { k++; size *= 2; }\<close>.  The loop need not end: \<open>size\<close> is 64 bits wide,
  and not returning is \<open>None\<close>.
\<close>

partial_function (option) firstk_loop :: "u64 \<Rightarrow> nat \<Rightarrow> u64 \<Rightarrow> nat option" where
  "firstk_loop n k sz = (if sz < n then firstk_loop n (k + 1) (sz * 2) else Some k)"

definition firstk :: "u64 \<Rightarrow> nat option" where
  "firstk n = firstk_loop n 0 16"

function log2 :: "nat \<Rightarrow> nat" where
  "log2 n = (if n > 1 then log2 (n div 2) + 1 else 0)"
  by pat_completeness auto
termination by (relation "measure id") auto

declare log2.simps [simp del]

section \<open>Allocation\<close>

function find_free :: "buddy \<Rightarrow> nat \<Rightarrow> nat" where
  "find_free s k =
     (if k < nsizes s \<and> lst_empty (free_head s k) (bd_links s) then find_free s (k + 1) else k)"
  by pat_completeness auto
termination by (relation "measure (\<lambda>(s, k). nsizes s - k)") auto

declare find_free.simps [simp del]

text \<open>\<open>for (; k > fk; k--)\<close>: split the block \<open>p\<close> of size \<open>k\<close> down to size \<open>fk\<close>.\<close>

fun split_down :: "nat \<Rightarrow> nat \<Rightarrow> u64 \<Rightarrow> buddy \<Rightarrow> buddy" where
  "split_down fk 0 p s = s"
| "split_down fk (Suc k) p s =
     (if Suc k > fk then
        let q = p + of_int (BLK_SIZE k);
            s = set_split (Suc k) (blk_index s (Suc k) p) s;
            s = set_alloc k (blk_index s k p) s;
            s = push_free k q s
        in split_down fk k p s
      else s)"

definition bd_malloc :: "u64 \<Rightarrow> buddy \<Rightarrow> (kfault, u64, buddy) outcome option" where
  "bd_malloc nbytes s =
     (case firstk nbytes of
        None \<Rightarrow> None
      | Some fk \<Rightarrow>
          let k = find_free s fk in
          if k \<ge> nsizes s then Some (Inr 0, s)
          else
            Some (case lst_pop (free_head s k) (bd_links s) of
                (Inl e, h) \<Rightarrow> (Inl e, s\<lparr>bd_links := h\<rparr>)
              | (Inr p, h) \<Rightarrow>
                  let s = s\<lparr>bd_links := h\<rparr>;
                      s = set_alloc k (blk_index s k p) s
                  in (Inr p, split_down fk k p s)))"

section \<open>Release\<close>

text \<open>
  \<open>size\<close> reads \<open>bd_sizes[k+1]\<close> for \<open>k\<close> up to \<open>nsizes - 1\<close>: the last one is past the array.
\<close>

function size_loop :: "buddy \<Rightarrow> nat \<Rightarrow> u64 \<Rightarrow> kfault + nat" where
  "size_loop s k p =
     (if k < nsizes s then
        if k + 1 \<ge> nsizes s then Inl (Wild ''bd_sizes'')
        else if bit_isset (bd_split s (k + 1)) (blk_index s (k + 1) p) then Inr k
        else size_loop s (k + 1) p
      else Inr 0)"
  by pat_completeness auto
termination by (relation "measure (\<lambda>(s, k, p). nsizes s - k)") auto

declare size_loop.simps [simp del]

definition bd_size :: "buddy \<Rightarrow> u64 \<Rightarrow> kfault + nat" where
  "bd_size s p = size_loop s 0 p"

definition buddy_of :: "int \<Rightarrow> int" where
  "buddy_of bi = (if bi mod 2 = 0 then bi + 1 else bi - 1)"

text \<open>\<open>for (; k < MAXSIZE; k++)\<close>: merge with free buddies; the size and the block reached.\<close>

function free_loop :: "nat \<Rightarrow> u64 \<Rightarrow> buddy \<Rightarrow> nat \<times> u64 \<times> buddy" where
  "free_loop k p s =
     (if k < MAXSIZE s then
        let bi = blk_index s k p;
            s1 = clear_alloc k bi s
        in if bit_isset (bd_alloc s1 k) (buddy_of bi) then (k, p, s1)
           else
             let q = blk_addr s1 k (buddy_of bi);
                 s2 = remove_free q s1;
                 p' = (if buddy_of bi mod 2 = 0 then q else p)
             in free_loop (k + 1) p' (clear_split (k + 1) (blk_index s2 (k + 1) p') s2)
      else (k, p, s))"
  by pat_completeness auto
termination
  by (relation "measure (\<lambda>(k, p, s). MAXSIZE s - k)")
    (auto simp: MAXSIZE_def clear_split_def remove_free_def clear_alloc_def)

declare free_loop.simps [simp del]

definition bd_free :: "u64 \<Rightarrow> buddy \<Rightarrow> (kfault, unit, buddy) outcome" where
  "bd_free p s =
     (case bd_size s p of
        Inl e \<Rightarrow> (Inl e, s)
      | Inr k \<Rightarrow> (case free_loop k p s of (k, p, s) \<Rightarrow> (Inr (), push_free k p s)))"

section \<open>Initialisation\<close>

text \<open>\<open>for (; bi < bj; bi++)\<close> of \<open>bd_mark\<close>.\<close>

function mark_blocks :: "nat \<Rightarrow> int \<Rightarrow> int \<Rightarrow> buddy \<Rightarrow> buddy" where
  "mark_blocks k bi bj s =
     (if bi < bj then
        let s = (if k > 0 then set_split k bi s else s)
        in mark_blocks k (bi + 1) bj (set_alloc k bi s)
      else s)"
  by pat_completeness auto
termination by (relation "measure (\<lambda>(k, bi, bj, s). nat (bj - bi))") auto

declare mark_blocks.simps [simp del]

fun mark_sizes :: "u64 \<Rightarrow> u64 \<Rightarrow> nat list \<Rightarrow> buddy \<Rightarrow> buddy" where
  "mark_sizes start stop [] s = s"
| "mark_sizes start stop (k # ks) s =
     mark_sizes start stop ks (mark_blocks k (blk_index s k start) (blk_index_next s k stop) s)"

definition bd_mark :: "u64 \<Rightarrow> u64 \<Rightarrow> buddy \<Rightarrow> (kfault, unit, buddy) outcome" where
  "bd_mark start stop s =
     (if start mod 16 \<noteq> 0 \<or> stop mod 16 \<noteq> 0 then (Inl (Panic ''bd_mark''), s)
      else (Inr (), mark_sizes start stop [0..<nsizes s] s))"

definition bd_initfree_pair :: "nat \<Rightarrow> int \<Rightarrow> buddy \<Rightarrow> int \<times> buddy" where
  "bd_initfree_pair k bi s =
     (let buddy = buddy_of bi in
      if bit_isset (bd_alloc s k) bi \<noteq> bit_isset (bd_alloc s k) buddy then
        (BLK_SIZE k,
         if bit_isset (bd_alloc s k) bi then push_free k (blk_addr s k buddy) s
         else push_free k (blk_addr s k bi) s)
      else (0, s))"

fun initfree_sizes :: "u64 \<Rightarrow> u64 \<Rightarrow> nat list \<Rightarrow> int \<Rightarrow> buddy \<Rightarrow> int \<times> buddy" where
  "initfree_sizes bd_left bd_right [] free s = (free, s)"
| "initfree_sizes bd_left bd_right (k # ks) free s =
     (let left = blk_index_next s k bd_left; right = blk_index s k bd_right in
      case bd_initfree_pair k left s of (f1, s) \<Rightarrow>
        if right \<le> left then initfree_sizes bd_left bd_right ks (free + f1) s
        else (case bd_initfree_pair k right s of (f2, s) \<Rightarrow>
          initfree_sizes bd_left bd_right ks (free + f1 + f2) s))"

definition bd_initfree :: "u64 \<Rightarrow> u64 \<Rightarrow> buddy \<Rightarrow> int \<times> buddy" where
  "bd_initfree bd_left bd_right s = initfree_sizes bd_left bd_right [0..<MAXSIZE s] 0 s"

definition bd_mark_data_structures :: "u64 \<Rightarrow> buddy \<Rightarrow> (kfault, int, buddy) outcome" where
  "bd_mark_data_structures p s =
     (let meta = to_int (sint (p - bd_base s))
      in bindS (bd_mark (bd_base s) p s) (\<lambda>_ s. (Inr meta, s)))"

definition bd_mark_unavailable :: "u64 \<Rightarrow> buddy \<Rightarrow> (kfault, int, buddy) outcome" where
  "bd_mark_unavailable stop s =
     (let unavailable = to_int (BLK_SIZE (MAXSIZE s) - sint (stop - bd_base s));
          unavailable = (if unavailable > 0 then ROUNDUP unavailable LEAF_SIZE else unavailable);
          bd_end = bd_base s + of_int (BLK_SIZE (MAXSIZE s) - unavailable)
      in bindS (bd_mark bd_end (bd_base s + of_int (BLK_SIZE (MAXSIZE s))) s)
           (\<lambda>_ s. (Inr unavailable, s)))"

text \<open>
  \<open>bd_init\<close>: the size array, the vectors (their bytes only move \<open>p\<close>) and the list heads are
  laid out from the start of the heap, then the used and the missing part are marked.
\<close>

definition bitvec_bytes :: "buddy \<Rightarrow> nat \<Rightarrow> u64" where
  "bitvec_bytes s k = of_int (ROUNDUP (NBLK s k) 8 div 8)"

definition bd_init :: "u64 \<Rightarrow> u64 \<Rightarrow> (kfault, unit, buddy) outcome" where
  "bd_init base stop =
     (let p = ((base - 1) div 16 + 1) * 16;
          n = log2 (unat (of_int (cdiv (sint (stop - p)) LEAF_SIZE) :: u64)) + 1;
          n = (if sint (stop - p) > BLK_SIZE (n - 1) then n + 1 else n);
          s = \<lparr>nsizes = n, bd_base = p, bd_links = \<lparr>lnext = (\<lambda>_. 0), lprev = (\<lambda>_. 0)\<rparr>,
               bd_alloc = (\<lambda>_ _. 0), bd_split = (\<lambda>_ _. 0)\<rparr>;
          s = s\<lparr>bd_links := fold (\<lambda>k. lst_init (free_head s k)) [0..<n] (bd_links s)\<rparr>;
          p = p + 32 * of_nat n;
          p = fold (\<lambda>k p. p + bitvec_bytes s k) [0..<n] p;
          p = fold (\<lambda>k p. p + bitvec_bytes s k) [1..<n] p;
          p = ((p - 1) div 16 + 1) * 16
      in bindS (bd_mark_data_structures p s) (\<lambda>meta s.
         bindS (bd_mark_unavailable stop s) (\<lambda>unavailable s.
           let bd_end = bd_base s + of_int (BLK_SIZE (MAXSIZE s) - unavailable) in
           case bd_initfree p bd_end s of (free, s) \<Rightarrow>
             if free \<noteq> BLK_SIZE (MAXSIZE s) - meta - unavailable
             then (Inl (Panic ''bd_init: free mem''), s)
             else (Inr (), s))))"

end
