(* ===== verification/Xv7_Buddy_Inv.thy ===== *)
theory Xv7_Buddy_Inv
  imports Xv7_Buddy
begin

text \<open>
  Correctness of the buddy allocator: the size class of a request, the arithmetic of block
  numbers, the invariant of the heap and its preservation by allocation and release.
\<close>


section \<open>The size class of a request\<close>

lemma unat_pow2_u64: "j < 64 \<Longrightarrow> unat (2 ^ j :: u64) = 2 ^ j"
  using unat_of_nat [of "2 ^ j", where 'a = 64] power_strict_increasing [of j 64 "2 :: nat"] by simp

lemma firstk_loop_least:
  assumes "k \<le> 59" and "sz = 2 ^ (k + 4)" and "unat n \<le> 2 ^ 63" and "\<forall>j < k. 2 ^ (j + 4) < unat n"
  shows "\<exists>r \<le> 59. firstk_loop n k sz = Some r \<and> unat n \<le> 2 ^ (r + 4) \<and> (\<forall>j < r. 2 ^ (j + 4) < unat n)"
  using assms
proof (induction "59 - k" arbitrary: k sz)
  case 0
  then have k: "k = 59" by simp
  have "\<not> sz < n" using 0 k by (simp add: word_less_nat_alt)
  then have "firstk_loop n k sz = Some k" by (simp add: firstk_loop.simps)
  then show ?case using 0 k by auto
next
  case (Suc d)
  have u: "unat sz = 2 ^ (k + 4)" using Suc.prems by (simp add: unat_pow2_u64)
  show ?case
  proof (cases "sz < n")
    case True
    have "\<exists>r \<le> 59. firstk_loop n (k + 1) (sz * 2) = Some r \<and> unat n \<le> 2 ^ (r + 4) \<and> (\<forall>j < r. 2 ^ (j + 4) < unat n)"
    proof (rule Suc.hyps(1))
      show "\<forall>j<k + 1. 2 ^ (j + 4) < unat n"
        using Suc.prems(4) True u by (auto simp: word_less_nat_alt less_Suc_eq)
    qed (use Suc in \<open>auto simp: power_add\<close>)
    then show ?thesis using True by (subst (1) firstk_loop.simps) simp
  next
    case False
    then have "firstk_loop n k sz = Some k" by (simp add: firstk_loop.simps)
    then show ?thesis using False u Suc.prems by (auto simp: word_less_nat_alt not_less)
  qed
qed

lemma double_pow2_u64:
  assumes "sz = 0 \<or> (\<exists>j < 64. sz = 2 ^ j)"
  shows "unat (sz :: u64) \<le> 2 ^ 63" "sz * 2 = 0 \<or> (\<exists>j < 64. sz * 2 = 2 ^ j)"
proof -
  have "unat sz \<le> 2 ^ 63 \<and> (sz * 2 = 0 \<or> (\<exists>j < 64. sz * 2 = 2 ^ j))"
  proof (cases "sz = 0")
    case False
    with assms obtain j where j: "j < 64" "sz = 2 ^ j" by auto
    then have e: "sz * 2 = 2 ^ Suc j" by simp
    have "(2 :: nat) ^ j \<le> 2 ^ 63" using j by (intro power_increasing) auto
    then have u: "unat sz \<le> 2 ^ 63" using j by (simp add: unat_pow2_u64)
    show ?thesis
    proof (cases "Suc j < 64")
      case True then show ?thesis using e u by blast
    next
      case False
      then have "Suc j = 64" using j by simp
      then have "sz * 2 = 0" unfolding e by simp
      then show ?thesis using u by simp
    qed
  qed simp
  then show "unat sz \<le> 2 ^ 63" "sz * 2 = 0 \<or> (\<exists>j < 64. sz * 2 = 2 ^ j)" by auto
qed

lemma firstk_loop_diverges:
  assumes "firstk_loop n k sz = Some r"
  shows "2 ^ 63 < unat n \<longrightarrow> \<not> (sz = 0 \<or> (\<exists>j < 64. sz = 2 ^ j))"
proof (rule firstk_loop.raw_induct [OF _ assms])
  fix loop :: "u64 \<Rightarrow> nat \<Rightarrow> u64 \<Rightarrow> nat option" and n k sz r
  assume IH: "\<And>n k sz r. loop n k sz = Some r \<Longrightarrow> 2 ^ 63 < unat n \<longrightarrow> \<not> (sz = 0 \<or> (\<exists>j < 64. sz = 2 ^ j))"
    and eq: "(if sz < n then loop n (k + 1) (sz * 2) else Some k) = Some r"
  show "2 ^ 63 < unat n \<longrightarrow> \<not> (sz = 0 \<or> (\<exists>j < 64. sz = 2 ^ j))"
  proof (intro impI notI)
    assume n: "2 ^ 63 < unat n" and sz: "sz = 0 \<or> (\<exists>j < 64. sz = 2 ^ j)"
    note d = double_pow2_u64 [OF sz]
    have "sz < n" using d(1) n by (simp add: word_less_nat_alt)
    then have "loop n (k + 1) (sz * 2) = Some r" using eq by simp
    from mp [OF IH [OF this] n] d(2) show False by contradiction
  qed
qed

lemma firstk_spec:
  "firstk n = (if unat n \<le> 2 ^ 63 then Some (LEAST k. unat n \<le> 2 ^ k * 16) else None)"
proof (cases "unat n \<le> 2 ^ 63")
  case True
  have "\<exists>r \<le> 59. firstk_loop n 0 16 = Some r \<and> unat n \<le> 2 ^ (r + 4) \<and> (\<forall>j < r. 2 ^ (j + 4) < unat n)"
    by (rule firstk_loop_least) (use True in simp_all)
  then obtain r where r: "firstk n = Some r" "unat n \<le> 2 ^ r * 16" "\<forall>j < r. 2 ^ j * 16 < unat n"
    by (auto simp: firstk_def power_add)
  then have "(LEAST k. unat n \<le> 2 ^ k * 16) = r"
    by (intro Least_equality) (auto simp: not_less [symmetric])
  then show ?thesis using r True by simp
next
  case False
  have "\<exists>j < 64. (16 :: u64) = 2 ^ j" by (rule exI [of _ 4]) simp
  then have "firstk_loop n 0 16 \<noteq> Some r" for r
    using firstk_loop_diverges [of n 0 16 r] False by auto
  then have "firstk_loop n 0 16 = None" by (cases "firstk_loop n 0 16") auto
  then show ?thesis using False by (simp add: firstk_def)
qed

section \<open>Blocks\<close>

text \<open>Block \<open>i\<close> of size \<open>k\<close>.\<close>

definition blk :: "buddy \<Rightarrow> nat \<Rightarrow> nat \<Rightarrow> u64" where
  "blk s k i = bd_base s + of_nat (i * 2 ^ (k + 4))"

lemma to_int_small [simp]: "0 \<le> n \<Longrightarrow> n < 2 ^ 31 \<Longrightarrow> to_int n = n"
  by (simp add: to_int_def signed_take_bit_int_eq_self)

lemma sint_of_nat_small: "n < 2 ^ 63 \<Longrightarrow> sint (of_nat n :: u64) = int n"
  by (simp add: signed_of_nat signed_take_bit_int_eq_self)

lemma int_less_2_31: "n < 2 ^ 31 \<Longrightarrow> int n < 2 ^ 31"
  by simp

lemma blk_index_offset:
  assumes "off < 2 ^ 31"
  shows "blk_index s k (bd_base s + of_nat off) = int (off div 2 ^ (k + 4))"
proof -
  have "off div 2 ^ (k + 4) \<le> off" by simp
  then have "off div 2 ^ (k + 4) < 2 ^ 31" using assms by (rule le_less_trans)
  note int_less_2_31 [OF this]
  moreover have "cdiv (int off) (BLK_SIZE k) = int (off div 2 ^ (k + 4))"
    by (cases "off = 0") (simp_all add: cdiv_def BLK_SIZE_def power_add zdiv_int)
  ultimately show ?thesis
    using assms by (simp add: blk_index_def Let_def sint_of_nat_small)
qed

lemma blk_addr_blk:
  assumes "i * 2 ^ (k + 4) < 2 ^ 31"
  shows "blk_addr s k (int i) = blk s k i"
proof -
  have "int i * BLK_SIZE k = int (i * 2 ^ (k + 4))" by (simp add: BLK_SIZE_def power_add)
  moreover have "to_int (int (i * 2 ^ (k + 4))) = int (i * 2 ^ (k + 4))"
    by (rule to_int_small [OF of_nat_0_le_iff int_less_2_31 [OF assms]])
  ultimately show ?thesis by (simp only: blk_addr_def blk_def Let_def of_int_of_nat_eq)
qed

text \<open>The blocks of a heap of size \<open>2^(m+4)\<close>.\<close>

definition in_heap :: "nat \<Rightarrow> nat \<Rightarrow> nat \<Rightarrow> bool" where
  "in_heap m k i \<longleftrightarrow> k \<le> m \<and> i < 2 ^ (m - k)"

lemma in_heap_offset:
  assumes "in_heap m k i" and "m \<le> 26"
  shows "(i + 1) * 2 ^ (k + 4) \<le> 2 ^ (m + 4)" "i * 2 ^ (k + 4) < 2 ^ 31"
proof -
  have "(i + 1) * 2 ^ (k + 4) \<le> 2 ^ (m - k) * 2 ^ (k + 4)"
    using assms(1) by (intro mult_le_mono1) (simp add: in_heap_def)
  also have "\<dots> = 2 ^ (m + 4)" using assms(1) by (simp add: in_heap_def flip: power_add)
  finally show le: "(i + 1) * 2 ^ (k + 4) \<le> 2 ^ (m + 4)" .
  have "(2 :: nat) ^ (m + 4) \<le> 2 ^ 30" using assms(2) by (intro power_increasing) auto
  moreover have "i * 2 ^ (k + 4) \<le> (i + 1) * 2 ^ (k + 4)" by simp
  ultimately have "i * 2 ^ (k + 4) \<le> 2 ^ 30" using le by (meson le_trans)
  also have "(2 :: nat) ^ 30 < 2 ^ 31" by simp
  finally show "i * 2 ^ (k + 4) < 2 ^ 31" .
qed

lemma blk_index_blk:
  assumes "in_heap m k i" and "m \<le> 26" and "k \<le> j"
  shows "blk_index s j (blk s k i) = int (i div 2 ^ (j - k))"
proof -
  have "i * 2 ^ (k + 4) div 2 ^ (j + 4) = i div 2 ^ (j - k)"
  proof -
    have "(2 :: nat) ^ (j + 4) = 2 ^ (k + 4) * 2 ^ (j - k)" using assms(3) by (simp flip: power_add)
    then show ?thesis by (simp add: div_mult2_eq)
  qed
  then show ?thesis
    using blk_index_offset [OF in_heap_offset(2) [OF assms(1,2)], of s j] by (simp add: blk_def)
qed

lemma blk_eq_offset:
  assumes "in_heap m k i" and "in_heap m' k' i'" and "m \<le> 26" and "m' \<le> 26"
  shows "blk s k i = blk s k' i' \<longleftrightarrow> i * 2 ^ (k + 4) = i' * 2 ^ (k' + 4)"
proof -
  have "of_nat a = (of_nat b :: u64) \<longleftrightarrow> a = b" if "a < 2 ^ 31" "b < 2 ^ 31" for a b :: nat
  proof -
    have "unat (of_nat a :: u64) = a" "unat (of_nat b :: u64) = b"
      using that by (simp_all add: unat_of_nat)
    then show ?thesis by metis
  qed
  from this [OF in_heap_offset(2) [OF assms(1,3)] in_heap_offset(2) [OF assms(2,4)]]
  show ?thesis by (simp only: blk_def add_left_cancel)
qed

text \<open>A block and its two halves.\<close>

lemma blk_half: "blk s (Suc k) i = blk s k (2 * i)"
  by (simp add: blk_def power_add)

lemma blk_buddy: "blk s k i + of_int (BLK_SIZE k) = blk s k (i + 1)"
  by (simp add: blk_def BLK_SIZE_def algebra_simps power_add)

section \<open>The tree of blocks\<close>

text \<open>
  \<open>A\<close> and \<open>S\<close> are the allocated and the split blocks of a heap of \<open>2^m\<close> leaves, as pairs of
  a size and an index.  A block exists when it is the root or its parent is split; the
  leaves of the tree are the existing unsplit blocks, free or handed out.
\<close>

type_synonym blocks = "(nat \<times> nat) set"

definition existing :: "nat \<Rightarrow> blocks \<Rightarrow> blocks" where
  "existing m S = {(k, i). k = m \<and> i = 0 \<or> k < m \<and> (Suc k, i div 2) \<in> S}"

definition tree :: "nat \<Rightarrow> blocks \<Rightarrow> blocks \<Rightarrow> bool" where
  "tree m A S \<longleftrightarrow>
     (\<forall>(k, i) \<in> A. in_heap m k i \<and> (k, i) \<in> existing m S) \<and> (\<forall>(k, i) \<in> S. 0 < k \<and> (k, i) \<in> A)"

definition free_blocks :: "nat \<Rightarrow> blocks \<Rightarrow> blocks \<Rightarrow> blocks" where
  "free_blocks m A S = existing m S - A"

definition leaves :: "nat \<Rightarrow> blocks \<Rightarrow> blocks" where
  "leaves m S = existing m S - S"

lemma existing_iff: "(k, i) \<in> existing m S \<longleftrightarrow> k = m \<and> i = 0 \<or> k < m \<and> (Suc k, i div 2) \<in> S"
  by (simp add: existing_def)

lemma treeD:
  assumes "tree m A S"
  shows "(k, i) \<in> A \<Longrightarrow> in_heap m k i" "(k, i) \<in> A \<Longrightarrow> (k, i) \<in> existing m S"
    "(k, i) \<in> S \<Longrightarrow> 0 < k" "(k, i) \<in> S \<Longrightarrow> (k, i) \<in> A"
  using assms by (auto simp: tree_def)

lemma existing_in_heap:
  assumes "tree m A S" and "(k, i) \<in> existing m S"
  shows "in_heap m k i"
proof (cases "k = m \<and> i = 0")
  case False
  then have k: "k < m" "(Suc k, i div 2) \<in> S" using assms(2) by (auto simp: existing_iff)
  then have "i div 2 < 2 ^ (m - Suc k)" using treeD(1,4) [OF assms(1)] by (meson in_heap_def)
  then have "i < 2 * 2 ^ (m - Suc k)" by simp
  also have "2 * 2 ^ (m - Suc k) = (2 :: nat) ^ (m - k)" using k(1) by (simp add: Suc_diff_Suc flip: power_Suc)
  finally show ?thesis using k(1) by (simp add: in_heap_def)
qed (simp add: in_heap_def)

lemma ancestors_split:
  assumes "tree m A S" and "(k, i) \<in> existing m S" and "k < j" and "j \<le> m"
  shows "(j, i div 2 ^ (j - k)) \<in> S"
  using assms(3,4)
proof (induction j)
  case (Suc j)
  show ?case
  proof (cases "k = j")
    case True
    then show ?thesis using assms(2) Suc.prems by (auto simp: existing_iff)
  next
    case False
    then have "(j, i div 2 ^ (j - k)) \<in> S" using Suc by simp
    then have "(j, i div 2 ^ (j - k)) \<in> existing m S" using treeD [OF assms(1)] by blast
    then have "(Suc j, i div 2 ^ (j - k) div 2) \<in> S" using Suc.prems by (auto simp: existing_iff)
    moreover have "i div 2 ^ (j - k) div 2 = i div 2 ^ (Suc j - k)"
      using False Suc.prems(1) by (simp add: div_mult2_eq [symmetric] Suc_diff_le mult.commute)
    ultimately show ?thesis by simp
  qed
qed simp

definition separate :: "nat \<times> nat \<Rightarrow> nat \<times> nat \<Rightarrow> bool" where
  "separate b c = (case (b, c) of ((k, i), (j, l)) \<Rightarrow>
     (i + 1) * 2 ^ (k + 4) \<le> l * 2 ^ (j + 4) \<or> (l + 1) * 2 ^ (j + 4) \<le> i * 2 ^ (k + 4))"

lemma separate_commute: "separate b c \<longleftrightarrow> separate c b"
  by (auto simp: separate_def split: prod.splits)

lemma separate_smaller:
  assumes "k < j" and "i div 2 ^ (j - k) \<noteq> l"
  shows "separate (k, i) (j, l)"
proof -
  let ?d = "2 ^ (j - k) :: nat" and ?u = "2 ^ (k + 4) :: nat"
  have j: "2 ^ (j + 4) = ?d * ?u" using assms(1) by (simp flip: power_add)
  consider "i div ?d < l" | "l < i div ?d" using assms(2) by linarith
  then show ?thesis
  proof cases
    case 1
    then have "i + 1 \<le> l * ?d" by (simp add: div_less_iff_less_mult Suc_le_eq)
    then have "(i + 1) * ?u \<le> l * ?d * ?u" by (rule mult_le_mono1)
    then show ?thesis by (simp add: separate_def j mult.assoc)
  next
    case 2
    then have "l + 1 \<le> i div ?d" by simp
    then have "(l + 1) * ?d \<le> i" by (simp add: less_eq_div_iff_mult_less_eq)
    then have "(l + 1) * ?d * ?u \<le> i * ?u" by (rule mult_le_mono1)
    then show ?thesis unfolding separate_def prod.case j mult.assoc by (rule disjI2)
  qed
qed

lemma leaves_separate:
  assumes t: "tree m A S" and b: "b \<in> leaves m S" and c: "c \<in> leaves m S" and ne: "b \<noteq> c"
  shows "separate b c"
proof -
  have sep: "separate (k, i) (j, l)"
    if "(k, i) \<in> leaves m S" "(j, l) \<in> leaves m S" "k < j" for k i j l
  proof (rule separate_smaller [OF that(3)])
    have "in_heap m j l" using existing_in_heap [OF t] that(2) by (simp add: leaves_def)
    then have "(j, i div 2 ^ (j - k)) \<in> S"
      using ancestors_split [OF t _ that(3)] that(1) by (simp add: leaves_def in_heap_def)
    then show "i div 2 ^ (j - k) \<noteq> l" using that(2) by (auto simp: leaves_def)
  qed
  obtain k i j l where e: "b = (k, i)" "c = (j, l)" by (metis surj_pair)
  consider "k < j" | "j < k" | "k = j" "i \<noteq> l" using ne e by fastforce
  then show ?thesis
  proof cases
    case 1 then show ?thesis using sep b c e by blast
  next
    case 2 then show ?thesis using sep b c e separate_commute by blast
  next
    case 3
    then consider "i + 1 \<le> l" | "l + 1 \<le> i" by linarith
    then show ?thesis
      unfolding separate_def e 3(1) prod.case by cases (blast intro: mult_le_mono1)+
  qed
qed

section \<open>Operations on the tree\<close>

lemma tree_take:
  assumes "tree m A S" and "b \<in> free_blocks m A S"
  shows "tree m (insert b A) S" "free_blocks m (insert b A) S = free_blocks m A S - {b}"
    "insert b A - S = insert b (A - S)"
  using assms existing_in_heap [OF assms(1)] by (auto simp: tree_def free_blocks_def)

lemma tree_split:
  assumes t: "tree m A S" and b: "(Suc k, i) \<in> A - S"
  shows "tree m (insert (k, 2 * i) A) (insert (Suc k, i) S)"
    "free_blocks m (insert (k, 2 * i) A) (insert (Suc k, i) S) = insert (k, 2 * i + 1) (free_blocks m A S)"
    "insert (k, 2 * i) A - insert (Suc k, i) S = insert (k, 2 * i) (A - S - {(Suc k, i)})"
proof -
  have h: "in_heap m (Suc k) i" "(Suc k, i) \<in> existing m S" using treeD [OF t] b by blast+
  have m: "k < m" using h by (simp add: in_heap_def)
  have fresh: "(k, l) \<notin> A" "(k, l) \<notin> S" if "l div 2 = i" for l
    using treeD(2,4) [OF t, of k l] that b m by (auto simp: existing_iff)
  have ex: "existing m (insert (Suc k, i) S) = existing m S \<union> {(k, 2 * i), (k, 2 * i + 1)}"
    using m by (auto simp: existing_def)
  have "2 * i < 2 ^ (m - k)"
  proof -
    have "2 * i < 2 * 2 ^ (m - Suc k)" using h by (simp add: in_heap_def)
    also have "2 * 2 ^ (m - Suc k) = (2 :: nat) ^ (m - k)" using m by (simp add: Suc_diff_Suc flip: power_Suc)
    finally show ?thesis .
  qed
  then have "in_heap m k (2 * i)" using m by (simp add: in_heap_def)
  then show "tree m (insert (k, 2 * i) A) (insert (Suc k, i) S)"
    using t b ex by (auto simp: tree_def)
  have "(k, 2 * i + 1) \<notin> A" "(k, 2 * i + 1) \<notin> existing m S" "(k, 2 * i) \<notin> existing m S"
    using fresh b m by (auto simp: existing_iff)
  then show "free_blocks m (insert (k, 2 * i) A) (insert (Suc k, i) S) = insert (k, 2 * i + 1) (free_blocks m A S)"
    by (auto simp: free_blocks_def ex)
  show "insert (k, 2 * i) A - insert (Suc k, i) S = insert (k, 2 * i) (A - S - {(Suc k, i)})"
    using fresh by auto
qed

lemma tree_release:
  assumes "tree m A S" and "b \<in> A - S"
  shows "tree m (A - {b}) S" "free_blocks m (A - {b}) S = insert b (free_blocks m A S)"
    "A - {b} - S = A - S - {b}"
  using assms by (auto simp: tree_def free_blocks_def)

definition sibling :: "nat \<Rightarrow> nat" where
  "sibling i = (if even i then i + 1 else i - 1)"

lemma sibling_div [simp]: "sibling i div 2 = i div 2"
  by (auto simp: sibling_def elim!: oddE)

lemma same_parent: "l div 2 = i div 2 \<Longrightarrow> l = i \<or> l = sibling i"
  by (auto simp: sibling_def elim!: oddE evenE)


lemma tree_merge:
  assumes t: "tree m A S" and b: "(k, i) \<in> A - S" and k: "k < m" and s: "(k, sibling i) \<notin> A"
  shows "tree m (A - {(k, i)}) (S - {(Suc k, i div 2)})"
    "(k, sibling i) \<in> free_blocks m A S"
    "free_blocks m (A - {(k, i)}) (S - {(Suc k, i div 2)}) = free_blocks m A S - {(k, sibling i)}"
    "A - {(k, i)} - (S - {(Suc k, i div 2)}) = insert (Suc k, i div 2) (A - S - {(k, i)})"
proof -
  have p: "(Suc k, i div 2) \<in> S" using treeD(2) [OF t] b k by (auto simp: existing_iff)
  have ns: "(k, sibling i) \<notin> S" using treeD(4) [OF t] s by blast
  have ex: "existing m (S - {(Suc k, i div 2)}) = existing m S - {(k, i), (k, sibling i)}"
  proof (rule set_eqI)
    fix x :: "nat \<times> nat" obtain j l where x: "x = (j, l)" by fastforce
    show "x \<in> existing m (S - {(Suc k, i div 2)}) \<longleftrightarrow> x \<in> existing m S - {(k, i), (k, sibling i)}"
      using k p same_parent [of l i] unfolding x by (cases "j = k") (auto simp: existing_iff)
  qed
  show "tree m (A - {(k, i)}) (S - {(Suc k, i div 2)})"
  proof -
    have "\<forall>(k', i') \<in> A - {(k, i)}. in_heap m k' i' \<and> (k', i') \<in> existing m S - {(k, i), (k, sibling i)}"
      using treeD(1,2) [OF t] s by blast
    moreover have "\<forall>(k', i') \<in> S - {(Suc k, i div 2)}. 0 < k' \<and> (k', i') \<in> A - {(k, i)}"
      using treeD(3,4) [OF t] b by blast
    ultimately show ?thesis by (simp only: tree_def ex)
  qed
  show "(k, sibling i) \<in> free_blocks m A S"
    using k p s by (simp add: free_blocks_def existing_iff)
  show "free_blocks m (A - {(k, i)}) (S - {(Suc k, i div 2)}) = free_blocks m A S - {(k, sibling i)}"
    unfolding free_blocks_def ex using b by blast
  show "A - {(k, i)} - (S - {(Suc k, i div 2)}) = insert (Suc k, i div 2) (A - S - {(k, i)})"
    using p treeD(4) [OF t p] b by auto
qed

section \<open>The invariant of the heap\<close>

definition alloc_set :: "buddy \<Rightarrow> blocks" where
  "alloc_set s = {(k, i). bit_isset (bd_alloc s k) (int i)}"

definition split_set :: "buddy \<Rightarrow> blocks" where
  "split_set s = {(k, i). bit_isset (bd_split s k) (int i)}"

text \<open>The blocks handed out to clients, and those of the allocator's own list heads.\<close>

definition user_blocks :: "buddy \<Rightarrow> blocks" where
  "user_blocks s = alloc_set s - split_set s"

definition head_blocks :: "buddy \<Rightarrow> blocks" where
  "head_blocks s = {(0, 2 * j) |j. j < nsizes s}"

definition bd_inv :: "buddy \<Rightarrow> (nat \<Rightarrow> u64 list) \<Rightarrow> bool" where
  "bd_inv s F \<longleftrightarrow>
     1 \<le> nsizes s \<and> MAXSIZE s \<le> 26 \<and>
     family dlist (bd_links s) (free_head s) (nsizes s) F \<and>
     tree (MAXSIZE s) (alloc_set s) (split_set s) \<and>
     (\<forall>k < nsizes s. set (F k) = blk s k ` {i. (k, i) \<in> free_blocks (MAXSIZE s) (alloc_set s) (split_set s)}) \<and>
     head_blocks s \<subseteq> alloc_set s"

lemma alloc_set_simps [simp]:
  "alloc_set (set_alloc k (int i) s) = insert (k, i) (alloc_set s)"
  "alloc_set (clear_alloc k (int i) s) = alloc_set s - {(k, i)}"
  "alloc_set (set_split k bi s) = alloc_set s" "alloc_set (clear_split k bi s) = alloc_set s"
  "alloc_set (push_free k p s) = alloc_set s" "alloc_set (remove_free p s) = alloc_set s"
  "alloc_set (s\<lparr>bd_links := h\<rparr>) = alloc_set s"
  by (auto simp: alloc_set_def set_alloc_def clear_alloc_def set_split_def clear_split_def
      push_free_def remove_free_def split: if_splits)

lemma split_set_simps [simp]:
  "split_set (set_split k (int i) s) = insert (k, i) (split_set s)"
  "split_set (clear_split k (int i) s) = split_set s - {(k, i)}"
  "split_set (set_alloc k bi s) = split_set s" "split_set (clear_alloc k bi s) = split_set s"
  "split_set (push_free k p s) = split_set s" "split_set (remove_free p s) = split_set s"
  "split_set (s\<lparr>bd_links := h\<rparr>) = split_set s"
  by (auto simp: split_set_def set_alloc_def clear_alloc_def set_split_def clear_split_def
      push_free_def remove_free_def split: if_splits)

lemma links_simps [simp]:
  "bd_links (set_alloc k bi s) = bd_links s" "bd_links (clear_alloc k bi s) = bd_links s"
  "bd_links (set_split k bi s) = bd_links s" "bd_links (clear_split k bi s) = bd_links s"
  "bd_links (push_free k p s) = lst_push (free_head s k) p (bd_links s)"
  "bd_links (remove_free p s) = lst_remove p (bd_links s)"
  by (simp_all add: set_alloc_def clear_alloc_def set_split_def clear_split_def push_free_def remove_free_def)

lemma frame_nsizes [simp]:
  "nsizes (set_alloc k bi s) = nsizes s" "nsizes (clear_alloc k bi s) = nsizes s"
  "nsizes (set_split k bi s) = nsizes s" "nsizes (clear_split k bi s) = nsizes s"
  "nsizes (push_free k p s) = nsizes s" "nsizes (remove_free p s) = nsizes s"
  by (simp_all add: set_alloc_def clear_alloc_def set_split_def clear_split_def push_free_def remove_free_def)

lemma frame_base [simp]:
  "bd_base (set_alloc k bi s) = bd_base s" "bd_base (clear_alloc k bi s) = bd_base s"
  "bd_base (set_split k bi s) = bd_base s" "bd_base (clear_split k bi s) = bd_base s"
  "bd_base (push_free k p s) = bd_base s" "bd_base (remove_free p s) = bd_base s"
  by (simp_all add: set_alloc_def clear_alloc_def set_split_def clear_split_def push_free_def remove_free_def)

lemma frame_addresses:
  assumes "nsizes t = nsizes s" and "bd_base t = bd_base s"
  shows "MAXSIZE t = MAXSIZE s" "free_head t = free_head s" "blk t = blk s"
    "blk_index t = blk_index s" "blk_addr t = blk_addr s" "head_blocks t = head_blocks s"
  using assms by (auto simp: fun_eq_iff MAXSIZE_def free_head_def blk_def blk_index_def blk_addr_def head_blocks_def)

text \<open>The step functions keep the geometry of the heap.\<close>

lemma frame_maxsize [simp]:
  "MAXSIZE (set_alloc k bi s) = MAXSIZE s"
  "MAXSIZE (clear_alloc k bi s) = MAXSIZE s"
  "MAXSIZE (set_split k bi s) = MAXSIZE s"
  "MAXSIZE (clear_split k bi s) = MAXSIZE s"
  "MAXSIZE (push_free k p s) = MAXSIZE s"
  "MAXSIZE (remove_free p s) = MAXSIZE s"
  by (rule frame_addresses; simp)+

lemma frame_head [simp]:
  "free_head (set_alloc k bi s) = free_head s"
  "free_head (clear_alloc k bi s) = free_head s"
  "free_head (set_split k bi s) = free_head s"
  "free_head (clear_split k bi s) = free_head s"
  "free_head (push_free k p s) = free_head s"
  "free_head (remove_free p s) = free_head s"
  by (rule frame_addresses; simp)+

lemma frame_blk [simp]:
  "blk (set_alloc k bi s) = blk s"
  "blk (clear_alloc k bi s) = blk s"
  "blk (set_split k bi s) = blk s"
  "blk (clear_split k bi s) = blk s"
  "blk (push_free k p s) = blk s"
  "blk (remove_free p s) = blk s"
  by (rule frame_addresses; simp)+

lemma frame_index [simp]:
  "blk_index (set_alloc k bi s) = blk_index s"
  "blk_index (clear_alloc k bi s) = blk_index s"
  "blk_index (set_split k bi s) = blk_index s"
  "blk_index (clear_split k bi s) = blk_index s"
  "blk_index (push_free k p s) = blk_index s"
  "blk_index (remove_free p s) = blk_index s"
  by (rule frame_addresses; simp)+

lemma frame_addr [simp]:
  "blk_addr (set_alloc k bi s) = blk_addr s"
  "blk_addr (clear_alloc k bi s) = blk_addr s"
  "blk_addr (set_split k bi s) = blk_addr s"
  "blk_addr (clear_split k bi s) = blk_addr s"
  "blk_addr (push_free k p s) = blk_addr s"
  "blk_addr (remove_free p s) = blk_addr s"
  by (rule frame_addresses; simp)+

lemma frame_heads [simp]:
  "head_blocks (set_alloc k bi s) = head_blocks s"
  "head_blocks (clear_alloc k bi s) = head_blocks s"
  "head_blocks (set_split k bi s) = head_blocks s"
  "head_blocks (clear_split k bi s) = head_blocks s"
  "head_blocks (push_free k p s) = head_blocks s"
  "head_blocks (remove_free p s) = head_blocks s"
  by (rule frame_addresses; simp)+

lemma links_addresses [simp]:
  "MAXSIZE (s\<lparr>bd_links := h\<rparr>) = MAXSIZE s" "free_head (s\<lparr>bd_links := h\<rparr>) = free_head s"
  "blk (s\<lparr>bd_links := h\<rparr>) = blk s" "blk_index (s\<lparr>bd_links := h\<rparr>) = blk_index s"
  "blk_addr (s\<lparr>bd_links := h\<rparr>) = blk_addr s" "head_blocks (s\<lparr>bd_links := h\<rparr>) = head_blocks s"
  by (rule frame_addresses; simp)+

lemma free_head_blk: "free_head s j = blk s 0 (2 * j)"
  by (simp add: free_head_def blk_def)

lemma bd_invD:
  assumes "bd_inv s F"
  shows "MAXSIZE s \<le> 26" "nsizes s = MAXSIZE s + 1"
    "family dlist (bd_links s) (free_head s) (nsizes s) F"
    "tree (MAXSIZE s) (alloc_set s) (split_set s)"
    "k \<le> MAXSIZE s \<Longrightarrow> set (F k) = blk s k ` {i. (k, i) \<in> free_blocks (MAXSIZE s) (alloc_set s) (split_set s)}"
    "head_blocks s \<subseteq> user_blocks s"
proof -
  have t: "tree (MAXSIZE s) (alloc_set s) (split_set s)" and h: "head_blocks s \<subseteq> alloc_set s"
    using assms by (simp_all add: bd_inv_def)
  show "head_blocks s \<subseteq> user_blocks s"
    using h treeD(3) [OF t] by (auto simp: user_blocks_def head_blocks_def)
qed (use assms in \<open>auto simp: bd_inv_def MAXSIZE_def\<close>)

text \<open>Distinct leaves of the tree have distinct addresses.\<close>

lemma blk_distinct:
  assumes t: "tree (MAXSIZE s) A S" and m: "MAXSIZE s \<le> 26"
    and b: "(k, i) \<in> leaves (MAXSIZE s) S" and c: "(j, l) \<in> leaves (MAXSIZE s) S"
    and eq: "blk s k i = blk s j l"
  shows "k = j \<and> i = l"
proof (rule ccontr)
  assume "\<not> (k = j \<and> i = l)"
  then have "separate (k, i) (j, l)" using leaves_separate [OF t b c] by blast
  moreover have "in_heap (MAXSIZE s) k i" "in_heap (MAXSIZE s) j l"
    using existing_in_heap [OF t] b c by (auto simp: leaves_def)
  then have e: "i * 2 ^ (k + 4) = l * 2 ^ (j + 4)" using eq blk_eq_offset m by blast
  have "(i + 1) * 2 ^ (k + 4) > i * 2 ^ (k + 4)" "(l + 1) * 2 ^ (j + 4) > l * 2 ^ (j + 4)" by simp_all
  ultimately show False unfolding separate_def prod.case e by linarith
qed

lemma leaves_iff: "tree m A S \<Longrightarrow> leaves m S = free_blocks m A S \<union> (A - S)"
  using treeD by (fastforce simp: leaves_def free_blocks_def)

text \<open>The address of a block that is neither free nor a list head is in no list.\<close>

lemma fresh_address:
  assumes inv: "bd_inv s F" and t: "tree (MAXSIZE s) A S"
    and b: "(k, i) \<in> leaves (MAXSIZE s) S" "(k, i) \<notin> head_blocks s"
    and old: "free_blocks (MAXSIZE s) (alloc_set s) (split_set s) - {(k, i)} \<subseteq> leaves (MAXSIZE s) S"
    and new: "(k, i) \<notin> free_blocks (MAXSIZE s) (alloc_set s) (split_set s)"
    and hs: "head_blocks s \<subseteq> leaves (MAXSIZE s) S"
    and j: "j < nsizes s"
  shows "blk s k i \<notin> set (free_head s j # F j)"
proof -
  note d = bd_invD [OF inv]
  have "(0, 2 * j) \<in> head_blocks s" using j by (auto simp: head_blocks_def)
  then have h: "blk s k i \<noteq> free_head s j"
    using blk_distinct [OF t d(1) b(1), of 0 "2 * j"] b(2) hs by (auto simp: free_head_blk)
  have "blk s k i \<notin> set (F j)"
  proof
    assume "blk s k i \<in> set (F j)"
    then obtain l where l: "(j, l) \<in> free_blocks (MAXSIZE s) (alloc_set s) (split_set s)" "blk s k i = blk s j l"
      using d(2) d(5) [of j] j by auto
    then have "(j, l) \<in> leaves (MAXSIZE s) S" using old new by blast
    from blk_distinct [OF t d(1) b(1) this l(2)] l(1) new show False by simp
  qed
  then show ?thesis using h by simp
qed

section \<open>The steps of allocation and release keep the invariant\<close>

lemma user_in_heap:
  assumes "bd_inv s F" and "(k, i) \<in> user_blocks s"
  shows "in_heap (MAXSIZE s) k i"
  using treeD(1) [OF bd_invD(4) [OF assms(1)]] assms(2) by (auto simp: user_blocks_def)

lemma free_blk_inj:
  assumes "bd_inv s F" and "(k, i) \<in> free_blocks (MAXSIZE s) (alloc_set s) (split_set s)"
    and "(k, l) \<in> free_blocks (MAXSIZE s) (alloc_set s) (split_set s)" and "blk s k i = blk s k l"
  shows "i = l"
  using blk_distinct [OF bd_invD(4,1) [OF assms(1)], of k i k l] assms(2-4)
    leaves_iff [OF bd_invD(4) [OF assms(1)]] by blast

lemma free_blk_remove:
  assumes inv: "bd_inv s F" and b: "(k, i) \<in> free_blocks (MAXSIZE s) (alloc_set s) (split_set s)"
  shows "blk s k ` {l. (k, l) \<in> free_blocks (MAXSIZE s) (alloc_set s) (split_set s) - {(k, i)}} =
    blk s k ` {l. (k, l) \<in> free_blocks (MAXSIZE s) (alloc_set s) (split_set s)} - {blk s k i}"
  using free_blk_inj [OF inv b] by (auto dest: sym)

lemma inv_take:
  assumes inv: "bd_inv s F" and k: "k < nsizes s" and F: "F k = p # xs"
  obtains i where "p = blk s k i" "in_heap (MAXSIZE s) k i"
    "(k, i) \<in> free_blocks (MAXSIZE s) (alloc_set s) (split_set s)"
    "bd_inv (set_alloc k (int i) (s\<lparr>bd_links := lst_remove p (bd_links s)\<rparr>)) (F(k := xs))"
proof -
  note d = bd_invD [OF inv]
  have km: "k \<le> MAXSIZE s" using k d(2) by simp
  obtain i where p: "p = blk s k i" and i: "(k, i) \<in> free_blocks (MAXSIZE s) (alloc_set s) (split_set s)"
    using d(5) [OF km] F by auto
  have xs: "set xs = set (F k) - {p}" using klist.family_distinct [OF d(3) k] F by auto
  note tk = tree_take [OF d(4) i]
  have "bd_inv (set_alloc k (int i) (s\<lparr>bd_links := lst_remove p (bd_links s)\<rparr>)) (F(k := xs))"
    unfolding bd_inv_def
  proof (intro conjI)
    show "family dlist (bd_links (set_alloc k (int i) (s\<lparr>bd_links := lst_remove p (bd_links s)\<rparr>)))
       (free_head (set_alloc k (int i) (s\<lparr>bd_links := lst_remove p (bd_links s)\<rparr>)))
       (nsizes (set_alloc k (int i) (s\<lparr>bd_links := lst_remove p (bd_links s)\<rparr>))) (F(k := xs))"
      using klist.family_pop(2) [OF d(3) k F] by simp
    show "\<forall>j < nsizes (set_alloc k (int i) (s\<lparr>bd_links := lst_remove p (bd_links s)\<rparr>)). set ((F(k := xs)) j) =
      blk (set_alloc k (int i) (s\<lparr>bd_links := lst_remove p (bd_links s)\<rparr>)) j `
      {l. (j, l) \<in> free_blocks (MAXSIZE (set_alloc k (int i) (s\<lparr>bd_links := lst_remove p (bd_links s)\<rparr>)))
        (alloc_set (set_alloc k (int i) (s\<lparr>bd_links := lst_remove p (bd_links s)\<rparr>)))
        (split_set (set_alloc k (int i) (s\<lparr>bd_links := lst_remove p (bd_links s)\<rparr>)))}"
      using d(5) d(2) xs free_blk_remove [OF inv i] p km by (simp add: tk(2))
  qed (use d tk(1) inv in \<open>auto simp: bd_inv_def\<close>)
  then show thesis
    using that p i existing_in_heap [OF d(4)] by (auto simp: free_blocks_def)
qed

lemma inv_split:
  assumes inv: "bd_inv s F" and b: "(Suc k, i) \<in> user_blocks s"
  defines "t \<equiv> push_free k (blk s k (2 * i + 1)) (set_alloc k (int (2 * i)) (set_split (Suc k) (int i) s))"
  shows "bd_inv t (F(k := blk s k (2 * i + 1) # F k))"
    "user_blocks t = insert (k, 2 * i) (user_blocks s - {(Suc k, i)})"
proof -
  note d = bd_invD [OF inv]
  have t: "alloc_set t = insert (k, 2 * i) (alloc_set s)" "split_set t = insert (Suc k, i) (split_set s)"
    "bd_links t = lst_push (free_head s k) (blk s k (2 * i + 1)) (bd_links s)" "nsizes t = nsizes s" "MAXSIZE t = MAXSIZE s"
    "free_head t = free_head s" "blk t = blk s" "head_blocks t = head_blocks s"
    unfolding t_def by (simp_all only: alloc_set_simps split_set_simps links_simps frame_nsizes
        frame_maxsize frame_head frame_blk frame_heads)
  have b': "(Suc k, i) \<in> alloc_set s - split_set s" using b by (simp add: user_blocks_def)
  note ts = tree_split [OF d(4) b']
  have k: "k < nsizes s" using user_in_heap [OF inv b] d(2) by (simp add: in_heap_def)
  have hb: "head_blocks s \<subseteq> insert (k, 2 * i) (alloc_set s) - insert (Suc k, i) (split_set s)"
    using d(6) by (auto simp: user_blocks_def head_blocks_def)
  have lv: "leaves (MAXSIZE s) (insert (Suc k, i) (split_set s)) =
      insert (k, 2 * i + 1) (free_blocks (MAXSIZE s) (alloc_set s) (split_set s)) \<union>
      (insert (k, 2 * i) (alloc_set s) - insert (Suc k, i) (split_set s))"
    using leaves_iff [OF ts(1)] ts(2) by simp
  have new: "(k, 2 * i + 1) \<notin> free_blocks (MAXSIZE s) (alloc_set s) (split_set s)"
    using b' user_in_heap [OF inv b] by (auto simp: free_blocks_def existing_iff in_heap_def)
  have fresh: "blk s k (2 * i + 1) \<notin> set (free_head s j # F j)" if "j < nsizes s" for j
  proof (rule fresh_address [OF inv ts(1)])
    show "(k, 2 * i + 1) \<notin> head_blocks s" by (auto simp: head_blocks_def) presburger
  qed (use lv new hb that in auto)
  show "bd_inv t (F(k := blk s k (2 * i + 1) # F k))"
    unfolding bd_inv_def
  proof (intro conjI)
    show "family dlist (bd_links t) (free_head t) (nsizes t) (F(k := blk s k (2 * i + 1) # F k))"
      using klist.family_push [OF d(3) k fresh] by (simp add: t)
    show "\<forall>j<nsizes t. set ((F(k := blk s k (2 * i + 1) # F k)) j) =
        blk t j ` {i. (j, i) \<in> free_blocks (MAXSIZE t) (alloc_set t) (split_set t)}"
      using d(2,5) ts(2) by (auto simp: t)
  qed (use d(1,2) ts(1) hb in \<open>auto simp: t\<close>)
  show "user_blocks t = insert (k, 2 * i) (user_blocks s - {(Suc k, i)})"
    using ts(3) by (simp add: t user_blocks_def)
qed

lemma inv_release:
  assumes inv: "bd_inv s F" and b: "(k, i) \<in> user_blocks s" "(k, i) \<notin> head_blocks s"
  defines "t \<equiv> push_free k (blk s k i) (clear_alloc k (int i) s)"
  shows "bd_inv t (F(k := blk s k i # F k))" "user_blocks t = user_blocks s - {(k, i)}"
proof -
  note d = bd_invD [OF inv]
  have t: "alloc_set t = alloc_set s - {(k, i)}" "split_set t = split_set s"
    "bd_links t = lst_push (free_head s k) (blk s k i) (bd_links s)" "nsizes t = nsizes s" "MAXSIZE t = MAXSIZE s"
    "free_head t = free_head s" "blk t = blk s" "head_blocks t = head_blocks s"
    unfolding t_def by (simp_all only: alloc_set_simps split_set_simps links_simps frame_nsizes
        frame_maxsize frame_head frame_blk frame_heads)
  have b': "(k, i) \<in> alloc_set s - split_set s" using b(1) by (simp add: user_blocks_def)
  note tr = tree_release [OF d(4) b']
  have k: "k < nsizes s" using user_in_heap [OF inv b(1)] d(2) by (simp add: in_heap_def)
  have lv: "leaves (MAXSIZE s) (split_set s) =
      free_blocks (MAXSIZE s) (alloc_set s) (split_set s) \<union> user_blocks s"
    using leaves_iff [OF d(4)] by (simp add: user_blocks_def)
  have fresh: "blk s k i \<notin> set (free_head s j # F j)" if "j < nsizes s" for j
  proof (rule fresh_address [OF inv d(4)])
    show "(k, i) \<notin> free_blocks (MAXSIZE s) (alloc_set s) (split_set s)"
      using b' by (simp add: free_blocks_def)
  qed (use lv b d(6) that in auto)
  show "bd_inv t (F(k := blk s k i # F k))"
    unfolding bd_inv_def
  proof (intro conjI)
    show "family dlist (bd_links t) (free_head t) (nsizes t) (F(k := blk s k i # F k))"
      using klist.family_push [OF d(3) k fresh] by (simp add: t)
    show "\<forall>j<nsizes t. set ((F(k := blk s k i # F k)) j) =
        blk t j ` {i. (j, i) \<in> free_blocks (MAXSIZE t) (alloc_set t) (split_set t)}"
      using d(2,5) tr(2) by (auto simp: t)
  qed (use d(1,2,6) tr(1) b(2) in \<open>auto simp: t user_blocks_def\<close>)
  show "user_blocks t = user_blocks s - {(k, i)}"
    using tr(3) by (simp add: t user_blocks_def)
qed

lemma inv_merge:
  assumes inv: "bd_inv s F" and b: "(k, i) \<in> user_blocks s" "(k, i) \<notin> head_blocks s"
    and k: "k < MAXSIZE s" and free: "(k, sibling i) \<notin> alloc_set s"
  defines "t \<equiv> clear_split (Suc k) (int (i div 2))
    (remove_free (blk s k (sibling i)) (clear_alloc k (int i) s))"
  shows "bd_inv t (F(k := remove1 (blk s k (sibling i)) (F k)))"
    "user_blocks t = insert (Suc k, i div 2) (user_blocks s - {(k, i)})"
proof -
  note d = bd_invD [OF inv]
  have t: "alloc_set t = alloc_set s - {(k, i)}" "split_set t = split_set s - {(Suc k, i div 2)}"
    "bd_links t = lst_remove (blk s k (sibling i)) (bd_links s)" "nsizes t = nsizes s" "MAXSIZE t = MAXSIZE s"
    "free_head t = free_head s" "blk t = blk s" "head_blocks t = head_blocks s"
    unfolding t_def by (simp_all only: alloc_set_simps split_set_simps links_simps frame_nsizes
        frame_maxsize frame_head frame_blk frame_heads)
  have b': "(k, i) \<in> alloc_set s - split_set s" using b(1) by (simp add: user_blocks_def)
  note tm = tree_merge [OF d(4) b' k free]
  have kn: "k < nsizes s" "k \<le> MAXSIZE s" using k d(2) by auto
  have mem: "blk s k (sibling i) \<in> set (F k)" using d(5) [OF kn(2)] tm(2) by blast
  have rm: "set (remove1 (blk s k (sibling i)) (F k)) = set (F k) - {blk s k (sibling i)}"
    using klist.family_distinct [OF d(3) kn(1)] by simp
  show "bd_inv t (F(k := remove1 (blk s k (sibling i)) (F k)))"
    unfolding bd_inv_def
  proof (intro conjI)
    show "family dlist (bd_links t) (free_head t) (nsizes t) (F(k := remove1 (blk s k (sibling i)) (F k)))"
      using klist.family_remove [OF d(3) kn(1) mem] by (simp add: t)
    show "\<forall>j<nsizes t. set ((F(k := remove1 (blk s k (sibling i)) (F k))) j) =
        blk t j ` {i. (j, i) \<in> free_blocks (MAXSIZE t) (alloc_set t) (split_set t)}"
      using d(2,5) rm free_blk_remove [OF inv tm(2)] kn by (simp add: t tm(3))
  qed (use d(1,2,6) tm(1) b(2) in \<open>auto simp: t user_blocks_def\<close>)
  show "user_blocks t = insert (Suc k, i div 2) (user_blocks s - {(k, i)})"
    using tm(4) by (simp add: t user_blocks_def)
qed

section \<open>Allocation\<close>

lemma blk_leftmost: "k \<le> j \<Longrightarrow> blk s j i = blk s k (i * 2 ^ (j - k))"
proof -
  assume "k \<le> j"
  then have "i * 2 ^ (j + 4) = i * 2 ^ (j - k) * 2 ^ (k + 4)"
    by (simp add: mult.assoc flip: power_add)
  then show ?thesis unfolding blk_def by (rule arg_cong)
qed

lemma blk_index_self:
  assumes "in_heap (MAXSIZE s) k i" and "MAXSIZE s \<le> 26"
  shows "blk_index s k (blk s k i) = int i"
  using blk_index_blk [OF assms order.refl] by simp

lemma in_heap_half: "in_heap m (Suc k) i \<Longrightarrow> in_heap m k (2 * i)"
  using power_Suc [of "2 :: nat" "m - Suc k"] by (simp add: in_heap_def Suc_diff_Suc)

lemma split_down_correct:
  assumes "bd_inv s F" and "(k, i) \<in> user_blocks s" and "fk \<le> k"
  shows "\<exists>G. bd_inv (split_down fk k (blk s k i) s) G \<and>
    user_blocks (split_down fk k (blk s k i) s) =
      insert (fk, i * 2 ^ (k - fk)) (user_blocks s - {(k, i)})"
  using assms
proof (induction k arbitrary: i s F)
  case 0
  then show ?case by auto
next
  case (Suc k)
  show ?case
  proof (cases "fk = Suc k")
    case True
    then show ?thesis using Suc.prems by (auto simp: insert_absorb)
  next
    case False
    note d = bd_invD [OF Suc.prems(1)]
    have h: "in_heap (MAXSIZE s) (Suc k) i" by (rule user_in_heap [OF Suc.prems(1,2)])
    let ?t = "push_free k (blk s k (2 * i + 1)) (set_alloc k (int (2 * i)) (set_split (Suc k) (int i) s))"
    have idx: "blk_index s (Suc k) (blk s (Suc k) i) = int i" "blk_index s k (blk s (Suc k) i) = int (2 * i)"
      using blk_index_self [OF h d(1)] blk_index_self [OF in_heap_half [OF h] d(1)] by (simp_all add: blk_half)
    have q: "blk s (Suc k) i + of_int (BLK_SIZE k) = blk s k (2 * i + 1)"
      by (simp only: blk_half blk_buddy)
    have step: "split_down fk (Suc k) (blk s (Suc k) i) s = split_down fk k (blk s k (2 * i)) ?t"
      using False Suc.prems(3) by (simp only: split_down.simps Let_def frame_index idx q) (simp add: blk_half)
    have b: "blk s k (2 * i) = blk ?t k (2 * i)" by simp
    note iv = inv_split [OF Suc.prems(1,2)]
    have "(k, 2 * i) \<in> user_blocks ?t" using iv(2) by simp
    from Suc.IH [OF iv(1) this] False Suc.prems(3)
    obtain G where G: "bd_inv (split_down fk k (blk ?t k (2 * i)) ?t) G"
      "user_blocks (split_down fk k (blk ?t k (2 * i)) ?t) =
        insert (fk, 2 * i * 2 ^ (k - fk)) (user_blocks ?t - {(k, 2 * i)})" by auto
    have "(k, 2 * i) \<notin> user_blocks s - {(Suc k, i)}"
    proof
      assume "(k, 2 * i) \<in> user_blocks s - {(Suc k, i)}"
      then have "(Suc k, i) \<in> split_set s"
        using treeD(2) [OF d(4), of k "2 * i"] h by (auto simp: user_blocks_def existing_iff in_heap_def)
      then show False using Suc.prems(2) by (simp add: user_blocks_def)
    qed
    moreover have "2 * i * 2 ^ (k - fk) = i * 2 ^ (Suc k - fk)"
      using False Suc.prems(3) by (simp add: Suc_diff_le)
    ultimately have "user_blocks (split_down fk k (blk ?t k (2 * i)) ?t) =
        insert (fk, i * 2 ^ (Suc k - fk)) (user_blocks s - {(Suc k, i)})"
      unfolding G(2) iv(2) by auto
    then show ?thesis using G(1) unfolding step b by blast
  qed
qed

lemma find_free_spec:
  assumes "bd_inv s F"
  shows "k \<le> find_free s k \<and> (\<forall>j. k \<le> j \<and> j < find_free s k \<and> j < nsizes s \<longrightarrow> F j = []) \<and>
    (find_free s k < nsizes s \<longrightarrow> F (find_free s k) \<noteq> [])"
  using assms
proof (induction s k rule: find_free.induct)
  case (1 s k)
  have e: "k < nsizes s \<Longrightarrow> lst_empty (free_head s k) (bd_links s) = (F k = [])"
    using klist.family_empty [OF bd_invD(3) [OF 1(2)]] .
  show ?case
  proof (cases "k < nsizes s \<and> lst_empty (free_head s k) (bd_links s)")
    case True
    from 1(1) [OF True 1(2)] have IH: "k + 1 \<le> find_free s (k + 1)"
      "\<forall>j. k + 1 \<le> j \<and> j < find_free s (k + 1) \<and> j < nsizes s \<longrightarrow> F j = []"
      "find_free s (k + 1) < nsizes s \<longrightarrow> F (find_free s (k + 1)) \<noteq> []" by auto
    have "find_free s k = find_free s (k + 1)" using True by (subst find_free.simps) simp
    moreover have "F j = []" if "k \<le> j" "j < find_free s (k + 1)" "j < nsizes s" for j
      using that IH(2) e True by (cases "j = k") auto
    ultimately show ?thesis using IH by auto
  next
    case False
    then have "find_free s k = k" by (subst find_free.simps) auto
    then show ?thesis using e False by auto
  qed
qed

lemma malloc_correct:
  assumes inv: "bd_inv s F" and fk: "firstk n = Some fk"
  shows "(\<forall>k i. fk \<le> k \<longrightarrow> (k, i) \<notin> free_blocks (MAXSIZE s) (alloc_set s) (split_set s)) \<and>
      bd_malloc n s = Some (Inr 0, s) \<or>
    (\<exists>i t G. bd_malloc n s = Some (Inr (blk s fk i), t) \<and> bd_inv t G \<and>
      (fk, i) \<notin> user_blocks s \<and> user_blocks t = insert (fk, i) (user_blocks s))"
proof -
  note d = bd_invD [OF inv]
  let ?k = "find_free s fk"
  note ff = find_free_spec [OF inv, of fk]
  show ?thesis
  proof (cases "?k < nsizes s")
    case False
    have "(k, i) \<notin> free_blocks (MAXSIZE s) (alloc_set s) (split_set s)" if "fk \<le> k" for k i
    proof
      assume f: "(k, i) \<in> free_blocks (MAXSIZE s) (alloc_set s) (split_set s)"
      then have k: "k \<le> MAXSIZE s" using existing_in_heap [OF d(4)] by (auto simp: free_blocks_def in_heap_def)
      then have "F k = []" using ff that False d(2) by simp
      then show False using d(5) [OF k] f by auto
    qed
    moreover have "bd_malloc n s = Some (Inr 0, s)"
      using False fk by (simp add: bd_malloc_def Let_def)
    ultimately show ?thesis by blast
  next
    case True
    then obtain p xs where F: "F ?k = p # xs" using ff by (cases "F ?k") auto
    from inv_take [OF inv True F] obtain i where p: "p = blk s ?k i" and h: "in_heap (MAXSIZE s) ?k i"
      and free: "(?k, i) \<in> free_blocks (MAXSIZE s) (alloc_set s) (split_set s)"
      and inv': "bd_inv (set_alloc ?k (int i) (s\<lparr>bd_links := lst_remove p (bd_links s)\<rparr>)) (F(?k := xs))" by blast
    let ?t = "set_alloc ?k (int i) (s\<lparr>bd_links := lst_remove p (bd_links s)\<rparr>)"
    have u: "user_blocks ?t = insert (?k, i) (user_blocks s)"
      using tree_take(3) [OF d(4) free] by (simp add: user_blocks_def)
    from split_down_correct [OF inv', of ?k i fk] u ff
    obtain G where G: "bd_inv (split_down fk ?k (blk ?t ?k i) ?t) G"
      "user_blocks (split_down fk ?k (blk ?t ?k i) ?t) =
        insert (fk, i * 2 ^ (?k - fk)) (user_blocks ?t - {(?k, i)})" by auto
    have k: "(?k, i) \<notin> user_blocks s" using free by (auto simp: free_blocks_def user_blocks_def)
    have idx: "blk_index s ?k p = int i" using blk_index_self [OF h d(1)] p by simp
    have m: "bd_malloc n s = Some (Inr (blk s fk (i * 2 ^ (?k - fk))), split_down fk ?k (blk ?t ?k i) ?t)"
      using True fk klist.family_pop(1) [OF d(3) True F] idx blk_leftmost [of fk ?k s i] ff
      by (simp add: bd_malloc_def Let_def p)
    have lv: "(?k, i) \<in> leaves (MAXSIZE s) (split_set s)"
      using free leaves_iff [OF d(4)] by blast
    have "(fk, i * 2 ^ (?k - fk)) \<notin> user_blocks s"
    proof
      assume a: "(fk, i * 2 ^ (?k - fk)) \<in> user_blocks s"
      then have "(fk, i * 2 ^ (?k - fk)) \<in> leaves (MAXSIZE s) (split_set s)"
        using leaves_iff [OF d(4)] by (auto simp: user_blocks_def)
      from blk_distinct [OF d(4,1) lv this] blk_leftmost [of fk ?k s i] ff have "?k = fk \<and> i = i * 2 ^ (?k - fk)"
        by blast
      then show False using a k by simp
    qed
    moreover have "user_blocks ?t - {(?k, i)} = user_blocks s" using u k by auto
    ultimately show ?thesis using G m by auto
  qed
qed

section \<open>Release\<close>

lemma user_below_top:
  assumes inv: "bd_inv s F" and b: "(k, i) \<in> user_blocks s" "(k, i) \<notin> head_blocks s"
  shows "k < MAXSIZE s"
proof (rule ccontr)
  note d = bd_invD [OF inv]
  assume "\<not> k < MAXSIZE s"
  then have k: "k = MAXSIZE s" "i = 0" using user_in_heap [OF inv b(1)] by (auto simp: in_heap_def)
  have h: "(0, 0) \<in> head_blocks s" using d(2) by (auto simp: head_blocks_def)
  then have "(0, 0) \<in> leaves (MAXSIZE s) (split_set s)" "(k, i) \<in> leaves (MAXSIZE s) (split_set s)"
    using leaves_iff [OF d(4)] d(6) b(1) by (auto simp: user_blocks_def)
  moreover have "(0, 0) \<noteq> (k, i)" using h b(2) by metis
  ultimately have "separate (0, 0) (k, i)" using leaves_separate [OF d(4)] by blast
  then show False by (simp add: separate_def k(2))
qed

lemma size_loop_correct:
  assumes inv: "bd_inv s F" and b: "(k, i) \<in> user_blocks s" and k: "k < MAXSIZE s" and j: "j \<le> k"
  shows "size_loop s j (blk s k i) = Inr k"
  using j
proof (induction "k - j" arbitrary: j)
  case 0
  note d = bd_invD [OF inv]
  have "(Suc k, i div 2) \<in> split_set s"
    using treeD(2) [OF d(4), of k i] b k by (auto simp: user_blocks_def existing_iff)
  moreover have "blk_index s (Suc k) (blk s k i) = int (i div 2)"
    using blk_index_blk [OF user_in_heap [OF inv b] d(1), of "Suc k"] by simp
  ultimately show ?case
    using 0 k d(2) by (subst size_loop.simps) (simp add: split_set_def)
next
  case (Suc n)
  note d = bd_invD [OF inv]
  have jk: "Suc j \<le> k" using Suc by simp
  let ?x = "i * 2 ^ (k - Suc j)"
  have "(Suc j, ?x) \<notin> split_set s"
  proof
    assume s: "(Suc j, ?x) \<in> split_set s"
    show False
    proof (cases "Suc j = k")
      case True
      then show ?thesis using s b by (simp add: user_blocks_def)
    next
      case False
      then have "Suc j < k" "(Suc j, ?x) \<in> existing (MAXSIZE s) (split_set s)"
        using s jk treeD [OF d(4)] by auto
      from ancestors_split [OF d(4) this(2,1)] k have "(k, i) \<in> split_set s" by simp
      then show ?thesis using b by (simp add: user_blocks_def)
    qed
  qed
  moreover have "blk_index s (Suc j) (blk s k i) = int ?x"
  proof -
    have "i < 2 ^ (MAXSIZE s - k)" using user_in_heap [OF inv b] by (simp add: in_heap_def)
    then have "?x < 2 ^ (MAXSIZE s - k) * 2 ^ (k - Suc j)" by (rule mult_strict_right_mono) simp
    also have "\<dots> = 2 ^ (MAXSIZE s - Suc j)" using jk k by (simp flip: power_add)
    finally have "in_heap (MAXSIZE s) (Suc j) ?x" using jk k by (simp add: in_heap_def)
    from blk_index_self [OF this d(1)] show ?thesis by (simp add: blk_leftmost [OF jk])
  qed
  moreover have "size_loop s (Suc j) (blk s k i) = Inr k" using Suc jk by simp
  ultimately show ?case
    using jk k d(2) by (subst size_loop.simps) (simp add: split_set_def)
qed

lemma sibling_simps:
  "buddy_of (int i) = int (sibling i)" "sibling i \<noteq> i"
  unfolding buddy_of_def sibling_def by presburger+

lemma merged_address:
  "(if int (sibling i) mod 2 = 0 then blk s k (sibling i) else blk s k i) = blk s (Suc k) (i div 2)"
proof (cases "even i")
  case True
  then obtain j where "i = 2 * j" by (elim evenE)
  then show ?thesis by (simp add: sibling_def blk_half)
next
  case False
  then obtain j where "i = 2 * j + 1" by (elim oddE)
  then show ?thesis by (simp add: sibling_def blk_half)
qed

lemma free_loop_correct:
  assumes "bd_inv s F" and "(k, i) \<in> user_blocks s" and "(k, i) \<notin> head_blocks s"
  shows "\<exists>k' p t G. free_loop k (blk s k i) s = (k', p, t) \<and> bd_inv (push_free k' p t) G \<and>
    user_blocks (push_free k' p t) = user_blocks s - {(k, i)}"
  using assms
proof (induction "MAXSIZE s - k" arbitrary: k i s F rule: less_induct)
  case less
  note d = bd_invD [OF less.prems(1)]
  have h: "in_heap (MAXSIZE s) k i" by (rule user_in_heap [OF less.prems(1,2)])
  have k: "k < MAXSIZE s" by (rule user_below_top [OF less.prems])
  have idx: "blk_index s k (blk s k i) = int i" by (rule blk_index_self [OF h d(1)])
  let ?c = "clear_alloc k (int i) s" and ?b = "sibling i"
  have bit: "bit_isset (bd_alloc ?c k) (int ?b) \<longleftrightarrow> (k, ?b) \<in> alloc_set s"
    using alloc_set_simps(2) [of k i s] sibling_simps(2) [of i] by (auto simp: alloc_set_def)
  show ?case
  proof (cases "(k, ?b) \<in> alloc_set s")
    case True
    have "free_loop k (blk s k i) s = (k, blk s k i, ?c)"
      using k bit True by (subst free_loop.simps) (simp add: idx sibling_simps(1) Let_def)
    then show ?thesis using inv_release [OF less.prems] by blast
  next
    case False
    have b': "(k, i) \<in> alloc_set s - split_set s" using less.prems(2) by (simp add: user_blocks_def)
    let ?t = "clear_split (Suc k) (int (i div 2)) (remove_free (blk s k ?b) ?c)"
    have "in_heap (MAXSIZE s) k ?b"
      using tree_merge(2) [OF d(4) b' k False] existing_in_heap [OF d(4)] by (auto simp: free_blocks_def)
    then have q: "blk_addr ?c k (int ?b) = blk s k ?b"
      using blk_addr_blk in_heap_offset(2) d(1) by (metis frame_addr(2))
    have p: "(if int ?b mod 2 = 0 then blk s k ?b else blk s k i) = blk s (Suc k) (i div 2)"
      by (rule merged_address)
    have hp: "in_heap (MAXSIZE s) (Suc k) (i div 2)"
      using user_in_heap [OF inv_merge(1) [OF less.prems k False], of "Suc k" "i div 2"]
        inv_merge(2) [OF less.prems k False] by simp
    have idx': "blk_index s (Suc k) (blk s (Suc k) (i div 2)) = int (i div 2)"
      by (rule blk_index_self [OF hp d(1)])
    have step: "free_loop k (blk s k i) s = free_loop (Suc k) (blk s (Suc k) (i div 2)) ?t"
      by (subst free_loop.simps)
        (simp only: k bit False idx sibling_simps(1) Let_def q p frame_index idx' if_True if_False Suc_eq_plus1 [symmetric])
    note im = inv_merge [OF less.prems k False]
    have u: "(Suc k, i div 2) \<in> user_blocks ?t" "(Suc k, i div 2) \<notin> head_blocks ?t"
      using im(2) by (auto simp: head_blocks_def)
    have "MAXSIZE ?t - Suc k < MAXSIZE s - k" using k by simp
    from less.hyps [OF this im(1) u] obtain k' p t G where
      r: "free_loop (Suc k) (blk s (Suc k) (i div 2)) ?t = (k', p, t)" "bd_inv (push_free k' p t) G"
      "user_blocks (push_free k' p t) = user_blocks ?t - {(Suc k, i div 2)}" by auto
    have "(Suc k, i div 2) \<notin> user_blocks s - {(k, i)}"
      using treeD(2) [OF d(4), of k i] b' k by (auto simp: user_blocks_def existing_iff)
    then have "user_blocks ?t - {(Suc k, i div 2)} = user_blocks s - {(k, i)}" using im(2) by auto
    then show ?thesis using step r by auto
  qed
qed

lemma free_correct:
  assumes inv: "bd_inv s F" and b: "(k, i) \<in> user_blocks s" "(k, i) \<notin> head_blocks s"
  shows "\<exists>t G. bd_free (blk s k i) s = (Inr (), t) \<and> bd_inv t G \<and> user_blocks t = user_blocks s - {(k, i)}"
proof -
  have "bd_size s (blk s k i) = Inr k"
    unfolding bd_size_def by (rule size_loop_correct [OF inv b(1) user_below_top [OF inv b]]) simp
  then show ?thesis using free_loop_correct [OF inv b] by (auto simp: bd_free_def)
qed

end
