(* ===== verification/Xv7_Buddy_Properties.thy ===== *)
theory Xv7_Buddy_Properties
  imports Xv7_Buddy_Inv
begin

text \<open>
  What the buddy allocator promises: the properties of allocation, release and
  initialisation, with instances on a small heap.
\<close>


text \<open>C34: the size-class search of \<open>bd_malloc\<close> returns the least class that holds the request; for a
  request above \<open>2^63\<close> bytes it never returns, because the 64-bit size wraps to 0.\<close>

theorem firstk_least_or_diverges:
  "firstk n = (if unat n \<le> 2 ^ 63 then Some (LEAST k. unat n \<le> 2 ^ k * 16) else None)"
  by (rule firstk_spec)

text \<open>C5: on a well-formed heap \<open>bd_malloc\<close> returns 0 and changes nothing when no free block is
  large enough; otherwise it returns the address of a new block of a sufficient size, apart
  from every block handed out before, and the heap stays well-formed.\<close>

theorem bd_malloc_sound:
  assumes inv: "bd_inv s F" and n: "unat n \<le> 2 ^ 63"
  shows "(\<forall>k i. unat n \<le> 2 ^ k * 16 \<longrightarrow> (k, i) \<notin> free_blocks (MAXSIZE s) (alloc_set s) (split_set s)) \<and>
      bd_malloc n s = Some (Inr 0, s) \<or>
    (\<exists>k i t G. bd_malloc n s = Some (Inr (blk s k i), t) \<and> unat n \<le> 2 ^ k * 16 \<and> bd_inv t G \<and>
      user_blocks t = insert (k, i) (user_blocks s) \<and> (k, i) \<notin> user_blocks s \<and>
      (\<forall>b \<in> user_blocks s. separate (k, i) b))"
proof -
  let ?fk = "LEAST k. unat n \<le> 2 ^ k * 16"
  have fk: "firstk n = Some ?fk" using n by (simp add: firstk_spec)
  have big: "unat n \<le> 2 ^ ?fk * 16"
    by (rule LeastI_ex) (use n in \<open>auto intro: exI [of _ 60]\<close>)
  have least: "?fk \<le> k" if "unat n \<le> 2 ^ k * 16" for k using that by (rule Least_le)
  from malloc_correct [OF inv fk] show ?thesis
  proof
    assume "(\<forall>k i. ?fk \<le> k \<longrightarrow> (k, i) \<notin> free_blocks (MAXSIZE s) (alloc_set s) (split_set s)) \<and>
      bd_malloc n s = Some (Inr 0, s)"
    then show ?thesis using least by blast
  next
    assume "\<exists>i t G. bd_malloc n s = Some (Inr (blk s ?fk i), t) \<and> bd_inv t G \<and>
      (?fk, i) \<notin> user_blocks s \<and> user_blocks t = insert (?fk, i) (user_blocks s)"
    then obtain i t G where a: "bd_malloc n s = Some (Inr (blk s ?fk i), t)" "bd_inv t G"
      "(?fk, i) \<notin> user_blocks s" "user_blocks t = insert (?fk, i) (user_blocks s)" by blast
    have "separate (?fk, i) b" if "b \<in> user_blocks s" for b
    proof (rule leaves_separate [OF bd_invD(4) [OF a(2)]])
      show "(?fk, i) \<in> leaves (MAXSIZE t) (split_set t)" "b \<in> leaves (MAXSIZE t) (split_set t)"
        using leaves_iff [OF bd_invD(4) [OF a(2)]] a(4) that by (auto simp: user_blocks_def)
    qed (use a(3) that in auto)
    then show ?thesis using a big by blast
  qed
qed

text \<open>A heap of 128 bytes whose last leaf is free, for the instances.\<close>

definition tiny_heap :: buddy where
  "tiny_heap = \<lparr>nsizes = 4, bd_base = 0x80000000,
     bd_links = lst_push 0x80000000 0x80000070
       (fold lst_init [0x80000000, 0x80000020, 0x80000040, 0x80000060] \<lparr>lnext = (\<lambda>_. 0), lprev = (\<lambda>_. 0)\<rparr>),
     bd_alloc = (\<lambda>k i. if i \<noteq> 0 then 0 else if k = 0 then mask 7 else if k = 1 then mask 4
       else if k = 2 then mask 2 else if k = 3 then mask 1 else 0),
     bd_split = (\<lambda>k i. if i \<noteq> 0 then 0 else if k = 1 then mask 4 else if k = 2 then mask 2
       else if k = 3 then mask 1 else 0)\<rparr>"

lemma in_first_byte: "(int i div 8 = 0 \<and> nat (int i mod 8) < m) = (i < m)" if "m \<le> 8"
  using that by auto

lemma tiny_sets:
  "alloc_set tiny_heap = {0} \<times> {..<7} \<union> {1} \<times> {..<4} \<union> {2} \<times> {..<2} \<union> {3} \<times> {..<1}"
  "split_set tiny_heap = {1} \<times> {..<4} \<union> {2} \<times> {..<2} \<union> {3} \<times> {..<1}"
proof -
  have "(k, i) \<in> alloc_set tiny_heap \<longleftrightarrow> (k, i) \<in> {0} \<times> {..<7} \<union> {1} \<times> {..<4} \<union> {2} \<times> {..<2} \<union> {3} \<times> {..<1}" for k i
    using in_first_byte [of 7 i] in_first_byte [of 4 i] in_first_byte [of 2 i] in_first_byte [of 1 i]
    by (auto simp: alloc_set_def bit_isset_bit tiny_heap_def bit_mask_iff bit_1_iff del: mask_Suc_0 mask_numeral mask_1)
  then show "alloc_set tiny_heap = {0} \<times> {..<7} \<union> {1} \<times> {..<4} \<union> {2} \<times> {..<2} \<union> {3} \<times> {..<1}"
    by (simp add: set_eq_iff)
  have "(k, i) \<in> split_set tiny_heap \<longleftrightarrow> (k, i) \<in> {1} \<times> {..<4} \<union> {2} \<times> {..<2} \<union> {3} \<times> {..<1}" for k i
    using in_first_byte [of 7 i] in_first_byte [of 4 i] in_first_byte [of 2 i] in_first_byte [of 1 i]
    by (auto simp: split_set_def bit_isset_bit tiny_heap_def bit_mask_iff bit_1_iff del: mask_Suc_0 mask_numeral mask_1)
  then show "split_set tiny_heap = {1} \<times> {..<4} \<union> {2} \<times> {..<2} \<union> {3} \<times> {..<1}"
    by (simp add: set_eq_iff)
qed

lemma tiny_lists: "family dlist (bd_links tiny_heap) (free_head tiny_heap) 4 ((\<lambda>_. [])(0 := [0x80000070]))"
proof -
  have "dlist (bd_links tiny_heap) (free_head tiny_heap k) (((\<lambda>_. [])(0 := [0x80000070])) k)" if "k < 4" for k
  proof -
    from that consider "k = 0" | "k = 1" | "k = 2" | "k = 3" by linarith
    then show ?thesis
      by cases (simp_all add: dlist_def tiny_heap_def free_head_def lst_push_def lst_init_def Let_def)
  qed
  moreover have "set (free_head tiny_heap j # ((\<lambda>_. [])(0 := [0x80000070])) j) \<inter>
      set (free_head tiny_heap k # ((\<lambda>_. [])(0 := [0x80000070])) k) = {}" if "j < 4" "k < 4" "j \<noteq> k" for j k
  proof -
    have "j \<in> {0, 1, 2, 3}" "k \<in> {0, 1, 2, 3}" using that by auto
    then show ?thesis using that(3) by (auto simp: free_head_def tiny_heap_def)
  qed
  ultimately show ?thesis unfolding family_def by blast
qed

lemma tiny_free: "free_blocks 3 (alloc_set tiny_heap) (split_set tiny_heap) = {(0, 7)}"
proof -
  have "i div 2 < 4 \<and> \<not> i < 7 \<longleftrightarrow> i = 7" for i :: nat by auto
  moreover have "i div 2 < 2 \<longleftrightarrow> i < 4" "i div 2 < 1 \<longleftrightarrow> i < 2" for i :: nat by auto
  ultimately show ?thesis
    by (auto simp: free_blocks_def existing_def tiny_sets)
qed

lemma tiny_tree: "tree 3 (alloc_set tiny_heap) (split_set tiny_heap)"
  by (auto simp: tree_def tiny_sets in_heap_def existing_def)

lemma tiny_inv: "bd_inv tiny_heap ((\<lambda>_. [])(0 := [0x80000070]))"
proof -
  have [simp]: "nsizes tiny_heap = 4" "MAXSIZE tiny_heap = 3" "bd_base tiny_heap = 0x80000000"
    by (simp_all add: tiny_heap_def MAXSIZE_def)
  show ?thesis
    unfolding bd_inv_def
    using tiny_lists tiny_tree
    by (auto simp: tiny_free blk_def) (auto simp: head_blocks_def tiny_sets)
qed



theorem bd_malloc_sound_witness:
  "\<exists>k i t. bd_malloc 10 tiny_heap = Some (Inr (blk tiny_heap k i), t) \<and>
     user_blocks t = insert (k, i) (user_blocks tiny_heap) \<and> (k, i) \<notin> user_blocks tiny_heap"
proof -
  have "MAXSIZE tiny_heap = 3" by (simp add: tiny_heap_def MAXSIZE_def)
  then have "(0, 7) \<in> free_blocks (MAXSIZE tiny_heap) (alloc_set tiny_heap) (split_set tiny_heap)"
    by (simp add: tiny_free)
  moreover have "unat (10 :: u64) \<le> 2 ^ 63" "unat (10 :: u64) \<le> 2 ^ 0 * 16" by simp_all
  ultimately show ?thesis
    using bd_malloc_sound [OF tiny_inv, of 10] by blast
qed



text \<open>\<open>bd_init\<close> panics on a heap of 320 bytes: at size 2 the only free block is both the
  first block after the allocator's data and the left buddy of the block that contains the
  end, so \<open>bd_initfree\<close> puts it on the free list twice and counts it twice.\<close>

lemma bd_init_panics_on_small_heap:
  "fst (bd_init 0x80000000 0x80000140) = Inl (Panic ''bd_init: free mem'')"
  by code_simp

end
