(* ===== verification/Xv7_String.thy ===== *)
theory Xv7_String
  imports Prelude "HOL-Library.List_Lexorder"
begin

text \<open>
  The memory and string routines of \<open>xv7/kernel/string.c\<close> on a byte-addressed memory.  Each
  loop is a recursion on the number of turns left; pointers are 64-bit words and wrap.
  The lengths are below \<open>2^31\<close>, so that the \<open>int\<close> counters do not overflow.
\<close>

type_synonym mem = "u64 \<Rightarrow> u8"

section \<open>string.c\<close>

fun memset_loop :: "u64 \<Rightarrow> u8 \<Rightarrow> u64 \<Rightarrow> nat \<Rightarrow> mem \<Rightarrow> mem" where
  "memset_loop cdst c i 0 m = m"
| "memset_loop cdst c i (Suc n) m = memset_loop cdst c (i + 1) n (m(cdst + i := c))"

definition memset :: "u64 \<Rightarrow> u32 \<Rightarrow> u32 \<Rightarrow> mem \<Rightarrow> mem" where
  "memset dst c n m = memset_loop dst (ucast c) 0 (unat n) m"

fun memcmp_loop :: "u64 \<Rightarrow> u64 \<Rightarrow> nat \<Rightarrow> mem \<Rightarrow> int" where
  "memcmp_loop s1 s2 0 m = 0"
| "memcmp_loop s1 s2 (Suc n) m =
     (if m s1 \<noteq> m s2 then uint (m s1) - uint (m s2) else memcmp_loop (s1 + 1) (s2 + 1) n m)"

definition memcmp :: "u64 \<Rightarrow> u64 \<Rightarrow> u32 \<Rightarrow> mem \<Rightarrow> int" where
  "memcmp v1 v2 n m = memcmp_loop v1 v2 (unat n) m"

text \<open>\<open>while (n-- > 0) *--d = *--s;\<close> and \<open>while (n-- > 0) *d++ = *s++;\<close>.\<close>

fun copy_down :: "u64 \<Rightarrow> u64 \<Rightarrow> nat \<Rightarrow> mem \<Rightarrow> mem" where
  "copy_down d s 0 m = m"
| "copy_down d s (Suc n) m = copy_down (d - 1) (s - 1) n (m(d - 1 := m (s - 1)))"

fun copy_up :: "u64 \<Rightarrow> u64 \<Rightarrow> nat \<Rightarrow> mem \<Rightarrow> mem" where
  "copy_up d s 0 m = m"
| "copy_up d s (Suc n) m = copy_up (d + 1) (s + 1) n (m(d := m s))"

definition memmove :: "u64 \<Rightarrow> u64 \<Rightarrow> u32 \<Rightarrow> mem \<Rightarrow> mem" where
  "memmove dst src n m =
     (if src < dst \<and> dst < src + ucast n
      then copy_down (dst + ucast n) (src + ucast n) (unat n) m
      else copy_up dst src (unat n) m)"

definition memcpy :: "u64 \<Rightarrow> u64 \<Rightarrow> u32 \<Rightarrow> mem \<Rightarrow> mem" where
  "memcpy dst src n m = memmove dst src n m"

fun strncmp_loop :: "u64 \<Rightarrow> u64 \<Rightarrow> nat \<Rightarrow> mem \<Rightarrow> int" where
  "strncmp_loop p q 0 m = 0"
| "strncmp_loop p q (Suc n) m =
     (if m p \<noteq> 0 \<and> m p = m q then strncmp_loop (p + 1) (q + 1) n m
      else uint (m p) - uint (m q))"

definition strncmp :: "u64 \<Rightarrow> u64 \<Rightarrow> u32 \<Rightarrow> mem \<Rightarrow> int" where
  "strncmp p q n m = strncmp_loop p q (unat n) m"

text \<open>
  The first loop of \<open>strncpy\<close> returns the write pointer and the room left after the NUL it
  copied (none when it ran out of room); the second loop fills the room with NULs.
\<close>

fun strncpy_copy :: "u64 \<Rightarrow> u64 \<Rightarrow> nat \<Rightarrow> mem \<Rightarrow> u64 \<times> nat \<times> mem" where
  "strncpy_copy s t 0 m = (s, 0, m)"
| "strncpy_copy s t (Suc n) m =
     (let c = m t; m = m(s := c) in
      if c \<noteq> 0 then strncpy_copy (s + 1) (t + 1) n m else (s + 1, n, m))"

fun strncpy_pad :: "u64 \<Rightarrow> nat \<Rightarrow> mem \<Rightarrow> mem" where
  "strncpy_pad s 0 m = m"
| "strncpy_pad s (Suc n) m = strncpy_pad (s + 1) n (m(s := 0))"

definition strncpy :: "u64 \<Rightarrow> u64 \<Rightarrow> int \<Rightarrow> mem \<Rightarrow> mem" where
  "strncpy s t n m = (case strncpy_copy s t (nat n) m of (s, r, m) \<Rightarrow> strncpy_pad s r m)"

fun safestrcpy_copy :: "u64 \<Rightarrow> u64 \<Rightarrow> nat \<Rightarrow> mem \<Rightarrow> u64 \<times> mem" where
  "safestrcpy_copy s t 0 m = (s, m)"
| "safestrcpy_copy s t (Suc n) m =
     (let c = m t; m = m(s := c) in
      if c \<noteq> 0 then safestrcpy_copy (s + 1) (t + 1) n m else (s + 1, m))"

definition safestrcpy :: "u64 \<Rightarrow> u64 \<Rightarrow> int \<Rightarrow> mem \<Rightarrow> mem" where
  "safestrcpy s t n m =
     (if n \<le> 0 then m
      else case safestrcpy_copy s t (nat (n - 1)) m of (s, m) \<Rightarrow> m(s := 0))"

partial_function (option) strlen_loop :: "u64 \<Rightarrow> nat \<Rightarrow> mem \<Rightarrow> nat option" where
  "strlen_loop s n m = (if m (s + of_nat n) \<noteq> 0 then strlen_loop s (n + 1) m else Some n)"

definition strlen :: "u64 \<Rightarrow> mem \<Rightarrow> nat option" where
  "strlen s m = strlen_loop s 0 m"

section \<open>Copying\<close>

text \<open>\<open>x\<close> is one of the \<open>n\<close> addresses from \<open>d\<close> on.\<close>

lemma window_iff:
  fixes d x :: u64
  assumes "unat d + n \<le> 2 ^ 64"
  shows "unat (x - d) < n \<longleftrightarrow> unat d \<le> unat x \<and> unat x < unat d + n"
  using assms unsigned_less [of x, where ?'a = nat] unsigned_less [of d, where ?'a = nat]
  by (auto simp: unat_sub_if' split: if_splits)

lemma unat_u32_u64 [simp]: "unat (ucast (n :: u32) :: u64) = unat n"
proof -
  have "unat n < 2 ^ 32" using unsigned_less [of n, where ?'a = nat] by simp
  then show ?thesis by (simp add: unsigned_ucast_eq take_bit_nat_eq_self)
qed

lemma copy_up_eq:
  assumes "unat d + n \<le> 2 ^ 64" and "unat s + n \<le> 2 ^ 64" and "unat d \<le> unat s \<or> unat s + n \<le> unat d"
  shows "copy_up d s n m = (\<lambda>x. if unat (x - d) < n then m (s + (x - d)) else m x)"
  using assms
proof (induction n arbitrary: d s m)
  case (Suc n)
  show ?case
  proof (cases "n = 0")
    case True
    have "unat (x - d) = 0 \<longleftrightarrow> x = d" for x by (metis diff_eq_eq add_0 unat_eq_zero)
    then show ?thesis using True by (auto simp: fun_eq_iff)
  next
    case False
    then have d1: "unat (d + 1) = unat d + 1" "unat (s + 1) = unat s + 1"
      using Suc.prems by (simp_all add: unat_plus_small)
    have "copy_up (d + 1) (s + 1) n (m(d := m s)) =
        (\<lambda>x. if unat (x - (d + 1)) < n then (m(d := m s)) (s + 1 + (x - (d + 1))) else (m(d := m s)) x)"
      by (rule Suc.IH) (use Suc.prems d1 in auto)
    also have "\<dots> = (\<lambda>x. if unat (x - d) < Suc n then m (s + (x - d)) else m x)"
    proof (rule ext)
      fix x
      have i1: "unat (x - (d + 1)) < n \<longleftrightarrow> unat d + 1 \<le> unat x \<and> unat x < unat d + 1 + n"
        using window_iff [of "d + 1" n x] Suc.prems(1) d1 by simp
      have i2: "unat (x - d) < Suc n \<longleftrightarrow> unat d \<le> unat x \<and> unat x < unat d + Suc n"
        using window_iff [of d "Suc n" x] Suc.prems(1) by simp
      have a: "s + 1 + (x - (d + 1)) = s + (x - d)" by simp
      have eq: "unat x = unat d \<longleftrightarrow> x = d" by (rule word_unat_eq_iff [symmetric])
      consider "x = d" | "unat d + 1 \<le> unat x" "unat x < unat d + 1 + n" | "unat x < unat d" | "unat d + Suc n \<le> unat x"
        using eq by linarith
      then show "(if unat (x - (d + 1)) < n then (m(d := m s)) (s + 1 + (x - (d + 1))) else (m(d := m s)) x) =
          (if unat (x - d) < Suc n then m (s + (x - d)) else m x)"
      proof cases
        case 2
        have "unat (x - d) = unat x - unat d" using 2 by (simp add: unat_sub word_le_nat_alt)
        then have "unat (s + (x - d)) = unat s + (unat x - unat d)"
          using 2 Suc.prems(2) by (simp add: unat_plus_small)
        then have "unat (s + (x - d)) \<noteq> unat d" using 2 Suc.prems(3) by linarith
        then have "s + (x - d) \<noteq> d" by metis
        then show ?thesis unfolding a using 2 i1 i2 by simp
      qed (use i1 i2 in auto)
    qed
    finally show ?thesis by simp
  qed
qed simp

lemma copy_down_eq:
  assumes "unat d + n \<le> 2 ^ 64" and "unat s + n \<le> 2 ^ 64" and "unat s \<le> unat d"
  shows "copy_down (d + of_nat n) (s + of_nat n) n m = (\<lambda>x. if unat (x - d) < n then m (s + (x - d)) else m x)"
  using assms
proof (induction n arbitrary: m)
  case (Suc n)
  have n: "unat (of_nat n :: u64) = n" using Suc.prems by (simp add: unat_of_nat)
  have dn: "unat (d + of_nat n) = unat d + n" "unat (s + of_nat n) = unat s + n"
    using Suc.prems n by (simp_all add: unat_plus_small)
  have "copy_down (d + of_nat (Suc n)) (s + of_nat (Suc n)) (Suc n) m =
      copy_down (d + of_nat n) (s + of_nat n) n (m(d + of_nat n := m (s + of_nat n)))"
    by (simp add: algebra_simps)
  also have "\<dots> = (\<lambda>x. if unat (x - d) < n then (m(d + of_nat n := m (s + of_nat n))) (s + (x - d))
      else (m(d + of_nat n := m (s + of_nat n))) x)"
    by (rule Suc.IH) (use Suc.prems in auto)
  also have "\<dots> = (\<lambda>x. if unat (x - d) < Suc n then m (s + (x - d)) else m x)"
  proof (rule ext)
    fix x
    have last: "unat (x - d) = n \<longleftrightarrow> x = d + of_nat n"
      by (metis n add_diff_cancel_left' word_unat_eq_iff diff_eq_eq add.commute)
    have low: "s + (x - d) \<noteq> d + of_nat n" if "unat (x - d) < n"
    proof -
      have "unat (s + (x - d)) = unat s + unat (x - d)"
        using that Suc.prems(2) by (simp add: unat_plus_small)
      then have "unat (s + (x - d)) \<noteq> unat (d + of_nat n)" using that dn(1) Suc.prems(3) by linarith
      then show ?thesis by metis
    qed
    consider "unat (x - d) < n" | "unat (x - d) = n" | "n < unat (x - d)" by linarith
    then show "(if unat (x - d) < n then (m(d + of_nat n := m (s + of_nat n))) (s + (x - d))
        else (m(d + of_nat n := m (s + of_nat n))) x) = (if unat (x - d) < Suc n then m (s + (x - d)) else m x)"
      by cases (use low last in auto)
  qed
  finally show ?case .
qed simp

lemma memmove_eq:
  assumes "unat dst + unat n \<le> 2 ^ 64" and "unat src + unat n < 2 ^ 64"
  shows "memmove dst src n m = (\<lambda>x. if unat (x - dst) < unat n then m (src + (x - dst)) else m x)"
proof (cases "src < dst \<and> dst < src + ucast n")
  case True
  have n: "(ucast n :: u64) = of_nat (unat n)" by simp
  show ?thesis
    using copy_down_eq [OF assms(1), of src m] True assms(2)
    by (simp add: memmove_def n word_less_nat_alt del: of_nat_unat)
next
  case False
  have n: "unat (src + ucast n) = unat src + unat n"
    using assms(2) by (simp add: unat_plus_small unat_u32_u64)
  have "unat dst \<le> unat src \<or> unat src + unat n \<le> unat dst"
    using False n by (auto simp: word_less_nat_alt)
  then show ?thesis
    using copy_up_eq [OF assms(1), of src m] assms(2) False by (simp only: memmove_def if_False simp_thms)
qed

section \<open>Strings\<close>

text \<open>The string at \<open>p\<close>, cut at the first NUL or after \<open>n\<close> bytes.\<close>

fun cstr :: "u64 \<Rightarrow> nat \<Rightarrow> mem \<Rightarrow> u8 list" where
  "cstr p 0 m = []"
| "cstr p (Suc n) m = (if m p = 0 then [] else m p # cstr (p + 1) n m)"

lemma strncmp_loop_sign:
  "(strncmp_loop p q n m = 0) = (cstr p n m = cstr q n m) \<and>
   (strncmp_loop p q n m < 0) = (cstr p n m < cstr q n m)"
proof (induction n arbitrary: p q)
  case (Suc n)
  have "uint (m p) = 0 \<longleftrightarrow> m p = 0" "uint (m q) = 0 \<longleftrightarrow> m q = 0" "uint (m p) = uint (m q) \<longleftrightarrow> m p = m q"
    "0 < uint (m q) \<longleftrightarrow> m q \<noteq> 0"
    by (auto simp: word_uint_eq_iff less_le)
  then show ?case
    using Suc.IH [of "p + 1" "q + 1"] by (auto simp: word_less_def)
qed simp

lemma cstr_cong:
  "(\<And>i. i < n \<Longrightarrow> m' (p + of_nat i) = m (p + of_nat i)) \<Longrightarrow> cstr p n m' = cstr p n m"
proof (induction n arbitrary: p)
  case (Suc n)
  have "m' p = m p" using Suc.prems [of 0] by simp
  moreover have "cstr (p + 1) n m' = cstr (p + 1) n m"
    by (rule Suc.IH) (use Suc.prems [of "Suc i" for i] in \<open>simp add: add.assoc\<close>)
  ultimately show ?case by simp
qed simp

lemma safestrcpy_copy_correct:
  assumes "n < 2 ^ 32" and "\<forall>i \<le> n. \<forall>j < n. s + of_nat i \<noteq> t + of_nat j"
    and "safestrcpy_copy s t n m = (e, m1)"
  shows "cstr s (Suc n) (m1(e := 0)) = cstr t n m \<and> (\<forall>x. n < unat (x - s) \<longrightarrow> (m1(e := 0)) x = m x)"
  using assms
proof (induction n arbitrary: s t m)
  case 0
  then show ?case by auto
next
  case (Suc n)
  have one: "unat (1 :: u64) = 1" by simp
  show ?case
  proof (cases "m t = 0")
    case True
    then have r: "e = s + 1" "m1 = m(s := 0)" using Suc.prems(3) by (auto simp: Let_def)
    have "x \<noteq> s \<and> x \<noteq> s + 1" if "Suc n < unat (x - s)" for x using that one by auto
    then show ?thesis using True by (auto simp: r)
  next
    case False
    then have c: "safestrcpy_copy (s + 1) (t + 1) n (m(s := m t)) = (e, m1)"
      using Suc.prems(3) by (simp add: Let_def)
    have ne: "\<forall>i \<le> n. \<forall>j < n. s + 1 + of_nat i \<noteq> t + 1 + of_nat j"
    proof (intro allI impI)
      fix i j assume "i \<le> n" "j < n"
      then have "s + of_nat (Suc i) \<noteq> t + of_nat (Suc j)" using Suc.prems(2) by simp
      then show "s + 1 + of_nat i \<noteq> t + 1 + of_nat j" by (simp add: add.assoc)
    qed
    have n: "n < 2 ^ 32" using Suc.prems(1) by simp
    note IH = Suc.IH [OF n ne c]
    have fr: "cstr (t + 1) n (m(s := m t)) = cstr (t + 1) n m"
    proof (rule cstr_cong)
      fix i assume "i < n"
      then have "s + of_nat 0 \<noteq> t + of_nat (Suc i)" using Suc.prems(2) by (meson Suc_mono le0)
      then show "(m(s := m t)) (t + 1 + of_nat i) = m (t + 1 + of_nat i)" by (auto simp: add.assoc)
    qed
    have big: "n < unat (s - (s + 1))"
    proof -
      have "s - (s + 1) = (- 1 :: u64)" by simp
      then show ?thesis using n by (simp add: unsigned_minus_1_eq_mask mask_eq_exp_minus_1)
    qed
    have s: "(m1(e := 0)) s = m t" using IH big by auto
    have frame: "(m1(e := 0)) x = m x" if x: "Suc n < unat (x - s)" for x
    proof -
      have "1 \<le> x - s" using x by (simp add: word_le_nat_alt)
      from unat_sub [OF this] have "unat (x - (s + 1)) = unat (x - s) - 1"
        by (simp only: diff_diff_eq one)
      moreover have "x \<noteq> s" using x by auto
      ultimately show ?thesis using IH x by auto
    qed
    have "cstr s (Suc (Suc n)) (m1(e := 0)) = m t # cstr (s + 1) (Suc n) (m1(e := 0))"
      using s False by simp
    also have "\<dots> = m t # cstr (t + 1) n m" using conjunct1 [OF IH] fr by (simp only:)
    also have "\<dots> = cstr t (Suc n) m" using False by simp
    finally show ?thesis using frame by blast
  qed
qed

lemma safestrcpy_correct:
  assumes "0 < n" and "n < 2 ^ 31" and "\<forall>i < nat n. \<forall>j < nat n. s + of_nat i \<noteq> t + of_nat j"
  shows "cstr s (nat n) (safestrcpy s t n m) = cstr t (nat n - 1) m \<and>
    (\<forall>x. nat n \<le> unat (x - s) \<longrightarrow> safestrcpy s t n m x = m x)"
proof -
  obtain e m1 where c: "safestrcpy_copy s t (nat (n - 1)) m = (e, m1)" by fastforce
  obtain k where k: "nat n = Suc k" "nat (n - 1) = k" using assms(1) by (cases "nat n") (auto simp: nat_diff_distrib)
  have "k < 2 ^ 32" using assms(2) k(1) by simp
  from safestrcpy_copy_correct [OF this _ c [unfolded k(2)]] assms(3) k
  show ?thesis using assms(1) c by (auto simp: safestrcpy_def less_Suc_eq_le Suc_le_eq)
qed

section \<open>Properties\<close>

text \<open>\<open>memmove\<close> moves the bytes that were at the source before the call, also when the two
  areas overlap, and changes no other byte.\<close>

lemma memmove_moves:
  assumes "unat dst + unat n \<le> 2 ^ 64" and "unat src + unat n < 2 ^ 64"
  shows "memmove dst src n m = (\<lambda>x. if unat (x - dst) < unat n then m (src + (x - dst)) else m x)"
  by (rule memmove_eq [OF assms])

text \<open>\<open>strncmp\<close> compares the two strings, cut at \<open>n\<close> bytes, in the lexicographic order of
  unsigned bytes.\<close>

lemma strncmp_lexicographic:
  "(strncmp p q n m = 0) = (cstr p (unat n) m = cstr q (unat n) m) \<and>
   (strncmp p q n m < 0) = (cstr p (unat n) m < cstr q (unat n) m)"
  unfolding strncmp_def by (rule strncmp_loop_sign)

text \<open>\<open>safestrcpy\<close> into a buffer of \<open>n\<close> bytes leaves there the first \<open>n - 1\<close> bytes of the
  string, terminated, and writes nothing outside the buffer.\<close>

lemma safestrcpy_terminates_string:
  assumes "0 < n" and "n < 2 ^ 31" and "\<forall>i < nat n. \<forall>j < nat n. s + of_nat i \<noteq> t + of_nat j"
  shows "cstr s (nat n) (safestrcpy s t n m) = cstr t (nat n - 1) m \<and>
    (\<forall>x. nat n \<le> unat (x - s) \<longrightarrow> safestrcpy s t n m x = m x)"
  by (rule safestrcpy_correct [OF assms])

end
