(* ===== verification/Xv7_Kalloc.thy ===== *)
theory Xv7_Kalloc
  imports Xv7_List Xv7_String
begin

text \<open>
  The physical page allocator of \<open>xv7/kernel/kalloc.c\<close>, with the reference counts of
  copy-on-write pages.  \<open>kend\<close> is the linker's symbol \<open>end\<close>, a parameter.  The link
  \<open>r->next\<close> of a free page is the typed field \<open>knext\<close>, the reference counts are
  \<open>ref_count\<close>, the remaining contents of the pages \<open>kdata\<close>.  Each operation runs under
  \<open>kmem.lock\<close>.
\<close>

section \<open>kalloc.c\<close>

abbreviation (input) PHYSTOP :: u64 where "PHYSTOP \<equiv> 0x88000000"
abbreviation (input) PGSIZE :: u64 where "PGSIZE \<equiv> 4096"

definition PGROUNDUP :: "u64 \<Rightarrow> u64" where
  "PGROUNDUP sz = (sz + 4095) AND NOT 4095"

record kmem =
  freelist :: u64
  knext :: "u64 \<Rightarrow> u64"
  ref_count :: "u64 \<Rightarrow> u32"
  kdata :: mem

definition page_idx :: "u64 \<Rightarrow> u64 \<Rightarrow> u64" where
  "page_idx kend pa = drop_bit 12 (pa - kend)"

definition kfree :: "u64 \<Rightarrow> u64 \<Rightarrow> kmem \<Rightarrow> (kfault, unit, kmem) outcome" where
  "kfree kend pa s =
     (if pa mod PGSIZE \<noteq> 0 \<or> pa < kend \<or> PHYSTOP \<le> pa then (Inl (Panic ''kfree''), s)
      else
        let s = s\<lparr>kdata := memset pa 1 4096 (kdata s)\<rparr>;
            idx = page_idx kend pa;
            s = s\<lparr>knext := (knext s)(pa := freelist s)\<rparr>;
            s = s\<lparr>freelist := pa\<rparr>
        in (Inr (), s\<lparr>ref_count := (ref_count s)(idx := 0)\<rparr>))"

definition kalloc :: "u64 \<Rightarrow> kmem \<Rightarrow> u64 \<times> kmem" where
  "kalloc kend s =
     (let r = freelist s;
          s = (if r \<noteq> 0 then
                 let s = s\<lparr>freelist := knext s r\<rparr>
                 in s\<lparr>ref_count := (ref_count s)(page_idx kend r := 1)\<rparr>
               else s);
          s = (if r \<noteq> 0 then s\<lparr>kdata := memset r 5 4096 (kdata s)\<rparr> else s)
      in (r, s))"

definition kref :: "u64 \<Rightarrow> u64 \<Rightarrow> kmem \<Rightarrow> kmem" where
  "kref kend pa s =
     (let idx = page_idx kend pa in s\<lparr>ref_count := (ref_count s)(idx := ref_count s idx + 1)\<rparr>)"

definition kderef :: "u64 \<Rightarrow> u64 \<Rightarrow> kmem \<Rightarrow> (kfault, unit, kmem) outcome" where
  "kderef kend pa s =
     (let idx = page_idx kend pa;
          s = s\<lparr>ref_count := (ref_count s)(idx := ref_count s idx - 1)\<rparr>;
          shall_free = (ref_count s idx = 0)
      in if shall_free then kfree kend pa s else (Inr (), s))"

lemma kfree_InrD:
  assumes "kfree kend pa s = (Inr x, s')"
  shows "pa mod PGSIZE = 0 \<and> kend \<le> pa \<and> pa < PHYSTOP"
proof (rule ccontr)
  assume "\<not> ?thesis"
  then have "pa mod PGSIZE \<noteq> 0 \<or> pa < kend \<or> PHYSTOP \<le> pa"
    by (simp only: de_Morgan_conj not_le not_less)
  then show False using assms unfolding kfree_def by (simp only: if_True prod.inject) simp
qed

text \<open>\<open>for (; p + PGSIZE <= pa_end; p += PGSIZE) kfree(p);\<close>.\<close>

function freerange_loop :: "u64 \<Rightarrow> u64 \<Rightarrow> u64 \<Rightarrow> kmem \<Rightarrow> (kfault, unit, kmem) outcome" where
  "freerange_loop kend p pa_end s =
     (if p + PGSIZE \<le> pa_end
      then bindS (kfree kend p s) (\<lambda>_ s. freerange_loop kend (p + PGSIZE) pa_end s)
      else (Inr (), s))"
  by pat_completeness auto
termination
proof (relation "measure (\<lambda>(kend, p, pa_end, s). 2 ^ 32 - unat p)", goal_cases)
  case (2 kend p pa_end s x s')
  then have p: "unat p < 0x88000000" using kfree_InrD [of kend p s x s'] by (simp add: word_less_nat_alt)
  then have "unat (p + PGSIZE) = unat p + 4096" by (simp add: unat_plus_small)
  then show ?case using p by simp
qed simp

declare freerange_loop.simps [simp del]

definition freerange :: "u64 \<Rightarrow> u64 \<Rightarrow> u64 \<Rightarrow> kmem \<Rightarrow> (kfault, unit, kmem) outcome" where
  "freerange kend pa_start pa_end s = freerange_loop kend (PGROUNDUP pa_start) pa_end s"

definition rc_pages :: "u64 \<Rightarrow> u64" where
  "rc_pages kend = drop_bit 12 ((drop_bit 12 (PHYSTOP - kend) + 1) * 4) + 1"

text \<open>The table \<open>kmem.ref_count\<close> starts at \<open>end\<close>; the memory is zero when the kernel starts.\<close>

definition kinit :: "u64 \<Rightarrow> kmem \<Rightarrow> (kfault, unit, kmem) outcome" where
  "kinit kend s =
     (let rc_offset = push_bit 12 (rc_pages kend)
      in freerange kend (kend + rc_offset) PHYSTOP s)"

section \<open>Page arithmetic\<close>

lemma unat_drop12: "unat (drop_bit 12 (w :: u64)) = unat w div 4096"
  using unat_u64_less [of w] by (subst unsigned_drop_bit_eq) (simp add: drop_bit_eq_div take_bit_nat_eq_self)

lemma unat_page_floor: "unat (w AND NOT 4095 :: u64) = unat w div 4096 * 4096"
proof -
  have "w AND NOT 4095 = push_bit 12 (drop_bit 12 w)"
  proof (rule bit_word_eqI)
    fix n assume "n < LENGTH(64)"
    have m: "(4095 :: u64) = mask 12" by (simp add: mask_eq_exp_minus_1)
    show "bit (w AND NOT 4095) n = bit (push_bit 12 (drop_bit 12 w)) n"
      using \<open>n < LENGTH(64)\<close> unfolding m by (auto simp: bit_simps simp del: mask_numeral)
  qed
  also have "unat \<dots> = take_bit 64 (unat w div 4096 * 4096)"
    by (subst unsigned_push_bit_eq) (simp add: unat_drop12 push_bit_eq_mult)
  also have "\<dots> = unat w div 4096 * 4096"
  proof -
    have "unat w div 4096 * 4096 \<le> unat w" by simp
    then show ?thesis using unat_u64_less [of w] by (simp add: take_bit_nat_eq_self)
  qed
  finally show ?thesis .
qed

lemma unat_PGROUNDUP:
  assumes "unat a + 4095 < 2 ^ 64"
  shows "unat (PGROUNDUP a) = (unat a + 4095) div 4096 * 4096"
  unfolding PGROUNDUP_def unat_page_floor using assms by (simp add: unat_plus_small)

lemma unat_mod_page: "(p :: u64) mod 4096 = 0 \<longleftrightarrow> unat p mod 4096 = 0"
  by (simp add: word_unat_eq_iff unat_mod)

lemma unat_page_idx: "kend \<le> pa \<Longrightarrow> unat (page_idx kend pa) = (unat pa - unat kend) div 4096"
  by (simp add: page_idx_def unat_drop12 unat_sub del: unsigned_drop_bit_eq)

definition page_ok :: "u64 \<Rightarrow> u64 \<Rightarrow> bool" where
  "page_ok kend p \<longleftrightarrow> p mod PGSIZE = 0 \<and> kend \<le> p \<and> p < PHYSTOP"

lemma page_step:
  fixes p q e :: nat
  assumes "e \<le> p" and "e \<le> q" and "(p - e) div 4096 = (q - e) div 4096"
    and "p mod 4096 = 0" and "q mod 4096 = 0"
  shows "p = q"
proof -
  have less: "(a - e) div 4096 < (b - e) div 4096" if ab: "a < b" "e \<le> a" "a mod 4096 = 0" "b mod 4096 = 0" for a b :: nat
  proof -
    obtain i j where "a = 4096 * i" "b = 4096 * j" using ab(3,4) by (metis dvd_def mod_eq_0_iff_dvd)
    then have "(a - e) + 4096 \<le> b - e" using ab(1,2) by simp
    then have "((a - e) + 4096) div 4096 \<le> (b - e) div 4096" by (rule div_le_mono)
    then show ?thesis by simp
  qed
  consider "p < q" | "q < p" | "p = q" by linarith
  then show ?thesis using less [of p q] less [of q p] assms by cases auto
qed

lemma page_idx_inj:
  assumes "page_ok kend p" and "page_ok kend q" and "page_idx kend p = page_idx kend q"
  shows "p = q"
proof -
  have le: "unat kend \<le> unat p" "unat kend \<le> unat q"
    using assms(1,2) by (simp_all add: page_ok_def word_le_nat_alt)
  have "unat p = unat q"
  proof (rule page_step [OF le])
    show "(unat p - unat kend) div 4096 = (unat q - unat kend) div 4096"
      using assms by (simp add: page_ok_def flip: unat_page_idx)
  qed (use assms(1,2) in \<open>simp_all add: page_ok_def unat_mod_page\<close>)
  then show ?thesis by (rule word_unat_eq_iff [THEN iffD2])
qed

lemma small_table: "N \<le> 557056 \<Longrightarrow> (N + 1) * 4 div 4096 \<le> (544 :: nat)"
  using div_le_mono [of "(N + 1) * 4" "557057 * 4" 4096] by simp

lemma below_next_page: "(M :: nat) < (M div 4096 + 1) * 4096"
  using div_mult_mod_eq [of M 4096] mod_less_divisor [of 4096 M] by simp

lemma unat_small_words:
  fixes w :: u64
  shows "X \<le> 557056 \<Longrightarrow> unat w = X \<Longrightarrow> unat (w + 1) = X + 1"
    "X \<le> 557057 \<Longrightarrow> unat w = X \<Longrightarrow> unat (w * 4) = X * 4"
    "X \<le> 545 \<Longrightarrow> unat w = X \<Longrightarrow> unat (push_bit 12 w) = X * 4096"
proof -
  show "X \<le> 557056 \<Longrightarrow> unat w = X \<Longrightarrow> unat (w + 1) = X + 1" by (subst unat_plus_small) simp_all
  show "X \<le> 557057 \<Longrightarrow> unat w = X \<Longrightarrow> unat (w * 4) = X * 4" by (subst unat_word_ariths(2)) simp
  show "X \<le> 545 \<Longrightarrow> unat w = X \<Longrightarrow> unat (push_bit 12 w) = X * 4096"
    by (subst unsigned_push_bit_eq) (simp add: push_bit_eq_mult take_bit_nat_eq_self)
qed

lemma unat_rc_offset:
  assumes "kend \<le> PHYSTOP"
  shows "unat (push_bit 12 (rc_pages kend)) = (((unat PHYSTOP - unat kend) div 4096 + 1) * 4 div 4096 + 1) * 4096"
proof -
  obtain N where N: "(unat PHYSTOP - unat kend) div 4096 = N" by blast
  have n: "N \<le> 557056"
    unfolding N [symmetric] by (rule order.trans [OF div_le_mono [of _ "unat PHYSTOP"]]) simp_all
  have d: "unat (drop_bit 12 (PHYSTOP - kend)) = N"
    unfolding unat_drop12 using N assms by (simp add: unat_sub)
  have n1: "N + 1 \<le> 557057" using n by simp
  have e: "unat ((drop_bit 12 (PHYSTOP - kend) + 1) * 4) = (N + 1) * 4"
    by (rule unat_small_words(2) [OF n1 unat_small_words(1) [OF n d]])
  have s: "(N + 1) * 4 div 4096 \<le> 557056" "(N + 1) * 4 div 4096 + 1 \<le> 545"
    using small_table [OF n] by linarith+
  have f: "unat (drop_bit 12 ((drop_bit 12 (PHYSTOP - kend) + 1) * 4)) = (N + 1) * 4 div 4096"
    unfolding unat_drop12 e ..
  show ?thesis
    unfolding N rc_pages_def by (rule unat_small_words(3) [OF s(2) unat_small_words(1) [OF s(1) f]])
qed

lemma table_below_pages:
  assumes "kend \<le> pa" and "pa < PHYSTOP"
  shows "4 * unat (page_idx kend pa) + 4 \<le> unat (push_bit 12 (rc_pages kend))"
    "unat (push_bit 12 (rc_pages kend)) < 2 ^ 22"
proof -
  have k: "kend \<le> PHYSTOP" "unat kend \<le> unat pa" "unat pa < unat PHYSTOP"
    using assms by (auto simp: word_le_nat_alt word_less_nat_alt)
  obtain N where N: "(unat PHYSTOP - unat kend) div 4096 = N" by blast
  have n: "N \<le> 557056"
    unfolding N [symmetric] by (rule order.trans [OF div_le_mono [of _ "unat PHYSTOP"]]) simp_all
  note r = unat_rc_offset [OF k(1), unfolded N]
  have i: "unat (page_idx kend pa) \<le> N"
    unfolding unat_page_idx [OF assms(1)] N [symmetric] by (rule div_le_mono) (use k in linarith)
  show "4 * unat (page_idx kend pa) + 4 \<le> unat (push_bit 12 (rc_pages kend))"
  proof -
    have "4 * unat (page_idx kend pa) + 4 \<le> (N + 1) * 4" using i by simp
    also have "\<dots> \<le> ((N + 1) * 4 div 4096 + 1) * 4096" by (rule less_imp_le [OF below_next_page])
    finally show ?thesis unfolding r .
  qed
  show "unat (push_bit 12 (rc_pages kend)) < 2 ^ 22"
    unfolding r using small_table [OF n] by simp
qed


section \<open>The free list\<close>

fun fchain :: "(u64 \<Rightarrow> u64) \<Rightarrow> u64 \<Rightarrow> u64 list \<Rightarrow> bool" where
  "fchain nx p [] \<longleftrightarrow> p = 0"
| "fchain nx p (x # xs) \<longleftrightarrow> p = x \<and> x \<noteq> 0 \<and> fchain nx (nx x) xs"

text \<open>The pages \<open>ps\<close> are free: they are on the list, once each, and nobody refers to them.\<close>

definition kinv :: "u64 \<Rightarrow> kmem \<Rightarrow> u64 list \<Rightarrow> bool" where
  "kinv kend s ps \<longleftrightarrow> 0 < kend \<and> fchain (knext s) (freelist s) ps \<and> distinct ps \<and>
     (\<forall>p \<in> set ps. page_ok kend p \<and> ref_count s (page_idx kend p) = 0)"

lemma fchain_cong: "(\<And>x. x \<in> set ps \<Longrightarrow> nx' x = nx x) \<Longrightarrow> fchain nx' p ps = fchain nx p ps"
  by (induction ps arbitrary: p) auto

lemma fchain_upd [simp]: "x \<notin> set ps \<Longrightarrow> fchain (nx(x := v)) p ps = fchain nx p ps"
  by (rule fchain_cong) auto

lemma page_ok_not_0: "0 < kend \<Longrightarrow> page_ok kend p \<Longrightarrow> p \<noteq> 0"
  by (auto simp: page_ok_def)

lemma kfree_keeps:
  assumes inv: "kinv kend s ps" and p: "page_ok kend p" "p \<notin> set ps"
  shows "\<exists>s'. kfree kend p s = (Inr (), s') \<and> kinv kend s' (p # ps) \<and>
    ref_count s' = (ref_count s)(page_idx kend p := 0)"
proof -
  have "\<not> (p mod PGSIZE \<noteq> 0 \<or> p < kend \<or> PHYSTOP \<le> p)" using p(1) by (auto simp: page_ok_def)
  then have "kfree kend p s = (Inr (), s\<lparr>kdata := memset p 1 4096 (kdata s), knext := (knext s)(p := freelist s),
      freelist := p, ref_count := (ref_count s)(page_idx kend p := 0)\<rparr>)"
    unfolding kfree_def by (simp add: Let_def)
  then show ?thesis
    using inv p page_ok_not_0 [OF _ p(1)] by (auto simp: kinv_def)
qed

lemma kalloc_keeps:
  assumes inv: "kinv kend s ps"
  shows "(case ps of
      [] \<Rightarrow> kalloc kend s = (0, s)
    | p # qs \<Rightarrow> (\<exists>s'. kalloc kend s = (p, s') \<and> kinv kend s' qs \<and> kdata s' = memset p 5 4096 (kdata s) \<and>
        ref_count s' = (ref_count s)(page_idx kend p := 1)))"
proof (cases ps)
  case Nil
  then show ?thesis using inv by (simp add: kalloc_def kinv_def)
next
  case (Cons p qs)
  then have p: "freelist s = p" "p \<noteq> 0" using inv by (auto simp: kinv_def)
  then have r: "kalloc kend s = (p, s\<lparr>freelist := knext s p, ref_count := (ref_count s)(page_idx kend p := 1),
      kdata := memset p 5 4096 (kdata s)\<rparr>)"
    by (simp add: kalloc_def Let_def)
  have "page_idx kend q \<noteq> page_idx kend p" if "q \<in> set qs" for q
    using page_idx_inj [of kend q p] inv Cons that by (auto simp: kinv_def)
  then show ?thesis using inv Cons p r by (auto simp: kinv_def)
qed

lemma kderef_keeps:
  assumes inv: "kinv kend s ps" and p: "page_ok kend p" "p \<notin> set ps"
  shows "\<exists>s'. kderef kend p s = (Inr (), s') \<and>
    kinv kend s' (if ref_count s (page_idx kend p) = 1 then p # ps else ps) \<and>
    ref_count s' = (ref_count s)(page_idx kend p := ref_count s (page_idx kend p) - 1)"
proof -
  let ?s = "s\<lparr>ref_count := (ref_count s)(page_idx kend p := ref_count s (page_idx kend p) - 1)\<rparr>"
  have "page_idx kend q \<noteq> page_idx kend p" if "q \<in> set ps" for q
    using page_idx_inj [of kend q p] inv p that by (auto simp: kinv_def)
  then have inv': "kinv kend ?s ps" using inv by (auto simp: kinv_def)
  have one: "ref_count s (page_idx kend p) - 1 = 0 \<longleftrightarrow> ref_count s (page_idx kend p) = 1" by simp
  show ?thesis
  proof (cases "ref_count s (page_idx kend p) = 1")
    case True
    then have "kderef kend p s = kfree kend p ?s" by (simp add: kderef_def Let_def)
    then show ?thesis using kfree_keeps [OF inv' p] True by auto
  next
    case False
    then have "kderef kend p s = (Inr (), ?s)" using one by (simp add: kderef_def Let_def)
    then show ?thesis using inv' False by auto
  qed
qed

lemma page_multiple:
  fixes a b :: nat
  assumes "a mod 4096 = 0" and "b mod 4096 = 0"
  shows "a \<le> b \<longleftrightarrow> b = a \<or> a + 4096 \<le> b"
proof -
  obtain i j where "a = 4096 * i" "b = 4096 * j" using assms by (metis dvd_def mod_eq_0_iff_dvd)
  then show ?thesis by auto
qed

text \<open>\<open>freerange\<close> puts every page of the range on the list.\<close>

lemma freerange_loop_all:
  assumes "kinv kend s ps" and "p mod PGSIZE = 0" and "kend \<le> p" and "p \<le> PHYSTOP" and "\<forall>q \<in> set ps. q < p"
  shows "\<exists>s' qs. freerange_loop kend p PHYSTOP s = (Inr (), s') \<and> kinv kend s' qs \<and>
    set qs = set ps \<union> {q. p \<le> q \<and> q < PHYSTOP \<and> q mod PGSIZE = 0}"
  using assms
proof (induction "unat PHYSTOP - unat p" arbitrary: p s ps rule: less_induct)
  case less
  have pm: "unat p mod 4096 = 0" "unat p \<le> 0x88000000"
    using less.prems by (simp_all add: unat_mod_page word_le_nat_alt)
  then have up: "unat (p + PGSIZE) = unat p + 4096" by (simp add: unat_plus_small)
  show ?case
  proof (cases "p = PHYSTOP")
    case True
    have "{q. PHYSTOP \<le> q \<and> q < PHYSTOP \<and> q mod PGSIZE = 0} = {}" by auto
    then show ?thesis using True less.prems(1) by (subst freerange_loop.simps) auto
  next
    case False
    then have "unat p \<noteq> 0x88000000" by (simp add: word_unat_eq_iff) 
    with pm have lt: "unat p + 4096 \<le> 0x88000000" using page_multiple [of "unat p" "0x88000000"] by auto
    then have nxt: "p + PGSIZE \<le> PHYSTOP" "p < PHYSTOP" "p < p + PGSIZE"
      using up by (simp_all add: word_le_nat_alt word_less_nat_alt)
    have ok: "page_ok kend p" "p \<notin> set ps" using less.prems nxt by (auto simp: page_ok_def)
    from kfree_keeps [OF less.prems(1) ok] obtain t where t: "kfree kend p s = (Inr (), t)" "kinv kend t (p # ps)" by blast
    have "\<exists>s' qs. freerange_loop kend (p + PGSIZE) PHYSTOP t = (Inr (), s') \<and> kinv kend s' qs \<and>
      set qs = set (p # ps) \<union> {q. p + PGSIZE \<le> q \<and> q < PHYSTOP \<and> q mod PGSIZE = 0}"
    proof (rule less.hyps [OF _ t(2)])
      show "\<forall>q\<in>set (p # ps). q < p + PGSIZE" using less.prems(5) nxt(3) by auto
      show "(p + PGSIZE) mod PGSIZE = 0" unfolding unat_mod_page up using pm(1) by simp
      show "unat PHYSTOP - unat (p + PGSIZE) < unat PHYSTOP - unat p" using up lt by simp
    qed (use nxt less.prems(3) in auto)
    moreover have "{q. p \<le> q \<and> q < PHYSTOP \<and> q mod PGSIZE = 0} =
        insert p {q. p + PGSIZE \<le> q \<and> q < PHYSTOP \<and> q mod PGSIZE = 0}"
    proof (rule set_eqI)
      fix q :: u64
      have "q mod PGSIZE = 0 \<Longrightarrow> p \<le> q \<longleftrightarrow> q = p \<or> p + PGSIZE \<le> q"
        using page_multiple [OF pm(1), of "unat q"]
        unfolding unat_mod_page word_le_nat_alt up word_unat_eq_iff [of q p] by (simp only:)
      then show "q \<in> {q. p \<le> q \<and> q < PHYSTOP \<and> q mod PGSIZE = 0} \<longleftrightarrow>
          q \<in> insert p {q. p + PGSIZE \<le> q \<and> q < PHYSTOP \<and> q mod PGSIZE = 0}"
        using nxt(2) less.prems(2) unfolding mem_Collect_eq insert_iff by metis
    qed
    ultimately show ?thesis
      using t(1) nxt(1) by (subst freerange_loop.simps) auto
  qed
qed


section \<open>The interface of the page allocator\<close>

text \<open>
  What the rest of the kernel relies on: \<open>alloc\<close> takes a page that nobody holds, \<open>free\<close>
  gives one back.  \<open>alloc_pages\<close> is the loop of a client that takes several.
\<close>

fun alloc_pages :: "('s \<Rightarrow> u64 \<times> 's) \<Rightarrow> nat \<Rightarrow> 's \<Rightarrow> u64 list \<times> 's" where
  "alloc_pages alloc 0 s = ([], s)"
| "alloc_pages alloc (Suc n) s =
     (case alloc s of (p, s) \<Rightarrow> if p = 0 then ([], s)
      else (case alloc_pages alloc n s of (ps, s) \<Rightarrow> (p # ps, s)))"

fun free_pages :: "(u64 \<Rightarrow> 's \<Rightarrow> (kfault, unit, 's) outcome) \<Rightarrow> u64 list \<Rightarrow> 's \<Rightarrow> (kfault, unit, 's) outcome" where
  "free_pages free [] s = (Inr (), s)"
| "free_pages free (p # ps) s = bindS (free p s) (\<lambda>_ s. free_pages free ps s)"

locale page_allocator =
  fixes pinv :: "'s \<Rightarrow> u64 list \<Rightarrow> bool"
    and alloc :: "'s \<Rightarrow> u64 \<times> 's"
    and free :: "u64 \<Rightarrow> 's \<Rightarrow> (kfault, unit, 's) outcome"
    and ok :: "u64 \<Rightarrow> bool"
  assumes free_list: "pinv s ps \<Longrightarrow> distinct ps \<and> (\<forall>p \<in> set ps. ok p \<and> p \<noteq> 0)"
    and alloc_none: "pinv s [] \<Longrightarrow> alloc s = (0, s)"
    and alloc_some: "pinv s (p # ps) \<Longrightarrow> \<exists>s'. alloc s = (p, s') \<and> pinv s' ps"
    and free_page: "pinv s ps \<Longrightarrow> ok p \<Longrightarrow> p \<notin> set ps \<Longrightarrow> \<exists>s'. free p s = (Inr (), s') \<and> pinv s' (p # ps)"
begin

lemma alloc_many:
  "pinv s ps \<Longrightarrow> \<exists>s'. alloc_pages alloc n s = (take n ps, s') \<and> pinv s' (drop n ps)"
proof (induction n arbitrary: s ps)
  case (Suc n)
  show ?case
  proof (cases ps)
    case Nil
    then show ?thesis using alloc_none Suc.prems by simp
  next
    case (Cons p qs)
    then obtain s1 where "alloc s = (p, s1)" "pinv s1 qs" using alloc_some Suc.prems by blast
    moreover have "p \<noteq> 0" using free_list [OF Suc.prems] Cons by simp
    ultimately show ?thesis using Suc.IH [of s1 qs] Cons by auto
  qed
qed simp

lemma free_many:
  "pinv s ps \<Longrightarrow> distinct qs \<Longrightarrow> \<forall>q \<in> set qs. ok q \<and> q \<notin> set ps \<Longrightarrow>
     \<exists>s'. free_pages free qs s = (Inr (), s') \<and> pinv s' (rev qs @ ps)"
proof (induction qs arbitrary: s ps)
  case (Cons q qs)
  have q: "ok q" "q \<notin> set ps" using Cons.prems(3) by simp_all
  from free_page [OF Cons.prems(1) q] obtain s1
    where s1: "free q s = (Inr (), s1)" "pinv s1 (q # ps)" by blast
  have "\<exists>s'. free_pages free qs s1 = (Inr (), s') \<and> pinv s' (rev qs @ q # ps)"
    by (rule Cons.IH [OF s1(2)]) (use Cons.prems in auto)
  then show ?case using s1 by simp
qed simp

lemma take_and_give_back:
  assumes "pinv s ps" and "n \<le> length ps"
  shows "\<exists>qs s1 s2. alloc_pages alloc n s = (qs, s1) \<and> length qs = n \<and> distinct qs \<and>
    free_pages free qs s1 = (Inr (), s2) \<and> pinv s2 (rev qs @ drop n ps)"
proof -
  from alloc_many [OF assms(1)] obtain s1 where a: "alloc_pages alloc n s = (take n ps, s1)" "pinv s1 (drop n ps)" by blast
  have d: "distinct ps" "\<forall>p \<in> set ps. ok p" using free_list [OF assms(1)] by auto
  have "\<exists>s2. free_pages free (take n ps) s1 = (Inr (), s2) \<and> pinv s2 (rev (take n ps) @ drop n ps)"
  proof (rule free_many [OF a(2)])
    show "\<forall>q\<in>set (take n ps). ok q \<and> q \<notin> set (drop n ps)"
      using d set_take_disj_set_drop_if_distinct [OF d(1), of n n] in_set_takeD [of _ n ps] by blast
  qed (use d in simp)
  then show ?thesis using a(1) assms(2) d(1) by auto
qed

end

interpretation kpages: page_allocator "kinv kend" "kalloc kend" "kfree kend" "page_ok kend" for kend
proof unfold_locales
  show "kinv kend s ps \<Longrightarrow> distinct ps \<and> (\<forall>p\<in>set ps. page_ok kend p \<and> p \<noteq> 0)" for s ps
    using page_ok_not_0 by (auto simp: kinv_def)
  show "kinv kend s [] \<Longrightarrow> kalloc kend s = (0, s)" for s
    using kalloc_keeps [of kend s "[]"] by simp
  show "kinv kend s (p # ps) \<Longrightarrow> \<exists>s'. kalloc kend s = (p, s') \<and> kinv kend s' ps" for s p ps
    using kalloc_keeps [of kend s "p # ps"] by auto
  show "kinv kend s ps \<Longrightarrow> page_ok kend p \<Longrightarrow> p \<notin> set ps \<Longrightarrow>
      \<exists>s'. kfree kend p s = (Inr (), s') \<and> kinv kend s' (p # ps)" for s ps p
    using kfree_keeps by blast
qed

section \<open>Properties\<close>

text \<open>C14: \<open>kinit\<close> puts every page from the end of the reference-count table to \<open>PHYSTOP\<close> on the
  free list, and the count of every page of the machine lies in the table, below the first
  page that can be allocated.\<close>

theorem kinit_frees_all_pages:
  assumes "0 < kend" and "unat kend + 2 ^ 22 + 4096 \<le> unat PHYSTOP" and "freelist s = 0"
  shows "\<exists>t ps. kinit kend s = (Inr (), t) \<and> kinv kend t ps \<and>
      set ps = {q. PGROUNDUP (kend + push_bit 12 (rc_pages kend)) \<le> q \<and> q < PHYSTOP \<and> q mod PGSIZE = 0} \<and>
      (\<forall>pa. kend \<le> pa \<and> pa < PHYSTOP \<longrightarrow> (\<forall>q \<in> set ps. unat kend + 4 * unat (page_idx kend pa) + 4 \<le> unat q))"
proof -
  let ?o = "push_bit 12 (rc_pages kend)"
  have k: "kend \<le> PHYSTOP" "kend < PHYSTOP" using assms(2) by (simp_all add: word_le_nat_alt word_less_nat_alt)
  have o: "unat ?o < 2 ^ 22" by (rule table_below_pages(2) [OF order.refl k(2)])
  have s: "unat (kend + ?o) = unat kend + unat ?o"
    using assms(2) o by (simp add: unat_plus_small)
  have r: "unat (PGROUNDUP (kend + ?o)) = (unat kend + unat ?o + 4095) div 4096 * 4096"
    using assms(2) o s by (subst unat_PGROUNDUP) simp_all
  have ge: "unat kend + unat ?o \<le> unat (PGROUNDUP (kend + ?o))"
    unfolding r using below_next_page [of "unat kend + unat ?o + 4095"] by (simp add: algebra_simps)
  have le: "unat (PGROUNDUP (kend + ?o)) \<le> unat PHYSTOP"
    unfolding r using assms(2) o by (rule_tac order.trans [OF div_times_less_eq_dividend]) simp
  have inv: "kinv kend s []" using assms(1,3) by (simp add: kinv_def)
  have "\<exists>t ps. freerange_loop kend (PGROUNDUP (kend + ?o)) PHYSTOP s = (Inr (), t) \<and> kinv kend t ps \<and>
      set ps = set [] \<union> {q. PGROUNDUP (kend + ?o) \<le> q \<and> q < PHYSTOP \<and> q mod PGSIZE = 0}"
  proof (rule freerange_loop_all [OF inv])
    show "PGROUNDUP (kend + ?o) mod PGSIZE = 0" unfolding unat_mod_page r by simp
    show "kend \<le> PGROUNDUP (kend + ?o)" using ge by (simp add: word_le_nat_alt)
    show "PGROUNDUP (kend + ?o) \<le> PHYSTOP" using le by (simp add: word_le_nat_alt)
  qed simp
  then obtain t ps where t: "kinit kend s = (Inr (), t)" "kinv kend t ps"
    "set ps = {q. PGROUNDUP (kend + ?o) \<le> q \<and> q < PHYSTOP \<and> q mod PGSIZE = 0}"
    by (auto simp: kinit_def freerange_def Let_def)
  have "unat kend + 4 * unat (page_idx kend pa) + 4 \<le> unat q"
    if "kend \<le> pa" "pa < PHYSTOP" "q \<in> set ps" for pa q
  proof -
    have "unat (PGROUNDUP (kend + ?o)) \<le> unat q" using that(3) t(3) by (simp add: word_le_nat_alt)
    then show ?thesis using table_below_pages(1) [OF that(1,2)] ge by linarith
  qed
  then show ?thesis using t by blast
qed

text \<open>An empty allocator and one with a single free page, for the instances.\<close>

definition empty_kmem :: kmem where
  "empty_kmem = \<lparr>freelist = 0, knext = (\<lambda>_. 0), ref_count = (\<lambda>_. 0), kdata = (\<lambda>_. 0)\<rparr>"

definition one_page :: kmem where
  "one_page = empty_kmem\<lparr>freelist := 0x80100000\<rparr>"

lemma one_page_inv: "kinv 0x80021000 one_page [0x80100000]"
  by (simp add: kinv_def one_page_def empty_kmem_def page_ok_def)

theorem kinit_frees_all_pages_witness:
  "\<exists>t ps. kinit 0x80021000 empty_kmem = (Inr (), t) \<and> kinv 0x80021000 t ps \<and> 0x87fff000 \<in> set ps"
proof -
  have h: "(0 :: u64) < 0x80021000" "unat (0x80021000 :: u64) + 2 ^ 22 + 4096 \<le> unat PHYSTOP" "freelist empty_kmem = 0"
    by (simp_all add: empty_kmem_def)
  have "PGROUNDUP (0x80021000 + push_bit 12 (rc_pages 0x80021000)) \<le> 0x87fff000"
    by (simp add: PGROUNDUP_def rc_pages_def)
  then show ?thesis using kinit_frees_all_pages [OF h] by fastforce
qed

text \<open>Taking \<open>n\<close> pages from the free list and giving them back in the same order yields \<open>n\<close>
  distinct pages and a free list with the same pages (\<open>kalloc\<close>, \<open>kfree\<close>).\<close>

lemma kalloc_kfree_roundtrip:
  assumes "kinv kend s ps" and "n \<le> length ps"
  shows "\<exists>qs s1 s2. alloc_pages (kalloc kend) n s = (qs, s1) \<and> length qs = n \<and> distinct qs \<and>
    free_pages (kfree kend) qs s1 = (Inr (), s2) \<and> kinv kend s2 (rev qs @ drop n ps)"
  by (rule kpages.take_and_give_back [OF assms])

text \<open>Dropping a reference to an allocated page frees the page exactly when it was the last
  one; otherwise only the count changes (\<open>kderef\<close>).\<close>

lemma kderef_frees_last_reference:
  assumes "kinv kend s ps" and "page_ok kend p" and "p \<notin> set ps"
  shows "\<exists>s'. kderef kend p s = (Inr (), s') \<and>
    kinv kend s' (if ref_count s (page_idx kend p) = 1 then p # ps else ps) \<and>
    ref_count s' = (ref_count s)(page_idx kend p := ref_count s (page_idx kend p) - 1)"
  by (rule kderef_keeps [OF assms])

end
