(* ===== verification/Xv7_Vm.thy ===== *)
theory Xv7_Vm
  imports Xv7_Kalloc
begin

text \<open>
  Virtual memory of \<open>xv7/kernel/vm.c\<close> over the page allocator.  Page-table pages and user
  pages are bytes of the memory \<open>kdata\<close>; a page-table entry is eight of them.  A kernel
  object that is copied to or from user memory is the list of its bytes.  \<open>kend\<close>, \<open>etext\<close> and
  \<open>trampoline\<close> are linker symbols, parameters.
\<close>

section \<open>Page-table entries\<close>

abbreviation (input) MAXVA :: u64 where "MAXVA \<equiv> 0x4000000000"
abbreviation (input) TRAMPOLINE :: u64 where "TRAMPOLINE \<equiv> MAXVA - PGSIZE"
abbreviation (input) TRAPFRAME :: u64 where "TRAPFRAME \<equiv> TRAMPOLINE - PGSIZE"

definition PTE_V :: u64 where "PTE_V = 1"
definition PTE_R :: u64 where "PTE_R = 2"
definition PTE_W :: u64 where "PTE_W = 4"
definition PTE_X :: u64 where "PTE_X = 8"
definition PTE_U :: u64 where "PTE_U = 16"

definition PA2PTE :: "u64 \<Rightarrow> u64" where "PA2PTE pa = push_bit 10 (drop_bit 12 pa)"
definition PTE2PA :: "u64 \<Rightarrow> u64" where "PTE2PA pte = push_bit 12 (drop_bit 10 pte)"
definition PTE_FLAGS :: "u64 \<Rightarrow> u64" where "PTE_FLAGS pte = pte AND 0x3FF"
definition PX :: "nat \<Rightarrow> u64 \<Rightarrow> u64" where "PX level va = drop_bit (12 + 9 * level) va AND 0x1FF"
definition PGROUNDDOWN :: "u64 \<Rightarrow> u64" where "PGROUNDDOWN a = a AND NOT 4095"

definition load64 :: "u64 \<Rightarrow> mem \<Rightarrow> u64" where
  "load64 p m = ucast (m p) OR push_bit 8 (ucast (m (p + 1))) OR push_bit 16 (ucast (m (p + 2))) OR
     push_bit 24 (ucast (m (p + 3))) OR push_bit 32 (ucast (m (p + 4))) OR push_bit 40 (ucast (m (p + 5))) OR
     push_bit 48 (ucast (m (p + 6))) OR push_bit 56 (ucast (m (p + 7)))"

fun store_bytes :: "u64 \<Rightarrow> u8 list \<Rightarrow> mem \<Rightarrow> mem" where
  "store_bytes p [] m = m"
| "store_bytes p (b # bs) m = store_bytes (p + 1) bs (m(p := b))"

definition store64 :: "u64 \<Rightarrow> u64 \<Rightarrow> mem \<Rightarrow> mem" where
  "store64 p v m = m(p := ucast v, p + 1 := ucast (drop_bit 8 v), p + 2 := ucast (drop_bit 16 v),
     p + 3 := ucast (drop_bit 24 v), p + 4 := ucast (drop_bit 32 v), p + 5 := ucast (drop_bit 40 v),
     p + 6 := ucast (drop_bit 48 v), p + 7 := ucast (drop_bit 56 v))"

definition load_bytes :: "u64 \<Rightarrow> nat \<Rightarrow> mem \<Rightarrow> u8 list" where
  "load_bytes p n m = map (\<lambda>i. m (p + of_nat i)) [0..<n]"

definition upd_mem :: "(mem \<Rightarrow> mem) \<Rightarrow> kmem \<Rightarrow> kmem" where
  "upd_mem f s = s\<lparr>kdata := f (kdata s)\<rparr>"

definition get_pte :: "u64 \<Rightarrow> kmem \<Rightarrow> u64" where
  "get_pte p s = load64 p (kdata s)"

definition set_pte :: "u64 \<Rightarrow> u64 \<Rightarrow> kmem \<Rightarrow> kmem" where
  "set_pte p v s = upd_mem (store64 p v) s"

definition valid_pte :: "u64 \<Rightarrow> bool" where
  "valid_pte pte \<longleftrightarrow> pte AND PTE_V \<noteq> 0"

section \<open>vm.c\<close>

text \<open>\<open>walk\<close> returns the address of the entry for \<open>va\<close>, 0 when there is none.\<close>

fun walk_from :: "u64 \<Rightarrow> nat \<Rightarrow> u64 \<Rightarrow> u64 \<Rightarrow> bool \<Rightarrow> kmem \<Rightarrow> u64 \<times> kmem" where
  "walk_from kend 0 pagetable va alloc s = (pagetable + 8 * PX 0 va, s)"
| "walk_from kend (Suc l) pagetable va alloc s =
     (let p = pagetable + 8 * PX (Suc l) va; pte = get_pte p s
      in if valid_pte pte then walk_from kend l (PTE2PA pte) va alloc s
         else if \<not> alloc then (0, s)
         else case kalloc kend s of (r, s) \<Rightarrow>
           if r = 0 then (0, s)
           else walk_from kend l r va alloc (set_pte p (PA2PTE r OR PTE_V) (upd_mem (memset r 0 4096) s)))"

definition walk :: "u64 \<Rightarrow> u64 \<Rightarrow> u64 \<Rightarrow> bool \<Rightarrow> kmem \<Rightarrow> (kfault, u64, kmem) outcome" where
  "walk kend pagetable va alloc s =
     (if MAXVA \<le> va then (Inl (Panic ''walk''), s)
      else case walk_from kend 2 pagetable va alloc s of (p, s) \<Rightarrow> (Inr p, s))"

text \<open>Without allocation \<open>walk\<close> does not change the memory; this is its result then.\<close>

definition walk_find :: "u64 \<Rightarrow> u64 \<Rightarrow> u64 \<Rightarrow> kmem \<Rightarrow> kfault + u64" where
  "walk_find kend pagetable va s = fst (walk kend pagetable va False s)"

definition walkaddr :: "u64 \<Rightarrow> u64 \<Rightarrow> u64 \<Rightarrow> kmem \<Rightarrow> u64" where
  "walkaddr kend pagetable va s =
     (if MAXVA \<le> va then 0
      else case walk_find kend pagetable va s of
        Inl _ \<Rightarrow> 0
      | Inr p \<Rightarrow>
          if p = 0 then 0
          else if \<not> valid_pte (get_pte p s) then 0
          else if get_pte p s AND PTE_U = 0 then 0
          else PTE2PA (get_pte p s))"

lemma walk_Inr_less: "walk kend pt va alloc s = (Inr p, s') \<Longrightarrow> va < MAXVA"
  by (auto simp: walk_def not_le [symmetric] split: if_splits)

lemma next_page_below:
  assumes "(Inr p, s') = walk kend pt a alloc s"
  shows "unat (0x4000001000 - a) < unat (0x4000002000 - a)"
proof -
  have "walk kend pt a alloc s = (Inr p, s')" using assms by simp
  then have "a < MAXVA" by (rule walk_Inr_less)
  then have a: "unat a < 0x4000000000" by (simp add: word_less_nat_alt)
  then have "unat (0x4000001000 - a) = 0x4000001000 - unat a" "unat (0x4000002000 - a) = 0x4000002000 - unat a"
    by (simp_all add: unat_sub word_le_nat_alt)
  then show ?thesis using a by simp
qed

text \<open>The loops stop at \<open>MAXVA\<close> at the latest, where \<open>walk\<close> panics.\<close>

function mappages_loop :: "u64 \<Rightarrow> u64 \<Rightarrow> u64 \<Rightarrow> u64 \<Rightarrow> u64 \<Rightarrow> u64 \<Rightarrow> kmem \<Rightarrow> (kfault, int, kmem) outcome" where
  "mappages_loop kend pagetable a final pa perm s =
     (case walk kend pagetable a True s of
        (Inl e, s) \<Rightarrow> (Inl e, s)
      | (Inr p, s) \<Rightarrow>
          if p = 0 then (Inr (-1), s)
          else if valid_pte (get_pte p s) then (Inl (Panic ''remap''), s)
          else
            let s = set_pte p (PA2PTE pa OR perm OR PTE_V) s
            in if a = final then (Inr 0, s)
               else mappages_loop kend pagetable (a + PGSIZE) final (pa + PGSIZE) perm s)"
  by pat_completeness auto

termination
  by (relation "measure (\<lambda>(kend, pt, a, final, pa, perm, s). unat (MAXVA + 8192 - a))")
    (auto dest: next_page_below)

definition mappages :: "u64 \<Rightarrow> u64 \<Rightarrow> u64 \<Rightarrow> u64 \<Rightarrow> u64 \<Rightarrow> u64 \<Rightarrow> kmem \<Rightarrow> (kfault, int, kmem) outcome" where
  "mappages kend pagetable va sz pa perm s =
     mappages_loop kend pagetable (PGROUNDDOWN va) (PGROUNDDOWN (va + sz - 1)) pa perm s"

definition kvmmap :: "u64 \<Rightarrow> u64 \<Rightarrow> u64 \<Rightarrow> u64 \<Rightarrow> u64 \<Rightarrow> u64 \<Rightarrow> kmem \<Rightarrow> (kfault, unit, kmem) outcome" where
  "kvmmap kend kernel_pagetable va pa sz perm s =
     bindS (mappages kend kernel_pagetable va sz pa perm s) (\<lambda>r s.
       if r \<noteq> 0 then (Inl (Panic ''kvmmap''), s) else (Inr (), s))"

definition kvmpa :: "u64 \<Rightarrow> u64 \<Rightarrow> u64 \<Rightarrow> kmem \<Rightarrow> kfault + u64" where
  "kvmpa kend kernel_pagetable va s =
     bindE (walk_find kend kernel_pagetable va s) (\<lambda>p.
       if p = 0 \<or> \<not> valid_pte (get_pte p s) then Inl (Panic ''kvmpa'')
       else Inr (PTE2PA (get_pte p s) + va mod PGSIZE))"

function uvmunmap_loop :: "u64 \<Rightarrow> u64 \<Rightarrow> u64 \<Rightarrow> u64 \<Rightarrow> bool \<Rightarrow> kmem \<Rightarrow> (kfault, unit, kmem) outcome" where
  "uvmunmap_loop kend pagetable a final do_free s =
     (case walk kend pagetable a False s of
        (Inl e, s) \<Rightarrow> (Inl e, s)
      | (Inr p, s) \<Rightarrow>
          if p = 0 then (Inl (Panic ''uvmunmap: walk''), s)
          else if \<not> valid_pte (get_pte p s) then (Inl (Panic ''uvmunmap: not mapped''), s)
          else if PTE_FLAGS (get_pte p s) = PTE_V then (Inl (Panic ''uvmunmap: not a leaf''), s)
          else
            bindS (if do_free then kfree kend (PTE2PA (get_pte p s)) s else (Inr (), s)) (\<lambda>_ s.
              let s = set_pte p 0 s
              in if a = final then (Inr (), s)
                 else uvmunmap_loop kend pagetable (a + PGSIZE) final do_free s))"
  by pat_completeness auto

termination
  by (relation "measure (\<lambda>(kend, pt, a, final, do_free, s). unat (MAXVA + 8192 - a))")
    (auto dest: next_page_below)

definition uvmunmap :: "u64 \<Rightarrow> u64 \<Rightarrow> u64 \<Rightarrow> u64 \<Rightarrow> bool \<Rightarrow> kmem \<Rightarrow> (kfault, unit, kmem) outcome" where
  "uvmunmap kend pagetable va sz do_free s =
     uvmunmap_loop kend pagetable (PGROUNDDOWN va) (PGROUNDDOWN (va + sz - 1)) do_free s"

definition uvmcreate :: "u64 \<Rightarrow> kmem \<Rightarrow> (kfault, u64, kmem) outcome" where
  "uvmcreate kend s =
     (case kalloc kend s of (r, s) \<Rightarrow>
        if r = 0 then (Inl (Panic ''uvmcreate: out of memory''), s)
        else (Inr r, upd_mem (memset r 0 4096) s))"

text \<open>\<open>uvminit\<close> and \<open>kvminit\<close> do not test the result of \<open>kalloc\<close>: page 0 is not mapped.\<close>

definition uvminit :: "u64 \<Rightarrow> u64 \<Rightarrow> u8 list \<Rightarrow> kmem \<Rightarrow> (kfault, unit, kmem) outcome" where
  "uvminit kend pagetable src s =
     (if 4096 \<le> length src then (Inl (Panic ''inituvm: more than a page''), s)
      else case kalloc kend s of (r, s) \<Rightarrow>
        if r = 0 then (Inl (Wild ''uvminit: kalloc''), s)
        else bindS (mappages kend pagetable 0 PGSIZE r (PTE_W OR PTE_R OR PTE_X OR PTE_U) (upd_mem (memset r 0 4096) s))
          (\<lambda>_ s. (Inr (), upd_mem (store_bytes r src) s)))"

definition uvmdealloc :: "u64 \<Rightarrow> u64 \<Rightarrow> u64 \<Rightarrow> u64 \<Rightarrow> kmem \<Rightarrow> (kfault, u64, kmem) outcome" where
  "uvmdealloc kend pagetable oldsz newsz s =
     (if oldsz \<le> newsz then (Inr oldsz, s)
      else
        let newup = PGROUNDUP newsz
        in if newup < PGROUNDUP oldsz
           then bindS (uvmunmap kend pagetable newup (oldsz - newup) True s) (\<lambda>_ s. (Inr newsz, s))
           else (Inr newsz, s))"

text \<open>Mapping a page succeeds below \<open>MAXVA\<close> only.\<close>

lemma unat_PGROUNDDOWN: "unat (PGROUNDDOWN a) = unat a div 4096 * 4096"
  unfolding PGROUNDDOWN_def by (rule unat_page_floor)

lemma page_floor_le: "PGROUNDDOWN a \<le> a" "unat a - 4095 \<le> unat (PGROUNDDOWN a)"
proof -
  show "PGROUNDDOWN a \<le> a" by (simp add: word_le_nat_alt unat_PGROUNDDOWN)
  have "unat a < unat a div 4096 * 4096 + 4096" using div_mult_mod_eq [of "unat a" 4096] mod_less_divisor [of 4096 "unat a"] by simp
  then show "unat a - 4095 \<le> unat (PGROUNDDOWN a)" by (simp add: unat_PGROUNDDOWN)
qed

lemma mappages_below:
  assumes "mappages kend pt va sz pa perm s = (Inr r, s')"
  shows "unat va < 0x4000000000 + 4095"
proof -
  have "PGROUNDDOWN va < MAXVA"
    using assms unfolding mappages_def by (subst (asm) mappages_loop.simps) (auto dest: walk_Inr_less split: prod.splits sum.splits)
  then show ?thesis using page_floor_le(2) [of va] by (simp add: word_less_nat_alt)
qed

lemma next_page_below_slack:
  assumes "unat (a :: u64) < 0x4000000000 + 4095"
  shows "unat (0x4000001000 - a) < unat (0x4000002000 - a)"
proof -
  have "unat (0x4000001000 - a) = 0x4000001000 - unat a" "unat (0x4000002000 - a) = 0x4000002000 - unat a"
    using assms by (simp_all add: unat_sub word_le_nat_alt)
  then show ?thesis using assms by simp
qed

function uvmalloc_loop :: "u64 \<Rightarrow> u64 \<Rightarrow> u64 \<Rightarrow> u64 \<Rightarrow> u64 \<Rightarrow> kmem \<Rightarrow> (kfault, u64, kmem) outcome" where
  "uvmalloc_loop kend pagetable oldsz newsz a s =
     (if a < newsz then
        case kalloc kend s of (r, s) \<Rightarrow>
          if r = 0 then bindS (uvmdealloc kend pagetable a oldsz s) (\<lambda>_ s. (Inr 0, s))
          else
            bindS (mappages kend pagetable a PGSIZE r (PTE_W OR PTE_X OR PTE_R OR PTE_U) (upd_mem (memset r 0 4096) s))
              (\<lambda>q s.
                if q \<noteq> 0 then
                  bindS (kfree kend r s) (\<lambda>_ s. bindS (uvmdealloc kend pagetable a oldsz s) (\<lambda>_ s. (Inr 0, s)))
                else uvmalloc_loop kend pagetable oldsz newsz (a + PGSIZE) s)
      else (Inr newsz, s))"
  by pat_completeness auto

termination
  by (relation "measure (\<lambda>(kend, pt, oldsz, newsz, a, s). unat (MAXVA + 8192 - a))")
    (auto intro!: next_page_below_slack dest: mappages_below [OF sym] mappages_below)

definition uvmalloc :: "u64 \<Rightarrow> u64 \<Rightarrow> u64 \<Rightarrow> u64 \<Rightarrow> kmem \<Rightarrow> (kfault, u64, kmem) outcome" where
  "uvmalloc kend pagetable oldsz newsz s =
     (if newsz < oldsz then (Inr oldsz, s)
      else let oldsz = PGROUNDUP oldsz in uvmalloc_loop kend pagetable oldsz newsz oldsz s)"

text \<open>
  \<open>freewalk\<close> follows entries without a bound on the depth.  The fuel is the number of levels,
  3 for a page table of \<open>walk\<close>; a deeper one would go on to overflow the kernel stack.
\<close>

fun each_index :: "(nat \<Rightarrow> 's \<Rightarrow> ('e, unit, 's) outcome) \<Rightarrow> nat list \<Rightarrow> 's \<Rightarrow> ('e, unit, 's) outcome" where
  "each_index f [] s = (Inr (), s)"
| "each_index f (i # is) s = bindS (f i s) (\<lambda>_ s. each_index f is s)"

fun freewalk :: "nat \<Rightarrow> u64 \<Rightarrow> u64 \<Rightarrow> kmem \<Rightarrow> (kfault, unit, kmem) outcome" where
  "freewalk 0 kend pagetable s = (Inl (Wild ''freewalk: stack''), s)"
| "freewalk (Suc f) kend pagetable s =
     bindS (each_index (\<lambda>i s.
       let p = pagetable + 8 * of_nat i; pte = get_pte p s
       in if valid_pte pte \<and> pte AND (PTE_R OR PTE_W OR PTE_X) = 0
          then bindS (freewalk f kend (PTE2PA pte) s) (\<lambda>_ s. (Inr (), set_pte p 0 s))
          else if valid_pte pte then (Inl (Panic ''freewalk: leaf''), s)
          else (Inr (), s)) [0..<512] s)
       (\<lambda>_ s. kfree kend pagetable s)"

definition uvmfree :: "u64 \<Rightarrow> u64 \<Rightarrow> u64 \<Rightarrow> kmem \<Rightarrow> (kfault, unit, kmem) outcome" where
  "uvmfree kend pagetable sz s =
     bindS (uvmunmap kend pagetable 0 sz True s) (\<lambda>_ s. freewalk 3 kend pagetable s)"

function uvmcopy_loop :: "u64 \<Rightarrow> u64 \<Rightarrow> u64 \<Rightarrow> u64 \<Rightarrow> u64 \<Rightarrow> kmem \<Rightarrow> (kfault, int, kmem) outcome" where
  "uvmcopy_loop kend old new sz i s =
     (if i < sz then
        case walk kend old i False s of
          (Inl e, s) \<Rightarrow> (Inl e, s)
        | (Inr p, s) \<Rightarrow>
            if p = 0 then (Inl (Panic ''uvmcopy: pte should exist''), s)
            else if \<not> valid_pte (get_pte p s) then (Inl (Panic ''uvmcopy: page not present''), s)
            else
              let pa = PTE2PA (get_pte p s); flags = PTE_FLAGS (get_pte p s)
              in case kalloc kend s of (r, s) \<Rightarrow>
                if r = 0 then bindS (uvmunmap kend new 0 i True s) (\<lambda>_ s. (Inr (-1), s))
                else
                  bindS (mappages kend new i PGSIZE r flags (upd_mem (memmove r pa 4096) s)) (\<lambda>q s.
                    if q \<noteq> 0 then
                      bindS (kfree kend r s) (\<lambda>_ s. bindS (uvmunmap kend new 0 i True s) (\<lambda>_ s. (Inr (-1), s)))
                    else uvmcopy_loop kend old new sz (i + PGSIZE) s)
      else (Inr 0, s))"
  by pat_completeness auto

termination
  by (relation "measure (\<lambda>(kend, old, new, sz, i, s). unat (MAXVA + 8192 - i))")
    (auto dest: next_page_below)

definition uvmcopy :: "u64 \<Rightarrow> u64 \<Rightarrow> u64 \<Rightarrow> u64 \<Rightarrow> kmem \<Rightarrow> (kfault, int, kmem) outcome" where
  "uvmcopy kend old new sz s = uvmcopy_loop kend old new sz 0 s"

definition uvmclear :: "u64 \<Rightarrow> u64 \<Rightarrow> u64 \<Rightarrow> kmem \<Rightarrow> (kfault, unit, kmem) outcome" where
  "uvmclear kend pagetable va s =
     bindS (walk kend pagetable va False s) (\<lambda>p s.
       if p = 0 then (Inl (Panic ''uvmclear''), s) else (Inr (), set_pte p (get_pte p s AND NOT PTE_U) s))"

section \<open>Copying to and from user memory\<close>

text \<open>How much of \<open>n\<close> bytes at \<open>va\<close> lies in the first page.\<close>

definition in_page :: "u64 \<Rightarrow> nat \<Rightarrow> nat" where
  "in_page va n = min (4096 - unat (va - PGROUNDDOWN va)) n"

lemma page_offset: "unat (va - PGROUNDDOWN va) = unat va mod 4096"
  using page_floor_le(1) [of va] by (simp add: unat_sub word_le_nat_alt unat_PGROUNDDOWN minus_div_mult_eq_mod)

lemma in_page_pos: "0 < n \<Longrightarrow> 0 < in_page va n"
  using mod_less_divisor [of 4096 "unat va"] by (simp add: in_page_def page_offset)

function copyout :: "u64 \<Rightarrow> u64 \<Rightarrow> u64 \<Rightarrow> u8 list \<Rightarrow> kmem \<Rightarrow> int \<times> kmem" where
  "copyout kend pagetable dstva src s =
     (if src = [] then (0, s)
      else
        let va0 = PGROUNDDOWN dstva; pa0 = walkaddr kend pagetable va0 s
        in if pa0 = 0 then (-1, s)
           else
             let n = in_page dstva (length src)
             in copyout kend pagetable (va0 + PGSIZE) (drop n src)
                  (upd_mem (store_bytes (pa0 + (dstva - va0)) (take n src)) s))"
  by pat_completeness auto

termination
proof (relation "measure (\<lambda>(kend, pt, va, src, s). length src)", goal_cases)
  case (2 kend pagetable dstva src s va0 pa0 n)
  then show ?case using in_page_pos [of "length src" dstva] by (cases src) simp_all
qed simp

text \<open>The bytes copied before a failure are there too: \<open>dst\<close> is overwritten by them.\<close>

function copyin :: "u64 \<Rightarrow> u64 \<Rightarrow> u64 \<Rightarrow> nat \<Rightarrow> kmem \<Rightarrow> int \<times> u8 list" where
  "copyin kend pagetable srcva len s =
     (if len = 0 then (0, [])
      else
        let va0 = PGROUNDDOWN srcva; pa0 = walkaddr kend pagetable va0 s
        in if pa0 = 0 then (-1, [])
           else
             let n = in_page srcva len
             in case copyin kend pagetable (va0 + PGSIZE) (len - n) s of
                  (r, bs) \<Rightarrow> (r, load_bytes (pa0 + (srcva - va0)) n (kdata s) @ bs))"
  by pat_completeness auto

termination
proof (relation "measure (\<lambda>(kend, pt, va, len, s). len)", goal_cases)
  case (2 kend pagetable srcva len s va0 pa0 n)
  then show ?case using in_page_pos [of len srcva] by simp
qed simp

text \<open>One page of \<open>copyinstr\<close>: whether a NUL was found, and the bytes up to it.\<close>

fun copy_str :: "u64 \<Rightarrow> nat \<Rightarrow> mem \<Rightarrow> bool \<times> u8 list" where
  "copy_str p 0 m = (False, [])"
| "copy_str p (Suc n) m =
     (if m p = 0 then (True, [0]) else case copy_str (p + 1) n m of (g, bs) \<Rightarrow> (g, m p # bs))"

function copyinstr :: "u64 \<Rightarrow> u64 \<Rightarrow> u64 \<Rightarrow> nat \<Rightarrow> kmem \<Rightarrow> int \<times> u8 list" where
  "copyinstr kend pagetable srcva len s =
     (if len = 0 then (-1, [])
      else
        let va0 = PGROUNDDOWN srcva; pa0 = walkaddr kend pagetable va0 s
        in if pa0 = 0 then (-1, [])
           else
             let n = in_page srcva len
             in case copy_str (pa0 + (srcva - va0)) n (kdata s) of (got_null, bs) \<Rightarrow>
                  if got_null then (0, bs)
                  else case copyinstr kend pagetable (va0 + PGSIZE) (len - n) s of (r, bs') \<Rightarrow> (r, bs @ bs'))"
  by pat_completeness auto

termination
proof (relation "measure (\<lambda>(kend, pt, va, len, s). len)", goal_cases)
  case (2 kend pagetable srcva len s va0 pa0 n)
  then show ?case using in_page_pos [of len srcva] by simp
qed simp

declare mappages_loop.simps [simp del] uvmunmap_loop.simps [simp del] uvmalloc_loop.simps [simp del]
  uvmcopy_loop.simps [simp del] copyout.simps [simp del] copyin.simps [simp del] copyinstr.simps [simp del]

text \<open>The kernel's page table.\<close>

definition kvminit_maps :: "u64 \<Rightarrow> u64 \<Rightarrow> (u64 \<times> u64 \<times> u64 \<times> u64) list" where
  "kvminit_maps etext trampoline =
    [(0x10000000, 0x10000000, PGSIZE, PTE_R OR PTE_W),
     (0x10001000, 0x10001000, PGSIZE, PTE_R OR PTE_W),
     (0x10002000, 0x10002000, PGSIZE, PTE_R OR PTE_W),
     (0x30000000, 0x30000000, 0x10000000, PTE_R OR PTE_W),
     (0x40000000, 0x40000000, 0x20000, PTE_R OR PTE_W),
     (0x2000000, 0x2000000, 0x10000, PTE_R OR PTE_W),
     (0x0c000000, 0x0c000000, 0x400000, PTE_R OR PTE_W),
     (0x80000000, 0x80000000, etext - 0x80000000, PTE_R OR PTE_X),
     (etext, etext, PHYSTOP - etext, PTE_R OR PTE_W),
     (TRAMPOLINE, trampoline, PGSIZE, PTE_R OR PTE_X)]"

fun kvmmap_all :: "u64 \<Rightarrow> u64 \<Rightarrow> (u64 \<times> u64 \<times> u64 \<times> u64) list \<Rightarrow> kmem \<Rightarrow> (kfault, unit, kmem) outcome" where
  "kvmmap_all kend pt [] s = (Inr (), s)"
| "kvmmap_all kend pt ((va, pa, sz, perm) # ms) s =
     bindS (kvmmap kend pt va pa sz perm s) (\<lambda>_ s. kvmmap_all kend pt ms s)"

definition kvminit :: "u64 \<Rightarrow> u64 \<Rightarrow> u64 \<Rightarrow> kmem \<Rightarrow> (kfault, u64, kmem) outcome" where
  "kvminit kend etext trampoline s =
     (case kalloc kend s of (r, s) \<Rightarrow>
        if r = 0 then (Inl (Wild ''kvminit: kalloc''), s)
        else bindS (kvmmap_all kend r (kvminit_maps etext trampoline) (upd_mem (memset r 0 4096) s))
          (\<lambda>_ s. (Inr r, s)))"

definition MAKE_SATP :: "u64 \<Rightarrow> u64" where
  "MAKE_SATP pagetable = push_bit 60 8 OR drop_bit 12 pagetable"

end
