(* ===== verification/Xv7_Lock.thy ===== *)
theory Xv7_Lock
  imports Xv7_List
begin

text \<open>
  Locks of \<open>xv7/kernel/spinlock.c\<close> and \<open>sleeplock.c\<close>.  Several CPUs run concurrently:
  \<open>acquire\<close> and \<open>release\<close> are split at their accesses to the lock word, which other CPUs may
  come between, and \<open>lock_step\<close> is any interleaving of these pieces.  A CPU and a lock are
  named by their indices.  Memory is sequentially consistent, as the fences of the source
  ask for.
\<close>

section \<open>spinlock.c\<close>

record cpu =
  noff :: int
  intena :: bool
  sie :: bool

record spinlock =
  locked :: bool
  lk_name :: string
  lk_cpu :: "nat option"
  lk_n :: u32
  lk_nts :: u32

record ksync =
  cpus :: "nat \<Rightarrow> cpu"
  spins :: "nat \<Rightarrow> spinlock"
  locks :: "nat list"

definition upd_cpu :: "nat \<Rightarrow> (cpu \<Rightarrow> cpu) \<Rightarrow> ksync \<Rightarrow> ksync" where
  "upd_cpu c f s = s\<lparr>cpus := (cpus s)(c := f (cpus s c))\<rparr>"

definition upd_spin :: "nat \<Rightarrow> (spinlock \<Rightarrow> spinlock) \<Rightarrow> ksync \<Rightarrow> ksync" where
  "upd_spin l f s = s\<lparr>spins := (spins s)(l := f (spins s l))\<rparr>"

text \<open>The registry of locks is the list \<open>locks\<close>, whose length is \<open>nlock\<close>.\<close>

definition NLOCK :: nat where "NLOCK = 1000"

definition initlock :: "nat \<Rightarrow> string \<Rightarrow> ksync \<Rightarrow> (kfault, unit, ksync) outcome" where
  "initlock l nm s =
     (let s = upd_spin l (\<lambda>_. \<lparr>locked = False, lk_name = nm, lk_cpu = None, lk_n = 0, lk_nts = 0\<rparr>) s
      in if NLOCK \<le> length (locks s) then (Inl (Panic ''initlock''), s)
         else (Inr (), s\<lparr>locks := locks s @ [l]\<rparr>))"

definition push_off :: "nat \<Rightarrow> ksync \<Rightarrow> ksync" where
  "push_off c s =
     (let old = sie (cpus s c);
          s = (if old then upd_cpu c (\<lambda>x. x\<lparr>sie := False\<rparr>) s else s);
          s = (if noff (cpus s c) = 0 then upd_cpu c (\<lambda>x. x\<lparr>intena := old\<rparr>) s else s)
      in upd_cpu c (\<lambda>x. x\<lparr>noff := noff x + 1\<rparr>) s)"

definition pop_off :: "nat \<Rightarrow> ksync \<Rightarrow> (kfault, unit, ksync) outcome" where
  "pop_off c s =
     (if sie (cpus s c) then (Inl (Panic ''pop_off - interruptible''), s)
      else if noff (cpus s c) < 1 then (Inl (Panic ''pop_off''), s)
      else
        let s = upd_cpu c (\<lambda>x. x\<lparr>noff := noff x - 1\<rparr>) s
        in (Inr (), if noff (cpus s c) = 0 \<and> intena (cpus s c) then upd_cpu c (\<lambda>x. x\<lparr>sie := True\<rparr>) s else s))"

definition holding :: "nat \<Rightarrow> nat \<Rightarrow> ksync \<Rightarrow> bool" where
  "holding c l s \<longleftrightarrow> locked (spins s l) \<and> lk_cpu (spins s l) = Some c"

text \<open>\<open>acquire\<close>: up to the loop, one turn of the loop (the atomic swap), and the end.\<close>

definition acquire_enter :: "nat \<Rightarrow> nat \<Rightarrow> ksync \<Rightarrow> (kfault, unit, ksync) outcome" where
  "acquire_enter c l s =
     (let s = push_off c s
      in if holding c l s then (Inl (Panic ''acquire''), s)
         else (Inr (), upd_spin l (\<lambda>x. x\<lparr>lk_n := lk_n x + 1\<rparr>) s))"

definition test_and_set :: "nat \<Rightarrow> ksync \<Rightarrow> bool \<times> ksync" where
  "test_and_set l s = (locked (spins s l), upd_spin l (\<lambda>x. x\<lparr>locked := True\<rparr>) s)"

definition acquire_spin :: "nat \<Rightarrow> ksync \<Rightarrow> bool \<times> ksync" where
  "acquire_spin l s =
     (case test_and_set l s of (old, s) \<Rightarrow>
        (old, if old then upd_spin l (\<lambda>x. x\<lparr>lk_nts := lk_nts x + 1\<rparr>) s else s))"

definition acquire_done :: "nat \<Rightarrow> nat \<Rightarrow> ksync \<Rightarrow> ksync" where
  "acquire_done c l s = upd_spin l (\<lambda>x. x\<lparr>lk_cpu := Some c\<rparr>) s"

text \<open>\<open>release\<close>: up to the fence, the store, and \<open>pop_off\<close>.\<close>

definition release_enter :: "nat \<Rightarrow> nat \<Rightarrow> ksync \<Rightarrow> (kfault, unit, ksync) outcome" where
  "release_enter c l s =
     (if \<not> holding c l s then (Inl (Panic ''release''), s)
      else (Inr (), upd_spin l (\<lambda>x. x\<lparr>lk_cpu := None\<rparr>) s))"

definition release_store :: "nat \<Rightarrow> ksync \<Rightarrow> ksync" where
  "release_store l s = upd_spin l (\<lambda>x. x\<lparr>locked := False\<rparr>) s"

text \<open>
  The statistics of \<open>sys_ntas\<close>: with argument 0 it clears the counters; otherwise it prints
  the locks of the allocator and the buffer cache and five contended locks, and returns the
  sum of the former's counters.  What is printed is the list of lines that \<open>print_lock\<close>
  makes; \<open>argint\<close>'s result is the argument.
\<close>

definition print_lock :: "spinlock \<Rightarrow> (string \<times> u32 \<times> u32) list" where
  "print_lock lk = (if 0 < lk_n lk then [(lk_name lk, lk_nts lk, lk_n lk)] else [])"

definition ntas_reset :: "nat list \<Rightarrow> ksync \<Rightarrow> ksync" where
  "ntas_reset ls s = fold (\<lambda>l. upd_spin l (\<lambda>x. x\<lparr>lk_nts := 0, lk_n := 0\<rparr>)) ls s"

definition ntas_counted :: "ksync \<Rightarrow> spinlock list" where
  "ntas_counted s = filter (\<lambda>k. take 6 (lk_name k) = ''bcache'' \<or> take 4 (lk_name k) = ''kmem'')
     (map (spins s) (locks s))"

definition ntas_top :: "u32 \<Rightarrow> ksync \<Rightarrow> nat" where
  "ntas_top lim s = fold (\<lambda>i top.
     if lk_nts (spins s (locks s ! top)) < lk_nts (spins s (locks s ! i)) \<and> lk_nts (spins s (locks s ! i)) < lim
     then i else top) [0..<length (locks s)] 0"

primrec ntas_tops :: "nat \<Rightarrow> u32 \<Rightarrow> ksync \<Rightarrow> (string \<times> u32 \<times> u32) list" where
  "ntas_tops 0 lim s = []"
| "ntas_tops (Suc t) lim s =
     (let k = spins s (locks s ! ntas_top lim s) in print_lock k @ ntas_tops t (lk_nts k) s)"

definition sys_ntas :: "u32 option \<Rightarrow> ksync \<Rightarrow> (kfault, u32 \<times> (string \<times> u32 \<times> u32) list, ksync) outcome" where
  "sys_ntas arg s =
     (case arg of
        None \<Rightarrow> (Inr (-1, []), s)
      | Some z \<Rightarrow>
          if z = 0 then (Inr (0, []), ntas_reset (locks s) s)
          else if locks s = [] then (Inl (Wild ''locks[0]''), s)
          else (Inr (sum_list (map lk_nts (ntas_counted s)),
                     concat (map print_lock (ntas_counted s)) @ ntas_tops 5 100000000 s), s))"

section \<open>sleeplock.c\<close>

text \<open>
  Each operation runs under the inner spinlock and is one step; a caller that would sleep
  gets \<open>Asleep\<close>.
\<close>

record sleeplock =
  sl_locked :: bool
  sl_pid :: int

definition initsleeplock :: sleeplock where
  "initsleeplock = \<lparr>sl_locked = False, sl_pid = 0\<rparr>"

definition acquiresleep :: "int \<Rightarrow> sleeplock \<Rightarrow> (kfault, unit, sleeplock) outcome" where
  "acquiresleep pid lk =
     (if sl_locked lk then (Inl (Asleep ''sleep lock''), lk)
      else (Inr (), lk\<lparr>sl_locked := True, sl_pid := pid\<rparr>))"

definition releasesleep :: "sleeplock \<Rightarrow> sleeplock" where
  "releasesleep lk = lk\<lparr>sl_locked := False, sl_pid := 0\<rparr>"

definition holdingsleep :: "int \<Rightarrow> sleeplock \<Rightarrow> bool" where
  "holdingsleep pid lk \<longleftrightarrow> sl_locked lk \<and> sl_pid lk = pid"

section \<open>Interleavings\<close>

text \<open>
  Where CPU \<open>c\<close> is in its use of lock \<open>l\<close>: outside, in the loop of \<open>acquire\<close>, past the swap,
  inside, past the test of \<open>release\<close>, past its store.  A CPU may use many locks at once, and
  code that holds no lock may switch interrupts on and off.
\<close>

datatype stage = Out | Spin | Got | In | Leaving | Freed

definition owner :: "stage \<Rightarrow> bool" where
  "owner g \<longleftrightarrow> g = Got \<or> g = In \<or> g = Leaving"

type_synonym stages = "nat \<Rightarrow> nat \<Rightarrow> stage"

definition to_stage :: "nat \<Rightarrow> nat \<Rightarrow> stage \<Rightarrow> stages \<Rightarrow> stages" where
  "to_stage c l g st = st(c := (st c)(l := g))"

inductive lock_step :: "ksync \<times> stages \<Rightarrow> ksync \<times> stages \<Rightarrow> bool" where
  lk_enter: "st c l = Out \<Longrightarrow> acquire_enter c l s = (Inr (), t) \<Longrightarrow> lock_step (s, st) (t, to_stage c l Spin st)"
| lk_spin: "st c l = Spin \<Longrightarrow> acquire_spin l s = (True, t) \<Longrightarrow> lock_step (s, st) (t, st)"
| lk_got: "st c l = Spin \<Longrightarrow> acquire_spin l s = (False, t) \<Longrightarrow> lock_step (s, st) (t, to_stage c l Got st)"
| lk_in: "st c l = Got \<Longrightarrow> lock_step (s, st) (acquire_done c l s, to_stage c l In st)"
| lk_leave: "st c l = In \<Longrightarrow> release_enter c l s = (Inr (), t) \<Longrightarrow> lock_step (s, st) (t, to_stage c l Leaving st)"
| lk_store: "st c l = Leaving \<Longrightarrow> lock_step (s, st) (release_store l s, to_stage c l Freed st)"
| lk_pop: "st c l = Freed \<Longrightarrow> pop_off c s = (Inr (), t) \<Longrightarrow> lock_step (s, st) (t, to_stage c l Out st)"
| lk_intr: "noff (cpus s c) = 0 \<Longrightarrow> lock_step (s, st) (upd_cpu c (\<lambda>x. x\<lparr>sie := b\<rparr>) s, st)"

inductive_cases lock_stepE: "lock_step p q"

text \<open>
  The invariant: the lock word is set exactly when some CPU owns the lock, and then one;
  the recorded CPU is the one inside; interrupts are counted by the locks in use.
\<close>

definition lock_inv :: "ksync \<times> stages \<Rightarrow> bool" where
  "lock_inv p = (case p of (s, st) \<Rightarrow>
     (\<forall>l. locked (spins s l) \<longleftrightarrow> (\<exists>c. owner (st c l))) \<and>
     (\<forall>l c c'. owner (st c l) \<longrightarrow> owner (st c' l) \<longrightarrow> c = c') \<and>
     (\<forall>l c. lk_cpu (spins s l) = Some c \<longleftrightarrow> st c l = In) \<and>
     (\<forall>c. finite {l. st c l \<noteq> Out} \<and> noff (cpus s c) = int (card {l. st c l \<noteq> Out})) \<and>
     (\<forall>c. sie (cpus s c) \<longrightarrow> noff (cpus s c) = 0))"

lemma sync_simps [simp]:
  "cpus (upd_cpu c f s) = (cpus s)(c := f (cpus s c))" "spins (upd_cpu c f s) = spins s"
  "spins (upd_spin l g s) = (spins s)(l := g (spins s l))" "cpus (upd_spin l g s) = cpus s"
  by (simp_all add: upd_cpu_def upd_spin_def)

lemma push_off_simps:
  "spins (push_off c s) = spins s" "noff (cpus (push_off c s) c') = noff (cpus s c') + (if c' = c then 1 else 0)"
  "sie (cpus (push_off c s) c') = (c' \<noteq> c \<and> sie (cpus s c'))"
  by (auto simp: push_off_def Let_def)

lemma to_stage_simps: "to_stage c l g st c' l' = (if c' = c \<and> l' = l then g else st c' l')"
  by (simp add: to_stage_def)

lemma in_use_upd:
  "{l'. to_stage c l g st c' l' \<noteq> Out} =
     (if c' = c then (if g = Out then {l'. st c l' \<noteq> Out} - {l} else insert l {l'. st c l' \<noteq> Out}) else {l'. st c' l' \<noteq> Out})"
  by (auto simp: to_stage_simps)

lemmas lock_op_defs = acquire_enter_def acquire_spin_def test_and_set_def acquire_done_def release_enter_def
  release_store_def holding_def Let_def

lemma owner_simps [simp]: "owner Got" "owner In" "owner Leaving" "\<not> owner Out" "\<not> owner Spin" "\<not> owner Freed"
  by (simp_all add: owner_def)


lemma lock_invD:
  assumes "lock_inv (s, st)"
  shows "locked (spins s l) \<longleftrightarrow> (\<exists>c. owner (st c l))" "owner (st c l) \<Longrightarrow> owner (st c' l) \<Longrightarrow> c = c'"
    "lk_cpu (spins s l) = Some c \<longleftrightarrow> st c l = In" "finite {l. st c l \<noteq> Out}"
    "noff (cpus s c) = int (card {l. st c l \<noteq> Out})" "sie (cpus s c) \<Longrightarrow> noff (cpus s c) = 0"
  using assms by (auto simp: lock_inv_def)

lemma lock_invI:
  assumes "\<And>l. locked (spins s l) \<longleftrightarrow> (\<exists>c. owner (st c l))"
    and "\<And>l c c'. owner (st c l) \<Longrightarrow> owner (st c' l) \<Longrightarrow> c = c'"
    and "\<And>l c. lk_cpu (spins s l) = Some c \<longleftrightarrow> st c l = In"
    and "\<And>c. finite {l. st c l \<noteq> Out}" "\<And>c. noff (cpus s c) = int (card {l. st c l \<noteq> Out})"
    and "\<And>c. sie (cpus s c) \<Longrightarrow> noff (cpus s c) = 0"
  shows "lock_inv (s, st)"
  using assms by (simp add: lock_inv_def)

text \<open>A step that only moves CPU \<open>c\<close> between stages in use of lock \<open>l\<close>.\<close>

lemma in_use_same:
  assumes "st c l \<noteq> Out" and "g \<noteq> Out"
  shows "{l'. to_stage c l g st c' l' \<noteq> Out} = {l'. st c' l' \<noteq> Out}"
  using assms by (auto simp: in_use_upd)

lemma lock_inv_move:
  assumes inv: "lock_inv (s, st)" and g: "st c l \<noteq> Out" "g \<noteq> Out" and cpus: "cpus t = cpus s"
    and others: "\<And>l'. l' \<noteq> l \<Longrightarrow> spins t l' = spins s l'"
    and lk: "locked (spins t l) \<longleftrightarrow> (\<exists>c'. owner (to_stage c l g st c' l))"
    and cp: "\<And>c'. lk_cpu (spins t l) = Some c' \<longleftrightarrow> to_stage c l g st c' l = In"
    and uq: "owner g \<Longrightarrow> \<not> owner (st c l) \<Longrightarrow> \<not> locked (spins s l)"
  shows "lock_inv (t, to_stage c l g st)"
proof (rule lock_invI)
  note d = lock_invD [OF inv]
  fix l' c' c''
  show "locked (spins t l') \<longleftrightarrow> (\<exists>x. owner (to_stage c l g st x l'))"
    using d(1) [of l'] others [of l'] lk by (cases "l' = l") (auto simp: to_stage_simps)
  show "lk_cpu (spins t l') = Some c' \<longleftrightarrow> to_stage c l g st c' l' = In"
    using d(3) [of l' c'] others [of l'] cp by (cases "l' = l") (auto simp: to_stage_simps)
  show "finite {l'. to_stage c l g st c' l' \<noteq> Out}" "noff (cpus t c') = int (card {l'. to_stage c l g st c' l' \<noteq> Out})"
    unfolding in_use_same [of st c l g, OF g] cpus by (rule d(4), rule d(5))
  show "sie (cpus t c') \<Longrightarrow> noff (cpus t c') = 0" unfolding cpus by (rule d(6))
  assume o: "owner (to_stage c l g st c' l')" "owner (to_stage c l g st c'' l')"
  show "c' = c''"
  proof (cases "l' = l")
    case False
    then show ?thesis using o d(2) by (auto simp: to_stage_simps)
  next
    case True
    have "owner (st x l) \<Longrightarrow> owner g \<Longrightarrow> x = c" for x
      using uq d(1) [of l] d(2) [of x l c] by blast
    then show ?thesis using o True d(2) [of c' l c''] by (auto simp: to_stage_simps split: if_splits)
  qed
qed

text \<open>A step into or out of the use of a lock, which changes the nesting count.\<close>

lemma lock_inv_nest:
  assumes inv: "lock_inv (s, st)" and g: "\<not> owner (st c l)" "\<not> owner g"
    and spins: "\<And>l'. locked (spins t l') = locked (spins s l')" "\<And>l'. lk_cpu (spins t l') = lk_cpu (spins s l')"
    and cpus: "\<And>c'. c' \<noteq> c \<Longrightarrow> cpus t c' = cpus s c'"
    and n: "noff (cpus t c) = int (card {l'. to_stage c l g st c l' \<noteq> Out})"
    and i: "sie (cpus t c) \<Longrightarrow> noff (cpus t c) = 0"
  shows "lock_inv (t, to_stage c l g st)"
proof (rule lock_invI)
  note d = lock_invD [OF inv]
  have ow: "owner (to_stage c l g st c' l') = owner (st c' l')" "to_stage c l g st c' l' = In \<longleftrightarrow> st c' l' = In" for c' l'
    using g by (auto simp: to_stage_simps)
  fix l' c' c''
  show "locked (spins t l') \<longleftrightarrow> (\<exists>x. owner (to_stage c l g st x l'))" unfolding ow spins by (rule d(1))
  show "lk_cpu (spins t l') = Some c' \<longleftrightarrow> to_stage c l g st c' l' = In" unfolding ow spins by (rule d(3))
  show "owner (to_stage c l g st c' l') \<Longrightarrow> owner (to_stage c l g st c'' l') \<Longrightarrow> c' = c''" unfolding ow by (rule d(2))
  show "finite {l'. to_stage c l g st c' l' \<noteq> Out}" using d(4) by (simp add: in_use_upd)
  show "noff (cpus t c') = int (card {l'. to_stage c l g st c' l' \<noteq> Out})"
    using n d(5) [of c'] cpus by (cases "c' = c") (simp_all add: in_use_upd)
  show "sie (cpus t c') \<Longrightarrow> noff (cpus t c') = 0"
    using i d(6) [of c'] cpus by (cases "c' = c") simp_all
qed

lemma lock_inv_step:
  assumes "lock_step p q" and "lock_inv p"
  shows "lock_inv q"
  using assms(1)
proof cases
  case (lk_enter st c l s t)
  then have inv: "lock_inv (s, st)" and t: "t = upd_spin l (\<lambda>x. x\<lparr>lk_n := lk_n x + 1\<rparr>) (push_off c s)"
    using assms(2) by (auto simp: acquire_enter_def Let_def split: if_splits)
  note d = lock_invD [OF inv]
  have "{l'. to_stage c l Spin st c l' \<noteq> Out} = insert l {l'. st c l' \<noteq> Out}" by (simp add: in_use_upd)
  then have "int (card {l'. to_stage c l Spin st c l' \<noteq> Out}) = noff (cpus s c) + 1"
    using d(4,5) [of c] lk_enter(3) by simp
  moreover have "cpus (push_off c s) c' = cpus s c'" if "c' \<noteq> c" for c' using that by (simp add: push_off_def Let_def)
  ultimately show ?thesis unfolding lk_enter(2)
    by (intro lock_inv_nest [OF inv]) (use lk_enter(3) in \<open>simp_all add: t push_off_simps\<close>)
next
  case (lk_spin st c l s t)
  then have inv: "lock_inv (s, st)" and t: "locked (spins s l)" "cpus t = cpus s"
    "\<And>l'. locked (spins t l') = locked (spins s l')" "\<And>l'. lk_cpu (spins t l') = lk_cpu (spins s l')"
    using assms(2) by (auto simp: acquire_spin_def test_and_set_def split: if_splits)
  note d = lock_invD [OF inv]
  show ?thesis unfolding lk_spin(2)
    by (rule lock_invI) (unfold t(2-4), rule d(1), (rule d, assumption+)+, rule d(3), rule d(4), rule d(5), rule d(6))
next
  case (lk_got st c l s t)
  then have inv: "lock_inv (s, st)" and t: "\<not> locked (spins s l)" "t = upd_spin l (\<lambda>x. x\<lparr>locked := True\<rparr>) s"
    using assms(2) by (auto simp: acquire_spin_def test_and_set_def)
  note d = lock_invD [OF inv]
  have "lk_cpu (spins s l) = Some c' \<longleftrightarrow> to_stage c l Got st c' l = In" for c'
    using d(3) [of l c'] lk_got(3) by (auto simp: to_stage_simps)
  then show ?thesis unfolding lk_got(2)
    by (intro lock_inv_move [OF inv]) (use lk_got(3) t(1) in \<open>auto simp: t(2) to_stage_simps intro: exI [of _ c]\<close>)
next
  case (lk_in st c l s)
  then have inv: "lock_inv (s, st)" using assms(2) by simp
  note d = lock_invD [OF inv]
  have "st c' l \<noteq> In" if "c' \<noteq> c" for c' using d(2) [of c l c'] lk_in(3) that by auto
  moreover have "locked (spins s l)" using d(1) [of l] lk_in(3) by (metis owner_simps(1))
  ultimately show ?thesis unfolding lk_in(2)
    by (intro lock_inv_move [OF inv]) (use lk_in(3) in \<open>auto simp: acquire_done_def to_stage_simps intro: exI [of _ c]\<close>)
next
  case (lk_leave st c l s t)
  then have inv: "lock_inv (s, st)" and t: "t = upd_spin l (\<lambda>x. x\<lparr>lk_cpu := None\<rparr>) s"
    using assms(2) by (auto simp: release_enter_def split: if_splits)
  note d = lock_invD [OF inv]
  have "st c' l \<noteq> In" if "c' \<noteq> c" for c' using d(2) [of c l c'] lk_leave(3) that by auto
  moreover have "locked (spins s l)" using d(1) [of l] lk_leave(3) by (metis owner_simps(2))
  ultimately show ?thesis unfolding lk_leave(2)
    by (intro lock_inv_move [OF inv]) (use lk_leave(3) in \<open>auto simp: t to_stage_simps intro: exI [of _ c]\<close>)
next
  case (lk_store st c l s)
  then have inv: "lock_inv (s, st)" using assms(2) by simp
  note d = lock_invD [OF inv]
  have no: "\<not> owner (st c' l)" if "c' \<noteq> c" for c' using d(2) [of c l c'] lk_store(3) that by auto
  have "lk_cpu (spins s l) = Some c' \<longleftrightarrow> to_stage c l Freed st c' l = In" for c'
    using d(3) [of l c'] lk_store(3) by (auto simp: to_stage_simps)
  then show ?thesis unfolding lk_store(2)
    by (intro lock_inv_move [OF inv]) (use lk_store(3) no in \<open>auto simp: release_store_def to_stage_simps\<close>)
next
  case (lk_pop st c l s t)
  then have inv: "lock_inv (s, st)" using assms(2) by simp
  note d = lock_invD [OF inv]
  have t: "spins t = spins s" "noff (cpus t c) = noff (cpus s c) - 1" "sie (cpus t c) \<Longrightarrow> noff (cpus t c) = 0"
    "\<And>c'. c' \<noteq> c \<Longrightarrow> cpus t c' = cpus s c'"
    using lk_pop(4) by (auto simp: pop_off_def Let_def split: if_splits)
  have "{l'. to_stage c l Out st c l' \<noteq> Out} = {l'. st c l' \<noteq> Out} - {l}" by (simp add: in_use_upd)
  moreover have l: "l \<in> {l'. st c l' \<noteq> Out}" using lk_pop(3) by simp
  then have "0 < card {l'. st c l' \<noteq> Out}" using d(4) [of c] card_gt_0_iff by blast
  ultimately have "int (card {l'. to_stage c l Out st c l' \<noteq> Out}) = noff (cpus s c) - 1"
    using d(4,5) [of c] l by (simp add: card_Diff_singleton of_nat_diff)
  then show ?thesis unfolding lk_pop(2)
    by (intro lock_inv_nest [OF inv]) (use lk_pop(3) t in simp_all)
next
  case (lk_intr s c st b)
  then show ?thesis using assms(2) by (auto simp: lock_inv_def)
qed

definition lock_boot :: ksync where
  "lock_boot = \<lparr>cpus = \<lambda>_. \<lparr>noff = 0, intena = False, sie = False\<rparr>,
     spins = \<lambda>_. \<lparr>locked = False, lk_name = [], lk_cpu = None, lk_n = 0, lk_nts = 0\<rparr>, locks = []\<rparr>"

lemma lock_boot_inv: "lock_inv (lock_boot, \<lambda>_ _. Out)"
  by (simp add: lock_inv_def lock_boot_def)

text \<open>C19: mutual exclusion.  In every interleaving of the CPUs' accesses at most one CPU is
  between winning a lock's atomic swap and clearing its word, interrupts are off on every
  CPU that is anywhere in \<open>acquire\<close>, the critical section or \<open>release\<close>, and none of the
  panics of \<open>acquire\<close> (by a CPU outside the lock), \<open>release\<close> and \<open>pop_off\<close> can happen.\<close>

theorem spinlock_mutual_exclusion:
  assumes "lock_step\<^sup>*\<^sup>* (lock_boot, \<lambda>_ _. Out) (s, st)"
  shows "(owner (st c l) \<longrightarrow> owner (st c' l) \<longrightarrow> c = c') \<and> (st c l \<noteq> Out \<longrightarrow> \<not> sie (cpus s c)) \<and>
    (st c l = Out \<longrightarrow> fst (acquire_enter c l s) = Inr ()) \<and> (st c l = In \<longrightarrow> fst (release_enter c l s) = Inr ()) \<and>
    (st c l = Freed \<longrightarrow> fst (pop_off c s) = Inr ())"
proof -
  have inv: "lock_inv (s, st)"
    using assms lock_boot_inv by (induction rule: rtranclp_induct) (auto intro: lock_inv_step)
  note d = lock_invD [OF inv]
  have n: "1 \<le> noff (cpus s c)" if "st c l \<noteq> Out"
  proof -
    have "card {l'. st c l' \<noteq> Out} \<noteq> 0" using that d(4) [of c] by auto
    then show ?thesis using d(5) [of c] by simp
  qed
  have "\<not> sie (cpus s c)" if "st c l \<noteq> Out" using n [OF that] d(6) [of c] by auto
  moreover have "st c l = In \<Longrightarrow> locked (spins s l)" using d(1) [of l] by (metis owner_simps(2))
  ultimately show ?thesis
    using d(2) [of c l c'] d(3) [of l c] n
    by (auto simp: acquire_enter_def release_enter_def pop_off_def holding_def push_off_simps Let_def)
qed

theorem spinlock_mutual_exclusion_witness:
  "\<exists>s. lock_step\<^sup>*\<^sup>* (lock_boot, \<lambda>_ _. Out) (s, to_stage 1 7 Got (to_stage 1 7 Spin (\<lambda>_ _. Out))) \<and> \<not> sie (cpus s 1)"
proof -
  let ?b = "lock_boot" and ?o = "\<lambda>_ _. Out"
  obtain t where t: "acquire_enter 1 7 ?b = (Inr (), t)" "\<not> locked (spins t 7)"
    by (auto simp: acquire_enter_def Let_def holding_def push_off_simps lock_boot_def)
  have a: "lock_step (?b, ?o) (t, to_stage 1 7 Spin ?o)" by (rule lk_enter [OF _ t(1)]) simp
  obtain u where u: "acquire_spin 7 t = (False, u)" using t(2) by (auto simp: acquire_spin_def test_and_set_def)
  have "lock_step (t, to_stage 1 7 Spin ?o) (u, to_stage 1 7 Got (to_stage 1 7 Spin ?o))"
    by (rule lk_got [OF _ u]) (simp add: to_stage_simps)
  with a have r: "lock_step\<^sup>*\<^sup>* (?b, ?o) (u, to_stage 1 7 Got (to_stage 1 7 Spin ?o))" by auto
  from spinlock_mutual_exclusion [OF r, of 1 7] r show ?thesis by (auto simp: to_stage_simps)
qed

end
