(* ===== verification/Xv7_Proc.thy ===== *)
theory Xv7_Proc
  imports Xv7_Lock
begin

text \<open>
  The process table of \<open>xv7/kernel/proc.c\<close>.  A process is named by its index in the table.
  What runs under a process's lock is one step.  \<open>exit\<close> is split where it holds no lock, and
  \<open>wait\<close>, which keeps its lock from the scan to the end of \<open>sleep\<close>, is one step up to its
  return or sleep.
\<close>

section \<open>proc.h\<close>

datatype procstate = UNUSED | SLEEPING | RUNNABLE | RUNNING | ZOMBIE

text \<open>A channel is the address of an object: of a process, for \<open>wait\<close>, or of another one.\<close>

datatype chan = ProcChan nat | ObjChan u64

record map_info =
  vstart :: u64
  vend :: u64
  m_length :: int
  m_prot :: u32
  m_flags :: u32
  m_offset :: int
  m_used :: bool
  m_file :: nat

record proc =
  pstate :: procstate
  parent :: "nat option"
  pchan :: "chan option"
  killed :: bool
  xstate :: int
  pid :: int
  kstack :: u64
  psz :: u64
  pagetable :: u64
  ptf :: u64
  ofile :: "nat \<Rightarrow> nat option"
  pcwd :: "nat option"
  pname :: "u8 list"
  minfo :: "nat \<Rightarrow> map_info"

definition NPROC :: nat where "NPROC = 10"

record ptable =
  procs :: "nat \<Rightarrow> proc"
  initproc :: nat
  nextpid :: int
  cpu_proc :: "nat \<Rightarrow> nat option"

definition upd_proc :: "nat \<Rightarrow> (proc \<Rightarrow> proc) \<Rightarrow> ptable \<Rightarrow> ptable" where
  "upd_proc p f s = s\<lparr>procs := (procs s)(p := f (procs s p))\<rparr>"

definition set_cpu :: "nat \<Rightarrow> nat option \<Rightarrow> ptable \<Rightarrow> ptable" where
  "set_cpu c p s = s\<lparr>cpu_proc := (cpu_proc s)(c := p)\<rparr>"

section \<open>proc.c\<close>

definition allocpid :: "ptable \<Rightarrow> int \<times> ptable" where
  "allocpid s = (nextpid s, s\<lparr>nextpid := nextpid s + 1\<rparr>)"

text \<open>The part of \<open>allocproc\<close> that finds a slot and gives it a pid.\<close>

definition alloc_slot :: "ptable \<Rightarrow> (nat \<times> ptable) option" where
  "alloc_slot s =
     (case filter (\<lambda>p. pstate (procs s p) = UNUSED) [0..<NPROC] of
        [] \<Rightarrow> None
      | p # _ \<Rightarrow> (case allocpid s of (n, s) \<Rightarrow> Some (p, upd_proc p (\<lambda>x. x\<lparr>pid := n\<rparr>) s)))"

text \<open>The fields that \<open>freeproc\<close> clears once the memory is freed.\<close>

definition clear_proc :: "proc \<Rightarrow> proc" where
  "clear_proc x = x\<lparr>ptf := 0, pagetable := 0, psz := 0, pid := 0, parent := None, pname := 0 # tl (pname x),
     pchan := None, killed := False, xstate := 0, pstate := UNUSED\<rparr>"

text \<open>\<open>safestrcpy\<close> into the 16 bytes of a name; a source that fits is followed by two NULs.\<close>

definition safe_name :: "u8 list \<Rightarrow> u8 list \<Rightarrow> u8 list" where
  "safe_name dst src =
     (let t = take 15 (takeWhile (\<lambda>b. b \<noteq> 0) src);
          t = (if length t < 15 then t @ [0, 0] else t @ [0])
      in t @ drop (length t) dst)"

text \<open>The end of \<open>userinit\<close> and of \<open>fork\<close>, under the new process's lock.\<close>

definition start_init :: "nat \<Rightarrow> u8 list \<Rightarrow> nat option \<Rightarrow> ptable \<Rightarrow> ptable" where
  "start_init p nm root s =
     upd_proc p (\<lambda>x. x\<lparr>psz := 4096, pname := safe_name (pname x) nm, pcwd := root, pstate := RUNNABLE\<rparr>) (s\<lparr>initproc := p\<rparr>)"

definition start_child :: "nat \<Rightarrow> nat \<Rightarrow> ptable \<Rightarrow> int \<times> ptable" where
  "start_child p np s =
     (let s = upd_proc np (\<lambda>x. x\<lparr>psz := psz (procs s p)\<rparr>) s;
          s = upd_proc np (\<lambda>x. x\<lparr>parent := Some p\<rparr>) s;
          s = upd_proc np (\<lambda>x. x\<lparr>pname := safe_name (pname x) (pname (procs s p))\<rparr>) s;
          n = pid (procs s np)
      in (n, upd_proc np (\<lambda>x. x\<lparr>pstate := RUNNABLE\<rparr>) s))"

definition reparent :: "nat \<Rightarrow> ptable \<Rightarrow> ptable" where
  "reparent p s = fold (\<lambda>pp s.
     if parent (procs s pp) = Some p then upd_proc pp (\<lambda>x. x\<lparr>parent := Some (initproc s)\<rparr>) s else s) [0..<NPROC] s"

definition wakeup1 :: "nat \<Rightarrow> ptable \<Rightarrow> ptable" where
  "wakeup1 p s =
     (if pchan (procs s p) = Some (ProcChan p) \<and> pstate (procs s p) = SLEEPING
      then upd_proc p (\<lambda>x. x\<lparr>pstate := RUNNABLE\<rparr>) s else s)"

definition wakeup :: "chan \<Rightarrow> ptable \<Rightarrow> ptable" where
  "wakeup ch s = fold (\<lambda>p s.
     if pstate (procs s p) = SLEEPING \<and> pchan (procs s p) = Some ch
     then upd_proc p (\<lambda>x. x\<lparr>pstate := RUNNABLE\<rparr>) s else s) [0..<NPROC] s"

fun kill_from :: "int \<Rightarrow> nat list \<Rightarrow> ptable \<Rightarrow> int \<times> ptable" where
  "kill_from n [] s = (-1, s)"
| "kill_from n (p # ps) s =
     (if pid (procs s p) = n then
        let s = upd_proc p (\<lambda>x. x\<lparr>killed := True\<rparr>) s
        in (0, if pstate (procs s p) = SLEEPING then upd_proc p (\<lambda>x. x\<lparr>pstate := RUNNABLE\<rparr>) s else s)
      else kill_from n ps s)"

definition kill :: "int \<Rightarrow> ptable \<Rightarrow> int \<times> ptable" where
  "kill n s = kill_from n [0..<NPROC] s"

text \<open>
  \<open>sched\<close> checks that only the process's lock is held; the switch itself returns to the
  scheduler of CPU \<open>c\<close>, which clears its \<open>proc\<close>.  \<open>l\<close> is the process's lock.
\<close>

definition sched :: "nat \<Rightarrow> nat \<Rightarrow> nat \<Rightarrow> ksync \<Rightarrow> ptable \<Rightarrow> (kfault, unit, ptable) outcome" where
  "sched c p l k s =
     (if \<not> holding c l k then (Inl (Panic ''sched p->lock''), s)
      else if noff (cpus k c) \<noteq> 1 then (Inl (Panic ''sched locks''), s)
      else if pstate (procs s p) = RUNNING then (Inl (Panic ''sched running''), s)
      else if sie (cpus k c) then (Inl (Panic ''sched interruptible''), s)
      else (Inr (), set_cpu c None s))"

definition yield :: "nat \<Rightarrow> nat \<Rightarrow> ptable \<Rightarrow> ptable" where
  "yield c p s = set_cpu c None (upd_proc p (\<lambda>x. x\<lparr>pstate := RUNNABLE\<rparr>) s)"

definition sleep :: "nat \<Rightarrow> nat \<Rightarrow> chan \<Rightarrow> ptable \<Rightarrow> ptable" where
  "sleep c p ch s = set_cpu c None (upd_proc p (\<lambda>x. x\<lparr>pchan := Some ch, pstate := SLEEPING\<rparr>) s)"

definition sleep_end :: "nat \<Rightarrow> ptable \<Rightarrow> ptable" where
  "sleep_end p s = upd_proc p (\<lambda>x. x\<lparr>pchan := None\<rparr>) s"

text \<open>The scheduler's turn for process \<open>p\<close>, up to the switch.\<close>

definition scheduler_try :: "nat \<Rightarrow> nat \<Rightarrow> ptable \<Rightarrow> bool \<times> ptable" where
  "scheduler_try c p s =
     (if pstate (procs s p) = RUNNABLE
      then (True, set_cpu c (Some p) (upd_proc p (\<lambda>x. x\<lparr>pstate := RUNNING\<rparr>) s))
      else (False, s))"

text \<open>The three parts of \<open>exit\<close> that touch the table.\<close>

definition exit_wake_init :: "ptable \<Rightarrow> ptable" where
  "exit_wake_init s = wakeup1 (initproc s) s"

definition exit_parent :: "nat \<Rightarrow> ptable \<Rightarrow> nat option" where
  "exit_parent p s = parent (procs s p)"

definition exit_finish :: "nat \<Rightarrow> nat \<Rightarrow> nat \<Rightarrow> int \<Rightarrow> ptable \<Rightarrow> ptable" where
  "exit_finish c p original_parent status s =
     (let s = reparent p s;
          s = wakeup1 original_parent s;
          s = upd_proc p (\<lambda>x. x\<lparr>xstate := status\<rparr>) s;
          s = upd_proc p (\<lambda>x. x\<lparr>pstate := ZOMBIE\<rparr>) s
      in set_cpu c None s)"

text \<open>The scan of \<open>wait\<close>: whether there are children, and the first zombie.\<close>

fun wait_scan :: "nat \<Rightarrow> (nat \<Rightarrow> proc) \<Rightarrow> bool \<Rightarrow> nat list \<Rightarrow> bool \<times> nat option" where
  "wait_scan p f havekids [] = (havekids, None)"
| "wait_scan p f havekids (np # nps) =
     (if parent (f np) = Some p then
        if pstate (f np) = ZOMBIE then (True, Some np) else wait_scan p f True nps
      else wait_scan p f havekids nps)"

datatype wait_result = Reaped int | WaitFails | WaitSleeps

text \<open>One turn of the loop of \<open>wait\<close>; \<open>copied\<close>: the exit status could be copied out.\<close>

definition wait_turn :: "nat \<Rightarrow> nat \<Rightarrow> bool \<Rightarrow> ptable \<Rightarrow> wait_result \<times> ptable" where
  "wait_turn c p copied s =
     (case wait_scan p (procs s) False [0..<NPROC] of
        (_, Some np) \<Rightarrow>
          if \<not> copied then (WaitFails, s) else (Reaped (pid (procs s np)), upd_proc np clear_proc s)
      | (havekids, None) \<Rightarrow>
          if \<not> havekids \<or> killed (procs s p) then (WaitFails, s) else (WaitSleeps, sleep c p (ProcChan p) s))"

section \<open>What the operations do\<close>

lemma upd_proc_simps [simp]:
  "procs (upd_proc p f s) = (procs s)(p := f (procs s p))" "initproc (upd_proc p f s) = initproc s"
  "cpu_proc (upd_proc p f s) = cpu_proc s" "nextpid (upd_proc p f s) = nextpid s"
  "procs (set_cpu c q s) = procs s" "initproc (set_cpu c q s) = initproc s" "nextpid (set_cpu c q s) = nextpid s"
  "cpu_proc (set_cpu c q s) = (cpu_proc s)(c := q)"
  by (simp_all add: upd_proc_def set_cpu_def)

text \<open>A loop over the table in which turn \<open>q\<close> updates slot \<open>q\<close> by \<open>g\<close>.\<close>

lemma fold_table:
  assumes "\<And>q s. procs (f q s) = (procs s)(q := g (initproc s) q (procs s q))" and "\<And>q s. initproc (f q s) = initproc s"
    and "\<And>q s. cpu_proc (f q s) = cpu_proc s" and "distinct qs"
  shows "procs (fold f qs s) = (\<lambda>p. if p \<in> set qs then g (initproc s) p (procs s p) else procs s p) \<and>
    initproc (fold f qs s) = initproc s \<and> cpu_proc (fold f qs s) = cpu_proc s"
  using assms(4)
proof (induction qs arbitrary: s)
  case (Cons q qs)
  then show ?case using Cons.IH [of "f q s"] by (auto simp: assms(1-3) fun_eq_iff)
qed simp

lemma reparent_eq:
  "procs (reparent p s) = (\<lambda>q. if q < NPROC \<and> parent (procs s q) = Some p then (procs s q)\<lparr>parent := Some (initproc s)\<rparr> else procs s q)"
  "initproc (reparent p s) = initproc s" "cpu_proc (reparent p s) = cpu_proc s"
proof -
  have "procs (reparent p s) = (\<lambda>q. if q \<in> set [0..<NPROC] then
      (if parent (procs s q) = Some p then (procs s q)\<lparr>parent := Some (initproc s)\<rparr> else procs s q) else procs s q) \<and>
      initproc (reparent p s) = initproc s \<and> cpu_proc (reparent p s) = cpu_proc s"
    unfolding reparent_def
    by (rule fold_table [where g = "\<lambda>i q x. if parent x = Some p then x\<lparr>parent := Some i\<rparr> else x"]) auto
  then show "procs (reparent p s) = (\<lambda>q. if q < NPROC \<and> parent (procs s q) = Some p then (procs s q)\<lparr>parent := Some (initproc s)\<rparr> else procs s q)"
    "initproc (reparent p s) = initproc s" "cpu_proc (reparent p s) = cpu_proc s"
    by (auto simp: fun_eq_iff)
qed

lemma wakeup_eq:
  "procs (wakeup ch s) = (\<lambda>q. if q < NPROC \<and> pstate (procs s q) = SLEEPING \<and> pchan (procs s q) = Some ch
     then (procs s q)\<lparr>pstate := RUNNABLE\<rparr> else procs s q)"
  "initproc (wakeup ch s) = initproc s" "cpu_proc (wakeup ch s) = cpu_proc s"
proof -
  have "procs (wakeup ch s) = (\<lambda>q. if q \<in> set [0..<NPROC] then
      (if pstate (procs s q) = SLEEPING \<and> pchan (procs s q) = Some ch then (procs s q)\<lparr>pstate := RUNNABLE\<rparr> else procs s q)
      else procs s q) \<and> initproc (wakeup ch s) = initproc s \<and> cpu_proc (wakeup ch s) = cpu_proc s"
    unfolding wakeup_def
    by (rule fold_table [where g = "\<lambda>i q x. if pstate x = SLEEPING \<and> pchan x = Some ch then x\<lparr>pstate := RUNNABLE\<rparr> else x"]) auto
  then show "procs (wakeup ch s) = (\<lambda>q. if q < NPROC \<and> pstate (procs s q) = SLEEPING \<and> pchan (procs s q) = Some ch
     then (procs s q)\<lparr>pstate := RUNNABLE\<rparr> else procs s q)"
    "initproc (wakeup ch s) = initproc s" "cpu_proc (wakeup ch s) = cpu_proc s"
    by (auto simp: fun_eq_iff)
qed

lemma wakeup1_eq:
  "procs (wakeup1 p s) = (\<lambda>q. if q = p \<and> pstate (procs s p) = SLEEPING \<and> pchan (procs s p) = Some (ProcChan p)
     then (procs s q)\<lparr>pstate := RUNNABLE\<rparr> else procs s q)"
  "initproc (wakeup1 p s) = initproc s" "cpu_proc (wakeup1 p s) = cpu_proc s"
  by (auto simp: wakeup1_def fun_eq_iff)

lemma kill_from_eq:
  "\<exists>q b. procs (snd (kill_from n ps s)) = (\<lambda>p. if p = q \<and> b then
       (procs s p)\<lparr>killed := True, pstate := if pstate (procs s p) = SLEEPING then RUNNABLE else pstate (procs s p)\<rparr> else procs s p) \<and>
     initproc (snd (kill_from n ps s)) = initproc s \<and> cpu_proc (snd (kill_from n ps s)) = cpu_proc s"
proof (induction ps)
  case Nil
  show ?case by (rule exI [of _ 0], rule exI [of _ False]) simp
next
  case (Cons p ps)
  show ?case
  proof (cases "pid (procs s p) = n")
    case True
    then show ?thesis by (intro exI [of _ p] exI [of _ True]) (auto simp: fun_eq_iff Let_def)
  qed (use Cons in auto)
qed

lemma wait_scan_none:
  "wait_scan p f b qs = (b', None) \<Longrightarrow> q \<in> set qs \<Longrightarrow> parent (f q) = Some p \<Longrightarrow> pstate (f q) \<noteq> ZOMBIE"
  by (induction qs arbitrary: b) (auto split: if_splits)

lemma wait_scan_some:
  "wait_scan p f b qs = (b', Some q) \<Longrightarrow> q \<in> set qs \<and> parent (f q) = Some p \<and> pstate (f q) = ZOMBIE"
  by (induction qs arbitrary: b) (auto split: if_splits)

end
