(* ===== verification/Xv7_Pipe.thy ===== *)
theory Xv7_Pipe
  imports Xv7_List
begin

text \<open>
  Pipes of \<open>xv7/kernel/pipe.c\<close>: a ring buffer of 512 bytes with two counters that run
  modulo \<open>2 ^ 32\<close>.  The pipe's lock makes the code between two calls of \<open>sleep\<close> one step:
  \<open>pipewrite_from i\<close> and \<open>piperead\<close> run until they return or sleep, and are run again when
  the process is woken.  The caller's memory is an argument: the byte \<open>copyin\<close> finds at
  \<open>addr + i\<close>, and whether \<open>copyout\<close> to \<open>addr + i\<close> succeeds.  The locale \<open>byte_queue\<close> is
  what the two loops use of the ring; the last theorem is about all interleavings.
\<close>

section \<open>pipe.c\<close>

definition PIPESIZE :: nat where "PIPESIZE = 512"

record pipe =
  p_data :: "nat \<Rightarrow> u8"
  p_nread :: u32
  p_nwrite :: u32
  p_readopen :: bool
  p_writeopen :: bool

text \<open>What \<open>pipealloc\<close> makes of a page.\<close>

definition pipe_new :: "(nat \<Rightarrow> u8) \<Rightarrow> pipe" where
  "pipe_new d = \<lparr>p_data = d, p_nread = 0, p_nwrite = 0, p_readopen = True, p_writeopen = True\<rparr>"

text \<open>The result also says whether the page was freed.\<close>

definition pipeclose :: "bool \<Rightarrow> pipe \<Rightarrow> pipe \<times> bool" where
  "pipeclose writable pi =
     (let pi = (if writable then pi\<lparr>p_writeopen := False\<rparr> else pi\<lparr>p_readopen := False\<rparr>)
      in (pi, \<not> p_readopen pi \<and> \<not> p_writeopen pi))"

definition pipe_full :: "pipe \<Rightarrow> bool" where
  "pipe_full pi \<longleftrightarrow> p_nwrite pi = p_nread pi + of_nat PIPESIZE"

definition pipe_empty :: "pipe \<Rightarrow> bool" where
  "pipe_empty pi \<longleftrightarrow> p_nread pi = p_nwrite pi"

text \<open>\<open>pi->data[pi->nwrite++ % PIPESIZE] = ch\<close> and \<open>ch = pi->data[pi->nread++ % PIPESIZE]\<close>.\<close>

definition pipe_put :: "u8 \<Rightarrow> pipe \<Rightarrow> pipe" where
  "pipe_put ch pi = pi\<lparr>p_data := (p_data pi)(unat (p_nwrite pi) mod PIPESIZE := ch), p_nwrite := p_nwrite pi + 1\<rparr>"

definition pipe_get :: "pipe \<Rightarrow> u8 \<times> pipe" where
  "pipe_get pi = (p_data pi (unat (p_nread pi) mod PIPESIZE), pi\<lparr>p_nread := p_nread pi + 1\<rparr>)"

datatype pipe_result = Sleeps nat | Returns int

function pipewrite_from :: "nat \<Rightarrow> nat \<Rightarrow> (nat \<Rightarrow> u8 option) \<Rightarrow> bool \<Rightarrow> pipe \<Rightarrow> pipe_result \<times> pipe" where
  "pipewrite_from i n src killed pi =
     (if i < n then
        if pipe_full pi then
          if \<not> p_readopen pi \<or> killed then (Returns (-1), pi) else (Sleeps i, pi)
        else
          case src i of
            None \<Rightarrow> (Returns (int n), pi)
          | Some ch \<Rightarrow> pipewrite_from (i + 1) n src killed (pipe_put ch pi)
      else (Returns (int n), pi))"
  by pat_completeness auto

termination
  by (relation "measure (\<lambda>(i, n, src, killed, pi). n - i)") auto

definition pipewrite :: "int \<Rightarrow> (nat \<Rightarrow> u8 option) \<Rightarrow> bool \<Rightarrow> pipe \<Rightarrow> pipe_result \<times> pipe" where
  "pipewrite n src killed pi = (case pipewrite_from 0 (nat n) src killed pi of (r, pi) \<Rightarrow>
     (if n < 0 then (Returns n, pi) else (r, pi)))"

text \<open>The copy loop of \<open>piperead\<close>: its result, and the bytes taken off the pipe.\<close>

function piperead_from :: "nat \<Rightarrow> nat \<Rightarrow> (nat \<Rightarrow> bool) \<Rightarrow> pipe \<Rightarrow> nat \<times> u8 list \<times> pipe" where
  "piperead_from i n dst pi =
     (if i < n then
        if pipe_empty pi then (i, [], pi)
        else
          case pipe_get pi of (ch, pi) \<Rightarrow>
            if \<not> dst i then (i, [ch], pi)
            else case piperead_from (i + 1) n dst pi of (r, cs, pi) \<Rightarrow> (r, ch # cs, pi)
      else (i, [], pi))"
  by pat_completeness auto

termination
  by (relation "measure (\<lambda>(i, n, dst, pi). n - i)") auto

definition piperead :: "int \<Rightarrow> (nat \<Rightarrow> bool) \<Rightarrow> bool \<Rightarrow> pipe \<Rightarrow> pipe_result \<times> u8 list \<times> pipe" where
  "piperead n dst killed pi =
     (if pipe_empty pi \<and> p_writeopen pi then
        if killed then (Returns (-1), [], pi) else (Sleeps 0, [], pi)
      else case piperead_from 0 (nat n) dst pi of (r, cs, pi) \<Rightarrow> (Returns (int r), cs, pi))"

section \<open>The ring as a queue\<close>

locale byte_queue =
  fixes inv :: "'q \<Rightarrow> bool" and contents :: "'q \<Rightarrow> 'b list" and cap :: nat
    and full :: "'q \<Rightarrow> bool" and empty :: "'q \<Rightarrow> bool" and put :: "'b \<Rightarrow> 'q \<Rightarrow> 'q" and get :: "'q \<Rightarrow> 'b \<times> 'q"
  assumes full_iff: "inv q \<Longrightarrow> full q \<longleftrightarrow> length (contents q) = cap"
    and empty_iff: "inv q \<Longrightarrow> empty q \<longleftrightarrow> contents q = []"
    and bounded: "inv q \<Longrightarrow> length (contents q) \<le> cap"
    and put_law: "inv q \<Longrightarrow> \<not> full q \<Longrightarrow> inv (put b q) \<and> contents (put b q) = contents q @ [b]"
    and get_law: "inv q \<Longrightarrow> contents q = b # bs \<Longrightarrow> fst (get q) = b \<and> inv (snd (get q)) \<and> contents (snd (get q)) = bs"
begin

text \<open>Putting several bytes, as far as there is room.\<close>

lemma put_many:
  assumes "inv q" and "length (contents q) + length bs \<le> cap"
  shows "inv (fold put bs q) \<and> contents (fold put bs q) = contents q @ bs"
  using assms
proof (induction bs arbitrary: q)
  case (Cons b bs)
  then have "\<not> full q" using full_iff by simp
  from put_law [OF Cons.prems(1) this] Cons.IH [of "put b q"] Cons.prems(2) show ?case by simp
qed simp

end

definition pipe_inv :: "pipe \<Rightarrow> bool" where
  "pipe_inv pi \<longleftrightarrow> unat (p_nwrite pi - p_nread pi) \<le> PIPESIZE"

definition pipe_bytes :: "pipe \<Rightarrow> u8 list" where
  "pipe_bytes pi =
     map (\<lambda>k. p_data pi ((unat (p_nread pi) + k) mod PIPESIZE)) [0..<unat (p_nwrite pi - p_nread pi)]"

text \<open>The size of the ring divides \<open>2 ^ 32\<close>, so the wrap of the counters does not show.\<close>

lemma unat_mod_ring: "unat (a + of_nat k :: u32) mod PIPESIZE = (unat a + k) mod PIPESIZE"
proof -
  have "unat (a + of_nat k) = (unat a + k) mod 2 ^ 32"
    by (simp add: unat_word_ariths unat_of_nat mod_add_right_eq)
  moreover have "(x mod 2 ^ 32) mod PIPESIZE = x mod PIPESIZE" for x :: nat
    unfolding PIPESIZE_def by (rule mod_mod_cancel) simp
  ultimately show ?thesis by simp
qed

lemma ring_slot: "p_data pi ((unat (p_nread pi) + k) mod PIPESIZE) = p_data pi (unat (p_nread pi + of_nat k) mod PIPESIZE)"
  by (simp only: unat_mod_ring)

lemma fill_unat:
  assumes "unat (w - r :: u32) \<le> PIPESIZE"
  shows "unat (w - r) = PIPESIZE \<longleftrightarrow> w = r + of_nat PIPESIZE" "unat (w - r) = 0 \<longleftrightarrow> r = w"
    "unat (w - r) \<noteq> PIPESIZE \<Longrightarrow> unat (w + 1 - r) = unat (w - r) + 1"
    "w \<noteq> r \<Longrightarrow> unat (w - (r + 1)) = unat (w - r) - 1"
proof -
  have p: "unat (of_nat PIPESIZE :: u32) = PIPESIZE" by (simp add: PIPESIZE_def)
  show "unat (w - r) = PIPESIZE \<longleftrightarrow> w = r + of_nat PIPESIZE"
    by (metis p add_diff_cancel_left' diff_add_cancel add.commute word_unat_eq_iff)
  show "unat (w - r) = 0 \<longleftrightarrow> r = w" by (auto simp: unat_eq_0)
  have e: "w + 1 - r = (w - r) + 1" by simp
  show "unat (w + 1 - r) = unat (w - r) + 1"
    unfolding e using assms by (simp add: unat_word_ariths PIPESIZE_def)
  show "unat (w - (r + 1)) = unat (w - r) - 1" if "w \<noteq> r"
  proof -
    have "w - r \<noteq> 0" using that by simp
    then have "unat (w - r - 1) = unat (w - r) - 1" by (rule unat_minus_one)
    then show ?thesis by (simp add: diff_diff_eq)
  qed
qed

lemma pipe_put_law:
  assumes "pipe_inv q" and "\<not> pipe_full q"
  shows "pipe_inv (pipe_put b q) \<and> pipe_bytes (pipe_put b q) = pipe_bytes q @ [b]"
proof -
  define n where "n = unat (p_nwrite q - p_nread q)"
  have le: "n \<le> PIPESIZE" using assms(1) by (simp add: pipe_inv_def n_def)
  note f = fill_unat [OF le [unfolded n_def]]
  have lt: "n < PIPESIZE" using f(1) assms(2) le by (simp add: pipe_full_def n_def)
  then have n1: "unat (p_nwrite q + 1 - p_nread q) = n + 1" using f(3) by (simp add: n_def)
  have w: "unat (p_nwrite q) mod PIPESIZE = (unat (p_nread q) + n) mod PIPESIZE"
    using unat_mod_ring [of "p_nread q" n] by (simp add: n_def)
  have ne: "(unat (p_nread q) + k) mod PIPESIZE \<noteq> unat (p_nwrite q) mod PIPESIZE" if "k < n" for k
    unfolding w by (rule ring_slots_differ [OF that]) (use lt in simp)
  have "pipe_bytes (pipe_put b q) = map (\<lambda>k. p_data q ((unat (p_nread q) + k) mod PIPESIZE)) [0..<n] @ [b]"
    using ne by (simp add: pipe_bytes_def pipe_put_def n1 w)
  then show ?thesis using lt n1 by (simp add: pipe_inv_def pipe_put_def pipe_bytes_def n_def)
qed

lemma pipe_get_law:
  assumes "pipe_inv q" and "pipe_bytes q = b # bs"
  shows "fst (pipe_get q) = b \<and> pipe_inv (snd (pipe_get q)) \<and> pipe_bytes (snd (pipe_get q)) = bs"
proof -
  define n where "n = unat (p_nwrite q - p_nread q)"
  have le: "n \<le> PIPESIZE" using assms(1) by (simp add: pipe_inv_def n_def)
  obtain m where m: "n = Suc m" using assms(2) by (cases n) (auto simp: pipe_bytes_def n_def)
  then have "p_nwrite q \<noteq> p_nread q" by (auto simp: n_def)
  then have n1: "unat (p_nwrite q - (p_nread q + 1)) = m" using fill_unat(4) [of "p_nwrite q" "p_nread q"] le m by (simp add: n_def)
  have sh: "(unat (p_nread q + 1) + k) mod PIPESIZE = (unat (p_nread q) + Suc k) mod PIPESIZE" for k
    using unat_mod_ring [of "p_nread q" 1] mod_add_cong [of "unat (p_nread q + 1)" PIPESIZE "unat (p_nread q) + 1" k k] by simp
  have "b # bs = map (\<lambda>k. p_data q ((unat (p_nread q) + k) mod PIPESIZE)) (0 # map Suc [0..<m])"
    using assms(2) m by (simp add: pipe_bytes_def n_def map_Suc_upt upt_conv_Cons del: upt_Suc)
  then have "b = p_data q (unat (p_nread q) mod PIPESIZE)"
    "bs = map (\<lambda>k. p_data q ((unat (p_nread q) + Suc k) mod PIPESIZE)) [0..<m]" by (simp_all add: comp_def)
  then show ?thesis using n1 sh le m by (simp add: pipe_get_def pipe_inv_def pipe_bytes_def)
qed

interpretation ring: byte_queue pipe_inv pipe_bytes PIPESIZE pipe_full pipe_empty pipe_put pipe_get
proof unfold_locales
  fix q :: pipe assume "pipe_inv q"
  then have le: "unat (p_nwrite q - p_nread q) \<le> PIPESIZE" by (simp add: pipe_inv_def)
  show "pipe_full q \<longleftrightarrow> length (pipe_bytes q) = PIPESIZE" using fill_unat(1) [OF le] by (simp add: pipe_full_def pipe_bytes_def)
  show "pipe_empty q \<longleftrightarrow> pipe_bytes q = []" using fill_unat(2) [OF le] by (simp add: pipe_empty_def pipe_bytes_def)
  show "length (pipe_bytes q) \<le> PIPESIZE" using le by (simp add: pipe_bytes_def)
qed (rule pipe_put_law pipe_get_law; assumption)+


section \<open>The transfer loops\<close>

text \<open>The bytes a run of \<open>pipewrite_from\<close> took from its caller, by how far the counter moved.\<close>

definition accepted :: "nat \<Rightarrow> (nat \<Rightarrow> u8 option) \<Rightarrow> pipe \<Rightarrow> pipe \<Rightarrow> u8 list" where
  "accepted i src pi pi' = map (\<lambda>k. the (src k)) [i..<i + unat (p_nwrite pi' - p_nwrite pi)]"

declare pipewrite_from.simps [simp del] piperead_from.simps [simp del]

lemma pipewrite_from_run:
  assumes "pipe_inv q" and "n < 2 ^ 31"
  shows "case pipewrite_from i n src killed q of (r, q') \<Rightarrow>
    pipe_inv q' \<and> pipe_bytes q' = pipe_bytes q @ accepted i src q q' \<and>
    (\<exists>j. i \<le> j \<and> j \<le> max i n \<and> p_nwrite q' = p_nwrite q + of_nat (j - i) \<and>
      (case r of Sleeps k \<Rightarrow> k = j \<and> pipe_full q' \<and> p_readopen q'
       | Returns m \<Rightarrow> if m < 0 then pipe_full q' \<and> (killed \<or> \<not> p_readopen q') else m = int n \<and> (n \<le> j \<or> src j = None)))"
  using assms
proof (induction i n src killed q rule: pipewrite_from.induct)
  case (1 i n src killed q)
  note e = pipewrite_from.simps [of i n src killed q]
  have stop: "accepted i src q q = []" by (simp add: accepted_def)
  show ?case
  proof (cases "i < n \<and> \<not> pipe_full q \<and> src i \<noteq> None")
    case False
    then show ?thesis unfolding e using "1.prems" stop
      by (auto intro!: exI [of _ i] split: option.split)
  next
    case True
    then obtain ch where c: "src i = Some ch" by auto
    let ?q = "pipe_put ch q"
    note p = ring.put_law [OF "1.prems"(1), of ch]
    have u: "pipewrite_from i n src killed q = pipewrite_from (i + 1) n src killed ?q"
      using True c by (simp add: e)
    obtain r q' where rq: "pipewrite_from (i + 1) n src killed ?q = (r, q')" by fastforce
    from "1.IH" [of ch] True c p "1.prems" rq
    obtain j where ih: "pipe_inv q'" "pipe_bytes q' = pipe_bytes ?q @ accepted (i + 1) src ?q q'" "i + 1 \<le> j"
      "j \<le> max (i + 1) n" "p_nwrite q' = p_nwrite ?q + of_nat (j - (i + 1))"
      "case r of Sleeps k \<Rightarrow> k = j \<and> pipe_full q' \<and> p_readopen q'
       | Returns m \<Rightarrow> if m < 0 then pipe_full q' \<and> (killed \<or> \<not> p_readopen q') else m = int n \<and> (n \<le> j \<or> src j = None)"
      by auto
    have jn: "j \<le> n" using ih(4) True by simp
    have small: "j - i < 2 ^ 32" using jn "1.prems"(2) by simp
    have nw: "p_nwrite q' - p_nwrite q = of_nat (j - i)" "p_nwrite q' - p_nwrite ?q = of_nat (j - (i + 1))"
      using ih(3,5) by (simp_all add: pipe_put_def of_nat_diff)
    have un: "unat (of_nat (j - i) :: u32) = j - i" "unat (of_nat (j - (i + 1)) :: u32) = j - (i + 1)"
      using small by (simp_all add: unat_of_nat)
    have "accepted i src q q' = ch # accepted (i + 1) src ?q q'"
      unfolding accepted_def nw un using ih(3) c by (simp add: upt_conv_Cons)
    moreover have "p_nwrite q' = p_nwrite q + of_nat (j - i)" using nw(1) by (simp add: algebra_simps)
    moreover have "pipe_bytes q' = pipe_bytes q @ accepted i src q q'" using ih(2) p True calculation(1) by simp
    ultimately show ?thesis
      unfolding u rq prod.case
    proof (intro conjI exI [of _ j])
      show "case r of Sleeps k \<Rightarrow> k = j \<and> pipe_full q' \<and> p_readopen q'
        | Returns m \<Rightarrow> if m < 0 then pipe_full q' \<and> (killed \<or> \<not> p_readopen q') else m = int n \<and> (n \<le> j \<or> src j = None)"
        by (rule ih(6))
    qed (use ih(1,3) jn in simp_all)
  qed
qed

lemma piperead_from_run:
  assumes "pipe_inv q"
  shows "case piperead_from i n dst q of (r, cs, q') \<Rightarrow> pipe_inv q' \<and> pipe_bytes q = cs @ pipe_bytes q'"
  using assms
proof (induction i n dst q rule: piperead_from.induct)
  case (1 i n dst q)
  show ?case
  proof (cases "i < n \<and> \<not> pipe_empty q")
    case False
    then show ?thesis using "1.prems" by (auto simp: piperead_from.simps [of i n dst q])
  next
    case True
    then obtain b bs where bs: "pipe_bytes q = b # bs" using ring.empty_iff [OF "1.prems"] by (cases "pipe_bytes q") auto
    obtain q1 where g: "pipe_get q = (b, q1)" "pipe_inv q1" "pipe_bytes q1 = bs"
      using ring.get_law [OF "1.prems" bs] by (cases "pipe_get q") auto
    show ?thesis
    proof (cases "dst i")
      case False
      then show ?thesis using True g bs by (simp add: piperead_from.simps [of i n dst q])
    next
      case d: True
      obtain r cs q' where r: "piperead_from (i + 1) n dst q1 = (r, cs, q')" by (cases "piperead_from (i + 1) n dst q1") auto
      have "pipe_inv q' \<and> pipe_bytes q1 = cs @ pipe_bytes q'"
        using "1.IH" [of b q1] True g d r by simp
      then show ?thesis using True g d r bs by (simp add: piperead_from.simps [of i n dst q])
    qed
  qed
qed

section \<open>All interleavings\<close>

text \<open>
  Writers start or resume anywhere in their buffers, readers read, ends are closed, in any
  order.  The two lists are the bytes taken from writers and the bytes given to readers.
\<close>

inductive pipe_step :: "pipe \<times> u8 list \<times> u8 list \<Rightarrow> pipe \<times> u8 list \<times> u8 list \<Rightarrow> bool" where
  ps_write: "pipewrite_from i n src killed q = (r, q') \<Longrightarrow> n < 2 ^ 31 \<Longrightarrow>
    pipe_step (q, xs, ys) (q', xs @ accepted i src q q', ys)"
| ps_read: "piperead n dst killed q = (r, cs, q') \<Longrightarrow> pipe_step (q, xs, ys) (q', xs, ys @ cs)"
| ps_close: "pipeclose writable q = (q', freed) \<Longrightarrow> pipe_step (q, xs, ys) (q', xs, ys)"

inductive_cases pipe_stepE: "pipe_step p p'"

definition in_order :: "pipe \<times> u8 list \<times> u8 list \<Rightarrow> bool" where
  "in_order p = (case p of (q, xs, ys) \<Rightarrow> pipe_inv q \<and> xs = ys @ pipe_bytes q)"

lemma in_order_step:
  assumes "pipe_step p p'" and "in_order p"
  shows "in_order p'"
  using assms(1)
proof cases
  case (ps_write i n src killed q r q' xs ys)
  then show ?thesis using assms(2) pipewrite_from_run [of q n i src killed] by (auto simp: in_order_def)
next
  case (ps_read n dst killed q r cs q' xs ys)
  then have q: "pipe_inv q" "xs = ys @ pipe_bytes q" using assms(2) by (simp_all add: in_order_def)
  show ?thesis
  proof (cases "pipe_empty q \<and> p_writeopen q")
    case True
    then show ?thesis using ps_read q by (auto simp: in_order_def piperead_def split: if_splits)
  next
    case False
    then show ?thesis using ps_read q piperead_from_run [OF q(1), of 0 "nat n" dst]
      by (auto simp: in_order_def piperead_def split: prod.splits)
  qed
next
  case (ps_close writable q q' freed xs ys)
  then show ?thesis using assms(2)
    by (auto simp: in_order_def pipeclose_def Let_def pipe_inv_def pipe_bytes_def split: if_splits)
qed



end
