(* ===== verification/Xv7_Kstate.thy ===== *)
theory Xv7_Kstate
  imports Xv7_Vm Xv7_Proc Xv7_Pipe
begin

text \<open>
  The kernel objects that live in pages of the page allocator: packet buffers, sockets and
  pipes.  A page is seen through each of these structures; \<open>page_alloc\<close> and \<open>page_free\<close> are
  \<open>kalloc\<close> and \<open>kfree\<close> together with what they write into these views (\<open>kalloc\<close> fills the page
  with 5; \<open>kfree\<close> fills it with 1 and puts the link of the free list into its first word).
  The state \<open>kst\<close> has the page allocator, the process table and the views.
\<close>

section \<open>net.h, sysnet.c\<close>

text \<open>\<open>m_head\<close> is the distance of \<open>head\<close> from the start of \<open>buf\<close>; what follows \<open>buf\<close> is the rest of the page.\<close>

record mbuf =
  m_next :: u64
  m_head :: int
  m_len :: u32
  m_buf :: "int \<Rightarrow> u8"

record mbufq =
  q_head :: u64
  q_tail :: u64

record sock =
  so_next :: u64
  so_raddr :: u32
  so_lport :: u16
  so_rport :: u16
  so_rxq :: mbufq

record kst =
  km :: kmem
  pt :: ptable
  mbufs :: "u64 \<Rightarrow> mbuf"
  socks :: "u64 \<Rightarrow> sock"
  pipes :: "u64 \<Rightarrow> pipe"

section \<open>Pages and their views\<close>

text \<open>A page full of the byte \<open>b\<close> whose first word is \<open>nx\<close>.\<close>

definition bytes64 :: "u8 \<Rightarrow> u64" where "bytes64 b = ucast b * 0x0101010101010101"
definition bytes32 :: "u8 \<Rightarrow> u32" where "bytes32 b = ucast b * 0x01010101"
definition bytes16 :: "u8 \<Rightarrow> u16" where "bytes16 b = ucast b * 0x0101"

definition mbuf_view :: "u64 \<Rightarrow> u8 \<Rightarrow> u64 \<Rightarrow> mbuf" where
  "mbuf_view pa b nx =
     \<lparr>m_next = nx, m_head = uint (bytes64 b) - uint pa - 20, m_len = bytes32 b, m_buf = (\<lambda>_. b)\<rparr>"

definition sock_view :: "u8 \<Rightarrow> u64 \<Rightarrow> sock" where
  "sock_view b nx =
     \<lparr>so_next = nx, so_raddr = bytes32 b, so_lport = bytes16 b, so_rport = bytes16 b,
      so_rxq = \<lparr>q_head = bytes64 b, q_tail = bytes64 b\<rparr>\<rparr>"

definition pipe_view :: "u8 \<Rightarrow> pipe" where
  "pipe_view b =
     \<lparr>p_data = (\<lambda>_. b), p_nread = bytes32 b, p_nwrite = bytes32 b, p_readopen = (b \<noteq> 0), p_writeopen = (b \<noteq> 0)\<rparr>"

definition fill_views :: "u64 \<Rightarrow> u8 \<Rightarrow> u64 \<Rightarrow> 'a kst_scheme \<Rightarrow> 'a kst_scheme" where
  "fill_views pa b nx s = s\<lparr>mbufs := (mbufs s)(pa := mbuf_view pa b nx), socks := (socks s)(pa := sock_view b nx),
     pipes := (pipes s)(pa := pipe_view b)\<rparr>"

text \<open>An operation on the page allocator or on the memory, as a step of the kernel.\<close>

definition in_km :: "(kfault, 'b, kmem) outcome \<Rightarrow> 'a kst_scheme \<Rightarrow> (kfault, 'b, 'a kst_scheme) outcome" where
  "in_km m s = (case m of (r, k) \<Rightarrow> (r, s\<lparr>km := k\<rparr>))"

definition page_alloc :: "u64 \<Rightarrow> 'a kst_scheme \<Rightarrow> u64 \<times> 'a kst_scheme" where
  "page_alloc kend s =
     (case kalloc kend (km s) of (r, k) \<Rightarrow>
        (r, if r = 0 then s\<lparr>km := k\<rparr> else fill_views r 5 (bytes64 5) (s\<lparr>km := k\<rparr>)))"

definition page_free :: "u64 \<Rightarrow> u64 \<Rightarrow> 'a kst_scheme \<Rightarrow> (kfault, unit, 'a kst_scheme) outcome" where
  "page_free kend pa s =
     bindS (in_km (kfree kend pa (km s)) s) (\<lambda>_ t. (Inr (), fill_views pa 1 (freelist (km s)) t))"

definition upd_mbuf :: "u64 \<Rightarrow> (mbuf \<Rightarrow> mbuf) \<Rightarrow> 'a kst_scheme \<Rightarrow> 'a kst_scheme" where
  "upd_mbuf m f s = s\<lparr>mbufs := (mbufs s)(m := f (mbufs s m))\<rparr>"

definition upd_sock :: "u64 \<Rightarrow> (sock \<Rightarrow> sock) \<Rightarrow> 'a kst_scheme \<Rightarrow> 'a kst_scheme" where
  "upd_sock so f s = s\<lparr>socks := (socks s)(so := f (socks s so))\<rparr>"

definition upd_pipe :: "u64 \<Rightarrow> (pipe \<Rightarrow> pipe) \<Rightarrow> 'a kst_scheme \<Rightarrow> 'a kst_scheme" where
  "upd_pipe pi f s = s\<lparr>pipes := (pipes s)(pi := f (pipes s pi))\<rparr>"

definition upd_pt :: "(ptable \<Rightarrow> ptable) \<Rightarrow> 'a kst_scheme \<Rightarrow> 'a kst_scheme" where
  "upd_pt f s = s\<lparr>pt := f (pt s)\<rparr>"

text \<open>An operation on the structure at an address.\<close>

definition on_mbuf :: "u64 \<Rightarrow> (mbuf \<Rightarrow> 'r \<times> mbuf) \<Rightarrow> 'a kst_scheme \<Rightarrow> 'r \<times> 'a kst_scheme" where
  "on_mbuf m f s = (case f (mbufs s m) of (r, b) \<Rightarrow> (r, upd_mbuf m (\<lambda>_. b) s))"

lemma upd_views [simp]:
  "mbufs (upd_mbuf m f s) = (mbufs s)(m := f (mbufs s m))" "socks (upd_mbuf m f s) = socks s"
  "pipes (upd_mbuf m f s) = pipes s" "km (upd_mbuf m f s) = km s" "pt (upd_mbuf m f s) = pt s"
  "kst.more (upd_mbuf m f s) = kst.more s"
  "socks (upd_sock so g s) = (socks s)(so := g (socks s so))" "mbufs (upd_sock so g s) = mbufs s"
  "pipes (upd_sock so g s) = pipes s" "km (upd_sock so g s) = km s" "pt (upd_sock so g s) = pt s"
  "kst.more (upd_sock so g s) = kst.more s"
  "pipes (upd_pipe pi h s) = (pipes s)(pi := h (pipes s pi))" "mbufs (upd_pipe pi h s) = mbufs s"
  "socks (upd_pipe pi h s) = socks s" "km (upd_pipe pi h s) = km s" "pt (upd_pipe pi h s) = pt s"
  "kst.more (upd_pipe pi h s) = kst.more s"
  "pt (upd_pt k s) = k (pt s)" "mbufs (upd_pt k s) = mbufs s" "socks (upd_pt k s) = socks s"
  "pipes (upd_pt k s) = pipes s" "km (upd_pt k s) = km s" "kst.more (upd_pt k s) = kst.more s"
  by (simp_all add: upd_mbuf_def upd_sock_def upd_pipe_def upd_pt_def)

lemma on_mbuf_simps:
  "f (mbufs s m) = (r, b) \<Longrightarrow> on_mbuf m f s = (r, upd_mbuf m (\<lambda>_. b) s)"
  by (simp add: on_mbuf_def)

text \<open>Freeing an allocated page succeeds and touches no other view.\<close>

lemma page_free_ok:
  assumes "kinv kend (km s) ps" and "page_ok kend pa" and "pa \<notin> set ps"
  obtains k where "page_free kend pa s = (Inr (), fill_views pa 1 (freelist (km s)) (s\<lparr>km := k\<rparr>))"
    "kinv kend k (pa # ps)"
proof -
  obtain k where k: "kfree kend pa (km s) = (Inr (), k)" "kinv kend k (pa # ps)"
    using kfree_keeps [OF assms] by blast
  show thesis by (rule that [OF _ k(2)]) (simp add: page_free_def in_km_def k(1))
qed

lemma page_alloc_ok:
  assumes "kinv kend (km s) (p # ps)"
  obtains k where "page_alloc kend s = (p, fill_views p 5 (bytes64 5) (s\<lparr>km := k\<rparr>))" "kinv kend k ps"
    "kdata k = memset p 5 4096 (kdata (km s))"
proof -
  obtain k where k: "kalloc kend (km s) = (p, k)" "kinv kend k ps" "kdata k = memset p 5 4096 (kdata (km s))"
    using kalloc_keeps [OF assms] by auto
  have "p \<noteq> 0" using assms page_ok_not_0 by (auto simp: kinv_def)
  then show thesis by (intro that [OF _ k(2) k(3)]) (simp add: page_alloc_def k(1))
qed

lemma page_alloc_none: "kinv kend (km s) [] \<Longrightarrow> page_alloc kend s = (0, s)"
  using kalloc_keeps [of kend "km s" "[]"] by (simp add: page_alloc_def)

lemma fill_views_simps [simp]:
  "mbufs (fill_views pa b nx s) = (mbufs s)(pa := mbuf_view pa b nx)"
  "socks (fill_views pa b nx s) = (socks s)(pa := sock_view b nx)"
  "pipes (fill_views pa b nx s) = (pipes s)(pa := pipe_view b)"
  "km (fill_views pa b nx s) = km s" "pt (fill_views pa b nx s) = pt s"
  "kst.more (fill_views pa b nx s) = kst.more s"
  by (simp_all add: fill_views_def)

end
