(* ===== verification/Xv7_Mbuf.thy ===== *)
theory Xv7_Mbuf
  imports Xv7_Kstate
begin

text \<open>
  Packet buffers of \<open>xv7/kernel/net.c\<close> and \<open>net.h\<close>: the operations on one buffer, queues of
  buffers, the byte order of the network, and the Internet checksum.  A header inside a
  buffer is the bytes at its distance from the start of the buffer.
\<close>

section \<open>net.h: byte order\<close>

definition bswaps :: "u16 \<Rightarrow> u16" where
  "bswaps val = push_bit 8 (val AND 0x00ff) OR drop_bit 8 (val AND 0xff00)"

definition bswapl :: "u32 \<Rightarrow> u32" where
  "bswapl val = push_bit 24 (val AND 0x000000ff) OR push_bit 8 (val AND 0x0000ff00) OR
     drop_bit 8 (val AND 0x00ff0000) OR drop_bit 24 (val AND 0xff000000)"

text \<open>Fields of a header: little endian, as the processor stores them.\<close>

definition get16 :: "int \<Rightarrow> (int \<Rightarrow> u8) \<Rightarrow> u16" where
  "get16 p b = ucast (b p) OR push_bit 8 (ucast (b (p + 1)))"

definition get32 :: "int \<Rightarrow> (int \<Rightarrow> u8) \<Rightarrow> u32" where
  "get32 p b = ucast (b p) OR push_bit 8 (ucast (b (p + 1))) OR push_bit 16 (ucast (b (p + 2))) OR
     push_bit 24 (ucast (b (p + 3)))"

definition put16 :: "int \<Rightarrow> u16 \<Rightarrow> (int \<Rightarrow> u8) \<Rightarrow> int \<Rightarrow> u8" where
  "put16 p v b = b(p := ucast v, p + 1 := ucast (drop_bit 8 v))"

definition put32 :: "int \<Rightarrow> u32 \<Rightarrow> (int \<Rightarrow> u8) \<Rightarrow> int \<Rightarrow> u8" where
  "put32 p v b = b(p := ucast v, p + 1 := ucast (drop_bit 8 v), p + 2 := ucast (drop_bit 16 v),
     p + 3 := ucast (drop_bit 24 v))"

fun put_bytes :: "int \<Rightarrow> u8 list \<Rightarrow> (int \<Rightarrow> u8) \<Rightarrow> int \<Rightarrow> u8" where
  "put_bytes p [] b = b"
| "put_bytes p (x # xs) b = put_bytes (p + 1) xs (b(p := x))"

definition get_bytes :: "int \<Rightarrow> nat \<Rightarrow> (int \<Rightarrow> u8) \<Rightarrow> u8 list" where
  "get_bytes p n b = map (\<lambda>i. b (p + int i)) [0..<n]"

section \<open>net.c: buffers\<close>

definition MBUF_SIZE :: u32 where "MBUF_SIZE = 2048"

definition mbufpull :: "u32 \<Rightarrow> mbuf \<Rightarrow> int option \<times> mbuf" where
  "mbufpull len m =
     (let tmp = m_head m
      in if m_len m < len then (None, m)
         else
           let m = m\<lparr>m_len := m_len m - len\<rparr>;
               m = m\<lparr>m_head := m_head m + uint len\<rparr>
           in (Some tmp, m))"

definition mbufpush :: "u32 \<Rightarrow> mbuf \<Rightarrow> (kfault, int, mbuf) outcome" where
  "mbufpush len m =
     (let m = m\<lparr>m_head := m_head m - uint len\<rparr>
      in if m_head m < 0 then (Inl (Panic ''mbufpush''), m)
         else let m = m\<lparr>m_len := m_len m + len\<rparr> in (Inr (m_head m), m))"

definition mbufput :: "u32 \<Rightarrow> mbuf \<Rightarrow> (kfault, int, mbuf) outcome" where
  "mbufput len m =
     (let tmp = m_head m + uint (m_len m);
          m = m\<lparr>m_len := m_len m + len\<rparr>
      in if MBUF_SIZE < m_len m then (Inl (Panic ''mbufput''), m) else (Inr tmp, m))"

definition mbuftrim :: "u32 \<Rightarrow> mbuf \<Rightarrow> int option \<times> mbuf" where
  "mbuftrim len m =
     (if m_len m < len then (None, m)
      else let m = m\<lparr>m_len := m_len m - len\<rparr> in (Some (m_head m + uint (m_len m)), m))"

definition mbufalloc :: "u64 \<Rightarrow> u32 \<Rightarrow> 'a kst_scheme \<Rightarrow> u64 \<times> 'a kst_scheme" where
  "mbufalloc kend headroom s =
     (if MBUF_SIZE < headroom then (0, s)
      else case page_alloc kend s of (m, s) \<Rightarrow>
        if m = 0 then (0, s)
        else
          let s = upd_mbuf m (\<lambda>b. b\<lparr>m_next := 0\<rparr>) s;
              s = upd_mbuf m (\<lambda>b. b\<lparr>m_head := uint headroom\<rparr>) s;
              s = upd_mbuf m (\<lambda>b. b\<lparr>m_len := 0\<rparr>) s
          in (m, upd_mbuf m (\<lambda>b. b\<lparr>m_buf := \<lambda>i. if 0 \<le> i \<and> i < 2048 then 0 else m_buf b i\<rparr>) s))"

definition mbuffree :: "u64 \<Rightarrow> u64 \<Rightarrow> 'a kst_scheme \<Rightarrow> (kfault, unit, 'a kst_scheme) outcome" where
  "mbuffree kend m s = page_free kend m s"

section \<open>net.c: queues\<close>

definition mbufq_pushtail :: "u64 \<Rightarrow> mbufq \<Rightarrow> 'a kst_scheme \<Rightarrow> mbufq \<times> 'a kst_scheme" where
  "mbufq_pushtail m q s =
     (let s = upd_mbuf m (\<lambda>b. b\<lparr>m_next := 0\<rparr>) s
      in if q_head q = 0 then (q\<lparr>q_head := m, q_tail := m\<rparr>, s)
         else (q\<lparr>q_tail := m\<rparr>, upd_mbuf (q_tail q) (\<lambda>b. b\<lparr>m_next := m\<rparr>) s))"

definition mbufq_pophead :: "mbufq \<Rightarrow> 'a kst_scheme \<Rightarrow> u64 \<times> mbufq" where
  "mbufq_pophead q s =
     (let head = q_head q
      in if head = 0 then (0, q) else (head, q\<lparr>q_head := m_next (mbufs s head)\<rparr>))"

definition mbufq_empty :: "mbufq \<Rightarrow> bool" where
  "mbufq_empty q \<longleftrightarrow> q_head q = 0"

definition mbufq_init :: "mbufq \<Rightarrow> mbufq" where
  "mbufq_init q = q\<lparr>q_head := 0\<rparr>"

section \<open>net.c: the checksum\<close>

function cksum_loop :: "(int \<Rightarrow> u8) \<Rightarrow> int \<Rightarrow> int \<Rightarrow> u32 \<Rightarrow> int \<times> int \<times> u32" where
  "cksum_loop b w nleft acc =
     (if 1 < nleft then cksum_loop b (w + 2) (nleft - 2) (acc + ucast (get16 w b)) else (w, nleft, acc))"
  by pat_completeness auto
termination
  by (relation "measure (\<lambda>(b, w, nleft, acc). nat nleft)") auto

declare cksum_loop.simps [simp del]

definition in_cksum :: "int \<Rightarrow> int \<Rightarrow> (int \<Rightarrow> u8) \<Rightarrow> u16" where
  "in_cksum addr len b =
     (case cksum_loop b addr len 0 of (w, nleft, acc) \<Rightarrow>
        let acc = (if nleft = 1 then acc + ucast (ucast (b w) :: u16) else acc);
            acc = (acc AND 0xffff) + drop_bit 16 acc;
            acc = acc + drop_bit 16 acc
        in ucast (NOT acc))"

section \<open>Fields of a header\<close>

lemma bswaps_swap [simp]: "bswaps (bswaps v) = v"
  by (rule bit_word_eqI) (auto simp: bswaps_def bit_simps and_masks)

lemma byte_masks:
  "(0x000000ff :: u32) = mask 8" "(0x0000ff00 :: u32) = push_bit 8 (mask 8)"
  "(0x00ff0000 :: u32) = push_bit 16 (mask 8)" "(0xff000000 :: u32) = push_bit 24 (mask 8)"
  by (simp_all add: mask_eq_exp_minus_1 push_bit_eq_mult)

lemma bit_bswapl:
  "n < 8 \<Longrightarrow> bit (bswapl v) n = bit v (n + 24)"
  "8 \<le> n \<Longrightarrow> n < 16 \<Longrightarrow> bit (bswapl v) n = bit v (n + 8)"
  "16 \<le> n \<Longrightarrow> n < 24 \<Longrightarrow> bit (bswapl v) n = bit v (n - 8)"
  "24 \<le> n \<Longrightarrow> n < 32 \<Longrightarrow> bit (bswapl v) n = bit v (n - 24)"
  unfolding bswapl_def byte_masks
  by (auto simp add: bit_simps add.commute simp del: mask_numeral push_bit_numeral)

lemma bswapl_swap [simp]: "bswapl (bswapl v) = v"
proof (rule bit_word_eqI)
  fix n assume "n < LENGTH(32)"
  then consider "n < 8" | "8 \<le> n" "n < 16" | "16 \<le> n" "n < 24" | "24 \<le> n" "n < 32" by fastforce
  then show "bit (bswapl (bswapl v)) n = bit v n"
    by cases (simp_all add: bit_bswapl)
qed

lemma get_put_same [simp]: "get16 p (put16 p v b) = v" "get32 p (put32 p w b) = w"
proof -
  show "get16 p (put16 p v b) = v" by (rule bit_word_eqI) (auto simp: get16_def put16_def bit_simps)
  show "get32 p (put32 p w b) = w"
  proof (rule bit_word_eqI)
    fix n assume "n < LENGTH(32)"
    then consider "n < 8" | "8 \<le> n" "n < 16" | "16 \<le> n" "n < 24" | "24 \<le> n" "n < 32" by fastforce
    then show "bit (get32 p (put32 p w b)) n = bit w n"
      by cases (auto simp: get32_def put32_def bit_simps)
  qed
qed

lemma get_put_other [simp]:
  "i + 2 \<le> p \<or> p + 2 \<le> i \<Longrightarrow> get16 i (put16 p v b) = get16 i b"
  "i + 2 \<le> p \<or> p + 4 \<le> i \<Longrightarrow> get16 i (put32 p w b) = get16 i b"
  "i + 4 \<le> p \<or> p + 2 \<le> i \<Longrightarrow> get32 i (put16 p v b) = get32 i b"
  "i + 4 \<le> p \<or> p + 4 \<le> i \<Longrightarrow> get32 i (put32 p w b) = get32 i b"
  "i + 1 \<le> p \<or> p + 2 \<le> i \<Longrightarrow> put16 p v b i = b i"
  "i + 1 \<le> p \<or> p + 4 \<le> i \<Longrightarrow> put32 p w b i = b i"
  by (auto simp: get16_def get32_def put16_def put32_def)

lemma get_upd_other [simp]:
  "i \<notin> {p..<p + 2} \<Longrightarrow> get16 p (b(i := x)) = get16 p b"
  "i \<notin> {p..<p + 4} \<Longrightarrow> get32 p (b(i := x)) = get32 p b"
  by (auto simp: get16_def get32_def)

lemma put_bytes_at: "put_bytes p xs b i = (if p \<le> i \<and> i < p + int (length xs) then xs ! nat (i - p) else b i)"
proof (induction xs arbitrary: p b)
  case (Cons x xs)
  have "nat (i - p) = Suc (nat (i - (p + 1)))" if "p < i" using that by simp
  then show ?case by (auto simp: Cons.IH)
qed auto

lemma get_put_bytes_other [simp]:
  "i + 2 \<le> p \<or> p + int (length xs) \<le> i \<Longrightarrow> get16 i (put_bytes p xs b) = get16 i b"
  "i + 4 \<le> p \<or> p + int (length xs) \<le> i \<Longrightarrow> get32 i (put_bytes p xs b) = get32 i b"
  by (auto simp: get16_def get32_def put_bytes_at)

lemma get_put_bytes: "get_bytes p (length xs) (put_bytes p xs b) = xs"
  by (rule nth_equalityI) (simp_all add: get_bytes_def put_bytes_at)

lemma get_bytes_cong: "(\<And>i. p \<le> i \<Longrightarrow> i < p + int n \<Longrightarrow> b i = c i) \<Longrightarrow> get_bytes p n b = get_bytes p n c"
  by (simp add: get_bytes_def)

lemma length_get_bytes [simp]: "length (get_bytes p n b) = n"
  by (simp add: get_bytes_def)

section \<open>The checksum\<close>

text \<open>One's complement addition of 16-bit words: a carry out of the top comes in at the bottom.\<close>

definition oc_add :: "nat \<Rightarrow> nat \<Rightarrow> nat" where
  "oc_add a b = (if a + b < 65536 then a + b else a + b - 65535)"

fun words16 :: "(int \<Rightarrow> u8) \<Rightarrow> int \<Rightarrow> nat \<Rightarrow> nat list" where
  "words16 b p 0 = []"
| "words16 b p (Suc 0) = [unat (b p)]"
| "words16 b p (Suc (Suc n)) = unat (get16 p b) # words16 b (p + 2) n"

text \<open>The representative of a sum modulo 65535, 0 only for the sum 0.\<close>

definition fold16 :: "nat \<Rightarrow> nat" where
  "fold16 n = (if n = 0 then 0 else (n - 1) mod 65535 + 1)"

lemma fold16_le: "fold16 n \<le> 65535" "fold16 n < 65536"
  using mod_less_divisor [of 65535 "n - 1"] by (auto simp: fold16_def)

lemma fold16_small: "n \<le> 65535 \<Longrightarrow> fold16 n = n"
  by (auto simp: fold16_def)

lemma fold16_carry: "1 \<le> t \<Longrightarrow> fold16 (65535 * h + t) = fold16 t"
proof -
  assume t: "1 \<le> t"
  then have "65535 * h + t - 1 = (t - 1) + 65535 * h" by simp
  then have "(65535 * h + t - 1) mod 65535 = (t - 1) mod 65535" by (metis mod_mult_self2)
  then show ?thesis using t by (simp add: fold16_def)
qed

lemma oc_add_fold:
  assumes "b \<le> 65535"
  shows "oc_add (fold16 a) b = fold16 (a + b)"
proof (cases "a = 0")
  case True
  then show ?thesis using assms by (simp add: oc_add_def fold16_small)
next
  case False
  define q r where "q = (a - 1) div 65535" and "r = (a - 1) mod 65535"
  have "65535 * q + r = a - 1" unfolding q_def r_def by (rule mult_div_mod_eq)
  then have a: "a = 65535 * q + (r + 1)" using False by simp
  have r: "r < 65535" by (simp add: r_def)
  have fa: "fold16 a = r + 1" unfolding a using r by (simp only: fold16_carry) (simp add: fold16_small)
  have ab: "fold16 (a + b) = fold16 (r + 1 + b)"
    unfolding a using fold16_carry [of "r + 1 + b" q] by (simp add: ac_simps)
  show ?thesis
  proof (cases "r + 1 + b < 65536")
    case True
    then show ?thesis unfolding ab fa by (simp add: oc_add_def fold16_small)
  next
    case False
    then have "fold16 (r + 1 + b) = fold16 (65535 * 1 + (r + 1 + b - 65535))" by simp
    also have "\<dots> = fold16 (r + 1 + b - 65535)" by (rule fold16_carry) (use False in simp)
    also have "\<dots> = r + 1 + b - 65535" by (rule fold16_small) (use r assms in simp)
    finally show ?thesis unfolding ab fa using False by (simp add: oc_add_def)
  qed
qed

lemma foldl_oc_add:
  assumes "\<forall>w \<in> set ws. w \<le> 65535"
  shows "foldl oc_add (fold16 a) ws = fold16 (a + sum_list ws)"
  using assms by (induction ws arbitrary: a) (simp_all add: oc_add_fold add.assoc)

lemma words16_bound: "w \<in> set (words16 b p n) \<Longrightarrow> w \<le> 65535"
proof (induction b p n rule: words16.induct)
  case (2 b p)
  then show ?case using unsigned_less [of "b p", where ?'a = nat] by simp
next
  case (3 b p n)
  then show ?case using unsigned_less [of "get16 p b", where ?'a = nat] by auto
qed simp

lemma words16_length: "length (words16 b p n) = (n + 1) div 2"
  by (induction b p n rule: words16.induct) simp_all

lemma sum_bounded: "\<forall>w \<in> set ws. w \<le> (c :: nat) \<Longrightarrow> sum_list ws \<le> c * length ws"
  by (induction ws) auto

text \<open>The loop adds up the words; an odd byte is added as a word of its own.\<close>

lemma cksum_loop_sum:
  "(case cksum_loop b w (int n) acc of (w', k, a) \<Rightarrow> if k = 1 then a + ucast (ucast (b w') :: u16) else a) =
     acc + of_nat (sum_list (words16 b w n))"
proof (induction b w n arbitrary: acc rule: words16.induct)
  case (1 b p)
  then show ?case by (simp add: cksum_loop.simps)
next
  case (2 b p)
  have "ucast (ucast (b p) :: u16) = (of_nat (unat (b p)) :: u32)"
    using unsigned_less [of "b p", where ?'a = nat]
    by (intro word_unat_eq_iff [THEN iffD2]) (simp add: unsigned_ucast_eq unsigned_take_bit_eq take_bit_nat_eq_self)
  then show ?case by (simp add: cksum_loop.simps)
next
  case (3 b p n)
  have "cksum_loop b p (int (Suc (Suc n))) acc = cksum_loop b (p + 2) (int n) (acc + ucast (get16 p b))"
    by (subst cksum_loop.simps) simp
  moreover have "(ucast (get16 p b) :: u32) = of_nat (unat (get16 p b))" by simp
  ultimately show ?case by (simp only: 3(1) words16.simps sum_list.Cons of_nat_add add.assoc)
qed

lemma cksum_fold_nat:
  assumes "S < 2 ^ 32"
  shows "(let a = (of_nat S AND 0xffff) + drop_bit 16 (of_nat S) :: u32 in ucast (NOT (a + drop_bit 16 a)) :: u16)
    = NOT (of_nat (fold16 S))"
proof -
  define h l where "h = S div 65536" and "l = S mod 65536"
  have S: "S = 65536 * h + l" by (simp add: h_def l_def)
  have hl: "h < 65536" "l < 65536" using assms by (auto simp: h_def l_def)
  define a :: u32 where "a = (of_nat S AND 0xffff) + drop_bit 16 (of_nat S)"
  have uS: "unat (of_nat S :: u32) = S" using assms by (simp add: unat_of_nat take_bit_nat_eq_self)
  have m: "(0xffff :: u32) = mask 16" by (simp add: mask_eq_exp_minus_1)
  have "unat (of_nat S AND 0xffff :: u32) = l"
    unfolding m l_def take_bit_eq_mask [symmetric] unsigned_take_bit_eq uS by (simp add: take_bit_eq_mod)
  moreover have "unat (drop_bit 16 (of_nat S) :: u32) = h"
    unfolding h_def by (subst unsigned_drop_bit_eq) (use uS assms in \<open>simp add: drop_bit_eq_div take_bit_nat_eq_self\<close>)
  ultimately have ua: "unat a = l + h" unfolding a_def using hl by (subst unat_word_ariths(1)) simp
  have "unat (drop_bit 16 a) = (l + h) div 65536"
    by (subst unsigned_drop_bit_eq) (use ua hl in \<open>simp add: drop_bit_eq_div take_bit_nat_eq_self\<close>)
  then have ub: "unat (a + drop_bit 16 a) = l + h + (l + h) div 65536"
    using ua hl by (subst unat_word_ariths(1)) simp
  have f: "(l + h + (l + h) div 65536) mod 65536 = fold16 S"
  proof -
    have S': "S = 65535 * h + (l + h)" using S by simp
    consider "l + h = 0" | "1 \<le> l + h" "l + h < 65536" | "65536 \<le> l + h" by linarith
    then show ?thesis
    proof cases
      case 1
      then show ?thesis using S by (simp add: fold16_def)
    next
      case 2
      then have "fold16 S = l + h" unfolding S' by (simp only: fold16_carry) (simp add: fold16_small)
      then show ?thesis using 2 by simp
    next
      case 3
      have "S = 65535 * (h + 1) + (l + h - 65535)" using S' 3 by simp
      then have "fold16 S = l + h - 65535" using 3 hl by (simp only: fold16_carry) (simp add: fold16_small)
      moreover have "(l + h) div 65536 = 1" using 3 hl by simp
      moreover have "(l + h + 1) mod 65536 = l + h + 1 - 65536" using 3 hl by (simp add: mod_if)
      ultimately show ?thesis using 3 by simp
    qed
  qed
  have "(ucast (NOT (a + drop_bit 16 a)) :: u16) = NOT (ucast (a + drop_bit 16 a))"
    by (rule bit_word_eqI) (auto simp: bit_simps)
  also have "(ucast (a + drop_bit 16 a) :: u16) = of_nat (fold16 S)"
    by (rule word_unat_eq_iff [THEN iffD2])
      (simp add: unsigned_ucast_eq ub take_bit_eq_mod f unat_of_nat fold16_le mod_less)
  finally show ?thesis by (simp add: a_def Let_def)
qed

lemma in_cksum_fold:
  assumes "n \<le> 131074"
  shows "in_cksum addr (int n) b = NOT (of_nat (fold16 (sum_list (words16 b addr n))))"
proof -
  have "sum_list (words16 b addr n) \<le> 65535 * ((n + 1) div 2)"
    using sum_bounded [of "words16 b addr n" 65535] words16_bound by (simp add: words16_length)
  moreover have "(n + 1) div 2 \<le> 65537" using div_le_mono [of "n + 1" "131075" 2] assms by simp
  ultimately have S: "sum_list (words16 b addr n) < 2 ^ 32" by simp
  obtain w k a where l: "cksum_loop b addr (int n) 0 = (w, k, a)" by (cases "cksum_loop b addr (int n) 0")
  have "(if k = 1 then a + ucast (ucast (b w) :: u16) else a) = of_nat (sum_list (words16 b addr n))"
    using cksum_loop_sum [of b addr n 0] by (simp add: l)
  then show ?thesis using cksum_fold_nat [OF S] by (simp only: in_cksum_def l prod.case Let_def)
qed

text \<open>C32: \<open>in_cksum\<close>, which adds in 32 bits and folds the carries back at the end, computes the
  complement of the one's complement sum of the 16-bit words of the buffer (an odd last byte counts
  as a word), for every buffer of up to 131074 bytes.\<close>

theorem in_cksum_is_ones_complement:
  assumes "n \<le> 131074"
  shows "in_cksum addr (int n) b = NOT (of_nat (foldl oc_add 0 (words16 b addr n)))"
  using foldl_oc_add [of "words16 b addr n" 0] words16_bound
  by (simp add: in_cksum_fold [OF assms] fold16_small)

theorem in_cksum_is_ones_complement_witness:
  "in_cksum 0 (int 5) (\<lambda>i. if even i then 255 else 240) =
     NOT (of_nat (foldl oc_add 0 (words16 (\<lambda>i. if even i then 255 else 240) 0 5)))"
  by (rule in_cksum_is_ones_complement) simp

text \<open>A header whose checksum field was computed with the field zero has checksum 0.\<close>

lemma sum_words_upd:
  assumes "even k" and "k + 2 \<le> n" and "get16 (p + int k) b = 0"
  shows "sum_list (words16 (put16 (p + int k) v b) p n) = sum_list (words16 b p n) + unat v"
  using assms
proof (induction b p n arbitrary: k rule: words16.induct)
  case (3 b p n)
  show ?case
  proof (cases "k = 0")
    case True
    have "words16 (put16 p v b) q n = words16 b q n" if "p + 2 \<le> q" for q
      using that by (induction b q n rule: words16.induct) auto
    then show ?thesis using 3 True by simp
  next
    case False
    then obtain k' where k: "k = k' + 2" "even k'" using 3(2) by (cases k; cases "k - 1") (auto)
    then show ?thesis using 3(1) [of k'] 3(3,4) by (simp add: add.commute add.left_commute)
  qed
qed simp_all

lemma cksum_verifies:
  assumes "even k" and "k + 2 \<le> n" and "n \<le> 131070" and "get16 (p + int k) b = 0" and "0 < sum_list (words16 b p n)"
  shows "in_cksum p (int n) (put16 (p + int k) (in_cksum p (int n) b) b) = 0"
proof -
  let ?S = "sum_list (words16 b p n)"
  have c: "in_cksum p (int n) b = NOT (of_nat (fold16 ?S))" using assms(3) by (intro in_cksum_fold) simp
  have "unat (NOT (of_nat (fold16 ?S)) :: u16) = unat (- 1 - of_nat (fold16 ?S) :: u16)" unfolding not_eq_complement by (rule arg_cong [OF minus_diff_commute])
  also have "\<dots> = 65535 - fold16 ?S"
    using fold16_le [of ?S] by (subst unat_sub)
      (simp_all add: unat_of_nat take_bit_nat_eq_self unsigned_minus_1_eq_mask mask_eq_exp_minus_1)
  finally have "unat (NOT (of_nat (fold16 ?S)) :: u16) = 65535 - fold16 ?S" .
  then have s: "sum_list (words16 (put16 (p + int k) (in_cksum p (int n) b) b) p n) = ?S + (65535 - fold16 ?S)"
    by (simp add: sum_words_upd [OF assms(1,2,4)] c)
  have "fold16 (?S + (65535 - fold16 ?S)) = oc_add (fold16 ?S) (65535 - fold16 ?S)" by (simp add: oc_add_fold)
  also have "\<dots> = 65535" using fold16_le [of ?S] by (simp add: oc_add_def)
  finally have f: "fold16 (?S + (65535 - fold16 ?S)) = 65535" .
  have "n \<le> 131074" using assms(3) by simp
  note in_cksum_fold [OF this, of p "put16 (p + int k) (in_cksum p (int n) b) b", unfolded s f]
  then show ?thesis by simp
qed

section \<open>Queues\<close>

text \<open>
  What a socket relies on: a queue of packets in the memory is a list, first in first out.
  \<open>rep q s xs\<close> says that the descriptor \<open>q\<close> holds \<open>xs\<close> in the state \<open>s\<close>; \<open>fresh\<close> is what the
  provider asks of a packet that is pushed.
\<close>

locale packet_queue =
  fixes rep :: "'q \<Rightarrow> 's \<Rightarrow> 'a list \<Rightarrow> bool" and fresh :: "'a \<Rightarrow> bool"
    and push :: "'a \<Rightarrow> 'q \<Rightarrow> 's \<Rightarrow> 'q \<times> 's" and pop :: "'q \<Rightarrow> 's \<Rightarrow> 'a \<times> 'q" and empty :: "'q \<Rightarrow> bool"
  assumes push_law: "rep q s xs \<Longrightarrow> fresh x \<Longrightarrow> x \<notin> set xs \<Longrightarrow> push x q s = (q', s') \<Longrightarrow> rep q' s' (xs @ [x])"
    and pop_law: "rep q s (x # xs) \<Longrightarrow> fst (pop q s) = x \<and> rep (snd (pop q s)) s xs"
    and empty_law: "rep q s xs \<Longrightarrow> empty q \<longleftrightarrow> xs = []"
begin

fun push_all :: "'a list \<Rightarrow> 'q \<Rightarrow> 's \<Rightarrow> 'q \<times> 's" where
  "push_all [] q s = (q, s)"
| "push_all (x # xs) q s = (case push x q s of (q, s) \<Rightarrow> push_all xs q s)"

fun pop_all :: "nat \<Rightarrow> 'q \<Rightarrow> 's \<Rightarrow> 'a list \<times> 'q" where
  "pop_all 0 q s = ([], q)"
| "pop_all (Suc n) q s = (case pop q s of (x, q) \<Rightarrow> (case pop_all n q s of (xs, q) \<Rightarrow> (x # xs, q)))"

lemma push_all_rep:
  "rep q s ys \<Longrightarrow> \<forall>x \<in> set xs. fresh x \<Longrightarrow> distinct (ys @ xs) \<Longrightarrow> push_all xs q s = (q', s') \<Longrightarrow> rep q' s' (ys @ xs)"
proof (induction xs arbitrary: q s ys)
  case (Cons x xs)
  obtain q1 s1 where p: "push x q s = (q1, s1)" by (cases "push x q s")
  then have "rep q1 s1 (ys @ [x])" using push_law Cons.prems by auto
  from Cons.IH [OF this] show ?case using Cons.prems p by auto
qed simp

lemma pop_all_rep: "rep q s (xs @ ys) \<Longrightarrow> fst (pop_all (length xs) q s) = xs \<and> rep (snd (pop_all (length xs) q s)) s ys"
proof (induction xs arbitrary: q)
  case (Cons x xs)
  obtain y q1 where p: "pop q s = (y, q1)" by (cases "pop q s")
  then have "y = x" "rep q1 s (xs @ ys)" using pop_law [of q s x "xs @ ys"] Cons.prems by auto
  then show ?case using Cons.IH [of q1] p by (auto split: prod.splits)
qed simp

text \<open>What is pushed comes out in the order it went in.\<close>

lemma in_order:
  assumes "rep q s []" and "\<forall>x \<in> set xs. fresh x" and "distinct xs" and "push_all xs q s = (q', s')"
  shows "fst (pop_all (length xs) q' s') = xs \<and> empty (snd (pop_all (length xs) q' s'))"
proof -
  have "rep q' s' xs" using push_all_rep [of q s "[]" xs q' s'] assms by simp
  then show ?thesis using pop_all_rep [of q' s' xs "[]"] empty_law by auto
qed

end

definition queue_rep :: "mbufq \<Rightarrow> 'a kst_scheme \<Rightarrow> u64 list \<Rightarrow> bool" where
  "queue_rep q s ms \<longleftrightarrow> fchain (\<lambda>m. m_next (mbufs s m)) (q_head q) ms \<and> distinct ms \<and> (ms \<noteq> [] \<longrightarrow> q_tail q = last ms)"

lemma fchain_append_one:
  assumes "fchain nx p xs" and "distinct xs" and "x \<notin> set xs" and "x \<noteq> 0"
  shows "fchain (if xs = [] then nx(x := 0) else nx(x := 0, last xs := x)) (if xs = [] then x else p) (xs @ [x])"
  using assms
proof (induction xs arbitrary: p)
  case (Cons y xs)
  show ?case
  proof (cases xs)
    case Nil
    then show ?thesis using Cons.prems by auto
  next
    case (Cons z zs)
    have "last xs \<noteq> y" using Cons Cons.prems(2) last_in_set [of xs] by auto
    moreover have "fchain (nx(x := 0, last xs := x)) (nx y) (xs @ [x])"
    proof -
      have ne: "xs \<noteq> []" using Cons by simp
      have "fchain (if xs = [] then nx(x := 0) else nx(x := 0, last xs := x)) (if xs = [] then x else nx y) (xs @ [x])"
        by (rule Cons.IH) (use Cons.prems in auto)
      then show ?thesis by (simp only: ne if_False)
    qed
    moreover have "y \<noteq> x" "p = y" "y \<noteq> 0" using Cons.prems by auto
    ultimately show ?thesis using Cons by (simp only: fchain.simps append.simps last.simps if_False list.distinct) simp
  qed
qed simp

lemma pushtail_rep:
  assumes "queue_rep q s ms" and "m \<noteq> 0" and "m \<notin> set ms" and "mbufq_pushtail m q s = (q', s')"
  shows "queue_rep q' s' (ms @ [m])"
proof (cases "ms = []")
  case True
  then show ?thesis using assms by (auto simp: queue_rep_def mbufq_pushtail_def)
next
  case False
  then have "q_head q \<noteq> 0" "q_tail q = last ms" "last ms \<noteq> m"
    using assms last_in_set [of ms] by (cases ms; auto simp: queue_rep_def)+
  moreover have "(\<lambda>x. m_next (mbufs (upd_mbuf (last ms) (\<lambda>b. b\<lparr>m_next := m\<rparr>) (upd_mbuf m (\<lambda>b. b\<lparr>m_next := 0\<rparr>) s)) x))
      = (\<lambda>x. m_next (mbufs s x))(m := 0, last ms := m)"
    by (auto simp: fun_eq_iff)
  ultimately show ?thesis
    using fchain_append_one [of "\<lambda>x. m_next (mbufs s x)" "q_head q" ms m] assms False
    by (auto simp: queue_rep_def mbufq_pushtail_def Let_def simp del: upd_views)
qed

lemma pophead_rep:
  "queue_rep q s (m # ms) \<Longrightarrow> fst (mbufq_pophead q s) = m \<and> queue_rep (snd (mbufq_pophead q s)) s ms"
  by (auto simp: queue_rep_def mbufq_pophead_def)

interpretation mq: packet_queue queue_rep "\<lambda>m. m \<noteq> 0" mbufq_pushtail mbufq_pophead mbufq_empty
proof
  show "queue_rep q s xs \<Longrightarrow> mbufq_empty q \<longleftrightarrow> xs = []" for q and s :: "'a kst_scheme" and xs
    by (cases xs) (auto simp: queue_rep_def mbufq_empty_def)
qed (auto intro: pushtail_rep dest: pophead_rep)

end
