(* ===== verification/Xv7_Socket.thy ===== *)
theory Xv7_Socket
  imports Xv7_Mbuf
begin

text \<open>
  The state of the network stack and the sockets of \<open>xv7/kernel/sysnet.c\<close>.  A socket is a page,
  named by its address; the sockets form a list through \<open>so_next\<close>.  What runs under the
  table's lock or a socket's lock is one step; a reader of an empty queue sleeps and starts
  again when it is woken.
\<close>

section \<open>e1000_dev.h, e1000.c: the state of the driver\<close>

record tx_desc =
  td_addr :: u64
  td_length :: u16
  td_cso :: u8
  td_cmd :: u8
  td_status :: u8
  td_css :: u8
  td_special :: u16

record rx_desc =
  rd_addr :: u64
  rd_length :: u16
  rd_csum :: u16
  rd_status :: u8
  rd_errors :: u8
  rd_special :: u16

text \<open>The registers of the card are memory that the driver writes; the rings are shared with the card.\<close>

record netst = kst +
  sockets :: u64
  tx_ring :: "nat \<Rightarrow> tx_desc"
  tx_mbufs :: "nat \<Rightarrow> u64"
  rx_ring :: "nat \<Rightarrow> rx_desc"
  rx_mbufs :: "nat \<Rightarrow> u64"
  regs :: "nat \<Rightarrow> u32"

section \<open>sysnet.c\<close>

text \<open>\<open>&so->rxq\<close>, the channel on which readers sleep.\<close>

definition rxq_chan :: "u64 \<Rightarrow> chan" where
  "rxq_chan so = ObjChan (so + 48)"

definition same_key :: "u32 \<Rightarrow> u16 \<Rightarrow> u16 \<Rightarrow> sock \<Rightarrow> bool" where
  "same_key raddr lport rport so \<longleftrightarrow> so_raddr so = raddr \<and> so_lport so = lport \<and> so_rport so = rport"

text \<open>
  The walks over the list of sockets end after as many turns as there are pages
  (\<open>2 ^ 27 / 2 ^ 12\<close>), or the list is cyclic and they never end.
\<close>

definition NPAGES :: nat where "NPAGES = 32768"

fun sock_find :: "nat \<Rightarrow> (sock \<Rightarrow> bool) \<Rightarrow> u64 \<Rightarrow> 'a kst_scheme \<Rightarrow> kfault + u64" where
  "sock_find 0 P pos s = (if pos = 0 then Inr 0 else Inl (Wild ''sockets: cyclic''))"
| "sock_find (Suc n) P pos s =
     (if pos = 0 then Inr 0
      else if P (socks s pos) then Inr pos
      else sock_find n P (so_next (socks s pos)) s)"

definition sockrecvudp :: "u64 \<Rightarrow> u64 \<Rightarrow> u32 \<Rightarrow> u16 \<Rightarrow> u16 \<Rightarrow> 'a netst_scheme \<Rightarrow> (kfault, unit, 'a netst_scheme) outcome" where
  "sockrecvudp kend m raddr lport rport s =
     (case sock_find NPAGES (same_key raddr lport rport) (sockets s) s of
        Inl e \<Rightarrow> (Inl e, s)
      | Inr so \<Rightarrow>
          if so = 0 then mbuffree kend m s
          else
            case mbufq_pushtail m (so_rxq (socks s so)) s of (q, s) \<Rightarrow>
              let s = upd_sock so (\<lambda>x. x\<lparr>so_rxq := q\<rparr>) s
              in (Inr (), upd_pt (wakeup (rxq_chan so)) s))"

text \<open>The second loop of \<open>sockclose\<close>, from the second element on.\<close>

fun sock_unlink :: "nat \<Rightarrow> u64 \<Rightarrow> u64 \<Rightarrow> 'a kst_scheme \<Rightarrow> (kfault, unit, 'a kst_scheme) outcome" where
  "sock_unlink 0 so sop s = (if sop \<noteq> 0 \<and> so_next (socks s sop) \<noteq> 0 then (Inl (Wild ''sockets: cyclic''), s) else (Inr (), s))"
| "sock_unlink (Suc n) so sop s =
     (if sop \<noteq> 0 \<and> so_next (socks s sop) \<noteq> 0 then
        let nx = so_next (socks s sop); x = socks s so
        in if same_key (so_raddr x) (so_lport x) (so_rport x) (socks s nx)
           then (Inr (), upd_sock sop (\<lambda>y. y\<lparr>so_next := so_next x\<rparr>) s)
           else sock_unlink n so nx s
      else (Inr (), s))"

definition sockclose :: "u64 \<Rightarrow> u64 \<Rightarrow> 'a netst_scheme \<Rightarrow> (kfault, unit, 'a netst_scheme) outcome" where
  "sockclose kend so s =
     (let s = upd_pt (wakeup (rxq_chan so)) s;
          sop = sockets s
      in if sop = 0 then (Inl (Wild ''sockclose: sop->next''), s)
         else
           let s = (if so_next (socks s sop) = 0 then s\<lparr>sockets := 0\<rparr> else s)
           in bindS (sock_unlink NPAGES so sop s) (\<lambda>_ s. page_free kend so s))"

text \<open>\<open>p\<close> is the calling process.  The comparison of \<open>n\<close> with \<open>m->len\<close> is unsigned.\<close>

definition sockread :: "u64 \<Rightarrow> nat \<Rightarrow> u64 \<Rightarrow> u64 \<Rightarrow> int \<Rightarrow> 'a netst_scheme \<Rightarrow> (kfault, int, 'a netst_scheme) outcome" where
  "sockread kend p so addr n s =
     (if mbufq_empty (so_rxq (socks s so)) then (Inl (Asleep ''sockread''), s)
      else
        case mbufq_pophead (so_rxq (socks s so)) s of (m, q) \<Rightarrow>
          let s = upd_sock so (\<lambda>x. x\<lparr>so_rxq := q\<rparr>) s;
              b = mbufs s m;
              len = (if word_of_int n < m_len b then n else uint (m_len b))
          in case copyout kend (pagetable (procs (pt s) p)) addr (get_bytes (m_head b) (nat len) (m_buf b)) (km s) of
               (r, k) \<Rightarrow>
                 let s = s\<lparr>km := k\<rparr>
                 in if r = -1 then bindS (mbuffree kend m s) (\<lambda>_ s. (Inr (-1), s))
                    else bindS (mbuffree kend m s) (\<lambda>_ s. (Inr len, s)))"

end
