(* ===== verification/Xv7_Net.thy ===== *)
theory Xv7_Net
  imports Xv7_Socket
begin

text \<open>
  The protocol layers of \<open>xv7/kernel/net.c\<close> over the driver of \<open>xv7/kernel/e1000.c\<close>: sending
  and receiving Ethernet, ARP, IP and UDP, and the two rings.  What the card does (it sends a
  packet and sets DD in its descriptor; it fills a receive buffer, writes its length and sets
  DD) happens between the operations.
\<close>

section \<open>e1000.c\<close>

definition RING_SIZE :: nat where "RING_SIZE = 16"

definition E1000_CTL :: nat where "E1000_CTL = 0x00000 div 4"
definition E1000_IMS :: nat where "E1000_IMS = 0x000D0 div 4"
definition E1000_RCTL :: nat where "E1000_RCTL = 0x00100 div 4"
definition E1000_TCTL :: nat where "E1000_TCTL = 0x00400 div 4"
definition E1000_TIPG :: nat where "E1000_TIPG = 0x00410 div 4"
definition E1000_RDBAL :: nat where "E1000_RDBAL = 0x02800 div 4"
definition E1000_RDLEN :: nat where "E1000_RDLEN = 0x02808 div 4"
definition E1000_RDH :: nat where "E1000_RDH = 0x02810 div 4"
definition E1000_RDT :: nat where "E1000_RDT = 0x02818 div 4"
definition E1000_RDTR :: nat where "E1000_RDTR = 0x02820 div 4"
definition E1000_RADV :: nat where "E1000_RADV = 0x0282C div 4"
definition E1000_TDBAL :: nat where "E1000_TDBAL = 0x03800 div 4"
definition E1000_TDLEN :: nat where "E1000_TDLEN = 0x03808 div 4"
definition E1000_TDH :: nat where "E1000_TDH = 0x03810 div 4"
definition E1000_TDT :: nat where "E1000_TDT = 0x03818 div 4"
definition E1000_MTA :: nat where "E1000_MTA = 0x05200 div 4"
definition E1000_RA :: nat where "E1000_RA = 0x05400 div 4"

definition E1000_STAT_DD :: u8 where "E1000_STAT_DD = 1"

definition set_reg :: "nat \<Rightarrow> u32 \<Rightarrow> 'a netst_scheme \<Rightarrow> 'a netst_scheme" where
  "set_reg r v s = s\<lparr>regs := (regs s)(r := v)\<rparr>"

definition upd_tx :: "nat \<Rightarrow> (tx_desc \<Rightarrow> tx_desc) \<Rightarrow> 'a netst_scheme \<Rightarrow> 'a netst_scheme" where
  "upd_tx i f s = s\<lparr>tx_ring := (tx_ring s)(i := f (tx_ring s i))\<rparr>"

definition upd_rx :: "nat \<Rightarrow> (rx_desc \<Rightarrow> rx_desc) \<Rightarrow> 'a netst_scheme \<Rightarrow> 'a netst_scheme" where
  "upd_rx i f s = s\<lparr>rx_ring := (rx_ring s)(i := f (rx_ring s i))\<rparr>"

definition set_tx_mbuf :: "nat \<Rightarrow> u64 \<Rightarrow> 'a netst_scheme \<Rightarrow> 'a netst_scheme" where
  "set_tx_mbuf i m s = s\<lparr>tx_mbufs := (tx_mbufs s)(i := m)\<rparr>"

definition set_rx_mbuf :: "nat \<Rightarrow> u64 \<Rightarrow> 'a netst_scheme \<Rightarrow> 'a netst_scheme" where
  "set_rx_mbuf i m s = s\<lparr>rx_mbufs := (rx_mbufs s)(i := m)\<rparr>"

text \<open>The address \<open>m->head\<close>.\<close>

definition head_addr :: "u64 \<Rightarrow> 'a kst_scheme \<Rightarrow> u64" where
  "head_addr m s = m + 20 + word_of_int (m_head (mbufs s m))"

text \<open>\<open>memset(tx_ring, 0, ...)\<close> and the loop after it; the same for the receive ring.\<close>

fun init_tx :: "nat list \<Rightarrow> 'a netst_scheme \<Rightarrow> 'a netst_scheme" where
  "init_tx [] s = s"
| "init_tx (i # is) s =
     init_tx is (set_tx_mbuf i 0 (upd_tx i (\<lambda>d. d\<lparr>td_status := E1000_STAT_DD\<rparr>) s))"

fun init_rx :: "u64 \<Rightarrow> nat list \<Rightarrow> 'a netst_scheme \<Rightarrow> (kfault, unit, 'a netst_scheme) outcome" where
  "init_rx kend [] s = (Inr (), s)"
| "init_rx kend (i # is) s =
     (case mbufalloc kend 0 s of (m, s) \<Rightarrow>
        let s = set_rx_mbuf i m s
        in if m = 0 then (Inl (Panic ''e1000''), s)
           else init_rx kend is (upd_rx i (\<lambda>d. d\<lparr>rd_addr := head_addr m s\<rparr>) s))"

definition zero_tx :: tx_desc where
  "zero_tx = \<lparr>td_addr = 0, td_length = 0, td_cso = 0, td_cmd = 0, td_status = 0, td_css = 0, td_special = 0\<rparr>"

definition zero_rx :: rx_desc where
  "zero_rx = \<lparr>rd_addr = 0, rd_length = 0, rd_csum = 0, rd_status = 0, rd_errors = 0, rd_special = 0\<rparr>"

fun zero_regs :: "nat list \<Rightarrow> 'a netst_scheme \<Rightarrow> 'a netst_scheme" where
  "zero_regs [] s = s"
| "zero_regs (r # rs) s = zero_regs rs (set_reg r 0 s)"

text \<open>\<open>txr\<close> and \<open>rxr\<close> are the addresses of the two rings (16 descriptors of 16 bytes).\<close>

definition e1000_init :: "u64 \<Rightarrow> u64 \<Rightarrow> u64 \<Rightarrow> 'a netst_scheme \<Rightarrow> (kfault, unit, 'a netst_scheme) outcome" where
  "e1000_init kend txr rxr s =
     (let s = set_reg E1000_IMS 0 s;
          s = set_reg E1000_CTL (regs s E1000_CTL OR 0x00400000) s;
          s = set_reg E1000_IMS 0 s;
          s = s\<lparr>tx_ring := \<lambda>i. if i < RING_SIZE then zero_tx else tx_ring s i\<rparr>;
          s = init_tx [0..<RING_SIZE] s;
          s = set_reg E1000_TDBAL (ucast txr) s;
          s = set_reg E1000_TDLEN 256 s;
          s = set_reg E1000_TDT 0 s;
          s = set_reg E1000_TDH 0 s;
          s = s\<lparr>rx_ring := \<lambda>i. if i < RING_SIZE then zero_rx else rx_ring s i\<rparr>
      in bindS (init_rx kend [0..<RING_SIZE] s) (\<lambda>_ s.
           let s = set_reg E1000_RDBAL (ucast rxr) s;
               s = set_reg E1000_RDH 0 s;
               s = set_reg E1000_RDT (of_nat RING_SIZE - 1) s;
               s = set_reg E1000_RDLEN 256 s;
               s = set_reg E1000_RA 0x12005452 s;
               s = set_reg (E1000_RA + 1) (0x5634 OR push_bit 31 1) s;
               s = zero_regs (map (\<lambda>i. E1000_MTA + i) [0..<4096 div 32]) s;
               s = set_reg E1000_TCTL (0x2 OR 0x8 OR push_bit 4 0x10 OR push_bit 12 0x40) s;
               s = set_reg E1000_TIPG (10 OR push_bit 10 8 OR push_bit 20 6) s;
               s = set_reg E1000_RCTL (0x2 OR 0x8000 OR 0 OR 0x04000000) s;
               s = set_reg E1000_RDTR 0 s;
               s = set_reg E1000_RADV 0 s
           in (Inr (), set_reg E1000_IMS (push_bit 7 1) s)))"

definition e1000_transmit :: "u64 \<Rightarrow> u64 \<Rightarrow> 'a netst_scheme \<Rightarrow> (kfault, int, 'a netst_scheme) outcome" where
  "e1000_transmit kend m s =
     (let desc_pos = unat (regs s E1000_TDT)
      in if RING_SIZE \<le> desc_pos then (Inl (Wild ''tx_ring[desc_pos]''), s)
         else if td_status (tx_ring s desc_pos) AND E1000_STAT_DD = 0 then (Inr (-1), s)
         else
           bindS (if tx_mbufs s desc_pos \<noteq> 0 then mbuffree kend (tx_mbufs s desc_pos) s else (Inr (), s)) (\<lambda>_ s.
             let s = set_tx_mbuf desc_pos m s;
                 s = upd_tx desc_pos (\<lambda>d. d\<lparr>td_addr := head_addr m s\<rparr>) s;
                 s = upd_tx desc_pos (\<lambda>d. d\<lparr>td_length := ucast (m_len (mbufs s m))\<rparr>) s;
                 s = upd_tx desc_pos (\<lambda>d. d\<lparr>td_cmd := 0x08 OR 0x01\<rparr>) s
             in (Inr 0, set_reg E1000_TDT ((of_nat desc_pos + 1) mod of_nat RING_SIZE) s)))"

section \<open>net.c: sending\<close>

definition local_ip :: u32 where
  "local_ip = push_bit 24 10 OR push_bit 16 0 OR push_bit 8 2 OR 15"

definition local_mac :: "u8 list" where
  "local_mac = [0x52, 0x54, 0x00, 0x12, 0x34, 0x56]"

definition broadcast_mac :: "u8 list" where
  "broadcast_mac = [0xFF, 0xFF, 0xFF, 0xFF, 0xFF, 0xFF]"

definition ETHTYPE_IP :: u16 where "ETHTYPE_IP = 0x0800"
definition ETHTYPE_ARP :: u16 where "ETHTYPE_ARP = 0x0806"
definition IPPROTO_UDP :: u8 where "IPPROTO_UDP = 17"
definition ARP_OP_REQUEST :: u16 where "ARP_OP_REQUEST = 1"
definition ARP_OP_REPLY :: u16 where "ARP_OP_REPLY = 2"

text \<open>Writes into the header at distance \<open>h\<close> of the buffer.\<close>

definition eth_header :: "u16 \<Rightarrow> int \<Rightarrow> (int \<Rightarrow> u8) \<Rightarrow> int \<Rightarrow> u8" where
  "eth_header ethtype h b =
     (let b = put_bytes (h + 6) local_mac b;
          b = put_bytes h broadcast_mac b
      in put16 (h + 12) (bswaps ethtype) b)"

definition ip_header :: "u8 \<Rightarrow> u32 \<Rightarrow> u32 \<Rightarrow> int \<Rightarrow> (int \<Rightarrow> u8) \<Rightarrow> int \<Rightarrow> u8" where
  "ip_header proto dip len h b =
     (let b = put_bytes h (replicate 20 0) b;
          b = b(h := push_bit 4 4 OR drop_bit 2 20);
          b = b(h + 9 := proto);
          b = put32 (h + 12) (bswapl local_ip) b;
          b = put32 (h + 16) (bswapl dip) b;
          b = put16 (h + 2) (bswaps (ucast len)) b;
          b = b(h + 8 := 100)
      in put16 (h + 10) (in_cksum h 20 b) b)"

definition udp_header :: "u16 \<Rightarrow> u16 \<Rightarrow> u32 \<Rightarrow> int \<Rightarrow> (int \<Rightarrow> u8) \<Rightarrow> int \<Rightarrow> u8" where
  "udp_header sport dport len h b =
     (let b = put16 h (bswaps sport) b;
          b = put16 (h + 2) (bswaps dport) b;
          b = put16 (h + 4) (bswaps (ucast len)) b
      in put16 (h + 6) 0 b)"

definition arp_header :: "u16 \<Rightarrow> u8 list \<Rightarrow> u32 \<Rightarrow> int \<Rightarrow> (int \<Rightarrow> u8) \<Rightarrow> int \<Rightarrow> u8" where
  "arp_header op dmac dip h b =
     (let b = put16 h (bswaps 1) b;
          b = put16 (h + 2) (bswaps ETHTYPE_IP) b;
          b = b(h + 4 := 6);
          b = b(h + 5 := 4);
          b = put16 (h + 6) (bswaps op) b;
          b = put_bytes (h + 8) local_mac b;
          b = put32 (h + 14) (bswapl local_ip) b;
          b = put_bytes (h + 18) dmac b
      in put32 (h + 24) (bswapl dip) b)"

definition edit_buf :: "u64 \<Rightarrow> ((int \<Rightarrow> u8) \<Rightarrow> int \<Rightarrow> u8) \<Rightarrow> 'a kst_scheme \<Rightarrow> 'a kst_scheme" where
  "edit_buf m f s = upd_mbuf m (\<lambda>x. x\<lparr>m_buf := f (m_buf x)\<rparr>) s"

definition net_tx_eth :: "u64 \<Rightarrow> u64 \<Rightarrow> u16 \<Rightarrow> 'a netst_scheme \<Rightarrow> (kfault, unit, 'a netst_scheme) outcome" where
  "net_tx_eth kend m ethtype s =
     bindS (on_mbuf m (mbufpush 14) s) (\<lambda>ethhdr s.
       bindS (e1000_transmit kend m (edit_buf m (eth_header ethtype ethhdr) s)) (\<lambda>r s.
         if r \<noteq> 0 then mbuffree kend m s else (Inr (), s)))"

definition net_tx_ip :: "u64 \<Rightarrow> u64 \<Rightarrow> u8 \<Rightarrow> u32 \<Rightarrow> 'a netst_scheme \<Rightarrow> (kfault, unit, 'a netst_scheme) outcome" where
  "net_tx_ip kend m proto dip s =
     bindS (on_mbuf m (mbufpush 20) s) (\<lambda>iphdr s.
       net_tx_eth kend m ETHTYPE_IP (edit_buf m (ip_header proto dip (m_len (mbufs s m)) iphdr) s))"

definition net_tx_udp :: "u64 \<Rightarrow> u64 \<Rightarrow> u32 \<Rightarrow> u16 \<Rightarrow> u16 \<Rightarrow> 'a netst_scheme \<Rightarrow> (kfault, unit, 'a netst_scheme) outcome" where
  "net_tx_udp kend m dip sport dport s =
     bindS (on_mbuf m (mbufpush 8) s) (\<lambda>udphdr s.
       net_tx_ip kend m IPPROTO_UDP dip (edit_buf m (udp_header sport dport (m_len (mbufs s m)) udphdr) s))"

definition net_tx_arp :: "u64 \<Rightarrow> u16 \<Rightarrow> u8 list \<Rightarrow> u32 \<Rightarrow> 'a netst_scheme \<Rightarrow> (kfault, int, 'a netst_scheme) outcome" where
  "net_tx_arp kend op dmac dip s =
     (case mbufalloc kend 128 s of (m, s) \<Rightarrow>
        if m = 0 then (Inr (-1), s)
        else
          bindS (on_mbuf m (mbufput 28) s) (\<lambda>arphdr s.
            bindS (net_tx_eth kend m ETHTYPE_ARP (edit_buf m (arp_header op dmac dip arphdr) s)) (\<lambda>_ s. (Inr 0, s))))"

section \<open>net.c: receiving\<close>

definition net_rx_arp :: "u64 \<Rightarrow> u64 \<Rightarrow> 'a netst_scheme \<Rightarrow> (kfault, unit, 'a netst_scheme) outcome" where
  "net_rx_arp kend m s =
     (case on_mbuf m (mbufpull 28) s of
        (None, s) \<Rightarrow> mbuffree kend m s
      | (Some h, s) \<Rightarrow>
          let b = m_buf (mbufs s m)
          in if bswaps (get16 h b) \<noteq> 1 \<or> bswaps (get16 (h + 2) b) \<noteq> ETHTYPE_IP \<or> b (h + 4) \<noteq> 6 \<or> b (h + 5) \<noteq> 4
             then mbuffree kend m s
             else
               let tip = bswapl (get32 (h + 24) b)
               in if bswaps (get16 (h + 6) b) \<noteq> ARP_OP_REQUEST \<or> tip \<noteq> local_ip then mbuffree kend m s
                  else
                    let smac = get_bytes (h + 8) 6 b; sip = bswapl (get32 (h + 14) b)
                    in bindS (net_tx_arp kend ARP_OP_REPLY smac sip s) (\<lambda>_ s. mbuffree kend m s))"

definition net_rx_udp :: "u64 \<Rightarrow> u64 \<Rightarrow> u16 \<Rightarrow> int \<Rightarrow> 'a netst_scheme \<Rightarrow> (kfault, unit, 'a netst_scheme) outcome" where
  "net_rx_udp kend m len iphdr s =
     (case on_mbuf m (mbufpull 8) s of
        (None, s) \<Rightarrow> mbuffree kend m s
      | (Some udphdr, s) \<Rightarrow>
          let b = m_buf (mbufs s m)
          in if bswaps (get16 (udphdr + 4) b) \<noteq> len then mbuffree kend m s
             else
               let len = len - 8
               in if m_len (mbufs s m) < ucast len then mbuffree kend m s
                  else
                    case on_mbuf m (mbuftrim (m_len (mbufs s m) - ucast len)) s of (_, s) \<Rightarrow>
                      let b = m_buf (mbufs s m);
                          sip = bswapl (get32 (iphdr + 12) b);
                          sport = bswaps (get16 udphdr b);
                          dport = bswaps (get16 (udphdr + 2) b)
                      in sockrecvudp kend m sip dport sport s)"

definition net_rx_ip :: "u64 \<Rightarrow> u64 \<Rightarrow> 'a netst_scheme \<Rightarrow> (kfault, unit, 'a netst_scheme) outcome" where
  "net_rx_ip kend m s =
     (case on_mbuf m (mbufpull 20) s of
        (None, s) \<Rightarrow> mbuffree kend m s
      | (Some h, s) \<Rightarrow>
          let b = m_buf (mbufs s m)
          in if b h \<noteq> push_bit 4 4 OR drop_bit 2 20 then mbuffree kend m s
             else if in_cksum h 20 b \<noteq> 0 then mbuffree kend m s
             else if bswaps (get16 (h + 6) b) \<noteq> 0 then mbuffree kend m s
             else if bswapl (get32 (h + 16) b) \<noteq> local_ip then mbuffree kend m s
             else if b (h + 9) \<noteq> IPPROTO_UDP then mbuffree kend m s
             else let len = bswaps (get16 (h + 2) b) - 20 in net_rx_udp kend m len h s)"

definition net_rx :: "u64 \<Rightarrow> u64 \<Rightarrow> 'a netst_scheme \<Rightarrow> (kfault, unit, 'a netst_scheme) outcome" where
  "net_rx kend m s =
     (case on_mbuf m (mbufpull 14) s of
        (None, s) \<Rightarrow> mbuffree kend m s
      | (Some h, s) \<Rightarrow>
          let type = bswaps (get16 (h + 12) (m_buf (mbufs s m)))
          in if type = ETHTYPE_IP then net_rx_ip kend m s
             else if type = ETHTYPE_ARP then net_rx_arp kend m s
             else mbuffree kend m s)"

section \<open>e1000.c: the receive interrupt\<close>

definition rx_pos :: "'a netst_scheme \<Rightarrow> nat" where
  "rx_pos s = unat ((regs s E1000_RDT + 1) mod of_nat RING_SIZE)"

definition e1000_recv_turn :: "u64 \<Rightarrow> nat \<Rightarrow> 'a netst_scheme \<Rightarrow> (kfault, unit, 'a netst_scheme) outcome" where
  "e1000_recv_turn kend desc_pos s =
     (let buf = rx_mbufs s desc_pos
      in bindS (on_mbuf buf (mbufput (ucast (rd_length (rx_ring s desc_pos)))) s) (\<lambda>_ s.
           case mbufalloc kend 0 s of (m, s) \<Rightarrow>
             let s = set_rx_mbuf desc_pos m s
             in if m = 0 then (Inl (Panic ''e1000''), s)
                else
                  let s = upd_rx desc_pos (\<lambda>d. d\<lparr>rd_addr := head_addr m s\<rparr>) s;
                      s = upd_rx desc_pos (\<lambda>d. d\<lparr>rd_status := 0\<rparr>) s
                  in net_rx kend buf (set_reg E1000_RDT (of_nat desc_pos) s)))"

text \<open>The loop, with a bound on its turns; \<open>None\<close> when the bound is too small.\<close>

fun e1000_recv :: "nat \<Rightarrow> u64 \<Rightarrow> 'a netst_scheme \<Rightarrow> (kfault, unit, 'a netst_scheme) outcome option" where
  "e1000_recv 0 kend s = None"
| "e1000_recv (Suc n) kend s =
     (let desc_pos = rx_pos s
      in if rd_status (rx_ring s desc_pos) AND E1000_STAT_DD = 0 then Some (Inr (), s)
         else case e1000_recv_turn kend desc_pos s of
                (Inl e, s) \<Rightarrow> Some (Inl e, s)
              | (Inr _, s) \<Rightarrow> e1000_recv n kend s)"

section \<open>sysnet.c: sending from a socket\<close>

definition sockwrite :: "u64 \<Rightarrow> nat \<Rightarrow> u64 \<Rightarrow> u64 \<Rightarrow> int \<Rightarrow> 'a netst_scheme \<Rightarrow> (kfault, int, 'a netst_scheme) outcome" where
  "sockwrite kend p so addr n s =
     (case mbufalloc kend (14 + 20 + 8) s of (m, s) \<Rightarrow>
        if m = 0 then (Inl (Wild ''sockwrite: mbufput(0)''), s)
        else
          bindS (on_mbuf m (mbufput (word_of_int n)) s) (\<lambda>_ s.
            case copyin kend (pagetable (procs (pt s) p)) addr (nat n) (km s) of (r, bs) \<Rightarrow>
              let s = edit_buf m (put_bytes (m_head (mbufs s m)) bs) s
              in if r = -1 then bindS (mbuffree kend m s) (\<lambda>_ s. (Inr (-1), s))
                 else
                   let x = socks s so
                   in bindS (net_tx_udp kend m (so_raddr x) (so_lport x) (so_rport x) s) (\<lambda>_ s. (Inr n, s))))"

end
