(* ===== verification/Xv7_Console.thy ===== *)
theory Xv7_Console
  imports Xv7_Kstate
begin

text \<open>
  The console of \<open>xv7/kernel/console.c\<close>: a ring of 128 bytes with three counters that run
  modulo \<open>2 ^ 32\<close>, filled by the interrupt handler with line editing and emptied by readers.
  What runs under \<open>cons.lock\<close> is one step; a reader of an empty console sleeps with what it
  still wants.  Characters sent to the UART are collected in \<open>c_out\<close>.  \<open>line_edit\<close> is the
  line discipline that the handler implements, on lists.  (After a panic the code stops in
  \<open>consputc\<close> for ever; the model ends at the panic.)
\<close>

section \<open>console.c\<close>

definition INPUT_BUF :: nat where "INPUT_BUF = 128"

record cons =
  c_buf :: "nat \<Rightarrow> u8"
  c_r :: u32
  c_w :: u32
  c_e :: u32
  c_out :: "u8 list"

text \<open>Control characters: \<open>C(x)\<close> is \<open>x - '@'\<close>.\<close>

definition ctrl_D :: int where "ctrl_D = 0x44 - 0x40"
definition ctrl_H :: int where "ctrl_H = 0x48 - 0x40"
definition ctrl_P :: int where "ctrl_P = 0x50 - 0x40"
definition ctrl_U :: int where "ctrl_U = 0x55 - 0x40"
definition DEL :: int where "DEL = 0x7f"
definition NEWLINE :: int where "NEWLINE = 10"
definition CR :: int where "CR = 13"
definition BACKSPACE :: int where "BACKSPACE = 0x100"

definition uartputc :: "int \<Rightarrow> cons \<Rightarrow> cons" where
  "uartputc c s = s\<lparr>c_out := c_out s @ [word_of_int c]\<rparr>"

definition consputc :: "int \<Rightarrow> cons \<Rightarrow> cons" where
  "consputc c s =
     (if c = BACKSPACE then uartputc 8 (uartputc 32 (uartputc 8 s)) else uartputc c s)"

text \<open>\<open>src i\<close> is what \<open>either_copyin\<close> finds at \<open>src + i\<close>.\<close>

fun consolewrite_from :: "(nat \<Rightarrow> u8 option) \<Rightarrow> nat list \<Rightarrow> cons \<Rightarrow> cons" where
  "consolewrite_from src [] s = s"
| "consolewrite_from src (i # is) s =
     (case src i of None \<Rightarrow> s | Some c \<Rightarrow> consolewrite_from src is (consputc (uint c) s))"

definition consolewrite :: "(nat \<Rightarrow> u8 option) \<Rightarrow> int \<Rightarrow> cons \<Rightarrow> int \<times> cons" where
  "consolewrite src n s = (n, consolewrite_from src [0..<nat n] s)"

text \<open>\<open>char\<close> is unsigned on this machine.\<close>

definition cons_at :: "u32 \<Rightarrow> cons \<Rightarrow> int" where
  "cons_at i s = uint (c_buf s (unat i mod INPUT_BUF))"

datatype cons_result = CSleeps nat | CReturns int

text \<open>
  The outer loop of \<open>consoleread\<close> with \<open>n\<close> bytes still wanted; \<open>dst i\<close> says whether the byte at
  distance \<open>i\<close> can be copied out.  It returns or sleeps with what is still wanted, and gives the bytes
  delivered.
\<close>

fun consoleread_from :: "nat \<Rightarrow> (nat \<Rightarrow> bool) \<Rightarrow> bool \<Rightarrow> nat \<Rightarrow> cons \<Rightarrow> cons_result \<times> u8 list \<times> cons" where
  "consoleread_from target dst kld 0 s = (CReturns (int target), [], s)"
| "consoleread_from target dst kld (Suc n) s =
     (if c_r s = c_w s then
        (if kld then CReturns (-1) else CSleeps (Suc n), [], s)
      else
        let c = cons_at (c_r s) s;
            s = s\<lparr>c_r := c_r s + 1\<rparr>
        in if c = ctrl_D then
             let s = (if Suc n < target then s\<lparr>c_r := c_r s - 1\<rparr> else s)
             in (CReturns (int target - int (Suc n)), [], s)
           else if \<not> dst (target - Suc n) then (CReturns (int target - int (Suc n)), [], s)
           else if c = NEWLINE then (CReturns (int target - int n), [word_of_int c], s)
           else case consoleread_from target dst kld n s of
                  (r, cs, s) \<Rightarrow> (r, word_of_int c # cs, s))"

definition consoleread :: "(nat \<Rightarrow> bool) \<Rightarrow> bool \<Rightarrow> int \<Rightarrow> cons \<Rightarrow> cons_result \<times> u8 list \<times> cons" where
  "consoleread dst kld n s =
     (if n \<le> 0 then (CReturns 0, [], s) else consoleread_from (nat n) dst kld (nat n) s)"

text \<open>The loop that kills a line stops after as many turns as there are bytes in the ring.\<close>

fun kill_line :: "nat \<Rightarrow> cons \<Rightarrow> cons" where
  "kill_line 0 s = s"
| "kill_line (Suc k) s =
     (if c_e s \<noteq> c_w s \<and> cons_at (c_e s - 1) s \<noteq> NEWLINE
      then kill_line k (consputc BACKSPACE (s\<lparr>c_e := c_e s - 1\<rparr>)) else s)"

text \<open>The result says whether the readers are woken.  \<open>dump\<close> is the output of \<open>procdump\<close>.\<close>

definition consoleintr :: "u8 list \<Rightarrow> int \<Rightarrow> cons \<Rightarrow> bool \<times> cons" where
  "consoleintr dump c s =
     (if c = ctrl_P then (False, s\<lparr>c_out := c_out s @ dump\<rparr>)
      else if c = ctrl_U then (False, kill_line (unat (c_e s - c_w s)) s)
      else if c = ctrl_H \<or> c = DEL then
        (False, if c_e s \<noteq> c_w s then consputc BACKSPACE (s\<lparr>c_e := c_e s - 1\<rparr>) else s)
      else if c \<noteq> 0 \<and> c_e s - c_r s < of_nat INPUT_BUF then
        let c = (if c = CR then NEWLINE else c);
            s = consputc c s;
            s = s\<lparr>c_buf := (c_buf s)(unat (c_e s) mod INPUT_BUF := word_of_int c), c_e := c_e s + 1\<rparr>
        in if c = NEWLINE \<or> c = ctrl_D \<or> c_e s = c_r s + of_nat INPUT_BUF
           then (True, s\<lparr>c_w := c_e s\<rparr>) else (False, s)
      else (False, s))"


section \<open>The line discipline\<close>

text \<open>The bytes between two counters.\<close>

definition ring_seg :: "u32 \<Rightarrow> u32 \<Rightarrow> cons \<Rightarrow> u8 list" where
  "ring_seg a b s = map (\<lambda>k. c_buf s ((unat a + k) mod INPUT_BUF)) [0..<unat (b - a)]"

text \<open>The lines that readers may have, and the line that is being typed.\<close>

definition cons_abs :: "cons \<Rightarrow> u8 list \<times> u8 list" where
  "cons_abs s = (ring_seg (c_r s) (c_w s) s, ring_seg (c_w s) (c_e s) s)"

definition cons_inv :: "cons \<Rightarrow> bool" where
  "cons_inv s \<longleftrightarrow> unat (c_w s - c_r s) + unat (c_e s - c_w s) \<le> INPUT_BUF \<and>
     (\<forall>x \<in> set (snd (cons_abs s)). uint x \<noteq> NEWLINE)"

definition line_edit :: "int \<Rightarrow> u8 list \<times> u8 list \<Rightarrow> u8 list \<times> u8 list" where
  "line_edit c = (\<lambda>(ready, line).
     if c = ctrl_P then (ready, line)
     else if c = ctrl_U then (ready, [])
     else if c = ctrl_H \<or> c = DEL then (ready, butlast line)
     else if c \<noteq> 0 \<and> length ready + length line < INPUT_BUF then
       let c = (if c = CR then NEWLINE else c); line = line @ [word_of_int c]
       in if c = NEWLINE \<or> c = ctrl_D \<or> length ready + length line = INPUT_BUF then (ready @ line, []) else (ready, line)
     else (ready, line))"

lemma cons_simps [simp]:
  "c_r (consputc c s) = c_r s" "c_w (consputc c s) = c_w s" "c_e (consputc c s) = c_e s" "c_buf (consputc c s) = c_buf s"
  by (simp_all add: consputc_def uartputc_def)

lemma length_seg [simp]: "length (ring_seg a b s) = unat (b - a)"
  by (simp add: ring_seg_def)

lemma ring_mod: "unat (a + of_nat k :: u32) mod INPUT_BUF = (unat a + k) mod INPUT_BUF"
proof -
  have "unat (a + of_nat k :: u32) = (unat a + k) mod 2 ^ 32"
    by (simp add: unat_word_ariths unat_of_nat take_bit_eq_mod mod_simps)
  moreover have "(unat a + k) mod 2 ^ 32 mod 2 ^ 7 = (unat a + k) mod 2 ^ 7"
    by (rule mod_mod_cancel) (rule le_imp_power_dvd, simp)
  ultimately show ?thesis by (simp add: INPUT_BUF_def)
qed

lemma seg_cong: "c_buf s = c_buf t \<Longrightarrow> ring_seg a b s = ring_seg a b t"
  by (simp add: ring_seg_def)

lemma unat_pred: "b \<noteq> (0 :: u32) \<Longrightarrow> unat (b - 1) = unat b - 1"
  by (rule unat_minus_one)

lemma seg_butlast:
  assumes "a \<noteq> b"
  shows "ring_seg a (b - 1) s = butlast (ring_seg a b s)" "uint (last (ring_seg a b s)) = cons_at (b - 1) s"
    "unat (b - 1 - a) = unat (b - a) - 1" "0 < unat (b - a)"
proof -
  have d: "b - a \<noteq> 0" using assms by simp
  have e: "b - 1 - a = (b - a) - 1" by simp
  show u: "unat (b - 1 - a) = unat (b - a) - 1" unfolding e by (rule unat_pred [OF d])
  show p: "0 < unat (b - a)" using d by (simp add: unat_gt_0)
  obtain n where n: "unat (b - a) = Suc n" using p by (cases "unat (b - a)") auto
  show "ring_seg a (b - 1) s = butlast (ring_seg a b s)"
    unfolding ring_seg_def u n by simp
  have "b - 1 = a + of_nat n"
  proof -
    have "of_nat (unat (b - a)) = (of_nat (Suc n) :: u32)" by (simp only: n)
    then have "b - a = of_nat n + 1" by simp
    then show ?thesis by (simp add: algebra_simps)
  qed
  then have "unat (b - 1) mod INPUT_BUF = (unat a + n) mod INPUT_BUF" by (simp only: ring_mod)
  then show "uint (last (ring_seg a b s)) = cons_at (b - 1) s"
    unfolding ring_seg_def n cons_at_def by simp
qed

lemma kill_line_seg:
  assumes "\<forall>x \<in> set (ring_seg (c_w s) (c_e s) s). uint x \<noteq> NEWLINE" and "n = unat (c_e s - c_w s)"
  shows "c_e (kill_line n s) = c_w s \<and> c_w (kill_line n s) = c_w s \<and> c_r (kill_line n s) = c_r s \<and>
    c_buf (kill_line n s) = c_buf s"
  using assms
proof (induction n arbitrary: s)
  case 0
  then have "c_e s - c_w s = 0" by (simp add: unat_eq_0)
  then show ?case by simp
next
  case (Suc n)
  then have ne: "c_w s \<noteq> c_e s" by auto
  note b = seg_butlast(1,2) [OF ne, of s] seg_butlast(3,4) [OF ne]
  let ?t = "consputc BACKSPACE (s\<lparr>c_e := c_e s - 1\<rparr>)"
  have seg: "ring_seg (c_w ?t) (c_e ?t) ?t = butlast (ring_seg (c_w s) (c_e s) s)"
    using b(1) seg_cong [of ?t s] by simp
  have "last (ring_seg (c_w s) (c_e s) s) \<in> set (ring_seg (c_w s) (c_e s) s)"
    using Suc.prems(2) by (intro last_in_set) (metis length_seg list.size(3) nat.distinct(1))
  then have nl: "cons_at (c_e s - 1) s \<noteq> NEWLINE" using Suc.prems(1) b(2) by metis
  have "\<forall>x \<in> set (ring_seg (c_w ?t) (c_e ?t) ?t). uint x \<noteq> NEWLINE"
    unfolding seg using Suc.prems(1) in_set_butlastD by metis
  moreover have "n = unat (c_e ?t - c_w ?t)" using Suc.prems(2) b(3) by simp
  ultimately show ?case using Suc.IH [of ?t] ne nl by (simp add: eq_commute)
qed

lemma seg_snoc:
  assumes "c_buf t = (c_buf s)(unat b mod INPUT_BUF := x)" and "unat (b - a) < INPUT_BUF"
  shows "ring_seg a (b + 1) t = ring_seg a b s @ [x]"
proof -
  have e: "b + 1 - a = (b - a) + 1" by simp
  have u: "unat (b + 1 - a) = Suc (unat (b - a))"
    unfolding e using assms(2) by (subst unat_word_ariths(1)) (simp add: INPUT_BUF_def)
  have b: "unat b mod INPUT_BUF = (unat a + unat (b - a)) mod INPUT_BUF"
    using ring_mod [of a "unat (b - a)"] by simp
  have "(unat a + k) mod INPUT_BUF \<noteq> unat b mod INPUT_BUF" if "k < unat (b - a)" for k
    unfolding b by (rule ring_slots_differ [OF that]) (use assms(2) in simp)
  then show ?thesis unfolding ring_seg_def u by (simp add: assms(1) b)
qed


lemma seg_other:
  assumes "c_buf t = (c_buf s)(unat e mod INPUT_BUF := x)" and "unat (b - a) \<le> unat (e - a)" and "unat (e - a) < INPUT_BUF"
  shows "ring_seg a b t = ring_seg a b s"
proof -
  have e: "unat e mod INPUT_BUF = (unat a + unat (e - a)) mod INPUT_BUF"
    using ring_mod [of a "unat (e - a)"] by simp
  have "(unat a + k) mod INPUT_BUF \<noteq> unat e mod INPUT_BUF" if "k < unat (b - a)" for k
    unfolding e by (rule ring_slots_differ) (use that assms(2,3) in simp_all)
  then show ?thesis by (simp add: ring_seg_def assms(1))
qed

lemma seg_append:
  assumes "unat (b - a) + unat (c - b) = unat (c - a)"
  shows "ring_seg a c s = ring_seg a b s @ ring_seg b c s"
proof -
  have shift: "(unat b + k) mod INPUT_BUF = (unat a + (unat (b - a) + k)) mod INPUT_BUF" for k
  proof -
    have "unat b mod INPUT_BUF = (unat a + unat (b - a)) mod INPUT_BUF" using ring_mod [of a "unat (b - a)"] by simp
    then show ?thesis by (metis add.assoc mod_add_left_eq)
  qed
  have "ring_seg b c s = map (\<lambda>k. c_buf s ((unat a + k) mod INPUT_BUF)) [unat (b - a)..<unat (c - a)]"
    unfolding ring_seg_def shift assms [symmetric]
    by (rule nth_equalityI) simp_all
  moreover have "unat (b - a) \<le> unat (c - a)" using assms by simp
  then have "[0..<unat (c - a)] = [0..<unat (b - a)] @ [unat (b - a)..<unat (c - a)]"
    using upt_add_eq_append [of 0 "unat (b - a)" "unat (c - a) - unat (b - a)"] by simp
  ultimately show ?thesis
    unfolding ring_seg_def by simp
qed

lemma ring_total:
  assumes "unat (w - r) + unat (e - w) \<le> INPUT_BUF"
  shows "unat (e - r :: u32) = unat (w - r) + unat (e - w)"
proof -
  have "e - r = (w - r) + (e - w)" by simp
  then show ?thesis using assms by (simp only: unat_word_ariths(1)) (simp add: INPUT_BUF_def)
qed

text \<open>Storing one more byte at the end of the line.\<close>

lemma store_char:
  assumes "cons_inv s" and "length (fst (cons_abs s)) + length (snd (cons_abs s)) < INPUT_BUF"
    and "t = s\<lparr>c_buf := (c_buf s)(unat (c_e s) mod INPUT_BUF := x), c_e := c_e s + 1, c_out := os\<rparr>"
  shows "cons_abs t = (fst (cons_abs s), snd (cons_abs s) @ [x])"
    "cons_abs (t\<lparr>c_w := c_e t\<rparr>) = (fst (cons_abs s) @ snd (cons_abs s) @ [x], [])"
    "unat (c_w t - c_r t) + unat (c_e t - c_w t) = unat (c_w s - c_r s) + unat (c_e s - c_w s) + 1"
    "c_e t = c_r t + of_nat INPUT_BUF \<longleftrightarrow> unat (c_w s - c_r s) + unat (c_e s - c_w s) + 1 = INPUT_BUF"
proof -
  let ?r = "c_r s" and ?w = "c_w s" and ?e = "c_e s"
  have l: "unat (?w - ?r) + unat (?e - ?w) < INPUT_BUF" using assms(2) by (simp add: cons_abs_def)
  have tot: "unat (?e - ?r) = unat (?w - ?r) + unat (?e - ?w)" by (rule ring_total) (use l in simp)
  have b: "c_buf t = (c_buf s)(unat ?e mod INPUT_BUF := x)" "c_r t = ?r" "c_w t = ?w" "c_e t = ?e + 1"
    by (simp_all add: assms(3))
  have com: "ring_seg ?r ?w t = ring_seg ?r ?w s" by (rule seg_other [OF b(1)]) (use l tot in simp_all)
  have line: "ring_seg ?w (?e + 1) t = ring_seg ?w ?e s @ [x]" by (rule seg_snoc [OF b(1)]) (use l in simp)
  show a: "cons_abs t = (fst (cons_abs s), snd (cons_abs s) @ [x])"
    by (simp add: cons_abs_def b com line)
  have e1: "?e + 1 - ?w = (?e - ?w) + 1" by simp
  have u1: "unat (?e + 1 - ?w) = unat (?e - ?w) + 1"
    unfolding e1 using l by (subst unat_word_ariths(1)) (simp add: INPUT_BUF_def)
  show k: "unat (c_w t - c_r t) + unat (c_e t - c_w t) = unat (?w - ?r) + unat (?e - ?w) + 1"
    by (simp add: b u1)
  have tot1: "unat (?e + 1 - ?r) = unat (?w - ?r) + unat (?e + 1 - ?w)" by (rule ring_total) (use l u1 in simp)
  have "ring_seg ?r (?e + 1) t = ring_seg ?r ?w t @ ring_seg ?w (?e + 1) t" by (rule seg_append) (simp add: tot1)
  moreover have "ring_seg a c (t\<lparr>c_w := v\<rparr>) = ring_seg a c t" for a c v by (rule seg_cong) simp
  ultimately show "cons_abs (t\<lparr>c_w := c_e t\<rparr>) = (fst (cons_abs s) @ snd (cons_abs s) @ [x], [])"
    by (simp add: cons_abs_def b com line) (simp add: ring_seg_def)
  have "c_e t = c_r t + of_nat INPUT_BUF \<longleftrightarrow> ?e + 1 - ?r = of_nat INPUT_BUF"
    by (auto simp: b algebra_simps)
  also have "\<dots> \<longleftrightarrow> unat (?e + 1 - ?r) = INPUT_BUF"
    by (auto simp: word_unat_eq_iff INPUT_BUF_def)
  finally show "c_e t = c_r t + of_nat INPUT_BUF \<longleftrightarrow> unat (?w - ?r) + unat (?e - ?w) + 1 = INPUT_BUF"
    by (simp add: tot1 u1)
qed

lemma line_dropped:
  assumes "cons_inv s" and "c_r t = c_r s" "c_w t = c_w s" "c_buf t = c_buf s" and "ring_seg (c_w s) (c_e t) s = line"
    and "unat (c_e t - c_w s) \<le> unat (c_e s - c_w s)" and "set line \<subseteq> set (snd (cons_abs s))"
  shows "cons_inv t" "cons_abs t = (fst (cons_abs s), line)"
proof -
  show a: "cons_abs t = (fst (cons_abs s), line)"
    using assms(5) seg_cong [OF assms(4)] by (simp add: cons_abs_def assms(2,3))
  show "cons_inv t"
    using assms(1,6,7) unfolding cons_inv_def a by (auto simp: assms(2,3))
qed

lemma intr_refines:
  assumes "cons_inv s" and "0 \<le> c" and "c < 256"
  shows "cons_inv (snd (consoleintr dump c s)) \<and>
    cons_abs (snd (consoleintr dump c s)) = line_edit c (cons_abs s) \<and>
    (fst (consoleintr dump c s) \<longleftrightarrow> fst (line_edit c (cons_abs s)) \<noteq> fst (cons_abs s))"
proof -
  have ready: "fst (cons_abs s) = ring_seg (c_r s) (c_w s) s" "snd (cons_abs s) = ring_seg (c_w s) (c_e s) s"
    by (simp_all add: cons_abs_def)
  have nl: "\<forall>x \<in> set (ring_seg (c_w s) (c_e s) s). uint x \<noteq> NEWLINE" using assms(1) by (simp add: cons_inv_def ready)
  have sum: "unat (c_w s - c_r s) + unat (c_e s - c_w s) \<le> INPUT_BUF" using assms(1) by (simp add: cons_inv_def)
  consider (dmp) "c = ctrl_P" | (kil) "c = ctrl_U" | (bsp) "c = ctrl_H \<or> c = DEL"
    | (ordinary) "c \<noteq> ctrl_P" "c \<noteq> ctrl_U" "c \<noteq> ctrl_H" "c \<noteq> DEL" by blast
  then show ?thesis
  proof cases
    case dmp
    have "cons_inv (s\<lparr>c_out := c_out s @ dump\<rparr>)" "cons_abs (s\<lparr>c_out := c_out s @ dump\<rparr>) = (fst (cons_abs s), snd (cons_abs s))"
      by (rule line_dropped [OF assms(1), where line = "snd (cons_abs s)"]; simp add: ready)+
    then show ?thesis using dmp by (simp add: consoleintr_def line_edit_def split_def)
  next
    case kil
    let ?t = "kill_line (unat (c_e s - c_w s)) s"
    note k = kill_line_seg [OF nl refl]
    have "cons_inv ?t" "cons_abs ?t = (fst (cons_abs s), [])"
      by (rule line_dropped [OF assms(1), where line = "[]"]; simp add: k ring_seg_def)+
    moreover have "ctrl_U \<noteq> ctrl_P" by (simp add: ctrl_U_def ctrl_P_def)
    ultimately show ?thesis using kil by (simp add: consoleintr_def line_edit_def split_def)
  next
    case bsp
    have ne: "c \<noteq> ctrl_P" "c \<noteq> ctrl_U" using bsp by (auto simp: ctrl_U_def ctrl_P_def ctrl_H_def DEL_def)
    show ?thesis
    proof (cases "c_e s = c_w s")
      case True
      then have "snd (cons_abs s) = []" by (simp add: ready ring_seg_def)
      then show ?thesis using bsp ne True assms(1) by (auto simp: consoleintr_def line_edit_def split_def prod_eq_iff)
    next
      case False
      then have n: "c_w s \<noteq> c_e s" by simp
      let ?t = "consputc BACKSPACE (s\<lparr>c_e := c_e s - 1\<rparr>)"
      have "cons_inv ?t" "cons_abs ?t = (fst (cons_abs s), butlast (snd (cons_abs s)))"
        by (rule line_dropped [OF assms(1), where line = "butlast (snd (cons_abs s))"]; simp add: ready seg_butlast(1) [OF n] seg_butlast(3) [OF n] subset_iff in_set_butlastD)+
      then show ?thesis using bsp ne False by (auto simp: consoleintr_def line_edit_def split_def)
    qed
  next
    case ordinary
    have room: "c_e s - c_r s < of_nat INPUT_BUF \<longleftrightarrow> length (fst (cons_abs s)) + length (snd (cons_abs s)) < INPUT_BUF"
      using ring_total [OF sum] by (simp add: word_less_nat_alt ready) (simp add: INPUT_BUF_def)
    show ?thesis
    proof (cases "c \<noteq> 0 \<and> c_e s - c_r s < of_nat INPUT_BUF")
      case False
      then have l: "line_edit c (cons_abs s) = cons_abs s"
        using ordinary room by (auto simp: line_edit_def split_def prod_eq_iff)
      have "consoleintr dump c s = (False, s)" by (simp only: consoleintr_def False ordinary simp_thms if_False)
      then show ?thesis using assms(1) l by simp
    next
      case True
      define d where "d = (if c = CR then NEWLINE else c)"
      define t where "t = s\<lparr>c_buf := (c_buf s)(unat (c_e s) mod INPUT_BUF := word_of_int d), c_e := c_e s + 1,
        c_out := c_out (consputc d s)\<rparr>"
      have full: "length (fst (cons_abs s)) + length (snd (cons_abs s)) < INPUT_BUF" using True room by simp
      note st = store_char [OF assms(1) full t_def]
      have t: "consputc d s\<lparr>c_buf := (c_buf (consputc d s))(unat (c_e (consputc d s)) mod INPUT_BUF := word_of_int d),
          c_e := c_e (consputc d s) + 1\<rparr> = t"
        by (simp add: t_def consputc_def uartputc_def)
      have i: "consoleintr dump c s = (if d = NEWLINE \<or> d = ctrl_D \<or> c_e t = c_r t + of_nat INPUT_BUF
          then (True, t\<lparr>c_w := c_e t\<rparr>) else (False, t))"
        using ordinary True unfolding consoleintr_def d_def [symmetric] Let_def t by simp
      have full': "length (fst (cons_abs s)) + length (snd (cons_abs s) @ [word_of_int d]) = INPUT_BUF \<longleftrightarrow>
          c_e t = c_r t + of_nat INPUT_BUF"
        unfolding st(4) by (simp add: ready)
      have l: "line_edit c (cons_abs s) =
          (if d = NEWLINE \<or> d = ctrl_D \<or> c_e t = c_r t + of_nat INPUT_BUF
           then (fst (cons_abs s) @ snd (cons_abs s) @ [word_of_int d], [])
           else (fst (cons_abs s), snd (cons_abs s) @ [word_of_int d]))"
        using ordinary True full unfolding line_edit_def split_def Let_def d_def [symmetric] full' by simp
      show ?thesis
      proof (cases "d = NEWLINE \<or> d = ctrl_D \<or> c_e t = c_r t + of_nat INPUT_BUF")
        case True
        have "cons_inv (t\<lparr>c_w := c_e t\<rparr>)"
        proof -
          have "unat (c_e t - c_r t) \<le> INPUT_BUF"
            using ring_total [of "c_w t" "c_r t" "c_e t"] st(3) full by (simp add: ready)
          then show ?thesis unfolding cons_inv_def st(2) by simp
        qed
        then show ?thesis unfolding i l using True st(2) by simp
      next
        case False
        have "uint (word_of_int d :: u8) = d"
          using assms(2,3) by (auto simp: d_def uint_word_of_int take_bit_eq_mod NEWLINE_def)
        then have "cons_inv t"
          unfolding cons_inv_def st(1) st(3) using False nl full by (simp add: ready)
        then show ?thesis unfolding i l using False st(1) by simp
      qed
    qed
  qed
qed


text \<open>C23: the interrupt handler of the console implements the line discipline \<open>line_edit\<close> on lists, for every
  character the UART can deliver: the ready lines and the line being typed are those of the discipline, the ring
  never holds more than 128 bytes, and readers are woken exactly when something became ready.\<close>

theorem consoleintr_refines_line_edit:
  assumes "cons_inv s" and "0 \<le> c" and "c < 256"
  shows "cons_inv (snd (consoleintr dump c s)) \<and>
    cons_abs (snd (consoleintr dump c s)) = line_edit c (cons_abs s) \<and>
    (fst (consoleintr dump c s) \<longleftrightarrow> fst (line_edit c (cons_abs s)) \<noteq> fst (cons_abs s))"
  by (rule intr_refines [OF assms])

definition cons0 :: cons where
  "cons0 = \<lparr>c_buf = (\<lambda>_. 0)(126 := 104, 127 := 105), c_r = - 2, c_w = - 2, c_e = 0, c_out = []\<rparr>"

lemma cons0_ok: "cons_inv cons0" "cons_abs cons0 = ([], [104, 105])"
proof -
  show a: "cons_abs cons0 = ([], [104, 105])"
  proof -
    have "unat (- 2 :: u32) = 4294967294" "[0..<2] = [0, 1 :: nat]" by (simp_all add: upt_rec)
    then show ?thesis by (simp add: cons_abs_def ring_seg_def cons0_def INPUT_BUF_def)
  qed
  show "cons_inv cons0" unfolding cons_inv_def a by (simp add: cons0_def INPUT_BUF_def NEWLINE_def)
qed

text \<open>A newline makes the line ready, with the counters about to wrap.\<close>

theorem consoleintr_refines_line_edit_witness:
  "cons_abs (snd (consoleintr [] 13 cons0)) = ([104, 105, 10], []) \<and> fst (consoleintr [] 13 cons0)"
proof -
  have "line_edit 13 ([], [104, 105]) = ([104, 105, 10], [])"
    by (simp add: line_edit_def ctrl_P_def ctrl_U_def ctrl_H_def DEL_def CR_def NEWLINE_def INPUT_BUF_def)
  then show ?thesis
    using consoleintr_refines_line_edit [OF cons0_ok(1), of 13 "[]"] by (simp add: cons0_ok(2))
qed

section \<open>Reading a line\<close>

lemma ready_step:
  assumes "cons_inv s" and "fst (cons_abs s) = x # cs"
  shows "c_r s \<noteq> c_w s" "cons_at (c_r s) s = uint x" "cons_inv (s\<lparr>c_r := c_r s + 1\<rparr>)"
    "cons_abs (s\<lparr>c_r := c_r s + 1\<rparr>) = (cs, snd (cons_abs s))"
proof -
  let ?t = "s\<lparr>c_r := c_r s + 1\<rparr>"
  have r: "ring_seg (c_r s) (c_w s) s = x # cs" using assms(2) by (simp add: cons_abs_def)
  have n: "unat (c_w s - c_r s) = Suc (length cs)" using arg_cong [OF r, of length] by simp
  then show "c_r s \<noteq> c_w s" by auto
  have h: "c_w s - (c_r s + 1) = (c_w s - c_r s) - 1" by simp
  have "c_w s - c_r s \<noteq> 0" using n by auto
  from unat_minus_one [OF this] have n1: "unat (c_w s - (c_r s + 1)) = length cs" unfolding h using n by simp
  have nth: "(x # cs) ! k = c_buf s ((unat (c_r s) + k) mod INPUT_BUF)" if "k < Suc (length cs)" for k
    using r that n by (metis (mono_tags, lifting) add_0 diff_zero length_upt nth_map nth_upt ring_seg_def)
  show "cons_at (c_r s) s = uint x" using nth [of 0] by (simp add: cons_at_def)
  have "ring_seg (c_r s + 1) (c_w s) s = cs"
  proof (rule nth_equalityI)
    fix k assume "k < length (ring_seg (c_r s + 1) (c_w s) s)"
    then have k: "k < length cs" by (simp add: n1)
    have "(unat (c_r s + 1) + k) mod INPUT_BUF = (unat (c_r s) + Suc k) mod INPUT_BUF"
      using ring_mod [of "c_r s" 1] mod_add_left_eq [of "unat (c_r s + 1)" INPUT_BUF k] mod_add_left_eq [of "unat (c_r s) + 1" INPUT_BUF k]
      by simp
    then show "ring_seg (c_r s + 1) (c_w s) s ! k = cs ! k"
      using nth [of "Suc k"] k by (simp add: ring_seg_def n1)
  qed (simp add: n1)
  then show a: "cons_abs ?t = (cs, snd (cons_abs s))"
    using seg_cong [of ?t s] by (simp add: cons_abs_def)
  show "cons_inv ?t"
    using assms(1) n n1 unfolding cons_inv_def a by simp
qed

lemma read_loop:
  assumes "cons_inv s" and "fst (cons_abs s) = line @ x # rest" and "\<forall>y \<in> set line. uint y \<noteq> NEWLINE \<and> uint y \<noteq> ctrl_D"
    and "uint x = NEWLINE \<or> uint x = ctrl_D" and "length line < m" and "m \<le> n" and "\<forall>i. dst i"
  shows "\<exists>t. consoleread_from n dst kld m s =
      (CReturns (int n - int m + int (length (if uint x = NEWLINE then line @ [x] else line))),
       if uint x = NEWLINE then line @ [x] else line, t) \<and> cons_inv t \<and>
    cons_abs t = (if uint x = ctrl_D \<and> (line \<noteq> [] \<or> m < n) then x # rest else rest, snd (cons_abs s))"
  using assms
proof (induction line arbitrary: m s)
  case Nil
  then obtain k where k: "m = Suc k" by (cases m) auto
  have r: "fst (cons_abs s) = x # rest" using Nil.prems(2) by simp
  note st = ready_step [OF Nil.prems(1) r]
  have nd: "NEWLINE \<noteq> ctrl_D" by (simp add: NEWLINE_def ctrl_D_def)
  show ?case
  proof (cases "uint x = ctrl_D")
    case True
    show ?thesis
      using st True nd k Nil.prems r by (auto simp: prod_eq_iff)
  next
    case False
    then have "uint x = NEWLINE" using Nil.prems(4) by simp
    then have "uint x = NEWLINE" "word_of_int NEWLINE = x" by (simp_all flip: \<open>uint x = NEWLINE\<close>)
    then show ?thesis using st False k Nil.prems by auto
  qed
next
  case (Cons y line)
  then obtain k where k: "m = Suc k" by (cases m) auto
  have r: "fst (cons_abs s) = y # (line @ x # rest)" using Cons.prems(2) by simp
  note st = ready_step [OF Cons.prems(1) r]
  let ?t = "s\<lparr>c_r := c_r s + 1\<rparr>"
  have p: "fst (cons_abs ?t) = line @ x # rest" "\<forall>y \<in> set line. uint y \<noteq> NEWLINE \<and> uint y \<noteq> ctrl_D"
    "length line < k" "k \<le> n"
    using st(4) Cons.prems(3,5,6) k by simp_all
  from Cons.IH [OF st(3) p(1,2) Cons.prems(4) p(3,4) Cons.prems(7)] obtain t where t: "consoleread_from n dst kld k ?t =
      (CReturns (int n - int k + int (length (if uint x = NEWLINE then line @ [x] else line))),
       if uint x = NEWLINE then line @ [x] else line, t)" "cons_inv t"
    "cons_abs t = (if uint x = ctrl_D \<and> (line \<noteq> [] \<or> k < n) then x # rest else rest, snd (cons_abs ?t))"
    by blast
  have y: "uint y \<noteq> NEWLINE" "uint y \<noteq> ctrl_D" using Cons.prems(3) by simp_all
  have e: "consoleread_from n dst kld m s =
      (CReturns (int n - int k + int (length (if uint x = NEWLINE then line @ [x] else line))),
       y # (if uint x = NEWLINE then line @ [x] else line), t)"
    using t(1) st(1,2) y Cons.prems(7) k by simp
  show ?case
    using e t(2,3) st(4) k Cons.prems(6) by auto
qed

text \<open>When a line is ready, \<open>consoleread\<close> delivers exactly that line, with its newline, if the caller asks for
  enough bytes, and takes nothing else off the console; a line that was ended by control-D is delivered without
  it, and the control-D stays for the next call unless the line is empty, so that the next call returns 0.\<close>

lemma consoleread_returns_line:
  assumes "cons_inv s" and "fst (cons_abs s) = line @ x # rest"
    and "\<forall>y \<in> set line. uint y \<noteq> NEWLINE \<and> uint y \<noteq> ctrl_D" and "uint x = NEWLINE \<or> uint x = ctrl_D"
    and "length line < n" and "\<forall>i. dst i"
  shows "\<exists>t. consoleread dst kld (int n) s =
      (CReturns (int (length (if uint x = NEWLINE then line @ [x] else line))),
       if uint x = NEWLINE then line @ [x] else line, t) \<and> cons_inv t \<and>
    cons_abs t = (if uint x = ctrl_D \<and> line \<noteq> [] then x # rest else rest, snd (cons_abs s))"
  using read_loop [OF assms(1-5) order.refl assms(6), of kld] assms(5) by (simp add: consoleread_def)

end
