(* ===== verification/Xv7_Bio.thy ===== *)
theory Xv7_Bio
  imports Xv7_List
begin

text \<open>
  The buffer cache of \<open>xv7/kernel/bio.c\<close>: thirty buffers on a doubly linked list in order
  of last use, over the disks.  A buffer is named by its index, the list head by \<open>NBUF\<close>.
  The disk driver \<open>virtio_disk_rw\<close> waits for the device, so a transfer is one step; the
  field \<open>writes\<close> records the blocks written, in order, to speak of crashes.  The buffer's
  sleep lock is the field \<open>b_pid\<close>, its holder; \<open>bcache.lock\<close> makes list operations atomic.
  The abstract view of the cache is the contents, reference count and holder of every
  block, by block number (\<open>view\<close>, \<open>refs\<close>, \<open>holder\<close>).
\<close>

section \<open>State\<close>

type_synonym block = "nat \<Rightarrow> u8"
type_synonym bkey = "u32 \<times> u32"

record buf =
  b_valid :: bool
  b_dev :: u32
  b_blockno :: u32
  b_pid :: "int option"
  b_refcnt :: u32
  b_data :: block

record bio =
  bufs :: "u64 \<Rightarrow> buf"
  bc_links :: lheap
  disks :: "bkey \<Rightarrow> block"
  writes :: "(bkey \<times> block) list"

definition NBUF :: nat where "NBUF = 30"

definition bhead :: u64 where "bhead = of_nat NBUF"

definition upd_buf :: "u64 \<Rightarrow> (buf \<Rightarrow> buf) \<Rightarrow> 'a bio_scheme \<Rightarrow> 'a bio_scheme" where
  "upd_buf b f s = s\<lparr>bufs := (bufs s)(b := f (bufs s b))\<rparr>"

section \<open>bio.c\<close>

definition bc_unlink :: "u64 \<Rightarrow> lheap \<Rightarrow> lheap" where
  "bc_unlink b h =
     (let h = set_prev (lnext h b) (lprev h b) h
      in set_next (lprev h b) (lnext h b) h)"

text \<open>The insertion at the list head, in \<open>binit\<close> and \<open>brelse\<close>, is the one of \<open>lst_push\<close>.\<close>

definition binit :: "'a bio_scheme \<Rightarrow> 'a bio_scheme" where
  "binit s =
     (let s = s\<lparr>bc_links := lst_init bhead (bc_links s)\<rparr>
      in fold (\<lambda>i s. upd_buf (of_nat i) (\<lambda>b. b\<lparr>b_pid := None\<rparr>)
           (s\<lparr>bc_links := lst_push bhead (of_nat i) (bc_links s)\<rparr>)) [0..<NBUF] s)"

text \<open>
  \<open>for (b = start; b != &head; b = link(b)) if (P b) ...\<close>: the first buffer with the
  property.  A list longer than the buffers would be endless.
\<close>

fun scan :: "(u64 \<Rightarrow> u64) \<Rightarrow> (u64 \<Rightarrow> bool) \<Rightarrow> nat \<Rightarrow> u64 \<Rightarrow> kfault + u64 option" where
  "scan link P 0 b = Inl (Wild ''bcache list'')"
| "scan link P (Suc n) b =
     (if b = bhead then Inr None else if P b then Inr (Some b) else scan link P n (link b))"

definition label :: "'a bio_scheme \<Rightarrow> u64 \<Rightarrow> bkey" where
  "label s b = (b_dev (bufs s b), b_blockno (bufs s b))"

definition find_block :: "bkey \<Rightarrow> 'a bio_scheme \<Rightarrow> kfault + u64 option" where
  "find_block k s =
     scan (lnext (bc_links s)) (\<lambda>b. label s b = k) (NBUF + 1) (lnext (bc_links s) bhead)"

definition find_unused :: "'a bio_scheme \<Rightarrow> kfault + u64 option" where
  "find_unused s =
     scan (lprev (bc_links s)) (\<lambda>b. b_refcnt (bufs s b) = 0) (NBUF + 1) (lprev (bc_links s) bhead)"

definition lock_buf :: "int \<Rightarrow> u64 \<Rightarrow> 'a bio_scheme \<Rightarrow> (kfault, u64, 'a bio_scheme) outcome" where
  "lock_buf pid b s =
     (if b_pid (bufs s b) \<noteq> None then (Inl (Asleep ''buffer''), s)
      else (Inr b, upd_buf b (\<lambda>x. x\<lparr>b_pid := Some pid\<rparr>) s))"

definition bget :: "int \<Rightarrow> bkey \<Rightarrow> 'a bio_scheme \<Rightarrow> (kfault, u64, 'a bio_scheme) outcome" where
  "bget pid k s =
     (case find_block k s of
        Inl e \<Rightarrow> (Inl e, s)
      | Inr (Some b) \<Rightarrow> lock_buf pid b (upd_buf b (\<lambda>x. x\<lparr>b_refcnt := b_refcnt x + 1\<rparr>) s)
      | Inr None \<Rightarrow>
          (case find_unused s of
             Inl e \<Rightarrow> (Inl e, s)
           | Inr (Some b) \<Rightarrow>
               lock_buf pid b (upd_buf b (\<lambda>x. x\<lparr>b_dev := fst k, b_blockno := snd k,
                 b_valid := False, b_refcnt := 1\<rparr>) s)
           | Inr None \<Rightarrow> (Inl (Panic ''bget: no buffers''), s)))"

text \<open>What \<open>virtio_disk_rw\<close> does, once the device is done.\<close>

definition disk_read :: "u64 \<Rightarrow> 'a bio_scheme \<Rightarrow> 'a bio_scheme" where
  "disk_read b s = upd_buf b (\<lambda>x. x\<lparr>b_data := disks s (label s b)\<rparr>) s"

definition disk_write :: "u64 \<Rightarrow> 'a bio_scheme \<Rightarrow> 'a bio_scheme" where
  "disk_write b s =
     s\<lparr>disks := (disks s)(label s b := b_data (bufs s b)),
       writes := writes s @ [(label s b, b_data (bufs s b))]\<rparr>"

definition bread :: "int \<Rightarrow> bkey \<Rightarrow> 'a bio_scheme \<Rightarrow> (kfault, u64, 'a bio_scheme) outcome" where
  "bread pid k s =
     bindS (bget pid k s) (\<lambda>b s.
       (Inr b, if \<not> b_valid (bufs s b) then upd_buf b (\<lambda>x. x\<lparr>b_valid := True\<rparr>) (disk_read b s)
               else s))"

definition bwrite :: "int \<Rightarrow> u64 \<Rightarrow> 'a bio_scheme \<Rightarrow> (kfault, unit, 'a bio_scheme) outcome" where
  "bwrite pid b s =
     (if b_pid (bufs s b) \<noteq> Some pid then (Inl (Panic ''bwrite''), s)
      else (Inr (), disk_write b s))"

definition brelse :: "int \<Rightarrow> u64 \<Rightarrow> 'a bio_scheme \<Rightarrow> (kfault, unit, 'a bio_scheme) outcome" where
  "brelse pid b s =
     (if b_pid (bufs s b) \<noteq> Some pid then (Inl (Panic ''brelse''), s)
      else
        let s = upd_buf b (\<lambda>x. x\<lparr>b_pid := None\<rparr>) s;
            s = upd_buf b (\<lambda>x. x\<lparr>b_refcnt := b_refcnt x - 1\<rparr>) s
        in (Inr (),
            if b_refcnt (bufs s b) = 0
            then s\<lparr>bc_links := lst_push bhead b (bc_unlink b (bc_links s))\<rparr>
            else s))"

definition bpin :: "u64 \<Rightarrow> 'a bio_scheme \<Rightarrow> 'a bio_scheme" where
  "bpin b s = upd_buf b (\<lambda>x. x\<lparr>b_refcnt := b_refcnt x + 1\<rparr>) s"

definition bunpin :: "u64 \<Rightarrow> 'a bio_scheme \<Rightarrow> 'a bio_scheme" where
  "bunpin b s = upd_buf b (\<lambda>x. x\<lparr>b_refcnt := b_refcnt x - 1\<rparr>) s"

text \<open>A holder of the buffer changes its data in place.\<close>

definition set_data :: "u64 \<Rightarrow> block \<Rightarrow> 'a bio_scheme \<Rightarrow> 'a bio_scheme" where
  "set_data b d s = upd_buf b (\<lambda>x. x\<lparr>b_data := d\<rparr>) s"

section \<open>The cache as a map from blocks\<close>

definition lookup :: "'a bio_scheme \<Rightarrow> bkey \<Rightarrow> u64 option" where
  "lookup s k = (case find_block k s of Inr r \<Rightarrow> r | Inl _ \<Rightarrow> None)"

definition view :: "'a bio_scheme \<Rightarrow> bkey \<Rightarrow> block" where
  "view s k = (case lookup s k of
     Some b \<Rightarrow> if b_valid (bufs s b) then b_data (bufs s b) else disks s k | None \<Rightarrow> disks s k)"

definition refs :: "'a bio_scheme \<Rightarrow> bkey \<Rightarrow> u32" where
  "refs s k = (case lookup s k of Some b \<Rightarrow> b_refcnt (bufs s b) | None \<Rightarrow> 0)"

definition holder :: "'a bio_scheme \<Rightarrow> bkey \<Rightarrow> int option" where
  "holder s k = (case lookup s k of Some b \<Rightarrow> b_pid (bufs s b) | None \<Rightarrow> None)"

text \<open>
  The list holds every buffer once, and a buffer in any use is the first one on the list
  for its block (buffers that were never used all carry the label of block 0).
\<close>

definition in_use :: "buf \<Rightarrow> bool" where
  "in_use x \<longleftrightarrow> b_refcnt x \<noteq> 0 \<or> b_valid x \<or> b_pid x \<noteq> None"

definition bio_inv :: "'a bio_scheme \<Rightarrow> u64 list \<Rightarrow> bool" where
  "bio_inv s xs \<longleftrightarrow> dlist (bc_links s) bhead xs \<and> set xs = of_nat ` {..<NBUF} \<and>
     (\<forall>b \<in> set xs. in_use (bufs s b) \<longrightarrow> List.find (\<lambda>c. label s c = label s b) xs = Some b)"

text \<open>An unreferenced block is not dirty, and a locked one is referenced.\<close>

definition clean :: "'a bio_scheme \<Rightarrow> bool" where
  "clean s \<longleftrightarrow> (\<forall>k. refs s k = 0 \<longrightarrow> view s k = disks s k)"

definition lock_counts :: "'a bio_scheme \<Rightarrow> bool" where
  "lock_counts s \<longleftrightarrow> (\<forall>k. holder s k \<noteq> None \<longrightarrow> refs s k \<noteq> 0)"

section \<open>Scanning the list\<close>

lemma scan_chain:
  assumes "chain h a xs bhead" and "bhead \<notin> set xs" and "length xs < n"
  shows "scan (lnext h) P n (lnext h a) = Inr (List.find P xs)"
  using assms
proof (induction xs arbitrary: a n)
  case Nil
  then show ?case by (cases n) auto
next
  case (Cons x xs)
  obtain m where n: "n = Suc m" using Cons.prems(3) by (cases n) auto
  have "scan (lnext h) P m (lnext h x) = Inr (List.find P xs)"
    by (rule Cons.IH) (use Cons.prems n in auto)
  then show ?case using Cons.prems n by auto
qed

lemma scan_chain_back:
  assumes "chain h bhead xs b" and "bhead \<notin> set xs" and "length xs < n"
  shows "scan (lprev h) P n (lprev h b) = Inr (List.find P (rev xs))"
  using assms
proof (induction xs arbitrary: b n rule: rev_induct)
  case Nil
  then show ?case by (cases n) auto
next
  case (snoc x xs)
  obtain m where n: "n = Suc m" using snoc.prems(3) by (cases n) auto
  have c: "chain h bhead xs x" "lprev h b = x" using snoc.prems(1) by auto
  have "scan (lprev h) P m (lprev h x) = Inr (List.find P (rev xs))"
    by (rule snoc.IH [OF c(1)]) (use snoc.prems n in auto)
  then show ?case using snoc.prems n c(2) by auto
qed

lemma bio_invD:
  assumes "bio_inv s xs"
  shows "dlist (bc_links s) bhead xs" "distinct xs" "bhead \<notin> set xs" "length xs = NBUF"
    "set xs = of_nat ` {..<NBUF}"
    "b \<in> set xs \<Longrightarrow> in_use (bufs s b) \<Longrightarrow> List.find (\<lambda>c. label s c = label s b) xs = Some b"
proof -
  show d: "dlist (bc_links s) bhead xs" and set: "set xs = of_nat ` {..<NBUF}"
    using assms by (simp_all add: bio_inv_def)
  show dist: "distinct xs" and "bhead \<notin> set xs" using d by (simp_all add: dlist_def)
  have "inj_on (of_nat :: nat \<Rightarrow> u64) {..<NBUF}"
    by (rule inj_onI) (auto simp: NBUF_def word_unat_eq_iff unat_of_nat)
  then have "card (set xs) = NBUF" by (simp add: set card_image)
  then show "length xs = NBUF" using dist by (simp add: distinct_card)
qed (use assms in \<open>auto simp: bio_inv_def\<close>)

lemma find_block_eq:
  assumes "bio_inv s xs"
  shows "find_block k s = Inr (List.find (\<lambda>b. label s b = k) xs)"
proof -
  note d = bio_invD [OF assms]
  show ?thesis unfolding find_block_def
    by (rule scan_chain) (use d in \<open>auto simp: dlist_def\<close>)
qed

lemma find_unused_eq:
  assumes "bio_inv s xs"
  shows "find_unused s = Inr (List.find (\<lambda>b. b_refcnt (bufs s b) = 0) (rev xs))"
proof -
  note d = bio_invD [OF assms]
  show ?thesis unfolding find_unused_def
    by (rule scan_chain_back) (use d in \<open>auto simp: dlist_def\<close>)
qed

lemma lookup_eq:
  assumes "bio_inv s xs"
  shows "lookup s k = List.find (\<lambda>b. label s b = k) xs"
  by (simp add: lookup_def find_block_eq [OF assms])

lemma find_SomeD: "List.find P xs = Some x \<Longrightarrow> P x \<and> x \<in> set xs"
  by (auto simp: find_Some_iff)

lemma lookupD:
  assumes "bio_inv s xs" and "lookup s k = Some b"
  shows "b \<in> set xs" "label s b = k"
  using find_SomeD [of _ xs b] assms by (auto simp: lookup_eq)

lemma lookup_in_use:
  assumes "bio_inv s xs" and "b \<in> set xs" and "in_use (bufs s b)"
  shows "lookup s (label s b) = Some b"
  using bio_invD(6) [OF assms] lookup_eq [OF assms(1)] by simp

text \<open>Updates of a buffer that keep its label.\<close>

lemma upd_buf_simps [simp]:
  "bufs (upd_buf b f s) = (bufs s)(b := f (bufs s b))"
  "bc_links (upd_buf b f s) = bc_links s" "disks (upd_buf b f s) = disks s" "writes (upd_buf b f s) = writes s"
  by (simp_all add: upd_buf_def)

definition keeps_label :: "(buf \<Rightarrow> buf) \<Rightarrow> bool" where
  "keeps_label f \<longleftrightarrow> (\<forall>x. b_dev (f x) = b_dev x \<and> b_blockno (f x) = b_blockno x)"

lemma label_upd:
  assumes "keeps_label f"
  shows "label (upd_buf b f s) = label s"
  using assms by (auto simp: label_def keeps_label_def fun_eq_iff)

lemma lookup_upd:
  assumes "keeps_label f"
  shows "lookup (upd_buf b f s) = lookup s"
  by (rule ext) (simp add: lookup_def find_block_def label_upd [OF assms] del: scan.simps)

lemma bio_inv_upd:
  assumes "bio_inv s xs" and "lookup s k = Some b"
    and "keeps_label f"
  shows "bio_inv (upd_buf b f s) xs"
proof -
  have b: "b \<in> set xs" "label s b = k" by (rule lookupD [OF assms(1,2)])+
  have f: "List.find (\<lambda>c. label s c = label s b) xs = Some b"
    using assms(2) lookup_eq [OF assms(1)] b by simp
  show ?thesis
    using assms(1) f unfolding bio_inv_def label_upd [OF assms(3)] by auto
qed

text \<open>What such an update does to the view of the blocks.\<close>

lemma abs_upd:
  assumes "bio_inv s xs" and "lookup s k = Some b"
    and "keeps_label f"
  shows "refs (upd_buf b f s) = (refs s)(k := b_refcnt (f (bufs s b)))"
    "holder (upd_buf b f s) = (holder s)(k := b_pid (f (bufs s b)))"
    "view (upd_buf b f s) = (view s)(k := if b_valid (f (bufs s b)) then b_data (f (bufs s b)) else disks s k)"
proof -
  note l = lookup_upd [OF assms(3)]
  have o: "c \<noteq> b" if "lookup s j = Some c" "j \<noteq> k" for j c
    using lookupD(2) [OF assms(1) that(1)] lookupD(2) [OF assms(1,2)] that(2) by auto
  have "refs (upd_buf b f s) j = ((refs s)(k := b_refcnt (f (bufs s b)))) j \<and>
    holder (upd_buf b f s) j = ((holder s)(k := b_pid (f (bufs s b)))) j \<and>
    view (upd_buf b f s) j = ((view s)(k := if b_valid (f (bufs s b)) then b_data (f (bufs s b)) else disks s k)) j" for j
  proof (cases "j = k")
    case True
    then show ?thesis using assms(2) by (simp add: refs_def holder_def view_def l)
  next
    case False
    then show ?thesis
      using o [of j] by (cases "lookup s j") (simp_all add: refs_def holder_def view_def l)
  qed
  then show "refs (upd_buf b f s) = (refs s)(k := b_refcnt (f (bufs s b)))"
    "holder (upd_buf b f s) = (holder s)(k := b_pid (f (bufs s b)))"
    "view (upd_buf b f s) = (view s)(k := if b_valid (f (bufs s b)) then b_data (f (bufs s b)) else disks s k)"
    by (metis ext)+
qed

section \<open>Recycling a buffer\<close>

lemma find_unique:
  assumes "b \<in> set xs" and "P b" and "\<And>c. c \<in> set xs \<Longrightarrow> P c \<Longrightarrow> c = b"
  shows "List.find P xs = Some b"
proof (cases "List.find P xs")
  case None
  then show ?thesis using assms(1,2) by (auto simp: find_None_iff)
next
  case (Some c)
  then show ?thesis using find_SomeD [OF Some] assms(3) by simp
qed

lemma find_skip:
  "List.find P xs = Some c \<Longrightarrow> c \<noteq> b \<Longrightarrow> List.find (\<lambda>x. x \<noteq> b \<and> P x) xs = Some c"
  by (induction xs) (auto split: if_splits)

lemma find_skip_none: "List.find P xs = None \<Longrightarrow> List.find (\<lambda>x. x \<noteq> b \<and> P x) xs = None"
  by (auto simp: find_None_iff)

definition relabel :: "u64 \<Rightarrow> bkey \<Rightarrow> 'a bio_scheme \<Rightarrow> 'a bio_scheme" where
  "relabel b k s = upd_buf b (\<lambda>x. x\<lparr>b_dev := fst k, b_blockno := snd k, b_valid := False, b_refcnt := 1\<rparr>) s"

lemma label_relabel: "label (relabel b k s) = (label s)(b := k)"
  by (auto simp: fun_eq_iff label_def relabel_def)

lemma recycle:
  assumes inv: "bio_inv s xs" and miss: "lookup s k = None" and cl: "clean s" and lc: "lock_counts s"
    and b: "b \<in> set xs" "b_refcnt (bufs s b) = 0"
  defines "t \<equiv> relabel b k s"
  shows "bio_inv t xs" "lookup t k = Some b" "refs t = (refs s)(k := 1)" "holder t = holder s"
    "view t = view s" "b_pid (bufs t b) = None" "\<not> b_valid (bufs t b)" "disks t = disks s" "writes t = writes s"
    "lookup s j = Some c \<Longrightarrow> refs s j \<noteq> 0 \<Longrightarrow> lookup t j = Some c"
proof -
  note d = bio_invD [OF inv]
  have bufs: "bufs t = (bufs s)(b := (bufs s b)\<lparr>b_dev := fst k, b_blockno := snd k, b_valid := False, b_refcnt := 1\<rparr>)"
    by (simp add: t_def relabel_def)
  show dw: "disks t = disks s" "writes t = writes s" by (simp_all add: t_def relabel_def)
  have free: "b_pid (bufs s b) = None"
  proof (rule ccontr)
    assume p: "b_pid (bufs s b) \<noteq> None"
    then have "lookup s (label s b) = Some b" using lookup_in_use [OF inv b(1)] by (simp add: in_use_def)
    then have "holder s (label s b) \<noteq> None" "refs s (label s b) = 0"
      using p b(2) by (simp_all add: holder_def refs_def)
    then show False using lc unfolding lock_counts_def by blast
  qed
  have nok: "label s c \<noteq> k" if "c \<in> set xs" for c
    using miss that by (simp add: lookup_eq [OF inv] find_None_iff)
  have lt: "label t = (label s)(b := k)" by (simp add: t_def label_relabel)
  have fk: "List.find (\<lambda>c. label t c = k) xs = Some b"
    by (rule find_unique) (use b nok lt in \<open>auto split: if_splits\<close>)
  have fj: "List.find (\<lambda>c. label t c = j) xs = List.find (\<lambda>c. c \<noteq> b \<and> label s c = j) xs" if "j \<noteq> k" for j
    by (rule find_cong) (use that lt in auto)
  show inv': "bio_inv t xs"
    unfolding bio_inv_def
  proof (intro conjI ballI impI)
    fix c assume c: "c \<in> set xs" "in_use (bufs t c)"
    show "List.find (\<lambda>x. label t x = label t c) xs = Some c"
    proof (cases "c = b")
      case True
      then show ?thesis using fk lt by simp
    next
      case False
      then have "List.find (\<lambda>x. label s x = label s c) xs = Some c" using d(6) c bufs by simp
      then show ?thesis using find_skip [of _ xs c b] False fj [of "label s c"] nok [OF c(1)] lt by simp
    qed
  qed (use d in \<open>simp_all add: t_def relabel_def\<close>)
  show lk: "lookup t k = Some b" using fk by (simp add: lookup_eq [OF inv'])
  show "b_pid (bufs t b) = None" "\<not> b_valid (bufs t b)" using free by (simp_all add: bufs)
  have keep: "lookup t j = Some c" if "lookup s j = Some c" "c \<noteq> b" for j c
  proof -
    have "j \<noteq> k" using that(1) miss by auto
    then show ?thesis using find_skip [of _ xs c b] that fj by (simp add: lookup_eq [OF inv'] lookup_eq [OF inv])
  qed
  show "lookup s j = Some c \<Longrightarrow> refs s j \<noteq> 0 \<Longrightarrow> lookup t j = Some c"
    using keep b(2) by (cases "c = b") (auto simp: refs_def)
  have rest: "refs t j = refs s j \<and> holder t j = holder s j \<and> view t j = view s j" if j: "j \<noteq> k" for j
  proof (cases "lookup s j")
    case None
    then have "lookup t j = None"
      using find_skip_none fj [OF j] by (simp add: lookup_eq [OF inv'] lookup_eq [OF inv])
    then show ?thesis using None by (simp add: refs_def holder_def view_def dw)
  next
    case (Some c)
    show ?thesis
    proof (cases "c = b")
      case False
      then show ?thesis using keep [OF Some] Some by (simp add: refs_def holder_def view_def dw bufs)
    next
      case True
      then have z: "refs s j = 0" "holder s j = None"
        using Some b(2) free by (simp_all add: refs_def holder_def)
      note old = z cl [unfolded clean_def, rule_format, OF z(1)]
      show ?thesis
      proof (cases "lookup t j")
        case None
        then show ?thesis using old by (simp add: refs_def holder_def view_def dw)
      next
        case (Some e)
        then have "e \<noteq> b \<and> label s e = j \<and> e \<in> set xs"
          using fj [OF j] find_SomeD [of "\<lambda>c. c \<noteq> b \<and> label s c = j" xs e] by (simp add: lookup_eq [OF inv'])
        moreover have "\<not> in_use (bufs s e)"
          using calculation lookup_in_use [OF inv, of e] \<open>lookup s j = Some c\<close> True by auto
        ultimately show ?thesis using old Some by (simp add: refs_def holder_def view_def dw bufs in_use_def)
      qed
    qed
  qed
  have k: "refs t k = 1" "holder t k = holder s k" "view t k = view s k"
    using lk miss free by (simp_all add: refs_def holder_def view_def bufs dw)
  have eqs: "refs t j = ((refs s)(k := 1)) j \<and> holder t j = holder s j \<and> view t j = view s j" for j
    using rest [of j] k by (cases "j = k") simp_all
  show "refs t = (refs s)(k := 1)" "holder t = holder s" "view t = view s"
    by (rule ext; simp only: eqs)+
qed

section \<open>Moving a buffer to the front\<close>

lemma bc_unlink_remove: "bc_unlink b h = lst_remove b h"
  by (auto simp: bc_unlink_def lst_remove_def Let_def set_next_def set_prev_def)

lemma find_front:
  assumes "b \<in> set xs" and "P b \<Longrightarrow> List.find P xs = Some b"
  shows "List.find P (b # remove1 b xs) = List.find P xs"
proof (cases "P b")
  case False
  then have "List.find P (remove1 b xs) = List.find P xs" by (induction xs) auto
  then show ?thesis using False by simp
qed (use assms in simp)

lemma move_front:
  assumes inv: "bio_inv s xs" and b: "lookup s k = Some b"
  defines "t \<equiv> s\<lparr>bc_links := lst_push bhead b (bc_unlink b (bc_links s))\<rparr>"
  shows "bio_inv t (b # remove1 b xs)" "lookup t = lookup s" "refs t = refs s" "holder t = holder s"
    "view t = view s" "bufs t = bufs s" "disks t = disks s" "writes t = writes s"
proof -
  note d = bio_invD [OF inv]
  have bx: "b \<in> set xs" "label s b = k" by (rule lookupD [OF inv b])+
  have f: "List.find (\<lambda>c. label s c = k) xs = Some b" using b by (simp add: lookup_eq [OF inv])
  show t: "bufs t = bufs s" "disks t = disks s" "writes t = writes s" by (simp_all add: t_def)
  have lt: "label t = label s" by (simp add: label_def t fun_eq_iff)
  have fr: "List.find (\<lambda>c. label s c = j) (b # remove1 b xs) = List.find (\<lambda>c. label s c = j) xs" for j
    by (rule find_front [OF bx(1)]) (use f bx in auto)
  have "b \<notin> set (bhead # remove1 b xs)" using d(2,3) bx(1) by auto
  from klist.push_rep [OF klist.remove_rep [OF d(1) bx(1)] this]
  have "dlist (bc_links t) bhead (b # remove1 b xs)"
    by (simp add: t_def bc_unlink_remove)
  moreover have "set (b # remove1 b xs) = set xs" using d(2) bx(1) by auto
  ultimately show inv': "bio_inv t (b # remove1 b xs)"
    using d(5,6) unfolding bio_inv_def lt fr by (simp add: t)
  show lk: "lookup t = lookup s"
    by (rule ext) (simp add: lookup_eq [OF inv'] lookup_eq [OF inv] lt fr del: List.find.simps)
  show "refs t = refs s" "holder t = holder s" "view t = view s"
    by (rule ext; simp add: refs_def holder_def view_def lk t split: option.split)+
qed

section \<open>The operations on the abstract view\<close>

definition cache_ok :: "'a bio_scheme \<Rightarrow> bool" where
  "cache_ok s \<longleftrightarrow> (\<exists>xs. bio_inv s xs)"

text \<open>The blocks in use; a buffer is free when they are fewer than the buffers.\<close>

definition used_blocks :: "'a bio_scheme \<Rightarrow> bkey set" where
  "used_blocks s = {k. refs s k \<noteq> 0}"

lemma used_blocks_finite:
  assumes "bio_inv s xs"
  shows "finite (used_blocks s)"
proof (rule finite_subset)
  show "used_blocks s \<subseteq> label s ` set xs"
  proof (rule subsetI)
    fix k assume "k \<in> used_blocks s"
    then obtain b where "lookup s k = Some b"
      by (cases "lookup s k") (simp_all add: used_blocks_def refs_def)
    from lookupD [OF assms this] show "k \<in> label s ` set xs" by blast
  qed
qed simp

lemma free_buffer:
  assumes inv: "bio_inv s xs" and c: "card (used_blocks s) < NBUF"
  shows "\<exists>b \<in> set xs. b_refcnt (bufs s b) = 0"
proof (rule ccontr)
  assume "\<not> ?thesis"
  then have nz: "\<forall>b \<in> set xs. b_refcnt (bufs s b) \<noteq> 0" by simp
  then have lk: "lookup s (label s b) = Some b" if "b \<in> set xs" for b
    using lookup_in_use [OF inv that] that by (simp add: in_use_def)
  then have "inj_on (label s) (set xs)" by (metis inj_onI option.inject)
  moreover have "label s ` set xs \<subseteq> used_blocks s" using nz lk by (auto simp: used_blocks_def refs_def)
  ultimately have "card (set xs) \<le> card (used_blocks s)"
    using card_inj_on_le used_blocks_finite [OF inv] by blast
  moreover have "card (set xs) = NBUF" using bio_invD(2,4) [OF inv] by (simp add: distinct_card)
  ultimately show False using c by simp
qed

text \<open>The updates that change nothing of the view.\<close>

lemma abs_keep:
  assumes "bio_inv s xs" and "lookup s k = Some b" and "keeps_label f"
  shows "b_refcnt (f (bufs s b)) = b_refcnt (bufs s b) \<Longrightarrow> refs (upd_buf b f s) = refs s"
    "b_pid (f (bufs s b)) = b_pid (bufs s b) \<Longrightarrow> holder (upd_buf b f s) = holder s"
    "(if b_valid (f (bufs s b)) then b_data (f (bufs s b)) else disks s k) = view s k \<Longrightarrow>
      view (upd_buf b f s) = view s"
  using assms(2) by (simp_all add: abs_upd [OF assms] refs_def holder_def fun_upd_idem_iff)

lemma view_hit: "lookup s k = Some b \<Longrightarrow>
    view s k = (if b_valid (bufs s b) then b_data (bufs s b) else disks s k)"
  by (simp add: view_def)

lemma bget_hit:
  assumes inv: "bio_inv s xs" and h: "lookup s k = Some b" "holder s k = None"
  shows "bget pid k s = (Inr b, upd_buf b (\<lambda>x. x\<lparr>b_refcnt := b_refcnt x + 1, b_pid := Some pid\<rparr>) s)"
proof -
  have "find_block k s = Inr (Some b)" using find_block_eq [OF inv] h(1) by (simp add: lookup_eq [OF inv])
  moreover have "b_pid (bufs s b) = None" using h by (simp add: holder_def)
  ultimately show ?thesis by (simp add: bget_def lock_buf_def upd_buf_def)
qed

lemma bget_miss:
  assumes inv: "bio_inv s xs" and h: "lookup s k = None" and cl: "clean s" and lc: "lock_counts s"
    and free: "card (used_blocks s) < NBUF"
  obtains b where "b \<in> set xs" "b_refcnt (bufs s b) = 0"
    "bget pid k s = (Inr b, upd_buf b (\<lambda>x. x\<lparr>b_pid := Some pid\<rparr>) (relabel b k s))"
proof -
  have f: "find_block k s = Inr None" using find_block_eq [OF inv] h by (simp add: lookup_eq [OF inv])
  obtain b where b: "List.find (\<lambda>b. b_refcnt (bufs s b) = 0) (rev xs) = Some b"
    using free_buffer [OF inv free] by (cases "List.find (\<lambda>b. b_refcnt (bufs s b) = 0) (rev xs)") (auto simp: find_None_iff)
  then have bx: "b \<in> set xs" "b_refcnt (bufs s b) = 0" using find_SomeD [OF b] by auto
  have "b_pid (bufs (relabel b k s) b) = None" using recycle(6) [OF inv h cl lc bx] .
  then have "bget pid k s = (Inr b, upd_buf b (\<lambda>x. x\<lparr>b_pid := Some pid\<rparr>) (relabel b k s))"
    using f find_unused_eq [OF inv] b by (simp add: bget_def lock_buf_def relabel_def)
  then show thesis using that bx by blast
qed

lemma bread_spec:
  assumes ok: "cache_ok s" and cl: "clean s" and lc: "lock_counts s"
    and k: "holder s k = None" "refs s k \<noteq> 0 \<or> card (used_blocks s) < NBUF" "refs s k + 1 \<noteq> 0"
  shows "\<exists>b t. bread pid k s = (Inr b, t) \<and> cache_ok t \<and> lookup t k = Some b \<and> b_valid (bufs t b) \<and>
    label t b = k \<and> view t = view s \<and> refs t = (refs s)(k := refs s k + 1) \<and>
    holder t = (holder s)(k := Some pid) \<and> disks t = disks s \<and> writes t = writes s \<and>
    (\<forall>j c. lookup s j = Some c \<longrightarrow> refs s j \<noteq> 0 \<longrightarrow>
        lookup t j = Some c \<and> (b_valid (bufs s c) \<longrightarrow> b_valid (bufs t c)))"
proof -
  obtain xs where inv: "bio_inv s xs" using ok by (auto simp: cache_ok_def)
  text \<open>Up to the disk read, the two cases agree.\<close>
  have "\<exists>b t. bget pid k s = (Inr b, t) \<and> bio_inv t xs \<and> lookup t k = Some b \<and> view t = view s \<and>
      refs t = (refs s)(k := refs s k + 1) \<and> holder t = (holder s)(k := Some pid) \<and> disks t = disks s \<and>
      writes t = writes s \<and> (\<forall>j c. lookup s j = Some c \<longrightarrow> refs s j \<noteq> 0 \<longrightarrow>
        lookup t j = Some c \<and> (b_valid (bufs s c) \<longrightarrow> b_valid (bufs t c)))"
  proof (cases "lookup s k")
    case (Some b)
    let ?f = "\<lambda>x. x\<lparr>b_refcnt := b_refcnt x + 1, b_pid := Some pid\<rparr>"
    have kl: "keeps_label ?f" by (simp add: keeps_label_def)
    note a = abs_upd [OF inv Some kl] bio_inv_upd [OF inv Some kl] lookup_upd [OF kl, of b s]
    have r: "refs s k = b_refcnt (bufs s b)" using Some by (simp add: refs_def)
    have v: "view (upd_buf b ?f s) = view s" by (rule abs_keep(3) [OF inv Some kl]) (simp add: view_hit [OF Some])
    show ?thesis using bget_hit [OF inv Some k(1), of pid] a Some r v by simp
  next
    case None
    then have z: "refs s k = 0" by (simp add: refs_def)
    then have free: "card (used_blocks s) < NBUF" using k(2) by simp
    from bget_miss [OF inv None cl lc free, of pid] obtain b where b: "b \<in> set xs" "b_refcnt (bufs s b) = 0"
      "bget pid k s = (Inr b, upd_buf b (\<lambda>x. x\<lparr>b_pid := Some pid\<rparr>) (relabel b k s))" by blast
    note r = recycle [OF inv None cl lc b(1,2)]
    let ?f = "\<lambda>x. x\<lparr>b_pid := Some pid\<rparr>"
    have kl: "keeps_label ?f" by (simp add: keeps_label_def)
    note a = abs_upd [OF r(1,2) kl] bio_inv_upd [OF r(1,2) kl] lookup_upd [OF kl, of b "relabel b k s"]
    have v: "view (upd_buf b ?f (relabel b k s)) = view s"
      by (rule trans [OF abs_keep(3) [OF r(1,2) kl] r(5)]) (simp add: view_hit [OF r(2)])
    have rc: "refs (upd_buf b ?f (relabel b k s)) = (refs s)(k := refs s k + 1)"
    proof -
      have "b_refcnt (bufs (relabel b k s) b) = 1" by (simp add: relabel_def)
      then show ?thesis using a(1) r(3) z by simp
    qed
    have "j \<noteq> k \<and> lookup (upd_buf b ?f (relabel b k s)) j = Some c \<and> c \<noteq> b"
      if "lookup s j = Some c" "refs s j \<noteq> 0" for j c
      using that r(10) [OF that] a(5) z b(2) by (auto simp: refs_def)
    moreover have "bufs (upd_buf b ?f (relabel b k s)) c = bufs s c" if "c \<noteq> b" for c
      using that by (simp add: relabel_def)
    moreover have "lookup (upd_buf b ?f (relabel b k s)) k = Some b" using a(5) r(2) by simp
    ultimately show ?thesis using b(3) a(1,2,4) r v rc by auto
  qed
  then obtain b t where g: "bget pid k s = (Inr b, t)" "bio_inv t xs" "lookup t k = Some b" "view t = view s"
    "refs t = (refs s)(k := refs s k + 1)" "holder t = (holder s)(k := Some pid)" "disks t = disks s"
    "writes t = writes s" "\<forall>j c. lookup s j = Some c \<longrightarrow> refs s j \<noteq> 0 \<longrightarrow>
        lookup t j = Some c \<and> (b_valid (bufs s c) \<longrightarrow> b_valid (bufs t c))" by blast
  show ?thesis
  proof (cases "b_valid (bufs t b)")
    case True
    then show ?thesis
      using g lookupD(2) [OF g(2,3)] by (auto simp: bread_def cache_ok_def)
  next
    case False
    let ?f = "\<lambda>x. x\<lparr>b_data := disks t k, b_valid := True\<rparr>"
    have kl: "keeps_label ?f" by (simp add: keeps_label_def)
    have lb: "label t b = k" by (rule lookupD(2) [OF g(2,3)])
    have e: "upd_buf b (\<lambda>x. x\<lparr>b_valid := True\<rparr>) (disk_read b t) = upd_buf b ?f t"
      by (simp add: upd_buf_def disk_read_def lb)
    note a = abs_upd [OF g(2,3) kl] bio_inv_upd [OF g(2,3) kl] lookup_upd [OF kl, of b t]
    have v: "view (upd_buf b ?f t) = view t"
      by (rule abs_keep(3) [OF g(2,3) kl]) (simp add: view_hit [OF g(3)] False)
    have rh: "refs (upd_buf b ?f t) = refs t" "holder (upd_buf b ?f t) = holder t"
      by (rule abs_keep(1,2) [OF g(2,3) kl]; simp)+
    show ?thesis
      using g False a v rh lb label_upd [OF kl, of b t] by (auto simp: bread_def cache_ok_def e)
  qed
qed

lemma set_data_spec:
  assumes ok: "cache_ok s" and b: "lookup s k = Some b" "b_valid (bufs s b)"
  shows "cache_ok (set_data b d s)" "view (set_data b d s) = (view s)(k := d)" "refs (set_data b d s) = refs s"
    "holder (set_data b d s) = holder s" "disks (set_data b d s) = disks s" "writes (set_data b d s) = writes s"
    "lookup (set_data b d s) = lookup s" "bufs (set_data b d s) c = (if c = b then (bufs s b)\<lparr>b_data := d\<rparr> else bufs s c)"
proof -
  obtain xs where inv: "bio_inv s xs" using ok by (auto simp: cache_ok_def)
  let ?f = "\<lambda>x. x\<lparr>b_data := d\<rparr>"
  have kl: "keeps_label ?f" by (simp add: keeps_label_def)
  note a = abs_upd [OF inv b(1) kl] bio_inv_upd [OF inv b(1) kl] lookup_upd [OF kl, of b s]
  show "cache_ok (set_data b d s)" using a(4) by (auto simp: cache_ok_def set_data_def)
  show "view (set_data b d s) = (view s)(k := d)" using a(3) b(2) by (simp add: set_data_def)
  show "refs (set_data b d s) = refs s" "holder (set_data b d s) = holder s"
    unfolding set_data_def by (rule abs_keep(1,2) [OF inv b(1) kl]; simp)+
  show "lookup (set_data b d s) = lookup s" using a(5) by (simp add: set_data_def)
qed (simp_all add: set_data_def)

lemma bwrite_spec:
  assumes ok: "cache_ok s" and b: "lookup s k = Some b" "b_valid (bufs s b)" "holder s k = Some pid"
  shows "\<exists>t. bwrite pid b s = (Inr (), t) \<and> cache_ok t \<and> view t = view s \<and> refs t = refs s \<and>
    holder t = holder s \<and> disks t = (disks s)(k := view s k) \<and> writes t = writes s @ [(k, view s k)] \<and>
    lookup t = lookup s \<and> bufs t = bufs s"
proof -
  obtain xs where inv: "bio_inv s xs" using ok by (auto simp: cache_ok_def)
  have lb: "label s b = k" by (rule lookupD(2) [OF inv b(1)])
  have pid: "b_pid (bufs s b) = Some pid" using b by (simp add: holder_def)
  have vk: "view s k = b_data (bufs s b)" using b by (simp add: view_def)
  let ?t = "disk_write b s"
  have r: "bwrite pid b s = (Inr (), ?t)" using pid by (simp add: bwrite_def)
  have same: "bufs ?t = bufs s" "bc_links ?t = bc_links s" by (simp_all add: disk_write_def)
  have lt: "label ?t = label s" by (simp add: label_def same fun_eq_iff)
  have lk: "lookup ?t = lookup s" by (rule ext) (simp add: lookup_def find_block_def lt same del: scan.simps)
  have inv': "bio_inv ?t xs" using inv by (simp add: bio_inv_def lt same)
  have dw: "disks ?t = (disks s)(k := view s k)" "writes ?t = writes s @ [(k, view s k)]"
    by (simp_all add: disk_write_def lb vk)
  have "view ?t j = view s j" for j
    using b vk by (cases "j = k") (simp_all add: view_def lk same dw split: option.split)
  then have v: "view ?t = view s" by blast
  have "refs ?t = refs s" "holder ?t = holder s"
    by (rule ext; simp add: refs_def holder_def lk same split: option.split)+
  then show ?thesis using r inv' v dw lk same by (auto simp: cache_ok_def)
qed

lemma brelse_spec:
  assumes ok: "cache_ok s" and b: "lookup s k = Some b" "holder s k = Some pid"
  shows "\<exists>t. brelse pid b s = (Inr (), t) \<and> cache_ok t \<and> view t = view s \<and>
    refs t = (refs s)(k := refs s k - 1) \<and> holder t = (holder s)(k := None) \<and>
    disks t = disks s \<and> writes t = writes s \<and> lookup t = lookup s \<and>
    (\<forall>c. b_valid (bufs t c) = b_valid (bufs s c))"
proof -
  obtain xs where inv: "bio_inv s xs" using ok by (auto simp: cache_ok_def)
  have pid: "b_pid (bufs s b) = Some pid" using b by (simp add: holder_def)
  let ?f = "\<lambda>x. x\<lparr>b_pid := None, b_refcnt := b_refcnt x - 1\<rparr>"
  have kl: "keeps_label ?f" by (simp add: keeps_label_def)
  let ?u = "upd_buf b ?f s"
  note a = abs_upd [OF inv b(1) kl] bio_inv_upd [OF inv b(1) kl] lookup_upd [OF kl, of b s]
  have v: "view ?u = view s" by (rule abs_keep(3) [OF inv b(1) kl]) (simp add: view_hit [OF b(1)])
  have r: "refs ?u = (refs s)(k := refs s k - 1)" using a(1) b by (simp add: refs_def)
  have h: "holder ?u = (holder s)(k := None)" using a(2) by simp
  have e: "upd_buf b (\<lambda>x. x\<lparr>b_refcnt := b_refcnt x - 1\<rparr>) (upd_buf b (\<lambda>x. x\<lparr>b_pid := None\<rparr>) s) = ?u"
    by (simp add: upd_buf_def)
  have lk: "lookup ?u k = Some b" using a(5) b(1) by simp
  show ?thesis
  proof (cases "b_refcnt (bufs ?u b) = 0")
    case True
    note m = move_front [OF a(4) lk]
    have "brelse pid b s = (Inr (), ?u\<lparr>bc_links := lst_push bhead b (bc_unlink b (bc_links ?u))\<rparr>)"
      using pid True by (simp only: brelse_def Let_def e) simp
    then show ?thesis using m v r h a(5) by (auto simp: cache_ok_def)
  next
    case False
    then have "brelse pid b s = (Inr (), ?u)"
      using pid by (simp only: brelse_def Let_def e) simp
    then show ?thesis using a(4,5) v r h by (auto simp: cache_ok_def)
  qed
qed

lemma pin_spec:
  assumes ok: "cache_ok s" and b: "lookup s k = Some b"
  shows "cache_ok (bpin b s)" "view (bpin b s) = view s" "refs (bpin b s) = (refs s)(k := refs s k + 1)"
    "holder (bpin b s) = holder s" "lookup (bpin b s) = lookup s"
    "cache_ok (bunpin b s)" "view (bunpin b s) = view s" "refs (bunpin b s) = (refs s)(k := refs s k - 1)"
    "holder (bunpin b s) = holder s" "lookup (bunpin b s) = lookup s"
proof -
  obtain xs where inv: "bio_inv s xs" using ok by (auto simp: cache_ok_def)
  have kl: "keeps_label (\<lambda>x. x\<lparr>b_refcnt := b_refcnt x + n\<rparr>)" for n by (simp add: keeps_label_def)
  have gen: "cache_ok (upd_buf b (\<lambda>x. x\<lparr>b_refcnt := b_refcnt x + n\<rparr>) s) \<and>
      view (upd_buf b (\<lambda>x. x\<lparr>b_refcnt := b_refcnt x + n\<rparr>) s) = view s \<and>
      refs (upd_buf b (\<lambda>x. x\<lparr>b_refcnt := b_refcnt x + n\<rparr>) s) = (refs s)(k := refs s k + n) \<and>
      holder (upd_buf b (\<lambda>x. x\<lparr>b_refcnt := b_refcnt x + n\<rparr>) s) = holder s \<and>
      lookup (upd_buf b (\<lambda>x. x\<lparr>b_refcnt := b_refcnt x + n\<rparr>) s) = lookup s" for n
    using abs_upd(1) [OF inv b kl, of n] abs_keep(2,3) [OF inv b kl, of n] bio_inv_upd [OF inv b kl, of n]
      lookup_upd [OF kl, of b n s] b
    by (auto simp: cache_ok_def refs_def view_hit [OF b])
  note p = gen [of 1] gen [of "- 1"]
  show "cache_ok (bpin b s)" "view (bpin b s) = view s" "refs (bpin b s) = (refs s)(k := refs s k + 1)"
    "holder (bpin b s) = holder s" "lookup (bpin b s) = lookup s"
    using p(1) by (simp_all add: bpin_def)
  show "cache_ok (bunpin b s)" "view (bunpin b s) = view s" "refs (bunpin b s) = (refs s)(k := refs s k - 1)"
    "holder (bunpin b s) = holder s" "lookup (bunpin b s) = lookup s"
    using p(2) by (simp_all add: bunpin_def)
qed

end
