(* ===== verification/Xv7_Cache.thy ===== *)
theory Xv7_Cache
  imports Xv7_Bio
begin

text \<open>
  The buffer cache seen from its clients: the state \<open>binit\<close> sets up, the abstract view of
  the cached blocks with what each operation of \<open>bio.c\<close> does to it, and the locale
  \<open>block_cache\<close> that states these laws; the log is verified against them.
\<close>

section \<open>The empty cache\<close>

text \<open>A well-formed cache: the representation, no unwritten change without a reference.\<close>

definition cache_wf :: "'a bio_scheme \<Rightarrow> bool" where
  "cache_wf s \<longleftrightarrow> cache_ok s \<and> clean s \<and> lock_counts s"

text \<open>The statically allocated cache before \<open>binit\<close>: all bytes are zero.\<close>

definition bss_buf :: buf where
  "bss_buf = \<lparr>b_valid = False, b_dev = 0, b_blockno = 0, b_pid = None, b_refcnt = 0, b_data = \<lambda>_. 0\<rparr>"

lemma binit_links:
  assumes "dlist (bc_links s) bhead []" and "n \<le> NBUF" and "\<forall>b. b_pid (bufs s b) = None"
  shows "\<exists>h. fold (\<lambda>i s. upd_buf (of_nat i) (\<lambda>b. b\<lparr>b_pid := None\<rparr>)
           (s\<lparr>bc_links := lst_push bhead (of_nat i) (bc_links s)\<rparr>)) [0..<n] s = s\<lparr>bc_links := h\<rparr> \<and>
    dlist h bhead (rev (map of_nat [0..<n]))"
  using assms(2)
proof (induction n)
  case 0
  have "s = s\<lparr>bc_links := bc_links s\<rparr>" by simp
  then show ?case using assms(1) by (metis fold_Nil id_apply list.map_disc_iff rev_is_Nil_conv upt_0)
next
  case (Suc n)
  then obtain h where h: "fold (\<lambda>i s. upd_buf (of_nat i) (\<lambda>b. b\<lparr>b_pid := None\<rparr>)
           (s\<lparr>bc_links := lst_push bhead (of_nat i) (bc_links s)\<rparr>)) [0..<n] s = s\<lparr>bc_links := h\<rparr>"
    "dlist h bhead (rev (map of_nat [0..<n]))" by auto
  have u: "unat (of_nat i :: u64) = i" if "i \<le> NBUF" for i
    using that by (simp add: NBUF_def unat_of_nat)
  have "(of_nat n :: u64) \<noteq> of_nat i" if "i < n" for i
    using u [of n] u [of i] that Suc.prems by (metis Suc_leD less_imp_le less_irrefl order_less_le_trans)
  moreover have "(of_nat n :: u64) \<noteq> bhead"
    using u [of n] u [of NBUF] Suc.prems by (metis Suc_n_not_le_n bhead_def order_refl Suc_leD)
  ultimately have "of_nat n \<notin> set (bhead # rev (map (of_nat :: nat \<Rightarrow> u64) [0..<n]))"
    by (metis atLeastLessThan_iff imageE list.set_map set_ConsD set_rev set_upt)
  from klist.push_rep [OF h(2) this]
  have "dlist (lst_push bhead (of_nat n) h) bhead (rev (map of_nat [0..<Suc n]))" by simp
  moreover have "upd_buf (of_nat n) (\<lambda>b. b\<lparr>b_pid := None\<rparr>) (s\<lparr>bc_links := lst_push bhead (of_nat n) h\<rparr>) =
    s\<lparr>bc_links := lst_push bhead (of_nat n) h\<rparr>"
  proof -
    have "(bufs s (of_nat n))\<lparr>b_pid := None\<rparr> = bufs s (of_nat n)" using assms(3) by simp
    then show ?thesis by (simp add: upd_buf_def fun_upd_idem)
  qed
  ultimately show ?case using h(1) by auto
qed

lemma binit_wf:
  assumes "bufs s = (\<lambda>_. bss_buf)"
  shows "cache_wf (binit s)" "view (binit s) = disks s" "refs (binit s) = (\<lambda>_. 0)" "holder (binit s) = (\<lambda>_. None)"
    "disks (binit s) = disks s" "writes (binit s) = writes s" "bio.more (binit s) = bio.more s"
proof -
  let ?s = "s\<lparr>bc_links := lst_init bhead (bc_links s)\<rparr>"
  have "dlist (bc_links ?s) bhead []" by (simp add: dlist_init)
  from binit_links [OF this order_refl] assms obtain h where
    h: "binit s = ?s\<lparr>bc_links := h\<rparr>" "dlist h bhead (rev (map of_nat [0..<NBUF]))"
    unfolding binit_def Let_def by (auto simp: bss_buf_def)
  let ?t = "binit s"
  have t: "bufs ?t = (\<lambda>_. bss_buf)" "disks ?t = disks s" "writes ?t = writes s" "bc_links ?t = h"
    by (simp_all add: h(1) assms)
  have inv: "bio_inv ?t (rev (map of_nat [0..<NBUF]))"
    using h(2) by (auto simp: bio_inv_def t in_use_def bss_buf_def atLeast0LessThan)
  show "view ?t = disks s" "refs ?t = (\<lambda>_. 0)" "holder ?t = (\<lambda>_. None)"
    by (rule ext; simp add: view_def refs_def holder_def t bss_buf_def split: option.split)+
  then show "cache_wf ?t" using inv by (auto simp: cache_wf_def cache_ok_def clean_def lock_counts_def t)
  show "disks (binit s) = disks s" "writes (binit s) = writes s" by (simp_all add: t)
  show "bio.more (binit s) = bio.more s" by (simp add: h(1))
qed

section \<open>The cache as an interface\<close>

text \<open>
  What the log and the file system know of the cache: the abstract view of all blocks, and
  what each operation does to it.  \<open>has s k b\<close> says that buffer \<open>b\<close> carries block \<open>k\<close>,
  read in; \<open>rest\<close> is the part of the state the cache never touches.
\<close>

record ('k, 'd) cview =
  c_data :: "'k \<Rightarrow> 'd"
  c_refs :: "'k \<Rightarrow> u32"
  c_owner :: "'k \<Rightarrow> int option"
  c_disk :: "'k \<Rightarrow> 'd"
  c_hist :: "('k \<times> 'd) list"

definition v_read :: "int \<Rightarrow> 'k \<Rightarrow> ('k, 'd) cview \<Rightarrow> ('k, 'd) cview" where
  "v_read pid k v = v\<lparr>c_refs := (c_refs v)(k := c_refs v k + 1), c_owner := (c_owner v)(k := Some pid)\<rparr>"

definition v_put :: "'k \<Rightarrow> 'd \<Rightarrow> ('k, 'd) cview \<Rightarrow> ('k, 'd) cview" where
  "v_put k d v = v\<lparr>c_data := (c_data v)(k := d)\<rparr>"

definition v_write :: "'k \<Rightarrow> ('k, 'd) cview \<Rightarrow> ('k, 'd) cview" where
  "v_write k v = v\<lparr>c_disk := (c_disk v)(k := c_data v k), c_hist := c_hist v @ [(k, c_data v k)]\<rparr>"

definition v_release :: "'k \<Rightarrow> ('k, 'd) cview \<Rightarrow> ('k, 'd) cview" where
  "v_release k v = v\<lparr>c_refs := (c_refs v)(k := c_refs v k - 1), c_owner := (c_owner v)(k := None)\<rparr>"

definition v_pin :: "'k \<Rightarrow> u32 \<Rightarrow> ('k, 'd) cview \<Rightarrow> ('k, 'd) cview" where
  "v_pin k n v = v\<lparr>c_refs := (c_refs v)(k := c_refs v k + n)\<rparr>"

lemmas v_defs = v_read_def v_put_def v_write_def v_release_def v_pin_def

text \<open>
  A settled view: an unreferenced block is not dirty, a locked one is referenced.  A block
  can be read when nobody holds it and it is in use or a buffer is left.
\<close>

definition settled :: "('k, 'd) cview \<Rightarrow> bool" where
  "settled v \<longleftrightarrow> (\<forall>k. c_refs v k = 0 \<longrightarrow> c_data v k = c_disk v k) \<and> (\<forall>k. c_owner v k \<noteq> None \<longrightarrow> c_refs v k \<noteq> 0)"

definition readable :: "('k, 'd) cview \<Rightarrow> 'k \<Rightarrow> bool" where
  "readable v k \<longleftrightarrow> c_owner v k = None \<and> (c_refs v k \<noteq> 0 \<or> card {j. c_refs v j \<noteq> 0} < NBUF) \<and> c_refs v k + 1 \<noteq> 0"

locale block_cache =
  fixes ok :: "'s \<Rightarrow> bool" and vw :: "'s \<Rightarrow> ('k, 'd) cview"
    and has :: "'s \<Rightarrow> 'k \<Rightarrow> 'b \<Rightarrow> bool" and data :: "'s \<Rightarrow> 'b \<Rightarrow> 'd" and rest :: "'s \<Rightarrow> 'r"
    and rd :: "int \<Rightarrow> 'k \<Rightarrow> 's \<Rightarrow> (kfault, 'b, 's) outcome"
    and put :: "'b \<Rightarrow> 'd \<Rightarrow> 's \<Rightarrow> 's"
    and wr :: "int \<Rightarrow> 'b \<Rightarrow> 's \<Rightarrow> (kfault, unit, 's) outcome"
    and rel :: "int \<Rightarrow> 'b \<Rightarrow> 's \<Rightarrow> (kfault, unit, 's) outcome"
  assumes data_has: "has s k b \<Longrightarrow> data s b = c_data (vw s) k"
    and rd_law: "ok s \<Longrightarrow> settled (vw s) \<Longrightarrow> readable (vw s) k \<Longrightarrow>
      \<exists>b t. rd pid k s = (Inr b, t) \<and> ok t \<and> vw t = v_read pid k (vw s) \<and> rest t = rest s \<and> has t k b \<and>
        (\<forall>j c. has s j c \<longrightarrow> c_refs (vw s) j \<noteq> 0 \<longrightarrow> has t j c)"
    and put_law: "ok s \<Longrightarrow> has s k b \<Longrightarrow> ok (put b d s) \<and> vw (put b d s) = v_put k d (vw s) \<and>
      rest (put b d s) = rest s \<and> (\<forall>j c. has s j c \<longrightarrow> has (put b d s) j c)"
    and wr_law: "ok s \<Longrightarrow> has s k b \<Longrightarrow> c_owner (vw s) k = Some pid \<Longrightarrow> \<exists>t. wr pid b s = (Inr (), t) \<and> ok t \<and>
      vw t = v_write k (vw s) \<and> rest t = rest s \<and> (\<forall>j c. has s j c \<longrightarrow> has t j c)"
    and rel_law: "ok s \<Longrightarrow> has s k b \<Longrightarrow> c_owner (vw s) k = Some pid \<Longrightarrow> \<exists>t. rel pid b s = (Inr (), t) \<and> ok t \<and>
      vw t = v_release k (vw s) \<and> rest t = rest s \<and> (\<forall>j c. has s j c \<longrightarrow> has t j c)"
begin

text \<open>Read a block, use it, release it.\<close>

lemma read_release:
  assumes "ok s" and "settled (vw s)" and "readable (vw s) k"
  shows "\<exists>b t u. rd pid k s = (Inr b, t) \<and> data t b = c_data (vw s) k \<and> rest t = rest s \<and>
    rel pid b t = (Inr (), u) \<and> ok u \<and> vw u = vw s \<and> rest u = rest s"
proof -
  obtain b t where t: "rd pid k s = (Inr b, t)" "ok t" "vw t = v_read pid k (vw s)" "rest t = rest s" "has t k b"
    using rd_law [OF assms, of pid] by blast
  have "c_owner (vw t) k = Some pid" by (simp add: t v_read_def)
  from rel_law [OF t(2,5) this] obtain u where u: "rel pid b t = (Inr (), u)" "ok u" "vw u = v_release k (vw t)" "rest u = rest t"
    by blast
  have "vw u = vw s"
    using assms(3) unfolding u(3) t(3) by (simp add: v_defs readable_def fun_upd_idem)
  then show ?thesis using t u data_has [OF t(5)] by (auto simp: v_read_def)
qed

text \<open>Read a block, replace its contents, write it through, release it.\<close>

lemma update_through:
  assumes "ok s" and "settled (vw s)" and "readable (vw s) k"
  shows "\<exists>b t u v. rd pid k s = (Inr b, t) \<and> data t b = c_data (vw s) k \<and> rest t = rest s \<and>
    wr pid b (put b d t) = (Inr (), u) \<and> rel pid b u = (Inr (), v) \<and> ok v \<and> rest v = rest s \<and>
    vw v = v_write k (v_put k d (vw s)) \<and> settled (vw v)"
proof -
  obtain b t where t: "rd pid k s = (Inr b, t)" "ok t" "vw t = v_read pid k (vw s)" "rest t = rest s" "has t k b"
    using rd_law [OF assms, of pid] by blast
  note p = put_law [OF t(2,5), of d]
  have "has (put b d t) k b" "c_owner (vw (put b d t)) k = Some pid" using p t(5) by (simp_all add: t(3) v_defs)
  from wr_law [OF _ this] p obtain u where u: "wr pid b (put b d t) = (Inr (), u)" "ok u"
    "vw u = v_write k (vw (put b d t))" "rest u = rest (put b d t)" "has u k b" using t(5) by blast
  have "c_owner (vw u) k = Some pid" using p by (simp add: u(3) t(3) v_defs)
  from rel_law [OF u(2,5) this] obtain v where v: "rel pid b u = (Inr (), v)" "ok v" "vw v = v_release k (vw u)" "rest v = rest u"
    by blast
  have vv: "vw v = v_write k (v_put k d (vw s))"
    using p assms(3) unfolding v(3) u(3) by (simp add: t(3) v_defs readable_def fun_upd_idem)
  moreover have "settled (vw v)" using assms(2) unfolding vv by (simp add: settled_def v_defs)
  ultimately show ?thesis using t u v p data_has [OF t(5)] by (auto simp: v_read_def)
qed

end

text \<open>The laws, for \<open>bio.c\<close>.\<close>

definition cview :: "'a bio_scheme \<Rightarrow> (bkey, block) cview" where
  "cview s = \<lparr>c_data = view s, c_refs = refs s, c_owner = holder s, c_disk = disks s, c_hist = writes s\<rparr>"

lemma cview_simps [simp]:
  "c_data (cview s) = view s" "c_refs (cview s) = refs s" "c_owner (cview s) = holder s"
  "c_disk (cview s) = disks s" "c_hist (cview s) = writes s"
  by (simp_all add: cview_def)

lemma cview_eq_iff:
  "cview t = v \<longleftrightarrow> view t = c_data v \<and> refs t = c_refs v \<and> holder t = c_owner v \<and> disks t = c_disk v \<and> writes t = c_hist v"
  by (cases v) (auto simp: cview_def)

definition cached :: "'a bio_scheme \<Rightarrow> bkey \<Rightarrow> u64 \<Rightarrow> bool" where
  "cached s k b \<longleftrightarrow> lookup s k = Some b \<and> b_valid (bufs s b)"

lemma cachedD: "cached s k b \<Longrightarrow> lookup s k = Some b" "cached s k b \<Longrightarrow> b_valid (bufs s b)"
  by (simp_all add: cached_def)

lemma settled_cview: "settled (cview s) \<longleftrightarrow> clean s \<and> lock_counts s"
  by (simp add: settled_def clean_def lock_counts_def)

lemma cache_wf_settled: "cache_wf s \<longleftrightarrow> cache_ok s \<and> settled (cview s)"
  by (simp add: cache_wf_def settled_cview)

text \<open>The rest of the state.\<close>

lemma upd_buf_more: "bio.more (upd_buf b f s) = bio.more s"
  by (simp add: upd_buf_def)

lemma bio_more [frame_simps]:
  "bio.more (snd (lock_buf pid b s)) = bio.more s" "bio.more (snd (bget pid k s)) = bio.more s" "bio.more (snd (bread pid k s)) = bio.more s"
  "bio.more (snd (bwrite pid b s)) = bio.more s" "bio.more (snd (brelse pid b s)) = bio.more s" "bio.more (set_data b d s) = bio.more s"
  "bio.more (bpin b s) = bio.more s" "bio.more (bunpin b s) = bio.more s"
proof -
  show l: "bio.more (snd (lock_buf pid b s)) = bio.more s" for b and s :: "'a bio_scheme"
    by (simp add: lock_buf_def upd_buf_more)
  show g: "bio.more (snd (bget pid k s)) = bio.more s"
    by (simp add: bget_def l upd_buf_more split: sum.split option.split)
  show "bio.more (snd (bread pid k s)) = bio.more s"
    unfolding bread_def by (rule bindS_inv) (simp_all add: g upd_buf_more disk_read_def)
qed (simp_all add: bwrite_def brelse_def disk_write_def set_data_def bpin_def bunpin_def upd_buf_more Let_def)

lemma bread_law:
  assumes "cache_ok s" and "settled (cview s)" and "readable (cview s) k"
  shows "\<exists>b t. bread pid k s = (Inr b, t) \<and> cache_ok t \<and> cview t = v_read pid k (cview s) \<and> bio.more t = bio.more s \<and> cached t k b \<and>
      (\<forall>j c. cached s j c \<longrightarrow> c_refs (cview s) j \<noteq> 0 \<longrightarrow> cached t j c)"
proof -
  have "clean s" "lock_counts s" "holder s k = None" "refs s k \<noteq> 0 \<or> card (used_blocks s) < NBUF" "refs s k + 1 \<noteq> 0"
    using assms(2,3) by (simp_all add: settled_cview readable_def used_blocks_def)
  from bread_spec [OF assms(1) this, of pid] obtain b t where t: "bread pid k s = (Inr b, t)" "cache_ok t" "lookup t k = Some b"
    "b_valid (bufs t b)" "view t = view s" "refs t = (refs s)(k := refs s k + 1)" "holder t = (holder s)(k := Some pid)"
    "disks t = disks s" "writes t = writes s"
    "\<forall>j c. lookup s j = Some c \<longrightarrow> refs s j \<noteq> 0 \<longrightarrow> lookup t j = Some c \<and> (b_valid (bufs s c) \<longrightarrow> b_valid (bufs t c))"
    by blast
  have "bio.more t = bio.more s" using bio_more(3) [of pid k s] t(1) by simp
  moreover have "cview t = v_read pid k (cview s)" by (simp add: cview_eq_iff t v_read_def)
  ultimately show ?thesis using t by (auto simp: cached_def)
qed

lemma set_data_law:
  assumes "cache_ok s" and b: "cached s k b"
  shows "cache_ok (set_data b d s) \<and> cview (set_data b d s) = v_put k d (cview s) \<and>
      bio.more (set_data b d s) = bio.more s \<and> (\<forall>j c. cached s j c \<longrightarrow> cached (set_data b d s) j c)"
  using set_data_spec [OF assms(1) cachedD(1,2) [OF b], of d] bio_more(6) [of b d s]
  by (auto simp: cview_eq_iff v_put_def cached_def)

lemma bwrite_law:
  assumes "cache_ok s" and b: "cached s k b" "c_owner (cview s) k = Some pid"
  shows "\<exists>t. bwrite pid b s = (Inr (), t) \<and> cache_ok t \<and> cview t = v_write k (cview s) \<and> bio.more t = bio.more s \<and>
      (\<forall>j c. cached s j c \<longrightarrow> cached t j c)"
  using bwrite_spec [OF assms(1) cachedD(1,2) [OF b(1)], of pid] b(2) bio_more(4) [of pid b s]
  by (auto simp: cview_eq_iff v_write_def cached_def)

lemma brelse_law:
  assumes "cache_ok s" and b: "cached s k b" "c_owner (cview s) k = Some pid"
  shows "\<exists>t. brelse pid b s = (Inr (), t) \<and> cache_ok t \<and> cview t = v_release k (cview s) \<and> bio.more t = bio.more s \<and>
      (\<forall>j c. cached s j c \<longrightarrow> cached t j c)"
  using brelse_spec [OF assms(1) cachedD(1) [OF b(1)], of pid] b(2) bio_more(5) [of pid b s]
  by (auto simp: cview_eq_iff v_release_def cached_def)

interpretation bcache: block_cache cache_ok cview cached "\<lambda>s b. b_data (bufs s b)" bio.more bread set_data bwrite brelse
proof unfold_locales
  fix s :: "'a bio_scheme" and k b
  show "cached s k b \<Longrightarrow> b_data (bufs s b) = c_data (cview s) k" by (simp add: cached_def view_def)
qed (rule bread_law set_data_law bwrite_law brelse_law; assumption)+

section \<open>Properties\<close>

definition boot_cache :: bio where
  "boot_cache = \<lparr>bufs = \<lambda>_. bss_buf, bc_links = \<lparr>lnext = \<lambda>_. 0, lprev = \<lambda>_. 0\<rparr>, disks = \<lambda>k i. ucast (snd k), writes = []\<rparr>"

lemma boot_cache: "bufs boot_cache = (\<lambda>_. bss_buf)"
  by (simp add: boot_cache_def)

lemma readable_boot: "readable (cview (binit boot_cache)) k"
  by (simp add: readable_def binit_wf [OF boot_cache] NBUF_def)

text \<open>The cache set up by \<open>binit\<close> over zeroed memory is well formed, holds no reference and
  no lock, and shows every block with the contents it has on its disk.
\<close>

lemma binit_starts_clean:
  assumes "bufs s = (\<lambda>_. bss_buf)"
  shows "cache_wf (binit s) \<and> view (binit s) = disks s \<and> refs (binit s) = (\<lambda>_. 0) \<and> holder (binit s) = (\<lambda>_. None)"
  using binit_wf [OF assms] by simp

text \<open>C15: \<open>bread\<close> of a block that no process holds returns, when the cache has the block in use
  or a buffer to spare, a locked buffer labelled with that block and holding its current
  contents; it takes one reference, changes no block, keeps the cache well formed, and
  every referenced block stays in its buffer.
\<close>

theorem bread_returns_block:
  assumes "cache_wf s" and "holder s k = None" and "refs s k + 1 \<noteq> 0"
    and "refs s k \<noteq> 0 \<or> card (used_blocks s) < NBUF"
  shows "\<exists>b t. bread pid k s = (Inr b, t) \<and> cache_wf t \<and> lookup t k = Some b \<and> b_data (bufs t b) = view s k \<and>
    view t = view s \<and> refs t = (refs s)(k := refs s k + 1) \<and> holder t = (holder s)(k := Some pid) \<and>
    disks t = disks s \<and> writes t = writes s \<and>
    (\<forall>j c. cached s j c \<longrightarrow> refs s j \<noteq> 0 \<longrightarrow> cached t j c)"
proof -
  have "settled (cview s)" "readable (cview s) k" using assms by (simp_all add: cache_wf_settled readable_def used_blocks_def)
  from bread_law [OF _ this, of pid] assms(1) obtain b t where t: "bread pid k s = (Inr b, t)" "cache_ok t"
    "cview t = v_read pid k (cview s)" "cached t k b" "\<forall>j c. cached s j c \<longrightarrow> refs s j \<noteq> 0 \<longrightarrow> cached t j c"
    by (auto simp: cache_wf_def)
  have "settled (cview t)"
    using assms(1,3) by (auto simp: t(3) settled_def v_read_def cache_wf_settled)
  then have "cache_wf t" using t(2) by (simp add: cache_wf_settled)
  then show ?thesis using t bcache.data_has [OF t(4)] by (auto simp: cview_eq_iff v_read_def cached_def)
qed

theorem bread_returns_block_witness:
  "\<exists>b t. bread 3 (1, 7) (binit boot_cache) = (Inr b, t) \<and> b_data (bufs t b) = (\<lambda>_. 7)"
proof -
  note w = binit_wf [OF boot_cache]
  have "card (used_blocks (binit boot_cache)) < NBUF" by (simp add: used_blocks_def w NBUF_def)
  then have "\<exists>b t. bread 3 (1, 7) (binit boot_cache) = (Inr b, t) \<and> b_data (bufs t b) = view (binit boot_cache) (1, 7)"
    using bread_returns_block [of "binit boot_cache" "(1, 7)" 3] w by auto
  moreover have "view (binit boot_cache) (1, 7) = (\<lambda>_. 7)" unfolding w(2) by (simp add: boot_cache_def)
  ultimately show ?thesis by simp
qed

text \<open>A read-modify-write sequence on one block (\<open>bread\<close>, store into the data, \<open>bwrite\<close>,
  \<open>brelse\<close>) ends with the new contents in the cache's view and on the disk, exactly one
  disk write, no other block touched, and the reference counts and locks as before.
\<close>

lemma block_update_written:
  assumes "cache_wf s" and "readable (cview s) k"
  shows "\<exists>b t u v. bread pid k s = (Inr b, t) \<and> bwrite pid b (set_data b d t) = (Inr (), u) \<and>
    brelse pid b u = (Inr (), v) \<and> cache_wf v \<and> view v = (view s)(k := d) \<and> disks v = (disks s)(k := d) \<and>
    writes v = writes s @ [(k, d)] \<and> refs v = refs s \<and> holder v = holder s"
  using bcache.update_through [of s k pid d] assms
  by (auto simp: cache_wf_settled cview_eq_iff v_write_def v_put_def)

text \<open>When every one of the thirty buffers is referenced and none of them carries the block
  asked for, \<open>bget\<close> panics with "bget: no buffers"; it does so in no other case of a
  well-formed cache.
\<close>

lemma bget_panics_iff_exhausted:
  assumes "cache_ok s"
  shows "fst (bget pid k s) = Inl (Panic ''bget: no buffers'') \<longleftrightarrow>
    lookup s k = None \<and> (\<forall>i < NBUF. b_refcnt (bufs s (of_nat i)) \<noteq> 0)"
proof -
  obtain xs where inv: "bio_inv s xs" using assms by (auto simp: cache_ok_def)
  have fb: "find_block k s = Inr (lookup s k)" using find_block_eq [OF inv] lookup_eq [OF inv] by simp
  have all: "(\<forall>i < NBUF. b_refcnt (bufs s (of_nat i)) \<noteq> 0) \<longleftrightarrow>
      List.find (\<lambda>b. b_refcnt (bufs s b) = 0) (rev xs) = None"
    using bio_invD(5) [OF inv] by (auto simp: find_None_iff)
  show ?thesis unfolding all bget_def fb find_unused_eq [OF inv]
    by (simp add: lock_buf_def split: option.split)
qed

definition full_cache :: bio where
  "full_cache = (binit boot_cache)\<lparr>bufs := \<lambda>b. \<lparr>b_valid = True, b_dev = 1, b_blockno = ucast b, b_pid = None,
     b_refcnt = 1, b_data = \<lambda>_. 0\<rparr>\<rparr>"

lemma full_cache_ok: "cache_ok full_cache"
proof -
  obtain xs where "bio_inv (binit boot_cache) xs"
    using binit_wf(1) [OF boot_cache] by (auto simp: cache_wf_def cache_ok_def)
  then have xs: "dlist (bc_links full_cache) bhead xs" "set xs = of_nat ` {..<NBUF}"
    by (simp_all add: bio_inv_def full_cache_def)
  have "List.find (\<lambda>c. label full_cache c = label full_cache b) xs = Some b" if b: "b \<in> set xs" for b
  proof (rule find_unique [OF b refl])
    fix c assume c: "c \<in> set xs" "label full_cache c = label full_cache b"
    have lt: "unat x < 30" if "x \<in> set xs" for x
      using that xs(2) by (auto simp: NBUF_def unat_of_nat)
    have "(ucast c :: u32) = ucast b" using c(2) by (simp add: label_def full_cache_def)
    then have "unat (ucast c :: u32) = unat (ucast b :: u32)" by simp
    then show "c = b" using lt [OF b] lt [OF c(1)] by (simp add: unsigned_ucast_eq word_unat_eq_iff take_bit_nat_eq_self)
  qed
  then have "bio_inv full_cache xs" using xs by (simp add: bio_inv_def)
  then show ?thesis by (auto simp: cache_ok_def)
qed

end
