(* ===== verification/Xv7_Log.thy ===== *)
theory Xv7_Log
  imports Xv7_Cache
begin

text \<open>
  The redo log of \<open>xv7/kernel/log.c\<close>, over the buffer cache.  The state extends the cache
  with the array \<open>log\<close>, one record per disk; the log header is the C structure
  \<open>struct logheader\<close> in the first bytes of a block.  A caller that the code puts to sleep
  gets \<open>Asleep\<close> and an unchanged log.  The theorems are in \<open>Xv7_Recovery\<close>.
\<close>

section \<open>State\<close>

record dlog =
  l_start :: u32
  l_size :: int
  l_outstanding :: int
  l_committing :: bool
  lh_n :: int
  lh_block :: "nat \<Rightarrow> u32"

record lbio = bio +
  logs :: "u32 \<Rightarrow> dlog"

definition LOGSIZE :: nat where "LOGSIZE = 30"
definition MAXOPBLOCKS :: nat where "MAXOPBLOCKS = 10"

definition upd_log :: "u32 \<Rightarrow> (dlog \<Rightarrow> dlog) \<Rightarrow> 'a lbio_scheme \<Rightarrow> 'a lbio_scheme" where
  "upd_log d f s = s\<lparr>logs := (logs s)(d := f (logs s d))\<rparr>"

text \<open>Loads and stores of a 32-bit field of a block, and counted loops.\<close>

definition get32 :: "block \<Rightarrow> nat \<Rightarrow> u32" where
  "get32 b a = ucast (b a) OR push_bit 8 (ucast (b (a + 1))) OR push_bit 16 (ucast (b (a + 2))) OR
     push_bit 24 (ucast (b (a + 3)))"

definition put32 :: "nat \<Rightarrow> u32 \<Rightarrow> block \<Rightarrow> block" where
  "put32 a v b = b(a := ucast v, a + 1 := ucast (drop_bit 8 v), a + 2 := ucast (drop_bit 16 v),
     a + 3 := ucast (drop_bit 24 v))"

fun forS :: "(nat \<Rightarrow> 's \<Rightarrow> ('e, unit, 's) outcome) \<Rightarrow> nat list \<Rightarrow> 's \<Rightarrow> ('e, unit, 's) outcome" where
  "forS f [] s = (Inr (), s)"
| "forS f (i # is) s = bindS (f i s) (\<lambda>_ s. forS f is s)"

section \<open>log.c\<close>

text \<open>The disk blocks of the log: its header, and the slot of the \<open>i\<close>-th logged block.\<close>

definition head_key :: "u32 \<Rightarrow> 'a lbio_scheme \<Rightarrow> bkey" where
  "head_key d s = (d, l_start (logs s d))"

definition slot_key :: "u32 \<Rightarrow> nat \<Rightarrow> 'a lbio_scheme \<Rightarrow> bkey" where
  "slot_key d i s = (d, l_start (logs s d) + of_nat i + 1)"

definition home_key :: "u32 \<Rightarrow> nat \<Rightarrow> 'a lbio_scheme \<Rightarrow> bkey" where
  "home_key d i s = (d, lh_block (logs s d) i)"

definition install_one :: "int \<Rightarrow> u32 \<Rightarrow> nat \<Rightarrow> 'a lbio_scheme \<Rightarrow> (kfault, unit, 'a lbio_scheme) outcome" where
  "install_one pid d i s =
     bindS (bread pid (slot_key d i s) s) (\<lambda>lbuf s.
     bindS (bread pid (home_key d i s) s) (\<lambda>dbuf s.
     bindS (bwrite pid dbuf (set_data dbuf (b_data (bufs s lbuf)) s)) (\<lambda>_ s.
     bindS (brelse pid lbuf (bunpin dbuf s)) (\<lambda>_ s. brelse pid dbuf s))))"

definition install_trans :: "int \<Rightarrow> u32 \<Rightarrow> 'a lbio_scheme \<Rightarrow> (kfault, unit, 'a lbio_scheme) outcome" where
  "install_trans pid d s = forS (install_one pid d) [0..<nat (lh_n (logs s d))] s"

text \<open>
  The header read from the disk is not checked: a count above \<open>LOGSIZE\<close> makes the copy run
  past the array.
\<close>

definition read_head :: "int \<Rightarrow> u32 \<Rightarrow> 'a lbio_scheme \<Rightarrow> (kfault, unit, 'a lbio_scheme) outcome" where
  "read_head pid d s =
     bindS (bread pid (head_key d s) s) (\<lambda>b s.
       let lh = b_data (bufs s b); n = sint (get32 lh 0)
       in if n > int LOGSIZE then (Inl (Wild ''lh.block''), s)
          else brelse pid b (upd_log d (\<lambda>l. l\<lparr>lh_n := n,
            lh_block := fold (\<lambda>i f. f(i := get32 lh (4 + 4 * i))) [0..<nat n] (lh_block l)\<rparr>) s))"

definition encode_head :: "dlog \<Rightarrow> block \<Rightarrow> block" where
  "encode_head l hb =
     fold (\<lambda>i hb. put32 (4 + 4 * i) (lh_block l i) hb) [0..<nat (lh_n l)] (put32 0 (word_of_int (lh_n l)) hb)"

definition write_head :: "int \<Rightarrow> u32 \<Rightarrow> 'a lbio_scheme \<Rightarrow> (kfault, unit, 'a lbio_scheme) outcome" where
  "write_head pid d s =
     bindS (bread pid (head_key d s) s) (\<lambda>b s.
     bindS (bwrite pid b (set_data b (encode_head (logs s d) (b_data (bufs s b))) s)) (\<lambda>_ s. brelse pid b s))"

definition clear_log :: "int \<Rightarrow> u32 \<Rightarrow> 'a lbio_scheme \<Rightarrow> (kfault, unit, 'a lbio_scheme) outcome" where
  "clear_log pid d s = write_head pid d (upd_log d (\<lambda>l. l\<lparr>lh_n := 0\<rparr>) s)"

definition recover_from_log :: "int \<Rightarrow> u32 \<Rightarrow> 'a lbio_scheme \<Rightarrow> (kfault, unit, 'a lbio_scheme) outcome" where
  "recover_from_log pid d s =
     bindS (read_head pid d s) (\<lambda>_ s. bindS (install_trans pid d s) (\<lambda>_ s. clear_log pid d s))"

definition initlog :: "int \<Rightarrow> u32 \<Rightarrow> u32 \<Rightarrow> u32 \<Rightarrow> 'a lbio_scheme \<Rightarrow> (kfault, unit, 'a lbio_scheme) outcome" where
  "initlog pid d logstart nlog s =
     recover_from_log pid d (upd_log d (\<lambda>l. l\<lparr>l_start := logstart, l_size := sint nlog\<rparr>) s)"

definition begin_op :: "u32 \<Rightarrow> 'a lbio_scheme \<Rightarrow> (kfault, unit, 'a lbio_scheme) outcome" where
  "begin_op d s =
     (if l_committing (logs s d) then (Inl (Asleep ''log''), s)
      else if lh_n (logs s d) + (l_outstanding (logs s d) + 1) * int MAXOPBLOCKS > int LOGSIZE
      then (Inl (Asleep ''log''), s)
      else (Inr (), upd_log d (\<lambda>l. l\<lparr>l_outstanding := l_outstanding l + 1\<rparr>) s))"

definition write_log_one :: "int \<Rightarrow> u32 \<Rightarrow> nat \<Rightarrow> 'a lbio_scheme \<Rightarrow> (kfault, unit, 'a lbio_scheme) outcome" where
  "write_log_one pid d i s =
     bindS (bread pid (slot_key d i s) s) (\<lambda>to s.
     bindS (bread pid (home_key d i s) s) (\<lambda>from s.
     bindS (bwrite pid to (set_data to (b_data (bufs s from)) s)) (\<lambda>_ s.
     bindS (brelse pid from s) (\<lambda>_ s. brelse pid to s))))"

definition write_log :: "int \<Rightarrow> u32 \<Rightarrow> 'a lbio_scheme \<Rightarrow> (kfault, unit, 'a lbio_scheme) outcome" where
  "write_log pid d s = forS (write_log_one pid d) [0..<nat (lh_n (logs s d))] s"

definition commit :: "int \<Rightarrow> u32 \<Rightarrow> 'a lbio_scheme \<Rightarrow> (kfault, unit, 'a lbio_scheme) outcome" where
  "commit pid d s =
     (if lh_n (logs s d) > 0 then
        bindS (write_log pid d s) (\<lambda>_ s.
        bindS (write_head pid d s) (\<lambda>_ s.
        bindS (install_trans pid d s) (\<lambda>_ s. clear_log pid d s)))
      else (Inr (), s))"

text \<open>The first critical section of \<open>end_op\<close>, and the whole of it.\<close>

definition end_op_enter :: "u32 \<Rightarrow> 'a lbio_scheme \<Rightarrow> (kfault, bool, 'a lbio_scheme) outcome" where
  "end_op_enter d s =
     (let s = upd_log d (\<lambda>l. l\<lparr>l_outstanding := l_outstanding l - 1\<rparr>) s
      in if l_committing (logs s d) then (Inl (Panic ''log[dev].committing''), s)
         else if l_outstanding (logs s d) = 0
         then (Inr True, upd_log d (\<lambda>l. l\<lparr>l_committing := True\<rparr>) s)
         else (Inr False, s))"

definition end_op :: "int \<Rightarrow> u32 \<Rightarrow> 'a lbio_scheme \<Rightarrow> (kfault, unit, 'a lbio_scheme) outcome" where
  "end_op pid d s =
     bindS (end_op_enter d s) (\<lambda>do_commit s.
       if do_commit
       then bindS (commit pid d s) (\<lambda>_ s. (Inr (), upd_log d (\<lambda>l. l\<lparr>l_committing := False\<rparr>) s))
       else (Inr (), s))"

text \<open>The index of a block in the header, or its length: the search loop of \<open>log_write\<close>.\<close>

definition log_index :: "dlog \<Rightarrow> u32 \<Rightarrow> nat" where
  "log_index l bn =
     (case List.find (\<lambda>i. lh_block l i = bn) [0..<nat (lh_n l)] of Some i \<Rightarrow> i | None \<Rightarrow> nat (lh_n l))"

definition log_write :: "u64 \<Rightarrow> 'a lbio_scheme \<Rightarrow> (kfault, unit, 'a lbio_scheme) outcome" where
  "log_write b s =
     (let d = b_dev (bufs s b); l = logs s d
      in if lh_n l \<ge> int LOGSIZE \<or> lh_n l \<ge> l_size l - 1 then (Inl (Panic ''too big a transaction''), s)
         else if l_outstanding l < 1 then (Inl (Panic ''log_write outside of trans''), s)
         else
           let i = log_index l (b_blockno (bufs s b));
               s' = upd_log d (\<lambda>l. l\<lparr>lh_block := (lh_block l)(i := b_blockno (bufs s b))\<rparr>) s
           in (Inr (), if int i = lh_n l then upd_log d (\<lambda>l. l\<lparr>lh_n := lh_n l + 1\<rparr>) (bpin b s') else s'))"


section \<open>The header block\<close>

lemma get_put32 [simp]: "get32 (put32 a v b) a = v"
proof (rule bit_word_eqI)
  fix n assume "n < LENGTH(32)"
  then show "bit (get32 (put32 a v b) a) n = bit v n"
    by (cases "n < 8"; cases "n < 16"; cases "n < 24") (auto simp: get32_def put32_def bit_simps)
qed

lemma get_put32_other [simp]:
  assumes "a + 4 \<le> a' \<or> a' + 4 \<le> a"
  shows "get32 (put32 a v b) a' = get32 b a'"
  using assms by (auto simp: get32_def put32_def)

lemma put_fields:
  "get32 (fold (\<lambda>i hb. put32 (4 + 4 * i) (f i) hb) [0..<n] hb) 0 = get32 hb 0"
  "i < n \<Longrightarrow> get32 (fold (\<lambda>i hb. put32 (4 + 4 * i) (f i) hb) [0..<n] hb) (4 + 4 * i) = f i"
proof (induction n)
  case (Suc n)
  { case 1 then show ?case using Suc by simp
  next
    case 2 then show ?case using Suc by (cases "i = n") simp_all }
qed simp_all

lemma encode_head_fields:
  assumes "0 \<le> lh_n l" and "lh_n l \<le> int LOGSIZE"
  shows "sint (get32 (encode_head l hb) 0) = lh_n l"
    "i < nat (lh_n l) \<Longrightarrow> get32 (encode_head l hb) (4 + 4 * i) = lh_block l i"
proof -
  have "signed_take_bit 31 (lh_n l) = lh_n l"
    using assms by (intro signed_take_bit_int_eq_self) (simp_all add: LOGSIZE_def)
  then have "sint (word_of_int (lh_n l) :: u32) = lh_n l" by (simp add: sint_sbintrunc')
  then show "sint (get32 (encode_head l hb) 0) = lh_n l" by (simp add: encode_head_def put_fields)
qed (simp add: encode_head_def put_fields)

end
