(* ===== verification/Xv7_Recovery.thy ===== *)
theory Xv7_Recovery
  imports Xv7_Log
begin

text \<open>
  Correctness of the log: what a commit does to the cache and to the disk, that a crash
  after any of its disk writes followed by the recovery of the next boot leaves the old or
  the new contents of every block, and the reservation of log space.
\<close>


section \<open>Copying a block through the cache\<close>

definition v_copy :: "'k \<Rightarrow> 'k \<Rightarrow> ('k, 'd) cview \<Rightarrow> ('k, 'd) cview" where
  "v_copy dst src v = v_write dst (v_put dst (c_data v src) v)"

text \<open>
  Room for reading two blocks at once: the blocks in use lie in a set \<open>U\<close> with fewer members
  than there are buffers, and the second one belongs to it.
\<close>

definition used :: "('k, 'd) cview \<Rightarrow> 'k set" where
  "used v = {k. c_refs v k \<noteq> 0}"

lemma room_for_two:
  assumes "used v \<subseteq> U" and "finite U" and "card U < NBUF" and "k2 \<in> U" and "k1 \<noteq> k2"
    and "c_owner v k1 = None" "c_owner v k2 = None" and "c_refs v k1 + 1 \<noteq> 0" "c_refs v k2 + 1 \<noteq> 0"
  shows "readable v k1" "readable (v_read pid k1 v) k2"
proof -
  have "card (used v) \<le> card U" by (rule card_mono [OF assms(2,1)])
  then have "card (used v) < NBUF" using assms(3) by simp
  then show "readable v k1" using assms by (simp add: readable_def used_def)
  show "readable (v_read pid k1 v) k2"
  proof (cases "c_refs v k2 = 0")
    case False
    then show ?thesis using assms by (simp add: readable_def v_read_def)
  next
    case True
    have "{j. c_refs (v_read pid k1 v) j \<noteq> 0} \<subseteq> insert k1 (U - {k2})"
      using assms(1) True by (auto simp: used_def v_read_def split: if_splits)
    then have "card {j. c_refs (v_read pid k1 v) j \<noteq> 0} \<le> card (insert k1 (U - {k2}))"
      by (rule card_mono [rotated]) (simp add: assms(2))
    also have "\<dots> \<le> Suc (card (U - {k2}))" by (simp add: card_insert_le_m1 assms(2) card_insert_if)
    also have "\<dots> = card U" using assms(2,4) by (metis card_Suc_Diff1)
    finally show ?thesis using assms by (simp add: readable_def v_read_def)
  qed
qed

locale pinning_cache = block_cache +
  fixes pin unpin
  assumes pin_law: "ok s \<Longrightarrow> has s k b \<Longrightarrow> ok (pin b s) \<and> vw (pin b s) = v_pin k 1 (vw s) \<and>
      rest (pin b s) = rest s \<and> (\<forall>j c. has s j c \<longrightarrow> has (pin b s) j c)"
    and unpin_law: "ok s \<Longrightarrow> has s k b \<Longrightarrow> ok (unpin b s) \<and> vw (unpin b s) = v_pin k (- 1) (vw s) \<and>
      rest (unpin b s) = rest s \<and> (\<forall>j c. has s j c \<longrightarrow> has (unpin b s) j c)"
begin

lemma read_two:
  assumes "ok s" and "settled (vw s)" and "readable (vw s) k1" and "readable (v_read pid k1 (vw s)) k2"
    and "\<forall>t. rest t = rest s \<longrightarrow> kf t = k2"
  shows "\<exists>a b t u. rd pid k1 s = (Inr a, t) \<and> rd pid (kf t) t = (Inr b, u) \<and> ok u \<and> rest u = rest s \<and>
    vw u = v_read pid k2 (v_read pid k1 (vw s)) \<and> has u k1 a \<and> has u k2 b"
proof -
  obtain a t where t: "rd pid k1 s = (Inr a, t)" "ok t" "vw t = v_read pid k1 (vw s)" "rest t = rest s" "has t k1 a"
    using rd_law [OF assms(1-3), of pid] by blast
  have "settled (vw t)" using assms(2,3) by (auto simp: t(3) settled_def v_read_def readable_def)
  from rd_law [OF t(2) this, of k2 pid] assms(4) t(3) obtain b u where
    u: "rd pid k2 t = (Inr b, u)" "ok u" "vw u = v_read pid k2 (vw t)" "rest u = rest t" "has u k2 b"
      "\<forall>j c. has t j c \<longrightarrow> c_refs (vw t) j \<noteq> 0 \<longrightarrow> has u j c" by auto
  have "c_refs (vw t) k1 \<noteq> 0" using assms(3) by (simp add: t(3) v_read_def readable_def)
  then have "has u k1 a" using u(6) t(5) by blast
  moreover have "kf t = k2" using assms(5) t(4) by blast
  ultimately show ?thesis using t u by auto
qed

text \<open>Copy block \<open>k2\<close> to block \<open>k1\<close> and write it, as \<open>write_log\<close> does.\<close>

lemma copy_to_first:
  assumes "ok s" and "settled (vw s)" and "readable (vw s) k1" and "readable (v_read pid k1 (vw s)) k2"
    and "\<forall>t. rest t = rest s \<longrightarrow> kf t = k2" and "k1 \<noteq> k2"
  shows "\<exists>t. bindS (rd pid k1 s) (\<lambda>to s. bindS (rd pid (kf s) s) (\<lambda>from s.
      bindS (wr pid to (put to (data s from) s)) (\<lambda>_ s. bindS (rel pid from s) (\<lambda>_ s. rel pid to s)))) = (Inr (), t) \<and>
    ok t \<and> rest t = rest s \<and> vw t = v_copy k1 k2 (vw s) \<and> settled (vw t)"
proof -
  from read_two [OF assms(1-5)] obtain a b t u where u: "rd pid k1 s = (Inr a, t)" "rd pid (kf t) t = (Inr b, u)" "ok u"
    "rest u = rest s" "vw u = v_read pid k2 (v_read pid k1 (vw s))" "has u k1 a" "has u k2 b" by blast
  have db: "data u b = c_data (vw s) k2" using data_has [OF u(7)] by (simp add: u(5) v_read_def)
  note p = put_law [OF u(3,6), of "data u b"]
  have "c_owner (vw (put a (data u b) u)) k1 = Some pid" using p assms(6) by (simp add: u(5) v_defs)
  with wr_law [of "put a (data u b) u" k1 a pid] p u(6) obtain v where v: "wr pid a (put a (data u b) u) = (Inr (), v)" "ok v"
    "vw v = v_write k1 (vw (put a (data u b) u))" "rest v = rest u" "has v k1 a" "has v k2 b" using u(7) by auto
  have "c_owner (vw v) k2 = Some pid" using p assms(6) by (simp add: v(3) u(5) v_defs)
  from rel_law [OF v(2,6) this] v(5) obtain w where w: "rel pid b v = (Inr (), w)" "ok w" "vw w = v_release k2 (vw v)"
    "rest w = rest v" "has w k1 a" by blast
  have "c_owner (vw w) k1 = Some pid" using p assms(6) by (simp add: w(3) v(3) u(5) v_defs)
  from rel_law [OF w(2,5) this] obtain x where x: "rel pid a w = (Inr (), x)" "ok x" "vw x = v_release k1 (vw w)" "rest x = rest w"
    by blast
  have e: "vw x = v_copy k1 k2 (vw s)"
    using p assms(3,4,6) unfolding x(3) w(3) v(3) u(5) db
    by (auto simp: u(5) db v_copy_def v_defs readable_def fun_upd_idem fun_upd_twist)
  moreover have "settled (vw x)" using assms(2) unfolding e by (auto simp: settled_def v_copy_def v_defs)
  ultimately show ?thesis using u v w x by auto
qed

text \<open>Copy block \<open>k1\<close> to block \<open>k2\<close>, write and unpin it, as \<open>install_trans\<close> does.\<close>

lemma copy_to_second:
  assumes "ok s" and "settled (vw s)" and "readable (vw s) k1" and "readable (v_read pid k1 (vw s)) k2"
    and "\<forall>t. rest t = rest s \<longrightarrow> kf t = k2" and "k1 \<noteq> k2"
  shows "\<exists>t. bindS (rd pid k1 s) (\<lambda>l s. bindS (rd pid (kf s) s) (\<lambda>d s.
      bindS (wr pid d (put d (data s l) s)) (\<lambda>_ s. bindS (rel pid l (unpin d s)) (\<lambda>_ s. rel pid d s)))) = (Inr (), t) \<and>
    ok t \<and> rest t = rest s \<and> vw t = v_pin k2 (- 1) (v_copy k2 k1 (vw s)) \<and> settled (vw t)"
proof -
  from read_two [OF assms(1-5)] obtain a b t u where u: "rd pid k1 s = (Inr a, t)" "rd pid (kf t) t = (Inr b, u)" "ok u"
    "rest u = rest s" "vw u = v_read pid k2 (v_read pid k1 (vw s))" "has u k1 a" "has u k2 b" by blast
  have da: "data u a = c_data (vw s) k1" using data_has [OF u(6)] by (simp add: u(5) v_read_def)
  note p = put_law [OF u(3,7), of "data u a"]
  have "c_owner (vw (put b (data u a) u)) k2 = Some pid" using p assms(6) by (simp add: u(5) v_defs)
  with wr_law [of "put b (data u a) u" k2 b pid] p u(7) obtain v where v: "wr pid b (put b (data u a) u) = (Inr (), v)" "ok v"
    "vw v = v_write k2 (vw (put b (data u a) u))" "rest v = rest u" "has v k1 a" "has v k2 b" using u(6) by auto
  note q = unpin_law [OF v(2,6)]
  have "c_owner (vw (unpin b v)) k1 = Some pid" using p q assms(6) by (simp add: v(3) u(5) v_defs)
  with rel_law [of "unpin b v" k1 a pid] q v(5,6) obtain w where w: "rel pid a (unpin b v) = (Inr (), w)" "ok w"
    "vw w = v_release k1 (vw (unpin b v))" "rest w = rest v" "has w k2 b" by auto
  have "c_owner (vw w) k2 = Some pid" using p q assms(6) by (simp add: w(3) v(3) u(5) v_defs)
  from rel_law [OF w(2,5) this] obtain x where x: "rel pid b w = (Inr (), x)" "ok x" "vw x = v_release k2 (vw w)" "rest x = rest w"
    by blast
  have e: "vw x = v_pin k2 (- 1) (v_copy k2 k1 (vw s))"
    using p q assms(3,4,6) unfolding x(3) w(3) 
    by (auto simp: v(3) u(5) da v_copy_def v_defs readable_def fun_upd_idem fun_upd_twist)
  moreover have "settled (vw x)"
    using assms(2,3,4,6) unfolding e by (auto simp: settled_def v_copy_def v_defs readable_def)
  ultimately show ?thesis using u v w x by auto
qed

end

lemma pin_laws:
  assumes "cache_ok s" and "cached s k b"
  shows "cache_ok (bpin b s) \<and> cview (bpin b s) = v_pin k 1 (cview s) \<and> bio.more (bpin b s) = bio.more s \<and>
      (\<forall>j c. cached s j c \<longrightarrow> cached (bpin b s) j c)"
    "cache_ok (bunpin b s) \<and> cview (bunpin b s) = v_pin k (- 1) (cview s) \<and> bio.more (bunpin b s) = bio.more s \<and>
      (\<forall>j c. cached s j c \<longrightarrow> cached (bunpin b s) j c)"
proof -
  have f: "bufs (bpin b s) c = (if c = b then (bufs s b)\<lparr>b_refcnt := b_refcnt (bufs s b) + 1\<rparr> else bufs s c)"
    "bufs (bunpin b s) c = (if c = b then (bufs s b)\<lparr>b_refcnt := b_refcnt (bufs s b) - 1\<rparr> else bufs s c)"
    "disks (bpin b s) = disks s" "disks (bunpin b s) = disks s" "writes (bpin b s) = writes s" "writes (bunpin b s) = writes s"
    for c by (simp_all add: bpin_def bunpin_def)
  note p = pin_spec [OF assms(1) cachedD(1) [OF assms(2)]]
  show "cache_ok (bpin b s) \<and> cview (bpin b s) = v_pin k 1 (cview s) \<and> bio.more (bpin b s) = bio.more s \<and>
      (\<forall>j c. cached s j c \<longrightarrow> cached (bpin b s) j c)"
    using p(1-5) bio_more(7) [of b s] by (auto simp: cview_eq_iff v_pin_def cached_def f)
  show "cache_ok (bunpin b s) \<and> cview (bunpin b s) = v_pin k (- 1) (cview s) \<and> bio.more (bunpin b s) = bio.more s \<and>
      (\<forall>j c. cached s j c \<longrightarrow> cached (bunpin b s) j c)"
    using p(6-10) bio_more(8) [of b s] by (auto simp: cview_eq_iff v_pin_def cached_def f)
qed

interpretation bpins: pinning_cache cache_ok cview cached "\<lambda>s b. b_data (bufs s b)" bio.more bread set_data bwrite brelse
    bpin bunpin
  by unfold_locales (rule pin_laws; assumption)+

section \<open>Copying many blocks\<close>

text \<open>The same on plain maps: copy \<open>src i\<close> to \<open>dst i\<close>, one after the other.\<close>

definition copy_map :: "(nat \<Rightarrow> 'k) \<Rightarrow> (nat \<Rightarrow> 'k) \<Rightarrow> nat \<Rightarrow> ('k \<Rightarrow> 'd) \<Rightarrow> 'k \<Rightarrow> 'd" where
  "copy_map dst src n m = fold (\<lambda>i m. m(dst i := m (src i))) [0..<n] m"

lemma copy_map_apply:
  assumes "inj_on dst {..<n}" and "\<forall>i < n. \<forall>j < n. src i \<noteq> dst j"
  shows "(\<forall>i < n. copy_map dst src n m (dst i) = m (src i)) \<and>
    (\<forall>k. k \<notin> dst ` {..<n} \<longrightarrow> copy_map dst src n m k = m k)"
  using assms
proof (induction n)
  case (Suc n)
  have ih: "(\<forall>i < n. copy_map dst src n m (dst i) = m (src i)) \<and>
      (\<forall>k. k \<notin> dst ` {..<n} \<longrightarrow> copy_map dst src n m k = m k)"
    by (rule Suc.IH) (use Suc.prems in \<open>auto simp: inj_on_def\<close>)
  have step: "copy_map dst src (Suc n) m = (copy_map dst src n m)(dst n := copy_map dst src n m (src n))"
    by (simp add: copy_map_def)
  have "src n \<notin> dst ` {..<n}" using Suc.prems(2) by auto
  then have "copy_map dst src n m (src n) = m (src n)" using ih by blast
  moreover have "dst i \<noteq> dst n" if "i < n" for i using inj_onD [OF Suc.prems(1), of n i] that by auto
  ultimately show ?case using ih by (auto simp: step lessThan_Suc less_Suc_eq)
qed (simp add: copy_map_def)

definition play :: "('k \<times> 'd) list \<Rightarrow> ('k \<Rightarrow> 'd) \<Rightarrow> 'k \<Rightarrow> 'd" where
  "play ws m = fold (\<lambda>(k, d) m. m(k := d)) ws m"

lemma play_append [simp]: "play (xs @ ys) m = play ys (play xs m)" "play [] m = m"
    "play ((k, d) # ys) m = play ys (m(k := d))"
  by (simp_all add: play_def)

lemma play_map_apply:
  assumes "inj_on dst {..<n}"
  shows "(\<forall>i < n. play (map (\<lambda>i. (dst i, f i)) [0..<n]) m (dst i) = f i) \<and>
    (\<forall>k. k \<notin> dst ` {..<n} \<longrightarrow> play (map (\<lambda>i. (dst i, f i)) [0..<n]) m k = m k)"
  using assms
proof (induction n)
  case (Suc n)
  have "(\<forall>i < n. play (map (\<lambda>i. (dst i, f i)) [0..<n]) m (dst i) = f i) \<and>
    (\<forall>k. k \<notin> dst ` {..<n} \<longrightarrow> play (map (\<lambda>i. (dst i, f i)) [0..<n]) m k = m k)"
    by (rule Suc.IH) (use Suc.prems in \<open>auto simp: inj_on_def\<close>)
  moreover have "dst i \<noteq> dst n" if "i < n" for i using inj_onD [OF Suc.prems, of n i] that by auto
  ultimately show ?case by (auto simp: lessThan_Suc less_Suc_eq)
qed simp

text \<open>On views, with a change of the reference count of each target.\<close>

lemma fold_v_copy:
  fixes v :: "('k, 'd) cview" and p :: u32
  assumes "inj_on dst {..<n}" and "\<forall>i < n. \<forall>j < n. src i \<noteq> dst j"
  defines "w \<equiv> fold (\<lambda>i v. v_pin (dst i) p (v_copy (dst i) (src i) v)) [0..<n] v"
  defines "ws \<equiv> map (\<lambda>i. (dst i, c_data v (src i))) [0..<n]"
  shows "c_data w = copy_map dst src n (c_data v)" "c_owner w = c_owner v" "c_hist w = c_hist v @ ws"
    "c_disk w = play ws (c_disk v)"
    "c_refs w k = (if k \<in> dst ` {..<n} then c_refs v k + p else c_refs v k)"
proof -
  have "c_data w = copy_map dst src n (c_data v) \<and> c_owner w = c_owner v \<and> c_hist w = c_hist v @ ws \<and>
    c_disk w = play ws (c_disk v) \<and> (\<forall>k. c_refs w k = (if k \<in> dst ` {..<n} then c_refs v k + p else c_refs v k))"
    unfolding w_def ws_def using assms(1,2)
  proof (induction n)
    case (Suc n)
    let ?w = "fold (\<lambda>i v. v_pin (dst i) p (v_copy (dst i) (src i) v)) [0..<n] v"
    have inj: "inj_on dst {..<n}" and ne: "\<forall>i < n. \<forall>j < n. src i \<noteq> dst j" using Suc.prems by (auto simp: inj_on_def)
    note ih = Suc.IH [OF inj ne]
    have "src n \<notin> dst ` {..<n}" using Suc.prems(2) by auto
    then have "copy_map dst src n (c_data v) (src n) = c_data v (src n)"
      using copy_map_apply [OF inj ne] by blast
    moreover have "dst n \<notin> dst ` {..<n}" using inj_onD [OF Suc.prems(1), of n] by fastforce
    ultimately show ?case
      using ih by (auto simp: v_copy_def v_defs copy_map_def lessThan_Suc)
  qed (simp add: copy_map_def)
  then show "c_data w = copy_map dst src n (c_data v)" "c_owner w = c_owner v" "c_hist w = c_hist v @ ws"
    "c_disk w = play ws (c_disk v)"
    "c_refs w k = (if k \<in> dst ` {..<n} then c_refs v k + p else c_refs v k)" by auto
qed

section \<open>The loops of the log\<close>

lemma forS_fold:
  assumes "I is s"
    and "\<And>i is s. I (i # is) s \<Longrightarrow> \<exists>t. f i s = (Inr (), t) \<and> I is t \<and> obs t = g i (obs s)"
  shows "\<exists>t. forS f is s = (Inr (), t) \<and> I [] t \<and> obs t = fold g is (obs s)"
  using assms(1)
proof (induction "is" arbitrary: s)
  case (Cons i "is")
  from assms(2) [OF Cons.prems] obtain t where "f i s = (Inr (), t)" "I is t" "obs t = g i (obs s)" by blast
  then show ?case using Cons.IH [of t] by auto
qed simp

lemma logs_more:
  assumes "bio.more t = bio.more s"
  shows "logs t = logs s" "lbio.more t = lbio.more s"
  using assms by (cases t; cases s; simp)+

lemma keys_more:
  assumes "bio.more t = bio.more s"
  shows "head_key d t = head_key d s" "slot_key d i t = slot_key d i s" "home_key d i t = home_key d i s"
  by (simp_all add: head_key_def slot_key_def home_key_def logs_more [OF assms])

text \<open>The blocks of the log and the ones it has logged.\<close>

definition log_keys :: "u32 \<Rightarrow> 'a lbio_scheme \<Rightarrow> bkey list" where
  "log_keys d s = head_key d s # map (\<lambda>i. slot_key d i s) [0..<nat (lh_n (logs s d))]"

definition home_keys :: "u32 \<Rightarrow> 'a lbio_scheme \<Rightarrow> bkey list" where
  "home_keys d s = map (\<lambda>i. home_key d i s) [0..<nat (lh_n (logs s d))]"

text \<open>
  Room for the transfers of the log: no process holds its blocks, their counts do not
  overflow, and all blocks in use together with the logged ones leave a buffer.
\<close>

definition log_room :: "u32 \<Rightarrow> bkey set \<Rightarrow> 'a lbio_scheme \<Rightarrow> bool" where
  "log_room d U s \<longleftrightarrow> cache_wf s \<and> used_blocks s \<subseteq> U \<and> finite U \<and> card U < NBUF \<and> set (home_keys d s) \<subseteq> U \<and>
     distinct (log_keys d s @ home_keys d s) \<and>
     (\<forall>k \<in> set (log_keys d s @ home_keys d s). holder s k = None \<and> refs s k + 1 \<noteq> 0)"

lemma log_roomD:
  assumes "log_room d U s"
  defines "n \<equiv> nat (lh_n (logs s d))"
  shows "inj_on (\<lambda>i. slot_key d i s) {..<n}" "inj_on (\<lambda>i. home_key d i s) {..<n}"
    "i < n \<Longrightarrow> j < n \<Longrightarrow> slot_key d i s \<noteq> home_key d j s"
    "i < n \<Longrightarrow> head_key d s \<noteq> slot_key d i s" "i < n \<Longrightarrow> head_key d s \<noteq> home_key d i s"
    "i < n \<Longrightarrow> home_key d i s \<in> U" "finite U" "card U < NBUF" "cache_ok s" "settled (cview s)" "used (cview s) \<subseteq> U"
    "i < n \<Longrightarrow> holder s (slot_key d i s) = None \<and> refs s (slot_key d i s) + 1 \<noteq> 0"
    "i < n \<Longrightarrow> holder s (home_key d i s) = None \<and> refs s (home_key d i s) + 1 \<noteq> 0"
    "holder s (head_key d s) = None \<and> refs s (head_key d s) + 1 \<noteq> 0"
proof -
  have r: "set (log_keys d s) \<inter> set (home_keys d s) = {}" "distinct (log_keys d s)" "distinct (home_keys d s)"
    "\<And>k. k \<in> set (log_keys d s) \<union> set (home_keys d s) \<Longrightarrow> holder s k = None \<and> refs s k + 1 \<noteq> 0"
    "set (home_keys d s) \<subseteq> U"
    using assms(1) by (auto simp: log_room_def)
  have m: "head_key d s \<in> set (log_keys d s)" "\<And>i. i < n \<Longrightarrow> slot_key d i s \<in> set (log_keys d s)"
    "\<And>i. i < n \<Longrightarrow> home_key d i s \<in> set (home_keys d s)"
    by (auto simp: log_keys_def home_keys_def n_def)
  show "i < n \<Longrightarrow> j < n \<Longrightarrow> slot_key d i s \<noteq> home_key d j s" "i < n \<Longrightarrow> head_key d s \<noteq> home_key d i s"
    using r(1) m by (metis disjoint_iff)+
  show "inj_on (\<lambda>i. slot_key d i s) {..<n}" "inj_on (\<lambda>i. home_key d i s) {..<n}" "i < n \<Longrightarrow> head_key d s \<noteq> slot_key d i s"
    using r(2,3) by (auto simp: log_keys_def home_keys_def n_def distinct_map atLeast0LessThan)
  show "i < n \<Longrightarrow> holder s (slot_key d i s) = None \<and> refs s (slot_key d i s) + 1 \<noteq> 0"
    "i < n \<Longrightarrow> holder s (home_key d i s) = None \<and> refs s (home_key d i s) + 1 \<noteq> 0"
    "holder s (head_key d s) = None \<and> refs s (head_key d s) + 1 \<noteq> 0" "i < n \<Longrightarrow> home_key d i s \<in> U"
    using r(4,5) m by blast+
qed (use assms(1) in \<open>simp_all add: log_room_def cache_wf_settled used_def used_blocks_def\<close>)

lemma log_room_readable_head:
  assumes "log_room d U s"
  shows "readable (cview s) (head_key d s)"
proof -
  note r = log_roomD(7,8,11,14) [OF assms]
  have "card (used (cview s)) \<le> card U" by (rule card_mono [OF r(1,3)])
  then show ?thesis using r by (simp add: readable_def used_def)
qed

lemma log_room_two:
  assumes "log_room d U s" and "i < nat (lh_n (logs s d))" and "used v \<subseteq> U"
    and "c_owner v (slot_key d i s) = None" "c_owner v (home_key d i s) = None"
    and "c_refs v (slot_key d i s) + 1 \<noteq> 0" "c_refs v (home_key d i s) + 1 \<noteq> 0"
  shows "readable v (slot_key d i s)" "readable (v_read pid (slot_key d i s) v) (home_key d i s)"
  by (rule room_for_two [of v U "home_key d i s" "slot_key d i s"]; use log_roomD [OF assms(1)] assms in simp)+

lemma write_log_effect:
  assumes "log_room d U s"
  defines "n \<equiv> nat (lh_n (logs s d))"
  shows "\<exists>t. write_log pid d s = (Inr (), t) \<and> cache_ok t \<and> settled (cview t) \<and> bio.more t = bio.more s \<and>
    cview t = fold (\<lambda>i v. v_copy (slot_key d i s) (home_key d i s) v) [0..<n] (cview s)"
proof -
  let ?I = "\<lambda>is t. set is \<subseteq> {..<n} \<and> cache_ok t \<and> settled (cview t) \<and> bio.more t = bio.more s \<and>
    refs t = refs s \<and> holder t = holder s"
  have "\<exists>t. forS (write_log_one pid d) [0..<n] s = (Inr (), t) \<and> ?I [] t \<and>
      cview t = fold (\<lambda>i v. v_copy (slot_key d i s) (home_key d i s) v) [0..<n] (cview s)"
  proof (rule forS_fold [where I = ?I and obs = cview])
    show "?I [0..<n] s" using log_roomD(9,10) [OF assms(1)] by auto
    fix i "is" t assume I: "?I (i # is) t"
    then have i: "i < nat (lh_n (logs s d))" by (simp add: n_def)
    have m: "bio.more t = bio.more s" using I by simp
    note r = log_roomD [OF assms(1)]
    have u: "used (cview t) \<subseteq> U" using r(11) I by (simp add: used_def)
    note two = log_room_two(1) [OF assms(1) i u] log_room_two(2) [OF assms(1) i u, of pid]
    have h: "\<forall>x. bio.more x = bio.more t \<longrightarrow> home_key d i x = home_key d i s" using m keys_more(3) by metis
    have "\<exists>t'. write_log_one pid d i t = (Inr (), t') \<and> cache_ok t' \<and> bio.more t' = bio.more t \<and>
        cview t' = v_copy (slot_key d i s) (home_key d i s) (cview t) \<and> settled (cview t')"
      unfolding write_log_one_def keys_more(2) [OF m]
      by (rule bpins.copy_to_first [OF _ _ _ _ h]) (use I two r(3,12,13) i in simp_all)
    then show "\<exists>t'. write_log_one pid d i t = (Inr (), t') \<and> ?I is t' \<and>
        cview t' = v_copy (slot_key d i s) (home_key d i s) (cview t)"
      using I m by (auto simp: cview_eq_iff v_copy_def v_defs)
  qed
  then show ?thesis by (auto simp: write_log_def n_def)
qed

lemma install_effect:
  assumes "log_room d U s"
  defines "n \<equiv> nat (lh_n (logs s d))"
  shows "\<exists>t. install_trans pid d s = (Inr (), t) \<and> cache_ok t \<and> settled (cview t) \<and> bio.more t = bio.more s \<and>
    used (cview t) \<subseteq> U \<and>
    cview t = fold (\<lambda>i v. v_pin (home_key d i s) (- 1) (v_copy (home_key d i s) (slot_key d i s) v)) [0..<n] (cview s)"
proof -
  let ?I = "\<lambda>is t. set is \<subseteq> {..<n} \<and> distinct is \<and> cache_ok t \<and> settled (cview t) \<and> bio.more t = bio.more s \<and>
    holder t = holder s \<and> used (cview t) \<subseteq> U \<and>
    (\<forall>j \<in> set is. refs t (slot_key d j s) = refs s (slot_key d j s) \<and> refs t (home_key d j s) = refs s (home_key d j s))"
  have "\<exists>t. forS (install_one pid d) [0..<n] s = (Inr (), t) \<and> ?I [] t \<and>
      cview t = fold (\<lambda>i v. v_pin (home_key d i s) (- 1) (v_copy (home_key d i s) (slot_key d i s) v)) [0..<n] (cview s)"
  proof (rule forS_fold [where I = ?I and obs = cview])
    show "?I [0..<n] s" using log_roomD(9-11) [OF assms(1)] by auto
    fix i "is" t assume I: "?I (i # is) t"
    then have i: "i < nat (lh_n (logs s d))" by (simp add: n_def)
    have m: "bio.more t = bio.more s" and u: "used (cview t) \<subseteq> U" using I by simp_all
    note r = log_roomD [OF assms(1)]
    note two = log_room_two(1) [OF assms(1) i u] log_room_two(2) [OF assms(1) i u, of pid]
    have h: "\<forall>x. bio.more x = bio.more t \<longrightarrow> home_key d i x = home_key d i s" using m keys_more(3) by metis
    have "\<exists>t'. install_one pid d i t = (Inr (), t') \<and> cache_ok t' \<and> bio.more t' = bio.more t \<and>
        cview t' = v_pin (home_key d i s) (- 1) (v_copy (home_key d i s) (slot_key d i s) (cview t)) \<and> settled (cview t')"
      unfolding install_one_def keys_more(2) [OF m]
      by (rule bpins.copy_to_second [OF _ _ _ _ h]) (use I two r(3,12,13) i in simp_all)
    then obtain t' where t': "install_one pid d i t = (Inr (), t')" "cache_ok t'" "bio.more t' = bio.more t"
      "cview t' = v_pin (home_key d i s) (- 1) (v_copy (home_key d i s) (slot_key d i s) (cview t))" "settled (cview t')"
      by blast
    have ne: "slot_key d j s \<noteq> home_key d i s \<and> (home_key d j s = home_key d i s \<longrightarrow> j = i)" if "j \<in> set is" for j
      using that I i r(3) inj_onD [OF r(2), of j i] by (auto simp: n_def)
    have rf: "refs t' = (refs t)(home_key d i s := refs t (home_key d i s) - 1)" "holder t' = holder t"
      using t'(4) by (auto simp: cview_eq_iff v_copy_def v_defs)
    have "used (cview t') \<subseteq> U" using u r(6) [OF i] by (auto simp: used_def rf split: if_splits)
    moreover have "i \<notin> set is" using I by simp
    ultimately show "\<exists>t'. install_one pid d i t = (Inr (), t') \<and> ?I is t' \<and>
        cview t' = v_pin (home_key d i s) (- 1) (v_copy (home_key d i s) (slot_key d i s) (cview t))"
      using I m t' rf ne by (intro exI [of _ t']) auto
  qed
  then show ?thesis by (auto simp: install_trans_def n_def)
qed

declare split_paired_All [simp del] split_paired_Ex [simp del]

section \<open>Writing the header\<close>

lemma upd_log_simps [simp]:
  "bufs (upd_log d f s) = bufs s" "bc_links (upd_log d f s) = bc_links s" "disks (upd_log d f s) = disks s"
  "writes (upd_log d f s) = writes s" "logs (upd_log d f s) = (logs s)(d := f (logs s d))"
  by (simp_all add: upd_log_def)

lemma cache_upd_log [simp]:
  "lookup (upd_log d f s) = lookup s" "cache_ok (upd_log d f s) = cache_ok s" "cview (upd_log d f s) = cview s"
  "cached (upd_log d f s) = cached s"
  "view (upd_log d f s) = view s" "refs (upd_log d f s) = refs s" "holder (upd_log d f s) = holder s"
proof -
  have lab: "label (upd_log d f s) = label s" by (simp add: label_def fun_eq_iff)
  show lk: "lookup (upd_log d f s) = lookup s"
    by (rule ext) (simp add: lookup_def find_block_def lab del: scan.simps)
  show "cache_ok (upd_log d f s) = cache_ok s" by (simp add: cache_ok_def bio_inv_def lab)
  show v: "view (upd_log d f s) = view s" "refs (upd_log d f s) = refs s" "holder (upd_log d f s) = holder s"
    by (rule ext; simp add: view_def refs_def holder_def lk split: option.split)+
  show "cview (upd_log d f s) = cview s" by (simp add: cview_eq_iff v)
  show "cached (upd_log d f s) = cached s"
    by (rule ext)+ (simp add: cached_def lk)
qed

lemma write_head_effect:
  assumes "cache_ok s" and "settled (cview s)" and "readable (cview s) (head_key d s)"
  shows "\<exists>t. write_head pid d s = (Inr (), t) \<and> cache_ok t \<and> settled (cview t) \<and> bio.more t = bio.more s \<and>
    cview t = v_write (head_key d s) (v_put (head_key d s) (encode_head (logs s d) (view s (head_key d s))) (cview s))"
proof -
  let ?e = "encode_head (logs s d) (view s (head_key d s))"
  from bcache.update_through [OF assms, of pid ?e] obtain b t u v where
    t: "bread pid (head_key d s) s = (Inr b, t)" "b_data (bufs t b) = view s (head_key d s)" "bio.more t = bio.more s"
    "bwrite pid b (set_data b ?e t) = (Inr (), u)" "brelse pid b u = (Inr (), v)" "cache_ok v" "bio.more v = bio.more s"
    "cview v = v_write (head_key d s) (v_put (head_key d s) ?e (cview s))" "settled (cview v)" by auto
  then show ?thesis by (auto simp: write_head_def logs_more(1) [OF t(3)])
qed

lemma log_room_cong:
  assumes "log_room d U s" and "cache_ok t" "settled (cview t)" "bio.more t = bio.more s" "refs t = refs s" "holder t = holder s"
  shows "log_room d U t"
  using assms by (auto simp: log_room_def cache_wf_settled used_blocks_def log_keys_def home_keys_def
      keys_more [OF assms(4)] logs_more [OF assms(4)])

section \<open>What a commit does\<close>

text \<open>The disk writes of a commit: the slots, the header, the home blocks, the empty header.\<close>

definition slot_writes :: "u32 \<Rightarrow> 'a lbio_scheme \<Rightarrow> (bkey \<times> block) list" where
  "slot_writes d s = map (\<lambda>i. (slot_key d i s, view s (home_key d i s))) [0..<nat (lh_n (logs s d))]"

definition home_writes :: "u32 \<Rightarrow> 'a lbio_scheme \<Rightarrow> (bkey \<times> block) list" where
  "home_writes d s = map (\<lambda>i. (home_key d i s, view s (home_key d i s))) [0..<nat (lh_n (logs s d))]"

definition full_head :: "u32 \<Rightarrow> 'a lbio_scheme \<Rightarrow> block" where
  "full_head d s = encode_head (logs s d) (view s (head_key d s))"

definition empty_head :: "u32 \<Rightarrow> 'a lbio_scheme \<Rightarrow> block" where
  "empty_head d s = encode_head ((logs s d)\<lparr>lh_n := 0\<rparr>) (full_head d s)"

definition commit_writes :: "u32 \<Rightarrow> 'a lbio_scheme \<Rightarrow> (bkey \<times> block) list" where
  "commit_writes d s =
     slot_writes d s @ (head_key d s, full_head d s) # home_writes d s @ [(head_key d s, empty_head d s)]"

lemma v_pin_0 [simp]: "v_pin k 0 v = v"
  by (simp add: v_pin_def)

lemma logs_written:
  assumes r: "log_room d U s"
  shows "\<exists>t u. write_log pid d s = (Inr (), t) \<and> write_head pid d t = (Inr (), u) \<and> log_room d U u \<and>
    bio.more u = bio.more s \<and> holder u = holder s \<and> refs u = refs s \<and>
    (\<forall>i < nat (lh_n (logs s d)). view u (slot_key d i s) = view s (home_key d i s)) \<and>
    view u (head_key d s) = full_head d s \<and> (\<forall>k. k \<notin> set (log_keys d s) \<longrightarrow> view u k = view s k) \<and>
    writes u = writes s @ slot_writes d s @ [(head_key d s, full_head d s)] \<and>
    disks u = play (slot_writes d s @ [(head_key d s, full_head d s)]) (disks s)"
proof -
  define n where "n = nat (lh_n (logs s d))"
  let ?S = "\<lambda>i. slot_key d i s" and ?H = "\<lambda>i. home_key d i s" and ?h = "head_key d s"
  note k = log_roomD [OF r, folded n_def]
  have ne: "\<forall>i < n. \<forall>j < n. ?H i \<noteq> ?S j" using k(3) by metis
  from write_log_effect [OF r, of pid] obtain t where t: "write_log pid d s = (Inr (), t)" "cache_ok t" "settled (cview t)"
    "bio.more t = bio.more s" "cview t = fold (\<lambda>i v. v_copy (?S i) (?H i) v) [0..<n] (cview s)"
    unfolding n_def by blast
  note f = fold_v_copy [OF k(1) ne, of 0 "cview s", unfolded v_pin_0, folded t(5)]
  have ft: "view t = copy_map ?S ?H n (view s)" "holder t = holder s"
    "writes t = writes s @ slot_writes d s" "disks t = play (slot_writes d s) (disks s)" "refs t = refs s"
    using f by (simp_all add: slot_writes_def n_def fun_eq_iff)
  note cm = copy_map_apply [OF k(1) ne, of "view s"]
  have "log_room d U t" by (rule log_room_cong [OF r t(2,3,4) ft(5,2)])
  from write_head_effect [OF t(2,3) log_room_readable_head [OF this], of pid] obtain u where
    u: "write_head pid d t = (Inr (), u)" "cache_ok u" "settled (cview u)" "bio.more u = bio.more t"
      "cview u = v_write ?h (v_put ?h (encode_head (logs s d) (view t ?h)) (cview t))"
    by (auto simp: keys_more [OF t(4)] logs_more [OF t(4)])
  have "?h \<notin> ?S ` {..<n}" using k(4) by auto
  then have hd: "view t ?h = view s ?h" using cm ft(1) by simp
  have fu: "view u = (view t)(?h := full_head d s)" "refs u = refs s" "holder u = holder s"
    "writes u = writes t @ [(?h, full_head d s)]" "disks u = (disks t)(?h := full_head d s)"
    using u(5) ft(2-5) by (simp_all add: cview_eq_iff v_defs full_head_def hd)
  have "log_room d U u" by (rule log_room_cong [OF r u(2,3) _ fu(2,3)]) (simp add: u(4) t(4))
  moreover have "view u (?S i) = view s (?H i)" if "i < n" for i
    using cm that k(4) [OF that] by (simp add: fu(1) ft(1))
  moreover have "view u j = view s j" if "j \<notin> set (log_keys d s)" for j
  proof -
    have "j \<noteq> ?h" "j \<notin> ?S ` {..<n}" using that by (auto simp: log_keys_def n_def)
    then show ?thesis using cm by (simp add: fu(1) ft(1))
  qed
  ultimately show ?thesis using t(1,4) u(1,4) fu ft by (auto simp: n_def)
qed

lemma log_room_head:
  assumes "log_room d U s" and "used (cview t) \<subseteq> U" and "holder t (head_key d s) = None" "refs t (head_key d s) + 1 \<noteq> 0"
  shows "readable (cview t) (head_key d s)"
proof -
  note r = log_roomD(7,8) [OF assms(1)]
  have "card (used (cview t)) \<le> card U" by (rule card_mono [OF r(1) assms(2)])
  then show ?thesis using r assms by (simp add: readable_def used_def)
qed

text \<open>Installing the logged blocks and clearing the header, from any state with a log.\<close>

lemma install_cleared:
  assumes r: "log_room d U s"
  defines "n \<equiv> nat (lh_n (logs s d))"
  shows "\<exists>t u. install_trans pid d s = (Inr (), t) \<and> clear_log pid d t = (Inr (), u) \<and> cache_wf u \<and>
    logs u = (logs s)(d := (logs s d)\<lparr>lh_n := 0\<rparr>) \<and> lbio.more u = lbio.more s \<and> holder u = holder s \<and>
    (\<forall>k. refs u k = (if k \<in> set (home_keys d s) then refs s k - 1 else refs s k)) \<and>
    (\<forall>k. k \<noteq> head_key d s \<longrightarrow> view u k = copy_map (\<lambda>i. home_key d i s) (\<lambda>i. slot_key d i s) n (view s) k) \<and>
    (let e = encode_head ((logs s d)\<lparr>lh_n := 0\<rparr>) (view s (head_key d s));
         ws = map (\<lambda>i. (home_key d i s, view s (slot_key d i s))) [0..<n] @ [(head_key d s, e)]
     in writes u = writes s @ ws \<and> disks u = play ws (disks s))"
proof -
  let ?S = "\<lambda>i. slot_key d i s" and ?H = "\<lambda>i. home_key d i s" and ?h = "head_key d s"
  note k = log_roomD [OF r, folded n_def]
  have ne: "\<forall>i < n. \<forall>j < n. ?S i \<noteq> ?H j" using k(3) by metis
  from install_effect [OF r, of pid] obtain t where t: "install_trans pid d s = (Inr (), t)" "cache_ok t" "settled (cview t)"
    "bio.more t = bio.more s" "used (cview t) \<subseteq> U"
    "cview t = fold (\<lambda>i v. v_pin (?H i) (- 1) (v_copy (?H i) (?S i) v)) [0..<n] (cview s)"
    unfolding n_def by blast
  note f = fold_v_copy [OF k(2) ne, of "- 1" "cview s", folded t(6)]
  have hh: "?h \<notin> ?H ` {..<n}" using k(5) by auto
  have sh: "set (home_keys d s) = ?H ` {..<n}" by (auto simp: home_keys_def n_def)
  have ft: "view t = copy_map ?H ?S n (view s)" "holder t = holder s"
    "writes t = writes s @ map (\<lambda>i. (?H i, view s (?S i))) [0..<n]"
    "disks t = play (map (\<lambda>i. (?H i, view s (?S i))) [0..<n]) (disks s)"
    "refs t j = (if j \<in> ?H ` {..<n} then refs s j - 1 else refs s j)" for j
    using f by (simp_all add: fun_eq_iff)
  have hd: "view t ?h = view s ?h" using copy_map_apply [OF k(2) ne, of "view s"] hh ft(1) by simp
  have "readable (cview t) ?h"
    by (rule log_room_head [OF r t(5)]) (use k(14) hh ft(2,5) in simp_all)
  then have "readable (cview (upd_log d (\<lambda>l. l\<lparr>lh_n := 0\<rparr>) t)) (head_key d (upd_log d (\<lambda>l. l\<lparr>lh_n := 0\<rparr>) t))"
    using keys_more(1) [OF t(4), of d] by (simp add: head_key_def)
  from write_head_effect [OF _ _ this, of pid] t(2,3) keys_more(1) [OF t(4), of d] obtain u where
    u: "clear_log pid d t = (Inr (), u)" "cache_ok u" "settled (cview u)"
      "bio.more u = bio.more (upd_log d (\<lambda>l. l\<lparr>lh_n := 0\<rparr>) t)"
      "cview u = v_write ?h (v_put ?h (encode_head ((logs s d)\<lparr>lh_n := 0\<rparr>) (view s ?h)) (cview t))"
    by (auto simp: clear_log_def head_key_def logs_more [OF t(4)] hd [unfolded head_key_def])
  have "logs u = (logs s)(d := (logs s d)\<lparr>lh_n := 0\<rparr>)" "lbio.more u = lbio.more s"
    using logs_more [OF u(4)] logs_more [OF t(4)] by (simp_all add: upd_log_def)
  moreover have "cache_wf u" using u(2,3) by (simp add: cache_wf_settled)
  moreover have "view u = (view t)(?h := encode_head ((logs s d)\<lparr>lh_n := 0\<rparr>) (view s ?h))" "refs u = refs t" "holder u = holder t"
    "writes u = writes t @ [(?h, encode_head ((logs s d)\<lparr>lh_n := 0\<rparr>) (view s ?h))]"
    "disks u = (disks t)(?h := encode_head ((logs s d)\<lparr>lh_n := 0\<rparr>) (view s ?h))"
    using u(5) by (simp_all add: cview_eq_iff v_defs)
  ultimately show ?thesis using t(1) u(1) ft by (simp add: sh Let_def)
qed

lemma commit_effect:
  assumes r: "log_room d U s" and n: "0 < lh_n (logs s d)"
  shows "\<exists>t. commit pid d s = (Inr (), t) \<and> cache_wf t \<and> logs t = (logs s)(d := (logs s d)\<lparr>lh_n := 0\<rparr>) \<and>
    lbio.more t = lbio.more s \<and> holder t = holder s \<and>
    (\<forall>k. refs t k = (if k \<in> set (home_keys d s) then refs s k - 1 else refs s k)) \<and>
    (\<forall>k. k \<notin> set (log_keys d s) \<longrightarrow> view t k = view s k) \<and>
    writes t = writes s @ commit_writes d s \<and> disks t = play (commit_writes d s) (disks s)"
proof -
  from logs_written [OF r, of pid] obtain t u where t: "write_log pid d s = (Inr (), t)" "write_head pid d t = (Inr (), u)"
    and ru: "log_room d U u" and m: "bio.more u = bio.more s" "holder u = holder s" "refs u = refs s"
    and v: "\<forall>i < nat (lh_n (logs s d)). view u (slot_key d i s) = view s (home_key d i s)"
      "view u (head_key d s) = full_head d s" "\<forall>k. k \<notin> set (log_keys d s) \<longrightarrow> view u k = view s k"
    and w: "writes u = writes s @ slot_writes d s @ [(head_key d s, full_head d s)]"
      "disks u = play (slot_writes d s @ [(head_key d s, full_head d s)]) (disks s)" by blast
  note same = keys_more [OF m(1)] logs_more [OF m(1)]
  have hk: "home_keys d u = home_keys d s" by (simp add: home_keys_def same)
  from install_cleared [OF ru, of pid] obtain x y where
    x: "install_trans pid d u = (Inr (), x)" "clear_log pid d x = (Inr (), y)" "cache_wf y"
      "logs y = (logs s)(d := (logs s d)\<lparr>lh_n := 0\<rparr>)" "lbio.more y = lbio.more s" "holder y = holder s"
      "\<forall>k. refs y k = (if k \<in> set (home_keys d s) then refs s k - 1 else refs s k)"
      "\<forall>k. k \<noteq> head_key d s \<longrightarrow> view y k =
        copy_map (\<lambda>i. home_key d i s) (\<lambda>i. slot_key d i s) (nat (lh_n (logs s d))) (view u) k"
      "writes y = writes u @ map (\<lambda>i. (home_key d i s, view u (slot_key d i s))) [0..<nat (lh_n (logs s d))] @
        [(head_key d s, empty_head d s)]"
      "disks y = play (map (\<lambda>i. (home_key d i s, view u (slot_key d i s))) [0..<nat (lh_n (logs s d))] @
        [(head_key d s, empty_head d s)]) (disks u)"
    unfolding same hk m(2,3) v(2) empty_head_def [symmetric] Let_def by blast
  have hw: "map (\<lambda>i. (home_key d i s, view u (slot_key d i s))) [0..<nat (lh_n (logs s d))] = home_writes d s"
    using v(1) by (simp add: home_writes_def)
  have c: "commit pid d s = (Inr (), y)" using n t x(1,2) by (simp add: commit_def)
  have "view y k = view s k" if "k \<notin> set (log_keys d s)" for k
  proof -
    note kk = log_roomD [OF r]
    have "k \<noteq> head_key d s" using that by (simp add: log_keys_def)
    then have "view y k = copy_map (\<lambda>i. home_key d i s) (\<lambda>i. slot_key d i s) (nat (lh_n (logs s d))) (view u) k"
      using x(8) by blast
    also have "\<dots> = view s k"
      using copy_map_apply [OF kk(2), of "\<lambda>i. slot_key d i s" "view u"] kk(3) v(1) v(3) that
      by (cases "k \<in> (\<lambda>i. home_key d i s) ` {..<nat (lh_n (logs s d))}") auto
    finally show ?thesis .
  qed
  then show ?thesis using c x w hw by (auto simp: commit_writes_def)
qed

section \<open>Recovery\<close>

text \<open>What the disk means to a recovery: the blocks named in the header are copied home.\<close>

definition redo :: "u32 \<Rightarrow> u32 \<Rightarrow> (bkey \<Rightarrow> block) \<Rightarrow> bkey \<Rightarrow> block" where
  "redo d start m =
     (let h = m (d, start)
      in copy_map (\<lambda>i. (d, get32 h (4 + 4 * i))) (\<lambda>i. (d, start + of_nat i + 1)) (nat (sint (get32 h 0))) m)"

lemma redo_empty: "sint (get32 (m (d, start)) 0) \<le> 0 \<Longrightarrow> redo d start m = m"
  by (simp add: redo_def copy_map_def Let_def)

text \<open>The log header of a disk, as \<open>read_head\<close> loads it, and the blocks it speaks of.\<close>

definition disk_head :: "u32 \<Rightarrow> u32 \<Rightarrow> int \<Rightarrow> dlog \<Rightarrow> (bkey \<Rightarrow> block) \<Rightarrow> dlog" where
  "disk_head d start sz l m =
     (let h = m (d, start); n = sint (get32 h 0)
      in l\<lparr>l_start := start, l_size := sz, lh_n := n,
           lh_block := fold (\<lambda>i f. f(i := get32 h (4 + 4 * i))) [0..<nat n] (lh_block l)\<rparr>)"

definition disk_log_ok :: "u32 \<Rightarrow> u32 \<Rightarrow> (bkey \<Rightarrow> block) \<Rightarrow> bool" where
  "disk_log_ok d start m \<longleftrightarrow>
     (let h = m (d, start); n = nat (sint (get32 h 0))
      in n < NBUF \<and> distinct ((d, start) # map (\<lambda>i. (d, start + of_nat i + 1)) [0..<n] @
           map (\<lambda>i. (d, get32 h (4 + 4 * i))) [0..<n]))"

lemma fold_block_apply:
  "fold (\<lambda>i f. f(i := g i)) [0..<n] f i = (if i < n then g i else f i)"
  by (induction n) auto

lemma disk_head_fields:
  "l_start (disk_head d start sz l m) = start" "lh_n (disk_head d start sz l m) = sint (get32 (m (d, start)) 0)"
  "i < nat (sint (get32 (m (d, start)) 0)) \<Longrightarrow> lh_block (disk_head d start sz l m) i = get32 (m (d, start)) (4 + 4 * i)"
  by (simp_all add: disk_head_def Let_def fold_block_apply)

text \<open>A cache at rest: no block is referenced or held, as after \<open>binit\<close>.\<close>

definition idle :: "'a bio_scheme \<Rightarrow> bool" where
  "idle s \<longleftrightarrow> cache_wf s \<and> refs s = (\<lambda>_. 0) \<and> holder s = (\<lambda>_. None)"

lemma idle_view: "idle s \<Longrightarrow> view s = disks s"
  by (auto simp: idle_def cache_wf_def clean_def fun_eq_iff)

lemma read_head_effect:
  assumes s: "idle s" and n: "nat (sint (get32 (disks s (head_key d s)) 0)) \<le> LOGSIZE"
  defines "l \<equiv> disk_head d (l_start (logs s d)) (l_size (logs s d)) (logs s d) (disks s)"
  shows "\<exists>t. read_head pid d s = (Inr (), t) \<and> idle t \<and> logs t = (logs s)(d := l) \<and>
    lbio.more t = lbio.more s \<and> disks t = disks s \<and> writes t = writes s"
proof -
  let ?h = "head_key d s"
  have wf: "cache_ok s" "settled (cview s)" and z: "refs s = (\<lambda>_. 0)" "holder s = (\<lambda>_. None)"
    using s by (simp_all add: idle_def cache_wf_settled)
  have "readable (cview s) ?h" by (simp add: readable_def z NBUF_def)
  from bread_law [OF wf this, of pid] obtain b t where t: "bread pid ?h s = (Inr b, t)" "cache_ok t"
    "cview t = v_read pid ?h (cview s)" "bio.more t = bio.more s" "cached t ?h b" by blast
  have db: "b_data (bufs t b) = disks s ?h"
    using bcache.data_has [OF t(5)] t(3) idle_view [OF s] by (simp add: cview_eq_iff v_read_def)
  let ?f = "\<lambda>l. l\<lparr>lh_n := sint (get32 (disks s ?h) 0),
    lh_block := fold (\<lambda>i f. f(i := get32 (disks s ?h) (4 + 4 * i))) [0..<nat (sint (get32 (disks s ?h) 0))] (lh_block l)\<rparr>"
  have "holder t ?h = Some pid" using t(3) by (simp add: cview_eq_iff v_read_def)
  with brelse_law [of "upd_log d ?f t" ?h b pid] t(2,5) obtain u where
    u: "brelse pid b (upd_log d ?f t) = (Inr (), u)" "cache_ok u" "cview u = v_release ?h (cview t)"
      "bio.more u = bio.more (upd_log d ?f t)" by auto
  have "\<not> sint (get32 (disks s ?h) 0) > int LOGSIZE" using n by simp
  then have rh: "read_head pid d s = (Inr (), u)"
    using t(1) u(1) db by (simp add: read_head_def Let_def)
  have cu: "refs u = (\<lambda>_. 0)" "holder u = (\<lambda>_. None)" "disks u = disks s" "writes u = writes s" "view u = view s"
    using u(3) t(3) z by (auto simp: cview_eq_iff v_defs fun_eq_iff)
  have "settled (cview u)" using idle_view [OF s] by (simp add: settled_def cu)
  then have "idle u" using u(2) cu by (simp add: idle_def cache_wf_settled)
  moreover have "?f (logs s d) = l"
    by (simp add: l_def disk_head_def head_key_def Let_def)
  then have "logs u = (logs s)(d := l)" "lbio.more u = lbio.more s"
    using logs_more [OF u(4)] logs_more [OF t(4)] by (simp_all add: upd_log_def)
  ultimately show ?thesis using rh cu by blast
qed

text \<open>
  Recovery does to the disk what \<open>redo\<close> says, and leaves every block it copied with a
  reference count of \<open>2 ^ 32 - 1\<close>: \<open>install_trans\<close> unpins buffers nobody pinned.
\<close>

lemma recover_effect:
  assumes s: "idle s" and ok: "disk_log_ok d (l_start (logs s d)) (disks s)"
  defines "start \<equiv> l_start (logs s d)"
  defines "homes \<equiv> (\<lambda>i. (d, get32 (disks s (d, start)) (4 + 4 * i))) ` {..<nat (sint (get32 (disks s (d, start)) 0))}"
  shows "\<exists>t. recover_from_log pid d s = (Inr (), t) \<and> cache_wf t \<and> holder t = (\<lambda>_. None) \<and>
    refs t = (\<lambda>k. if k \<in> homes then - 1 else 0) \<and> lh_n (logs t d) = 0 \<and> l_start (logs t d) = start \<and>
    (\<forall>k. k \<noteq> (d, start) \<longrightarrow> disks t k = redo d start (disks s) k \<and> view t k = disks t k) \<and>
    get32 (disks t (d, start)) 0 = 0"
proof -
  define h where "h = disks s (d, start)"
  define n where "n = nat (sint (get32 h 0))"
  define l where "l = disk_head d start (l_size (logs s d)) (logs s d) (disks s)"
  have n30: "n < NBUF" and dist: "distinct ((d, start) # map (\<lambda>i. (d, start + of_nat i + 1)) [0..<n] @
           map (\<lambda>i. (d, get32 h (4 + 4 * i))) [0..<n])"
    using ok by (simp_all add: disk_log_ok_def Let_def h_def n_def start_def)
  have "nat (sint (get32 (disks s (head_key d s)) 0)) \<le> LOGSIZE"
    using n30 by (simp add: n_def h_def head_key_def start_def NBUF_def LOGSIZE_def)
  from read_head_effect [OF s this, of pid] obtain t where t: "read_head pid d s = (Inr (), t)" "idle t"
    "logs t = (logs s)(d := l)" "lbio.more t = lbio.more s" "disks t = disks s"
    by (auto simp: l_def start_def)
  have lf: "l_start l = start" "nat (lh_n l) = n" "\<And>i. i < n \<Longrightarrow> lh_block l i = get32 h (4 + 4 * i)"
    by (simp_all add: l_def disk_head_fields n_def h_def)
  have kt: "head_key d t = (d, start)" "\<And>i. slot_key d i t = (d, start + of_nat i + 1)"
      "\<And>i. i < n \<Longrightarrow> home_key d i t = (d, get32 h (4 + 4 * i))"
    by (simp_all add: head_key_def slot_key_def home_key_def t(3) lf)
  have nt: "nat (lh_n (logs t d)) = n" by (simp add: t(3) lf)
  have hkt: "home_keys d t = map (\<lambda>i. (d, get32 h (4 + 4 * i))) [0..<n]" by (simp add: home_keys_def nt kt)
  have lkt: "log_keys d t = (d, start) # map (\<lambda>i. (d, start + of_nat i + 1)) [0..<n]" by (simp add: log_keys_def nt kt)
  have hs: "set (home_keys d t) = homes" by (auto simp: hkt homes_def h_def n_def)
  have z: "refs t = (\<lambda>_. 0)" "holder t = (\<lambda>_. None)" "cache_wf t" using t(2) by (simp_all add: idle_def)
  have "card homes \<le> length (home_keys d t)" unfolding hs [symmetric] by (rule card_length)
  then have "card homes < NBUF" using n30 by (simp add: hkt)
  then have room: "log_room d homes t"
    using dist z hs by (simp add: log_room_def used_blocks_def lkt hkt)
  note r = log_roomD [OF room, unfolded nt]
  let ?D = "\<lambda>i. home_key d i t" and ?R = "\<lambda>i. slot_key d i t"
  from install_cleared [OF room, of pid] obtain u v where
    u: "install_trans pid d t = (Inr (), u)" "clear_log pid d u = (Inr (), v)" "cache_wf v"
      "logs v = (logs t)(d := (logs t d)\<lparr>lh_n := 0\<rparr>)" "holder v = holder t"
      "\<forall>k. refs v k = (if k \<in> set (home_keys d t) then refs t k - 1 else refs t k)"
      "\<forall>k. k \<noteq> head_key d t \<longrightarrow> view v k = copy_map ?D ?R n (view t) k"
      "disks v = play (map (\<lambda>i. (?D i, view t (?R i))) [0..<n] @ [(head_key d t,
         encode_head ((logs t d)\<lparr>lh_n := 0\<rparr>) (view t (head_key d t)))]) (disks t)"
    unfolding nt Let_def by blast
  have ne: "\<forall>i < n. \<forall>j < n. ?R i \<noteq> ?D j" using r(3) by blast
  note cm = copy_map_apply [OF r(2) ne, of "disks t"]
  note pm = play_map_apply [OF r(2), of "\<lambda>i. view t (?R i)" "disks t"]
  have vt: "view t = disks t" by (rule idle_view [OF t(2)])
  have rd: "redo d start (disks s) = copy_map ?D ?R n (disks t)"
  proof -
    have "copy_map ?D ?R n m = copy_map (\<lambda>i. (d, get32 h (4 + 4 * i))) (\<lambda>i. (d, start + of_nat i + 1)) n m"
      for m :: "bkey \<Rightarrow> block"
      unfolding copy_map_def by (rule fold_cong) (simp_all add: kt)
    then show ?thesis by (simp add: redo_def Let_def h_def n_def t(5))
  qed
  have "disks v k = redo d start (disks s) k" if "k \<noteq> (d, start)" for k
  proof (cases "k \<in> ?D ` {..<n}")
    case True
    then obtain i where "i < n" "k = ?D i" by blast
    then show ?thesis using that pm cm by (simp add: u(8) kt(1) rd vt)
  next
    case False
    then show ?thesis using that pm cm by (simp add: u(8) kt(1) rd vt)
  qed
  moreover have "view v k = redo d start (disks s) k" if "k \<noteq> (d, start)" for k
    using u(7) that by (simp add: kt(1) rd vt)
  moreover have "get32 (disks v (d, start)) 0 = 0"
    by (simp add: u(8) kt(1) encode_head_def)
  moreover have "refs v = (\<lambda>k. if k \<in> homes then - 1 else 0)"
    by (rule ext) (simp add: u(6) hs z)
  moreover have "lh_n (logs v d) = 0" "l_start (logs v d) = start" by (simp_all add: u(4) t(3) lf)
  ultimately show ?thesis
    using t(1) u(1-3,5) z by (auto simp: recover_from_log_def)
qed

section \<open>Crashes during a commit\<close>

text \<open>The three kinds of disks a crash can leave.\<close>

definition old_blocks :: "u32 \<Rightarrow> 'a lbio_scheme \<Rightarrow> (bkey \<Rightarrow> block) \<Rightarrow> bool" where
  "old_blocks d s m \<longleftrightarrow> (\<forall>k. k \<notin> set (log_keys d s) \<longrightarrow> m k = disks s k)"

definition new_blocks :: "u32 \<Rightarrow> 'a lbio_scheme \<Rightarrow> (bkey \<Rightarrow> block) \<Rightarrow> bool" where
  "new_blocks d s m \<longleftrightarrow>
     (\<forall>k. k \<notin> set (log_keys d s) \<longrightarrow> m k = (if k \<in> set (home_keys d s) then view s k else disks s k))"

lemma map_prefix:
  fixes ws :: "('k \<times> 'd) list"
  assumes "inj_on dst {..<n}" and "ws = map (\<lambda>i. (dst i, f i)) [0..<n]"
  shows "k \<notin> dst ` {..<n} \<Longrightarrow> play (take j ws) m k = m k" "i < n \<Longrightarrow> play ws m (dst i) = f i"
    "k \<notin> dst ` {..<n} \<Longrightarrow> play ws m k = m k"
proof -
  have t: "take j ws = map (\<lambda>i. (dst i, f i)) [0..<min j n]" for j by (simp add: assms(2) take_map min_def)
  have inj: "inj_on dst {..<min j n}" for j using assms(1) by (auto intro: inj_on_subset)
  have out: "play (take j ws) m k = m k" if "k \<notin> dst ` {..<n}" for j
  proof -
    have "k \<notin> dst ` {..<min j n}" using that by auto
    then show ?thesis unfolding t using play_map_apply [OF inj [of j], of f m] by blast
  qed
  then show "k \<notin> dst ` {..<n} \<Longrightarrow> play (take j ws) m k = m k" .
  have "take n ws = ws" by (simp add: assms(2))
  then show "k \<notin> dst ` {..<n} \<Longrightarrow> play ws m k = m k" using out [of n] by simp
  show "i < n \<Longrightarrow> play ws m (dst i) = f i"
    unfolding assms(2) using play_map_apply [OF assms(1), of f m] by blast
qed

lemma log_prefix:
  assumes r: "log_room d U s"
  defines "n \<equiv> nat (lh_n (logs s d))"
  shows "k \<notin> set (log_keys d s) \<Longrightarrow> play (take j (slot_writes d s)) m k = m k"
    "play (take j (slot_writes d s)) m (head_key d s) = m (head_key d s)"
    "i < n \<Longrightarrow> play (slot_writes d s) m (slot_key d i s) = view s (home_key d i s)"
    "k \<notin> set (log_keys d s) \<Longrightarrow> play (slot_writes d s) m k = m k"
    "k \<notin> set (home_keys d s) \<Longrightarrow> play (take j (home_writes d s)) m k = m k"
    "i < n \<Longrightarrow> play (home_writes d s) m (home_key d i s) = view s (home_key d i s)"
    "k \<notin> set (home_keys d s) \<Longrightarrow> play (home_writes d s) m k = m k"
proof -
  note k = log_roomD [OF r, folded n_def]
  note A = map_prefix [OF k(1) slot_writes_def [of d s, folded n_def]]
  note B = map_prefix [OF k(2) home_writes_def [of d s, folded n_def]]
  have h: "k \<notin> set (log_keys d s) \<Longrightarrow> k \<notin> (\<lambda>i. slot_key d i s) ` {..<n}" for k by (auto simp: log_keys_def n_def)
  have "head_key d s \<notin> (\<lambda>i. slot_key d i s) ` {..<n}" using k(4) by (metis imageE lessThan_iff)
  then show "play (take j (slot_writes d s)) m (head_key d s) = m (head_key d s)" by (rule A(1))
  have hk: "set (home_keys d s) = (\<lambda>i. home_key d i s) ` {..<n}" by (auto simp: home_keys_def n_def)
  show "k \<notin> set (log_keys d s) \<Longrightarrow> play (take j (slot_writes d s)) m k = m k" by (rule A(1) [OF h])
  show "i < n \<Longrightarrow> play (slot_writes d s) m (slot_key d i s) = view s (home_key d i s)" by (rule A(2))
  show "k \<notin> set (log_keys d s) \<Longrightarrow> play (slot_writes d s) m k = m k" by (rule A(3) [OF h])
  show "k \<notin> set (home_keys d s) \<Longrightarrow> play (take j (home_writes d s)) m k = m k" unfolding hk by (rule B(1))
  show "i < n \<Longrightarrow> play (home_writes d s) m (home_key d i s) = view s (home_key d i s)" by (rule B(2))
  show "k \<notin> set (home_keys d s) \<Longrightarrow> play (home_writes d s) m k = m k" unfolding hk by (rule B(3))
qed

lemma log_keys_disjoint:
  assumes "log_room d U s"
  shows "k \<in> set (home_keys d s) \<Longrightarrow> k \<notin> set (log_keys d s)"
  using assms by (auto simp: log_room_def)

lemma disk_log_ok_empty: "sint (get32 (m (d, start)) 0) = 0 \<Longrightarrow> disk_log_ok d start m"
  by (simp add: disk_log_ok_def Let_def NBUF_def)

text \<open>A disk whose header names the logged blocks and whose slots hold them.\<close>

lemma redo_committed:
  assumes r: "log_room d U s" and n: "0 < lh_n (logs s d)" "lh_n (logs s d) < int NBUF"
    and hd: "m (head_key d s) = full_head d s"
    and slots: "\<And>i. i < nat (lh_n (logs s d)) \<Longrightarrow> m (slot_key d i s) = view s (home_key d i s)"
    and other: "\<And>k. k \<notin> set (log_keys d s) \<Longrightarrow> k \<notin> set (home_keys d s) \<Longrightarrow> m k = disks s k"
  shows "disk_log_ok d (l_start (logs s d)) m" "new_blocks d s (redo d (l_start (logs s d)) m)"
proof -
  define n where "n = nat (lh_n (logs s d))"
  define start where "start = l_start (logs s d)"
  let ?S = "\<lambda>i. slot_key d i s" and ?H = "\<lambda>i. home_key d i s"
  note k = log_roomD [OF r, folded n_def]
  have h: "m (d, start) = full_head d s" using hd by (simp add: head_key_def start_def)
  have ef: "nat (sint (get32 (full_head d s) 0)) = n"
    "\<And>i. i < n \<Longrightarrow> get32 (full_head d s) (4 + 4 * i) = lh_block (logs s d) i"
    using encode_head_fields [of "logs s d"] n by (simp_all add: full_head_def n_def NBUF_def LOGSIZE_def)
  have homes: "map (\<lambda>i. (d, get32 (full_head d s) (4 + 4 * i))) [0..<n] = home_keys d s"
    using ef(2) by (simp add: home_key_def home_keys_def n_def)
  have keys: "(d, start) # map (\<lambda>i. (d, start + of_nat i + 1)) [0..<n] = log_keys d s"
    by (simp add: slot_key_def start_def log_keys_def head_key_def n_def)
  have "distinct (log_keys d s @ home_keys d s)" using r by (simp add: log_room_def)
  then have "distinct (((d, start) # map (\<lambda>i. (d, start + of_nat i + 1)) [0..<n]) @
      map (\<lambda>i. (d, get32 (full_head d s) (4 + 4 * i))) [0..<n])" unfolding keys homes .
  moreover have "n < NBUF" using n by (simp add: n_def)
  ultimately show "disk_log_ok d (l_start (logs s d)) m"
    unfolding start_def [symmetric] by (simp add: disk_log_ok_def h ef(1) Let_def)
  have "redo d start m = copy_map ?H ?S n m"
    unfolding redo_def h Let_def ef(1) copy_map_def
    by (rule fold_cong) (use ef(2) in \<open>simp_all add: home_key_def slot_key_def start_def\<close>)
  moreover have "copy_map ?H ?S n m i = (if i \<in> set (home_keys d s) then view s i else disks s i)"
    if i: "i \<notin> set (log_keys d s)" for i
  proof -
    have ne: "\<forall>i < n. \<forall>j < n. ?S i \<noteq> ?H j" using k(3) by blast
    note cm = copy_map_apply [OF k(2) ne, of m]
    have hk: "set (home_keys d s) = ?H ` {..<n}" by (auto simp: home_keys_def n_def)
    show ?thesis
    proof (cases "i \<in> set (home_keys d s)")
      case True
      then obtain x where "x < n" "i = ?H x" by (auto simp: hk)
      then show ?thesis using cm slots [of x] True by (simp add: n_def [symmetric])
    next
      case False
      then show ?thesis using cm other [OF i False] by (simp add: hk)
    qed
  qed
  ultimately show "new_blocks d s (redo d (l_start (logs s d)) m)" by (simp add: new_blocks_def start_def)
qed

lemma redo_prefix:
  fixes j :: nat
  assumes r: "log_room d U s" and n: "0 < lh_n (logs s d)" "lh_n (logs s d) < int NBUF"
    and empty: "sint (get32 (disks s (head_key d s)) 0) = 0"
  defines "m \<equiv> play (take j (commit_writes d s)) (disks s)"
  shows "disk_log_ok d (l_start (logs s d)) m \<and>
    (old_blocks d s (redo d (l_start (logs s d)) m) \<or> new_blocks d s (redo d (l_start (logs s d)) m))"
proof -
  define n where "n = nat (lh_n (logs s d))"
  let ?start = "l_start (logs s d)"
  note p = log_prefix [OF r, folded n_def]
  have len: "length (slot_writes d s) = n" "length (home_writes d s) = n"
    by (simp_all add: slot_writes_def home_writes_def n_def)
  have hd: "(d, ?start) = head_key d s" by (simp add: head_key_def)
  have hh: "head_key d s \<notin> set (home_keys d s)" "\<And>i. i < n \<Longrightarrow> slot_key d i s \<notin> set (home_keys d s)"
  proof -
    have "head_key d s \<in> set (log_keys d s)" "\<And>i. i < n \<Longrightarrow> slot_key d i s \<in> set (log_keys d s)"
      by (auto simp: log_keys_def n_def)
    then show "head_key d s \<notin> set (home_keys d s)" "\<And>i. i < n \<Longrightarrow> slot_key d i s \<notin> set (home_keys d s)"
      using log_keys_disjoint [OF r] by metis+
  qed
  define m1 where "m1 = (play (slot_writes d s) (disks s))(head_key d s := full_head d s)"
  have ns: "slot_key d i s \<noteq> head_key d s" if "i < n" for i
    using log_roomD(4) [OF r, folded n_def, OF that] by simp
  have m1: "m1 (head_key d s) = full_head d s" "\<And>k. k \<notin> set (log_keys d s) \<Longrightarrow> m1 k = disks s k"
    "\<And>i. i < n \<Longrightarrow> m1 (slot_key d i s) = view s (home_key d i s)"
    using p(3,4) ns by (auto simp: m1_def log_keys_def)
  consider "j \<le> n" | j' where "j = Suc (n + j')" "j' \<le> n" | "2 * n + 1 < j"
  proof -
    have "j \<le> n \<or> 2 * n + 1 < j \<or> (\<exists>j'. j = Suc (n + j') \<and> j' \<le> n)" by presburger
    then show thesis using that by blast
  qed
  then show ?thesis
  proof cases
    case 1
    then have m: "m = play (take j (slot_writes d s)) (disks s)" by (simp add: m_def commit_writes_def len)
    have "sint (get32 (m (d, ?start)) 0) = 0" using empty by (simp only: hd m p(2))
    moreover have "old_blocks d s m" by (simp add: old_blocks_def m p(1))
    ultimately show ?thesis by (simp add: disk_log_ok_empty redo_empty)
  next
    case 2
    then have m: "m = play (take j' (home_writes d s)) m1" by (simp add: m_def commit_writes_def len m1_def)
    have h: "m (head_key d s) = full_head d s" by (simp add: m p(5) hh m1)
    have sl: "m (slot_key d i s) = view s (home_key d i s)" if "i < nat (lh_n (logs s d))" for i
      using that by (simp add: m p(5) hh m1 n_def)
    have o: "m k = disks s k" if "k \<notin> set (log_keys d s)" "k \<notin> set (home_keys d s)" for k
      using that by (simp add: m p(5) m1)
    show ?thesis using redo_committed [OF r n h sl o] by blast
  next
    case 3
    then have m: "m = (play (home_writes d s) m1)(head_key d s := empty_head d s)"
      by (simp add: m_def commit_writes_def len m1_def)
    have "sint (get32 (m (d, ?start)) 0) = 0" by (simp add: m hd empty_head_def encode_head_def)
    moreover have "new_blocks d s m"
    proof (unfold new_blocks_def, intro allI impI)
      fix k assume k: "k \<notin> set (log_keys d s)"
      then have "k \<noteq> head_key d s" by (auto simp: log_keys_def)
      moreover have "k \<in> set (home_keys d s) \<Longrightarrow> \<exists>i < n. k = home_key d i s" by (auto simp: home_keys_def n_def)
      ultimately show "m k = (if k \<in> set (home_keys d s) then view s k else disks s k)"
        using p(6,7) m1(2) [OF k] by (auto simp: m)
    qed
    ultimately show ?thesis by (simp add: disk_log_ok_empty redo_empty)
  qed
qed

text \<open>A machine that comes up with the given disk contents, its buffer cache initialised.\<close>

definition bss_log :: dlog where
  "bss_log = \<lparr>l_start = 0, l_size = 0, l_outstanding = 0, l_committing = False, lh_n = 0, lh_block = \<lambda>_. 0\<rparr>"

definition reboot :: "(bkey \<Rightarrow> block) \<Rightarrow> lbio" where
  "reboot m = binit \<lparr>bufs = \<lambda>_. bss_buf, bc_links = \<lparr>lnext = \<lambda>_. 0, lprev = \<lambda>_. 0\<rparr>, disks = m, writes = [],
     logs = \<lambda>_. bss_log\<rparr>"

lemma reboot_idle: "idle (reboot m)" "disks (reboot m) = m"
  by (simp_all add: reboot_def idle_def binit_wf)

lemma idle_upd_log [simp]: "idle (upd_log d f s) = idle s"
  by (simp add: idle_def cache_wf_settled)

lemma initlog_effect:
  assumes s: "idle s" and ok: "disk_log_ok d start (disks s)"
  defines "homes \<equiv> (\<lambda>i. (d, get32 (disks s (d, start)) (4 + 4 * i))) ` {..<nat (sint (get32 (disks s (d, start)) 0))}"
  shows "\<exists>t. initlog pid d start nlog s = (Inr (), t) \<and> cache_wf t \<and> holder t = (\<lambda>_. None) \<and>
    refs t = (\<lambda>k. if k \<in> homes then - 1 else 0) \<and> lh_n (logs t d) = 0 \<and> l_start (logs t d) = start \<and>
    (\<forall>k. k \<noteq> (d, start) \<longrightarrow> disks t k = redo d start (disks s) k \<and> view t k = disks t k) \<and>
    get32 (disks t (d, start)) 0 = 0"
  using recover_effect [of "upd_log d (\<lambda>l. l\<lparr>l_start := start, l_size := sint nlog\<rparr>) s" d pid] s ok
  by (simp add: initlog_def homes_def)

section \<open>Recording a block in the transaction\<close>

definition logged :: "u32 \<Rightarrow> 'a lbio_scheme \<Rightarrow> u32 set" where
  "logged d s = lh_block (logs s d) ` {..<nat (lh_n (logs s d))}"

text \<open>The header is a set of blocks, each of them referenced.\<close>

definition log_inv :: "u32 \<Rightarrow> 'a lbio_scheme \<Rightarrow> bool" where
  "log_inv d s \<longleftrightarrow> 0 \<le> lh_n (logs s d) \<and> inj_on (lh_block (logs s d)) {..<nat (lh_n (logs s d))} \<and>
     (\<forall>bn \<in> logged d s. refs s (d, bn) \<noteq> 0)"

lemma log_index_new:
  assumes "bn \<notin> lh_block l ` {..<nat (lh_n l)}"
  shows "log_index l bn = nat (lh_n l)"
proof -
  have "List.find (\<lambda>i. lh_block l i = bn) [0..<nat (lh_n l)] = None"
    using assms by (auto simp: find_None_iff)
  then show ?thesis by (simp add: log_index_def)
qed

lemma log_index_old:
  assumes "bn \<in> lh_block l ` {..<nat (lh_n l)}"
  shows "log_index l bn < nat (lh_n l)" "lh_block l (log_index l bn) = bn"
proof -
  obtain i where "List.find (\<lambda>i. lh_block l i = bn) [0..<nat (lh_n l)] = Some i"
    using assms by (cases "List.find (\<lambda>i. lh_block l i = bn) [0..<nat (lh_n l)]") (auto simp: find_None_iff)
  with find_SomeD [OF this] show "log_index l bn < nat (lh_n l)" "lh_block l (log_index l bn) = bn"
    by (simp_all add: log_index_def)
qed

lemma log_write_old:
  assumes "b_dev (bufs s b) = d" "b_blockno (bufs s b) = bn" and "bn \<in> logged d s"
    and "lh_n (logs s d) < int LOGSIZE" "lh_n (logs s d) < l_size (logs s d) - 1" "0 < l_outstanding (logs s d)"
  shows "log_write b s = (Inr (), s)"
proof -
  note i = log_index_old [OF assms(3) [unfolded logged_def]]
  have "upd_log d (\<lambda>l. l\<lparr>lh_block := (lh_block l)(log_index (logs s d) bn := bn)\<rparr>) s = s"
    using i(2) by (simp add: upd_log_def fun_upd_idem)
  moreover have "int (log_index (logs s d) bn) \<noteq> lh_n (logs s d)" using i(1) by simp
  ultimately show ?thesis using assms by (simp add: log_write_def Let_def)
qed

lemma log_write_new:
  assumes "b_dev (bufs s b) = d" "b_blockno (bufs s b) = bn" and "bn \<notin> logged d s" and "0 \<le> lh_n (logs s d)"
    and "lh_n (logs s d) < int LOGSIZE" "lh_n (logs s d) < l_size (logs s d) - 1" "0 < l_outstanding (logs s d)"
  shows "log_write b s = (Inr (), upd_log d (\<lambda>l. l\<lparr>lh_block := (lh_block l)(nat (lh_n l) := bn), lh_n := lh_n l + 1\<rparr>) (bpin b s))"
proof -
  note i = log_index_new [OF assms(3) [unfolded logged_def]]
  show ?thesis
    using assms by (simp add: log_write_def Let_def i upd_log_def bpin_def upd_buf_def)
qed

lemma log_write_effect:
  assumes inv: "log_inv d s" and wf: "cache_ok s" and c: "cached s (d, bn) b" and h: "refs s (d, bn) + 1 \<noteq> 0"
    and sp: "lh_n (logs s d) < int LOGSIZE" "lh_n (logs s d) < l_size (logs s d) - 1" "0 < l_outstanding (logs s d)"
  shows "\<exists>t. log_write b s = (Inr (), t) \<and> log_inv d t \<and> cache_ok t \<and> logged d t = insert bn (logged d s) \<and>
    view t = view s \<and> disks t = disks s \<and> holder t = holder s \<and> lbio.more t = lbio.more s \<and>
    (\<forall>j c. cached s j c \<longrightarrow> cached t j c) \<and> l_size (logs t d) = l_size (logs s d) \<and>
    l_outstanding (logs t d) = l_outstanding (logs s d) \<and>
    (if bn \<in> logged d s then t = s
     else lh_n (logs t d) = lh_n (logs s d) + 1 \<and> refs t = (refs s)((d, bn) := refs s (d, bn) + 1))"
proof -
  obtain xs where "bio_inv s xs" using wf by (auto simp: cache_ok_def)
  from lookupD(2) [OF this cachedD(1) [OF c]] have lb: "b_dev (bufs s b) = d" "b_blockno (bufs s b) = bn"
    by (simp_all add: label_def)
  have n0: "0 \<le> lh_n (logs s d)" using inv by (simp add: log_inv_def)
  show ?thesis
  proof (cases "bn \<in> logged d s")
    case True
    then show ?thesis using log_write_old [OF lb True sp] inv wf by (auto simp: insert_absorb)
  next
    case False
    define u where "u = upd_log d (\<lambda>l. l\<lparr>lh_block := (lh_block l)(nat (lh_n l) := bn), lh_n := lh_n l + 1\<rparr>) (bpin b s)"
    note p = pin_laws(1) [OF wf c]
    have lgs: "logs (bpin b s) = logs s" using logs_more(1) p by blast
    have lu: "logs u d = (logs s d)\<lparr>lh_block := (lh_block (logs s d))(nat (lh_n (logs s d)) := bn), lh_n := lh_n (logs s d) + 1\<rparr>"
      by (simp add: u_def lgs)
    have nn: "nat (lh_n (logs s d) + 1) = Suc (nat (lh_n (logs s d)))" using n0 by simp
    have im: "(lh_block (logs s d))(nat (lh_n (logs s d)) := bn) ` {..<nat (lh_n (logs s d))} = logged d s"
      by (auto simp: logged_def)
    have lg: "logged d u = insert bn (logged d s)"
      unfolding im [symmetric] logged_def [of d u] lu by (simp add: nn lessThan_Suc del: fun_upd_apply) (simp only: fun_upd_same)
    have more: "lbio.more u = lbio.more s" "cached s j c \<Longrightarrow> cached u j c" for j c
      using p logs_more(2) [of "bpin b s" s] by (simp_all add: u_def) (simp add: upd_log_def)
    have vu: "holder u = holder s" "view u = view s" "disks u = disks s" "refs u = (refs s)((d, bn) := refs s (d, bn) + 1)" "cache_ok u"
      using p by (simp_all add: u_def cview_eq_iff v_pin_def bpin_def)
    have "inj_on (lh_block (logs u d)) {..<nat (lh_n (logs u d))}"
      using inv im False by (auto simp: lu nn lessThan_Suc log_inv_def inj_on_def logged_def)
    moreover have "\<forall>x \<in> logged d u. refs u (d, x) \<noteq> 0"
      using inv h by (simp add: lg vu log_inv_def)
    ultimately have "log_inv d u" using n0 by (simp add: log_inv_def lu)
    then show ?thesis using log_write_new [OF lb False n0 sp] lg vu False lu more by (auto simp: u_def)
  qed
qed

text \<open>Inside a transaction with log space, \<open>log_write\<close> of a cached block adds its number to
  the set the header names; a block already logged changes nothing (absorption), a new one
  is pinned once and takes one slot, and the header stays a duplicate-free list of
  referenced blocks.
\<close>

lemma log_write_absorbs:
  assumes inv: "log_inv d s" and wf: "cache_ok s" and c: "cached s (d, bn) b" and h: "refs s (d, bn) + 1 \<noteq> 0"
    and sp: "lh_n (logs s d) < int LOGSIZE" "lh_n (logs s d) < l_size (logs s d) - 1" "0 < l_outstanding (logs s d)"
  shows "\<exists>t. log_write b s = (Inr (), t) \<and> log_inv d t \<and> cache_ok t \<and> logged d t = insert bn (logged d s) \<and>
    view t = view s \<and> disks t = disks s \<and>
    (if bn \<in> logged d s then t = s
     else lh_n (logs t d) = lh_n (logs s d) + 1 \<and> refs t = (refs s)((d, bn) := refs s (d, bn) + 1))"
  using log_write_effect [OF assms] by (elim exE conjE) (intro exI conjI, assumption+)

section \<open>Reservation of log space\<close>

lemma logs_same:
  "logs (snd (bread pid k s)) = logs s" "logs (snd (bwrite pid b s)) = logs s" "logs (snd (brelse pid b s)) = logs s"
  "logs (set_data b x s) = logs s" "logs (bunpin b s) = logs s" "logs (bpin b s) = logs s"
  by (rule logs_more(1), rule bio_more)+

lemma logs_bindS:
  "(\<And>x s. logs (snd (f x s)) = logs s) \<Longrightarrow> logs (snd (bindS m f)) = logs (snd m)"
  by (cases m; cases "fst m") auto

lemma logs_forS:
  "(\<And>i s. logs (snd (f i s)) = logs s) \<Longrightarrow> logs (snd (forS f is s)) = logs s"
  by (induction "is" arbitrary: s) (simp_all add: logs_bindS)

lemma log_loops_same:
  "logs (snd (install_trans pid d s)) = logs s" "logs (snd (write_log pid d s)) = logs s"
  "logs (snd (write_head pid d s)) = logs s"
proof -
  have "logs (snd (install_one pid d i s)) = logs s" "logs (snd (write_log_one pid d i s)) = logs s" for i and s :: "'a lbio_scheme"
    by (simp_all add: install_one_def write_log_one_def logs_bindS logs_same)
  then show "logs (snd (install_trans pid d s)) = logs s" "logs (snd (write_log pid d s)) = logs s"
    by (simp_all add: install_trans_def write_log_def logs_forS)
qed (simp add: write_head_def logs_bindS logs_same)

lemma commit_logs:
  assumes "commit pid d s = (Inr (), t)" and "0 \<le> lh_n (logs s d)"
  shows "logs t = (logs s)(d := (logs s d)\<lparr>lh_n := 0\<rparr>)"
proof (cases "lh_n (logs s d) > 0")
  case False
  then have "t = s" "lh_n (logs s d) = 0" using assms by (auto simp: commit_def)
  then show ?thesis by (metis dlog.surjective dlog.update_convs(5) fun_upd_triv)
next
  case True
  then obtain u v w where "write_log pid d s = (Inr (), u)" "write_head pid d u = (Inr (), v)"
    "install_trans pid d v = (Inr (), w)" "write_head pid d (upd_log d (\<lambda>l. l\<lparr>lh_n := 0\<rparr>) w) = (Inr (), t)"
    using assms(1) by (auto simp: commit_def bindS_eq_Inr clear_log_def)
  then show ?thesis
    using log_loops_same(2) [of pid d s] log_loops_same(3) [of pid d u] log_loops_same(1) [of pid d v]
      log_loops_same(3) [of pid d "upd_log d (\<lambda>l. l\<lparr>lh_n := 0\<rparr>) w"] by simp
qed

text \<open>
  System calls run concurrently between \<open>begin_op\<close> and \<open>end_op\<close>; each may log ten new
  blocks.  The list holds what the running ones may still log.
\<close>

inductive log_step :: "u32 \<Rightarrow> lbio \<times> nat list \<Rightarrow> lbio \<times> nat list \<Rightarrow> bool" for d where
  ls_begin: "begin_op d s = (Inr (), t) \<Longrightarrow> log_step d (s, bs) (t, MAXOPBLOCKS # bs)"
| ls_write: "i < length bs \<Longrightarrow> bs ! i = Suc m \<Longrightarrow> b_dev (bufs s b) = d \<Longrightarrow> log_write b s = (Inr (), t) \<Longrightarrow>
    log_step d (s, bs) (t, bs[i := m])"
| ls_end: "end_op_enter d s = (Inr c, t) \<Longrightarrow> log_step d (s, xs @ m # ys) (t, xs @ ys)"
| ls_commit: "l_committing (logs s d) \<Longrightarrow> commit pid d s = (Inr (), t) \<Longrightarrow>
    log_step d (s, bs) (upd_log d (\<lambda>l. l\<lparr>l_committing := False\<rparr>) t, bs)"
| ls_cache: "bio.more t = bio.more s \<Longrightarrow> log_step d (s, bs) (t, bs)"

inductive_cases log_stepE: "log_step d p q"

definition reserved :: "u32 \<Rightarrow> lbio \<times> nat list \<Rightarrow> bool" where
  "reserved d p \<longleftrightarrow> (let l = logs (fst p) d in 0 \<le> lh_n l \<and> l_outstanding l = int (length (snd p)) \<and>
     (\<forall>b \<in> set (snd p). b \<le> MAXOPBLOCKS) \<and> lh_n l + int (sum_list (snd p)) \<le> int LOGSIZE)"

lemma log_write_logs:
  assumes "log_write b s = (Inr (), t)" and "b_dev (bufs s b) = d"
  shows "lh_n (logs t d) = lh_n (logs s d) \<or> lh_n (logs t d) = lh_n (logs s d) + 1"
    "l_outstanding (logs t d) = l_outstanding (logs s d)" "lh_n (logs s d) < int LOGSIZE"
  using assms by (auto simp: log_write_def Let_def logs_same split: if_splits)

lemma sum_list_upd_less:
  "i < length bs \<Longrightarrow> bs ! i = Suc m \<Longrightarrow> Suc (sum_list (bs[i := m])) = sum_list bs"
  for bs :: "nat list"
  by (induction bs arbitrary: i) (auto simp: nth_Cons split: nat.splits)

lemma reserved_step:
  assumes "log_step d p q" and "reserved d p"
  shows "reserved d q"
  using assms(1)
proof cases
  case (ls_begin s t bs)
  have sb: "sum_list bs \<le> length bs * MAXOPBLOCKS" if "\<forall>b \<in> set bs. b \<le> MAXOPBLOCKS"
    using that by (induction bs) auto
  show ?thesis
    using assms(2) ls_begin sb
    by (auto simp: reserved_def begin_op_def Let_def MAXOPBLOCKS_def LOGSIZE_def split: if_splits)
next
  case (ls_write i bs m s b t)
  have "\<forall>x \<in> set (bs[i := m]). x \<le> MAXOPBLOCKS"
    using assms(2) ls_write by (auto simp: reserved_def Let_def dest!: set_update_subset_insert [THEN subsetD]) (metis Suc_leD nth_mem)
  then show ?thesis
    using assms(2) ls_write log_write_logs [OF ls_write(6,5)] sum_list_upd_less [OF ls_write(3,4)]
    by (auto simp: reserved_def Let_def)
next
  case (ls_end s c t xs m ys)
  then show ?thesis
    using assms(2) by (auto simp: reserved_def end_op_enter_def Let_def split: if_splits)
next
  case (ls_commit s pid t bs)
  then show ?thesis
    using assms(2) commit_logs [OF ls_commit(4)] by (auto simp: reserved_def Let_def)
next
  case (ls_cache t s bs)
  then show ?thesis using assms(2) logs_more(1) [OF ls_cache(3)] by (simp add: reserved_def)
qed


text \<open>C16: whatever the interleaving of system calls, log writes, commits and cache operations,
  the reservation of \<open>begin_op\<close> keeps the blocks logged together with the blocks that the
  running system calls may still log (ten each at the start) within the header's array, so a
  \<open>log_write\<close> inside its budget never runs past it.
\<close>

theorem log_space_reserved:
  assumes "(log_step d)\<^sup>*\<^sup>* (s, []) (t, bs)" and "lh_n (logs s d) = 0" and "l_outstanding (logs s d) = 0"
  shows "0 \<le> lh_n (logs t d) \<and> lh_n (logs t d) + int (sum_list bs) \<le> int LOGSIZE \<and>
    l_outstanding (logs t d) = int (length bs)"
proof -
  have "reserved d (s, [])" using assms(2,3) by (simp add: reserved_def)
  with assms(1) have "reserved d (t, bs)" by (induction rule: rtranclp_induct) (auto intro: reserved_step)
  then show ?thesis by (simp add: reserved_def Let_def)
qed

lemma reboot_logs: "logs (reboot m) = (\<lambda>_. bss_log)"
  unfolding reboot_def by (rule trans [OF logs_more(1) [OF binit_wf(7)]]) simp_all

text \<open>Three system calls that start on an empty log.\<close>

lemma three_begin:
  assumes "logs s d = bss_log\<lparr>l_size := sz\<rparr>"
  shows "\<exists>t. (log_step d)\<^sup>*\<^sup>* (s, []) (t, [10, 10, 10]) \<and> logs t d = bss_log\<lparr>l_size := sz, l_outstanding := 3\<rparr>"
proof -
  let ?b = "\<lambda>n. upd_log d (\<lambda>l. l\<lparr>l_outstanding := n\<rparr>) s"
  have one: "begin_op d s = (Inr (), ?b 1)" "begin_op d (?b 1) = (Inr (), ?b 2)" "begin_op d (?b 2) = (Inr (), ?b 3)"
    by (simp_all add: begin_op_def assms bss_log_def MAXOPBLOCKS_def LOGSIZE_def upd_log_def)
  have "log_step d (s, []) (?b 1, [10])" "log_step d (?b 1, [10]) (?b 2, [10, 10])"
    "log_step d (?b 2, [10, 10]) (?b 3, [10, 10, 10])"
    using one [THEN ls_begin] by (simp_all add: MAXOPBLOCKS_def)
  then have "(log_step d)\<^sup>*\<^sup>* (s, []) (?b 3, [10, 10, 10])"
    by (meson converse_rtranclp_into_rtranclp rtranclp.rtrancl_refl)
  moreover have "logs (?b 3) d = bss_log\<lparr>l_size := sz, l_outstanding := 3\<rparr>" by (simp add: assms bss_log_def)
  ultimately show ?thesis by blast
qed

theorem log_space_reserved_witness:
  "\<exists>t. (log_step 0)\<^sup>*\<^sup>* (reboot (\<lambda>_ _. 0), []) (t, [10, 10, 10]) \<and> lh_n (logs t 0) + 30 \<le> int LOGSIZE"
proof -
  define s where "s = reboot (\<lambda>_ _. 0)"
  have l: "logs s 0 = bss_log" by (simp add: s_def reboot_logs)
  have "logs s 0 = bss_log\<lparr>l_size := 0\<rparr>" by (simp add: l bss_log_def)
  from three_begin [OF this] obtain t where t: "(log_step 0)\<^sup>*\<^sup>* (s, []) (t, [10, 10, 10])" by blast
  have "lh_n (logs t 0) + int (sum_list [10, 10, 10]) \<le> int LOGSIZE"
    using log_space_reserved [OF t] l by (simp add: bss_log_def)
  then show ?thesis using t by (auto simp: s_def)
qed

text \<open>
  One more logged block: some buffer carries a block the header does not name.
\<close>

lemma log_fills:
  assumes "logs s d = l" and "l_outstanding l = 3" and "lh_n l = 0" "l_size l = 30" and "n \<le> 29"
  shows "\<exists>t bs. (log_step d)\<^sup>*\<^sup>* (s, [10, 10, 10]) (t, bs) \<and> lh_n (logs t d) = int n \<and> l_outstanding (logs t d) = 3 \<and>
    l_size (logs t d) = l_size l \<and> logged d t \<subseteq> of_nat ` {..<n} \<and> length bs = 3 \<and> sum_list bs = 30 - n"
  using assms(5)
proof (induction n)
  case 0
  show ?case
    by (rule exI [of _ s], rule exI [of _ "[10, 10, 10]"]) (use assms in \<open>simp add: logged_def\<close>)
next
  case (Suc n)
  then obtain t bs where t: "(log_step d)\<^sup>*\<^sup>* (s, [10, 10, 10]) (t, bs)" "lh_n (logs t d) = int n" "l_outstanding (logs t d) = 3"
    "l_size (logs t d) = l_size l" "logged d t \<subseteq> of_nat ` {..<n}" "length bs = 3" "sum_list bs = 30 - n" by auto
  define u where "u = t\<lparr>bufs := (bufs t)(0 := (bufs t 0)\<lparr>b_dev := d, b_blockno := of_nat n\<rparr>)\<rparr>"
  have u: "logs u = logs t" "b_dev (bufs u 0) = d" "b_blockno (bufs u 0) = of_nat n" "logged d u = logged d t"
    by (simp_all add: u_def logged_def)
  have "(of_nat n :: u32) \<noteq> of_nat i" if "i < n" for i
  proof
    assume "(of_nat n :: u32) = of_nat i"
    then have "unat (of_nat n :: u32) = unat (of_nat i :: u32)" by simp
    then show False using that Suc.prems by (simp add: unat_of_nat)
  qed
  then have "of_nat n \<notin> (of_nat :: nat \<Rightarrow> u32) ` {..<n}" by blast
  then have nl: "of_nat n \<notin> logged d u" using t(5) u(4) by blast
  define v where "v = upd_log d (\<lambda>l. l\<lparr>lh_block := (lh_block l)(nat (lh_n l) := of_nat n), lh_n := lh_n l + 1\<rparr>) (bpin 0 u)"
  have w: "log_write 0 u = (Inr (), v)"
    unfolding v_def by (rule log_write_new [OF u(2,3) nl]) (use u t(2-4) assms(4) Suc.prems in \<open>simp_all add: LOGSIZE_def\<close>)
  have "sum_list bs \<noteq> 0" using t(7) Suc.prems by simp
  then obtain x where "x \<in> set bs" "x \<noteq> 0" by auto
  then obtain i m where i: "i < length bs" "bs ! i = Suc m" by (metis in_set_conv_nth not0_implies_Suc)
  have "log_step d (t, bs) (u, bs)" by (rule ls_cache) (simp add: u_def)
  moreover have "log_step d (u, bs) (v, bs[i := m])" by (rule ls_write [OF i u(2) w])
  ultimately have "(log_step d)\<^sup>*\<^sup>* (s, [10, 10, 10]) (v, bs[i := m])"
    using t(1) by (meson rtranclp.rtrancl_into_rtrancl)
  moreover have "logs (bpin 0 u) = logs t" by (rule trans [OF logs_same(6) u(1)])
  then have "lh_n (logs v d) = int (Suc n)" "l_outstanding (logs v d) = 3" "l_size (logs v d) = l_size l"
    "logged d v = insert (of_nat n) (logged d t)"
    using t(2-4) by (auto simp: v_def logged_def lessThan_Suc nat_add_distrib)
  ultimately show ?case using t(5-7) i sum_list_upd_less [OF i] Suc.prems
    by (intro exI [of _ v] exI [of _ "bs[i := m]"]) (auto simp: lessThan_Suc)
qed


text \<open>The space \<open>begin_op\<close> reserves is not there: with the log of thirty blocks that \<open>mkfs\<close>
  writes, three system calls are admitted, and after twenty-nine logged blocks, with budget
  left, the next \<open>log_write\<close> panics with "too big a transaction".
\<close>

lemma log_reservation_overrun:
  assumes "logs s d = bss_log\<lparr>l_size := 30\<rparr>"
  shows "\<exists>t bs. (log_step d)\<^sup>*\<^sup>* (s, []) (t, bs) \<and> length bs = 3 \<and> 0 < sum_list bs \<and> lh_n (logs t d) = 29 \<and>
    (\<forall>b. b_dev (bufs t b) = d \<longrightarrow> log_write b t = (Inl (Panic ''too big a transaction''), t))"
proof -
  from three_begin [OF assms] obtain u where u: "(log_step d)\<^sup>*\<^sup>* (s, []) (u, [10, 10, 10])"
    "logs u d = bss_log\<lparr>l_size := 30, l_outstanding := 3\<rparr>" by blast
  from log_fills [OF u(2), of 29] obtain t bs where t: "(log_step d)\<^sup>*\<^sup>* (u, [10, 10, 10]) (t, bs)" "lh_n (logs t d) = 29"
    "l_size (logs t d) = 30" "length bs = 3" "sum_list bs = 1" by (auto simp: bss_log_def)
  have "log_write b t = (Inl (Panic ''too big a transaction''), t)" if "b_dev (bufs t b) = d" for b
    using t(2,3) that by (simp add: log_write_def Let_def)
  moreover have "(log_step d)\<^sup>*\<^sup>* (s, []) (t, bs)" using u(1) t(1) by (rule rtranclp_trans)
  ultimately show ?thesis using t by (intro exI [of _ t] exI [of _ bs]) simp
qed

section \<open>Crash safety\<close>

text \<open>C1: a commit of up to twenty-nine pinned blocks returns with every logged block on its
  home place and the log empty; and if the machine crashes after any number \<open>j\<close> of the
  commit's disk writes, the next boot (\<open>binit\<close>, then \<open>initlog\<close>) succeeds and leaves on the
  disk either all the old or all the new contents of the blocks outside the log.
\<close>

theorem commit_survives_crash:
  assumes "log_room d (used_blocks s) s" and "0 < lh_n (logs s d)" and "lh_n (logs s d) < int NBUF"
    and "sint (get32 (disks s (head_key d s)) 0) = 0"
  shows "\<exists>t ws. commit pid d s = (Inr (), t) \<and> cache_wf t \<and> lh_n (logs t d) = 0 \<and> writes t = writes s @ ws \<and>
    new_blocks d s (disks t) \<and> (\<forall>k. k \<notin> set (log_keys d s) \<longrightarrow> view t k = view s k) \<and>
    (\<forall>j \<le> length ws. \<exists>u. initlog pid' d (l_start (logs s d)) nlog (reboot (play (take j ws) (disks s))) = (Inr (), u) \<and>
       lh_n (logs u d) = 0 \<and> (old_blocks d s (disks u) \<or> new_blocks d s (disks u)))"
proof -
  let ?ws = "commit_writes d s" and ?start = "l_start (logs s d)"
  note pre = redo_prefix [OF assms]
  have hd: "(d, ?start) \<in> set (log_keys d s)" by (simp add: log_keys_def head_key_def)
  have boot: "\<exists>u. initlog pid' d ?start nlog (reboot (play (take j ?ws) (disks s))) = (Inr (), u) \<and>
       lh_n (logs u d) = 0 \<and> (old_blocks d s (disks u) \<or> new_blocks d s (disks u))" for j
  proof -
    let ?m = "play (take j ?ws) (disks s)"
    have "disk_log_ok d ?start (disks (reboot ?m))" using pre [of j] by (simp add: reboot_idle(2))
    from initlog_effect [OF reboot_idle(1) this, of pid' nlog] obtain u where
      u: "initlog pid' d ?start nlog (reboot ?m) = (Inr (), u)" "lh_n (logs u d) = 0"
        "\<forall>k. k \<noteq> (d, ?start) \<longrightarrow> disks u k = redo d ?start ?m k" by (auto simp: reboot_idle(2))
    have "old_blocks d s (disks u) \<or> new_blocks d s (disks u)"
      using pre [of j] u(3) hd unfolding old_blocks_def new_blocks_def by metis
    then show ?thesis using u by blast
  qed
  from commit_effect [OF assms(1,2), of pid] obtain t where
    t: "commit pid d s = (Inr (), t)" "cache_wf t" "logs t = (logs s)(d := (logs s d)\<lparr>lh_n := 0\<rparr>)"
      "\<forall>k. k \<notin> set (log_keys d s) \<longrightarrow> view t k = view s k" "writes t = writes s @ ?ws" "disks t = play ?ws (disks s)"
    by blast
  have "new_blocks d s (disks t)"
  proof -
    note p = log_prefix [OF assms(1)]
    have "disks t k = (if k \<in> set (home_keys d s) then view s k else disks s k)" if k: "k \<notin> set (log_keys d s)" for k
    proof -
      have h: "k \<noteq> head_key d s" using k by (auto simp: log_keys_def)
      show ?thesis
      proof (cases "k \<in> set (home_keys d s)")
        case True
        then obtain i where "i < nat (lh_n (logs s d))" "k = home_key d i s" by (auto simp: home_keys_def)
        then show ?thesis using p(6) h True by (simp add: t(6) commit_writes_def)
      qed (use p(4) [OF k] p(7) h in \<open>simp add: t(6) commit_writes_def\<close>)
    qed
    then show ?thesis unfolding new_blocks_def by blast
  qed
  then show ?thesis using t boot by (intro exI [of _ t] exI [of _ ?ws]) simp
qed

text \<open>A dirty pinned block in an otherwise idle cache.\<close>

lemma dirty_block:
  assumes "idle s"
  shows "\<exists>u. cache_wf u \<and> refs u = (\<lambda>_. 0)(k := 1) \<and> holder u = (\<lambda>_. None) \<and> view u = (disks s)(k := x) \<and>
    disks u = disks s \<and> bio.more u = bio.more s"
proof -
  have wf: "cache_ok s" "settled (cview s)" and z: "refs s = (\<lambda>_. 0)" "holder s = (\<lambda>_. None)" "view s = disks s"
    using assms idle_view [OF assms] by (simp_all add: idle_def cache_wf_settled)
  have "readable (cview s) k" by (simp add: readable_def z NBUF_def)
  from bread_law [OF wf this, of 1] obtain b t where t: "bread 1 k s = (Inr b, t)" "cache_ok t"
    "cview t = v_read 1 k (cview s)" "bio.more t = bio.more s" "cached t k b" by blast
  note p = set_data_law [OF t(2,5), of x]
  let ?p = "set_data b x t"
  have c: "cached ?p k b" using p t(5) by blast
  note q = pin_laws(1) [OF conjunct1 [OF p] c]
  have "cached (bpin b ?p) k b" using q c by blast
  moreover have "holder (bpin b ?p) k = Some 1" using q p t(3) by (simp add: cview_eq_iff v_defs)
  ultimately obtain u where u: "cache_ok u" "cview u = v_release k (cview (bpin b ?p))" "bio.more u = bio.more (bpin b ?p)"
    using brelse_law [OF conjunct1 [OF q], of k b 1] by auto
  have f: "refs u = (\<lambda>_. 0)(k := 1)" "holder u = (\<lambda>_. None)" "view u = (disks s)(k := x)" "disks u = disks s"
    using u(2) q p t(3) z by (auto simp: cview_eq_iff v_defs)
  moreover have "settled (cview u)" by (simp add: settled_def f)
  ultimately show ?thesis using u(1,3) q p t(4) by (auto simp: cache_wf_settled)
qed

lemma one_logged_block:
  fixes x :: block
  shows "\<exists>s :: lbio. log_room 0 (used_blocks s) s \<and> logs s 0 = bss_log\<lparr>l_start := 2, lh_n := 1, lh_block := \<lambda>_. 100\<rparr> \<and>
    disks s = (\<lambda>_ _. 0) \<and> view s (0, 100) = x \<and> set (home_keys 0 s) = {(0, 100)}"
proof -
  from dirty_block [OF reboot_idle(1) [of "\<lambda>_ _. 0"], of "(0, 100)" x] obtain u :: lbio where
    u: "cache_wf u" "refs u = (\<lambda>_. 0)((0, 100) := 1)" "holder u = (\<lambda>_. None)" "view u = (\<lambda>_ _. 0)((0, 100) := x)"
      "disks u = (\<lambda>_ _. 0)" "bio.more u = bio.more (reboot (\<lambda>_ _. 0))" by (auto simp: reboot_idle(2))
  let ?s = "upd_log 0 (\<lambda>_. bss_log\<lparr>l_start := 2, lh_n := 1, lh_block := \<lambda>_. 100\<rparr>) u"
  have lk: "log_keys 0 ?s = [(0, 2), (0, 3)]" "home_keys 0 ?s = [(0, 100)]"
    by (simp_all add: log_keys_def home_keys_def head_key_def slot_key_def home_key_def bss_log_def)
  have ub: "used_blocks ?s = {(0, 100)}" by (auto simp: used_blocks_def u)
  have "log_room 0 (used_blocks ?s) ?s"
    using u(1) by (simp add: log_room_def lk ub NBUF_def u cache_wf_settled)
  then show ?thesis using lk u by (intro exI [of _ ?s]) simp
qed

theorem commit_survives_crash_witness:
  "\<exists>(s :: lbio) t ws. commit 1 0 s = (Inr (), t) \<and> disks t (0, 100) = (\<lambda>_. 7) \<and>
    (\<exists>u. initlog 1 0 2 30 (reboot (play (take 1 ws) (disks s))) = (Inr (), u))"
proof -
  obtain s :: lbio where s: "log_room 0 (used_blocks s) s" "logs s 0 = bss_log\<lparr>l_start := 2, lh_n := 1, lh_block := \<lambda>_. 100\<rparr>"
    "disks s = (\<lambda>_ _. 0)" "view s (0, 100) = (\<lambda>_. 7)" "set (home_keys 0 s) = {(0, 100)}"
    using one_logged_block [of "\<lambda>_. 7"] by blast
  have e: "sint (get32 (disks s (head_key 0 s)) 0) = 0" by (simp add: s(3) get32_def)
  have n: "0 < lh_n (logs s 0)" "lh_n (logs s 0) < int NBUF" and st: "l_start (logs s 0) = 2"
    by (simp_all add: s(2) NBUF_def)
  from commit_survives_crash [OF s(1) n e, of 1 1 30, unfolded st] obtain t ws where
    t: "commit 1 0 s = (Inr (), t)" "new_blocks 0 s (disks t)" "writes t = writes s @ ws"
      "\<forall>j \<le> length ws. \<exists>u. initlog 1 0 2 30 (reboot (play (take j ws) (disks s))) = (Inr (), u)"
    by blast
  have "(0, 100) \<notin> set (log_keys 0 s)" using log_keys_disjoint [OF s(1)] s(5) by simp
  then have "disks t (0, 100) = (\<lambda>_. 7)" using t(2) s(4,5) by (simp add: new_blocks_def)
  moreover have "\<exists>u. initlog 1 0 2 30 (reboot (play (take 1 ws) (disks s))) = (Inr (), u)"
  proof (cases "ws = []")
    case True
    then show ?thesis using t(4) by auto
  next
    case False
    then have "1 \<le> length ws" by (cases ws) auto
    then show ?thesis using t(4) by blast
  qed
  ultimately show ?thesis using t(1) by blast
qed



end
