(* ===== verification/Xv7_Fs.thy ===== *)
theory Xv7_Fs
  imports Xv7_Recovery
begin

text \<open>
  The file system of \<open>xv7/kernel/fs.c\<close>: block allocation, the inode cache, the block map of a
  file, reading and writing, directories and path names.  The state extends the log's with
  the superblock and the table of in-memory inodes; an inode pointer is its index in that
  table.  The calling process is the argument \<open>pid\<close>, which owns the locks it takes.
  What is proved about them is in \<open>Xv7_Fs_Properties\<close>.
\<close>

section \<open>State\<close>

definition BSIZE :: nat where "BSIZE = 1024"
definition BPB :: nat where "BPB = BSIZE * 8"
definition NDIRECT :: nat where "NDIRECT = 11"
definition NINDIRECT :: nat where "NINDIRECT = BSIZE div 4"
definition NDOUBLE_INDIRECT :: nat where "NDOUBLE_INDIRECT = NINDIRECT * NINDIRECT"
definition MAXFILE :: nat where "MAXFILE = NDIRECT + NINDIRECT + NDOUBLE_INDIRECT"
definition IPB :: nat where "IPB = BSIZE div 64"
definition DIRSIZ :: nat where "DIRSIZ = 14"
definition NINODE :: nat where "NINODE = 50"
definition ROOTINO :: u32 where "ROOTINO = 1"
definition ROOTDEV :: u32 where "ROOTDEV = 0"
definition FSMAGIC :: u32 where "FSMAGIC = 0x10203040"
definition T_DIR :: u16 where "T_DIR = 1"

record superblock =
  sb_magic :: u32
  sb_size :: u32
  sb_nblocks :: u32
  sb_ninodes :: u32
  sb_nlog :: u32
  sb_logstart :: u32
  sb_inodestart :: u32
  sb_bmapstart :: u32

record inode =
  i_dev :: u32
  i_inum :: u32
  i_ref :: int
  i_pid :: "int option"
  i_valid :: bool
  i_type :: u16
  i_major :: u16
  i_minor :: u16
  i_nlink :: u16
  i_size :: u32
  i_addrs :: "nat \<Rightarrow> u32"

record fs = lbio +
  sb :: superblock
  icache :: "nat \<Rightarrow> inode"

definition upd_inode :: "nat \<Rightarrow> (inode \<Rightarrow> inode) \<Rightarrow> 'a fs_scheme \<Rightarrow> 'a fs_scheme" where
  "upd_inode ip f s = s\<lparr>icache := (icache s)(ip := f (icache s ip))\<rparr>"

section \<open>Blocks\<close>

definition BBLOCK :: "nat \<Rightarrow> superblock \<Rightarrow> u32" where
  "BBLOCK b S = of_nat (b div BPB) + sb_bmapstart S"

definition IBLOCK :: "u32 \<Rightarrow> superblock \<Rightarrow> u32" where
  "IBLOCK i S = of_nat (unat i div IPB) + sb_inodestart S"

text \<open>\<open>memmove(sb, bp->data, sizeof(*sb))\<close>, field by field.\<close>

definition decode_sb :: "block \<Rightarrow> superblock" where
  "decode_sb b = \<lparr>sb_magic = get32 b 0, sb_size = get32 b 4, sb_nblocks = get32 b 8, sb_ninodes = get32 b 12,
     sb_nlog = get32 b 16, sb_logstart = get32 b 20, sb_inodestart = get32 b 24, sb_bmapstart = get32 b 28\<rparr>"

definition readsb :: "int \<Rightarrow> u32 \<Rightarrow> 'a fs_scheme \<Rightarrow> (kfault, superblock, 'a fs_scheme) outcome" where
  "readsb pid d s =
     bindS (bread pid (d, 1) s) (\<lambda>bp s.
       let S = decode_sb (b_data (bufs s bp)) in bindS (brelse pid bp s) (\<lambda>_ s. (Inr S, s)))"

definition fsinit :: "int \<Rightarrow> u32 \<Rightarrow> 'a fs_scheme \<Rightarrow> (kfault, unit, 'a fs_scheme) outcome" where
  "fsinit pid d s =
     bindS (readsb pid d s) (\<lambda>S s.
       let s = s\<lparr>sb := S\<rparr>
       in if sb_magic S \<noteq> FSMAGIC then (Inl (Panic ''invalid file system''), s)
          else initlog pid d (sb_logstart S) (sb_nlog S) s)"

text \<open>Store into a buffer, log it, release it.\<close>

definition log_put :: "int \<Rightarrow> u64 \<Rightarrow> block \<Rightarrow> 'a lbio_scheme \<Rightarrow> (kfault, unit, 'a lbio_scheme) outcome" where
  "log_put pid bp x s = bindS (log_write bp (set_data bp x s)) (\<lambda>_ s. brelse pid bp s)"

definition bzero :: "int \<Rightarrow> u32 \<Rightarrow> u32 \<Rightarrow> 'a lbio_scheme \<Rightarrow> (kfault, unit, 'a lbio_scheme) outcome" where
  "bzero pid d bno s = bindS (bread pid (d, bno) s) (\<lambda>bp s. log_put pid bp (\<lambda>_. 0) s)"

text \<open>The bit of block \<open>bi\<close> of a bitmap block.\<close>

definition bm_mask :: "nat \<Rightarrow> u8" where
  "bm_mask bi = push_bit (bi mod 8) 1"

definition bm_free :: "block \<Rightarrow> nat \<Rightarrow> bool" where
  "bm_free x bi \<longleftrightarrow> x (bi div 8) AND bm_mask bi = 0"

definition bm_set :: "nat \<Rightarrow> block \<Rightarrow> block" where
  "bm_set bi x = x(bi div 8 := x (bi div 8) OR bm_mask bi)"

definition bm_clear :: "nat \<Rightarrow> block \<Rightarrow> block" where
  "bm_clear bi x = x(bi div 8 := x (bi div 8) AND NOT (bm_mask bi))"

text \<open>
  One turn of the outer loop of \<open>balloc\<close>, over the bitmap block of the blocks from \<open>b\<close> on:
  the inner loop looks for the first clear bit.
\<close>

definition balloc_in :: "int \<Rightarrow> u32 \<Rightarrow> nat \<Rightarrow> 'a fs_scheme \<Rightarrow> (kfault, u32 option, 'a fs_scheme) outcome" where
  "balloc_in pid d b s =
     bindS (bread pid (d, BBLOCK b (sb s)) s) (\<lambda>bp s.
       let x = b_data (bufs s bp)
       in case List.find (bm_free x) [0..<min BPB (unat (sb_size (sb s)) - b)] of
            Some bi \<Rightarrow>
              bindS (log_put pid bp (bm_set bi x) s) (\<lambda>_ s.
              bindS (bzero pid d (of_nat (b + bi)) s) (\<lambda>_ s. (Inr (Some (of_nat (b + bi))), s)))
          | None \<Rightarrow> bindS (brelse pid bp s) (\<lambda>_ s. (Inr None, s)))"

fun balloc_loop :: "int \<Rightarrow> u32 \<Rightarrow> nat list \<Rightarrow> 'a fs_scheme \<Rightarrow> (kfault, u32, 'a fs_scheme) outcome" where
  "balloc_loop pid d [] s = (Inl (Panic ''balloc: out of blocks''), s)"
| "balloc_loop pid d (b # bs) s =
     bindS (balloc_in pid d b s) (\<lambda>r s. case r of Some a \<Rightarrow> (Inr a, s) | None \<Rightarrow> balloc_loop pid d bs s)"

text \<open>\<open>for (b = 0; b < sb.size; b += BPB)\<close>\<close>

definition group_starts :: "nat \<Rightarrow> nat list" where
  "group_starts n = map (\<lambda>j. j * BPB) [0..<(n + BPB - 1) div BPB]"

definition balloc :: "int \<Rightarrow> u32 \<Rightarrow> 'a fs_scheme \<Rightarrow> (kfault, u32, 'a fs_scheme) outcome" where
  "balloc pid d s = balloc_loop pid d (group_starts (unat (sb_size (sb s)))) s"

definition bfree :: "int \<Rightarrow> u32 \<Rightarrow> u32 \<Rightarrow> 'a fs_scheme \<Rightarrow> (kfault, unit, 'a fs_scheme) outcome" where
  "bfree pid d b s =
     bindS (bread pid (d, BBLOCK (unat b) (sb s)) s) (\<lambda>bp s.
       let x = b_data (bufs s bp); bi = unat b mod BPB
       in if bm_free x bi then (Inl (Panic ''freeing free block''), s)
          else log_put pid bp (bm_clear bi x) s)"

section \<open>Inodes\<close>

text \<open>16-bit fields, and an inode in its block at \<open>64 * (inum % IPB)\<close>.\<close>

definition get16 :: "block \<Rightarrow> nat \<Rightarrow> u16" where
  "get16 b a = ucast (b a) OR push_bit 8 (ucast (b (a + 1)))"

definition put16 :: "nat \<Rightarrow> u16 \<Rightarrow> block \<Rightarrow> block" where
  "put16 a v b = b(a := ucast v, a + 1 := ucast (drop_bit 8 v))"

definition dinode_at :: "u32 \<Rightarrow> nat" where
  "dinode_at inum = 64 * (unat inum mod IPB)"

definition put_dinode :: "inode \<Rightarrow> block \<Rightarrow> block" where
  "put_dinode i x =
     (let a = dinode_at (i_inum i);
          x = put16 a (i_type i) x;
          x = put16 (a + 2) (i_major i) x;
          x = put16 (a + 4) (i_minor i) x;
          x = put16 (a + 6) (i_nlink i) x;
          x = put32 (a + 8) (i_size i) x
      in fold (\<lambda>k. put32 (a + 12 + 4 * k) (i_addrs i k)) [0..<NDIRECT + 2] x)"

definition get_dinode :: "block \<Rightarrow> inode \<Rightarrow> inode" where
  "get_dinode x i =
     (let a = dinode_at (i_inum i)
      in i\<lparr>i_type := get16 x a, i_major := get16 x (a + 2), i_minor := get16 x (a + 4),
           i_nlink := get16 x (a + 6), i_size := get32 x (a + 8),
           i_addrs := \<lambda>k. if k < NDIRECT + 2 then get32 x (a + 12 + 4 * k) else i_addrs i k\<rparr>)"

definition iinit :: "'a fs_scheme \<Rightarrow> 'a fs_scheme" where
  "iinit s = fold (\<lambda>i. upd_inode i (\<lambda>x. x\<lparr>i_pid := None\<rparr>)) [0..<NINODE] s"

text \<open>\<open>iget\<close>: the entry of the inode, or the first free entry.\<close>

definition iget :: "u32 \<Rightarrow> u32 \<Rightarrow> 'a fs_scheme \<Rightarrow> (kfault, nat, 'a fs_scheme) outcome" where
  "iget d inum s =
     (case List.find (\<lambda>i. i_ref (icache s i) > 0 \<and> i_dev (icache s i) = d \<and> i_inum (icache s i) = inum) [0..<NINODE] of
        Some ip \<Rightarrow> (Inr ip, upd_inode ip (\<lambda>x. x\<lparr>i_ref := i_ref x + 1\<rparr>) s)
      | None \<Rightarrow>
          (case List.find (\<lambda>i. i_ref (icache s i) = 0) [0..<NINODE] of
             None \<Rightarrow> (Inl (Panic ''iget: no inodes''), s)
           | Some ip \<Rightarrow>
               (Inr ip, upd_inode ip (\<lambda>x. x\<lparr>i_dev := d, i_inum := inum, i_ref := 1, i_valid := False\<rparr>) s)))"

definition idup :: "nat \<Rightarrow> 'a fs_scheme \<Rightarrow> 'a fs_scheme" where
  "idup ip s = upd_inode ip (\<lambda>x. x\<lparr>i_ref := i_ref x + 1\<rparr>) s"

fun ialloc_loop :: "int \<Rightarrow> u32 \<Rightarrow> u16 \<Rightarrow> nat list \<Rightarrow> 'a fs_scheme \<Rightarrow> (kfault, nat, 'a fs_scheme) outcome" where
  "ialloc_loop pid d ty [] s = (Inl (Panic ''ialloc: no inodes''), s)"
| "ialloc_loop pid d ty (inum # is) s =
     bindS (bread pid (d, IBLOCK (of_nat inum) (sb s)) s) (\<lambda>bp s.
       let x = b_data (bufs s bp); a = dinode_at (of_nat inum)
       in if get16 x a = 0
          then bindS (log_put pid bp (put16 a ty (\<lambda>i. if a \<le> i \<and> i < a + 64 then 0 else x i)) s)
                 (\<lambda>_ s. iget d (of_nat inum) s)
          else bindS (brelse pid bp s) (\<lambda>_ s. ialloc_loop pid d ty is s))"

definition ialloc :: "int \<Rightarrow> u32 \<Rightarrow> u16 \<Rightarrow> 'a fs_scheme \<Rightarrow> (kfault, nat, 'a fs_scheme) outcome" where
  "ialloc pid d ty s = ialloc_loop pid d ty [1..<unat (sb_ninodes (sb s))] s"

definition iupdate :: "int \<Rightarrow> nat \<Rightarrow> 'a fs_scheme \<Rightarrow> (kfault, unit, 'a fs_scheme) outcome" where
  "iupdate pid ip s =
     (let i = icache s ip
      in bindS (bread pid (i_dev i, IBLOCK (i_inum i) (sb s)) s) (\<lambda>bp s.
           log_put pid bp (put_dinode i (b_data (bufs s bp))) s))"

definition ilock :: "int \<Rightarrow> nat \<Rightarrow> 'a fs_scheme \<Rightarrow> (kfault, unit, 'a fs_scheme) outcome" where
  "ilock pid ip s =
     (if i_ref (icache s ip) < 1 then (Inl (Panic ''ilock''), s)
      else if i_pid (icache s ip) \<noteq> None then (Inl (Asleep ''inode''), s)
      else
        let s = upd_inode ip (\<lambda>x. x\<lparr>i_pid := Some pid\<rparr>) s
        in if i_valid (icache s ip) then (Inr (), s)
           else
             bindS (bread pid (i_dev (icache s ip), IBLOCK (i_inum (icache s ip)) (sb s)) s) (\<lambda>bp s.
             bindS (brelse pid bp (upd_inode ip (get_dinode (b_data (bufs s bp))) s)) (\<lambda>_ s.
               let s = upd_inode ip (\<lambda>x. x\<lparr>i_valid := True\<rparr>) s
               in if i_type (icache s ip) = 0 then (Inl (Panic ''ilock: no type''), s) else (Inr (), s))))"

definition iunlock :: "int \<Rightarrow> nat \<Rightarrow> 'a fs_scheme \<Rightarrow> (kfault, unit, 'a fs_scheme) outcome" where
  "iunlock pid ip s =
     (if i_pid (icache s ip) \<noteq> Some pid \<or> i_ref (icache s ip) < 1 then (Inl (Panic ''iunlock''), s)
      else (Inr (), upd_inode ip (\<lambda>x. x\<lparr>i_pid := None\<rparr>) s))"

section \<open>Inode content\<close>

text \<open>
  One level of the block map: the address in slot \<open>k\<close> of the indirect block \<open>a\<close>, allocated
  when it is zero.
\<close>

definition bmap_slot :: "int \<Rightarrow> u32 \<Rightarrow> u32 \<Rightarrow> nat \<Rightarrow> 'a fs_scheme \<Rightarrow> (kfault, u32, 'a fs_scheme) outcome" where
  "bmap_slot pid d a k s =
     bindS (bread pid (d, a) s) (\<lambda>bp s.
       let addr = get32 (b_data (bufs s bp)) (4 * k)
       in if addr \<noteq> 0 then bindS (brelse pid bp s) (\<lambda>_ s. (Inr addr, s))
          else
            bindS (balloc pid d s) (\<lambda>addr s.
            bindS (log_put pid bp (put32 (4 * k) addr (b_data (bufs s bp))) s) (\<lambda>_ s. (Inr addr, s))))"

definition bmap_addr :: "int \<Rightarrow> nat \<Rightarrow> nat \<Rightarrow> 'a fs_scheme \<Rightarrow> (kfault, u32, 'a fs_scheme) outcome" where
  "bmap_addr pid ip k s =
     (if i_addrs (icache s ip) k \<noteq> 0 then (Inr (i_addrs (icache s ip) k), s)
      else
        bindS (balloc pid (i_dev (icache s ip)) s) (\<lambda>addr s.
          (Inr addr, upd_inode ip (\<lambda>x. x\<lparr>i_addrs := (i_addrs x)(k := addr)\<rparr>) s)))"

definition bmap :: "int \<Rightarrow> nat \<Rightarrow> nat \<Rightarrow> 'a fs_scheme \<Rightarrow> (kfault, u32, 'a fs_scheme) outcome" where
  "bmap pid ip bn s =
     (if bn < NDIRECT then bmap_addr pid ip bn s
      else if bn - NDIRECT < NINDIRECT then
        bindS (bmap_addr pid ip NDIRECT s) (\<lambda>a s. bmap_slot pid (i_dev (icache s ip)) a (bn - NDIRECT) s)
      else if bn - NDIRECT - NINDIRECT < NDOUBLE_INDIRECT then
        let n = bn - NDIRECT - NINDIRECT
        in bindS (bmap_addr pid ip (NDIRECT + 1) s) (\<lambda>a s.
           bindS (bmap_slot pid (i_dev (icache s ip)) a (n div NINDIRECT) s) (\<lambda>a s.
             bmap_slot pid (i_dev (icache s ip)) a (n mod NINDIRECT) s))
      else (Inl (Panic ''bmap: out of range''), s))"

definition itrunc_direct :: "int \<Rightarrow> nat \<Rightarrow> nat \<Rightarrow> 'a fs_scheme \<Rightarrow> (kfault, unit, 'a fs_scheme) outcome" where
  "itrunc_direct pid ip k s =
     (let a = i_addrs (icache s ip) k
      in if a = 0 then (Inr (), s)
         else bindS (bfree pid (i_dev (icache s ip)) a s) (\<lambda>_ s.
                (Inr (), upd_inode ip (\<lambda>x. x\<lparr>i_addrs := (i_addrs x)(k := 0)\<rparr>) s)))"

definition itrunc_slot :: "int \<Rightarrow> u32 \<Rightarrow> u64 \<Rightarrow> nat \<Rightarrow> 'a fs_scheme \<Rightarrow> (kfault, unit, 'a fs_scheme) outcome" where
  "itrunc_slot pid d bp j s =
     (let a = get32 (b_data (bufs s bp)) (4 * j) in if a = 0 then (Inr (), s) else bfree pid d a s)"

definition itrunc :: "int \<Rightarrow> nat \<Rightarrow> 'a fs_scheme \<Rightarrow> (kfault, unit, 'a fs_scheme) outcome" where
  "itrunc pid ip s =
     bindS (forS (itrunc_direct pid ip) [0..<NDIRECT] s) (\<lambda>_ s.
     bindS
       (let d = i_dev (icache s ip); a = i_addrs (icache s ip) NDIRECT
        in if a = 0 then (Inr (), s)
           else
             bindS (bread pid (d, a) s) (\<lambda>bp s.
             bindS (forS (itrunc_slot pid d bp) [0..<NINDIRECT] s) (\<lambda>_ s.
             bindS (brelse pid bp s) (\<lambda>_ s.
             bindS (bfree pid d (i_addrs (icache s ip) NDIRECT) s) (\<lambda>_ s.
               (Inr (), upd_inode ip (\<lambda>x. x\<lparr>i_addrs := (i_addrs x)(NDIRECT := 0)\<rparr>) s)))))) (\<lambda>_ s.
     iupdate pid ip (upd_inode ip (\<lambda>x. x\<lparr>i_size := 0\<rparr>) s)))"

definition iput :: "int \<Rightarrow> nat \<Rightarrow> 'a fs_scheme \<Rightarrow> (kfault, unit, 'a fs_scheme) outcome" where
  "iput pid ip s =
     bindS
       (let i = icache s ip
        in if i_ref i = 1 \<and> i_valid i \<and> i_nlink i = 0 then
             if i_pid i \<noteq> None then (Inl (Asleep ''inode''), s)
             else
               bindS (itrunc pid ip (upd_inode ip (\<lambda>x. x\<lparr>i_pid := Some pid\<rparr>) s)) (\<lambda>_ s.
               bindS (iupdate pid ip (upd_inode ip (\<lambda>x. x\<lparr>i_type := 0\<rparr>) s)) (\<lambda>_ s.
                 (Inr (), upd_inode ip (\<lambda>x. x\<lparr>i_valid := False, i_pid := None\<rparr>) s)))
           else (Inr (), s)) (\<lambda>_ s.
     (Inr (), upd_inode ip (\<lambda>x. x\<lparr>i_ref := i_ref x - 1\<rparr>) s))"

definition iunlockput :: "int \<Rightarrow> nat \<Rightarrow> 'a fs_scheme \<Rightarrow> (kfault, unit, 'a fs_scheme) outcome" where
  "iunlockput pid ip s = bindS (iunlock pid ip s) (\<lambda>_ s. iput pid ip s)"

record stat =
  st_dev :: u32
  st_ino :: u32
  st_type :: u16
  st_nlink :: u16
  st_size :: u64

definition stati :: "nat \<Rightarrow> 'a fs_scheme \<Rightarrow> stat" where
  "stati ip s = \<lparr>st_dev = i_dev (icache s ip), st_ino = i_inum (icache s ip), st_type = i_type (icache s ip),
     st_nlink = i_nlink (icache s ip), st_size = ucast (i_size (icache s ip))\<rparr>"

end
