(* ===== verification/Xv7_Dir.thy ===== *)
theory Xv7_Dir
  imports Xv7_Fs
begin

text \<open>
  File contents, directories and path names of \<open>xv7/kernel/fs.c\<close>.  A transfer between a
  buffer and the caller's memory goes through \<open>either_copyout\<close> or \<open>either_copyin\<close>, which
  copy a prefix of the bytes and fail when it is not all of them: \<open>cpy dst n\<close> is the
  number of bytes that arrive (all of them for a kernel address).  \<open>readi\<close> returns the bytes
  it delivered with its result.
\<close>

section \<open>Reading and writing\<close>

definition kernel_copy :: "u64 \<Rightarrow> nat \<Rightarrow> nat" where
  "kernel_copy a n = n"

text \<open>The bytes of a block from \<open>o\<close> on.\<close>

definition block_bytes :: "block \<Rightarrow> nat \<Rightarrow> nat \<Rightarrow> u8 list" where
  "block_bytes x a m = map (\<lambda>i. x (a + i)) [0..<m]"

definition block_store :: "nat \<Rightarrow> u8 list \<Rightarrow> block \<Rightarrow> block" where
  "block_store a bs x = (\<lambda>i. if a \<le> i \<and> i < a + length bs then bs ! (i - a) else x i)"

function readi_loop :: "int \<Rightarrow> nat \<Rightarrow> (u64 \<Rightarrow> nat \<Rightarrow> nat) \<Rightarrow> u64 \<Rightarrow> nat \<Rightarrow> nat \<Rightarrow> u8 list \<Rightarrow> 'a fs_scheme \<Rightarrow>
    (kfault, u8 list, 'a fs_scheme) outcome" where
  "readi_loop pid ip cpy dst off r acc s =
     (if r = 0 then (Inr acc, s)
      else
        bindS (bmap pid ip (off div BSIZE) s) (\<lambda>a s.
        bindS (bread pid (i_dev (icache s ip), a) s) (\<lambda>bp s.
          let m = min r (BSIZE - off mod BSIZE);
              bytes = block_bytes (b_data (bufs s bp)) (off mod BSIZE) m;
              c = cpy dst m
          in bindS (brelse pid bp s) (\<lambda>_ s.
               if c < m then (Inr (acc @ take c bytes), s)
               else readi_loop pid ip cpy (dst + of_nat m) (off + m) (r - m) (acc @ bytes) s))))"
  by pat_completeness auto

termination
  by (relation "measure (\<lambda>(pid, ip, cpy, dst, off, r, acc, s). r)") (auto simp: BSIZE_def)

definition readi :: "int \<Rightarrow> nat \<Rightarrow> (u64 \<Rightarrow> nat \<Rightarrow> nat) \<Rightarrow> u64 \<Rightarrow> u32 \<Rightarrow> u32 \<Rightarrow> 'a fs_scheme \<Rightarrow>
    (kfault, int \<times> u8 list, 'a fs_scheme) outcome" where
  "readi pid ip cpy dst off n s =
     (if off > i_size (icache s ip) \<or> off + n < off then (Inr (-1, []), s)
      else
        let n = (if off + n > i_size (icache s ip) then i_size (icache s ip) - off else n)
        in bindS (readi_loop pid ip cpy dst (unat off) (unat n) [] s) (\<lambda>bs s. (Inr (sint n, bs), s)))"

text \<open>
  A failed copy breaks the loop: the bytes that arrived are in the buffer, which is released
  without being logged.  The result is the offset reached.
\<close>

function writei_loop :: "int \<Rightarrow> nat \<Rightarrow> (u64 \<Rightarrow> nat \<Rightarrow> nat) \<Rightarrow> (u64 \<Rightarrow> u8) \<Rightarrow> u64 \<Rightarrow> nat \<Rightarrow> nat \<Rightarrow> 'a fs_scheme \<Rightarrow>
    (kfault, nat, 'a fs_scheme) outcome" where
  "writei_loop pid ip cpy mem src off r s =
     (if r = 0 then (Inr off, s)
      else
        bindS (bmap pid ip (off div BSIZE) s) (\<lambda>a s.
        bindS (bread pid (i_dev (icache s ip), a) s) (\<lambda>bp s.
          let m = min r (BSIZE - off mod BSIZE);
              c = cpy src m;
              x = block_store (off mod BSIZE) (map (\<lambda>i. mem (src + of_nat i)) [0..<min c m]) (b_data (bufs s bp))
          in if c < m then bindS (brelse pid bp (set_data bp x s)) (\<lambda>_ s. (Inr off, s))
             else
               bindS (log_put pid bp x s) (\<lambda>_ s.
                 writei_loop pid ip cpy mem (src + of_nat m) (off + m) (r - m) s))))"
  by pat_completeness auto

termination
  by (relation "measure (\<lambda>(pid, ip, cpy, mem, src, off, r, s). r)") (auto simp: BSIZE_def)

definition writei :: "int \<Rightarrow> nat \<Rightarrow> (u64 \<Rightarrow> nat \<Rightarrow> nat) \<Rightarrow> (u64 \<Rightarrow> u8) \<Rightarrow> u64 \<Rightarrow> u32 \<Rightarrow> u32 \<Rightarrow> 'a fs_scheme \<Rightarrow>
    (kfault, int, 'a fs_scheme) outcome" where
  "writei pid ip cpy mem src off n s =
     (if off > i_size (icache s ip) \<or> off + n < off then (Inr (-1), s)
      else if unat (off + n) > MAXFILE * BSIZE then (Inr (-1), s)
      else
        bindS (writei_loop pid ip cpy mem src (unat off) (unat n) s) (\<lambda>off s.
        bindS
          (if n > 0 then
             iupdate pid ip (if off > unat (i_size (icache s ip))
               then upd_inode ip (\<lambda>x. x\<lparr>i_size := of_nat off\<rparr>) s else s)
           else (Inr (), s)) (\<lambda>_ s. (Inr (sint n), s))))"

section \<open>Directories\<close>

text \<open>
  A name is a string of at most \<open>DIRSIZ\<close> bytes, none of them NUL; a directory entry is an
  inode number and a field of \<open>DIRSIZ\<close> bytes, padded with NULs.
\<close>

record dirent =
  d_inum :: u16
  d_name :: "u8 list"

definition decode_dirent :: "u8 list \<Rightarrow> dirent" where
  "decode_dirent bs = \<lparr>d_inum = get16 (\<lambda>i. bs ! i) 0, d_name = take DIRSIZ (drop 2 bs)\<rparr>"

definition encode_dirent :: "dirent \<Rightarrow> u8 list" where
  "encode_dirent de = [ucast (d_inum de), ucast (drop_bit 8 (d_inum de))] @ d_name de"

text \<open>\<open>strncmp\<close> and \<open>strncpy\<close> on such arrays; a list ends with a NUL that is not listed.\<close>

definition byte_at :: "u8 list \<Rightarrow> nat \<Rightarrow> u8" where
  "byte_at s i = (if i < length s then s ! i else 0)"

fun namecmp_from :: "nat \<Rightarrow> nat \<Rightarrow> u8 list \<Rightarrow> u8 list \<Rightarrow> int" where
  "namecmp_from 0 i s t = 0"
| "namecmp_from (Suc n) i s t =
     (if byte_at s i \<noteq> 0 \<and> byte_at s i = byte_at t i then namecmp_from n (i + 1) s t
      else uint (byte_at s i) - uint (byte_at t i))"

definition namecmp :: "u8 list \<Rightarrow> u8 list \<Rightarrow> int" where
  "namecmp s t = namecmp_from DIRSIZ 0 s t"

definition name_field :: "u8 list \<Rightarrow> u8 list" where
  "name_field s = (let p = takeWhile (\<lambda>c. c \<noteq> 0) (take DIRSIZ s) in p @ replicate (DIRSIZ - length p) 0)"

function dirlookup_loop :: "int \<Rightarrow> nat \<Rightarrow> u8 list \<Rightarrow> nat \<Rightarrow> nat \<Rightarrow> 'a fs_scheme \<Rightarrow>
    (kfault, (nat \<times> nat) option, 'a fs_scheme) outcome" where
  "dirlookup_loop pid dp nm off n s =
     (if \<not> off < n then (Inr None, s)
      else
        bindS (readi pid dp kernel_copy 0 (of_nat off) 16 s) (\<lambda>(r, bs) s.
          if r \<noteq> 16 then (Inl (Panic ''dirlookup read''), s)
          else if d_inum (decode_dirent bs) = 0 then dirlookup_loop pid dp nm (off + 16) n s
          else if namecmp nm (d_name (decode_dirent bs)) = 0
          then bindS (iget (i_dev (icache s dp)) (ucast (d_inum (decode_dirent bs))) s) (\<lambda>ip s. (Inr (Some (ip, off)), s))
          else dirlookup_loop pid dp nm (off + 16) n s))"
  by pat_completeness auto

termination
  by (relation "measure (\<lambda>(pid, dp, nm, off, n, s). n - off)") auto

definition dirlookup :: "int \<Rightarrow> nat \<Rightarrow> u8 list \<Rightarrow> 'a fs_scheme \<Rightarrow> (kfault, (nat \<times> nat) option, 'a fs_scheme) outcome" where
  "dirlookup pid dp nm s =
     (if i_type (icache s dp) \<noteq> T_DIR then (Inl (Panic ''dirlookup not DIR''), s)
      else dirlookup_loop pid dp nm 0 (unat (i_size (icache s dp))) s)"

text \<open>The search for an unused entry in \<open>dirlink\<close>: its offset, or the size of the directory.\<close>

function dirslot_loop :: "int \<Rightarrow> nat \<Rightarrow> nat \<Rightarrow> nat \<Rightarrow> 'a fs_scheme \<Rightarrow> (kfault, nat, 'a fs_scheme) outcome" where
  "dirslot_loop pid dp off n s =
     (if \<not> off < n then (Inr off, s)
      else
        bindS (readi pid dp kernel_copy 0 (of_nat off) 16 s) (\<lambda>(r, bs) s.
          if r \<noteq> 16 then (Inl (Panic ''dirlink read''), s)
          else if d_inum (decode_dirent bs) = 0 then (Inr off, s)
          else dirslot_loop pid dp (off + 16) n s))"
  by pat_completeness auto

termination
  by (relation "measure (\<lambda>(pid, dp, off, n, s). n - off)") auto

definition dirlink :: "int \<Rightarrow> nat \<Rightarrow> u8 list \<Rightarrow> u32 \<Rightarrow> 'a fs_scheme \<Rightarrow> (kfault, int, 'a fs_scheme) outcome" where
  "dirlink pid dp nm inum s =
     bindS (dirlookup pid dp nm s) (\<lambda>r s.
       case r of
         Some (ip, _) \<Rightarrow> bindS (iput pid ip s) (\<lambda>_ s. (Inr (-1), s))
       | None \<Rightarrow>
           bindS (dirslot_loop pid dp 0 (unat (i_size (icache s dp))) s) (\<lambda>off s.
             let de = encode_dirent \<lparr>d_inum = ucast inum, d_name = name_field nm\<rparr>
             in bindS (writei pid dp kernel_copy (\<lambda>a. de ! unat a) 0 (of_nat off) 16 s) (\<lambda>r s.
                  if r \<noteq> 16 then (Inl (Panic ''dirlink''), s) else (Inr 0, s))))"

section \<open>Path names\<close>

definition slash :: u8 where "slash = 47"

text \<open>\<open>skipelem\<close>: the first element, cut to \<open>DIRSIZ\<close> bytes, and the rest of the path.\<close>

definition skipelem :: "u8 list \<Rightarrow> (u8 list \<times> u8 list) option" where
  "skipelem path =
     (let path = dropWhile (\<lambda>c. c = slash) path
      in if path = [] then None
         else let s = takeWhile (\<lambda>c. c \<noteq> slash) path;
                  path = dropWhile (\<lambda>c. c \<noteq> slash) path
              in Some (take DIRSIZ s, dropWhile (\<lambda>c. c = slash) path))"

lemma skipelem_shorter: "skipelem path = Some (nm, rest) \<Longrightarrow> length rest < length path"
proof -
  assume a: "skipelem path = Some (nm, rest)"
  let ?p = "dropWhile (\<lambda>c. c = slash) path"
  have p: "?p \<noteq> []" and r: "rest = dropWhile (\<lambda>c. c = slash) (dropWhile (\<lambda>c. c \<noteq> slash) ?p)"
    using a by (auto simp: skipelem_def Let_def split: if_splits)
  have "hd ?p \<noteq> slash" using p hd_dropWhile by blast
  then have "length (dropWhile (\<lambda>c. c \<noteq> slash) ?p) < length ?p"
    using p by (cases ?p) (auto simp: length_dropWhile_le le_imp_less_Suc)
  moreover have "length ?p \<le> length path" by (rule length_dropWhile_le)
  moreover have "length rest \<le> length (dropWhile (\<lambda>c. c \<noteq> slash) ?p)" unfolding r by (rule length_dropWhile_le)
  ultimately show ?thesis by simp
qed

text \<open>
  The loop of \<open>namex\<close>; it returns the inode, with the last element when the parent is asked
  for.
\<close>

function namex_loop :: "int \<Rightarrow> nat \<Rightarrow> bool \<Rightarrow> u8 list \<Rightarrow> u8 list \<Rightarrow> 'a fs_scheme \<Rightarrow>
    (kfault, (nat \<times> u8 list) option, 'a fs_scheme) outcome" where
  "namex_loop pid ip parent path nm s =
     (case skipelem path of
        None \<Rightarrow>
          if parent then bindS (iput pid ip s) (\<lambda>_ s. (Inr None, s)) else (Inr (Some (ip, nm)), s)
      | Some (nm, path) \<Rightarrow>
          bindS (ilock pid ip s) (\<lambda>_ s.
            if i_type (icache s ip) \<noteq> T_DIR then bindS (iunlockput pid ip s) (\<lambda>_ s. (Inr None, s))
            else if parent \<and> path = [] then bindS (iunlock pid ip s) (\<lambda>_ s. (Inr (Some (ip, nm)), s))
            else
              bindS (dirlookup pid ip nm s) (\<lambda>r s.
                case r of
                  None \<Rightarrow> bindS (iunlockput pid ip s) (\<lambda>_ s. (Inr None, s))
                | Some (nxt, _) \<Rightarrow>
                    bindS (iunlockput pid ip s) (\<lambda>_ s. namex_loop pid nxt parent path nm s))))"
  by pat_completeness auto

termination
  by (relation "measure (\<lambda>(pid, ip, parent, path, nm, s). length path)") (auto dest: skipelem_shorter)

definition namex :: "int \<Rightarrow> nat \<Rightarrow> u8 list \<Rightarrow> bool \<Rightarrow> 'a fs_scheme \<Rightarrow> (kfault, (nat \<times> u8 list) option, 'a fs_scheme) outcome" where
  "namex pid cwd path parent s =
     bindS (if path \<noteq> [] \<and> hd path = slash then iget ROOTDEV ROOTINO s else (Inr cwd, idup cwd s)) (\<lambda>ip s.
       namex_loop pid ip parent path [] s)"

definition namei :: "int \<Rightarrow> nat \<Rightarrow> u8 list \<Rightarrow> 'a fs_scheme \<Rightarrow> (kfault, (nat \<times> u8 list) option, 'a fs_scheme) outcome" where
  "namei pid cwd path s = namex pid cwd path False s"

definition nameiparent :: "int \<Rightarrow> nat \<Rightarrow> u8 list \<Rightarrow> 'a fs_scheme \<Rightarrow> (kfault, (nat \<times> u8 list) option, 'a fs_scheme) outcome" where
  "nameiparent pid cwd path s = namex pid cwd path True s"

end
