(* ===== verification/Xv7_File.thy ===== *)
theory Xv7_File
  imports Xv7_Net Xv7_Console Xv7_Dir
begin

text \<open>
  The file table of \<open>xv7/kernel/file.c\<close>, over everything a file can be: pipes, inodes, the
  console and sockets.  The kernel's state \<open>kernel\<close> extends the network's with the file system,
  the console, the file table and the clock.  \<open>p\<close> is the calling process, whose pid owns the
  locks of the file system.  A call that sleeps stops with \<open>Asleep\<close>, in the state in which it
  went to sleep.  Allocation of pipes and sockets is here too, because it needs the table.
\<close>

section \<open>file.h\<close>

datatype ftype = FD_NONE | FD_PIPE | FD_INODE | FD_DEVICE | FD_SOCK

record kfile =
  f_type :: ftype
  f_ref :: int
  f_readable :: bool
  f_writable :: bool
  f_pipe :: u64
  f_ip :: nat
  f_sock :: u64
  f_off :: u32
  f_major :: int
  f_minor :: int

record kernel = netst +
  fsx :: fs
  conx :: cons
  ftable :: "nat \<Rightarrow> kfile"
  ticks :: u32

definition NFILE :: nat where "NFILE = 100"
definition NDEV :: int where "NDEV = 10"
definition CONSOLE :: int where "CONSOLE = 1"

definition upd_file :: "nat \<Rightarrow> (kfile \<Rightarrow> kfile) \<Rightarrow> 'a kernel_scheme \<Rightarrow> 'a kernel_scheme" where
  "upd_file f g s = s\<lparr>ftable := (ftable s)(f := g (ftable s f))\<rparr>"

text \<open>An operation of the file system as a step of the kernel.\<close>

definition in_fs :: "(fs \<Rightarrow> (kfault, 'b, fs) outcome) \<Rightarrow> 'a kernel_scheme \<Rightarrow> (kfault, 'b, 'a kernel_scheme) outcome" where
  "in_fs m s = (case m (fsx s) of (r, x) \<Rightarrow> (r, s\<lparr>fsx := x\<rparr>))"

definition my_pid :: "nat \<Rightarrow> 'a kst_scheme \<Rightarrow> int" where
  "my_pid p s = pid (procs (pt s) p)"

definition my_pagetable :: "nat \<Rightarrow> 'a kst_scheme \<Rightarrow> u64" where
  "my_pagetable p s = pagetable (procs (pt s) p)"

section \<open>The caller's memory\<close>

text \<open>How many of \<open>n\<close> bytes at \<open>va\<close> a copy gets through before it meets a page that is not mapped.\<close>

function user_room :: "u64 \<Rightarrow> u64 \<Rightarrow> kmem \<Rightarrow> u64 \<Rightarrow> nat \<Rightarrow> nat" where
  "user_room kend pgt k va n =
     (if n = 0 \<or> walkaddr kend pgt (PGROUNDDOWN va) k = 0 then 0
      else let m = in_page va n in m + user_room kend pgt k (PGROUNDDOWN va + PGSIZE) (n - m))"
  by pat_completeness auto
termination
proof (relation "measure (\<lambda>(kend, pgt, k, va, n). n)", goal_cases)
  case (2 kend pgt k va n m)
  then show ?case using in_page_pos [of n va] by simp
qed simp

declare user_room.simps [simp del]

definition user_byte :: "u64 \<Rightarrow> u64 \<Rightarrow> kmem \<Rightarrow> u64 \<Rightarrow> u8" where
  "user_byte kend pgt k va = kdata k (walkaddr kend pgt (PGROUNDDOWN va) k + (va - PGROUNDDOWN va))"

text \<open>Bytes copied out one at a time, at increasing addresses.\<close>

fun copyout_each :: "u64 \<Rightarrow> u64 \<Rightarrow> u64 \<Rightarrow> u8 list \<Rightarrow> kmem \<Rightarrow> kmem" where
  "copyout_each kend pgt va [] k = k"
| "copyout_each kend pgt va (b # bs) k = copyout_each kend pgt (va + 1) bs (snd (copyout kend pgt va [b] k))"

section \<open>pipe.c: the ends of a pipe\<close>

text \<open>\<open>&pi->nread\<close> and \<open>&pi->nwrite\<close>, the channels on which writers and readers are told.\<close>

definition nread_chan :: "u64 \<Rightarrow> chan" where "nread_chan pi = ObjChan (pi + 544)"
definition nwrite_chan :: "u64 \<Rightarrow> chan" where "nwrite_chan pi = ObjChan (pi + 548)"

definition file_pipeclose :: "u64 \<Rightarrow> u64 \<Rightarrow> bool \<Rightarrow> 'a kst_scheme \<Rightarrow> (kfault, unit, 'a kst_scheme) outcome" where
  "file_pipeclose kend pi writable s =
     (case pipeclose writable (pipes s pi) of (x, both) \<Rightarrow>
        let s = upd_pipe pi (\<lambda>_. x) s;
            s = upd_pt (wakeup (if writable then nread_chan pi else nwrite_chan pi)) s
        in if both then page_free kend pi s else (Inr (), s))"

definition file_piperead :: "u64 \<Rightarrow> nat \<Rightarrow> u64 \<Rightarrow> u64 \<Rightarrow> int \<Rightarrow> 'a kst_scheme \<Rightarrow> (kfault, int, 'a kst_scheme) outcome" where
  "file_piperead kend p pi addr n s =
     (case piperead n (\<lambda>i. user_room kend (my_pagetable p s) (km s) (addr + of_nat i) 1 = 1)
             (killed (procs (pt s) p)) (pipes s pi) of (r, bs, x) \<Rightarrow>
        let s = upd_pipe pi (\<lambda>_. x) s
        in case r of
             Sleeps _ \<Rightarrow> (Inl (Asleep ''piperead''), s)
           | Returns k \<Rightarrow>
               if k < 0 then (Inr k, s)
               else
                 let s = s\<lparr>km := copyout_each kend (my_pagetable p s) addr (take (nat k) bs) (km s)\<rparr>
                 in (Inr k, upd_pt (wakeup (nwrite_chan pi)) s))"

definition file_pipewrite :: "u64 \<Rightarrow> nat \<Rightarrow> u64 \<Rightarrow> u64 \<Rightarrow> int \<Rightarrow> 'a kst_scheme \<Rightarrow> (kfault, int, 'a kst_scheme) outcome" where
  "file_pipewrite kend p pi addr n s =
     (case pipewrite n (\<lambda>i. if user_room kend (my_pagetable p s) (km s) (addr + of_nat i) 1 = 1
                            then Some (user_byte kend (my_pagetable p s) (km s) (addr + of_nat i)) else None)
             (killed (procs (pt s) p)) (pipes s pi) of (r, x) \<Rightarrow>
        let s = upd_pipe pi (\<lambda>_. x) s
        in case r of
             Sleeps _ \<Rightarrow> (Inl (Asleep ''pipewrite''), upd_pt (wakeup (nread_chan pi)) s)
           | Returns k \<Rightarrow> if k = -1 \<and> n > 0 then (Inr k, s) else (Inr k, upd_pt (wakeup (nread_chan pi)) s))"

section \<open>file.c\<close>

definition filealloc :: "'a kernel_scheme \<Rightarrow> nat option \<times> 'a kernel_scheme" where
  "filealloc s =
     (case List.find (\<lambda>f. f_ref (ftable s f) = 0) [0..<NFILE] of
        None \<Rightarrow> (None, s)
      | Some f \<Rightarrow> (Some f, upd_file f (\<lambda>x. x\<lparr>f_ref := 1\<rparr>) s))"

definition filedup :: "nat \<Rightarrow> 'a kernel_scheme \<Rightarrow> (kfault, unit, 'a kernel_scheme) outcome" where
  "filedup f s =
     (if f_ref (ftable s f) < 1 then (Inl (Panic ''filedup''), s)
      else (Inr (), upd_file f (\<lambda>x. x\<lparr>f_ref := f_ref x + 1\<rparr>) s))"

definition fileclose :: "u64 \<Rightarrow> nat \<Rightarrow> nat \<Rightarrow> 'a kernel_scheme \<Rightarrow> (kfault, unit, 'a kernel_scheme) outcome" where
  "fileclose kend p f s =
     (if f_ref (ftable s f) < 1 then (Inl (Panic ''fileclose''), s)
      else
        let s = upd_file f (\<lambda>x. x\<lparr>f_ref := f_ref x - 1\<rparr>) s
        in if 0 < f_ref (ftable s f) then (Inr (), s)
           else
             let ff = ftable s f;
                 s = upd_file f (\<lambda>x. x\<lparr>f_ref := 0, f_type := FD_NONE\<rparr>) s;
                 me = my_pid p s
             in case f_type ff of
                  FD_PIPE \<Rightarrow> file_pipeclose kend (f_pipe ff) (f_writable ff) s
                | FD_SOCK \<Rightarrow> sockclose kend (f_sock ff) s
                | FD_NONE \<Rightarrow> (Inr (), s)
                | _ \<Rightarrow>
                    bindS (in_fs (\<lambda>x. begin_op (i_dev (icache x (f_ip ff))) x) s) (\<lambda>_ s.
                    bindS (in_fs (iput me (f_ip ff)) s) (\<lambda>_ s.
                      in_fs (\<lambda>x. end_op me (i_dev (icache x (f_ip ff))) x) s)))"

text \<open>\<open>struct stat\<close> in memory: 24 bytes, four of them padding.\<close>

definition le_list :: "nat \<Rightarrow> 'b::len word \<Rightarrow> u8 list" where
  "le_list n v = map (\<lambda>i. ucast (drop_bit (8 * i) v)) [0..<n]"

definition encode_stat :: "u8 list \<Rightarrow> stat \<Rightarrow> u8 list" where
  "encode_stat pad st = le_list 4 (st_dev st) @ le_list 4 (st_ino st) @ le_list 2 (st_type st) @
     le_list 2 (st_nlink st) @ pad @ le_list 8 (st_size st)"

definition filestat :: "u64 \<Rightarrow> nat \<Rightarrow> u8 list \<Rightarrow> nat \<Rightarrow> u64 \<Rightarrow> 'a kernel_scheme \<Rightarrow> (kfault, int, 'a kernel_scheme) outcome" where
  "filestat kend p pad f addr s =
     (let ff = ftable s f; me = my_pid p s
      in if f_type ff = FD_INODE \<or> f_type ff = FD_DEVICE then
           bindS (in_fs (ilock me (f_ip ff)) s) (\<lambda>_ s.
             let st = stati (f_ip ff) (fsx s)
             in bindS (in_fs (iunlock me (f_ip ff)) s) (\<lambda>_ s.
                  case copyout kend (my_pagetable p s) addr (encode_stat pad st) (km s) of (r, k) \<Rightarrow>
                    let s = s\<lparr>km := k\<rparr> in if r < 0 then (Inr (-1), s) else (Inr 0, s)))
         else (Inr (-1), s))"

text \<open>The device switch after \<open>consoleinit\<close>: the console's two functions, and nothing else.\<close>

definition has_device :: "int \<Rightarrow> bool" where
  "has_device mj \<longleftrightarrow> 0 \<le> mj \<and> mj < NDEV \<and> mj = CONSOLE"

definition file_consoleread :: "u64 \<Rightarrow> nat \<Rightarrow> u64 \<Rightarrow> int \<Rightarrow> 'a kernel_scheme \<Rightarrow> (kfault, int, 'a kernel_scheme) outcome" where
  "file_consoleread kend p addr n s =
     (case consoleread (\<lambda>i. user_room kend (my_pagetable p s) (km s) (addr + of_nat i) 1 = 1)
             (killed (procs (pt s) p)) n (conx s) of (r, bs, c) \<Rightarrow>
        let s = s\<lparr>conx := c, km := copyout_each kend (my_pagetable p s) addr bs (km s)\<rparr>
        in case r of CSleeps _ \<Rightarrow> (Inl (Asleep ''consoleread''), s) | CReturns k \<Rightarrow> (Inr k, s))"

definition file_consolewrite :: "u64 \<Rightarrow> nat \<Rightarrow> u64 \<Rightarrow> int \<Rightarrow> 'a kernel_scheme \<Rightarrow> (kfault, int, 'a kernel_scheme) outcome" where
  "file_consolewrite kend p addr n s =
     (case consolewrite (\<lambda>i. if user_room kend (my_pagetable p s) (km s) (addr + of_nat i) 1 = 1
                             then Some (user_byte kend (my_pagetable p s) (km s) (addr + of_nat i)) else None)
             n (conx s) of (r, c) \<Rightarrow> (Inr r, s\<lparr>conx := c\<rparr>))"

text \<open>\<open>readi\<close> to the caller's memory: the bytes that arrive are stored there.\<close>

definition readi_user :: "u64 \<Rightarrow> nat \<Rightarrow> nat \<Rightarrow> u64 \<Rightarrow> u32 \<Rightarrow> u32 \<Rightarrow> 'a kernel_scheme \<Rightarrow> (kfault, int, 'a kernel_scheme) outcome" where
  "readi_user kend p ip addr off n s =
     bindS (in_fs (readi (my_pid p s) ip (user_room kend (my_pagetable p s) (km s)) addr off n) s) (\<lambda>(r, bs) s.
       (Inr r, s\<lparr>km := snd (copyout kend (my_pagetable p s) addr bs (km s))\<rparr>))"

definition writei_user :: "u64 \<Rightarrow> nat \<Rightarrow> nat \<Rightarrow> u64 \<Rightarrow> u32 \<Rightarrow> u32 \<Rightarrow> 'a kernel_scheme \<Rightarrow> (kfault, int, 'a kernel_scheme) outcome" where
  "writei_user kend p ip addr off n s =
     in_fs (writei (my_pid p s) ip (user_room kend (my_pagetable p s) (km s))
       (user_byte kend (my_pagetable p s) (km s)) addr off n) s"

definition fileread :: "u64 \<Rightarrow> nat \<Rightarrow> nat \<Rightarrow> u64 \<Rightarrow> int \<Rightarrow> 'a kernel_scheme \<Rightarrow> (kfault, int, 'a kernel_scheme) outcome" where
  "fileread kend p f addr n s =
     (let ff = ftable s f; me = my_pid p s
      in if \<not> f_readable ff then (Inr (-1), s)
         else case f_type ff of
           FD_PIPE \<Rightarrow> file_piperead kend p (f_pipe ff) addr n s
         | FD_DEVICE \<Rightarrow> if \<not> has_device (f_major ff) then (Inr (-1), s) else file_consoleread kend p addr n s
         | FD_INODE \<Rightarrow>
             bindS (in_fs (ilock me (f_ip ff)) s) (\<lambda>_ s.
             bindS (readi_user kend p (f_ip ff) addr (f_off ff) (word_of_int n) s) (\<lambda>r s.
               let s = (if 0 < r then upd_file f (\<lambda>x. x\<lparr>f_off := f_off x + word_of_int r\<rparr>) s else s)
               in bindS (in_fs (iunlock me (f_ip ff)) s) (\<lambda>_ s. (Inr r, s))))
         | FD_SOCK \<Rightarrow> sockread kend p (f_sock ff) addr n s
         | FD_NONE \<Rightarrow> (Inl (Panic ''fileread''), s))"

text \<open>\<open>((MAXOPBLOCKS-1-1-2) / 2) * BSIZE\<close>, the bytes that one transaction may write.\<close>

definition write_max :: int where
  "write_max = int (((MAXOPBLOCKS - 1 - 1 - 2) div 2) * BSIZE)"

text \<open>The loop over the transactions; it returns where it stopped.\<close>

function filewrite_loop :: "u64 \<Rightarrow> nat \<Rightarrow> nat \<Rightarrow> u64 \<Rightarrow> int \<Rightarrow> int \<Rightarrow> 'a kernel_scheme \<Rightarrow> (kfault, int, 'a kernel_scheme) outcome" where
  "filewrite_loop kend p f addr n i s =
     (if \<not> i < n then (Inr i, s)
      else
        let n1 = (if write_max < n - i then write_max else n - i);
            ip = f_ip (ftable s f); me = my_pid p s
        in bindS (in_fs (\<lambda>x. begin_op (i_dev (icache x ip)) x) s) (\<lambda>_ s.
           bindS (in_fs (ilock me ip) s) (\<lambda>_ s.
           bindS (writei_user kend p ip (addr + word_of_int i) (f_off (ftable s f)) (word_of_int n1) s) (\<lambda>r s.
             let s = (if 0 < r then upd_file f (\<lambda>x. x\<lparr>f_off := f_off x + word_of_int r\<rparr>) s else s)
             in bindS (in_fs (iunlock me ip) s) (\<lambda>_ s.
                bindS (in_fs (\<lambda>x. end_op me (i_dev (icache x ip)) x) s) (\<lambda>_ s.
                  if r < 0 then (Inr i, s)
                  else if r \<noteq> n1 then (Inl (Panic ''short filewrite''), s)
                  else filewrite_loop kend p f addr n (i + r) s))))))"
  by pat_completeness auto
termination
proof (relation "measure (\<lambda>(kend, p, f, addr, n, i, s). nat (n - i))", goal_cases)
  case (2 kend p f addr n i s n1)
  then have "0 < n1" by (simp add: write_max_def MAXOPBLOCKS_def BSIZE_def split: if_splits)
  then show ?case using 2 by simp
qed simp

declare filewrite_loop.simps [simp del]

definition filewrite :: "u64 \<Rightarrow> nat \<Rightarrow> nat \<Rightarrow> u64 \<Rightarrow> int \<Rightarrow> 'a kernel_scheme \<Rightarrow> (kfault, int, 'a kernel_scheme) outcome" where
  "filewrite kend p f addr n s =
     (let ff = ftable s f
      in if \<not> f_writable ff then (Inr (-1), s)
         else case f_type ff of
           FD_PIPE \<Rightarrow> file_pipewrite kend p (f_pipe ff) addr n s
         | FD_DEVICE \<Rightarrow> if \<not> has_device (f_major ff) then (Inr (-1), s) else file_consolewrite kend p addr n s
         | FD_INODE \<Rightarrow> bindS (filewrite_loop kend p f addr n 0 s) (\<lambda>i s. (Inr (if i = n then n else -1), s))
         | FD_SOCK \<Rightarrow> bindS (sockwrite kend p (f_sock ff) addr n s) (\<lambda>_ s. (Inr 0, s))
         | FD_NONE \<Rightarrow> (Inl (Panic ''filewrite''), s))"

section \<open>pipe.c, sysnet.c: files for pipes and sockets\<close>

text \<open>The label \<open>bad\<close> of \<open>pipealloc\<close>, reached before the pipe is allocated.\<close>

definition pipealloc_bad :: "u64 \<Rightarrow> nat \<Rightarrow> nat option \<Rightarrow> nat option \<Rightarrow> 'a kernel_scheme \<Rightarrow>
    (kfault, (nat \<times> nat) option, 'a kernel_scheme) outcome" where
  "pipealloc_bad kend p f0 f1 s =
     bindS (case f0 of Some f \<Rightarrow> fileclose kend p f s | None \<Rightarrow> (Inr (), s)) (\<lambda>_ s.
     bindS (case f1 of Some f \<Rightarrow> fileclose kend p f s | None \<Rightarrow> (Inr (), s)) (\<lambda>_ s. (Inr None, s)))"

definition pipealloc :: "u64 \<Rightarrow> nat \<Rightarrow> 'a kernel_scheme \<Rightarrow> (kfault, (nat \<times> nat) option, 'a kernel_scheme) outcome" where
  "pipealloc kend p s =
     (case filealloc s of
        (None, s) \<Rightarrow> pipealloc_bad kend p None None s
      | (Some f0, s) \<Rightarrow>
          (case filealloc s of
             (None, s) \<Rightarrow> pipealloc_bad kend p (Some f0) None s
           | (Some f1, s) \<Rightarrow>
               (case page_alloc kend s of (pi, s) \<Rightarrow>
                  if pi = 0 then pipealloc_bad kend p (Some f0) (Some f1) s
                  else
                    let s = upd_pipe pi (\<lambda>x. pipe_new (p_data x)) s;
                        s = upd_file f0 (\<lambda>x. x\<lparr>f_type := FD_PIPE, f_readable := True, f_writable := False, f_pipe := pi\<rparr>) s;
                        s = upd_file f1 (\<lambda>x. x\<lparr>f_type := FD_PIPE, f_readable := False, f_writable := True, f_pipe := pi\<rparr>) s
                    in (Inr (Some (f0, f1)), s))))"

text \<open>The label \<open>bad\<close> of \<open>sockalloc\<close>.\<close>

definition sockalloc_bad :: "u64 \<Rightarrow> nat \<Rightarrow> u64 \<Rightarrow> nat option \<Rightarrow> 'a kernel_scheme \<Rightarrow> (kfault, nat option, 'a kernel_scheme) outcome" where
  "sockalloc_bad kend p si f s =
     bindS (if si \<noteq> 0 then page_free kend si s else (Inr (), s)) (\<lambda>_ s.
     bindS (case f of Some f \<Rightarrow> fileclose kend p f s | None \<Rightarrow> (Inr (), s)) (\<lambda>_ s. (Inr None, s)))"

definition sockalloc :: "u64 \<Rightarrow> nat \<Rightarrow> u32 \<Rightarrow> u16 \<Rightarrow> u16 \<Rightarrow> 'a kernel_scheme \<Rightarrow> (kfault, nat option, 'a kernel_scheme) outcome" where
  "sockalloc kend p raddr lport rport s =
     (case filealloc s of
        (None, s) \<Rightarrow> sockalloc_bad kend p 0 None s
      | (Some f, s) \<Rightarrow>
          (case page_alloc kend s of (si, s) \<Rightarrow>
             if si = 0 then sockalloc_bad kend p 0 (Some f) s
             else
               let s = upd_sock si (\<lambda>x. x\<lparr>so_raddr := raddr, so_lport := lport, so_rport := rport,
                         so_rxq := mbufq_init (so_rxq x)\<rparr>) s;
                   s = upd_file f (\<lambda>x. x\<lparr>f_type := FD_SOCK, f_readable := True, f_writable := True, f_sock := si\<rparr>) s
               in case sock_find NPAGES (same_key raddr lport rport) (sockets s) s of
                    Inl e \<Rightarrow> (Inl e, s)
                  | Inr pos \<Rightarrow>
                      if pos \<noteq> 0 then sockalloc_bad kend p si (Some f) s
                      else
                        let s = upd_sock si (\<lambda>x. x\<lparr>so_next := sockets s\<rparr>) s
                        in (Inr (Some f), s\<lparr>sockets := si\<rparr>)))"

end
