(* ===== verification/Xv7_Syscall.thy ===== *)
theory Xv7_Syscall
  imports Xv7_File
begin

text \<open>
  The arguments of system calls, \<open>xv7/kernel/syscall.c\<close> and the first functions of
  \<open>sysfile.c\<close>.  The trap frame of a process is a page of the memory, at \<open>ptf\<close>; its fields are
  words of it.  \<open>p\<close> is the calling process.
\<close>

section \<open>proc.h: the trap frame\<close>

definition TF_EPC :: u64 where "TF_EPC = 24"
definition TF_SP :: u64 where "TF_SP = 48"
definition TF_A0 :: u64 where "TF_A0 = 112"
definition TF_A1 :: u64 where "TF_A1 = 120"
definition TF_A7 :: u64 where "TF_A7 = 168"

definition upd_km :: "(kmem \<Rightarrow> kmem) \<Rightarrow> 'a kst_scheme \<Rightarrow> 'a kst_scheme" where
  "upd_km f s = s\<lparr>km := f (km s)\<rparr>"

definition tf_get :: "nat \<Rightarrow> u64 \<Rightarrow> 'a kst_scheme \<Rightarrow> u64" where
  "tf_get p off s = load64 (ptf (procs (pt s) p) + off) (kdata (km s))"

definition tf_set :: "nat \<Rightarrow> u64 \<Rightarrow> u64 \<Rightarrow> 'a kst_scheme \<Rightarrow> 'a kst_scheme" where
  "tf_set p off v s = upd_km (upd_mem (store64 (ptf (procs (pt s) p) + off) v)) s"

lemma upd_km_simps [simp]:
  "km (upd_km f s) = f (km s)" "pt (upd_km f s) = pt s" "mbufs (upd_km f s) = mbufs s" "socks (upd_km f s) = socks s"
  "pipes (upd_km f s) = pipes s" "kst.more (upd_km f s) = kst.more s"
  "pt (tf_set p off v s) = pt s" "mbufs (tf_set p off v s) = mbufs s" "socks (tf_set p off v s) = socks s"
  "pipes (tf_set p off v s) = pipes s" "kst.more (tf_set p off v s) = kst.more s"
  by (simp_all add: upd_km_def tf_set_def)

section \<open>syscall.c\<close>

definition argraw :: "nat \<Rightarrow> nat \<Rightarrow> 'a kst_scheme \<Rightarrow> (kfault, u64, 'a kst_scheme) outcome" where
  "argraw p n s = (if n \<le> 5 then (Inr (tf_get p (TF_A0 + 8 * of_nat n) s), s) else (Inl (Panic ''argraw''), s))"

definition argint :: "nat \<Rightarrow> nat \<Rightarrow> 'a kst_scheme \<Rightarrow> (kfault, int, 'a kst_scheme) outcome" where
  "argint p n s = bindS (argraw p n s) (\<lambda>v s. (Inr (sint (ucast v :: u32)), s))"

definition argaddr :: "nat \<Rightarrow> nat \<Rightarrow> 'a kst_scheme \<Rightarrow> (kfault, u64, 'a kst_scheme) outcome" where
  "argaddr p n s = argraw p n s"

definition fetchaddr :: "u64 \<Rightarrow> nat \<Rightarrow> u64 \<Rightarrow> 'a kst_scheme \<Rightarrow> u64 option" where
  "fetchaddr kend p addr s =
     (let sz = psz (procs (pt s) p)
      in if sz \<le> addr \<or> sz < addr + 8 then None
         else case copyin kend (my_pagetable p s) addr 8 (km s) of (r, bs) \<Rightarrow>
           if r \<noteq> 0 then None else Some (load64 0 (\<lambda>a. bs ! unat a)))"

text \<open>The string without its NUL; \<open>None\<close> stands for -1.\<close>

definition fetchstr :: "u64 \<Rightarrow> nat \<Rightarrow> u64 \<Rightarrow> nat \<Rightarrow> 'a kst_scheme \<Rightarrow> u8 list option" where
  "fetchstr kend p addr mx s =
     (case copyinstr kend (my_pagetable p s) addr mx (km s) of (err, bs) \<Rightarrow>
        if err < 0 then None else Some (takeWhile (\<lambda>b. b \<noteq> 0) bs))"

definition argstr :: "u64 \<Rightarrow> nat \<Rightarrow> nat \<Rightarrow> nat \<Rightarrow> 'a kst_scheme \<Rightarrow> (kfault, u8 list option, 'a kst_scheme) outcome" where
  "argstr kend p n mx s = bindS (argaddr p n s) (\<lambda>addr s. (Inr (fetchstr kend p addr mx s), s))"

section \<open>sysfile.c: file descriptors\<close>

definition NOFILE :: nat where "NOFILE = 16"
definition MAXPATH :: nat where "MAXPATH = 128"

definition upd_me :: "nat \<Rightarrow> (proc \<Rightarrow> proc) \<Rightarrow> 'a kst_scheme \<Rightarrow> 'a kst_scheme" where
  "upd_me p f s = upd_pt (upd_proc p f) s"

definition set_fd :: "nat \<Rightarrow> nat \<Rightarrow> nat option \<Rightarrow> 'a kst_scheme \<Rightarrow> 'a kst_scheme" where
  "set_fd p fd f s = upd_me p (\<lambda>x. x\<lparr>ofile := (ofile x)(fd := f)\<rparr>) s"

definition argfd :: "nat \<Rightarrow> nat \<Rightarrow> 'a kst_scheme \<Rightarrow> (kfault, (nat \<times> nat) option, 'a kst_scheme) outcome" where
  "argfd p n s = bindS (argint p n s) (\<lambda>fd s.
     if fd < 0 \<or> int NOFILE \<le> fd then (Inr None, s)
     else case ofile (procs (pt s) p) (nat fd) of
            None \<Rightarrow> (Inr None, s)
          | Some f \<Rightarrow> (Inr (Some (nat fd, f)), s))"

definition fdalloc :: "nat \<Rightarrow> nat \<Rightarrow> 'a kst_scheme \<Rightarrow> nat option \<times> 'a kst_scheme" where
  "fdalloc p f s =
     (case List.find (\<lambda>fd. ofile (procs (pt s) p) fd = None) [0..<NOFILE] of
        None \<Rightarrow> (None, s)
      | Some fd \<Rightarrow> (Some fd, set_fd p fd (Some f) s))"

lemma arg_simps [simp]:
  "n \<le> 5 \<Longrightarrow> argraw p n s = (Inr (tf_get p (TF_A0 + 8 * of_nat n) s), s)"
  "n \<le> 5 \<Longrightarrow> argint p n s = (Inr (sint (ucast (tf_get p (TF_A0 + 8 * of_nat n) s) :: u32)), s)"
  "n \<le> 5 \<Longrightarrow> argaddr p n s = (Inr (tf_get p (TF_A0 + 8 * of_nat n) s), s)"
  by (simp_all add: argraw_def argint_def argaddr_def)

lemma upd_me_simps [simp]:
  "procs (pt (upd_me p f s)) = (procs (pt s))(p := f (procs (pt s) p))" "km (upd_me p f s) = km s"
  "initproc (pt (upd_me p f s)) = initproc (pt s)" "nextpid (pt (upd_me p f s)) = nextpid (pt s)"
  "kst.more (upd_me p f s) = kst.more s" "mbufs (upd_me p f s) = mbufs s" "socks (upd_me p f s) = socks s"
  "pipes (upd_me p f s) = pipes s" "cpu_proc (pt (upd_me p f s)) = cpu_proc (pt s)"
  by (simp_all add: upd_me_def)

end
