(* ===== verification/Xv7_Mmap.thy ===== *)
theory Xv7_Mmap
  imports Xv7_Syscall
begin

text \<open>
  Files mapped into memory: \<open>sys_mmap\<close> and \<open>sys_munmap\<close> of \<open>xv7/kernel/vm.c\<close>, what \<open>fork\<close> and
  \<open>exit\<close> do with mappings, and the page faults of \<open>usertrap\<close> in \<open>trap.c\<close>.  Slot \<open>i\<close> of a
  process's table of mappings has the addresses from \<open>MMAP_VSTART + i * MMAP_SIZE\<close> on.
\<close>

section \<open>proc.h, riscv.h, fcntl.h\<close>

definition MMAP_VSTART :: u64 where "MMAP_VSTART = 0x2000000000"
definition MMAP_SIZE :: u64 where "MMAP_SIZE = 0x100000"
definition MMAP_NUM :: nat where "MMAP_NUM = 32"
definition MMAP_VEND :: u64 where "MMAP_VEND = MMAP_VSTART + of_nat MMAP_NUM * MMAP_SIZE"

definition PTE_D :: u64 where "PTE_D = 128"

definition PROT_READ :: u32 where "PROT_READ = 1"
definition PROT_WRITE :: u32 where "PROT_WRITE = 2"
definition MAP_SHARED :: u32 where "MAP_SHARED = 1"

definition upd_map :: "nat \<Rightarrow> nat \<Rightarrow> (map_info \<Rightarrow> map_info) \<Rightarrow> 'a kst_scheme \<Rightarrow> 'a kst_scheme" where
  "upd_map p i g s = upd_me p (\<lambda>x. x\<lparr>minfo := (minfo x)(i := g (minfo x i))\<rparr>) s"

abbreviation my_map :: "nat \<Rightarrow> nat \<Rightarrow> 'a kst_scheme \<Rightarrow> map_info" where
  "my_map p i s \<equiv> minfo (procs (pt s) p) i"

section \<open>vm.c\<close>

definition map_alloc :: "nat \<Rightarrow> 'a kst_scheme \<Rightarrow> nat option \<times> 'a kst_scheme" where
  "map_alloc p s =
     (case List.find (\<lambda>i. \<not> m_used (my_map p i s)) [0..<MMAP_NUM] of
        None \<Rightarrow> (None, s)
      | Some i \<Rightarrow> (Some i, upd_map p i (\<lambda>m. m\<lparr>vstart := MMAP_VSTART + of_nat i * MMAP_SIZE\<rparr>) s))"

text \<open>
  \<open>mmap_file\<close> is \<open>sys_mmap\<close> on the arguments it fetched.  The descriptor indexes \<open>ofile\<close>
  unchecked: outside of it the access is wild.
\<close>

definition mmap_file :: "nat \<Rightarrow> u64 \<Rightarrow> int \<Rightarrow> int \<Rightarrow> int \<Rightarrow> int \<Rightarrow> int \<Rightarrow> 'a kernel_scheme \<Rightarrow>
    (kfault, u64, 'a kernel_scheme) outcome" where
  "mmap_file p addr len prot flags fd offset s =
     (if addr \<noteq> 0 \<or> offset \<noteq> 0 then (Inr (-1), s)
      else if fd < 0 \<or> int NOFILE \<le> fd then (Inl (Wild ''sys_mmap: ofile''), s)
      else case ofile (procs (pt s) p) (nat fd) of
        None \<Rightarrow> (Inr (-1), s)
      | Some f \<Rightarrow>
          if f_type (ftable s f) \<noteq> FD_INODE then (Inr (-1), s)
          else if word_of_int flags AND MAP_SHARED \<noteq> 0 \<and> word_of_int prot AND PROT_WRITE \<noteq> 0 \<and> \<not> f_writable (ftable s f)
          then (Inr (-1), s)
          else case map_alloc p s of
            (None, s) \<Rightarrow> (Inr (-1), s)
          | (Some i, s) \<Rightarrow>
              let s = upd_map p i (\<lambda>m. m\<lparr>vend := PGROUNDUP (vstart m + word_of_int len), m_length := len,
                        m_prot := word_of_int prot, m_flags := word_of_int flags, m_file := f, m_offset := offset,
                        m_used := True\<rparr>) s
              in bindS (filedup f s) (\<lambda>_ s. (Inr (vstart (my_map p i s)), s)))"

definition sys_mmap :: "nat \<Rightarrow> 'a kernel_scheme \<Rightarrow> (kfault, u64, 'a kernel_scheme) outcome" where
  "sys_mmap p s =
     bindS (argaddr p 0 s) (\<lambda>addr s.
     bindS (argint p 1 s) (\<lambda>len s.
     bindS (argint p 2 s) (\<lambda>prot s.
     bindS (argint p 3 s) (\<lambda>flags s.
     bindS (argint p 4 s) (\<lambda>fd s.
     bindS (argint p 5 s) (\<lambda>offset s. mmap_file p addr len prot flags fd offset s))))))"

text \<open>Writing a dirty page of a shared mapping back to its file; \<open>pa\<close> is the page.\<close>

definition mmap_length :: "int \<Rightarrow> u64 \<Rightarrow> u64" where
  "mmap_length len file_start =
     (let n = PGSIZE in if n > word_of_int len - file_start then word_of_int len - file_start else n)"

definition munmap_write :: "nat \<Rightarrow> nat \<Rightarrow> u64 \<Rightarrow> u64 \<Rightarrow> u64 \<Rightarrow> 'a kernel_scheme \<Rightarrow> (kfault, unit, 'a kernel_scheme) outcome" where
  "munmap_write p i vpage_base va pa s =
     (let file_start = va - vpage_base;
          write_length = mmap_length (m_length (my_map p i s)) file_start;
          ip = f_ip (ftable s (m_file (my_map p i s))); me = my_pid p s
      in bindS (in_fs (\<lambda>x. begin_op (i_dev (icache x ip)) x) s) (\<lambda>_ s.
         bindS (in_fs (ilock me ip) s) (\<lambda>_ s.
         bindS (in_fs (writei me ip kernel_copy (\<lambda>a. kdata (km s) a) pa (ucast file_start) (ucast write_length)) s) (\<lambda>_ s.
         bindS (in_fs (iunlock me ip) s) (\<lambda>_ s.
           in_fs (\<lambda>x. end_op me (i_dev (icache x ip)) x) s)))))"

text \<open>The body of the loops: the page at \<open>va\<close>, if there is one, is unmapped and its reference dropped.\<close>

definition drop_page :: "u64 \<Rightarrow> u64 \<Rightarrow> u64 \<Rightarrow> u64 \<Rightarrow> 'a kst_scheme \<Rightarrow> (kfault, unit, 'a kst_scheme) outcome" where
  "drop_page kend pgt va pa s =
     bindS (in_km (uvmunmap kend pgt va PGSIZE False (km s)) s) (\<lambda>_ s. in_km (kderef kend pa (km s)) s)"

function munmap_loop :: "u64 \<Rightarrow> nat \<Rightarrow> nat \<Rightarrow> u64 \<Rightarrow> u64 \<Rightarrow> u64 \<Rightarrow> 'a kernel_scheme \<Rightarrow> (kfault, unit, 'a kernel_scheme) outcome" where
  "munmap_loop kend p i vpage_base final va s =
     (if \<not> va < final then (Inr (), s)
      else case walk_find kend (my_pagetable p s) va (km s) of
        Inl e \<Rightarrow> (Inl e, s)
      | Inr pte \<Rightarrow>
          bindS (if pte \<noteq> 0 \<and> valid_pte (get_pte pte (km s)) then
                   let pa = PTE2PA (get_pte pte (km s))
                   in bindS (if m_flags (my_map p i s) AND MAP_SHARED \<noteq> 0 \<and> get_pte pte (km s) AND PTE_D \<noteq> 0
                             then munmap_write p i vpage_base va pa s else (Inr (), s)) (\<lambda>_ s.
                        drop_page kend (my_pagetable p s) va pa s)
                 else (Inr (), s)) (\<lambda>_ s. munmap_loop kend p i vpage_base final (va + PGSIZE) s))"
  by pat_completeness auto
termination
proof (relation "measure (\<lambda>(kend, p, i, vpage_base, final, va, s). unat (MAXVA + 8192 - va))", goal_cases)
  case (2 kend p i vpage_base final va s pte)
  then obtain k where w: "walk kend (my_pagetable p s) va False (km s) = (Inr pte, k)"
    by (cases "walk kend (my_pagetable p s) va False (km s)") (auto simp: walk_find_def)
  show ?case using next_page_below [OF sym [OF w]] by simp
qed simp

declare munmap_loop.simps [simp del]

definition munmap_range :: "u64 \<Rightarrow> nat \<Rightarrow> u64 \<Rightarrow> int \<Rightarrow> 'a kernel_scheme \<Rightarrow> (kfault, u64, 'a kernel_scheme) outcome" where
  "munmap_range kend p addr len s =
     (if addr < MMAP_VSTART \<or> MMAP_VEND < addr then (Inr (-1), s)
      else
        let vpage_base = PGROUNDDOWN addr; i = unat ((vpage_base - MMAP_VSTART) div MMAP_SIZE)
        in if MMAP_NUM \<le> i then (Inl (Wild ''sys_munmap: minfo''), s)
           else if \<not> m_used (my_map p i s) then (Inr (-1), s)
           else bindS (munmap_loop kend p i vpage_base (addr + word_of_int len) vpage_base s) (\<lambda>_ s.
             if vstart (my_map p i s) = addr \<and> m_length (my_map p i s) = len then
               bindS (fileclose kend p (m_file (my_map p i s)) s) (\<lambda>_ s.
                 (Inr 0, upd_map p i (\<lambda>m. m\<lparr>m_used := False\<rparr>) s))
             else
               let s = (if vstart (my_map p i s) = addr
                        then upd_map p i (\<lambda>m. m\<lparr>vstart := addr + word_of_int len\<rparr>) s else s);
                   s = (if vend (my_map p i s) = addr + word_of_int len
                        then upd_map p i (\<lambda>m. m\<lparr>vend := addr\<rparr>) s else s)
               in (Inr 0, s)))"

definition sys_munmap :: "u64 \<Rightarrow> nat \<Rightarrow> 'a kernel_scheme \<Rightarrow> (kfault, u64, 'a kernel_scheme) outcome" where
  "sys_munmap kend p s =
     bindS (argaddr p 0 s) (\<lambda>addr s. bindS (argint p 1 s) (\<lambda>len s. munmap_range kend p addr len s))"

text \<open>\<open>mmap_dup\<close> and \<open>mmap_dedup\<close>, on the addresses from \<open>va\<close> to the end of a mapping.\<close>

function mmap_dup_from :: "u64 \<Rightarrow> u64 \<Rightarrow> u64 \<Rightarrow> u64 \<Rightarrow> kmem \<Rightarrow> (kfault, unit, kmem) outcome" where
  "mmap_dup_from kend pgt final va k =
     (if \<not> va < final then (Inr (), k)
      else case walk_find kend pgt va k of
        Inl e \<Rightarrow> (Inl e, k)
      | Inr pte \<Rightarrow>
          mmap_dup_from kend pgt final (va + PGSIZE)
            (if pte \<noteq> 0 \<and> valid_pte (get_pte pte k) then kref kend (PTE2PA (get_pte pte k)) k else k))"
  by pat_completeness auto
termination
proof (relation "measure (\<lambda>(kend, pgt, final, va, k). unat (MAXVA + 8192 - va))", goal_cases)
  case (2 kend pgt final va k pte)
  then obtain k' where w: "walk kend pgt va False k = (Inr pte, k')"
    by (cases "walk kend pgt va False k") (auto simp: walk_find_def)
  show ?case using next_page_below [OF sym [OF w]] by simp
qed simp

definition mmap_dup :: "u64 \<Rightarrow> u64 \<Rightarrow> map_info \<Rightarrow> kmem \<Rightarrow> (kfault, unit, kmem) outcome" where
  "mmap_dup kend pgt m k = mmap_dup_from kend pgt (vend m) (vstart m) k"

function mmap_dedup_from :: "u64 \<Rightarrow> u64 \<Rightarrow> u64 \<Rightarrow> u64 \<Rightarrow> kmem \<Rightarrow> (kfault, unit, kmem) outcome" where
  "mmap_dedup_from kend pgt final va k =
     (if \<not> va < final then (Inr (), k)
      else case walk_find kend pgt va k of
        Inl e \<Rightarrow> (Inl e, k)
      | Inr pte \<Rightarrow>
          bindS (if pte \<noteq> 0 \<and> valid_pte (get_pte pte k) then
                   let pa = PTE2PA (get_pte pte k)
                   in bindS (uvmunmap kend pgt va PGSIZE False k) (\<lambda>_ k. kderef kend pa k)
                 else (Inr (), k)) (\<lambda>_ k. mmap_dedup_from kend pgt final (va + PGSIZE) k))"
  by pat_completeness auto
termination
proof (relation "measure (\<lambda>(kend, pgt, final, va, k). unat (MAXVA + 8192 - va))", goal_cases)
  case (2 kend pgt final va k pte)
  then obtain k' where w: "walk kend pgt va False k = (Inr pte, k')"
    by (cases "walk kend pgt va False k") (auto simp: walk_find_def)
  show ?case using next_page_below [OF sym [OF w]] by simp
qed simp

declare mmap_dup_from.simps [simp del] mmap_dedup_from.simps [simp del]

definition mmap_dedup :: "u64 \<Rightarrow> u64 \<Rightarrow> map_info \<Rightarrow> kmem \<Rightarrow> (kfault, unit, kmem) outcome" where
  "mmap_dedup kend pgt m k = mmap_dedup_from kend pgt (vend m) (vstart m) k"

section \<open>trap.c: a page fault\<close>

text \<open>
  What \<open>usertrap\<close> does on a load or store page fault at \<open>fault_vaddr\<close>: a page of the mapping is
  allocated, read from the file and mapped, or the process is marked as killed.
\<close>

definition kill_me :: "nat \<Rightarrow> 'a kst_scheme \<Rightarrow> 'a kst_scheme" where
  "kill_me p s = upd_me p (\<lambda>x. x\<lparr>killed := True\<rparr>) s"

definition page_fault :: "u64 \<Rightarrow> nat \<Rightarrow> u64 \<Rightarrow> 'a kernel_scheme \<Rightarrow> (kfault, unit, 'a kernel_scheme) outcome" where
  "page_fault kend p fault_vaddr s =
     (if MMAP_VSTART \<le> fault_vaddr \<and> fault_vaddr < MMAP_VEND then
        let pgt = my_pagetable p s;
            vpage_base = PGROUNDDOWN fault_vaddr;
            m = my_map p (unat ((vpage_base - MMAP_VSTART) div MMAP_SIZE)) s;
            map_start = vstart m
        in if \<not> m_used m \<or> vend m \<le> fault_vaddr then (Inr (), kill_me p s)
           else
             let file_start = vpage_base - map_start;
                 read_length = mmap_length (m_length m) file_start;
                 f = m_file m;
                 prot = (if m_prot m AND PROT_READ \<noteq> 0 then PTE_R else 0) OR (if m_prot m AND PROT_WRITE \<noteq> 0 then PTE_W else 0)
             in case kalloc kend (km s) of (r, k) \<Rightarrow>
                  let s = s\<lparr>km := k\<rparr>
                  in if r = 0 then (Inr (), kill_me p s)
                     else
                       let s = upd_km (upd_mem (memset r 0 4096)) s;
                           ip = f_ip (ftable s f); me = my_pid p s
                       in bindS (in_fs (ilock me ip) s) (\<lambda>_ s.
                          bindS (in_fs (readi me ip kernel_copy r (ucast file_start) (ucast read_length)) s) (\<lambda>(_, bs) s.
                            let s = upd_km (upd_mem (store_bytes r bs)) s
                            in bindS (in_fs (iunlock me ip) s) (\<lambda>_ s.
                               bindS (in_km (mappages kend pgt vpage_base PGSIZE r (prot OR PTE_U) (km s)) s) (\<lambda>q s.
                                 if q \<noteq> 0 then bindS (in_km (kfree kend r (km s)) s) (\<lambda>_ s. (Inr (), kill_me p s))
                                 else (Inr (), s)))))
      else (Inr (), kill_me p s))"

end
