(* ===== verification/Xv7_Process.thy ===== *)
theory Xv7_Process
  imports Xv7_Mmap
begin

text \<open>
  Processes of \<open>xv7/kernel/proc.c\<close> with their memory, files and mappings: \<open>allocproc\<close>,
  \<open>freeproc\<close>, \<open>userinit\<close>, \<open>growproc\<close>, \<open>fork\<close>, \<open>exit\<close> and \<open>wait\<close>, over the process table of
  \<open>Xv7_Proc\<close>.  What is done under a process's lock is one step.  The kernel context that
  \<open>allocproc\<close> prepares for \<open>swtch\<close> is not part of the state.  \<open>tramp\<close> is the linker symbol
  \<open>trampoline\<close>, \<open>c\<close> the CPU of the caller.
\<close>

section \<open>Page tables of processes\<close>

definition proc_pagetable :: "u64 \<Rightarrow> u64 \<Rightarrow> u64 \<Rightarrow> kmem \<Rightarrow> (kfault, u64, kmem) outcome" where
  "proc_pagetable kend tramp tf k =
     bindS (uvmcreate kend k) (\<lambda>pgt k.
     bindS (mappages kend pgt TRAMPOLINE PGSIZE tramp (PTE_R OR PTE_X) k) (\<lambda>_ k.
     bindS (mappages kend pgt TRAPFRAME PGSIZE tf (PTE_R OR PTE_W) k) (\<lambda>_ k. (Inr pgt, k))))"

definition proc_freepagetable :: "u64 \<Rightarrow> u64 \<Rightarrow> u64 \<Rightarrow> kmem \<Rightarrow> (kfault, unit, kmem) outcome" where
  "proc_freepagetable kend pgt sz k =
     bindS (uvmunmap kend pgt TRAMPOLINE PGSIZE False k) (\<lambda>_ k.
     bindS (uvmunmap kend pgt TRAPFRAME PGSIZE False k) (\<lambda>_ k.
       if sz > 0 then uvmfree kend pgt sz k else (Inr (), k)))"

section \<open>Process structures\<close>

definition allocproc :: "u64 \<Rightarrow> u64 \<Rightarrow> 'a kst_scheme \<Rightarrow> (kfault, nat option, 'a kst_scheme) outcome" where
  "allocproc kend tramp s =
     (case alloc_slot (pt s) of
        None \<Rightarrow> (Inr None, s)
      | Some (p, t) \<Rightarrow>
          let s = s\<lparr>pt := t\<rparr>
          in case page_alloc kend s of (r, s) \<Rightarrow>
            let s = upd_me p (\<lambda>x. x\<lparr>ptf := r\<rparr>) s
            in if r = 0 then (Inr None, s)
               else
                 bindS (in_km (proc_pagetable kend tramp r (km s)) s) (\<lambda>pgt s.
                   (Inr (Some p), upd_me p (\<lambda>x. x\<lparr>pagetable := pgt\<rparr>) s)))"

definition freeproc :: "u64 \<Rightarrow> nat \<Rightarrow> 'a kst_scheme \<Rightarrow> (kfault, unit, 'a kst_scheme) outcome" where
  "freeproc kend p s =
     bindS (let r = ptf (procs (pt s) p) in if r \<noteq> 0 then page_free kend r s else (Inr (), s)) (\<lambda>_ s.
       let s = upd_me p (\<lambda>x. x\<lparr>ptf := 0\<rparr>) s
       in bindS
            (if my_pagetable p s \<noteq> 0
             then in_km (proc_freepagetable kend (my_pagetable p s) (psz (procs (pt s) p)) (km s)) s
             else (Inr (), s)) (\<lambda>_ s. (Inr (), upd_me p clear_proc s)))"

section \<open>userinit\<close>

definition initcode :: "u8 list" where
  "initcode = [
     0x17, 0x05, 0x00, 0x00, 0x13, 0x05, 0x05, 0x02,
     0x97, 0x05, 0x00, 0x00, 0x93, 0x85, 0x05, 0x02,
     0x9d, 0x48, 0x73, 0x00, 0x00, 0x00, 0x89, 0x48,
     0x73, 0x00, 0x00, 0x00, 0xef, 0xf0, 0xbf, 0xff,
     0x2f, 0x69, 0x6e, 0x69, 0x74, 0x00, 0x00, 0x01,
     0x20, 0x00, 0x00, 0x00, 0x00, 0x00, 0x00, 0x00,
     0x00, 0x00, 0x00]"

definition initcode_name :: "u8 list" where
  "initcode_name = [0x69, 0x6e, 0x69, 0x74, 0x63, 0x6f, 0x64, 0x65]"

text \<open>
  \<open>namei\<close> with the working directory of the caller.  A relative path without a working
  directory dereferences a null pointer.  For the path \<open>/\<close> of \<open>userinit\<close>, which has no caller,
  the working directory does not matter.
\<close>

definition with_cwd :: "nat \<Rightarrow> u8 list \<Rightarrow> (nat \<Rightarrow> fs \<Rightarrow> (kfault, 'b, fs) outcome) \<Rightarrow> 'a kernel_scheme \<Rightarrow>
    (kfault, 'b, 'a kernel_scheme) outcome" where
  "with_cwd p path m s =
     (case pcwd (procs (pt s) p) of
        Some d \<Rightarrow> in_fs (m d) s
      | None \<Rightarrow> if path \<noteq> [] \<and> hd path = slash then in_fs (m 0) s else (Inl (Wild ''idup: cwd''), s))"

definition k_namei :: "nat \<Rightarrow> u8 list \<Rightarrow> 'a kernel_scheme \<Rightarrow> (kfault, nat option, 'a kernel_scheme) outcome" where
  "k_namei p path s =
     bindS (with_cwd p path (\<lambda>d. namei (my_pid p s) d path) s) (\<lambda>r s. (Inr (map_option fst r), s))"

definition userinit :: "u64 \<Rightarrow> u64 \<Rightarrow> 'a kernel_scheme \<Rightarrow> (kfault, unit, 'a kernel_scheme) outcome" where
  "userinit kend tramp s =
     bindS (allocproc kend tramp s) (\<lambda>r s.
       case r of
         None \<Rightarrow> (Inl (Wild ''userinit: allocproc''), s)
       | Some p \<Rightarrow>
           bindS (in_km (uvminit kend (my_pagetable p s) initcode (km s)) s) (\<lambda>_ s.
             let s = tf_set p TF_EPC 0 s;
                 s = tf_set p TF_SP PGSIZE s
             in bindS (k_namei p [slash] s) (\<lambda>root s.
                  (Inr (), upd_pt (start_init p initcode_name root) s))))"

section \<open>growproc\<close>

text \<open>\<open>sz\<close> is a \<open>uint\<close>.\<close>

definition growproc :: "u64 \<Rightarrow> nat \<Rightarrow> int \<Rightarrow> 'a kst_scheme \<Rightarrow> (kfault, int, 'a kst_scheme) outcome" where
  "growproc kend p n s =
     (let sz = (ucast (psz (procs (pt s) p)) :: u32);
          finish = (\<lambda>sz s. (Inr 0, upd_me p (\<lambda>x. x\<lparr>psz := ucast (sz :: u32)\<rparr>) s))
      in if n > 0 then
           bindS (in_km (uvmalloc kend (my_pagetable p s) (ucast sz) (ucast (sz + word_of_int n)) (km s)) s) (\<lambda>r s.
             if (ucast r :: u32) = 0 then (Inr (-1), s) else finish (ucast r) s)
         else if n < 0 then
           bindS (in_km (uvmdealloc kend (my_pagetable p s) (ucast sz) (ucast (sz + word_of_int n)) (km s)) s) (\<lambda>r s.
             finish (ucast r) s)
         else finish sz s)"

section \<open>fork\<close>

text \<open>\<open>*(np->tf) = *(p->tf)\<close>: the 288 bytes of a trap frame.\<close>

definition copy_tf :: "nat \<Rightarrow> nat \<Rightarrow> 'a kst_scheme \<Rightarrow> 'a kst_scheme" where
  "copy_tf p np s =
     upd_km (upd_mem (store_bytes (ptf (procs (pt s) np)) (load_bytes (ptf (procs (pt s) p)) 288 (kdata (km s))))) s"

definition fork_fd :: "nat \<Rightarrow> nat \<Rightarrow> nat \<Rightarrow> 'a kernel_scheme \<Rightarrow> (kfault, unit, 'a kernel_scheme) outcome" where
  "fork_fd p np i s =
     (case ofile (procs (pt s) p) i of
        None \<Rightarrow> (Inr (), s)
      | Some f \<Rightarrow> bindS (filedup f s) (\<lambda>_ s. (Inr (), set_fd np i (Some f) s)))"

text \<open>\<open>mmap_dup\<close> gets the start of the table of mappings in every turn.\<close>

definition fork_map :: "u64 \<Rightarrow> nat \<Rightarrow> nat \<Rightarrow> nat \<Rightarrow> 'a kst_scheme \<Rightarrow> (kfault, unit, 'a kst_scheme) outcome" where
  "fork_map kend p np i s =
     (if m_used (my_map p i s) then
        let s = upd_map np i (\<lambda>_. my_map p i s) s
        in in_km (mmap_dup kend (my_pagetable np s) (my_map np 0 s) (km s)) s
      else (Inr (), s))"

definition fork :: "u64 \<Rightarrow> u64 \<Rightarrow> nat \<Rightarrow> 'a kernel_scheme \<Rightarrow> (kfault, int, 'a kernel_scheme) outcome" where
  "fork kend tramp p s =
     bindS (allocproc kend tramp s) (\<lambda>r s.
       case r of
         None \<Rightarrow> (Inr (-1), s)
       | Some np \<Rightarrow>
           bindS (in_km (uvmcopy kend (my_pagetable p s) (my_pagetable np s) (psz (procs (pt s) p)) (km s)) s) (\<lambda>r s.
             if r < 0 then bindS (freeproc kend np s) (\<lambda>_ s. (Inr (-1), s))
             else
               let s = upd_me np (\<lambda>x. x\<lparr>psz := psz (procs (pt s) p)\<rparr>) s;
                   s = upd_me np (\<lambda>x. x\<lparr>parent := Some p\<rparr>) s;
                   s = copy_tf p np s;
                   s = tf_set np TF_A0 0 s
               in bindS (forS (fork_fd p np) [0..<NOFILE] s) (\<lambda>_ s.
                  bindS (forS (fork_map kend p np) [0..<MMAP_NUM] s) (\<lambda>_ s.
                    case pcwd (procs (pt s) p) of
                      None \<Rightarrow> (Inl (Wild ''idup: cwd''), s)
                    | Some d \<Rightarrow>
                        let s = s\<lparr>fsx := idup d (fsx s)\<rparr>;
                            s = upd_me np (\<lambda>x. x\<lparr>pcwd := Some d\<rparr>) s
                        in case start_child p np (pt s) of (n, t) \<Rightarrow> (Inr n, s\<lparr>pt := t\<rparr>)))))"

section \<open>exit\<close>

definition exit_fd :: "u64 \<Rightarrow> nat \<Rightarrow> nat \<Rightarrow> 'a kernel_scheme \<Rightarrow> (kfault, unit, 'a kernel_scheme) outcome" where
  "exit_fd kend p fd s =
     (case ofile (procs (pt s) p) fd of
        None \<Rightarrow> (Inr (), s)
      | Some f \<Rightarrow> bindS (fileclose kend p f s) (\<lambda>_ s. (Inr (), set_fd p fd None s)))"

definition exit_map :: "u64 \<Rightarrow> nat \<Rightarrow> nat \<Rightarrow> 'a kst_scheme \<Rightarrow> (kfault, unit, 'a kst_scheme) outcome" where
  "exit_map kend p i s =
     (if m_used (my_map p i s) then
        let s = upd_map p i (\<lambda>m. m\<lparr>m_used := False\<rparr>) s
        in in_km (mmap_dedup kend (my_pagetable p s) (my_map p i s) (km s)) s
      else (Inr (), s))"

text \<open>What \<open>exit\<close> releases, up to the wakeups; the process is then a zombie on CPU \<open>c\<close>'s scheduler.\<close>

definition exit_release :: "u64 \<Rightarrow> nat \<Rightarrow> 'a kernel_scheme \<Rightarrow> (kfault, unit, 'a kernel_scheme) outcome" where
  "exit_release kend p s =
     bindS (forS (exit_fd kend p) [0..<NOFILE] s) (\<lambda>_ s.
     bindS (forS (exit_map kend p) [0..<MMAP_NUM] s) (\<lambda>_ s.
     bindS (in_fs (begin_op ROOTDEV) s) (\<lambda>_ s.
       case pcwd (procs (pt s) p) of
         None \<Rightarrow> (Inl (Wild ''iput: cwd''), s)
       | Some d \<Rightarrow>
           bindS (in_fs (iput (my_pid p s) d) s) (\<lambda>_ s.
           bindS (in_fs (end_op (my_pid p s) ROOTDEV) s) (\<lambda>_ s.
             (Inr (), upd_me p (\<lambda>x. x\<lparr>pcwd := None\<rparr>) s))))))"

definition exit :: "u64 \<Rightarrow> nat \<Rightarrow> nat \<Rightarrow> int \<Rightarrow> 'a kernel_scheme \<Rightarrow> (kfault, unit, 'a kernel_scheme) outcome" where
  "exit kend c p status s =
     (if p = initproc (pt s) then (Inl (Panic ''init exiting''), s)
      else
        bindS (exit_release kend p s) (\<lambda>_ s.
          let s = upd_pt exit_wake_init s
          in case exit_parent p (pt s) of
               None \<Rightarrow> (Inl (Wild ''exit: original_parent''), s)
             | Some original_parent \<Rightarrow> (Inr (), upd_pt (exit_finish c p original_parent status) s)))"

section \<open>wait\<close>

text \<open>Up to its return or its sleep, after which it starts again.\<close>

definition wait :: "u64 \<Rightarrow> nat \<Rightarrow> nat \<Rightarrow> u64 \<Rightarrow> 'a kst_scheme \<Rightarrow> (kfault, int, 'a kst_scheme) outcome" where
  "wait kend c p addr s =
     (case wait_scan p (procs (pt s)) False [0..<NPROC] of
        (_, Some np) \<Rightarrow>
          let n = pid (procs (pt s) np)
          in (case (if addr \<noteq> 0
                    then copyout kend (my_pagetable p s) addr (le_list 4 (word_of_int (xstate (procs (pt s) np)) :: u32)) (km s)
                    else (0, km s)) of
                (r, k) \<Rightarrow>
                  let s = s\<lparr>km := k\<rparr>
                  in if r < 0 then (Inr (-1), s)
                     else bindS (freeproc kend np s) (\<lambda>_ s. (Inr n, s)))
      | (havekids, None) \<Rightarrow>
          if \<not> havekids \<or> killed (procs (pt s) p) then (Inr (-1), s)
          else (Inl (Asleep ''wait''), upd_pt (sleep c p (ProcChan p)) s))"

end
