(* ===== verification/Xv7_Exec.thy ===== *)
theory Xv7_Exec
  imports Xv7_Process
begin

text \<open>
  \<open>exec\<close> of \<open>xv7/kernel/exec.c\<close>.  The structures read from the file are lists of bytes, little
  endian; the arguments are strings without their NUL.  The label \<open>bad\<close> is \<open>exec_bad\<close>.
\<close>

section \<open>elf.h\<close>

definition ELF_MAGIC :: u32 where "ELF_MAGIC = 0x464C457F"
definition ELF_PROG_LOAD :: u32 where "ELF_PROG_LOAD = 1"

definition word64_at :: "nat \<Rightarrow> u8 list \<Rightarrow> u64" where
  "word64_at n bs = load64 (of_nat n) (\<lambda>a. byte_at bs (unat a))"

definition word32_at :: "nat \<Rightarrow> u8 list \<Rightarrow> u32" where "word32_at n bs = ucast (word64_at n bs)"
definition word16_at :: "nat \<Rightarrow> u8 list \<Rightarrow> u16" where "word16_at n bs = ucast (word64_at n bs)"

text \<open>The fields that \<open>exec\<close> uses of the 64 bytes of an \<open>elfhdr\<close> and the 56 of a \<open>proghdr\<close>.\<close>

record elfhdr =
  e_magic :: u32
  e_entry :: u64
  e_phoff :: u64
  e_phnum :: u16

record proghdr =
  ph_type :: u32
  ph_off :: u64
  ph_vaddr :: u64
  ph_filesz :: u64
  ph_memsz :: u64

definition decode_elfhdr :: "u8 list \<Rightarrow> elfhdr" where
  "decode_elfhdr bs = \<lparr>e_magic = word32_at 0 bs, e_entry = word64_at 24 bs, e_phoff = word64_at 32 bs,
     e_phnum = word16_at 56 bs\<rparr>"

definition decode_proghdr :: "u8 list \<Rightarrow> proghdr" where
  "decode_proghdr bs = \<lparr>ph_type = word32_at 0 bs, ph_off = word64_at 8 bs, ph_vaddr = word64_at 16 bs,
     ph_filesz = word64_at 32 bs, ph_memsz = word64_at 40 bs\<rparr>"

section \<open>exec.c\<close>

definition MAXARG :: nat where "MAXARG = 32"

text \<open>
  The loop of \<open>loadseg\<close>, over the offsets of the pages below \<open>sz\<close>.  The counter of the program is
  32 bits wide; it would wrap only for a segment that does not fit into the memory.
\<close>

fun loadseg_loop :: "u64 \<Rightarrow> int \<Rightarrow> u64 \<Rightarrow> u64 \<Rightarrow> nat \<Rightarrow> u32 \<Rightarrow> u32 \<Rightarrow> nat list \<Rightarrow> 'a kernel_scheme \<Rightarrow>
    (kfault, int, 'a kernel_scheme) outcome" where
  "loadseg_loop kend me pgt va ip offset sz [] s = (Inr 0, s)"
| "loadseg_loop kend me pgt va ip offset sz (j # js) s =
     (let i = (of_nat (4096 * j) :: u32);
          pa = walkaddr kend pgt (va + ucast i) (km s)
      in if pa = 0 then (Inl (Panic ''loadseg: address should exist''), s)
         else
           let n = (if sz - i < 4096 then sz - i else 4096)
           in bindS (in_fs (readi me ip kernel_copy pa (offset + i) n) s) (\<lambda>(r, bs) s.
                let s = upd_km (upd_mem (store_bytes pa bs)) s
                in if word_of_int r \<noteq> n then (Inr (-1), s)
                   else loadseg_loop kend me pgt va ip offset sz js s))"

definition loadseg :: "u64 \<Rightarrow> int \<Rightarrow> u64 \<Rightarrow> u64 \<Rightarrow> nat \<Rightarrow> u32 \<Rightarrow> u32 \<Rightarrow> 'a kernel_scheme \<Rightarrow> (kfault, int, 'a kernel_scheme) outcome" where
  "loadseg kend me pgt va ip offset sz s =
     (if va mod PGSIZE \<noteq> 0 then (Inl (Panic ''loadseg: va must be page aligned''), s)
      else loadseg_loop kend me pgt va ip offset sz [0..<(unat sz + 4095) div 4096] s)"

text \<open>
  The loop over the \<open>n\<close> program headers from \<open>off\<close> on: whether it went through, and \<open>sz\<close>, which is
  0 after a failed \<open>uvmalloc\<close>.
\<close>

fun exec_load :: "u64 \<Rightarrow> int \<Rightarrow> u64 \<Rightarrow> nat \<Rightarrow> nat \<Rightarrow> u32 \<Rightarrow> u64 \<Rightarrow> 'a kernel_scheme \<Rightarrow> (kfault, bool \<times> u64, 'a kernel_scheme) outcome" where
  "exec_load kend me pgt ip 0 off sz s = (Inr (True, sz), s)"
| "exec_load kend me pgt ip (Suc n) off sz s =
     bindS (in_fs (readi me ip kernel_copy 0 off 56) s) (\<lambda>(r, bs) s.
       let ph = decode_proghdr bs
       in if r \<noteq> 56 then (Inr (False, sz), s)
          else if ph_type ph \<noteq> ELF_PROG_LOAD then exec_load kend me pgt ip n (off + 56) sz s
          else if ph_memsz ph < ph_filesz ph then (Inr (False, sz), s)
          else if ph_vaddr ph + ph_memsz ph < ph_vaddr ph then (Inr (False, sz), s)
          else
            bindS (in_km (uvmalloc kend pgt sz (ph_vaddr ph + ph_memsz ph) (km s)) s) (\<lambda>sz s.
              if sz = 0 then (Inr (False, sz), s)
              else if ph_vaddr ph mod PGSIZE \<noteq> 0 then (Inr (False, sz), s)
              else
                bindS (loadseg kend me pgt (ph_vaddr ph) ip (ucast (ph_off ph)) (ucast (ph_filesz ph)) s) (\<lambda>r s.
                  if r < 0 then (Inr (False, sz), s) else exec_load kend me pgt ip n (off + 56) sz s)))"

definition exec_bad :: "u64 \<Rightarrow> nat \<Rightarrow> u64 \<Rightarrow> u64 \<Rightarrow> nat option \<Rightarrow> 'a kernel_scheme \<Rightarrow> (kfault, int, 'a kernel_scheme) outcome" where
  "exec_bad kend p pgt sz ip s =
     bindS (if pgt \<noteq> 0 then in_km (proc_freepagetable kend pgt sz (km s)) s else (Inr (), s)) (\<lambda>_ s.
     bindS (case ip of
              None \<Rightarrow> (Inr (), s)
            | Some ip \<Rightarrow> bindS (in_fs (iunlockput (my_pid p s) ip) s) (\<lambda>_ s. in_fs (end_op (my_pid p s) ROOTDEV) s))
       (\<lambda>_ s. (Inr (-1), s)))"

text \<open>Pushing the argument strings: the stack pointer and \<open>ustack\<close>, or \<open>None\<close> for \<open>bad\<close>.\<close>

definition push_down :: "u64 \<Rightarrow> nat \<Rightarrow> u64" where
  "push_down sp n = (let sp = sp - of_nat n in sp - sp mod 16)"

fun exec_args :: "u64 \<Rightarrow> u64 \<Rightarrow> u64 \<Rightarrow> nat \<Rightarrow> u8 list list \<Rightarrow> u64 \<Rightarrow> u64 list \<Rightarrow> kmem \<Rightarrow> (u64 \<times> u64 list) option \<times> kmem" where
  "exec_args kend pgt stackbase argc [] sp ustack k = (Some (sp, ustack), k)"
| "exec_args kend pgt stackbase argc (a # argv) sp ustack k =
     (if MAXARG \<le> argc then (None, k)
      else
        let sp = push_down sp (length a + 1)
        in if sp < stackbase then (None, k)
           else case copyout kend pgt sp (a @ [0]) k of
             (r, k) \<Rightarrow> if r < 0 then (None, k) else exec_args kend pgt stackbase (argc + 1) argv sp (ustack @ [sp]) k)"

text \<open>The program's name: what follows the last slash.\<close>

definition last_elem :: "u8 list \<Rightarrow> u8 list" where
  "last_elem path = rev (takeWhile (\<lambda>c. c \<noteq> slash) (rev path))"

definition exec_commit :: "u64 \<Rightarrow> nat \<Rightarrow> u8 list \<Rightarrow> u64 \<Rightarrow> u64 \<Rightarrow> u64 \<Rightarrow> u64 \<Rightarrow> 'a kst_scheme \<Rightarrow> (kfault, unit, 'a kst_scheme) outcome" where
  "exec_commit kend p path pgt sz sp entry s =
     (let oldsz = psz (procs (pt s) p);
          s = tf_set p TF_A1 sp s;
          s = upd_me p (\<lambda>x. x\<lparr>pname := safe_name (pname x) (last_elem path)\<rparr>) s;
          oldpagetable = my_pagetable p s;
          s = upd_me p (\<lambda>x. x\<lparr>pagetable := pgt\<rparr>) s;
          s = upd_me p (\<lambda>x. x\<lparr>psz := sz\<rparr>) s;
          s = tf_set p TF_EPC entry s;
          s = tf_set p TF_SP sp s
      in in_km (proc_freepagetable kend oldpagetable oldsz (km s)) s)"

text \<open>From the user stack on; \<open>sz\<close> is the size of the loaded segments.\<close>

definition exec_stack :: "u64 \<Rightarrow> nat \<Rightarrow> u8 list \<Rightarrow> u8 list list \<Rightarrow> u64 \<Rightarrow> u64 \<Rightarrow> u64 \<Rightarrow> 'a kernel_scheme \<Rightarrow>
    (kfault, int, 'a kernel_scheme) outcome" where
  "exec_stack kend p path argv pgt sz entry s =
     (let sz = PGROUNDUP sz
      in bindS (in_km (uvmalloc kend pgt sz (sz + 2 * PGSIZE) (km s)) s) (\<lambda>sz s.
           if sz = 0 then exec_bad kend p pgt sz None s
           else
             bindS (in_km (uvmclear kend pgt (sz - 2 * PGSIZE) (km s)) s) (\<lambda>_ s.
               let stackbase = sz - PGSIZE
               in case exec_args kend pgt stackbase 0 argv sz [] (km s) of
                    (None, k) \<Rightarrow> exec_bad kend p pgt sz None (s\<lparr>km := k\<rparr>)
                  | (Some (sp, ustack), k) \<Rightarrow>
                      let s = s\<lparr>km := k\<rparr>;
                          sp = push_down sp ((length argv + 1) * 8)
                      in if sp < stackbase then exec_bad kend p pgt sz None s
                         else case copyout kend pgt sp (concat (map (le_list 8) (ustack @ [0]))) (km s) of
                           (r, k) \<Rightarrow>
                             let s = s\<lparr>km := k\<rparr>
                             in if r < 0 then exec_bad kend p pgt sz None s
                                else bindS (exec_commit kend p path pgt sz sp entry s) (\<lambda>_ s. (Inr (int (length argv)), s)))))"

definition exec :: "u64 \<Rightarrow> u64 \<Rightarrow> nat \<Rightarrow> u8 list \<Rightarrow> u8 list list \<Rightarrow> 'a kernel_scheme \<Rightarrow> (kfault, int, 'a kernel_scheme) outcome" where
  "exec kend tramp p path argv s =
     bindS (in_fs (begin_op ROOTDEV) s) (\<lambda>_ s.
     bindS (k_namei p path s) (\<lambda>r s.
       case r of
         None \<Rightarrow> bindS (in_fs (end_op (my_pid p s) ROOTDEV) s) (\<lambda>_ s. (Inr (-1), s))
       | Some ip \<Rightarrow>
           bindS (in_fs (ilock (my_pid p s) ip) s) (\<lambda>_ s.
           bindS (in_fs (readi (my_pid p s) ip kernel_copy 0 0 64) s) (\<lambda>(r, bs) s.
             let elf = decode_elfhdr bs
             in if r \<noteq> 64 \<or> e_magic elf \<noteq> ELF_MAGIC then exec_bad kend p 0 0 (Some ip) s
                else
                  bindS (in_km (proc_pagetable kend tramp (ptf (procs (pt s) p)) (km s)) s) (\<lambda>pgt s.
                  bindS (exec_load kend (my_pid p s) pgt ip (unat (e_phnum elf)) (ucast (e_phoff elf)) 0 s) (\<lambda>(ok, sz) s.
                    if \<not> ok then exec_bad kend p pgt sz (Some ip) s
                    else
                      bindS (in_fs (iunlockput (my_pid p s) ip) s) (\<lambda>_ s.
                      bindS (in_fs (end_op (my_pid p s) ROOTDEV) s) (\<lambda>_ s.
                        exec_stack kend p path argv pgt sz (e_entry elf) s))))))))"

end
