(* ===== verification/Xv7_Paging.thy ===== *)
theory Xv7_Paging
  imports Xv7_Vm
begin

text \<open>
  The page tables of \<open>Xv7_Vm\<close> as maps.  \<open>tset\<close> is the set of pages of a page table and
  \<open>lookup\<close> the map it stands for; a page table is well formed when no page occurs twice in
  it.  The operations keep it well formed, update the map as they should and touch no memory
  but the table's and free pages.
\<close>

section \<open>Loads and stores\<close>

lemma unat_diff_0: "unat (x - p :: u64) = 0 \<longleftrightarrow> x = p"
  by (simp add: unat_eq_0)

lemma load64_cong:
  assumes "\<And>x. unat (x - p) < 8 \<Longrightarrow> m' x = m x"
  shows "load64 p m' = load64 p m"
  unfolding load64_def by (simp add: assms)

lemma store64_other: "8 \<le> unat (x - p) \<Longrightarrow> store64 p v m x = m x"
  by (auto simp: store64_def)

lemma ucast_u8_back: "ucast (ucast (w :: u64) :: u8) = (take_bit 8 w :: u64)"
  by (rule bit_word_eqI) (auto simp: bit_simps)

lemma byte_collect: "take_bit n v OR push_bit n (take_bit 8 (drop_bit n v)) = take_bit (n + 8) (v :: u64)"
  by (rule bit_word_eqI) (auto simp: bit_simps not_le)

lemma load_store64: "load64 p (store64 p v m) = v"
proof -
  have "load64 p (store64 p v m) = 
    take_bit 8 v OR push_bit 8 (take_bit 8 (drop_bit 8 v)) OR push_bit 16 (take_bit 8 (drop_bit 16 v)) OR
    push_bit 24 (take_bit 8 (drop_bit 24 v)) OR push_bit 32 (take_bit 8 (drop_bit 32 v)) OR
    push_bit 40 (take_bit 8 (drop_bit 40 v)) OR push_bit 48 (take_bit 8 (drop_bit 48 v)) OR push_bit 56 (take_bit 8 (drop_bit 56 v))"
    unfolding load64_def store64_def by (simp add: ucast_u8_back)
  also have "\<dots> = v"
    using byte_collect [of 8 v] byte_collect [of 16 v] byte_collect [of 24 v] byte_collect [of 32 v]
      byte_collect [of 40 v] byte_collect [of 48 v] byte_collect [of 56 v] by (simp flip: or.assoc)
  finally show ?thesis .
qed

lemma store_bytes_apply:
  "unat p + length bs \<le> 2 ^ 64 \<Longrightarrow> store_bytes p bs m x = (if unat (x - p) < length bs then bs ! unat (x - p) else m x)"
proof (induction bs arbitrary: p m)
  case (Cons b bs)
  show ?case
  proof (cases "bs = []")
    case True
    then show ?thesis using unat_diff_0 [of x p] by (auto simp: less_Suc_eq_0_disj)
  next
    case False
    then have p1: "unat (p + 1) = unat p + 1" using Cons.prems by (cases bs) (simp_all add: unat_plus_small)
    have ih: "store_bytes (p + 1) bs (m(p := b)) x =
        (if unat (x - (p + 1)) < length bs then bs ! unat (x - (p + 1)) else (m(p := b)) x)"
      using Cons p1 by simp
    have w: "unat (x - p) < Suc (length bs) \<longleftrightarrow> unat p \<le> unat x \<and> unat x < unat p + Suc (length bs)"
      "unat (x - (p + 1)) < length bs \<longleftrightarrow> unat (p + 1) \<le> unat x \<and> unat x < unat (p + 1) + length bs"
      using window_iff [of p "Suc (length bs)" x] window_iff [of "p + 1" "length bs" x] Cons.prems p1 by simp_all
    have e: "unat x = unat p \<longleftrightarrow> x = p" by (rule word_unat_eq_iff [symmetric])
    show ?thesis
    proof (cases "unat p + 1 \<le> unat x")
      case True
      then have "unat (x - p) = Suc (unat (x - (p + 1)))" using p1 by (simp add: unat_sub word_le_nat_alt)
      then show ?thesis using ih True w p1 e by auto
    next
      case False
      then have "x \<noteq> p \<Longrightarrow> \<not> unat p \<le> unat x" using e by linarith
      then show ?thesis using ih False w p1 by auto
    qed
  qed
qed simp

lemma memset_loop_apply:
  "unat (d + i) + n \<le> 2 ^ 64 \<Longrightarrow> memset_loop d c i n m x = (if unat (x - (d + i)) < n then c else m x)"
proof (induction n arbitrary: i m)
  case (Suc n)
  show ?case
  proof (cases "n = 0")
    case True
    then show ?thesis using unat_diff_0 [of x "d + i"] by auto
  next
    case False
    then have p1: "unat (d + (i + 1)) = unat (d + i) + 1" 
      using Suc.prems by (simp add: unat_plus_small flip: add.assoc)
    have ih: "memset_loop d c (i + 1) n (m(d + i := c)) x =
        (if unat (x - (d + (i + 1))) < n then c else (m(d + i := c)) x)"
      by (rule Suc.IH) (use Suc.prems p1 in simp)
    have w: "unat (x - (d + i)) < Suc n \<longleftrightarrow> unat (d + i) \<le> unat x \<and> unat x < unat (d + i) + Suc n"
      "unat (x - (d + (i + 1))) < n \<longleftrightarrow> unat (d + (i + 1)) \<le> unat x \<and> unat x < unat (d + (i + 1)) + n"
      using window_iff [of "d + i" "Suc n" x] window_iff [of "d + (i + 1)" n x] Suc.prems p1 by simp_all
    have e: "unat x = unat (d + i) \<longleftrightarrow> x = d + i" by (rule word_unat_eq_iff [symmetric])
    show ?thesis using ih w p1 e by auto
  qed
qed simp

lemma memset_apply:
  "unat d + unat n \<le> 2 ^ 64 \<Longrightarrow> memset d c n m x = (if unat (x - d) < unat n then ucast c else m x)"
  using memset_loop_apply [of d 0 "unat n" "ucast c" m x] by (simp add: memset_def)

section \<open>Pages and entries\<close>

lemma page_of_iff:
  assumes "q mod PGSIZE = 0"
  shows "PGROUNDDOWN x = q \<longleftrightarrow> unat (x - q) < 4096"
proof -
  have a: "unat q mod 4096 = 0" using assms by (simp add: unat_mod_page)
  then obtain k where k: "unat q = 4096 * k" by auto
  have "unat q < 2 ^ 64" using unat_u64_less [of q] by simp
  then have "k < 2 ^ 52" using k by simp
  then have le: "unat q + 4096 \<le> 2 ^ 64" using k by simp
  have "PGROUNDDOWN x = q \<longleftrightarrow> unat x div 4096 * 4096 = unat q"
    by (simp add: word_unat_eq_iff unat_PGROUNDDOWN)
  also have "\<dots> \<longleftrightarrow> unat q \<le> unat x \<and> unat x < unat q + 4096"
    unfolding k by auto
  finally show ?thesis unfolding window_iff [OF le] .
qed

lemma PGROUNDDOWN_aligned: "PGROUNDDOWN x mod PGSIZE = 0"
  by (simp add: unat_mod_page unat_PGROUNDDOWN)

lemma page_of_self: "q mod PGSIZE = 0 \<Longrightarrow> PGROUNDDOWN q = q"
  by (simp add: page_of_iff)

abbreviation (input) slot :: "u64 \<Rightarrow> nat \<Rightarrow> u64" where "slot q i \<equiv> q + 8 * of_nat i"

lemma unat_slot_offset: "i < 512 \<Longrightarrow> unat (8 * of_nat i :: u64) = 8 * i"
  by (simp add: unat_word_ariths unat_of_nat)

lemma in_slot:
  assumes "i < 512" and "unat (x - slot q i) < 8"
  shows "unat (x - q) = unat (x - slot q i) + 8 * i"
proof -
  have "x - q = (x - slot q i) + 8 * of_nat i" by simp
  then have "unat (x - q) = unat ((x - slot q i) + 8 * of_nat i)" by (rule arg_cong)
  also have "\<dots> = unat (x - slot q i) + unat (8 * of_nat i :: u64)"
    by (rule unat_plus_small, unfold unat_slot_offset [OF assms(1)]) (use assms in simp)
  finally show ?thesis unfolding unat_slot_offset [OF assms(1)] .
qed

lemma slot_page: "q mod PGSIZE = 0 \<Longrightarrow> i < 512 \<Longrightarrow> unat (x - slot q i) < 8 \<Longrightarrow> PGROUNDDOWN x = q"
  using in_slot [of i x q] by (simp add: page_of_iff)

lemma slot_disjoint: "i < 512 \<Longrightarrow> j < 512 \<Longrightarrow> i \<noteq> j \<Longrightarrow> unat (x - slot q i) < 8 \<Longrightarrow> 8 \<le> unat (x - slot q j)"
  using in_slot [of i x q] in_slot [of j x q] by linarith

definition entry :: "u64 \<Rightarrow> nat \<Rightarrow> mem \<Rightarrow> u64" where
  "entry q i m = load64 (slot q i) m"

definition same_page :: "u64 \<Rightarrow> mem \<Rightarrow> mem \<Rightarrow> bool" where
  "same_page q m m' \<longleftrightarrow> (\<forall>x. PGROUNDDOWN x = q \<longrightarrow> m' x = m x)"

lemma entry_same: "q mod PGSIZE = 0 \<Longrightarrow> same_page q m m' \<Longrightarrow> i < 512 \<Longrightarrow> entry q i m' = entry q i m"
  unfolding entry_def by (rule load64_cong) (simp add: slot_page same_page_def)

lemma entry_store:
  assumes "q mod PGSIZE = 0" and "i < 512" and "j < 512"
  shows "entry q j (store64 (slot q i) v m) = (if j = i then v else entry q j m)"
proof (cases "j = i")
  case False
  have "load64 (slot q j) (store64 (slot q i) v m) = load64 (slot q j) m"
    by (rule load64_cong) (rule store64_other, rule slot_disjoint [OF assms(3,2) False])
  then show ?thesis using False by (simp add: entry_def)
qed (simp add: entry_def load_store64)

lemma store_slot_other: "q mod PGSIZE = 0 \<Longrightarrow> i < 512 \<Longrightarrow> PGROUNDDOWN x \<noteq> q \<Longrightarrow> store64 (slot q i) v m x = m x"
  by (rule store64_other) (metis slot_page not_le)

definition px :: "nat \<Rightarrow> u64 \<Rightarrow> nat" where "px l va = unat (PX l va)"

lemma PX_px: "PX l va = of_nat (px l va)" by (simp add: px_def)

lemma px_less: "px l va < 512"
proof -
  have "PX l va = take_bit 9 (drop_bit (12 + 9 * l) va)" by (simp add: PX_def and_masks)
  then have "unat (PX l va) = take_bit 9 (unat (drop_bit (12 + 9 * l) va))" by (simp add: unsigned_take_bit_eq)
  then show ?thesis by (simp add: px_def take_bit_eq_mod)
qed

lemma bit_PX: "bit (PX l va) n \<longleftrightarrow> n < 9 \<and> bit va (12 + 9 * l + n)"
  by (auto simp: PX_def and_masks bit_simps)

lemma high_bits:
  assumes "unat (v :: u64) < 2 ^ k" and "k \<le> n"
  shows "\<not> bit v n"
proof -
  have "unat (take_bit k v) = unat v" using assms(1) by (simp add: unsigned_take_bit_eq take_bit_nat_eq_self)
  then have "take_bit k v = v" by (simp add: word_unat_eq_iff)
  then show ?thesis using assms(2) by (metis bit_take_bit_iff not_le)
qed

text \<open>The indices and the page of an address below \<open>MAXVA\<close> determine each other.\<close>

lemma px_page:
  assumes "va < MAXVA" and "va' < MAXVA" and "px 0 va = px 0 va'" and "px 1 va = px 1 va'" and "px 2 va = px 2 va'"
  shows "PGROUNDDOWN va = PGROUNDDOWN va'"
proof (rule bit_word_eqI)
  fix n assume n: "n < LENGTH(64)"
  have m: "(4095 :: u64) = mask 12" by (simp add: mask_eq_exp_minus_1)
  have e: "PX l va = PX l va'" if "l \<in> {0, 1, 2}" for l using that assms(3-5) by (auto simp: px_def word_unat_eq_iff)
  have hi: "\<not> bit v n" if "v < MAXVA" "38 \<le> n" for v :: u64
    using that high_bits [of v 38 n] by (simp add: word_less_nat_alt)
  consider "n < 12" | "12 \<le> n" "n < 21" | "21 \<le> n" "n < 30" | "30 \<le> n" "n < 38" | "38 \<le> n" by linarith
  then have "12 \<le> n \<Longrightarrow> bit va n = bit va' n"
  proof cases
    case 2
    then have "n - 12 < 9" "12 + 9 * 0 + (n - 12) = n" by simp_all
    then show ?thesis using bit_PX [of 0 va "n - 12"] bit_PX [of 0 va' "n - 12"] e [of 0] by (simp del: add_diff_assoc)
  next
    case 3
    then have "n - 21 < 9" "12 + 9 * 1 + (n - 21) = n" by simp_all
    then show ?thesis using bit_PX [of 1 va "n - 21"] bit_PX [of 1 va' "n - 21"] e [of 1] by (simp del: add_diff_assoc)
  next
    case 4
    then have "n - 30 < 9" "12 + 9 * 2 + (n - 30) = n" by simp_all
    then show ?thesis using bit_PX [of 2 va "n - 30"] bit_PX [of 2 va' "n - 30"] e [of 2] by (simp del: add_diff_assoc)
  qed (use hi assms(1,2) in simp_all)
  then show "bit (PGROUNDDOWN va) n = bit (PGROUNDDOWN va') n"
    using n unfolding PGROUNDDOWN_def m by (auto simp: bit_simps simp del: mask_numeral)
qed

lemma px_same_page: "PGROUNDDOWN va = PGROUNDDOWN va' \<Longrightarrow> px l va = px l va'"
proof -
  assume a: "PGROUNDDOWN va = PGROUNDDOWN va'"
  have m: "(4095 :: u64) = mask 12" by (simp add: mask_eq_exp_minus_1)
  have b: "bit va n = bit va' n" if "12 \<le> n" for n
  proof (cases "n < 64")
    case True
    have "bit (PGROUNDDOWN va) n = bit (PGROUNDDOWN va') n" using a by simp
    then show ?thesis using that True unfolding PGROUNDDOWN_def m by (auto simp: bit_simps simp del: mask_numeral)
  next
    case False
    then show ?thesis using bit_imp_le_length [of va n] bit_imp_le_length [of va' n] by auto
  qed
  have "PX l va = PX l va'" by (rule bit_word_eqI) (simp add: bit_PX b)
  then show ?thesis by (simp add: px_def)
qed

lemma valid_pte_bit: "valid_pte e \<longleftrightarrow> bit e 0"
  by (simp add: valid_pte_def PTE_V_def and_one_eq odd_iff_mod_2_eq_one [symmetric] bit_0)

lemma pte_roundtrip:
  assumes "pa mod PGSIZE = 0" and "pa < PHYSTOP" and "perm < 0x400"
  shows "PTE2PA (PA2PTE pa OR perm OR PTE_V) = pa" "valid_pte (PA2PTE pa OR perm OR PTE_V)"
    "PTE2PA (PA2PTE pa OR PTE_V) = pa" "valid_pte (PA2PTE pa OR PTE_V)"
proof -
  have low: "\<not> bit pa n" if "n < 12" for n
  proof -
    have "take_bit 12 pa = 0" using assms(1) by (simp add: take_bit_eq_mod)
    then show ?thesis using that by (metis bit_take_bit_iff bit_0_eq bot_apply bot_bool_def)
  qed
  have p: "\<not> bit pa n" if "32 \<le> n" for n
    using high_bits [of pa 32 n] assms(2) that by (simp add: word_less_nat_alt)
  have f: "\<not> bit perm n" if "10 \<le> n" for n
    using high_bits [of perm 10 n] assms(3) that by (simp add: word_less_nat_alt)
  have bits: "bit pa n \<Longrightarrow> 12 \<le> n \<and> n < 32" for n using low p by (metis not_le)
  have v: "bit PTE_V n \<longleftrightarrow> n = 0" for n by (simp add: PTE_V_def bit_1_iff)
  have 1: "PTE2PA (PA2PTE pa OR w OR PTE_V) = pa" if "\<And>n. 10 \<le> n \<Longrightarrow> \<not> bit w n" for w
    by (rule bit_word_eqI, unfold PTE2PA_def PA2PTE_def, simp add: bit_simps v that) (use bits in \<open>auto simp: le_imp_diff_is_add\<close>)
  show "PTE2PA (PA2PTE pa OR perm OR PTE_V) = pa" by (rule 1 [OF f])
  show "PTE2PA (PA2PTE pa OR PTE_V) = pa" using 1 [of 0] by simp
  show "valid_pte (PA2PTE pa OR perm OR PTE_V)" "valid_pte (PA2PTE pa OR PTE_V)"
    by (simp_all add: valid_pte_bit bit_simps v)
qed

section \<open>Page tables\<close>

fun tset :: "nat \<Rightarrow> u64 \<Rightarrow> mem \<Rightarrow> u64 set" where
  "tset 0 pt m = {pt}"
| "tset (Suc l) pt m =
     insert pt (\<Union>i \<in> {..<512}. if valid_pte (entry pt i m) then tset l (PTE2PA (entry pt i m)) m else {})"

fun twf :: "nat \<Rightarrow> u64 \<Rightarrow> mem \<Rightarrow> bool" where
  "twf 0 pt m = True"
| "twf (Suc l) pt m \<longleftrightarrow>
     (\<forall>i < 512. valid_pte (entry pt i m) \<longrightarrow>
        twf l (PTE2PA (entry pt i m)) m \<and> pt \<notin> tset l (PTE2PA (entry pt i m)) m) \<and>
     (\<forall>i < 512. \<forall>j < 512. i \<noteq> j \<longrightarrow> valid_pte (entry pt i m) \<longrightarrow> valid_pte (entry pt j m) \<longrightarrow>
        tset l (PTE2PA (entry pt i m)) m \<inter> tset l (PTE2PA (entry pt j m)) m = {})"

fun leaf :: "nat \<Rightarrow> u64 \<Rightarrow> u64 \<Rightarrow> mem \<Rightarrow> u64 option" where
  "leaf 0 pt va m = Some pt"
| "leaf (Suc l) pt va m =
     (let e = entry pt (px (Suc l) va) m in if valid_pte e then leaf l (PTE2PA e) va m else None)"

text \<open>The entry of a page, if it is mapped.\<close>

definition lookup :: "nat \<Rightarrow> u64 \<Rightarrow> u64 \<Rightarrow> mem \<Rightarrow> u64 option" where
  "lookup l pt va m = (case leaf l pt va m of
     None \<Rightarrow> None
   | Some q \<Rightarrow> let e = entry q (px 0 va) m in if valid_pte e then Some e else None)"

lemma lookup_Suc:
  "lookup (Suc l) pt va m =
     (let e = entry pt (px (Suc l) va) m in if valid_pte e then lookup l (PTE2PA e) va m else None)"
  by (simp add: lookup_def Let_def)

text \<open>Well formed, with every page of the table allocated.\<close>

definition tok :: "u64 \<Rightarrow> nat \<Rightarrow> u64 \<Rightarrow> mem \<Rightarrow> u64 list \<Rightarrow> bool" where
  "tok kend l pt m ps \<longleftrightarrow> twf l pt m \<and> (\<forall>q \<in> tset l pt m. page_ok kend q \<and> q \<notin> set ps)"

lemma root_in_tset [simp]: "pt \<in> tset l pt m"
  by (cases l) auto

lemma child_tset: "i < 512 \<Longrightarrow> valid_pte (entry pt i m) \<Longrightarrow> tset l (PTE2PA (entry pt i m)) m \<subseteq> tset (Suc l) pt m"
  by auto

lemma tok_child:
  assumes "tok kend (Suc l) pt m ps" and "i < 512" and "valid_pte (entry pt i m)"
  shows "tok kend l (PTE2PA (entry pt i m)) m ps"
  using assms child_tset [OF assms(2,3), of l] by (auto simp: tok_def)

lemma tok_aligned: "tok kend l pt m ps \<Longrightarrow> q \<in> tset l pt m \<Longrightarrow> q mod PGSIZE = 0"
  by (auto simp: tok_def page_ok_def)

lemma leaf_in_tset: "leaf l pt va m = Some q \<Longrightarrow> q \<in> tset l pt m"
proof (induction l arbitrary: pt)
  case (Suc l)
  then show ?case using px_less [of "Suc l" va] child_tset [of "px (Suc l) va" pt m l] by (auto simp: Let_def split: if_splits)
qed simp

lemma leaf_inj:
  "twf l pt m \<Longrightarrow> leaf l pt va m = Some q \<Longrightarrow> leaf l pt va' m = Some q \<Longrightarrow> k \<in> {1..l} \<Longrightarrow> px k va = px k va'"
proof (induction l arbitrary: pt)
  case (Suc l)
  let ?e = "entry pt (px (Suc l) va) m" and ?e' = "entry pt (px (Suc l) va') m"
  have v: "valid_pte ?e" "valid_pte ?e'" "leaf l (PTE2PA ?e) va m = Some q" "leaf l (PTE2PA ?e') va' m = Some q"
    using Suc.prems by (auto simp: Let_def split: if_splits)
  then have "q \<in> tset l (PTE2PA ?e) m \<inter> tset l (PTE2PA ?e') m" using leaf_in_tset by blast
  then have same: "px (Suc l) va = px (Suc l) va'"
    using Suc.prems(1) v px_less [of "Suc l" va] px_less [of "Suc l" va'] by auto
  show ?case
  proof (cases "k = Suc l")
    case False
    then show ?thesis using Suc.IH [of "PTE2PA ?e"] Suc.prems(1,4) v same px_less [of "Suc l" va] by auto
  qed (use same in simp)
qed simp

text \<open>The table depends on its own pages only.\<close>

lemma tset_frame:
  assumes "\<And>q. q \<in> tset l pt m \<Longrightarrow> q mod PGSIZE = 0 \<and> same_page q m m'"
  shows "tset l pt m' = tset l pt m \<and> twf l pt m' = twf l pt m \<and> leaf l pt va m' = leaf l pt va m \<and>
    lookup l pt va m' = lookup l pt va m"
  using assms
proof (induction l arbitrary: pt)
  case 0
  then show ?case using entry_same [of pt m m' "px 0 va"] px_less by (simp add: lookup_def)
next
  case (Suc l)
  have e: "entry pt i m' = entry pt i m" if "i < 512" for i
    using entry_same [of pt m m' i] Suc.prems [of pt] that by simp
  have ih: "valid_pte (entry pt i m) \<Longrightarrow> tset l (PTE2PA (entry pt i m)) m' = tset l (PTE2PA (entry pt i m)) m \<and>
      twf l (PTE2PA (entry pt i m)) m' = twf l (PTE2PA (entry pt i m)) m \<and>
      leaf l (PTE2PA (entry pt i m)) va m' = leaf l (PTE2PA (entry pt i m)) va m \<and>
      lookup l (PTE2PA (entry pt i m)) va m' = lookup l (PTE2PA (entry pt i m)) va m" if "i < 512" for i
    using Suc.IH [of "PTE2PA (entry pt i m)"] Suc.prems child_tset [of i pt m l] that by blast
  have "tset (Suc l) pt m' = tset (Suc l) pt m" using e ih by simp
  moreover have "twf (Suc l) pt m' = twf (Suc l) pt m" using e ih by simp
  ultimately show ?case using e [OF px_less] ih [OF px_less] by (simp add: Let_def lookup_Suc)
qed

lemmas tset_frameD = tset_frame [THEN conjunct1] tset_frame [THEN conjunct2, THEN conjunct1]
  tset_frame [THEN conjunct2, THEN conjunct2, THEN conjunct1] tset_frame [THEN conjunct2, THEN conjunct2, THEN conjunct2]

text \<open>A change inside the child at index \<open>i\<close>, which may grow by pages \<open>N\<close> from outside.\<close>

lemma tset_child_change:
  assumes ok: "tok kend (Suc l) pt m ps" and i: "i < 512" "valid_pte (entry pt i m)"
    and c: "c = PTE2PA (entry pt i m)" and sub: "tset l c m' \<subseteq> tset l c m \<union> N" and wf: "twf l c m'"
    and N: "N \<inter> tset (Suc l) pt m = {}"
    and same: "\<And>x. PGROUNDDOWN x \<notin> tset l c m \<union> N \<Longrightarrow> m' x = m x"
  shows "twf (Suc l) pt m'" "tset (Suc l) pt m' \<subseteq> tset (Suc l) pt m \<union> N"
    "px (Suc l) va = i \<Longrightarrow> leaf (Suc l) pt va m' = leaf l c va m' \<and> lookup (Suc l) pt va m' = lookup l c va m'"
    "px (Suc l) va \<noteq> i \<Longrightarrow> leaf (Suc l) pt va m' = leaf (Suc l) pt va m \<and> lookup (Suc l) pt va m' = lookup (Suc l) pt va m"
proof -
  have w: "twf (Suc l) pt m" using ok by (simp add: tok_def)
  have root: "pt \<notin> tset l c m \<union> N" using w i c N by auto
  have e: "entry pt j m' = entry pt j m" if "j < 512" for j
    by (rule entry_same) (use tok_aligned [OF ok] root same that in \<open>auto simp: same_page_def\<close>)
  have other: "tset l (PTE2PA (entry pt j m)) m' = tset l (PTE2PA (entry pt j m)) m \<and>
      twf l (PTE2PA (entry pt j m)) m' = twf l (PTE2PA (entry pt j m)) m \<and>
      leaf l (PTE2PA (entry pt j m)) va m' = leaf l (PTE2PA (entry pt j m)) va m \<and>
      lookup l (PTE2PA (entry pt j m)) va m' = lookup l (PTE2PA (entry pt j m)) va m"
    if j: "j < 512" "j \<noteq> i" "valid_pte (entry pt j m)" for j va
  proof (rule tset_frame)
    fix q assume q: "q \<in> tset l (PTE2PA (entry pt j m)) m"
    then have qt: "q \<in> tset (Suc l) pt m" using child_tset [OF j(1,3)] by blast
    have "q \<notin> tset l c m" using w q i j c by auto
    moreover have "q \<notin> N" using N qt by blast
    ultimately show "q mod PGSIZE = 0 \<and> same_page q m m'"
      using tok_aligned [OF ok qt] same by (auto simp: same_page_def)
  qed
  have sets: "valid_pte (entry pt j m) \<Longrightarrow> tset l (PTE2PA (entry pt j m)) m' \<subseteq> tset l (PTE2PA (entry pt j m)) m \<union> (if j = i then N else {})"
    if "j < 512" for j
    using other [OF that] sub c by auto
  show "tset (Suc l) pt m' \<subseteq> tset (Suc l) pt m \<union> N"
  proof
    fix q assume "q \<in> tset (Suc l) pt m'"
    then consider "q = pt" | j where "j < 512" "valid_pte (entry pt j m)" "q \<in> tset l (PTE2PA (entry pt j m)) m'"
      using e by (auto split: if_splits)
    then show "q \<in> tset (Suc l) pt m \<union> N"
    proof cases
      case (2 j)
      then show ?thesis using sets [of j] child_tset [of j pt m l] by (auto split: if_splits)
    qed simp
  qed
  have sub_child: "tset l (PTE2PA (entry pt j m)) m \<subseteq> tset (Suc l) pt m" if "j < 512" "valid_pte (entry pt j m)" for j
    using child_tset that by blast
  show "twf (Suc l) pt m'"
  proof (unfold twf.simps, intro conjI allI impI)
    fix j assume j: "j < 512" "valid_pte (entry pt j m')"
    then have v: "valid_pte (entry pt j m)" using e by simp
    show "twf l (PTE2PA (entry pt j m')) m'"
      using w wf other [of j] j v e c by (cases "j = i") auto
    show "pt \<notin> tset l (PTE2PA (entry pt j m')) m'"
      using w sets [OF j(1) v] j v e root by (auto split: if_splits)
  next
    fix j k assume jk: "j < 512" "k < 512" "j \<noteq> k" "valid_pte (entry pt j m')" "valid_pte (entry pt k m')"
    then have v: "valid_pte (entry pt j m)" "valid_pte (entry pt k m)" using e by simp_all
    have "tset l (PTE2PA (entry pt j m)) m \<inter> tset l (PTE2PA (entry pt k m)) m = {}" using w jk v by auto
    then show "tset l (PTE2PA (entry pt j m')) m' \<inter> tset l (PTE2PA (entry pt k m')) m' = {}"
      using sets [OF jk(1) v(1)] sets [OF jk(2) v(2)] sub_child [OF jk(1) v(1)] sub_child [OF jk(2) v(2)] N jk e
      by (auto split: if_splits) blast+
  qed
  show "px (Suc l) va = i \<Longrightarrow> leaf (Suc l) pt va m' = leaf l c va m' \<and> lookup (Suc l) pt va m' = lookup l c va m'"
    using e [OF i(1)] i(2) c by (auto simp: lookup_Suc Let_def)
  show "px (Suc l) va \<noteq> i \<Longrightarrow> leaf (Suc l) pt va m' = leaf (Suc l) pt va m \<and> lookup (Suc l) pt va m' = lookup (Suc l) pt va m"
    using e [OF px_less [of "Suc l" va]] other [OF px_less] by (auto simp: lookup_Suc Let_def)
qed

text \<open>A new, empty child at index \<open>i\<close>.\<close>

lemma empty_table:
  assumes "\<And>j. j < 512 \<Longrightarrow> entry r j m = 0"
  shows "tset l r m = {r}" "twf l r m" "lookup l r va m = None"
proof -
  have v: "\<not> valid_pte 0" by (simp add: valid_pte_def)
  show "tset l r m = {r}" "twf l r m" by (cases l; simp add: assms v)+
  show "lookup l r va m = None"
    by (cases l) (simp_all add: assms v lookup_Suc Let_def px_less lookup_def [of 0])
qed

lemma tset_new_child:
  assumes ok: "tok kend (Suc l) pt m ps" and i: "i < 512" "\<not> valid_pte (entry pt i m)"
    and new: "valid_pte e" "PTE2PA e = r" "entry pt i m' = e" "\<And>j. j < 512 \<Longrightarrow> entry r j m' = 0"
    and N: "r \<notin> tset (Suc l) pt m"
    and pt': "\<And>j. j < 512 \<Longrightarrow> j \<noteq> i \<Longrightarrow> entry pt j m' = entry pt j m"
    and same: "\<And>x. PGROUNDDOWN x \<noteq> pt \<Longrightarrow> PGROUNDDOWN x \<noteq> r \<Longrightarrow> m' x = m x"
  shows "twf (Suc l) pt m'" "tset (Suc l) pt m' = insert r (tset (Suc l) pt m)"
    "lookup (Suc l) pt va m' = lookup (Suc l) pt va m"
proof -
  have w: "twf (Suc l) pt m" using ok by (simp add: tok_def)
  note emp = empty_table [of r m', OF new(4)]
  have other: "tset l (PTE2PA (entry pt j m)) m' = tset l (PTE2PA (entry pt j m)) m \<and>
      twf l (PTE2PA (entry pt j m)) m' = twf l (PTE2PA (entry pt j m)) m \<and>
      leaf l (PTE2PA (entry pt j m)) va m' = leaf l (PTE2PA (entry pt j m)) va m \<and>
      lookup l (PTE2PA (entry pt j m)) va m' = lookup l (PTE2PA (entry pt j m)) va m"
    if j: "j < 512" "valid_pte (entry pt j m)" for j va
  proof (rule tset_frame)
    fix q assume q: "q \<in> tset l (PTE2PA (entry pt j m)) m"
    then have qt: "q \<in> tset (Suc l) pt m" using child_tset [OF j] by blast
    have "q \<noteq> pt" using w q j by auto
    moreover have "q \<noteq> r" using N qt by blast
    ultimately show "q mod PGSIZE = 0 \<and> same_page q m m'"
      using tok_aligned [OF ok qt] same by (auto simp: same_page_def)
  qed
  have ej: "entry pt j m' = (if j = i then e else entry pt j m)" if "j < 512" for j using that new(3) pt' by simp
  have sets: "valid_pte (entry pt j m') \<Longrightarrow> tset l (PTE2PA (entry pt j m')) m' =
      (if j = i then {r} else tset l (PTE2PA (entry pt j m)) m)" if "j < 512" for j
    using ej [OF that] other [OF that] new(2) emp(1) by (cases "j = i") simp_all
  have c: "(if valid_pte (entry pt j m') then tset l (PTE2PA (entry pt j m')) m' else {}) =
      (if j = i then {r} else if valid_pte (entry pt j m) then tset l (PTE2PA (entry pt j m)) m else {})" if "j < 512" for j
    using sets [OF that] ej [OF that] new(1) by (cases "j = i") auto
  have "tset (Suc l) pt m' = insert pt (\<Union>j \<in> {..<512}. if j = i then {r} else
      if valid_pte (entry pt j m) then tset l (PTE2PA (entry pt j m)) m else {})"
    unfolding tset.simps by (intro arg_cong [of _ _ "insert pt"] SUP_cong) (use c in simp_all)
  also have "\<dots> = insert r (tset (Suc l) pt m)" using i by auto
  finally show "tset (Suc l) pt m' = insert r (tset (Suc l) pt m)" .
  have rp: "r \<noteq> pt" using N by auto
  have rc: "j < 512 \<Longrightarrow> valid_pte (entry pt j m) \<Longrightarrow> r \<notin> tset l (PTE2PA (entry pt j m)) m" for j
    using N child_tset [of j pt m l] by blast
  show "twf (Suc l) pt m'"
  proof (unfold twf.simps, intro conjI allI impI)
    fix j assume j: "j < 512" "valid_pte (entry pt j m')"
    then show "twf l (PTE2PA (entry pt j m')) m'" using w other [of j] ej emp(2) new(2) by (cases "j = i") auto
    show "pt \<notin> tset l (PTE2PA (entry pt j m')) m'" unfolding sets [OF j] using w j ej rp by auto
  next
    fix j k assume jk: "j < 512" "k < 512" "j \<noteq> k" "valid_pte (entry pt j m')" "valid_pte (entry pt k m')"
    show "tset l (PTE2PA (entry pt j m')) m' \<inter> tset l (PTE2PA (entry pt k m')) m' = {}"
    proof (cases "j = i \<or> k = i")
      case True
      then show ?thesis unfolding sets [OF jk(1,4)] sets [OF jk(2,5)] using jk ej rc by auto
    next
      case False
      then show ?thesis unfolding sets [OF jk(1,4)] sets [OF jk(2,5)]
        using w jk ej [OF jk(1)] ej [OF jk(2)] by simp
    qed
  qed
  show "lookup (Suc l) pt va m' = lookup (Suc l) pt va m"
    using ej [OF px_less [of "Suc l" va]] other [OF px_less [of "Suc l" va]] new(1,2) emp(3) [of l va] i(2)
    by (auto simp: lookup_Suc Let_def)
qed

section \<open>walk\<close>

lemma upd_mem_simps [simp]:
  "kdata (upd_mem f s) = f (kdata s)" "kinv kend (upd_mem f s) ps = kinv kend s ps"
  "kdata (set_pte p v s) = store64 p v (kdata s)" "kinv kend (set_pte p v s) ps = kinv kend s ps"
  by (simp_all add: upd_mem_def set_pte_def kinv_def)

lemma get_pte_entry: "get_pte (slot pt i) s = entry pt i (kdata s)"
  by (simp add: get_pte_def entry_def)

definition leaf_entry :: "nat \<Rightarrow> u64 \<Rightarrow> u64 \<Rightarrow> mem \<Rightarrow> u64" where
  "leaf_entry l pt va m = (case leaf l pt va m of None \<Rightarrow> 0 | Some q \<Rightarrow> slot q (px 0 va))"

lemma walk_from_find: "walk_from kend l pt va False s = (leaf_entry l pt va (kdata s), s)"
  by (induction l arbitrary: pt) (auto simp: leaf_entry_def PX_px get_pte_entry Let_def)

lemma page_memset:
  assumes "page_ok kend r" and "unat n = 4096"
  shows "PGROUNDDOWN x \<noteq> r \<Longrightarrow> memset r c n m x = m x" "PGROUNDDOWN x = r \<Longrightarrow> memset r c n m x = ucast c"
proof -
  have "unat r + unat n \<le> 2 ^ 64" using assms by (simp add: page_ok_def word_less_nat_alt)
  from memset_apply [OF this, of c m x] page_of_iff [of r x] assms
  show "PGROUNDDOWN x \<noteq> r \<Longrightarrow> memset r c n m x = m x" "PGROUNDDOWN x = r \<Longrightarrow> memset r c n m x = ucast c"
    by (auto simp: page_ok_def)
qed

lemma entry_zero_page:
  assumes "page_ok kend r" and "j < 512"
  shows "entry r j (memset r 0 4096 m) = 0"
proof -
  have z: "memset r 0 4096 m x = 0" if "unat (x - slot r j) < 8" for x
    using slot_page [of r j x] page_memset(2) [OF assms(1), of 4096 x 0 m] assms that by (simp add: page_ok_def)
  have "load64 (slot r j) (memset r 0 4096 m) = load64 (slot r j) (\<lambda>_. 0)"
    by (rule load64_cong) (use z in simp)
  then show ?thesis by (simp add: entry_def load64_def)
qed

text \<open>A new child, as \<open>walk\<close> makes one out of a page of the allocator.\<close>

lemma walk_new_table:
  assumes ok: "tok kend (Suc l) pt (kdata s) (r # ps)" and inv: "kinv kend s (r # ps)"
    and i: "i < 512" "\<not> valid_pte (entry pt i (kdata s))" and k: "kalloc kend s = (r, s')"
  defines "t \<equiv> set_pte (slot pt i) (PA2PTE r OR PTE_V) (upd_mem (memset r 0 4096) s')"
  shows "tok kend (Suc l) pt (kdata t) ps" "kinv kend t ps" "tset (Suc l) pt (kdata t) = insert r (tset (Suc l) pt (kdata s))"
    "valid_pte (entry pt i (kdata t))" "PTE2PA (entry pt i (kdata t)) = r" "tset l r (kdata t) = {r}"
    "lookup (Suc l) pt va (kdata t) = lookup (Suc l) pt va (kdata s)"
    "\<And>x. PGROUNDDOWN x \<notin> insert r (tset (Suc l) pt (kdata s)) \<Longrightarrow> kdata t x = kdata s x"
proof -
  have s': "kinv kend s' ps" "kdata s' = memset r 5 4096 (kdata s)" using kalloc_keeps [OF inv] k by auto
  have r: "page_ok kend r" "r \<notin> set ps" using inv by (auto simp: kinv_def)
  have N: "r \<notin> tset (Suc l) pt (kdata s)" using ok by (auto simp: tok_def)
  have rp: "r \<noteq> pt" using N by auto
  have pt: "pt mod PGSIZE = 0" by (rule tok_aligned [OF ok]) simp
  have ra: "r mod PGSIZE = 0" "r < PHYSTOP" using r by (simp_all add: page_ok_def)
  let ?m = "memset r 0 4096 (kdata s')"
  have t: "kdata t = store64 (slot pt i) (PA2PTE r OR PTE_V) ?m" by (simp add: t_def)
  have ms: "?m x = kdata s x" if "PGROUNDDOWN x \<noteq> r" for x using page_memset(1) [OF r(1)] that by (simp add: s'(2))
  have m_pt: "entry pt j ?m = entry pt j (kdata s)" if "j < 512" for j
    by (rule entry_same [OF pt _ that]) (use ms rp in \<open>auto simp: same_page_def\<close>)
  have e: "entry pt j (kdata t) = (if j = i then PA2PTE r OR PTE_V else entry pt j (kdata s))" if "j < 512" for j
    unfolding t entry_store [OF pt i(1) that] using m_pt [OF that] by simp
  have z: "entry r j (kdata t) = 0" if "j < 512" for j
  proof -
    have "entry r j (kdata t) = entry r j ?m"
      unfolding t by (rule entry_same [OF ra(1) _ that]) (use store_slot_other [OF pt i(1)] rp in \<open>auto simp: same_page_def\<close>)
    then show ?thesis using entry_zero_page [OF r(1) that] by simp
  qed
  have same: "kdata t x = kdata s x" if "PGROUNDDOWN x \<noteq> pt" "PGROUNDDOWN x \<noteq> r" for x
    unfolding t using store_slot_other [OF pt i(1) that(1)] ms [OF that(2)] by simp
  note p = pte_roundtrip(3,4) [OF ra, of 0]
  have new: "twf (Suc l) pt (kdata t)" "tset (Suc l) pt (kdata t) = insert r (tset (Suc l) pt (kdata s))"
    "lookup (Suc l) pt va (kdata t) = lookup (Suc l) pt va (kdata s)" for va
    by (rule tset_new_child [OF ok i, of "PA2PTE r OR PTE_V" r]; (use p e i z N same in simp))+
  show "tset (Suc l) pt (kdata t) = insert r (tset (Suc l) pt (kdata s))"
    "lookup (Suc l) pt va (kdata t) = lookup (Suc l) pt va (kdata s)" by (rule new)+
  show "tok kend (Suc l) pt (kdata t) ps"
    unfolding tok_def new(2) using new(1) ok r by (auto simp: tok_def)
  show "kinv kend t ps" using s'(1) by (simp add: t_def)
  show "valid_pte (entry pt i (kdata t))" "PTE2PA (entry pt i (kdata t)) = r" using p e i by simp_all
  show "tset l r (kdata t) = {r}" using empty_table(1) [of r "kdata t"] z by blast
  show "\<And>x. PGROUNDDOWN x \<notin> insert r (tset (Suc l) pt (kdata s)) \<Longrightarrow> kdata t x = kdata s x"
    by (rule same) auto
qed

text \<open>
  What \<open>walk\<close> with allocation does from \<open>s\<close> to \<open>t\<close>: it takes the pages \<open>us\<close> off the free
  list \<open>us @ qs\<close>, the table may grow by them, no mapping changes, and the entry for \<open>va\<close> is
  found unless the allocator is empty.
\<close>

definition grown :: "u64 \<Rightarrow> nat \<Rightarrow> u64 \<Rightarrow> kmem \<Rightarrow> kmem \<Rightarrow> u64 list \<Rightarrow> u64 list \<Rightarrow> bool" where
  "grown kend l pt s t us qs \<longleftrightarrow> kinv kend t qs \<and> tok kend l pt (kdata t) qs \<and>
     tset l pt (kdata t) \<subseteq> tset l pt (kdata s) \<union> set us \<and>
     (\<forall>x. PGROUNDDOWN x \<notin> tset l pt (kdata s) \<union> set us \<longrightarrow> kdata t x = kdata s x) \<and>
     (\<forall>va. lookup l pt va (kdata t) = lookup l pt va (kdata s))"

definition walk_found :: "nat \<Rightarrow> u64 \<Rightarrow> u64 \<Rightarrow> u64 \<Rightarrow> mem \<Rightarrow> u64 list \<Rightarrow> bool" where
  "walk_found l pt va p m qs \<longleftrightarrow> (if p = 0 then qs = [] else \<exists>q. leaf l pt va m = Some q \<and> p = slot q (px 0 va))"

lemma kinv_distinct: "kinv kend s (us @ qs) \<Longrightarrow> distinct (us @ qs) \<and> (\<forall>p \<in> set (us @ qs). page_ok kend p)"
  by (auto simp: kinv_def)

lemma tok_grow:
  assumes "tok kend l pt m (us @ qs)" and "kinv kend s (us @ qs)" and "twf l pt m'" and "tset l pt m' \<subseteq> tset l pt m \<union> set us"
  shows "tok kend l pt m' qs"
  using assms kinv_distinct [OF assms(2)] by (auto simp: tok_def)

lemma tok_drop: "tok kend l pt m (us @ qs) \<Longrightarrow> tok kend l pt m qs"
  by (auto simp: tok_def)

lemma grown_refl: "kinv kend s qs \<Longrightarrow> tok kend l pt (kdata s) qs \<Longrightarrow> grown kend l pt s s [] qs"
  by (simp add: grown_def)

lemma grown_child:
  assumes ok: "tok kend (Suc l) pt (kdata s) (us @ qs)" and inv: "kinv kend s (us @ qs)"
    and i: "px (Suc l) va = i" "valid_pte (entry pt i (kdata s))"
    and g: "grown kend l (PTE2PA (entry pt i (kdata s))) s t us qs"
    and f: "walk_found l (PTE2PA (entry pt i (kdata s))) va p (kdata t) qs'"
  shows "grown kend (Suc l) pt s t us qs \<and> walk_found (Suc l) pt va p (kdata t) qs'"
proof -
  let ?c = "PTE2PA (entry pt i (kdata s))"
  have i5: "i < 512" using px_less [of "Suc l" va] i(1) by simp
  have N: "set us \<inter> tset (Suc l) pt (kdata s) = {}" using ok by (auto simp: tok_def)
  have g': "tset l ?c (kdata t) \<subseteq> tset l ?c (kdata s) \<union> set us" "twf l ?c (kdata t)"
    "\<And>x. PGROUNDDOWN x \<notin> tset l ?c (kdata s) \<union> set us \<Longrightarrow> kdata t x = kdata s x"
    using g by (auto simp: grown_def tok_def)
  note ch = tset_child_change [OF ok i5 i(2) refl g'(1,2) N g'(3)]
  have l: "lookup (Suc l) pt va' (kdata t) = lookup (Suc l) pt va' (kdata s)" for va'
  proof (cases "px (Suc l) va' = i")
    case True
    then have "lookup (Suc l) pt va' (kdata t) = lookup l ?c va' (kdata t)" using ch(3) [of va'] by blast
    also have "\<dots> = lookup l ?c va' (kdata s)" using g by (simp add: grown_def)
    also have "\<dots> = lookup (Suc l) pt va' (kdata s)" using True i(2) by (simp add: lookup_Suc Let_def)
    finally show ?thesis .
  next
    case False
    then show ?thesis using ch(4) [of va'] by blast
  qed
  have sub: "tset l ?c (kdata s) \<subseteq> tset (Suc l) pt (kdata s)" by (rule child_tset [OF i5 i(2)])
  have "leaf (Suc l) pt va (kdata t) = leaf l ?c va (kdata t)" using ch(3) [of va] i(1) by blast
  then have "walk_found (Suc l) pt va p (kdata t) qs'" using f by (simp add: walk_found_def del: leaf.simps)
  moreover have "kdata t x = kdata s x" if "PGROUNDDOWN x \<notin> tset (Suc l) pt (kdata s) \<union> set us" for x
    by (rule g'(3)) (use sub that in blast)
  moreover have "tok kend (Suc l) pt (kdata t) qs" by (rule tok_grow [OF ok inv ch(1,2)])
  moreover have "kinv kend t qs" using g by (simp add: grown_def)
  ultimately show ?thesis using ch(2) l by (simp add: grown_def del: tset.simps)
qed

lemma walk_from_alloc:
  assumes "kinv kend s ps" and "tok kend l pt (kdata s) ps" and "walk_from kend l pt va True s = (p, t)"
  shows "\<exists>us qs. ps = us @ qs \<and> grown kend l pt s t us qs \<and> walk_found l pt va p (kdata t) qs"
  using assms
proof (induction l arbitrary: pt s ps)
  case 0
  have "page_ok kend pt" using "0.prems"(2) by (simp add: tok_def)
  moreover have "0 < kend" using "0.prems"(1) by (simp add: kinv_def)
  ultimately have nz: "slot pt (px 0 va) \<noteq> 0"
    using in_slot [of "px 0 va" "slot pt (px 0 va)" pt] px_less [of 0 va] page_ok_not_0 [of kend pt]
    by (auto simp: PX_px unat_sub_if' unat_eq_0) (simp add: page_ok_def word_less_nat_alt unat_slot_offset unat_plus_small flip: unat_eq_0)
  show ?case using "0.prems" nz grown_refl [of kend s ps 0 pt]
    by (intro exI [of _ "[]"] exI [of _ ps]) (auto simp: walk_found_def PX_px)
next
  case (Suc l)
  let ?i = "px (Suc l) va"
  have i: "?i < 512" by (rule px_less)
  have step: "\<exists>us qs. ps0 = us @ qs \<and> grown kend (Suc l) pt s0 t us qs \<and> walk_found (Suc l) pt va p (kdata t) qs"
    if a: "kinv kend s0 ps0" "tok kend (Suc l) pt (kdata s0) ps0" "valid_pte (entry pt ?i (kdata s0))"
      "walk_from kend l (PTE2PA (entry pt ?i (kdata s0))) va True s0 = (p, t)" for s0 ps0
  proof -
    obtain us qs where u: "ps0 = us @ qs" "grown kend l (PTE2PA (entry pt ?i (kdata s0))) s0 t us qs"
      "walk_found l (PTE2PA (entry pt ?i (kdata s0))) va p (kdata t) qs"
      using Suc.IH [OF a(1) tok_child [OF a(2) i a(3)] a(4)] by blast
    then show ?thesis using grown_child [of kend l pt s0 us qs va ?i t p qs] a by auto
  qed
  have w: "walk_from kend (Suc l) pt va True s =
      (if valid_pte (entry pt ?i (kdata s)) then walk_from kend l (PTE2PA (entry pt ?i (kdata s))) va True s
       else case kalloc kend s of (r, s) \<Rightarrow> if r = 0 then (0, s)
         else walk_from kend l r va True (set_pte (slot pt ?i) (PA2PTE r OR PTE_V) (upd_mem (memset r 0 4096) s)))"
    by (simp add: PX_px get_pte_entry Let_def)
  show ?case
  proof (cases "valid_pte (entry pt ?i (kdata s))")
    case True
    then show ?thesis using step [OF Suc.prems(1,2)] Suc.prems(3) unfolding w by simp
  next
    case inval: False
    show ?thesis
    proof (cases ps)
      case Nil
      then have "kalloc kend s = (0, s)" using kalloc_keeps [OF Suc.prems(1)] by simp
      then have "p = 0 \<and> t = s" using Suc.prems(3) inval unfolding w by simp
      then show ?thesis using Suc.prems(1,2) Nil grown_refl by (auto simp: walk_found_def)
    next
      case (Cons r ps')
      then obtain s' where k: "kalloc kend s = (r, s')" using kalloc_keeps [OF Suc.prems(1)] by auto
      let ?t = "set_pte (slot pt ?i) (PA2PTE r OR PTE_V) (upd_mem (memset r 0 4096) s')"
      note nt = walk_new_table [OF Suc.prems(2,1) [unfolded Cons] i inval k]
      have "r \<noteq> 0" using Suc.prems(1) Cons page_ok_not_0 by (auto simp: kinv_def)
      then have "walk_from kend l (PTE2PA (entry pt ?i (kdata ?t))) va True ?t = (p, t)"
        using Suc.prems(3) inval k nt(5) unfolding w by simp
      from step [OF nt(2,1,4) this] obtain us qs where u: "ps' = us @ qs" "grown kend (Suc l) pt ?t t us qs"
        "walk_found (Suc l) pt va p (kdata t) qs" by blast
      have "grown kend (Suc l) pt s t (r # us) qs"
        unfolding grown_def
      proof (intro conjI allI impI)
        show "tset (Suc l) pt (kdata t) \<subseteq> tset (Suc l) pt (kdata s) \<union> set (r # us)"
          using u(2) nt(3) unfolding grown_def by (auto simp del: tset.simps)
        fix x assume x: "PGROUNDDOWN x \<notin> tset (Suc l) pt (kdata s) \<union> set (r # us)"
        then have "kdata t x = kdata ?t x" using u(2) nt(3) unfolding grown_def by (auto simp del: tset.simps)
        also have "\<dots> = kdata s x" by (rule nt(8)) (use x in \<open>auto simp del: tset.simps\<close>)
        finally show "kdata t x = kdata s x" .
      next
        fix va' show "lookup (Suc l) pt va' (kdata t) = lookup (Suc l) pt va' (kdata s)"
          using u(2) nt(7) [of va'] by (simp add: grown_def)
      qed (use u(2) in \<open>simp_all add: grown_def\<close>)
      then show ?thesis using u Cons by (intro exI [of _ "r # us"] exI [of _ qs]) simp
    qed
  qed
qed

section \<open>Writing an entry of a leaf table\<close>

lemma leaf_store:
  assumes "tok kend l pt m ps" and "leaf l pt va m = Some q" and "\<And>x. PGROUNDDOWN x \<noteq> q \<Longrightarrow> m' x = m x"
  shows "twf l pt m' \<and> tset l pt m' \<subseteq> tset l pt m \<and> (\<forall>va'. leaf l pt va' m' = leaf l pt va' m)"
  using assms
proof (induction l arbitrary: pt)
  case (Suc l)
  let ?i = "px (Suc l) va"
  let ?c = "PTE2PA (entry pt ?i m)"
  have v: "valid_pte (entry pt ?i m)" "leaf l ?c va m = Some q"
    using Suc.prems(2) by (auto simp: Let_def split: if_splits)
  note ih = Suc.IH [OF tok_child [OF Suc.prems(1) px_less v(1)] v(2) Suc.prems(3)]
  have q: "q \<in> tset l ?c m" using leaf_in_tset [OF v(2)] .
  have sub: "tset l ?c m' \<subseteq> tset l ?c m \<union> {}" and wf: "twf l ?c m'" using ih by auto
  have same: "m' x = m x" if "PGROUNDDOWN x \<notin> tset l ?c m \<union> {}" for x
    by (rule Suc.prems(3)) (use q that in auto)
  have "{} \<inter> tset (Suc l) pt m = {}" by simp
  note ch = tset_child_change [OF Suc.prems(1) px_less v(1) refl sub wf this same]
  have "leaf (Suc l) pt va' m' = leaf (Suc l) pt va' m" for va'
  proof (cases "px (Suc l) va' = ?i")
    case True
    then have "leaf (Suc l) pt va' m' = leaf l ?c va' m'" using ch(3) [of va'] by blast
    also have "\<dots> = leaf (Suc l) pt va' m" using ih True v(1) by (simp add: Let_def)
    finally show ?thesis .
  next
    case False
    then show ?thesis using ch(4) [of va'] by blast
  qed
  then show ?case using ch(1,2) by auto
qed simp

lemma set_leaf_entry:
  assumes ok: "tok kend 2 pt m ps" and lf: "leaf 2 pt va m = Some q" and va: "va < MAXVA"
    and m'_def: "m' = store64 (slot q (px 0 va)) e m"
  shows "tok kend 2 pt m' ps" "tset 2 pt m' \<subseteq> tset 2 pt m"
    "va' < MAXVA \<Longrightarrow> lookup 2 pt va' m' =
      (if PGROUNDDOWN va' = PGROUNDDOWN va then if valid_pte e then Some e else None else lookup 2 pt va' m)"
    "PGROUNDDOWN x \<notin> tset 2 pt m \<Longrightarrow> m' x = m x"
proof -
  have qt: "q \<in> tset 2 pt m" by (rule leaf_in_tset [OF lf])
  have qa: "q mod PGSIZE = 0" by (rule tok_aligned [OF ok qt])
  have same: "PGROUNDDOWN y \<noteq> q \<Longrightarrow> m' y = m y" for y
    unfolding m'_def by (rule store_slot_other [OF qa px_less])
  note st = leaf_store [OF ok lf same]
  show "tok kend 2 pt m' ps" "tset 2 pt m' \<subseteq> tset 2 pt m"
    using st ok by (auto simp: tok_def)
  show "PGROUNDDOWN x \<notin> tset 2 pt m \<Longrightarrow> m' x = m x" by (rule same) (use qt in auto)
  assume va': "va' < MAXVA"
  show "lookup 2 pt va' m' = (if PGROUNDDOWN va' = PGROUNDDOWN va then if valid_pte e then Some e else None else lookup 2 pt va' m)"
  proof (cases "leaf 2 pt va' m = Some q")
    case True
    have "px k va' = px k va" if "k \<in> {1..2}" for k
      using leaf_inj [of 2 pt m va' q va k] True lf that ok by (simp add: tok_def)
    then have "px 1 va' = px 1 va" "px 2 va' = px 2 va" by simp_all
    then have "PGROUNDDOWN va' = PGROUNDDOWN va \<longleftrightarrow> px 0 va' = px 0 va"
      using px_page [OF va' va] px_same_page [of va' va 0] by blast
    moreover have "entry q (px 0 va') m' = (if px 0 va' = px 0 va then e else entry q (px 0 va') m)"
      unfolding m'_def by (rule entry_store [OF qa px_less px_less])
    ultimately show ?thesis using True st by (simp add: lookup_def)
  next
    case False
    have "PGROUNDDOWN va' \<noteq> PGROUNDDOWN va"
    proof
      assume "PGROUNDDOWN va' = PGROUNDDOWN va"
      then have "px k va' = px k va" for k by (rule px_same_page)
      then have "leaf l p va' m = leaf l p va m" for l p by (induction l arbitrary: p) (simp_all add: Let_def)
      then show False using False lf by simp
    qed
    moreover have "lookup 2 pt va' m' = lookup 2 pt va' m"
    proof (cases "leaf 2 pt va' m")
      case (Some q')
      have "q' mod PGSIZE = 0" by (rule tok_aligned [OF ok leaf_in_tset [OF Some]])
      then have "entry q' (px 0 va') m' = entry q' (px 0 va') m"
        by (rule entry_same [OF _ _ px_less]) (use same Some False in \<open>auto simp: same_page_def\<close>)
      then show ?thesis using st Some by (simp add: lookup_def)
    qed (use st in \<open>simp add: lookup_def\<close>)
    ultimately show ?thesis by simp
  qed
qed

lemma lookup_leaf:
  "leaf l pt va m = Some q \<Longrightarrow> lookup l pt va m = (let e = entry q (px 0 va) m in if valid_pte e then Some e else None)"
  by (simp add: lookup_def)

section \<open>mappages\<close>

lemma page_between:
  fixes a b v :: nat
  assumes "a mod 4096 = 0" and "v mod 4096 = 0"
  shows "v < a + 4096 * Suc n \<and> a \<le> v \<longleftrightarrow> v = a \<or> a + 4096 \<le> v \<and> v < a + 4096 + 4096 * n"
proof -
  obtain i j where "a = 4096 * i" "v = 4096 * j" using assms by (metis dvd_def mod_eq_0_iff_dvd)
  then show ?thesis by auto
qed

text \<open>
  From \<open>s\<close> to \<open>t\<close> the table took the pages \<open>us\<close>, nothing outside the table and these pages
  was written, and the mappings are now \<open>M\<close>.
\<close>

definition remapped :: "u64 \<Rightarrow> u64 \<Rightarrow> kmem \<Rightarrow> kmem \<Rightarrow> u64 list \<Rightarrow> u64 list \<Rightarrow> (u64 \<Rightarrow> u64 option) \<Rightarrow> bool" where
  "remapped kend pt s t us qs M \<longleftrightarrow> kinv kend t qs \<and> tok kend 2 pt (kdata t) qs \<and>
     tset 2 pt (kdata t) \<subseteq> tset 2 pt (kdata s) \<union> set us \<and>
     (\<forall>x. PGROUNDDOWN x \<notin> tset 2 pt (kdata s) \<union> set us \<longrightarrow> kdata t x = kdata s x) \<and>
     (\<forall>va < MAXVA. lookup 2 pt va (kdata t) = M va)"

lemma remapped_trans:
  assumes "remapped kend pt s t us (vs @ qs) M" and "remapped kend pt t u vs qs N"
  shows "remapped kend pt s u (us @ vs) qs N"
  unfolding remapped_def
proof (intro conjI allI impI)
  show "tset 2 pt (kdata u) \<subseteq> tset 2 pt (kdata s) \<union> set (us @ vs)"
    using assms unfolding remapped_def by auto
  fix x assume x: "PGROUNDDOWN x \<notin> tset 2 pt (kdata s) \<union> set (us @ vs)"
  have "tset 2 pt (kdata t) \<subseteq> tset 2 pt (kdata s) \<union> set us" using assms(1) by (simp add: remapped_def)
  then have "PGROUNDDOWN x \<notin> tset 2 pt (kdata t) \<union> set vs" using x by auto
  then show "kdata u x = kdata s x" using assms x by (simp add: remapped_def)
qed (use assms in \<open>simp_all add: remapped_def\<close>)

lemma walk_alloc:
  assumes "kinv kend s ps" and "tok kend 2 pt (kdata s) ps" and "a < MAXVA"
  shows "\<exists>p t us qs. walk kend pt a True s = (Inr p, t) \<and> ps = us @ qs \<and>
    remapped kend pt s t us qs (\<lambda>va. lookup 2 pt va (kdata s)) \<and> walk_found 2 pt a p (kdata t) qs"
proof -
  obtain p t where w: "walk_from kend 2 pt a True s = (p, t)" by fastforce
  then have "walk kend pt a True s = (Inr p, t)" using assms(3) by (simp add: walk_def not_le)
  moreover obtain us qs where "ps = us @ qs" "grown kend 2 pt s t us qs" "walk_found 2 pt a p (kdata t) qs"
    using walk_from_alloc [OF assms(1,2) w] by blast
  ultimately show ?thesis unfolding grown_def remapped_def by blast
qed

lemma map_one:
  assumes "kinv kend t qs" and "tok kend 2 pt (kdata t) qs" and "a < MAXVA" and f: "walk_found 2 pt a p (kdata t) qs" and "p \<noteq> 0"
  shows "get_pte p t = e \<and> valid_pte e \<longleftrightarrow> lookup 2 pt a (kdata t) = Some e"
    "remapped kend pt t (set_pte p e t) [] qs
       (\<lambda>va. if PGROUNDDOWN va = PGROUNDDOWN a then if valid_pte e then Some e else None else lookup 2 pt va (kdata t))"
proof -
  obtain q where q: "leaf 2 pt a (kdata t) = Some q" "p = slot q (px 0 a)"
    using f assms(5) by (auto simp: walk_found_def)
  show "get_pte p t = e \<and> valid_pte e \<longleftrightarrow> lookup 2 pt a (kdata t) = Some e"
    using q by (auto simp: lookup_def get_pte_entry Let_def)
  note st = set_leaf_entry [OF assms(2) q(1) assms(3) refl, where e = e]
  show "remapped kend pt t (set_pte p e t) [] qs
       (\<lambda>va. if PGROUNDDOWN va = PGROUNDDOWN a then if valid_pte e then Some e else None else lookup 2 pt va (kdata t))"
    using st assms(1) by (simp add: remapped_def q(2))
qed

definition in_pages :: "u64 \<Rightarrow> nat \<Rightarrow> u64 \<Rightarrow> bool" where
  "in_pages a n va \<longleftrightarrow> unat a \<le> unat (PGROUNDDOWN va) \<and> unat (PGROUNDDOWN va) < unat a + 4096 * n"

lemma in_pages_Suc:
  assumes "a mod PGSIZE = 0" and "unat a + 4096 * Suc n < 2 ^ 64"
  shows "in_pages a (Suc n) va \<longleftrightarrow> PGROUNDDOWN va = a \<or> in_pages (a + PGSIZE) n va"
    "in_pages (a + PGSIZE) n va \<Longrightarrow> PGROUNDDOWN va \<noteq> a"
proof -
  have u: "unat (a + PGSIZE) = unat a + 4096" using assms(2) by (simp add: unat_plus_small)
  have m: "unat a mod 4096 = 0" "unat (PGROUNDDOWN va) mod 4096 = 0"
    using assms(1) PGROUNDDOWN_aligned [of va] by (simp_all add: unat_mod_page)
  show "in_pages a (Suc n) va \<longleftrightarrow> PGROUNDDOWN va = a \<or> in_pages (a + PGSIZE) n va"
    using page_between [OF m, of n] unfolding in_pages_def u word_unat_eq_iff [of "PGROUNDDOWN va"] by auto
  show "in_pages (a + PGSIZE) n va \<Longrightarrow> PGROUNDDOWN va \<noteq> a" unfolding in_pages_def u by auto
qed

definition range_map :: "u64 \<Rightarrow> nat \<Rightarrow> u64 \<Rightarrow> u64 \<Rightarrow> (u64 \<Rightarrow> u64 option) \<Rightarrow> u64 \<Rightarrow> u64 option" where
  "range_map a n pa perm M va =
     (if in_pages a n va then Some (PA2PTE (pa + (PGROUNDDOWN va - a)) OR perm OR PTE_V) else M va)"

lemma valid_leaf_pte: "valid_pte (PA2PTE pa OR perm OR PTE_V)"
  by (simp add: valid_pte_bit bit_simps PTE_V_def)

text \<open>One turn of the loop of \<open>mappages\<close>.\<close>

lemma mappages_turn:
  assumes "kinv kend s ps" and "tok kend 2 pt (kdata s) ps" and a: "a < MAXVA" "a mod PGSIZE = 0"
    and free: "lookup 2 pt a (kdata s) = None"
  shows "\<exists>t us qs. ps = us @ qs \<and>
    (qs = [] \<and> mappages_loop kend pt a z pa perm s = (Inr (-1), t) \<and> remapped kend pt s t us qs (\<lambda>va. lookup 2 pt va (kdata s))
     \<or> mappages_loop kend pt a z pa perm s =
         (if a = z then (Inr 0, t) else mappages_loop kend pt (a + PGSIZE) z (pa + PGSIZE) perm t) \<and>
       remapped kend pt s t us qs (\<lambda>va. if PGROUNDDOWN va = a then Some (PA2PTE pa OR perm OR PTE_V) else lookup 2 pt va (kdata s)))"
proof -
  obtain p t us qs where w: "walk kend pt a True s = (Inr p, t)" "ps = us @ qs"
    and r: "remapped kend pt s t us qs (\<lambda>va. lookup 2 pt va (kdata s))" and f: "walk_found 2 pt a p (kdata t) qs"
    using walk_alloc [OF assms(1,2) a(1)] by blast
  have t: "kinv kend t qs" "tok kend 2 pt (kdata t) qs" "va < MAXVA \<Longrightarrow> lookup 2 pt va (kdata t) = lookup 2 pt va (kdata s)" for va
    using r by (simp_all add: remapped_def)
  let ?e = "PA2PTE pa OR perm OR PTE_V"
  show ?thesis
  proof (cases "p = 0")
    case True
    then have "qs = []" using f by (simp add: walk_found_def)
    moreover have "mappages_loop kend pt a z pa perm s = (Inr (-1), t)"
      using w(1) True by (simp add: mappages_loop.simps [of kend pt a])
    ultimately show ?thesis using w(2) r by blast
  next
    case False
    note m = map_one [OF t(1,2) a(1) f False]
    have "\<not> valid_pte (get_pte p t)" using m(1) [of "get_pte p t"] free t(3) [OF a(1)] by auto
    then have u: "mappages_loop kend pt a z pa perm s = (if a = z then (Inr 0, set_pte p ?e t)
        else mappages_loop kend pt (a + PGSIZE) z (pa + PGSIZE) perm (set_pte p ?e t))"
      using w False by (simp add: mappages_loop.simps [of kend pt a] Let_def)
    have "remapped kend pt s (set_pte p ?e t) (us @ []) qs
        (\<lambda>va. if PGROUNDDOWN va = PGROUNDDOWN a then if valid_pte ?e then Some ?e else None else lookup 2 pt va (kdata t))"
      by (rule remapped_trans [OF _ m(2)]) (use r in simp)
    then have "remapped kend pt s (set_pte p ?e t) us qs (\<lambda>va. if PGROUNDDOWN va = a then Some ?e else lookup 2 pt va (kdata s))"
      using t(3) by (simp add: remapped_def page_of_self [OF a(2)] valid_leaf_pte)
    then show ?thesis using u w(2) by blast
  qed
qed

lemma range_map_step:
  assumes "a mod PGSIZE = 0" and "unat a + 4096 * Suc b < 2 ^ 64"
  shows "range_map (a + PGSIZE) b (pa + PGSIZE) perm (\<lambda>va. if PGROUNDDOWN va = a then Some (PA2PTE pa OR perm OR PTE_V) else M va) =
    range_map a (Suc b) pa perm M"
proof
  fix va
  have e: "pa + PGSIZE + (PGROUNDDOWN va - (a + PGSIZE)) = pa + (PGROUNDDOWN va - a)" by simp
  show "range_map (a + PGSIZE) b (pa + PGSIZE) perm (\<lambda>va. if PGROUNDDOWN va = a then Some (PA2PTE pa OR perm OR PTE_V) else M va) va =
    range_map a (Suc b) pa perm M va"
    using in_pages_Suc [OF assms, of va] unfolding range_map_def e by auto
qed

lemma range_map_0: "range_map a 0 pa perm M = M"
  by (rule ext) (auto simp: range_map_def in_pages_def)

lemma mappages_loop_maps:
  assumes "kinv kend s ps" and "tok kend 2 pt (kdata s) ps" and "a mod PGSIZE = 0" and "unat a + 4096 * n < 2 ^ 38"
    and "\<And>va. va < MAXVA \<Longrightarrow> in_pages a (Suc n) va \<Longrightarrow> lookup 2 pt va (kdata s) = None"
  shows "\<exists>r t us qs b. mappages_loop kend pt a (a + 4096 * of_nat n) pa perm s = (Inr r, t) \<and> ps = us @ qs \<and>
    (r = 0 \<and> b = Suc n \<or> r = -1 \<and> qs = [] \<and> b \<le> n) \<and>
    remapped kend pt s t us qs (range_map a b pa perm (\<lambda>va. lookup 2 pt va (kdata s)))"
  using assms
proof (induction n arbitrary: a pa s ps)
  case 0
  have am: "a < MAXVA" using "0.prems"(4) by (simp add: word_less_nat_alt)
  have big: "unat a + 4096 * Suc 0 < 2 ^ 64" using "0.prems"(4) by simp
  have "in_pages a (Suc 0) a" using in_pages_Suc(1) [OF "0.prems"(3) big] page_of_self [OF "0.prems"(3)] by simp
  then have "lookup 2 pt a (kdata s) = None" using "0.prems"(5) am by blast
  let ?M = "\<lambda>va. lookup 2 pt va (kdata s)"
  have m: "(\<lambda>va. if PGROUNDDOWN va = a then Some (PA2PTE pa OR perm OR PTE_V) else ?M va) = range_map a (Suc 0) pa perm ?M"
    using range_map_step [OF "0.prems"(3) big, of pa perm ?M] by (simp add: range_map_0)
  from mappages_turn [OF "0.prems"(1,2) am "0.prems"(3) \<open>lookup 2 pt a (kdata s) = None\<close>, of a pa perm]
  obtain t us qs where t: "ps = us @ qs"
    "qs = [] \<and> mappages_loop kend pt a a pa perm s = (Inr (-1), t) \<and> remapped kend pt s t us qs ?M
     \<or> mappages_loop kend pt a a pa perm s = (Inr 0, t) \<and> remapped kend pt s t us qs (range_map a (Suc 0) pa perm ?M)"
    unfolding m if_P [OF refl] by blast
  from t(2) show ?case
  proof (elim disjE conjE)
    assume c: "qs = []" "mappages_loop kend pt a a pa perm s = (Inr (-1), t)" "remapped kend pt s t us qs ?M"
    show ?thesis
      by (rule exI [of _ "-1"], rule exI [of _ t], rule exI [of _ us], rule exI [of _ qs], rule exI [of _ 0]) (use c t(1) in \<open>simp add: range_map_0\<close>)
  next
    assume c: "mappages_loop kend pt a a pa perm s = (Inr 0, t)" "remapped kend pt s t us qs (range_map a (Suc 0) pa perm ?M)"
    show ?thesis
      by (rule exI [of _ 0], rule exI [of _ t], rule exI [of _ us], rule exI [of _ qs], rule exI [of _ "Suc 0"]) (use c t(1) in simp)
  qed
next
  case (Suc n)
  have am: "a < MAXVA" using Suc.prems(4) by (simp add: word_less_nat_alt)
  have big: "unat a + 4096 * Suc b < 2 ^ 64" if "b \<le> Suc n" for b using Suc.prems(4) that by simp
  have na: "unat (a + PGSIZE) = unat a + 4096" using Suc.prems(4) by (simp add: unat_plus_small)
  have "in_pages a (Suc (Suc n)) a" using in_pages_Suc(1) [OF Suc.prems(3) big] page_of_self [OF Suc.prems(3)] by simp
  then have "lookup 2 pt a (kdata s) = None" using Suc.prems(5) am by blast
  note turn = mappages_turn [OF Suc.prems(1,2) am Suc.prems(3) this, of "a + 4096 * of_nat (Suc n)" pa perm]
  have nz: "a \<noteq> a + 4096 * of_nat (Suc n)"
  proof
    assume "a = a + 4096 * of_nat (Suc n)"
    then have "unat (4096 * of_nat (Suc n) :: u64) = 0" by simp
    moreover have "unat (4096 * of_nat (Suc n) :: u64) = 4096 * Suc n"
      using Suc.prems(4) by (simp add: unat_word_ariths unat_of_nat)
    ultimately show False by simp
  qed
  obtain t us qs where t: "ps = us @ qs"
    "qs = [] \<and> mappages_loop kend pt a (a + 4096 * of_nat (Suc n)) pa perm s = (Inr (-1), t) \<and>
       remapped kend pt s t us qs (\<lambda>va. lookup 2 pt va (kdata s))
     \<or> mappages_loop kend pt a (a + 4096 * of_nat (Suc n)) pa perm s =
         mappages_loop kend pt (a + PGSIZE) (a + 4096 * of_nat (Suc n)) (pa + PGSIZE) perm t \<and>
       remapped kend pt s t us qs (\<lambda>va. if PGROUNDDOWN va = a then Some (PA2PTE pa OR perm OR PTE_V) else lookup 2 pt va (kdata s))"
    using turn nz by auto
  show ?case
  proof (cases "qs = [] \<and> mappages_loop kend pt a (a + 4096 * of_nat (Suc n)) pa perm s = (Inr (-1), t) \<and>
       remapped kend pt s t us qs (\<lambda>va. lookup 2 pt va (kdata s))")
    case True
    show ?thesis
      by (rule exI [of _ "-1"], rule exI [of _ t], rule exI [of _ us], rule exI [of _ qs], rule exI [of _ 0]) (use True t(1) in \<open>auto simp: range_map_0\<close>)
  next
    case False
    let ?M = "\<lambda>va. if PGROUNDDOWN va = a then Some (PA2PTE pa OR perm OR PTE_V) else lookup 2 pt va (kdata s)"
    have l: "mappages_loop kend pt a (a + 4096 * of_nat (Suc n)) pa perm s =
         mappages_loop kend pt (a + PGSIZE) (a + 4096 * of_nat (Suc n)) (pa + PGSIZE) perm t"
      and r: "remapped kend pt s t us qs ?M" using t(2) False by blast+
    have inv: "kinv kend t qs" "tok kend 2 pt (kdata t) qs" "va < MAXVA \<Longrightarrow> lookup 2 pt va (kdata t) = ?M va" for va
      using r by (simp_all add: remapped_def)
    have "\<exists>r u vs rs b. mappages_loop kend pt (a + PGSIZE) (a + PGSIZE + 4096 * of_nat n) (pa + PGSIZE) perm t = (Inr r, u) \<and>
      qs = vs @ rs \<and> (r = 0 \<and> b = Suc n \<or> r = -1 \<and> rs = [] \<and> b \<le> n) \<and>
      remapped kend pt t u vs rs (range_map (a + PGSIZE) b (pa + PGSIZE) perm (\<lambda>va. lookup 2 pt va (kdata t)))"
    proof (rule Suc.IH [OF inv(1,2)])
      show "(a + PGSIZE) mod PGSIZE = 0" using Suc.prems(3) unfolding unat_mod_page na by simp
      show "unat (a + PGSIZE) + 4096 * n < 2 ^ 38" using Suc.prems(4) na by simp
      fix va assume va: "va < MAXVA" "in_pages (a + PGSIZE) (Suc n) va"
      have "in_pages a (Suc (Suc n)) va" "PGROUNDDOWN va \<noteq> a"
        using in_pages_Suc [OF Suc.prems(3) big [OF order.refl], of va] va(2) by auto
      then show "lookup 2 pt va (kdata t) = None" using Suc.prems(5) inv(3) va(1) by simp
    qed
    then obtain r' u vs rs b where u: "mappages_loop kend pt (a + PGSIZE) (a + PGSIZE + 4096 * of_nat n) (pa + PGSIZE) perm t = (Inr r', u)"
      "qs = vs @ rs" "r' = 0 \<and> b = Suc n \<or> r' = -1 \<and> rs = [] \<and> b \<le> n"
      "remapped kend pt t u vs rs (range_map (a + PGSIZE) b (pa + PGSIZE) perm (\<lambda>va. lookup 2 pt va (kdata t)))" by blast
    have "remapped kend pt s u (us @ vs) rs (range_map (a + PGSIZE) b (pa + PGSIZE) perm (\<lambda>va. lookup 2 pt va (kdata t)))"
      by (rule remapped_trans [OF _ u(4)]) (use r u(2) in simp)
    moreover have "range_map (a + PGSIZE) b (pa + PGSIZE) perm (\<lambda>va. lookup 2 pt va (kdata t)) va =
        range_map a (Suc b) pa perm (\<lambda>va. lookup 2 pt va (kdata s)) va" if "va < MAXVA" for va
    proof -
      have b: "b \<le> Suc n" using u(3) by auto
      have "range_map (a + PGSIZE) b (pa + PGSIZE) perm (\<lambda>va. lookup 2 pt va (kdata t)) va =
          range_map (a + PGSIZE) b (pa + PGSIZE) perm ?M va" unfolding range_map_def inv(3) [OF that] ..
      then show ?thesis unfolding range_map_step [OF Suc.prems(3) big [OF b]] .
    qed
    ultimately have m: "remapped kend pt s u (us @ vs) rs (range_map a (Suc b) pa perm (\<lambda>va. lookup 2 pt va (kdata s)))"
      unfolding remapped_def by simp
    have e: "a + PGSIZE + 4096 * of_nat n = a + 4096 * of_nat (Suc n)" by (simp add: algebra_simps)
    show ?thesis
      by (rule exI [of _ r'], rule exI [of _ u], rule exI [of _ "us @ vs"], rule exI [of _ rs], rule exI [of _ "Suc b"])
        (use l u(1-3) t(1) m e in auto)
  qed
qed

end
