(* ===== verification/Xv7_User_Memory.thy ===== *)
theory Xv7_User_Memory
  imports Xv7_Paging
begin

text \<open>
  User memory through a page table, for \<open>copyout\<close> and \<open>copyin\<close> of \<open>xv7/kernel/vm.c\<close>.  A page
  table gives a partial map from user addresses to bytes (\<open>user_mem\<close>); the locale
  \<open>user_memory\<close> states what the rest of the kernel uses of the two copying operations.
\<close>

section \<open>User memory\<close>

lemma walkaddr_lookup:
  assumes "0 < kend" and "tok kend 2 pt (kdata s) ps"
  shows "walkaddr kend pt va s = (if MAXVA \<le> va then 0 else
    case lookup 2 pt va (kdata s) of None \<Rightarrow> 0 | Some e \<Rightarrow> if e AND PTE_U = 0 then 0 else PTE2PA e)"
proof (cases "MAXVA \<le> va")
  case False
  then have w: "walk_find kend pt va s = Inr (leaf_entry 2 pt va (kdata s))"
    by (simp add: walk_find_def walk_def walk_from_find)
  show ?thesis
  proof (cases "leaf 2 pt va (kdata s)")
    case (Some q)
    have "page_ok kend q" using leaf_in_tset [OF Some] assms(2) by (simp add: tok_def)
    then have q: "q \<noteq> 0" "q mod PGSIZE = 0" using page_ok_not_0 assms(1) by (auto simp: page_ok_def)
    have "slot q (px 0 va) \<noteq> 0"
    proof
      assume z: "slot q (px 0 va) = 0"
      have "PGROUNDDOWN 0 = q" using slot_page [OF q(2) px_less, of 0 0 va] z by simp
      moreover have "PGROUNDDOWN 0 = 0" using page_of_self [of 0] by simp
      ultimately show False using q(1) by simp
    qed
    then show ?thesis using w False Some
      by (auto simp: walkaddr_def leaf_entry_def lookup_def get_pte_entry Let_def)
  qed (use w False in \<open>simp add: walkaddr_def leaf_entry_def lookup_def\<close>)
qed (simp add: walkaddr_def)

lemma PTE2PA_aligned: "PTE2PA e mod PGSIZE = 0"
proof -
  have "take_bit 12 (PTE2PA e) = 0" unfolding PTE2PA_def by (rule bit_word_eqI) (auto simp: bit_simps)
  then show ?thesis by (simp add: take_bit_eq_mod)
qed

lemma walkaddr_aligned: "walkaddr kend pt va s mod PGSIZE = 0"
  by (simp add: walkaddr_def PTE2PA_aligned split: sum.split)

text \<open>
  The user memory of a page table: the byte a user address stands for, if it is accessible.
  \<open>user_ok\<close>: the frames are no pages of the table and no two pages share one.
\<close>

definition frame_of :: "u64 \<Rightarrow> u64 \<Rightarrow> kmem \<Rightarrow> u64 \<Rightarrow> u64" where
  "frame_of kend pt s v = walkaddr kend pt (PGROUNDDOWN v) s"

definition user_mem :: "u64 \<Rightarrow> u64 \<Rightarrow> kmem \<Rightarrow> u64 \<Rightarrow> u8 option" where
  "user_mem kend pt s v =
     (if frame_of kend pt s v = 0 then None else Some (kdata s (frame_of kend pt s v + (v - PGROUNDDOWN v))))"

definition user_ok :: "u64 \<Rightarrow> u64 \<Rightarrow> kmem \<Rightarrow> u64 list \<Rightarrow> bool" where
  "user_ok kend pt s ps \<longleftrightarrow> 0 < kend \<and> tok kend 2 pt (kdata s) ps \<and>
     (\<forall>v. frame_of kend pt s v \<notin> tset 2 pt (kdata s)) \<and>
     (\<forall>v w. frame_of kend pt s v \<noteq> 0 \<longrightarrow> frame_of kend pt s w = frame_of kend pt s v \<longrightarrow> PGROUNDDOWN w = PGROUNDDOWN v)"

lemma aligned_room:
  assumes "(q :: u64) mod PGSIZE = 0"
  shows "unat q + 4096 \<le> 2 ^ 64"
proof -
  obtain k where k: "unat q = 4096 * k" using assms by (auto simp: unat_mod_page)
  have "unat q < 2 ^ 64" using unat_u64_less [of q] by simp
  then have "k < 2 ^ 52" using k by simp
  then show ?thesis using k by simp
qed

text \<open>Writing inside a frame.\<close>

lemma store_in_frame:
  assumes ok: "user_ok kend pt s ps" and q: "frame_of kend pt s v = q" "q \<noteq> 0" and n: "d + length bs \<le> 4096" "0 < length bs"
  defines "t \<equiv> upd_mem (store_bytes (q + of_nat d) bs) s"
  shows "user_ok kend pt t ps" "frame_of kend pt t = frame_of kend pt s"
    "PGROUNDDOWN w = PGROUNDDOWN v \<Longrightarrow> user_mem kend pt t w =
       (if d \<le> unat (w - PGROUNDDOWN w) \<and> unat (w - PGROUNDDOWN w) < d + length bs
        then Some (bs ! (unat (w - PGROUNDDOWN w) - d)) else user_mem kend pt s w)"
    "PGROUNDDOWN w \<noteq> PGROUNDDOWN v \<Longrightarrow> user_mem kend pt t w = user_mem kend pt s w"
proof -
  have qa: "q mod PGSIZE = 0" using q(1) walkaddr_aligned by (auto simp: frame_of_def)
  have d: "unat (of_nat d :: u64) = d" using n by (simp add: unat_of_nat)
  have "unat q + unat (of_nat d :: u64) < 2 ^ 64" using aligned_room [OF qa] n d by linarith
  then have qd: "unat (q + of_nat d) = unat q + d" using d by (simp only: unat_plus_small)
  have st: "kdata t x = (if unat (x - (q + of_nat d)) < length bs then bs ! unat (x - (q + of_nat d)) else kdata s x)" for x
    unfolding t_def upd_mem_simps by (rule store_bytes_apply) (use aligned_room [OF qa] n qd in linarith)
  have off: "unat (x - q) = unat (x - (q + of_nat d)) + d" if "unat (x - (q + of_nat d)) < length bs" for x
  proof -
    have "unat (x - q) = unat ((x - (q + of_nat d)) + of_nat d)" by simp
    also have "\<dots> = unat (x - (q + of_nat d)) + d"
      by (subst unat_plus_small) (use that n d in simp_all)
    finally show ?thesis .
  qed
  have out: "kdata t x = kdata s x" if "PGROUNDDOWN x \<noteq> q" for x
    using st [of x] off [of x] page_of_iff [OF qa, of x] that n by auto
  have tk: "tok kend 2 pt (kdata s) ps" and k: "0 < kend" and nt: "q \<notin> tset 2 pt (kdata s)"
    using ok q by (auto simp: user_ok_def)
  have same: "p mod PGSIZE = 0 \<and> same_page p (kdata s) (kdata t)" if "p \<in> tset 2 pt (kdata s)" for p
    using tok_aligned [OF tk that] nt out that unfolding same_page_def by metis
  have fr: "tset 2 pt (kdata t) = tset 2 pt (kdata s)" "twf 2 pt (kdata t) = twf 2 pt (kdata s)"
    "lookup 2 pt va (kdata t) = lookup 2 pt va (kdata s)" for va
    by (rule tset_frameD [OF same], assumption)+
  have tk': "tok kend 2 pt (kdata t) ps" using tk fr by (simp add: tok_def)
  show f: "frame_of kend pt t = frame_of kend pt s"
    by (rule ext) (simp add: frame_of_def walkaddr_lookup [OF k tk] walkaddr_lookup [OF k tk'] fr)
  show "user_ok kend pt t ps" using ok tk' unfolding user_ok_def f fr by (elim conjE, intro conjI) assumption+
  have addr: "unat (w - PGROUNDDOWN w) < 4096" for w using page_offset [of w] by simp
  have page: "PGROUNDDOWN (frame_of kend pt s w + (w - PGROUNDDOWN w)) = frame_of kend pt s w" for w
    using page_of_iff [of "frame_of kend pt s w" "frame_of kend pt s w + (w - PGROUNDDOWN w)"] addr [of w]
    by (simp add: frame_of_def walkaddr_aligned)
  show "PGROUNDDOWN w \<noteq> PGROUNDDOWN v \<Longrightarrow> user_mem kend pt t w = user_mem kend pt s w"
  proof -
    assume "PGROUNDDOWN w \<noteq> PGROUNDDOWN v"
    then have "frame_of kend pt s w \<noteq> q" using ok q unfolding user_ok_def by metis
    then have "PGROUNDDOWN (frame_of kend pt s w + (w - PGROUNDDOWN w)) \<noteq> q" unfolding page .
    then show ?thesis unfolding user_mem_def f by (simp add: out)
  qed
  assume "PGROUNDDOWN w = PGROUNDDOWN v"
  then have fw: "frame_of kend pt s w = q" using q(1) by (simp add: frame_of_def)
  let ?o = "unat (w - PGROUNDDOWN w)"
  have sub: "q + (w - PGROUNDDOWN w) - (q + of_nat d) = (w - PGROUNDDOWN w) - of_nat d" by simp
  have dd: "unat ((w - PGROUNDDOWN w) - of_nat d) = ?o - d" if "d \<le> ?o"
    using that d by (simp add: unat_sub word_le_nat_alt)
  have ge: "4096 \<le> unat ((w - PGROUNDDOWN w) - of_nat d)" if "?o < d"
  proof -
    have "unat ((w - PGROUNDDOWN w) - of_nat d) = 2 ^ 64 + ?o - d"
      using that d by (simp add: unat_sub_if')
    then show ?thesis using n by simp
  qed
  show "user_mem kend pt t w = (if d \<le> ?o \<and> ?o < d + length bs then Some (bs ! (?o - d)) else user_mem kend pt s w)"
  proof (cases "d \<le> ?o")
    case True
    then show ?thesis unfolding user_mem_def f fw st sub using dd q(2) by auto
  next
    case False
    then show ?thesis unfolding user_mem_def f fw st sub using ge q(2) n by auto
  qed
qed

lemma in_page_split:
  assumes "0 < n"
  shows "unat (va - PGROUNDDOWN va) + in_page va n \<le> 4096" "0 < in_page va n" "in_page va n \<le> n"
    "in_page va n < n \<Longrightarrow> PGROUNDDOWN va + PGSIZE = va + of_nat (in_page va n)"
proof -
  have o: "unat (va - PGROUNDDOWN va) < 4096" unfolding page_offset by simp
  show "unat (va - PGROUNDDOWN va) + in_page va n \<le> 4096" "in_page va n \<le> n" using o by (auto simp: in_page_def)
  show "0 < in_page va n" by (rule in_page_pos [OF assms])
  assume "in_page va n < n"
  then have i: "in_page va n = 4096 - unat (va - PGROUNDDOWN va)" by (auto simp: in_page_def)
  have "(of_nat (in_page va n) :: u64) = 4096 - (va - PGROUNDDOWN va)"
    unfolding i using o by (simp add: of_nat_diff)
  then show "PGROUNDDOWN va + PGSIZE = va + of_nat (in_page va n)" by simp
qed

text \<open>The addresses of a run of bytes that stays in one page.\<close>

lemma run_in_page:
  assumes "unat (va - PGROUNDDOWN va) + n \<le> 4096"
  shows "unat (w - va) < n \<longleftrightarrow> PGROUNDDOWN w = PGROUNDDOWN va \<and>
      unat (va - PGROUNDDOWN va) \<le> unat (w - PGROUNDDOWN w) \<and> unat (w - PGROUNDDOWN w) < unat (va - PGROUNDDOWN va) + n"
    "unat (w - va) < n \<Longrightarrow> unat (w - PGROUNDDOWN w) - unat (va - PGROUNDDOWN va) = unat (w - va)"
proof -
  let ?p = "PGROUNDDOWN va"
  have pa: "?p mod PGSIZE = 0" by (rule PGROUNDDOWN_aligned)
  have s1: "PGROUNDDOWN w = ?p \<and> unat (w - ?p) = unat (w - va) + unat (va - ?p)" if "unat (w - va) < n"
  proof -
    have "w - ?p = (w - va) + (va - ?p)" by simp
    then have e: "unat (w - ?p) = unat (w - va) + unat (va - ?p)"
      using unat_plus_small [of "w - va" "va - ?p"] that assms by simp
    then show ?thesis using page_of_iff [OF pa, of w] that assms by auto
  qed
  have s2: "unat (w - va) < n" if "PGROUNDDOWN w = ?p" "unat (va - ?p) \<le> unat (w - ?p)" "unat (w - ?p) < unat (va - ?p) + n"
  proof -
    have "w - va = (w - ?p) - (va - ?p)" by simp
    then have "unat (w - va) = unat (w - ?p) - unat (va - ?p)"
      using that(2) unat_sub [of "va - ?p" "w - ?p"] by (simp add: word_le_nat_alt)
    then show ?thesis using that by simp
  qed
  show "unat (w - va) < n \<longleftrightarrow> PGROUNDDOWN w = ?p \<and> unat (va - ?p) \<le> unat (w - PGROUNDDOWN w) \<and>
      unat (w - PGROUNDDOWN w) < unat (va - ?p) + n"
  proof
    show "unat (w - va) < n \<Longrightarrow> PGROUNDDOWN w = ?p \<and> unat (va - ?p) \<le> unat (w - PGROUNDDOWN w) \<and>
        unat (w - PGROUNDDOWN w) < unat (va - ?p) + n"
      using s1 by simp
    assume a: "PGROUNDDOWN w = ?p \<and> unat (va - ?p) \<le> unat (w - PGROUNDDOWN w) \<and> unat (w - PGROUNDDOWN w) < unat (va - ?p) + n"
    then have "PGROUNDDOWN w = ?p" by blast
    from s2 [OF this] a [unfolded this] show "unat (w - va) < n" by blast
  qed
  show "unat (w - va) < n \<Longrightarrow> unat (w - PGROUNDDOWN w) - unat (va - ?p) = unat (w - va)"
    using s1 by auto
qed

lemma sub_advance:
  assumes "n < 2 ^ 63" and "n \<le> unat (w - va)"
  shows "unat (w - (va + of_nat n :: u64)) = unat (w - va) - n"
proof -
  have n: "unat (of_nat n :: u64) = n" using assms(1) by (simp add: unat_of_nat)
  have "w - (va + of_nat n) = (w - va) - of_nat n" by simp
  moreover have "unat ((w - va) - of_nat n) = unat (w - va) - n"
    using unat_sub [of "of_nat n" "w - va"] assms(2) n by (simp add: word_le_nat_alt)
  ultimately show ?thesis by (simp only:)
qed

lemma sub_behind:
  assumes "n < 2 ^ 40" and "unat (w - va) < n"
  shows "2 ^ 63 \<le> unat (w - (va + of_nat n :: u64))"
proof -
  have n: "unat (of_nat n :: u64) = n" using assms(1) by (simp add: unat_of_nat)
  have "w - (va + of_nat n) = (w - va) - of_nat n" by simp
  moreover have "unat ((w - va) - of_nat n) = 2 ^ 64 + unat (w - va) - n"
    using assms(2) n by (simp add: unat_sub_if')
  ultimately have "unat (w - (va + of_nat n)) = 2 ^ 64 + unat (w - va) - n" by (simp only:)
  then show ?thesis using assms(1) by simp
qed

lemma frame_bound:
  assumes "walkaddr kend pt (PGROUNDDOWN va) s \<noteq> 0" and "unat (va - PGROUNDDOWN va) + n \<le> 4096"
  shows "unat va + n \<le> 2 ^ 38"
proof -
  have "PGROUNDDOWN va < MAXVA" using assms(1) by (auto simp: walkaddr_def not_le split: if_splits)
  then have p: "unat (PGROUNDDOWN va) < 2 ^ 38" by (simp add: word_less_nat_alt)
  have m: "unat (PGROUNDDOWN va) mod 4096 = 0" using PGROUNDDOWN_aligned by (simp add: unat_mod_page)
  then obtain k where k: "unat (PGROUNDDOWN va) = 4096 * k" by auto
  then have "k < 2 ^ 26" using p by simp
  then have "unat (PGROUNDDOWN va) + 4096 \<le> 2 ^ 38" using k by simp
  moreover have "unat va = unat (PGROUNDDOWN va) + unat (va - PGROUNDDOWN va)"
    unfolding page_offset unat_PGROUNDDOWN by simp
  ultimately show ?thesis using assms(2) by linarith
qed

text \<open>\<open>copyout\<close> stores the bytes in the user memory.\<close>

lemma copyout_stores:
  assumes "user_ok kend pt s ps" and "copyout kend pt va bs s = (0, t)"
  shows "user_ok kend pt t ps \<and> frame_of kend pt t = frame_of kend pt s \<and> (bs \<noteq> [] \<longrightarrow> unat va + length bs \<le> 2 ^ 38) \<and>
    (\<forall>w. user_mem kend pt t w = (if unat (w - va) < length bs then Some (bs ! unat (w - va)) else user_mem kend pt s w))"
  using assms
proof (induction kend pt va bs s rule: copyout.induct)
  case (1 kend pt va bs s)
  show ?case
  proof (cases "bs = []")
    case True
    then show ?thesis using "1.prems" by (simp add: copyout.simps)
  next
    case False
    let ?q = "walkaddr kend pt (PGROUNDDOWN va) s" and ?n = "in_page va (length bs)"
    let ?d = "unat (va - PGROUNDDOWN va)"
    let ?s = "upd_mem (store_bytes (?q + (va - PGROUNDDOWN va)) (take ?n bs)) s"
    have q: "?q \<noteq> 0" and c: "copyout kend pt (PGROUNDDOWN va + PGSIZE) (drop ?n bs) ?s = (0, t)"
      using "1.prems"(2) False by (simp_all add: copyout.simps [of kend pt va] Let_def split: if_splits)
    have l: "0 < length bs" using False by simp
    note ip = in_page_split [OF l, of va]
    have st: "?d + length (take ?n bs) \<le> 4096" "0 < length (take ?n bs)" using ip by simp_all
    have f: "frame_of kend pt s va = ?q" by (simp add: frame_of_def)
    have sd: "?s = upd_mem (store_bytes (?q + of_nat ?d) (take ?n bs)) s" by simp
    note fr = store_in_frame [OF "1.prems"(1) f q st, folded sd]
    have step: "user_mem kend pt ?s w = (if unat (w - va) < ?n then Some (bs ! unat (w - va)) else user_mem kend pt s w)" for w
    proof -
      have ln: "length (take ?n bs) = ?n" using ip(3) by simp
      note r = run_in_page [OF ip(1), of w]
      show ?thesis
      proof (cases "PGROUNDDOWN w = PGROUNDDOWN va")
        case True
        show ?thesis using fr(3) [OF True] r unfolding ln by (auto simp: True)
      next
        case False
        then show ?thesis using fr(4) [OF False] r(1) by simp
      qed
    qed
    let ?va = "PGROUNDDOWN va + PGSIZE" and ?bs = "drop ?n bs"
    have ih: "user_ok kend pt t ps \<and> frame_of kend pt t = frame_of kend pt ?s \<and> (?bs \<noteq> [] \<longrightarrow> unat ?va + length ?bs \<le> 2 ^ 38) \<and>
        (\<forall>w. user_mem kend pt t w = (if unat (w - ?va) < length ?bs then Some (?bs ! unat (w - ?va)) else user_mem kend pt ?s w))"
      by (rule "1.IH" [OF False refl refl q refl fr(1) c])
    have bound: "unat va + ?n \<le> 2 ^ 38" by (rule frame_bound [OF q ip(1)])
    show ?thesis
    proof (cases "?n < length bs")
      case False
      then have "?n = length bs" using ip(3) by simp
      then show ?thesis using ih fr(2) bound step by simp
    next
      case True
      have va: "?va = va + of_nat ?n" by (rule ip(4) [OF True])
      have u: "unat ?va = unat va + ?n"
      proof -
        have "unat (of_nat ?n :: u64) = ?n" using ip(1) by (simp add: unat_of_nat)
        then show ?thesis unfolding va using unat_plus_small [of va "of_nat ?n"] bound by simp
      qed
      have len: "unat va + length bs \<le> 2 ^ 38" using ih True u ip(3) by auto
      have "user_mem kend pt t w = (if unat (w - va) < length bs then Some (bs ! unat (w - va)) else user_mem kend pt s w)" for w
      proof (cases "unat (w - va) < ?n")
        case in_n: True
        have "2 ^ 63 \<le> unat (w - ?va)" unfolding va by (rule sub_behind [OF _ in_n]) (use ip(1) in simp)
        then have "\<not> unat (w - ?va) < length ?bs" using len by simp
        then show ?thesis using ih step [of w] in_n True by simp
      next
        case out_n: False
        have "unat (w - ?va) = unat (w - va) - ?n" unfolding va by (rule sub_advance) (use ip(1) out_n in simp_all)
        then show ?thesis using ih step [of w] out_n True by (auto simp: nth_drop)
      qed
      then show ?thesis using ih fr(2) len by simp
    qed
  qed
qed

text \<open>\<open>copyin\<close> reads the user memory.\<close>

lemma copyin_reads:
  assumes "\<And>i. i < n \<Longrightarrow> user_mem kend pt s (va + of_nat i) = Some (f i)" and "n < 2 ^ 40"
  shows "copyin kend pt va n s = (0, map f [0..<n])"
  using assms
proof (induction kend pt va n s arbitrary: f rule: copyin.induct)
  case (1 kend pt va n s)
  show ?case
  proof (cases "n = 0")
    case False
    let ?q = "walkaddr kend pt (PGROUNDDOWN va) s" and ?n = "in_page va n"
    have "user_mem kend pt s va = Some (f 0)" using "1.prems"(1) [of 0] False by simp
    then have q: "?q \<noteq> 0" by (auto simp: user_mem_def frame_of_def split: if_splits)
    have l: "0 < n" using False by simp
    note ip = in_page_split [OF l, of va]
    have i_small: "unat (of_nat i :: u64) = i" if "i < 2 ^ 40" for i using that by (simp add: unat_of_nat)
    have b: "kdata s (?q + (va - PGROUNDDOWN va) + of_nat i) = f i" if "i < ?n" for i
    proof -
      have "unat (va + of_nat i - va) < ?n" using that i_small [of i] ip(3) "1.prems"(2) by simp
      then have p: "PGROUNDDOWN (va + of_nat i) = PGROUNDDOWN va" using run_in_page(1) [OF ip(1)] by blast
      have "user_mem kend pt s (va + of_nat i) = Some (f i)" using "1.prems"(1) [of i] that ip(3) by simp
      then show ?thesis using q by (simp add: user_mem_def frame_of_def p algebra_simps)
    qed
    have ld: "load_bytes (?q + (va - PGROUNDDOWN va)) ?n (kdata s) = map f [0..<?n]"
      unfolding load_bytes_def by (rule map_cong) (use b in auto)
    have rest: "copyin kend pt (PGROUNDDOWN va + PGSIZE) (n - ?n) s = (0, map (\<lambda>i. f (?n + i)) [0..<n - ?n])"
    proof (rule "1.IH" [OF False refl refl q refl])
      fix i assume i: "i < n - ?n"
      then have "PGROUNDDOWN va + PGSIZE = va + of_nat ?n" using ip(4) by simp
      then have "PGROUNDDOWN va + PGSIZE + of_nat i = va + of_nat (?n + i)" by (simp add: algebra_simps)
      then show "user_mem kend pt s (PGROUNDDOWN va + PGSIZE + of_nat i) = Some (f (?n + i))"
        using "1.prems"(1) [of "?n + i"] i by (simp only: less_diff_conv add.commute)
    qed (use "1.prems"(2) in simp)
    have "map f [0..<?n] @ map (\<lambda>i. f (?n + i)) [0..<n - ?n] = map f [0..<n]"
      by (rule nth_equalityI) (use ip(3) in \<open>auto simp: nth_append\<close>)
    then show ?thesis using False q rest ld by (simp add: copyin.simps [of kend pt va n] Let_def)
  qed (simp add: copyin.simps)
qed

text \<open>What the rest of the kernel relies on when it touches user memory.\<close>

locale user_memory =
  fixes ok :: "'s \<Rightarrow> bool" and view :: "'s \<Rightarrow> u64 \<Rightarrow> u8 option"
    and put :: "u64 \<Rightarrow> u8 list \<Rightarrow> 's \<Rightarrow> int \<times> 's" and get :: "u64 \<Rightarrow> nat \<Rightarrow> 's \<Rightarrow> int \<times> u8 list"
  assumes put_law: "ok s \<Longrightarrow> put va bs s = (0, t) \<Longrightarrow> ok t \<and> (bs \<noteq> [] \<longrightarrow> unat va + length bs \<le> 2 ^ 38) \<and>
      view t w = (if unat (w - va) < length bs then Some (bs ! unat (w - va)) else view s w)"
    and get_law: "(\<And>i. i < n \<Longrightarrow> view s (va + of_nat i) = Some (f i)) \<Longrightarrow> n < 2 ^ 40 \<Longrightarrow> get va n s = (0, map f [0..<n])"
begin

lemma put_get:
  assumes "ok s" and "put va bs s = (0, t)"
  shows "get va (length bs) t = (0, bs)"
proof -
  have len: "length bs \<le> 2 ^ 38" using put_law [OF assms, of 0] by (cases "bs = []") auto
  have "get va (length bs) t = (0, map ((!) bs) [0..<length bs])"
  proof (rule get_law)
    fix i assume i: "i < length bs"
    then have "unat (va + of_nat i - va) = i" using len by (simp add: unat_of_nat)
    then show "view t (va + of_nat i) = Some (bs ! i)" using put_law [OF assms, of "va + of_nat i"] i by simp
  qed (use len in simp)
  then show ?thesis by (simp add: map_nth)
qed

text \<open>A second store over part of the first.\<close>

lemma put_put:
  assumes "ok s" and "put va bs s = (0, t)" and "put vb cs t = (0, u)"
  shows "view u w = (if unat (w - vb) < length cs then Some (cs ! unat (w - vb))
    else if unat (w - va) < length bs then Some (bs ! unat (w - va)) else view s w)"
proof -
  have "ok t" using put_law [OF assms(1,2)] by blast
  then show ?thesis using put_law [OF assms(1,2), of w] put_law [OF _ assms(3), of w] by simp
qed

end

interpretation uspace: user_memory "\<lambda>s. user_ok kend pt s ps" "user_mem kend pt" "copyout kend pt" "copyin kend pt" for kend pt ps
proof unfold_locales
  show "user_ok kend pt s ps \<Longrightarrow> copyout kend pt va bs s = (0, t) \<Longrightarrow> user_ok kend pt t ps \<and>
      (bs \<noteq> [] \<longrightarrow> unat va + length bs \<le> 2 ^ 38) \<and>
      user_mem kend pt t w = (if unat (w - va) < length bs then Some (bs ! unat (w - va)) else user_mem kend pt s w)"
    for s va bs t w using copyout_stores by blast
  show "(\<And>i. i < n \<Longrightarrow> user_mem kend pt s (va + of_nat i) = Some (f i)) \<Longrightarrow> n < 2 ^ 40 \<Longrightarrow>
      copyin kend pt va n s = (0, map f [0..<n])" for n s va f
    by (rule copyin_reads)
qed

section \<open>Two address spaces\<close>

text \<open>An empty page table with two free pages, and one with a single user page at 0.\<close>

definition empty_space :: kmem where
  "empty_space = \<lparr>freelist = 0x80002000, knext = (\<lambda>_. 0)(0x80002000 := 0x80003000), ref_count = \<lambda>_. 0, kdata = \<lambda>_. 0\<rparr>"

definition one_page_space :: kmem where
  "one_page_space = \<lparr>freelist = 0, knext = \<lambda>_. 0, ref_count = \<lambda>_. 0,
     kdata = store64 (slot 0x80001000 0) (PA2PTE 0x80002000 OR PTE_V) (store64 (slot 0x80002000 0) (PA2PTE 0x80003000 OR PTE_V)
       (store64 (slot 0x80003000 0) (PA2PTE 0x80004000 OR PTE_U OR PTE_V) (\<lambda>_. 0)))\<rparr>"

lemma entry_zero: "entry q i (\<lambda>_. 0) = 0"
  by (simp add: entry_def load64_def)

lemma entry_store_page:
  assumes "p mod PGSIZE = 0" and "q mod PGSIZE = 0" and "i < 512" and "j < 512"
  shows "entry q j (store64 (slot p i) v m) = (if q = p \<and> j = i then v else entry q j m)"
proof (cases "q = p")
  case False
  then show ?thesis using entry_same [OF assms(2) _ assms(4)] store_slot_other [OF assms(1,3)] by (auto simp: same_page_def)
qed (use entry_store assms in auto)

lemma entry_store_first:
  "p mod PGSIZE = 0 \<Longrightarrow> q mod PGSIZE = 0 \<Longrightarrow> j < 512 \<Longrightarrow> entry q j (store64 p v m) = (if q = p \<and> j = 0 then v else entry q j m)"
  using entry_store_page [of p q 0 j v m] by simp

lemma empty_space_ok:
  "kinv 0x80000000 empty_space [0x80002000, 0x80003000]" "tok 0x80000000 2 0x80001000 (kdata empty_space) [0x80002000, 0x80003000]"
  "lookup 2 0x80001000 v (kdata empty_space) = None"
proof -
  show "kinv 0x80000000 empty_space [0x80002000, 0x80003000]" by (simp add: kinv_def empty_space_def page_ok_def)
  have e: "entry 0x80001000 j (kdata empty_space) = 0" for j by (simp add: empty_space_def entry_zero)
  note t = empty_table [of "0x80001000" "kdata empty_space", OF e]
  show "lookup 2 0x80001000 v (kdata empty_space) = None" by (rule t(3))
  show "tok 0x80000000 2 0x80001000 (kdata empty_space) [0x80002000, 0x80003000]"
    using t(1,2) [of 2] by (simp add: tok_def page_ok_def)
qed

lemma one_page_entries:
  assumes "i < 512"
  shows "entry 0x80001000 i (kdata one_page_space) = (if i = 0 then PA2PTE 0x80002000 OR PTE_V else 0)"
    "entry 0x80002000 i (kdata one_page_space) = (if i = 0 then PA2PTE 0x80003000 OR PTE_V else 0)"
    "entry 0x80003000 i (kdata one_page_space) = (if i = 0 then PA2PTE 0x80004000 OR PTE_U OR PTE_V else 0)"
  by (simp_all add: one_page_space_def entry_store_first assms entry_zero)

lemma one_page_space_ok:
  "user_ok 0x80000000 0x80001000 one_page_space []"
  "user_mem 0x80000000 0x80001000 one_page_space 0 \<noteq> None"
proof -
  let ?m = "kdata one_page_space" and ?k = "0x80000000 :: u64" and ?pt = "0x80001000 :: u64"
  have pte: "PTE2PA (PA2PTE 0x80002000 OR PTE_V) = 0x80002000" "PTE2PA (PA2PTE 0x80003000 OR PTE_V) = 0x80003000"
    "PTE2PA (PA2PTE 0x80004000 OR PTE_U OR PTE_V) = 0x80004000" "(PA2PTE 0x80004000 OR PTE_U OR PTE_V) AND PTE_U \<noteq> 0"
    by (simp_all add: PTE2PA_def PA2PTE_def PTE_V_def PTE_U_def)
  have v: "\<not> valid_pte 0" "valid_pte (PA2PTE pa OR PTE_V)" "valid_pte (PA2PTE pa OR PTE_U OR PTE_V)" for pa
    by (simp_all add: valid_pte_bit bit_simps PTE_V_def)
  have t0: "tset (Suc 0) 0x80002000 ?m = {0x80002000, 0x80003000}" "twf (Suc 0) 0x80002000 ?m"
    by (auto simp: one_page_entries v pte split: if_splits)
  have t: "tset 2 ?pt ?m = {?pt, 0x80002000, 0x80003000}" "twf 2 ?pt ?m"
    unfolding numeral_2_eq_2 tset.simps(2) [of "Suc 0"] twf.simps(2) [of "Suc 0"]
    by (auto simp: one_page_entries v pte t0 simp del: tset.simps twf.simps split: if_splits)
  have ok: "tok ?k 2 ?pt ?m []" unfolding tok_def t(1) using t(2) by (simp add: page_ok_def)
  have lk: "lookup 2 ?pt w ?m = (if px 2 w = 0 \<and> px 1 w = 0 \<and> px 0 w = 0 then Some (PA2PTE 0x80004000 OR PTE_U OR PTE_V) else None)" for w
    unfolding numeral_2_eq_2 by (simp add: lookup_Suc lookup_def [of 0] Let_def one_page_entries px_less v pte)
  have fr: "frame_of ?k ?pt one_page_space w = (if PGROUNDDOWN w < MAXVA \<and> px 2 (PGROUNDDOWN w) = 0 \<and> px 1 (PGROUNDDOWN w) = 0 \<and>
      px 0 (PGROUNDDOWN w) = 0 then 0x80004000 else 0)" for w
    unfolding frame_of_def walkaddr_lookup [OF _ ok, simplified] lk using pte by (auto simp: not_le not_less)
  show "user_ok ?k ?pt one_page_space []"
    unfolding user_ok_def
  proof (intro conjI allI impI)
    show "tok ?k 2 ?pt ?m []" by (rule ok)
    show "frame_of ?k ?pt one_page_space w \<notin> tset 2 ?pt ?m" for w unfolding fr t(1) by simp
    fix x w assume a: "frame_of ?k ?pt one_page_space x \<noteq> 0" "frame_of ?k ?pt one_page_space w = frame_of ?k ?pt one_page_space x"
    have "PGROUNDDOWN (PGROUNDDOWN w) = PGROUNDDOWN (PGROUNDDOWN x)"
      by (rule px_page) (use a in \<open>auto simp: fr split: if_splits\<close>)
    then show "PGROUNDDOWN w = PGROUNDDOWN x" by (simp add: page_of_self PGROUNDDOWN_aligned)
  qed simp
  show "user_mem ?k ?pt one_page_space 0 \<noteq> None"
    by (simp add: user_mem_def fr PGROUNDDOWN_def px_def PX_def)
qed

section \<open>Properties\<close>

text \<open>The number of pages that the range of \<open>mappages\<close> touches.\<close>

definition range_pages :: "u64 \<Rightarrow> u64 \<Rightarrow> nat" where
  "range_pages va sz = Suc (unat (PGROUNDDOWN (va + sz - 1) - PGROUNDDOWN va) div 4096)"

lemma range_end:
  assumes "0 < sz" and "unat va + unat sz \<le> 2 ^ 38"
  defines "n \<equiv> unat (PGROUNDDOWN (va + sz - 1) - PGROUNDDOWN va) div 4096"
  shows "PGROUNDDOWN (va + sz - 1) = PGROUNDDOWN va + 4096 * of_nat n" "unat (PGROUNDDOWN va) + 4096 * n < 2 ^ 38"
proof -
  let ?a = "PGROUNDDOWN va" and ?z = "PGROUNDDOWN (va + sz - 1)"
  have "sz \<noteq> 0" using assms(1) by auto
  then have s1: "unat (sz - 1) = unat sz - 1" "0 < unat sz" by (simp_all add: unat_minus_one unat_gt_0)
  have e: "va + sz - 1 = va + (sz - 1)" by simp
  have "unat (va + (sz - 1)) = unat va + unat (sz - 1)"
    by (rule unat_plus_small) (use assms(2) s1 in simp)
  then have z: "unat (va + sz - 1) = unat va + (unat sz - 1)" unfolding e using s1 by simp
  have le: "unat ?a \<le> unat ?z" unfolding unat_PGROUNDDOWN z by (intro mult_le_mono1 div_le_mono) simp
  then have d: "unat (?z - ?a) = unat ?z - unat ?a" by (simp add: unat_sub word_le_nat_alt)
  have "4096 dvd unat (?z - ?a)" unfolding d unat_PGROUNDDOWN by (intro dvd_diff_nat) simp_all
  then have n: "4096 * n = unat ?z - unat ?a" unfolding n_def d by simp
  have zb: "unat ?z < 2 ^ 38"
  proof -
    have "unat ?z \<le> unat (va + sz - 1)" using page_floor_le(1) [of "va + sz - 1"] by (simp add: word_le_nat_alt)
    then show ?thesis using z assms(2) s1(2) by linarith
  qed
  then show b: "unat ?a + 4096 * n < 2 ^ 38" using n le by simp
  have u: "unat (4096 * of_nat n :: u64) = 4096 * n" using b by (simp add: unat_word_ariths unat_of_nat)
  have "unat (?a + 4096 * of_nat n) = unat ?a + 4096 * n" using unat_plus_small [of ?a "4096 * of_nat n"] u b by simp
  then show "?z = ?a + 4096 * of_nat n" using n le by (simp add: word_unat_eq_iff)
qed

text \<open>C29: \<open>mappages\<close> on a range below \<open>MAXVA\<close> that has no mapping returns 0 with exactly the
  pages of the range mapped, in order, to the physical pages from \<open>pa\<close> on, or returns -1 with
  a prefix of them mapped and no free page left; every other mapping is as before, the page
  table stays a tree of allocated pages, and memory outside the table and the pages it took
  from the allocator is not written.\<close>

theorem mappages_adds_range:
  assumes "kinv kend s ps" and "tok kend 2 pt (kdata s) ps" and "0 < sz" and "unat va + unat sz \<le> 2 ^ 38"
    and "\<And>v. v < MAXVA \<Longrightarrow> in_pages (PGROUNDDOWN va) (range_pages va sz) v \<Longrightarrow> lookup 2 pt v (kdata s) = None"
  shows "\<exists>r t us qs b. mappages kend pt va sz pa perm s = (Inr r, t) \<and> ps = us @ qs \<and>
    (r = 0 \<and> b = range_pages va sz \<or> r = -1 \<and> qs = [] \<and> b < range_pages va sz) \<and>
    remapped kend pt s t us qs (range_map (PGROUNDDOWN va) b pa perm (\<lambda>v. lookup 2 pt v (kdata s)))"
proof -
  note e = range_end [OF assms(3,4)]
  from mappages_loop_maps [OF assms(1,2) PGROUNDDOWN_aligned e(2) assms(5) [unfolded range_pages_def], of pa perm]
  show ?thesis unfolding mappages_def e(1) [symmetric] range_pages_def less_Suc_eq_le by simp
qed

theorem mappages_adds_range_witness:
  "\<exists>r t us qs b. mappages 0x80000000 0x80001000 0 8192 0x80004000 PTE_U empty_space = (Inr r, t) \<and>
    [0x80002000, 0x80003000] = us @ qs \<and> (r = 0 \<and> b = range_pages 0 8192 \<or> r = -1 \<and> qs = [] \<and> b < range_pages 0 8192) \<and>
    remapped 0x80000000 0x80001000 empty_space t us qs (range_map (PGROUNDDOWN 0) b 0x80004000 PTE_U
      (\<lambda>v. lookup 2 0x80001000 v (kdata empty_space)))"
  by (rule mappages_adds_range [OF empty_space_ok(1,2)]) (simp_all add: empty_space_ok(3))

text \<open>C28: what \<open>copyout\<close> stored at a user address, over any number of pages, \<open>copyin\<close> reads
  back; the rest of the user memory is unchanged.\<close>

theorem copyout_copyin_roundtrip:
  assumes "user_ok kend pt s ps" and "copyout kend pt va bs s = (0, t)"
  shows "copyin kend pt va (length bs) t = (0, bs) \<and> user_ok kend pt t ps \<and>
    (\<forall>w. length bs \<le> unat (w - va) \<longrightarrow> user_mem kend pt t w = user_mem kend pt s w)"
  using uspace.put_get [OF assms] uspace.put_law [OF assms] by auto

theorem copyout_copyin_roundtrip_witness:
  "\<exists>t. copyout 0x80000000 0x80001000 0 [7] one_page_space = (0, t) \<and> copyin 0x80000000 0x80001000 0 1 t = (0, [7])"
proof -
  let ?s = "one_page_space"
  have w: "walkaddr 0x80000000 0x80001000 (PGROUNDDOWN 0) ?s \<noteq> 0"
    using one_page_space_ok(2) by (auto simp: user_mem_def frame_of_def)
  have n: "in_page 0 (Suc 0) = 1" by (simp add: in_page_def PGROUNDDOWN_def)
  obtain t where t: "copyout 0x80000000 0x80001000 0 [7] ?s = (0, t)"
    using w by (simp add: copyout.simps [of _ _ _ "[7]"] copyout.simps [of _ _ _ "[]"] n Let_def)
  from copyout_copyin_roundtrip [OF one_page_space_ok(1) t] t show ?thesis by auto
qed

end
