(* ===== verification/Xv7_Exec_Stack.thy ===== *)
theory Xv7_Exec_Stack
  imports Xv7_Exec Xv7_User_Memory
begin

text \<open>
  The argument strings that \<open>exec\<close> pushes on the new program's stack: where they lie, and that
  they are what the program reads there.
\<close>

lemma push_down_sp:
  assumes "n \<le> unat sp"
  shows "push_down sp n mod 16 = 0" and "unat (push_down sp n) + n \<le> unat sp" and "push_down sp n \<le> sp"
proof -
  let ?x = "sp - of_nat n"
  have n: "n < 2 ^ 64" using assms unsigned_less [of sp, where ?'a = nat] by simp
  have x: "unat ?x = unat sp - n"
    using assms n by (subst unat_sub) (simp_all add: word_le_nat_alt unat_of_nat take_bit_nat_eq_self)
  have m: "unat (?x mod 16) = unat ?x mod 16" by (simp add: unat_mod)
  have le: "?x mod 16 \<le> ?x" by (simp add: word_le_nat_alt m)
  have p: "unat (push_down sp n) = unat ?x - unat ?x mod 16"
    unfolding push_down_def Let_def by (subst unat_sub [OF le]) (simp add: m)
  show "push_down sp n mod 16 = 0"
    unfolding word_unat_eq_iff by (simp add: unat_mod p minus_mod_eq_mult_div)
  show u: "unat (push_down sp n) + n \<le> unat sp" using p x assms by simp
  then show "push_down sp n \<le> sp" by (simp add: word_le_nat_alt)
qed

text \<open>Strings \<open>as\<close> at the addresses \<open>us\<close>, one below the other from \<open>hi\<close> down to \<open>base\<close>.\<close>

fun on_stack :: "u64 \<Rightarrow> u64 \<Rightarrow> u8 list list \<Rightarrow> u64 list \<Rightarrow> bool" where
  "on_stack base hi [] us \<longleftrightarrow> us = []"
| "on_stack base hi (a # as) [] \<longleftrightarrow> False"
| "on_stack base hi (a # as) (u # us) \<longleftrightarrow>
     base \<le> u \<and> u mod 16 = 0 \<and> unat u + length a + 1 \<le> unat hi \<and> on_stack base u as us"

lemma exec_args_stack:
  assumes "exec_args kend pgt base argc argv hi us k = (Some (sp, vs), k')"
    and "4096 \<le> base" "base \<le> hi" and "\<forall>a \<in> set argv. length a < 4096"
  shows "\<exists>ws. vs = us @ ws \<and> on_stack base hi argv ws \<and> sp = last (hi # ws) \<and> argc + length argv \<le> max argc MAXARG"
  using assms
proof (induction argv arbitrary: argc hi us k)
  case Nil
  then show ?case by simp
next
  case (Cons a argv)
  let ?sp = "push_down hi (length a + 1)"
  have n: "length a + 1 \<le> unat hi"
    using Cons.prems(2,3,4) by (simp add: word_le_nat_alt)
  have g: "argc < MAXARG" "base \<le> ?sp" "exec_args kend pgt base (argc + 1) argv ?sp (us @ [?sp]) (snd (copyout kend pgt ?sp (a @ [0]) k)) = (Some (sp, vs), k')"
    using Cons.prems(1) by (auto simp: Let_def not_le not_less split: if_splits prod.splits)
  obtain ws where ws: "vs = (us @ [?sp]) @ ws" "on_stack base ?sp argv ws" "sp = last (?sp # ws)"
    "argc + 1 + length argv \<le> max (argc + 1) MAXARG"
    using Cons.IH [OF g(3) Cons.prems(2) g(2)] Cons.prems(4) by auto
  show ?case
    using ws g(1,2) push_down_sp(1,2) [OF n] by (intro exI [of _ "?sp # ws"]) auto
qed


text \<open>A page table with the page at 0x2000.\<close>

definition stack_space :: kmem where
  "stack_space = \<lparr>freelist = 0, knext = \<lambda>_. 0, ref_count = \<lambda>_. 0,
     kdata = store64 (slot 0x80001000 0) (PA2PTE 0x80002000 OR PTE_V) (store64 (slot 0x80002000 0) (PA2PTE 0x80003000 OR PTE_V)
       (store64 (slot 0x80003000 2) (PA2PTE 0x80004000 OR PTE_U OR PTE_V) (\<lambda>_. 0)))\<rparr>"

lemma stack_entries:
  assumes "i < 512"
  shows "entry 0x80001000 i (kdata stack_space) = (if i = 0 then PA2PTE 0x80002000 OR PTE_V else 0)"
    "entry 0x80002000 i (kdata stack_space) = (if i = 0 then PA2PTE 0x80003000 OR PTE_V else 0)"
    "entry 0x80003000 i (kdata stack_space) = (if i = 2 then PA2PTE 0x80004000 OR PTE_U OR PTE_V else 0)"
proof -
  have e: "entry q j (store64 0x80003010 v m) = (if q = 0x80003000 \<and> j = 2 then v else entry q j m)"
    if "q mod PGSIZE = 0" "j < 512" for q j v m
    using entry_store_page [of "0x80003000" q 2 j v m] that by simp
  show "entry 0x80001000 i (kdata stack_space) = (if i = 0 then PA2PTE 0x80002000 OR PTE_V else 0)"
    "entry 0x80002000 i (kdata stack_space) = (if i = 0 then PA2PTE 0x80003000 OR PTE_V else 0)"
    "entry 0x80003000 i (kdata stack_space) = (if i = 2 then PA2PTE 0x80004000 OR PTE_U OR PTE_V else 0)"
    using assms by (simp_all add: stack_space_def entry_store_first e entry_zero)
qed

lemma stack_space_walkaddr: "walkaddr 0x80000000 0x80001000 0x2000 stack_space = 0x80004000"
proof -
  let ?m = "kdata stack_space" and ?k = "0x80000000 :: u64" and ?pt = "0x80001000 :: u64"
  have pte: "PTE2PA (PA2PTE 0x80002000 OR PTE_V) = 0x80002000" "PTE2PA (PA2PTE 0x80003000 OR PTE_V) = 0x80003000"
    "PTE2PA (PA2PTE 0x80004000 OR PTE_U OR PTE_V) = 0x80004000" "(PA2PTE 0x80004000 OR PTE_U OR PTE_V) AND PTE_U \<noteq> 0"
    by (simp_all add: PTE2PA_def PA2PTE_def PTE_V_def PTE_U_def)
  have v: "\<not> valid_pte 0" "valid_pte (PA2PTE pa OR PTE_V)" "valid_pte (PA2PTE pa OR PTE_U OR PTE_V)" for pa
    by (simp_all add: valid_pte_bit bit_simps PTE_V_def)
  have t0: "tset (Suc 0) 0x80002000 ?m = {0x80002000, 0x80003000}" "twf (Suc 0) 0x80002000 ?m"
    by (auto simp: stack_entries v pte split: if_splits)
  have t: "tset 2 ?pt ?m = {?pt, 0x80002000, 0x80003000}" "twf 2 ?pt ?m"
    unfolding numeral_2_eq_2 tset.simps(2) [of "Suc 0"] twf.simps(2) [of "Suc 0"]
    by (auto simp: stack_entries v pte t0 simp del: tset.simps twf.simps split: if_splits)
  have ok: "tok ?k 2 ?pt ?m []" unfolding tok_def t(1) using t(2) by (simp add: page_ok_def)
  have lk: "lookup 2 ?pt w ?m = (if px 2 w = 0 \<and> px 1 w = 0 \<and> px 0 w = 2 then Some (PA2PTE 0x80004000 OR PTE_U OR PTE_V) else None)" for w
    unfolding numeral_2_eq_2 by (simp add: lookup_Suc lookup_def [of 0] Let_def stack_entries px_less v pte)
  show ?thesis
    unfolding walkaddr_lookup [OF _ ok, simplified] lk using pte by (simp add: px_def PX_def)
qed


end
