(* ===== verification/Xv7_Tx.thy ===== *)
theory Xv7_Tx
  imports Xv7_Fs
begin

text \<open>
  Transactions: the contract between the log and the file system.  Inside a transaction a
  system call reads blocks, stores into the ones it holds through \<open>log_write\<close>, and releases
  them.  The locale \<open>transactions\<close> states what each of these does to the blocks, and
  derives the sequences the file system is made of; it is interpreted on the log.
\<close>

locale transactions =
  fixes tx :: "nat \<Rightarrow> 's \<Rightarrow> bool" and blocks :: "'s \<Rightarrow> 'k \<Rightarrow> 'd" and own :: "'s \<Rightarrow> 'k \<Rightarrow> int option"
    and has :: "'s \<Rightarrow> 'k \<Rightarrow> 'b \<Rightarrow> bool" and data :: "'s \<Rightarrow> 'b \<Rightarrow> 'd" and rest :: "'s \<Rightarrow> 'r" and dev :: "'k set"
    and rd :: "int \<Rightarrow> 'k \<Rightarrow> 's \<Rightarrow> (kfault, 'b, 's) outcome"
    and store :: "'b \<Rightarrow> 'd \<Rightarrow> 's \<Rightarrow> (kfault, unit, 's) outcome"
    and rel :: "int \<Rightarrow> 'b \<Rightarrow> 's \<Rightarrow> (kfault, unit, 's) outcome"
  assumes has_data: "has s k b \<Longrightarrow> data s b = blocks s k"
    and tx_rd: "tx n s \<Longrightarrow> own s k = None \<Longrightarrow> card {j. own s j \<noteq> None} \<le> 2 \<Longrightarrow>
      \<exists>b t. rd pid k s = (Inr b, t) \<and> tx n t \<and> has t k b \<and> blocks t = blocks s \<and> rest t = rest s \<and>
        own t = (own s)(k := Some pid) \<and> (\<forall>j c. own s j \<noteq> None \<longrightarrow> has s j c \<longrightarrow> has t j c)"
    and tx_store: "tx (Suc n) s \<Longrightarrow> has s k b \<Longrightarrow> own s k \<noteq> None \<Longrightarrow> k \<in> dev \<Longrightarrow>
      \<exists>t. store b x s = (Inr (), t) \<and> tx n t \<and> blocks t = (blocks s)(k := x) \<and> rest t = rest s \<and> own t = own s \<and>
        (\<forall>j c. has s j c \<longrightarrow> has t j c)"
    and tx_rel: "tx n s \<Longrightarrow> has s k b \<Longrightarrow> own s k = Some pid \<Longrightarrow>
      \<exists>t. rel pid b s = (Inr (), t) \<and> tx n t \<and> blocks t = blocks s \<and> rest t = rest s \<and> own t = (own s)(k := None) \<and>
        (\<forall>j c. has s j c \<longrightarrow> has t j c)"
    and tx_less: "tx (Suc n) s \<Longrightarrow> tx n s"
begin

text \<open>Store into a held block and release it.\<close>

lemma store_rel:
  assumes "tx (Suc n) s" and "has s k b" and "own s k = Some pid" and "k \<in> dev"
  shows "\<exists>t. bindS (store b x s) (\<lambda>_ s. rel pid b s) = (Inr (), t) \<and> tx n t \<and> blocks t = (blocks s)(k := x) \<and>
    rest t = rest s \<and> own t = (own s)(k := None) \<and> (\<forall>j c. has s j c \<longrightarrow> has t j c)"
proof -
  have "own s k \<noteq> None" using assms(3) by simp
  from tx_store [OF assms(1,2) this assms(4), of x] obtain t where t: "store b x s = (Inr (), t)" "tx n t"
    "blocks t = (blocks s)(k := x)" "rest t = rest s" "own t = own s" "\<forall>j c. has s j c \<longrightarrow> has t j c" by blast
  have "has t k b" using t(6) assms(2) by blast
  from tx_rel [OF t(2) this, of pid] t(5) assms(3) obtain u where u: "rel pid b t = (Inr (), u)" "tx n u" "blocks u = blocks t"
    "rest u = rest t" "own u = (own t)(k := None)" "\<forall>j c. has t j c \<longrightarrow> has u j c" by auto
  then show ?thesis using t by auto
qed

text \<open>Read a block, compute its new contents, store and release.\<close>

lemma update:
  assumes "tx (Suc n) s" and "own s k = None" and "card {j. own s j \<noteq> None} \<le> 2" and "k \<in> dev"
    and "\<And>t b. rest t = rest s \<Longrightarrow> data t b = blocks s k \<Longrightarrow> F t b = bindS (store b x t) (\<lambda>_ s. rel pid b s)"
  shows "\<exists>t. bindS (rd pid k s) (\<lambda>b s. F s b) = (Inr (), t) \<and> tx n t \<and> blocks t = (blocks s)(k := x) \<and>
    rest t = rest s \<and> own t = own s \<and> (\<forall>j c. own s j \<noteq> None \<longrightarrow> has s j c \<longrightarrow> has t j c)"
proof -
  from tx_rd [OF assms(1-3), of pid] obtain b t where t: "rd pid k s = (Inr b, t)" "tx (Suc n) t" "has t k b"
    "blocks t = blocks s" "rest t = rest s" "own t = (own s)(k := Some pid)"
    "\<forall>j c. own s j \<noteq> None \<longrightarrow> has s j c \<longrightarrow> has t j c" by blast
  have o: "own t k = Some pid" by (simp add: t(6))
  have F: "F t b = bindS (store b x t) (\<lambda>_ s. rel pid b s)"
    by (rule assms(5) [OF t(5)]) (simp add: has_data [OF t(3)] t(4))
  from store_rel [OF t(2,3) o assms(4), of x] obtain u where u: "F t b = (Inr (), u)" "tx n u" "blocks u = (blocks t)(k := x)"
    "rest u = rest t" "own u = (own t)(k := None)" "\<forall>j c. has t j c \<longrightarrow> has u j c" unfolding F by blast
  then show ?thesis using t assms(2) by (auto simp: fun_upd_idem)
qed

text \<open>Read a block and release it.\<close>

lemma look:
  assumes "tx n s" and "own s k = None" and "card {j. own s j \<noteq> None} \<le> 2"
  shows "\<exists>b t u. rd pid k s = (Inr b, t) \<and> data t b = blocks s k \<and> rest t = rest s \<and> rel pid b t = (Inr (), u) \<and>
    tx n u \<and> blocks u = blocks s \<and> rest u = rest s \<and> own u = own s \<and>
    (\<forall>j c. own s j \<noteq> None \<longrightarrow> has s j c \<longrightarrow> has u j c)"
proof -
  from tx_rd [OF assms, of pid] obtain b t where t: "rd pid k s = (Inr b, t)" "tx n t" "has t k b"
    "blocks t = blocks s" "rest t = rest s" "own t = (own s)(k := Some pid)"
    "\<forall>j c. own s j \<noteq> None \<longrightarrow> has s j c \<longrightarrow> has t j c" by blast
  have o: "own t k = Some pid" by (simp add: t(6))
  from tx_rel [OF t(2,3) o] obtain u where u: "rel pid b t = (Inr (), u)" "tx n u" "blocks u = blocks t" "rest u = rest t"
    "own u = (own t)(k := None)" "\<forall>j c. has t j c \<longrightarrow> has u j c" by blast
  then show ?thesis using t has_data [OF t(3)] assms(2) by (auto simp: fun_upd_idem)
qed

end

section \<open>The laws, for the log\<close>

text \<open>
  \<open>base s k\<close> counts the references to a block other than its holder's.  In a transaction on
  disk \<open>d\<close> with \<open>n\<close> more blocks to log: a block nobody but its holder references is clean,
  the logged blocks are pinned, there is log space for \<open>n\<close> blocks, and buffers for them and
  for three blocks held at a time.
\<close>

definition base :: "'a bio_scheme \<Rightarrow> bkey \<Rightarrow> u32" where
  "base s k = (if holder s k = None then refs s k else refs s k - 1)"

definition log_tx :: "u32 \<Rightarrow> nat \<Rightarrow> 'a lbio_scheme \<Rightarrow> bool" where
  "log_tx d n s \<longleftrightarrow> cache_ok s \<and> (\<forall>k. base s k = 0 \<longrightarrow> view s k = disks s k) \<and>
     (\<forall>k. holder s k \<noteq> None \<longrightarrow> refs s k \<noteq> 0) \<and>
     (\<forall>k. unat (base s k) + n + 2 < 2 ^ 32) \<and> card {k. base s k \<noteq> 0} + n + 3 \<le> NBUF \<and>
     0 \<le> lh_n (logs s d) \<and> inj_on (lh_block (logs s d)) {..<nat (lh_n (logs s d))} \<and>
     (\<forall>bn \<in> logged d s. base s (d, bn) \<noteq> 0) \<and> lh_n (logs s d) + int n \<le> int LOGSIZE \<and>
     lh_n (logs s d) + int n \<le> l_size (logs s d) - 1 \<and> 0 < l_outstanding (logs s d)"

definition log_store :: "u64 \<Rightarrow> block \<Rightarrow> 'a lbio_scheme \<Rightarrow> (kfault, unit, 'a lbio_scheme) outcome" where
  "log_store b x s = log_write b (set_data b x s)"

lemma log_put_store: "log_put pid b x s = bindS (log_store b x s) (\<lambda>_ s. brelse pid b s)"
  by (simp add: log_put_def log_store_def)

lemma logged_more: "bio.more t = bio.more s \<Longrightarrow> logged d t = logged d s"
  unfolding logged_def by (simp only: logs_more(1) [of t s])

lemma log_txD:
  assumes "log_tx d n s"
  shows "cache_ok s" "settled (cview s)" "finite {k. base s k \<noteq> 0}" "card {k. base s k \<noteq> 0} + n + 3 \<le> NBUF"
    "unat (base s k) + n + 2 < 2 ^ 32" "holder s k \<noteq> None \<Longrightarrow> refs s k \<noteq> 0"
    "used_blocks s \<subseteq> {k. base s k \<noteq> 0} \<union> {k. holder s k \<noteq> None}"
proof -
  note a = assms [unfolded log_tx_def]
  have c': "\<forall>k. base s k = 0 \<longrightarrow> view s k = disks s k" using a by (elim conjE)
  have h': "\<forall>k. holder s k \<noteq> None \<longrightarrow> refs s k \<noteq> 0" using a by (elim conjE)
  have c: "base s k = 0 \<Longrightarrow> view s k = disks s k" and h: "holder s k \<noteq> None \<Longrightarrow> refs s k \<noteq> 0" for k
    using c' h' by simp_all
  show ok: "cache_ok s" using a by (elim conjE)
  show "card {k. base s k \<noteq> 0} + n + 3 \<le> NBUF" using a by (elim conjE)
  show "unat (base s k) + n + 2 < 2 ^ 32" using a by (elim conjE) (erule spec)
  show "holder s k \<noteq> None \<Longrightarrow> refs s k \<noteq> 0" by (rule h)
  have b0: "refs s k \<noteq> 0 \<Longrightarrow> holder s k = None \<Longrightarrow> base s k \<noteq> 0" for k by (simp add: base_def)
  show "used_blocks s \<subseteq> {k. base s k \<noteq> 0} \<union> {k. holder s k \<noteq> None}"
  proof (rule subsetI)
    fix k assume "k \<in> used_blocks s"
    then show "k \<in> {k. base s k \<noteq> 0} \<union> {k. holder s k \<noteq> None}"
      using b0 [of k] by (cases "holder s k = None") (simp_all add: used_blocks_def)
  qed
  obtain xs where "bio_inv s xs" using ok by (auto simp: cache_ok_def)
  then have "finite (used_blocks s)" by (rule used_blocks_finite)
  moreover have "base s k \<noteq> 0 \<Longrightarrow> refs s k \<noteq> 0" for k
    using h [of k] by (cases "holder s k = None") (simp_all add: base_def)
  then have "{k. base s k \<noteq> 0} \<subseteq> used_blocks s" unfolding used_blocks_def by (rule Collect_mono_iff [THEN iffD2, rule_format])
  ultimately show "finite {k. base s k \<noteq> 0}" by (rule rev_finite_subset)
  have "view s k = disks s k" if "refs s k = 0" for k
  proof -
    have "holder s k = None" using that h [of k] by (cases "holder s k = None") simp_all
    then have "base s k = 0" using that by (simp add: base_def)
    then show ?thesis by (rule c)
  qed
  then show "settled (cview s)" unfolding settled_def cview_simps using h' by blast
qed

lemma log_tx_readable:
  assumes "log_tx d n s" and "holder s k = None" and "card {j. holder s j \<noteq> None} \<le> 2"
  shows "readable (cview s) k"
proof -
  note d = log_txD [OF assms(1)]
  have "finite {j. holder s j \<noteq> None}"
  proof -
    have "{j. holder s j \<noteq> None} \<subseteq> used_blocks s" using d(6) unfolding used_blocks_def by blast
    moreover obtain xs where "bio_inv s xs" using d(1) by (auto simp: cache_ok_def)
    ultimately show ?thesis using used_blocks_finite finite_subset by blast
  qed
  then have "card (used_blocks s) \<le> card {k. base s k \<noteq> 0} + card {j. holder s j \<noteq> None}"
    using d(3,7) by (meson card_Un_le card_mono finite_UnI le_trans)
  then have "card (used_blocks s) < NBUF" using d(4) assms(3) by simp
  moreover have "refs s k + 1 \<noteq> 0"
  proof
    assume z: "refs s k + 1 = 0"
    have "base s k = refs s k" using assms(2) by (simp add: base_def)
    then have "unat (refs s k) + 1 < 2 ^ 32" using d(5) [of k] by simp
    then have "unat (refs s k + 1) = unat (refs s k) + 1" by (simp add: unat_word_ariths)
    then show False using z by simp
  qed
  ultimately show ?thesis using assms(2) by (simp add: readable_def used_blocks_def)
qed

lemma log_tx_cong:
  assumes "log_tx d n s" and "cache_ok t" and "base t = base s" and "view t = view s" and "disks t = disks s"
    and "bio.more t = bio.more s" and "\<And>k. holder t k \<noteq> None \<Longrightarrow> refs t k \<noteq> 0"
  shows "log_tx d n t"
  using assms(1,2,7) unfolding log_tx_def assms(3-5) logs_more [OF assms(6)] logged_more [OF assms(6)] by blast

lemma log_tx_rd:
  assumes x: "log_tx d n s" and o: "holder s k = None" and h: "card {j. holder s j \<noteq> None} \<le> 2"
  shows "\<exists>b t. bread pid k s = (Inr b, t) \<and> log_tx d n t \<and> cached t k b \<and> view t = view s \<and> lbio.more t = lbio.more s \<and>
        holder t = (holder s)(k := Some pid) \<and> (\<forall>j c. holder s j \<noteq> None \<longrightarrow> cached s j c \<longrightarrow> cached t j c)"
proof -
  note d = log_txD [OF x]
  note r = log_tx_readable [OF x o h]
  from bread_law [OF d(1,2) r, of pid] obtain b t where t: "bread pid k s = (Inr b, t)" "cache_ok t"
    "cview t = v_read pid k (cview s)" "bio.more t = bio.more s" "cached t k b"
    "\<forall>j c. cached s j c \<longrightarrow> refs s j \<noteq> 0 \<longrightarrow> cached t j c" by auto
  have f: "view t = view s" "refs t = (refs s)(k := refs s k + 1)" "holder t = (holder s)(k := Some pid)" "disks t = disks s"
    using t(3) by (simp_all add: cview_eq_iff v_read_def)
  have b: "base t = base s" by (rule ext) (simp add: base_def f o)
  have "refs s k + 1 \<noteq> 0" using r by (simp add: readable_def)
  then have "refs t j \<noteq> 0" if "holder t j \<noteq> None" for j
    using d(6) [of j] that by (cases "j = k") (simp_all add: f)
  then have "log_tx d n t" by (rule log_tx_cong [OF x t(2) b f(1,4) t(4)])
  then show ?thesis using t f logs_more(2) [OF t(4)] d(6) by blast
qed

lemma log_tx_rel:
  assumes x: "log_tx d n s" and c: "cached s k b" and o: "holder s k = Some pid"
  shows "\<exists>t. brelse pid b s = (Inr (), t) \<and> log_tx d n t \<and> view t = view s \<and> lbio.more t = lbio.more s \<and>
        holder t = (holder s)(k := None) \<and> (\<forall>j c. cached s j c \<longrightarrow> cached t j c)"
proof -
  note d = log_txD [OF x]
  have "c_owner (cview s) k = Some pid" using o by simp
  from brelse_law [OF d(1) c this] obtain t where t: "brelse pid b s = (Inr (), t)" "cache_ok t"
    "cview t = v_release k (cview s)" "bio.more t = bio.more s" "\<forall>j c. cached s j c \<longrightarrow> cached t j c" by blast
  have f: "view t = view s" "refs t = (refs s)(k := refs s k - 1)" "holder t = (holder s)(k := None)" "disks t = disks s"
    using t(3) by (simp_all add: cview_eq_iff v_release_def)
  have b: "base t = base s" by (rule ext) (simp add: base_def f o)
  have "refs t j \<noteq> 0" if "holder t j \<noteq> None" for j
    using d(6) [of j] that by (cases "j = k") (simp_all add: f)
  then have "log_tx d n t" by (rule log_tx_cong [OF x t(2) b f(1,4) t(4)])
  then show ?thesis using t f logs_more(2) [OF t(4)] by blast
qed

lemma log_tx_less: "log_tx d (Suc n) s \<Longrightarrow> log_tx d n s"
  unfolding log_tx_def by (auto intro: Suc_lessD)


text \<open>Storing into a held buffer.\<close>

lemma log_tx_log:
  assumes "log_tx d n s"
  shows "log_inv d s" "lh_n (logs s d) + int n \<le> int LOGSIZE" "lh_n (logs s d) + int n \<le> l_size (logs s d) - 1"
    "0 < l_outstanding (logs s d)" "bn \<in> logged d s \<Longrightarrow> base s (d, bn) \<noteq> 0" "base s k = 0 \<Longrightarrow> view s k = disks s k"
proof -
  note b = assms [unfolded log_tx_def]
  have l: "\<forall>bn \<in> logged d s. base s (d, bn) \<noteq> 0" using b by (elim conjE)
  have n: "0 \<le> lh_n (logs s d)" using b by (elim conjE)
  have i: "inj_on (lh_block (logs s d)) {..<nat (lh_n (logs s d))}" using b by (elim conjE)
  have c: "\<forall>k. base s k = 0 \<longrightarrow> view s k = disks s k" using b by (elim conjE)
  show "lh_n (logs s d) + int n \<le> int LOGSIZE" using b by (elim conjE)
  show "lh_n (logs s d) + int n \<le> l_size (logs s d) - 1" using b by (elim conjE)
  show "0 < l_outstanding (logs s d)" using b by (elim conjE)
  show "bn \<in> logged d s \<Longrightarrow> base s (d, bn) \<noteq> 0" using l by (rule bspec)
  show "base s k = 0 \<Longrightarrow> view s k = disks s k" using c by simp
  have r: "refs s k \<noteq> 0" if "base s k \<noteq> 0" for k
  proof (cases "holder s k = None")
    case True
    then show ?thesis using that by (simp add: base_def)
  next
    case False
    then show ?thesis by (rule log_txD(6) [OF assms])
  qed
  have "\<forall>bn \<in> logged d s. refs s (d, bn) \<noteq> 0" using l by (intro ballI r) (erule bspec)
  then show "log_inv d s" using n i unfolding log_inv_def by (intro conjI)
qed

lemma log_txI:
  assumes "cache_ok s" and "log_inv d s" and "\<And>k. base s k = 0 \<Longrightarrow> view s k = disks s k"
    and "\<And>k. holder s k \<noteq> None \<Longrightarrow> refs s k \<noteq> 0" and "\<And>k. unat (base s k) + n + 2 < 2 ^ 32"
    and "card {k. base s k \<noteq> 0} + n + 3 \<le> NBUF" and "\<And>bn. bn \<in> logged d s \<Longrightarrow> base s (d, bn) \<noteq> 0"
    and "lh_n (logs s d) + int n \<le> int LOGSIZE" "lh_n (logs s d) + int n \<le> l_size (logs s d) - 1"
    and "0 < l_outstanding (logs s d)"
  shows "log_tx d n s"
  unfolding log_tx_def using assms(2) [unfolded log_inv_def]
  by (intro conjI allI impI ballI assms; (elim conjE)?)

lemma log_tx_store:
  assumes x: "log_tx d (Suc n) s" and c: "cached s k b" and o: "holder s k \<noteq> None" and k: "k \<in> {d} \<times> UNIV"
  shows "\<exists>t. log_store b y s = (Inr (), t) \<and> log_tx d n t \<and> view t = (view s)(k := y) \<and> lbio.more t = lbio.more s \<and>
        holder t = holder s \<and> (\<forall>j c. cached s j c \<longrightarrow> cached t j c)"
proof -
  note d = log_txD [OF x] and l = log_tx_log [OF x]
  note p = set_data_law [OF d(1) c, of y]
  let ?s = "set_data b y s"
  have f: "view ?s = (view s)(k := y)" "refs ?s = refs s" "holder ?s = holder s" "disks ?s = disks s"
    using p by (simp_all add: cview_eq_iff v_put_def)
  have m: "bio.more ?s = bio.more s" using p by (elim conjE)
  note lm = logs_more(1) [OF m] logged_more [OF m]
  have k': "k = (d, snd k)" using k by (cases k) auto
  have inv: "log_inv d ?s" using l(1) unfolding log_inv_def lm f(2) .
  have c': "cached ?s (d, snd k) b" unfolding k' [symmetric] using p c by (elim conjE allE) (erule mp)
  have rb: "base s k = refs s k - 1" "refs s k \<noteq> 0" using o d(6) [OF o] by (simp_all add: base_def)
  then have ur: "unat (refs s k) = unat (base s k) + 1"
    by (simp add: unat_minus_one unat_gt_0 Suc_leI)
  have r1: "unat (refs s k + 1) = unat (refs s k) + 1"
    using ur d(5) [of k] by (simp add: unat_word_ariths)
  then have "refs s k + 1 \<noteq> 0" by (metis add_is_0 one_neq_zero unat_0)
  then have r2: "refs ?s (d, snd k) + 1 \<noteq> 0" unfolding k' [symmetric] f(2) .
  have sp: "lh_n (logs ?s d) < int LOGSIZE" "lh_n (logs ?s d) < l_size (logs ?s d) - 1" "0 < l_outstanding (logs ?s d)"
    using l(2-4) by (simp_all add: lm)
  from log_write_effect [OF inv conjunct1 [OF p] c' r2 sp] obtain t where
    t: "log_write b ?s = (Inr (), t)" "log_inv d t" "cache_ok t" "logged d t = insert (snd k) (logged d s)"
      "view t = view ?s" "disks t = disks ?s" "holder t = holder ?s" "lbio.more t = lbio.more ?s"
      "\<forall>j c. cached ?s j c \<longrightarrow> cached t j c" "l_size (logs t d) = l_size (logs s d)"
      "l_outstanding (logs t d) = l_outstanding (logs s d)"
      "if snd k \<in> logged d s then t = ?s
       else lh_n (logs t d) = lh_n (logs s d) + 1 \<and> refs t = (refs ?s)(k := refs ?s k + 1)"
    unfolding k' [symmetric] lm by (elim exE conjE) (rule that)
  have kk: "(d, snd k) = k" using k' by simp
  have vt: "view t = (view s)(k := y)" "disks t = disks s" "holder t = holder s" using t(5-7) f by simp_all
  have "log_tx d n t"
  proof (cases "snd k \<in> logged d s")
    case True
    then have "t = ?s" using t(12) by simp
    then have r: "refs t = refs s" "logs t = logs s" using f(2) lm(1) by simp_all
    have b: "base t = base s" by (rule ext) (simp add: base_def vt(3) r)
    have bk: "base s k \<noteq> 0" using l(5) [OF True] kk by simp
    show ?thesis
    proof (rule log_txI [OF t(3,2)])
      fix j
      show "base t j = 0 \<Longrightarrow> view t j = disks t j" using l(6) [of j] bk by (cases "j = k") (simp_all add: vt b)
      show "holder t j \<noteq> None \<Longrightarrow> refs t j \<noteq> 0" unfolding vt(3) r by (rule d(6))
      show "unat (base t j) + n + 2 < 2 ^ 32" using d(5) [of j] by (simp add: b)
      show "card {k. base t k \<noteq> 0} + n + 3 \<le> NBUF" using d(4) by (simp add: b)
      show "bn \<in> logged d t \<Longrightarrow> base t (d, bn) \<noteq> 0" for bn
        unfolding t(4) b using l(5) [of bn] bk kk by (cases "bn = snd k") simp_all
    qed (use l(2-4) in \<open>simp_all add: r\<close>)
  next
    case False
    then have r: "refs t = (refs s)(k := refs s k + 1)" "lh_n (logs t d) = lh_n (logs s d) + 1"
      using t(12) f(2) lm(1) by simp_all
    have b: "base t = (base s)(k := base s k + 1)" by (rule ext) (use o rb in \<open>auto simp: base_def vt(3) r\<close>)
    have ub: "unat (base s k + 1) = unat (base s k) + 1" using d(5) [of k] by (simp add: unat_word_ariths)
    have bk: "base s k + 1 \<noteq> 0" using ub by (metis add_is_0 one_neq_zero unat_0)
    have rk: "refs s k + 1 \<noteq> 0" using r1 by (metis add_is_0 one_neq_zero unat_0)
    show ?thesis
    proof (rule log_txI [OF t(3,2)])
      fix j
      show "base t j = 0 \<Longrightarrow> view t j = disks t j" using l(6) [of j] bk by (cases "j = k") (simp_all add: vt b)
      show "holder t j \<noteq> None \<Longrightarrow> refs t j \<noteq> 0" using d(6) [of j] rk by (cases "j = k") (simp_all add: vt(3) r)
      show "unat (base t j) + n + 2 < 2 ^ 32" using d(5) [of j] ub by (cases "j = k") (simp_all add: b)
      have "{j. base t j \<noteq> 0} \<subseteq> insert k {j. base s j \<noteq> 0}" by (auto simp: b split: if_splits)
      then have "card {j. base t j \<noteq> 0} \<le> card (insert k {j. base s j \<noteq> 0})" by (rule card_mono [rotated]) (simp add: d(3))
      also have "\<dots> \<le> Suc (card {j. base s j \<noteq> 0})" by (simp add: card_insert_if d(3))
      finally show "card {k. base t k \<noteq> 0} + n + 3 \<le> NBUF" using d(4) by simp
      show "bn \<in> logged d t \<Longrightarrow> base t (d, bn) \<noteq> 0" for bn
        unfolding t(4) b using l(5) [of bn] bk kk by (cases "bn = snd k") auto
    qed (use l(2-4) t(10,11) in \<open>simp_all add: r lm\<close>)
  qed
  moreover have "\<forall>j c. cached s j c \<longrightarrow> cached t j c" using p t(9) by blast
  ultimately show ?thesis using t(1,8) vt logs_more(2) [OF m] by (auto simp: log_store_def)
qed


interpretation ltx: transactions "log_tx d" view holder cached "\<lambda>s b. b_data (bufs s b)" lbio.more "{d} \<times> UNIV"
    bread log_store brelse for d
proof unfold_locales
  fix s :: "'a lbio_scheme" and k b
  show "cached s k b \<Longrightarrow> b_data (bufs s b) = view s k" by (simp add: cached_def view_def)
qed (rule log_tx_rd log_tx_store log_tx_rel log_tx_less; assumption)+

end
