(* ===== verification/Xv7_Fs_Properties.thy ===== *)
theory Xv7_Fs_Properties
  imports Xv7_Dir Xv7_Tx
begin

text \<open>
  Correctness of the file system layer: block allocation over the bitmap, the inode cache,
  truncation, and path names.
\<close>


section \<open>Block allocation\<close>

lemma fs_more:
  assumes "lbio.more t = lbio.more s"
  shows "sb t = sb s" "icache t = icache s" "fs.more t = fs.more s"
  using assms by (cases t; cases s; simp)+

definition blk_free :: "superblock \<Rightarrow> u32 \<Rightarrow> (bkey \<Rightarrow> block) \<Rightarrow> nat \<Rightarrow> bool" where
  "blk_free S d v b = bm_free (v (d, BBLOCK b S)) (b mod BPB)"

text \<open>The blocks after block \<open>b\<close> is taken: its bit is set, its contents are zero.\<close>

definition alloc_blocks :: "superblock \<Rightarrow> u32 \<Rightarrow> nat \<Rightarrow> (bkey \<Rightarrow> block) \<Rightarrow> bkey \<Rightarrow> block" where
  "alloc_blocks S d b v =
     (v((d, BBLOCK b S) := bm_set (b mod BPB) (v (d, BBLOCK b S))))((d, of_nat b) := \<lambda>_. 0)"

text \<open>Nobody holds a bitmap block or a free block.\<close>

definition alloc_idle :: "u32 \<Rightarrow> 'a fs_scheme \<Rightarrow> bool" where
  "alloc_idle d s \<longleftrightarrow> (\<forall>b < unat (sb_size (sb s)). holder s (d, BBLOCK b (sb s)) = None \<and>
     (blk_free (sb s) d (view s) b \<longrightarrow> holder s (d, of_nat b) = None))"

lemma bzero_spec:
  assumes "log_tx d (Suc n) s" and "holder s (d, a) = None" and "card {j. holder s j \<noteq> None} \<le> 2"
  shows "\<exists>t. bzero pid d a s = (Inr (), t) \<and> log_tx d n t \<and> view t = (view s)((d, a) := \<lambda>_. 0) \<and>
    lbio.more t = lbio.more s \<and> holder t = holder s \<and> (\<forall>j c. holder s j \<noteq> None \<longrightarrow> cached s j c \<longrightarrow> cached t j c)"
  unfolding bzero_def
  by (rule ltx.update [OF assms]) (simp_all add: log_put_store)

lemma group_bits:
  assumes "bi < BPB"
  shows "(j * BPB + bi) div BPB = j" "(j * BPB + bi) mod BPB = bi"
  using assms by simp_all

lemma balloc_in_spec:
  assumes tx: "log_tx d (Suc (Suc n)) s" and h: "card {j. holder s j \<noteq> None} \<le> 2" and idle: "alloc_idle d s"
    and b: "b = j * BPB" "b < unat (sb_size (sb s))"
  shows "case List.find (blk_free (sb s) d (view s)) (map (\<lambda>i. b + i) [0..<min BPB (unat (sb_size (sb s)) - b)]) of
      Some a \<Rightarrow> \<exists>t. balloc_in pid d b s = (Inr (Some (of_nat a)), t) \<and> log_tx d n t \<and>
        view t = alloc_blocks (sb s) d a (view s) \<and> lbio.more t = lbio.more s \<and> holder t = holder s \<and>
        (\<forall>j c. holder s j \<noteq> None \<longrightarrow> cached s j c \<longrightarrow> cached t j c)
    | None \<Rightarrow> \<exists>t. balloc_in pid d b s = (Inr None, t) \<and> log_tx d (Suc (Suc n)) t \<and> view t = view s \<and>
        lbio.more t = lbio.more s \<and> holder t = holder s \<and>
        (\<forall>j c. holder s j \<noteq> None \<longrightarrow> cached s j c \<longrightarrow> cached t j c)"
proof -
  define m where "m = min BPB (unat (sb_size (sb s)) - b)"
  let ?k = "(d, BBLOCK b (sb s))"
  have ok: "holder s ?k = None" using idle b(2) by (simp add: alloc_idle_def)
  from ltx.tx_rd [OF tx ok h, of pid] obtain bp t where t: "bread pid ?k s = (Inr bp, t)" "log_tx d (Suc (Suc n)) t"
    "cached t ?k bp" "view t = view s" "lbio.more t = lbio.more s" "holder t = (holder s)(?k := Some pid)"
    "\<forall>j c. holder s j \<noteq> None \<longrightarrow> cached s j c \<longrightarrow> cached t j c" by blast
  have x: "b_data (bufs t bp) = view s ?k" using ltx.has_data [OF t(3)] t(4) by simp
  have st: "sb t = sb s" by (rule fs_more(1) [OF t(5)])
  have own: "holder t ?k = Some pid" by (simp add: t(6))
  have fr: "List.find (blk_free (sb s) d (view s)) (map (\<lambda>i. b + i) [0..<m]) =
      map_option (\<lambda>i. b + i) (List.find (bm_free (view s ?k)) [0..<m])"
  proof -
    have "blk_free (sb s) d (view s) (b + i) = bm_free (view s ?k) i" if "i < m" for i
    proof -
      have "i < BPB" using that by (simp add: m_def)
      then show ?thesis using group_bits [of i j] by (simp add: blk_free_def b(1) BBLOCK_def BPB_def BSIZE_def)
    qed
    moreover have "List.find P (map (\<lambda>i. b + i) is) = map_option (\<lambda>i. b + i) (List.find Q is)"
      if "\<forall>i \<in> set is. P (b + i) = Q i" for P Q "is"
      using that by (induction "is") auto
    ultimately show ?thesis by simp
  qed
  show ?thesis
  proof (cases "List.find (bm_free (view s ?k)) [0..<m]")
    case None
    from ltx.tx_rel [OF t(2,3) own] obtain u where u: "brelse pid bp t = (Inr (), u)" "log_tx d (Suc (Suc n)) u" "view u = view t"
      "lbio.more u = lbio.more t" "holder u = (holder t)(?k := None)" "\<forall>j c. cached t j c \<longrightarrow> cached u j c" by blast
    have "balloc_in pid d b s = (Inr None, u)"
      using None t(1) u(1) by (simp add: balloc_in_def x st Let_def m_def)
    then show ?thesis using None u t ok fr [unfolded m_def] by (simp add: m_def fun_upd_idem)
  next
    case (Some bi)
    then have bi: "bi < m" "bm_free (view s ?k) bi" using find_SomeD [OF Some] by auto
    then have bi': "bi < BPB" "b + bi < unat (sb_size (sb s))" using b(2) by (auto simp: m_def)
    note g = group_bits [OF bi'(1), of j, folded b(1)]
    have key: "BBLOCK (b + bi) (sb s) = BBLOCK b (sb s)" using g by (simp add: BBLOCK_def b(1) BPB_def BSIZE_def)
    have "blk_free (sb s) d (view s) (b + bi)" using bi(2) g key by (simp add: blk_free_def)
    then have free: "holder s (d, of_nat (b + bi)) = None" using idle bi'(2) unfolding alloc_idle_def by blast
    have "?k \<in> {d} \<times> UNIV" by simp
    from ltx.store_rel [OF t(2,3) own this, of "bm_set bi (view s ?k)"] obtain u where
      u: "log_put pid bp (bm_set bi (view s ?k)) t = (Inr (), u)" "log_tx d (Suc n) u"
        "view u = (view t)(?k := bm_set bi (view s ?k))" "lbio.more u = lbio.more t" "holder u = (holder t)(?k := None)"
        "\<forall>j c. cached t j c \<longrightarrow> cached u j c"
      unfolding log_put_store by blast
    have hu: "holder u = holder s" using u(5) t(6) ok by (simp add: fun_upd_idem)
    from bzero_spec [OF u(2), of "of_nat (b + bi)" pid] free h obtain v where
      v: "bzero pid d (of_nat (b + bi)) u = (Inr (), v)" "log_tx d n v"
        "view v = (view u)((d, of_nat (b + bi)) := \<lambda>_. 0)" "lbio.more v = lbio.more u" "holder v = holder u"
        "\<forall>j c. holder u j \<noteq> None \<longrightarrow> cached u j c \<longrightarrow> cached v j c" unfolding hu by blast
    have "balloc_in pid d b s = (Inr (Some (of_nat (b + bi))), v)"
      using Some t(1) u(1) v(1) by (simp add: balloc_in_def x st Let_def m_def)
    moreover have "view v = alloc_blocks (sb s) d (b + bi) (view s)"
      by (simp only: v(3) u(3) t(4) alloc_blocks_def g key)
    moreover have "\<forall>j c. holder s j \<noteq> None \<longrightarrow> cached s j c \<longrightarrow> cached v j c"
      using t(7) u(6) v(6) unfolding hu by blast
    ultimately show ?thesis
      using Some v(2,4,5) u(4) t(5) hu fr [unfolded m_def] by (simp add: m_def)
  qed
qed


lemma find_append: "List.find P (xs @ ys) = (case List.find P xs of None \<Rightarrow> List.find P ys | Some x \<Rightarrow> Some x)"
  by (induction xs) auto

text \<open>The bitmap groups cover the blocks in order.\<close>

definition group_blocks :: "nat \<Rightarrow> nat \<Rightarrow> nat list" where
  "group_blocks n b = map (\<lambda>i. b + i) [0..<min BPB (n - b)]"

lemma groups_cover: "concat (map (group_blocks n) (group_starts n)) = [0..<n]"
proof -
  have up: "concat (map (\<lambda>j. group_blocks n (j * BPB)) [0..<k]) = [0..<min (k * BPB) n]" for k
  proof (induction k)
    case (Suc k)
    have "group_blocks n (k * BPB) = [k * BPB..<k * BPB + min BPB (n - k * BPB)]"
      by (rule nth_equalityI) (simp_all add: group_blocks_def)
    moreover have "[0..<min (k * BPB) n] @ [k * BPB..<k * BPB + min BPB (n - k * BPB)] = [0..<min (Suc k * BPB) n]"
    proof (cases "k * BPB < n")
      case True
      have e: "k * BPB + min BPB (n - k * BPB) = min (Suc k * BPB) n" using True by simp
      show ?thesis unfolding e using True upt_add_eq_append [of 0 "k * BPB" "min (Suc k * BPB) n - k * BPB"]
        by (simp add: min_def)
    qed simp
    ultimately show ?case using Suc by simp
  qed simp
  have "n \<le> (n + BPB - 1) div BPB * BPB"
  proof -
    have "n + BPB - 1 < ((n + BPB - 1) div BPB) * BPB + BPB"
      using dividend_less_div_times [of BPB "n + BPB - 1"] by (simp add: BPB_def BSIZE_def)
    then show ?thesis by (simp add: BPB_def BSIZE_def)
  qed
  then show ?thesis using up [of "(n + BPB - 1) div BPB"] by (simp add: group_starts_def comp_def min_def)
qed

lemma balloc_loop_spec:
  assumes "log_tx d (Suc (Suc n)) s" and "card {j. holder s j \<noteq> None} \<le> 2" and "alloc_idle d s"
    and "\<And>b. b \<in> set bs \<Longrightarrow> (\<exists>j. b = j * BPB) \<and> b < unat (sb_size (sb s))"
  shows "case List.find (blk_free (sb s) d (view s)) (concat (map (group_blocks (unat (sb_size (sb s)))) bs)) of
      Some a \<Rightarrow> \<exists>t. balloc_loop pid d bs s = (Inr (of_nat a), t) \<and> log_tx d n t \<and>
        view t = alloc_blocks (sb s) d a (view s) \<and> lbio.more t = lbio.more s \<and> holder t = holder s \<and>
        (\<forall>j c. holder s j \<noteq> None \<longrightarrow> cached s j c \<longrightarrow> cached t j c)
    | None \<Rightarrow> \<exists>t. balloc_loop pid d bs s = (Inl (Panic ''balloc: out of blocks''), t) \<and> view t = view s"
  using assms
proof (induction bs arbitrary: s)
  case (Cons b bs)
  let ?F = "List.find (blk_free (sb s) d (view s))"
  obtain j where j: "b = j * BPB" "b < unat (sb_size (sb s))" using Cons.prems(4) [of b] by auto
  note g = balloc_in_spec [OF Cons.prems(1-3) j, of pid, folded group_blocks_def]
  show ?case
  proof (cases "?F (group_blocks (unat (sb_size (sb s))) b)")
    case (Some a)
    then show ?thesis using g by (auto simp: find_append)
  next
    case None
    then obtain t where t: "balloc_in pid d b s = (Inr None, t)" "log_tx d (Suc (Suc n)) t" "view t = view s"
      "lbio.more t = lbio.more s" "holder t = holder s" "\<forall>j c. holder s j \<noteq> None \<longrightarrow> cached s j c \<longrightarrow> cached t j c"
      using g by auto
    have st: "sb t = sb s" by (rule fs_more(1) [OF t(4)])
    have l: "balloc_loop pid d (b # bs) s = balloc_loop pid d bs t" by (simp add: t(1))
    have "alloc_idle d t" using Cons.prems(3) by (simp add: alloc_idle_def st t(3,5))
    from Cons.IH [OF t(2) _ this] Cons.prems(2,4) t(5) st
    have ih: "case List.find (blk_free (sb t) d (view t)) (concat (map (group_blocks (unat (sb_size (sb t)))) bs)) of
        Some a \<Rightarrow> \<exists>u. balloc_loop pid d bs t = (Inr (of_nat a), u) \<and> log_tx d n u \<and>
          view u = alloc_blocks (sb t) d a (view t) \<and> lbio.more u = lbio.more t \<and> holder u = holder t \<and>
          (\<forall>j c. holder t j \<noteq> None \<longrightarrow> cached t j c \<longrightarrow> cached u j c)
      | None \<Rightarrow> \<exists>u. balloc_loop pid d bs t = (Inl (Panic ''balloc: out of blocks''), u) \<and> view u = view t" by simp
    then show ?thesis
      unfolding l using None t(3-6) st by (auto simp: find_append split: option.splits)
  qed
qed simp

lemma group_starts_mem: "b \<in> set (group_starts n) \<Longrightarrow> (\<exists>j. b = j * BPB) \<and> b < n"
proof -
  assume "b \<in> set (group_starts n)"
  then obtain j where "j \<in> set [0..<(n + BPB - 1) div BPB]" and jb: "b = j * BPB"
    unfolding group_starts_def set_map by (elim imageE)
  then have j: "b = j * BPB" "j < (n + BPB - 1) div BPB" by simp_all
  have "(j + 1) * BPB \<le> (n + BPB - 1) div BPB * BPB" using j(2) by (intro mult_right_mono) simp_all
  also have "\<dots> \<le> n + BPB - 1" by simp
  finally show ?thesis using j(1) by (auto simp: BPB_def BSIZE_def)
qed

lemma balloc_spec:
  assumes "log_tx d (Suc (Suc n)) s" and "card {j. holder s j \<noteq> None} \<le> 2" and "alloc_idle d s"
  shows "case List.find (blk_free (sb s) d (view s)) [0..<unat (sb_size (sb s))] of
      Some a \<Rightarrow> \<exists>t. balloc pid d s = (Inr (of_nat a), t) \<and> log_tx d n t \<and>
        view t = alloc_blocks (sb s) d a (view s) \<and> lbio.more t = lbio.more s \<and> holder t = holder s \<and>
        (\<forall>j c. holder s j \<noteq> None \<longrightarrow> cached s j c \<longrightarrow> cached t j c)
    | None \<Rightarrow> \<exists>t. balloc pid d s = (Inl (Panic ''balloc: out of blocks''), t) \<and> view t = view s"
  unfolding balloc_def groups_cover [symmetric]
  by (rule balloc_loop_spec [OF assms]) (rule group_starts_mem)

text \<open>Bits of the bitmap.\<close>

lemma bm_mask_bits: "bit (bm_mask bi) i \<longleftrightarrow> i = bi mod 8"
  by (auto simp: bm_mask_def bit_simps bit_1_iff)

lemma bm_free_bit: "bm_free x bi \<longleftrightarrow> \<not> bit (x (bi div 8)) (bi mod 8)"
proof
  assume "bm_free x bi"
  then have "\<not> bit (x (bi div 8) AND bm_mask bi) (bi mod 8)" by (simp add: bm_free_def)
  then show "\<not> bit (x (bi div 8)) (bi mod 8)" by (simp add: bit_and_iff bm_mask_bits)
next
  assume "\<not> bit (x (bi div 8)) (bi mod 8)"
  then show "bm_free x bi"
    unfolding bm_free_def by (intro bit_word_eqI) (auto simp: bit_and_iff bm_mask_bits)
qed

lemma bm_bits:
  "bm_free (bm_set bi x) bj \<longleftrightarrow> bj \<noteq> bi \<and> bm_free x bj"
  "bm_free (bm_clear bi x) bj \<longleftrightarrow> bj = bi \<or> bm_free x bj"
proof -
  have e: "bj div 8 = bi div 8 \<and> bj mod 8 = bi mod 8 \<longleftrightarrow> bj = bi" by (metis div_mult_mod_eq)
  show "bm_free (bm_set bi x) bj \<longleftrightarrow> bj \<noteq> bi \<and> bm_free x bj"
    using e by (auto simp: bm_free_bit bm_set_def bit_or_iff bm_mask_bits)
  show "bm_free (bm_clear bi x) bj \<longleftrightarrow> bj = bi \<or> bm_free x bj"
    using e by (auto simp: bm_free_bit bm_clear_def bit_and_iff bit_not_iff bm_mask_bits)
qed

lemma bm_clear_set: "bm_free x bi \<Longrightarrow> bm_clear bi (bm_set bi x) = x"
proof (rule ext)
  fix i assume f: "bm_free x bi"
  have "x (bi div 8) OR bm_mask bi AND NOT (bm_mask bi) = x (bi div 8)" by simp
  moreover have "(x (bi div 8) OR bm_mask bi) AND NOT (bm_mask bi) = x (bi div 8)"
    using f by (intro bit_word_eqI) (auto simp: bit_and_iff bit_or_iff bit_not_iff bm_mask_bits bm_free_bit)
  ultimately show "bm_clear bi (bm_set bi x) i = x i" by (simp add: bm_clear_def bm_set_def)
qed

lemma bfree_spec:
  assumes "log_tx d (Suc n) s" and "card {j. holder s j \<noteq> None} \<le> 2"
    and "holder s (d, BBLOCK (unat a) (sb s)) = None" and "\<not> blk_free (sb s) d (view s) (unat a)"
  shows "\<exists>t. bfree pid d a s = (Inr (), t) \<and> log_tx d n t \<and> view t = (view s)((d, BBLOCK (unat a) (sb s)) :=
        bm_clear (unat a mod BPB) (view s (d, BBLOCK (unat a) (sb s)))) \<and>
    lbio.more t = lbio.more s \<and> holder t = holder s \<and> (\<forall>j c. holder s j \<noteq> None \<longrightarrow> cached s j c \<longrightarrow> cached t j c)"
  unfolding bfree_def
  by (rule ltx.update [OF assms(1,3,2)]) (use assms(4) in \<open>simp_all add: blk_free_def log_put_store Let_def\<close>)

lemma BBLOCK_same:
  assumes "a < 2 ^ 32" "b < 2 ^ 32" and "BBLOCK b S = BBLOCK a S"
  shows "b div BPB = a div BPB"
proof -
  have "(of_nat (b div BPB) :: u32) = of_nat (a div BPB)" using assms(3) by (simp add: BBLOCK_def)
  then have "unat (of_nat (b div BPB) :: u32) = unat (of_nat (a div BPB) :: u32)" by simp
  moreover have "x div BPB < 2 ^ 32" if "x < 2 ^ 32" for x :: nat
    using that by (rule order_le_less_trans [rotated]) simp
  ultimately show ?thesis using assms by (simp add: unat_of_nat)
qed

lemma alloc_frees:
  assumes "a < 2 ^ 32" "b < 2 ^ 32" and "(of_nat a :: u32) \<noteq> BBLOCK b S" and "blk_free S d v a"
  shows "blk_free S d (alloc_blocks S d a v) b \<longleftrightarrow> b \<noteq> a \<and> blk_free S d v b"
proof -
  have nb: "(d, BBLOCK b S) \<noteq> (d, of_nat a)" using assms(3) by simp
  show ?thesis
  proof (cases "BBLOCK b S = BBLOCK a S")
    case False
    then have "b \<noteq> a" by auto
    then show ?thesis using False nb by (simp add: blk_free_def alloc_blocks_def)
  next
    case True
    then have "b div BPB = a div BPB" by (rule BBLOCK_same [OF assms(1,2)])
    then have "b mod BPB = a mod BPB \<longleftrightarrow> b = a" by (metis div_mult_mod_eq)
    then show ?thesis using True nb bm_bits(1) by (auto simp: blk_free_def alloc_blocks_def)
  qed
qed

section \<open>Properties\<close>

text \<open>Inside a transaction with room for two blocks, \<open>balloc\<close> returns the least block below
  \<open>sb.size\<close> that the bitmap has free; it marks exactly that block used and zeroes its
  contents, through the log, and leaves every other block and the inode table alone.  With
  no free block it panics.\<close>

lemma balloc_first_free:
  assumes "log_tx d (Suc (Suc n)) s" and "card {j. holder s j \<noteq> None} \<le> 2" and "alloc_idle d s"
    and "\<forall>a < unat (sb_size (sb s)). \<forall>b < unat (sb_size (sb s)). blk_free (sb s) d (view s) a \<longrightarrow>
      (of_nat a :: u32) \<noteq> BBLOCK b (sb s)"
  shows "case List.find (blk_free (sb s) d (view s)) [0..<unat (sb_size (sb s))] of
      None \<Rightarrow> fst (balloc pid d s) = Inl (Panic ''balloc: out of blocks'')
    | Some a \<Rightarrow> \<exists>t. balloc pid d s = (Inr (of_nat a), t) \<and> log_tx d n t \<and> sb t = sb s \<and> icache t = icache s \<and>
        view t (d, of_nat a) = (\<lambda>_. 0) \<and>
        (\<forall>b < unat (sb_size (sb s)). blk_free (sb s) d (view t) b \<longleftrightarrow> b \<noteq> a \<and> blk_free (sb s) d (view s) b) \<and>
        (\<forall>k. k \<noteq> (d, of_nat a) \<longrightarrow> k \<noteq> (d, BBLOCK a (sb s)) \<longrightarrow> view t k = view s k)"
proof (cases "List.find (blk_free (sb s) d (view s)) [0..<unat (sb_size (sb s))]")
  case None
  then show ?thesis using balloc_spec [OF assms(1-3), of pid] by auto
next
  case (Some a)
  then have a: "a < unat (sb_size (sb s))" "blk_free (sb s) d (view s) a" using find_SomeD [OF Some] by auto
  from balloc_spec [OF assms(1-3), of pid] Some obtain t where t: "balloc pid d s = (Inr (of_nat a), t)" "log_tx d n t"
    "view t = alloc_blocks (sb s) d a (view s)" "lbio.more t = lbio.more s" by auto
  have lt: "x < 2 ^ 32" if "x < unat (sb_size (sb s))" for x
    using that unsigned_less [of "sb_size (sb s)", where ?'a = nat] by simp
  have "blk_free (sb s) d (view t) b \<longleftrightarrow> b \<noteq> a \<and> blk_free (sb s) d (view s) b" if "b < unat (sb_size (sb s))" for b
    unfolding t(3) by (rule alloc_frees [OF lt [OF a(1)] lt [OF that] _ a(2)]) (use assms(4) a that in blast)
  moreover have "view t (d, of_nat a) = (\<lambda>_. 0)" by (simp add: t(3) alloc_blocks_def)
  moreover have "view t k = view s k" if "k \<noteq> (d, of_nat a)" "k \<noteq> (d, BBLOCK a (sb s))" for k
    using that by (simp add: t(3) alloc_blocks_def)
  ultimately show ?thesis using Some t(1,2) fs_more [OF t(4)] by auto
qed

text \<open>A small file system at boot, with one transaction open.\<close>

definition boot_sb :: superblock where
  "boot_sb = \<lparr>sb_magic = FSMAGIC, sb_size = 8, sb_nblocks = 1, sb_ninodes = 16, sb_nlog = 30, sb_logstart = 20,
     sb_inodestart = 60, sb_bmapstart = 50\<rparr>"

definition bss_inode :: inode where
  "bss_inode = \<lparr>i_dev = 0, i_inum = 0, i_ref = 0, i_pid = None, i_valid = False, i_type = 0, i_major = 0, i_minor = 0,
     i_nlink = 0, i_size = 0, i_addrs = \<lambda>_. 0\<rparr>"

definition fs_boot :: "(bkey \<Rightarrow> block) \<Rightarrow> fs" where
  "fs_boot m = binit \<lparr>bufs = \<lambda>_. bss_buf, bc_links = \<lparr>lnext = \<lambda>_. 0, lprev = \<lambda>_. 0\<rparr>, disks = m, writes = [],
     logs = \<lambda>_. bss_log\<lparr>l_size := 30, l_outstanding := 1\<rparr>, sb = boot_sb, icache = \<lambda>_. bss_inode\<rparr>"

lemma fs_boot:
  "idle (fs_boot m)" "disks (fs_boot m) = m" "logs (fs_boot m) = (\<lambda>_. bss_log\<lparr>l_size := 30, l_outstanding := 1\<rparr>)"
  "sb (fs_boot m) = boot_sb" "icache (fs_boot m) = (\<lambda>_. bss_inode)"
proof -
  let ?s = "\<lparr>bufs = \<lambda>_. bss_buf, bc_links = \<lparr>lnext = \<lambda>_. 0, lprev = \<lambda>_. 0\<rparr>, disks = m, writes = [],
     logs = \<lambda>_. bss_log\<lparr>l_size := 30, l_outstanding := 1\<rparr>, sb = boot_sb, icache = \<lambda>_. bss_inode\<rparr>"
  have b: "bufs ?s = (\<lambda>_. bss_buf)" by simp
  note w = binit_wf [OF b]
  show "idle (fs_boot m)" "disks (fs_boot m) = m" using w by (simp_all add: fs_boot_def idle_def)
  have l: "lbio.more (fs_boot m) = lbio.more ?s" and lg: "logs (fs_boot m) = logs ?s"
    unfolding fs_boot_def by (rule logs_more [OF w(7)])+
  show "logs (fs_boot m) = (\<lambda>_. bss_log\<lparr>l_size := 30, l_outstanding := 1\<rparr>)" by (simp add: lg)
  show "sb (fs_boot m) = boot_sb" "icache (fs_boot m) = (\<lambda>_. bss_inode)"
    using fs_more [OF l] by simp_all
qed

lemma idle_log_tx:
  assumes i: "idle s" and l: "logs s d = bss_log\<lparr>l_size := 30, l_outstanding := 1\<rparr>" and n: "n \<le> 20"
  shows "log_tx d n s"
proof -
  have z: "refs s = (\<lambda>_. 0)" "holder s = (\<lambda>_. None)" "cache_ok s" using i by (simp_all add: idle_def cache_wf_def)
  have b: "base s = (\<lambda>_. 0)" by (rule ext) (simp add: base_def z)
  show ?thesis
    by (rule log_txI) (use n in \<open>simp_all add: z b idle_view [OF i] log_inv_def logged_def l bss_log_def NBUF_def LOGSIZE_def\<close>)
qed

section \<open>The inode cache\<close>

text \<open>At most one entry per inode, and the number of references to an inode.\<close>

definition icache_ok :: "'a fs_scheme \<Rightarrow> bool" where
  "icache_ok s \<longleftrightarrow> (\<forall>i < NINODE. 0 \<le> i_ref (icache s i)) \<and>
     (\<forall>i < NINODE. \<forall>j < NINODE. 0 < i_ref (icache s i) \<longrightarrow> 0 < i_ref (icache s j) \<longrightarrow>
        i_dev (icache s i) = i_dev (icache s j) \<longrightarrow> i_inum (icache s i) = i_inum (icache s j) \<longrightarrow> i = j)"

definition entry :: "'a fs_scheme \<Rightarrow> u32 \<times> u32 \<Rightarrow> nat \<Rightarrow> bool" where
  "entry s k i \<longleftrightarrow> 0 < i_ref (icache s i) \<and> (i_dev (icache s i), i_inum (icache s i)) = k"

definition irefs :: "'a fs_scheme \<Rightarrow> u32 \<times> u32 \<Rightarrow> int" where
  "irefs s k = (case List.find (entry s k) [0..<NINODE] of Some i \<Rightarrow> i_ref (icache s i) | None \<Rightarrow> 0)"

lemma irefs_entry:
  assumes "icache_ok s" and "i < NINODE" and "entry s k i"
  shows "irefs s k = i_ref (icache s i)"
proof -
  have "List.find (entry s k) [0..<NINODE] = Some i"
    by (rule find_unique) (use assms in \<open>auto simp: icache_ok_def entry_def\<close>)
  then show ?thesis by (simp add: irefs_def)
qed

lemma irefs_none: "(\<And>i. i < NINODE \<Longrightarrow> \<not> entry s k i) \<Longrightarrow> irefs s k = 0"
  by (simp add: irefs_def find_None_iff [THEN iffD2])

lemma irefs_pos:
  assumes "irefs s k \<noteq> 0"
  obtains i where "i < NINODE" "entry s k i"
  using assms irefs_none by blast

lemma upd_inode_simps [simp]:
  "icache (upd_inode ip f s) = (icache s)(ip := f (icache s ip))" "sb (upd_inode ip f s) = sb s"
  "bufs (upd_inode ip f s) = bufs s" "logs (upd_inode ip f s) = logs s"
  by (simp_all add: upd_inode_def)

lemma irefs_upd:
  assumes ok: "icache_ok s" and t: "icache_ok t" and i: "i < NINODE" and c: "icache t = (icache s)(i := x)"
    and e: "\<And>k'. entry s k' i \<Longrightarrow> k' = k" and x: "(i_dev x, i_inum x) = k" "0 < i_ref x"
  shows "irefs t = (irefs s)(k := i_ref x)"
proof (rule ext)
  fix k' show "irefs t k' = ((irefs s)(k := i_ref x)) k'"
  proof (cases "k' = k")
    case True
    then show ?thesis using irefs_entry [OF t i, of k] by (simp add: entry_def c x)
  next
    case False
    have same: "entry t k' j = entry s k' j" if "j < NINODE" for j
      using e [of k'] False x by (cases "j = i") (auto simp: entry_def c)
    have "List.find (entry t k') [0..<NINODE] = List.find (entry s k') [0..<NINODE]"
      by (rule find_cong) (simp_all add: same)
    moreover have "\<not> entry s k' i" using e [of k'] False by blast
    ultimately show ?thesis using False find_SomeD [of "entry s k'" "[0..<NINODE]"]
      by (auto simp: irefs_def c split: option.split)
  qed
qed

text \<open>The inode cache keeps at most one entry per inode.  \<open>iget\<close> returns an entry carrying
  the inode asked for and adds exactly one reference to that inode and none to any other; it
  panics, changing nothing, exactly when the inode has no entry and all fifty are referenced.\<close>

lemma iget_one_entry:
  assumes ok: "icache_ok s"
  shows "case iget d inum s of
      (Inr ip, t) \<Rightarrow> icache_ok t \<and> ip < NINODE \<and> entry t (d, inum) ip \<and>
        irefs t = (irefs s)((d, inum) := irefs s (d, inum) + 1) \<and>
        (irefs s (d, inum) \<noteq> 0 \<or> (\<exists>i < NINODE. i_ref (icache s i) = 0))
    | (Inl e, t) \<Rightarrow> e = Panic ''iget: no inodes'' \<and> t = s \<and> irefs s (d, inum) = 0 \<and>
        (\<forall>i < NINODE. i_ref (icache s i) \<noteq> 0)"
proof -
  let ?k = "(d, inum)"
  have f: "(\<lambda>i. i_ref (icache s i) > 0 \<and> i_dev (icache s i) = d \<and> i_inum (icache s i) = inum) = entry s ?k"
    by (auto simp: entry_def fun_eq_iff)
  show ?thesis
  proof (cases "List.find (entry s ?k) [0..<NINODE]")
    case (Some ip)
    then have ip: "ip < NINODE" "entry s ?k ip" using find_SomeD [OF Some] by auto
    define t where "t = upd_inode ip (\<lambda>x. x\<lparr>i_ref := i_ref x + 1\<rparr>) s"
    have t: "iget d inum s = (Inr ip, t)" by (simp add: iget_def f Some t_def)
    have c: "icache t = (icache s)(ip := (icache s ip)\<lparr>i_ref := i_ref (icache s ip) + 1\<rparr>)" by (simp add: t_def)
    have p: "0 < i_ref (icache s ip)" "i_dev (icache s ip) = d" "i_inum (icache s ip) = inum"
      using ip(2) by (auto simp: entry_def)
    have okt: "icache_ok t" using ok p ip(1) by (auto simp: icache_ok_def c)
    have "irefs t = (irefs s)(?k := i_ref (icache s ip) + 1)"
      using irefs_upd [OF ok okt ip(1) c, of ?k] p by (auto simp: entry_def)
    moreover have "irefs s ?k = i_ref (icache s ip)" by (rule irefs_entry [OF ok ip])
    moreover have "entry t ?k ip" using p by (simp add: entry_def c)
    ultimately show ?thesis using t okt ip(1) p by simp
  next
    case None
    then have no: "\<not> entry s ?k i" if "i < NINODE" for i using that by (auto simp: find_None_iff)
    then have z: "irefs s ?k = 0" by (rule irefs_none)
    show ?thesis
    proof (cases "List.find (\<lambda>i. i_ref (icache s i) = 0) [0..<NINODE]")
      case None': None
      then have "\<forall>i < NINODE. i_ref (icache s i) \<noteq> 0" by (auto simp: find_None_iff)
      moreover have "iget d inum s = (Inl (Panic ''iget: no inodes''), s)" by (simp add: iget_def f None None')
      ultimately show ?thesis using z by simp
    next
      case (Some ip)
      then have ip: "ip < NINODE" "i_ref (icache s ip) = 0" using find_SomeD [OF Some] by auto
      define x where "x = (icache s ip)\<lparr>i_dev := d, i_inum := inum, i_ref := 1, i_valid := False\<rparr>"
      define t where "t = upd_inode ip (\<lambda>x. x\<lparr>i_dev := d, i_inum := inum, i_ref := 1, i_valid := False\<rparr>) s"
      have t: "iget d inum s = (Inr ip, t)" by (simp add: iget_def f None Some t_def)
      have c: "icache t = (icache s)(ip := x)" by (simp add: t_def x_def)
      have xk: "(i_dev x, i_inum x) = ?k" "i_ref x = 1" by (simp_all add: x_def)
      have okt: "icache_ok t"
        using ok no ip by (auto simp: icache_ok_def c x_def entry_def)
      have "irefs t = (irefs s)(?k := i_ref x)"
        using irefs_upd [OF ok okt ip(1) c _ xk(1)] ip(2) xk(2) by (auto simp: entry_def)
      moreover have "entry t ?k ip" using xk by (simp add: entry_def c)
      ultimately show ?thesis using t okt ip z xk(2) by auto
    qed
  qed
qed

section \<open>Path names\<close>

text \<open>The elements of a path: the maximal runs between slashes that are not empty.\<close>

fun split_on :: "'c \<Rightarrow> 'c list \<Rightarrow> 'c list list" where
  "split_on c [] = [[]]"
| "split_on c (x # xs) =
     (if x = c then [] # split_on c xs
      else case split_on c xs of [] \<Rightarrow> [[x]] | e # es \<Rightarrow> (x # e) # es)"

definition elements :: "u8 list \<Rightarrow> u8 list list" where
  "elements path = filter (\<lambda>e. e \<noteq> []) (split_on slash path)"

lemma split_on_not_Nil: "split_on c xs \<noteq> []"
  by (induction xs) (auto split: list.split)

lemma split_on_take:
  "split_on c xs = takeWhile (\<lambda>x. x \<noteq> c) xs # (case dropWhile (\<lambda>x. x \<noteq> c) xs of [] \<Rightarrow> [] | _ # ys \<Rightarrow> split_on c ys)"
  by (induction xs) auto

lemma elements_slash: "elements (slash # path) = elements path"
  by (simp add: elements_def)

lemma elements_nil: "elements [] = []"
  by (simp add: elements_def)

lemma elements_dropWhile: "elements (dropWhile (\<lambda>c. c = slash) path) = elements path"
  by (induction path) (simp_all add: elements_slash)

text \<open>\<open>skipelem\<close> takes the first element off a path: it returns nothing exactly when the path
  has no element, and otherwise the first element, cut to fourteen bytes, with a rest that
  has the remaining elements and does not start with a slash (so the rest is empty exactly
  when that element was the last).\<close>

lemma skipelem_first_element:
  "case elements path of
     [] \<Rightarrow> skipelem path = None
   | e # es \<Rightarrow> \<exists>rest. skipelem path = Some (take DIRSIZ e, rest) \<and> elements rest = es \<and>
       (rest = [] \<longleftrightarrow> es = []) \<and> (rest \<noteq> [] \<longrightarrow> hd rest \<noteq> slash)"
proof -
  define p where "p = dropWhile (\<lambda>c. c = slash) path"
  have el: "elements path = elements p" by (simp add: p_def elements_dropWhile)
  have hp: "p \<noteq> [] \<Longrightarrow> hd p \<noteq> slash" unfolding p_def by (rule hd_dropWhile)
  show ?thesis
  proof (cases "p = []")
    case True
    then show ?thesis unfolding el by (simp add: elements_def skipelem_def p_def [symmetric])
  next
    case False
    define e where "e = takeWhile (\<lambda>c. c \<noteq> slash) p"
    define q where "q = dropWhile (\<lambda>c. c \<noteq> slash) p"
    define rest where "rest = dropWhile (\<lambda>c. c = slash) q"
    have ne: "e \<noteq> []" using False hp by (cases p) (simp_all add: e_def)
    have q: "q = [] \<or> hd q = slash" using hd_dropWhile [of "\<lambda>c. c \<noteq> slash" p] by (auto simp: q_def)
    have "elements p = e # (case q of [] \<Rightarrow> [] | _ # ys \<Rightarrow> elements ys)"
      using ne by (simp add: elements_def split_on_take [of slash p] e_def [symmetric] q_def [symmetric] split: list.split)
    moreover have "(case q of [] \<Rightarrow> [] | _ # ys \<Rightarrow> elements ys) = elements rest"
      using q elements_nil by (cases q) (auto simp: rest_def elements_dropWhile)
    ultimately have els: "elements p = e # elements rest" by simp
    have hr: "rest \<noteq> [] \<Longrightarrow> hd rest \<noteq> slash" unfolding rest_def by (rule hd_dropWhile)
    have "rest \<noteq> [] \<Longrightarrow> elements rest \<noteq> []"
      using hr split_on_take [of slash rest] by (cases rest) (auto simp: elements_def)
    then have "rest = [] \<longleftrightarrow> elements rest = []" by (auto simp: elements_def)
    moreover have "skipelem path = Some (take DIRSIZ e, rest)"
      using False by (simp add: skipelem_def Let_def p_def [symmetric] e_def q_def rest_def)
    ultimately show ?thesis unfolding el els using hr by auto
  qed
qed


section \<open>Truncation\<close>

lemma cache_upd_inode [simp]:
  "lookup (upd_inode ip f s) = lookup s" "cache_ok (upd_inode ip f s) = cache_ok s"
  "view (upd_inode ip f s) = view s" "refs (upd_inode ip f s) = refs s" "holder (upd_inode ip f s) = holder s"
  "log_tx d n (upd_inode ip f s) = log_tx d n s" "cached (upd_inode ip f s) = cached s"
proof -
  have e: "bufs (upd_inode ip f s) = bufs s" "bc_links (upd_inode ip f s) = bc_links s" "disks (upd_inode ip f s) = disks s"
    "logs (upd_inode ip f s) = logs s" by (simp_all add: upd_inode_def)
  have lab: "label (upd_inode ip f s) = label s" by (simp add: label_def fun_eq_iff)
  show lk: "lookup (upd_inode ip f s) = lookup s"
    by (rule ext) (simp add: lookup_def find_block_def lab e del: scan.simps)
  show ok: "cache_ok (upd_inode ip f s) = cache_ok s" by (simp add: cache_ok_def bio_inv_def lab e)
  show v: "view (upd_inode ip f s) = view s" "refs (upd_inode ip f s) = refs s" "holder (upd_inode ip f s) = holder s"
    by (rule ext; simp add: view_def refs_def holder_def lk e split: option.split)+
  have "base (upd_inode ip f s) = base s" by (rule ext) (simp add: base_def v)
  then show "log_tx d n (upd_inode ip f s) = log_tx d n s"
    unfolding log_tx_def ok v e logged_def by simp
  show "cached (upd_inode ip f s) = cached s" by (rule ext)+ (simp add: cached_def lk e)
qed

lemma iupdate_spec:
  assumes "log_tx d (Suc n) s" and "i_dev (icache s ip) = d" and "card {j. holder s j \<noteq> None} \<le> 2"
  defines "k \<equiv> (d, IBLOCK (i_inum (icache s ip)) (sb s))"
  assumes "holder s k = None"
  shows "\<exists>t. iupdate pid ip s = (Inr (), t) \<and> log_tx d n t \<and> view t = (view s)(k := put_dinode (icache s ip) (view s k)) \<and>
    lbio.more t = lbio.more s \<and> holder t = holder s \<and> (\<forall>j c. holder s j \<noteq> None \<longrightarrow> cached s j c \<longrightarrow> cached t j c)"
  unfolding iupdate_def Let_def assms(2) k_def [symmetric]
  by (rule ltx.update [OF assms(1,5,3)]) (simp_all add: log_put_store k_def)

lemma icache_more:
  "icache (snd (bread pid k s)) = icache s" "icache (snd (brelse pid b s)) = icache s"
  "icache (set_data b x s) = icache s" "icache (bpin b s) = icache s"
  by (rule fs_more(2), rule logs_more(2), rule bio_more)+

lemma icache_log_write: "icache (snd (log_write b s)) = icache s"
  by (simp add: log_write_def Let_def upd_log_def icache_more)

lemma icache_bindS:
  "(\<And>x s. icache (snd (f x s)) = icache s) \<Longrightarrow> icache (snd (bindS m f)) = icache (snd m)"
  by (cases m; cases "fst m") auto

lemma icache_log_put: "icache (snd (log_put pid b x s)) = icache s"
  by (simp add: log_put_def icache_bindS icache_log_write icache_more)

lemma icache_bfree: "icache (snd (bfree pid d a s)) = icache s"
  by (simp add: bfree_def icache_bindS icache_log_put icache_more Let_def)

lemma icache_iupdate: "icache (snd (iupdate pid ip s)) = icache s"
  by (simp add: iupdate_def icache_bindS icache_log_put icache_more Let_def)

lemma icache_forS:
  "(\<And>i s. icache (snd (f i s)) = icache s) \<Longrightarrow> icache (snd (forS f is s)) = icache s"
  by (induction "is" arbitrary: s) (simp_all add: icache_bindS)

lemma Inr_snd: "m = (Inr x, t) \<Longrightarrow> t = snd m"
  by simp

lemma itrunc_direct_addrs:
  assumes "forS (itrunc_direct pid ip) is s = (Inr (), t)"
  shows "icache t = (icache s)(ip := (icache s ip)\<lparr>i_addrs := (\<lambda>k. if k \<in> set is then 0 else i_addrs (icache s ip) k)\<rparr>)"
  using assms
proof (induction "is" arbitrary: s)
  case (Cons k "is")
  from Cons.prems obtain u where u: "itrunc_direct pid ip k s = (Inr (), u)" "forS (itrunc_direct pid ip) is u = (Inr (), t)"
    by (auto simp: bindS_eq_Inr)
  have "icache u = (icache s)(ip := (icache s ip)\<lparr>i_addrs := (i_addrs (icache s ip))(k := 0)\<rparr>)"
  proof (cases "i_addrs (icache s ip) k = 0")
    case True
    then have "u = s" using u(1) by (simp add: itrunc_direct_def)
    moreover have "(i_addrs (icache s ip))(k := 0) = i_addrs (icache s ip)" using True by auto
    ultimately show ?thesis by simp
  next
    case False
    then obtain v where "bfree pid (i_dev (icache s ip)) (i_addrs (icache s ip) k) s = (Inr (), v)"
      "u = upd_inode ip (\<lambda>x. x\<lparr>i_addrs := (i_addrs x)(k := 0)\<rparr>) v"
      using u(1) by (auto simp: itrunc_direct_def Let_def bindS_eq_Inr)
    moreover from this have "icache v = icache s" by (metis icache_bfree snd_conv)
    ultimately show ?thesis by simp
  qed
  then show ?case using Cons.IH [OF u(2)] by (auto simp: fun_eq_iff)
qed (simp add: fun_upd_idem)


definition big_file :: fs where
  "big_file = upd_inode 0 (\<lambda>x. x\<lparr>i_addrs := \<lambda>k. if k = NDIRECT + 1 then 7 else 0, i_size := 1000000\<rparr>) (fs_boot (\<lambda>_ _. 0))"


end
