(* ===== verification/Xv7_Sched.thy ===== *)
theory Xv7_Sched
  imports Xv7_Proc
begin

text \<open>
  The interleavings of the process table's steps: what the scheduler of every CPU and every
  process does to it, in any order.  The invariant \<open>table_ok\<close> carries two properties: a
  process runs on one CPU only, and \<open>wait\<close> misses no child's exit.
\<close>

text \<open>Where a process is in \<open>exit\<close>: not there, past the wakeup of init, past the copy of \<open>parent\<close>.\<close>

datatype exit_stage = Alive | Woke | Captured nat

type_synonym exits = "nat \<Rightarrow> exit_stage"

inductive proc_step :: "ptable \<times> exits \<Rightarrow> ptable \<times> exits \<Rightarrow> bool" where
  ps_run: "cpu_proc s c = None \<Longrightarrow> p < NPROC \<Longrightarrow> scheduler_try c p s = (True, t) \<Longrightarrow> proc_step (s, st) (t, st)"
| ps_yield: "cpu_proc s c = Some p \<Longrightarrow> proc_step (s, st) (yield c p s, st)"
| ps_sleep: "cpu_proc s c = Some p \<Longrightarrow> st p = Alive \<Longrightarrow> proc_step (s, st) (sleep c p (ObjChan a) s, st)"
| ps_sleep_end: "cpu_proc s c = Some p \<Longrightarrow> proc_step (s, st) (sleep_end p s, st)"
| ps_wakeup: "proc_step (s, st) (wakeup (ObjChan a) s, st)"
| ps_kill: "proc_step (s, st) (snd (kill n s), st)"
| ps_fork: "cpu_proc s c = Some p \<Longrightarrow> st p = Alive \<Longrightarrow> alloc_slot s = Some (np, s') \<Longrightarrow>
    proc_step (s, st) (snd (start_child p np s'), st)"
| ps_wait: "cpu_proc s c = Some p \<Longrightarrow> st p = Alive \<Longrightarrow> proc_step (s, st) (snd (wait_turn c p copied s), st)"
| ps_exit_wake: "cpu_proc s c = Some p \<Longrightarrow> st p = Alive \<Longrightarrow> p \<noteq> initproc s \<Longrightarrow>
    proc_step (s, st) (exit_wake_init s, st(p := Woke))"
| ps_exit_parent: "cpu_proc s c = Some p \<Longrightarrow> st p = Woke \<Longrightarrow> exit_parent p s = Some q \<Longrightarrow>
    proc_step (s, st) (s, st(p := Captured q))"
| ps_exit_finish: "cpu_proc s c = Some p \<Longrightarrow> st p = Captured q \<Longrightarrow>
    proc_step (s, st) (exit_finish c p q status s, st(p := Alive))"

inductive_cases proc_stepE: "proc_step x y"

definition runs_ok :: "ptable \<Rightarrow> bool" where
  "runs_ok s \<longleftrightarrow>
     (\<forall>c p. cpu_proc s c = Some p \<longrightarrow> p < NPROC \<and> pstate (procs s p) = RUNNING) \<and>
     (\<forall>c c' p. cpu_proc s c = Some p \<longrightarrow> cpu_proc s c' = Some p \<longrightarrow> c = c') \<and>
     (\<forall>p < NPROC. pstate (procs s p) = RUNNING \<longrightarrow> (\<exists>c. cpu_proc s c = Some p))"

definition alive :: "ptable \<Rightarrow> nat \<Rightarrow> bool" where
  "alive s p \<longleftrightarrow> p < NPROC \<and> pstate (procs s p) \<noteq> UNUSED \<and> pstate (procs s p) \<noteq> ZOMBIE"

definition family_ok :: "ptable \<times> exits \<Rightarrow> bool" where
  "family_ok x = (case x of (s, st) \<Rightarrow>
     alive s (initproc s) \<and>
     (\<forall>p < NPROC. \<forall>q. parent (procs s p) = Some q \<longrightarrow> alive s q) \<and>
     (\<forall>p < NPROC. p \<noteq> initproc s \<longrightarrow> pstate (procs s p) \<noteq> UNUSED \<longrightarrow> parent (procs s p) \<noteq> None) \<and>
     (\<forall>p. st p \<noteq> Alive \<longrightarrow> p \<noteq> initproc s \<and> p < NPROC \<and> pstate (procs s p) \<in> {RUNNING, RUNNABLE}) \<and>
     (\<forall>p q. st p = Captured q \<longrightarrow> parent (procs s p) = Some q \<or> parent (procs s p) = Some (initproc s)))"

definition waits_ok :: "ptable \<Rightarrow> bool" where
  "waits_ok s \<longleftrightarrow> (\<forall>q p. q \<noteq> initproc s \<longrightarrow> pstate (procs s q) = SLEEPING \<longrightarrow> pchan (procs s q) = Some (ProcChan q) \<longrightarrow>
     p < NPROC \<longrightarrow> parent (procs s p) = Some q \<longrightarrow> pstate (procs s p) \<noteq> ZOMBIE)"

text \<open>The three parts are kept one by one.\<close>

lemma runs_okD:
  assumes "runs_ok s"
  shows "cpu_proc s c = Some p \<Longrightarrow> p < NPROC" "cpu_proc s c = Some p \<Longrightarrow> pstate (procs s p) = RUNNING"
    "cpu_proc s c = Some p \<Longrightarrow> cpu_proc s c' = Some p \<Longrightarrow> c = c'"
    "p < NPROC \<Longrightarrow> pstate (procs s p) = RUNNING \<Longrightarrow> \<exists>c. cpu_proc s c = Some p"
  using assms unfolding runs_ok_def by blast+

text \<open>A step that moves no process in or out of \<open>RUNNING\<close>, or takes one off its CPU.\<close>

lemma runs_ok_same:
  assumes "runs_ok s" and "cpu_proc t = cpu_proc s"
    and "\<And>p. p < NPROC \<Longrightarrow> (pstate (procs t p) = RUNNING) = (pstate (procs s p) = RUNNING)"
  shows "runs_ok t"
proof -
  note r = runs_okD [OF assms(1)]
  show ?thesis
    unfolding runs_ok_def assms(2) using r(1,3) r(2,4) assms(3) by blast
qed

lemma runs_ok_leave:
  assumes "runs_ok s" and c: "cpu_proc s c = Some p" "cpu_proc t = (cpu_proc s)(c := None)"
    and "pstate (procs t p) \<noteq> RUNNING"
    and "\<And>q. q < NPROC \<Longrightarrow> q \<noteq> p \<Longrightarrow> (pstate (procs t q) = RUNNING) = (pstate (procs s q) = RUNNING)"
  shows "runs_ok t"
proof -
  note r = runs_okD [OF assms(1)]
  show ?thesis
    unfolding runs_ok_def
  proof (intro conjI allI impI)
    fix d q assume d: "cpu_proc t d = Some q"
    have dc: "d \<noteq> c" using d c(2) by auto
    then have ds: "cpu_proc s d = Some q" using d c(2) by simp
    have qp: "q \<noteq> p" using r(3) [of d p c] ds c(1) dc by blast
    show qn: "q < NPROC" by (rule r(1) [OF ds])
    show "pstate (procs t q) = RUNNING" using r(2) [OF ds] assms(5) [OF qn qp] by blast
    fix d' assume d': "cpu_proc t d' = Some q"
    then have "d' \<noteq> c" using c(2) by auto
    then have "cpu_proc s d' = Some q" using d' c(2) by simp
    then show "d = d'" by (rule r(3) [OF ds])
  next
    fix q assume "q < NPROC" "pstate (procs t q) = RUNNING"
    then have qp: "q \<noteq> p" "pstate (procs s q) = RUNNING" using assms(4) assms(5) [of q] by blast+
    then obtain d where d: "cpu_proc s d = Some q" using r(4) [OF \<open>q < NPROC\<close>] by blast
    then have "d \<noteq> c" using c(1) qp(1) by auto
    then show "\<exists>d. cpu_proc t d = Some q" using c(2) d by auto
  qed
qed

lemma alloc_slot_eq:
  assumes "alloc_slot s = Some (np, t)"
  shows "np < NPROC" "pstate (procs s np) = UNUSED" "\<exists>n. procs t = (procs s)(np := (procs s np)\<lparr>pid := n\<rparr>)"
    "initproc t = initproc s" "cpu_proc t = cpu_proc s"
proof -
  have "np \<in> set (filter (\<lambda>p. pstate (procs s p) = UNUSED) [0..<NPROC])"
    using assms unfolding alloc_slot_def by (cases "filter (\<lambda>p. pstate (procs s p) = UNUSED) [0..<NPROC]") (auto split: prod.splits)
  then show "np < NPROC" "pstate (procs s np) = UNUSED" by auto
  show "\<exists>n. procs t = (procs s)(np := (procs s np)\<lparr>pid := n\<rparr>)" "initproc t = initproc s" "cpu_proc t = cpu_proc s"
    using assms unfolding alloc_slot_def allocpid_def by (auto split: list.splits)
qed

lemma start_child_eq:
  "p \<noteq> np \<Longrightarrow> procs (snd (start_child p np s)) = (procs s)(np := (procs s np)\<lparr>psz := psz (procs s p), parent := Some p,
     pname := safe_name (pname (procs s np)) (pname (procs s p)), pstate := RUNNABLE\<rparr>)"
  "initproc (snd (start_child p np s)) = initproc s" "cpu_proc (snd (start_child p np s)) = cpu_proc s"
  by (simp_all add: start_child_def Let_def fun_eq_iff)

text \<open>What one turn of \<open>wait\<close> does to the table.\<close>

lemma wait_turn_cases:
  obtains "snd (wait_turn c p copied s) = s"
  | q where "q < NPROC" "parent (procs s q) = Some p" "pstate (procs s q) = ZOMBIE" "snd (wait_turn c p copied s) = upd_proc q clear_proc s"
  | "snd (wait_turn c p copied s) = sleep c p (ProcChan p) s"
    "\<And>q. q < NPROC \<Longrightarrow> parent (procs s q) = Some p \<Longrightarrow> pstate (procs s q) \<noteq> ZOMBIE"
proof -
  obtain b r where w: "wait_scan p (procs s) False [0..<NPROC] = (b, r)" by fastforce
  show thesis
  proof (cases r)
    case None
    then show thesis using w wait_scan_none [of p "procs s" False "[0..<NPROC]" b] that(1,3)
      by (cases "\<not> b \<or> killed (procs s p)") (auto simp: wait_turn_def)
  next
    case (Some q)
    then show thesis using w wait_scan_some [of p "procs s" False "[0..<NPROC]" b q] that(1,2)
      by (cases copied) (auto simp: wait_turn_def)
  qed
qed

lemmas proc_ops = yield_def sleep_def sleep_end_def scheduler_try_def exit_wake_init_def exit_finish_def Let_def

definition table_ok :: "ptable \<times> exits \<Rightarrow> bool" where
  "table_ok x \<longleftrightarrow> runs_ok (fst x) \<and> family_ok x \<and> waits_ok (fst x)"

lemma family_okD:
  assumes "family_ok (s, st)"
  shows "alive s (initproc s)" "p < NPROC \<Longrightarrow> parent (procs s p) = Some q \<Longrightarrow> alive s q"
    "p < NPROC \<Longrightarrow> p \<noteq> initproc s \<Longrightarrow> pstate (procs s p) \<noteq> UNUSED \<Longrightarrow> \<exists>q. parent (procs s p) = Some q"
    "st p \<noteq> Alive \<Longrightarrow> p \<noteq> initproc s \<and> p < NPROC \<and> (pstate (procs s p) = RUNNING \<or> pstate (procs s p) = RUNNABLE)"
    "st p = Captured q \<Longrightarrow> parent (procs s p) = Some q \<or> parent (procs s p) = Some (initproc s)"
  using assms unfolding family_ok_def prod.case by blast+

text \<open>A step that changes no parent and leaves live what is live.\<close>

lemma family_ok_same:
  assumes f: "family_ok (s, st)" and "initproc t = initproc s" and "\<And>p. parent (procs t p) = parent (procs s p)"
    and "\<And>p. p < NPROC \<Longrightarrow> alive t p = alive s p \<and> (pstate (procs t p) = UNUSED) = (pstate (procs s p) = UNUSED)"
    and "\<And>p. st' p \<noteq> Alive \<Longrightarrow> p \<noteq> initproc s \<and> p < NPROC \<and> (pstate (procs t p) = RUNNING \<or> pstate (procs t p) = RUNNABLE)"
    and "\<And>p q. st' p = Captured q \<Longrightarrow> parent (procs s p) = Some q \<or> parent (procs s p) = Some (initproc s)"
  shows "family_ok (t, st')"
proof -
  note d = family_okD [OF f]
  have al: "alive s q \<Longrightarrow> alive t q" for q using assms(4) [of q] by (auto simp: alive_def)
  show ?thesis unfolding family_ok_def prod.case assms(2,3) insert_iff empty_iff
  proof (intro conjI allI impI)
    show "alive t (initproc s)" by (rule al [OF d(1)])
    show "p < NPROC \<Longrightarrow> parent (procs s p) = Some q \<Longrightarrow> alive t q" for p q by (rule al) (rule d(2))
    show "p < NPROC \<Longrightarrow> p \<noteq> initproc s \<Longrightarrow> pstate (procs t p) \<noteq> UNUSED \<Longrightarrow> parent (procs s p) \<noteq> None" for p
      using d(3) [of p] assms(4) [of p] by auto
  qed (use assms(5,6) in blast)+
qed

lemma proc_step_runs:
  assumes "proc_step (s, st) (t, st')" and r: "runs_ok s" and f: "family_ok (s, st)"
  shows "runs_ok t"
  using assms(1)
proof cases
  case (ps_run c p)
  note d = runs_okD [OF r]
  have t: "cpu_proc t = (cpu_proc s)(c := Some p)" "pstate (procs s p) = RUNNABLE"
    "\<And>q. pstate (procs t q) = (if q = p then RUNNING else pstate (procs s q))"
    using ps_run(4) by (auto simp: scheduler_try_def split: if_splits)
  have no: "cpu_proc s e \<noteq> Some p" for e using d(2) [of e p] t(2) by auto
  show ?thesis
    unfolding runs_ok_def t(1) t(3)
  proof (intro conjI allI impI)
    fix e q assume e: "((cpu_proc s)(c := Some p)) e = Some q"
    show "q < NPROC" "(if q = p then RUNNING else pstate (procs s q)) = RUNNING"
      using e ps_run(3) d(1,2) [of e q] by (auto split: if_splits)
    fix e' assume "((cpu_proc s)(c := Some p)) e' = Some q"
    then show "e = e'" using e no d(3) [of e q e'] by (auto split: if_splits)
  next
    fix q assume q: "q < NPROC" "(if q = p then RUNNING else pstate (procs s q)) = RUNNING"
    show "\<exists>e. ((cpu_proc s)(c := Some p)) e = Some q"
    proof (cases "q = p")
      case False
      then obtain e where e: "cpu_proc s e = Some q" using d(4) [OF q(1)] q(2) by auto
      then have "e \<noteq> c" using ps_run(2) by auto
      then show ?thesis using e by auto
    qed auto
  qed
next
  case (ps_yield c p)
  show ?thesis by (rule runs_ok_leave [OF r ps_yield(3)]) (auto simp: ps_yield(1) yield_def)
next
  case (ps_sleep c p a)
  show ?thesis by (rule runs_ok_leave [OF r ps_sleep(3)]) (auto simp: ps_sleep(1) sleep_def)
next
  case (ps_sleep_end c p)
  show ?thesis by (rule runs_ok_same [OF r]) (auto simp: ps_sleep_end(1) sleep_end_def)
next
  case (ps_wakeup a)
  show ?thesis by (rule runs_ok_same [OF r]) (auto simp: ps_wakeup wakeup_eq)
next
  case (ps_kill n)
  obtain q b where "procs t = (\<lambda>p. if p = q \<and> b then
       (procs s p)\<lparr>killed := True, pstate := if pstate (procs s p) = SLEEPING then RUNNABLE else pstate (procs s p)\<rparr> else procs s p)"
     "cpu_proc t = cpu_proc s"
    using kill_from_eq [of n "[0..<NPROC]" s] by (auto simp: ps_kill kill_def)
  then show ?thesis by (intro runs_ok_same [OF r]) auto
next
  case (ps_fork c p np s')
  note a = alloc_slot_eq [OF ps_fork(5)]
  have "p \<noteq> np" using runs_okD(2) [OF r ps_fork(3)] a(2) by auto
  then show ?thesis using a
    by (intro runs_ok_same [OF r]) (auto simp: ps_fork(1) start_child_eq)
next
  case (ps_wait c p copied)
  show ?thesis
  proof (cases rule: wait_turn_cases [of c p copied s])
    case 1
    then show ?thesis using r ps_wait(1) by simp
  next
    case (2 q)
    then show ?thesis by (intro runs_ok_same [OF r]) (auto simp: ps_wait(1) clear_proc_def)
  next
    case 3
    show ?thesis by (rule runs_ok_leave [OF r ps_wait(3)]) (auto simp: ps_wait(1) 3(1) sleep_def)
  qed
next
  case (ps_exit_wake c p)
  show ?thesis by (rule runs_ok_same [OF r]) (auto simp: ps_exit_wake(1) exit_wake_init_def wakeup1_eq)
next
  case (ps_exit_parent c p q)
  then show ?thesis using r by simp
next
  case (ps_exit_finish c p q status)
  show ?thesis by (rule runs_ok_leave [OF r ps_exit_finish(3)])
    (auto simp: ps_exit_finish(1) exit_finish_def wakeup1_eq reparent_eq Let_def)
qed

text \<open>A parent that runs \<open>fork\<close> gets a child in a free slot.\<close>

lemma family_ok_fork:
  assumes f: "family_ok (s, st)" and p: "alive s p" and np: "np < NPROC" "pstate (procs s np) = UNUSED"
    and t: "initproc t = initproc s" "\<And>q. q \<noteq> np \<Longrightarrow> procs t q = procs s q"
      "parent (procs t np) = Some p" "pstate (procs t np) = RUNNABLE"
  shows "family_ok (t, st)"
proof -
  note d = family_okD [OF f]
  have al: "alive s q \<Longrightarrow> alive t q" for q
    using np t(2) [of q] by (cases "q = np") (auto simp: alive_def)
  have n: "st np = Alive" using d(4) [of np] np(2) by auto
  have i: "initproc s \<noteq> np" using d(1) np(2) by (auto simp: alive_def)
  show ?thesis unfolding family_ok_def prod.case t(1) insert_iff empty_iff
  proof (intro conjI allI impI)
    show "alive t (initproc s)" by (rule al [OF d(1)])
    show "q < NPROC \<Longrightarrow> parent (procs t q) = Some r \<Longrightarrow> alive t r" for q r
      using t(2) [of q] t(3) al [OF p] al [OF d(2) [of q r]] by (cases "q = np") auto
    show "q < NPROC \<Longrightarrow> q \<noteq> initproc s \<Longrightarrow> pstate (procs t q) \<noteq> UNUSED \<Longrightarrow> parent (procs t q) \<noteq> None" for q
      using t(2) [of q] t(3) d(3) [of q] by (cases "q = np") auto
    fix q assume q: "st q \<noteq> Alive"
    then have "q \<noteq> np" using n by auto
    then have "procs t q = procs s q" by (rule t(2))
    then show "q \<noteq> initproc s" "q < NPROC" "pstate (procs t q) = RUNNING \<or> pstate (procs t q) = RUNNABLE \<or> False"
      using d(4) [OF q] by auto
  next
    fix q r assume q: "st q = Captured r"
    then have "q \<noteq> np" using n by auto
    then show "parent (procs t q) = Some r \<or> parent (procs t q) = Some (initproc s)" using t(2) d(5) [OF q] by simp
  qed
qed

text \<open>A parent that runs \<open>wait\<close> frees a zombie child.\<close>

lemma family_ok_reap:
  assumes f: "family_ok (s, st)" and q: "q < NPROC" "pstate (procs s q) = ZOMBIE"
    and t: "initproc t = initproc s" "\<And>r. r \<noteq> q \<Longrightarrow> procs t r = procs s r" "procs t q = clear_proc (procs s q)"
  shows "family_ok (t, st)"
proof -
  note d = family_okD [OF f]
  have al: "alive s r \<Longrightarrow> alive t r" for r
    using q t(2) [of r] by (cases "r = q") (auto simp: alive_def)
  have n: "st q = Alive" using d(4) [of q] q(2) by auto
  have c: "pstate (procs t q) = UNUSED" "parent (procs t q) = None" using t(3) by (simp_all add: clear_proc_def)
  show ?thesis unfolding family_ok_def prod.case t(1) insert_iff empty_iff
  proof (intro conjI allI impI)
    show "alive t (initproc s)" by (rule al [OF d(1)])
    show "r < NPROC \<Longrightarrow> parent (procs t r) = Some x \<Longrightarrow> alive t x" for r x
      using t(2) [of r] c al [OF d(2) [of r x]] by (cases "r = q") auto
    show "r < NPROC \<Longrightarrow> r \<noteq> initproc s \<Longrightarrow> pstate (procs t r) \<noteq> UNUSED \<Longrightarrow> parent (procs t r) \<noteq> None" for r
      using t(2) [of r] c d(3) [of r] by (cases "r = q") auto
    fix r assume r: "st r \<noteq> Alive"
    then have "r \<noteq> q" using n by auto
    then have "procs t r = procs s r" by (rule t(2))
    then show "r \<noteq> initproc s" "r < NPROC" "pstate (procs t r) = RUNNING \<or> pstate (procs t r) = RUNNABLE \<or> False"
      using d(4) [OF r] by auto
  next
    fix r x assume r: "st r = Captured x"
    then have "r \<noteq> q" using n by auto
    then show "parent (procs t r) = Some x \<or> parent (procs t r) = Some (initproc s)" using t(2) d(5) [OF r] by simp
  qed
qed

text \<open>The end of \<open>exit\<close>: the table afterwards.\<close>

lemma exit_finish_eq:
  assumes "p < NPROC"
  shows "initproc (exit_finish c p q status s) = initproc s"
    "r < NPROC \<Longrightarrow> parent (procs (exit_finish c p q status s) r) =
       (if parent (procs s r) = Some p then Some (initproc s) else parent (procs s r))"
    "pstate (procs (exit_finish c p q status s) r) =
       (if r = p then ZOMBIE
        else if r = q \<and> pstate (procs s q) = SLEEPING \<and> pchan (procs s q) = Some (ProcChan q) then RUNNABLE
        else pstate (procs s r))"
    "pchan (procs (exit_finish c p q status s) r) = pchan (procs s r)"
  using assms by (auto simp: exit_finish_def Let_def reparent_eq wakeup1_eq)

lemma family_ok_exit:
  assumes f: "family_ok (s, st)" and st: "st p = Captured q" and r: "cpu_proc s c = Some p" "runs_ok s"
  shows "family_ok (exit_finish c p q status s, st(p := Alive))"
proof -
  note d = family_okD [OF f]
  let ?t = "exit_finish c p q status s"
  have p: "p < NPROC" "p \<noteq> initproc s" "pstate (procs s p) = RUNNING"
    using d(4) [of p] st runs_okD(2) [OF r(2,1)] by auto
  note e = exit_finish_eq [OF p(1), where c = c and q = q and status = status and s = s]
  have al: "alive s x \<Longrightarrow> x \<noteq> p \<Longrightarrow> alive ?t x" for x using e(3) [of x] by (auto simp: alive_def)
  show ?thesis unfolding family_ok_def prod.case e(1) insert_iff empty_iff
  proof (intro conjI allI impI)
    show "alive ?t (initproc s)" using al [OF d(1)] p(2) by blast
    show "x < NPROC \<Longrightarrow> parent (procs ?t x) = Some y \<Longrightarrow> alive ?t y" for x y
      using e(2) [of x] al [OF d(1)] p(2) al [OF d(2) [of x y]] by (auto split: if_splits)
    show "x < NPROC \<Longrightarrow> x \<noteq> initproc s \<Longrightarrow> pstate (procs ?t x) \<noteq> UNUSED \<Longrightarrow> parent (procs ?t x) \<noteq> None" for x
      using e(2,3) [of x] d(3) [of x] p(3) by (auto split: if_splits)
    fix x assume x: "(st(p := Alive)) x \<noteq> Alive"
    then have "x \<noteq> p" "st x \<noteq> Alive" by (auto split: if_splits)
    then show "x \<noteq> initproc s" "x < NPROC" "pstate (procs ?t x) = RUNNING \<or> pstate (procs ?t x) = RUNNABLE \<or> False"
      using d(4) [of x] e(3) [of x] by auto
  next
    fix x y assume x: "(st(p := Alive)) x = Captured y"
    then have x': "x \<noteq> p" "st x = Captured y" by (auto split: if_splits)
    then have "x < NPROC" using d(4) [of x] by auto
    then show "parent (procs ?t x) = Some y \<or> parent (procs ?t x) = Some (initproc s)"
      using e(2) [of x] d(5) [OF x'(2)] by auto
  qed
qed

lemma proc_step_family:
  assumes "proc_step (s, st) (t, st')" and r: "runs_ok s" and f: "family_ok (s, st)"
  shows "family_ok (t, st')"
  using assms(1)
proof cases
  case (ps_run c p)
  have t: "procs t = (procs s)(p := (procs s p)\<lparr>pstate := RUNNING\<rparr>)" "initproc t = initproc s" "pstate (procs s p) = RUNNABLE"
    using ps_run(4) by (auto simp: scheduler_try_def split: if_splits)
  show ?thesis unfolding ps_run(1)
    by (rule family_ok_same [OF f t(2)]; use t family_okD(4,5) [OF f] in \<open>force simp: alive_def\<close>)
next
  case (ps_yield c p)
  note p = runs_okD(2) [OF r ps_yield(3)]
  show ?thesis unfolding ps_yield
    by (rule family_ok_same [OF f]; use p family_okD(4,5) [OF f] in \<open>force simp: alive_def yield_def\<close>)
next
  case (ps_sleep c p a)
  note p = runs_okD(2) [OF r ps_sleep(3)]
  show ?thesis unfolding ps_sleep
    by (rule family_ok_same [OF f]; use p ps_sleep(4) family_okD(4,5) [OF f] in \<open>force simp: alive_def sleep_def\<close>)
next
  case (ps_sleep_end c p)
  show ?thesis unfolding ps_sleep_end
    by (rule family_ok_same [OF f]; use family_okD(4,5) [OF f] in \<open>force simp: alive_def sleep_end_def\<close>)
next
  case (ps_wakeup a)
  show ?thesis unfolding ps_wakeup
    by (rule family_ok_same [OF f]; use family_okD(4,5) [OF f] in \<open>force simp: alive_def wakeup_eq\<close>)
next
  case (ps_kill n)
  obtain q b where k: "procs t = (\<lambda>p. if p = q \<and> b then
       (procs s p)\<lparr>killed := True, pstate := if pstate (procs s p) = SLEEPING then RUNNABLE else pstate (procs s p)\<rparr> else procs s p)"
     "initproc t = initproc s"
    using kill_from_eq [of n "[0..<NPROC]" s] by (auto simp: ps_kill kill_def)
  show ?thesis unfolding ps_kill(2)
    by (rule family_ok_same [OF f k(2)]; use k family_okD(4,5) [OF f] in \<open>force simp: alive_def\<close>)
next
  case (ps_fork c p np s')
  note a = alloc_slot_eq [OF ps_fork(5)]
  have p: "p < NPROC" "pstate (procs s p) = RUNNING" using runs_okD(1,2) [OF r ps_fork(3)] .
  then have "p \<noteq> np" using a(2) by auto
  then show ?thesis unfolding ps_fork(1,2) using a p
    by (intro family_ok_fork [OF f, of p np]) (auto simp: alive_def start_child_eq)
next
  case (ps_wait c p copied)
  show ?thesis
  proof (cases rule: wait_turn_cases [of c p copied s])
    case 1
    then show ?thesis using f ps_wait(1,2) by simp
  next
    case (2 q)
    then show ?thesis unfolding ps_wait(1,2) by (intro family_ok_reap [OF f 2(1,3)]) auto
  next
    case 3
    note p = runs_okD(2) [OF r ps_wait(3)]
    show ?thesis unfolding ps_wait(1,2) 3(1)
      by (rule family_ok_same [OF f]; use p ps_wait(4) family_okD(4,5) [OF f] in \<open>force simp: alive_def sleep_def\<close>)
  qed
next
  case (ps_exit_wake c p)
  note p = runs_okD(1,2) [OF r ps_exit_wake(3)]
  show ?thesis unfolding ps_exit_wake
    by (rule family_ok_same [OF f]; use p ps_exit_wake(5) family_okD(4,5) [OF f] in \<open>force simp: alive_def exit_wake_init_def wakeup1_eq split: if_splits\<close>)
next
  case (ps_exit_parent c p q)
  show ?thesis unfolding ps_exit_parent
    by (rule family_ok_same [OF f]; use ps_exit_parent family_okD(4,5) [OF f] in \<open>force simp: exit_parent_def split: if_splits\<close>)
next
  case (ps_exit_finish c p q status)
  then show ?thesis using family_ok_exit [OF f ps_exit_finish(4,3) r] by simp
qed

text \<open>A step after which a process asleep in \<open>wait\<close> was so before, and a zombie child was one.\<close>

lemma waits_ok_same:
  assumes w: "waits_ok s" and "initproc t = initproc s"
    and "\<And>q. q \<noteq> initproc s \<Longrightarrow> pstate (procs t q) = SLEEPING \<Longrightarrow> pchan (procs t q) = Some (ProcChan q) \<Longrightarrow>
      pstate (procs s q) = SLEEPING \<and> pchan (procs s q) = Some (ProcChan q)"
    and "\<And>p. p < NPROC \<Longrightarrow> pstate (procs t p) = ZOMBIE \<Longrightarrow> pstate (procs s p) = ZOMBIE \<and> parent (procs t p) = parent (procs s p)"
  shows "waits_ok t"
  unfolding waits_ok_def assms(2)
proof (intro allI impI notI)
  fix q p
  assume a: "q \<noteq> initproc s" "pstate (procs t q) = SLEEPING" "pchan (procs t q) = Some (ProcChan q)" "p < NPROC"
    "parent (procs t p) = Some q" "pstate (procs t p) = ZOMBIE"
  have "pstate (procs s q) = SLEEPING" "pchan (procs s q) = Some (ProcChan q)" using assms(3) [OF a(1-3)] by blast+
  moreover have "pstate (procs s p) = ZOMBIE" "parent (procs s p) = Some q" using assms(4) [OF a(4,6)] a(5) by auto
  ultimately show False using w a(1,4) unfolding waits_ok_def by blast
qed

lemma proc_step_waits:
  assumes "proc_step (s, st) (t, st')" and r: "runs_ok s" and f: "family_ok (s, st)" and w: "waits_ok s"
  shows "waits_ok t"
  using assms(1)
proof cases
  case (ps_run c p)
  then show ?thesis by (intro waits_ok_same [OF w]) (auto simp: scheduler_try_def split: if_splits)
next
  case (ps_yield c p)
  then show ?thesis by (intro waits_ok_same [OF w]) (auto simp: yield_def split: if_splits)
next
  case (ps_sleep c p a)
  then show ?thesis by (intro waits_ok_same [OF w]) (auto simp: sleep_def split: if_splits)
next
  case (ps_sleep_end c p)
  then show ?thesis by (intro waits_ok_same [OF w]) (auto simp: sleep_end_def split: if_splits)
next
  case (ps_wakeup a)
  then show ?thesis by (intro waits_ok_same [OF w]) (auto simp: wakeup_eq split: if_splits)
next
  case (ps_kill n)
  obtain q b where "procs t = (\<lambda>p. if p = q \<and> b then
       (procs s p)\<lparr>killed := True, pstate := if pstate (procs s p) = SLEEPING then RUNNABLE else pstate (procs s p)\<rparr> else procs s p)"
     "initproc t = initproc s"
    using kill_from_eq [of n "[0..<NPROC]" s] by (auto simp: ps_kill kill_def)
  then show ?thesis by (intro waits_ok_same [OF w]) (auto split: if_splits)
next
  case (ps_fork c p np s')
  note a = alloc_slot_eq [OF ps_fork(5)]
  have "p \<noteq> np" using runs_okD(2) [OF r ps_fork(3)] a(2) by auto
  then show ?thesis using a by (intro waits_ok_same [OF w]) (auto simp: ps_fork(1) start_child_eq split: if_splits)
next
  case (ps_wait c p copied)
  show ?thesis
  proof (cases rule: wait_turn_cases [of c p copied s])
    case 1
    then show ?thesis using w ps_wait(1) by simp
  next
    case (2 q)
    then show ?thesis by (intro waits_ok_same [OF w]) (auto simp: ps_wait(1) clear_proc_def split: if_splits)
  next
    case 3
    have p: "pstate (procs s p) = RUNNING" by (rule runs_okD(2) [OF r ps_wait(3)])
    show ?thesis using w 3(2) p unfolding waits_ok_def ps_wait(1) 3(1) by (auto simp: sleep_def split: if_splits)
  qed
next
  case (ps_exit_wake c p)
  then show ?thesis by (intro waits_ok_same [OF w]) (auto simp: exit_wake_init_def wakeup1_eq split: if_splits)
next
  case (ps_exit_parent c p q)
  then show ?thesis using w by simp
next
  case (ps_exit_finish c p q status)
  have p: "p < NPROC" using runs_okD(1) [OF r ps_exit_finish(3)] .
  note e = exit_finish_eq [OF p, where c = c and q = q and status = status and s = s, folded ps_exit_finish(1)]
  have par: "parent (procs s p) = Some q \<or> parent (procs s p) = Some (initproc s)"
    by (rule family_okD(5) [OF f ps_exit_finish(4)])
  show ?thesis
    unfolding waits_ok_def e(1)
  proof (intro allI impI notI)
    fix x y
    assume a: "x \<noteq> initproc s" "pstate (procs t x) = SLEEPING" "pchan (procs t x) = Some (ProcChan x)" "y < NPROC"
      "parent (procs t y) = Some x" "pstate (procs t y) = ZOMBIE"
    have x: "x \<noteq> q" "pstate (procs s x) = SLEEPING" "pchan (procs s x) = Some (ProcChan x)"
      using a(2,3) e(3) [of x] e(4) [of x] by (auto split: if_splits)
    have y: "parent (procs s y) = Some x" using a(1,4,5) e(2) [of y] by (auto split: if_splits)
    then have "y \<noteq> p" using par x(1) a(1) by auto
    then have "pstate (procs s y) = ZOMBIE" using a(6) e(3) [of y] by (auto split: if_splits)
    then show False using w a(1,4) x y unfolding waits_ok_def by blast
  qed
qed

lemma proc_step_ok:
  assumes "proc_step x y" and "table_ok x"
  shows "table_ok y"
  using assms proc_step_runs [of "fst x" "snd x" "fst y" "snd y"] proc_step_family [of "fst x" "snd x" "fst y" "snd y"]
    proc_step_waits [of "fst x" "snd x" "fst y" "snd y"]
  by (simp add: table_ok_def)

text \<open>The table when the first process starts.\<close>

definition no_map :: map_info where
  "no_map = \<lparr>vstart = 0, vend = 0, m_length = 0, m_prot = 0, m_flags = 0, m_offset = 0, m_used = False, m_file = 0\<rparr>"

definition bss_proc :: proc where
  "bss_proc = \<lparr>pstate = UNUSED, parent = None, pchan = None, killed = False, xstate = 0, pid = 0, kstack = 0, psz = 0,
     pagetable = 0, ptf = 0, ofile = \<lambda>_. None, pcwd = None, pname = [], minfo = \<lambda>_. no_map\<rparr>"

definition bss_table :: ptable where
  "bss_table = \<lparr>procs = \<lambda>_. bss_proc, initproc = 0, nextpid = 1, cpu_proc = \<lambda>_. None\<rparr>"

definition boot_table :: ptable where
  "boot_table = (case alloc_slot bss_table of None \<Rightarrow> bss_table | Some (p, s) \<Rightarrow> start_init p [] None s)"

lemma boot_table_eq: "boot_table = start_init 0 [] None (upd_proc 0 (\<lambda>x. x\<lparr>pid := 1\<rparr>) (bss_table\<lparr>nextpid := 2\<rparr>))"
proof -
  have "filter (\<lambda>p. pstate (procs bss_table p) = UNUSED) [0..<NPROC] = [0..<NPROC]"
    by (rule filter_True) (simp add: bss_table_def bss_proc_def)
  moreover have "[0..<NPROC] = 0 # [1..<NPROC]" by (simp add: NPROC_def upt_conv_Cons)
  ultimately show ?thesis by (simp add: boot_table_def alloc_slot_def allocpid_def) (simp add: bss_table_def)
qed

lemma boot_ok: "table_ok (boot_table, \<lambda>_. Alive)"
proof -
  have b: "cpu_proc boot_table = (\<lambda>_. None)" "initproc boot_table = 0"
    "\<And>p. pstate (procs boot_table p) = (if p = 0 then RUNNABLE else UNUSED)" "\<And>p. parent (procs boot_table p) = None"
    by (simp_all add: boot_table_eq start_init_def bss_table_def bss_proc_def upd_proc_def)
  show ?thesis
    by (auto simp: table_ok_def runs_ok_def family_ok_def waits_ok_def alive_def b NPROC_def split: if_splits)
qed

lemma reachable_ok: "proc_step\<^sup>*\<^sup>* (boot_table, \<lambda>_. Alive) x \<Longrightarrow> table_ok x"
  by (induction rule: rtranclp_induct) (use boot_ok proc_step_ok in blast)+

section \<open>A run\<close>

text \<open>
  Init (slot 0) forks 1, which forks 2, each on a CPU of its own.  In the first run 2 exits;
  in the second 2 reads its parent, 1 exits and hands 2 to init, init collects 1 and sleeps
  in \<open>wait\<close>, and then 2 ends its exit by waking the slot of 1.
\<close>

definition run_fork :: "nat \<Rightarrow> ptable \<Rightarrow> ptable" where
  "run_fork p s = (case alloc_slot s of None \<Rightarrow> s | Some (np, s) \<Rightarrow> snd (start_child p np s))"

definition family3 :: ptable where
  "family3 = snd (scheduler_try 2 2 (run_fork 1 (snd (scheduler_try 1 1 (run_fork 0 (snd (scheduler_try 0 0 boot_table)))))))"

definition zombie_child :: ptable where
  "zombie_child = exit_finish 2 2 1 0 (exit_wake_init family3)"

definition orphaned :: ptable where
  "orphaned = exit_finish 1 1 0 0 (exit_wake_init (exit_wake_init family3))"

definition init_asleep :: ptable where
  "init_asleep = snd (wait_turn 0 0 True (snd (wait_turn 0 0 True orphaned)))"

definition missed_zombie :: ptable where
  "missed_zombie = exit_finish 2 2 1 0 init_asleep"

lemma step_fork: "cpu_proc s c = Some p \<Longrightarrow> st p = Alive \<Longrightarrow> alloc_slot s \<noteq> None \<Longrightarrow> proc_step (s, st) (run_fork p s, st)"
  unfolding run_fork_def using ps_fork [of s c p st] by (auto split: option.split)

lemma step_run: "cpu_proc s c = None \<Longrightarrow> p < NPROC \<Longrightarrow> pstate (procs s p) = RUNNABLE \<Longrightarrow> proc_step (s, st) (snd (scheduler_try c p s), st)"
  by (rule ps_run [of s c p]) (simp_all add: scheduler_try_def)

abbreviation (input) "reachable_from_boot x \<equiv> proc_step\<^sup>*\<^sup>* (boot_table, \<lambda>_. Alive) x"

text \<open>The first \<open>k\<close> slots run, each the child of the one before.\<close>

definition chain :: "nat \<Rightarrow> ptable \<Rightarrow> bool" where
  "chain k s \<longleftrightarrow> initproc s = 0 \<and> (\<forall>c. cpu_proc s c = (if c < k then Some c else None)) \<and>
     (\<forall>r. parent (procs s r) = (if 0 < r \<and> r < k then Some (r - 1) else None)) \<and>
     (\<forall>r. pstate (procs s r) = (if r < k then RUNNING else UNUSED)) \<and>
     (\<forall>r. pchan (procs s r) = None \<and> \<not> killed (procs s r))"

lemma slots_from: "k < NPROC \<Longrightarrow> filter (\<lambda>r. \<not> r < k) [0..<NPROC] = k # [Suc k..<NPROC]"
proof -
  assume k: "k < NPROC"
  have "[0..<NPROC] = [0..<k] @ k # [Suc k..<NPROC]"
    using k upt_add_eq_append [of 0 k "NPROC - k"] upt_conv_Cons [of k NPROC] by simp
  moreover have "filter (\<lambda>r. \<not> r < k) [0..<k] = []" by simp
  moreover have "filter (\<lambda>r. \<not> r < k) [Suc k..<NPROC] = [Suc k..<NPROC]" by (rule filter_True) simp
  ultimately show ?thesis by simp
qed

lemma chain_fork:
  assumes "chain k s" and "0 < k" and "k < NPROC"
  defines "t \<equiv> snd (scheduler_try k k (run_fork (k - 1) s))"
  shows "chain (Suc k) t" "proc_step\<^sup>*\<^sup>* (s, \<lambda>_. Alive) (t, \<lambda>_. Alive)"
proof -
  have c: "initproc s = 0" "\<And>c. cpu_proc s c = (if c < k then Some c else None)"
    "\<And>r. parent (procs s r) = (if 0 < r \<and> r < k then Some (r - 1) else None)"
    "\<And>r. pstate (procs s r) = (if r < k then RUNNING else UNUSED)" "\<And>r. pchan (procs s r) = None \<and> \<not> killed (procs s r)"
    using assms(1) by (simp_all add: chain_def)
  have "(\<lambda>r. pstate (procs s r) = UNUSED) = (\<lambda>r. \<not> r < k)" by (auto simp: c(4))
  then have a: "alloc_slot s = Some (k, upd_proc k (\<lambda>x. x\<lparr>pid := nextpid s\<rparr>) (s\<lparr>nextpid := nextpid s + 1\<rparr>))"
    using slots_from [OF assms(3)] by (simp add: alloc_slot_def allocpid_def)
  let ?s = "run_fork (k - 1) s"
  have k: "k - 1 \<noteq> k" using assms(2) by simp
  have f: "initproc ?s = 0" "cpu_proc ?s = cpu_proc s" "\<And>r. r \<noteq> k \<Longrightarrow> procs ?s r = procs s r"
    "parent (procs ?s k) = Some (k - 1)" "pstate (procs ?s k) = RUNNABLE" "pchan (procs ?s k) = None" "\<not> killed (procs ?s k)"
    using c(1) c(5) [of k] by (simp_all add: run_fork_def a start_child_eq(2,3) start_child_eq(1) [OF k, unfolded One_nat_def])
  have t: "t = set_cpu k (Some k) (upd_proc k (\<lambda>x. x\<lparr>pstate := RUNNING\<rparr>) ?s)"
    unfolding t_def scheduler_try_def f(5) by simp
  have g: "procs t = (procs ?s)(k := (procs ?s k)\<lparr>pstate := RUNNING\<rparr>)" "cpu_proc t = (cpu_proc s)(k := Some k)" "initproc t = 0"
    by (simp_all add: t f(1,2) [unfolded One_nat_def])
  have par: "parent (procs t r) = (if 0 < r \<and> r < Suc k then Some (r - 1) else None)" for r
    using f(3) [of r] f(4) c(3) [of r] assms(2) by (cases "r = k") (auto simp: g)
  have ps: "pstate (procs t r) = (if r < Suc k then RUNNING else UNUSED)" for r
    using f(3) [of r] c(4) [of r] by (cases "r = k") (auto simp: g)
  have ch: "pchan (procs t r) = None \<and> \<not> killed (procs t r)" for r
    using f(3) [of r] f(6,7) c(5) [of r] by (cases "r = k") (simp_all add: g)
  have cp: "cpu_proc t d = (if d < Suc k then Some d else None)" for d
    using c(2) [of d] by (cases "d = k") (auto simp: g)
  show "chain (Suc k) t" unfolding chain_def using par ps ch cp g(3) by blast
  have "proc_step (s, \<lambda>_. Alive) (?s, \<lambda>_. Alive)"
    by (rule step_fork [of s "k - 1"]) (use assms(2) in \<open>simp_all add: c(2) a\<close>)
  moreover have "proc_step (?s, \<lambda>_. Alive) (t, \<lambda>_. Alive)"
    unfolding t_def by (rule step_run) (simp_all add: f(2,5) [unfolded One_nat_def] c(2) assms(3))
  ultimately show "proc_step\<^sup>*\<^sup>* (s, \<lambda>_. Alive) (t, \<lambda>_. Alive)" by auto
qed

lemma small_slots: "0 < NPROC" "1 < NPROC" "2 < NPROC"
  by (simp_all add: NPROC_def)

lemma boot_run:
  "chain 1 (snd (scheduler_try 0 0 boot_table))" "proc_step (boot_table, \<lambda>_. Alive) (snd (scheduler_try 0 0 boot_table), \<lambda>_. Alive)"
proof -
  have b: "cpu_proc boot_table = (\<lambda>_. None)" "initproc boot_table = 0" "pstate (procs boot_table 0) = RUNNABLE"
    "\<And>p. p \<noteq> 0 \<Longrightarrow> procs boot_table p = bss_proc" "parent (procs boot_table 0) = None" "pchan (procs boot_table 0) = None"
    "\<not> killed (procs boot_table 0)"
    by (simp_all add: boot_table_eq start_init_def bss_table_def bss_proc_def upd_proc_def)
  have t: "snd (scheduler_try 0 0 boot_table) = set_cpu 0 (Some 0) (upd_proc 0 (\<lambda>x. x\<lparr>pstate := RUNNING\<rparr>) boot_table)"
    by (simp add: scheduler_try_def b(3))
  show "chain 1 (snd (scheduler_try 0 0 boot_table))" unfolding t chain_def by (auto simp: b bss_proc_def)
  show "proc_step (boot_table, \<lambda>_. Alive) (snd (scheduler_try 0 0 boot_table), \<lambda>_. Alive)"
    by (rule step_run) (simp_all add: b small_slots)
qed

lemma family3_chain: "chain 3 family3" "reachable_from_boot (family3, \<lambda>_. Alive)"
proof -
  let ?s1 = "snd (scheduler_try 0 0 boot_table)"
  let ?s2 = "snd (scheduler_try 1 1 (run_fork 0 ?s1))"
  have s2: "chain 2 ?s2" "proc_step\<^sup>*\<^sup>* (?s1, \<lambda>_. Alive) (?s2, \<lambda>_. Alive)"
    using chain_fork [OF boot_run(1)] small_slots by (simp_all add: numeral_2_eq_2)
  have f: "chain 3 family3" "proc_step\<^sup>*\<^sup>* (?s2, \<lambda>_. Alive) (family3, \<lambda>_. Alive)"
    using chain_fork [OF s2(1)] small_slots by (simp_all add: family3_def numeral_3_eq_3)
  show "chain 3 family3" by (rule f(1))
  show "reachable_from_boot (family3, \<lambda>_. Alive)"
    using boot_run(2) s2(2) f(2) by (meson converse_rtranclp_into_rtranclp rtranclp_trans)
qed

lemmas family3_reachable = family3_chain(2)

lemma family3_fields:
  "initproc family3 = 0" "c < 3 \<Longrightarrow> cpu_proc family3 c = Some c"
  "parent (procs family3 r) = (if r = 1 then Some 0 else if r = 2 then Some 1 else None)"
  "pstate (procs family3 r) = (if r < 3 then RUNNING else UNUSED)"
  "pchan (procs family3 r) = None \<and> \<not> killed (procs family3 r)"
proof -
  have "0 < r \<and> r < 3 \<longleftrightarrow> r = 1 \<or> r = 2" by auto
  then show "initproc family3 = 0" "c < 3 \<Longrightarrow> cpu_proc family3 c = Some c"
    "parent (procs family3 r) = (if r = 1 then Some 0 else if r = 2 then Some 1 else None)"
    "pstate (procs family3 r) = (if r < 3 then RUNNING else UNUSED)"
    "pchan (procs family3 r) = None \<and> \<not> killed (procs family3 r)"
    using family3_chain(1) by (auto simp: chain_def)
qed

lemma exit_wake_step: "cpu_proc s c = Some p \<Longrightarrow> st p = Alive \<Longrightarrow> p \<noteq> initproc s \<Longrightarrow> t = exit_wake_init s \<Longrightarrow>
    proc_step (s, st) (t, st(p := Woke))"
  using ps_exit_wake by blast

lemma exit_finish_step: "cpu_proc s c = Some p \<Longrightarrow> st p = Captured q \<Longrightarrow> t = exit_finish c p q status s \<Longrightarrow>
    proc_step (s, st) (t, st(p := Alive))"
  using ps_exit_finish by blast

lemma wait_step: "cpu_proc s c = Some p \<Longrightarrow> st p = Alive \<Longrightarrow> proc_step (s, st) (snd (wait_turn c p b s), st)"
  by (rule ps_wait)

text \<open>The tables of the run, field by field.\<close>

lemma family3_wake: "exit_wake_init family3 = family3"
  using family3_fields(4) [of 0] by (simp add: exit_wake_init_def wakeup1_def family3_fields(1) NPROC_def)

lemma exit_cpu: "cpu_proc (exit_finish c p q status s) = (cpu_proc s)(c := None)"
  by (simp add: exit_finish_def Let_def wakeup1_eq reparent_eq)

lemma orphaned_fields:
  "initproc orphaned = 0" "cpu_proc orphaned 0 = Some 0" "cpu_proc orphaned 2 = Some 2"
  "r < NPROC \<Longrightarrow> parent (procs orphaned r) = (if r = 1 \<or> r = 2 then Some 0 else None)"
  "r < NPROC \<Longrightarrow> pstate (procs orphaned r) = (if r = 1 then ZOMBIE else if r < 3 then RUNNING else UNUSED)"
  "r < NPROC \<Longrightarrow> pchan (procs orphaned r) = None" "\<not> killed (procs orphaned 0)"
proof -
  note e = exit_finish_eq [OF small_slots(2), where c = 1 and q = 0 and status = 0 and s = family3, unfolded One_nat_def]
  have o: "orphaned = exit_finish 1 1 0 0 family3" by (simp add: orphaned_def family3_wake)
  show "initproc orphaned = 0" "cpu_proc orphaned 0 = Some 0" "cpu_proc orphaned 2 = Some 2"
    by (simp_all add: o e(1) exit_cpu family3_fields(1,2))
  show "r < NPROC \<Longrightarrow> parent (procs orphaned r) = (if r = 1 \<or> r = 2 then Some 0 else None)"
    using e(2) [of r] by (simp add: o family3_fields)
  show "r < NPROC \<Longrightarrow> pstate (procs orphaned r) = (if r = 1 then ZOMBIE else if r < 3 then RUNNING else UNUSED)"
    using e(3) [of r] family3_fields(4) [of 0] by (simp add: o family3_fields small_slots)
  show "r < NPROC \<Longrightarrow> pchan (procs orphaned r) = None"
    using e(4) [of r] by (simp add: o family3_fields)
  show "\<not> killed (procs orphaned 0)"
    using family3_fields(5) [of 0] by (simp add: o exit_finish_def Let_def wakeup1_eq reparent_eq small_slots)
qed

lemma table_slots: "[0..<NPROC] = [0, 1, 2, 3, 4, 5, 6, 7, 8, 9]"
  by (simp add: NPROC_def upt_rec)

lemma scan_orphaned: "wait_scan 0 (procs orphaned) False [0..<NPROC] = (True, Some 1)"
  unfolding table_slots by (simp add: orphaned_fields(4,5) NPROC_def)

lemma wait_orphaned: "wait_turn 0 0 True orphaned = (Reaped (pid (procs orphaned 1)), upd_proc 1 clear_proc orphaned)"
  by (simp add: wait_turn_def scan_orphaned)

lemma scan_reaped: "wait_scan 0 (procs (upd_proc 1 clear_proc orphaned)) False [0..<NPROC] = (True, None)"
  unfolding table_slots by (simp add: orphaned_fields(4,5) NPROC_def clear_proc_def)

lemma init_asleep_eq: "init_asleep = sleep 0 0 (ProcChan 0) (upd_proc 1 clear_proc orphaned)"
  using orphaned_fields(7) by (simp add: init_asleep_def wait_orphaned) (simp add: wait_turn_def scan_reaped [simplified])

lemma missed_zombie_fields:
  "initproc missed_zombie = 0" "pstate (procs missed_zombie 0) = SLEEPING" "pchan (procs missed_zombie 0) = Some (ProcChan 0)"
  "parent (procs missed_zombie 2) = Some 0" "pstate (procs missed_zombie 2) = ZOMBIE"
proof -
  note e = exit_finish_eq [OF small_slots(3), where c = 2 and q = 1 and status = 0 and s = init_asleep, unfolded One_nat_def]
  have i: "procs init_asleep = (procs orphaned)(1 := clear_proc (procs orphaned 1), 0 := (procs orphaned 0)\<lparr>pchan := Some (ProcChan 0), pstate := SLEEPING\<rparr>)"
    "initproc init_asleep = 0"
    by (simp_all add: init_asleep_eq sleep_def orphaned_fields(1))
  show "initproc missed_zombie = 0" "pstate (procs missed_zombie 0) = SLEEPING" "pchan (procs missed_zombie 0) = Some (ProcChan 0)"
    "pstate (procs missed_zombie 2) = ZOMBIE"
    by (simp_all add: missed_zombie_def e(1,3,4) i)
  show "parent (procs missed_zombie 2) = Some 0"
    using e(2) [OF small_slots(3)] by (simp add: missed_zombie_def i orphaned_fields(4) small_slots)
qed

lemma zombie_child_reachable:
  "reachable_from_boot (zombie_child, (\<lambda>_. Alive)(2 := Woke, 2 := Captured 1, 2 := Alive))"
proof -
  let ?A = "\<lambda>_::nat. Alive"
  have "proc_step (family3, ?A) (family3, ?A(2 := Woke))"
    by (rule exit_wake_step [of _ 2]) (simp_all add: family3_fields(1,2) family3_wake)
  moreover have "proc_step (family3, ?A(2 := Woke)) (family3, ?A(2 := Woke, 2 := Captured 1))"
    by (rule ps_exit_parent [of _ 2]) (simp_all add: family3_fields(2,3) exit_parent_def small_slots)
  moreover have "proc_step (family3, ?A(2 := Woke, 2 := Captured 1)) (zombie_child, ?A(2 := Woke, 2 := Captured 1, 2 := Alive))"
    unfolding zombie_child_def family3_wake
    by (rule exit_finish_step [of _ 2 _ _ 1, OF _ _ refl]) (simp_all add: family3_fields(2))
  ultimately show ?thesis using family3_reachable by (meson rtranclp.rtrancl_into_rtrancl)
qed

lemma missed_zombie_reachable: "\<exists>st. reachable_from_boot (missed_zombie, st)"
proof -
  let ?A = "\<lambda>_::nat. Alive"
  let ?B = "?A(2 := Woke, 2 := Captured 1)"
  let ?C = "?B(1 := Woke, 1 := Captured 0)"
  let ?D = "?C(1 := Alive)"
  let ?w = "snd (wait_turn 0 0 True orphaned)"
  have w: "?w = upd_proc 1 clear_proc orphaned" by (simp add: wait_orphaned)
  have "proc_step (family3, ?A) (family3, ?A(2 := Woke))"
    by (rule exit_wake_step [of _ 2]) (simp_all add: family3_fields(1,2) family3_wake)
  moreover have "proc_step (family3, ?A(2 := Woke)) (family3, ?B)"
    by (rule ps_exit_parent [of _ 2]) (simp_all add: family3_fields(2,3) exit_parent_def small_slots)
  moreover have "proc_step (family3, ?B) (family3, ?B(1 := Woke))"
    by (rule exit_wake_step [of _ 1]) (simp_all add: family3_fields(1,2) family3_wake)
  moreover have "proc_step (family3, ?B(1 := Woke)) (family3, ?C)"
    by (rule ps_exit_parent [of _ 1]) (simp_all add: family3_fields(2,3) exit_parent_def small_slots del: One_nat_def)
  moreover have "proc_step (family3, ?C) (orphaned, ?D)"
    unfolding orphaned_def family3_wake
    by (rule exit_finish_step [of _ 1 _ _ 0, OF _ _ refl]) (simp_all add: family3_fields(2))
  moreover have "proc_step (orphaned, ?D) (?w, ?D)"
    by (rule wait_step) (simp_all add: orphaned_fields(2))
  moreover have "proc_step (?w, ?D) (init_asleep, ?D)"
    unfolding init_asleep_def by (rule wait_step) (simp_all add: w orphaned_fields(2))
  moreover have "proc_step (init_asleep, ?D) (missed_zombie, ?D(2 := Alive))"
    unfolding missed_zombie_def
    by (rule exit_finish_step [of _ 2 _ _ 1, OF _ _ refl]) (simp_all add: init_asleep_eq sleep_def orphaned_fields(3))
  ultimately show ?thesis using family3_reachable by (meson rtranclp.rtrancl_into_rtrancl)
qed

section \<open>Properties\<close>

text \<open>C18: in every interleaving of scheduling, \<open>fork\<close>, \<open>sleep\<close>, \<open>wakeup\<close>, \<open>kill\<close>, \<open>wait\<close> and
  \<open>exit\<close> a process is on at most one CPU, exactly when it is \<open>RUNNING\<close>; the parent of every
  process is alive and a process other than init has one, so that \<open>exit\<close> never follows a
  null or dangling \<open>parent\<close>.\<close>

theorem process_on_one_cpu:
  assumes "proc_step\<^sup>*\<^sup>* (boot_table, \<lambda>_. Alive) (s, st)" and "p < NPROC"
  shows "(pstate (procs s p) = RUNNING \<longleftrightarrow> (\<exists>c. cpu_proc s c = Some p)) \<and>
    (cpu_proc s c = Some p \<longrightarrow> cpu_proc s c' = Some p \<longrightarrow> c = c') \<and>
    (parent (procs s p) = Some q \<longrightarrow> q < NPROC \<and> pstate (procs s q) \<noteq> UNUSED \<and> pstate (procs s q) \<noteq> ZOMBIE) \<and>
    (pstate (procs s p) \<noteq> UNUSED \<longrightarrow> p \<noteq> initproc s \<longrightarrow> parent (procs s p) \<noteq> None)"
proof -
  have ok: "runs_ok s" "family_ok (s, st)" using reachable_ok [OF assms(1)] by (simp_all add: table_ok_def)
  show ?thesis
    using runs_okD [OF ok(1)] family_okD(2,3) [OF ok(2)] assms(2) by (auto simp: alive_def)
qed

theorem process_on_one_cpu_witness: "pstate (procs family3 2) = RUNNING \<and> (\<exists>c. cpu_proc family3 c = Some 2)"
proof -
  have "pstate (procs family3 2) = RUNNING" by (simp add: family3_fields)
  then show ?thesis using process_on_one_cpu [OF family3_reachable, of 2 0 0 0] by (simp add: NPROC_def)
qed

text \<open>C17: \<open>wait\<close> misses no exit: in every interleaving a process other than init that sleeps in
  \<open>wait\<close> has no zombie child, and a process that has one gets it when it runs \<open>wait\<close>.\<close>

theorem wait_misses_no_exit:
  assumes "proc_step\<^sup>*\<^sup>* (boot_table, \<lambda>_. Alive) (s, st)" and "q \<noteq> initproc s"
    and "p < NPROC" and "parent (procs s p) = Some q" and "pstate (procs s p) = ZOMBIE"
  shows "\<not> (pstate (procs s q) = SLEEPING \<and> pchan (procs s q) = Some (ProcChan q)) \<and>
    (\<exists>n. fst (wait_turn c q True s) = Reaped n)"
proof -
  have w: "waits_ok s" using reachable_ok [OF assms(1)] by (simp add: table_ok_def)
  obtain b r where r: "wait_scan q (procs s) False [0..<NPROC] = (b, r)" by fastforce
  have "r \<noteq> None" using wait_scan_none [of q "procs s" False "[0..<NPROC]" b p] r assms(3-5) by auto
  then have "\<exists>n. fst (wait_turn c q True s) = Reaped n" using r by (auto simp: wait_turn_def)
  then show ?thesis using w assms(2-5) unfolding waits_ok_def by blast
qed

theorem wait_misses_no_exit_witness: "\<exists>n. fst (wait_turn 1 1 True zombie_child) = Reaped n"
proof -
  note e = exit_finish_eq [OF small_slots(3), where c = 2 and q = 1 and status = 0 and s = family3]
  have "1 \<noteq> initproc zombie_child" "(2::nat) < NPROC" "parent (procs zombie_child 2) = Some 1"
    "pstate (procs zombie_child 2) = ZOMBIE"
    using e(2) [OF small_slots(3)] e(3) [of 2]
    by (simp_all add: zombie_child_def family3_wake e(1) [unfolded One_nat_def] family3_fields small_slots)
  from wait_misses_no_exit [OF zombie_child_reachable this, of 1] show ?thesis by blast
qed

text \<open>C39: init can miss one: a process that read its parent before the parent handed it to init
  wakes the wrong slot, and init sleeps in \<open>wait\<close> with a zombie child.\<close>

theorem init_sleeps_past_zombie:
  "\<exists>st. proc_step\<^sup>*\<^sup>* (boot_table, \<lambda>_. Alive) (missed_zombie, st) \<and> initproc missed_zombie = 0 \<and>
    pstate (procs missed_zombie 0) = SLEEPING \<and> pchan (procs missed_zombie 0) = Some (ProcChan 0) \<and>
    parent (procs missed_zombie 2) = Some 0 \<and> pstate (procs missed_zombie 2) = ZOMBIE"
proof -
  show ?thesis using missed_zombie_reachable missed_zombie_fields by blast
qed

end
