(* ===== verification/Xv7_Net_Accounts.thy ===== *)
theory Xv7_Net_Accounts
  imports Xv7_Net "HOL-Library.Multiset"
begin

text \<open>
  Who owns the pages of the network stack: the free list, the list of sockets, the queues of
  the sockets, the two rings, and the code that is running.  The invariant \<open>net_ok\<close> says that
  these are all the pages of \<open>P\<close>, each in one place; the operations on the receive path keep
  it.  So every packet that arrives is freed or queued, once.
\<close>

section \<open>The invariant\<close>

definition tx_held :: "'a netst_scheme \<Rightarrow> u64 list" where
  "tx_held s = filter (\<lambda>m. m \<noteq> 0) (map (tx_mbufs s) [0..<RING_SIZE])"

definition rx_held :: "'a netst_scheme \<Rightarrow> u64 list" where
  "rx_held s = map (rx_mbufs s) [0..<RING_SIZE]"

definition net_pages :: "'a netst_scheme \<Rightarrow> u64 list \<Rightarrow> u64 list \<Rightarrow> (u64 \<Rightarrow> u64 list) \<Rightarrow> u64 list" where
  "net_pages s ps sos qs = ps @ sos @ concat (map qs sos) @ tx_held s @ rx_held s"

text \<open>\<open>ms\<close> are the pages in the hands of the running code.\<close>

definition net_ok :: "u64 \<Rightarrow> u64 list \<Rightarrow> 'a netst_scheme \<Rightarrow> u64 list \<Rightarrow> u64 list \<Rightarrow> (u64 \<Rightarrow> u64 list) \<Rightarrow> u64 list \<Rightarrow> bool" where
  "net_ok kend P s ps sos qs ms \<longleftrightarrow>
     0x80000000 \<le> kend \<and> distinct P \<and> (\<forall>x \<in> set P. page_ok kend x) \<and>
     kinv kend (km s) ps \<and>
     fchain (\<lambda>x. so_next (socks s x)) (sockets s) sos \<and>
     (\<forall>so \<in> set sos. queue_rep (so_rxq (socks s so)) s (qs so)) \<and>
     unat (regs s E1000_TDT) < RING_SIZE \<and>
     mset (ms @ net_pages s ps sos qs) = mset P"

lemma net_ok_distinct:
  assumes "net_ok kend P s ps sos qs ms"
  shows "distinct (ms @ net_pages s ps sos qs)" "set (ms @ net_pages s ps sos qs) = set P"
    "\<And>x. x \<in> set (ms @ net_pages s ps sos qs) \<Longrightarrow> page_ok kend x \<and> x \<noteq> 0"
proof -
  have m: "mset (ms @ net_pages s ps sos qs) = mset P" using assms by (simp only: net_ok_def)
  show "distinct (ms @ net_pages s ps sos qs)"
    using mset_eq_imp_distinct_iff [OF m] assms by (simp only: net_ok_def)
  show s: "set (ms @ net_pages s ps sos qs) = set P" by (rule mset_eq_setD [OF m])
  show "\<And>x. x \<in> set (ms @ net_pages s ps sos qs) \<Longrightarrow> page_ok kend x \<and> x \<noteq> 0"
    unfolding s using assms page_ok_not_0 by (fastforce simp: net_ok_def kinv_def)
qed

text \<open>There are no more pages than turns of a walk over the sockets.\<close>

lemma pages_bounded:
  assumes "distinct xs" and "\<forall>x \<in> set xs. page_ok kend x" and "0x80000000 \<le> kend"
  shows "length xs \<le> NPAGES"
proof -
  let ?f = "\<lambda>x :: u64. (unat x - 0x80000000) div 4096"
  have b: "0x80000000 \<le> unat x \<and> unat x < 0x88000000 \<and> unat x mod 4096 = 0" if "x \<in> set xs" for x
    using assms(2,3) that by (auto simp: page_ok_def unat_mod_page word_le_nat_alt word_less_nat_alt)
  have "inj_on ?f (set xs)"
  proof (rule inj_onI)
    fix x y assume "x \<in> set xs" "y \<in> set xs" "?f x = ?f y"
    then have "unat x = unat y" using b [of x] b [of y] by (intro page_step [of "0x80000000" "unat x" "unat y"]) auto
    then show "x = y" by (rule word_unat_eq_iff [THEN iffD2])
  qed
  moreover have "?f ` set xs \<subseteq> {0..<NPAGES}"
    by (auto simp: NPAGES_def intro!: less_mult_imp_div_less dest!: b)
  ultimately have "card (set xs) \<le> card {0..<NPAGES}" by (intro card_inj_on_le) auto
  then show ?thesis using assms(1) by (simp add: distinct_card)
qed

section \<open>Steps that keep it\<close>

lemma queue_rep_cong:
  "(\<And>m. m \<in> set ms \<Longrightarrow> m_next (mbufs s m) = m_next (mbufs t m)) \<Longrightarrow> queue_rep q s ms = queue_rep q t ms"
  unfolding queue_rep_def by (subst fchain_cong [where nx = "\<lambda>m. m_next (mbufs t m)"]) auto

lemma upd_mbuf_twice: "upd_mbuf m f (upd_mbuf m g s) = upd_mbuf m (\<lambda>b. f (g b)) s"
  by (simp add: upd_mbuf_def)

text \<open>A packet in the hands of the running code may be changed.\<close>

lemma net_ok_upd_mbuf:
  assumes "net_ok kend P s ps sos qs ms" and "m \<in> set ms"
  shows "net_ok kend P (upd_mbuf m f s) ps sos qs ms"
proof -
  have "m \<notin> set (qs so)" if "so \<in> set sos" for so
    using net_ok_distinct(1) [OF assms(1)] assms(2) that by (auto simp: net_pages_def)
  then have "queue_rep q (upd_mbuf m f s) (qs so) = queue_rep q s (qs so)" if "so \<in> set sos" for so q
    using that by (intro queue_rep_cong) auto
  then show ?thesis
    using assms(1) by (simp add: net_ok_def net_pages_def tx_held_def rx_held_def upd_mbuf_def)
qed

lemma net_ok_edit: "net_ok kend P s ps sos qs ms \<Longrightarrow> m \<in> set ms \<Longrightarrow> net_ok kend P (edit_buf m f s) ps sos qs ms"
  by (simp add: edit_buf_def net_ok_upd_mbuf)

lemma net_ok_free:
  assumes "net_ok kend P s ps sos qs (m # ms)"
  obtains s' where "mbuffree kend m s = (Inr (), s')" "net_ok kend P s' (m # ps) sos qs ms"
    "rx_ring s' = rx_ring s" "regs s' = regs s" "tx_ring s' = tx_ring s" "tx_mbufs s' = tx_mbufs s"
    "rx_mbufs s' = rx_mbufs s" "\<forall>x. x \<noteq> m \<longrightarrow> mbufs s' x = mbufs s x"
proof -
  note d = net_ok_distinct [OF assms]
  have i: "kinv kend (km s) ps" using assms by (simp add: net_ok_def)
  have "page_ok kend m" "m \<notin> set ps" using d by (auto simp: net_pages_def)
  from page_free_ok [OF i this] obtain k
    where k: "page_free kend m s = (Inr (), fill_views m 1 (freelist (km s)) (s\<lparr>km := k\<rparr>))" "kinv kend k (m # ps)" .
  let ?s = "fill_views m 1 (freelist (km s)) (s\<lparr>km := k\<rparr>)"
  have "m \<notin> set sos" "\<And>so. so \<in> set sos \<Longrightarrow> m \<notin> set (qs so)" using d(1) by (auto simp: net_pages_def)
  then have "fchain (\<lambda>x. so_next (socks ?s x)) (sockets s) sos = fchain (\<lambda>x. so_next (socks s x)) (sockets s) sos"
    "\<And>so. so \<in> set sos \<Longrightarrow> queue_rep (so_rxq (socks ?s so)) ?s (qs so) = queue_rep (so_rxq (socks s so)) s (qs so)"
    by (auto intro!: fchain_cong queue_rep_cong)
  then have "net_ok kend P ?s (m # ps) sos qs ms"
    using assms k(2) by (simp add: net_ok_def net_pages_def tx_held_def rx_held_def fill_views_def)
  then show thesis using k(1) by (intro that [of ?s]) (auto simp: mbuffree_def fill_views_def)
qed

lemma net_ok_alloc:
  assumes "net_ok kend P s ps sos qs ms" and "headroom \<le> MBUF_SIZE"
  obtains (none) "mbufalloc kend headroom s = (0, s)" "ps = []"
  | (some) m s' ps' where "mbufalloc kend headroom s = (m, s')" "m \<noteq> 0" "ps = m # ps'"
      "net_ok kend P s' ps' sos qs (m # ms)"
      "m_head (mbufs s' m) = uint headroom" "m_len (mbufs s' m) = 0"
      "rx_ring s' = rx_ring s" "regs s' = regs s" "tx_ring s' = tx_ring s" "tx_mbufs s' = tx_mbufs s"
      "rx_mbufs s' = rx_mbufs s" "\<forall>x. x \<noteq> m \<longrightarrow> mbufs s' x = mbufs s x"
proof (cases ps)
  case Nil
  then have "kinv kend (km s) []" using assms(1) by (simp add: net_ok_def)
  from page_alloc_none [OF this] show thesis using none assms(2) Nil by (simp add: mbufalloc_def)
next
  case (Cons m ps')
  then have "kinv kend (km s) (m # ps')" using assms(1) by (simp add: net_ok_def)
  from page_alloc_ok [OF this] obtain k where
    k: "page_alloc kend s = (m, fill_views m 5 (bytes64 5) (s\<lparr>km := k\<rparr>))" "kinv kend k ps'" by metis
  note d = net_ok_distinct [OF assms(1)]
  have m0: "m \<noteq> 0" and ms: "m \<notin> set sos" "\<And>so. so \<in> set sos \<Longrightarrow> m \<notin> set (qs so)"
    using d(1,3) Cons by (auto simp: net_pages_def)
  let ?s = "fill_views m 5 (bytes64 5) (s\<lparr>km := k\<rparr>)"
  define t where "t = snd (mbufalloc kend headroom s)"
  have t: "mbufalloc kend headroom s = (m, t)"
    unfolding t_def using m0 assms(2) by (simp add: mbufalloc_def k(1) Let_def)
  have "fchain (\<lambda>x. so_next (socks ?s x)) (sockets s) sos = fchain (\<lambda>x. so_next (socks s x)) (sockets s) sos"
    "\<And>so. so \<in> set sos \<Longrightarrow> queue_rep (so_rxq (socks ?s so)) ?s (qs so) = queue_rep (so_rxq (socks s so)) s (qs so)"
    using ms by (auto intro!: fchain_cong queue_rep_cong)
  then have ok: "net_ok kend P ?s ps' sos qs (m # ms)"
    using assms(1) k(2) Cons by (simp add: net_ok_def net_pages_def tx_held_def rx_held_def fill_views_def)
  have te: "t = upd_mbuf m (\<lambda>b. b\<lparr>m_next := 0, m_head := uint headroom, m_len := 0,
      m_buf := \<lambda>i. if 0 \<le> i \<and> i < 2048 then 0 else m_buf b i\<rparr>) ?s"
    unfolding t_def using m0 assms(2) by (simp add: mbufalloc_def k(1) Let_def upd_mbuf_twice cong: if_cong)
  have "net_ok kend P t ps' sos qs (m # ms)" unfolding te by (rule net_ok_upd_mbuf [OF ok]) simp
  then show thesis
    by (rule some [OF t m0 Cons]) (simp_all add: te upd_mbuf_def fill_views_def)
qed

section \<open>Sending\<close>

lemma held_upd:
  assumes "i < RING_SIZE" and "(m :: u64) \<noteq> 0"
  shows "mset (filter (\<lambda>m. m \<noteq> 0) (map (f(i := m)) [0..<RING_SIZE])) + (if f i = 0 then {#} else {#f i#}) =
    add_mset m (mset (filter (\<lambda>m. m \<noteq> 0) (map f [0..<RING_SIZE])))"
proof -
  have u: "[0..<RING_SIZE] = [0..<i] @ i # [Suc i..<RING_SIZE]"
    using assms(1) by (metis le_add_same_cancel1 less_imp_le_nat upt_add_eq_append upt_conv_Cons le_add_diff_inverse zero_le)
  have "map (f(i := m)) [0..<i] = map f [0..<i]" "map (f(i := m)) [Suc i..<RING_SIZE] = map f [Suc i..<RING_SIZE]" by auto
  then show ?thesis unfolding u using assms(2) by simp
qed

lemma net_ok_transmit:
  assumes "net_ok kend P s ps sos qs (m # ms)"
  obtains (full) "e1000_transmit kend m s = (Inr (-1), s)"
  | (sent) s' ps' where "e1000_transmit kend m s = (Inr 0, s')" "net_ok kend P s' ps' sos qs ms"
      "rx_ring s' = rx_ring s" "rx_mbufs s' = rx_mbufs s" "regs s' E1000_RDT = regs s E1000_RDT"
      "tx_mbufs s' (unat (regs s E1000_TDT)) = m" "mbufs s' m = mbufs s m"
proof -
  define i where "i = unat (regs s E1000_TDT)"
  have i: "i < RING_SIZE" using assms by (simp add: i_def net_ok_def)
  have m0: "m \<noteq> 0" using net_ok_distinct(3) [OF assms, of m] by simp
  show thesis
  proof (cases "td_status (tx_ring s i) AND E1000_STAT_DD = 0")
    case True
    then show thesis using full i by (simp add: e1000_transmit_def i_def)
  next
    case False
    have "\<exists>t ps'. (if tx_mbufs s i \<noteq> 0 then mbuffree kend (tx_mbufs s i) s else (Inr (), s)) = (Inr (), t) \<and>
        net_ok kend P (set_tx_mbuf i m t) ps' sos qs ms \<and> rx_ring t = rx_ring s \<and> rx_mbufs t = rx_mbufs s \<and>
        regs t = regs s \<and> mbufs t m = mbufs s m"
    proof (cases "tx_mbufs s i = 0")
      case True
      have "mset (tx_held (set_tx_mbuf i m s)) = add_mset m (mset (tx_held s))"
        using held_upd [OF i m0, of "tx_mbufs s"] True by (simp add: tx_held_def set_tx_mbuf_def)
      then have "net_ok kend P (set_tx_mbuf i m s) ps sos qs ms"
        using assms queue_rep_cong [of _ "set_tx_mbuf i m s" s]
        by (simp add: net_ok_def net_pages_def set_tx_mbuf_def rx_held_def)
      then show ?thesis using True by auto
    next
      case False
      let ?o = "tx_mbufs s i"
      let ?s0 = "set_tx_mbuf i m s"
      have "mset (tx_held ?s0) + {#?o#} = add_mset m (mset (tx_held s))"
        using held_upd [OF i m0, of "tx_mbufs s"] False by (simp add: tx_held_def set_tx_mbuf_def)
      then have "mset ((?o # ms) @ net_pages ?s0 ps sos qs) = mset P"
      proof -
        note h = \<open>mset (tx_held ?s0) + {#?o#} = add_mset m (mset (tx_held s))\<close>
        have "mset ((?o # ms) @ net_pages ?s0 ps sos qs) =
            mset ms + mset ps + mset sos + mset (concat (map qs sos)) + (mset (tx_held ?s0) + {#?o#}) + mset (rx_held s)"
          by (simp add: net_pages_def rx_held_def set_tx_mbuf_def)
        also have "\<dots> = mset ((m # ms) @ net_pages s ps sos qs)" unfolding h by (simp add: net_pages_def)
        also have "\<dots> = mset P" using assms by (simp only: net_ok_def)
        finally show ?thesis .
      qed
      then have ok0: "net_ok kend P ?s0 ps sos qs (?o # ms)"
        using assms queue_rep_cong [of _ ?s0 s] unfolding net_ok_def by (simp add: set_tx_mbuf_def)
      from net_ok_free [OF ok0] obtain t where
        t: "mbuffree kend ?o ?s0 = (Inr (), t)" "net_ok kend P t (?o # ps) sos qs ms" "rx_ring t = rx_ring s"
          "regs t = regs s" "rx_mbufs t = rx_mbufs s" "\<forall>x. x \<noteq> ?o \<longrightarrow> mbufs t x = mbufs s x" "tx_mbufs t = (tx_mbufs s)(i := m)"
        by (auto simp: set_tx_mbuf_def)
      have mo: "?o \<noteq> m"
        using net_ok_distinct(1) [OF assms] i False by (auto simp: net_pages_def tx_held_def)
      have c: "mbuffree kend ?o ?s0 = (case mbuffree kend ?o s of (r, t) \<Rightarrow> (r, set_tx_mbuf i m t))"
        by (simp add: mbuffree_def page_free_def in_km_def set_tx_mbuf_def fill_views_def bindS_def split: prod.splits sum.splits)
      obtain t' where t': "mbuffree kend ?o s = (Inr (), t')" "t = set_tx_mbuf i m t'"
        using c t(1) by (auto split: prod.splits)
      then show ?thesis using t False mo by (intro exI [of _ t'] exI [of _ "?o # ps"]) (auto simp: set_tx_mbuf_def)
    qed
    then obtain t ps' where t: "(if tx_mbufs s i \<noteq> 0 then mbuffree kend (tx_mbufs s i) s else (Inr (), s)) = (Inr (), t)"
      and ok: "net_ok kend P (set_tx_mbuf i m t) ps' sos qs ms"
      and f: "rx_ring t = rx_ring s" "rx_mbufs t = rx_mbufs s" "regs t = regs s" "mbufs t m = mbufs s m" by blast
    define u where "u = snd (e1000_transmit kend m s)"
    have e: "e1000_transmit kend m s = (Inr 0, u)"
      unfolding u_def using i False t by (simp add: e1000_transmit_def i_def [symmetric] Let_def)
    have keep: "net_ok kend P (set_reg E1000_TDT v (upd_tx i g s1)) ps' sos qs ms"
      if "net_ok kend P s1 ps' sos qs ms" "unat v < RING_SIZE" for v g s1
      using that queue_rep_cong [of _ "set_reg E1000_TDT v (upd_tx i g s1)" s1]
      by (simp add: net_ok_def net_pages_def tx_held_def rx_held_def upd_tx_def set_reg_def)
    have r: "unat ((of_nat i + 1) mod of_nat RING_SIZE :: u32) < RING_SIZE"
      by (simp add: RING_SIZE_def unat_mod)
    have ue: "\<exists>g. u = set_reg E1000_TDT ((of_nat i + 1) mod of_nat RING_SIZE) (upd_tx i g (set_tx_mbuf i m t))"
      unfolding u_def using i False t
      by (auto simp: e1000_transmit_def i_def [symmetric] Let_def upd_tx_def set_tx_mbuf_def set_reg_def head_addr_def
          intro!: exI [of _ "\<lambda>d. d\<lparr>td_addr := head_addr m t, td_length := ucast (m_len (mbufs t m)), td_cmd := 9\<rparr>"])
    then have "net_ok kend P u ps' sos qs ms" using keep [OF ok r] by auto
    then show thesis
      using sent [OF e, of ps'] ue f by (auto simp: upd_tx_def set_reg_def set_tx_mbuf_def i_def E1000_TDT_def E1000_RDT_def)
  qed
qed

text \<open>What the receive path leaves alone: the receive ring.\<close>

definition same_rx :: "'a netst_scheme \<Rightarrow> 'a netst_scheme \<Rightarrow> bool" where
  "same_rx s t \<longleftrightarrow> rx_ring t = rx_ring s \<and> rx_mbufs t = rx_mbufs s \<and> regs t E1000_RDT = regs s E1000_RDT"

lemma same_rx_refl [simp]: "same_rx s s"
  by (simp add: same_rx_def)

lemma same_rx_trans: "same_rx s t \<Longrightarrow> same_rx t u \<Longrightarrow> same_rx s u"
  by (simp add: same_rx_def)

lemma same_rx_upd [simp]:
  "same_rx s (upd_mbuf m f t) = same_rx s t" "same_rx (upd_mbuf m f s) t = same_rx s t"
  "same_rx s (edit_buf m g t) = same_rx s t" "same_rx (edit_buf m g s) t = same_rx s t"
  by (simp_all add: same_rx_def upd_mbuf_def edit_buf_def)

text \<open>
  \<open>settles kend P sos ms s r\<close>: the operation returned, and the invariant holds with the pages
  \<open>ms\<close> in hand; the packet it was given has been freed or passed on.
\<close>

definition settles :: "u64 \<Rightarrow> u64 list \<Rightarrow> u64 list \<Rightarrow> u64 list \<Rightarrow> 'a netst_scheme \<Rightarrow> (kfault, 'b, 'a netst_scheme) outcome \<Rightarrow> bool" where
  "settles kend P sos ms s r \<longleftrightarrow>
     (\<exists>x s' ps qs. r = (Inr x, s') \<and> net_ok kend P s' ps sos qs ms \<and> same_rx s s')"

lemma settlesI:
  "r = (Inr x, s') \<Longrightarrow> net_ok kend P s' ps sos qs ms \<Longrightarrow> same_rx s s' \<Longrightarrow> settles kend P sos ms s r"
  by (auto simp: settles_def)

lemma settles_bind:
  assumes "settles kend P sos ms s r"
    and "\<And>x s' ps qs. r = (Inr x, s') \<Longrightarrow> net_ok kend P s' ps sos qs ms \<Longrightarrow> same_rx s s' \<Longrightarrow> settles kend P sos ms' s' (f x s')"
  shows "settles kend P sos ms' s (bindS r f)"
proof -
  obtain x s' ps qs where r: "r = (Inr x, s')" "net_ok kend P s' ps sos qs ms" "same_rx s s'"
    using assms(1) by (auto simp: settles_def)
  with assms(2) [OF r] show ?thesis by (auto simp: settles_def intro: same_rx_trans)
qed

lemma settles_from: "same_rx s t \<Longrightarrow> settles kend P sos ms t r \<Longrightarrow> settles kend P sos ms s r"
  by (auto simp: settles_def intro: same_rx_trans)

lemma free_settles:
  assumes "net_ok kend P s ps sos qs (m # ms)"
  shows "settles kend P sos ms s (mbuffree kend m s)"
proof -
  from net_ok_free [OF assms] obtain s' where s': "mbuffree kend m s = (Inr (), s')" "net_ok kend P s' (m # ps) sos qs ms"
    "rx_ring s' = rx_ring s" "regs s' = regs s" "rx_mbufs s' = rx_mbufs s" by metis
  show ?thesis by (rule settlesI [OF s'(1,2)]) (simp add: same_rx_def s'(3-5))
qed

lemma push_ok:
  assumes "uint len \<le> m_head (mbufs s m)"
  shows "on_mbuf m (mbufpush len) s =
    (Inr (m_head (mbufs s m) - uint len), upd_mbuf m (\<lambda>b. b\<lparr>m_head := m_head b - uint len, m_len := m_len b + len\<rparr>) s)"
  using assms by (simp add: on_mbuf_def mbufpush_def Let_def upd_mbuf_def)

lemma tx_eth_settles:
  assumes ok: "net_ok kend P s ps sos qs (m # ms)" and "14 \<le> m_head (mbufs s m)"
  shows "settles kend P sos ms s (net_tx_eth kend m ty s)"
proof -
  let ?s = "edit_buf m (eth_header ty (m_head (mbufs s m) - 14))
    (upd_mbuf m (\<lambda>b. b\<lparr>m_head := m_head b - 14, m_len := m_len b + 14\<rparr>) s)"
  have e: "net_tx_eth kend m ty s = bindS (e1000_transmit kend m ?s) (\<lambda>r s. if r \<noteq> 0 then mbuffree kend m s else (Inr (), s))"
    using push_ok [of 14 s m] assms(2) by (simp add: net_tx_eth_def)
  have ok': "net_ok kend P ?s ps sos qs (m # ms)" by (intro net_ok_edit net_ok_upd_mbuf ok) simp_all
  have x: "same_rx s ?s" by simp
  show ?thesis
  proof (cases rule: net_ok_transmit [OF ok'])
    case 1
    then show ?thesis using settles_from [OF x free_settles [OF ok']] by (simp add: e)
  next
    case (2 s' ps')
    then have "net_tx_eth kend m ty s = (Inr (), s')" by (simp add: e)
    then show ?thesis by (rule settlesI [OF _ 2(2)]) (use x 2(3-5) in \<open>simp add: same_rx_def\<close>)
  qed
qed

lemma tx_arp_settles:
  assumes ok: "net_ok kend P s ps sos qs ms"
  shows "settles kend P sos ms s (net_tx_arp kend op dmac dip s)"
proof -
  have h: "(128 :: u32) \<le> MBUF_SIZE" by (simp add: MBUF_SIZE_def)
  show ?thesis
  proof (cases rule: net_ok_alloc [OF ok h])
    case 1
    then have "net_tx_arp kend op dmac dip s = (Inr (- 1), s)" by (simp add: net_tx_arp_def)
    then show ?thesis by (rule settlesI [OF _ ok]) simp
  next
    case (2 m s' ps')
    have b: "on_mbuf m (mbufput 28) s' = (Inr 128, upd_mbuf m (\<lambda>b. b\<lparr>m_len := 28\<rparr>) s')"
      using 2(5,6) by (simp add: on_mbuf_def mbufput_def MBUF_SIZE_def Let_def) (simp add: upd_mbuf_def)
    let ?s = "edit_buf m (arp_header op dmac dip 128) (upd_mbuf m (\<lambda>b. b\<lparr>m_len := 28\<rparr>) s')"
    have "net_ok kend P ?s ps' sos qs (m # ms)" by (intro net_ok_edit net_ok_upd_mbuf 2(4)) simp_all
    moreover have "14 \<le> m_head (mbufs ?s m)" using 2(5) by (simp add: edit_buf_def)
    ultimately have t: "settles kend P sos ms ?s (net_tx_eth kend m ETHTYPE_ARP ?s)" by (rule tx_eth_settles)
    have "settles kend P sos ms ?s (bindS (net_tx_eth kend m ETHTYPE_ARP ?s) (\<lambda>_ s. (Inr (0 :: int), s)))"
      by (rule settles_bind [OF t]) (auto intro: settlesI)
    moreover have "same_rx s ?s" using 2(7,8,11) by (simp add: same_rx_def upd_mbuf_def edit_buf_def)
    ultimately have "settles kend P sos ms s (bindS (net_tx_eth kend m ETHTYPE_ARP ?s) (\<lambda>_ s. (Inr (0 :: int), s)))"
      by (rule settles_from [rotated])
    then show ?thesis using 2(1,2) b by (simp add: net_tx_arp_def)
  qed
qed

section \<open>Receiving\<close>

lemma sock_find_list:
  assumes "fchain (\<lambda>x. so_next (socks s x)) p sos" and "length sos \<le> n"
  shows "sock_find n K p s = Inr (case find (\<lambda>x. K (socks s x)) sos of None \<Rightarrow> 0 | Some x \<Rightarrow> x)"
  using assms
proof (induction sos arbitrary: n p)
  case Nil
  then show ?case by (cases n) simp_all
next
  case (Cons x sos)
  then obtain k where "n = Suc k" by (cases n) auto
  then show ?case using Cons by auto
qed

lemma net_ok_find:
  assumes "net_ok kend P s ps sos qs ms"
  shows "sock_find NPAGES K (sockets s) s = Inr (case find (\<lambda>x. K (socks s x)) sos of None \<Rightarrow> 0 | Some x \<Rightarrow> x)"
proof (rule sock_find_list)
  show "fchain (\<lambda>x. so_next (socks s x)) (sockets s) sos" using assms by (simp add: net_ok_def)
  show "length sos \<le> NPAGES"
  proof (rule pages_bounded)
    show "distinct sos" using net_ok_distinct(1) [OF assms] by (simp add: net_pages_def)
    show "\<forall>x \<in> set sos. page_ok kend x" using net_ok_distinct(3) [OF assms] by (simp add: net_pages_def)
    show "0x80000000 \<le> kend" using assms by (simp add: net_ok_def)
  qed
qed

lemma concat_upd:
  assumes "so \<in> set sos" and "distinct sos"
  shows "mset (concat (map (qs(so := qs so @ [m])) sos)) = add_mset m (mset (concat (map qs sos)))"
proof -
  obtain as bs where sos: "sos = as @ so # bs" using assms(1) by (auto dest: split_list)
  then have "map (qs(so := qs so @ [m])) as = map qs as" "map (qs(so := qs so @ [m])) bs = map qs bs"
    using assms(2) by auto
  then show ?thesis unfolding sos by (simp del: map_eq_conv)
qed

lemma recvudp_queued:
  assumes ok: "net_ok kend P s ps sos qs (m # ms)"
    and so: "find (\<lambda>x. same_key raddr lport rport (socks s x)) sos = Some so"
  obtains s' where "sockrecvudp kend m raddr lport rport s = (Inr (), s')"
    "net_ok kend P s' ps sos (qs(so := qs so @ [m])) ms" "same_rx s s'"
    "\<forall>x. m_head (mbufs s' x) = m_head (mbufs s x) \<and> m_len (mbufs s' x) = m_len (mbufs s x) \<and> m_buf (mbufs s' x) = m_buf (mbufs s x)"
    "pt s' = wakeup (rxq_chan so) (pt s)" "km s' = km s"
proof -
  note d = net_ok_distinct [OF ok]
  have sin: "so \<in> set sos" using so by (auto simp: find_Some_iff)
  have so0: "so \<noteq> 0" "m \<noteq> 0" using sin d(3) by (auto simp: net_pages_def)
  have q: "queue_rep (so_rxq (socks s so)) s (qs so)" using ok sin by (simp add: net_ok_def)
  have mq: "m \<notin> set (qs x)" if "x \<in> set sos" for x using d(1) that by (auto simp: net_pages_def)
  obtain q' s1 where p: "mbufq_pushtail m (so_rxq (socks s so)) s = (q', s1)"
    by (cases "mbufq_pushtail m (so_rxq (socks s so)) s")
  have r: "queue_rep q' s1 (qs so @ [m])" by (rule mq.push_law [OF q so0(2) mq [OF sin] p])
  have s1: "s1 = upd_mbuf m (\<lambda>b. b\<lparr>m_next := 0\<rparr>) s \<or>
      (qs so \<noteq> [] \<and> s1 = upd_mbuf (last (qs so)) (\<lambda>b. b\<lparr>m_next := m\<rparr>) (upd_mbuf m (\<lambda>b. b\<lparr>m_next := 0\<rparr>) s))"
    using p q by (cases "qs so") (auto simp: mbufq_pushtail_def Let_def queue_rep_def split: if_splits)
  let ?s = "upd_pt (wakeup (rxq_chan so)) (upd_sock so (\<lambda>x. x\<lparr>so_rxq := q'\<rparr>) s1)"
  have e: "sockrecvudp kend m raddr lport rport s = (Inr (), ?s)"
    using net_ok_find [OF ok, of "same_key raddr lport rport"] so so0 p by (simp add: sockrecvudp_def)
  have f: "km ?s = km s" "sockets ?s = sockets s" "tx_mbufs ?s = tx_mbufs s" "rx_mbufs ?s = rx_mbufs s" "regs ?s = regs s"
    "rx_ring ?s = rx_ring s" "pt s1 = pt s" "km s1 = km s"
    using s1 by (auto simp: upd_pt_def upd_sock_def upd_mbuf_def)
  have nx: "(\<lambda>x. so_next (socks ?s x)) = (\<lambda>x. so_next (socks s x))" using s1 by (auto simp: fun_eq_iff)
  have other: "queue_rep (so_rxq (socks ?s x)) ?s (qs x)" if x: "x \<in> set sos" "x \<noteq> so" for x
  proof -
    have "so_rxq (socks ?s x) = so_rxq (socks s x)" using s1 x by auto
    moreover have "m_next (mbufs ?s y) = m_next (mbufs s y)" if "y \<in> set (qs x)" for y
    proof -
      have "set (qs x) \<inter> set (qs so) = {}"
      proof -
        have "distinct (concat (map qs sos))" using d(1) by (simp add: net_pages_def)
        moreover obtain as bs where "sos = as @ so # bs" using sin by (auto dest: split_list)
        ultimately show ?thesis using x by auto
      qed
      then have "y \<notin> set (qs so)" using that by auto
      then have "qs so \<noteq> [] \<Longrightarrow> y \<noteq> last (qs so)" using last_in_set [of "qs so"] by auto
      moreover have "y \<noteq> m" using mq [OF x(1)] that by auto
      ultimately show ?thesis using s1 by auto
    qed
    ultimately show ?thesis using ok x(1) queue_rep_cong [of "qs x" ?s s] by (simp add: net_ok_def)
  qed
  have own: "queue_rep (so_rxq (socks ?s so)) ?s (qs so @ [m])"
    using r queue_rep_cong [of "qs so @ [m]" ?s s1 q'] by simp
  have ds: "distinct sos" using d(1) by (simp add: net_pages_def)
  have "net_ok kend P ?s ps sos (qs(so := qs so @ [m])) ms"
    unfolding net_ok_def
  proof (intro conjI)
    show "fchain (\<lambda>x. so_next (socks ?s x)) (sockets ?s) sos" unfolding nx f(2) using ok by (simp add: net_ok_def)
    show "\<forall>x \<in> set sos. queue_rep (so_rxq (socks ?s x)) ?s ((qs(so := qs so @ [m])) x)"
      using other own by (auto simp del: upd_views)
    show "mset (ms @ net_pages ?s ps sos (qs(so := qs so @ [m]))) = mset P"
      unfolding net_pages_def mset_append concat_upd [OF sin ds] tx_held_def rx_held_def f(3,4)
      using ok by (simp add: net_ok_def net_pages_def tx_held_def rx_held_def)
  qed (use ok f in \<open>simp_all add: net_ok_def\<close>)
  moreover have "same_rx s ?s" by (simp add: same_rx_def f)
  moreover have "\<forall>x. m_head (mbufs ?s x) = m_head (mbufs s x) \<and> m_len (mbufs ?s x) = m_len (mbufs s x) \<and> m_buf (mbufs ?s x) = m_buf (mbufs s x)"
    using s1 by auto
  ultimately show thesis by (intro that [OF e]) (simp_all add: f)
qed

lemma recvudp_settles:
  assumes ok: "net_ok kend P s ps sos qs (m # ms)"
  shows "settles kend P sos ms s (sockrecvudp kend m raddr lport rport s)"
proof (cases "find (\<lambda>x. same_key raddr lport rport (socks s x)) sos")
  case None
  then have "sockrecvudp kend m raddr lport rport s = mbuffree kend m s"
    using net_ok_find [OF ok, of "same_key raddr lport rport"] by (simp add: sockrecvudp_def)
  then show ?thesis using free_settles [OF ok] by simp
next
  case (Some so)
  from recvudp_queued [OF ok Some] show ?thesis by (metis settlesI)
qed

lemma on_mbuf_pull:
  obtains (short) "on_mbuf m (mbufpull len) s = (None, s)" "m_len (mbufs s m) < len"
  | (pulled) "on_mbuf m (mbufpull len) s = (Some (m_head (mbufs s m)),
      upd_mbuf m (\<lambda>b. b\<lparr>m_len := m_len b - len, m_head := m_head b + uint len\<rparr>) s)" "len \<le> m_len (mbufs s m)"
proof (cases "m_len (mbufs s m) < len")
  case True
  have "upd_mbuf m (\<lambda>_. mbufs s m) s = s" by (simp add: upd_mbuf_def)
  then show thesis using short True by (simp add: on_mbuf_def mbufpull_def Let_def)
next
  case False
  then show thesis
    using pulled by (simp add: on_mbuf_def mbufpull_def Let_def not_less upd_mbuf_def)
qed

lemma on_mbuf_state: "on_mbuf m f s = (r, t) \<Longrightarrow> \<exists>b. t = upd_mbuf m b s"
  by (auto simp: on_mbuf_def split: prod.splits)

lemma rx_udp_settles:
  assumes ok: "net_ok kend P s ps sos qs (m # ms)"
  shows "settles kend P sos ms s (net_rx_udp kend m len h s)"
proof -
  obtain r t where p: "on_mbuf m (mbufpull 8) s = (r, t)" by (cases "on_mbuf m (mbufpull 8) s")
  from on_mbuf_state [OF p] obtain f where t: "t = upd_mbuf m f s" by blast
  have ok': "net_ok kend P t ps sos qs (m # ms)" unfolding t by (rule net_ok_upd_mbuf [OF ok]) simp
  note fr = settles_from [OF _ free_settles [OF ok']]
  obtain r' u where p': "on_mbuf m (mbuftrim (m_len (mbufs t m) - ucast (len - 8))) t = (r', u)"
    by (cases "on_mbuf m (mbuftrim (m_len (mbufs t m) - ucast (len - 8))) t")
  from on_mbuf_state [OF p'] obtain g where u: "u = upd_mbuf m g t" by blast
  have ok2: "net_ok kend P u ps sos qs (m # ms)" unfolding u by (rule net_ok_upd_mbuf [OF ok']) simp
  have x: "same_rx s t" "same_rx s u" by (simp_all add: t u)
  note rc = settles_from [OF x(2) recvudp_settles [OF ok2]]
  show ?thesis
    using fr [OF x(1)] rc by (simp add: net_rx_udp_def p p' Let_def split: option.splits)
qed

lemma rx_ip_settles:
  assumes ok: "net_ok kend P s ps sos qs (m # ms)"
  shows "settles kend P sos ms s (net_rx_ip kend m s)"
proof -
  obtain r t where p: "on_mbuf m (mbufpull 20) s = (r, t)" by (cases "on_mbuf m (mbufpull 20) s")
  from on_mbuf_state [OF p] obtain f where t: "t = upd_mbuf m f s" by blast
  have ok': "net_ok kend P t ps sos qs (m # ms)" unfolding t by (rule net_ok_upd_mbuf [OF ok]) simp
  have x: "same_rx s t" by (simp add: t)
  show ?thesis
    using settles_from [OF x free_settles [OF ok']] settles_from [OF x rx_udp_settles [OF ok']]
    by (simp add: net_rx_ip_def p Let_def split: option.splits)
qed

lemma rx_arp_settles:
  assumes ok: "net_ok kend P s ps sos qs (m # ms)"
  shows "settles kend P sos ms s (net_rx_arp kend m s)"
proof -
  obtain r t where p: "on_mbuf m (mbufpull 28) s = (r, t)" by (cases "on_mbuf m (mbufpull 28) s")
  from on_mbuf_state [OF p] obtain f where t: "t = upd_mbuf m f s" by blast
  have ok': "net_ok kend P t ps sos qs (m # ms)" unfolding t by (rule net_ok_upd_mbuf [OF ok]) simp
  have x: "same_rx s t" by (simp add: t)
  have a: "settles kend P sos ms t (bindS (net_tx_arp kend op smac sip t) (\<lambda>_ s. mbuffree kend m s))" for op smac sip
    by (rule settles_bind [OF tx_arp_settles [OF ok']]) (auto intro: free_settles)
  show ?thesis
    using settles_from [OF x free_settles [OF ok']] settles_from [OF x a]
    by (simp add: net_rx_arp_def p Let_def split: option.splits)
qed

lemma rx_settles:
  assumes ok: "net_ok kend P s ps sos qs (m # ms)"
  shows "settles kend P sos ms s (net_rx kend m s)"
proof -
  obtain r t where p: "on_mbuf m (mbufpull 14) s = (r, t)" by (cases "on_mbuf m (mbufpull 14) s")
  from on_mbuf_state [OF p] obtain f where t: "t = upd_mbuf m f s" by blast
  have ok': "net_ok kend P t ps sos qs (m # ms)" unfolding t by (rule net_ok_upd_mbuf [OF ok]) simp
  have x: "same_rx s t" by (simp add: t)
  show ?thesis
    using settles_from [OF x free_settles [OF ok']] settles_from [OF x rx_ip_settles [OF ok']]
      settles_from [OF x rx_arp_settles [OF ok']]
    by (simp add: net_rx_def p Let_def split: option.splits)
qed

section \<open>A network state\<close>

text \<open>Pages 0 to 15 are in the receive ring, page 17 is a socket, page 18 is free, page 16 is in hand.\<close>

definition pg :: "nat \<Rightarrow> u64" where "pg n = 0x80100000 + of_nat n * 0x1000"

definition net0_mbuf :: mbuf where
  "net0_mbuf = \<lparr>m_next = 0, m_head = 0, m_len = 0, m_buf = \<lambda>_. 0\<rparr>"

definition net0_sock :: sock where
  "net0_sock = \<lparr>so_next = 0, so_raddr = local_ip, so_lport = 2000, so_rport = 1000, so_rxq = \<lparr>q_head = 0, q_tail = 0\<rparr>\<rparr>"

definition net0 :: "kmem \<Rightarrow> ptable \<Rightarrow> netst" where
  "net0 k tab = \<lparr>km = k\<lparr>freelist := pg 18, knext := \<lambda>_. 0, ref_count := \<lambda>_. 0\<rparr>, pt = tab, mbufs = \<lambda>_. net0_mbuf,
     socks = \<lambda>_. net0_sock, pipes = \<lambda>_. pipe_view 0, sockets = pg 17, tx_ring = \<lambda>_. zero_tx\<lparr>td_status := 1\<rparr>,
     tx_mbufs = \<lambda>_. 0, rx_ring = \<lambda>_. zero_rx, rx_mbufs = pg, regs = \<lambda>_. 0\<rparr>"

definition boot_procs :: ptable where
  "boot_procs = \<lparr>procs = \<lambda>_. \<lparr>pstate = UNUSED, parent = None, pchan = None, killed = False, xstate = 0, pid = 0, kstack = 0,
     psz = 0, pagetable = 0, ptf = 0, ofile = \<lambda>_. None, pcwd = None, pname = [],
     minfo = \<lambda>_. \<lparr>vstart = 0, vend = 0, m_length = 0, m_prot = 0, m_flags = 0, m_offset = 0, m_used = False, m_file = 0\<rparr>\<rparr>,
     initproc = 0, nextpid = 1, cpu_proc = \<lambda>_. None\<rparr>"

lemma net0_ok:
  "net_ok 0x80021000 (map pg ([16, 18, 17] @ [0..<16])) (net0 k tab) [pg 18] [pg 17] (\<lambda>_. []) [pg 16]"
  "net_ok 0x80021000 (map pg ([18, 17] @ [0..<16])) (net0 k tab) [pg 18] [pg 17] (\<lambda>_. []) []"
proof -
  have tx: "tx_held (net0 k tab) = []" by (simp add: tx_held_def net0_def)
  have rx: "rx_held (net0 k tab) = map pg [0..<16]" by (simp add: rx_held_def net0_def RING_SIZE_def)
  have d: "distinct (map pg ([16, 18, 17] @ [0..<16]))" by code_simp
  have p: "\<forall>x \<in> set (map pg ([16, 18, 17] @ [0..<16])). page_ok 0x80021000 x" by code_simp
  have i: "kinv 0x80021000 (km (net0 k tab)) [pg 18]"
    by (simp add: kinv_def net0_def page_ok_def) (simp add: pg_def)
  have s: "fchain (\<lambda>x. so_next (socks (net0 k tab) x)) (sockets (net0 k tab)) [pg 17]"
    by (simp add: net0_def net0_sock_def) (simp add: pg_def)
  have q: "queue_rep (so_rxq (socks (net0 k tab) (pg 17))) (net0 k tab) []"
    by (simp add: queue_rep_def net0_def net0_sock_def)
  have t: "unat (regs (net0 k tab) E1000_TDT) < RING_SIZE" by (simp add: net0_def RING_SIZE_def)
  show "net_ok 0x80021000 (map pg ([16, 18, 17] @ [0..<16])) (net0 k tab) [pg 18] [pg 17] (\<lambda>_. []) [pg 16]"
    unfolding net_ok_def using d p i s q t by (simp add: net_pages_def tx rx)
  show "net_ok 0x80021000 (map pg ([18, 17] @ [0..<16])) (net0 k tab) [pg 18] [pg 17] (\<lambda>_. []) []"
    unfolding net_ok_def using d p i s q t by (simp add: net_pages_def tx rx)
qed

text \<open>C25: whatever bytes an arriving frame holds, \<open>net_rx\<close> returns without a panic and without an access
  outside the buffers, and its page is not lost: it is freed or queued on one socket, no page has two
  owners, the sockets' queues and the free list stay well formed and the receive ring is not touched
  (\<open>net_ok\<close>: all the pages of \<open>P\<close>, each in one place; before, the packet \<open>m\<close> is in hand, after, nothing
  is).\<close>

theorem net_rx_settles_every_frame:
  assumes "net_ok kend P s ps sos qs [m]"
  shows "\<exists>s' ps' qs'. net_rx kend m s = (Inr (), s') \<and> net_ok kend P s' ps' sos qs' [] \<and>
    rx_ring s' = rx_ring s \<and> rx_mbufs s' = rx_mbufs s"
  using rx_settles [of kend P s ps sos qs m "[]"] assms by (auto simp: settles_def same_rx_def)

text \<open>A frame of zeros.\<close>

theorem net_rx_settles_every_frame_witness:
  "\<exists>s' ps' qs'. net_rx 0x80021000 (pg 16) (net0 one_page boot_procs) = (Inr (), s') \<and>
     net_ok 0x80021000 (map pg ([16, 18, 17] @ [0..<16])) s' ps' [pg 17] qs' [] \<and>
     rx_ring s' = rx_ring (net0 one_page boot_procs) \<and> rx_mbufs s' = rx_mbufs (net0 one_page boot_procs)"
  by (rule net_rx_settles_every_frame [OF net0_ok(1)])

section \<open>The receive interrupt\<close>

text \<open>The number of filled descriptors.\<close>

definition rx_filled :: "'a netst_scheme \<Rightarrow> nat set" where
  "rx_filled s = {i. i < RING_SIZE \<and> rd_status (rx_ring s i) AND E1000_STAT_DD \<noteq> 0}"

lemma finite_rx_filled [simp]: "finite (rx_filled s)" "card (rx_filled s) \<le> 16"
proof -
  show f: "finite (rx_filled s)" by (simp add: rx_filled_def)
  have "rx_filled s \<subseteq> {0..<16}" by (auto simp: rx_filled_def RING_SIZE_def)
  then show "card (rx_filled s) \<le> 16" using card_mono [of "{0..<16::nat}" "rx_filled s"] by simp
qed

lemma rx_pos_less: "rx_pos s < RING_SIZE"
  by (simp add: rx_pos_def RING_SIZE_def unat_mod)

lemma rx_held_upd:
  assumes "i < RING_SIZE"
  shows "add_mset (f i) (mset (map (f(i := m)) [0..<RING_SIZE])) = add_mset (m :: u64) (mset (map f [0..<RING_SIZE]))"
proof -
  have u: "[0..<RING_SIZE] = [0..<i] @ i # [Suc i..<RING_SIZE]"
    using assms by (metis le_add_same_cancel1 less_imp_le_nat upt_add_eq_append upt_conv_Cons le_add_diff_inverse zero_le)
  have "map (f(i := m)) [0..<i] = map f [0..<i]" "map (f(i := m)) [Suc i..<RING_SIZE] = map f [Suc i..<RING_SIZE]" by auto
  then show ?thesis unfolding u by simp
qed

lemma recv_turn:
  assumes ok: "net_ok kend P s ps sos qs []" and i: "i < RING_SIZE"
  shows "(\<exists>t ps' qs'. e1000_recv_turn kend i s = (Inr (), t) \<and> net_ok kend P t ps' sos qs' [] \<and>
      (\<forall>j. rd_status (rx_ring t j) = (if j = i then 0 else rd_status (rx_ring s j)))) \<or>
    (\<exists>t. e1000_recv_turn kend i s = (Inl (Panic ''mbufput''), t)) \<or>
    (\<exists>t. e1000_recv_turn kend i s = (Inl (Panic ''e1000''), t) \<and> ps = [])"
proof -
  let ?b = "rx_mbufs s i"
  obtain r t where p: "on_mbuf ?b (mbufput (ucast (rd_length (rx_ring s i)))) s = (r, t)"
    by (cases "on_mbuf ?b (mbufput (ucast (rd_length (rx_ring s i)))) s")
  from on_mbuf_state [OF p] obtain f where t: "t = upd_mbuf ?b f s" by blast
  show ?thesis
  proof (cases r)
    case (Inl e)
    then have "e = Panic ''mbufput''"
      using p by (auto simp: on_mbuf_def mbufput_def Let_def split: if_splits)
    then show ?thesis using p Inl by (simp add: e1000_recv_turn_def)
  next
    case (Inr x)
    have b: "?b \<in> set (rx_held s)" using i by (simp add: rx_held_def)
    have q: "?b \<notin> set (qs so)" if "so \<in> set sos" for so
      using net_ok_distinct(1) [OF ok] b that by (auto simp: net_pages_def)
    have okt: "net_ok kend P t ps sos qs []"
    proof -
      have "queue_rep q t (qs so) = queue_rep q s (qs so)" if "so \<in> set sos" for so q
        using q [OF that] unfolding t by (intro queue_rep_cong) auto
      then show ?thesis
        using ok by (simp add: t net_ok_def net_pages_def tx_held_def rx_held_def upd_mbuf_def)
    qed
    have h: "(0 :: u32) \<le> MBUF_SIZE" by simp
    show ?thesis
    proof (cases rule: net_ok_alloc [OF okt h])
      case 1
      then show ?thesis using p Inr by (simp add: e1000_recv_turn_def)
    next
      case (2 m t1 ps1)
      define u where "u = set_reg E1000_RDT (of_nat i) (upd_rx i (\<lambda>d. d\<lparr>rd_status := 0\<rparr>)
        (upd_rx i (\<lambda>d. d\<lparr>rd_addr := head_addr m (set_rx_mbuf i m t1)\<rparr>) (set_rx_mbuf i m t1)))"
      have bi: "rx_mbufs t1 i = ?b" using 2(11) by (simp add: t upd_mbuf_def)
      have "add_mset ?b (mset (rx_held u)) = add_mset m (mset (rx_held t1))"
        using rx_held_upd [OF i, of "rx_mbufs t1" m] bi by (simp add: rx_held_def u_def set_reg_def upd_rx_def set_rx_mbuf_def)
      then have "mset ([?b] @ net_pages u ps1 sos qs) = mset ([m] @ net_pages t1 ps1 sos qs)"
        by (simp add: net_pages_def tx_held_def u_def set_reg_def upd_rx_def set_rx_mbuf_def)
      moreover have "queue_rep q u ms = queue_rep q t1 ms" for q ms
        by (rule queue_rep_cong) (simp add: u_def set_reg_def upd_rx_def set_rx_mbuf_def)
      ultimately have oku: "net_ok kend P u ps1 sos qs [?b]"
        using 2(4) unfolding net_ok_def
        by (simp add: u_def set_reg_def upd_rx_def set_rx_mbuf_def E1000_RDT_def E1000_TDT_def)
      have e: "e1000_recv_turn kend i s = net_rx kend ?b u"
        using p Inr 2(1,2) by (simp add: e1000_recv_turn_def Let_def u_def)
      from rx_settles [OF oku] obtain v ps2 qs2 where
        v: "net_rx kend ?b u = (Inr (), v)" "net_ok kend P v ps2 sos qs2 []" "same_rx u v" by (auto simp: settles_def)
      have "\<forall>j. rd_status (rx_ring v j) = (if j = i then 0 else rd_status (rx_ring s j))"
        using v(3) 2(7) by (auto simp: same_rx_def u_def set_reg_def upd_rx_def set_rx_mbuf_def t upd_mbuf_def)
      then show ?thesis using v e by auto
    qed
  qed
qed

lemma recv_loop:
  assumes "net_ok kend P s ps sos qs []" and "card (rx_filled s) < n"
  shows "\<exists>r t. e1000_recv n kend s = Some (r, t) \<and>
    (r = Inr () \<and> rd_status (rx_ring t (rx_pos t)) AND E1000_STAT_DD = 0 \<and> (\<exists>ps' qs'. net_ok kend P t ps' sos qs' []) \<or>
     r = Inl (Panic ''mbufput'') \<or> r = Inl (Panic ''e1000''))"
  using assms
proof (induction n arbitrary: s ps qs)
  case (Suc n)
  let ?i = "rx_pos s"
  show ?case
  proof (cases "rd_status (rx_ring s ?i) AND E1000_STAT_DD = 0")
    case True
    then show ?thesis using Suc.prems(1) by auto
  next
    case False
    from recv_turn [OF Suc.prems(1) rx_pos_less, of s]
    consider (ok) t ps' qs' where "e1000_recv_turn kend ?i s = (Inr (), t)" "net_ok kend P t ps' sos qs' []"
        "\<forall>j. rd_status (rx_ring t j) = (if j = ?i then 0 else rd_status (rx_ring s j))"
      | (bad) e t where "e1000_recv_turn kend ?i s = (Inl e, t)" "e = Panic ''mbufput'' \<or> e = Panic ''e1000''"
      by blast
    then show ?thesis
    proof cases
      case ok
      have "rx_filled t = rx_filled s - {?i}" using ok(3) by (auto simp: rx_filled_def)
      moreover have "?i \<in> rx_filled s" using False rx_pos_less by (simp add: rx_filled_def)
      ultimately have "card (rx_filled t) < n" using Suc.prems(2) by (simp add: card_Diff_singleton) (metis Suc_leI card_gt_0_iff diff_less_Suc empty_iff finite_rx_filled(1) less_Suc_eq less_imp_diff_less less_le_trans Suc_pred)
      from Suc.IH [OF ok(2) this] show ?thesis using False ok(1) by (simp add: Let_def)
    next
      case bad
      then show ?thesis using False by (auto simp: Let_def)
    qed
  qed
qed simp




end
