(* ===== verification/Xv7_Udp.thy ===== *)
theory Xv7_Udp
  imports Xv7_Net_Accounts
begin

text \<open>
  From a UDP packet that is sent to the bytes that are received.  \<open>udp_frame\<close> says what the 42
  bytes of headers hold; \<open>net_tx_udp\<close> produces it, \<open>net_rx\<close> accepts it, and the payload is the
  same at both ends, whatever follows it on the wire.
\<close>

definition contents :: "mbuf \<Rightarrow> u8 list" where
  "contents b = get_bytes (m_head b) (unat (m_len b)) (m_buf b)"

text \<open>The headers of a frame at \<open>e\<close> with \<open>n\<close> bytes of payload.\<close>

definition udp_frame :: "(int \<Rightarrow> u8) \<Rightarrow> int \<Rightarrow> nat \<Rightarrow> u32 \<Rightarrow> u32 \<Rightarrow> u16 \<Rightarrow> u16 \<Rightarrow> bool" where
  "udp_frame b e n src dst sport dport \<longleftrightarrow>
     get16 (e + 12) b = bswaps ETHTYPE_IP \<and>
     b (e + 14) = 0x45 \<and> in_cksum (e + 14) 20 b = 0 \<and> get16 (e + 20) b = 0 \<and> b (e + 23) = IPPROTO_UDP \<and>
     get16 (e + 16) b = bswaps (of_nat (n + 28)) \<and> get32 (e + 26) b = bswapl src \<and> get32 (e + 30) b = bswapl dst \<and>
     get16 (e + 34) b = bswaps sport \<and> get16 (e + 36) b = bswaps dport \<and> get16 (e + 38) b = bswaps (of_nat (n + 8))"

section \<open>Sending\<close>

lemma words16_cong:
  "(\<And>i. 0 \<le> i \<Longrightarrow> i < int n \<Longrightarrow> b (p + i) = c (q + i)) \<Longrightarrow> words16 b p n = words16 c q n"
proof (induction b p n arbitrary: q rule: words16.induct)
  case (2 b p)
  then show ?case using 2 [of 0] by simp
next
  case (3 b p n)
  have "b p = c q" "b (p + 1) = c (q + 1)" using 3(2) [of 0] 3(2) [of 1] by simp_all
  moreover have "words16 b (p + 2) n = words16 c (q + 2) n"
  proof (rule 3(1))
    fix i assume "0 \<le> i" "i < int n"
    then show "b (p + 2 + i) = c (q + 2 + i)" using 3(2) [of "2 + i"] by (simp add: add.assoc)
  qed
  ultimately show ?case by (simp add: get16_def)
qed simp

lemma in_cksum_cong:
  assumes "\<And>i. 0 \<le> i \<Longrightarrow> i < 20 \<Longrightarrow> b (p + i) = c (q + i)"
  shows "in_cksum p 20 b = in_cksum q 20 c"
  using words16_cong [of 20 b p c q] in_cksum_fold [of 20 p b] in_cksum_fold [of 20 q c] assms by simp

lemma udp_frame_cong:
  assumes "udp_frame b e n src dst sport dport" and "\<And>i. 0 \<le> i \<Longrightarrow> i < 42 \<Longrightarrow> c (f + i) = b (e + i)"
  shows "udp_frame c f n src dst sport dport"
proof -
  have g: "get16 (f + i) c = get16 (e + i) b" if "0 \<le> i" "i < 41" for i
    using assms(2) [of i] assms(2) [of "i + 1"] that by (simp add: get16_def add.assoc)
  have l: "get32 (f + i) c = get32 (e + i) b" if "0 \<le> i" "i < 39" for i
    using assms(2) [of i] assms(2) [of "i + 1"] assms(2) [of "i + 2"] assms(2) [of "i + 3"] that by (simp add: get32_def add.assoc)
  have k: "in_cksum (f + 14) 20 c = in_cksum (e + 14) 20 b"
    by (rule in_cksum_cong) (use assms(2) in \<open>simp add: add.assoc\<close>)
  show ?thesis
    using assms(1) unfolding udp_frame_def by (simp add: g l k assms(2))
qed

lemma ip_vhl: "(push_bit 4 4 OR drop_bit 2 20 :: u8) = 0x45"
  by code_simp

lemma udp_frame_built:
  fixes e :: int and len :: u32
  assumes "c1 = udp_header sport dport (of_nat (n + 8)) (e + 34) b"
    and "c2 = ip_header IPPROTO_UDP dip (of_nat (n + 28)) (e + 14) c1"
    and "c3 = eth_header ETHTYPE_IP e c2"
  shows "udp_frame c3 e n local_ip dip sport dport" "\<And>i. e + 42 \<le> i \<Longrightarrow> c3 i = b i"
proof -
  have u: "ucast (of_nat k :: u32) = (of_nat k :: u16)" for k
    by (rule bit_word_eqI) (auto simp: bit_simps)
  have u8: "ucast (of_nat n + 8 :: u32) = (of_nat n + 8 :: u16)" "ucast (of_nat n + 28 :: u32) = (of_nat n + 28 :: u16)"
    using u [of "n + 8"] u [of "n + 28"] by simp_all
  define c where "c = put16 (e + 16) (bswaps (of_nat (n + 28))) (put32 (e + 30) (bswapl dip) (put32 (e + 26) (bswapl local_ip)
      ((put_bytes (e + 14) (replicate 20 0) c1)(e + 14 := 0x45, e + 23 := IPPROTO_UDP))))"
  define d where "d = c(e + 22 := 100)"
  have c2: "c2 = put16 (e + 24) (in_cksum (e + 14) 20 d) d"
    unfolding assms(2) ip_header_def d_def c_def ip_vhl by (simp add: Let_def u8 add.commute)
  have z: "get16 (e + 24) d = 0" "get16 (e + 20) d = 0"
    by (simp_all add: d_def c_def) (simp_all add: get16_def put_bytes_at)
  have pos: "0 < sum_list (words16 d (e + 14) 20)"
  proof -
    have "d (e + 14) = 0x45" by (simp add: d_def c_def)
    then have "bit (get16 (e + 14) d) 0" by (simp add: get16_def bit_simps)
    then have "get16 (e + 14) d \<noteq> 0" by auto
    then have "0 < unat (get16 (e + 14) d)" by (simp add: unat_gt_0)
    then show ?thesis by (simp add: numeral_eq_Suc)
  qed
  have ck: "in_cksum (e + 14) 20 c2 = 0"
    using cksum_verifies [of 10 20 "e + 14" d] z(1) pos by (simp add: c2 add.commute)
  have ck3: "in_cksum (e + 14) 20 c3 = 0"
    using ck in_cksum_cong [of c3 "e + 14" c2 "e + 14"] by (simp add: assms(3) eth_header_def local_mac_def broadcast_mac_def put_bytes_at)
  have f2: "c2 (e + 14) = 0x45" "get16 (e + 20) c2 = 0" "c2 (e + 23) = IPPROTO_UDP"
    "get16 (e + 16) c2 = bswaps (of_nat (n + 28))" "get32 (e + 26) c2 = bswapl local_ip" "get32 (e + 30) c2 = bswapl dip"
    unfolding c2 using z(2) by (simp_all add: d_def c_def)
  have f1: "get16 (e + 34) c2 = bswaps sport" "get16 (e + 36) c2 = bswaps dport" "get16 (e + 38) c2 = bswaps (of_nat (n + 8))"
    unfolding c2 d_def c_def assms(1) udp_header_def by (simp_all add: Let_def u8 add.commute)
  show "udp_frame c3 e n local_ip dip sport dport"
    unfolding udp_frame_def
    using f1 f2 ck3 by (simp add: assms(3) eth_header_def local_mac_def broadcast_mac_def put_bytes_at)
  show "c3 i = b i" if "e + 42 \<le> i" for i
    using that unfolding assms(3) eth_header_def c2 d_def c_def assms(1) udp_header_def
    by (simp add: Let_def put_bytes_at local_mac_def broadcast_mac_def)
qed


lemma contents_frame:
  assumes "\<And>i. h \<le> i \<Longrightarrow> i < h + int n \<Longrightarrow> c i = b i"
  shows "get_bytes h n c = get_bytes h n b"
  by (rule get_bytes_cong) (use assms in simp)

text \<open>What \<open>net_tx_udp\<close> puts in the transmit ring.\<close>

lemma tx_udp_sends:
  assumes ok: "net_ok kend P s ps sos qs [m]" and h: "42 \<le> m_head (mbufs s m)"
    and n: "m_len (mbufs s m) = of_nat n" "n + 42 < 2 ^ 16"
    and dd: "td_status (tx_ring s (unat (regs s E1000_TDT))) AND E1000_STAT_DD \<noteq> 0"
  obtains s' ps' where "net_tx_udp kend m dip sport dport s = (Inr (), s')" "net_ok kend P s' ps' sos qs []"
    "tx_mbufs s' (unat (regs s E1000_TDT)) = m" "m_head (mbufs s' m) = m_head (mbufs s m) - 42"
    "m_len (mbufs s' m) = of_nat (n + 42)"
    "udp_frame (m_buf (mbufs s' m)) (m_head (mbufs s' m)) n local_ip dip sport dport"
    "\<And>i. m_head (mbufs s m) \<le> i \<Longrightarrow> m_buf (mbufs s' m) i = m_buf (mbufs s m) i"
proof -
  define x e where "x = mbufs s m" and "e = m_head x - 42"
  define c1 where "c1 = udp_header sport dport (of_nat (n + 8)) (e + 34) (m_buf x)"
  define c2 where "c2 = ip_header IPPROTO_UDP dip (of_nat (n + 28)) (e + 14) c1"
  define c3 where "c3 = eth_header ETHTYPE_IP e c2"
  define t where "t = upd_mbuf m (\<lambda>b. b\<lparr>m_head := e, m_len := of_nat (n + 42), m_buf := c3\<rparr>) s"
  have l: "m_len x = of_nat n" "42 \<le> m_head x" using h n by (simp_all add: x_def)
  have tx: "net_tx_udp kend m dip sport dport s =
      bindS (e1000_transmit kend m t) (\<lambda>r s. if r \<noteq> 0 then mbuffree kend m s else (Inr (), s))"
    using l unfolding net_tx_udp_def net_tx_ip_def net_tx_eth_def t_def c3_def c2_def c1_def e_def
    by (simp add: push_ok edit_buf_def upd_mbuf_twice x_def [symmetric])
      (simp add: upd_mbuf_def x_def add.commute)
  have okt: "net_ok kend P t ps sos qs [m]" unfolding t_def by (rule net_ok_upd_mbuf [OF ok]) simp
  have r: "regs t = regs s" "tx_ring t = tx_ring s" by (simp_all add: t_def upd_mbuf_def)
  show thesis
  proof (cases rule: net_ok_transmit [OF okt])
    case 1
    have "unat (regs s E1000_TDT) < RING_SIZE" using ok by (simp add: net_ok_def)
    then have "e1000_transmit kend m t \<noteq> (Inr (- 1), t)"
      using dd by (auto simp: e1000_transmit_def Let_def r bindS_def split: prod.splits sum.splits)
    then show thesis using 1 by simp
  next
    case (2 s' ps')
    note b = udp_frame_built [OF c1_def c2_def c3_def]
    have x': "mbufs s' m = x\<lparr>m_head := e, m_len := of_nat (n + 42), m_buf := c3\<rparr>"
      using 2(7) by (simp add: t_def x_def)
    show thesis
    proof (rule that [of s' ps'])
      show "net_tx_udp kend m dip sport dport s = (Inr (), s')" by (simp add: tx 2(1))
      show "net_ok kend P s' ps' sos qs []" by (rule 2(2))
      show "tx_mbufs s' (unat (regs s E1000_TDT)) = m" using 2(6) by (simp add: r)
      show "m_head (mbufs s' m) = m_head (mbufs s m) - 42" by (simp add: x') (simp add: e_def x_def)
      show "m_len (mbufs s' m) = of_nat (n + 42)" by (simp add: x')
      show "udp_frame (m_buf (mbufs s' m)) (m_head (mbufs s' m)) n local_ip dip sport dport" using b(1) by (simp add: x')
      show "m_buf (mbufs s' m) i = m_buf (mbufs s m) i" if "m_head (mbufs s m) \<le> i" for i
        using b(2) [of i] that by (simp add: x') (simp add: e_def x_def)
    qed
  qed
qed


section \<open>Receiving\<close>

lemma pull_ok:
  assumes "len \<le> m_len (mbufs s m)"
  shows "on_mbuf m (mbufpull len) s = (Some (m_head (mbufs s m)),
      upd_mbuf m (\<lambda>b. b\<lparr>m_len := m_len b - len, m_head := m_head b + uint len\<rparr>) s)"
  using assms by (cases rule: on_mbuf_pull [of m len s]) auto

text \<open>A frame for a socket: \<open>net_rx\<close> queues it there, trimmed to its payload.\<close>

lemma rx_udp_queues:
  assumes ok: "net_ok kend P t ps sos qs [m]"
    and fr: "udp_frame (m_buf (mbufs t m)) (m_head (mbufs t m)) n src local_ip sport dport"
    and len: "n + 42 \<le> unat (m_len (mbufs t m))" "n + 42 < 2 ^ 16"
    and so: "find (\<lambda>x. same_key src dport sport (socks t x)) sos = Some so"
  obtains t' where "net_rx kend m t = (Inr (), t')" "net_ok kend P t' ps sos (qs(so := qs so @ [m])) []"
    "contents (mbufs t' m) = get_bytes (m_head (mbufs t m) + 42) n (m_buf (mbufs t m))"
    "pt t' = wakeup (rxq_chan so) (pt t)"
proof -
  define x e where "x = mbufs t m" and "e = m_head x"
  have u: "unat (m_len x - k) = unat (m_len x) - unat k" "k \<le> m_len x" if "unat k \<le> 42" for k
    using len(1) that by (auto simp: x_def unat_sub word_le_nat_alt)
  have un: "unat (of_nat n :: u32) = n" "unat (ucast (of_nat n :: u16) :: u32) = n"
    using len(2) by (simp_all add: unat_of_nat take_bit_nat_eq_self unsigned_ucast_eq unsigned_take_bit_eq)
  have le: "14 \<le> m_len x" "20 \<le> m_len x - 14" "8 \<le> m_len x - 14 - 20" "8 \<le> m_len x - 34"
    using u(2) [of 14] len(1) u(1) [of 14] u(1) [of 34] by (auto simp: x_def word_le_nat_alt)
  have nl: "ucast (of_nat n :: u16) \<le> m_len x - 42"
    using u(1) [of 42] len(1) by (simp add: word_le_nat_alt un x_def)
  have trim: "m_len x - 42 - (m_len x - 42 - ucast (of_nat n :: u16)) = of_nat n"
    by (rule word_unat_eq_iff [THEN iffD2]) (simp add: un)
  define w where "w = upd_mbuf m (\<lambda>b. b\<lparr>m_head := e + 42, m_len := of_nat n\<rparr>) t"
  have F: "get16 (e + 12) (m_buf x) = bswaps ETHTYPE_IP" "m_buf x (e + 14) = 0x45" "in_cksum (e + 14) 20 (m_buf x) = 0"
    "get16 (e + 20) (m_buf x) = 0" "m_buf x (e + 23) = IPPROTO_UDP" "get16 (e + 16) (m_buf x) = bswaps (of_nat (n + 28))"
    "get32 (e + 26) (m_buf x) = bswapl src" "get32 (e + 30) (m_buf x) = bswapl local_ip"
    "get16 (e + 34) (m_buf x) = bswaps sport" "get16 (e + 36) (m_buf x) = bswaps dport"
    "get16 (e + 38) (m_buf x) = bswaps (of_nat (n + 8))"
    using fr by (simp_all add: udp_frame_def x_def e_def)
  let ?t1 = "upd_mbuf m (\<lambda>b. b\<lparr>m_len := m_len b - 14, m_head := m_head b + 14\<rparr>) t"
  let ?t2 = "upd_mbuf m (\<lambda>b. b\<lparr>m_len := m_len b - 34, m_head := m_head b + 34\<rparr>) t"
  let ?t3 = "upd_mbuf m (\<lambda>b. b\<lparr>m_len := m_len b - 42, m_head := m_head b + 42\<rparr>) t"
  have p1: "on_mbuf m (mbufpull 14) t = (Some e, ?t1)" using pull_ok [of 14 t m] le by (simp add: x_def e_def)
  have p2: "on_mbuf m (mbufpull 20) ?t1 = (Some (e + 14), ?t2)"
    using pull_ok [of 20 ?t1 m] le by (simp add: x_def e_def upd_mbuf_twice diff_diff_add add.assoc)
  have p3: "on_mbuf m (mbufpull 8) ?t2 = (Some (e + 34), ?t3)"
    using pull_ok [of 8 ?t2 m] le by (simp add: x_def e_def upd_mbuf_twice diff_diff_add add.assoc)
  have p4: "snd (on_mbuf m (mbuftrim (m_len x - 42 - ucast (of_nat n :: u16))) ?t3) = w"
  proof -
    have "\<not> m_len x - 42 < m_len x - 42 - ucast (of_nat n :: u16)"
      using nl by (simp add: not_less word_le_nat_alt unat_sub)
    then show ?thesis by (simp add: on_mbuf_def mbuftrim_def Let_def w_def e_def upd_mbuf_def trim x_def [symmetric])
  qed
  have tys: "ETHTYPE_IP \<noteq> ETHTYPE_ARP" by (simp add: ETHTYPE_IP_def ETHTYPE_ARP_def)
  have bufs: "m_buf (mbufs ?t1 m) = m_buf x" "m_buf (mbufs ?t2 m) = m_buf x" "m_buf (mbufs ?t3 m) = m_buf x"
    "m_buf (mbufs w m) = m_buf x" "m_len (mbufs ?t3 m) = m_len x - 42"
    by (simp_all add: x_def w_def)
  have e1: "net_rx kend m t = net_rx_ip kend m ?t1"
    by (simp only: net_rx_def p1 prod.case option.case Let_def bufs F bswaps_swap simp_thms if_True)
  have ar: "e + 14 + 6 = e + 20" "e + 14 + 16 = e + 30" "e + 14 + 9 = e + 23" "e + 14 + 2 = e + 16"
    "e + 34 + 4 = e + 38" "e + 34 + 2 = e + 36" "e + 14 + 12 = e + 26" by simp_all
  have e2: "net_rx_ip kend m ?t1 = net_rx_udp kend m (of_nat (n + 28) - 20) (e + 14) ?t2"
  proof -
    have b: "get16 (e + 14 + 6) (m_buf x) = 0" "get32 (e + 14 + 16) (m_buf x) = bswapl local_ip"
      "m_buf x (e + 14 + 9) = IPPROTO_UDP" "get16 (e + 14 + 2) (m_buf x) = bswaps (of_nat (n + 28))"
      by (simp_all only: ar F)
    have z: "bswaps 0 = 0" by (simp add: bswaps_def)
    show ?thesis
      unfolding net_rx_ip_def p2 prod.case option.case Let_def bufs ip_vhl b F bswaps_swap bswapl_swap z
      by (simp only: simp_thms if_False)
  qed
  have e3: "net_rx_udp kend m (of_nat (n + 28) - 20) (e + 14) ?t2 = sockrecvudp kend m src dport sport w"
  proof -
    have a: "(of_nat (n + 28) - 20 :: u16) = of_nat (n + 8)" "(of_nat (n + 8) - 8 :: u16) = of_nat n" by simp_all
    have b: "get16 (e + 34 + 4) (m_buf x) = bswaps (of_nat (n + 8))" "get16 (e + 34 + 2) (m_buf x) = bswaps dport"
      "get32 (e + 14 + 12) (m_buf x) = bswapl src"
      by (simp_all only: ar F)
    obtain q w' where q': "on_mbuf m (mbuftrim (m_len x - 42 - ucast (of_nat n :: u16))) ?t3 = (q, w')"
      by (cases "on_mbuf m (mbuftrim (m_len x - 42 - ucast (of_nat n :: u16))) ?t3")
    have q: "on_mbuf m (mbuftrim (m_len x - 42 - ucast (of_nat n :: u16))) ?t3 = (q, w)"
      using p4 by (simp only: q' snd_conv)
    have c: "\<not> m_len x - 42 < ucast (of_nat n :: u16)" using nl by (simp add: not_less)
    show ?thesis
      unfolding net_rx_udp_def p3 prod.case option.case Let_def bufs a b F(7,9) bswaps_swap
      by (simp only: c simp_thms if_False q prod.case bufs b F(7,9) bswaps_swap bswapl_swap)
  qed
  have okw: "net_ok kend P w ps sos qs [m]" unfolding w_def by (rule net_ok_upd_mbuf [OF ok]) simp
  have sow: "find (\<lambda>x. same_key src dport sport (socks w x)) sos = Some so" using so by (simp add: w_def)
  have xw: "m_head (mbufs w m) = e + 42" "m_len (mbufs w m) = of_nat n" "pt w = pt t" by (simp_all add: w_def)
  from recvudp_queued [OF okw sow] obtain t' where t': "sockrecvudp kend m src dport sport w = (Inr (), t')"
    "net_ok kend P t' ps sos (qs(so := qs so @ [m])) []"
    "\<forall>x. m_head (mbufs t' x) = m_head (mbufs w x) \<and> m_len (mbufs t' x) = m_len (mbufs w x) \<and> m_buf (mbufs t' x) = m_buf (mbufs w x)"
    "pt t' = wakeup (rxq_chan so) (pt w)" by metis
  have c: "contents (mbufs t' m) = get_bytes (e + 42) n (m_buf x)"
    using t'(3) xw bufs(4) un(1) by (simp only: contents_def)
  show thesis
  proof (rule that [of t'])
    show "net_rx kend m t = (Inr (), t')" unfolding e1 e2 e3 by (rule t'(1))
    show "net_ok kend P t' ps sos (qs(so := qs so @ [m])) []" by (rule t'(2))
    show "contents (mbufs t' m) = get_bytes (m_head (mbufs t m) + 42) n (m_buf (mbufs t m))"
      using c by (simp only: e_def x_def)
    show "pt t' = wakeup (rxq_chan so) (pt t)" using t'(4) by (simp only: xw(3))
  qed
qed


section \<open>From socket to socket\<close>

lemma contents_nth: "i < unat (m_len b) \<Longrightarrow> contents b ! i = m_buf b (m_head b + int i)"
  by (simp add: contents_def get_bytes_def)

lemma length_contents [simp]: "length (contents b) = unat (m_len b)"
  by (simp add: contents_def)

text \<open>C24: a UDP packet that \<open>net_tx_udp\<close> sends to the machine's own address is accepted by every network
  stack of this program that receives its bytes, with any padding behind them: the buffer is
  queued, once, on the first socket whose remote address, local port and remote port match, its
  contents are exactly the payload that was sent, and no page of either side is lost.  (The packet has
  room for the headers and a descriptor of the transmit ring is free.)\<close>

theorem udp_roundtrip:
  assumes "net_ok kend P s ps sos qs [m]" and "42 \<le> m_head (mbufs s m)"
    and "m_len (mbufs s m) = of_nat n" and "n + 42 < 2 ^ 16"
    and "td_status (tx_ring s (unat (regs s E1000_TDT))) AND E1000_STAT_DD \<noteq> 0"
  shows "\<exists>s' ps'. net_tx_udp kend m local_ip sport dport s = (Inr (), s') \<and> net_ok kend P s' ps' sos qs [] \<and>
    tx_mbufs s' (unat (regs s E1000_TDT)) = m \<and>
    (\<forall>(t :: 'b netst_scheme) ks Q pt sot qt r so. net_ok ks Q t pt sot qt [r] \<longrightarrow>
       take (n + 42) (contents (mbufs t r)) = contents (mbufs s' m) \<longrightarrow>
       find (\<lambda>x. same_key local_ip dport sport (socks t x)) sot = Some so \<longrightarrow>
       (\<exists>t'. net_rx ks r t = (Inr (), t') \<and> net_ok ks Q t' pt sot (qt(so := qt so @ [r])) [] \<and>
          contents (mbufs t' r) = contents (mbufs s m)))"
proof -
  from tx_udp_sends [OF assms, of local_ip sport dport] obtain s' ps' where s':
    "net_tx_udp kend m local_ip sport dport s = (Inr (), s')" "net_ok kend P s' ps' sos qs []"
    "tx_mbufs s' (unat (regs s E1000_TDT)) = m" "m_head (mbufs s' m) = m_head (mbufs s m) - 42"
    "m_len (mbufs s' m) = of_nat (n + 42)"
    "udp_frame (m_buf (mbufs s' m)) (m_head (mbufs s' m)) n local_ip local_ip sport dport"
    "\<And>i. m_head (mbufs s m) \<le> i \<Longrightarrow> m_buf (mbufs s' m) i = m_buf (mbufs s m) i" by metis
  have un: "unat (of_nat n :: u32) = n" "unat (of_nat (n + 42) :: u32) = n + 42"
    using assms(4) by (simp_all add: unat_of_nat take_bit_nat_eq_self del: of_nat_add)
  have "\<exists>t'. net_rx ks r t = (Inr (), t') \<and> net_ok ks Q t' pt sot (qt(so := qt so @ [r])) [] \<and>
      contents (mbufs t' r) = contents (mbufs s m)"
    if t: "net_ok ks Q t pt sot qt [r]" and w: "take (n + 42) (contents (mbufs t r)) = contents (mbufs s' m)"
      and so: "find (\<lambda>x. same_key local_ip dport sport (socks t x)) sot = Some so"
    for t :: "'b netst_scheme" and ks Q pt sot qt r so
  proof -
    let ?b = "mbufs t r" and ?c = "mbufs s' m"
    have len: "n + 42 \<le> unat (m_len ?b)"
      using arg_cong [OF w, of length] s'(5) un(2) by simp
    have byte: "m_buf ?b (m_head ?b + int i) = m_buf ?c (m_head ?c + int i)" if "i < n + 42" for i
    proof -
      have "contents ?b ! i = contents ?c ! i" using arg_cong [OF w, of "\<lambda>xs. xs ! i"] that by simp
      then show ?thesis using that len s'(5) un(2) by (simp add: contents_nth)
    qed
    have fr: "udp_frame (m_buf ?b) (m_head ?b) n local_ip local_ip sport dport"
    proof (rule udp_frame_cong [OF s'(6)])
      fix i :: int assume "0 \<le> i" "i < 42"
      then show "m_buf ?b (m_head ?b + i) = m_buf ?c (m_head ?c + i)" using byte [of "nat i"] by simp
    qed
    from rx_udp_queues [OF t fr len assms(4) so] obtain t' where t': "net_rx ks r t = (Inr (), t')"
      "net_ok ks Q t' pt sot (qt(so := qt so @ [r])) []"
      "contents (mbufs t' r) = get_bytes (m_head ?b + 42) n (m_buf ?b)" by metis
    have "get_bytes (m_head ?b + 42) n (m_buf ?b) = get_bytes (m_head (mbufs s m)) n (m_buf (mbufs s m))"
    proof (rule nth_equalityI)
      fix i assume "i < length (get_bytes (m_head ?b + 42) n (m_buf ?b))"
      then have i: "i < n" by simp
      then have "m_buf ?b (m_head ?b + int (i + 42)) = m_buf (mbufs s m) (m_head (mbufs s m) + int i)"
        using byte [of "i + 42"] s'(4) s'(7) [of "m_head (mbufs s m) + int i"] by (simp add: algebra_simps)
      then show "get_bytes (m_head ?b + 42) n (m_buf ?b) ! i = get_bytes (m_head (mbufs s m)) n (m_buf (mbufs s m)) ! i"
        using i by (simp add: get_bytes_def algebra_simps)
    qed simp
    then have "contents (mbufs t' r) = contents (mbufs s m)" using t'(3) assms(3) un(1) by (simp add: contents_def)
    then show ?thesis using t' by blast
  qed
  then show ?thesis using s'(1-3) by (intro exI [of _ s'] exI [of _ ps'] conjI) blast+
qed

definition net1 :: netst where
  "net1 = upd_mbuf (pg 16) (\<lambda>b. b\<lparr>m_head := 42, m_len := 3, m_buf := \<lambda>i. if i = 44 then 7 else 9\<rparr>) (net0 one_page boot_procs)"

text \<open>The frame arrives in a buffer of length 60, as the card pads it.\<close>

definition net2 :: "netst \<Rightarrow> netst" where
  "net2 s = upd_mbuf (pg 16) (\<lambda>b. b\<lparr>m_len := 60,
     m_buf := \<lambda>i. if 0 \<le> i \<and> i < 45 then m_buf (mbufs s (pg 16)) (m_head (mbufs s (pg 16)) + i) else 0\<rparr>) (net0 one_page boot_procs)"

theorem udp_roundtrip_witness:
  "\<exists>s t. net_tx_udp 0x80021000 (pg 16) local_ip 1000 2000 net1 = (Inr (), s) \<and>
     net_rx 0x80021000 (pg 16) (net2 s) = (Inr (), t) \<and> contents (mbufs t (pg 16)) = [9, 9, 7]"
proof -
  have ok: "net_ok 0x80021000 (map pg ([16, 18, 17] @ [0..<16])) net1 [pg 18] [pg 17] (\<lambda>_. []) [pg 16]"
    unfolding net1_def by (rule net_ok_upd_mbuf [OF net0_ok(1)]) simp
  have a: "42 \<le> m_head (mbufs net1 (pg 16))" "m_len (mbufs net1 (pg 16)) = of_nat 3" "(3 :: nat) + 42 < 2 ^ 16"
    "td_status (tx_ring net1 (unat (regs net1 E1000_TDT))) AND E1000_STAT_DD \<noteq> 0"
    by (simp_all add: net1_def, simp_all add: net0_def zero_tx_def E1000_STAT_DD_def upd_mbuf_def)
  have p: "contents (mbufs net1 (pg 16)) = [9, 9, 7]"
    by (simp add: net1_def contents_def get_bytes_def) (simp add: numeral_eq_Suc)
  from udp_roundtrip [OF ok a, of 1000 2000, where ?'b = unit] obtain s' ps' where s':
    "net_tx_udp 0x80021000 (pg 16) local_ip 1000 2000 net1 = (Inr (), s')"
    "\<forall>(t :: netst) ks Q pt sot qt r so. net_ok ks Q t pt sot qt [r] \<longrightarrow>
       take (3 + 42) (contents (mbufs t r)) = contents (mbufs s' (pg 16)) \<longrightarrow>
       find (\<lambda>x. same_key local_ip 2000 1000 (socks t x)) sot = Some so \<longrightarrow>
       (\<exists>t'. net_rx ks r t = (Inr (), t') \<and> net_ok ks Q t' pt sot (qt(so := qt so @ [r])) [] \<and>
          contents (mbufs t' r) = contents (mbufs net1 (pg 16)))" by metis
  have l: "m_len (mbufs s' (pg 16)) = 45"
  proof (rule tx_udp_sends [OF ok a, of local_ip 1000 2000])
    fix u ps' assume "net_tx_udp 0x80021000 (pg 16) local_ip 1000 2000 net1 = (Inr (), u)"
      "m_len (mbufs u (pg 16)) = of_nat (3 + 42)"
    then show ?thesis using s'(1) by simp
  qed
  have ok2: "net_ok 0x80021000 (map pg ([16, 18, 17] @ [0..<16])) (net2 s') [pg 18] [pg 17] (\<lambda>_. []) [pg 16]"
    unfolding net2_def by (rule net_ok_upd_mbuf [OF net0_ok(1)]) simp
  have w: "take (3 + 42) (contents (mbufs (net2 s') (pg 16))) = contents (mbufs s' (pg 16))"
    by (rule nth_equalityI) (simp_all add: l contents_nth, simp_all add: net2_def contents_nth l net0_def net0_mbuf_def)
  have f: "find (\<lambda>x. same_key local_ip 2000 1000 (socks (net2 s') x)) [pg 17] = Some (pg 17)"
    by (simp add: net2_def same_key_def) (simp add: net0_def net0_sock_def)
  from s'(2) [rule_format, OF ok2 w f] p show ?thesis using s'(1) by auto
qed

end
