(* ===== verification/Xv7_Socket_Properties.thy ===== *)
theory Xv7_Socket_Properties
  imports Xv7_Udp
begin

text \<open>
  Closing sockets and writing to them: \<open>sockclose\<close> unlinks every socket except the first of
  several, and \<open>sockwrite\<close> passes the caller's length to \<open>mbufput\<close> unchecked.
\<close>

section \<open>Closing\<close>

definition key_of :: "sock \<Rightarrow> sock \<Rightarrow> bool" where
  "key_of x = same_key (so_raddr x) (so_lport x) (so_rport x)"

lemma unlink_none:
  assumes "fchain (\<lambda>x. so_next (socks s x)) p xs" and "length xs \<le> n" and "\<forall>x \<in> set (tl xs). \<not> key_of (socks s so) (socks s x)"
  shows "sock_unlink n so p s = (Inr (), s)"
  using assms
proof (induction xs arbitrary: n p)
  case Nil
  then show ?case by (cases n) simp_all
next
  case (Cons x xs)
  then obtain k where k: "n = Suc k" by (cases n) auto
  show ?case
  proof (cases xs)
    case Nil
    then show ?thesis using Cons.prems k by simp
  next
    case (Cons y ys)
    then have "\<not> key_of (socks s so) (socks s y)" "so_next (socks s x) = y" using Cons.prems by auto
    then show ?thesis
      using Cons.prems k Cons Cons.IH [of "so_next (socks s x)" k] by (auto simp: key_of_def Let_def)
  qed
qed

lemma unlink_end: "so_next (socks s p) = 0 \<Longrightarrow> sock_unlink n so p s = (Inr (), s)"
  by (cases n) simp_all

lemma unlink_found:
  assumes "fchain (\<lambda>x. so_next (socks s x)) p (as @ a # so # bs)" and "length (as @ a # so # bs) \<le> n"
    and "\<forall>x \<in> set (tl (as @ [a])). \<not> key_of (socks s so) (socks s x)"
  shows "sock_unlink n so p s = (Inr (), upd_sock a (\<lambda>y. y\<lparr>so_next := so_next (socks s so)\<rparr>) s)"
  using assms
proof (induction as arbitrary: n p)
  case Nil
  then obtain k where k: "n = Suc k" by (cases n) auto
  have "same_key (so_raddr (socks s so)) (so_lport (socks s so)) (so_rport (socks s so)) (socks s so)" by (simp add: same_key_def)
  then show ?case using Nil k by (auto simp: Let_def)
next
  case (Cons x xs)
  then obtain k where k: "n = Suc k" by (cases n) auto
  obtain y ys where y: "xs @ [a] = y # ys" by (cases "xs @ [a]") auto
  then have "xs @ a # so # bs = y # ys @ so # bs" by (metis append.assoc append_Cons append_Nil)
  then have "\<not> key_of (socks s so) (socks s y)" "so_next (socks s x) = y" "y \<noteq> 0" using Cons.prems y by (cases xs; auto)+
  moreover have "sock_unlink k so (so_next (socks s x)) s = (Inr (), upd_sock a (\<lambda>y. y\<lparr>so_next := so_next (socks s so)\<rparr>) s)"
    using Cons.prems k y by (intro Cons.IH) (auto)
  ultimately show ?case using Cons.prems k by (auto simp: key_of_def Let_def)
qed

lemma fchain_two: "fchain nx p (as @ a # b # bs) \<Longrightarrow> p \<noteq> 0 \<and> nx p \<noteq> 0"
  by (cases as; cases "tl as") auto

lemma fchain_skip:
  assumes "fchain nx p (as @ a # so # bs)" and "distinct (as @ a # so # bs)"
  shows "fchain (nx(a := nx so)) p (as @ a # bs)"
  using assms by (induction as arbitrary: p) auto

text \<open>What is left to do once the socket is unlinked: the page goes to the free list.\<close>

lemma close_frees:
  assumes ok: "net_ok kend P s ps (as @ so # bs) qs ms"
    and t: "km t = km s" "regs t = regs s" "tx_mbufs t = tx_mbufs s" "rx_mbufs t = rx_mbufs s" "mbufs t = mbufs s"
      "\<forall>x. so_rxq (socks t x) = so_rxq (socks s x)"
    and c: "fchain (\<lambda>x. so_next (socks t x)) (sockets t) (as @ bs)"
  shows "\<exists>u. page_free kend so t = (Inr (), u) \<and> net_ok kend P u (so # ps) (as @ bs) qs (qs so @ ms)"
proof -
  note d = net_ok_distinct [OF ok]
  have i: "kinv kend (km t) ps" using ok t by (simp add: net_ok_def)
  have "page_ok kend so" "so \<notin> set ps" using d by (auto simp: net_pages_def)
  from page_free_ok [OF i this] obtain k
    where k: "page_free kend so t = (Inr (), fill_views so 1 (freelist (km t)) (t\<lparr>km := k\<rparr>))" "kinv kend k (so # ps)" .
  let ?u = "fill_views so 1 (freelist (km t)) (t\<lparr>km := k\<rparr>)"
  have so: "so \<notin> set (as @ bs)" "\<And>x. x \<in> set (as @ bs) \<Longrightarrow> so \<notin> set (qs x)" using d(1) by (auto simp: net_pages_def)
  have "fchain (\<lambda>x. so_next (socks ?u x)) (sockets ?u) (as @ bs) = fchain (\<lambda>x. so_next (socks t x)) (sockets t) (as @ bs)"
    using so by (simp add: fill_views_def) (rule fchain_cong, auto)
  moreover have "queue_rep (so_rxq (socks ?u x)) ?u (qs x)" if "x \<in> set (as @ bs)" for x
  proof -
    have "queue_rep (so_rxq (socks s x)) s (qs x)" using ok that by (auto simp: net_ok_def)
    moreover have "so_rxq (socks ?u x) = so_rxq (socks s x)" using t(6) so(1) that by (auto)
    moreover have "queue_rep q ?u (qs x) = queue_rep q s (qs x)" for q
      using so(2) [OF that] t(5) by (intro queue_rep_cong) auto
    ultimately show ?thesis by simp
  qed
  moreover have "mset ((qs so @ ms) @ net_pages ?u (so # ps) (as @ bs) qs) = mset P"
  proof -
    have "tx_held ?u = tx_held s" "rx_held ?u = rx_held s" by (simp_all add: tx_held_def rx_held_def fill_views_def t)
    then show ?thesis using ok by (simp add: net_ok_def net_pages_def ac_simps)
  qed
  moreover have "unat (regs ?u E1000_TDT) < RING_SIZE" using ok by (simp add: net_ok_def fill_views_def t)
  ultimately have "net_ok kend P ?u (so # ps) (as @ bs) qs (qs so @ ms)"
    using ok k(2) c by (simp add: net_ok_def)
  then show ?thesis using k(1) by blast
qed

lemma net_ok_length:
  assumes "net_ok kend P s ps sos qs ms"
  shows "length sos \<le> NPAGES"
proof (rule pages_bounded)
  show "distinct sos" using net_ok_distinct(1) [OF assms] by (simp add: net_pages_def)
  show "\<forall>x \<in> set sos. page_ok kend x" using net_ok_distinct(3) [OF assms] by (simp add: net_pages_def)
  show "0x80000000 \<le> kend" using assms by (simp add: net_ok_def)
qed

text \<open>Two sockets: page 17, then page 18.\<close>

definition net3 :: netst where
  "net3 = (net0 one_page boot_procs)\<lparr>km := one_page\<lparr>freelist := 0, knext := \<lambda>_. 0, ref_count := \<lambda>_. 0\<rparr>,
     socks := (\<lambda>_. net0_sock)(pg 17 := net0_sock\<lparr>so_next := pg 18, so_lport := 3000\<rparr>)\<rparr>"

lemma net3_ok: "net_ok 0x80021000 (map pg ([17, 18] @ [0..<16])) net3 [] [pg 17, pg 18] (\<lambda>_. []) []"
proof -
  have tx: "tx_held net3 = []" by (simp add: tx_held_def net3_def net0_def)
  have rx: "rx_held net3 = map pg [0..<16]" by (simp add: rx_held_def net3_def net0_def RING_SIZE_def)
  have d: "distinct (map pg ([17, 18] @ [0..<16]))" by code_simp
  have p: "\<forall>x \<in> set (map pg ([17, 18] @ [0..<16])). page_ok 0x80021000 x" by code_simp
  have i: "kinv 0x80021000 (km net3) []" by (simp add: kinv_def net3_def)
  have s: "fchain (\<lambda>x. so_next (socks net3 x)) (sockets net3) [pg 17, pg 18]"
    by (simp add: net3_def net0_def net0_sock_def) (simp add: pg_def)
  have q: "\<forall>so \<in> set [pg 17, pg 18]. queue_rep (so_rxq (socks net3 so)) net3 []"
    by (simp add: queue_rep_def net3_def net0_def net0_sock_def)
  have t: "unat (regs net3 E1000_TDT) < RING_SIZE" by (simp add: net3_def net0_def RING_SIZE_def)
  show ?thesis unfolding net_ok_def using d p i s q t by (simp add: net_pages_def tx rx)
qed

lemma net3_keys: "\<not> key_of (socks net3 (pg 18)) (socks net3 (pg 17))" "\<not> key_of (socks net3 (pg 17)) (socks net3 (pg 18))"
proof -
  have "pg 18 \<noteq> pg 17" by (simp add: pg_def)
  then show "\<not> key_of (socks net3 (pg 18)) (socks net3 (pg 17))" "\<not> key_of (socks net3 (pg 17)) (socks net3 (pg 18))"
    by (simp_all add: key_of_def same_key_def net3_def net0_sock_def)
qed



text \<open>Closing the first of several sockets frees its page and leaves it on the list: the list of
  sockets then starts with the first page of the free list.\<close>

lemma sockclose_keeps_first:
  assumes ok: "net_ok kend P s ps (so # x # bs) qs []" and key: "\<forall>y \<in> set (x # bs). \<not> key_of (socks s so) (socks s y)"
  shows "\<exists>t. sockclose kend so s = (Inr (), t) \<and> sockets t = so \<and> freelist (km t) = so"
proof -
  let ?s = "upd_pt (wakeup (rxq_chan so)) s"
  have f: "fchain (\<lambda>x. so_next (socks s x)) (sockets s) (so # x # bs)" using ok by (simp add: net_ok_def)
  have len: "length (so # x # bs) \<le> NPAGES" by (rule net_ok_length [OF ok])
  have sk: "socks ?s = socks s" "sockets ?s = sockets s" "km ?s = km s" by (simp_all add: upd_pt_def)
  have h: "sockets s = so" "so \<noteq> 0" "so_next (socks s so) \<noteq> 0" using f by auto
  have u: "sock_unlink NPAGES so so ?s = (Inr (), ?s)"
    using unlink_none [of ?s so "so # x # bs" NPAGES so] f len key by (simp add: sk)
  have i: "kinv kend (km ?s) ps" "page_ok kend so" "so \<notin> set ps"
    using ok net_ok_distinct [OF ok] by (auto simp: net_ok_def net_pages_def sk)
  from page_free_ok [OF this] obtain k where
    k: "page_free kend so ?s = (Inr (), fill_views so 1 (freelist (km ?s)) (?s\<lparr>km := k\<rparr>))" "kinv kend k (so # ps)" .
  have "freelist k = so" using k(2) by (simp add: kinv_def)
  then show ?thesis
    using k(1) u h by (simp add: sockclose_def sk Let_def) (simp add: fill_views_def upd_pt_def)
qed


section \<open>Writing\<close>

text \<open>\<open>sockwrite\<close> does not check the length its caller gives: for a negative length, or one above
  \<open>MBUF_SIZE\<close>, the kernel panics in \<open>mbufput\<close>; and when no page is left it goes on with the null
  pointer that \<open>mbufalloc\<close> returned.\<close>

lemma sockwrite_length_stops_kernel:
  assumes "kinv kend (km s) ps"
  shows "(ps = [] \<longrightarrow> fst (sockwrite kend p so addr n s) = Inl (Wild ''sockwrite: mbufput(0)'')) \<and>
    (ps \<noteq> [] \<and> (- (2 ^ 31) \<le> n \<and> n < 0 \<or> 2048 < n \<and> n < 2 ^ 31) \<longrightarrow>
      fst (sockwrite kend p so addr n s) = Inl (Panic ''mbufput''))"
proof (rule conjI)
  have h: "\<not> MBUF_SIZE < (14 + 20 + 8 :: u32)" by (simp add: MBUF_SIZE_def)
  show "ps = [] \<longrightarrow> fst (sockwrite kend p so addr n s) = Inl (Wild ''sockwrite: mbufput(0)'')"
    using assms page_alloc_none [of kend s] h by (auto simp: sockwrite_def mbufalloc_def)
  show "ps \<noteq> [] \<and> (- (2 ^ 31) \<le> n \<and> n < 0 \<or> 2048 < n \<and> n < 2 ^ 31) \<longrightarrow>
      fst (sockwrite kend p so addr n s) = Inl (Panic ''mbufput'')"
  proof
    assume n: "ps \<noteq> [] \<and> (- (2 ^ 31) \<le> n \<and> n < 0 \<or> 2048 < n \<and> n < 2 ^ 31)"
    then obtain m ms where ps: "ps = m # ms" by (cases ps) auto
    have m0: "m \<noteq> 0" using assms ps page_ok_not_0 by (auto simp: kinv_def)
    from page_alloc_ok [OF assms [unfolded ps]] obtain k where
      k: "page_alloc kend s = (m, fill_views m 5 (bytes64 5) (s\<lparr>km := k\<rparr>))" by metis
    have l: "MBUF_SIZE < word_of_int n"
    proof (cases "n < 0")
      case True
      then have "uint (word_of_int n :: u32) = n + 2 ^ 32"
        using n by (simp add: uint_word_of_int take_bit_eq_mod) (subst mod_add_self2 [symmetric], subst mod_pos_pos_trivial, auto)
      then show ?thesis using n True by (auto simp: word_less_def MBUF_SIZE_def)
    next
      case False
      then have "uint (word_of_int n :: u32) = n" using n by (simp add: uint_word_of_int take_bit_eq_mod)
      then show ?thesis using n False by (simp add: word_less_def MBUF_SIZE_def)
    qed
    obtain t where t: "mbufalloc kend (14 + 20 + 8) s = (m, t)" "m_len (mbufs t m) = 0"
      using m0 h by (simp add: mbufalloc_def k Let_def)
    then show "fst (sockwrite kend p so addr n s) = Inl (Panic ''mbufput'')"
      using m0 l by (simp add: sockwrite_def on_mbuf_def mbufput_def Let_def)
  qed
qed

end
