(* ===== verification/Xv7_Sysfile.thy ===== *)
theory Xv7_Sysfile
  imports Xv7_Exec
begin

text \<open>
  The system calls of \<open>xv7/kernel/sysfile.c\<close>: descriptors, links, directories, opening files,
  pipes and \<open>exec\<close>.  A result is the value the call returns, -1 for an error.  \<open>p\<close> is the calling
  process.
\<close>

section \<open>Descriptors\<close>

text \<open>The loop of \<open>argfd\<close> and its error return.\<close>

definition with_fd :: "nat \<Rightarrow> (nat \<Rightarrow> nat \<Rightarrow> 'a kernel_scheme \<Rightarrow> (kfault, int, 'a kernel_scheme) outcome) \<Rightarrow> 'a kernel_scheme \<Rightarrow>
    (kfault, int, 'a kernel_scheme) outcome" where
  "with_fd p m s = bindS (argfd p 0 s) (\<lambda>r s. case r of None \<Rightarrow> (Inr (-1), s) | Some (fd, f) \<Rightarrow> m fd f s)"

definition sys_connect :: "u64 \<Rightarrow> nat \<Rightarrow> 'a kernel_scheme \<Rightarrow> (kfault, int, 'a kernel_scheme) outcome" where
  "sys_connect kend p s =
     bindS (argint p 0 s) (\<lambda>raddr s.
     bindS (argint p 1 s) (\<lambda>lport s.
     bindS (argint p 2 s) (\<lambda>rport s.
     bindS (sockalloc kend p (word_of_int raddr) (word_of_int lport) (word_of_int rport) s) (\<lambda>r s.
       case r of
         None \<Rightarrow> (Inr (-1), s)
       | Some f \<Rightarrow>
           (case fdalloc p f s of
              (None, s) \<Rightarrow> bindS (fileclose kend p f s) (\<lambda>_ s. (Inr (-1), s))
            | (Some fd, s) \<Rightarrow> (Inr (int fd), s))))))"

definition sys_dup :: "nat \<Rightarrow> 'a kernel_scheme \<Rightarrow> (kfault, int, 'a kernel_scheme) outcome" where
  "sys_dup p s = with_fd p (\<lambda>_ f s.
     case fdalloc p f s of
       (None, s) \<Rightarrow> (Inr (-1), s)
     | (Some fd, s) \<Rightarrow> bindS (filedup f s) (\<lambda>_ s. (Inr (int fd), s))) s"

definition sys_read :: "u64 \<Rightarrow> nat \<Rightarrow> 'a kernel_scheme \<Rightarrow> (kfault, int, 'a kernel_scheme) outcome" where
  "sys_read kend p s = with_fd p (\<lambda>_ f s.
     bindS (argint p 2 s) (\<lambda>n s. bindS (argaddr p 1 s) (\<lambda>addr s. fileread kend p f addr n s))) s"

definition sys_write :: "u64 \<Rightarrow> nat \<Rightarrow> 'a kernel_scheme \<Rightarrow> (kfault, int, 'a kernel_scheme) outcome" where
  "sys_write kend p s = with_fd p (\<lambda>_ f s.
     bindS (argint p 2 s) (\<lambda>n s. bindS (argaddr p 1 s) (\<lambda>addr s. filewrite kend p f addr n s))) s"

definition sys_close :: "u64 \<Rightarrow> nat \<Rightarrow> 'a kernel_scheme \<Rightarrow> (kfault, int, 'a kernel_scheme) outcome" where
  "sys_close kend p s = with_fd p (\<lambda>fd f s.
     let s = set_fd p fd None s in bindS (fileclose kend p f s) (\<lambda>_ s. (Inr 0, s))) s"

definition sys_fstat :: "u64 \<Rightarrow> nat \<Rightarrow> u8 list \<Rightarrow> 'a kernel_scheme \<Rightarrow> (kfault, int, 'a kernel_scheme) outcome" where
  "sys_fstat kend p pad s = with_fd p (\<lambda>_ f s.
     bindS (argaddr p 1 s) (\<lambda>st s. filestat kend p pad f st s)) s"

section \<open>Links\<close>

definition T_FILE :: u16 where "T_FILE = 2"
definition T_DEVICE :: u16 where "T_DEVICE = 3"

definition upd_ino :: "nat \<Rightarrow> (inode \<Rightarrow> inode) \<Rightarrow> 'a kernel_scheme \<Rightarrow> 'a kernel_scheme" where
  "upd_ino ip f s = s\<lparr>fsx := upd_inode ip f (fsx s)\<rparr>"

abbreviation ino :: "nat \<Rightarrow> 'a kernel_scheme \<Rightarrow> inode" where
  "ino ip s \<equiv> icache (fsx s) ip"

definition k_nameiparent :: "nat \<Rightarrow> u8 list \<Rightarrow> 'a kernel_scheme \<Rightarrow> (kfault, (nat \<times> u8 list) option, 'a kernel_scheme) outcome" where
  "k_nameiparent p path s = with_cwd p path (\<lambda>d. nameiparent (my_pid p s) d path) s"

text \<open>\<open>end_op(ROOTDEV)\<close> and the value returned.\<close>

definition end_with :: "nat \<Rightarrow> 'b \<Rightarrow> 'a kernel_scheme \<Rightarrow> (kfault, 'b, 'a kernel_scheme) outcome" where
  "end_with p r s = bindS (in_fs (end_op (my_pid p s) ROOTDEV) s) (\<lambda>_ s. (Inr r, s))"

definition put_and_end :: "nat \<Rightarrow> nat \<Rightarrow> 'b \<Rightarrow> 'a kernel_scheme \<Rightarrow> (kfault, 'b, 'a kernel_scheme) outcome" where
  "put_and_end p ip r s = bindS (in_fs (iunlockput (my_pid p s) ip) s) (\<lambda>_ s. end_with p r s)"

text \<open>The label \<open>bad\<close> of \<open>sys_link\<close>.\<close>

definition link_bad :: "nat \<Rightarrow> nat \<Rightarrow> 'a kernel_scheme \<Rightarrow> (kfault, int, 'a kernel_scheme) outcome" where
  "link_bad p ip s =
     bindS (in_fs (ilock (my_pid p s) ip) s) (\<lambda>_ s.
     bindS (in_fs (iupdate (my_pid p s) ip) (upd_ino ip (\<lambda>x. x\<lparr>i_nlink := i_nlink x - 1\<rparr>) s)) (\<lambda>_ s.
       put_and_end p ip (-1) s))"

definition link_paths :: "nat \<Rightarrow> u8 list \<Rightarrow> u8 list \<Rightarrow> 'a kernel_scheme \<Rightarrow> (kfault, int, 'a kernel_scheme) outcome" where
  "link_paths p old new s =
     bindS (in_fs (begin_op ROOTDEV) s) (\<lambda>_ s.
     bindS (k_namei p old s) (\<lambda>r s.
       case r of
         None \<Rightarrow> end_with p (-1) s
       | Some ip \<Rightarrow>
           bindS (in_fs (ilock (my_pid p s) ip) s) (\<lambda>_ s.
             if i_type (ino ip s) = T_DIR then put_and_end p ip (-1) s
             else
               bindS (in_fs (iupdate (my_pid p s) ip) (upd_ino ip (\<lambda>x. x\<lparr>i_nlink := i_nlink x + 1\<rparr>) s)) (\<lambda>_ s.
               bindS (in_fs (iunlock (my_pid p s) ip) s) (\<lambda>_ s.
               bindS (k_nameiparent p new s) (\<lambda>r s.
                 case r of
                   None \<Rightarrow> link_bad p ip s
                 | Some (dp, nm) \<Rightarrow>
                     bindS (in_fs (ilock (my_pid p s) dp) s) (\<lambda>_ s.
                     bindS (if i_dev (ino dp s) \<noteq> i_dev (ino ip s) then (Inr (-1), s)
                            else in_fs (dirlink (my_pid p s) dp nm (i_inum (ino ip s))) s) (\<lambda>r s.
                       if r < 0 then
                         bindS (in_fs (iunlockput (my_pid p s) dp) s) (\<lambda>_ s. link_bad p ip s)
                       else
                         bindS (in_fs (iunlockput (my_pid p s) dp) s) (\<lambda>_ s.
                         bindS (in_fs (iput (my_pid p s) ip) s) (\<lambda>_ s. end_with p 0 s))))))))))"

definition sys_link :: "u64 \<Rightarrow> nat \<Rightarrow> 'a kernel_scheme \<Rightarrow> (kfault, int, 'a kernel_scheme) outcome" where
  "sys_link kend p s =
     bindS (argstr kend p 0 MAXPATH s) (\<lambda>old s.
       case old of
         None \<Rightarrow> (Inr (-1), s)
       | Some old \<Rightarrow>
           bindS (argstr kend p 1 MAXPATH s) (\<lambda>new s.
             case new of None \<Rightarrow> (Inr (-1), s) | Some new \<Rightarrow> link_paths p old new s))"

function isdirempty_loop :: "int \<Rightarrow> nat \<Rightarrow> nat \<Rightarrow> nat \<Rightarrow> 'a fs_scheme \<Rightarrow> (kfault, bool, 'a fs_scheme) outcome" where
  "isdirempty_loop me dp off n s =
     (if \<not> off < n then (Inr True, s)
      else
        bindS (readi me dp kernel_copy 0 (of_nat off) 16 s) (\<lambda>(r, bs) s.
          if r \<noteq> 16 then (Inl (Panic ''isdirempty: readi''), s)
          else if d_inum (decode_dirent bs) \<noteq> 0 then (Inr False, s)
          else isdirempty_loop me dp (off + 16) n s))"
  by pat_completeness auto
termination
  by (relation "measure (\<lambda>(me, dp, off, n, s). n - off)") auto

declare isdirempty_loop.simps [simp del]

definition isdirempty :: "int \<Rightarrow> nat \<Rightarrow> 'a fs_scheme \<Rightarrow> (kfault, bool, 'a fs_scheme) outcome" where
  "isdirempty me dp s = isdirempty_loop me dp 32 (unat (i_size (icache s dp))) s"

definition dot :: "u8 list" where "dot = [46]"
definition dotdot :: "u8 list" where "dotdot = [46, 46]"

text \<open>\<open>sys_unlink\<close> once the entry is known not to be in use: \<open>off\<close> is its offset in \<open>dp\<close>.\<close>

definition unlink_entry :: "nat \<Rightarrow> nat \<Rightarrow> nat \<Rightarrow> nat \<Rightarrow> 'a kernel_scheme \<Rightarrow> (kfault, int, 'a kernel_scheme) outcome" where
  "unlink_entry p dp ip off s =
     bindS (in_fs (writei (my_pid p s) dp kernel_copy (\<lambda>_. 0) 0 (of_nat off) 16) s) (\<lambda>r s.
       if r \<noteq> 16 then (Inl (Panic ''unlink: writei''), s)
       else
         bindS (if i_type (ino ip s) = T_DIR
                then in_fs (iupdate (my_pid p s) dp) (upd_ino dp (\<lambda>x. x\<lparr>i_nlink := i_nlink x - 1\<rparr>) s)
                else (Inr (), s)) (\<lambda>_ s.
         bindS (in_fs (iunlockput (my_pid p s) dp) s) (\<lambda>_ s.
         bindS (in_fs (iupdate (my_pid p s) ip) (upd_ino ip (\<lambda>x. x\<lparr>i_nlink := i_nlink x - 1\<rparr>) s)) (\<lambda>_ s.
           put_and_end p ip 0 s))))"

definition unlink_path :: "nat \<Rightarrow> u8 list \<Rightarrow> 'a kernel_scheme \<Rightarrow> (kfault, int, 'a kernel_scheme) outcome" where
  "unlink_path p path s =
     bindS (in_fs (begin_op ROOTDEV) s) (\<lambda>_ s.
     bindS (k_nameiparent p path s) (\<lambda>r s.
       case r of
         None \<Rightarrow> end_with p (-1) s
       | Some (dp, nm) \<Rightarrow>
           bindS (in_fs (ilock (my_pid p s) dp) s) (\<lambda>_ s.
             if namecmp nm dot = 0 \<or> namecmp nm dotdot = 0 then put_and_end p dp (-1) s
             else
               bindS (in_fs (dirlookup (my_pid p s) dp nm) s) (\<lambda>r s.
                 case r of
                   None \<Rightarrow> put_and_end p dp (-1) s
                 | Some (ip, off) \<Rightarrow>
                     bindS (in_fs (ilock (my_pid p s) ip) s) (\<lambda>_ s.
                       if sint (i_nlink (ino ip s)) < 1 then (Inl (Panic ''unlink: nlink < 1''), s)
                       else
                         bindS (if i_type (ino ip s) = T_DIR then in_fs (isdirempty (my_pid p s) ip) s else (Inr True, s))
                           (\<lambda>empty s.
                              if \<not> empty then
                                bindS (in_fs (iunlockput (my_pid p s) ip) s) (\<lambda>_ s. put_and_end p dp (-1) s)
                              else unlink_entry p dp ip off s))))))"

definition sys_unlink :: "u64 \<Rightarrow> nat \<Rightarrow> 'a kernel_scheme \<Rightarrow> (kfault, int, 'a kernel_scheme) outcome" where
  "sys_unlink kend p s =
     bindS (argstr kend p 0 MAXPATH s) (\<lambda>path s.
       case path of None \<Rightarrow> (Inr (-1), s) | Some path \<Rightarrow> unlink_path p path s)"

section \<open>Creating and opening files\<close>

definition create_new :: "nat \<Rightarrow> nat \<Rightarrow> u8 list \<Rightarrow> u16 \<Rightarrow> u16 \<Rightarrow> u16 \<Rightarrow> 'a kernel_scheme \<Rightarrow> (kfault, nat option, 'a kernel_scheme) outcome" where
  "create_new p dp nm ty mj mn s =
     bindS (in_fs (ialloc (my_pid p s) (i_dev (ino dp s)) ty) s) (\<lambda>ip s.
     bindS (in_fs (ilock (my_pid p s) ip) s) (\<lambda>_ s.
     bindS (in_fs (iupdate (my_pid p s) ip) (upd_ino ip (\<lambda>x. x\<lparr>i_major := mj, i_minor := mn, i_nlink := 1\<rparr>) s)) (\<lambda>_ s.
     bindS
       (if ty = T_DIR then
          bindS (in_fs (iupdate (my_pid p s) dp) (upd_ino dp (\<lambda>x. x\<lparr>i_nlink := i_nlink x + 1\<rparr>) s)) (\<lambda>_ s.
          bindS (in_fs (dirlink (my_pid p s) ip dot (i_inum (ino ip s))) s) (\<lambda>r s.
            if r < 0 then (Inl (Panic ''create dots''), s)
            else bindS (in_fs (dirlink (my_pid p s) ip dotdot (i_inum (ino dp s))) s) (\<lambda>r s.
              if r < 0 then (Inl (Panic ''create dots''), s) else (Inr (), s))))
        else (Inr (), s)) (\<lambda>_ s.
     bindS (in_fs (dirlink (my_pid p s) dp nm (i_inum (ino ip s))) s) (\<lambda>r s.
       if r < 0 then (Inl (Panic ''create: dirlink''), s)
       else bindS (in_fs (iunlockput (my_pid p s) dp) s) (\<lambda>_ s. (Inr (Some ip), s)))))))"

definition create :: "nat \<Rightarrow> u8 list \<Rightarrow> u16 \<Rightarrow> u16 \<Rightarrow> u16 \<Rightarrow> 'a kernel_scheme \<Rightarrow> (kfault, nat option, 'a kernel_scheme) outcome" where
  "create p path ty mj mn s =
     bindS (k_nameiparent p path s) (\<lambda>r s.
       case r of
         None \<Rightarrow> (Inr None, s)
       | Some (dp, nm) \<Rightarrow>
           bindS (in_fs (ilock (my_pid p s) dp) s) (\<lambda>_ s.
           bindS (in_fs (dirlookup (my_pid p s) dp nm) s) (\<lambda>r s.
             case r of
               Some (ip, _) \<Rightarrow>
                 bindS (in_fs (iunlockput (my_pid p s) dp) s) (\<lambda>_ s.
                 bindS (in_fs (ilock (my_pid p s) ip) s) (\<lambda>_ s.
                   if ty = T_FILE \<and> (i_type (ino ip s) = T_FILE \<or> i_type (ino ip s) = T_DEVICE) then (Inr (Some ip), s)
                   else bindS (in_fs (iunlockput (my_pid p s) ip) s) (\<lambda>_ s. (Inr None, s))))
             | None \<Rightarrow> create_new p dp nm ty mj mn s)))"

definition O_RDONLY :: int where "O_RDONLY = 0"
definition O_WRONLY :: u32 where "O_WRONLY = 1"
definition O_RDWR :: u32 where "O_RDWR = 2"
definition O_CREATE :: u32 where "O_CREATE = 0x200"

text \<open>\<open>sys_open\<close> from the check of the device number on; the inode \<open>ip\<close> is locked.\<close>

definition open_inode :: "u64 \<Rightarrow> nat \<Rightarrow> nat \<Rightarrow> int \<Rightarrow> 'a kernel_scheme \<Rightarrow> (kfault, int, 'a kernel_scheme) outcome" where
  "open_inode kend p ip omode s =
     (let mode = (word_of_int omode :: u32); mj = sint (i_major (ino ip s)) in
      if i_type (ino ip s) = T_DEVICE \<and> (mj < 0 \<or> NDEV \<le> mj) then put_and_end p ip (-1) s
      else case filealloc s of
        (None, s) \<Rightarrow> put_and_end p ip (-1) s
      | (Some f, s) \<Rightarrow>
          (case fdalloc p f s of
             (None, s) \<Rightarrow> bindS (fileclose kend p f s) (\<lambda>_ s. put_and_end p ip (-1) s)
           | (Some fd, s) \<Rightarrow>
               let s = (if i_type (ino ip s) = T_DEVICE
                        then upd_file f (\<lambda>x. x\<lparr>f_type := FD_DEVICE, f_major := mj, f_minor := sint (i_minor (ino ip s))\<rparr>) s
                        else upd_file f (\<lambda>x. x\<lparr>f_type := FD_INODE\<rparr>) s);
                   s = upd_file f (\<lambda>x. x\<lparr>f_ip := ip, f_off := 0, f_readable := (mode AND O_WRONLY = 0),
                         f_writable := (mode AND O_WRONLY \<noteq> 0 \<or> mode AND O_RDWR \<noteq> 0)\<rparr>) s
               in bindS (in_fs (iunlock (my_pid p s) ip) s) (\<lambda>_ s. end_with p (int fd) s)))"

definition open_path :: "u64 \<Rightarrow> nat \<Rightarrow> u8 list \<Rightarrow> int \<Rightarrow> 'a kernel_scheme \<Rightarrow> (kfault, int, 'a kernel_scheme) outcome" where
  "open_path kend p path omode s =
     bindS (in_fs (begin_op ROOTDEV) s) (\<lambda>_ s.
       if (word_of_int omode :: u32) AND O_CREATE \<noteq> 0 then
         bindS (create p path T_FILE 0 0 s) (\<lambda>r s.
           case r of None \<Rightarrow> end_with p (-1) s | Some ip \<Rightarrow> open_inode kend p ip omode s)
       else
         bindS (k_namei p path s) (\<lambda>r s.
           case r of
             None \<Rightarrow> end_with p (-1) s
           | Some ip \<Rightarrow>
               bindS (in_fs (ilock (my_pid p s) ip) s) (\<lambda>_ s.
                 if i_type (ino ip s) = T_DIR \<and> omode \<noteq> O_RDONLY then put_and_end p ip (-1) s
                 else open_inode kend p ip omode s)))"

definition sys_open :: "u64 \<Rightarrow> nat \<Rightarrow> 'a kernel_scheme \<Rightarrow> (kfault, int, 'a kernel_scheme) outcome" where
  "sys_open kend p s =
     bindS (argstr kend p 0 MAXPATH s) (\<lambda>path s.
       case path of
         None \<Rightarrow> (Inr (-1), s)
       | Some path \<Rightarrow> bindS (argint p 1 s) (\<lambda>omode s. open_path kend p path omode s))"

text \<open>\<open>sys_mkdir\<close> and \<open>sys_mknod\<close> once the path is known, \<open>None\<close> when it could not be fetched.\<close>

definition make_node :: "nat \<Rightarrow> u8 list option \<Rightarrow> u16 \<Rightarrow> u16 \<Rightarrow> u16 \<Rightarrow> 'a kernel_scheme \<Rightarrow> (kfault, int, 'a kernel_scheme) outcome" where
  "make_node p path ty mj mn s =
     (case path of
        None \<Rightarrow> end_with p (-1) s
      | Some path \<Rightarrow>
          bindS (create p path ty mj mn s) (\<lambda>r s.
            case r of None \<Rightarrow> end_with p (-1) s | Some ip \<Rightarrow> put_and_end p ip 0 s))"

definition sys_mkdir :: "u64 \<Rightarrow> nat \<Rightarrow> 'a kernel_scheme \<Rightarrow> (kfault, int, 'a kernel_scheme) outcome" where
  "sys_mkdir kend p s =
     bindS (in_fs (begin_op ROOTDEV) s) (\<lambda>_ s.
     bindS (argstr kend p 0 MAXPATH s) (\<lambda>path s. make_node p path T_DIR 0 0 s))"

definition sys_mknod :: "u64 \<Rightarrow> nat \<Rightarrow> 'a kernel_scheme \<Rightarrow> (kfault, int, 'a kernel_scheme) outcome" where
  "sys_mknod kend p s =
     bindS (in_fs (begin_op ROOTDEV) s) (\<lambda>_ s.
     bindS (argstr kend p 0 MAXPATH s) (\<lambda>path s.
     bindS (argint p 1 s) (\<lambda>mj s.
     bindS (argint p 2 s) (\<lambda>mn s.
       make_node p path T_DEVICE (word_of_int mj) (word_of_int mn) s))))"

definition sys_chdir :: "u64 \<Rightarrow> nat \<Rightarrow> 'a kernel_scheme \<Rightarrow> (kfault, int, 'a kernel_scheme) outcome" where
  "sys_chdir kend p s =
     bindS (in_fs (begin_op ROOTDEV) s) (\<lambda>_ s.
     bindS (argstr kend p 0 MAXPATH s) (\<lambda>path s.
     bindS (case path of None \<Rightarrow> (Inr None, s) | Some path \<Rightarrow> k_namei p path s) (\<lambda>r s.
       case r of
         None \<Rightarrow> end_with p (-1) s
       | Some ip \<Rightarrow>
           bindS (in_fs (ilock (my_pid p s) ip) s) (\<lambda>_ s.
             if i_type (ino ip s) \<noteq> T_DIR then put_and_end p ip (-1) s
             else
               bindS (in_fs (iunlock (my_pid p s) ip) s) (\<lambda>_ s.
               bindS (case pcwd (procs (pt s) p) of
                        None \<Rightarrow> (Inl (Wild ''iput: cwd''), s)
                      | Some d \<Rightarrow> in_fs (iput (my_pid p s) d) s) (\<lambda>_ s.
               bindS (in_fs (end_op (my_pid p s) ROOTDEV) s) (\<lambda>_ s.
                 (Inr 0, upd_me p (\<lambda>x. x\<lparr>pcwd := Some ip\<rparr>) s))))))))"

section \<open>exec\<close>

text \<open>
  The loop that fetches the arguments: each gets a page.  It returns the pages with the strings
  they hold, and whether it found the end; the last page may hold a string that was cut off.
\<close>

fun fetch_args :: "u64 \<Rightarrow> nat \<Rightarrow> u64 \<Rightarrow> nat \<Rightarrow> (u64 \<times> u8 list) list \<Rightarrow> 'a kst_scheme \<Rightarrow>
    (kfault, bool \<times> (u64 \<times> u8 list) list, 'a kst_scheme) outcome" where
  "fetch_args kend p uargv 0 acc s = (Inr (False, acc), s)"
| "fetch_args kend p uargv (Suc n) acc s =
     (case fetchaddr kend p uargv s of
        None \<Rightarrow> (Inr (False, acc), s)
      | Some uarg \<Rightarrow>
          if uarg = 0 then (Inr (True, acc), s)
          else case page_alloc kend s of (r, s) \<Rightarrow>
            if r = 0 then (Inl (Panic ''sys_exec kalloc''), s)
            else case fetchstr kend p uarg 4096 s of
                   None \<Rightarrow> (Inr (False, acc @ [(r, [])]), s)
                 | Some str \<Rightarrow> fetch_args kend p (uargv + 8) n (acc @ [(r, str)]) s)"

fun free_args :: "u64 \<Rightarrow> (u64 \<times> u8 list) list \<Rightarrow> 'a kst_scheme \<Rightarrow> (kfault, unit, 'a kst_scheme) outcome" where
  "free_args kend [] s = (Inr (), s)"
| "free_args kend (a # as) s = bindS (page_free kend (fst a) s) (\<lambda>_ s. free_args kend as s)"

definition sys_exec :: "u64 \<Rightarrow> u64 \<Rightarrow> nat \<Rightarrow> 'a kernel_scheme \<Rightarrow> (kfault, int, 'a kernel_scheme) outcome" where
  "sys_exec kend tramp p s =
     bindS (argstr kend p 0 MAXPATH s) (\<lambda>path s.
       case path of
         None \<Rightarrow> (Inr (-1), s)
       | Some path \<Rightarrow>
           bindS (argaddr p 1 s) (\<lambda>uargv s.
           bindS (fetch_args kend p uargv MAXARG [] s) (\<lambda>(ok, argv) s.
           bindS (if ok then exec kend tramp p path (map snd argv) s else (Inr (-1), s)) (\<lambda>r s.
           bindS (free_args kend argv s) (\<lambda>_ s. (Inr r, s))))))"

section \<open>Pipes\<close>

definition sys_pipe :: "u64 \<Rightarrow> nat \<Rightarrow> 'a kernel_scheme \<Rightarrow> (kfault, int, 'a kernel_scheme) outcome" where
  "sys_pipe kend p s =
     (let close2 = (\<lambda>fr fw s. bindS (fileclose kend p fr s) (\<lambda>_ s. bindS (fileclose kend p fw s) (\<lambda>_ s. (Inr (-1), s))))
      in bindS (argaddr p 0 s) (\<lambda>fdarray s.
         bindS (pipealloc kend p s) (\<lambda>r s.
           case r of
             None \<Rightarrow> (Inr (-1), s)
           | Some (fr, fw) \<Rightarrow>
               (case fdalloc p fr s of
                  (None, s) \<Rightarrow> close2 fr fw s
                | (Some fd0, s) \<Rightarrow>
                    (case fdalloc p fw s of
                       (None, s) \<Rightarrow> close2 fr fw (set_fd p fd0 None s)
                     | (Some fd1, s) \<Rightarrow>
                         (case copyout kend (my_pagetable p s) fdarray (le_list 4 (of_nat fd0 :: u32)) (km s) of
                            (r0, k) \<Rightarrow>
                              (case (if r0 < 0 then (-1, k)
                                     else copyout kend (my_pagetable p s) (fdarray + 4) (le_list 4 (of_nat fd1 :: u32)) k) of
                                 (r1, k) \<Rightarrow>
                                   let s = s\<lparr>km := k\<rparr>
                                   in if r1 < 0 then close2 fr fw (set_fd p fd1 None (set_fd p fd0 None s))
                                      else (Inr 0, s))))))))"

end
