(* ===== verification/Xv7_Printf.thy ===== *)
theory Xv7_Printf
  imports Xv7_Console
begin

text \<open>
  Formatted output of \<open>xv7/kernel/printf.c\<close>: what \<open>printf\<close> sends to the console, as the list of
  its bytes.  The arguments are a list; taking an argument that is not there, or is of
  another type, is undefined.
\<close>

section \<open>printf.c\<close>

definition digits :: "nat \<Rightarrow> u8" where
  "digits d = [48, 49, 50, 51, 52, 53, 54, 55, 56, 57, 97, 98, 99, 100, 101, 102] ! d"

text \<open>\<open>do { buf[i++] = digits[x % base]; } while((x /= base) != 0);\<close> lowest digit first.\<close>

function print_digits :: "nat \<Rightarrow> nat \<Rightarrow> u8 list" where
  "print_digits base x =
     (if base \<le> 1 \<or> x div base = 0 then [digits (x mod base)] else digits (x mod base) # print_digits base (x div base))"
  by pat_completeness auto
termination
  by (relation "measure snd") (auto simp: div_greater_zero_iff)

declare print_digits.simps [simp del]

definition printint :: "int \<Rightarrow> nat \<Rightarrow> bool \<Rightarrow> u8 list" where
  "printint xx base sgnd =
     (let neg = (sgnd \<and> xx < 0);
          x = (if neg then word_of_int (- xx) else word_of_int xx :: u32);
          buf = print_digits base (unat x);
          buf = (if neg then buf @ [45] else buf)
      in rev buf)"

fun printptr_loop :: "nat \<Rightarrow> u64 \<Rightarrow> u8 list" where
  "printptr_loop 0 x = []"
| "printptr_loop (Suc i) x = digits (unat (drop_bit 60 x)) # printptr_loop i (push_bit 4 x)"

definition printptr :: "u64 \<Rightarrow> u8 list" where
  "printptr x = 48 # 120 # printptr_loop 16 x"

datatype parg = PInt int | PPtr u64 | PStr "u8 list option"

fun printf :: "u8 list \<Rightarrow> parg list \<Rightarrow> kfault + u8 list" where
  "printf [] args = Inr []"
| "printf [c] args = (if c \<noteq> 37 then Inr [c] else Inr [])"
| "printf (c # d # cs) args =
     (if c \<noteq> 37 then bindE (printf (d # cs) args) (\<lambda>out. Inr (c # out))
      else if d = 100 then
        (case args of PInt x # as \<Rightarrow> bindE (printf cs as) (\<lambda>out. Inr (printint x 10 True @ out)) | _ \<Rightarrow> Inl (Wild ''va_arg''))
      else if d = 120 then
        (case args of PInt x # as \<Rightarrow> bindE (printf cs as) (\<lambda>out. Inr (printint x 16 True @ out)) | _ \<Rightarrow> Inl (Wild ''va_arg''))
      else if d = 112 then
        (case args of PPtr x # as \<Rightarrow> bindE (printf cs as) (\<lambda>out. Inr (printptr x @ out)) | _ \<Rightarrow> Inl (Wild ''va_arg''))
      else if d = 115 then
        (case args of
           PStr p # as \<Rightarrow> bindE (printf cs as) (\<lambda>out. Inr ((case p of None \<Rightarrow> [40, 110, 117, 108, 108, 41] | Some s \<Rightarrow> s) @ out))
         | _ \<Rightarrow> Inl (Wild ''va_arg''))
      else if d = 37 then bindE (printf cs args) (\<lambda>out. Inr (37 # out))
      else bindE (printf cs args) (\<lambda>out. Inr (37 # d # out)))"

section \<open>Reading the digits back\<close>

definition digit_value :: "u8 \<Rightarrow> nat" where
  "digit_value c = (if c < 58 then unat c - 48 else unat c - 87)"

fun read_digits :: "nat \<Rightarrow> u8 list \<Rightarrow> nat" where
  "read_digits base [] = 0"
| "read_digits base (c # cs) = digit_value c + base * read_digits base cs"

lemma digit_value_digits: "d < 16 \<Longrightarrow> digit_value (digits d) = d"
  by (auto simp: numeral_eq_Suc less_Suc_eq) (simp_all add: digits_def digit_value_def)

lemma digits_not_minus: "d < 16 \<Longrightarrow> digits d \<noteq> 45"
  by (auto simp: numeral_eq_Suc less_Suc_eq) (simp_all add: digits_def)

lemma read_print_digits:
  assumes "2 \<le> base" and "base \<le> 16"
  shows "read_digits base (print_digits base x) = x \<and> 45 \<notin> set (print_digits base x)"
proof (induction x rule: less_induct)
  case (less x)
  have m: "x mod base < 16" using assms mod_less_divisor [of base x] by linarith
  show ?case
  proof (cases "x div base = 0")
    case True
    then have "x mod base = x" using div_mult_mod_eq [of x base] by simp
    then show ?thesis
      using True m digit_value_digits [OF m] digits_not_minus [OF m] by (subst (1 2) print_digits.simps) simp
  next
    case False
    then have "x div base < x" using assms by (cases "x = 0") auto
    from less.IH [OF this] show ?thesis
      using False m assms digit_value_digits [OF m] digits_not_minus [OF m] by (subst (1 2) print_digits.simps) simp
  qed
qed

lemma print_digits_length:
  assumes "2 \<le> base" and "x < base ^ n" and "0 < n"
  shows "length (print_digits base x) \<le> n"
  using assms(2,3)
proof (induction n arbitrary: x)
  case (Suc n)
  show ?case
  proof (cases "x div base = 0")
    case True
    then show ?thesis by (subst print_digits.simps) simp
  next
    case False
    have "x div base < base ^ n" using Suc.prems(1) assms(1) by (simp add: less_mult_imp_div_less mult.commute)
    moreover have "0 < n" using False calculation by (cases n) auto
    ultimately have "length (print_digits base (x div base)) \<le> n" by (rule Suc.IH)
    then show ?thesis by (subst print_digits.simps) simp
  qed
qed simp

text \<open>The value of what \<open>printint\<close> prints.\<close>

definition read_int :: "nat \<Rightarrow> u8 list \<Rightarrow> int" where
  "read_int base cs = (if cs \<noteq> [] \<and> hd cs = 45 then - int (read_digits base (rev (tl cs))) else int (read_digits base (rev cs)))"

text \<open>\<open>printint\<close> prints every 32-bit integer, the smallest included, as a numeral that reads back as the
  same integer, in decimal and in hexadecimal; and what it writes fits its buffer of 16 bytes.\<close>

lemma printint_reads_back:
  assumes "- (2 ^ 31) \<le> x" and "x < 2 ^ 31" and "base = 10 \<or> base = 16"
  shows "read_int base (printint x base True) = x \<and> length (printint x base True) \<le> 16"
proof -
  define n where "n = nat \<bar>x\<bar>"
  have n: "n \<le> 2 ^ 31" using assms(1,2) by (simp add: n_def)
  have u: "unat (if x < 0 then word_of_int (- x) else word_of_int x :: u32) = n"
  proof -
    have w: "unat (word_of_int k :: u32) = nat k" if "0 \<le> k" "k < 2 ^ 32" for k
      using that by (simp add: unat_eq_nat_uint uint_word_of_int take_bit_eq_mod)
    show ?thesis
    proof (cases "x < 0")
      case True
      then show ?thesis using w [of "- x"] assms(1) by (simp add: n_def)
    next
      case False
      then show ?thesis using w [of x] assms(2) by (simp add: n_def)
    qed
  qed
  have p: "printint x base True = rev (if x < 0 then print_digits base n @ [45] else print_digits base n)"
    by (simp only: printint_def Let_def simp_thms u)
  have b: "2 \<le> base" "base \<le> 16" using assms(3) by auto
  note r = read_print_digits [OF b, of n]
  have "(2 :: nat) ^ 31 < 10 ^ 10" by simp
  moreover have "(10 :: nat) ^ 10 \<le> base ^ 10" using assms(3) by (intro power_mono) auto
  ultimately have "n < base ^ 10" using n by linarith
  then have l: "length (print_digits base n) \<le> 10" by (rule print_digits_length [OF b(1)]) simp
  have h: "hd (rev (print_digits base n)) \<noteq> 45" if "print_digits base n \<noteq> []"
    using r that hd_in_set [of "rev (print_digits base n)"] by auto
  have "read_int base (printint x base True) = x"
  proof (cases "x < 0")
    case True
    then show ?thesis using r by (simp add: p read_int_def n_def)
  next
    case False
    then show ?thesis using r h by (auto simp: p read_int_def n_def)
  qed
  moreover have "length (printint x base True) \<le> 16" using l by (simp add: p)
  ultimately show ?thesis by blast
qed

end
