(* ===== verification/Xv7_Trap.thy ===== *)
theory Xv7_Trap
  imports Xv7_Sysfile Xv7_Printf
begin

text \<open>
  System calls and traps: \<open>sysproc.c\<close>, the dispatch of \<open>syscall.c\<close>, and \<open>trap.c\<close> of
  \<open>xv7/kernel\<close>.  The state \<open>trapst\<close> adds the locks and the control registers of the CPU that takes
  the trap.  What a device delivers is an argument: \<open>irq\<close>, the interrupt that the PLIC gives, and
  \<open>chars\<close>, the characters waiting in the UART.  A disk transfer is complete when it is started
  (\<open>Xv7_Bio\<close>), so its interrupt changes nothing.  The addresses of the trampoline and of
  functions are linker symbols.
\<close>

section \<open>State\<close>

record symbols =
  y_end :: u64
  y_trampoline :: u64
  y_uservec :: u64
  y_userret :: u64
  y_usertrap :: u64
  y_kernelvec :: u64

record trapst = kernel +
  sync :: ksync
  sstatus :: u64
  sepc :: u64
  scause :: u64
  stval :: u64
  stvec :: u64
  satp :: u64
  sip :: u64

definition SSTATUS_SPP :: u64 where "SSTATUS_SPP = 0x100"
definition SSTATUS_SPIE :: u64 where "SSTATUS_SPIE = 0x20"
definition SSTATUS_SIE :: u64 where "SSTATUS_SIE = 2"

definition intr_on :: "'a trapst_scheme \<Rightarrow> 'a trapst_scheme" where
  "intr_on s = s\<lparr>sstatus := sstatus s OR SSTATUS_SIE\<rparr>"

definition intr_off :: "'a trapst_scheme \<Rightarrow> 'a trapst_scheme" where
  "intr_off s = s\<lparr>sstatus := sstatus s AND NOT SSTATUS_SIE\<rparr>"

definition intr_get :: "'a trapst_scheme \<Rightarrow> bool" where
  "intr_get s \<longleftrightarrow> sstatus s AND SSTATUS_SIE \<noteq> 0"

definition MAKE_SATP :: "u64 \<Rightarrow> u64" where
  "MAKE_SATP pgt = push_bit 60 8 OR drop_bit 12 pgt"

text \<open>Channels that are addresses of kernel variables; no page has them.\<close>

definition ticks_chan :: chan where "ticks_chan = ObjChan 1"
definition cons_chan :: chan where "cons_chan = ObjChan 2"

section \<open>sysproc.c\<close>

definition sys_sbrk :: "u64 \<Rightarrow> nat \<Rightarrow> 'a kst_scheme \<Rightarrow> (kfault, int, 'a kst_scheme) outcome" where
  "sys_sbrk kend p s =
     bindS (argint p 0 s) (\<lambda>n s.
       let addr = sint (ucast (psz (procs (pt s) p)) :: u32)
       in bindS (growproc kend p n s) (\<lambda>r s. if r < 0 then (Inr (-1), s) else (Inr addr, s)))"

text \<open>The loop of \<open>sys_sleep\<close>, which a process enters again when it is woken; the comparison is unsigned.\<close>

definition sleep_until :: "nat \<Rightarrow> nat \<Rightarrow> int \<Rightarrow> u32 \<Rightarrow> 'a kernel_scheme \<Rightarrow> (kfault, int, 'a kernel_scheme) outcome" where
  "sleep_until c p n ticks0 s =
     (if ticks s - ticks0 < word_of_int n then
        if killed (procs (pt s) p) then (Inr (-1), s)
        else (Inl (Asleep ''sleep''), upd_pt (sleep c p ticks_chan) s)
      else (Inr 0, s))"

definition sys_sleep :: "nat \<Rightarrow> nat \<Rightarrow> 'a kernel_scheme \<Rightarrow> (kfault, int, 'a kernel_scheme) outcome" where
  "sys_sleep c p s = bindS (argint p 0 s) (\<lambda>n s. sleep_until c p n (ticks s) s)"

definition sys_kill :: "nat \<Rightarrow> 'a kst_scheme \<Rightarrow> (kfault, int, 'a kst_scheme) outcome" where
  "sys_kill p s = bindS (argint p 0 s) (\<lambda>n s. case kill n (pt s) of (r, t) \<Rightarrow> (Inr r, s\<lparr>pt := t\<rparr>))"

definition sys_wait :: "u64 \<Rightarrow> nat \<Rightarrow> nat \<Rightarrow> 'a kst_scheme \<Rightarrow> (kfault, int, 'a kst_scheme) outcome" where
  "sys_wait kend c p s = bindS (argaddr p 0 s) (\<lambda>addr s. wait kend c p addr s)"

definition sys_exit :: "u64 \<Rightarrow> nat \<Rightarrow> nat \<Rightarrow> 'a kernel_scheme \<Rightarrow> (kfault, unit, 'a kernel_scheme) outcome" where
  "sys_exit kend c p s = bindS (argint p 0 s) (\<lambda>n s. exit kend c p n s)"

section \<open>syscall.c\<close>

definition returns_int :: "(kfault, int, 's) outcome \<Rightarrow> (kfault, u64 option, 's) outcome" where
  "returns_int m = bindS m (\<lambda>r s. (Inr (Some (word_of_int r)), s))"

definition returns_word :: "(kfault, u64, 's) outcome \<Rightarrow> (kfault, u64 option, 's) outcome" where
  "returns_word m = bindS m (\<lambda>r s. (Inr (Some r), s))"

text \<open>
  The table of system calls.  \<open>None\<close> as the result: the call does not return.  \<open>pad\<close> is what the
  kernel stack holds in the padding of a \<open>struct stat\<close>.
\<close>

definition call_ntas :: "nat \<Rightarrow> 'a trapst_scheme \<Rightarrow> (kfault, u64, 'a trapst_scheme) outcome" where
  "call_ntas p s =
     bindS (argint p 0 s) (\<lambda>z s.
       case sys_ntas (Some (word_of_int z)) (sync s) of
         (Inl e, k) \<Rightarrow> (Inl e, s\<lparr>sync := k\<rparr>)
       | (Inr (r, _), k) \<Rightarrow> (Inr (scast r), s\<lparr>sync := k\<rparr>))"

definition syscalls :: "symbols \<Rightarrow> u8 list \<Rightarrow> nat \<Rightarrow> nat \<Rightarrow> int \<Rightarrow>
    ('a trapst_scheme \<Rightarrow> (kfault, u64 option, 'a trapst_scheme) outcome) option" where
  "syscalls y pad c p num =
     (let kend = y_end y in
      if num = 1 then Some (\<lambda>s. returns_int (fork kend (y_trampoline y) p s))
      else if num = 2 then Some (\<lambda>s. bindS (sys_exit kend c p s) (\<lambda>_ s. (Inr None, s)))
      else if num = 3 then Some (\<lambda>s. returns_int (sys_wait kend c p s))
      else if num = 4 then Some (\<lambda>s. returns_int (sys_pipe kend p s))
      else if num = 5 then Some (\<lambda>s. returns_int (sys_read kend p s))
      else if num = 6 then Some (\<lambda>s. returns_int (sys_kill p s))
      else if num = 7 then Some (\<lambda>s. returns_int (sys_exec kend (y_trampoline y) p s))
      else if num = 8 then Some (\<lambda>s. returns_int (sys_fstat kend p pad s))
      else if num = 9 then Some (\<lambda>s. returns_int (sys_chdir kend p s))
      else if num = 10 then Some (\<lambda>s. returns_int (sys_dup p s))
      else if num = 11 then Some (\<lambda>s. (Inr (Some (word_of_int (my_pid p s))), s))
      else if num = 12 then Some (\<lambda>s. returns_int (sys_sbrk kend p s))
      else if num = 13 then Some (\<lambda>s. returns_int (sys_sleep c p s))
      else if num = 14 then Some (\<lambda>s. (Inr (Some (ucast (ticks s))), s))
      else if num = 15 then Some (\<lambda>s. returns_int (sys_open kend p s))
      else if num = 16 then Some (\<lambda>s. returns_int (sys_write kend p s))
      else if num = 17 then Some (\<lambda>s. returns_int (sys_mknod kend p s))
      else if num = 18 then Some (\<lambda>s. returns_int (sys_unlink kend p s))
      else if num = 19 then Some (\<lambda>s. returns_int (sys_link kend p s))
      else if num = 20 then Some (\<lambda>s. returns_int (sys_mkdir kend p s))
      else if num = 21 then Some (\<lambda>s. returns_int (sys_close kend p s))
      else if num = 22 then Some (\<lambda>s. returns_int (sys_connect kend p s))
      else if num = 23 then Some (\<lambda>s. returns_word (call_ntas p s))
      else if num = 24 then Some (\<lambda>s. returns_word (sys_mmap p s))
      else if num = 25 then Some (\<lambda>s. returns_word (sys_munmap kend p s))
      else None)"

text \<open>Whether the call returns; its result is then in the trap frame.  Messages are left out.\<close>

definition syscall :: "symbols \<Rightarrow> u8 list \<Rightarrow> nat \<Rightarrow> nat \<Rightarrow> 'a trapst_scheme \<Rightarrow> (kfault, bool, 'a trapst_scheme) outcome" where
  "syscall y pad c p s =
     (let num = sint (ucast (tf_get p TF_A7 s) :: u32)
      in case syscalls y pad c p num of
           None \<Rightarrow> (Inr True, tf_set p TF_A0 (-1) s)
         | Some f \<Rightarrow> bindS (f s) (\<lambda>r s.
             case r of None \<Rightarrow> (Inr False, s) | Some v \<Rightarrow> (Inr True, tf_set p TF_A0 v s)))"

section \<open>trap.c: interrupts\<close>

definition ascii :: "string \<Rightarrow> u8 list" where "ascii = map of_char"

fun state_name :: "procstate \<Rightarrow> string" where
  "state_name UNUSED = ''unused''"
| "state_name SLEEPING = ''sleep ''"
| "state_name RUNNABLE = ''runble''"
| "state_name RUNNING = ''run   ''"
| "state_name ZOMBIE = ''zombie''"

text \<open>The output of \<open>procdump\<close>.\<close>

definition procdump :: "ptable \<Rightarrow> u8 list" where
  "procdump t = [10] @ concat (map (\<lambda>p.
     printint (pid (procs t p)) 10 True @ [32] @ ascii (state_name (pstate (procs t p))) @ [32] @
     takeWhile (\<lambda>b. b \<noteq> 0) (pname (procs t p)) @ [10])
     (filter (\<lambda>p. pstate (procs t p) \<noteq> UNUSED) [0..<NPROC]))"

definition console_char :: "int \<Rightarrow> 'a kernel_scheme \<Rightarrow> 'a kernel_scheme" where
  "console_char ch s =
     (case consoleintr (procdump (pt s)) ch (conx s) of (wake, x) \<Rightarrow>
        let s = s\<lparr>conx := x\<rparr> in if wake then upd_pt (wakeup cons_chan) s else s)"

definition uartintr :: "int list \<Rightarrow> 'a kernel_scheme \<Rightarrow> 'a kernel_scheme" where
  "uartintr chars s = fold console_char chars s"

definition clockintr :: "'a kernel_scheme \<Rightarrow> 'a kernel_scheme" where
  "clockintr s = (let s = s\<lparr>ticks := ticks s + 1\<rparr> in upd_pt (wakeup ticks_chan) s)"

definition UART0_IRQ :: int where "UART0_IRQ = 10"
definition VIRTIO0_IRQ :: int where "VIRTIO0_IRQ = 1"
definition VIRTIO1_IRQ :: int where "VIRTIO1_IRQ = 2"
definition E1000_IRQ :: int where "E1000_IRQ = 33"

text \<open>
  The receive ring has 16 descriptors, so 17 turns of \<open>e1000_recv\<close> are enough
  (\<open>e1000_recv_ends\<close> in \<open>Xv7_Net_Accounts\<close>).
\<close>

definition e1000_intr :: "u64 \<Rightarrow> 'a netst_scheme \<Rightarrow> (kfault, unit, 'a netst_scheme) outcome" where
  "e1000_intr kend s = (case e1000_recv 17 kend s of None \<Rightarrow> (Inl (Wild ''e1000_recv''), s) | Some r \<Rightarrow> r)"

definition devintr :: "u64 \<Rightarrow> nat \<Rightarrow> int \<Rightarrow> int list \<Rightarrow> 'a trapst_scheme \<Rightarrow> (kfault, int, 'a trapst_scheme) outcome" where
  "devintr kend c irq chars s =
     (if scause s AND 0x8000000000000000 \<noteq> 0 \<and> scause s AND 0xff = 9 then
        if irq = UART0_IRQ then (Inr 1, uartintr chars s)
        else if irq = VIRTIO0_IRQ \<or> irq = VIRTIO1_IRQ then (Inr 1, s)
        else if irq = E1000_IRQ then bindS (e1000_intr kend s) (\<lambda>_ s. (Inr 1, s))
        else (Inr 1, s)
      else if scause s = 0x8000000000000001 then
        let s = (if c = 0 then clockintr s else s)
        in (Inr 2, s\<lparr>sip := sip s AND NOT 2\<rparr>)
      else (Inr 0, s))"

definition intr_desc :: "string list" where
  "intr_desc = [
     ''user software interrupt'', ''supervisor software interrupt'', ''<reserved for future standard use>'',
     ''<reserved for future standard use>'', ''user timer interrupt'', ''supervisor timer interrupt'',
     ''<reserved for future standard use>'', ''<reserved for future standard use>'', ''user external interrupt'',
     ''supervisor external interrupt'', ''<reserved for future standard use>'', ''<reserved for future standard use>'',
     ''<reserved for future standard use>'', ''<reserved for future standard use>'', ''<reserved for future standard use>'',
     ''<reserved for future standard use>'']"

definition nointr_desc :: "string list" where
  "nointr_desc = [
     ''instruction address misaligned'', ''instruction access fault'', ''illegal instruction'', ''breakpoint'',
     ''load address misaligned'', ''load access fault'', ''store/AMO address misaligned'', ''store/AMO access fault'',
     ''environment call from U-mode'', ''environment call from S-mode'', ''<reserved for future standard use>'',
     ''<reserved for future standard use>'', ''instruction page fault'', ''load page fault'',
     ''<reserved for future standard use>'', ''store/AMO page fault'']"

definition scause_desc :: "u64 \<Rightarrow> string" where
  "scause_desc cause =
     (let code = unat (cause AND NOT 0x8000000000000000)
      in if cause AND 0x8000000000000000 \<noteq> 0 then
           if code < length intr_desc then intr_desc ! code else ''<reserved for platform use>''
         else if code < length nointr_desc then nointr_desc ! code
         else if code \<le> 23 then ''<reserved for future standard use>''
         else if code \<le> 31 then ''<reserved for custom use>''
         else if code \<le> 47 then ''<reserved for future standard use>''
         else if code \<le> 63 then ''<reserved for custom use>''
         else ''<reserved for future standard use>'')"

section \<open>trap.c: traps\<close>

text \<open>The jump at the end of \<open>usertrapret\<close>: the function and its two arguments.\<close>

definition usertrapret :: "symbols \<Rightarrow> nat \<Rightarrow> nat \<Rightarrow> 'a trapst_scheme \<Rightarrow> (u64 \<times> u64 \<times> u64) \<times> 'a trapst_scheme" where
  "usertrapret y c p s =
     (let s = intr_off s;
          s = s\<lparr>stvec := TRAMPOLINE + (y_uservec y - y_trampoline y)\<rparr>;
          s = tf_set p 0 (satp s) s;
          s = tf_set p 8 (kstack (procs (pt s) p) + PGSIZE) s;
          s = tf_set p 16 (y_usertrap y) s;
          s = tf_set p 32 (of_nat c) s;
          s = s\<lparr>sstatus := (sstatus s AND NOT SSTATUS_SPP) OR SSTATUS_SPIE\<rparr>;
          s = s\<lparr>sepc := tf_get p TF_EPC s\<rparr>
      in ((TRAMPOLINE + (y_userret y - y_trampoline y), TRAPFRAME, MAKE_SATP (my_pagetable p s)), s))"

text \<open>
  How \<open>usertrap\<close> ends: back in user space, in the scheduler after \<open>yield\<close>, from where the process
  goes on with \<open>usertrapret\<close>, or without the process.
\<close>

datatype trap_end = ToUser "u64 \<times> u64 \<times> u64" | Yielded | Exited

definition trap_finish :: "symbols \<Rightarrow> nat \<Rightarrow> nat \<Rightarrow> int \<Rightarrow> 'a trapst_scheme \<Rightarrow> (kfault, trap_end, 'a trapst_scheme) outcome" where
  "trap_finish y c p which_dev s =
     (if killed (procs (pt s) p) then bindS (exit (y_end y) c p (-1) s) (\<lambda>_ s. (Inr Exited, s))
      else if which_dev = 2 then (Inr Yielded, upd_pt (yield c p) s)
      else case usertrapret y c p s of (fn, s) \<Rightarrow> (Inr (ToUser fn), s))"

definition usertrap :: "symbols \<Rightarrow> u8 list \<Rightarrow> nat \<Rightarrow> nat \<Rightarrow> int \<Rightarrow> int list \<Rightarrow> 'a trapst_scheme \<Rightarrow>
    (kfault, trap_end, 'a trapst_scheme) outcome" where
  "usertrap y pad c p irq chars s =
     (if sstatus s AND SSTATUS_SPP \<noteq> 0 then (Inl (Panic ''usertrap: not from user mode''), s)
      else
        let s = s\<lparr>stvec := y_kernelvec y\<rparr>;
            s = tf_set p TF_EPC (sepc s) s
        in if scause s = 8 then
             if killed (procs (pt s) p) then bindS (exit (y_end y) c p (-1) s) (\<lambda>_ s. (Inr Exited, s))
             else
               let s = tf_set p TF_EPC (tf_get p TF_EPC s + 4) s;
                   s = intr_on s
               in bindS (syscall y pad c p s) (\<lambda>returned s.
                    if returned then trap_finish y c p 0 s else (Inr Exited, s))
           else
             bindS (devintr (y_end y) c irq chars s) (\<lambda>which_dev s.
               if which_dev \<noteq> 0 then trap_finish y c p which_dev s
               else
                 bindS (if scause s = 13 \<or> scause s = 15 then page_fault (y_end y) p (stval s) s
                        else (Inr (), kill_me p s)) (\<lambda>_ s. trap_finish y c p 0 s)))"

text \<open>\<open>cur\<close> is the process of the CPU.\<close>

definition kerneltrap :: "symbols \<Rightarrow> nat \<Rightarrow> nat option \<Rightarrow> int \<Rightarrow> int list \<Rightarrow> 'a trapst_scheme \<Rightarrow> (kfault, unit, 'a trapst_scheme) outcome" where
  "kerneltrap y c cur irq chars s =
     (let epc = sepc s; status = sstatus s
      in if status AND SSTATUS_SPP = 0 then (Inl (Panic ''kerneltrap: not from supervisor mode''), s)
         else if intr_get s then (Inl (Panic ''kerneltrap: interrupts enabled''), s)
         else
           bindS (devintr (y_end y) c irq chars s) (\<lambda>which_dev s.
             if which_dev = 0 then (Inl (Panic ''kerneltrap''), s)
             else
               let s = (case cur of
                          None \<Rightarrow> s
                        | Some p \<Rightarrow> if which_dev = 2 \<and> pstate (procs (pt s) p) = RUNNING then upd_pt (yield c p) s else s);
                   s = s\<lparr>sepc := epc\<rparr>;
                   s = s\<lparr>sstatus := status\<rparr>
               in (Inr (), s)))"

end
