(* ===== verification/Xv7_Files.thy ===== *)
theory Xv7_Files
  imports Xv7_Trap "HOL-Library.Multiset"
begin

text \<open>
  Who holds a file.  The count in an entry of the file table is the number of descriptors and
  mappings that refer to it; every system call keeps that, except \<open>fork\<close> and \<open>exit\<close> of a process
  with mappings, which forget them.  \<open>X\<close> is the multiset of the files that a call in progress holds.
\<close>

section \<open>Operations that leave the counts alone\<close>

definition dead :: "proc \<Rightarrow> bool" where
  "dead x \<longleftrightarrow> pstate x = UNUSED \<or> pstate x = ZOMBIE"

definition map_refs :: "(nat \<Rightarrow> map_info) \<Rightarrow> nat \<Rightarrow> bool \<times> nat" where
  "map_refs m i = (m_used (m i), m_file (m i))"

lemma dead_simps [simp]:
  "dead (x\<lparr>ptf := a\<rparr>) = dead x" "dead (x\<lparr>pagetable := a\<rparr>) = dead x" "dead (x\<lparr>psz := b\<rparr>) = dead x"
  "dead (x\<lparr>ofile := d\<rparr>) = dead x" "dead (x\<lparr>minfo := e\<rparr>) = dead x" "dead (x\<lparr>pcwd := g\<rparr>) = dead x"
  "dead (x\<lparr>parent := h\<rparr>) = dead x" "dead (x\<lparr>pname := nm\<rparr>) = dead x" "dead (x\<lparr>killed := k\<rparr>) = dead x"
  "dead (x\<lparr>xstate := i\<rparr>) = dead x" "dead (x\<lparr>pchan := ch\<rparr>) = dead x" "dead (x\<lparr>pid := n\<rparr>) = dead x"
  by (simp_all add: dead_def)

definition same_refs :: "'a kernel_scheme \<Rightarrow> 'a kernel_scheme \<Rightarrow> bool" where
  "same_refs s t \<longleftrightarrow> (\<forall>f. f_ref (ftable t f) = f_ref (ftable s f)) \<and>
     (\<forall>q. ofile (procs (pt t) q) = ofile (procs (pt s) q) \<and> map_refs (minfo (procs (pt t) q)) = map_refs (minfo (procs (pt s) q)) \<and>
        dead (procs (pt t) q) = dead (procs (pt s) q))"

lemma same_refs_refl [simp]: "same_refs s s" by (simp add: same_refs_def)

lemma same_refs_trans: "same_refs s t \<Longrightarrow> same_refs t u \<Longrightarrow> same_refs s u" by (simp add: same_refs_def)

definition keeps :: "'a kernel_scheme \<Rightarrow> ('e, 'b, 'a kernel_scheme) outcome \<Rightarrow> bool" where
  "keeps s r \<longleftrightarrow> same_refs s (snd r)"

named_theorems keep

lemma keeps_pair [simp]: "keeps s (r, t) = same_refs s t" by (simp add: keeps_def)

lemma keeps_from: "same_refs s t \<Longrightarrow> keeps t r \<Longrightarrow> keeps s r"
  by (auto simp: keeps_def intro: same_refs_trans)

lemma keeps_bind [keep]:
  assumes "keeps s m" and "\<And>x t. same_refs s t \<Longrightarrow> keeps s (f x t)"
  shows "keeps s (bindS m f)"
  using assms by (cases m; cases "fst m") (auto simp: bindS_def)

lemma same_refs_upd [keep]:
  assumes "same_refs s t"
  shows "same_refs s (t\<lparr>km := k\<rparr>)" "same_refs s (t\<lparr>fsx := x\<rparr>)" "same_refs s (t\<lparr>conx := y\<rparr>)" "same_refs s (t\<lparr>ticks := i\<rparr>)"
    "same_refs s (t\<lparr>sockets := so\<rparr>)"
    "same_refs s (upd_mbuf m g1 t)" "same_refs s (upd_sock so g2 t)" "same_refs s (upd_pipe pi g3 t)"
    "same_refs s (upd_km g4 t)" "same_refs s (tf_set p off v t)" "same_refs s (fill_views pa b nx t)" "same_refs s (upd_ino ip g5 t)"
    "same_refs s (set_tx_mbuf j m' t)" "same_refs s (upd_tx j g6 t)" "same_refs s (set_reg r w t)" "same_refs s (edit_buf m g7 t)"
  using assms
  by (simp_all add: same_refs_def upd_mbuf_def upd_sock_def upd_pipe_def upd_km_def tf_set_def fill_views_def upd_ino_def
      set_tx_mbuf_def upd_tx_def set_reg_def edit_buf_def)

lemma same_refs_pt:
  assumes "same_refs s t" and "\<And>q. ofile (procs (g (pt t)) q) = ofile (procs (pt t) q) \<and> map_refs (minfo (procs (g (pt t)) q)) = map_refs (minfo (procs (pt t) q)) \<and>
      dead (procs (g (pt t)) q) = dead (procs (pt t) q)"
  shows "same_refs s (upd_pt g t)"
  using assms by (simp add: same_refs_def upd_pt_def)

lemma wakeup_refs [keep]: "same_refs s t \<Longrightarrow> same_refs s (upd_pt (wakeup ch) t)"
  by (rule same_refs_pt) (auto simp: wakeup_eq dead_def)

lemma upd_me_refs [keep]:
  assumes "same_refs s t" and "\<And>x. ofile (g x) = ofile x \<and> map_refs (minfo (g x)) = map_refs (minfo x) \<and> dead (g x) = dead x"
  shows "same_refs s (upd_me p g t)"
  unfolding upd_me_def by (rule same_refs_pt [OF assms(1)]) (simp add: assms(2))

lemma upd_file_refs [keep]:
  assumes "same_refs s t" and "\<And>x. f_ref (g x) = f_ref x"
  shows "same_refs s (upd_file f g t)"
  using assms by (simp add: same_refs_def upd_file_def)

lemma in_fs_keeps [keep]: "same_refs s t \<Longrightarrow> keeps s (in_fs m t)"
  by (cases "m (fsx t)") (simp add: in_fs_def keep)

lemma in_km_keeps [keep]: "same_refs s t \<Longrightarrow> keeps s (in_km m t)"
  by (cases m) (simp add: in_km_def keep)

lemma page_free_keeps [keep]: "same_refs s t \<Longrightarrow> keeps s (page_free kend pa t)"
  unfolding page_free_def by (auto intro!: keep)

lemma page_alloc_refs: "page_alloc kend t = (r, u) \<Longrightarrow> same_refs s t \<Longrightarrow> same_refs s u"
  by (auto simp: page_alloc_def intro!: keep split: prod.splits if_splits)

lemma sock_unlink_keeps [keep]: "same_refs s t \<Longrightarrow> keeps s (sock_unlink n so p t)"
proof (induction n arbitrary: p)
  case (Suc n)
  then show ?case by (simp add: Let_def keep)
qed (simp add: keep)

lemma sockclose_keeps [keep]: "same_refs s t \<Longrightarrow> keeps s (sockclose kend so t)"
  unfolding sockclose_def Let_def by (auto intro!: keep)

lemma pipeclose_keeps [keep]: "same_refs s t \<Longrightarrow> keeps s (file_pipeclose kend pi w t)"
  unfolding file_pipeclose_def Let_def by (auto intro!: keep split: prod.splits)

section \<open>Reading and writing\<close>

lemma mbuffree_keeps [keep]: "same_refs s t \<Longrightarrow> keeps s (mbuffree kend m t)"
  by (simp add: mbuffree_def keep)

lemma on_mbuf_keeps [keep]: "same_refs s t \<Longrightarrow> keeps s (on_mbuf m g t)"
  by (auto simp: on_mbuf_def intro!: keep split: prod.splits)

lemma mbufalloc_refs: "mbufalloc kend h t = (r, u) \<Longrightarrow> same_refs s t \<Longrightarrow> same_refs s u"
  by (auto simp: mbufalloc_def Let_def intro!: keep dest: page_alloc_refs split: prod.splits if_splits)

lemma transmit_keeps [keep]: "same_refs s t \<Longrightarrow> keeps s (e1000_transmit kend m t)"
  unfolding e1000_transmit_def Let_def by (auto intro!: keep)

lemma net_tx_keeps [keep]:
  "same_refs s t \<Longrightarrow> keeps s (net_tx_eth kend m ty t)"
  "same_refs s t \<Longrightarrow> keeps s (net_tx_ip kend m proto dip t)"
  "same_refs s t \<Longrightarrow> keeps s (net_tx_udp kend m dip sport dport t)"
  unfolding net_tx_udp_def net_tx_ip_def net_tx_eth_def by (auto intro!: keep)

lemma sockwrite_keeps [keep]: "same_refs s t \<Longrightarrow> keeps s (sockwrite kend p so addr n t)"
  unfolding sockwrite_def Let_def by (auto intro!: keep dest: mbufalloc_refs split: prod.splits)

lemma sockread_keeps [keep]: "same_refs s t \<Longrightarrow> keeps s (sockread kend p so addr n t)"
  unfolding sockread_def Let_def by (auto intro!: keep split: prod.splits)

lemma pipeio_keeps [keep]:
  "same_refs s t \<Longrightarrow> keeps s (file_piperead kend p pi addr n t)"
  "same_refs s t \<Longrightarrow> keeps s (file_pipewrite kend p pi addr n t)"
  unfolding file_piperead_def file_pipewrite_def Let_def
  by (auto intro!: keep split: prod.splits pipe_result.splits)

lemma console_keeps [keep]:
  "same_refs s t \<Longrightarrow> keeps s (file_consoleread kend p addr n t)"
  "same_refs s t \<Longrightarrow> keeps s (file_consolewrite kend p addr n t)"
  unfolding file_consoleread_def file_consolewrite_def Let_def
  by (auto intro!: keep split: prod.splits cons_result.splits)

lemma inode_io_keeps [keep]:
  "same_refs s t \<Longrightarrow> keeps s (readi_user kend p ip addr off n1 t)"
  "same_refs s t \<Longrightarrow> keeps s (writei_user kend p ip addr off n1 t)"
  unfolding readi_user_def writei_user_def by (auto intro!: keep)

lemma fileread_keeps [keep]: "same_refs s t \<Longrightarrow> keeps s (fileread kend p f addr n t)"
  unfolding fileread_def Let_def by (auto intro!: keep split: ftype.splits)

lemma write_max_pos: "0 < write_max"
  by (simp add: write_max_def MAXOPBLOCKS_def BSIZE_def)

lemma filewrite_loop_keeps: "same_refs s t \<Longrightarrow> keeps s (filewrite_loop kend p f addr n i t)"
proof (induction "nat (n - i)" arbitrary: i t rule: less_induct)
  case less
  show ?case
    using write_max_pos
    by (subst filewrite_loop.simps) (auto simp: Let_def less.prems intro!: keep less.hyps)
qed

lemma filewrite_keeps [keep]: "same_refs s t \<Longrightarrow> keeps s (filewrite kend p f addr n t)"
  unfolding filewrite_def Let_def by (auto intro!: keep filewrite_loop_keeps split: ftype.splits)

section \<open>Paths, programs and processes\<close>

lemma with_cwd_keeps [keep]: "same_refs s t \<Longrightarrow> keeps s (with_cwd p path m t)"
  unfolding with_cwd_def by (auto intro!: keep split: option.splits)

lemma k_namei_keeps [keep]:
  "same_refs s t \<Longrightarrow> keeps s (k_namei p path t)" "same_refs s t \<Longrightarrow> keeps s (k_nameiparent p path t)"
  unfolding k_namei_def k_nameiparent_def by (auto intro!: keep)

lemma end_keeps [keep]:
  "same_refs s t \<Longrightarrow> keeps s (end_with p r t)" "same_refs s t \<Longrightarrow> keeps s (put_and_end p ip r t)"
  unfolding put_and_end_def end_with_def by (auto intro!: keep)

lemma filestat_keeps [keep]: "same_refs s t \<Longrightarrow> keeps s (filestat kend p pad f addr t)"
  unfolding filestat_def Let_def by (auto intro!: keep split: prod.splits)

lemma link_bad_keeps [keep]: "same_refs s t \<Longrightarrow> keeps s (link_bad p ip t)"
  unfolding link_bad_def by (auto intro!: keep)

lemma link_paths_keeps [keep]: "same_refs s t \<Longrightarrow> keeps s (link_paths p old new t)"
  unfolding link_paths_def by (auto intro!: keep split: option.splits)

lemma unlink_keeps [keep]:
  "same_refs s t \<Longrightarrow> keeps s (unlink_entry p dp ip off t)" "same_refs s t \<Longrightarrow> keeps s (unlink_path p path t)"
  unfolding unlink_path_def unlink_entry_def by (auto intro!: keep split: option.splits)

lemma create_new_keeps [keep]: "same_refs s t \<Longrightarrow> keeps s (create_new p dp nm ty mj mn t)"
  unfolding create_new_def by (auto intro!: keep)

lemma create_keeps [keep]: "same_refs s t \<Longrightarrow> keeps s (create p path ty mj mn t)"
  unfolding create_def by (auto intro!: keep split: option.splits)

lemma make_node_keeps [keep]: "same_refs s t \<Longrightarrow> keeps s (make_node p path ty mj mn t)"
  unfolding make_node_def by (auto intro!: keep split: option.splits)

lemma arg_keeps [keep]:
  "same_refs s t \<Longrightarrow> keeps s (argint p n t)" "same_refs s t \<Longrightarrow> keeps s (argaddr p n t)"
  "same_refs s t \<Longrightarrow> keeps s (argstr kend p n mx t)" "same_refs s t \<Longrightarrow> keeps s (argfd p n t)"
  unfolding argstr_def argfd_def argaddr_def argint_def argraw_def by (auto intro!: keep split: option.splits)

lemma with_fd_keeps [keep]:
  assumes "same_refs s t" and "\<And>fd f t. same_refs s t \<Longrightarrow> keeps s (m fd f t)"
  shows "keeps s (with_fd p m t)"
  using assms unfolding with_fd_def by (auto intro!: keep split: option.splits)

lemma file_calls_keep [keep]:
  "same_refs s t \<Longrightarrow> keeps s (sys_read kend p t)" "same_refs s t \<Longrightarrow> keeps s (sys_write kend p t)"
  "same_refs s t \<Longrightarrow> keeps s (sys_fstat kend p pad t)" "same_refs s t \<Longrightarrow> keeps s (sys_link kend p t)"
  "same_refs s t \<Longrightarrow> keeps s (sys_unlink kend p t)" "same_refs s t \<Longrightarrow> keeps s (sys_mkdir kend p t)"
  "same_refs s t \<Longrightarrow> keeps s (sys_mknod kend p t)"
  unfolding sys_read_def sys_write_def sys_fstat_def sys_link_def sys_unlink_def sys_mkdir_def sys_mknod_def
  by (auto intro!: keep split: option.splits)

lemma sys_chdir_keeps [keep]: "same_refs s t \<Longrightarrow> keeps s (sys_chdir kend p t)"
  unfolding sys_chdir_def by (auto intro!: keep simp: dead_def split: option.splits)

lemma loadseg_loop_keeps: "same_refs s t \<Longrightarrow> keeps s (loadseg_loop kend me pgt va ip offset sz js t)"
proof (induction js arbitrary: t)
  case (Cons j js)
  then show ?case by (auto simp: Let_def intro!: keep Cons.IH)
qed (simp add: keep)

lemma loadseg_keeps [keep]: "same_refs s t \<Longrightarrow> keeps s (loadseg kend me pgt va ip offset sz t)"
  unfolding loadseg_def by (auto intro!: keep loadseg_loop_keeps)

lemma exec_load_keeps [keep]: "same_refs s t \<Longrightarrow> keeps s (exec_load kend me pgt ip n off sz t)"
  by (induction n arbitrary: off sz t) (auto simp: Let_def intro!: keep)

lemma exec_bad_keeps [keep]: "same_refs s t \<Longrightarrow> keeps s (exec_bad kend p pgt sz ip t)"
  unfolding exec_bad_def by (auto intro!: keep split: option.splits)

lemma exec_commit_keeps [keep]: "same_refs s t \<Longrightarrow> keeps s (exec_commit kend p path pgt sz sp entry t)"
  unfolding exec_commit_def Let_def by (auto intro!: keep simp: dead_def)

lemma exec_stack_keeps [keep]: "same_refs s t \<Longrightarrow> keeps s (exec_stack kend p path argv pgt sz entry t)"
  unfolding exec_stack_def Let_def by (auto intro!: keep split: prod.splits option.splits)

lemma exec_keeps [keep]: "same_refs s t \<Longrightarrow> keeps s (exec kend tramp p path argv t)"
  unfolding exec_def Let_def by (auto intro!: keep split: option.splits)

lemma fetch_args_keeps [keep]: "same_refs s t \<Longrightarrow> keeps s (fetch_args kend p uargv n acc t)"
  by (induction n arbitrary: uargv acc t)
    (auto intro!: keep dest: page_alloc_refs split: option.splits prod.splits)

lemma free_args_keeps [keep]: "same_refs s t \<Longrightarrow> keeps s (free_args kend as t)"
  by (induction "as" arbitrary: t) (auto intro!: keep)

lemma sys_exec_keeps [keep]: "same_refs s t \<Longrightarrow> keeps s (sys_exec kend tramp p t)"
  unfolding sys_exec_def by (auto intro!: keep split: option.splits)

lemma growproc_keeps [keep]: "same_refs s t \<Longrightarrow> keeps s (growproc kend p n t)"
  unfolding growproc_def Let_def by (auto intro!: keep simp: dead_def)

lemma sys_sbrk_keeps [keep]: "same_refs s t \<Longrightarrow> keeps s (sys_sbrk kend p t)"
  unfolding sys_sbrk_def Let_def by (auto intro!: keep)

section \<open>Counting\<close>

definition holds :: "proc \<Rightarrow> nat \<Rightarrow> int" where
  "holds x f = int (card {fd. fd < NOFILE \<and> ofile x fd = Some f}) +
     int (card {i. i < MMAP_NUM \<and> m_used (minfo x i) \<and> m_file (minfo x i) = f})"

definition held :: "'a kernel_scheme \<Rightarrow> nat \<Rightarrow> int" where
  "held s f = (\<Sum>q<NPROC. holds (procs (pt s) q) f)"

definition proc_files_ok :: "proc \<Rightarrow> bool" where
  "proc_files_ok x \<longleftrightarrow> (\<forall>fd<NOFILE. \<forall>f. ofile x fd = Some f \<longrightarrow> f < NFILE) \<and>
     (\<forall>i<MMAP_NUM. m_used (minfo x i) \<longrightarrow> m_file (minfo x i) < NFILE)"

definition holds_nothing :: "proc \<Rightarrow> bool" where
  "holds_nothing x \<longleftrightarrow> (\<forall>fd<NOFILE. ofile x fd = None) \<and> (\<forall>i<MMAP_NUM. \<not> m_used (minfo x i))"

text \<open>Dead processes hold nothing, except those in \<open>S\<close>, which a call is creating or ending.\<close>

definition files_ok :: "nat set \<Rightarrow> nat multiset \<Rightarrow> 'a kernel_scheme \<Rightarrow> bool" where
  "files_ok S X s \<longleftrightarrow> (\<forall>f<NFILE. f_ref (ftable s f) = held s f + int (count X f)) \<and>
     (\<forall>q<NPROC. proc_files_ok (procs (pt s) q)) \<and> (\<forall>f \<in># X. f < NFILE) \<and>
     (\<forall>q<NPROC. q \<notin> S \<longrightarrow> dead (procs (pt s) q) \<longrightarrow> holds_nothing (procs (pt s) q))"

text \<open>The call that runs is one of the live process \<open>p\<close>.\<close>

definition call_ok :: "nat \<Rightarrow> nat set \<Rightarrow> nat multiset \<Rightarrow> 'a kernel_scheme \<Rightarrow> bool" where
  "call_ok p S X s \<longleftrightarrow> files_ok S X s \<and> p < NPROC \<and> \<not> dead (procs (pt s) p)"

definition counts :: "nat \<Rightarrow> nat set \<Rightarrow> nat multiset \<Rightarrow> ('e, 'b, 'a kernel_scheme) outcome \<Rightarrow> bool" where
  "counts p S X r \<longleftrightarrow> (\<forall>x t. r = (Inr x, t) \<longrightarrow> call_ok p S X t)"

lemma same_refs_held: "same_refs s t \<Longrightarrow> held t f = held s f"
  by (simp add: same_refs_def held_def holds_def map_refs_def fun_eq_iff)

lemma files_ok_same: "same_refs s t \<Longrightarrow> files_ok S X s \<Longrightarrow> files_ok S X t"
  using same_refs_held [of s t] by (simp add: files_ok_def proc_files_ok_def holds_nothing_def same_refs_def map_refs_def fun_eq_iff)

lemma call_ok_same: "call_ok p S X s \<Longrightarrow> same_refs s t \<Longrightarrow> call_ok p S X t"
  by (auto simp: call_ok_def same_refs_def intro: files_ok_same)

lemma counts_pair [simp]: "counts p S X (Inr x, t) = call_ok p S X t" "counts p S X (Inl e, t)"
  by (simp_all add: counts_def)

lemma counts_bind:
  assumes "counts p S X m" and "\<And>x t. call_ok p S X t \<Longrightarrow> counts p S Y (f x t)"
  shows "counts p S Y (bindS m f)"
  using assms by (cases m; cases "fst m") (auto simp: bindS_def counts_def)

lemma counts_keep:
  assumes "call_ok p S X s" and "keeps s m"
  shows "counts p S X m"
  using assms by (auto simp: counts_def keeps_def intro: call_ok_same)

lemma held_upd_proc:
  assumes "p < NPROC"
  shows "held (upd_me p g s) f = held s f - holds (procs (pt s) p) f + holds (g (procs (pt s) p)) f"
proof -
  have "held (upd_me p g s) f = (\<Sum>q\<in>{..<NPROC}. (if q = p then holds (g (procs (pt s) p)) f else holds (procs (pt s) q) f))"
    unfolding held_def by (rule sum.cong) auto
  also have "\<dots> = holds (g (procs (pt s) p)) f + (\<Sum>q\<in>{..<NPROC} - {p}. holds (procs (pt s) q) f)"
    using assms by (subst sum.remove [of _ p]) auto
  also have "(\<Sum>q\<in>{..<NPROC} - {p}. holds (procs (pt s) q) f) = held s f - holds (procs (pt s) p) f"
    unfolding held_def using assms by (subst sum.remove [of "{..<NPROC}" p]) auto
  finally show ?thesis by simp
qed

lemma holds_nonneg: "0 \<le> holds x f" by (simp add: holds_def)

lemma held_nonneg: "0 \<le> held s f" unfolding held_def by (rule sum_nonneg) (rule holds_nonneg)

lemma card_upd:
  fixes i n :: nat
  assumes "i < n"
  shows "int (card {j. j < n \<and> P ((h(i := v)) j)}) = int (card {j. j < n \<and> P (h j)}) - (if P (h i) then 1 else 0) + (if P v then 1 else (0 :: int))"
proof -
  have fin: "finite {j. j < n \<and> Q j}" for Q by (rule finite_subset [of _ "{..<n}"]) auto
  have split: "{j. j < n \<and> Q j} = (if Q i then insert i {j. j < n \<and> j \<noteq> i \<and> Q j} else {j. j < n \<and> j \<noteq> i \<and> Q j})" for Q
    using assms by auto
  have c: "int (card {j. j < n \<and> Q j}) = int (card {j. j < n \<and> j \<noteq> i \<and> Q j}) + (if Q i then 1 else 0)" for Q
    by (subst split) (simp add: fin [of "\<lambda>j. j \<noteq> i \<and> Q j"])
  have "{j. j < n \<and> j \<noteq> i \<and> P ((h(i := v)) j)} = {j. j < n \<and> j \<noteq> i \<and> P (h j)}" by auto
  then show ?thesis using c [of "\<lambda>j. P ((h(i := v)) j)"] c [of "\<lambda>j. P (h j)"] by simp
qed

lemma holds_set_fd:
  assumes "fd < NOFILE"
  shows "holds (x\<lparr>ofile := (ofile x)(fd := v)\<rparr>) f = holds x f - (if ofile x fd = Some f then 1 else 0) + (if v = Some f then 1 else 0)"
  using card_upd [OF assms, of "\<lambda>z. z = Some f" "ofile x" v] by (simp add: holds_def)

lemma holds_set_map:
  assumes "i < MMAP_NUM"
  shows "holds (x\<lparr>minfo := (minfo x)(i := v)\<rparr>) f =
    holds x f - (if m_used (minfo x i) \<and> m_file (minfo x i) = f then 1 else 0) + (if m_used v \<and> m_file v = f then 1 else 0)"
  using card_upd [OF assms, of "\<lambda>z. m_used z \<and> m_file z = f" "minfo x" v] by (simp add: holds_def)

section \<open>The operations of the file table\<close>

lemma find_upt: "List.find P [0..<n] = Some i \<Longrightarrow> i < n \<and> P i"
  by (auto simp: find_Some_iff)

lemma filealloc_counts:
  assumes "call_ok p S X s" and "filealloc s = (r, t)"
  shows "case r of None \<Rightarrow> t = s | Some f \<Rightarrow> call_ok p S (add_mset f X) t"
proof (cases r)
  case None
  then show ?thesis using assms by (auto simp: filealloc_def split: option.splits)
next
  case (Some f)
  then have f: "f < NFILE" "f_ref (ftable s f) = 0" "t = upd_file f (\<lambda>x. x\<lparr>f_ref := 1\<rparr>) s"
    using assms(2) find_upt by (auto simp: filealloc_def split: option.splits)
  have a: "files_ok S X s" using assms(1) by (simp add: call_ok_def)
  then have z: "held s f + int (count X f) = 0" using f by (auto simp: files_ok_def)
  have "held t g = held s g" for g by (simp add: f(3) held_def upd_file_def)
  then have "files_ok S (add_mset f X) t"
    using a f(1) z held_nonneg [of s f] by (auto simp: files_ok_def f(3) upd_file_def)
  then show ?thesis using assms(1) Some by (simp add: call_ok_def f(3) upd_file_def)
qed

lemma filedup_counts:
  assumes "call_ok p S X s" and "f < NFILE"
  shows "counts p S (add_mset f X) (filedup f s)"
proof -
  let ?t = "upd_file f (\<lambda>x. x\<lparr>f_ref := f_ref x + 1\<rparr>) s"
  have "held ?t g = held s g" for g by (simp add: held_def upd_file_def)
  then have "call_ok p S (add_mset f X) ?t"
    using assms by (auto simp: call_ok_def files_ok_def upd_file_def)
  then show ?thesis by (simp add: filedup_def)
qed

lemma in_X_ref:
  assumes "files_ok S (add_mset f X) s"
  shows "1 \<le> f_ref (ftable s f)" and "f < NFILE"
proof -
  show "f < NFILE" using assms by (simp add: files_ok_def)
  then show "1 \<le> f_ref (ftable s f)" using assms held_nonneg [of s f] by (simp add: files_ok_def)
qed

lemma drop_ref:
  assumes "call_ok p S (add_mset f X) s" and g: "\<And>x. f_ref (g x) = f_ref x - 1"
  shows "call_ok p S X (upd_file f g s)"
proof -
  have "held (upd_file f g s) h = held s h" for h by (simp add: held_def upd_file_def)
  then show ?thesis using assms by (auto simp: call_ok_def files_ok_def upd_file_def)
qed

lemma fileclose_refs:
  assumes "fileclose kend q f s = (Inr x, t)"
  shows "same_refs (upd_file f (\<lambda>x. x\<lparr>f_ref := f_ref x - 1\<rparr>) s) t"
proof -
  let ?s1 = "upd_file f (\<lambda>x. x\<lparr>f_ref := f_ref x - 1\<rparr>) s"
  let ?s2 = "upd_file f (\<lambda>x. x\<lparr>f_ref := 0, f_type := FD_NONE\<rparr>) ?s1"
  have r: "1 \<le> f_ref (ftable s f)" using assms by (auto simp: fileclose_def split: if_splits)
  have k: "keeps u (case f_type x of
        FD_PIPE \<Rightarrow> file_pipeclose kend (f_pipe x) (f_writable x) u
      | FD_SOCK \<Rightarrow> sockclose kend (f_sock x) u
      | FD_NONE \<Rightarrow> (Inr (), u)
      | _ \<Rightarrow>
          bindS (in_fs (\<lambda>y. begin_op (i_dev (icache y (f_ip x))) y) u) (\<lambda>_ s.
          bindS (in_fs (iput me (f_ip x)) s) (\<lambda>_ s.
            in_fs (\<lambda>y. end_op me (i_dev (icache y (f_ip x))) y) s)))" for x me and u :: "'a kernel_scheme"
    by (auto intro!: keep split: ftype.splits)
  show ?thesis
  proof (cases "0 < f_ref (ftable ?s1 f)")
    case True
    then show ?thesis using r assms by (simp add: fileclose_def Let_def)
  next
    case False
    then have "f_ref (ftable s f) = 1" using r by (simp add: upd_file_def)
    then have c2: "same_refs ?s1 ?s2" by (simp add: same_refs_def upd_file_def)
    have e: "fileclose kend q f s = (case f_type (ftable ?s1 f) of
        FD_PIPE \<Rightarrow> file_pipeclose kend (f_pipe (ftable ?s1 f)) (f_writable (ftable ?s1 f)) ?s2
      | FD_SOCK \<Rightarrow> sockclose kend (f_sock (ftable ?s1 f)) ?s2
      | FD_NONE \<Rightarrow> (Inr (), ?s2)
      | _ \<Rightarrow>
          bindS (in_fs (\<lambda>y. begin_op (i_dev (icache y (f_ip (ftable ?s1 f)))) y) ?s2) (\<lambda>_ s.
          bindS (in_fs (iput (my_pid q ?s2) (f_ip (ftable ?s1 f))) s) (\<lambda>_ s.
            in_fs (\<lambda>y. end_op (my_pid q ?s2) (i_dev (icache y (f_ip (ftable ?s1 f)))) y) s)))"
      using r False by (simp only: fileclose_def Let_def if_False not_less [symmetric] simp_thms)
    have "keeps ?s1 (fileclose kend q f s)" unfolding e by (rule keeps_from [OF c2 k])
    then show ?thesis unfolding assms keeps_pair .
  qed
qed

lemma fileclose_counts:
  assumes "call_ok p S (add_mset f X) s"
  shows "counts p S X (fileclose kend q f s)"
  unfolding counts_def
proof (intro allI impI)
  fix x t assume "fileclose kend q f s = (Inr x, t)"
  from fileclose_refs [OF this] show "call_ok p S X t" by (rule call_ok_same [OF drop_ref [OF assms], rotated]) simp
qed

text \<open>A descriptor of a live process, or of one in \<open>S\<close>.\<close>

lemma set_fd_some_counts:
  assumes a: "files_ok S (add_mset f X) s" and q: "q < NPROC" "\<not> dead (procs (pt s) q) \<or> q \<in> S"
    and fd: "fd < NOFILE" "ofile (procs (pt s) q) fd = None"
  shows "files_ok S X (set_fd q fd (Some f) s)"
proof -
  let ?t = "set_fd q fd (Some f) s" and ?g = "\<lambda>x. x\<lparr>ofile := (ofile x)(fd := Some f)\<rparr>"
  have h: "held ?t g = held s g + (if f = g then 1 else 0)" for g
    unfolding set_fd_def using held_upd_proc [OF q(1), of ?g s g] holds_set_fd [OF fd(1), of "procs (pt s) q" "Some f" g] fd(2) by simp
  have ft: "ftable ?t = ftable s" by (simp add: set_fd_def upd_me_def upd_pt_def)
  show ?thesis
    unfolding files_ok_def
  proof (intro conjI allI impI)
    fix g assume "g < NFILE"
    then show "f_ref (ftable ?t g) = held ?t g + int (count X g)" using a h [of g] by (simp add: files_ok_def ft)
  next
    fix r assume "r < NPROC"
    then show "proc_files_ok (procs (pt ?t) r)"
      using a in_X_ref(2) [OF a] by (auto simp: files_ok_def set_fd_def proc_files_ok_def)
  next
    show "\<forall>f \<in># X. f < NFILE" using a by (simp add: files_ok_def)
  next
    fix r assume "r < NPROC" "r \<notin> S" "dead (procs (pt ?t) r)"
    then show "holds_nothing (procs (pt ?t) r)"
      using a q by (auto simp: files_ok_def set_fd_def dead_def holds_nothing_def split: if_splits)
  qed
qed

lemma fdalloc_counts:
  assumes "call_ok p S (add_mset f X) s" and "fdalloc p f s = (r, t)"
  shows "case r of None \<Rightarrow> t = s | Some fd \<Rightarrow> call_ok p S X t \<and> fd < NOFILE \<and> ofile (procs (pt t) p) fd = Some f"
proof (cases r)
  case None
  then show ?thesis using assms by (auto simp: fdalloc_def split: option.splits)
next
  case (Some fd)
  then have fd: "fd < NOFILE" "ofile (procs (pt s) p) fd = None" "t = set_fd p fd (Some f) s"
    using assms(2) find_upt by (auto simp: fdalloc_def split: option.splits)
  have a: "files_ok S (add_mset f X) s" "p < NPROC" "\<not> dead (procs (pt s) p)" using assms(1) by (auto simp: call_ok_def)
  have "files_ok S X t" unfolding fd(3) using a fd by (intro set_fd_some_counts) auto
  then show ?thesis using a(2,3) Some fd by (simp add: call_ok_def set_fd_def dead_def)
qed

lemma set_fd_none_counts:
  assumes "call_ok p S X s" and "fd < NOFILE" and "ofile (procs (pt s) p) fd = Some f"
  shows "call_ok p S (add_mset f X) (set_fd p fd None s)"
proof -
  let ?t = "set_fd p fd None s" and ?g = "\<lambda>x. x\<lparr>ofile := (ofile x)(fd := None)\<rparr>"
  have a: "files_ok S X s" "p < NPROC" "\<not> dead (procs (pt s) p)" using assms(1) by (auto simp: call_ok_def)
  have f: "f < NFILE" using a assms(2,3) by (auto simp: files_ok_def proc_files_ok_def)
  have h: "held ?t g = held s g - (if f = g then 1 else 0)" for g
    unfolding set_fd_def using held_upd_proc [OF a(2), of ?g s g] holds_set_fd [OF assms(2), of "procs (pt s) p" None g] assms(3) by simp
  have ft: "ftable ?t = ftable s" by (simp add: set_fd_def upd_me_def upd_pt_def)
  have "files_ok S (add_mset f X) ?t"
    unfolding files_ok_def
  proof (intro conjI allI impI)
    fix g assume "g < NFILE"
    then show "f_ref (ftable ?t g) = held ?t g + int (count (add_mset f X) g)" using a(1) h [of g] by (simp add: files_ok_def ft)
  next
    fix q assume "q < NPROC"
    then show "proc_files_ok (procs (pt ?t) q)"
      using a by (auto simp: files_ok_def set_fd_def proc_files_ok_def)
  next
    show "\<forall>f \<in># add_mset f X. f < NFILE" using a(1) f by (simp add: files_ok_def)
  next
    fix r assume "r < NPROC" "r \<notin> S" "dead (procs (pt ?t) r)"
    then show "holds_nothing (procs (pt ?t) r)"
      using a by (auto simp: files_ok_def set_fd_def dead_def holds_nothing_def split: if_splits)
  qed
  then show ?thesis using a(2,3) by (simp add: call_ok_def set_fd_def dead_def)
qed

section \<open>Calls that create and close descriptors\<close>

lemma counts_close_bind:
  assumes "call_ok p S (add_mset f X) s" and "\<And>t. call_ok p S X t \<Longrightarrow> counts p S Y (g t)"
  shows "counts p S Y (bindS (fileclose kend q f s) (\<lambda>_ t. g t))"
  by (rule counts_bind [OF fileclose_counts [OF assms(1)]]) (rule assms(2))

lemma counts_keep_bind:
  assumes "call_ok p S X s" and "keeps s m" and "\<And>x t. call_ok p S X t \<Longrightarrow> counts p S Y (f x t)"
  shows "counts p S Y (bindS m f)"
  by (rule counts_bind [OF counts_keep [OF assms(1,2)]]) (rule assms(3))

lemma counts_run_bind:
  assumes "keeps s m" and "\<And>x t. same_refs s t \<Longrightarrow> counts p S Y (f x t)"
  shows "counts p S Y (bindS m f)"
  using assms by (cases m; cases "fst m") (auto simp: bindS_def)

lemma pipealloc_bad_counts:
  "call_ok p S X s \<Longrightarrow> counts p S X (pipealloc_bad kend p None None s)"
  "call_ok p S (add_mset f0 X) s \<Longrightarrow> counts p S X (pipealloc_bad kend p (Some f0) None s)"
  "call_ok p S (add_mset f1 (add_mset f0 X)) s \<Longrightarrow> counts p S X (pipealloc_bad kend p (Some f0) (Some f1) s)"
  unfolding pipealloc_bad_def
  by (auto intro!: counts_close_bind simp: add_mset_commute [of f1 f0])

text \<open>The files of the result are held by the caller.\<close>

definition pipe_counts :: "nat \<Rightarrow> nat set \<Rightarrow> nat multiset \<Rightarrow> (kfault, (nat \<times> nat) option, 'a kernel_scheme) outcome \<Rightarrow> bool" where
  "pipe_counts p S X r \<longleftrightarrow> (\<forall>t. r = (Inr None, t) \<longrightarrow> call_ok p S X t) \<and>
     (\<forall>f0 f1 t. r = (Inr (Some (f0, f1)), t) \<longrightarrow> call_ok p S (add_mset f1 (add_mset f0 X)) t)"

lemma pipealloc_bad_none: "pipealloc_bad kend p f0 f1 s = (Inr r, t) \<Longrightarrow> r = None"
  by (auto simp: pipealloc_bad_def bindS_eq_Inr)

lemma pipe_counts_bad: "counts p S X (pipealloc_bad kend p f0 f1 s) \<Longrightarrow> pipe_counts p S X (pipealloc_bad kend p f0 f1 s)"
  using pipealloc_bad_none by (fastforce simp: pipe_counts_def counts_def)

lemma pipealloc_counts:
  assumes "call_ok p S X s"
  shows "pipe_counts p S X (pipealloc kend p s)"
proof -
  obtain r0 s0 where r0: "filealloc s = (r0, s0)" by (cases "filealloc s")
  note c0 = filealloc_counts [OF assms r0]
  show ?thesis
  proof (cases r0)
    case None
    then show ?thesis
      using c0 assms by (auto simp: pipealloc_def r0 intro!: pipe_counts_bad pipealloc_bad_counts(1))
  next
    case (Some f0)
    then have c0': "call_ok p S (add_mset f0 X) s0" using c0 by simp
    obtain r1 s1 where r1: "filealloc s0 = (r1, s1)" by (cases "filealloc s0")
    note c1 = filealloc_counts [OF c0' r1]
    show ?thesis
    proof (cases r1)
      case None
      then show ?thesis
        using c0' c1 Some by (auto simp: pipealloc_def r0 r1 intro!: pipe_counts_bad pipealloc_bad_counts(2))
    next
      case (Some f1)
      then have c1': "call_ok p S (add_mset f1 (add_mset f0 X)) s1" using c1 by simp
      obtain pi s2 where pi: "page_alloc kend s1 = (pi, s2)" by (cases "page_alloc kend s1")
      have c2: "call_ok p S (add_mset f1 (add_mset f0 X)) s2"
        by (rule call_ok_same [OF c1' page_alloc_refs [OF pi same_refs_refl]])
      show ?thesis
      proof (cases "pi = 0")
        case True
        then show ?thesis
          using c2 Some \<open>r0 = Some f0\<close> by (auto simp: pipealloc_def r0 r1 pi intro!: pipe_counts_bad pipealloc_bad_counts(3))
      next
        case False
        let ?u = "upd_file f1 (\<lambda>x. x\<lparr>f_type := FD_PIPE, f_readable := False, f_writable := True, f_pipe := pi\<rparr>)
           (upd_file f0 (\<lambda>x. x\<lparr>f_type := FD_PIPE, f_readable := True, f_writable := False, f_pipe := pi\<rparr>)
             (upd_pipe pi (\<lambda>x. pipe_new (p_data x)) s2))"
        have "same_refs s2 ?u" by (auto intro!: keep)
        then have "call_ok p S (add_mset f1 (add_mset f0 X)) ?u" by (rule call_ok_same [OF c2])
        then show ?thesis
          using False Some \<open>r0 = Some f0\<close> by (simp add: pipealloc_def r0 r1 pi pipe_counts_def Let_def)
      qed
    qed
  qed
qed

definition sock_counts :: "nat \<Rightarrow> nat set \<Rightarrow> nat multiset \<Rightarrow> (kfault, nat option, 'a kernel_scheme) outcome \<Rightarrow> bool" where
  "sock_counts p S X r \<longleftrightarrow> (\<forall>t. r = (Inr None, t) \<longrightarrow> call_ok p S X t) \<and>
     (\<forall>f t. r = (Inr (Some f), t) \<longrightarrow> call_ok p S (add_mset f X) t)"

lemma sockalloc_bad_counts:
  assumes "case f of None \<Rightarrow> call_ok p S X s | Some f \<Rightarrow> call_ok p S (add_mset f X) s"
  shows "sock_counts p S X (sockalloc_bad kend p si f s)"
proof -
  have n: "sockalloc_bad kend p si f s = (Inr r, t) \<Longrightarrow> r = None" for r t
    by (auto simp: sockalloc_bad_def bindS_eq_Inr)
  have k: "keeps s (if si \<noteq> 0 then page_free kend si s else (Inr (), s))" by (auto intro!: keep)
  have "counts p S X (sockalloc_bad kend p si f s)"
  proof (cases f)
    case None
    then show ?thesis
      using assms unfolding sockalloc_bad_def by (intro counts_keep_bind [OF _ k]) auto
  next
    case (Some g)
    then show ?thesis
      using assms unfolding sockalloc_bad_def
      by (intro counts_keep_bind [OF _ k, where X = "add_mset g X"]) (auto intro: counts_close_bind)
  qed
  then show ?thesis using n by (fastforce simp: sock_counts_def counts_def)
qed

lemma sockalloc_counts:
  assumes "call_ok p S X s"
  shows "sock_counts p S X (sockalloc kend p raddr lport rport s)"
proof -
  obtain r0 s0 where r0: "filealloc s = (r0, s0)" by (cases "filealloc s")
  note c0 = filealloc_counts [OF assms r0]
  show ?thesis
  proof (cases r0)
    case None
    then show ?thesis
      using c0 assms by (auto simp: sockalloc_def r0 intro!: sockalloc_bad_counts)
  next
    case (Some f)
    then have c0': "call_ok p S (add_mset f X) s0" using c0 by simp
    obtain si s1 where si: "page_alloc kend s0 = (si, s1)" by (cases "page_alloc kend s0")
    have c1: "call_ok p S (add_mset f X) s1" by (rule call_ok_same [OF c0' page_alloc_refs [OF si same_refs_refl]])
    let ?u = "upd_file f (\<lambda>x. x\<lparr>f_type := FD_SOCK, f_readable := True, f_writable := True, f_sock := si\<rparr>)
        (upd_sock si (\<lambda>x. x\<lparr>so_raddr := raddr, so_lport := lport, so_rport := rport, so_rxq := mbufq_init (so_rxq x)\<rparr>) s1)"
    have c2: "call_ok p S (add_mset f X) ?u" by (rule call_ok_same [OF c1]) (auto intro!: keep)
    have c3: "call_ok p S (add_mset f X) (upd_sock si g ?u\<lparr>sockets := si\<rparr>)" for g
      by (rule call_ok_same [OF c2]) (rule same_refs_upd(5) [OF same_refs_upd(7) [OF same_refs_refl]])
    show ?thesis
      using Some c1 c2 c3
      by (auto simp: sockalloc_def r0 si Let_def intro!: sockalloc_bad_counts split: sum.splits) (simp_all add: sock_counts_def)
  qed
qed

section \<open>Descriptors\<close>

lemma set_fd_none_refs:
  "same_refs s t \<Longrightarrow> same_refs (set_fd p fd v s) (set_fd p fd v t)"
  by (auto simp: same_refs_def set_fd_def upd_me_def upd_pt_def upd_proc_def dead_def)

lemma upd_file_set_fd: "upd_file f g (set_fd p fd v s) = set_fd p fd v (upd_file f g s)"
  by (simp add: upd_file_def set_fd_def upd_me_def upd_pt_def)

text \<open>A file is closed and then its descriptor cleared, as \<open>exit\<close> does.\<close>

lemma close_fd_counts:
  assumes "call_ok p S X s" and "fd < NOFILE" and "ofile (procs (pt s) p) fd = Some f" and "fileclose kend q f s = (Inr x, t)"
  shows "call_ok p S X (set_fd p fd None t)"
proof -
  have "call_ok p S X (upd_file f (\<lambda>x. x\<lparr>f_ref := f_ref x - 1\<rparr>) (set_fd p fd None s))"
    by (rule drop_ref [OF set_fd_none_counts [OF assms(1-3)]]) simp
  then show ?thesis
    using set_fd_none_refs [OF fileclose_refs [OF assms(4)], of p fd None] unfolding upd_file_set_fd by (rule call_ok_same)
qed

lemma argfd_refs:
  "argfd p n s = (Inr (Some (fd, f)), t) \<Longrightarrow> n \<le> 5 \<Longrightarrow> t = s \<and> fd < NOFILE \<and> ofile (procs (pt s) p) fd = Some f"
  by (auto simp: argfd_def split: if_splits option.splits)

lemma with_fd_counts:
  assumes "call_ok p S X s"
    and "\<And>fd f. fd < NOFILE \<Longrightarrow> ofile (procs (pt s) p) fd = Some f \<Longrightarrow> counts p S X (m fd f s)"
  shows "counts p S X (with_fd p m s)"
  using assms unfolding with_fd_def argfd_def by (auto split: option.splits)

lemma sys_dup_counts:
  assumes "call_ok p S X s"
  shows "counts p S X (sys_dup p s)"
  unfolding sys_dup_def
proof (rule with_fd_counts [OF assms])
  fix fd f assume fd: "fd < NOFILE" "ofile (procs (pt s) p) fd = Some f"
  obtain r t where r: "fdalloc p f s = (r, t)" by (cases "fdalloc p f s")
  have f: "f < NFILE" using assms fd by (auto simp: call_ok_def files_ok_def proc_files_ok_def)
  show "counts p S X (case fdalloc p f s of (None, s) \<Rightarrow> (Inr (- 1), s)
      | (Some fd, s) \<Rightarrow> bindS (filedup f s) (\<lambda>_ s. (Inr (int fd), s)))"
  proof (cases r)
    case None
    then show ?thesis using r assms by (auto simp: fdalloc_def split: option.splits)
  next
    case (Some fd1)
    then have t: "fd1 < NOFILE" "ofile (procs (pt s) p) fd1 = None" "t = set_fd p fd1 (Some f) s"
      using r find_upt by (auto simp: fdalloc_def split: option.splits)
    let ?u = "upd_file f (\<lambda>x. x\<lparr>f_ref := f_ref x + 1\<rparr>) s"
    have u: "call_ok p S (add_mset f X) ?u"
    proof -
      have "held ?u g = held s g" for g by (simp add: held_def upd_file_def)
      then show ?thesis using assms f by (auto simp: call_ok_def files_ok_def upd_file_def)
    qed
    have "files_ok S X (set_fd p fd1 (Some f) ?u)"
      using u t(1,2) by (intro set_fd_some_counts) (auto simp: call_ok_def upd_file_def)
    then have "call_ok p S X (set_fd p fd1 (Some f) ?u)"
      using u by (simp add: call_ok_def set_fd_def dead_def)
    then show ?thesis using r Some t(3) by (simp add: filedup_def upd_file_set_fd)
  qed
qed

lemma sys_close_counts:
  assumes "call_ok p S X s"
  shows "counts p S X (sys_close kend p s)"
  unfolding sys_close_def Let_def
  using assms by (auto intro!: with_fd_counts counts_close_bind set_fd_none_counts)

lemma fdalloc_or_close_counts:
  assumes "call_ok p S (add_mset f X) s"
    and "call_ok p S (add_mset f X) s \<Longrightarrow> counts p S X (g s)"
    and "\<And>fd t. call_ok p S X t \<Longrightarrow> ofile (procs (pt t) p) fd = Some f \<Longrightarrow> fd < NOFILE \<Longrightarrow> counts p S X (h fd t)"
  shows "counts p S X (case fdalloc p f s of (None, s) \<Rightarrow> g s | (Some fd, s) \<Rightarrow> h fd s)"
proof -
  obtain r t where r: "fdalloc p f s = (r, t)" by (cases "fdalloc p f s")
  show ?thesis using fdalloc_counts [OF assms(1) r] assms by (cases r) (auto simp: r)
qed

lemma sys_connect_counts:
  assumes "call_ok p S X s"
  shows "counts p S X (sys_connect kend p s)"
proof -
  have "counts p S X (bindS (sockalloc kend p a b d s) (\<lambda>r s.
       case r of
         None \<Rightarrow> (Inr (-1), s)
       | Some f \<Rightarrow>
           (case fdalloc p f s of
              (None, s) \<Rightarrow> bindS (fileclose kend p f s) (\<lambda>_ s. (Inr (-1), s))
            | (Some fd, s) \<Rightarrow> (Inr (int fd), s))))" (is "counts p S X (bindS ?m ?g)") for a b d
  proof (cases "fst ?m")
    case (Inr r)
    then obtain t where m: "?m = (Inr r, t)" by (cases ?m) auto
    then have "sock_counts p S X (Inr r, t)" using sockalloc_counts [OF assms, of kend a b d] by simp
    then show ?thesis
      by (cases r) (auto simp: m sock_counts_def intro!: fdalloc_or_close_counts counts_close_bind)
  qed (cases ?m, simp)
  then show ?thesis by (simp add: sys_connect_def)
qed

lemma open_inode_counts:
  assumes "call_ok p S X s"
  shows "counts p S X (open_inode kend p ip omode s)"
proof -
  obtain r t where r: "filealloc s = (r, t)" by (cases "filealloc s")
  have k: "call_ok p S X u \<Longrightarrow> counts p S X (put_and_end p ip v u)" for u and v :: int
    by (rule counts_keep) (auto intro!: keep)
  show ?thesis
  proof (cases r)
    case None
    then have "t = s" using filealloc_counts [OF assms r] by simp
    then show ?thesis using assms by (auto simp: open_inode_def r None Let_def intro!: k)
  next
    case (Some f)
    then have c: "call_ok p S (add_mset f X) t" using filealloc_counts [OF assms r] by simp
    have o: "counts p S X (let s = (if i_type (ino ip u) = T_DEVICE
                        then upd_file f (\<lambda>x. x\<lparr>f_type := FD_DEVICE, f_major := mj, f_minor := sint (i_minor (ino ip u))\<rparr>) u
                        else upd_file f (\<lambda>x. x\<lparr>f_type := FD_INODE\<rparr>) u);
                   s = upd_file f (\<lambda>x. x\<lparr>f_ip := ip, f_off := 0, f_readable := (mode AND O_WRONLY = 0),
                         f_writable := (mode AND O_WRONLY \<noteq> 0 \<or> mode AND O_RDWR \<noteq> 0)\<rparr>) s
               in bindS (in_fs (iunlock (my_pid p s) ip) s) (\<lambda>_ s. end_with p (int fd) s))"
      if "call_ok p S X u" for u mj mode fd
      unfolding Let_def by (rule counts_keep [OF that]) (auto intro!: keep)
    show ?thesis
      using assms unfolding open_inode_def r Some
      by (subst Let_def, subst Let_def) (auto intro!: k o fdalloc_or_close_counts [OF c] counts_close_bind simp: r)
  qed
qed

lemma sys_open_counts:
  assumes "call_ok p S X s"
  shows "counts p S X (sys_open kend p s)"
proof -
  have e: "same_refs s u \<Longrightarrow> counts p S X (end_with p v u)" for u and v :: int
    by (rule counts_keep [OF assms]) (auto intro!: keep)
  have k: "same_refs s u \<Longrightarrow> counts p S X (put_and_end p ip v u)" for u ip and v :: int
    by (rule counts_keep [OF assms]) (auto intro!: keep)
  have o: "same_refs s u \<Longrightarrow> counts p S X (open_inode kend p ip omode u)" for u ip omode
    by (rule open_inode_counts [OF call_ok_same [OF assms]])
  show ?thesis
    unfolding sys_open_def open_path_def
    using assms
    by (auto intro!: counts_run_bind [of s] e k o keep call_ok_same [OF assms] split: option.splits)
qed

lemma sys_pipe_counts:
  assumes "call_ok p S X s"
  shows "counts p S X (sys_pipe kend p s)"
proof -
  have c2: "counts p S X (bindS (fileclose kend p fr u) (\<lambda>_ s. bindS (fileclose kend p fw s) (\<lambda>_ s. (Inr (-1 :: int), s))))"
    if "call_ok p S (add_mset fw (add_mset fr X)) u" for fr fw u
    using that by (auto intro!: counts_close_bind simp: add_mset_commute [of fw fr])
  show ?thesis
  proof (cases "fst (pipealloc kend p s)")
    case (Inr r)
    then obtain t where m: "pipealloc kend p s = (Inr r, t)" by (cases "pipealloc kend p s") auto
    then have pc: "pipe_counts p S X (Inr r, t)" using pipealloc_counts [OF assms, of kend] by simp
    show ?thesis
    proof (cases r)
      case None
      then show ?thesis using pc by (simp add: sys_pipe_def m pipe_counts_def)
    next
      case (Some fs)
      obtain fr fw where fs: "fs = (fr, fw)" by (cases fs)
      have ct: "call_ok p S (add_mset fw (add_mset fr X)) t" using pc by (simp add: Some fs pipe_counts_def)
      obtain r0 t0 where r0: "fdalloc p fr t = (r0, t0)" by (cases "fdalloc p fr t")
      have ct': "call_ok p S (add_mset fr (add_mset fw X)) t" using ct by (simp add: add_mset_commute)
      note f0 = fdalloc_counts [OF ct' r0]
      show ?thesis
      proof (cases r0)
        case None
        then have "t0 = t" using f0 by simp
        then show ?thesis using ct by (simp add: sys_pipe_def m Some fs r0 None c2)
      next
        case (Some fd0)
        then have c0: "call_ok p S (add_mset fw X) t0" "fd0 < NOFILE" "ofile (procs (pt t0) p) fd0 = Some fr"
          using f0 by auto
        obtain r1 t1 where r1: "fdalloc p fw t0 = (r1, t1)" by (cases "fdalloc p fw t0")
        note f1 = fdalloc_counts [OF c0(1) r1]
        show ?thesis
        proof (cases r1)
          case None
          have "call_ok p S (add_mset fw (add_mset fr X)) (set_fd p fd0 None t0)"
            using set_fd_none_counts [OF c0] by (simp add: add_mset_commute)
          moreover have "t1 = t0" using f1 None by simp
          ultimately show ?thesis by (simp add: sys_pipe_def m \<open>r = Some fs\<close> fs r0 Some r1 None c2)
        next
          case (Some fd1)
          then have c1: "call_ok p S X t1" "fd1 < NOFILE" "ofile (procs (pt t1) p) fd1 = Some fw" using f1 by auto
          have t1: "t1 = set_fd p fd1 (Some fw) t0" "ofile (procs (pt t0) p) fd1 = None"
            using r1 Some find_upt by (auto simp: fdalloc_def split: option.splits)
          then have n: "fd1 \<noteq> fd0" using c0 by auto
          then have o0: "ofile (procs (pt t1) p) fd0 = Some fr" using t1 c0 by (simp add: set_fd_def)
          have d0: "call_ok p S (add_mset fr X) (set_fd p fd0 None t1)"
            by (rule set_fd_none_counts [OF c1(1) c0(2) o0])
          have "ofile (procs (pt (set_fd p fd0 None t1)) p) fd1 = Some fw" using c1(3) n by (simp add: set_fd_def)
          from set_fd_none_counts [OF d0 c1(2) this]
          have d1: "call_ok p S (add_mset fw (add_mset fr X)) (set_fd p fd1 None (set_fd p fd0 None t1))" .
          have sw: "set_fd p fd1 None (set_fd p fd0 None (t1\<lparr>km := k\<rparr>)) = set_fd p fd1 None (set_fd p fd0 None t1)\<lparr>km := k\<rparr>" for k
            by (simp add: set_fd_def upd_me_def upd_pt_def)
          have d1': "call_ok p S (add_mset fw (add_mset fr X)) (set_fd p fd1 None (set_fd p fd0 None (t1\<lparr>km := k\<rparr>)))" for k
            unfolding sw by (rule call_ok_same [OF d1 same_refs_upd(1) [OF same_refs_refl]])
          have d2: "call_ok p S X (t1\<lparr>km := k\<rparr>)" for k by (rule call_ok_same [OF c1(1) same_refs_upd(1) [OF same_refs_refl]])
          show ?thesis
            using d2 c2 [OF d1'] by (auto simp: sys_pipe_def m \<open>r = Some fs\<close> fs r0 \<open>r0 = Some fd0\<close> r1 Some Let_def split: prod.splits)
        qed
      qed
    qed
  qed (cases "pipealloc kend p s", simp add: sys_pipe_def)
qed

section \<open>Mappings\<close>

lemma set_map_counts:
  assumes "call_ok p S (Y + X) s" and "i < MMAP_NUM"
    and "if m_used v then m_file v < NFILE \<and> Y = {#m_file v#} else Y = {#}"
    and "\<not> m_used (my_map p i s)"
  shows "call_ok p S X (upd_me p (\<lambda>x. x\<lparr>minfo := (minfo x)(i := v)\<rparr>) s)"
proof -
  let ?t = "upd_me p (\<lambda>x. x\<lparr>minfo := (minfo x)(i := v)\<rparr>) s"
  have a: "files_ok S (Y + X) s" "p < NPROC" "\<not> dead (procs (pt s) p)" using assms(1) by (auto simp: call_ok_def)
  have h: "held ?t g = held s g + int (count Y g)" for g
    using held_upd_proc [OF a(2), of "\<lambda>x. x\<lparr>minfo := (minfo x)(i := v)\<rparr>" s g] holds_set_map [OF assms(2), of "procs (pt s) p" v g] assms(3,4)
    by (auto split: if_splits)
  have ft: "ftable ?t = ftable s" by (simp add: upd_me_def upd_pt_def)
  have "files_ok S X ?t"
    unfolding files_ok_def
  proof (intro conjI allI impI)
    fix g assume "g < NFILE"
    then show "f_ref (ftable ?t g) = held ?t g + int (count X g)" using a(1) h [of g] by (simp add: files_ok_def ft)
  next
    fix q assume "q < NPROC"
    then show "proc_files_ok (procs (pt ?t) q)"
      using a assms(3) by (auto simp: files_ok_def proc_files_ok_def split: if_splits)
  next
    show "\<forall>f \<in># X. f < NFILE" using a(1) by (simp add: files_ok_def)
  next
    fix r assume "r < NPROC" "r \<notin> S" "dead (procs (pt ?t) r)"
    then show "holds_nothing (procs (pt ?t) r)"
      using a by (auto simp: files_ok_def dead_def holds_nothing_def split: if_splits)
  qed
  then show ?thesis using a(2,3) by (simp add: call_ok_def dead_def)
qed

lemma clear_map_counts:
  assumes "call_ok p S X s" and "i < MMAP_NUM" and "m_used (my_map p i s)" and "\<not> m_used v"
  shows "call_ok p S (add_mset (m_file (my_map p i s)) X) (upd_me p (\<lambda>x. x\<lparr>minfo := (minfo x)(i := v)\<rparr>) s)"
proof -
  let ?f = "m_file (my_map p i s)"
  let ?t = "upd_me p (\<lambda>x. x\<lparr>minfo := (minfo x)(i := v)\<rparr>) s"
  have a: "files_ok S X s" "p < NPROC" "\<not> dead (procs (pt s) p)" using assms(1) by (auto simp: call_ok_def)
  have f: "?f < NFILE" using a assms(2,3) by (auto simp: files_ok_def proc_files_ok_def)
  have h: "held ?t g = held s g - (if ?f = g then 1 else 0)" for g
    using held_upd_proc [OF a(2), of "\<lambda>x. x\<lparr>minfo := (minfo x)(i := v)\<rparr>" s g] holds_set_map [OF assms(2), of "procs (pt s) p" v g] assms(3,4)
    by simp
  have ft: "ftable ?t = ftable s" by (simp add: upd_me_def upd_pt_def)
  have "files_ok S (add_mset ?f X) ?t"
    unfolding files_ok_def
  proof (intro conjI allI impI)
    fix g assume "g < NFILE"
    then show "f_ref (ftable ?t g) = held ?t g + int (count (add_mset ?f X) g)" using a(1) h [of g] by (simp add: files_ok_def ft)
  next
    fix q assume "q < NPROC"
    then show "proc_files_ok (procs (pt ?t) q)"
      using a assms(4) by (auto simp: files_ok_def proc_files_ok_def)
  next
    show "\<forall>f \<in># add_mset ?f X. f < NFILE" using a(1) f by (simp add: files_ok_def)
  next
    fix r assume "r < NPROC" "r \<notin> S" "dead (procs (pt ?t) r)"
    then show "holds_nothing (procs (pt ?t) r)"
      using a by (auto simp: files_ok_def dead_def holds_nothing_def split: if_splits)
  qed
  then show ?thesis using a(2,3) by (simp add: call_ok_def dead_def)
qed

lemma sys_mmap_counts:
  assumes "call_ok p S X s"
  shows "counts p S X (sys_mmap p s)"
proof -
  have "counts p S X (mmap_file p addr len prot flags fd offset s)" for addr len prot flags fd offset
  proof (cases "map_alloc p s")
    case (Pair r t)
    show ?thesis
    proof (cases r)
      case None
      then have "t = s" using Pair by (auto simp: map_alloc_def split: option.splits)
      then show ?thesis using assms Pair None by (auto simp: mmap_file_def split: option.splits)
    next
      case (Some i)
      then have i: "i < MMAP_NUM" "\<not> m_used (my_map p i s)"
        "t = upd_map p i (\<lambda>m. m\<lparr>vstart := MMAP_VSTART + of_nat i * MMAP_SIZE\<rparr>) s"
        using Pair find_upt by (auto simp: map_alloc_def split: option.splits)
      have g: "counts p S X (bindS (filedup f (upd_map p i h t)) (\<lambda>_ s. (Inr (vstart (my_map p i s)), s)))"
        if "ofile (procs (pt s) p) fd = Some f" "fd < NOFILE" "\<And>m. m_used (h m) \<and> m_file (h m) = f" for h f fd
      proof -
        have f: "f < NFILE" using assms that(1,2) by (auto simp: call_ok_def files_ok_def proc_files_ok_def)
        let ?u = "upd_file f (\<lambda>x. x\<lparr>f_ref := f_ref x + 1\<rparr>) s"
        have u: "call_ok p S ({#f#} + X) ?u"
        proof -
          have "held ?u g = held s g" for g by (simp add: held_def upd_file_def)
          then show ?thesis using assms f by (auto simp: call_ok_def files_ok_def upd_file_def)
        qed
        have "call_ok p S X (upd_me p (\<lambda>x. x\<lparr>minfo := (minfo x)(i := h (my_map p i t))\<rparr>) ?u)"
          by (rule set_map_counts [OF u i(1)]) (simp_all add: that(3) f i(2) upd_file_def)
        moreover have "upd_file f (\<lambda>x. x\<lparr>f_ref := f_ref x + 1\<rparr>) (upd_map p i h t) =
            upd_me p (\<lambda>x. x\<lparr>minfo := (minfo x)(i := h (my_map p i t))\<rparr>) ?u"
          by (simp add: i(3) upd_file_def upd_map_def upd_me_def upd_pt_def upd_proc_def)
        ultimately show ?thesis by (simp add: Let_def filedup_def)
      qed
      show ?thesis
        using assms by (auto simp: mmap_file_def Pair Some Let_def intro!: g split: option.splits)
    qed
  qed
  then show ?thesis by (simp add: sys_mmap_def)
qed

lemma upd_map_refs [keep]:
  assumes "same_refs s t" and "\<And>m. m_used (g m) = m_used m \<and> m_file (g m) = m_file m"
  shows "same_refs s (upd_map p i g t)"
  unfolding upd_map_def using assms by (intro upd_me_refs) (auto simp: map_refs_def dead_def fun_eq_iff)

lemma munmap_write_keeps [keep]: "same_refs s t \<Longrightarrow> keeps s (munmap_write p i vb va pa t)"
  unfolding munmap_write_def Let_def by (auto intro!: keep)

lemma drop_page_keeps [keep]: "same_refs s t \<Longrightarrow> keeps s (drop_page kend pgt va pa t)"
  unfolding drop_page_def by (auto intro!: keep)

lemma keeps_bind_eq:
  assumes "keeps s m" and "\<And>x t. m = (Inr x, t) \<Longrightarrow> same_refs s t \<Longrightarrow> keeps s (f x t)"
  shows "keeps s (bindS m f)"
  using assms by (cases m; cases "fst m") (auto simp: bindS_def)

lemma munmap_loop_keeps [keep]: "same_refs s t \<Longrightarrow> keeps s (munmap_loop kend p i vb final va t)"
proof (induction kend p i vb final va t rule: munmap_loop.induct)
  case (1 kend p i vb final va t)
  have body: "keeps s (if pte \<noteq> 0 \<and> valid_pte (get_pte pte (km t)) then
                   let pa = PTE2PA (get_pte pte (km t))
                   in bindS (if m_flags (my_map p i t) AND MAP_SHARED \<noteq> 0 \<and> get_pte pte (km t) AND PTE_D \<noteq> 0
                             then munmap_write p i vb va pa t else (Inr (), t)) (\<lambda>_ s.
                        drop_page kend (my_pagetable p s) va pa s)
                 else (Inr (), t))" for pte
    using "1.prems" by (auto simp: Let_def intro!: keep)
  show ?case
  proof (cases "walk_find kend (my_pagetable p t) va (km t)")
    case (Inl e)
    then show ?thesis using "1.prems" by (subst munmap_loop.simps) auto
  next
    case (Inr pte)
    show ?thesis
    proof (cases "va < final")
      case True
      show ?thesis
        using True
        by (subst munmap_loop.simps)
          (simp only: Inr sum.case if_False not_not simp_thms if_True; rule keeps_bind_eq [OF body]; rule "1.IH" [OF _ Inr]; simp only: not_not)
    next
      case False
      then show ?thesis using "1.prems" by (subst munmap_loop.simps) auto
    qed
  qed
qed

lemma clear_map_refs:
  "same_refs s t \<Longrightarrow> same_refs (upd_map p i (\<lambda>m. m\<lparr>m_used := False\<rparr>) s) (upd_map p i (\<lambda>m. m\<lparr>m_used := False\<rparr>) t)"
  by (auto simp: same_refs_def upd_map_def upd_me_def upd_pt_def upd_proc_def dead_def map_refs_def fun_eq_iff)

lemma upd_file_upd_map: "upd_file f g (upd_map p i h s) = upd_map p i h (upd_file f g s)"
  by (simp add: upd_file_def upd_map_def upd_me_def upd_pt_def)

lemma close_map_counts:
  assumes "call_ok p S X s" and "i < MMAP_NUM" and "m_used (my_map p i s)"
    and "fileclose kend q (m_file (my_map p i s)) s = (Inr x, t)"
  shows "call_ok p S X (upd_map p i (\<lambda>m. m\<lparr>m_used := False\<rparr>) t)"
proof -
  let ?f = "m_file (my_map p i s)"
  have "call_ok p S (add_mset ?f X) (upd_map p i (\<lambda>m. m\<lparr>m_used := False\<rparr>) s)"
    unfolding upd_map_def
    using clear_map_counts [OF assms(1-3), of "my_map p i s\<lparr>m_used := False\<rparr>"] by (simp add: upd_me_def upd_pt_def upd_proc_def)
  then have "call_ok p S X (upd_file ?f (\<lambda>x. x\<lparr>f_ref := f_ref x - 1\<rparr>) (upd_map p i (\<lambda>m. m\<lparr>m_used := False\<rparr>) s))"
    by (rule drop_ref) simp
  then show ?thesis
    using clear_map_refs [OF fileclose_refs [OF assms(4)], of p i] unfolding upd_file_upd_map by (rule call_ok_same)
qed

lemma munmap_range_counts:
  assumes "call_ok p S X s"
  shows "counts p S X (munmap_range kend p addr len s)"
proof -
  define i where "i = unat ((PGROUNDDOWN addr - MMAP_VSTART) div MMAP_SIZE)"
  have cl: "counts p S X (bindS (fileclose kend p (m_file (my_map p i t)) t) (\<lambda>_ s.
                 (Inr 0, upd_map p i (\<lambda>m. m\<lparr>m_used := False\<rparr>) s)))"
    if "call_ok p S X t" "i < MMAP_NUM" "m_used (my_map p i t)" for t
    using close_map_counts [OF that, of kend p]
    by (cases "fileclose kend p (m_file (my_map p i t)) t"; cases "fst (fileclose kend p (m_file (my_map p i t)) t)")
      (auto simp: bindS_def)
  have un: "same_refs s t \<Longrightarrow> m_used (my_map p i t) = m_used (my_map p i s)" for t
    by (simp add: same_refs_def map_refs_def fun_eq_iff)
  have sp: "counts p S X (let s = (if vstart (my_map p i t) = addr then upd_map p i (\<lambda>m. m\<lparr>vstart := v\<rparr>) t else t);
                   s = (if vend (my_map p i s) = v then upd_map p i (\<lambda>m. m\<lparr>vend := addr\<rparr>) s else s)
                   in (Inr 0, s))"
    if "same_refs s t" for t v
    unfolding Let_def counts_pair using that by (intro call_ok_same [OF assms]) (auto intro!: keep)
  have main: "counts p S X (bindS (munmap_loop kend p i vb v vb s) (\<lambda>_ s.
             if vstart (my_map p i s) = addr \<and> m_length (my_map p i s) = len then
               bindS (fileclose kend p (m_file (my_map p i s)) s) (\<lambda>_ s.
                 (Inr 0, upd_map p i (\<lambda>m. m\<lparr>m_used := False\<rparr>) s))
             else
               let s = (if vstart (my_map p i s) = addr then upd_map p i (\<lambda>m. m\<lparr>vstart := v\<rparr>) s else s);
                   s = (if vend (my_map p i s) = v then upd_map p i (\<lambda>m. m\<lparr>vend := addr\<rparr>) s else s)
               in (Inr 0, s)))"
    if u: "i < MMAP_NUM" "m_used (my_map p i s)" for v vb
  proof (rule counts_run_bind [of s], goal_cases)
    case (2 x t)
    have "call_ok p S X t" by (rule call_ok_same [OF assms 2])
    then have c: "counts p S X (bindS (fileclose kend p (m_file (my_map p i t)) t) (\<lambda>_ s.
                 (Inr 0, upd_map p i (\<lambda>m. m\<lparr>m_used := False\<rparr>) s)))"
      using cl u un [OF 2] by simp
    show ?case by (rule if_split [THEN iffD2]) (intro conjI impI c sp [OF 2])
  qed (simp add: keep)
  show ?thesis
    using assms unfolding munmap_range_def Let_def [of "PGROUNDDOWN addr"] i_def [symmetric]
    by (simp add: Let_def [of i] i_def [symmetric] not_le) (intro impI main)
qed

lemma sys_munmap_counts: "call_ok p S X s \<Longrightarrow> counts p S X (sys_munmap kend p s)"
  by (simp add: sys_munmap_def munmap_range_counts)

end
