(* ===== verification/Xv7_File_Counts.thy ===== *)
theory Xv7_File_Counts
  imports Xv7_Files Xv7_Net_Accounts Xv7_Fs_Properties
begin

text \<open>
  The reference counts of the file table over the system calls: processes that are created and
  end, and every call of the table of \<open>syscall.c\<close>.
\<close>

section \<open>Processes\<close>

lemma sys_kill_keeps [keep]: "same_refs s t \<Longrightarrow> keeps s (sys_kill p t)"
proof -
  assume st: "same_refs s t"
  have k: "ofile (procs (snd (kill_from n qs u)) q) = ofile (procs u q) \<and> minfo (procs (snd (kill_from n qs u)) q) = minfo (procs u q) \<and>
      dead (procs (snd (kill_from n qs u)) q) = dead (procs u q)" for n qs u q
    by (induction n qs u rule: kill_from.induct) (auto simp: dead_def Let_def)
  have "same_refs s (t\<lparr>pt := snd (kill n (pt t))\<rparr>)" for n
    using st k [of n "[0..<NPROC]" "pt t"] by (simp add: same_refs_def kill_def)
  then show ?thesis unfolding sys_kill_def by (auto intro!: keep st split: prod.splits) (metis snd_conv)
qed

lemma freeproc_keeps [keep]:
  assumes "same_refs s t" and "dead (procs (pt t) np)"
  shows "keeps s (freeproc kend np t)"
proof -
  have c: "same_refs s u \<Longrightarrow> dead (procs (pt s) np) \<Longrightarrow> same_refs s (upd_me np clear_proc u)" for u
    by (auto simp: same_refs_def upd_me_def upd_pt_def clear_proc_def dead_def)
  have d: "dead (procs (pt s) np)" using assms by (simp add: same_refs_def)
  show ?thesis unfolding freeproc_def Let_def using assms(1) d by (auto intro!: keep c)
qed

lemma sys_wait_keeps: 
  assumes "sys_wait kend c p s = (Inr r, t)"
  shows "same_refs s t"
proof -
  have "same_refs s t" if w: "wait kend c p addr s = (Inr r, t)" for addr
  proof (cases "wait_scan p (procs (pt s)) False [0..<NPROC]")
    case (Pair h n)
    show ?thesis
    proof (cases n)
      case None
      then show ?thesis using w Pair by (auto simp: wait_def split: if_splits)
    next
      case (Some np)
      then have d: "dead (procs (pt s) np)" using wait_scan_some Pair by (fastforce simp: dead_def)
      have f: "same_refs s u \<Longrightarrow> freeproc kend np u = (Inr (), t) \<Longrightarrow> same_refs s t" for u
        using freeproc_keeps [of s u np kend] d by (simp add: same_refs_def keeps_def)
      show ?thesis
        using w Pair Some f [of s] f [OF same_refs_upd(1) [OF same_refs_refl]]
        by (auto simp: wait_def bindS_eq_Inr Let_def split: if_splits prod.splits intro!: keep)
    qed
  qed
  then show ?thesis using assms by (simp add: sys_wait_def)
qed

lemma allocproc_keeps [keep]: "same_refs s t \<Longrightarrow> keeps s (allocproc kend tramp t)"
proof -
  assume st: "same_refs s t"
  have "alloc_slot (pt t) = Some (p, u) \<Longrightarrow> same_refs s (t\<lparr>pt := u\<rparr>)" for p u
    using st by (auto simp: alloc_slot_def allocpid_def same_refs_def split: list.splits if_splits)
  then show ?thesis
    using st unfolding allocproc_def Let_def
    by (auto intro!: keep dest: page_alloc_refs split: option.splits prod.splits)
qed

lemma allocproc_some:
  assumes "allocproc kend tramp s = (Inr (Some p), t)"
  shows "p < NPROC \<and> dead (procs (pt s) p)"
proof -
  have "alloc_slot (pt s) = Some (p, u) \<Longrightarrow> p \<in> set (filter (\<lambda>p. pstate (procs (pt s) p) = UNUSED) [0..<NPROC])" for u
    by (auto simp: alloc_slot_def simp del: set_filter split: list.splits prod.splits)
  then have "alloc_slot (pt s) = Some (p, u) \<Longrightarrow> ?thesis" for u by (simp add: dead_def)
  then show ?thesis
    using assms by (auto simp: allocproc_def Let_def bindS_eq_Inr split: option.splits prod.splits if_splits)
qed

lemma forS_upt:
  assumes "forS f [0..<n] s = (Inr (), t)" and "I 0 s"
    and "\<And>i u v. i < n \<Longrightarrow> I i u \<Longrightarrow> f i u = (Inr (), v) \<Longrightarrow> I (Suc i) v"
  shows "I n t"
proof -
  have "I n t" if "forS f [i..<n] u = (Inr (), t)" "I i u" "i \<le> n" for i u
    using that
  proof (induction "n - i" arbitrary: i u)
    case (Suc k)
    then have "[i..<n] = i # [Suc i..<n]" by (simp add: upt_conv_Cons)
    moreover have "k = n - Suc i" "Suc i \<le> n" "i < n" using Suc.hyps(2) by auto
    ultimately show ?case using Suc.prems Suc.hyps(1) [of "Suc i"] assms(3) by (auto simp: bindS_eq_Inr)
  qed simp
  then show ?thesis using assms(1,2) by blast
qed

definition no_maps :: "proc \<Rightarrow> bool" where
  "no_maps x \<longleftrightarrow> (\<forall>i<MMAP_NUM. \<not> m_used (minfo x i))"

lemma no_maps_refs: "same_refs s t \<Longrightarrow> no_maps (procs (pt t) p) = no_maps (procs (pt s) p)"
  by (simp add: no_maps_def same_refs_def map_refs_def fun_eq_iff)

lemma files_ok_live:
  "files_ok {np} X s \<Longrightarrow> \<not> dead (procs (pt s) np) \<or> holds_nothing (procs (pt s) np) \<Longrightarrow> files_ok {} X s"
  by (auto simp: files_ok_def)

lemma fork_fd_counts:
  assumes "call_ok p {np} X s" and "np < NPROC" "np \<noteq> p" "i < NOFILE" "ofile (procs (pt s) np) i = None"
    and "fork_fd p np i s = (Inr (), t)"
  shows "call_ok p {np} X t"
proof (cases "ofile (procs (pt s) p) i")
  case None
  then show ?thesis using assms by (simp add: fork_fd_def)
next
  case (Some f)
  then have f: "f < NFILE" using assms(1,4) by (auto simp: call_ok_def files_ok_def proc_files_ok_def)
  obtain u where u: "filedup f s = (Inr (), u)" "t = set_fd np i (Some f) u" "pt u = pt s"
    using assms(6) Some by (auto simp: fork_fd_def bindS_eq_Inr filedup_def upd_file_def split: if_splits)
  have c: "call_ok p {np} (add_mset f X) u" using filedup_counts [OF assms(1) f] u by simp
  then have "files_ok {np} X t"
    unfolding u(2) using assms u(3) by (intro set_fd_some_counts) (auto simp: call_ok_def)
  then show ?thesis using c assms(3) by (simp add: call_ok_def u(2) set_fd_def)
qed

lemma fork_fds_counts:
  assumes "call_ok p {np} X s" and "np < NPROC" "np \<noteq> p" and "holds_nothing (procs (pt s) np)" and "no_maps (procs (pt s) p)"
    and "forS (fork_fd p np) [0..<NOFILE] s = (Inr (), t)"
  shows "call_ok p {np} X t" "no_maps (procs (pt t) p)"
proof -
  let ?I = "\<lambda>i u. call_ok p {np} X u \<and> (\<forall>j. i \<le> j \<longrightarrow> j < NOFILE \<longrightarrow> ofile (procs (pt u) np) j = None) \<and> no_maps (procs (pt u) p)"
  have "?I NOFILE t"
  proof (rule forS_upt [OF assms(6), of ?I])
    show "?I 0 s" using assms by (simp add: holds_nothing_def)
  next
    fix i u v assume i: "i < NOFILE" "?I i u" "fork_fd p np i u = (Inr (), v)"
    have "call_ok p {np} X v" by (rule fork_fd_counts [OF _ assms(2,3) i(1) _ i(3)]) (use i in auto)
    moreover have "ofile (procs (pt v) np) j = ofile (procs (pt u) np) j" if "j \<noteq> i" for j
      using i(3) that by (auto simp: fork_fd_def bindS_eq_Inr filedup_def set_fd_def upd_file_def split: option.splits if_splits)
    moreover have "minfo (procs (pt v) p) = minfo (procs (pt u) p)"
      using i(3) assms(3) by (auto simp: fork_fd_def bindS_eq_Inr filedup_def set_fd_def upd_file_def split: option.splits if_splits)
    ultimately show "?I (Suc i) v" using i by (auto simp: no_maps_def)
  qed
  then show "call_ok p {np} X t" "no_maps (procs (pt t) p)" by auto
qed

lemma fork_maps_none:
  assumes "forS (fork_map kend p np) [0..<MMAP_NUM] s = (Inr (), t)" and "no_maps (procs (pt s) p)"
  shows "t = s"
  by (rule forS_upt [OF assms(1), of "\<lambda>i u. u = s"]) (use assms(2) in \<open>auto simp: fork_map_def no_maps_def\<close>)

lemma start_child_counts:
  assumes "files_ok {np} X s" and "np \<noteq> p"
  shows "files_ok {} X (s\<lparr>pt := snd (start_child p np (pt s))\<rparr>)"
proof -
  let ?t = "s\<lparr>pt := snd (start_child p np (pt s))\<rparr>"
  have o: "ofile (procs (snd (start_child p np (pt s))) q) = ofile (procs (pt s) q)"
    "minfo (procs (snd (start_child p np (pt s))) q) = minfo (procs (pt s) q)"
    "q \<noteq> np \<Longrightarrow> dead (procs (snd (start_child p np (pt s))) q) = dead (procs (pt s) q)" for q
    by (simp_all add: start_child_def Let_def)
  have l: "\<not> dead (procs (pt ?t) np)" by (simp add: start_child_def Let_def dead_def)
  have "held ?t f = held s f" for f by (simp add: held_def holds_def o)
  then have "files_ok {np} X ?t" using assms(1) o l by (auto simp: files_ok_def proc_files_ok_def holds_nothing_def)
  then show ?thesis using l by (rule files_ok_live [OF _ disjI1])
qed

lemma files_ok_more: "files_ok {} X s \<Longrightarrow> files_ok S X s"
  by (auto simp: files_ok_def)

lemma fork_counts:
  assumes "files_ok {} X s" and "p < NPROC" "\<not> dead (procs (pt s) p)" and "no_maps (procs (pt s) p)"
    and "fork kend tramp p s = (Inr r, t)"
  shows "files_ok {} X t"
proof -
  obtain a s1 where a: "allocproc kend tramp s = (Inr a, s1)"
    using assms(5) by (auto simp: fork_def bindS_eq_Inr)
  then have s1: "same_refs s s1" using allocproc_keeps [OF same_refs_refl, of s kend tramp] by simp
  show ?thesis
  proof (cases a)
    case None
    then show ?thesis using assms(5) files_ok_same [OF s1 assms(1)] by (simp add: fork_def a)
  next
    case (Some np)
    then have np: "np < NPROC" "dead (procs (pt s) np)" using allocproc_some a by blast+
    then have ne: "np \<noteq> p" using assms(3) by blast
    obtain r2 s2 where u: "in_km (uvmcopy kend (my_pagetable p s1) (my_pagetable np s1) (psz (procs (pt s1) p)) (km s1)) s1 = (Inr r2, s2)"
      using assms(5) by (auto simp: fork_def bindS_eq_Inr a Some)
    have s2: "same_refs s s2"
      using in_km_keeps [OF s1, of "uvmcopy kend (my_pagetable p s1) (my_pagetable np s1) (psz (procs (pt s1) p)) (km s1)"]
      unfolding u keeps_pair .
    show ?thesis
    proof (cases "r2 < 0")
      case True
      then have "keeps s (freeproc kend np s2)" using s2 np by (intro freeproc_keeps) (auto simp: same_refs_def)
      then have "same_refs s t" using assms(5) True by (auto simp: fork_def a Some u bindS_eq_Inr keeps_def)
      then show ?thesis using assms(1) by (rule files_ok_same)
    next
      case False
      define s3 where "s3 = tf_set np TF_A0 0 (copy_tf p np (upd_me np (\<lambda>x. x\<lparr>parent := Some p\<rparr>)
        (upd_me np (\<lambda>x. x\<lparr>psz := psz (procs (pt s2) p)\<rparr>) s2)))"
      have s3: "same_refs s s3" unfolding s3_def copy_tf_def by (auto intro!: keep s2)
      obtain s4 s5 where s4: "forS (fork_fd p np) [0..<NOFILE] s3 = (Inr (), s4)"
        and s5: "forS (fork_map kend p np) [0..<MMAP_NUM] s4 = (Inr (), s5)"
        using assms(5) False by (auto simp: fork_def a Some u bindS_eq_Inr Let_def s3_def)
      have "call_ok p {np} X s3"
        using files_ok_more [OF files_ok_same [OF s3 assms(1)]] assms(2,3) s3 by (simp add: call_ok_def same_refs_def)
      moreover have "holds_nothing (procs (pt s3) np)"
        using files_ok_same [OF s3 assms(1)] np s3 by (auto simp: files_ok_def same_refs_def)
      moreover have "no_maps (procs (pt s3) p)" using no_maps_refs [OF s3] assms(4) by simp
      ultimately have c4: "call_ok p {np} X s4" "no_maps (procs (pt s4) p)"
        using fork_fds_counts [OF _ np(1) ne _ _ s4] by auto
      have "s5 = s4" by (rule fork_maps_none [OF s5 c4(2)])
      then have "\<exists>d. t = (let s = s4\<lparr>fsx := idup d (fsx s4)\<rparr>; s = upd_me np (\<lambda>x. x\<lparr>pcwd := Some d\<rparr>) s
          in s\<lparr>pt := snd (start_child p np (pt s))\<rparr>)"
        using assms(5) False s4 s5
        by (auto simp: fork_def a Some u bindS_eq_Inr Let_def s3_def [symmetric] split: option.splits prod.splits) (metis snd_conv)
      then obtain d where t: "t = (let s = s4\<lparr>fsx := idup d (fsx s4)\<rparr>; s = upd_me np (\<lambda>x. x\<lparr>pcwd := Some d\<rparr>) s
          in s\<lparr>pt := snd (start_child p np (pt s))\<rparr>)" by blast
      have "same_refs s4 (upd_me np (\<lambda>x. x\<lparr>pcwd := Some d\<rparr>) (s4\<lparr>fsx := idup d (fsx s4)\<rparr>))" by (auto intro!: keep)
      then have "files_ok {np} X (upd_me np (\<lambda>x. x\<lparr>pcwd := Some d\<rparr>) (s4\<lparr>fsx := idup d (fsx s4)\<rparr>))"
        using c4(1) by (auto simp: call_ok_def intro: files_ok_same)
      from start_child_counts [OF this ne] show ?thesis by (simp add: t Let_def)
    qed
  qed
qed

lemma exit_release_counts:
  assumes "call_ok p {} X s" and "no_maps (procs (pt s) p)" and "exit_release kend p s = (Inr (), t)"
  shows "call_ok p {} X t" "holds_nothing (procs (pt t) p)"
proof -
  obtain s1 s2 where s1: "forS (exit_fd kend p) [0..<NOFILE] s = (Inr (), s1)"
    and s2: "forS (exit_map kend p) [0..<MMAP_NUM] s1 = (Inr (), s2)"
    using assms(3) by (auto simp: exit_release_def bindS_eq_Inr)
  let ?I = "\<lambda>i u. call_ok p {} X u \<and> (\<forall>j<i. ofile (procs (pt u) p) j = None) \<and> no_maps (procs (pt u) p)"
  have i1: "?I NOFILE s1"
  proof (rule forS_upt [OF s1, of ?I])
    show "?I 0 s" using assms by simp
  next
    fix i u v assume i: "i < NOFILE" "?I i u" "exit_fd kend p i u = (Inr (), v)"
    show "?I (Suc i) v"
    proof (cases "ofile (procs (pt u) p) i")
      case None
      then show ?thesis using i by (auto simp: exit_fd_def less_Suc_eq)
    next
      case (Some f)
      then obtain w where w: "fileclose kend p f u = (Inr (), w)" "v = set_fd p i None w"
        using i(3) by (auto simp: exit_fd_def bindS_eq_Inr)
      have r: "same_refs (upd_file f (\<lambda>x. x\<lparr>f_ref := f_ref x - 1\<rparr>) u) w" by (rule fileclose_refs [OF w(1)])
      then have "ofile (procs (pt w) p) = ofile (procs (pt u) p)" "no_maps (procs (pt w) p) = no_maps (procs (pt u) p)"
        using no_maps_refs [OF r] by (auto simp: same_refs_def upd_file_def)
      then show ?thesis
        using i close_fd_counts [OF _ i(1) Some w(1)] by (auto simp: w(2) set_fd_def no_maps_def less_Suc_eq)
    qed
  qed
  have e: "s2 = s1"
    by (rule forS_upt [OF s2, of "\<lambda>i u. u = s1"]) (use i1 in \<open>auto simp: exit_map_def no_maps_def\<close>)
  have "keeps s1 (bindS (in_fs (begin_op ROOTDEV) s1) (\<lambda>_ s.
       case pcwd (procs (pt s) p) of
         None \<Rightarrow> (Inl (Wild ''iput: cwd''), s)
       | Some d \<Rightarrow>
           bindS (in_fs (iput (my_pid p s) d) s) (\<lambda>_ s.
           bindS (in_fs (end_op (my_pid p s) ROOTDEV) s) (\<lambda>_ s.
             (Inr (), upd_me p (\<lambda>x. x\<lparr>pcwd := None\<rparr>) s)))))"
    by (auto intro!: keep split: option.splits)
  then have k: "same_refs s1 t" using assms(3) s1 s2 e by (simp add: exit_release_def)
  then show "call_ok p {} X t" using i1 by (auto intro: call_ok_same)
  show "holds_nothing (procs (pt t) p)"
    using i1 k no_maps_refs [OF k, of p] by (simp add: holds_nothing_def no_maps_def same_refs_def)
qed

lemma exit_procs:
  "ofile (procs (exit_finish c p pp st u) q) = ofile (procs u q)"
  "minfo (procs (exit_finish c p pp st u) q) = minfo (procs u q)"
  "q \<noteq> p \<Longrightarrow> dead (procs (exit_finish c p pp st u) q) = dead (procs u q)"
  "ofile (procs (exit_wake_init u) q) = ofile (procs u q)" "minfo (procs (exit_wake_init u) q) = minfo (procs u q)"
  "dead (procs (exit_wake_init u) q) = dead (procs u q)"
  by (simp_all add: exit_finish_def exit_wake_init_def Let_def reparent_eq wakeup1_eq) (simp_all add: dead_def)

lemma exit_counts:
  assumes "files_ok {} X s" and "p < NPROC" "\<not> dead (procs (pt s) p)" and "no_maps (procs (pt s) p)"
    and "exit kend c p status s = (Inr (), t)"
  shows "files_ok {} X t"
proof -
  obtain s1 where s1: "exit_release kend p s = (Inr (), s1)"
    using assms(5) by (auto simp: exit_def bindS_eq_Inr split: if_splits)
  have c: "call_ok p {} X s1" "holds_nothing (procs (pt s1) p)"
    using exit_release_counts [OF _ assms(4) s1] assms(1-3) by (auto simp: call_ok_def)
  obtain pp where t: "t = upd_pt (exit_finish c p pp status) (upd_pt exit_wake_init s1)"
    using assms(5) s1 by (auto simp: exit_def Let_def split: if_splits option.splits)
  have o: "ofile (procs (pt t) q) = ofile (procs (pt s1) q)" "minfo (procs (pt t) q) = minfo (procs (pt s1) q)"
    "q \<noteq> p \<Longrightarrow> dead (procs (pt t) q) = dead (procs (pt s1) q)" for q
    by (simp_all add: t exit_procs)
  have ft: "ftable t = ftable s1" by (simp add: t upd_pt_def)
  have "held t f = held s1 f" for f by (simp add: held_def holds_def o)
  then have "files_ok {p} X t"
    using c(1) o by (auto simp: call_ok_def files_ok_def proc_files_ok_def holds_nothing_def ft)
  moreover have "holds_nothing (procs (pt t) p)" using c(2) o by (simp add: holds_nothing_def)
  ultimately show ?thesis by (rule files_ok_live [OF _ disjI2])
qed

section \<open>All system calls\<close>

lemma returns_counts:
  "counts p S X m \<Longrightarrow> counts p S X (returns_int m)"
  "counts p S X n \<Longrightarrow> counts p S X (returns_word n)"
  unfolding returns_int_def returns_word_def by (erule counts_bind; simp)+

lemma sys_wait_counts: "call_ok p S X s \<Longrightarrow> counts p S X (sys_wait kend c p s)"
  unfolding counts_def by (blast intro: call_ok_same sys_wait_keeps)

lemma sys_sleep_counts: "call_ok p S X s \<Longrightarrow> counts p S X (sys_sleep c p s)"
  by (auto simp: sys_sleep_def sleep_until_def)

lemma call_ntas_counts: "call_ok p S X s \<Longrightarrow> counts p S X (call_ntas p s)"
  by (auto simp: call_ntas_def same_refs_def intro: call_ok_same split: prod.splits sum.splits)

lemma call_counts:
  assumes "call_ok p {} X s" and "syscalls y pad c p num = Some g" and "num \<noteq> 1" "num \<noteq> 2"
  shows "counts p {} X (g s)"
proof -
  note k = counts_keep [OF assms(1)] and c = assms(1)
  have n: "num \<in> {3, 4, 5, 6, 7, 8, 9, 10, 11, 12, 13, 14, 15, 16, 17, 18, 19, 20, 21, 22, 23, 24, 25}"
    using assms(2-4) by (auto simp: syscalls_def Let_def split: if_splits)
  show ?thesis
    by (insert n assms(2), elim insertE emptyE; simp add: syscalls_def Let_def; hypsubst; (intro returns_counts)?;
        (rule sys_wait_counts [OF c] sys_sleep_counts [OF c] call_ntas_counts [OF c] sys_dup_counts [OF c] sys_close_counts [OF c]
           sys_pipe_counts [OF c] sys_open_counts [OF c] sys_connect_counts [OF c] sys_mmap_counts [OF c] sys_munmap_counts [OF c] |
         (rule k, intro keep same_refs_refl) | simp add: c))
qed

text \<open>C7: Every system call that returns leaves each file's reference count equal to the number of
  descriptors and mappings that refer to it, descriptors and mappings within the tables, and
  dead processes without files.  \<open>fork\<close> and \<open>exit\<close> are included for a process without mappings.\<close>

theorem system_calls_count_files:
  assumes "files_ok {} {#} s" and "p < NPROC" and "\<not> dead (procs (pt s) p)"
    and "syscalls y pad c p num = Some g" and "g s = (Inr r, t)"
    and "num = 1 \<or> num = 2 \<Longrightarrow> no_maps (procs (pt s) p)"
  shows "files_ok {} {#} t"
proof -
  consider "num = 1" | "num = 2" | "num \<noteq> 1" "num \<noteq> 2" by blast
  then show ?thesis
  proof cases
    case 1
    then show ?thesis
      using assms by (auto simp: syscalls_def Let_def returns_int_def bindS_eq_Inr dest: fork_counts)
  next
    case 2
    then show ?thesis
      using assms by (auto simp: syscalls_def Let_def sys_exit_def bindS_eq_Inr dest: exit_counts)
  next
    case 3
    then have "counts p {} {#} (g s)" using assms by (intro call_counts) (auto simp: call_ok_def)
    then show ?thesis using assms(5) by (simp add: counts_def call_ok_def)
  qed
qed

text \<open>Process 0 has file 0 open as descriptor 0; it duplicates the descriptor.\<close>

definition no_file :: kfile where
  "no_file = \<lparr>f_type = FD_NONE, f_ref = 0, f_readable = False, f_writable = False, f_pipe = 0, f_ip = 0, f_sock = 0, f_off = 0,
     f_major = 0, f_minor = 0\<rparr>"

definition no_sync :: ksync where
  "no_sync = \<lparr>cpus = \<lambda>_. \<lparr>noff = 0, intena = False, sie = False\<rparr>,
     spins = \<lambda>_. \<lparr>locked = False, lk_name = [], lk_cpu = None, lk_n = 0, lk_nts = 0\<rparr>, locks = []\<rparr>"

definition kernel0 :: trapst where
  "kernel0 = kernel.extend
     (netst.extend (net0 one_page (upd_proc 0 (\<lambda>x. x\<lparr>pstate := RUNNING\<rparr>) boot_procs))
       (kernel.fields (fs_boot (\<lambda>_ _. 0)) cons0 (\<lambda>_. no_file) 0))
     (trapst.fields no_sync 0 0 0 0 0 0 0)"

definition kernel1 :: trapst where
  "kernel1 = set_fd 0 0 (Some 0) (upd_file 0 (\<lambda>x. x\<lparr>f_ref := 1\<rparr>) kernel0)"

lemma kernel0_simps:
  "ftable kernel0 = (\<lambda>_. no_file)" "pt kernel0 = upd_proc 0 (\<lambda>x. x\<lparr>pstate := RUNNING\<rparr>) boot_procs"
  "km kernel0 = one_page\<lparr>freelist := pg 18, knext := \<lambda>_. 0, ref_count := \<lambda>_. 0\<rparr>"
  by (simp_all add: kernel0_def netst.extend_def kernel.extend_def kernel.fields_def trapst.fields_def net0_def)

lemma ftable_upd_me [simp]: "ftable (upd_me p g s) = ftable s"
  by (simp add: upd_me_def upd_pt_def)

lemma kernel1_ok: "files_ok {} {#} kernel1"
proof -
  have n: "holds (procs (pt kernel0) q) f = 0" for q f
    by (simp add: holds_def kernel0_simps boot_procs_def)
  have "files_ok {} {#} kernel0"
    by (simp add: files_ok_def held_def n proc_files_ok_def holds_nothing_def) (simp add: kernel0_simps no_file_def boot_procs_def)
  then have "call_ok 0 {} {#} kernel0" by (simp add: call_ok_def kernel0_simps NPROC_def dead_def)
  moreover have "filealloc kernel0 = (Some 0, upd_file 0 (\<lambda>x. x\<lparr>f_ref := 1\<rparr>) kernel0)"
    by (simp add: filealloc_def kernel0_simps no_file_def NFILE_def upt_conv_Cons)
  ultimately have "call_ok 0 {} {#0#} (upd_file 0 (\<lambda>x. x\<lparr>f_ref := 1\<rparr>) kernel0)" using filealloc_counts by fastforce
  then show ?thesis
    unfolding kernel1_def call_ok_def
    by (intro set_fd_some_counts) (simp_all add: upd_file_def kernel0_simps boot_procs_def NOFILE_def)
qed

definition symbols0 :: symbols where
  "symbols0 = \<lparr>y_end = 0x80021000, y_trampoline = 0, y_uservec = 0, y_userret = 0, y_usertrap = 0, y_kernelvec = 0\<rparr>"

theorem system_calls_count_files_witness:
  "\<exists>(g :: trapst \<Rightarrow> (kfault, u64 option, trapst) outcome) t. syscalls symbols0 [] 0 0 10 = Some g \<and> g kernel1 = (Inr (Some 1), t) \<and> files_ok {} {#} t"
proof -
  have a: "tf_get 0 TF_A0 kernel1 = 0"
    by (simp add: tf_get_def kernel1_def kernel0_simps set_fd_def upd_file_def one_page_def empty_kmem_def load64_def boot_procs_def)
  obtain g :: "trapst \<Rightarrow> (kfault, u64 option, trapst) outcome" where g: "syscalls symbols0 [] 0 0 10 = Some g" "g = (\<lambda>s. returns_int (sys_dup 0 s))"
    by (simp add: syscalls_def Let_def)
  have "\<exists>t. g kernel1 = (Inr (Some 1), t)"
    using a
    by (simp add: g(2) returns_int_def sys_dup_def with_fd_def argfd_def fdalloc_def NOFILE_def upt_conv_Cons kernel1_def set_fd_def
        upd_file_def kernel0_simps boot_procs_def filedup_def)
  then obtain t where t: "g kernel1 = (Inr (Some 1), t)" by blast
  have "files_ok {} {#} t"
    by (rule system_calls_count_files [OF kernel1_ok _ _ g(1) t]) (simp_all add: NPROC_def kernel1_def kernel0_simps set_fd_def upd_file_def dead_def)
  then show ?thesis using g(1) t by blast
qed

section \<open>Killing pid 0\<close>

lemma kill_from_free:
  assumes "\<forall>q \<in> set qs. pid (procs t q) = 0 \<longleftrightarrow> pstate (procs t q) = UNUSED"
    and "filter (\<lambda>p. pstate (procs t p) = UNUSED) qs = np # nps"
  shows "kill_from 0 qs t = (0, upd_proc np (\<lambda>x. x\<lparr>killed := True\<rparr>) t)"
  using assms by (induction qs) (auto simp: Let_def split: if_splits)

text \<open>C37: \<open>kill(0)\<close> succeeds when there is a free slot of the process table: it finds the pid 0 that
  free slots have.  The next process is made in that slot and is born killed, \<open>fork\<close> starting it
  as such.\<close>

theorem kill_zero_kills_next_process:
  assumes "\<forall>q<NPROC. pid (procs t q) = 0 \<longleftrightarrow> pstate (procs t q) = UNUSED" and "alloc_slot t = Some (np, u)"
  shows "\<exists>v. fst (kill 0 t) = 0 \<and> alloc_slot (snd (kill 0 t)) = Some (np, v) \<and> killed (procs (snd (start_child p np v)) np)"
proof -
  obtain nps where f: "filter (\<lambda>p. pstate (procs t p) = UNUSED) [0..<NPROC] = np # nps"
    using assms(2) by (auto simp: alloc_slot_def split: list.splits prod.splits)
  have k: "kill 0 t = (0, upd_proc np (\<lambda>x. x\<lparr>killed := True\<rparr>) t)"
    unfolding kill_def by (rule kill_from_free [OF _ f]) (use assms(1) in auto)
  have "pstate (procs (upd_proc np (\<lambda>x. x\<lparr>killed := True\<rparr>) t) q) = pstate (procs t q)" for q by simp
  then show ?thesis
    using f by (simp only: k alloc_slot_def) (simp add: allocpid_def start_child_def Let_def)
qed

text \<open>The table after \<open>procinit\<close>.\<close>

theorem kill_zero_kills_next_process_witness:
  "\<exists>v. fst (kill 0 boot_procs) = 0 \<and> alloc_slot (snd (kill 0 boot_procs)) = Some (0, v) \<and>
     killed (procs (snd (start_child 1 0 v)) 0)"
proof -
  have "\<exists>u. alloc_slot boot_procs = Some (0, u)"
    by (simp add: alloc_slot_def boot_procs_def NPROC_def upt_conv_Cons allocpid_def)
  then obtain u where u: "alloc_slot boot_procs = Some (0, u)" ..
  show ?thesis by (rule kill_zero_kills_next_process [OF _ u]) (simp add: boot_procs_def)
qed

end
