(* ===== verification/Xv7_Virtio.thy ===== *)
theory Xv7_Virtio
  imports Xv7_Pipe
begin

text \<open>
  The virtio disk driver \<open>xv7/kernel/virtio_disk.c\<close> of one disk.  The disk's lock makes the code between two calls of
  \<open>sleep\<close> one step: \<open>rw_start\<close> runs from the start of \<open>virtio_disk_rw\<close>, or from a wakeup in its first loop,
  until it sleeps for descriptors or has submitted the request and sleeps for its end; \<open>rw_finish\<close>
  is the rest; \<open>virtio_disk_intr\<close> is a step.  The headers on the kernel stacks, the data of the buffers and the
  status bytes are memory by physical address; \<open>places\<close> says where they are.
\<close>

section \<open>State\<close>

definition NUM :: nat where "NUM = 8"
definition BSIZE :: u32 where "BSIZE = 1024"

definition VRING_DESC_F_NEXT :: u16 where "VRING_DESC_F_NEXT = 1"
definition VRING_DESC_F_WRITE :: u16 where "VRING_DESC_F_WRITE = 2"
definition VIRTIO_BLK_T_IN :: u32 where "VIRTIO_BLK_T_IN = 0"
definition VIRTIO_BLK_T_OUT :: u32 where "VIRTIO_BLK_T_OUT = 1"

record vring_desc =
  d_addr :: u64
  d_len :: u32
  d_flags :: u16
  d_next :: u16

record blk_outhdr =
  h_type :: u32
  h_reserved :: u32
  h_sector :: u64

type_synonym sector_data = "nat \<Rightarrow> u8"

record vdisk =
  desc :: "nat \<Rightarrow> vring_desc"
  avail_idx :: u16
  avail_ring :: "nat \<Rightarrow> u16"
  used_id :: u16
  used_elems :: "nat \<Rightarrow> u32"
  d_free :: "nat \<Rightarrow> bool"
  used_idx :: u16
  info_b :: "nat \<Rightarrow> nat option"
  d_init :: bool
  b_disk :: "nat \<Rightarrow> bool"
  b_blockno :: "nat \<Rightarrow> u32"
  hdr_at :: "u64 \<Rightarrow> blk_outhdr"
  data_at :: "u64 \<Rightarrow> sector_data"
  status_at :: "u64 \<Rightarrow> u8"

text \<open>The physical addresses of \<open>buf0\<close> of a process, of a buffer's data, and of \<open>info[i].status\<close>.\<close>

record places =
  hdr_pa :: "nat \<Rightarrow> u64"
  data_pa :: "nat \<Rightarrow> u64"
  status_pa :: "nat \<Rightarrow> u64"

definition sector :: "nat \<Rightarrow> vdisk \<Rightarrow> u64" where
  "sector b s = ucast (b_blockno s b * (BSIZE div 512))"

definition upd_desc :: "nat \<Rightarrow> (vring_desc \<Rightarrow> vring_desc) \<Rightarrow> vdisk \<Rightarrow> vdisk" where
  "upd_desc i f s = s\<lparr>desc := (desc s)(i := f (desc s i))\<rparr>"

section \<open>Initialisation\<close>

text \<open>
  The device's registers are read through \<open>reg\<close>; the writes are returned in order.  \<open>pages\<close> is the address of the
  memory of the rings, which is cleared.
\<close>

definition VIRTIO_MMIO_MAGIC_VALUE :: u32 where "VIRTIO_MMIO_MAGIC_VALUE = 0x000"
definition VIRTIO_MMIO_VERSION :: u32 where "VIRTIO_MMIO_VERSION = 0x004"
definition VIRTIO_MMIO_DEVICE_ID :: u32 where "VIRTIO_MMIO_DEVICE_ID = 0x008"
definition VIRTIO_MMIO_VENDOR_ID :: u32 where "VIRTIO_MMIO_VENDOR_ID = 0x00c"
definition VIRTIO_MMIO_DEVICE_FEATURES :: u32 where "VIRTIO_MMIO_DEVICE_FEATURES = 0x010"
definition VIRTIO_MMIO_DRIVER_FEATURES :: u32 where "VIRTIO_MMIO_DRIVER_FEATURES = 0x020"
definition VIRTIO_MMIO_GUEST_PAGE_SIZE :: u32 where "VIRTIO_MMIO_GUEST_PAGE_SIZE = 0x028"
definition VIRTIO_MMIO_QUEUE_SEL :: u32 where "VIRTIO_MMIO_QUEUE_SEL = 0x030"
definition VIRTIO_MMIO_QUEUE_NUM_MAX :: u32 where "VIRTIO_MMIO_QUEUE_NUM_MAX = 0x034"
definition VIRTIO_MMIO_QUEUE_NUM :: u32 where "VIRTIO_MMIO_QUEUE_NUM = 0x038"
definition VIRTIO_MMIO_QUEUE_PFN :: u32 where "VIRTIO_MMIO_QUEUE_PFN = 0x040"
definition VIRTIO_MMIO_STATUS :: u32 where "VIRTIO_MMIO_STATUS = 0x070"

definition VIRTIO_CONFIG_S_ACKNOWLEDGE :: u32 where "VIRTIO_CONFIG_S_ACKNOWLEDGE = 1"
definition VIRTIO_CONFIG_S_DRIVER :: u32 where "VIRTIO_CONFIG_S_DRIVER = 2"
definition VIRTIO_CONFIG_S_DRIVER_OK :: u32 where "VIRTIO_CONFIG_S_DRIVER_OK = 4"
definition VIRTIO_CONFIG_S_FEATURES_OK :: u32 where "VIRTIO_CONFIG_S_FEATURES_OK = 8"

definition clear_feature :: "nat \<Rightarrow> u64 \<Rightarrow> u64" where
  "clear_feature k f = f AND NOT (push_bit k 1)"

definition virtio_disk_init :: "(u32 \<Rightarrow> u32) \<Rightarrow> u64 \<Rightarrow> vdisk \<Rightarrow> (kfault, (u32 \<times> u32) list, vdisk) outcome" where
  "virtio_disk_init reg pages s =
     (if d_init s then (Inr [], s)
      else if reg VIRTIO_MMIO_MAGIC_VALUE \<noteq> 0x74726976 \<or> reg VIRTIO_MMIO_VERSION \<noteq> 1 \<or>
              reg VIRTIO_MMIO_DEVICE_ID \<noteq> 2 \<or> reg VIRTIO_MMIO_VENDOR_ID \<noteq> 0x554d4551
      then (Inl (Panic ''could not find virtio disk''), s)
      else
        let st1 = VIRTIO_CONFIG_S_ACKNOWLEDGE; st2 = st1 OR VIRTIO_CONFIG_S_DRIVER;
            features = clear_feature 28 (clear_feature 29 (clear_feature 27 (clear_feature 12
              (clear_feature 11 (clear_feature 7 (clear_feature 5 (ucast (reg VIRTIO_MMIO_DEVICE_FEATURES))))))));
            st3 = st2 OR VIRTIO_CONFIG_S_FEATURES_OK; st4 = st3 OR VIRTIO_CONFIG_S_DRIVER_OK;
            w = [(VIRTIO_MMIO_STATUS, st1), (VIRTIO_MMIO_STATUS, st2), (VIRTIO_MMIO_DRIVER_FEATURES, ucast features),
                 (VIRTIO_MMIO_STATUS, st3), (VIRTIO_MMIO_STATUS, st4), (VIRTIO_MMIO_GUEST_PAGE_SIZE, 4096),
                 (VIRTIO_MMIO_QUEUE_SEL, 0)]
        in if reg VIRTIO_MMIO_QUEUE_NUM_MAX = 0 then (Inl (Panic ''virtio disk has no queue 0''), s)
           else if reg VIRTIO_MMIO_QUEUE_NUM_MAX < of_nat NUM then (Inl (Panic ''virtio disk max queue too short''), s)
           else (Inr (w @ [(VIRTIO_MMIO_QUEUE_NUM, of_nat NUM), (VIRTIO_MMIO_QUEUE_PFN, ucast (drop_bit 12 pages))]),
                 s\<lparr>desc := \<lambda>_. \<lparr>d_addr = 0, d_len = 0, d_flags = 0, d_next = 0\<rparr>, avail_idx := 0, avail_ring := \<lambda>_. 0,
                   used_id := 0, used_elems := \<lambda>_. 0, d_free := \<lambda>i. i < NUM \<or> d_free s i, d_init := True\<rparr>))"

section \<open>Descriptors\<close>

definition alloc_desc :: "vdisk \<Rightarrow> nat option \<times> vdisk" where
  "alloc_desc s =
     (case filter (d_free s) [0..<NUM] of
        [] \<Rightarrow> (None, s)
      | i # _ \<Rightarrow> (Some i, s\<lparr>d_free := (d_free s)(i := False)\<rparr>))"

definition free_desc :: "nat \<Rightarrow> vdisk \<Rightarrow> (kfault, unit, vdisk) outcome" where
  "free_desc i s =
     (if NUM \<le> i then (Inl (Panic ''virtio_disk_intr 1''), s)
      else if d_free s i then (Inl (Panic ''virtio_disk_intr 2''), s)
      else (Inr (), (upd_desc i (\<lambda>d. d\<lparr>d_addr := 0\<rparr>) s)\<lparr>d_free := (d_free s)(i := True)\<rparr>))"

lemma free_desc_Inr:
  assumes "free_desc i s = (Inr u, t)"
  shows "i < NUM" "\<not> d_free s i" "d_free t = (d_free s)(i := True)"
  using assms by (auto simp: free_desc_def split: if_splits)

function free_chain :: "nat \<Rightarrow> vdisk \<Rightarrow> (kfault, unit, vdisk) outcome" where
  "free_chain i s =
     (case free_desc i s of
        (Inl e, s) \<Rightarrow> (Inl e, s)
      | (Inr _, t) \<Rightarrow>
          if d_flags (desc t i) AND VRING_DESC_F_NEXT \<noteq> 0 then free_chain (unat (d_next (desc t i))) t else (Inr (), t))"
  by auto
termination
proof (relation "measure (\<lambda>(i, s). card {i. i < NUM \<and> \<not> d_free s i})", goal_cases)
  case (2 i s r t' u)
  then have f: "i < NUM" "\<not> d_free s i" "d_free t' = (d_free s)(i := True)" using free_desc_Inr [of i s _ t'] by auto
  then have "{j. j < NUM \<and> \<not> d_free t' j} \<subset> {j. j < NUM \<and> \<not> d_free s j}" by auto
  then show ?case by (simp add: psubset_card_mono)
qed simp

fun free_all :: "nat list \<Rightarrow> vdisk \<Rightarrow> (kfault, unit, vdisk) outcome" where
  "free_all [] s = (Inr (), s)"
| "free_all (i # is) s = bindS (free_desc i s) (\<lambda>_. free_all is)"

text \<open>\<open>alloc3_desc\<close>, with \<open>n\<close> descriptors to go: the indices, or \<open>None\<close> after giving back those it got.\<close>

fun alloc3_from :: "nat \<Rightarrow> nat list \<Rightarrow> vdisk \<Rightarrow> (kfault, nat list option, vdisk) outcome" where
  "alloc3_from 0 idx s = (Inr (Some idx), s)"
| "alloc3_from (Suc n) idx s =
     (case alloc_desc s of
        (Some i, s) \<Rightarrow> alloc3_from n (idx @ [i]) s
      | (None, s) \<Rightarrow> bindS (free_all idx s) (\<lambda>_ s. (Inr None, s)))"

definition alloc3_desc :: "vdisk \<Rightarrow> (kfault, nat list option, vdisk) outcome" where
  "alloc3_desc s = alloc3_from 3 [] s"

section \<open>Requests\<close>

text \<open>Filling in the descriptors \<open>i\<close>, \<open>j\<close>, \<open>k\<close> for process \<open>p\<close> and telling the device.\<close>

definition rw_submit :: "places \<Rightarrow> nat \<Rightarrow> nat \<Rightarrow> bool \<Rightarrow> nat \<Rightarrow> nat \<Rightarrow> nat \<Rightarrow> vdisk \<Rightarrow> vdisk" where
  "rw_submit pl p b write i j k s =
     (let s = s\<lparr>hdr_at := (hdr_at s)(hdr_pa pl p :=
            \<lparr>h_type = if write then VIRTIO_BLK_T_OUT else VIRTIO_BLK_T_IN, h_reserved = 0, h_sector = sector b s\<rparr>)\<rparr>;
          s = upd_desc i (\<lambda>_. \<lparr>d_addr = hdr_pa pl p, d_len = 16, d_flags = VRING_DESC_F_NEXT, d_next = of_nat j\<rparr>) s;
          s = upd_desc j (\<lambda>_. \<lparr>d_addr = data_pa pl b, d_len = BSIZE,
                d_flags = (if write then 0 else VRING_DESC_F_WRITE) OR VRING_DESC_F_NEXT, d_next = of_nat k\<rparr>) s;
          s = s\<lparr>status_at := (status_at s)(status_pa pl i := 0)\<rparr>;
          s = upd_desc k (\<lambda>_. \<lparr>d_addr = status_pa pl i, d_len = 1, d_flags = VRING_DESC_F_WRITE, d_next = 0\<rparr>) s;
          s = s\<lparr>b_disk := (b_disk s)(b := True)\<rparr>;
          s = s\<lparr>info_b := (info_b s)(i := Some b)\<rparr>;
          s = s\<lparr>avail_ring := (avail_ring s)(unat (avail_idx s) mod NUM := of_nat i)\<rparr>
      in s\<lparr>avail_idx := avail_idx s + 1\<rparr>)"

text \<open>The result is the three descriptors, or \<open>None\<close> when the caller goes to sleep for free ones.\<close>

definition rw_start :: "places \<Rightarrow> nat \<Rightarrow> nat \<Rightarrow> bool \<Rightarrow> vdisk \<Rightarrow> (kfault, (nat \<times> nat \<times> nat) option, vdisk) outcome" where
  "rw_start pl p b write s =
     bindS (alloc3_desc s) (\<lambda>r s. case r of
         Some [i, j, k] \<Rightarrow> (Inr (Some (i, j, k)), rw_submit pl p b write i j k s)
       | _ \<Rightarrow> (Inr None, s))"

definition rw_finish :: "nat \<Rightarrow> vdisk \<Rightarrow> (kfault, unit, vdisk) outcome" where
  "rw_finish i s = free_chain i (s\<lparr>info_b := (info_b s)(i := None)\<rparr>)"

section \<open>The interrupt\<close>

definition intr_turn :: "places \<Rightarrow> vdisk \<Rightarrow> (kfault, unit, vdisk) outcome" where
  "intr_turn pl s =
     (let i = unat (used_elems s (unat (used_idx s))) in
      if status_at s (status_pa pl i) \<noteq> 0 then (Inl (Panic ''virtio_disk_intr status''), s)
      else case info_b s i of
             None \<Rightarrow> (Inl (Wild ''info[id].b''), s)
           | Some b \<Rightarrow> (Inr (), s\<lparr>b_disk := (b_disk s)(b := False), used_idx := of_nat ((unat (used_idx s) + 1) mod NUM)\<rparr>))"

lemma intr_turn_idx:
  assumes "intr_turn pl s = (Inr u, t)"
  shows "used_id t = used_id s" "unat (used_idx t) = (unat (used_idx s) + 1) mod NUM"
proof -
  have "(unat (used_idx s) + 1) mod NUM < 2 ^ 16" by (rule less_trans [of _ NUM]) (simp_all add: NUM_def)
  then show "used_id t = used_id s" "unat (used_idx t) = (unat (used_idx s) + 1) mod NUM"
    using assms by (auto simp: intr_turn_def Let_def unat_of_nat split: if_splits option.splits)
qed

lemma turns_left:
  fixes x y n :: nat
  assumes "x \<noteq> y" and "x < n" and "y < n"
  shows "(y + n - (x + 1) mod n) mod n < (y + n - x) mod n"
proof (cases "y < x")
  case True
  then have "(y + n - x) mod n = y + n - x" using assms by simp
  moreover have "(y + n - (x + 1) mod n) mod n = y + n - x - 1"
  proof (cases "x + 1 = n")
    case False
    then show ?thesis using True assms by simp
  qed (use assms in simp)
  ultimately show ?thesis using assms by simp
next
  case False
  then have "x < y" "x + 1 < n" using assms by auto
  then have "y + n - x = (y - x) + n" "y + n - (x + 1) = (y - (x + 1)) + n" by auto
  moreover have "(y - x + n) mod n = y - x" "(y - (x + 1) + n) mod n = y - (x + 1)" using assms by (simp_all del: diff_diff_left)
  ultimately show ?thesis using \<open>x < y\<close> \<open>x + 1 < n\<close> by simp
qed

function virtio_disk_intr :: "places \<Rightarrow> vdisk \<Rightarrow> (kfault, unit, vdisk) outcome" where
  "virtio_disk_intr pl s =
     (if unat (used_idx s) mod NUM \<noteq> unat (used_id s) mod NUM then
        case intr_turn pl s of
          (Inl e, s) \<Rightarrow> (Inl e, s)
        | (Inr _, t) \<Rightarrow> virtio_disk_intr pl t
      else (Inr (), s))"
  by auto
termination
proof (relation "measure (\<lambda>(pl, s). (unat (used_id s) mod NUM + NUM - unat (used_idx s) mod NUM) mod NUM)", goal_cases)
  case (2 pl s r t' u)
  have "intr_turn pl s = (Inr u, t')" using 2(2,3) by simp
  from intr_turn_idx [OF this] have i: "used_id t' = used_id s" "unat (used_idx t') = (unat (used_idx s) + 1) mod NUM" .
  have n: "0 < NUM" by (simp add: NUM_def)
  have "(unat (used_idx s) + 1) mod NUM = (unat (used_idx s) mod NUM + 1) mod NUM" by (simp add: mod_simps)
  then show ?case
    using turns_left [OF 2(1), of NUM] n by (simp add: i)
qed simp

end
