(* ===== verification/Xv7_Disk.thy ===== *)
theory Xv7_Disk
  imports Xv7_Bio Xv7_Proc Xv7_Virtio
begin

text \<open>
  The processes, the device and the interrupts of one virtio disk, in any interleaving.  A process is in no call of
  \<open>virtio_disk_rw\<close>, asleep for descriptors or asleep for the end of its request.  The device, which is not part of the
  code, takes requests from the available ring and carries them out in any order: it reads or writes the data that
  the chain of descriptors names, stores the status 0 and puts the head of the chain on the used ring, as the
  virtio specification says.  What a read brings is arbitrary.  The device's transfers and the completed calls are
  recorded, to compare them.
\<close>

section \<open>Interleavings\<close>

datatype rw_stage = NoCall | AwaitDesc nat bool | AwaitDevice nat nat nat nat bool

type_synonym transfer = "blk_outhdr \<times> sector_data"

record disksys =
  vd :: vdisk
  dev_next :: u16
  dev_taken :: "nat list"
  dev_log :: "(u64 \<times> transfer) list"
  callers :: "nat \<Rightarrow> rw_stage"
  rw_log :: "nat \<Rightarrow> transfer list"

definition takes_next :: "disksys \<Rightarrow> disksys" where
  "takes_next s = s\<lparr>dev_taken := dev_taken s @ [unat (avail_ring (vd s) (unat (dev_next s) mod NUM))], dev_next := dev_next s + 1\<rparr>"

definition carries_out :: "nat \<Rightarrow> sector_data \<Rightarrow> disksys \<Rightarrow> disksys" where
  "carries_out i d s =
     (let v = vd s; d0 = desc v i; d1 = desc v (unat (d_next d0)); d2 = desc v (unat (d_next d1)); h = hdr_at v (d_addr d0);
          x = (if h_type h = VIRTIO_BLK_T_IN then d else data_at v (d_addr d1))
      in s\<lparr>vd := v\<lparr>data_at := (data_at v)(d_addr d1 := x), status_at := (status_at v)(d_addr d2 := 0),
                    used_elems := (used_elems v)(unat (used_id v) mod NUM := of_nat i), used_id := used_id v + 1\<rparr>,
           dev_taken := remove1 i (dev_taken s), dev_log := dev_log s @ [(d_addr d0, h, x)]\<rparr>)"

definition after_start :: "nat \<Rightarrow> bool \<Rightarrow> (nat \<times> nat \<times> nat) option \<Rightarrow> rw_stage" where
  "after_start b w r = (case r of None \<Rightarrow> AwaitDesc b w | Some (i, j, k) \<Rightarrow> AwaitDevice i j k b w)"

definition rw_header :: "nat \<Rightarrow> bool \<Rightarrow> vdisk \<Rightarrow> blk_outhdr" where
  "rw_header b w v = \<lparr>h_type = if w then VIRTIO_BLK_T_OUT else VIRTIO_BLK_T_IN, h_reserved = 0, h_sector = sector b v\<rparr>"

definition after_finish :: "places \<Rightarrow> nat \<Rightarrow> nat \<Rightarrow> bool \<Rightarrow> vdisk \<Rightarrow> disksys \<Rightarrow> disksys" where
  "after_finish pl p b w v s =
     s\<lparr>vd := v, callers := (callers s)(p := NoCall),
       rw_log := (rw_log s)(p := rw_log s p @ [(rw_header b w (vd s), data_at (vd s) (data_pa pl b))])\<rparr>"

fun buffer_of :: "rw_stage \<Rightarrow> nat option" where
  "buffer_of NoCall = None"
| "buffer_of (AwaitDesc b w) = Some b"
| "buffer_of (AwaitDevice i j k b w) = Some b"

text \<open>The caller of \<open>virtio_disk_rw\<close> holds the lock of the buffer, so nobody else passes or edits it.\<close>

definition idle_buffer :: "nat \<Rightarrow> disksys \<Rightarrow> bool" where
  "idle_buffer b s \<longleftrightarrow> b < NBUF \<and> (\<forall>q \<in> set [0..<NPROC]. buffer_of (callers s q) \<noteq> Some b)"

inductive disk_step :: "places \<Rightarrow> disksys \<Rightarrow> disksys \<Rightarrow> bool" for pl where
  call: "p < NPROC \<Longrightarrow> callers s p = NoCall \<Longrightarrow> idle_buffer b s \<Longrightarrow> rw_start pl p b w (vd s) = (Inr r, v) \<Longrightarrow>
    disk_step pl s (s\<lparr>vd := v, callers := (callers s)(p := after_start b w r)\<rparr>)"
| retry: "callers s p = AwaitDesc b w \<Longrightarrow> rw_start pl p b w (vd s) = (Inr r, v) \<Longrightarrow>
    disk_step pl s (s\<lparr>vd := v, callers := (callers s)(p := after_start b w r)\<rparr>)"
| finish: "callers s p = AwaitDevice i j k b w \<Longrightarrow> \<not> b_disk (vd s) b \<Longrightarrow> rw_finish i (vd s) = (Inr (), v) \<Longrightarrow>
    disk_step pl s (after_finish pl p b w v s)"
| intr: "virtio_disk_intr pl (vd s) = (Inr (), v) \<Longrightarrow> disk_step pl s (s\<lparr>vd := v\<rparr>)"
| takes: "dev_next s \<noteq> avail_idx (vd s) \<Longrightarrow> disk_step pl s (takes_next s)"
| serves: "i \<in> set (dev_taken s) \<Longrightarrow> disk_step pl s (carries_out i d s)"
| edit: "idle_buffer b s \<Longrightarrow>
    disk_step pl s (s\<lparr>vd := (vd s)\<lparr>b_blockno := (b_blockno (vd s))(b := n), data_at := (data_at (vd s))(data_pa pl b := d)\<rparr>\<rparr>)"

definition disk_boot :: "vdisk \<Rightarrow> disksys" where
  "disk_boot v = \<lparr>vd = v, dev_next = 0, dev_taken = [], dev_log = [], callers = \<lambda>_. NoCall, rw_log = \<lambda>_. []\<rparr>"

section \<open>Allocation of descriptors\<close>

definition free_descs :: "vdisk \<Rightarrow> nat set" where
  "free_descs s = {i. i < NUM \<and> d_free s i}"

lemma alloc_desc_cases:
  assumes "alloc_desc s = (r, t)"
  shows "(\<exists>i. r = Some i \<and> i \<in> free_descs s \<and> t = s\<lparr>d_free := (d_free s)(i := False)\<rparr>) \<or> (r = None \<and> free_descs s = {} \<and> t = s)"
proof (cases "filter (d_free s) [0..<NUM]")
  case Nil
  then have "free_descs s = {}" by (auto simp: free_descs_def filter_empty_conv)
  then show ?thesis using assms Nil by (simp add: alloc_desc_def)
next
  case (Cons i xs)
  then have "i \<in> set (filter (d_free s) [0..<NUM])" by simp
  then have "i \<in> free_descs s" by (simp add: free_descs_def)
  then show ?thesis using assms Cons by (auto simp: alloc_desc_def)
qed

lemma finite_free_descs: "finite (free_descs s)"
  by (simp add: free_descs_def)

text \<open>\<open>without js s\<close> has the descriptors \<open>js\<close> taken; \<open>scratch_free\<close> allows changes to free descriptors.\<close>

definition without :: "nat set \<Rightarrow> vdisk \<Rightarrow> vdisk" where
  "without js s = s\<lparr>d_free := \<lambda>i. d_free s i \<and> i \<notin> js\<rparr>"

definition scratch_free :: "vdisk \<Rightarrow> vdisk \<Rightarrow> bool" where
  "scratch_free s t \<longleftrightarrow> (\<exists>D. t = s\<lparr>desc := D\<rparr> \<and> (\<forall>i. \<not> d_free s i \<longrightarrow> D i = desc s i))"

lemma without_simps [simp]:
  "d_free (without js s) i \<longleftrightarrow> d_free s i \<and> i \<notin> js" "free_descs (without js s) = free_descs s - js"
  "without {} s = s" "without is (without js s) = without (is \<union> js) s" "desc (without js s) = desc s"
  by (auto simp: without_def free_descs_def conj_ac)

lemma without_taken: "(without js s)\<lparr>d_free := (d_free (without js s))(i := False)\<rparr> = without (insert i js) s"
  by (auto simp: without_def fun_eq_iff)

lemma free_all_taken:
  assumes "distinct js" and "set js \<subseteq> free_descs s" and "scratch_free s t"
  shows "\<exists>u. free_all js (without (set js) t) = (Inr (), u) \<and> scratch_free s u"
  using assms
proof (induction js arbitrary: t)
  case (Cons j js)
  let ?t = "upd_desc j (\<lambda>d. d\<lparr>d_addr := 0\<rparr>) t"
  have j: "j < NUM" "d_free s j" "j \<notin> set js" and d: "d_free t = d_free s"
    using Cons.prems by (auto simp: free_descs_def scratch_free_def)
  then have "free_desc j (without (set (j # js)) t) = (Inr (), without (set js) ?t)"
    by (auto simp: free_desc_def without_def upd_desc_def fun_eq_iff)
  moreover have "scratch_free s ?t"
    using Cons.prems(3) j by (auto simp: scratch_free_def upd_desc_def)
  ultimately show ?case using Cons.IH [of ?t] Cons.prems by simp
qed simp

lemma alloc3_from_cases:
  assumes "alloc3_from n idx (without (set idx) s) = (r, t)" and "distinct idx" and "set idx \<subseteq> free_descs s"
  shows "(\<exists>js. r = Inr (Some js) \<and> length js = length idx + n \<and> distinct js \<and> set js \<subseteq> free_descs s \<and> t = without (set js) s) \<or>
    (r = Inr None \<and> card (free_descs s) < length idx + n \<and> scratch_free s t)"
  using assms
proof (induction n arbitrary: idx)
  case (Suc n)
  obtain a u where a: "alloc_desc (without (set idx) s) = (a, u)" by (cases "alloc_desc (without (set idx) s)")
  show ?case
  proof (cases a)
    case None
    then have f: "free_descs s \<subseteq> set idx" "u = without (set idx) s" using alloc_desc_cases [OF a] by auto
    have "card (free_descs s) \<le> length idx"
      using card_mono [OF _ f(1)] card_length [of idx] by simp
    moreover have "scratch_free s s" by (auto simp: scratch_free_def intro!: exI [of _ "desc s"])
    ultimately show ?thesis
      using free_all_taken [OF Suc.prems(2,3), of s] Suc.prems(1) a None f by auto
  next
    case (Some i)
    then have i: "i \<in> free_descs s" "i \<notin> set idx" "u = without (set (idx @ [i])) s"
      using alloc_desc_cases [OF a] by (auto simp: without_taken)
    then show ?thesis using Suc.IH [of "idx @ [i]"] Suc.prems a Some by auto
  qed
qed (auto simp: scratch_free_def)

lemma alloc3_cases:
  assumes "alloc3_desc s = (r, t)"
  obtains (some) i j k where "r = Inr (Some [i, j, k])" "distinct [i, j, k]" "{i, j, k} \<subseteq> free_descs s"
      "t = without {i, j, k} s"
    | (none) "r = Inr None" "card (free_descs s) < 3" "scratch_free s t"
  using alloc3_from_cases [of 3 "[]" s r t] assms
  by (auto simp: alloc3_desc_def numeral_3_eq_3 length_Suc_conv)

section \<open>The invariant\<close>

fun descs_of :: "rw_stage \<Rightarrow> nat set" where
  "descs_of (AwaitDevice i j k b w) = {i, j, k}"
| "descs_of _ = {}"

text \<open>The requests on the available ring, with the device, and on the used ring.\<close>

definition queued :: "disksys \<Rightarrow> nat list" where
  "queued s = map (\<lambda>n. unat (avail_ring (vd s) ((unat (dev_next s) + n) mod NUM))) [0..<unat (avail_idx (vd s) - dev_next s)]"

definition reported :: "vdisk \<Rightarrow> nat list" where
  "reported v = map (\<lambda>n. unat (used_elems v ((unat (used_idx v) + n) mod NUM)))
     [0..<(unat (used_id v) + NUM - unat (used_idx v)) mod NUM]"

definition pending :: "disksys \<Rightarrow> nat list" where
  "pending s = queued s @ dev_taken s @ reported (vd s)"

definition owners_ok :: "disksys \<Rightarrow> bool" where
  "owners_ok s \<longleftrightarrow> {i. i < NUM \<and> \<not> d_free (vd s) i} = (\<Union>p. descs_of (callers s p)) \<and>
     (\<forall>p q. p \<noteq> q \<longrightarrow> descs_of (callers s p) \<inter> descs_of (callers s q) = {}) \<and>
     (\<forall>p q b. buffer_of (callers s p) = Some b \<longrightarrow> buffer_of (callers s q) = Some b \<longrightarrow> p = q) \<and>
     (\<forall>p b. buffer_of (callers s p) = Some b \<longrightarrow> p < NPROC \<and> b < NBUF)"

definition chain_ok :: "places \<Rightarrow> nat \<Rightarrow> nat \<Rightarrow> bool \<Rightarrow> nat \<Rightarrow> nat \<Rightarrow> nat \<Rightarrow> vdisk \<Rightarrow> bool" where
  "chain_ok pl p b w i j k v \<longleftrightarrow> distinct [i, j, k] \<and>
     desc v i = \<lparr>d_addr = hdr_pa pl p, d_len = 16, d_flags = VRING_DESC_F_NEXT, d_next = of_nat j\<rparr> \<and>
     desc v j = \<lparr>d_addr = data_pa pl b, d_len = BSIZE,
       d_flags = (if w then 0 else VRING_DESC_F_WRITE) OR VRING_DESC_F_NEXT, d_next = of_nat k\<rparr> \<and>
     desc v k = \<lparr>d_addr = status_pa pl i, d_len = 1, d_flags = VRING_DESC_F_WRITE, d_next = 0\<rparr> \<and>
     info_b v i = Some b \<and> hdr_at v (hdr_pa pl p) = rw_header b w v \<and> status_at v (status_pa pl i) = 0"

definition requests_ok :: "places \<Rightarrow> disksys \<Rightarrow> bool" where
  "requests_ok pl s \<longleftrightarrow>
     (\<forall>p i j k b w. callers s p = AwaitDevice i j k b w \<longrightarrow> chain_ok pl p b w i j k (vd s) \<and> (b_disk (vd s) b \<longleftrightarrow> i \<in> set (pending s)))"

definition rings_ok :: "disksys \<Rightarrow> bool" where
  "rings_ok s \<longleftrightarrow> unat (used_idx (vd s)) < NUM \<and> distinct (pending s) \<and>
     (\<forall>i \<in> set (pending s). \<exists>p j k b w. callers s p = AwaitDevice i j k b w)"

text \<open>What the device has done for a process: its completed calls, and the present one when it is done.\<close>

definition done_for :: "places \<Rightarrow> nat \<Rightarrow> disksys \<Rightarrow> transfer list" where
  "done_for pl p s = map snd (filter (\<lambda>e. fst e = hdr_pa pl p) (dev_log s))"

fun in_progress :: "places \<Rightarrow> rw_stage \<Rightarrow> disksys \<Rightarrow> transfer list" where
  "in_progress pl (AwaitDevice i j k b w) s =
     (if i \<in> set (queued s) \<union> set (dev_taken s) then [] else [(rw_header b w (vd s), data_at (vd s) (data_pa pl b))])"
| "in_progress pl _ s = []"

definition logs_ok :: "places \<Rightarrow> disksys \<Rightarrow> bool" where
  "logs_ok pl s \<longleftrightarrow> (\<forall>p < NPROC. done_for pl p s = rw_log s p @ in_progress pl (callers s p) s)"

definition disk_ok :: "places \<Rightarrow> disksys \<Rightarrow> bool" where
  "disk_ok pl s \<longleftrightarrow> owners_ok s \<and> requests_ok pl s \<and> rings_ok s \<and> logs_ok pl s"

definition places_ok :: "places \<Rightarrow> bool" where
  "places_ok pl \<longleftrightarrow> inj_on (hdr_pa pl) {..<NPROC} \<and> inj_on (data_pa pl) {..<NBUF}"

section \<open>The rings\<close>

lemma mod_NUM_word: "unat (x + y :: u16) mod NUM = (unat x + unat y) mod NUM"
proof -
  have "NUM dvd 2 ^ 16" by (simp add: NUM_def)
  then show ?thesis by (simp add: unat_word_ariths mod_mod_cancel)
qed

lemma slots_differ: "n < m \<Longrightarrow> m < NUM \<Longrightarrow> (x + n) mod NUM \<noteq> (x + m) mod NUM" for x n m :: nat
  using ring_slots_differ [of n m NUM x] by auto

lemma queued_length: "length (queued s) = unat (avail_idx (vd s) - dev_next s)"
  by (simp add: queued_def)

lemma queued_push:
  assumes "length (queued s) < NUM" and "i < NUM" and "dev_next t = dev_next s"
    and "avail_ring (vd t) = (avail_ring (vd s))(unat (avail_idx (vd s)) mod NUM := of_nat i)" and "avail_idx (vd t) = avail_idx (vd s) + 1"
  shows "queued t = queued s @ [i]"
proof -
  let ?m = "unat (avail_idx (vd s) - dev_next s)"
  have m: "?m < NUM" using assms(1) by (simp add: queued_length)
  have "avail_idx (vd s) + 1 - dev_next s = (avail_idx (vd s) - dev_next s) + 1" by simp
  then have "unat (avail_idx (vd s) + 1 - dev_next s) = Suc ?m"
    using m by (simp only: unat_word_ariths) (simp add: NUM_def)
  moreover have "(unat (dev_next s) + ?m) mod NUM = unat (avail_idx (vd s)) mod NUM"
    using mod_NUM_word [of "dev_next s" "avail_idx (vd s) - dev_next s"] by simp
  moreover have "(unat (dev_next s) + n) mod NUM \<noteq> (unat (dev_next s) + ?m) mod NUM" if "n < ?m" for n
    using slots_differ that m by blast
  moreover have "unat (of_nat i :: u16) = i" using assms(2) by (simp add: unat_of_nat NUM_def)
  ultimately show ?thesis using assms(3-) by (auto simp: queued_def)
qed

lemma queued_pop:
  assumes "dev_next s \<noteq> avail_idx (vd s)"
  shows "queued s = unat (avail_ring (vd s) (unat (dev_next s) mod NUM)) # queued (takes_next s)"
proof -
  let ?m = "unat (avail_idx (vd s) - dev_next s)"
  have "0 < ?m" using assms by (simp add: unat_gt_0)
  then obtain m where m: "?m = Suc m" by (cases ?m) auto
  have "avail_idx (vd s) - (dev_next s + 1) = (avail_idx (vd s) - dev_next s) - 1" by simp
  then have "unat (avail_idx (vd s) - (dev_next s + 1)) = m"
    using m unat_minus_one [of "avail_idx (vd s) - dev_next s"] assms by (simp only:) simp
  moreover have "(unat (dev_next s + 1) + n) mod NUM = (unat (dev_next s) + Suc n) mod NUM" for n
    using mod_add_cong [OF mod_NUM_word [of "dev_next s" 1] refl, of n] by simp
  ultimately show ?thesis
    by (simp add: queued_def takes_next_def m map_upt_Suc del: upt_Suc)
qed

lemma reported_push:
  assumes "length (reported v) + 1 < NUM" and "i < NUM" and "unat (used_idx v) < NUM" and "used_idx t = used_idx v"
    and "used_elems t = (used_elems v)(unat (used_id v) mod NUM := of_nat i)" and "used_id t = used_id v + 1"
  shows "reported t = reported v @ [i]"
proof -
  let ?m = "(unat (used_id v) + NUM - unat (used_idx v)) mod NUM"
  have m: "?m + 1 < NUM" using assms(1) by (simp add: reported_def)
  have d: "unat (used_id v + 1) + NUM - unat (used_idx v) = unat (used_id v + 1) + (NUM - unat (used_idx v))"
      "unat (used_id v) + NUM - unat (used_idx v) = unat (used_id v) + (NUM - unat (used_idx v))" using assms(3) by simp_all
  have "(unat (used_id v + 1) + NUM - unat (used_idx v)) mod NUM = (unat (used_id v) + 1 + (NUM - unat (used_idx v))) mod NUM"
    unfolding d using mod_add_cong [OF mod_NUM_word [of "used_id v" 1] refl, of "NUM - unat (used_idx v)"] by simp
  also have "\<dots> = Suc ?m" using m unfolding d by (simp add: mod_Suc)
  finally have "(unat (used_id v + 1) + NUM - unat (used_idx v)) mod NUM = Suc ?m" .
  moreover have "(unat (used_idx v) + ?m) mod NUM = unat (used_id v) mod NUM"
    unfolding d using assms(3) by (simp add: mod_simps)
  moreover have "(unat (used_idx v) + n) mod NUM \<noteq> (unat (used_idx v) + ?m) mod NUM" if "n < ?m" for n
    using slots_differ that m by simp
  moreover have "unat (of_nat i :: u32) = i" using assms(2) by (simp add: unat_of_nat NUM_def)
  ultimately show ?thesis using assms(4-) by (auto simp: reported_def)
qed

lemma reported_pop:
  assumes "unat (used_idx v) mod NUM \<noteq> unat (used_id v) mod NUM" and "unat (used_idx v) < NUM"
    and "unat (used_idx t) = (unat (used_idx v) + 1) mod NUM" and "used_id t = used_id v" and "used_elems t = used_elems v"
  shows "reported v = unat (used_elems v (unat (used_idx v))) # reported t"
proof -
  let ?m = "(unat (used_id v) + NUM - unat (used_idx v)) mod NUM"
  have n: "0 < NUM" by (simp add: NUM_def)
  have d: "unat (used_id v) + NUM - unat (used_idx v) = unat (used_id v) + (NUM - unat (used_idx v))" using assms(2) by simp
  have "?m \<noteq> 0"
  proof
    assume "?m = 0"
    then have "(unat (used_idx v) + (unat (used_id v) + (NUM - unat (used_idx v)))) mod NUM = unat (used_idx v) mod NUM"
      unfolding d by (metis add.right_neutral mod_add_right_eq)
    moreover have "unat (used_idx v) + (unat (used_id v) + (NUM - unat (used_idx v))) = unat (used_id v) + NUM" using assms(2) by simp
    ultimately show False using assms(1) by simp
  qed
  then obtain m where m: "?m = Suc m" by (cases ?m) auto
  have "(unat (used_id v) + NUM - unat (used_idx t)) mod NUM = m"
  proof (cases "unat (used_idx v) + 1 = NUM")
    case True
    then have "NUM - unat (used_idx v) = 1" "unat (used_idx t) = 0" using assms(3) by simp_all
    then have "?m = (unat (used_id v) + 1) mod NUM" "unat (used_idx t) = 0" unfolding d by simp_all
    then show ?thesis using m by (simp add: mod_Suc split: if_splits)
  next
    case False
    then have i: "unat (used_idx t) = unat (used_idx v) + 1" using assms(2,3) by simp
    have "Suc (unat (used_id v) + NUM - unat (used_idx t)) = unat (used_id v) + NUM - unat (used_idx v)"
      using i assms(2) False by simp
    then have "Suc (unat (used_id v) + NUM - unat (used_idx t)) mod NUM = Suc m" using m by simp
    then show ?thesis by (simp add: mod_Suc split: if_splits)
  qed
  moreover have "(unat (used_idx t) + k) mod NUM = (unat (used_idx v) + Suc k) mod NUM" for k
    using assms(3) by (simp add: mod_simps)
  ultimately show ?thesis
    using assms(2) by (simp add: reported_def m assms(4,5) map_upt_Suc del: upt_Suc)
qed

section \<open>Room in the rings\<close>

lemma owners_okD:
  assumes "owners_ok s" and "callers s p = AwaitDevice i j k b w"
  shows "i < NUM" "j < NUM" "k < NUM" "\<not> d_free (vd s) i" "\<not> d_free (vd s) j" "\<not> d_free (vd s) k"
proof -
  have "{i, j, k} \<subseteq> (\<Union>p. descs_of (callers s p))" using assms(2) by (auto intro!: exI [of _ p])
  then have "{i, j, k} \<subseteq> {i. i < NUM \<and> \<not> d_free (vd s) i}" using assms(1) by (simp add: owners_ok_def)
  then show "i < NUM" "j < NUM" "k < NUM" "\<not> d_free (vd s) i" "\<not> d_free (vd s) j" "\<not> d_free (vd s) k" by auto
qed

lemma owners_disjoint:
  assumes "owners_ok s" and "callers s p = AwaitDevice i j k b w" and "callers s q = AwaitDevice i' j' k' b' w'" and "p \<noteq> q"
  shows "{i, j, k} \<inter> {i', j', k'} = {}" "b \<noteq> b'"
proof -
  have "descs_of (callers s p) \<inter> descs_of (callers s q) = {}" using assms(1,4) by (simp add: owners_ok_def)
  then show "{i, j, k} \<inter> {i', j', k'} = {}" using assms(2,3) by simp
  have "b = b' \<Longrightarrow> p = q" using assms(1-3) unfolding owners_ok_def by (metis buffer_of.simps(3))
  then show "b \<noteq> b'" using assms(4) by blast
qed

lemma owners_callers:
  assumes "owners_ok s" and "buffer_of (callers s p) = Some b"
  shows "p < NPROC" "b < NBUF"
  using assms by (auto simp: owners_ok_def)

lemma pending_room:
  assumes "disk_ok pl s" and "X \<subseteq> {..<NUM}" and "\<And>p i j k b w. callers s p = AwaitDevice i j k b w \<Longrightarrow> i \<notin> X"
  shows "length (pending s) + card X \<le> NUM"
proof -
  have o: "owners_ok s" and r: "rings_ok s" using assms(1) by (auto simp: disk_ok_def)
  have sub: "set (pending s) \<subseteq> {..<NUM} - X"
  proof
    fix i assume "i \<in> set (pending s)"
    then obtain p j k b w where c: "callers s p = AwaitDevice i j k b w" using r by (auto simp: rings_ok_def)
    show "i \<in> {..<NUM} - X" using owners_okD(1) [OF o c] assms(3) [OF c] by simp
  qed
  have f: "finite X" using assms(2) finite_subset by blast
  have "length (pending s) = card (set (pending s))" using r by (simp add: rings_ok_def distinct_card)
  also have "\<dots> \<le> card ({..<NUM} - X)" by (rule card_mono) (use sub in auto)
  also have "\<dots> = NUM - card X" using card_Diff_subset [OF f assms(2)] by simp
  finally show ?thesis using card_mono [OF _ assms(2)] by simp
qed

section \<open>The device\<close>

lemma takes_ok:
  assumes "disk_ok pl s" and "dev_next s \<noteq> avail_idx (vd s)"
  shows "disk_ok pl (takes_next s)"
proof -
  have q: "queued s = unat (avail_ring (vd s) (unat (dev_next s) mod NUM)) # queued (takes_next s)" by (rule queued_pop [OF assms(2)])
  have t: "dev_taken (takes_next s) = dev_taken s @ [unat (avail_ring (vd s) (unat (dev_next s) mod NUM))]"
    and v: "vd (takes_next s) = vd s" "callers (takes_next s) = callers s" "dev_log (takes_next s) = dev_log s" "rw_log (takes_next s) = rw_log s"
    by (simp_all add: takes_next_def)
  have p: "set (pending (takes_next s)) = set (pending s)" "distinct (pending (takes_next s)) = distinct (pending s)"
    unfolding pending_def q t v by auto
  have u: "set (queued (takes_next s)) \<union> set (dev_taken (takes_next s)) = set (queued s) \<union> set (dev_taken s)" unfolding q t by auto
  have "in_progress pl c (takes_next s) = in_progress pl c s" for c by (cases c) (simp_all only: in_progress.simps u v)
  then show ?thesis
    using assms(1) by (simp add: disk_ok_def owners_ok_def requests_ok_def rings_ok_def logs_ok_def done_for_def p v)
qed

lemma carries_out_request:
  assumes "disk_ok pl s" and "callers s p = AwaitDevice i j k b w"
  shows "carries_out i d s =
    (let x = (if w then data_at (vd s) (data_pa pl b) else d)
     in s\<lparr>vd := (vd s)\<lparr>data_at := (data_at (vd s))(data_pa pl b := x), status_at := (status_at (vd s))(status_pa pl i := 0),
              used_elems := (used_elems (vd s))(unat (used_id (vd s)) mod NUM := of_nat i), used_id := used_id (vd s) + 1\<rparr>,
          dev_taken := remove1 i (dev_taken s), dev_log := dev_log s @ [(hdr_pa pl p, rw_header b w (vd s), x)]\<rparr>)"
proof -
  have c: "chain_ok pl p b w i j k (vd s)" and o: "owners_ok s"
    using assms by (auto simp: disk_ok_def requests_ok_def)
  have "unat (of_nat j :: u16) = j" "unat (of_nat k :: u16) = k"
    using owners_okD(2,3) [OF o assms(2)] by (auto simp: unat_of_nat NUM_def)
  then show ?thesis
    using c by (auto simp: carries_out_def chain_ok_def rw_header_def Let_def VIRTIO_BLK_T_IN_def VIRTIO_BLK_T_OUT_def)
qed

lemma carries_out_ok:
  assumes "disk_ok pl s" and "places_ok pl" and "i \<in> set (dev_taken s)"
  shows "disk_ok pl (carries_out i d s)"
proof -
  have o: "owners_ok s" and q: "requests_ok pl s" and r: "rings_ok s" and l: "logs_ok pl s"
    using assms(1) by (auto simp: disk_ok_def)
  have "i \<in> set (pending s)" using assms(3) by (simp add: pending_def)
  then obtain p j k b w where c: "callers s p = AwaitDevice i j k b w" using r by (auto simp: rings_ok_def)
  define t where "t = carries_out i d s"
  define x where "x = (if w then data_at (vd s) (data_pa pl b) else d)"
  note t = carries_out_request [OF assms(1) c, of d, folded t_def, unfolded Let_def, folded x_def]
  have n: "i < NUM" "j < NUM" "k < NUM" "distinct [i, j, k]"
    using owners_okD [OF o c] q c by (auto simp: requests_ok_def chain_ok_def)
  have "length (pending s) + card {j, k} \<le> NUM"
  proof (rule pending_room [OF assms(1)])
    fix p' i' j' k' b' w' assume c': "callers s p' = AwaitDevice i' j' k' b' w'"
    show "i' \<notin> {j, k}" using owners_disjoint(1) [OF o c c'] n(4) c c' by (cases "p' = p") auto
  qed (use n in auto)
  then have "length (reported (vd s)) + 1 < NUM"
    using n(4) assms(3) length_pos_if_in_set [OF assms(3)] by (simp add: pending_def)
  then have rep: "reported (vd t) = reported (vd s) @ [i]"
    using r n by (intro reported_push) (simp_all add: t rings_ok_def)
  have tk: "dev_taken t = remove1 i (dev_taken s)" and qd: "queued t = queued s" and cl: "callers t = callers s"
    by (simp_all add: t queued_def)
  have dis: "distinct (queued s @ dev_taken s @ reported (vd s))" using r by (simp add: rings_ok_def pending_def)
  then have rem: "set (remove1 i (dev_taken s)) = set (dev_taken s) - {i}" by (simp add: set_remove1_eq)
  have pt: "set (pending t) = set (pending s)" "distinct (pending t)"
    using dis assms(3) by (auto simp: pending_def tk qd rep rem distinct_remove1)
  have "owners_ok t" using o by (simp add: owners_ok_def t)
  moreover have "requests_ok pl t"
    unfolding requests_ok_def cl
  proof (intro allI impI)
    fix p' i' j' k' b' w' assume "callers s p' = AwaitDevice i' j' k' b' w'"
    then have "chain_ok pl p' b' w' i' j' k' (vd s)" "b_disk (vd s) b' \<longleftrightarrow> i' \<in> set (pending s)" using q by (auto simp: requests_ok_def)
    then show "chain_ok pl p' b' w' i' j' k' (vd t) \<and> (b_disk (vd t) b' \<longleftrightarrow> i' \<in> set (pending t))"
      by (simp add: pt) (simp add: t chain_ok_def rw_header_def sector_def)
  qed
  moreover have "rings_ok t" using r pt by (simp add: rings_ok_def cl) (simp add: t)
  moreover have "logs_ok pl t"
    unfolding logs_ok_def
  proof (intro allI impI)
    fix p' assume p': "p' < NPROC"
    have l': "done_for pl p' s = rw_log s p' @ in_progress pl (callers s p') s" using l p' by (simp add: logs_ok_def)
    have pn: "p < NPROC" "b < NBUF" using owners_callers [OF o, of p b] c by simp_all
    show "done_for pl p' t = rw_log t p' @ in_progress pl (callers t p') t"
    proof (cases "p' = p")
      case True
      have "i \<notin> set (queued s)" using dis assms(3) by auto
      then show ?thesis using l' assms(3) c
        by (simp add: True done_for_def t) (simp add: rw_header_def sector_def queued_def rem)
    next
      case False
      then have h: "hdr_pa pl p' \<noteq> hdr_pa pl p" using assms(2) p' pn by (auto simp: places_ok_def inj_on_def)
      show ?thesis
      proof (cases "callers s p'")
        case (AwaitDevice i' j' k' b' w')
        have dj: "i' \<noteq> i" "b' \<noteq> b" using owners_disjoint [OF o c AwaitDevice] False by auto
        have "b' < NBUF" using owners_callers [OF o, of p' b'] AwaitDevice by simp
        then have "data_pa pl b' \<noteq> data_pa pl b" using assms(2) pn dj by (auto simp: places_ok_def inj_on_def)
        then show ?thesis using l' h dj AwaitDevice
          by (simp add: done_for_def t) (simp add: rw_header_def sector_def queued_def rem)
      qed (use l' h in \<open>simp_all add: done_for_def t\<close>)
    qed
  qed
  ultimately show ?thesis by (simp add: disk_ok_def t_def)
qed

section \<open>The interrupt\<close>

lemma intr_turn_ok:
  assumes "disk_ok pl s" and "unat (used_idx (vd s)) mod NUM \<noteq> unat (used_id (vd s)) mod NUM"
  obtains v where "intr_turn pl (vd s) = (Inr (), v)" "disk_ok pl (s\<lparr>vd := v\<rparr>)"
proof -
  have o: "owners_ok s" and q: "requests_ok pl s" and r: "rings_ok s" and l: "logs_ok pl s"
    using assms(1) by (auto simp: disk_ok_def)
  let ?i = "unat (used_elems (vd s) (unat (used_idx (vd s))))"
  define n where "n = (unat (used_idx (vd s)) + 1) mod NUM"
  define u where "u = (vd s)\<lparr>used_idx := of_nat n\<rparr>"
  have lt: "n < NUM" by (simp add: NUM_def n_def)
  then have n: "unat (of_nat n :: u16) = n" by (simp add: unat_of_nat NUM_def)
  have pop: "reported (vd s) = ?i # reported u"
    using r n n_def by (intro reported_pop [OF assms(2)]) (simp_all add: rings_ok_def u_def)
  then have "?i \<in> set (pending s)" by (simp add: pending_def)
  then obtain p j k b w where c: "callers s p = AwaitDevice ?i j k b w" using r by (auto simp: rings_ok_def)
  then have ch: "chain_ok pl p b w ?i j k (vd s)" using q by (auto simp: requests_ok_def)
  define t where "t = s\<lparr>vd := u\<lparr>b_disk := (b_disk (vd s))(b := False)\<rparr>\<rparr>"
  have turn: "intr_turn pl (vd s) = (Inr (), vd t)" and st: "s\<lparr>vd := vd t\<rparr> = t"
    using ch by (simp_all add: intr_turn_def chain_ok_def Let_def t_def u_def n_def)
  have rep: "reported (vd t) = reported u" "queued t = queued s" "dev_taken t = dev_taken s" "callers t = callers s"
    by (simp_all add: t_def u_def reported_def queued_def)
  have dis: "distinct (pending s)" using r by (simp add: rings_ok_def)
  have pt: "set (pending t) = set (pending s) - {?i}" "distinct (pending t)"
    using dis by (auto simp: pending_def rep pop)
  have "owners_ok t" using o by (simp add: owners_ok_def t_def u_def)
  moreover have "requests_ok pl t"
    unfolding requests_ok_def rep
  proof (intro allI impI)
    fix p' i' j' k' b' w' assume c': "callers s p' = AwaitDevice i' j' k' b' w'"
    then have h: "chain_ok pl p' b' w' i' j' k' (vd s)" "b_disk (vd s) b' \<longleftrightarrow> i' \<in> set (pending s)" using q by (auto simp: requests_ok_def)
    have "b' = b \<longleftrightarrow> i' = ?i" using owners_disjoint [OF o c c'] c c' by (cases "p = p'") auto
    then show "chain_ok pl p' b' w' i' j' k' (vd t) \<and> (b_disk (vd t) b' \<longleftrightarrow> i' \<in> set (pending t))"
      using h by (simp add: pt) (simp add: t_def u_def chain_ok_def rw_header_def sector_def)
  qed
  moreover have "rings_ok t" using r pt n lt by (simp add: rings_ok_def rep) (simp add: t_def u_def)
  moreover have "in_progress pl x t = in_progress pl x s" for x
    by (cases x) (simp_all add: rep, simp add: t_def u_def rw_header_def sector_def)
  then have "logs_ok pl t" using l by (simp add: logs_ok_def rep done_for_def) (simp add: t_def)
  ultimately show ?thesis using that [OF turn] by (simp add: disk_ok_def st)
qed

lemma intr_ok:
  assumes "disk_ok pl s"
  shows "\<exists>v. virtio_disk_intr pl (vd s) = (Inr (), v) \<and> disk_ok pl (s\<lparr>vd := v\<rparr>)"
  using assms
proof (induction pl "vd s" arbitrary: s rule: virtio_disk_intr.induct)
  case (1 pl)
  show ?case
  proof (cases "unat (used_idx (vd s)) mod NUM \<noteq> unat (used_id (vd s)) mod NUM")
    case True
    obtain v where v: "intr_turn pl (vd s) = (Inr (), v)" "disk_ok pl (s\<lparr>vd := v\<rparr>)" by (rule intr_turn_ok [OF 1(2) True])
    have "\<exists>v'. virtio_disk_intr pl v = (Inr (), v') \<and> disk_ok pl (s\<lparr>vd := v'\<rparr>)"
      using 1(1) [OF True, of "Inr ()" "s\<lparr>vd := v\<rparr>" "()"] v by simp
    then show ?thesis using True v(1) by simp
  next
    case False
    then show ?thesis using 1(2) by (auto intro!: exI [of _ "vd s"])
  qed
qed

section \<open>Starting a request\<close>

lemma start_waits:
  assumes "disk_ok pl s" and "p < NPROC" and "b < NBUF" and "descs_of (callers s p) = {}"
    and "\<forall>q. q \<noteq> p \<longrightarrow> buffer_of (callers s q) \<noteq> Some b" and "scratch_free (vd s) v"
  shows "disk_ok pl (s\<lparr>vd := v, callers := (callers s)(p := AwaitDesc b w)\<rparr>)"
proof -
  have o: "owners_ok s" and q: "requests_ok pl s" and r: "rings_ok s" and l: "logs_ok pl s"
    using assms(1) by (auto simp: disk_ok_def)
  obtain D where v: "v = (vd s)\<lparr>desc := D\<rparr>" "\<And>i. \<not> d_free (vd s) i \<Longrightarrow> D i = desc (vd s) i"
    using assms(6) by (auto simp: scratch_free_def)
  define t where "t = s\<lparr>vd := v, callers := (callers s)(p := AwaitDesc b w)\<rparr>"
  have qd: "queued t = queued s" "reported (vd t) = reported (vd s)" "pending t = pending s"
    by (simp_all add: t_def v(1) queued_def reported_def pending_def)
  have np: "callers s q = AwaitDevice i j k b' w' \<Longrightarrow> q \<noteq> p" for q i j k b' w' using assms(4) by auto
  have ds: "descs_of (callers t x) = descs_of (callers s x)" for x using assms(4) by (simp add: t_def)
  have "owners_ok t"
    using o assms(2,3,5) unfolding owners_ok_def ds by (auto simp: t_def v(1) split: if_splits)
  moreover have "requests_ok pl t"
    unfolding requests_ok_def
  proof (intro allI impI)
    fix p' i' j' k' b' w' assume "callers t p' = AwaitDevice i' j' k' b' w'"
    then have c': "callers s p' = AwaitDevice i' j' k' b' w'" by (auto simp: t_def split: if_splits)
    then have h: "chain_ok pl p' b' w' i' j' k' (vd s)" "b_disk (vd s) b' \<longleftrightarrow> i' \<in> set (pending s)" using q by (auto simp: requests_ok_def)
    have "D i' = desc (vd s) i'" "D j' = desc (vd s) j'" "D k' = desc (vd s) k'" using owners_okD [OF o c'] v(2) by auto
    then show "chain_ok pl p' b' w' i' j' k' (vd t) \<and> (b_disk (vd t) b' \<longleftrightarrow> i' \<in> set (pending t))"
      using h by (simp add: qd) (simp add: t_def v(1) chain_ok_def rw_header_def sector_def)
  qed
  moreover have "rings_ok t"
    using r np unfolding rings_ok_def qd by (simp add: t_def v(1)) metis
  moreover have "in_progress pl x t = in_progress pl x s" for x
    by (cases x) (simp_all add: qd, simp add: t_def v(1) rw_header_def sector_def)
  then have "in_progress pl (callers t p') t = in_progress pl (callers s p') s" for p'
    using assms(4) by (cases "callers s p") (auto simp: t_def)
  then have "logs_ok pl t" using l by (simp add: logs_ok_def done_for_def) (simp add: t_def)
  ultimately show ?thesis by (simp add: disk_ok_def t_def)
qed

lemma others_apart:
  assumes "owners_ok s" and "descs_of (callers s p) = {}" and "\<forall>q. q \<noteq> p \<longrightarrow> buffer_of (callers s q) \<noteq> Some b"
    and "js \<subseteq> free_descs (vd s)" and "callers s q = AwaitDevice i' j' k' b' w'"
  shows "q \<noteq> p" "i' \<notin> js" "j' \<notin> js" "k' \<notin> js" "b' \<noteq> b"
proof -
  show "q \<noteq> p" using assms(2,5) by auto
  then show "b' \<noteq> b" using assms(3,5) by auto
  show "i' \<notin> js" "j' \<notin> js" "k' \<notin> js" using owners_okD [OF assms(1,5)] assms(4) by (auto simp: free_descs_def)
qed

lemma rw_submit_fields:
  "d_free (rw_submit pl p b w i j k v) = d_free v" "used_idx (rw_submit pl p b w i j k v) = used_idx v"
  "used_id (rw_submit pl p b w i j k v) = used_id v" "used_elems (rw_submit pl p b w i j k v) = used_elems v"
  "b_blockno (rw_submit pl p b w i j k v) = b_blockno v" "data_at (rw_submit pl p b w i j k v) = data_at v"
  "b_disk (rw_submit pl p b w i j k v) = (b_disk v)(b := True)" "info_b (rw_submit pl p b w i j k v) = (info_b v)(i := Some b)"
  "avail_idx (rw_submit pl p b w i j k v) = avail_idx v + 1"
  "avail_ring (rw_submit pl p b w i j k v) = (avail_ring v)(unat (avail_idx v) mod NUM := of_nat i)"
  "hdr_at (rw_submit pl p b w i j k v) = (hdr_at v)(hdr_pa pl p := rw_header b w v)"
  "status_at (rw_submit pl p b w i j k v) = (status_at v)(status_pa pl i := 0)"
  by (simp_all add: rw_submit_def upd_desc_def Let_def rw_header_def sector_def)

lemma rw_submit_desc:
  "x \<notin> {i, j, k} \<Longrightarrow> desc (rw_submit pl p b w i j k v) x = desc v x"
  by (simp add: rw_submit_def upd_desc_def Let_def)

lemma without_fields [simp]:
  "used_idx (without js v) = used_idx v" "used_id (without js v) = used_id v" "used_elems (without js v) = used_elems v"
  "b_blockno (without js v) = b_blockno v" "data_at (without js v) = data_at v" "b_disk (without js v) = b_disk v"
  "info_b (without js v) = info_b v" "avail_idx (without js v) = avail_idx v" "avail_ring (without js v) = avail_ring v"
  "hdr_at (without js v) = hdr_at v" "status_at (without js v) = status_at v" "rw_header b w (without js v) = rw_header b w v"
  by (simp_all add: without_def rw_header_def sector_def)

lemma rw_submit_chain:
  "distinct [i, j, k] \<Longrightarrow> chain_ok pl p b w i j k (rw_submit pl p b w i j k v)"
  by (simp add: chain_ok_def rw_submit_def upd_desc_def Let_def rw_header_def sector_def)

lemma rw_header_cong: "b_blockno v' b = b_blockno v b \<Longrightarrow> rw_header b w v' = rw_header b w v"
  by (simp add: rw_header_def sector_def)

lemma owners_start:
  assumes "owners_ok s" and "p < NPROC" and "b < NBUF" and "descs_of (callers s p) = {}"
    and "\<forall>q. q \<noteq> p \<longrightarrow> buffer_of (callers s q) \<noteq> Some b" and "{i, j, k} \<subseteq> free_descs (vd s)"
    and ct: "callers t = (callers s)(p := AwaitDevice i j k b w)" and "d_free (vd t) = d_free (without {i, j, k} (vd s))"
  shows "owners_ok t"
proof -
  have dj: "descs_of (callers s x) \<inter> {i, j, k} = {}" for x
    using others_apart [OF assms(1,4,5,6), of x] by (cases "callers s x") auto
  have "(\<Union>x. descs_of (callers t x)) = (\<Union>x. descs_of (callers s x)) \<union> {i, j, k}"
  proof (intro equalityI subsetI)
    fix x assume "x \<in> (\<Union>y. descs_of (callers s y)) \<union> {i, j, k}"
    then consider y where "x \<in> descs_of (callers s y)" "y \<noteq> p" | "x \<in> {i, j, k}" using assms(4) by force
    then show "x \<in> (\<Union>y. descs_of (callers t y))" by cases (auto simp: ct intro: exI [of _ p])
  qed (auto simp: ct split: if_splits)
  moreover have "{x. x < NUM \<and> \<not> d_free (vd t) x} = {x. x < NUM \<and> \<not> d_free (vd s) x} \<union> {i, j, k}"
    using assms(6,8) by (auto simp: free_descs_def)
  ultimately have "{x. x < NUM \<and> \<not> d_free (vd t) x} = (\<Union>x. descs_of (callers t x))"
    using assms(1) by (simp add: owners_ok_def)
  moreover have "descs_of (callers t x) \<inter> descs_of (callers t y) = {}" if "x \<noteq> y" for x y
    using assms(1) dj [of x] dj [of y] that unfolding owners_ok_def ct by (cases "x = p"; cases "y = p") auto
  moreover have "x = y" if "buffer_of (callers t x) = Some c" "buffer_of (callers t y) = Some c" for x y c
    using that assms(1,5) unfolding owners_ok_def ct by (cases "x = p"; cases "y = p") auto
  moreover have "x < NPROC \<and> c < NBUF" if "buffer_of (callers t x) = Some c" for x c
    using that assms(1-3) unfolding owners_ok_def ct by (cases "x = p") auto
  ultimately show ?thesis by (simp add: owners_ok_def)
qed

lemma start_submits:
  assumes "disk_ok pl s" and "places_ok pl" and "p < NPROC" and "b < NBUF" and "descs_of (callers s p) = {}"
    and "\<forall>q. q \<noteq> p \<longrightarrow> buffer_of (callers s q) \<noteq> Some b"
    and "distinct [i, j, k]" and "{i, j, k} \<subseteq> free_descs (vd s)"
  shows "disk_ok pl (s\<lparr>vd := rw_submit pl p b w i j k (without {i, j, k} (vd s)), callers := (callers s)(p := AwaitDevice i j k b w)\<rparr>)"
proof -
  have o: "owners_ok s" and q: "requests_ok pl s" and r: "rings_ok s" and l: "logs_ok pl s"
    using assms(1) by (auto simp: disk_ok_def)
  define v where "v = rw_submit pl p b w i j k (without {i, j, k} (vd s))"
  define t where "t = s\<lparr>vd := v, callers := (callers s)(p := AwaitDevice i j k b w)\<rparr>"
  note v = rw_submit_fields [of pl p b w i j k "without {i, j, k} (vd s)", folded v_def]
  have t: "vd t = v" "callers t = (callers s)(p := AwaitDevice i j k b w)" "dev_taken t = dev_taken s" "dev_next t = dev_next s"
      "dev_log t = dev_log s" "rw_log t = rw_log s" by (simp_all add: t_def)
  have n: "i < NUM" "j < NUM" "k < NUM" using assms(8) by (auto simp: free_descs_def)
  note apart = others_apart [OF o assms(5,6,8)]
  have "length (pending s) + card {i, j, k} \<le> NUM" by (rule pending_room [OF assms(1)]) (use n apart in auto)
  then have "length (queued s) < NUM" using assms(7) by (simp add: pending_def)
  then have qd: "queued t = queued s @ [i]" using n by (intro queued_push) (simp_all add: t v)
  have rep: "reported v = reported (vd s)" by (simp add: reported_def v)
  have fresh: "i \<notin> set (pending s)" using r apart(2) unfolding rings_ok_def by blast
  then have pt: "set (pending t) = insert i (set (pending s))" "distinct (pending t)"
    using r by (auto simp: pending_def qd rep t rings_ok_def)
  have "owners_ok t" by (rule owners_start [OF o assms(3-6,8)]) (simp_all add: t v)
  moreover have "requests_ok pl t"
    unfolding requests_ok_def
  proof (intro allI impI)
    fix p' i' j' k' b' w' assume c: "callers t p' = AwaitDevice i' j' k' b' w'"
    show "chain_ok pl p' b' w' i' j' k' (vd t) \<and> (b_disk (vd t) b' \<longleftrightarrow> i' \<in> set (pending t))"
    proof (cases "p' = p")
      case True
      then show ?thesis using c rw_submit_chain [OF assms(7)] by (simp add: t v pt) (simp add: v_def)
    next
      case False
      then have c': "callers s p' = AwaitDevice i' j' k' b' w'" using c by (simp add: t)
      note ne = apart [OF c']
      have "p' < NPROC" using owners_callers [OF o, of p' b'] c' by simp
      then have h: "hdr_pa pl p' \<noteq> hdr_pa pl p" using False assms(2,3) by (auto simp: places_ok_def inj_on_def)
      have d: "desc v i' = desc (vd s) i'" "desc v j' = desc (vd s) j'" "desc v k' = desc (vd s) k'"
        using ne by (simp_all add: v_def rw_submit_desc)
      have "chain_ok pl p' b' w' i' j' k' (vd s)" "b_disk (vd s) b' \<longleftrightarrow> i' \<in> set (pending s)"
        using q c' by (auto simp: requests_ok_def)
      then show ?thesis using ne h by (auto simp: t pt v d chain_ok_def rw_header_cong [of v b' "vd s"])
    qed
  qed
  moreover have "\<exists>p j k b w. callers t p = AwaitDevice x j k b w" if x: "x \<in> set (pending t)" for x
  proof (cases "x = i")
    case False
    then obtain p' j' k' b' w' where c: "callers s p' = AwaitDevice x j' k' b' w'"
      using x r unfolding pt rings_ok_def by blast
    then show ?thesis using apart(1) [OF c] by (auto simp: t)
  qed (auto simp: t)
  then have "rings_ok t" using r pt by (simp add: rings_ok_def) (simp add: t v)
  moreover have "in_progress pl (callers t p') t = in_progress pl (callers s p') s" for p'
  proof (cases "p' = p")
    case True
    then show ?thesis using assms(5) by (cases "callers s p") (auto simp: t qd)
  next
    case False
    show ?thesis
    proof (cases "callers s p'")
      case (AwaitDevice i' j' k' b' w')
      then show ?thesis using False apart(2) [OF AwaitDevice] by (simp add: t qd v rw_header_cong [of v b' "vd s"])
    qed (use False in \<open>simp_all add: t\<close>)
  qed
  then have "logs_ok pl t" using l by (simp add: logs_ok_def done_for_def) (simp add: t)
  ultimately show ?thesis by (simp add: disk_ok_def t_def v_def)
qed

lemma start_ok:
  assumes "disk_ok pl s" and "places_ok pl" and "p < NPROC" and "b < NBUF" and "descs_of (callers s p) = {}"
    and "\<forall>q. q \<noteq> p \<longrightarrow> buffer_of (callers s q) \<noteq> Some b"
  obtains r v where "rw_start pl p b w (vd s) = (Inr r, v)" "r = None \<longleftrightarrow> card (free_descs (vd s)) < 3"
    "disk_ok pl (s\<lparr>vd := v, callers := (callers s)(p := after_start b w r)\<rparr>)"
proof -
  obtain a u where a: "alloc3_desc (vd s) = (a, u)" by (cases "alloc3_desc (vd s)")
  then show ?thesis
  proof (cases rule: alloc3_cases)
    case (some i j k)
    have "card {i, j, k} \<le> card (free_descs (vd s))" using some by (intro card_mono finite_free_descs)
    then show ?thesis
      using some a start_submits [OF assms some(2,3), of w] that [of "Some (i, j, k)" "rw_submit pl p b w i j k u"]
      by (simp add: rw_start_def after_start_def)
  next
    case none
    then show ?thesis
      using a start_waits [OF assms(1,3-5) _ none(3), of w] assms(6) that [of None u] by (simp add: rw_start_def after_start_def)
  qed
qed

section \<open>Finishing a request\<close>

lemma free_chain_three:
  assumes "distinct [i, j, k]" and "i < NUM" "j < NUM" "k < NUM" and "\<not> d_free v i" "\<not> d_free v j" "\<not> d_free v k"
    and "d_flags (desc v i) AND VRING_DESC_F_NEXT \<noteq> 0" "d_flags (desc v j) AND VRING_DESC_F_NEXT \<noteq> 0"
    and "d_flags (desc v k) AND VRING_DESC_F_NEXT = 0" and "unat (d_next (desc v i)) = j" "unat (d_next (desc v j)) = k"
  shows "\<exists>D. free_chain i v = (Inr (), v\<lparr>desc := D, d_free := (d_free v)(i := True, j := True, k := True)\<rparr>) \<and>
    (\<forall>x. x \<notin> {i, j, k} \<longrightarrow> D x = desc v x)"
  using assms by (simp add: free_chain.simps [of i] free_chain.simps [of j] free_chain.simps [of k] free_desc_def upd_desc_def)
    (rule exI [of _ "(desc v)(i := (desc v i)\<lparr>d_addr := 0\<rparr>, j := (desc v j)\<lparr>d_addr := 0\<rparr>, k := (desc v k)\<lparr>d_addr := 0\<rparr>)"], simp)

lemma chain_freed:
  assumes "chain_ok pl p b w i j k v" and "i < NUM" "j < NUM" "k < NUM" and "\<not> d_free v i" "\<not> d_free v j" "\<not> d_free v k"
  shows "\<exists>D. rw_finish i v = (Inr (), v\<lparr>info_b := (info_b v)(i := None), desc := D, d_free := (d_free v)(i := True, j := True, k := True)\<rparr>) \<and>
    (\<forall>x. x \<notin> {i, j, k} \<longrightarrow> D x = desc v x)"
proof -
  let ?v = "v\<lparr>info_b := (info_b v)(i := None)\<rparr>"
  have "unat (of_nat j :: u16) = j" "unat (of_nat k :: u16) = k" using assms(3,4) by (auto simp: unat_of_nat NUM_def)
  note n = this
  have f: "VRING_DESC_F_NEXT AND VRING_DESC_F_NEXT \<noteq> 0" "VRING_DESC_F_WRITE AND VRING_DESC_F_NEXT = 0"
      "((if w then 0 else VRING_DESC_F_WRITE) OR VRING_DESC_F_NEXT) AND VRING_DESC_F_NEXT \<noteq> 0"
    by (simp_all add: VRING_DESC_F_NEXT_def VRING_DESC_F_WRITE_def)
  have d: "distinct [i, j, k]" "d_flags (desc v i) = VRING_DESC_F_NEXT" "d_next (desc v i) = of_nat j"
      "d_flags (desc v j) = (if w then 0 else VRING_DESC_F_WRITE) OR VRING_DESC_F_NEXT" "d_next (desc v j) = of_nat k"
      "d_flags (desc v k) = VRING_DESC_F_WRITE"
    using assms(1) by (simp_all add: chain_ok_def)
  have v: "desc ?v = desc v" "d_free ?v = d_free v" by simp_all
  have "\<exists>D. free_chain i ?v = (Inr (), ?v\<lparr>desc := D, d_free := (d_free ?v)(i := True, j := True, k := True)\<rparr>) \<and>
      (\<forall>x. x \<notin> {i, j, k} \<longrightarrow> D x = desc ?v x)"
    by (rule free_chain_three; (unfold v d n)?; (rule assms d f refl)?)
  then show ?thesis by (simp add: rw_finish_def del: free_chain.simps)
qed

lemma owners_finish:
  assumes "owners_ok s" and c: "callers s p = AwaitDevice i j k b w" and ct: "callers t = (callers s)(p := NoCall)"
    and ft: "d_free (vd t) = (d_free (vd s))(i := True, j := True, k := True)"
  shows "owners_ok t"
proof -
  have dj: "descs_of (callers s x) \<inter> {i, j, k} = {}" if "x \<noteq> p" for x
    using owners_disjoint(1) [OF assms(1) c, of x] that by (cases "callers s x") auto
  have "(\<Union>x. descs_of (callers t x)) = (\<Union>x. descs_of (callers s x)) - {i, j, k}"
  proof (intro equalityI subsetI)
    fix x assume "x \<in> (\<Union>y. descs_of (callers s y)) - {i, j, k}"
    then obtain y where y: "x \<in> descs_of (callers s y)" "x \<notin> {i, j, k}" by auto
    then have "y \<noteq> p" using c by auto
    then show "x \<in> (\<Union>y. descs_of (callers t y))" using y by (auto simp: ct)
  next
    fix x assume "x \<in> (\<Union>y. descs_of (callers t y))"
    then obtain y where "x \<in> descs_of (callers s y)" "y \<noteq> p" by (auto simp: ct split: if_splits)
    then show "x \<in> (\<Union>y. descs_of (callers s y)) - {i, j, k}" using dj by fastforce
  qed
  moreover have "{x. x < NUM \<and> \<not> d_free (vd t) x} = {x. x < NUM \<and> \<not> d_free (vd s) x} - {i, j, k}"
    by (auto simp: ft)
  ultimately have "{x. x < NUM \<and> \<not> d_free (vd t) x} = (\<Union>x. descs_of (callers t x))"
    using assms(1) by (simp add: owners_ok_def)
  moreover have "descs_of (callers t x) \<inter> descs_of (callers t y) = {}" if "x \<noteq> y" for x y
    using assms(1) that unfolding owners_ok_def ct by (cases "x = p"; cases "y = p") auto
  moreover have "x = y" if "buffer_of (callers t x) = Some c" "buffer_of (callers t y) = Some c" for x y c
    using that assms(1) unfolding owners_ok_def ct by (cases "x = p"; cases "y = p") auto
  moreover have "x < NPROC \<and> c < NBUF" if "buffer_of (callers t x) = Some c" for x c
    using that assms(1) unfolding owners_ok_def ct by (cases "x = p") auto
  ultimately show ?thesis by (simp add: owners_ok_def)
qed

lemma finish_ok:
  assumes "disk_ok pl s" and c: "callers s p = AwaitDevice i j k b w" and "\<not> b_disk (vd s) b"
  obtains v where "rw_finish i (vd s) = (Inr (), v)" "disk_ok pl (after_finish pl p b w v s)"
proof -
  have o: "owners_ok s" and q: "requests_ok pl s" and r: "rings_ok s" and l: "logs_ok pl s"
    using assms(1) by (auto simp: disk_ok_def)
  have ch: "chain_ok pl p b w i j k (vd s)" "i \<notin> set (pending s)" using q assms(2,3) by (auto simp: requests_ok_def)
  obtain D where fin: "rw_finish i (vd s) = (Inr (), (vd s)\<lparr>info_b := (info_b (vd s))(i := None), desc := D,
        d_free := (d_free (vd s))(i := True, j := True, k := True)\<rparr>)" and D: "\<And>x. x \<notin> {i, j, k} \<Longrightarrow> D x = desc (vd s) x"
    using chain_freed [OF ch(1) owners_okD [OF o c]] by auto
  define v where "v = (vd s)\<lparr>info_b := (info_b (vd s))(i := None), desc := D, d_free := (d_free (vd s))(i := True, j := True, k := True)\<rparr>"
  define t where "t = after_finish pl p b w v s"
  have t: "vd t = v" "callers t = (callers s)(p := NoCall)" "dev_taken t = dev_taken s" "dev_log t = dev_log s"
      "rw_log t = (rw_log s)(p := rw_log s p @ [(rw_header b w (vd s), data_at (vd s) (data_pa pl b))])"
    by (simp_all add: t_def after_finish_def)
  have qd: "queued t = queued s" "reported v = reported (vd s)"
    by (simp_all add: t_def after_finish_def v_def queued_def reported_def)
  then have pt: "pending t = pending s" by (simp add: pending_def t)
  have h: "rw_header b' w' v = rw_header b' w' (vd s)" for b' w' by (rule rw_header_cong) (simp add: v_def)
  have "owners_ok t" by (rule owners_finish [OF o c t(2)]) (simp add: t v_def)
  moreover have "requests_ok pl t"
    unfolding requests_ok_def
  proof (intro allI impI)
    fix p' i' j' k' b' w' assume "callers t p' = AwaitDevice i' j' k' b' w'"
    then have c': "callers s p' = AwaitDevice i' j' k' b' w'" "p' \<noteq> p" by (auto simp: t split: if_splits)
    have "chain_ok pl p' b' w' i' j' k' (vd s)" "b_disk (vd s) b' \<longleftrightarrow> i' \<in> set (pending s)" using q c' by (auto simp: requests_ok_def)
    then show "chain_ok pl p' b' w' i' j' k' (vd t) \<and> (b_disk (vd t) b' \<longleftrightarrow> i' \<in> set (pending t))"
      using owners_disjoint(1) [OF o c c'(1)] c'(2) D [of i'] D [of j'] D [of k'] by (simp add: t pt chain_ok_def h) (simp add: v_def)
  qed
  moreover have "\<exists>p j k b w. callers t p = AwaitDevice x j k b w" if x: "x \<in> set (pending s)" for x
  proof -
    obtain p' j' k' b' w' where c': "callers s p' = AwaitDevice x j' k' b' w'" using x r unfolding rings_ok_def by blast
    then have "p' \<noteq> p" using x ch(2) c by auto
    then show ?thesis using c' by (auto simp: t)
  qed
  then have "rings_ok t" using r by (simp add: rings_ok_def pt) (simp add: t v_def)
  moreover have "rw_log t p' @ in_progress pl (callers t p') t = rw_log s p' @ in_progress pl (callers s p') s" for p'
  proof (cases "p' = p")
    case True
    then show ?thesis using ch(2) c by (simp add: t pending_def)
  next
    case False
    have "in_progress pl x t = in_progress pl x s" for x
      by (cases x) (simp_all add: qd t h, simp add: v_def)
    then show ?thesis using False by (simp add: t)
  qed
  then have "logs_ok pl t" using l by (simp add: logs_ok_def done_for_def) (simp add: t)
  ultimately show ?thesis using that [of v] fin by (simp add: disk_ok_def t_def v_def)
qed

lemma edit_ok:
  assumes "disk_ok pl s" and "places_ok pl" and "idle_buffer b s"
  shows "disk_ok pl (s\<lparr>vd := (vd s)\<lparr>b_blockno := (b_blockno (vd s))(b := n), data_at := (data_at (vd s))(data_pa pl b := d)\<rparr>\<rparr>)"
proof -
  define t where "t = s\<lparr>vd := (vd s)\<lparr>b_blockno := (b_blockno (vd s))(b := n), data_at := (data_at (vd s))(data_pa pl b := d)\<rparr>\<rparr>"
  have o: "owners_ok s" and q: "requests_ok pl s" and r: "rings_ok s" and l: "logs_ok pl s"
    using assms(1) by (auto simp: disk_ok_def)
  have t: "callers t = callers s" "queued t = queued s" "dev_taken t = dev_taken s" "pending t = pending s"
    by (simp_all add: t_def queued_def pending_def reported_def)
  have ne: "b' \<noteq> b \<and> data_pa pl b' \<noteq> data_pa pl b" if "callers s p = AwaitDevice i j k b' w" for p i j k b' w
  proof -
    have "p < NPROC" "b' < NBUF" using that owners_callers [OF o, of p b'] by auto
    moreover from this have "b < NBUF" "buffer_of (callers s p) \<noteq> Some b" using assms(3) by (auto simp: idle_buffer_def)
    ultimately have "b' \<noteq> b" "b < NBUF" "b' < NBUF" using that by auto
    then show ?thesis using assms(2) by (auto simp: places_ok_def inj_on_def)
  qed
  have "owners_ok t" using o by (simp add: owners_ok_def t) (simp add: t_def)
  moreover have "requests_ok pl t"
    unfolding requests_ok_def t
  proof (intro allI impI)
    fix p i j k b' w assume c: "callers s p = AwaitDevice i j k b' w"
    then have "chain_ok pl p b' w i j k (vd s)" "b_disk (vd s) b' \<longleftrightarrow> i \<in> set (pending s)" using q by (auto simp: requests_ok_def)
    then show "chain_ok pl p b' w i j k (vd t) \<and> (b_disk (vd t) b' \<longleftrightarrow> i \<in> set (pending s))"
      using ne [OF c] by (simp add: t_def chain_ok_def rw_header_def sector_def)
  qed
  moreover have "rings_ok t" using r by (simp add: rings_ok_def t) (simp add: t_def)
  moreover have "in_progress pl (callers s p) t = in_progress pl (callers s p) s" for p
  proof (cases "callers s p")
    case (AwaitDevice i j k b' w)
    then show ?thesis using ne [OF AwaitDevice] by (simp add: t) (simp add: t_def rw_header_def sector_def)
  qed simp_all
  then have "logs_ok pl t" using l by (simp add: logs_ok_def done_for_def t) (simp add: t_def)
  ultimately show ?thesis by (simp add: disk_ok_def t_def)
qed

end
