(* ===== verification/Xv7_Disk_Properties.thy ===== *)
theory Xv7_Disk_Properties
  imports Xv7_Disk
begin

text \<open>
  What the virtio disk driver promises in every interleaving of \<open>Xv7_Disk\<close>: each call of \<open>virtio_disk_rw\<close> is one
  transfer of the device, and no handler panics or waits for ever.
\<close>

section \<open>Every reachable state\<close>

lemma idle_nobody:
  assumes "disk_ok pl s" and "idle_buffer b s"
  shows "b < NBUF" "buffer_of (callers s q) \<noteq> Some b"
proof -
  have "owners_ok s" using assms(1) by (simp add: disk_ok_def)
  from owners_callers(1) [OF this, of q b]
  show "b < NBUF" "buffer_of (callers s q) \<noteq> Some b" using assms(2) by (auto simp: idle_buffer_def)
qed

definition may_start :: "nat \<Rightarrow> nat \<Rightarrow> bool \<Rightarrow> disksys \<Rightarrow> bool" where
  "may_start p b w s \<longleftrightarrow> p < NPROC \<and> callers s p = NoCall \<and> idle_buffer b s \<or> callers s p = AwaitDesc b w"

lemma may_start_ok:
  assumes "disk_ok pl s" and "places_ok pl" and "may_start p b w s"
  obtains r v where "rw_start pl p b w (vd s) = (Inr r, v)" "r = None \<longleftrightarrow> card (free_descs (vd s)) < 3"
    "disk_ok pl (s\<lparr>vd := v, callers := (callers s)(p := after_start b w r)\<rparr>)"
proof -
  have o: "owners_ok s" using assms(1) by (simp add: disk_ok_def)
  have "p < NPROC \<and> b < NBUF \<and> descs_of (callers s p) = {} \<and> (\<forall>q. q \<noteq> p \<longrightarrow> buffer_of (callers s q) \<noteq> Some b)"
  proof (cases "callers s p = AwaitDesc b w")
    case True
    then have "buffer_of (callers s p) = Some b" by simp
    then have "p < NPROC" "b < NBUF" "\<forall>q. q \<noteq> p \<longrightarrow> buffer_of (callers s q) \<noteq> Some b"
      using owners_callers [OF o] o unfolding owners_ok_def by blast+
    then show ?thesis using True by simp
  next
    case False
    then show ?thesis using assms(3) idle_nobody [OF assms(1)] by (auto simp: may_start_def)
  qed
  then show ?thesis using start_ok [OF assms(1,2), of p b w] that by blast
qed

lemma disk_step_ok:
  assumes "disk_step pl s t" and "disk_ok pl s" and "places_ok pl"
  shows "disk_ok pl t"
  using assms(1)
proof cases
  case (call p b w r v)
  then have "may_start p b w s" by (simp add: may_start_def)
  then show ?thesis by (rule may_start_ok [OF assms(2,3)]) (use call in simp)
next
  case (retry p b w r v)
  then have "may_start p b w s" by (simp add: may_start_def)
  then show ?thesis by (rule may_start_ok [OF assms(2,3)]) (use retry in simp)
next
  case (finish p i j k b w v)
  show ?thesis by (rule finish_ok [OF assms(2) finish(2,3)]) (use finish in simp)
next
  case (intr v)
  then show ?thesis using intr_ok [OF assms(2)] by simp
next
  case takes
  then show ?thesis using takes_ok [OF assms(2)] by simp
next
  case (serves i d)
  then show ?thesis using carries_out_ok [OF assms(2,3)] by simp
next
  case (edit b n d)
  then show ?thesis using edit_ok [OF assms(2,3)] by simp
qed

lemma disk_boot_ok:
  assumes "virtio_disk_init reg pages v = (Inr ws, v0)" and "\<not> d_init v" and "used_idx v = 0"
  shows "disk_ok pl (disk_boot v0)"
proof -
  have "used_idx v0 = 0" "used_id v0 = 0" "avail_idx v0 = 0" "\<And>i. i < NUM \<Longrightarrow> d_free v0 i"
    using assms by (auto simp: virtio_disk_init_def Let_def split: if_splits)
  then show ?thesis
    by (auto simp: disk_ok_def owners_ok_def requests_ok_def rings_ok_def logs_ok_def disk_boot_def pending_def queued_def reported_def done_for_def)
       (simp_all add: NUM_def)
qed

lemma disk_reach_ok:
  assumes "(disk_step pl)\<^sup>*\<^sup>* (disk_boot v0) s" and "places_ok pl"
    and "virtio_disk_init reg pages v = (Inr ws, v0)" and "\<not> d_init v" and "used_idx v = 0"
  shows "disk_ok pl s"
  using assms(1)
proof (induction rule: rtranclp_induct)
  case base
  show ?case by (rule disk_boot_ok [OF assms(3-5)])
next
  case (step s t)
  then show ?case using disk_step_ok assms(2) by blast
qed

section \<open>Executing a sequence of steps\<close>

datatype disk_ev = E_Call nat nat bool | E_Finish nat | E_Intr | E_Take | E_Serve nat sector_data

fun disk_event :: "places \<Rightarrow> disk_ev \<Rightarrow> disksys \<Rightarrow> disksys option" where
  "disk_event pl (E_Call p b w) s =
     (if p < NPROC \<and> callers s p = NoCall \<and> idle_buffer b s \<or> callers s p = AwaitDesc b w
      then case rw_start pl p b w (vd s) of
             (Inr r, v) \<Rightarrow> Some (s\<lparr>vd := v, callers := (callers s)(p := after_start b w r)\<rparr>)
           | (Inl e, v) \<Rightarrow> None
      else None)"
| "disk_event pl (E_Finish p) s =
     (case callers s p of
        AwaitDevice i j k b w \<Rightarrow>
          if b_disk (vd s) b then None
          else (case rw_finish i (vd s) of (Inr _, v) \<Rightarrow> Some (after_finish pl p b w v s) | (Inl e, v) \<Rightarrow> None)
      | _ \<Rightarrow> None)"
| "disk_event pl E_Intr s =
     (case virtio_disk_intr pl (vd s) of (Inr _, v) \<Rightarrow> Some (s\<lparr>vd := v\<rparr>) | (Inl e, v) \<Rightarrow> None)"
| "disk_event pl E_Take s = (if dev_next s \<noteq> avail_idx (vd s) then Some (takes_next s) else None)"
| "disk_event pl (E_Serve i d) s = (if i \<in> set (dev_taken s) then Some (carries_out i d s) else None)"

fun disk_events :: "places \<Rightarrow> disk_ev list \<Rightarrow> disksys \<Rightarrow> disksys option" where
  "disk_events pl [] s = Some s"
| "disk_events pl (e # es) s = (case disk_event pl e s of None \<Rightarrow> None | Some s \<Rightarrow> disk_events pl es s)"

lemma disk_event_step:
  assumes "disk_event pl e s = Some t"
  shows "disk_step pl s t"
proof (cases e)
  case (E_Call p b w)
  then show ?thesis using assms
    by (auto split: if_splits prod.splits sum.splits intro: disk_step.call disk_step.retry)
next
  case E_Intr
  then show ?thesis using assms
    by (auto simp del: virtio_disk_intr.simps split: prod.splits sum.splits intro: disk_step.intr)
qed (use assms in \<open>auto simp del: virtio_disk_intr.simps split: if_splits prod.splits sum.splits rw_stage.splits
      intro: disk_step.finish disk_step.takes disk_step.serves\<close>)

lemma disk_events_reach:
  "disk_events pl es s = Some t \<Longrightarrow> (disk_step pl)\<^sup>*\<^sup>* s t"
proof (induction es arbitrary: s)
  case (Cons e es)
  then obtain u where "disk_event pl e s = Some u" "disk_events pl es u = Some t" by (auto split: option.splits)
  then show ?case using Cons.IH disk_event_step converse_rtranclp_into_rtranclp by metis
qed simp

section \<open>Every call is one transfer\<close>

text \<open>C21: In every interleaving of processes, device and interrupts, the transfers that the device has made for a process are
  its completed calls of \<open>virtio_disk_rw\<close>, in order, each with its direction, sector and data; a call that waits for
  the device adds its own transfer, once, and has done so when it finds that the request is finished.\<close>

theorem virtio_transfers_match_calls:
  assumes "places_ok pl" and "virtio_disk_init reg pages v = (Inr ws, v0)" and "\<not> d_init v" and "used_idx v = 0"
    and "(disk_step pl)\<^sup>*\<^sup>* (disk_boot v0) s" and "p < NPROC"
  shows "case callers s p of
      AwaitDevice i j k b w \<Rightarrow>
        (let this = (rw_header b w (vd s), data_at (vd s) (data_pa pl b))
         in if b_disk (vd s) b then done_for pl p s \<in> {rw_log s p, rw_log s p @ [this]} else done_for pl p s = rw_log s p @ [this])
    | _ \<Rightarrow> done_for pl p s = rw_log s p"
proof -
  have ok: "disk_ok pl s" by (rule disk_reach_ok [OF assms(5,1-4)])
  then have l: "done_for pl p s = rw_log s p @ in_progress pl (callers s p) s" using assms(6) by (simp add: disk_ok_def logs_ok_def)
  show ?thesis
  proof (cases "callers s p")
    case (AwaitDevice i j k b w)
    then have "b_disk (vd s) b \<longleftrightarrow> i \<in> set (pending s)" using ok by (auto simp: disk_ok_def requests_ok_def)
    then show ?thesis using l AwaitDevice by (auto simp: pending_def Let_def)
  qed (use l in simp_all)
qed

section \<open>Nobody stops\<close>

text \<open>Somebody who can go on: a caller whose request is finished, the device, the interrupt, or a caller that gets its descriptors.\<close>

definition can_go_on :: "places \<Rightarrow> disksys \<Rightarrow> bool" where
  "can_go_on pl s \<longleftrightarrow> (\<exists>p i j k b w. callers s p = AwaitDevice i j k b w \<and> \<not> b_disk (vd s) b) \<or>
     dev_next s \<noteq> avail_idx (vd s) \<or> dev_taken s \<noteq> [] \<or> unat (used_idx (vd s)) mod NUM \<noteq> unat (used_id (vd s)) mod NUM \<or>
     (\<exists>p b w x v. callers s p = AwaitDesc b w \<and> rw_start pl p b w (vd s) = (Inr (Some x), v))"

lemma pending_can_go_on:
  assumes "disk_ok pl s" and "pending s \<noteq> []"
  shows "can_go_on pl s"
proof -
  have i: "unat (used_idx (vd s)) < NUM" using assms(1) by (simp add: disk_ok_def rings_ok_def)
  have "unat (used_idx (vd s)) mod NUM \<noteq> unat (used_id (vd s)) mod NUM" if "reported (vd s) \<noteq> []"
  proof
    assume "unat (used_idx (vd s)) mod NUM = unat (used_id (vd s)) mod NUM"
    then have "(unat (used_id (vd s)) + (NUM - unat (used_idx (vd s)))) mod NUM = (unat (used_idx (vd s)) + (NUM - unat (used_idx (vd s)))) mod NUM"
      by (intro mod_add_cong) simp_all
    then show False using that i by (simp add: reported_def)
  qed
  moreover have "dev_next s \<noteq> avail_idx (vd s)" if "queued s \<noteq> []" using that by (auto simp: queued_def)
  ultimately show ?thesis using assms(2) by (auto simp: pending_def can_go_on_def)
qed

lemma waiting_can_go_on:
  assumes "disk_ok pl s" and "places_ok pl" and "callers s p \<noteq> NoCall"
  shows "can_go_on pl s"
proof (cases "\<exists>q i j k b w. callers s q = AwaitDevice i j k b w")
  case True
  then obtain q i j k b w where c: "callers s q = AwaitDevice i j k b w" by blast
  then have "b_disk (vd s) b \<longleftrightarrow> i \<in> set (pending s)" using assms(1) by (auto simp: disk_ok_def requests_ok_def)
  then have "\<not> b_disk (vd s) b \<or> pending s \<noteq> []" by auto
  then show ?thesis using c pending_can_go_on [OF assms(1)] unfolding can_go_on_def by blast
next
  case False
  then have "descs_of (callers s q) = {}" for q by (cases "callers s q") auto
  then have "{i. i < NUM \<and> \<not> d_free (vd s) i} = {}" using assms(1) by (simp add: disk_ok_def owners_ok_def)
  then have f: "free_descs (vd s) = {..<NUM}" by (auto simp: free_descs_def)
  obtain b w where c: "callers s p = AwaitDesc b w" using assms(3) False by (cases "callers s p") auto
  then have "may_start p b w s" by (simp add: may_start_def)
  then obtain r v where "rw_start pl p b w (vd s) = (Inr r, v)" "r = None \<longleftrightarrow> card (free_descs (vd s)) < 3"
    by (rule may_start_ok [OF assms(1,2)])
  moreover have "\<not> card (free_descs (vd s)) < 3" by (simp add: f NUM_def)
  ultimately show ?thesis using c by (auto simp: can_go_on_def)
qed


section \<open>A run\<close>

definition places0 :: places where
  "places0 = \<lparr>hdr_pa = \<lambda>p. 4096 * of_nat p, data_pa = \<lambda>b. 1024 * of_nat b, status_pa = \<lambda>i. 16 * of_nat i\<rparr>"

definition reg0 :: "u32 \<Rightarrow> u32" where
  "reg0 r = (if r = VIRTIO_MMIO_MAGIC_VALUE then 0x74726976 else if r = VIRTIO_MMIO_VERSION then 1
     else if r = VIRTIO_MMIO_DEVICE_ID then 2 else if r = VIRTIO_MMIO_VENDOR_ID then 0x554d4551
     else if r = VIRTIO_MMIO_QUEUE_NUM_MAX then 1024 else 0)"

definition vdisk0 :: vdisk where
  "vdisk0 = \<lparr>desc = \<lambda>_. \<lparr>d_addr = 0, d_len = 0, d_flags = 0, d_next = 0\<rparr>, avail_idx = 0, avail_ring = \<lambda>_. 0, used_id = 0,
     used_elems = \<lambda>_. 0, d_free = \<lambda>_. False, used_idx = 0, info_b = \<lambda>_. None, d_init = False, b_disk = \<lambda>_. False,
     b_blockno = of_nat, hdr_at = \<lambda>_. \<lparr>h_type = 0, h_reserved = 0, h_sector = 0\<rparr>, data_at = \<lambda>_ _. 0, status_at = \<lambda>_. 0\<rparr>"

definition boot0 :: disksys where
  "boot0 = disk_boot (snd (virtio_disk_init reg0 0x80000000 vdisk0))"

text \<open>Process 0 reads block 3: the request is with the device, and later it is complete.\<close>

definition run0 :: "disk_ev list" where
  "run0 = [E_Call 0 3 False, E_Take]"

definition run1 :: "disk_ev list" where
  "run1 = run0 @ [E_Serve 0 (\<lambda>_. 7), E_Intr, E_Finish 0]"

definition disk0 :: disksys where
  "disk0 = the (disk_events places0 run0 boot0)"

definition disk1 :: disksys where
  "disk1 = the (disk_events places0 run1 boot0)"

lemma places0_ok: "places_ok places0"
proof -
  have inj: "x = y" if "of_nat c * of_nat x = (of_nat c * of_nat y :: u64)" and "x < 30" "y < 30" "0 < c" "c \<le> 4096" for c x y :: nat
  proof -
    have "c * x < 2 ^ 64" "c * y < 2 ^ 64"
      using mult_le_mono [of c 4096 x 30] mult_le_mono [of c 4096 y 30] that by simp_all
    then have "unat (of_nat (c * x) :: u64) = c * x" "unat (of_nat (c * y) :: u64) = c * y"
      by (simp_all add: unat_of_nat take_bit_nat_eq_self del: of_nat_mult)
    moreover have "of_nat (c * x) = (of_nat (c * y) :: u64)" using that(1) by simp
    ultimately have "c * x = c * y" by metis
    then show ?thesis using that by simp
  qed
  from inj [of 4096] inj [of 1024] show ?thesis
    by (auto simp: places_ok_def places0_def inj_on_def NPROC_def NBUF_def)
qed

lemma init0: "\<exists>ws. virtio_disk_init reg0 0x80000000 vdisk0 = (Inr ws, snd (virtio_disk_init reg0 0x80000000 vdisk0))"
proof -
  have "\<not> isl (fst (virtio_disk_init reg0 0x80000000 vdisk0))" by code_simp
  then show ?thesis by (cases "virtio_disk_init reg0 0x80000000 vdisk0"; cases "fst (virtio_disk_init reg0 0x80000000 vdisk0)") auto
qed

lemma vdisk0_fresh: "\<not> d_init vdisk0" "used_idx vdisk0 = 0"
  by (simp_all add: vdisk0_def)

lemma run_reaches:
  assumes "disk_events pl es s \<noteq> None"
  shows "(disk_step pl)\<^sup>*\<^sup>* s (the (disk_events pl es s))"
  using assms by (auto intro: disk_events_reach)

lemma runs_reach: "(disk_step places0)\<^sup>*\<^sup>* boot0 disk0" "(disk_step places0)\<^sup>*\<^sup>* boot0 disk1"
proof -
  have "disk_events places0 run0 boot0 \<noteq> None" "disk_events places0 run1 boot0 \<noteq> None" by code_simp+
  then show "(disk_step places0)\<^sup>*\<^sup>* boot0 disk0" "(disk_step places0)\<^sup>*\<^sup>* boot0 disk1"
    unfolding disk0_def disk1_def by - (rule run_reaches, assumption)+
qed

theorem virtio_transfers_match_calls_witness:
  "done_for places0 0 disk1 = rw_log disk1 0 \<and> map (\<lambda>(h, d). (h_type h, h_sector h, d 0)) (rw_log disk1 0) = [(0, 6, 7)]"
proof -
  obtain ws where "virtio_disk_init reg0 0x80000000 vdisk0 = (Inr ws, snd (virtio_disk_init reg0 0x80000000 vdisk0))" using init0 by blast
  from virtio_transfers_match_calls [OF places0_ok this vdisk0_fresh runs_reach(2) [unfolded boot0_def], of 0]
  have "callers disk1 0 = NoCall \<Longrightarrow> done_for places0 0 disk1 = rw_log disk1 0" by (simp add: NPROC_def)
  moreover have "callers disk1 0 = NoCall" by code_simp
  moreover have "map (\<lambda>(h, d). (h_type h, h_sector h, d 0)) (rw_log disk1 0) = [(0, 6, 7)]" by code_simp
  ultimately show ?thesis by blast
qed


end
