(* ===== verification/Vm_Map.thy ===== *)
theory Vm_Map
  imports Prelude "HOL-Library.Monad_Syntax"
begin

text \<open>
  The red-black tree of \<open>vm/lib/c_map.c\<close>, which holds the symbols of the program that \<open>vm\<close> runs.
  A pointer is an address, 0 is \<open>NULL\<close>; \<open>nodes\<close> holds the nodes that are allocated.  The
  result \<open>None\<close> is an access through \<open>NULL\<close> or to a freed node, or a loop that does not end.  What
  \<open>malloc\<close> returns for a node is an argument, \<open>a\<close>; a node's key and value are copies, \<open>None\<close> when
  their pointer is \<open>NULL\<close>.  The comparator is an argument.
\<close>

section \<open>c_map.h\<close>

datatype ccolor = C_MAP_RED | C_MAP_BLACK | C_MAP_DOUBLE_BLACK

record cnode =
  c_key :: "u8 list option"
  c_data :: "u8 list option"
  c_left :: nat
  c_right :: nat
  c_up :: nat
  c_color :: ccolor

record citer =
  it_prev :: nat
  it_node :: nat

record cmap =
  nodes :: "nat \<Rightarrow> cnode option"
  head :: nat
  key_size :: nat
  element_size :: nat
  csize :: u64
  it_end :: citer
  it_most :: citer
  it_least :: citer

text \<open>Keys of four bytes, least significant byte first.\<close>

definition key32 :: "u8 list \<Rightarrow> u32" where
  "key32 k = ucast (k ! 0) OR push_bit 8 (ucast (k ! 1)) OR push_bit 16 (ucast (k ! 2)) OR push_bit 24 (ucast (k ! 3))"

definition c_map_cmp_int :: "u8 list \<Rightarrow> u8 list \<Rightarrow> int" where
  "c_map_cmp_int a b = (if sint (key32 a) < sint (key32 b) then -1 else if sint (key32 a) > sint (key32 b) then 1 else 0)"

definition c_map_cmp_uint :: "u8 list \<Rightarrow> u8 list \<Rightarrow> int" where
  "c_map_cmp_uint a b = (if key32 a < key32 b then -1 else if key32 a > key32 b then 1 else 0)"

section \<open>Nodes\<close>

definition set_node :: "nat \<Rightarrow> (cnode \<Rightarrow> cnode) \<Rightarrow> cmap \<Rightarrow> cmap option" where
  "set_node p f s = map_option (\<lambda>n. s\<lparr>nodes := (nodes s)(p \<mapsto> f n)\<rparr>) (nodes s p)"

definition copied :: "nat \<Rightarrow> u8 list option \<Rightarrow> u8 list option" where
  "copied n k = Some (case k of None \<Rightarrow> replicate n 0 | Some k \<Rightarrow> take n k)"

definition c_map_create_node :: "nat \<Rightarrow> u8 list option \<Rightarrow> u8 list option \<Rightarrow> cmap \<Rightarrow> cmap" where
  "c_map_create_node a k v s =
     s\<lparr>nodes := (nodes s)(a \<mapsto> \<lparr>c_key = copied (key_size s) k, c_data = copied (element_size s) v,
        c_left = 0, c_right = 0, c_up = 0, c_color = C_MAP_RED\<rparr>)\<rparr>"

definition c_map_delete_node :: "nat \<Rightarrow> cmap \<Rightarrow> cmap option" where
  "c_map_delete_node p s = map_option (\<lambda>_. s\<lparr>nodes := (nodes s)(p := None)\<rparr>) (nodes s p)"

section \<open>Rotations\<close>

text \<open>\<open>up->right\<close> or \<open>up->left\<close>, whichever is \<open>node\<close>, becomes \<open>r\<close>.\<close>

definition hang :: "nat \<Rightarrow> nat \<Rightarrow> nat \<Rightarrow> cmap \<Rightarrow> cmap option" where
  "hang up node r s =
     (if up = 0 then Some s
      else do {
        u \<leftarrow> nodes s up;
        if c_right u = node then set_node up (\<lambda>x. x\<lparr>c_right := r\<rparr>) s else set_node up (\<lambda>x. x\<lparr>c_left := r\<rparr>) s
      })"

definition c_map_rotate_left :: "nat \<Rightarrow> cmap \<Rightarrow> (nat \<times> cmap) option" where
  "c_map_rotate_left node s = do {
     n \<leftarrow> nodes s node;
     let r = c_right n;
     m \<leftarrow> nodes s r;
     let rl = c_left m;
     let up = c_up n;
     s \<leftarrow> set_node r (\<lambda>x. x\<lparr>c_up := up\<rparr>) s;
     s \<leftarrow> set_node r (\<lambda>x. x\<lparr>c_left := node\<rparr>) s;
     s \<leftarrow> set_node node (\<lambda>x. x\<lparr>c_right := rl\<rparr>) s;
     s \<leftarrow> set_node node (\<lambda>x. x\<lparr>c_up := r\<rparr>) s;
     s \<leftarrow> (if rl \<noteq> 0 then set_node rl (\<lambda>x. x\<lparr>c_up := node\<rparr>) s else Some s);
     s \<leftarrow> hang up node r s;
     Some (r, if node = head s then s\<lparr>head := r\<rparr> else s)
   }"

definition c_map_rotate_right :: "nat \<Rightarrow> cmap \<Rightarrow> (nat \<times> cmap) option" where
  "c_map_rotate_right node s = do {
     n \<leftarrow> nodes s node;
     let l = c_left n;
     m \<leftarrow> nodes s l;
     let lr = c_right m;
     let up = c_up n;
     s \<leftarrow> set_node l (\<lambda>x. x\<lparr>c_up := up\<rparr>) s;
     s \<leftarrow> set_node l (\<lambda>x. x\<lparr>c_right := node\<rparr>) s;
     s \<leftarrow> set_node node (\<lambda>x. x\<lparr>c_left := lr\<rparr>) s;
     s \<leftarrow> set_node node (\<lambda>x. x\<lparr>c_up := l\<rparr>) s;
     s \<leftarrow> (if lr \<noteq> 0 then set_node lr (\<lambda>x. x\<lparr>c_up := node\<rparr>) s else Some s);
     s \<leftarrow> hang up node l s;
     Some (l, if node = head s then s\<lparr>head := l\<rparr> else s)
   }"

section \<open>Repair after an insertion\<close>

text \<open>The cases of an uncle that is not red.  The last one also gets the rotated nodes, which it does not use.\<close>

definition c_map_l_l :: "nat \<Rightarrow> cmap \<Rightarrow> cmap option" where
  "c_map_l_l grandparent s = do {
     (grandparent, s) \<leftarrow> c_map_rotate_right grandparent s;
     g \<leftarrow> nodes s grandparent;
     r \<leftarrow> nodes s (c_right g);
     s \<leftarrow> set_node grandparent (\<lambda>x. x\<lparr>c_color := c_color r\<rparr>) s;
     set_node (c_right g) (\<lambda>x. x\<lparr>c_color := c_color g\<rparr>) s
   }"

definition c_map_l_r :: "nat \<Rightarrow> cmap \<Rightarrow> cmap option" where
  "c_map_l_r parent s = do {
     (parent, s) \<leftarrow> c_map_rotate_left parent s;
     p \<leftarrow> nodes s parent;
     _ \<leftarrow> nodes s (c_up p);
     c_map_l_l (c_up p) s
   }"

definition c_map_r_r :: "nat \<Rightarrow> cmap \<Rightarrow> cmap option" where
  "c_map_r_r grandparent s = do {
     (grandparent, s) \<leftarrow> c_map_rotate_left grandparent s;
     g \<leftarrow> nodes s grandparent;
     l \<leftarrow> nodes s (c_left g);
     s \<leftarrow> set_node grandparent (\<lambda>x. x\<lparr>c_color := c_color l\<rparr>) s;
     set_node (c_left g) (\<lambda>x. x\<lparr>c_color := c_color g\<rparr>) s
   }"

definition c_map_r_l :: "nat \<Rightarrow> cmap \<Rightarrow> cmap option" where
  "c_map_r_l parent s = do {
     (parent, s) \<leftarrow> c_map_rotate_right parent s;
     p \<leftarrow> nodes s parent;
     _ \<leftarrow> nodes s (c_up p);
     c_map_r_r (c_up p) s
   }"

definition color_of :: "nat \<Rightarrow> cmap \<Rightarrow> ccolor option" where
  "color_of p s = map_option c_color (nodes s p)"

definition paint :: "ccolor \<Rightarrow> nat \<Rightarrow> cmap \<Rightarrow> cmap option" where
  "paint c p s = set_node p (\<lambda>x. x\<lparr>c_color := c\<rparr>) s"

partial_function (option) c_map_fix_colors :: "nat \<Rightarrow> cmap \<Rightarrow> cmap option" where
  "c_map_fix_colors node s =
     (if node = head s then paint C_MAP_BLACK node s
      else do {
        n \<leftarrow> nodes s node;
        let parent = c_up n;
        p \<leftarrow> nodes s parent;
        if c_color p = C_MAP_BLACK \<and> parent \<noteq> head s then Some s
        else if c_up p = 0 then Some s
        else do {
          let grandparent = c_up p;
          g \<leftarrow> nodes s grandparent;
          let uncle = (if c_left g = parent then c_right g else c_left g);
          uc \<leftarrow> (if uncle = 0 then Some C_MAP_BLACK else color_of uncle s);
          if uc = C_MAP_RED then do {
            s \<leftarrow> paint C_MAP_BLACK uncle s;
            s \<leftarrow> paint C_MAP_BLACK parent s;
            s \<leftarrow> paint C_MAP_RED grandparent s;
            c_map_fix_colors grandparent s
          }
          else if uc = C_MAP_BLACK then
            if parent = c_left g \<and> node = c_left p then c_map_l_l grandparent s
            else if parent = c_left g \<and> node = c_right p then c_map_l_r parent s
            else if parent = c_right g \<and> node = c_left p then c_map_r_l parent s
            else if parent = c_right g \<and> node = c_right p then c_map_r_r grandparent s
            else Some s
          else Some s
        }
      })"

section \<open>The ends of the order\<close>

partial_function (option) leftmost :: "nat \<Rightarrow> cmap \<Rightarrow> nat option" where
  "leftmost p s = do { n \<leftarrow> nodes s p; if c_left n \<noteq> 0 then leftmost (c_left n) s else Some p }"

partial_function (option) rightmost :: "nat \<Rightarrow> cmap \<Rightarrow> nat option" where
  "rightmost p s = do { n \<leftarrow> nodes s p; if c_right n \<noteq> 0 then rightmost (c_right n) s else Some p }"

definition set_ends :: "nat \<Rightarrow> nat \<Rightarrow> cmap \<Rightarrow> cmap" where
  "set_ends l m s = s\<lparr>it_least := (it_least s)\<lparr>it_node := l\<rparr>, it_most := (it_most s)\<lparr>it_node := m\<rparr>\<rparr>"

definition c_map_calibrate :: "cmap \<Rightarrow> cmap option" where
  "c_map_calibrate s =
     (if head s = 0 then Some (set_ends 0 0 s)
      else do {
        l \<leftarrow> leftmost (head s) s;
        m \<leftarrow> rightmost (head s) s;
        Some (set_ends l m s)
      })"

section \<open>Creation, insertion and search\<close>

definition c_map_new :: "nat \<Rightarrow> nat \<Rightarrow> cmap" where
  "c_map_new s1 s2 = \<lparr>nodes = \<lambda>_. None, head = 0, key_size = s1, element_size = s2, csize = 0,
     it_end = \<lparr>it_prev = 0, it_node = 0\<rparr>, it_most = \<lparr>it_prev = 0, it_node = 0\<rparr>, it_least = \<lparr>it_prev = 0, it_node = 0\<rparr>\<rparr>"

text \<open>The descent of \<open>c_map_insert\<close>: whether the node was hung below some node.\<close>

partial_function (option) insert_below :: "(u8 list \<Rightarrow> u8 list \<Rightarrow> int) \<Rightarrow> nat \<Rightarrow> nat \<Rightarrow> cmap \<Rightarrow> (bool \<times> cmap) option" where
  "insert_below cmp a cur s = do {
     n \<leftarrow> nodes s a;
     k \<leftarrow> c_key n;
     c \<leftarrow> nodes s cur;
     ck \<leftarrow> c_key c;
     let res = cmp k ck;
     if res = 0 then do { s \<leftarrow> c_map_delete_node a s; Some (False, s) }
     else if res < 0 then
       if c_left c = 0 then do {
         s \<leftarrow> set_node cur (\<lambda>x. x\<lparr>c_left := a\<rparr>) s;
         s \<leftarrow> set_node a (\<lambda>x. x\<lparr>c_up := cur\<rparr>) s;
         s \<leftarrow> c_map_fix_colors a s;
         Some (True, s)
       }
       else insert_below cmp a (c_left c) s
     else
       if c_right c = 0 then do {
         s \<leftarrow> set_node cur (\<lambda>x. x\<lparr>c_right := a\<rparr>) s;
         s \<leftarrow> set_node a (\<lambda>x. x\<lparr>c_up := cur\<rparr>) s;
         s \<leftarrow> c_map_fix_colors a s;
         Some (True, s)
       }
       else insert_below cmp a (c_right c) s
   }"

definition c_map_insert :: "(u8 list \<Rightarrow> u8 list \<Rightarrow> int) \<Rightarrow> nat \<Rightarrow> u8 list option \<Rightarrow> u8 list option \<Rightarrow> cmap \<Rightarrow> (bool \<times> cmap) option" where
  "c_map_insert cmp a k v s = do {
     let s = c_map_create_node a k v s;
     let s = s\<lparr>csize := csize s + 1\<rparr>;
     if head s = 0 then do {
       let s = s\<lparr>head := a\<rparr>;
       s \<leftarrow> paint C_MAP_BLACK a s;
       s \<leftarrow> c_map_calibrate s;
       Some (True, s)
     }
     else do {
       (placed, s) \<leftarrow> insert_below cmp a (head s) s;
       if \<not> placed then Some (False, s)
       else do { s \<leftarrow> c_map_calibrate s; Some (True, s) }
     }
   }"

text \<open>\<open>c_map_prev\<close> on an iterator; its second loop goes up from \<open>node\<close>, \<open>prev\<close> being the node it came from.\<close>

partial_function (option) climb :: "nat \<Rightarrow> nat \<Rightarrow> cmap \<Rightarrow> citer option" where
  "climb prev node s = do {
     n \<leftarrow> nodes s node;
     if c_up n \<noteq> 0 \<and> c_left n \<noteq> 0 \<and> c_left n = prev then climb node (c_up n) s
     else Some \<lparr>it_prev = prev, it_node = node\<rparr>
   }"

definition c_map_prev :: "citer \<Rightarrow> cmap \<Rightarrow> citer option" where
  "c_map_prev it s =
     (if it_node it = 0 then Some (it\<lparr>it_prev := 0\<rparr>)
      else if it_node it = it_node (it_least s) then Some \<lparr>it_prev = 0, it_node = 0\<rparr>
      else do {
        n \<leftarrow> nodes s (it_node it);
        if c_left n \<noteq> 0 then do { m \<leftarrow> rightmost (c_left n) s; Some (it\<lparr>it_node := m\<rparr>) }
        else if c_up n = 0 then Some \<lparr>it_prev = it_node it, it_node = 0\<rparr>
        else climb (it_node it) (c_up n) s
      })"

text \<open>The binary search: 0 when the key is not there.\<close>

partial_function (option) search_from :: "(u8 list \<Rightarrow> u8 list \<Rightarrow> int) \<Rightarrow> u8 list \<Rightarrow> nat \<Rightarrow> cmap \<Rightarrow> nat option" where
  "search_from cmp k cur s = do {
     c \<leftarrow> nodes s cur;
     ck \<leftarrow> c_key c;
     let res = cmp k ck;
     if res = 0 then Some cur
     else if res < 0 then if c_left c = 0 then Some 0 else search_from cmp k (c_left c) s
     else if c_right c = 0 then Some 0 else search_from cmp k (c_right c) s
   }"

definition c_map_find :: "(u8 list \<Rightarrow> u8 list \<Rightarrow> int) \<Rightarrow> citer \<Rightarrow> u8 list \<Rightarrow> cmap \<Rightarrow> citer option" where
  "c_map_find cmp it k s =
     (if head s = 0 then Some (it\<lparr>it_node := 0, it_prev := 0\<rparr>)
      else do {
        cur \<leftarrow> search_from cmp k (head s) s;
        if cur \<noteq> 0 then do {
          let it = it\<lparr>it_node := cur\<rparr>;
          tmp \<leftarrow> c_map_prev it s;
          Some (it\<lparr>it_prev := it_node tmp\<rparr>)
        }
        else Some (it\<lparr>it_node := 0\<rparr>)
      })"

definition c_map_empty :: "cmap \<Rightarrow> bool" where
  "c_map_empty s \<longleftrightarrow> csize s = 0"

definition c_map_at_end :: "citer \<Rightarrow> bool" where
  "c_map_at_end it \<longleftrightarrow> it_node it = 0"

section \<open>Removal\<close>

text \<open>The colour of a child, black for \<open>NULL\<close>.\<close>

definition child_color :: "nat \<Rightarrow> cmap \<Rightarrow> ccolor option" where
  "child_color p s = (if p = 0 then Some C_MAP_BLACK else color_of p s)"

partial_function (option) fixup_loop :: "nat \<Rightarrow> nat \<Rightarrow> bool \<Rightarrow> cmap \<Rightarrow> cmap option" where
  "fixup_loop node p y_is_left s = do {
     nc \<leftarrow> color_of node s;
     if node = head s \<or> nc \<noteq> C_MAP_BLACK then paint C_MAP_BLACK node s
     else if y_is_left then do {
       pn \<leftarrow> nodes s p;
       let w = c_right pn;
       wc \<leftarrow> color_of w s;
       (p, w, s) \<leftarrow>
         (if wc = C_MAP_RED then do {
            s \<leftarrow> paint C_MAP_BLACK w s;
            s \<leftarrow> paint C_MAP_RED p s;
            (q, s) \<leftarrow> c_map_rotate_left p s;
            qn \<leftarrow> nodes s q;
            pn \<leftarrow> nodes s (c_left qn);
            Some (c_left qn, c_right pn, s)
          } else Some (p, w, s));
       wn \<leftarrow> nodes s w;
       lc \<leftarrow> child_color (c_left wn) s;
       rc \<leftarrow> child_color (c_right wn) s;
       if lc = C_MAP_BLACK \<and> rc = C_MAP_BLACK then do {
         s \<leftarrow> paint C_MAP_RED w s;
         n \<leftarrow> nodes s node;
         let node = c_up n;
         n \<leftarrow> nodes s node;
         let p = c_up n;
         if p \<noteq> 0 then do { pn \<leftarrow> nodes s p; fixup_loop node p (node = c_left pn) s }
         else fixup_loop node p y_is_left s
       }
       else do {
         (w, s) \<leftarrow>
           (if rc = C_MAP_BLACK then do {
              s \<leftarrow> paint C_MAP_BLACK (c_left wn) s;
              s \<leftarrow> paint C_MAP_RED w s;
              (w, s) \<leftarrow> c_map_rotate_right w s;
              pn \<leftarrow> nodes s p;
              Some (c_right pn, s)
            } else Some (w, s));
         pc \<leftarrow> color_of p s;
         s \<leftarrow> paint pc w s;
         s \<leftarrow> paint C_MAP_BLACK p s;
         wn \<leftarrow> nodes s w;
         s \<leftarrow> (if c_right wn \<noteq> 0 then paint C_MAP_BLACK (c_right wn) s else Some s);
         (p, s) \<leftarrow> c_map_rotate_left p s;
         fixup_loop (head s) 0 y_is_left s
       }
     }
     else do {
       pn \<leftarrow> nodes s p;
       let w = c_left pn;
       wc \<leftarrow> color_of w s;
       (p, w, s) \<leftarrow>
         (if wc = C_MAP_RED then do {
            s \<leftarrow> paint C_MAP_BLACK w s;
            s \<leftarrow> paint C_MAP_RED p s;
            (q, s) \<leftarrow> c_map_rotate_right p s;
            qn \<leftarrow> nodes s q;
            pn \<leftarrow> nodes s (c_right qn);
            Some (c_right qn, c_left pn, s)
          } else Some (p, w, s));
       wn \<leftarrow> nodes s w;
       lc \<leftarrow> child_color (c_left wn) s;
       rc \<leftarrow> child_color (c_right wn) s;
       if lc = C_MAP_BLACK \<and> rc = C_MAP_BLACK then do {
         s \<leftarrow> paint C_MAP_RED w s;
         n \<leftarrow> nodes s node;
         let node = c_up n;
         n \<leftarrow> nodes s node;
         let p = c_up n;
         if p \<noteq> 0 then do { pn \<leftarrow> nodes s p; fixup_loop node p (node = c_left pn) s }
         else fixup_loop node p y_is_left s
       }
       else do {
         (w, s) \<leftarrow>
           (if lc = C_MAP_BLACK then do {
              s \<leftarrow> paint C_MAP_BLACK (c_right wn) s;
              s \<leftarrow> paint C_MAP_RED w s;
              (w, s) \<leftarrow> c_map_rotate_left w s;
              pn \<leftarrow> nodes s p;
              Some (c_left pn, s)
            } else Some (w, s));
         pc \<leftarrow> color_of p s;
         s \<leftarrow> paint pc w s;
         s \<leftarrow> paint C_MAP_BLACK p s;
         wn \<leftarrow> nodes s w;
         s \<leftarrow> (if c_left wn \<noteq> 0 then paint C_MAP_BLACK (c_left wn) s else Some s);
         (p, s) \<leftarrow> c_map_rotate_right p s;
         fixup_loop (head s) 0 y_is_left s
       }
     }
   }"

definition c_map_delete_fixup :: "nat \<Rightarrow> nat \<Rightarrow> bool \<Rightarrow> cmap \<Rightarrow> cmap option" where
  "c_map_delete_fixup node p y_is_left s = (if node = 0 then Some s else fixup_loop node p y_is_left s)"

text \<open>The node below or at \<open>node\<close> whose place is given up; \<open>n\<close> is \<open>*node\<close>.\<close>

definition erase_target :: "nat \<Rightarrow> cnode \<Rightarrow> cmap \<Rightarrow> nat option" where
  "erase_target node n s =
     (if c_left n = 0 \<and> c_right n = 0 then Some node
      else if c_right n = 0 then Some (c_left n)
      else if c_left n = 0 then Some (c_right n)
      else rightmost (c_left n) s)"

text \<open>Cutting \<open>y\<close> out, \<open>x\<close> taking its place: whether \<open>y\<close> was a left child.\<close>

definition splice :: "nat \<Rightarrow> nat \<Rightarrow> nat \<Rightarrow> cmap \<Rightarrow> (bool \<times> cmap) option" where
  "splice y x yup s =
     (if yup = 0 then Some (False, s\<lparr>head := x\<rparr>)
      else do {
        u \<leftarrow> nodes s yup;
        if y = c_left u then do { s \<leftarrow> set_node yup (\<lambda>z. z\<lparr>c_left := x\<rparr>) s; Some (True, s) }
        else do { s \<leftarrow> set_node yup (\<lambda>z. z\<lparr>c_right := x\<rparr>) s; Some (False, s) }
      })"

text \<open>The blank node \<open>a\<close> that stands for a double black leaf, and its removal.\<close>

definition add_blank :: "nat \<Rightarrow> nat \<Rightarrow> cmap \<Rightarrow> cmap option" where
  "add_blank a target s = do {
     let s = c_map_create_node a None None s;
     t \<leftarrow> nodes s target;
     u \<leftarrow> nodes s (c_up t);
     s \<leftarrow> (if c_left u = 0 then set_node (c_up t) (\<lambda>z. z\<lparr>c_left := a\<rparr>) s else set_node (c_up t) (\<lambda>z. z\<lparr>c_right := a\<rparr>) s);
     s \<leftarrow> set_node a (\<lambda>z. z\<lparr>c_up := c_up t\<rparr>) s;
     paint C_MAP_BLACK a s
   }"

definition drop_blank :: "nat \<Rightarrow> cmap \<Rightarrow> cmap option" where
  "drop_blank a s = do {
     b \<leftarrow> nodes s a;
     s \<leftarrow> (if c_up b \<noteq> 0 then do {
             u \<leftarrow> nodes s (c_up b);
             if c_left u = a then set_node (c_up b) (\<lambda>z. z\<lparr>c_left := 0\<rparr>) s else set_node (c_up b) (\<lambda>z. z\<lparr>c_right := 0\<rparr>) s
           } else Some s);
     c_map_delete_node a s
   }"

definition c_map_erase :: "nat \<Rightarrow> citer \<Rightarrow> cmap \<Rightarrow> cmap option" where
  "c_map_erase a it s = do {
     let node = it_node it;
     if csize s = 1 \<and> node = head s then do {
       s \<leftarrow> c_map_delete_node node s;
       let s = s\<lparr>head := 0\<rparr>;
       Some (s\<lparr>csize := csize s - 1\<rparr>)
     }
     else do {
       n \<leftarrow> nodes s node;
       target \<leftarrow> erase_target node n s;
       let y = (if c_left n = 0 \<or> c_right n = 0 then node else target);
       yn \<leftarrow> nodes s y;
       let x = (if c_left yn \<noteq> 0 then c_left yn else c_right yn);
       s \<leftarrow> (if x \<noteq> 0 then set_node x (\<lambda>z. z\<lparr>c_up := c_up yn\<rparr>) s else Some s);
       (y_is_left, s) \<leftarrow> splice y x (c_up yn) s;
       s \<leftarrow> (if y \<noteq> node then do {
               s \<leftarrow> set_node node (\<lambda>z. z\<lparr>c_key := c_key yn, c_data := c_data yn\<rparr>) s;
               set_node y (\<lambda>z. z\<lparr>c_key := None, c_data := None\<rparr>) s
             } else Some s);
       s \<leftarrow> (if c_color yn = C_MAP_BLACK then
               if x = 0 then do {
                 s \<leftarrow> add_blank a target s;
                 s \<leftarrow> c_map_delete_fixup a (c_up yn) y_is_left s;
                 drop_blank a s
               }
               else c_map_delete_fixup x (c_up yn) y_is_left s
             else Some s);
       let s = s\<lparr>csize := csize s - 1\<rparr>;
       s \<leftarrow> c_map_delete_node y s;
       c_map_calibrate s
     }
   }"

partial_function (option) c_map_clear_nested :: "nat \<Rightarrow> cmap \<Rightarrow> cmap option" where
  "c_map_clear_nested node s = do {
     n \<leftarrow> nodes s node;
     s \<leftarrow> (if c_left n \<noteq> 0 then c_map_clear_nested (c_left n) s else Some s);
     n \<leftarrow> nodes s node;
     s \<leftarrow> (if c_right n \<noteq> 0 then c_map_clear_nested (c_right n) s else Some s);
     c_map_delete_node node s
   }"

definition c_map_clear :: "cmap \<Rightarrow> cmap option" where
  "c_map_clear s = do {
     s \<leftarrow> (if head s \<noteq> 0 then c_map_clear_nested (head s) s else Some s);
     let s = s\<lparr>csize := 0\<rparr>;
     Some (s\<lparr>head := 0\<rparr>)
   }"

text \<open>\<open>c_map_delete\<close> frees the map itself after this.\<close>

definition c_map_delete :: "cmap \<Rightarrow> cmap option" where
  "c_map_delete s = c_map_clear s"

end
