(* ===== verification/Vm_Elf.thy ===== *)
theory Vm_Elf
  imports Vm_Map
begin

text \<open>
  The ELF reader \<open>vm/lib/elf.c\<close> and the symbol table \<open>vm/riscv/sym.c\<close>.  The file is a list of bytes, a
  pointer into it an offset from \<open>rawdata\<close>; reading a byte outside the file is the result \<open>None\<close>.
  Headers are read field by field, as the code does, so that a short file fails only at a field that
  is read.  A field of \<open>elf_section_t\<close> the code leaves uninitialised is \<open>None\<close>.
\<close>

section \<open>Reading the file\<close>

definition byte_at :: "u8 list \<Rightarrow> int \<Rightarrow> u8 option" where
  "byte_at raw p = (if 0 \<le> p \<and> p < int (length raw) then Some (raw ! nat p) else None)"

definition half_at :: "u8 list \<Rightarrow> int \<Rightarrow> u16 option" where
  "half_at raw p = do { l \<leftarrow> byte_at raw p; h \<leftarrow> byte_at raw (p + 1); Some (ucast l OR push_bit 8 (ucast h)) }"

definition word_at :: "u8 list \<Rightarrow> int \<Rightarrow> u32 option" where
  "word_at raw p = do { l \<leftarrow> half_at raw p; h \<leftarrow> half_at raw (p + 2); Some (ucast l OR push_bit 16 (ucast h)) }"

definition bytes_at :: "u8 list \<Rightarrow> int \<Rightarrow> nat \<Rightarrow> u8 list option" where
  "bytes_at raw p n = (if 0 \<le> p \<and> p + int n \<le> int (length raw) then Some (take n (drop (nat p) raw)) else None)"

text \<open>\<open>strcmp\<close> with a literal: whether the string at \<open>p\<close> is \<open>name\<close>.\<close>

fun str_eq :: "u8 list \<Rightarrow> u8 list \<Rightarrow> int \<Rightarrow> bool option" where
  "str_eq [] raw p = do { b \<leftarrow> byte_at raw p; Some (b = 0) }"
| "str_eq (c # cs) raw p = do { b \<leftarrow> byte_at raw p; if b = c then str_eq cs raw (p + 1) else Some False }"

section \<open>elf.h\<close>

text \<open>The fields of the file header, of program and section headers and of symbols, at their offsets.\<close>

definition e_class :: "u8 list \<Rightarrow> u8 option" where "e_class raw = byte_at raw 4"
definition e_entry :: "u8 list \<Rightarrow> u32 option" where "e_entry raw = word_at raw 24"
definition e_phoff :: "u8 list \<Rightarrow> u32 option" where "e_phoff raw = word_at raw 28"
definition e_shoff :: "u8 list \<Rightarrow> u32 option" where "e_shoff raw = word_at raw 32"
definition e_phnum :: "u8 list \<Rightarrow> u16 option" where "e_phnum raw = half_at raw 44"
definition e_shnum :: "u8 list \<Rightarrow> u16 option" where "e_shnum raw = half_at raw 48"
definition e_shstrndx :: "u8 list \<Rightarrow> u16 option" where "e_shstrndx raw = half_at raw 50"

definition p_type :: "u8 list \<Rightarrow> int \<Rightarrow> u32 option" where "p_type raw p = word_at raw p"
definition p_offset :: "u8 list \<Rightarrow> int \<Rightarrow> u32 option" where "p_offset raw p = word_at raw (p + 4)"
definition p_vaddr :: "u8 list \<Rightarrow> int \<Rightarrow> u32 option" where "p_vaddr raw p = word_at raw (p + 8)"
definition p_filesz :: "u8 list \<Rightarrow> int \<Rightarrow> u32 option" where "p_filesz raw p = word_at raw (p + 16)"
definition p_memsz :: "u8 list \<Rightarrow> int \<Rightarrow> u32 option" where "p_memsz raw p = word_at raw (p + 20)"

definition sh_name :: "u8 list \<Rightarrow> int \<Rightarrow> u32 option" where "sh_name raw p = word_at raw p"
definition sh_addr :: "u8 list \<Rightarrow> int \<Rightarrow> u32 option" where "sh_addr raw p = word_at raw (p + 12)"
definition sh_offset :: "u8 list \<Rightarrow> int \<Rightarrow> u32 option" where "sh_offset raw p = word_at raw (p + 16)"
definition sh_size :: "u8 list \<Rightarrow> int \<Rightarrow> u32 option" where "sh_size raw p = word_at raw (p + 20)"

definition st_name :: "u8 list \<Rightarrow> int \<Rightarrow> u32 option" where "st_name raw p = word_at raw p"
definition st_value :: "u8 list \<Rightarrow> int \<Rightarrow> u32 option" where "st_value raw p = word_at raw (p + 4)"
definition st_info :: "u8 list \<Rightarrow> int \<Rightarrow> u8 option" where "st_info raw p = byte_at raw (p + 12)"

definition sizeof_phdr :: int where "sizeof_phdr = 32"
definition sizeof_shdr :: int where "sizeof_shdr = 40"
definition sizeof_sym :: int where "sizeof_sym = 16"

definition PT_LOAD :: u32 where "PT_LOAD = 1"
definition ELFCLASS32 :: u8 where "ELFCLASS32 = 1"

definition ELF_ST_TYPE :: "u8 \<Rightarrow> u8" where "ELF_ST_TYPE v = v AND 0xf"

record elf =
  rawdata :: "u8 list"
  shdrs :: int
  phdrs :: int
  shstrtab :: int
  strtab :: "int option"

record elf_section_t =
  sec_name :: "int option"
  sec_body :: "int option"
  sec_addr :: "u32 option"
  sec_size :: "u32 option"

section \<open>elf.c\<close>

text \<open>The offsets of names are ints in the code.\<close>

definition elf_sh_str :: "elf \<Rightarrow> u32 \<Rightarrow> int" where
  "elf_sh_str e off = shstrtab e + sint off"

definition elf_sym_str :: "elf \<Rightarrow> u32 \<Rightarrow> int option" where
  "elf_sym_str e off = map_option (\<lambda>t. t + sint off) (strtab e)"

definition shdr_at :: "elf \<Rightarrow> int \<Rightarrow> int" where
  "shdr_at e si = shdrs e + sizeof_shdr * si"

fun find_section_in :: "elf \<Rightarrow> u8 list \<Rightarrow> nat list \<Rightarrow> int option" where
  "find_section_in e name [] = Some (-1)"
| "find_section_in e name (si # sis) = do {
     off \<leftarrow> sh_name (rawdata e) (shdr_at e (int si));
     same \<leftarrow> str_eq name (rawdata e) (elf_sh_str e off);
     if same then Some (int si) else find_section_in e name sis
   }"

definition elf_find_section :: "elf \<Rightarrow> u8 list \<Rightarrow> int option" where
  "elf_find_section e name = do { n \<leftarrow> e_shnum (rawdata e); find_section_in e name [0..<unat n] }"

definition elf_get_section :: "elf \<Rightarrow> int \<Rightarrow> elf_section_t option" where
  "elf_get_section e si = do {
     n \<leftarrow> e_shnum (rawdata e);
     if si > int (unat n) \<or> si < 0 then Some \<lparr>sec_name = None, sec_body = None, sec_addr = None, sec_size = None\<rparr>
     else do {
       let h = shdr_at e si;
       name \<leftarrow> sh_name (rawdata e) h;
       off \<leftarrow> sh_offset (rawdata e) h;
       addr \<leftarrow> sh_addr (rawdata e) h;
       sz \<leftarrow> sh_size (rawdata e) h;
       Some \<lparr>sec_name = Some (elf_sh_str e name), sec_body = Some (int (unat off)), sec_addr = Some addr, sec_size = Some sz\<rparr>
     }
   }"

definition elf_section :: "elf \<Rightarrow> u8 list \<Rightarrow> elf_section_t option" where
  "elf_section e name = do { si \<leftarrow> elf_find_section e name; elf_get_section e si }"

definition elf_valid :: "u8 list \<Rightarrow> bool option" where
  "elf_valid raw = do {
     ident \<leftarrow> bytes_at raw 0 4;
     if ident \<noteq> [0x7f, 0x45, 0x4c, 0x46] then Some False
     else do { c \<leftarrow> e_class raw; Some (c = ELFCLASS32) }
   }"

text \<open>\<open>.strtab\<close>, \<open>.symtab\<close>\<close>

definition strtab_name :: "u8 list" where "strtab_name = [46, 115, 116, 114, 116, 97, 98]"
definition symtab_name :: "u8 list" where "symtab_name = [46, 115, 121, 109, 116, 97, 98]"

text \<open>\<open>elf_load\<close> of a file with the contents \<open>raw\<close>: \<open>Some None\<close> when it is not an ELF file for 32 bits.\<close>

definition elf_load :: "u8 list \<Rightarrow> elf option option" where
  "elf_load raw = do {
     ok \<leftarrow> elf_valid raw;
     if \<not> ok then Some None
     else do {
       shoff \<leftarrow> e_shoff raw;
       phoff \<leftarrow> e_phoff raw;
       let e = \<lparr>rawdata = raw, shdrs = int (unat shoff), phdrs = int (unat phoff), shstrtab = 0, strtab = None\<rparr>;
       ndx \<leftarrow> e_shstrndx raw;
       off \<leftarrow> sh_offset raw (shdr_at e (int (unat ndx)));
       let e = e\<lparr>shstrtab := int (unat off)\<rparr>;
       sec \<leftarrow> elf_section e strtab_name;
       Some (Some (e\<lparr>strtab := sec_body sec\<rparr>))
     }
   }"

section \<open>sym.c\<close>

text \<open>
  A value of the map is a \<open>char *\<close> of 8 bytes: \<open>base\<close> is the address of \<open>rawdata\<close>.  Each symbol has the
  address of the node that is allocated for it, 2 and up in the order of the table.
\<close>

definition le32 :: "u32 \<Rightarrow> u8 list" where
  "le32 w = [ucast w, ucast (drop_bit 8 w), ucast (drop_bit 16 w), ucast (drop_bit 24 w)]"

definition le64 :: "u64 \<Rightarrow> u8 list" where
  "le64 w = [ucast w, ucast (drop_bit 8 w), ucast (drop_bit 16 w), ucast (drop_bit 24 w),
     ucast (drop_bit 32 w), ucast (drop_bit 40 w), ucast (drop_bit 48 w), ucast (drop_bit 56 w)]"

text \<open>The turn of the loop of \<open>sym_load_elf\<close> at the symbol at \<open>p\<close>; \<open>a\<close> is the address of the next node.\<close>

definition sym_insert :: "u64 \<Rightarrow> elf \<Rightarrow> nat \<Rightarrow> int \<Rightarrow> cmap \<Rightarrow> cmap option" where
  "sym_insert base e a p s = do {
     n \<leftarrow> st_name (rawdata e) p;
     t \<leftarrow> strtab e;
     let name = base + of_int (t + int (unat n));
     info \<leftarrow> st_info (rawdata e) p;
     if ELF_ST_TYPE info = 0 \<or> ELF_ST_TYPE info = 1 \<or> ELF_ST_TYPE info = 2 then do {
       v \<leftarrow> st_value (rawdata e) p;
       (_, s) \<leftarrow> c_map_insert c_map_cmp_uint a (Some (le32 v)) (Some (le64 name)) s;
       Some s
     }
     else Some s
   }"

fun sym_insert_all :: "u64 \<Rightarrow> elf \<Rightarrow> nat \<Rightarrow> int list \<Rightarrow> cmap \<Rightarrow> cmap option" where
  "sym_insert_all base e a [] s = Some s"
| "sym_insert_all base e a (p # ps) s = do { s \<leftarrow> sym_insert base e a p s; sym_insert_all base e (a + 1) ps s }"

text \<open>The symbols that start inside the section.\<close>

definition sym_positions :: "int \<Rightarrow> u32 \<Rightarrow> int list" where
  "sym_positions body sz = map (\<lambda>i. body + sizeof_sym * int i) [0..<(unat sz + 15) div 16]"

definition sym_load_elf :: "u64 \<Rightarrow> elf \<Rightarrow> cmap option" where
  "sym_load_elf base e = do {
     s \<leftarrow> c_map_clear (c_map_new 4 8);
     (_, s) \<leftarrow> c_map_insert c_map_cmp_uint 1 (Some (le32 0)) (Some (le64 0)) s;
     sec \<leftarrow> elf_section e symtab_name;
     body \<leftarrow> sec_body sec;
     sz \<leftarrow> sec_size sec;
     sym_insert_all base e 2 (sym_positions body sz) s
   }"

text \<open>The value found, the bytes of the pointer to the symbol's name; \<open>None\<close> stands for \<open>NULL\<close>.\<close>

definition sym_find :: "cmap \<Rightarrow> u32 \<Rightarrow> u8 list option option" where
  "sym_find s addr = do {
     it \<leftarrow> c_map_find c_map_cmp_uint \<lparr>it_prev = 0, it_node = 0\<rparr> (le32 addr) s;
     if c_map_at_end it then Some None
     else do { n \<leftarrow> nodes s (it_node it); Some (c_data n) }
   }"

end
