(* ===== verification/Vm_Memory.thy ===== *)
theory Vm_Memory
  imports Vm_Elf
begin

text \<open>
  The memory of \<open>vm\<close>, \<open>vm/riscv/memory.c\<close>: the loaded segments of the program and the window of the UART, each
  a chunk of its own.  \<open>ERROR\<close>, which ends the emulator, is the stop \<open>Exit\<close>; an access outside the
  array of a chunk, which C leaves undefined, is the stop \<open>OutOfBounds\<close>.  Bytes written to the UART's
  transmit register are the output.
\<close>

datatype vm_stop = Exit string | OutOfBounds

record chunk =
  ch_mem :: "u8 list"
  ch_begin :: u32
  ch_size :: u32

record vmem =
  chunks :: "chunk list"
  stdout :: "u8 list"

definition UART :: u32 where "UART = 0x10000000"
definition THR :: u32 where "THR = 0"
definition LSR :: nat where "LSR = 5"
definition UART_CHUNK_SIZE :: u32 where "UART_CHUNK_SIZE = 0x10"
definition UART_LSR_EMPTY_MASK :: u8 where "UART_LSR_EMPTY_MASK = 0x40"

section \<open>Loading\<close>

text \<open>A chunk of zeros that starts with a copy of \<open>src\<close>; none when the size is 0.\<close>

definition mem_add_chunk :: "u32 \<Rightarrow> u32 \<Rightarrow> u8 list \<Rightarrow> 'a vmem_scheme \<Rightarrow> 'a vmem_scheme" where
  "mem_add_chunk begin_at size_of src m =
     (if size_of = 0 then m
      else m\<lparr>chunks := chunks m @ [\<lparr>ch_mem = src @ replicate (unat size_of - length src) 0, ch_begin = begin_at, ch_size = size_of\<rparr>]\<rparr>)"

definition put_byte :: "nat \<Rightarrow> u8 \<Rightarrow> chunk \<Rightarrow> chunk" where
  "put_byte i v c = c\<lparr>ch_mem := (ch_mem c)[i := v]\<rparr>"

definition io_init :: "'a vmem_scheme \<Rightarrow> 'a vmem_scheme" where
  "io_init m =
     (let i = length (chunks m);
          m = mem_add_chunk UART UART_CHUNK_SIZE [] m
      in m\<lparr>chunks := (chunks m)[i := put_byte LSR 0xFF (chunks m ! i)]\<rparr>)"

definition load_segment :: "elf \<Rightarrow> int \<Rightarrow> 'a vmem_scheme \<Rightarrow> 'a vmem_scheme option" where
  "load_segment e p m = do {
     t \<leftarrow> p_type (rawdata e) p;
     if t \<noteq> PT_LOAD then Some m
     else do {
       start \<leftarrow> p_vaddr (rawdata e) p;
       memsz \<leftarrow> p_memsz (rawdata e) p;
       filesz \<leftarrow> p_filesz (rawdata e) p;
       off \<leftarrow> p_offset (rawdata e) p;
       src \<leftarrow> bytes_at (rawdata e) (int (unat off)) (unat filesz);
       Some (mem_add_chunk start (if memsz > filesz then memsz else filesz) src m)
     }
   }"

fun load_segments :: "elf \<Rightarrow> int list \<Rightarrow> 'a vmem_scheme \<Rightarrow> 'a vmem_scheme option" where
  "load_segments e [] m = Some m"
| "load_segments e (p # ps) m = do { m \<leftarrow> load_segment e p m; load_segments e ps m }"

definition mem_load_elf :: "elf \<Rightarrow> 'a vmem_scheme \<Rightarrow> 'a vmem_scheme option" where
  "mem_load_elf e m = do {
     n \<leftarrow> e_phnum (rawdata e);
     m \<leftarrow> load_segments e (map (\<lambda>i. phdrs e + sizeof_phdr * int i) [0..<unat n]) (m\<lparr>chunks := []\<rparr>);
     Some (io_init m)
   }"

section \<open>Reading and writing\<close>

definition in_chunk :: "u32 \<Rightarrow> chunk \<Rightarrow> bool" where
  "in_chunk addr c \<longleftrightarrow> ch_begin c \<le> addr \<and> addr < ch_begin c + ch_size c"

fun find_from :: "u32 \<Rightarrow> nat \<Rightarrow> chunk list \<Rightarrow> nat option" where
  "find_from addr i [] = None"
| "find_from addr i (c # cs) = (if in_chunk addr c then Some i else find_from addr (i + 1) cs)"

definition mem_find_chunk :: "u32 \<Rightarrow> 'a vmem_scheme \<Rightarrow> vm_stop + nat" where
  "mem_find_chunk addr m =
     (case find_from addr 0 (chunks m) of None \<Rightarrow> Inl (Exit ''chunk not found'') | Some i \<Rightarrow> Inr i)"

text \<open>The bytes of a chunk at an address, and a write of bytes there, as the cast pointer does them.\<close>

definition chunk_read :: "u32 \<Rightarrow> nat \<Rightarrow> chunk \<Rightarrow> vm_stop + u8 list" where
  "chunk_read addr n c =
     (case bytes_at (ch_mem c) (int (unat (addr - ch_begin c))) n of None \<Rightarrow> Inl OutOfBounds | Some bs \<Rightarrow> Inr bs)"

definition chunk_write :: "u32 \<Rightarrow> u8 list \<Rightarrow> chunk \<Rightarrow> vm_stop + chunk" where
  "chunk_write addr bs c =
     (let i = unat (addr - ch_begin c) in
      if i + length bs \<le> length (ch_mem c)
      then Inr (c\<lparr>ch_mem := take i (ch_mem c) @ bs @ drop (i + length bs) (ch_mem c)\<rparr>)
      else Inl OutOfBounds)"

definition mem_read_w :: "u32 \<Rightarrow> 'a vmem_scheme \<Rightarrow> vm_stop + u32" where
  "mem_read_w addr m = bindE (mem_find_chunk addr m) (\<lambda>i.
     let c = chunks m ! i in
     if ch_begin c + ch_size c \<le> addr + 3 then Inl (Exit ''mem_read_w() addr out of range!'')
     else bindE (chunk_read addr 4 c) (\<lambda>bs.
       Inr (ucast (bs ! 0) OR push_bit 8 (ucast (bs ! 1)) OR push_bit 16 (ucast (bs ! 2)) OR push_bit 24 (ucast (bs ! 3)))))"

definition mem_read_s :: "u32 \<Rightarrow> 'a vmem_scheme \<Rightarrow> vm_stop + u16" where
  "mem_read_s addr m = bindE (mem_find_chunk addr m) (\<lambda>i.
     let c = chunks m ! i in
     if ch_begin c + ch_size c \<le> addr + 1 then Inl (Exit ''mem_read_s() addr out of range!'')
     else bindE (chunk_read addr 2 c) (\<lambda>bs. Inr (ucast (bs ! 0) OR push_bit 8 (ucast (bs ! 1)))))"

definition mem_read_b :: "u32 \<Rightarrow> 'a vmem_scheme \<Rightarrow> vm_stop + u8" where
  "mem_read_b addr m = bindE (mem_find_chunk addr m) (\<lambda>i.
     let c = chunks m ! i in
     if ch_begin c + ch_size c \<le> addr then Inl (Exit ''mem_read_b() addr out of range!'')
     else bindE (chunk_read addr 1 c) (\<lambda>bs. Inr (bs ! 0)))"

definition set_chunk :: "nat \<Rightarrow> chunk \<Rightarrow> 'a vmem_scheme \<Rightarrow> 'a vmem_scheme" where
  "set_chunk i c m = m\<lparr>chunks := (chunks m)[i := c]\<rparr>"

definition write_at :: "nat \<Rightarrow> u32 \<Rightarrow> u8 list \<Rightarrow> 'a vmem_scheme \<Rightarrow> (vm_stop, unit, 'a vmem_scheme) outcome" where
  "write_at i addr bs m =
     (case chunk_write addr bs (chunks m ! i) of Inl e \<Rightarrow> (Inl e, m) | Inr c \<Rightarrow> (Inr (), set_chunk i c m))"

definition mem_write_w :: "u32 \<Rightarrow> u32 \<Rightarrow> 'a vmem_scheme \<Rightarrow> (vm_stop, unit, 'a vmem_scheme) outcome" where
  "mem_write_w addr val m =
     (case mem_find_chunk addr m of
        Inl e \<Rightarrow> (Inl e, m)
      | Inr i \<Rightarrow>
          let c = chunks m ! i in
          if ch_begin c + ch_size c \<le> addr + 3 then (Inl (Exit ''mem_write_w() addr out of range!''), m)
          else write_at i addr (le32 val) m)"

definition mem_write_s :: "u32 \<Rightarrow> u16 \<Rightarrow> 'a vmem_scheme \<Rightarrow> (vm_stop, unit, 'a vmem_scheme) outcome" where
  "mem_write_s addr val m =
     (case mem_find_chunk addr m of
        Inl e \<Rightarrow> (Inl e, m)
      | Inr i \<Rightarrow>
          let c = chunks m ! i in
          if ch_begin c + ch_size c \<le> addr + 1 then (Inl (Exit ''mem_write_s() addr out of range!''), m)
          else write_at i addr [ucast val, ucast (drop_bit 8 val)] m)"

text \<open>A byte for the UART is written out; the line status is then set in the chunk that was found.\<close>

definition io_write_b :: "nat \<Rightarrow> u32 \<Rightarrow> u8 \<Rightarrow> 'a vmem_scheme \<Rightarrow> (vm_stop, unit, 'a vmem_scheme) outcome" where
  "io_write_b i addr val m =
     (if addr = UART + THR then
        let m = m\<lparr>stdout := stdout m @ [val]\<rparr>; c = chunks m ! i
        in if LSR < length (ch_mem c)
           then (Inr (), set_chunk i (put_byte LSR (ch_mem c ! LSR OR UART_LSR_EMPTY_MASK) c) m)
           else (Inl OutOfBounds, m)
      else (Inr (), m))"

definition mem_write_b :: "u32 \<Rightarrow> u8 \<Rightarrow> 'a vmem_scheme \<Rightarrow> (vm_stop, unit, 'a vmem_scheme) outcome" where
  "mem_write_b addr val m =
     (case mem_find_chunk addr m of
        Inl e \<Rightarrow> (Inl e, m)
      | Inr i \<Rightarrow>
          let c = chunks m ! i in
          if ch_begin c + ch_size c \<le> addr then (Inl (Exit ''mem_write_b() addr out of range!''), m)
          else bindS (write_at i addr [val] m) (\<lambda>_ m. io_write_b i addr val m))"

end
