(* ===== verification/Vm_Decode.thy ===== *)
theory Vm_Decode
  imports Vm_Memory
begin

text \<open>
  The decoder of the RV32 emulator: the fields and immediates of \<open>vm/riscv/decoder.h\<close>, computed with its
  masks and shifts, and \<open>rv_decode\<close>, which fills the global variables of \<open>vm/riscv/cpu.c\<close>.
\<close>

definition INST_6_2 :: u32 where "INST_6_2 = 0b00000000000000000000000001111100"
definition FR_RD :: u32 where "FR_RD = 0b00000000000000000000111110000000"
definition FR_FUNCT3 :: u32 where "FR_FUNCT3 = 0b00000000000000000111000000000000"
definition FR_RS1 :: u32 where "FR_RS1 = 0b00000000000011111000000000000000"
definition FR_RS2 :: u32 where "FR_RS2 = 0b00000001111100000000000000000000"
definition FR_FUNCT7 :: u32 where "FR_FUNCT7 = 0b11111110000000000000000000000000"
definition FI_IMM_11_0 :: u32 where "FI_IMM_11_0 = 0b11111111111100000000000000000000"
definition FS_IMM_4_0 :: u32 where "FS_IMM_4_0 = 0b00000000000000000000111110000000"
definition FS_IMM_11_5 :: u32 where "FS_IMM_11_5 = 0b11111110000000000000000000000000"
definition FB_IMM_11 :: u32 where "FB_IMM_11 = 0b00000000000000000000000010000000"
definition FB_IMM_4_1 :: u32 where "FB_IMM_4_1 = 0b00000000000000000000111100000000"
definition FB_IMM_10_5 :: u32 where "FB_IMM_10_5 = 0b01111110000000000000000000000000"
definition FB_IMM_12 :: u32 where "FB_IMM_12 = 0b10000000000000000000000000000000"
definition FU_IMM_31_12 :: u32 where "FU_IMM_31_12 = 0b11111111111111111111000000000000"
definition FJ_IMM_19_12 :: u32 where "FJ_IMM_19_12 = 0b00000000000011111111000000000000"
definition FJ_IMM_11 :: u32 where "FJ_IMM_11 = 0b00000000000100000000000000000000"
definition FJ_IMM_10_1 :: u32 where "FJ_IMM_10_1 = 0b01111111111000000000000000000000"
definition FJ_IMM_20 :: u32 where "FJ_IMM_20 = 0b10000000000000000000000000000000"
definition FR4_FMT :: u32 where "FR4_FMT = 0b00000110000000000000000000000000"
definition FR4_RS3 :: u32 where "FR4_RS3 = 0b11111000000000000000000000000000"

definition dec_rd :: "u32 \<Rightarrow> u32" where "dec_rd w = drop_bit 7 (w AND FR_RD)"
definition dec_rs1 :: "u32 \<Rightarrow> u32" where "dec_rs1 w = drop_bit 15 (w AND FR_RS1)"
definition dec_rs2 :: "u32 \<Rightarrow> u32" where "dec_rs2 w = drop_bit 20 (w AND FR_RS2)"
definition dec_funct3 :: "u32 \<Rightarrow> u32" where "dec_funct3 w = drop_bit 12 (w AND FR_FUNCT3)"
definition dec_funct7 :: "u32 \<Rightarrow> u32" where "dec_funct7 w = drop_bit 25 (w AND FR_FUNCT7)"
definition dec_utype_imm :: "u32 \<Rightarrow> u32" where "dec_utype_imm w = w AND FU_IMM_31_12"

definition dec_jtype_imm :: "u32 \<Rightarrow> u32" where
  "dec_jtype_imm w =
     (let dst = 0;
          dst = dst OR (w AND FJ_IMM_20);
          dst = dst OR push_bit 11 (w AND FJ_IMM_19_12);
          dst = dst OR push_bit 2 (w AND FJ_IMM_11);
          dst = dst OR drop_bit 9 (w AND FJ_IMM_10_1)
      in signed_drop_bit 11 dst)"

definition dec_itype_imm :: "u32 \<Rightarrow> u32" where "dec_itype_imm w = signed_drop_bit 20 (w AND FI_IMM_11_0)"
definition dec_r4type_fmt :: "u32 \<Rightarrow> u32" where "dec_r4type_fmt w = drop_bit 25 (w AND FR4_FMT)"
definition dec_r4type_rs3 :: "u32 \<Rightarrow> u32" where "dec_r4type_rs3 w = drop_bit 27 (w AND FR4_RS3)"
definition dec_csr :: "u32 \<Rightarrow> u32" where "dec_csr w = drop_bit 20 (w AND FI_IMM_11_0)"

definition dec_btype_imm :: "u32 \<Rightarrow> u32" where
  "dec_btype_imm w =
     (let dst = 0;
          dst = dst OR (w AND FB_IMM_12);
          dst = dst OR push_bit 23 (w AND FB_IMM_11);
          dst = dst OR drop_bit 1 (w AND FB_IMM_10_5);
          dst = dst OR push_bit 12 (w AND FB_IMM_4_1)
      in signed_drop_bit 19 dst)"

definition dec_stype_imm :: "u32 \<Rightarrow> u32" where
  "dec_stype_imm w =
     (let dst = 0;
          dst = dst OR (w AND FS_IMM_11_5);
          dst = dst OR push_bit 13 (w AND FS_IMM_4_0)
      in signed_drop_bit 20 dst)"

definition sign_extend_h :: "u32 \<Rightarrow> u32" where "sign_extend_h v = scast (ucast v :: u16)"
definition sign_extend_b :: "u32 \<Rightarrow> u32" where "sign_extend_b v = scast (ucast v :: u8)"

record insn =
  op :: u32
  rd :: u32
  rs1 :: u32
  rs2 :: u32
  funct3 :: u32
  funct7 :: u32
  i_imm :: u32
  b_imm :: u32
  u_imm :: u32
  j_imm :: u32
  s_imm :: u32
  csr_imm :: u32
  csr_id :: u32

definition rv_decode :: "u32 \<Rightarrow> insn" where
  "rv_decode w = \<lparr>op = drop_bit 2 (w AND INST_6_2), rd = dec_rd w, rs1 = dec_rs1 w, rs2 = dec_rs2 w,
     funct3 = dec_funct3 w, funct7 = dec_funct7 w, i_imm = dec_itype_imm w, b_imm = dec_btype_imm w,
     u_imm = dec_utype_imm w, j_imm = dec_jtype_imm w, s_imm = dec_stype_imm w, csr_imm = dec_rs1 w, csr_id = dec_csr w\<rparr>"

end
