(* ===== verification/Vm_Cpu.thy ===== *)
theory Vm_Cpu
  imports Vm_Decode "HOL-Library.Signed_Division"
begin

text \<open>
  The RV32 emulator \<open>vm/vm.c\<close>: the registers and control registers, one function per instruction group,
  \<open>rv_step\<close>, the loop \<open>rv_run\<close> and \<open>main\<close>.  Signed additions and multiplications that overflow, which C leaves
  undefined, wrap around here as they do in the compiled program.  The trace that \<open>-t\<close> prints is left out.
\<close>

record machine = vmem +
  xr :: "u32 \<Rightarrow> u32"
  csrs :: "u32 \<Rightarrow> u32"
  vpc :: u32

definition set_x :: "u32 \<Rightarrow> u32 \<Rightarrow> machine \<Rightarrow> machine" where
  "set_x r v s = s\<lparr>xr := (xr s)(r := v)\<rparr>"

definition next_pc :: "machine \<Rightarrow> machine" where
  "next_pc s = s\<lparr>vpc := vpc s + 4\<rparr>"

definition flag :: "bool \<Rightarrow> u32" where
  "flag b = (if b then 1 else 0)"

definition csrrw :: "u32 \<Rightarrow> u32 \<Rightarrow> machine \<Rightarrow> u32 \<times> machine" where
  "csrrw i v s = (csrs s i, s\<lparr>csrs := (csrs s)(i := v)\<rparr>)"

definition csrrs :: "u32 \<Rightarrow> u32 \<Rightarrow> machine \<Rightarrow> u32 \<times> machine" where
  "csrrs i v s = (csrs s i, s\<lparr>csrs := (csrs s)(i := csrs s i OR v)\<rparr>)"

definition csrrc :: "u32 \<Rightarrow> u32 \<Rightarrow> machine \<Rightarrow> u32 \<times> machine" where
  "csrrc i v s = (csrs s i, s\<lparr>csrs := (csrs s)(i := csrs s i AND NOT v)\<rparr>)"

section \<open>The instruction groups\<close>

text \<open>The three tables of \<open>rv_op\<close>, by \<open>funct3\<close>; \<open>None\<close> is \<open>ERROR\<close>.\<close>

definition op1_val :: "u32 \<Rightarrow> u32 \<Rightarrow> u32 \<Rightarrow> u32 option" where
  "op1_val f3 a b =
     (if f3 = 0 then Some (a + b)
      else if f3 = 1 then Some (push_bit (unat (b AND 0x1f)) a)
      else if f3 = 2 then Some (flag (a <s b))
      else if f3 = 3 then Some (flag (a < b))
      else if f3 = 4 then Some (a XOR b)
      else if f3 = 5 then Some (drop_bit (unat (b AND 0x1f)) a)
      else if f3 = 6 then Some (a OR b)
      else if f3 = 7 then Some (a AND b)
      else None)"

definition m_val :: "u32 \<Rightarrow> u32 \<Rightarrow> u32 \<Rightarrow> u32 option" where
  "m_val f3 a b =
     (if f3 = 0 then Some (a * b)
      else if f3 = 1 then Some (ucast (drop_bit 32 ((scast a :: u64) * scast b)))
      else if f3 = 2 then Some (ucast (drop_bit 32 ((scast a :: u64) * ucast b)))
      else if f3 = 3 then Some (ucast (drop_bit 32 ((ucast a :: u64) * ucast b)))
      else if f3 = 4 then
        Some (if b = 0 then NOT 0 else if b = - 1 \<and> a = 0x80000000 then a else word_of_int (sint a sdiv sint b))
      else if f3 = 5 then Some (if b = 0 then NOT 0 else a div b)
      else if f3 = 6 then
        Some (if b = 0 then a else if b = - 1 \<and> a = 0x80000000 then 0 else word_of_int (sint a smod sint b))
      else if f3 = 7 then Some (if b = 0 then a else a mod b)
      else None)"

definition op2_val :: "u32 \<Rightarrow> u32 \<Rightarrow> u32 \<Rightarrow> u32 option" where
  "op2_val f3 a b =
     (if f3 = 0 then Some (a - b)
      else if f3 = 5 then Some (signed_drop_bit (unat (b AND 0x1f)) a)
      else None)"

definition rv_op :: "insn \<Rightarrow> machine \<Rightarrow> (vm_stop, unit, machine) outcome" where
  "rv_op d s =
     (let a = xr s (rs1 d); b = xr s (rs2 d);
          v = (if funct7 d = 0 then op1_val (funct3 d) a b
               else if funct7 d = 1 then m_val (funct3 d) a b
               else if funct7 d = 0x20 then op2_val (funct3 d) a b
               else None)
      in case v of
           None \<Rightarrow> (Inl (Exit ''rv_op() not handled!''), s)
         | Some v \<Rightarrow> (Inr (), next_pc (set_x (rd d) v s)))"

text \<open>The case of the right shifts has no \<open>break\<close>: it goes on with that of \<open>ori\<close>.\<close>

definition rv_op_imm :: "insn \<Rightarrow> machine \<Rightarrow> (vm_stop, unit, machine) outcome" where
  "rv_op_imm d s =
     (let imm = i_imm d; a = xr s (rs1 d); f3 = funct3 d;
          ori = (\<lambda>s. (Inr (), next_pc (set_x (rd d) (xr s (rs1 d) OR imm) s)))
      in if f3 = 0 then (Inr (), next_pc (set_x (rd d) (a + imm) s))
         else if f3 = 1 then (Inr (), next_pc (set_x (rd d) (push_bit (unat (imm AND 0x1f)) a) s))
         else if f3 = 2 then (Inr (), next_pc (set_x (rd d) (flag (a <s imm)) s))
         else if f3 = 3 then (Inr (), next_pc (set_x (rd d) (flag (a < imm)) s))
         else if f3 = 4 then (Inr (), next_pc (set_x (rd d) (a XOR imm) s))
         else if f3 = 5 then
           ori (set_x (rd d) (if imm AND NOT 0x1f \<noteq> 0 then signed_drop_bit (unat (imm AND 0x1f)) a
                              else drop_bit (unat (imm AND 0x1f)) a) s)
         else if f3 = 6 then ori s
         else if f3 = 7 then (Inr (), next_pc (set_x (rd d) (a AND imm) s))
         else (Inl (Exit ''rv_op_imm() not handled!''), s))"

definition branch_taken :: "u32 \<Rightarrow> u32 \<Rightarrow> u32 \<Rightarrow> bool option" where
  "branch_taken f3 a b =
     (if f3 = 0 then Some (a = b)
      else if f3 = 1 then Some (a \<noteq> b)
      else if f3 = 4 then Some (a <s b)
      else if f3 = 5 then Some (b \<le>s a)
      else if f3 = 6 then Some (a < b)
      else if f3 = 7 then Some (b \<le> a)
      else None)"

definition rv_branch :: "insn \<Rightarrow> machine \<Rightarrow> (vm_stop, unit, machine) outcome" where
  "rv_branch d s =
     (case branch_taken (funct3 d) (xr s (rs1 d)) (xr s (rs2 d)) of
        None \<Rightarrow> (Inl (Exit ''rv_branch() not handled!''), s)
      | Some jmp \<Rightarrow> (Inr (), if jmp then s\<lparr>vpc := vpc s + b_imm d\<rparr> else next_pc s))"

definition load_val :: "u32 \<Rightarrow> u32 \<Rightarrow> machine \<Rightarrow> vm_stop + u32" where
  "load_val f3 addr s =
     (if f3 = 0 then bindE (mem_read_b addr s) (\<lambda>v. Inr (sign_extend_b (ucast v)))
      else if f3 = 1 then bindE (mem_read_s addr s) (\<lambda>v. Inr (sign_extend_h (ucast v)))
      else if f3 = 2 then mem_read_w addr s
      else if f3 = 4 then bindE (mem_read_b addr s) (\<lambda>v. Inr (ucast v))
      else if f3 = 5 then
        if addr AND 1 \<noteq> 0 then Inl (Exit ''rv_load() LHU addr should be times of 2!'')
        else bindE (mem_read_s addr s) (\<lambda>v. Inr (ucast v))
      else Inl (Exit ''rv_load() not handled!''))"

definition rv_load :: "insn \<Rightarrow> machine \<Rightarrow> (vm_stop, unit, machine) outcome" where
  "rv_load d s =
     (case load_val (funct3 d) (xr s (rs1 d) + i_imm d) s of
        Inl e \<Rightarrow> (Inl e, s)
      | Inr v \<Rightarrow> (Inr (), next_pc (set_x (rd d) v s)))"

definition rv_store :: "insn \<Rightarrow> machine \<Rightarrow> (vm_stop, unit, machine) outcome" where
  "rv_store d s =
     (let addr = xr s (rs1 d) + s_imm d; val = xr s (rs2 d)
      in bindS (if funct3 d = 0 then mem_write_b addr (ucast val) s
                else if funct3 d = 1 then mem_write_s addr (ucast val) s
                else if funct3 d = 2 then mem_write_w addr val s
                else (Inl (Exit ''rv_store() not handled!''), s))
           (\<lambda>_ s. (Inr (), next_pc s)))"

text \<open>The CSR instructions; the one that clears bits calls \<open>csrrs\<close>.\<close>

definition csr_access :: "insn \<Rightarrow> machine \<Rightarrow> (u32 \<times> machine) option" where
  "csr_access d s =
     (if funct3 d = 1 then Some (csrrw (csr_id d) (xr s (rs1 d)) s)
      else if funct3 d = 2 then Some (csrrs (csr_id d) (if rs1 d = 0 then 0 else xr s (rs1 d)) s)
      else if funct3 d = 3 then Some (csrrs (csr_id d) (if rs1 d = 0 then NOT 0 else xr s (rs1 d)) s)
      else if funct3 d = 5 then Some (csrrw (csr_id d) (rs1 d) s)
      else if funct3 d = 6 then Some (csrrs (csr_id d) (rs1 d) s)
      else if funct3 d = 7 then Some (csrrc (csr_id d) (rs1 d) s)
      else None)"

definition rv_system :: "insn \<Rightarrow> machine \<Rightarrow> (vm_stop, unit, machine) outcome" where
  "rv_system d s =
     (case csr_access d s of
        None \<Rightarrow> (Inl (Exit ''rv_system() not handled!''), s)
      | Some (tmp, s) \<Rightarrow> (Inr (), next_pc (set_x (rd d) (if rd d \<noteq> 0 then tmp else xr s (rd d)) s)))"

section \<open>A step and the loop\<close>

definition rv_exec :: "insn \<Rightarrow> machine \<Rightarrow> (vm_stop, unit, machine) outcome" where
  "rv_exec d s =
     (if op d = 0b01101 then (Inr (), next_pc (set_x (rd d) (u_imm d) s))
      else if op d = 0b00101 then (Inr (), next_pc (set_x (rd d) (u_imm d + vpc s) s))
      else if op d = 0b11011 then (Inr (), set_x (rd d) (vpc s + 4) (s\<lparr>vpc := vpc s + j_imm d\<rparr>))
      else if op d = 0b11001 then
        (Inr (), set_x (rd d) (vpc s + 4) (s\<lparr>vpc := (xr s (rs1 d) + i_imm d) AND NOT 1\<rparr>))
      else if op d = 0b01100 then rv_op d s
      else if op d = 0b00100 then rv_op_imm d s
      else if op d = 0b11000 then rv_branch d s
      else if op d = 0b00000 then rv_load d s
      else if op d = 0b01000 then rv_store d s
      else if op d = 0b11100 then rv_system d s
      else if op d = 0b00011 then (Inr (), next_pc s)
      else (Inl (Exit ''rv_step() not handled!''), s))"

definition rv_step :: "machine \<Rightarrow> (vm_stop, unit, machine) outcome" where
  "rv_step s =
     (case mem_read_w (vpc s) s of
        Inl e \<Rightarrow> (Inl e, s)
      | Inr w \<Rightarrow> bindS (rv_exec (rv_decode w) s) (\<lambda>_ s. (Inr (), set_x 0 0 s)))"

text \<open>The loop ends at an instruction that jumps to itself; \<open>halt\<close> is never set.  \<open>None\<close> is a loop without end.\<close>

partial_function (option) rv_loop :: "machine \<Rightarrow> (vm_stop, unit, machine) outcome option" where
  "rv_loop s =
     (case rv_step s of
        (Inl e, t) \<Rightarrow> Some (Inl e, t)
      | (Inr _, t) \<Rightarrow> if vpc s = vpc t then Some (Inr (), t) else rv_loop t)"

definition rv_run :: "u32 \<Rightarrow> machine \<Rightarrow> (vm_stop, unit, machine) outcome option" where
  "rv_run entry s = rv_loop (s\<lparr>vpc := entry\<rparr>)"

text \<open>The globals at the start, and \<open>main\<close> on the contents of its file, which returns the exit code.\<close>

definition vm_boot :: machine where
  "vm_boot = \<lparr>chunks = [], stdout = [], xr = \<lambda>_. 0, csrs = \<lambda>_. 0, vpc = 0\<rparr>"

definition text_name :: "u8 list" where "text_name = [46, 116, 101, 120, 116]"

definition vm_main :: "u64 \<Rightarrow> u8 list \<Rightarrow> (vm_stop, int, machine) outcome option" where
  "vm_main base raw = do {
     r \<leftarrow> elf_load raw;
     case r of
       None \<Rightarrow> Some (Inr 1, vm_boot)
     | Some e \<Rightarrow> do {
         _ \<leftarrow> elf_section e text_name;
         s \<leftarrow> mem_load_elf e vm_boot;
         symbols \<leftarrow> sym_load_elf base e;
         entry \<leftarrow> e_entry raw;
         q \<leftarrow> rv_run entry s;
         _ \<leftarrow> c_map_delete symbols;
         Some (bindS q (\<lambda>_ s. (Inr 0, s)))
       }
   }"

end
