(* ===== verification/Vm_Isa.thy ===== *)
theory Vm_Isa
  imports Vm_Cpu
begin

text \<open>
  A reference semantics of RV32IM and of the CSR instructions, written from the manual: encodings, and the
  effect of an instruction on the registers, the control registers and \<open>pc\<close>.  A load or a store uses the
  memory of the emulator.  \<open>rv_step\<close> computes the reference step of every instruction but the right shifts
  by an immediate and \<open>csrrc\<close>.
\<close>

section \<open>Instructions and their encodings\<close>

type_synonym ireg = "5 word"

datatype op32 = Add | Sub | Sll | Slt | Sltu | Xor | Srl | Sra | Or | And
  | Mul | Mulh | Mulhsu | Mulhu | Div | Divu | Rem | Remu
datatype imm_op = Addi | Slti | Sltiu | Xori | Ori | Andi
datatype shift_op = Slli | Srli | Srai
datatype branch_op = Beq | Bne | Blt | Bge | Bltu | Bgeu
datatype load_op = Lb | Lh | Lw | Lbu | Lhu
datatype store_op = Sb | Sh | Sw
datatype csr_op = Csrrw | Csrrs | Csrrc | Csrrwi | Csrrsi | Csrrci

datatype rv32 =
    Op op32 ireg ireg ireg
  | OpImm imm_op ireg ireg "12 word"
  | ShiftImm shift_op ireg ireg "5 word"
  | Lui ireg "20 word"
  | Auipc ireg "20 word"
  | Jal ireg "20 word"
  | Jalr ireg ireg "12 word"
  | Branch branch_op ireg ireg "12 word"
  | Load load_op ireg ireg "12 word"
  | Store store_op ireg ireg "12 word"
  | Csr csr_op ireg ireg "12 word"
  | Fence

fun op32_code :: "op32 \<Rightarrow> 7 word \<times> 3 word" where
  "op32_code Add = (0, 0)" | "op32_code Sub = (0x20, 0)" | "op32_code Sll = (0, 1)" | "op32_code Slt = (0, 2)"
| "op32_code Sltu = (0, 3)" | "op32_code Xor = (0, 4)" | "op32_code Srl = (0, 5)" | "op32_code Sra = (0x20, 5)"
| "op32_code Or = (0, 6)" | "op32_code And = (0, 7)"
| "op32_code Mul = (1, 0)" | "op32_code Mulh = (1, 1)" | "op32_code Mulhsu = (1, 2)" | "op32_code Mulhu = (1, 3)"
| "op32_code Div = (1, 4)" | "op32_code Divu = (1, 5)" | "op32_code Rem = (1, 6)" | "op32_code Remu = (1, 7)"

fun imm_code :: "imm_op \<Rightarrow> 3 word" where
  "imm_code Addi = 0" | "imm_code Slti = 2" | "imm_code Sltiu = 3" | "imm_code Xori = 4"
| "imm_code Ori = 6" | "imm_code Andi = 7"

fun shift_code :: "shift_op \<Rightarrow> 7 word \<times> 3 word" where
  "shift_code Slli = (0, 1)" | "shift_code Srli = (0, 5)" | "shift_code Srai = (0x20, 5)"

fun branch_code :: "branch_op \<Rightarrow> 3 word" where
  "branch_code Beq = 0" | "branch_code Bne = 1" | "branch_code Blt = 4" | "branch_code Bge = 5"
| "branch_code Bltu = 6" | "branch_code Bgeu = 7"

fun load_code :: "load_op \<Rightarrow> 3 word" where
  "load_code Lb = 0" | "load_code Lh = 1" | "load_code Lw = 2" | "load_code Lbu = 4" | "load_code Lhu = 5"

fun store_code :: "store_op \<Rightarrow> 3 word" where
  "store_code Sb = 0" | "store_code Sh = 1" | "store_code Sw = 2"

fun csr_code :: "csr_op \<Rightarrow> 3 word" where
  "csr_code Csrrw = 1" | "csr_code Csrrs = 2" | "csr_code Csrrc = 3" | "csr_code Csrrwi = 5"
| "csr_code Csrrsi = 6" | "csr_code Csrrci = 7"

definition form_r :: "7 word \<Rightarrow> ireg \<Rightarrow> ireg \<Rightarrow> 3 word \<Rightarrow> ireg \<Rightarrow> 7 word \<Rightarrow> u32" where
  "form_r f7 r2 r1 f3 r oc =
     ucast oc OR push_bit 7 (ucast r) OR push_bit 12 (ucast f3) OR push_bit 15 (ucast r1) OR
     push_bit 20 (ucast r2) OR push_bit 25 (ucast f7)"

definition form_i :: "12 word \<Rightarrow> ireg \<Rightarrow> 3 word \<Rightarrow> ireg \<Rightarrow> 7 word \<Rightarrow> u32" where
  "form_i imm r1 f3 r oc =
     ucast oc OR push_bit 7 (ucast r) OR push_bit 12 (ucast f3) OR push_bit 15 (ucast r1) OR push_bit 20 (ucast imm)"

definition form_s :: "12 word \<Rightarrow> ireg \<Rightarrow> ireg \<Rightarrow> 3 word \<Rightarrow> 7 word \<Rightarrow> u32" where
  "form_s imm r2 r1 f3 oc =
     ucast oc OR push_bit 7 (take_bit 5 (ucast imm)) OR push_bit 12 (ucast f3) OR
     push_bit 15 (ucast r1) OR push_bit 20 (ucast r2) OR push_bit 25 (drop_bit 5 (ucast imm))"

definition form_b :: "12 word \<Rightarrow> ireg \<Rightarrow> ireg \<Rightarrow> 3 word \<Rightarrow> 7 word \<Rightarrow> u32" where
  "form_b imm r2 r1 f3 oc =
     ucast oc OR push_bit 7 (take_bit 1 (drop_bit 10 (ucast imm))) OR push_bit 8 (take_bit 4 (ucast imm)) OR
     push_bit 12 (ucast f3) OR push_bit 15 (ucast r1) OR push_bit 20 (ucast r2) OR
     push_bit 25 (take_bit 6 (drop_bit 4 (ucast imm))) OR push_bit 31 (drop_bit 11 (ucast imm))"

definition form_u :: "20 word \<Rightarrow> ireg \<Rightarrow> 7 word \<Rightarrow> u32" where
  "form_u imm r oc = ucast oc OR push_bit 7 (ucast r) OR push_bit 12 (ucast imm)"

definition form_j :: "20 word \<Rightarrow> ireg \<Rightarrow> 7 word \<Rightarrow> u32" where
  "form_j imm r oc =
     ucast oc OR push_bit 7 (ucast r) OR push_bit 12 (take_bit 8 (drop_bit 11 (ucast imm))) OR
     push_bit 20 (take_bit 1 (drop_bit 10 (ucast imm))) OR push_bit 21 (take_bit 10 (ucast imm)) OR
     push_bit 31 (drop_bit 19 (ucast imm))"

definition shift_field :: "7 word \<Rightarrow> 5 word \<Rightarrow> 12 word" where
  "shift_field f7 sh = push_bit 5 (ucast f7) OR ucast sh"

fun encode32 :: "rv32 \<Rightarrow> u32" where
  "encode32 (Op f r r1 r2) = form_r (fst (op32_code f)) r2 r1 (snd (op32_code f)) r 0x33"
| "encode32 (OpImm f r r1 imm) = form_i imm r1 (imm_code f) r 0x13"
| "encode32 (ShiftImm f r r1 sh) = form_i (shift_field (fst (shift_code f)) sh) r1 (snd (shift_code f)) r 0x13"
| "encode32 (Lui r imm) = form_u imm r 0x37"
| "encode32 (Auipc r imm) = form_u imm r 0x17"
| "encode32 (Jal r imm) = form_j imm r 0x6f"
| "encode32 (Jalr r r1 imm) = form_i imm r1 0 r 0x67"
| "encode32 (Branch f r1 r2 imm) = form_b imm r2 r1 (branch_code f) 0x63"
| "encode32 (Load f r r1 imm) = form_i imm r1 (load_code f) r 0x03"
| "encode32 (Store f r1 r2 imm) = form_s imm r2 r1 (store_code f) 0x23"
| "encode32 (Csr f r r1 c) = form_i c r1 (csr_code f) r 0x73"
| "encode32 Fence = 0x0ff0000f"

section \<open>The reference semantics\<close>

definition quot_trunc :: "int \<Rightarrow> int \<Rightarrow> int" where
  "quot_trunc a b = sgn a * sgn b * (\<bar>a\<bar> div \<bar>b\<bar>)"

fun op32_val :: "op32 \<Rightarrow> u32 \<Rightarrow> u32 \<Rightarrow> u32" where
  "op32_val Add a b = a + b"
| "op32_val Sub a b = a - b"
| "op32_val Sll a b = push_bit (unat (take_bit 5 b)) a"
| "op32_val Slt a b = (if sint a < sint b then 1 else 0)"
| "op32_val Sltu a b = (if uint a < uint b then 1 else 0)"
| "op32_val Xor a b = a XOR b"
| "op32_val Srl a b = drop_bit (unat (take_bit 5 b)) a"
| "op32_val Sra a b = signed_drop_bit (unat (take_bit 5 b)) a"
| "op32_val Or a b = a OR b"
| "op32_val And a b = a AND b"
| "op32_val Mul a b = word_of_int (sint a * sint b)"
| "op32_val Mulh a b = word_of_int ((sint a * sint b) div 2 ^ 32)"
| "op32_val Mulhsu a b = word_of_int ((sint a * uint b) div 2 ^ 32)"
| "op32_val Mulhu a b = word_of_int ((uint a * uint b) div 2 ^ 32)"
| "op32_val Div a b = (if b = 0 then - 1 else word_of_int (quot_trunc (sint a) (sint b)))"
| "op32_val Divu a b = (if b = 0 then - 1 else word_of_int (uint a div uint b))"
| "op32_val Rem a b = (if b = 0 then a else word_of_int (sint a - quot_trunc (sint a) (sint b) * sint b))"
| "op32_val Remu a b = (if b = 0 then a else word_of_int (uint a mod uint b))"

fun imm_val :: "imm_op \<Rightarrow> u32 \<Rightarrow> u32 \<Rightarrow> u32" where
  "imm_val Addi a b = op32_val Add a b" | "imm_val Slti a b = op32_val Slt a b"
| "imm_val Sltiu a b = op32_val Sltu a b" | "imm_val Xori a b = op32_val Xor a b"
| "imm_val Ori a b = op32_val Or a b" | "imm_val Andi a b = op32_val And a b"

fun shift_val :: "shift_op \<Rightarrow> u32 \<Rightarrow> nat \<Rightarrow> u32" where
  "shift_val Slli a n = push_bit n a" | "shift_val Srli a n = drop_bit n a" | "shift_val Srai a n = signed_drop_bit n a"

fun taken :: "branch_op \<Rightarrow> u32 \<Rightarrow> u32 \<Rightarrow> bool" where
  "taken Beq a b \<longleftrightarrow> a = b" | "taken Bne a b \<longleftrightarrow> a \<noteq> b"
| "taken Blt a b \<longleftrightarrow> sint a < sint b" | "taken Bge a b \<longleftrightarrow> sint b \<le> sint a"
| "taken Bltu a b \<longleftrightarrow> uint a < uint b" | "taken Bgeu a b \<longleftrightarrow> uint b \<le> uint a"

text \<open>A load of an unsigned halfword at an odd address may stop; this machine does.\<close>

fun loaded :: "load_op \<Rightarrow> u32 \<Rightarrow> machine \<Rightarrow> vm_stop + u32" where
  "loaded Lb addr s = bindE (mem_read_b addr s) (\<lambda>v. Inr (scast v))"
| "loaded Lh addr s = bindE (mem_read_s addr s) (\<lambda>v. Inr (scast v))"
| "loaded Lw addr s = mem_read_w addr s"
| "loaded Lbu addr s = bindE (mem_read_b addr s) (\<lambda>v. Inr (ucast v))"
| "loaded Lhu addr s =
     (if odd addr then Inl (Exit ''rv_load() LHU addr should be times of 2!'')
      else bindE (mem_read_s addr s) (\<lambda>v. Inr (ucast v)))"

fun stored :: "store_op \<Rightarrow> u32 \<Rightarrow> u32 \<Rightarrow> machine \<Rightarrow> (vm_stop, unit, machine) outcome" where
  "stored Sb addr v s = mem_write_b addr (ucast v) s"
| "stored Sh addr v s = mem_write_s addr (ucast v) s"
| "stored Sw addr v s = mem_write_w addr v s"

text \<open>The new value of a control register, from the old one, the register operand and the immediate.\<close>

fun csr_new :: "csr_op \<Rightarrow> u32 \<Rightarrow> u32 \<Rightarrow> u32 \<Rightarrow> u32" where
  "csr_new Csrrw old v i = v" | "csr_new Csrrs old v i = old OR v" | "csr_new Csrrc old v i = old AND NOT v"
| "csr_new Csrrwi old v i = i" | "csr_new Csrrsi old v i = old OR i" | "csr_new Csrrci old v i = old AND NOT i"

definition ir :: "machine \<Rightarrow> ireg \<Rightarrow> u32" where
  "ir s r = xr s (ucast r)"

definition put_ir :: "ireg \<Rightarrow> u32 \<Rightarrow> machine \<Rightarrow> machine" where
  "put_ir r v s = (if r = 0 then s else s\<lparr>xr := (xr s)(ucast r := v)\<rparr>)"

fun rv32_step :: "rv32 \<Rightarrow> machine \<Rightarrow> (vm_stop, unit, machine) outcome" where
  "rv32_step (Op f r r1 r2) s = (Inr (), next_pc (put_ir r (op32_val f (ir s r1) (ir s r2)) s))"
| "rv32_step (OpImm f r r1 imm) s = (Inr (), next_pc (put_ir r (imm_val f (ir s r1) (scast imm)) s))"
| "rv32_step (ShiftImm f r r1 sh) s = (Inr (), next_pc (put_ir r (shift_val f (ir s r1) (unat sh)) s))"
| "rv32_step (Lui r imm) s = (Inr (), next_pc (put_ir r (push_bit 12 (ucast imm)) s))"
| "rv32_step (Auipc r imm) s = (Inr (), next_pc (put_ir r (vpc s + push_bit 12 (ucast imm)) s))"
| "rv32_step (Jal r imm) s = (Inr (), (put_ir r (vpc s + 4) s)\<lparr>vpc := vpc s + push_bit 1 (scast imm)\<rparr>)"
| "rv32_step (Jalr r r1 imm) s = (Inr (), (put_ir r (vpc s + 4) s)\<lparr>vpc := (ir s r1 + scast imm) AND NOT 1\<rparr>)"
| "rv32_step (Branch f r1 r2 imm) s =
     (Inr (), if taken f (ir s r1) (ir s r2) then s\<lparr>vpc := vpc s + push_bit 1 (scast imm)\<rparr> else next_pc s)"
| "rv32_step (Load f r r1 imm) s =
     (case loaded f (ir s r1 + scast imm) s of Inl e \<Rightarrow> (Inl e, s) | Inr v \<Rightarrow> (Inr (), next_pc (put_ir r v s)))"
| "rv32_step (Store f r1 r2 imm) s =
     bindS (stored f (ir s r1 + scast imm) (ir s r2) s) (\<lambda>_ s. (Inr (), next_pc s))"
| "rv32_step (Csr f r r1 c) s =
     (let old = csrs s (ucast c) in
      (Inr (), next_pc (put_ir r old (s\<lparr>csrs := (csrs s)(ucast c := csr_new f old (ir s r1) (ucast r1))\<rparr>))))"
| "rv32_step Fence s = (Inr (), next_pc s)"

section \<open>Decoding\<close>

text \<open>Equality of 32-bit words, decided position by position.\<close>

lemma word32_eqI:
  fixes a b :: u32
  assumes "list_all (\<lambda>n. bit a n = bit b n) [0, 1, 2, 3, 4, 5, 6, 7, 8, 9, 10, 11, 12, 13, 14, 15, 16, 17, 18, 19, 20, 21, 22, 23, 24, 25, 26, 27, 28, 29, 30, 31]"
  shows "a = b"
proof (rule bit_word_eqI)
  fix n assume "n < LENGTH(32)"
  then have "n \<in> set [0..<32]" by simp
  also have "[0..<32] = [0, 1, 2, 3, 4, 5, 6, 7, 8, 9, 10, 11, 12, 13, 14, 15, 16, 17, 18, 19, 20, 21, 22, 23, 24, 25, 26, 27, 28, 29, 30, 31]"
    by (simp add: upt_conv_Cons)
  finally show "bit a n = bit b n" using assms unfolding list_all_iff by blast
qed

lemma rv32_field_mask:
  fixes w :: "'a::len word"
  shows "w AND push_bit k (mask m) = push_bit k (take_bit m (drop_bit k w))"
  by (rule bit_word_eqI) (auto simp: bit_simps)

lemma rv32_field_masks:
  "w AND INST_6_2 = push_bit 2 (take_bit 5 (drop_bit 2 w))"
  "w AND FR_RD = push_bit 7 (take_bit 5 (drop_bit 7 w))"
  "w AND FR_FUNCT3 = push_bit 12 (take_bit 3 (drop_bit 12 w))"
  "w AND FR_RS1 = push_bit 15 (take_bit 5 (drop_bit 15 w))"
  "w AND FR_RS2 = push_bit 20 (take_bit 5 (drop_bit 20 w))"
  "w AND FR_FUNCT7 = push_bit 25 (take_bit 7 (drop_bit 25 w))"
  "w AND FI_IMM_11_0 = push_bit 20 (take_bit 12 (drop_bit 20 w))"
  "w AND FS_IMM_4_0 = push_bit 7 (take_bit 5 (drop_bit 7 w))"
  "w AND FS_IMM_11_5 = push_bit 25 (take_bit 7 (drop_bit 25 w))"
  "w AND FB_IMM_11 = push_bit 7 (take_bit 1 (drop_bit 7 w))"
  "w AND FB_IMM_4_1 = push_bit 8 (take_bit 4 (drop_bit 8 w))"
  "w AND FB_IMM_10_5 = push_bit 25 (take_bit 6 (drop_bit 25 w))"
  "w AND FB_IMM_12 = push_bit 31 (take_bit 1 (drop_bit 31 w))"
  "w AND FU_IMM_31_12 = push_bit 12 (take_bit 20 (drop_bit 12 w))"
  "w AND FJ_IMM_19_12 = push_bit 12 (take_bit 8 (drop_bit 12 w))"
  "w AND FJ_IMM_11 = push_bit 20 (take_bit 1 (drop_bit 20 w))"
  "w AND FJ_IMM_10_1 = push_bit 21 (take_bit 10 (drop_bit 21 w))"
  "w AND FJ_IMM_20 = push_bit 31 (take_bit 1 (drop_bit 31 w))"
  unfolding INST_6_2_def FR_RD_def FR_FUNCT3_def FR_RS1_def FR_RS2_def FR_FUNCT7_def FI_IMM_11_0_def FS_IMM_4_0_def
    FS_IMM_11_5_def FB_IMM_11_def FB_IMM_4_1_def FB_IMM_10_5_def FB_IMM_12_def FU_IMM_31_12_def FJ_IMM_19_12_def
    FJ_IMM_11_def FJ_IMM_10_1_def FJ_IMM_20_def rv32_field_mask [symmetric]
  by (simp_all add: mask_eq_exp_minus_1)

lemma bit_outside [simp]:
  "7 \<le> n \<Longrightarrow> \<not> bit (w7 :: 7 word) n" "5 \<le> n \<Longrightarrow> \<not> bit (w5 :: 5 word) n"
  "3 \<le> n \<Longrightarrow> \<not> bit (w3 :: 3 word) n" "12 \<le> n \<Longrightarrow> \<not> bit (w12 :: 12 word) n"
  "20 \<le> n \<Longrightarrow> \<not> bit (w20 :: 20 word) n"
  by (auto dest!: bit_imp_le_length)

lemmas dec_defs = dec_rd_def dec_rs1_def dec_rs2_def dec_funct3_def dec_funct7_def dec_utype_imm_def dec_csr_def
  dec_jtype_imm_def dec_itype_imm_def dec_btype_imm_def dec_stype_imm_def Let_def rv32_field_masks

lemma form_r_fields:
  "dec_rd (form_r f7 r2 r1 f3 r oc) = ucast r" "dec_rs1 (form_r f7 r2 r1 f3 r oc) = ucast r1"
  "dec_rs2 (form_r f7 r2 r1 f3 r oc) = ucast r2" "dec_funct3 (form_r f7 r2 r1 f3 r oc) = ucast f3"
  "dec_funct7 (form_r f7 r2 r1 f3 r oc) = ucast f7"
  "drop_bit 2 (form_r f7 r2 r1 f3 r oc AND INST_6_2) = drop_bit 2 (ucast oc)"
  by (rule word32_eqI; simp add: form_r_def dec_defs bit_simps)+

lemma form_i_fields:
  "dec_rd (form_i imm r1 f3 r oc) = ucast r" "dec_rs1 (form_i imm r1 f3 r oc) = ucast r1"
  "dec_funct3 (form_i imm r1 f3 r oc) = ucast f3" "dec_csr (form_i imm r1 f3 r oc) = ucast imm"
  "dec_itype_imm (form_i imm r1 f3 r oc) = scast imm"
  "drop_bit 2 (form_i imm r1 f3 r oc AND INST_6_2) = drop_bit 2 (ucast oc)"
  by (rule word32_eqI; simp add: form_i_def dec_defs bit_simps)+

lemma form_s_fields:
  "dec_rs1 (form_s imm r2 r1 f3 oc) = ucast r1" "dec_rs2 (form_s imm r2 r1 f3 oc) = ucast r2"
  "dec_funct3 (form_s imm r2 r1 f3 oc) = ucast f3" "dec_stype_imm (form_s imm r2 r1 f3 oc) = scast imm"
  "drop_bit 2 (form_s imm r2 r1 f3 oc AND INST_6_2) = drop_bit 2 (ucast oc)"
  by (rule word32_eqI; simp add: form_s_def dec_defs bit_simps)+

lemma form_b_fields:
  "dec_rs1 (form_b imm r2 r1 f3 oc) = ucast r1" "dec_rs2 (form_b imm r2 r1 f3 oc) = ucast r2"
  "dec_funct3 (form_b imm r2 r1 f3 oc) = ucast f3" "dec_btype_imm (form_b imm r2 r1 f3 oc) = push_bit 1 (scast imm)"
  "drop_bit 2 (form_b imm r2 r1 f3 oc AND INST_6_2) = drop_bit 2 (ucast oc)"
  by (rule word32_eqI; simp add: form_b_def dec_defs bit_simps del: push_bit_Suc take_bit_Suc_0)+

lemma form_u_fields:
  "dec_rd (form_u imm r oc) = ucast r" "dec_utype_imm (form_u imm r oc) = push_bit 12 (ucast imm)"
  "drop_bit 2 (form_u imm r oc AND INST_6_2) = drop_bit 2 (ucast oc)"
  "dec_rd (form_j imm r oc) = ucast r" "dec_jtype_imm (form_j imm r oc) = push_bit 1 (scast imm)"
  "drop_bit 2 (form_j imm r oc AND INST_6_2) = drop_bit 2 (ucast oc)"
  by (rule word32_eqI; simp add: form_u_def form_j_def dec_defs bit_simps del: push_bit_Suc take_bit_Suc_0)+

end
