(* ===== verification/Vm_Step.thy ===== *)
theory Vm_Step
  imports Vm_Isa
begin

text \<open>
  \<open>rv_step\<close> computes the reference semantics, where it does, and what it computes for the immediate right shifts
  and \<open>csrrc\<close> instead.
\<close>

section \<open>Arithmetic\<close>

lemma high_word: "ucast (drop_bit 32 (word_of_int k :: u64)) = (word_of_int (k div 2 ^ 32) :: u32)"
proof (rule bit_word_eqI)
  fix n assume "n < LENGTH(32)"
  then show "bit (ucast (drop_bit 32 (word_of_int k :: u64)) :: u32) n = bit (word_of_int (k div 2 ^ 32) :: u32) n"
    unfolding drop_bit_eq_div [symmetric] by (simp add: bit_simps)
qed

lemma wide_int: "(scast (a :: u32) :: u64) = word_of_int (sint a)" "(ucast a :: u64) = word_of_int (uint a)"
  by (rule bit_word_eqI; simp add: bit_simps bit_sint_iff bit_uint_iff)+

lemma quot_sdiv: "quot_trunc a b = a sdiv b" "a - quot_trunc a b * b = a smod b"
proof -
  show "quot_trunc a b = a sdiv b" by (simp add: quot_trunc_def signed_divide_int_def)
  have "sgn a * sgn b * (\<bar>a\<bar> div \<bar>b\<bar>) * b = sgn a * (\<bar>a\<bar> div \<bar>b\<bar> * \<bar>b\<bar>)" by (simp add: sgn_mult_abs algebra_simps flip: abs_sgn)
  also have "\<dots> = sgn a * (\<bar>a\<bar> - \<bar>a\<bar> mod \<bar>b\<bar>)" by (simp add: minus_mod_eq_div_mult)
  also have "\<dots> = a - a smod b" by (simp add: signed_modulo_int_def right_diff_distrib sgn_mult_abs)
  finally show "a - quot_trunc a b * b = a smod b" by (simp add: quot_trunc_def)
qed

lemma div_overflow:
  assumes "(b :: u32) = - 1" and "(a :: u32) = 0x80000000"
  shows "word_of_int (quot_trunc (sint a) (sint b)) = a" "(word_of_int (sint a - quot_trunc (sint a) (sint b) * sint b) :: u32) = 0"
  unfolding assms by (simp_all add: quot_trunc_def)

lemma mul_low: "(a :: u32) * b = word_of_int (sint a * sint b)"
  by (simp add: of_int_mult)

lemma code_words [simp]:
  "ucast (1 :: 3 word) = (1 :: u32)" "ucast (2 :: 3 word) = (2 :: u32)" "ucast (3 :: 3 word) = (3 :: u32)"
  "ucast (4 :: 3 word) = (4 :: u32)" "ucast (5 :: 3 word) = (5 :: u32)" "ucast (6 :: 3 word) = (6 :: u32)"
  "ucast (7 :: 3 word) = (7 :: u32)" "ucast (1 :: 7 word) = (1 :: u32)" "ucast (0x20 :: 7 word) = (0x20 :: u32)"
  by code_simp+

lemma op1_values:
  assumes "fst (op32_code f) = 0"
  shows "op1_val (ucast (snd (op32_code f))) a b = Some (op32_val f a b)"
  using assms by (cases f; simp add: op1_val_def flag_def word_sless_alt word_less_def and_masks del: unsigned_numeral)

lemma op2_values:
  assumes "fst (op32_code f) = 0x20"
  shows "op2_val (ucast (snd (op32_code f))) a b = Some (op32_val f a b)"
  using assms by (cases f; simp add: op2_val_def and_masks del: unsigned_numeral)

lemma m_mul: "m_val 0 a b = Some (op32_val Mul a b)" by (simp add: m_val_def mul_low del: of_int_mult)
lemma m_mulh:
  "m_val 1 a b = Some (op32_val Mulh a b)" "m_val 2 a b = Some (op32_val Mulhsu a b)" "m_val 3 a b = Some (op32_val Mulhu a b)"
  unfolding m_val_def wide_int of_int_mult [symmetric] high_word op32_val.simps by simp_all
lemma m_div: "m_val 4 a b = Some (op32_val Div a b)" 
  using div_overflow(1) [of b a] unfolding m_val_def quot_sdiv op32_val.simps by auto
lemma m_divu: "m_val 5 a b = Some (op32_val Divu a b)" unfolding m_val_def op32_val.simps word_div_def by simp
lemma m_rem: "m_val 6 a b = Some (op32_val Rem a b)"
  using div_overflow(2) [of b a, unfolded quot_sdiv(2)] unfolding m_val_def quot_sdiv(2) op32_val.simps by auto

lemma m_remu: "m_val 7 a b = Some (op32_val Remu a b)"
  unfolding m_val_def op32_val.simps word_mod_def by simp

lemma op_table:
  "(if ucast (fst (op32_code f)) = (0 :: u32) then op1_val (ucast (snd (op32_code f))) a b
    else if ucast (fst (op32_code f)) = (1 :: u32) then m_val (ucast (snd (op32_code f))) a b
    else if ucast (fst (op32_code f)) = (0x20 :: u32) then op2_val (ucast (snd (op32_code f))) a b
    else None) = Some (op32_val f a b)"
proof -
  consider "fst (op32_code f) = 0" | "fst (op32_code f) = 1" | "fst (op32_code f) = 0x20" by (cases f) simp_all
  then show ?thesis
  proof cases
    case 2
    then have "m_val (ucast (snd (op32_code f))) a b = Some (op32_val f a b)"
      by (cases f) (simp_all add: m_mul m_mulh m_div m_divu m_rem m_remu del: op32_val.simps unsigned_numeral)
    then show ?thesis using 2 by simp
  qed (simp_all add: op1_values op2_values)
qed

section \<open>Registers and memory\<close>

lemma ucast_ireg: "ucast (ucast (r :: ireg) :: u32) = r"
  by (rule bit_word_eqI) (simp add: bit_simps)

lemma reg_zero [simp]: "(ucast (r :: ireg) :: u32) = 0 \<longleftrightarrow> r = 0"
  by (metis ucast_0 ucast_ireg)

lemma put_back:
  assumes "xr s 0 = 0"
  shows "set_x 0 0 (next_pc (set_x (ucast r) v s)) = next_pc (put_ir r v s)" "set_x 0 0 (next_pc s) = next_pc s"
    "set_x 0 0 (set_x (ucast r) v (s\<lparr>vpc := p\<rparr>)) = (put_ir r v s)\<lparr>vpc := p\<rparr>" "set_x 0 0 (s\<lparr>vpc := p\<rparr>) = s\<lparr>vpc := p\<rparr>"
  using assms by (auto simp: set_x_def next_pc_def put_ir_def fun_upd_twist intro!: machine.equality)

lemma writes_keep_registers:
  "xr (snd (mem_write_b addr b s)) = xr s" "xr (snd (mem_write_s addr h s)) = xr s" "xr (snd (mem_write_w addr w s)) = xr s"
  by (auto simp: mem_write_b_def mem_write_s_def mem_write_w_def write_at_def io_write_b_def set_chunk_def Let_def
      split: sum.splits)

lemma stored_keeps_registers: "xr (snd (stored f addr v s)) = xr s"
  by (cases f) (simp_all add: writes_keep_registers)

section \<open>Every group\<close>

lemma decoded [simp]:
  "rd (rv_decode w) = dec_rd w" "rs1 (rv_decode w) = dec_rs1 w" "rs2 (rv_decode w) = dec_rs2 w"
  "funct3 (rv_decode w) = dec_funct3 w" "funct7 (rv_decode w) = dec_funct7 w" "i_imm (rv_decode w) = dec_itype_imm w"
  "b_imm (rv_decode w) = dec_btype_imm w" "u_imm (rv_decode w) = dec_utype_imm w" "j_imm (rv_decode w) = dec_jtype_imm w"
  "s_imm (rv_decode w) = dec_stype_imm w" "csr_id (rv_decode w) = dec_csr w"
  by (simp_all add: rv_decode_def)

lemma op_decoded [simp]:
  "op (rv_decode (form_r f7 r2 r1 f3 r oc)) = drop_bit 2 (ucast oc)" "op (rv_decode (form_i imm r1 f3 r oc)) = drop_bit 2 (ucast oc)"
  "op (rv_decode (form_s imm r2 r1 f3 oc)) = drop_bit 2 (ucast oc)" "op (rv_decode (form_b imm r2 r1 f3 oc)) = drop_bit 2 (ucast oc)"
  "op (rv_decode (form_u uimm r oc)) = drop_bit 2 (ucast oc)" "op (rv_decode (form_j uimm r oc)) = drop_bit 2 (ucast oc)"
  unfolding rv_decode_def insn.select_convs form_r_fields form_i_fields form_s_fields form_b_fields form_u_fields by (rule refl)+

lemmas exec_form = rv_exec_def form_r_fields form_i_fields form_s_fields form_b_fields form_u_fields

lemma exec_op: "rv_exec (rv_decode (encode32 (Op f r r1 r2))) s =
   (Inr (), next_pc (set_x (ucast r) (op32_val f (ir s r1) (ir s r2)) s))"
  by (simp add: exec_form rv_op_def Let_def ir_def op_table split del: if_split cong: if_cong option.case_cong del: op32_val.simps op32_code.simps)

lemma exec_imm: "rv_exec (rv_decode (encode32 (OpImm f r r1 imm))) s =
   (Inr (), next_pc (set_x (ucast r) (imm_val f (ir s r1) (scast imm)) s))"
  by (cases f) (simp_all add: exec_form rv_op_imm_def Let_def ir_def flag_def word_sless_alt word_less_def)

lemma shift_amount: "(scast (shift_field f7 sh) :: u32) AND 0x1f = ucast sh"
  by (rule word32_eqI; simp add: shift_field_def and_masks bit_simps del: push_bit_Suc take_bit_Suc_0)

lemma unat_ireg: "unat (ucast (sh :: 5 word) :: u32) = unat sh"
  by (transfer) simp

lemma exec_slli: "rv_exec (rv_decode (encode32 (ShiftImm Slli r r1 sh))) s =
   (Inr (), next_pc (set_x (ucast r) (shift_val Slli (ir s r1) (unat sh)) s))"
  by (simp add: exec_form rv_op_imm_def Let_def ir_def shift_amount unat_ireg)

lemma exec_upper:
  "rv_exec (rv_decode (encode32 (Lui r imm))) s = (Inr (), next_pc (set_x (ucast r) (push_bit 12 (ucast imm)) s))"
  "rv_exec (rv_decode (encode32 (Auipc r imm))) s = (Inr (), next_pc (set_x (ucast r) (vpc s + push_bit 12 (ucast imm)) s))"
  by (simp_all add: exec_form add.commute [of "vpc s"])

lemma exec_jumps:
  "rv_exec (rv_decode (encode32 (Jal r imm))) s = (Inr (), set_x (ucast r) (vpc s + 4) (s\<lparr>vpc := vpc s + push_bit 1 (scast imm)\<rparr>))"
  "rv_exec (rv_decode (encode32 (Jalr r r1 i12))) s = (Inr (), set_x (ucast r) (vpc s + 4) (s\<lparr>vpc := (ir s r1 + scast i12) AND NOT 1\<rparr>))"
  by (simp_all add: exec_form ir_def del: push_bit_Suc)

lemma exec_branch: "rv_exec (rv_decode (encode32 (Branch f r1 r2 imm))) s =
   (Inr (), if taken f (ir s r1) (ir s r2) then s\<lparr>vpc := vpc s + push_bit 1 (scast imm)\<rparr> else next_pc s)"
  by (cases f) (simp_all add: exec_form rv_branch_def branch_taken_def ir_def word_sless_alt word_sle_eq word_less_def word_le_def del: push_bit_Suc)

lemma load_val_loaded: "load_val (ucast (load_code f)) addr s = loaded f addr s"
proof -
  have "addr AND 1 \<noteq> 0 \<longleftrightarrow> odd addr" by (simp add: and_one_eq odd_iff_mod_2_eq_one)
  moreover have "ucast (ucast b :: u32) = b" for b :: u8 by (rule bit_word_eqI) (simp add: bit_simps)
  moreover have "ucast (ucast h :: u32) = h" for h :: u16 by (rule bit_word_eqI) (simp add: bit_simps)
  ultimately show ?thesis by (cases f) (simp_all add: load_val_def sign_extend_b_def sign_extend_h_def)
qed

lemma exec_load: "rv_exec (rv_decode (encode32 (Load f r r1 imm))) s =
   (case loaded f (ir s r1 + scast imm) s of Inl e \<Rightarrow> (Inl e, s) | Inr v \<Rightarrow> (Inr (), next_pc (set_x (ucast r) v s)))"
  by (simp add: exec_form rv_load_def load_val_loaded ir_def cong: sum.case_cong)

lemma exec_store: "rv_exec (rv_decode (encode32 (Store f r1 r2 imm))) s =
   bindS (stored f (ir s r1 + scast imm) (ir s r2) s) (\<lambda>_ s. (Inr (), next_pc s))"
  by (cases f) (simp_all add: exec_form rv_store_def Let_def ir_def)

lemma exec_csr:
  assumes "f \<noteq> Csrrc" and "xr s 0 = 0"
  shows "rv_exec (rv_decode (encode32 (Csr f r r1 c))) s =
    (Inr (), next_pc (set_x (ucast r) (if r = 0 then 0 else csrs s (ucast c))
       (s\<lparr>csrs := (csrs s)(ucast c := csr_new f (csrs s (ucast c)) (ir s r1) (ucast r1))\<rparr>)))"
  using assms by (cases f) (simp_all add: exec_form rv_system_def csr_access_def csrrw_def csrrs_def csrrc_def ir_def)

lemma exec_fence: "rv_exec (rv_decode (encode32 Fence)) s = (Inr (), next_pc s)"
  by (simp add: rv_exec_def rv_decode_def INST_6_2_def)

section \<open>The step\<close>

text \<open>The instructions the emulator gets right.\<close>

fun computed_right :: "rv32 \<Rightarrow> bool" where
  "computed_right (ShiftImm f r r1 sh) \<longleftrightarrow> f = Slli"
| "computed_right (Csr f r r1 c) \<longleftrightarrow> f \<noteq> Csrrc"
| "computed_right i \<longleftrightarrow> True"

lemma step_fetched:
  assumes "mem_read_w (vpc s) s = Inr w"
  shows "rv_step s = bindS (rv_exec (rv_decode w) s) (\<lambda>_ s. (Inr (), set_x 0 0 s))"
  by (simp add: rv_step_def assms)

lemmas exec_lemmas = exec_op exec_imm exec_slli exec_upper exec_jumps exec_branch exec_load exec_store exec_fence

lemma step_right:
  assumes "mem_read_w (vpc s) s = Inr (encode32 i)" and z: "xr s 0 = 0" and "computed_right i"
  shows "rv_step s = rv32_step i s"
proof -
  note p = put_back [where s = s, OF z]
  show ?thesis
  proof (cases i)
    case (Op f r r1 r2)
    show ?thesis unfolding step_fetched [OF assms(1)] unfolding Op exec_lemmas rv32_step.simps by (simp add: p del: op32_val.simps)
  next
    case (OpImm f r r1 imm)
    show ?thesis unfolding step_fetched [OF assms(1)] unfolding OpImm exec_lemmas rv32_step.simps by (simp add: p del: imm_val.simps)
  next
    case (ShiftImm f r r1 sh)
    then have f: "f = Slli" using assms(3) by simp
    show ?thesis unfolding step_fetched [OF assms(1)] unfolding ShiftImm f exec_lemmas rv32_step.simps by (simp add: p)
  next
    case (Load f r r1 imm)
    show ?thesis unfolding step_fetched [OF assms(1)] unfolding Load exec_lemmas rv32_step.simps
      by (cases "loaded f (ir s r1 + scast imm) s") (simp_all add: p)
  next
    case (Store f r1 r2 imm)
    obtain r t where m: "stored f (ir s r1 + scast imm) (ir s r2) s = (r, t)" by (meson prod.exhaust)
    have "xr t 0 = 0" using stored_keeps_registers [of f "ir s r1 + scast imm" "ir s r2" s] z m by simp
    then have "set_x 0 0 (next_pc t) = next_pc t" by (rule put_back)
    then show ?thesis unfolding step_fetched [OF assms(1)] unfolding Store exec_lemmas rv32_step.simps m by (cases r) simp_all
  next
    case (Csr f r r1 c)
    let ?t = "s\<lparr>csrs := (csrs s)(ucast c := csr_new f (csrs s (ucast c)) (ir s r1) (ucast r1))\<rparr>"
    have f: "f \<noteq> Csrrc" using assms(3) Csr by simp
    have q: "set_x 0 0 (next_pc (set_x (ucast r) v ?t)) = next_pc (put_ir r v ?t)" for v using z by (intro put_back) simp
    show ?thesis unfolding step_fetched [OF assms(1)] unfolding Csr exec_csr [OF f z] rv32_step.simps Let_def
      by (simp add: q) (simp add: put_ir_def)
  qed (unfold step_fetched [OF assms(1)], simp_all add: exec_lemmas p del: encode32.simps taken.simps push_bit_Suc)
qed

section \<open>The instructions it gets wrong\<close>

definition shift_word :: "shift_op \<Rightarrow> 5 word \<Rightarrow> u32" where
  "shift_word f sh = (if f = Srli then ucast sh else 0x400 OR ucast sh)"

lemma shift_imm_word:
  assumes "f \<noteq> Slli"
  shows "scast (shift_field (fst (shift_code f)) sh) = shift_word f sh" "shift_word f sh AND 0x1f = ucast sh"
    "shift_word f sh AND NOT 0x1f = 0 \<longleftrightarrow> f = Srli"
proof -
  show m: "scast (shift_field (fst (shift_code f)) sh) = shift_word f sh"
    using assms by (cases f; simp only: shift_code.simps fst_conv shift_word_def; intro word32_eqI;
      simp add: shift_field_def bit_simps)
  show "shift_word f sh AND 0x1f = ucast sh" unfolding m [symmetric] by (rule shift_amount)
  have z: "(ucast sh :: u32) AND NOT 0x1f = 0" by (rule word32_eqI; simp add: bit_simps)
  have "bit (shift_word Srai sh AND NOT 0x1f) 10" by (simp add: shift_word_def bit_simps)
  then have "shift_word Srai sh AND NOT 0x1f \<noteq> 0" by auto
  then show "shift_word f sh AND NOT 0x1f = 0 \<longleftrightarrow> f = Srli"
    using assms z by (cases f) (simp_all add: shift_word_def)
qed

lemma op_imm_right_shift:
  assumes "funct3 d = 5"
  shows "rv_op_imm d s =
    (let t = set_x (rd d) (if i_imm d AND NOT 0x1f \<noteq> 0 then signed_drop_bit (unat (i_imm d AND 0x1f)) (xr s (rs1 d))
                          else drop_bit (unat (i_imm d AND 0x1f)) (xr s (rs1 d))) s
     in (Inr (), next_pc (set_x (rd d) (xr t (rs1 d) OR i_imm d) t)))"
  using assms by (simp add: rv_op_imm_def Let_def)

lemma set_x_twice: "set_x r v (set_x r u s) = set_x r v s" "xr (set_x r v s) q = (if q = r then v else xr s q)"
  by (simp_all add: set_x_def)

lemma right_shift_step:
  assumes "mem_read_w (vpc s) s = Inr (encode32 (ShiftImm f r r1 sh))" and z: "xr s 0 = 0" and f: "f \<noteq> Slli"
  shows "rv_step s = (Inr (), next_pc (put_ir r
     ((if r = r1 then shift_val f (ir s r1) (unat sh) else ir s r1) OR shift_word f sh) s))"
proof -
  let ?d = "rv_decode (encode32 (ShiftImm f r r1 sh))"
  have eq: "(ucast r1 :: u32) = ucast r \<longleftrightarrow> r = r1" by (metis ucast_ireg)
  have d: "funct3 ?d = 5" "rd ?d = ucast r" "rs1 ?d = ucast r1" "op ?d = 0b00100"
    using f by (cases f; simp add: form_i_fields)+
  have imm: "i_imm ?d = shift_word f sh" by (simp add: form_i_fields shift_imm_word(1) [OF f])
  have v: "(if f \<noteq> Srli then signed_drop_bit (unat (ucast sh :: u32)) a else drop_bit (unat (ucast sh :: u32)) a)
      = shift_val f a (unat sh)" for a using f by (cases f) (simp_all add: unat_ireg)
  have "rv_exec ?d s = (Inr (), next_pc (set_x (ucast r)
     ((if r = r1 then shift_val f (ir s r1) (unat sh) else ir s r1) OR shift_word f sh) s))"
    unfolding rv_exec_def op_imm_right_shift [OF d(1)] imm shift_imm_word(2,3) [OF f] d Let_def v set_x_twice eq ir_def
    by simp
  then show ?thesis by (simp add: step_fetched [OF assms(1)] put_back [where s = s, OF z] del: encode32.simps)
qed

lemma csrrc_step:
  assumes "mem_read_w (vpc s) s = Inr (encode32 (Csr Csrrc r r1 c))" and z: "xr s 0 = 0"
  shows "\<exists>t. rv_step s = (Inr (), t) \<and> csrs t (ucast c) = csrs s (ucast c) OR (if r1 = 0 then NOT 0 else ir s r1)"
  by (simp add: step_fetched [OF assms(1)] exec_form rv_system_def csr_access_def csrrs_def ir_def set_x_def next_pc_def)

end
