(* ===== verification/Vm_Safety.thy ===== *)
theory Vm_Safety
  imports Vm_Step
begin

text \<open>
  The emulator stays inside its own arrays: the decoder's indices fit the register files, the chunks keep
  their sizes, and a step reads and writes the host's memory inside a chunk as long as no
  segment of the program ends in the last three bytes of the address space or covers the UART with fewer
  than six bytes.
\<close>

section \<open>Well-formed machines\<close>

definition chunk_ok :: "chunk \<Rightarrow> bool" where
  "chunk_ok c \<longleftrightarrow> length (ch_mem c) = unat (ch_size c)"

definition files_in_range :: "machine \<Rightarrow> bool" where
  "files_in_range s \<longleftrightarrow> (\<forall>i\<ge>32. xr s i = 0) \<and> (\<forall>i\<ge>4096. csrs s i = 0) \<and> (\<forall>c \<in> set (chunks s). chunk_ok c)"

definition machine_ok :: "machine \<Rightarrow> bool" where
  "machine_ok s \<longleftrightarrow> xr s 0 = 0 \<and> files_in_range s"

text \<open>What an access needs of the chunks: \<open>layout\<close> does not change while the program runs.\<close>

definition layout :: "'a vmem_scheme \<Rightarrow> (u32 \<times> u32) list" where
  "layout m = map (\<lambda>c. (ch_begin c, ch_size c)) (chunks m)"

definition roomy :: "u32 \<times> u32 \<Rightarrow> bool" where
  "roomy = (\<lambda>(b, n). unat b + unat n \<le> 2 ^ 32 - 4 \<and> (b \<le> UART \<and> UART < b + n \<longrightarrow> 5 < unat n))"

lemma field_bounds: "dec_rd w < 32" "dec_rs1 w < 32" "dec_rs2 w < 32" "dec_csr w < 4096"
proof -
  have t: "unat (take_bit n v) < 2 ^ n" for n and v :: u32 unfolding unsigned_take_bit_eq by (rule take_bit_nat_less_exp)
  have f: "drop_bit k (push_bit k (take_bit m (drop_bit k w))) = take_bit m (drop_bit k w)" if "k + m \<le> 32" for k m
    using that by (intro bit_word_eqI) (auto simp: bit_simps)
  show "dec_rd w < 32" "dec_rs1 w < 32" "dec_rs2 w < 32" "dec_csr w < 4096"
    using t [of 5] t [of 12]
    by (simp_all add: dec_rd_def dec_rs1_def dec_rs2_def dec_csr_def rv32_field_masks f word_less_nat_alt)
qed

section \<open>Accesses\<close>

lemma find_from_in:
  assumes "find_from a i cs = Some j"
  shows "i \<le> j \<and> j - i < length cs \<and> in_chunk a (cs ! (j - i))"
  using assms
proof (induction cs arbitrary: i)
  case (Cons c cs)
  show ?case
  proof (cases "in_chunk a c")
    case True
    then show ?thesis using Cons.prems by simp
  next
    case False
    then have "Suc i \<le> j \<and> j - Suc i < length cs \<and> in_chunk a (cs ! (j - Suc i))" using Cons.prems by (intro Cons.IH) simp
    moreover from this have "j - i = Suc (j - Suc i)" by arith
    ultimately show ?thesis by simp
  qed
qed simp

lemma find_chunk_in:
  assumes "mem_find_chunk a m = Inr j"
  shows "j < length (chunks m)" "in_chunk a (chunks m ! j)"
  using assms find_from_in [of a 0 "chunks m" j] by (auto simp: mem_find_chunk_def split: option.splits)

lemma offset_in_chunk:
  assumes "in_chunk a c" and "roomy (ch_begin c, ch_size c)" and "unat k \<le> 3" and "\<not> ch_begin c + ch_size c \<le> a + k"
  shows "unat (a - ch_begin c) + unat k < unat (ch_size c)"
proof -
  have e: "unat (ch_begin c + ch_size c) = unat (ch_begin c) + unat (ch_size c)"
    using assms(2) by (intro unat_add_lem [THEN iffD1]) (simp add: roomy_def)
  have a: "unat (ch_begin c) \<le> unat a" "unat a < unat (ch_begin c) + unat (ch_size c)"
    using assms(1) e by (simp_all add: in_chunk_def word_le_nat_alt word_less_nat_alt)
  have "unat (a + k) = unat a + unat k"
    using a(2) assms(2,3) by (intro unat_add_lem [THEN iffD1]) (simp add: roomy_def)
  moreover have "unat (a - ch_begin c) = unat a - unat (ch_begin c)" using a(1) by (simp add: unat_sub word_le_nat_alt)
  ultimately show ?thesis using assms(4) a e by (simp add: word_le_nat_alt)
qed

definition fits_arrays :: "'a vmem_scheme \<Rightarrow> bool" where
  "fits_arrays m \<longleftrightarrow> (\<forall>c \<in> set (chunks m). chunk_ok c \<and> roomy (ch_begin c, ch_size c))"

lemma fits_chunk:
  assumes "fits_arrays m" and "mem_find_chunk a m = Inr j" and "unat k \<le> 3" and "\<not> ch_begin (chunks m ! j) + ch_size (chunks m ! j) \<le> a + k"
  shows "unat (a - ch_begin (chunks m ! j)) + unat k < length (ch_mem (chunks m ! j))"
proof -
  have "chunks m ! j \<in> set (chunks m)" using find_chunk_in(1) [OF assms(2)] by simp
  then show ?thesis
    using offset_in_chunk [OF find_chunk_in(2) [OF assms(2)] _ assms(3,4)] assms(1) by (simp add: fits_arrays_def chunk_ok_def)
qed

lemma chunk_read_fits:
  assumes "unat (a - ch_begin c) + n \<le> length (ch_mem c)"
  shows "\<exists>bs. chunk_read a n c = Inr bs"
proof -
  have "int (unat (a - ch_begin c)) + int n \<le> int (length (ch_mem c))"
    using assms by (simp only: of_nat_add [symmetric] of_nat_le_iff)
  then show ?thesis unfolding chunk_read_def bytes_at_def by (simp only: of_nat_0_le_iff) simp
qed

lemma find_no_bounds: "mem_find_chunk a m \<noteq> Inl OutOfBounds"
  by (simp add: mem_find_chunk_def split: option.splits)

lemma guarded_read:
  assumes "fits_arrays m" and "unat k \<le> 3" and n: "n = unat k + 1"
  shows "bindE (mem_find_chunk a m) (\<lambda>i. let c = chunks m ! i in
      if ch_begin c + ch_size c \<le> a + k then Inl (Exit e) else bindE (chunk_read a n c) (\<lambda>bs. Inr (g bs)))
    \<noteq> Inl OutOfBounds"
proof (cases "mem_find_chunk a m")
  case (Inl x)
  then show ?thesis using find_no_bounds [of a m] by simp
next
  case (Inr j)
  show ?thesis
  proof (cases "ch_begin (chunks m ! j) + ch_size (chunks m ! j) \<le> a + k")
    case False
    then have "unat (a - ch_begin (chunks m ! j)) + (unat k + 1) \<le> length (ch_mem (chunks m ! j))"
      using fits_chunk [OF assms(1) Inr assms(2)] by simp
    then obtain bs where "chunk_read a (unat k + 1) (chunks m ! j) = Inr bs" using chunk_read_fits by blast
    then show ?thesis using False by (simp add: Inr Let_def n)
  qed (simp add: Inr Let_def)
qed

lemma reads_in_bounds:
  assumes "fits_arrays m"
  shows "mem_read_w a m \<noteq> Inl OutOfBounds" "mem_read_s a m \<noteq> Inl OutOfBounds" "mem_read_b a m \<noteq> Inl OutOfBounds"
proof -
  show "mem_read_w a m \<noteq> Inl OutOfBounds" unfolding mem_read_w_def by (rule guarded_read [OF assms]) simp_all
  show "mem_read_s a m \<noteq> Inl OutOfBounds" unfolding mem_read_s_def by (rule guarded_read [OF assms]) simp_all
  show "mem_read_b a m \<noteq> Inl OutOfBounds"
    unfolding mem_read_b_def by (rule guarded_read [OF assms, of 0 1 a, unfolded add_0_right]) simp_all
qed

text \<open>What a write does to the chunks and to the rest of the state.\<close>

definition chunks_ok :: "'a vmem_scheme \<Rightarrow> bool" where
  "chunks_ok m \<longleftrightarrow> (\<forall>c \<in> set (chunks m). chunk_ok c)"

definition keeps_shape :: "'a vmem_scheme \<Rightarrow> (vm_stop, unit, 'a vmem_scheme) outcome \<Rightarrow> bool" where
  "keeps_shape m = (\<lambda>(r, t). layout t = layout m \<and> vmem.more t = vmem.more m \<and> (chunks_ok m \<longrightarrow> chunks_ok t) \<and>
     (fits_arrays m \<longrightarrow> r \<noteq> Inl OutOfBounds))"

lemma fits_layout: "fits_arrays m \<longleftrightarrow> chunks_ok m \<and> (\<forall>p \<in> set (layout m). roomy p)"
  by (auto simp: fits_arrays_def chunks_ok_def layout_def)

lemma keeps_shape_simps [simp]:
  "keeps_shape m (Inr (), m)" "keeps_shape m (Inl (Exit e), m)"
  "keeps_shape m (Inl OutOfBounds, m) \<longleftrightarrow> \<not> fits_arrays m"
  by (auto simp: keeps_shape_def)

lemma keeps_shape_bind:
  assumes "keeps_shape m x" and "\<And>t. x = (Inr (), t) \<Longrightarrow> keeps_shape t (f () t)"
  shows "keeps_shape m (bindS x f)"
proof -
  obtain r t where x: "x = (r, t)" by (cases x)
  show ?thesis
  proof (cases r)
    case (Inl e)
    then show ?thesis using assms(1) x by simp
  next
    case (Inr u)
    have m: "layout t = layout m" "vmem.more t = vmem.more m" "chunks_ok m \<longrightarrow> chunks_ok t"
      using assms(1) by (simp_all add: x keeps_shape_def)
    obtain r' t' where f: "f () t = (r', t')" by (meson prod.exhaust)
    have "keeps_shape t (r', t')" using assms(2) [of t] x Inr f by simp
    then show ?thesis using m by (auto simp: x Inr f keeps_shape_def fits_layout)
  qed
qed

lemma set_chunk_shape:
  assumes "i < length (chunks m)" and "length (ch_mem c) = length (ch_mem (chunks m ! i))"
    and "ch_begin c = ch_begin (chunks m ! i)" and "ch_size c = ch_size (chunks m ! i)"
  shows "keeps_shape m (Inr (), set_chunk i c m)"
proof -
  have "layout (set_chunk i c m) = (layout m)[i := layout m ! i]"
    using assms by (simp add: layout_def set_chunk_def map_update)
  moreover have "chunks_ok m \<longrightarrow> chunk_ok c" using assms by (simp add: chunks_ok_def chunk_ok_def)
  then have "chunks_ok m \<longrightarrow> chunks_ok (set_chunk i c m)"
    by (auto simp: chunks_ok_def set_chunk_def dest: set_update_subset_insert [THEN subsetD])
  ultimately show ?thesis by (simp add: keeps_shape_def) (simp add: set_chunk_def)
qed

lemma write_at_shape:
  assumes i: "i < length (chunks m)"
    and fit: "fits_arrays m \<Longrightarrow> unat (a - ch_begin (chunks m ! i)) + length bs \<le> length (ch_mem (chunks m ! i))"
  shows "keeps_shape m (write_at i a bs m)"
proof (cases "unat (a - ch_begin (chunks m ! i)) + length bs \<le> length (ch_mem (chunks m ! i))")
  case True
  then show ?thesis by (simp add: write_at_def chunk_write_def Let_def) (rule set_chunk_shape [OF i]; simp)
next
  case False
  then show ?thesis using fit by (auto simp: write_at_def chunk_write_def Let_def)
qed

lemma guarded_write:
  assumes n: "length bs = unat k + 1" and "unat k \<le> 3" and "mem_find_chunk a m = Inr j"
    and "\<not> ch_begin (chunks m ! j) + ch_size (chunks m ! j) \<le> a + k"
  shows "keeps_shape m (write_at j a bs m)"
  using fits_chunk [OF _ assms(3,2,4)] find_chunk_in [OF assms(3)] n by (intro write_at_shape) simp_all

lemma exit_shape: "mem_find_chunk a m = Inl e \<Longrightarrow> keeps_shape m (Inl e, m)"
  using find_no_bounds [of a m] by (cases e) simp_all

lemma writes_keep_shape: "keeps_shape m (mem_write_w a w m)" "keeps_shape m (mem_write_s a h m)"
  unfolding mem_write_w_def mem_write_s_def Let_def
  by (auto simp: exit_shape le32_def intro: guarded_write [of _ 3] guarded_write [of _ 1] split: sum.splits)

lemma shape_before_output:
  assumes "keeps_shape (m\<lparr>stdout := out\<rparr>) x"
  shows "keeps_shape m x"
proof -
  have "layout (m\<lparr>stdout := out\<rparr>) = layout m" "chunks_ok (m\<lparr>stdout := out\<rparr>) = chunks_ok m"
    by (simp_all add: layout_def chunks_ok_def)
  then show ?thesis using assms by (simp add: keeps_shape_def fits_layout split: prod.splits)
qed

lemma io_write_shape:
  assumes j: "j < length (chunks t)" and a: "in_chunk a (chunks t ! j)"
  shows "keeps_shape t (io_write_b j a b t)"
proof (cases "a = UART + THR")
  case True
  let ?c = "chunks t ! j"
  let ?m = "t\<lparr>stdout := stdout t @ [b]\<rparr>"
  show ?thesis
  proof (cases "LSR < length (ch_mem ?c)")
    case len: True
    have "keeps_shape ?m (Inr (), set_chunk j (put_byte LSR (ch_mem ?c ! LSR OR UART_LSR_EMPTY_MASK) ?c) ?m)"
      using j by (intro set_chunk_shape) (simp_all add: put_byte_def)
    then show ?thesis using len True by (simp add: io_write_b_def Let_def shape_before_output)
  next
    case False
    have "\<not> fits_arrays t"
    proof
      assume "fits_arrays t"
      then have "chunk_ok ?c" "roomy (ch_begin ?c, ch_size ?c)" using j by (simp_all add: fits_arrays_def)
      then show False using a False True by (simp add: chunk_ok_def roomy_def in_chunk_def LSR_def THR_def)
    qed
    then have "keeps_shape ?m (Inl OutOfBounds, ?m)" by (simp add: fits_arrays_def)
    then have "keeps_shape t (Inl OutOfBounds, ?m)" by (rule shape_before_output)
    then show ?thesis using False True by (simp add: io_write_b_def Let_def)
  qed
qed (simp add: io_write_b_def)

lemma write_b_keeps_shape: "keeps_shape m (mem_write_b a b m)"
proof (cases "mem_find_chunk a m")
  case (Inl e)
  then show ?thesis by (simp add: mem_write_b_def exit_shape)
next
  case (Inr j)
  let ?c = "chunks m ! j"
  note in_c = find_chunk_in [OF Inr]
  show ?thesis
  proof (cases "ch_begin ?c + ch_size ?c \<le> a")
    case True
    then show ?thesis by (simp add: mem_write_b_def Inr)
  next
    case False
    have w: "keeps_shape m (write_at j a [b] m)" using False by (intro guarded_write [OF _ _ Inr, of _ 0]) simp_all
    have io: "keeps_shape t (io_write_b j a b t)" if t: "write_at j a [b] m = (Inr (), t)" for t
    proof (rule io_write_shape)
      have l: "layout t = layout m" using w by (simp add: t keeps_shape_def)
      then show j: "j < length (chunks t)" using in_c(1) by (metis layout_def length_map)
      have "layout t ! j = layout m ! j" by (simp add: l)
      then show "in_chunk a (chunks t ! j)" using in_c j by (simp add: layout_def in_chunk_def)
    qed
    show ?thesis using False by (simp add: mem_write_b_def Inr Let_def keeps_shape_bind [OF w] io)
  qed
qed

section \<open>Steps\<close>

definition step_keeps :: "machine \<Rightarrow> (vm_stop, unit, machine) outcome \<Rightarrow> bool" where
  "step_keeps s = (\<lambda>(r, t). layout t = layout s \<and> (files_in_range s \<longrightarrow> files_in_range t) \<and>
     (fits_arrays s \<longrightarrow> r \<noteq> Inl OutOfBounds))"

lemma same_registers: "vmem.more (t :: machine) = vmem.more s \<Longrightarrow> xr t = xr s \<and> csrs t = csrs s"
  by (cases t; cases s) simp

lemma shape_step:
  assumes "keeps_shape s x"
  shows "step_keeps s x"
proof -
  obtain r t where x: "x = (r, t)" by (cases x)
  have "vmem.more t = vmem.more s" "layout t = layout s" "chunks_ok s \<longrightarrow> chunks_ok t" "fits_arrays s \<longrightarrow> r \<noteq> Inl OutOfBounds"
    using assms by (simp_all add: x keeps_shape_def)
  then show ?thesis
    using same_registers [of t s] by (simp add: x step_keeps_def files_in_range_def chunks_ok_def)
qed

lemma range_simps [simp]:
  "files_in_range (s\<lparr>vpc := p\<rparr>) = files_in_range s" "files_in_range (next_pc s) = files_in_range s"
  "layout (s\<lparr>vpc := p\<rparr>) = layout s" "layout (next_pc s) = layout s" "layout (set_x r v s) = layout s"
  "layout (s\<lparr>csrs := g\<rparr>) = layout s" "layout (s\<lparr>xr := f\<rparr>) = layout s"
  by (simp_all add: files_in_range_def layout_def next_pc_def set_x_def)

lemma range_set [intro]:
  "files_in_range s \<Longrightarrow> r < 32 \<Longrightarrow> files_in_range (set_x r v s)"
  "files_in_range s \<Longrightarrow> i < 4096 \<Longrightarrow> files_in_range (s\<lparr>csrs := (csrs s)(i := v)\<rparr>)"
  by (auto simp: files_in_range_def set_x_def)

lemma step_keeps_Inr: "layout t = layout s \<Longrightarrow> (files_in_range s \<Longrightarrow> files_in_range t) \<Longrightarrow> step_keeps s (Inr (), t)"
  by (simp add: step_keeps_def)

lemma step_keeps_Exit [simp]: "step_keeps s (Inl (Exit e), s)"
  by (simp add: step_keeps_def)

lemma step_keeps_bind:
  assumes "step_keeps s x" and "\<And>t. files_in_range t \<Longrightarrow> files_in_range (f t)" and "\<And>t. layout (f t) = layout t"
  shows "step_keeps s (bindS x (\<lambda>_ t. (Inr (), f t)))"
  using assms by (cases x; cases "fst x") (auto simp: step_keeps_def)

lemma load_in_bounds: "fits_arrays s \<Longrightarrow> load_val f3 a s \<noteq> Inl OutOfBounds"
proof -
  have b: "bindE x (\<lambda>v. Inr (g v)) = Inl OutOfBounds \<longleftrightarrow> x = Inl OutOfBounds" for x :: "vm_stop + 'a" and g :: "'a \<Rightarrow> u32"
    by (cases x) simp_all
  show "fits_arrays s \<Longrightarrow> load_val f3 a s \<noteq> Inl OutOfBounds"
    by (simp add: load_val_def b reads_in_bounds)
qed

lemma groups_keep:
  assumes "rd d < 32" and "csr_id d < 4096"
  shows "step_keeps s (rv_op d s)" "step_keeps s (rv_op_imm d s)" "step_keeps s (rv_branch d s)" "step_keeps s (rv_load d s)"
    "step_keeps s (rv_store d s)" "step_keeps s (rv_system d s)"
proof -
  note r = assms(1) and c = assms(2)
  show "step_keeps s (rv_op d s)" using r by (auto simp: rv_op_def Let_def step_keeps_def split: option.splits)
  show "step_keeps s (rv_op_imm d s)" using r by (auto simp: rv_op_imm_def Let_def step_keeps_def)
  show "step_keeps s (rv_branch d s)" by (auto simp: rv_branch_def step_keeps_def split: option.splits)
  show "step_keeps s (rv_load d s)" using r load_in_bounds by (auto simp: rv_load_def step_keeps_def split: sum.splits)
  show "step_keeps s (rv_store d s)"
    unfolding rv_store_def Let_def
    by (rule step_keeps_bind) (auto intro!: shape_step simp: write_b_keeps_shape writes_keep_shape)
  have "layout t = layout s \<and> (files_in_range s \<longrightarrow> files_in_range t)" if "csr_access d s = Some (v, t)" for v t
    using that c by (auto simp: csr_access_def csrrw_def csrrs_def csrrc_def split: if_splits)
  then show "step_keeps s (rv_system d s)" using r by (auto simp: rv_system_def step_keeps_def split: option.splits)
qed

lemma rv_exec_keeps:
  assumes "rd d < 32" and "csr_id d < 4096"
  shows "step_keeps s (rv_exec d s)"
  unfolding rv_exec_def using assms(1)
  by (auto simp: groups_keep [OF assms] intro!: step_keeps_Inr range_set)

lemma step_keeps_step: "step_keeps s (rv_step s)"
proof (cases "mem_read_w (vpc s) s")
  case (Inl e)
  then show ?thesis using reads_in_bounds(1) [of s "vpc s"] by (cases e) (auto simp: rv_step_def step_keeps_def)
next
  case (Inr w)
  have "step_keeps s (rv_exec (rv_decode w) s)" by (rule rv_exec_keeps) (simp_all add: field_bounds)
  then show ?thesis unfolding step_fetched [OF Inr] by (rule step_keeps_bind) (auto intro!: range_set)
qed

lemma step_x0: "rv_step s = (Inr (), t) \<Longrightarrow> xr t 0 = 0"
  by (auto simp: rv_step_def set_x_def bindS_eq_Inr split: sum.splits)

end
