(* ===== verification/Vm_Map_Tree.thy ===== *)
theory Vm_Map_Tree
  imports Vm_Map
begin

text \<open>
  The trees that the nodes of \<open>c_map.c\<close> form.  \<open>mk u t\<close> are the nodes of the tree \<open>t\<close> hung below
  the node \<open>u\<close>; a place in a tree is a subtree with the frames of the nodes above it, innermost
  first, and \<open>hole fs p\<close> are the nodes of the frames when the subtree's root is \<open>p\<close>.
\<close>

datatype ctree = Lf | Nd nat ccolor ctree "u8 list" "u8 list" ctree

datatype frame = InL nat ccolor "u8 list" "u8 list" ctree | InR nat ccolor ctree "u8 list" "u8 list"

fun root :: "ctree \<Rightarrow> nat" where
  "root Lf = 0"
| "root (Nd a c l k v r) = a"

fun addrs :: "ctree \<Rightarrow> nat list" where
  "addrs Lf = []"
| "addrs (Nd a c l k v r) = addrs l @ a # addrs r"

definition mk_node :: "u8 list \<Rightarrow> u8 list \<Rightarrow> nat \<Rightarrow> nat \<Rightarrow> nat \<Rightarrow> ccolor \<Rightarrow> cnode" where
  "mk_node k v l r u c = \<lparr>c_key = Some k, c_data = Some v, c_left = l, c_right = r, c_up = u, c_color = c\<rparr>"

fun mk :: "nat \<Rightarrow> ctree \<Rightarrow> nat \<Rightarrow> cnode option" where
  "mk u Lf = Map.empty"
| "mk u (Nd a c l k v r) = (mk a l ++ mk a r)(a \<mapsto> mk_node k v (root l) (root r) u c)"

fun faddr :: "frame \<Rightarrow> nat" where
  "faddr (InL a c k v r) = a"
| "faddr (InR a c l k v) = a"

fun plug1 :: "frame \<Rightarrow> ctree \<Rightarrow> ctree" where
  "plug1 (InL a c k v r) t = Nd a c t k v r"
| "plug1 (InR a c l k v) t = Nd a c l k v t"

fun plug :: "frame list \<Rightarrow> ctree \<Rightarrow> ctree" where
  "plug [] t = t"
| "plug (f # fs) t = plug fs (plug1 f t)"

definition upp :: "frame list \<Rightarrow> nat" where
  "upp fs = (case fs of [] \<Rightarrow> 0 | f # _ \<Rightarrow> faddr f)"

fun faddrs :: "frame list \<Rightarrow> nat list" where
  "faddrs [] = []"
| "faddrs (InL a c k v r # fs) = a # addrs r @ faddrs fs"
| "faddrs (InR a c l k v # fs) = a # addrs l @ faddrs fs"

fun hole :: "frame list \<Rightarrow> nat \<Rightarrow> nat \<Rightarrow> cnode option" where
  "hole [] p = Map.empty"
| "hole (InL a c k v r # fs) p = (hole fs a ++ mk a r)(a \<mapsto> mk_node k v p (root r) (upp fs) c)"
| "hole (InR a c l k v # fs) p = (hole fs a ++ mk a l)(a \<mapsto> mk_node k v (root l) p (upp fs) c)"

lemma upp_simps [simp]: "upp [] = 0" "upp (f # fs) = faddr f"
  by (simp_all add: upp_def)

lemma mk_node_simps [simp]:
  "c_key (mk_node k v l r u c) = Some k" "c_data (mk_node k v l r u c) = Some v" "c_left (mk_node k v l r u c) = l"
  "c_right (mk_node k v l r u c) = r" "c_up (mk_node k v l r u c) = u" "c_color (mk_node k v l r u c) = c"
  "mk_node k v l r u c\<lparr>c_left := x\<rparr> = mk_node k v x r u c" "mk_node k v l r u c\<lparr>c_right := x\<rparr> = mk_node k v l x u c"
  "mk_node k v l r u c\<lparr>c_up := x\<rparr> = mk_node k v l r x c" "mk_node k v l r u c\<lparr>c_color := d\<rparr> = mk_node k v l r u d"
  by (simp_all add: mk_node_def)

lemma map_add_app: "(m ++ n) x = (case n x of None \<Rightarrow> m x | Some y \<Rightarrow> Some y)"
  by (simp add: map_add_def)

lemma mk_None_iff: "mk u t x = None \<longleftrightarrow> x \<notin> set (addrs t)"
  by (induction t arbitrary: u) (auto simp: map_add_app split: option.splits)

lemma mk_None [simp]: "x \<notin> set (addrs t) \<Longrightarrow> mk u t x = None"
  by (simp add: mk_None_iff)

lemma mk_SomeD: "mk u t x = Some y \<Longrightarrow> x \<in> set (addrs t)"
  using mk_None [of x t u] by fastforce

lemma hole_None_iff: "hole fs p x = None \<longleftrightarrow> x \<notin> set (faddrs fs)"
  by (induction fs p rule: hole.induct) (auto simp: map_add_app mk_None_iff split: option.splits dest: mk_SomeD)

lemma hole_None [simp]: "x \<notin> set (faddrs fs) \<Longrightarrow> hole fs p x = None"
  by (simp add: hole_None_iff)

lemma root_in: "t \<noteq> Lf \<Longrightarrow> root t \<in> set (addrs t)"
  by (cases t) auto

lemma upp_in: "fs \<noteq> [] \<Longrightarrow> upp fs \<in> set (faddrs fs)"
  by (cases fs rule: faddrs.cases) auto

text \<open>The nodes of a whole tree, seen from a place in it.\<close>

definition at_place :: "frame list \<Rightarrow> ctree \<Rightarrow> nat \<Rightarrow> cnode option" where
  "at_place fs t = hole fs (root t) ++ mk (upp fs) t"

definition sane :: "frame list \<Rightarrow> ctree \<Rightarrow> bool" where
  "sane fs t \<longleftrightarrow> distinct (faddrs fs @ addrs t) \<and> 0 \<notin> set (faddrs fs) \<and> 0 \<notin> set (addrs t)"

lemma sane_plug1: "sane fs (plug1 f t) \<longleftrightarrow> sane (f # fs) t"
  by (cases f) (auto simp: sane_def)

lemma at_place_plug1:
  assumes "sane (f # fs) t"
  shows "at_place (f # fs) t = at_place fs (plug1 f t)"
proof
  fix x
  show "at_place (f # fs) t x = at_place fs (plug1 f t) x"
    using assms by (cases f; cases "x \<in> set (addrs t)"; cases "x \<in> set (faddrs fs)")
      (auto simp: at_place_def map_add_app sane_def disjoint_iff split: option.splits dest: mk_SomeD)
qed

lemma plug_nodes:
  assumes "sane fs t"
  shows "at_place fs t = mk 0 (plug fs t) \<and> sane [] (plug fs t)"
  using assms
proof (induction fs arbitrary: t)
  case Nil
  then show ?case by (simp add: at_place_def)
next
  case (Cons f fs)
  have "sane fs (plug1 f t)" using Cons.prems by (simp add: sane_plug1)
  then show ?case using Cons at_place_plug1 [OF Cons.prems] by simp
qed

lemma sane_plug: "sane [] (plug fs t) \<longleftrightarrow> sane fs t"
  by (induction fs arbitrary: t) (simp_all add: sane_plug1)

lemma root_plug: "root (plug fs t) = (if fs = [] then root t else root (plug fs Lf))"
proof (induction fs arbitrary: t)
  case (Cons f fs)
  have "root (plug1 f t) = root (plug1 f Lf)" by (cases f) auto
  then show ?case using Cons [of "plug1 f t"] Cons [of "plug1 f Lf"] by auto
qed simp

lemma root_plug_frame:
  assumes "fs \<noteq> []" shows "root (plug fs t) \<in> set (faddrs fs)"
  using assms
proof (induction fs arbitrary: t)
  case (Cons f fs)
  show ?case
  proof (cases "fs = []")
    case True
    then show ?thesis by (cases f) auto
  next
    case False
    then have "root (plug fs (plug1 f t)) \<in> set (faddrs fs)" by (rule Cons.IH)
    then show ?thesis by (cases f) auto
  qed
qed simp

text \<open>\<open>s\<close> with the tree whose part at \<open>fs\<close> is \<open>t\<close>.\<close>

definition put :: "cmap \<Rightarrow> frame list \<Rightarrow> ctree \<Rightarrow> cmap" where
  "put s fs t = s\<lparr>nodes := at_place fs t, head := root (plug fs t)\<rparr>"

lemma put_simps [simp]:
  "nodes (put s fs t) = at_place fs t" "head (put s fs t) = root (plug fs t)" "put (put s fs t) gs u = put s gs u"
  "csize (put s fs t) = csize s" "it_least (put s fs t) = it_least s" "it_most (put s fs t) = it_most s"
  "key_size (put s fs t) = key_size s" "element_size (put s fs t) = element_size s"
  by (simp_all add: put_def)

lemma put_plug1: "sane (f # fs) t \<Longrightarrow> put s (f # fs) t = put s fs (plug1 f t)"
  by (simp add: put_def at_place_plug1)

lemma put_plug: "sane fs t \<Longrightarrow> put s fs t = put s [] (plug fs t)"
  using plug_nodes [of fs t] by (simp add: put_def at_place_def)

section \<open>Steps at a place\<close>

lemma set_node_Some: "nodes s p = Some n \<Longrightarrow> set_node p f s = Some (s\<lparr>nodes := (nodes s)(p \<mapsto> f n)\<rparr>)"
  by (simp add: set_node_def)

lemma mk_up: "mk u' t = (if t = Lf then Map.empty else (mk u t)(root t \<mapsto> (the (mk u t (root t)))\<lparr>c_up := u'\<rparr>))"
  by (cases t) (auto simp: fun_eq_iff)

lemma at_place_in:
  assumes "sane fs t" and "x \<in> set (addrs t)"
  shows "at_place fs t x = mk (upp fs) t x"
  using assms by (simp add: at_place_def map_add_app mk_None_iff split: option.splits)

lemma at_place_frame:
  assumes "sane fs t" and "x \<in> set (faddrs fs)"
  shows "at_place fs t x = hole fs (root t) x"
proof -
  have "x \<notin> set (addrs t)" using assms by (auto simp: sane_def)
  then show ?thesis by (simp add: at_place_def map_add_app)
qed

lemma hang_at:
  assumes "nodes s = hole fs p ++ M" and "dom M \<inter> set (faddrs fs) = {}" and "p \<noteq> 0" and "p \<notin> set (faddrs fs)" and "0 \<notin> set (faddrs fs)"
    and "distinct (faddrs fs)"
  shows "hang (upp fs) p q s = Some (s\<lparr>nodes := hole fs q ++ M\<rparr>)"
proof (cases fs rule: faddrs.cases)
  case 1
  then show ?thesis using assms(1) by (simp add: hang_def)
next
  case (2 a c k v r fs')
  have M: "M a = None" using assms(2) 2 by (auto simp: domIff)
  have r: "root r \<noteq> p" using assms(3,4) 2 root_in [of r] by (cases "r = Lf") auto
  have "hole fs q ++ M = (hole fs p ++ M)(a \<mapsto> mk_node k v q (root r) (upp fs') c)"
    using M by (auto simp: 2 fun_eq_iff map_add_app split: option.splits)
  moreover have "nodes s a = Some (mk_node k v p (root r) (upp fs') c)" using M by (simp add: assms(1) 2 map_add_app)
  moreover have "a \<noteq> 0" using assms(5) 2 by auto
  ultimately show ?thesis using assms(1) r by (simp add: hang_def 2 set_node_def)
next
  case (3 a c l k v fs')
  have M: "M a = None" using assms(2) 3 by (auto simp: domIff)
  have "hole fs q ++ M = (hole fs p ++ M)(a \<mapsto> mk_node k v (root l) q (upp fs') c)"
    using M by (auto simp: 3 fun_eq_iff map_add_app split: option.splits)
  moreover have "nodes s a = Some (mk_node k v (root l) p (upp fs') c)" using M by (simp add: assms(1) 3 map_add_app)
  moreover have "a \<noteq> 0" using assms(5) 3 by auto
  ultimately show ?thesis using assms(1) by (simp add: hang_def 3 set_node_def)
qed

definition reup :: "nat \<Rightarrow> ctree \<Rightarrow> (nat \<Rightarrow> cnode option) \<Rightarrow> nat \<Rightarrow> cnode option" where
  "reup a t M = (if t = Lf then M else M(root t \<mapsto> (the (M (root t)))\<lparr>c_up := a\<rparr>))"

lemma mk_root: "mk u t (root t) = None \<longleftrightarrow> t = Lf \<or> root t \<notin> set (addrs t)"
  using root_in [of t] by (auto simp: mk_None_iff)

lemma mk_reup: "mk u' t x = reup u' t (mk u t) x"
  using mk_up [of u' t u] by (simp add: reup_def)

lemma rotate_left_mk:
  assumes "sane fs (Nd a c A k v (Nd b d B m w C))"
  shows "mk u (Nd b d (Nd a c A k v B) m w C) =
    reup a B ((mk u (Nd a c A k v (Nd b d B m w C)))(b \<mapsto> mk_node m w a (root C) u d, a \<mapsto> mk_node k v (root A) (root B) b c))"
proof
  fix x
  have r: "B \<noteq> Lf \<Longrightarrow> root B \<in> set (addrs B)" by (rule root_in)
  show "mk u (Nd b d (Nd a c A k v B) m w C) x =
    reup a B ((mk u (Nd a c A k v (Nd b d B m w C)))(b \<mapsto> mk_node m w a (root C) u d, a \<mapsto> mk_node k v (root A) (root B) b c)) x"
    using assms r mk_reup [of a B x b]
    by (cases "B = Lf") (auto simp: sane_def disjoint_iff map_add_app reup_def mk_None_iff split: option.splits dest: mk_SomeD)
qed

lemma rotate_right_mk:
  assumes "sane fs (Nd a c (Nd b d A m w B) k v C)"
  shows "mk u (Nd b d A m w (Nd a c B k v C)) =
    reup a B ((mk u (Nd a c (Nd b d A m w B) k v C))(b \<mapsto> mk_node m w (root A) a u d, a \<mapsto> mk_node k v (root B) (root C) b c))"
proof
  fix x
  have r: "B \<noteq> Lf \<Longrightarrow> root B \<in> set (addrs B)" by (rule root_in)
  show "mk u (Nd b d A m w (Nd a c B k v C)) x =
    reup a B ((mk u (Nd a c (Nd b d A m w B) k v C))(b \<mapsto> mk_node m w (root A) a u d, a \<mapsto> mk_node k v (root B) (root C) b c)) x"
    using assms r mk_reup [of a B x b]
    by (cases "B = Lf") (auto simp: sane_def disjoint_iff map_add_app reup_def mk_None_iff split: option.splits dest: mk_SomeD)
qed

lemma rotate_left_at:
  assumes "sane fs (Nd a c A k v (Nd b d B m w C))"
  shows "c_map_rotate_left a (put s fs (Nd a c A k v (Nd b d B m w C))) = Some (b, put s fs (Nd b d (Nd a c A k v B) m w C))"
proof -
  let ?t = "Nd a c A k v (Nd b d B m w C)" and ?t' = "Nd b d (Nd a c A k v B) m w C"
  let ?s = "put s fs ?t" and ?u = "upp fs"
  let ?M = "(mk ?u ?t)(b \<mapsto> mk_node m w a (root C) ?u d, a \<mapsto> mk_node k v (root A) (root B) b c)"
  have ne: "a \<noteq> b" "a \<noteq> 0" "b \<noteq> 0" "a \<notin> set (faddrs fs)" "B \<noteq> Lf \<Longrightarrow> root B \<noteq> a" "B \<noteq> Lf \<Longrightarrow> root B \<noteq> b"
    "B \<noteq> Lf \<Longrightarrow> root B \<noteq> 0"
    using assms root_in [of B] by (auto simp: sane_def)
  have n: "nodes ?s a = Some (mk_node k v (root A) b ?u c)" "nodes ?s b = Some (mk_node m w (root B) (root C) a d)"
    using assms ne(1) by (simp_all add: at_place_in)
  have B0: "root B = 0 \<longleftrightarrow> B = Lf" using ne(7) by (cases B) auto
  have nB: "B \<noteq> Lf \<Longrightarrow> ?M (root B) = nodes ?s (root B) \<and> ?M (root B) \<noteq> None"
    using assms root_in [of B] ne(5,6) by (auto simp: at_place_in mk_None_iff)
  have h: "hang ?u a b (?s\<lparr>nodes := hole fs a ++ reup a B ?M\<rparr>) = Some (?s\<lparr>nodes := at_place fs ?t'\<rparr>)"
    unfolding rotate_left_mk [OF assms, symmetric]
    using hang_at [of "?s\<lparr>nodes := hole fs a ++ mk ?u ?t'\<rparr>" fs a "mk ?u ?t'" b] assms ne
    by (simp add: at_place_def sane_def set_eq_iff dom_def mk_None_iff del: mk.simps) blast
  have hd: "(if a = root (plug fs ?t) then b else root (plug fs ?t)) = root (plug fs ?t')"
    using root_plug_frame [of fs ?t] root_plug [of fs ?t] root_plug [of fs ?t'] ne(4) by auto
  let ?S = "?s\<lparr>nodes := (at_place fs ?t)(b \<mapsto> mk_node m w a (root C) ?u d, a \<mapsto> mk_node k v (root A) (root B) b c)\<rparr>"
  have S: "nodes ?S = hole fs a ++ ?M" by (simp add: at_place_def)
  have s1: "(if 0 < root B then set_node (root B) (\<lambda>x. x\<lparr>c_up := a\<rparr>) ?S else Some ?S) = Some (?s\<lparr>nodes := hole fs a ++ reup a B ?M\<rparr>)"
  proof (cases "B = Lf")
    case True
    then show ?thesis by (simp add: reup_def at_place_def)
  next
    case False
    then obtain y where y: "?M (root B) = Some y" using nB by (metis option.exhaust)
    then have "nodes ?S (root B) = Some y" unfolding S by (simp only: map_add_app option.case)
    from set_node_Some [OF this] show ?thesis using False B0 y unfolding S by (simp add: reup_def del: mk.simps)
  qed
  have fin: "(if a = root (plug fs ?t) then ?s\<lparr>nodes := at_place fs ?t'\<rparr>\<lparr>head := b\<rparr> else ?s\<lparr>nodes := at_place fs ?t'\<rparr>) = put s fs ?t'"
    using hd by (simp add: put_def split: if_splits)
  show ?thesis
    using n ne(1)
    by (simp add: c_map_rotate_left_def set_node_Some Let_def s1 h fin del: mk.simps split del: if_split cong: if_cong)
qed

lemma rotate_right_at:
  assumes "sane fs (Nd a c (Nd b d A m w B) k v C)"
  shows "c_map_rotate_right a (put s fs (Nd a c (Nd b d A m w B) k v C)) = Some (b, put s fs (Nd b d A m w (Nd a c B k v C)))"
proof -
  let ?t = "Nd a c (Nd b d A m w B) k v C" and ?t' = "Nd b d A m w (Nd a c B k v C)"
  let ?s = "put s fs ?t" and ?u = "upp fs"
  let ?M = "(mk ?u ?t)(b \<mapsto> mk_node m w (root A) a ?u d, a \<mapsto> mk_node k v (root B) (root C) b c)"
  have ne: "a \<noteq> b" "a \<noteq> 0" "b \<noteq> 0" "a \<notin> set (faddrs fs)" "B \<noteq> Lf \<Longrightarrow> root B \<noteq> a" "B \<noteq> Lf \<Longrightarrow> root B \<noteq> b"
    "B \<noteq> Lf \<Longrightarrow> root B \<noteq> 0"
    using assms root_in [of B] by (auto simp: sane_def)
  have n: "nodes ?s a = Some (mk_node k v b (root C) ?u c)" "nodes ?s b = Some (mk_node m w (root A) (root B) a d)"
    
    unfolding put_simps by (subst at_place_in [OF assms]; use assms ne(1) in \<open>simp add: map_add_app sane_def\<close>)+
  have B0: "root B = 0 \<longleftrightarrow> B = Lf" using ne(7) by (cases B) auto
  have nB: "B \<noteq> Lf \<Longrightarrow> ?M (root B) = nodes ?s (root B) \<and> ?M (root B) \<noteq> None"
    using assms root_in [of B] ne(5,6) by (auto simp: at_place_in mk_None_iff)
  have h: "hang ?u a b (?s\<lparr>nodes := hole fs a ++ reup a B ?M\<rparr>) = Some (?s\<lparr>nodes := at_place fs ?t'\<rparr>)"
    unfolding rotate_right_mk [OF assms, symmetric]
    using hang_at [of "?s\<lparr>nodes := hole fs a ++ mk ?u ?t'\<rparr>" fs a "mk ?u ?t'" b] assms ne
    by (simp add: at_place_def sane_def set_eq_iff dom_def mk_None_iff del: mk.simps) blast
  have hd: "(if a = root (plug fs ?t) then b else root (plug fs ?t)) = root (plug fs ?t')"
    using root_plug_frame [of fs ?t] root_plug [of fs ?t] root_plug [of fs ?t'] ne(4) by auto
  let ?S = "?s\<lparr>nodes := (at_place fs ?t)(b \<mapsto> mk_node m w (root A) a ?u d, a \<mapsto> mk_node k v (root B) (root C) b c)\<rparr>"
  have S: "nodes ?S = hole fs a ++ ?M" by (simp add: at_place_def)
  have s1: "(if 0 < root B then set_node (root B) (\<lambda>x. x\<lparr>c_up := a\<rparr>) ?S else Some ?S) = Some (?s\<lparr>nodes := hole fs a ++ reup a B ?M\<rparr>)"
  proof (cases "B = Lf")
    case True
    then show ?thesis by (simp add: reup_def at_place_def)
  next
    case False
    then obtain y where y: "?M (root B) = Some y" using nB by (metis option.exhaust)
    then have "nodes ?S (root B) = Some y" unfolding S by (simp only: map_add_app option.case)
    from set_node_Some [OF this] show ?thesis using False B0 y unfolding S by (simp add: reup_def del: mk.simps)
  qed
  have fin: "(if a = root (plug fs ?t) then ?s\<lparr>nodes := at_place fs ?t'\<rparr>\<lparr>head := b\<rparr> else ?s\<lparr>nodes := at_place fs ?t'\<rparr>) = put s fs ?t'"
    using hd by (simp add: put_def split: if_splits)
  show ?thesis
    using n ne(1)
    by (simp add: c_map_rotate_right_def set_node_Some Let_def s1 h fin del: mk.simps split del: if_split cong: if_cong)
qed

section \<open>Colours\<close>

fun recolor :: "ccolor \<Rightarrow> ctree \<Rightarrow> ctree" where
  "recolor c Lf = Lf"
| "recolor c (Nd a d l k v r) = Nd a c l k v r"

fun color :: "ctree \<Rightarrow> ccolor" where
  "color Lf = C_MAP_BLACK"
| "color (Nd a c l k v r) = c"

fun fcol :: "frame \<Rightarrow> ccolor" where
  "fcol (InL a c k v r) = c"
| "fcol (InR a c l k v) = c"

fun fpaint :: "ccolor \<Rightarrow> frame \<Rightarrow> frame" where
  "fpaint d (InL a c k v r) = InL a d k v r"
| "fpaint d (InR a c l k v) = InR a d l k v"

fun sib :: "frame \<Rightarrow> ctree" where
  "sib (InL a c k v r) = r"
| "sib (InR a c l k v) = l"

fun sib_paint :: "ccolor \<Rightarrow> frame \<Rightarrow> frame" where
  "sib_paint d (InL a c k v r) = InL a c k v (recolor d r)"
| "sib_paint d (InR a c l k v) = InR a c (recolor d l) k v"

lemma addrs_recolor [simp]: "addrs (recolor c t) = addrs t" "root (recolor c t) = root t"
  by (cases t; simp)+

lemma faddr_paint [simp]: "faddr (fpaint c f) = faddr f" "faddr (sib_paint c f) = faddr f"
  by (cases f; simp)+

lemma mk_recolor:
  "t \<noteq> Lf \<Longrightarrow> mk u (recolor c t) = (mk u t)(root t \<mapsto> (the (mk u t (root t)))\<lparr>c_color := c\<rparr>)"
  by (cases t) auto

lemma sane_recolor [simp]: "sane fs (recolor c t) = sane fs t"
  by (simp add: sane_def)

lemma plug_recolor_root: "root (plug fs (recolor c t)) = root (plug fs t)"
  using root_plug [of fs t] root_plug [of fs "recolor c t"] by simp

lemma paint_at:
  assumes "sane fs t" and "t \<noteq> Lf"
  shows "paint c (root t) (put s fs t) = Some (put s fs (recolor c t))"
proof -
  have i: "root t \<in> set (addrs t)" by (rule root_in [OF assms(2)])
  then obtain n where n: "mk (upp fs) t (root t) = Some n" by (cases "mk (upp fs) t (root t)") (auto simp: mk_None_iff)
  have "nodes (put s fs t) (root t) = Some n" using at_place_in [OF assms(1) i] n by simp
  then have "paint c (root t) (put s fs t) = Some ((put s fs t)\<lparr>nodes := (at_place fs t)(root t \<mapsto> n\<lparr>c_color := c\<rparr>)\<rparr>)"
    by (simp add: paint_def set_node_Some)
  also have "(at_place fs t)(root t \<mapsto> n\<lparr>c_color := c\<rparr>) = at_place fs (recolor c t)"
    by (simp add: at_place_def mk_recolor [OF assms(2)] n)
  finally show ?thesis by (simp add: put_def plug_recolor_root)
qed

text \<open>The same at a child and at a grandchild of the place, whose frames are \<open>f\<close> and \<open>g\<close>.\<close>

lemma paint_in:
  assumes "sane fs (plug1 f t)" and "t \<noteq> Lf"
  shows "paint c (root t) (put s fs (plug1 f t)) = Some (put s fs (plug1 f (recolor c t)))"
  using paint_at [of "f # fs" t c s] assms by (simp add: sane_plug1 put_plug1)

lemma paint_in2:
  assumes "sane fs (plug1 g (plug1 f t))" and "t \<noteq> Lf"
  shows "paint c (root t) (put s fs (plug1 g (plug1 f t))) = Some (put s fs (plug1 g (plug1 f (recolor c t))))"
  using paint_in [of "g # fs" f t c s] assms by (simp add: sane_plug1 [of fs g] put_plug1 sane_plug1 [of "g # fs" f])

section \<open>The repair as a function of trees\<close>

fun rotated :: "frame \<Rightarrow> frame \<Rightarrow> ctree \<Rightarrow> ctree" where
  "rotated (InL g gc gk gv U) (InL p pc pk pv S) N = Nd p gc N pk pv (Nd g pc S gk gv U)"
| "rotated (InL g gc gk gv U) (InR p pc S pk pv) (Nd n nc L k v R) = Nd n gc (Nd p pc S pk pv L) k v (Nd g nc R gk gv U)"
| "rotated (InR g gc U gk gv) (InL p pc pk pv S) (Nd n nc L k v R) = Nd n gc (Nd g nc U gk gv L) k v (Nd p pc R pk pv S)"
| "rotated (InR g gc U gk gv) (InR p pc S pk pv) N = Nd p gc (Nd g pc U gk gv S) pk pv N"
| "rotated g f t = plug1 g (plug1 f t)"

fun fix_at :: "ctree \<Rightarrow> frame list \<Rightarrow> ctree" where
  "fix_at t [] = recolor C_MAP_BLACK t"
| "fix_at t [f] = plug1 f t"
| "fix_at t (f # g # fs) =
     (if fcol f = C_MAP_BLACK then plug (f # g # fs) t
      else if color (sib g) = C_MAP_RED then
        fix_at (plug1 (fpaint C_MAP_RED (sib_paint C_MAP_BLACK g)) (plug1 (fpaint C_MAP_BLACK f) t)) fs
      else if color (sib g) = C_MAP_BLACK then plug fs (rotated g f t)
      else plug (f # g # fs) t)"

lemma addrs_rotated: "addrs (rotated g f t) = addrs (plug1 g (plug1 f t))"
  by (cases "(g, f, t)" rule: rotated.cases) auto

lemma sane_rotated: "sane fs (rotated g f t) = sane fs (plug1 g (plug1 f t))"
  by (simp add: sane_def addrs_rotated)

lemma l_l_at:
  assumes "sane fs (plug1 (InL g gc gk gv U) (plug1 (InL p pc pk pv S) N))"
  shows "c_map_l_l g (put s fs (plug1 (InL g gc gk gv U) (plug1 (InL p pc pk pv S) N))) =
    Some (put s fs (rotated (InL g gc gk gv U) (InL p pc pk pv S) N))"
proof -
  let ?t = "Nd p pc N pk pv (Nd g gc S gk gv U)"
  have a: "sane fs (Nd g gc (Nd p pc N pk pv S) gk gv U)" using assms by simp
  have t: "sane fs ?t" using a by (auto simp: sane_def)
  have n: "at_place fs ?t p = Some (mk_node pk pv (root N) g (upp fs) pc)" "at_place fs ?t g = Some (mk_node gk gv (root S) (root U) p gc)"
    using t by (simp_all add: at_place_in) (auto simp: sane_def map_add_app)
  have t2: "sane fs (Nd p gc N pk pv (Nd g gc S gk gv U))" using t by (simp add: sane_def)
  have p1: "set_node p (\<lambda>x. x\<lparr>c_color := gc\<rparr>) (put s fs ?t) = Some (put s fs (Nd p gc N pk pv (Nd g gc S gk gv U)))"
    using paint_at [OF t, of gc s] by (simp add: paint_def)
  have p2: "set_node g (\<lambda>x. x\<lparr>c_color := pc\<rparr>) (put s fs (Nd p gc N pk pv (Nd g gc S gk gv U))) =
      Some (put s fs (Nd p gc N pk pv (Nd g pc S gk gv U)))"
    using paint_in [of fs "InR p gc N pk pv" "Nd g gc S gk gv U" pc s] t2 by (simp add: paint_def)
  show ?thesis using rotate_right_at [OF a, of s] n p1 p2 by (simp add: c_map_l_l_def)
qed

lemma r_r_at:
  assumes "sane fs (plug1 (InR g gc U gk gv) (plug1 (InR p pc S pk pv) N))"
  shows "c_map_r_r g (put s fs (plug1 (InR g gc U gk gv) (plug1 (InR p pc S pk pv) N))) =
    Some (put s fs (rotated (InR g gc U gk gv) (InR p pc S pk pv) N))"
proof -
  let ?t = "Nd p pc (Nd g gc U gk gv S) pk pv N"
  have a: "sane fs (Nd g gc U gk gv (Nd p pc S pk pv N))" using assms by simp
  have t: "sane fs ?t" using a by (auto simp: sane_def)
  have n: "at_place fs ?t p = Some (mk_node pk pv g (root N) (upp fs) pc)" "at_place fs ?t g = Some (mk_node gk gv (root U) (root S) p gc)"
    using t by (simp_all add: at_place_in) (auto simp: sane_def map_add_app)
  have t2: "sane fs (Nd p gc (Nd g gc U gk gv S) pk pv N)" using t by (simp add: sane_def)
  have p1: "set_node p (\<lambda>x. x\<lparr>c_color := gc\<rparr>) (put s fs ?t) = Some (put s fs (Nd p gc (Nd g gc U gk gv S) pk pv N))"
    using paint_at [OF t, of gc s] by (simp add: paint_def)
  have p2: "set_node g (\<lambda>x. x\<lparr>c_color := pc\<rparr>) (put s fs (Nd p gc (Nd g gc U gk gv S) pk pv N)) =
      Some (put s fs (Nd p gc (Nd g pc U gk gv S) pk pv N))"
    using paint_in [of fs "InL p gc pk pv N" "Nd g gc U gk gv S" pc s] t2 by (simp add: paint_def)
  show ?thesis using rotate_left_at [OF a, of s] n p1 p2 by (simp add: c_map_r_r_def)
qed

lemma l_r_at:
  assumes "sane fs (plug1 (InL g gc gk gv U) (plug1 (InR p pc S pk pv) (Nd n nc L k v R)))"
  shows "c_map_l_r p (put s fs (plug1 (InL g gc gk gv U) (plug1 (InR p pc S pk pv) (Nd n nc L k v R)))) =
    Some (put s fs (rotated (InL g gc gk gv U) (InR p pc S pk pv) (Nd n nc L k v R)))"
proof -
  let ?G = "InL g gc gk gv U" and ?t = "Nd n nc (Nd p pc S pk pv L) k v R"
  have a: "sane (?G # fs) (Nd p pc S pk pv (Nd n nc L k v R))" using assms by (simp flip: sane_plug1)
  have t: "sane (?G # fs) ?t" using a by (auto simp: sane_def)
  then have t': "sane fs (plug1 ?G (plug1 (InL n nc k v R) (Nd p pc S pk pv L)))" using sane_plug1 [of fs ?G] by simp
  have n: "at_place fs (Nd g gc ?t gk gv U) n = Some (mk_node k v p (root R) g nc)" "at_place fs (Nd g gc ?t gk gv U) g \<noteq> None"
    using t' by (simp_all add: at_place_in) (auto simp: sane_def map_add_app)
  have r: "c_map_rotate_left p (put s fs (Nd g gc (Nd p pc S pk pv (Nd n nc L k v R)) gk gv U)) = Some (n, put s fs (Nd g gc ?t gk gv U))"
    using rotate_left_at [OF a, of s] put_plug1 [OF a, of s] put_plug1 [OF t, of s] by simp
  have ll: "c_map_l_l g (put s fs (Nd g gc ?t gk gv U)) = Some (put s fs (rotated ?G (InL n nc k v R) (Nd p pc S pk pv L)))"
    using l_l_at [OF t', of s] by simp
  show ?thesis using r n ll by (auto simp: c_map_l_r_def)
qed

lemma r_l_at:
  assumes "sane fs (plug1 (InR g gc U gk gv) (plug1 (InL p pc pk pv S) (Nd n nc L k v R)))"
  shows "c_map_r_l p (put s fs (plug1 (InR g gc U gk gv) (plug1 (InL p pc pk pv S) (Nd n nc L k v R)))) =
    Some (put s fs (rotated (InR g gc U gk gv) (InL p pc pk pv S) (Nd n nc L k v R)))"
proof -
  let ?G = "InR g gc U gk gv" and ?t = "Nd n nc L k v (Nd p pc R pk pv S)"
  have a: "sane (?G # fs) (Nd p pc (Nd n nc L k v R) pk pv S)" using assms by (simp flip: sane_plug1)
  have t: "sane (?G # fs) ?t" using a by (auto simp: sane_def)
  then have t': "sane fs (plug1 ?G (plug1 (InR n nc L k v) (Nd p pc R pk pv S)))" using sane_plug1 [of fs ?G] by simp
  have n: "at_place fs (Nd g gc U gk gv ?t) n = Some (mk_node k v (root L) p g nc)" "at_place fs (Nd g gc U gk gv ?t) g \<noteq> None"
    using t' by (simp_all add: at_place_in) (auto simp: sane_def map_add_app)
  have r: "c_map_rotate_right p (put s fs (Nd g gc U gk gv (Nd p pc (Nd n nc L k v R) pk pv S))) = Some (n, put s fs (Nd g gc U gk gv ?t))"
    using rotate_right_at [OF a, of s] put_plug1 [OF a, of s] put_plug1 [OF t, of s] by simp
  have rr: "c_map_r_r g (put s fs (Nd g gc U gk gv ?t)) = Some (put s fs (rotated ?G (InR n nc L k v) (Nd p pc R pk pv S)))"
    using r_r_at [OF t', of s] by simp
  show ?thesis using r n rr by (auto simp: c_map_r_l_def)
qed

text \<open>The nodes that the repair looks at.\<close>

lemma mk_at_root: "t \<noteq> Lf \<Longrightarrow> \<exists>n. mk u t (root t) = Some n \<and> c_up n = u \<and> c_color n = color t"
  by (cases t) auto

definition below :: "frame \<Rightarrow> nat \<Rightarrow> cnode \<Rightarrow> bool" where
  "below f x n \<longleftrightarrow> (case f of InL _ _ _ _ _ \<Rightarrow> c_left n = x \<and> c_right n = root (sib f) | InR _ _ _ _ _ \<Rightarrow> c_left n = root (sib f) \<and> c_right n = x)"

lemma at_frame:
  assumes "sane fs (plug1 f t)"
  shows "\<exists>n. at_place fs (plug1 f t) (faddr f) = Some n \<and> c_up n = upp fs \<and> c_color n = fcol f \<and> below f (root t) n"
  using assms by (cases f) (simp_all add: at_place_in below_def)

lemma at_sub:
  assumes "sane fs (plug1 f t)" and "t \<noteq> Lf"
  shows "\<exists>n. at_place fs (plug1 f t) (root t) = Some n \<and> c_up n = faddr f \<and> c_color n = color t"
proof -
  have s: "sane (f # fs) t" using assms(1) by (simp add: sane_plug1)
  show ?thesis
    unfolding at_place_plug1 [OF s, symmetric] at_place_in [OF s root_in [OF assms(2)]] using mk_at_root [OF assms(2)] by simp
qed

lemma at_sib:
  assumes "sane fs (plug1 f t)" and "sib f \<noteq> Lf"
  shows "\<exists>n. at_place fs (plug1 f t) (root (sib f)) = Some n \<and> c_color n = color (sib f)"
proof (cases f)
  case (InL a c k v r)
  then show ?thesis using at_sub [of fs "InR a c t k v" r] assms by auto
next
  case (InR a c l k v)
  then show ?thesis using at_sub [of fs "InL a c k v t" l] assms by auto
qed

lemma color_of_sib:
  assumes "sane fs (plug1 f t)"
  shows "(if root (sib f) = 0 then Some C_MAP_BLACK else color_of (root (sib f)) (put s fs (plug1 f t))) = Some (color (sib f))"
proof (cases "sib f = Lf")
  case False
  then have "root (sib f) \<noteq> 0" using assms root_in [OF False] by (cases f) (auto simp: sane_def)
  then show ?thesis using at_sib [OF assms False] by (auto simp: color_of_def)
qed simp

lemma paint_sib:
  assumes "sane fs (plug1 f t)" and "sib f \<noteq> Lf"
  shows "paint c (root (sib f)) (put s fs (plug1 f t)) = Some (put s fs (plug1 (sib_paint c f) t))"
proof (cases f)
  case (InL a d k v r)
  then show ?thesis using paint_in [of fs "InR a d t k v" r c s] assms by simp
next
  case (InR a d l k v)
  then show ?thesis using paint_in [of fs "InL a d k v t" l c s] assms by simp
qed

lemma root_plug1 [simp]: "root (plug1 f t) = faddr f" "plug1 f t \<noteq> Lf" "recolor c (plug1 f t) = plug1 (fpaint c f) t"
  "fcol (fpaint c f) = c" "fcol (sib_paint c f) = fcol f" "color (plug1 f t) = fcol f"
  by (cases f; simp)+

lemma faddrs_Cons: "faddrs (f # fs) = faddr f # addrs (sib f) @ faddrs fs"
  by (cases f) auto

lemma sib_apart:
  assumes "sane (f # fs) t" and "x \<in> set (addrs t)"
  shows "root (sib f) \<noteq> x"
  using assms root_in [of "sib f"] unfolding sane_def faddrs_Cons by (cases "sib f = Lf") auto

lemma head_above:
  assumes "sane (f # fs) t"
  shows "root (plug fs (plug1 f t)) \<notin> set (addrs t)"
proof -
  have "root (plug fs (plug1 f t)) \<in> set (faddrs (f # fs))"
    using root_plug_frame [of "f # fs" t] by simp
  then show ?thesis using assms by (auto simp: sane_def)
qed

lemma fix_black_at:
  assumes "sane fs (plug1 g (plug1 f t))" and "t \<noteq> Lf"
    and "at_place fs (plug1 g (plug1 f t)) (faddr f) = Some p" and "below f (root t) p"
    and "at_place fs (plug1 g (plug1 f t)) (faddr g) = Some q" and "below g (faddr f) q"
  shows "(if faddr f = c_left q \<and> root t = c_left p then c_map_l_l (faddr g) (put s fs (plug1 g (plug1 f t)))
      else if faddr f = c_left q \<and> root t = c_right p then c_map_l_r (faddr f) (put s fs (plug1 g (plug1 f t)))
      else if faddr f = c_right q \<and> root t = c_left p then c_map_r_l (faddr f) (put s fs (plug1 g (plug1 f t)))
      else if faddr f = c_right q \<and> root t = c_right p then c_map_r_r (faddr g) (put s fs (plug1 g (plug1 f t)))
      else Some (put s fs (plug1 g (plug1 f t)))) = Some (put s fs (rotated g f t))"
proof -
  obtain n nc L k v R where t: "t = Nd n nc L k v R" using assms(2) by (cases t) auto
  have ne: "root (sib f) \<noteq> root t" "root (sib g) \<noteq> faddr f"
    using sib_apart [of f "g # fs" t "root t"] sib_apart [of g fs "plug1 f t" "faddr f"] assms(1) root_in [OF assms(2)]
      root_in [of "plug1 f t"] by (simp_all add: sane_plug1)
  show ?thesis
  proof (cases g)
    case (InL ga gc gk gv U)
    show ?thesis
    proof (cases f)
      case [simp]: (InL pa pc pk pv S)
      show ?thesis using assms ne l_l_at [of fs ga gc gk gv U pa pc pk pv S t s] InL \<open>g = _\<close> by (simp add: below_def)
    next
      case [simp]: (InR pa pc S pk pv)
      show ?thesis using assms ne l_r_at [of fs ga gc gk gv U pa pc S pk pv n nc L k v R s] \<open>g = _\<close> t by (simp add: below_def)
    qed
  next
    case (InR ga gc U gk gv)
    show ?thesis
    proof (cases f)
      case [simp]: (InL pa pc pk pv S)
      show ?thesis using assms ne r_l_at [of fs ga gc U gk gv pa pc pk pv S n nc L k v R s] InR t by (simp add: below_def)
    next
      case [simp]: (InR pa pc S pk pv)
      show ?thesis using assms ne r_r_at [of fs ga gc U gk gv pa pc S pk pv t s] \<open>g = _\<close> by (simp add: below_def)
    qed
  qed
qed

lemma fix_colors_at:
  assumes "sane fs t" and "t \<noteq> Lf"
  shows "c_map_fix_colors (root t) (put s fs t) = Some (put s [] (fix_at t fs))"
  using assms
proof (induction t fs arbitrary: s rule: fix_at.induct)
  case (1 t)
  then show ?case using paint_at [OF 1] by (subst c_map_fix_colors.simps) simp
next
  case (2 t f)
  have s: "sane [] (plug1 f t)" using "2.prems" by (simp add: sane_plug1)
  have p: "put s [f] t = put s [] (plug1 f t)" by (rule put_plug1 [OF "2.prems"(1)])
  have ne: "root t \<noteq> faddr f" using "2.prems" root_in [of t] by (cases f) (auto simp: sane_def)
  have r: "root (plug1 f t) = faddr f" by (cases f) auto
  show ?case
    unfolding p using at_sub [OF s "2.prems"(2)] at_frame [OF s] ne r
    by (subst c_map_fix_colors.simps) (auto simp: Let_def)
next
  case (3 t f g fs)
  have s1: "sane (g # fs) (plug1 f t)" using "3.prems" by (simp add: sane_plug1)
  then have s: "sane fs (plug1 g (plug1 f t))" by (simp add: sane_plug1)
  have p: "put s (f # g # fs) t = put s fs (plug1 g (plug1 f t))"
    using put_plug1 [OF "3.prems"(1)] put_plug1 [OF s1] by simp
  let ?W = "plug1 g (plug1 f t)"
  have pl: "put s [] (plug (f # g # fs) t) = put s fs ?W" using put_plug [OF s, of s] by simp
  have h: "root t \<noteq> root (plug fs ?W)" "faddr f \<noteq> root (plug fs ?W)"
    using head_above [OF s1] root_in [OF "3.prems"(2)] root_in [of "plug1 f t"] by (cases f; auto)+
  obtain n where n: "at_place fs ?W (root t) = Some n" "c_up n = faddr f"
    using at_sub [OF s1 "3.prems"(2)] at_place_plug1 [OF s1] by auto
  obtain p where p': "at_place fs ?W (faddr f) = Some p" "c_up p = faddr g" "c_color p = fcol f" "below f (root t) p"
    using at_frame [OF s1] at_place_plug1 [OF s1] by auto
  obtain q where q: "at_place fs ?W (faddr g) = Some q" "below g (faddr f) q"
    using at_frame [OF s] by auto
  have g0: "faddr g \<noteq> 0" using s by (cases g) (auto simp: sane_def)
  have su: "root (sib g) \<noteq> faddr f" using sib_apart [OF s1, of "faddr f"] root_in [of "plug1 f t"] by simp
  have u: "(if c_left q = faddr f then c_right q else c_left q) = root (sib g)"
    using q(2) su by (auto simp: below_def split: frame.splits)
  note uc = color_of_sib [OF s, of s]
  show ?case
  proof (cases "fcol f = C_MAP_BLACK")
    case True
    then show ?thesis
      unfolding p using h n p' pl by (subst c_map_fix_colors.simps) (simp add: Let_def)
  next
    case nb: False
    show ?thesis
    proof (cases "color (sib g) = C_MAP_RED")
      case True
      then have sg: "sib g \<noteq> Lf" by auto
      let ?g = "sib_paint C_MAP_BLACK g" and ?f = "fpaint C_MAP_BLACK f"
      have s2: "sane fs (plug1 ?g (plug1 f t))" using s by (cases g) (auto simp: sane_def)
      have s3: "sane fs (plug1 ?g (plug1 ?f t))" using s2 by (cases f; cases g) (auto simp: sane_def)
      have s4: "sane fs (plug1 (fpaint C_MAP_RED ?g) (plug1 ?f t))" using s3 by (cases g) (auto simp: sane_def)
      have c1: "paint C_MAP_BLACK (root (sib g)) (put s fs ?W) = Some (put s fs (plug1 ?g (plug1 f t)))"
        by (rule paint_sib [OF s sg])
      have c2: "paint C_MAP_BLACK (faddr f) (put s fs (plug1 ?g (plug1 f t))) = Some (put s fs (plug1 ?g (plug1 ?f t)))"
        using paint_in [OF s2, of C_MAP_BLACK s] by simp
      have c3: "paint C_MAP_RED (faddr g) (put s fs (plug1 ?g (plug1 ?f t))) = Some (put s fs (plug1 (fpaint C_MAP_RED ?g) (plug1 ?f t)))"
        using paint_at [OF s3, of C_MAP_RED s] by simp
      have ih: "c_map_fix_colors (faddr g) (put s fs (plug1 (fpaint C_MAP_RED ?g) (plug1 ?f t))) =
          Some (put s [] (fix_at (plug1 (fpaint C_MAP_RED ?g) (plug1 ?f t)) fs))"
        using "3.IH" [OF nb True s4, of s] by simp
      show ?thesis
        unfolding p using True nb h n p' q(1) g0
        by (subst c_map_fix_colors.simps) (simp add: Let_def u uc c1 c2 c3 ih split del: if_split cong: if_cong)
    next
      case nr: False
      note r = fix_black_at [OF s "3.prems"(2) p'(1,4) q, of s]
      show ?thesis
      proof (cases "color (sib g) = C_MAP_BLACK")
        case True
        have "sane fs (rotated g f t)" using s by (simp add: sane_rotated)
        then show ?thesis
          unfolding p using True nb h n p' q(1) g0 put_plug [of fs "rotated g f t" s] r
          by (subst c_map_fix_colors.simps) (simp add: Let_def u uc split del: if_split cong: if_cong)
      next
        case False
        then show ?thesis
          unfolding p using nr nb h n p' q(1) g0 pl
          by (subst c_map_fix_colors.simps) (simp add: Let_def u uc split del: if_split cong: if_cong)
      qed
    qed
  qed
qed

end
