(* ===== verification/Vm_Map_Insert.thy ===== *)
theory Vm_Map_Insert
  imports Vm_Map_Tree
begin

text \<open>
  Insertion and search of \<open>c_map.c\<close> as functions of trees, the order of the keys and the
  invariants of red-black trees.
\<close>

section \<open>Descent\<close>

fun down :: "(u8 list \<Rightarrow> u8 list \<Rightarrow> int) \<Rightarrow> u8 list \<Rightarrow> ctree \<Rightarrow> frame list \<Rightarrow> frame list option" where
  "down cmp k Lf fs = Some fs"
| "down cmp k (Nd a c l key v r) fs =
     (if cmp k key = 0 then None
      else if cmp k key < 0 then down cmp k l (InL a c key v r # fs)
      else down cmp k r (InR a c l key v # fs))"

lemma plug_down: "down cmp k t fs = Some gs \<Longrightarrow> plug gs Lf = plug fs t"
  by (induction t arbitrary: fs) (auto split: if_splits)

lemma sane_down: "down cmp k t fs = Some gs \<Longrightarrow> sane gs Lf = sane fs t"
  using plug_down [of cmp k t fs gs] sane_plug [of gs Lf] sane_plug [of fs t] by simp

text \<open>\<open>s\<close> with the new node \<open>a\<close> beside the tree.\<close>

definition beside :: "nat \<Rightarrow> cnode \<Rightarrow> cmap \<Rightarrow> cmap" where
  "beside a n s = s\<lparr>nodes := (nodes s)(a \<mapsto> n)\<rparr>"

abbreviation new_node :: "u8 list \<Rightarrow> u8 list \<Rightarrow> cnode" where
  "new_node k v \<equiv> mk_node k v 0 0 0 C_MAP_RED"

lemma beside_simps [simp]:
  "nodes (beside a n s) = (nodes s)(a \<mapsto> n)" "head (beside a n s) = head s"
  by (simp_all add: beside_def)

lemma hang_left:
  assumes "sane fs (Nd b c Lf m w r)" and "a \<noteq> b"
  shows "Option.bind (set_node b (\<lambda>x. x\<lparr>c_left := a\<rparr>) (beside a (new_node k v) (put s fs (Nd b c Lf m w r)))) (set_node a (\<lambda>x. x\<lparr>c_up := b\<rparr>)) =
    Some (put s (InL b c m w r # fs) (Nd a C_MAP_RED Lf k v Lf))"
proof -
  have n: "at_place fs (Nd b c Lf m w r) b = Some (mk_node m w 0 (root r) (upp fs) c)"
    using assms by (simp add: at_place_in)
  have h: "root (plug fs (Nd b c Lf m w r)) = root (plug fs (Nd b c (Nd a C_MAP_RED Lf k v Lf) m w r))"
    using root_plug [of fs "Nd b c Lf m w r"] root_plug [of fs "Nd b c (Nd a C_MAP_RED Lf k v Lf) m w r"] by simp
  show ?thesis
    using n assms(2) h by (simp add: set_node_Some) (simp add: put_def at_place_def beside_def fun_upd_twist)
qed

lemma hang_right:
  assumes "sane fs (Nd b c l m w Lf)" and "a \<noteq> b"
  shows "Option.bind (set_node b (\<lambda>x. x\<lparr>c_right := a\<rparr>) (beside a (new_node k v) (put s fs (Nd b c l m w Lf)))) (set_node a (\<lambda>x. x\<lparr>c_up := b\<rparr>)) =
    Some (put s (InR b c l m w # fs) (Nd a C_MAP_RED Lf k v Lf))"
proof -
  have n: "at_place fs (Nd b c l m w Lf) b = Some (mk_node m w (root l) 0 (upp fs) c)"
    using assms by (simp add: at_place_in)
  have h: "root (plug fs (Nd b c l m w Lf)) = root (plug fs (Nd b c l m w (Nd a C_MAP_RED Lf k v Lf)))"
    using root_plug [of fs "Nd b c l m w Lf"] root_plug [of fs "Nd b c l m w (Nd a C_MAP_RED Lf k v Lf)"] by simp
  show ?thesis
    using n assms(2) h by (simp add: set_node_Some) (simp add: put_def at_place_def beside_def fun_upd_twist)
qed

lemma drop_new:
  assumes "a \<notin> set (faddrs fs)" and "a \<notin> set (addrs t)"
  shows "c_map_delete_node a (beside a n (put s fs t)) = Some (put s fs t)"
proof -
  have "at_place fs t a = None" using assms by (simp add: at_place_def map_add_app)
  then have "(at_place fs t)(a := None) = at_place fs t" by (simp add: fun_eq_iff)
  then show ?thesis by (simp add: c_map_delete_node_def) (simp add: put_def beside_def)
qed

lemma insert_below_at:
  assumes "sane fs t" and "t \<noteq> Lf" and "a \<noteq> 0" and "a \<notin> set (faddrs fs)" and "a \<notin> set (addrs t)"
  shows "insert_below cmp a (root t) (beside a (new_node k v) (put s fs t)) =
    Some (case down cmp k t fs of
        None \<Rightarrow> (False, put s fs t)
      | Some gs \<Rightarrow> (True, put s [] (fix_at (Nd a C_MAP_RED Lf k v Lf) gs)))"
  using assms
proof (induction t arbitrary: fs)
  case (Nd b c l m w r)
  let ?t = "Nd b c l m w r" and ?N = "Nd a C_MAP_RED Lf k v Lf"
  have n: "at_place fs ?t b = Some (mk_node m w (root l) (root r) (upp fs) c)"
    using Nd.prems(1) by (simp add: at_place_in)
  have ab: "a \<noteq> b" using Nd.prems by simp
  note d = drop_new [OF Nd.prems(4,5), of "new_node k v" s]
  have sl: "sane (InL b c m w r # fs) l" "sane (InR b c l m w # fs) r" using Nd.prems(1) by (auto simp: sane_def)
  have pl: "put s (InL b c m w r # fs) l = put s fs ?t" "put s (InR b c l m w # fs) r = put s fs ?t"
    using put_plug1 [OF sl(1)] put_plug1 [OF sl(2)] by simp_all
  have l0: "root l = 0 \<longleftrightarrow> l = Lf" "root r = 0 \<longleftrightarrow> r = Lf" using Nd.prems(1) by (cases l; cases r; auto simp: sane_def)+
  have sn: "sane (InL b c m w r # fs) ?N" if "l = Lf" using Nd.prems that by (auto simp: sane_def)
  have sn': "sane (InR b c l m w # fs) ?N" if "r = Lf" using Nd.prems that by (auto simp: sane_def)
  consider "cmp k m = 0" | "cmp k m < 0" "l = Lf" | "cmp k m < 0" "l \<noteq> Lf" | "0 < cmp k m" "r = Lf" | "0 < cmp k m" "r \<noteq> Lf" by linarith
  then show ?case
  proof cases
    case 1
    then show ?thesis using n ab d by (subst insert_below.simps) (simp add: Let_def)
  next
    case 2
    have "insert_below cmp a (root ?t) (beside a (new_node k v) (put s fs ?t)) =
        Option.bind (Option.bind (set_node b (\<lambda>x. x\<lparr>c_left := a\<rparr>) (beside a (new_node k v) (put s fs ?t))) (set_node a (\<lambda>x. x\<lparr>c_up := b\<rparr>)))
          (\<lambda>s. Option.bind (c_map_fix_colors a s) (\<lambda>s. Some (True, s)))"
      using n ab 2 by (subst insert_below.simps) (simp add: Let_def)
    then show ?thesis
      using hang_left [of fs b c m w r a k v s] Nd.prems(1) ab 2 fix_colors_at [OF sn, of s] by (simp del: Option.bind_assoc)
  next
    case 3
    then show ?thesis
      using n ab Nd.IH(1) [OF sl(1)] Nd.prems(3-5) l0 by (subst insert_below.simps) (simp add: Let_def pl split: option.split)
  next
    case 4
    have "insert_below cmp a (root ?t) (beside a (new_node k v) (put s fs ?t)) =
        Option.bind (Option.bind (set_node b (\<lambda>x. x\<lparr>c_right := a\<rparr>) (beside a (new_node k v) (put s fs ?t))) (set_node a (\<lambda>x. x\<lparr>c_up := b\<rparr>)))
          (\<lambda>s. Option.bind (c_map_fix_colors a s) (\<lambda>s. Some (True, s)))"
      using n ab 4 by (subst insert_below.simps) (simp add: Let_def)
    then show ?thesis
      using hang_right [of fs b c l m w a k v s] Nd.prems(1) ab 4 fix_colors_at [OF sn', of s] by (simp del: Option.bind_assoc)
  next
    case 5
    then show ?thesis
      using n ab Nd.IH(2) [OF sl(2)] Nd.prems(3-5) l0 by (subst insert_below.simps) (simp add: Let_def pl split: option.split)
  qed
qed simp

section \<open>The ends\<close>

lemma leftmost_at:
  assumes "sane fs t" and "t \<noteq> Lf"
  shows "leftmost (root t) (put s fs t) = Some (hd (addrs t))"
  using assms
proof (induction t arbitrary: fs)
  case (Nd b c l m w r)
  have n: "at_place fs (Nd b c l m w r) b = Some (mk_node m w (root l) (root r) (upp fs) c)"
    using Nd.prems(1) by (simp add: at_place_in)
  have s: "sane (InL b c m w r # fs) l" using Nd.prems(1) by (auto simp: sane_def)
  have l0: "root l = 0 \<longleftrightarrow> l = Lf" using Nd.prems(1) by (cases l) (auto simp: sane_def)
  have "l \<noteq> Lf \<Longrightarrow> addrs l \<noteq> []" by (cases l) auto
  then show ?case
    using n Nd.IH(1) [OF s] put_plug1 [OF s, of s] l0 by (subst leftmost.simps) auto
qed simp

lemma rightmost_at:
  assumes "sane fs t" and "t \<noteq> Lf"
  shows "rightmost (root t) (put s fs t) = Some (last (addrs t))"
  using assms
proof (induction t arbitrary: fs)
  case (Nd b c l m w r)
  have n: "at_place fs (Nd b c l m w r) b = Some (mk_node m w (root l) (root r) (upp fs) c)"
    using Nd.prems(1) by (simp add: at_place_in)
  have s: "sane (InR b c l m w # fs) r" using Nd.prems(1) by (auto simp: sane_def)
  have l0: "root r = 0 \<longleftrightarrow> r = Lf" using Nd.prems(1) by (cases r) (auto simp: sane_def)
  have "r \<noteq> Lf \<Longrightarrow> addrs r \<noteq> []" by (cases r) auto
  then show ?case
    using n Nd.IH(2) [OF s] put_plug1 [OF s, of s] l0 by (subst rightmost.simps) auto
qed simp

definition ends :: "ctree \<Rightarrow> cmap \<Rightarrow> cmap" where
  "ends t s = (if t = Lf then set_ends 0 0 s else set_ends (hd (addrs t)) (last (addrs t)) s)"

lemma calibrate_at:
  assumes "sane [] t"
  shows "c_map_calibrate (put s [] t) = Some (ends t (put s [] t))"
proof -
  have l0: "root t = 0 \<longleftrightarrow> t = Lf" using assms by (cases t) (auto simp: sane_def)
  then show ?thesis using assms leftmost_at [of "[]" t s] rightmost_at [of "[]" t s] by (simp add: c_map_calibrate_def ends_def)
qed

section \<open>What a tree holds\<close>

fun entries :: "ctree \<Rightarrow> (nat \<times> u8 list \<times> u8 list) list" where
  "entries Lf = []"
| "entries (Nd a c l k v r) = entries l @ (a, k, v) # entries r"

fun lefts :: "frame list \<Rightarrow> (nat \<times> u8 list \<times> u8 list) list" where
  "lefts [] = []"
| "lefts (InL a c k v r # fs) = lefts fs"
| "lefts (InR a c l k v # fs) = lefts fs @ entries l @ [(a, k, v)]"

fun rights :: "frame list \<Rightarrow> (nat \<times> u8 list \<times> u8 list) list" where
  "rights [] = []"
| "rights (InL a c k v r # fs) = (a, k, v) # entries r @ rights fs"
| "rights (InR a c l k v # fs) = rights fs"

lemma entries_plug: "entries (plug fs t) = lefts fs @ entries t @ rights fs"
proof (induction fs arbitrary: t)
  case (Cons f fs)
  show ?case by (cases f) (simp_all add: Cons)
qed simp

lemma addrs_entries: "addrs t = map fst (entries t)"
  by (induction t) auto

lemma entries_recolor [simp]: "entries (recolor c t) = entries t"
  by (cases t) auto

lemma entries_rotated: "entries (rotated g f t) = entries (plug1 g (plug1 f t))"
  by (cases "(g, f, t)" rule: rotated.cases) auto

lemma entries_repainted: "entries (plug1 (fpaint c (sib_paint d g)) (plug1 (fpaint e f) t)) = entries (plug1 g (plug1 f t))"
  by (cases f; cases g) auto

lemma entries_fix: "entries (fix_at t fs) = lefts fs @ entries t @ rights fs"
proof (induction t fs rule: fix_at.induct)
  case (2 t f)
  then show ?case using entries_plug [of "[f]" t] by simp
next
  case (3 t f g fs)
  have e: "lefts (f # g # fs) @ entries t @ rights (f # g # fs) = lefts fs @ entries (plug1 g (plug1 f t)) @ rights fs"
    using entries_plug [of "f # g # fs" t] entries_plug [of fs "plug1 g (plug1 f t)"] by simp
  show ?case
    using "3.IH" by (simp only: e fix_at.simps if_split) (auto simp: e entries_plug entries_rotated entries_repainted)
qed simp

lemma sane_fix:
  assumes "sane fs t" shows "sane [] (fix_at t fs)"
proof -
  have "addrs (fix_at t fs) = addrs (plug fs t)" by (simp add: addrs_entries entries_fix entries_plug)
  then show ?thesis using assms sane_plug [of fs t] by (simp add: sane_def)
qed

section \<open>Insertion\<close>

definition tree_insert :: "(u8 list \<Rightarrow> u8 list \<Rightarrow> int) \<Rightarrow> nat \<Rightarrow> u8 list \<Rightarrow> u8 list \<Rightarrow> ctree \<Rightarrow> ctree option" where
  "tree_insert cmp a k v t = map_option (fix_at (Nd a C_MAP_RED Lf k v Lf)) (down cmp k t [])"

definition count1 :: "cmap \<Rightarrow> cmap" where
  "count1 s = s\<lparr>csize := csize s + 1\<rparr>"

lemma faddrs_entries: "set (faddrs fs) = fst ` (set (lefts fs) \<union> set (rights fs))"
  by (induction fs rule: faddrs.induct) (auto simp: addrs_entries)

lemma sane_new:
  assumes "sane [] t" and "a \<noteq> 0" and "a \<notin> set (addrs t)" and "down cmp k t [] = Some gs"
  shows "sane gs (Nd a C_MAP_RED Lf k v Lf)"
proof -
  have "sane gs Lf" using sane_down [OF assms(4)] assms(1) by simp
  moreover have "entries t = lefts gs @ rights gs" using plug_down [OF assms(4)] entries_plug [of gs Lf] by simp
  then have "a \<notin> set (faddrs gs)" using assms(3) by (auto simp: faddrs_entries addrs_entries)
  ultimately show ?thesis using assms(2) by (simp add: sane_def)
qed

lemma insert_at:
  assumes "sane [] t" and "a \<noteq> 0" and "a \<notin> set (addrs t)" and "length k = key_size s" and "length v = element_size s"
  shows "c_map_insert cmp a (Some k) (Some v) (put s [] t) = Some (case tree_insert cmp a k v t of
      None \<Rightarrow> (False, count1 (put s [] t))
    | Some u \<Rightarrow> (True, ends u (put (count1 s) [] u)))"
proof -
  have cn: "(c_map_create_node a (Some k) (Some v) (put s [] t))\<lparr>csize := csize s + 1\<rparr> = beside a (new_node k v) (put (count1 s) [] t)"
    using assms(4,5) by (simp add: c_map_create_node_def beside_def count1_def copied_def mk_node_def put_def)
  have cs: "csize (c_map_create_node a (Some k) (Some v) (put s [] t)) = csize s" by (simp add: c_map_create_node_def)
  note ci = c_map_insert_def [of cmp a "Some k" "Some v" "put s [] t", unfolded Let_def cs cn]
  show ?thesis
  proof (cases "t = Lf")
    case True
    let ?u = "Nd a C_MAP_BLACK Lf k v Lf"
    have "paint C_MAP_BLACK a (beside a (new_node k v) (put (count1 s) [] Lf)\<lparr>head := a\<rparr>) = Some (put (count1 s) [] ?u)"
      by (simp add: paint_def set_node_def beside_def put_def at_place_def)
    moreover have "sane [] ?u" using assms(2) by (simp add: sane_def)
    ultimately show ?thesis
      unfolding ci using True calibrate_at [of ?u "count1 s"] by (simp add: tree_insert_def)
  next
    case False
    have h: "head (beside a (new_node k v) (put (count1 s) [] t)) = root t" "root t \<noteq> 0"
      using False assms(1) by (cases t; simp add: sane_def)+
    show ?thesis
    proof (cases "down cmp k t []")
      case None
      have "count1 (put s [] t) = put (count1 s) [] t" by (simp add: count1_def put_def)
      then show ?thesis
        using None h insert_below_at [OF assms(1) False assms(2) _ assms(3), of cmp k v "count1 s"]
        by (simp add: ci tree_insert_def)
    next
      case (Some gs)
      have "sane gs (Nd a C_MAP_RED Lf k v Lf)" by (rule sane_new [OF assms(1-3) Some])
      then have "sane [] (fix_at (Nd a C_MAP_RED Lf k v Lf) gs)" by (rule sane_fix)
      then show ?thesis
        using Some h insert_below_at [OF assms(1) False assms(2) _ assms(3), of cmp k v "count1 s"] calibrate_at [of _ "count1 s"]
        by (simp add: ci tree_insert_def)
    qed
  qed
qed

section \<open>Red-black trees\<close>

fun bheight :: "ctree \<Rightarrow> nat" where
  "bheight Lf = 0"
| "bheight (Nd a c l k v r) = bheight l + (if c = C_MAP_BLACK then 1 else 0)"

fun invh :: "ctree \<Rightarrow> bool" where
  "invh Lf \<longleftrightarrow> True"
| "invh (Nd a c l k v r) \<longleftrightarrow> invh l \<and> invh r \<and> bheight l = bheight r"

fun invc :: "ctree \<Rightarrow> bool" where
  "invc Lf \<longleftrightarrow> True"
| "invc (Nd a c l k v r) \<longleftrightarrow> (c = C_MAP_BLACK \<or> c = C_MAP_RED \<and> color l = C_MAP_BLACK \<and> color r = C_MAP_BLACK) \<and> invc l \<and> invc r"

definition rbt :: "ctree \<Rightarrow> bool" where
  "rbt t \<longleftrightarrow> invc t \<and> invh t \<and> color t = C_MAP_BLACK"

definition top_color :: "frame list \<Rightarrow> ccolor" where
  "top_color fs = (case fs of [] \<Rightarrow> C_MAP_RED | f # _ \<Rightarrow> fcol f)"

fun fok :: "nat \<Rightarrow> frame list \<Rightarrow> bool" where
  "fok h [] \<longleftrightarrow> True"
| "fok h (f # fs) \<longleftrightarrow> invc (sib f) \<and> invh (sib f) \<and> bheight (sib f) = h \<and>
     (fcol f = C_MAP_BLACK \<or> fcol f = C_MAP_RED \<and> color (sib f) = C_MAP_BLACK \<and> top_color fs = C_MAP_BLACK) \<and>
     fok (h + (if fcol f = C_MAP_BLACK then 1 else 0)) fs"

lemma top_color_simps [simp]: "top_color [] = C_MAP_RED" "top_color (f # fs) = fcol f"
  by (simp_all add: top_color_def)

definition fits :: "ctree \<Rightarrow> frame list \<Rightarrow> bool" where
  "fits t fs \<longleftrightarrow> invc t \<and> invh t \<and> fok (bheight t) fs \<and> (color t = C_MAP_BLACK \<or> color t = C_MAP_RED \<and> top_color fs = C_MAP_BLACK)"

lemma invc_color: "invc t \<Longrightarrow> color t = C_MAP_BLACK \<or> color t = C_MAP_RED"
  by (cases t) auto

lemma fits_plug1: "fits (plug1 f t) fs \<longleftrightarrow> fits t (f # fs)"
  using invc_color [of t] by (cases f) (auto simp: fits_def)

lemma rbt_plug: "rbt (plug fs t) \<longleftrightarrow> fits t fs"
proof (induction fs arbitrary: t)
  case Nil
  then show ?case by (auto simp: rbt_def fits_def)
next
  case (Cons f fs)
  then show ?case by (simp add: fits_plug1)
qed

lemma rbt_fix:
  assumes "invc t" and "invh t" and "fok (bheight t) fs" and "color t = C_MAP_RED"
  shows "rbt (fix_at t fs)"
  using assms
proof (induction t fs rule: fix_at.induct)
  case (1 t)
  then show ?case by (cases t) (auto simp: rbt_def)
next
  case (2 t f)
  then show ?case using rbt_plug [of "[f]" t] by (auto simp: fits_def)
next
  case (3 t f g fs)
  show ?case
  proof (cases "fcol f = C_MAP_BLACK")
    case True
    then show ?thesis using "3.prems" rbt_plug [of "f # g # fs" t] by (simp add: fits_def)
  next
    case False
    then have f: "fcol f = C_MAP_RED" "fcol g = C_MAP_BLACK" "color (sib f) = C_MAP_BLACK" using "3.prems"(3) by auto
    show ?thesis
    proof (cases "color (sib g) = C_MAP_RED")
      case True
      let ?t = "plug1 (fpaint C_MAP_RED (sib_paint C_MAP_BLACK g)) (plug1 (fpaint C_MAP_BLACK f) t)"
      have u: "invc ?t" "invh ?t" "fok (bheight ?t) fs" "color ?t = C_MAP_RED"
        using "3.prems" f True by (cases f; cases g; cases "sib g"; auto)+
      show ?thesis using "3.IH" [OF False True u] False True by simp
    next
      case nr: False
      then have b: "color (sib g) = C_MAP_BLACK" using "3.prems"(3) invc_color [of "sib g"] by auto
      have "fits (rotated g f t) fs"
        using "3.prems" f b by (cases f; cases g; cases t) (auto simp: fits_def)
      then show ?thesis using nr b False rbt_plug by simp
    qed
  qed
qed

end
