(* ===== verification/Vm_Map_Properties.thy ===== *)
theory Vm_Map_Properties
  imports Vm_Map_Insert
begin

text \<open>
  What the map promises: with a comparator that orders the keys, \<open>c_map_insert\<close> and \<open>c_map_find\<close>
  are the insertion and the lookup of a finite map, in a tree whose height is logarithmic.
\<close>

section \<open>Ordered trees\<close>

definition ranks :: "(u8 list \<Rightarrow> int) \<Rightarrow> (nat \<times> u8 list \<times> u8 list) list \<Rightarrow> int list" where
  "ranks rank es = map (\<lambda>e. rank (fst (snd e))) es"

definition ordered :: "(u8 list \<Rightarrow> int) \<Rightarrow> ctree \<Rightarrow> bool" where
  "ordered rank t \<longleftrightarrow> sorted_wrt (<) (ranks rank (entries t))"

definition tree_map :: "(u8 list \<Rightarrow> int) \<Rightarrow> ctree \<Rightarrow> int \<Rightarrow> u8 list option" where
  "tree_map rank t = map_of (map (\<lambda>e. (rank (fst (snd e)), snd (snd e))) (entries t))"

lemma ranks_simps [simp]:
  "ranks rank [] = []" "ranks rank (e # es) = rank (fst (snd e)) # ranks rank es" "ranks rank (es @ fs) = ranks rank es @ ranks rank fs"
  by (simp_all add: ranks_def)

lemma tree_map_None: "tree_map rank t x = None \<longleftrightarrow> x \<notin> set (ranks rank (entries t))"
  by (simp add: tree_map_def ranks_def map_of_eq_None_iff image_image)

text \<open>The node that the search finds, 0 for none, and how many nodes it compares the key with.\<close>

fun tree_find :: "(u8 list \<Rightarrow> u8 list \<Rightarrow> int) \<Rightarrow> u8 list \<Rightarrow> ctree \<Rightarrow> nat" where
  "tree_find cmp k Lf = 0"
| "tree_find cmp k (Nd a c l key v r) =
     (if cmp k key = 0 then a else if cmp k key < 0 then tree_find cmp k l else tree_find cmp k r)"

fun comparisons :: "(u8 list \<Rightarrow> u8 list \<Rightarrow> int) \<Rightarrow> u8 list \<Rightarrow> ctree \<Rightarrow> nat" where
  "comparisons cmp k Lf = 0"
| "comparisons cmp k (Nd a c l key v r) =
     1 + (if cmp k key = 0 then 0 else if cmp k key < 0 then comparisons cmp k l else comparisons cmp k r)"

locale key_order =
  fixes cmp :: "u8 list \<Rightarrow> u8 list \<Rightarrow> int" and rank :: "u8 list \<Rightarrow> int"
  assumes less: "cmp x y < 0 \<longleftrightarrow> rank x < rank y" and same: "cmp x y = 0 \<longleftrightarrow> rank x = rank y"
begin

lemma down_between:
  assumes "ordered rank (plug fs t)" and "\<forall>x \<in> set (ranks rank (lefts fs)). x < rank k" and "\<forall>x \<in> set (ranks rank (rights fs)). rank k < x"
    and "down cmp k t fs = Some gs"
  shows "\<forall>x \<in> set (ranks rank (lefts gs)). x < rank k" and "\<forall>x \<in> set (ranks rank (rights gs)). rank k < x"
proof -
  have "(\<forall>x \<in> set (ranks rank (lefts gs)). x < rank k) \<and> (\<forall>x \<in> set (ranks rank (rights gs)). rank k < x)"
    using assms
  proof (induction t arbitrary: fs)
    case (Nd a c l key v r)
    have o: "\<forall>x \<in> set (ranks rank (entries l)). x < rank key" "\<forall>x \<in> set (ranks rank (entries r)). rank key < x"
      "\<forall>x \<in> set (ranks rank (lefts fs)). x < rank key" "\<forall>x \<in> set (ranks rank (rights fs)). rank key < x"
      using Nd.prems(1) by (auto simp: ordered_def entries_plug sorted_wrt_append)
    have "rank k \<noteq> rank key" using Nd.prems(4) same [of k key] by (simp split: if_splits)
    then consider "rank k < rank key" | "rank key < rank k" by linarith
    then show ?case
    proof cases
      case 1
      have t1: "rank key < x \<Longrightarrow> rank k < x" for x using 1 by linarith
      from 1 have "down cmp k l (InL a c key v r # fs) = Some gs" using Nd.prems(4) less [of k key] same [of k key] by (simp split: if_splits)
      moreover have "ordered rank (plug (InL a c key v r # fs) l)" using Nd.prems(1) by simp
      moreover have "\<forall>x \<in> set (ranks rank (rights (InL a c key v r # fs))). rank k < x"
        using o(2,4) 1 by (simp add: ball_Un) (blast intro: t1)
      moreover have "\<forall>x \<in> set (ranks rank (lefts (InL a c key v r # fs))). x < rank k" using Nd.prems(2) by (simp only: lefts.simps)
      ultimately show ?thesis by (intro Nd.IH(1) [of "InL a c key v r # fs"])
    next
      case 2
      have t2: "x < rank key \<Longrightarrow> x < rank k" for x using 2 by linarith
      from 2 have "down cmp k r (InR a c l key v # fs) = Some gs" using Nd.prems(4) less [of k key] same [of k key] by (simp split: if_splits)
      moreover have "ordered rank (plug (InR a c l key v # fs) r)" using Nd.prems(1) by simp
      moreover have "\<forall>x \<in> set (ranks rank (lefts (InR a c l key v # fs))). x < rank k"
        using o(1,3) 2 by (simp add: ball_Un) (blast intro: t2)
      moreover have "\<forall>x \<in> set (ranks rank (rights (InR a c l key v # fs))). rank k < x" using Nd.prems(3) by (simp only: rights.simps)
      ultimately show ?thesis by (intro Nd.IH(2) [of "InR a c l key v # fs"])
    qed
  qed simp
  then show "\<forall>x \<in> set (ranks rank (lefts gs)). x < rank k" "\<forall>x \<in> set (ranks rank (rights gs)). rank k < x" by auto
qed

lemma down_None: "down cmp k t fs = None \<Longrightarrow> rank k \<in> set (ranks rank (entries t))"
  by (induction t arbitrary: fs) (auto simp: same split: if_splits)

lemma tree_insert_None:
  assumes "ordered rank t"
  shows "tree_insert cmp a k v t = None \<longleftrightarrow> tree_map rank t (rank k) \<noteq> None"
proof (cases "down cmp k t []")
  case None
  then show ?thesis using down_None [OF None] by (simp add: tree_insert_def tree_map_None del: not_None_eq)
next
  case (Some gs)
  have "entries t = lefts gs @ rights gs" using plug_down [OF Some] entries_plug [of gs Lf] by simp
  moreover have "\<forall>x \<in> set (ranks rank (lefts gs)). x < rank k" "\<forall>x \<in> set (ranks rank (rights gs)). rank k < x"
    by (rule down_between [OF _ _ _ Some]; simp add: assms)+
  ultimately have "rank k \<notin> set (ranks rank (entries t))" by auto
  then show ?thesis using Some by (simp add: tree_insert_def tree_map_None del: not_None_eq)
qed

lemma tree_insert_Some:
  assumes "ordered rank t" and "tree_insert cmp a k v t = Some u"
  shows "ordered rank u" and "tree_map rank u = (tree_map rank t)(rank k \<mapsto> v)"
proof -
  obtain gs where gs: "down cmp k t [] = Some gs" "u = fix_at (Nd a C_MAP_RED Lf k v Lf) gs"
    using assms(2) by (auto simp: tree_insert_def)
  have e: "entries t = lefts gs @ rights gs" using plug_down [OF gs(1)] entries_plug [of gs Lf] by simp
  have eu: "entries u = lefts gs @ (a, k, v) # rights gs" by (simp add: gs(2) entries_fix)
  have b: "\<forall>x \<in> set (ranks rank (lefts gs)). x < rank k" "\<forall>x \<in> set (ranks rank (rights gs)). rank k < x"
    by (rule down_between [OF _ _ _ gs(1)]; simp add: assms(1))+
  show "ordered rank u" using assms(1) b unfolding ordered_def e eu by (simp add: sorted_wrt_append)
  have "rank k \<notin> dom (map_of (map (\<lambda>e. (rank (fst (snd e)), snd (snd e))) (lefts gs)))"
    using b(1) by (auto simp: dom_map_of_conv_image_fst ranks_def image_image)
  then show "tree_map rank u = (tree_map rank t)(rank k \<mapsto> v)"
    by (simp add: tree_map_def e eu map_add_upd_left)
qed

lemma tree_map_Nd:
  assumes "ordered rank (Nd a c l key v r)"
  shows "ordered rank l" and "ordered rank r"
    and "tree_map rank (Nd a c l key v r) (rank k) = (if cmp k key = 0 then Some v else if cmp k key < 0 then tree_map rank l (rank k) else tree_map rank r (rank k))"
proof -
  have o: "\<forall>x \<in> set (ranks rank (entries l)). x < rank key" "\<forall>x \<in> set (ranks rank (entries r)). rank key < x"
    using assms by (auto simp: ordered_def sorted_wrt_append)
  show "ordered rank l" "ordered rank r" using assms by (auto simp: ordered_def sorted_wrt_append)
  have n: "tree_map rank l x = None" if "rank key \<le> x" for x using o(1) that by (fastforce simp: tree_map_None)
  have m: "tree_map rank r x = None" if "x \<le> rank key" for x using o(2) that by (fastforce simp: tree_map_None)
  have e: "tree_map rank (Nd a c l key v r) = (tree_map rank r)(rank key \<mapsto> v) ++ tree_map rank l"
    by (simp add: tree_map_def)
  show "tree_map rank (Nd a c l key v r) (rank k) =
      (if cmp k key = 0 then Some v else if cmp k key < 0 then tree_map rank l (rank k) else tree_map rank r (rank k))"
    using n [of "rank k"] m [of "rank k"] by (auto simp: e map_add_app same less split: option.splits)
qed

lemma tree_find_spec:
  assumes "ordered rank t" and "0 \<notin> set (addrs t)"
  shows "if tree_find cmp k t = 0 then tree_map rank t (rank k) = None
     else \<exists>key v. (tree_find cmp k t, key, v) \<in> set (entries t) \<and> rank key = rank k \<and> tree_map rank t (rank k) = Some v"
  using assms
proof (induction t)
  case (Nd a c l key v r)
  note m = tree_map_Nd [OF Nd.prems(1)]
  have l: "0 \<notin> set (addrs l)" "0 \<notin> set (addrs r)" "a \<noteq> 0" using Nd.prems(2) by auto
  consider "cmp k key = 0" | "cmp k key < 0" | "0 < cmp k key" by linarith
  then show ?case
  proof cases
    case 1
    then show ?thesis using l same by (auto simp: m)
  next
    case 2
    then show ?thesis using Nd.IH(1) [OF m(1) l(1)] by (auto simp: m split: if_splits)
  next
    case 3
    then show ?thesis using Nd.IH(2) [OF m(2) l(2)] by (auto simp: m split: if_splits)
  qed
qed (simp add: tree_map_def)

end

section \<open>The search and the iterator\<close>

lemma search_at:
  assumes "sane fs t" and "t \<noteq> Lf"
  shows "search_from cmp k (root t) (put s fs t) = Some (tree_find cmp k t)"
  using assms
proof (induction t arbitrary: fs)
  case (Nd b c l m w r)
  have n: "at_place fs (Nd b c l m w r) b = Some (mk_node m w (root l) (root r) (upp fs) c)"
    using Nd.prems(1) by (simp add: at_place_in)
  have sl: "sane (InL b c m w r # fs) l" "sane (InR b c l m w # fs) r" using Nd.prems(1) by (auto simp: sane_def)
  have pl: "put s (InL b c m w r # fs) l = put s fs (Nd b c l m w r)" "put s (InR b c l m w # fs) r = put s fs (Nd b c l m w r)"
    using put_plug1 [OF sl(1)] put_plug1 [OF sl(2)] by simp_all
  have l0: "root l = 0 \<longleftrightarrow> l = Lf" "root r = 0 \<longleftrightarrow> r = Lf" using Nd.prems(1) by (cases l; cases r; auto simp: sane_def)+
  show ?case
    using n Nd.IH(1) [OF sl(1)] Nd.IH(2) [OF sl(2)] l0 by (subst search_from.simps) (auto simp: Let_def pl)
qed simp

lemma climb_at:
  assumes "sane fs t" and "t \<noteq> Lf" and "lefts fs \<noteq> []"
  shows "\<exists>it. climb (root t) (upp fs) (put s fs t) = Some it \<and> it_node it = fst (last (lefts fs))"
  using assms
proof (induction fs arbitrary: t)
  case (Cons f fs)
  have s1: "sane fs (plug1 f t)" using Cons.prems(1) by (simp add: sane_plug1)
  have p: "put s (f # fs) t = put s fs (plug1 f t)" by (rule put_plug1 [OF Cons.prems(1)])
  obtain n where n: "at_place fs (plug1 f t) (faddr f) = Some n" "c_up n = upp fs" "below f (root t) n"
    using at_frame [OF s1] by auto
  have t0: "root t \<noteq> 0" "root (sib f) \<noteq> root t"
    using Cons.prems(1) root_in [OF Cons.prems(2)] sib_apart [OF Cons.prems(1), of "root t"] by (auto simp: sane_def)
  show ?case
  proof (cases f)
    case (InL a c k v r)
    then have l: "lefts fs \<noteq> []" using Cons.prems(3) by simp
    then have "upp fs \<noteq> 0" using s1 upp_in [of fs] by (cases "fs = []") (auto simp: sane_def)
    then have "climb (root t) (faddr f) (put s fs (plug1 f t)) = climb (faddr f) (upp fs) (put s fs (plug1 f t))"
      using n t0 InL by (subst climb.simps) (simp add: below_def)
    then show ?thesis using Cons.IH [OF s1 _ l] InL p by simp
  next
    case (InR a c l k v)
    then have "climb (root t) (faddr f) (put s fs (plug1 f t)) = Some \<lparr>it_prev = root t, it_node = faddr f\<rparr>"
      using n t0 by (subst climb.simps) (simp add: below_def)
    then show ?thesis using InR p by simp
  qed
qed simp

definition before :: "nat \<Rightarrow> ctree \<Rightarrow> nat" where
  "before a t = (case rev (takeWhile (\<lambda>b. b \<noteq> a) (addrs t)) of [] \<Rightarrow> 0 | b # _ \<Rightarrow> b)"

definition holds_tree :: "cmap \<Rightarrow> ctree \<Rightarrow> bool" where
  "holds_tree s t \<longleftrightarrow> nodes s = mk 0 t \<and> head s = root t \<and> sane [] t \<and>
     it_node (it_least s) = (if t = Lf then 0 else hd (addrs t)) \<and> it_node (it_most s) = (if t = Lf then 0 else last (addrs t))"

lemma holds_tree_put: "holds_tree s t \<Longrightarrow> put s [] t = s"
  by (simp add: holds_tree_def put_def at_place_def)

lemma plug_append: "plug (fs @ gs) t = plug gs (plug fs t)"
  by (induction fs arbitrary: t) auto

lemma split_addr: "a \<in> set (addrs t) \<Longrightarrow> \<exists>fs c l k v r. t = plug fs (Nd a c l k v r)"
proof (induction t)
  case (Nd b c l k v r)
  consider "a = b" | "a \<in> set (addrs l)" | "a \<in> set (addrs r)" using Nd.prems by auto
  then show ?case
  proof cases
    case 1
    then have "Nd b c l k v r = plug [] (Nd a c l k v r)" by simp
    then show ?thesis by blast
  next
    case 2
    then obtain fs c' l' k' v' r' where e: "l = plug fs (Nd a c' l' k' v' r')" using Nd.IH(1) by blast
    have "Nd b c l k v r = plug (fs @ [InL b c k v r]) (Nd a c' l' k' v' r')"
      unfolding e by (simp add: plug_append)
    then show ?thesis by blast
  next
    case 3
    then obtain fs c' l' k' v' r' where e: "r = plug fs (Nd a c' l' k' v' r')" using Nd.IH(2) by blast
    have "Nd b c l k v r = plug (fs @ [InR b c l k v]) (Nd a c' l' k' v' r')"
      unfolding e by (simp add: plug_append)
    then show ?thesis by blast
  qed
qed simp

lemma prev_at:
  assumes "holds_tree s t" and "a \<in> set (addrs t)"
  shows "\<exists>it'. c_map_prev (it\<lparr>it_node := a\<rparr>) s = Some it' \<and> it_node it' = before a t"
proof -
  obtain fs c l k v r where t: "t = plug fs (Nd a c l k v r)" using split_addr [OF assms(2)] by blast
  let ?n = "Nd a c l k v r"
  have sn: "sane fs ?n" using assms(1) sane_plug [of fs ?n] by (simp add: holds_tree_def t)
  have s: "put s fs ?n = s" using holds_tree_put [OF assms(1)] put_plug [OF sn, of s] by (simp add: t)
  have n: "nodes s a = Some (mk_node k v (root l) (root r) (upp fs) c)"
    using at_place_in [OF sn, of a] s by (metis (no_types, lifting) addrs.simps(2) fun_upd_same in_set_conv_decomp mk.simps(2) put_simps(1))
  have ad: "addrs t = map fst (lefts fs) @ addrs l @ a # addrs r @ map fst (rights fs)"
    by (simp add: t addrs_entries entries_plug)
  have d: "distinct (addrs t)" "a \<noteq> 0" using assms by (auto simp: holds_tree_def sane_def intro: gr0I)
  have na: "a \<notin> fst ` set (lefts fs)" "a \<notin> set (addrs l)" using d(1) by (auto simp: ad)
  have tw: "takeWhile (\<lambda>b. b \<noteq> a) (addrs t) = map fst (lefts fs) @ addrs l"
    unfolding ad using na by (subst append_assoc [symmetric], subst takeWhile_append2) auto
  have least: "it_node (it_least s) = hd (addrs t)" using assms by (auto simp: holds_tree_def)
  let ?tw = "map fst (lefts fs) @ addrs l"
  have b: "before a t = (if ?tw = [] then 0 else last ?tw)"
    unfolding before_def tw by (cases ?tw rule: rev_cases) auto
  have h: "a = hd (addrs t) \<longleftrightarrow> ?tw = []"
  proof (cases ?tw)
    case (Cons x xs)
    then have "addrs t = x # xs @ a # addrs r @ map fst (rights fs)" by (simp add: ad)
    then show ?thesis using Cons d(1) by auto
  qed (simp add: ad)
  show ?thesis
  proof (cases "?tw = []")
    case True
    then show ?thesis using h least d(2) b by (simp add: c_map_prev_def)
  next
    case False
    then have ne: "a \<noteq> hd (addrs t)" using h by simp
    show ?thesis
    proof (cases "l = Lf")
      case True
      then have l: "lefts fs \<noteq> []" using False by simp
      then have "upp fs \<noteq> 0" using sn upp_in [of fs] by (cases "fs = []") (auto simp: sane_def)
      moreover obtain it' where "climb a (upp fs) s = Some it'" "it_node it' = fst (last (lefts fs))"
        using climb_at [OF sn _ l, of s] s by auto
      ultimately show ?thesis using True ne n d(2) l least by (simp add: c_map_prev_def b last_map)
    next
      case lf: False
      have sl: "sane (InL a c k v r # fs) l" using sn by (simp flip: sane_plug1)
      have "rightmost (root l) s = Some (last (addrs l))"
        using rightmost_at [OF sl lf, of s] put_plug1 [OF sl, of s] s by simp
      moreover have "root l \<noteq> 0" using sl root_in [OF lf] by (auto simp: sane_def)
      moreover have "addrs l \<noteq> []" using root_in [OF lf] by auto
      ultimately show ?thesis using lf ne n d(2) least by (simp add: c_map_prev_def b)
    qed
  qed
qed

section \<open>Clearing\<close>

lemma clear_nested_at:
  assumes "nodes s = M ++ mk u t" and "t \<noteq> Lf" and "distinct (addrs t)" and "0 \<notin> set (addrs t)" and "\<forall>a \<in> set (addrs t). M a = None"
  shows "c_map_clear_nested (root t) s = Some (s\<lparr>nodes := M\<rparr>)"
  using assms
proof (induction t arbitrary: s M u)
  case (Nd b c l k v r)
  let ?n = "mk_node k v (root l) (root r) u c"
  let ?s1 = "s\<lparr>nodes := (M ++ mk b r)(b \<mapsto> ?n)\<rparr>" and ?s2 = "s\<lparr>nodes := M(b \<mapsto> ?n)\<rparr>"
  have l0: "root l = 0 \<longleftrightarrow> l = Lf" "root r = 0 \<longleftrightarrow> r = Lf" using Nd.prems(4) by (cases l; cases r; auto)+
  have n: "nodes s b = Some ?n" using Nd.prems(1) by simp
  have e1: "nodes s = ((M ++ mk b r)(b \<mapsto> ?n)) ++ mk b l"
    using Nd.prems(1,3) by (auto simp: fun_eq_iff map_add_app split: option.splits dest: mk_SomeD)
  have c1: "(if root l \<noteq> 0 then c_map_clear_nested (root l) s else Some s) = Some ?s1"
  proof (cases "l = Lf")
    case True
    then show ?thesis using e1 by (cases s) simp
  next
    case False
    have "\<forall>a \<in> set (addrs l). ((M ++ mk b r)(b \<mapsto> ?n)) a = None"
      using Nd.prems(3,5) by (auto simp: map_add_app disjoint_iff split: option.splits dest: mk_SomeD)
    then show ?thesis using Nd.IH(1) [OF e1 False] Nd.prems(3,4) l0 False by (simp add: fun_upd_def)
  qed
  have e2: "nodes ?s1 = (M(b \<mapsto> ?n)) ++ mk b r"
    using Nd.prems(3) by (auto simp: fun_eq_iff map_add_app split: option.splits dest: mk_SomeD)
  have c2: "(if root r \<noteq> 0 then c_map_clear_nested (root r) ?s1 else Some ?s1) = Some ?s2"
  proof (cases "r = Lf")
    case True
    then show ?thesis by simp
  next
    case False
    have "\<forall>a \<in> set (addrs r). (M(b \<mapsto> ?n)) a = None"
      using Nd.prems(3,5) by auto
    then show ?thesis using Nd.IH(2) [OF e2 False] Nd.prems(3,4) l0 False by (simp add: fun_upd_def)
  qed
  have "M(b := None) = M" using Nd.prems(5) by (auto simp: fun_eq_iff)
  then show ?case
    using n c1 c2 by (subst c_map_clear_nested.simps) (simp add: c_map_delete_node_def split del: if_split cong: if_cong)
qed simp

lemma clear_frees_all:
  assumes "holds_tree s t"
  shows "\<exists>s'. c_map_clear s = Some s' \<and> nodes s' = Map.empty \<and> head s' = 0 \<and> csize s' = 0"
proof (cases "t = Lf")
  case True
  then show ?thesis using assms by (simp add: c_map_clear_def holds_tree_def)
next
  case False
  have "root t \<noteq> 0" using assms root_in [OF False] by (auto simp: holds_tree_def sane_def intro: gr0I)
  moreover have "c_map_clear_nested (root t) s = Some (s\<lparr>nodes := Map.empty\<rparr>)"
    using assms by (intro clear_nested_at [OF _ False, of _ _ 0]) (auto simp: holds_tree_def sane_def)
  ultimately show ?thesis using assms by (simp add: c_map_clear_def holds_tree_def)
qed

section \<open>The height\<close>

lemma bheight_entries: "invh t \<Longrightarrow> 2 ^ bheight t \<le> length (entries t) + 1"
  by (induction t) auto

lemma comparisons_bheight:
  "invc t \<Longrightarrow> invh t \<Longrightarrow> comparisons cmp k t \<le> 2 * bheight t + (if color t = C_MAP_BLACK then 0 else 1)"
proof (induction t)
  case (Nd a c l key v r)
  then show ?case using invc_color [of l] invc_color [of r] by (auto split: if_splits)
qed simp

section \<open>Properties\<close>

definition map_ok :: "(u8 list \<Rightarrow> int) \<Rightarrow> cmap \<Rightarrow> ctree \<Rightarrow> bool" where
  "map_ok rank s t \<longleftrightarrow> holds_tree s t \<and> rbt t \<and> ordered rank t"

lemma in_addrs: "(a, k, v) \<in> set (entries t) \<Longrightarrow> a \<in> set (addrs t)"
  by (force simp: addrs_entries)

lemma mk_entry: "distinct (addrs t) \<Longrightarrow> (a, k, v) \<in> set (entries t) \<Longrightarrow> \<exists>n. mk u t a = Some n \<and> c_data n = Some v"
proof (induction t arbitrary: u)
  case (Nd b c l m w r)
  then consider "(a, k, v) = (b, m, w)" | "(a, k, v) \<in> set (entries l)" | "(a, k, v) \<in> set (entries r)" by auto
  then show ?case
  proof cases
    case 1
    then show ?thesis by simp
  next
    case 2
    then have "a \<noteq> b" "a \<notin> set (addrs r)" using Nd.prems(1) in_addrs [OF 2] by auto
    then show ?thesis using Nd.IH(1) [OF _ 2, of b] Nd.prems(1) by (auto simp: map_add_app)
  next
    case 3
    then have "a \<noteq> b" using Nd.prems(1) in_addrs [OF 3] by auto
    then show ?thesis using Nd.IH(2) [OF _ 3, of b] Nd.prems(1) by (auto simp: map_add_app)
  qed
qed simp

context key_order
begin

lemma insert_run:
  assumes "map_ok rank s t" and "a \<noteq> 0" and "nodes s a = None" and "length k = key_size s" and "length v = element_size s"
  shows "\<exists>b s' t'. c_map_insert cmp a (Some k) (Some v) s = Some (b, s') \<and> map_ok rank s' t' \<and>
    (b \<longleftrightarrow> tree_map rank t (rank k) = None) \<and> tree_map rank t' = (if b then (tree_map rank t)(rank k \<mapsto> v) else tree_map rank t) \<and>
    key_size s' = key_size s \<and> element_size s' = element_size s \<and> set (addrs t') \<subseteq> insert a (set (addrs t))"
proof -
  have h: "sane [] t" "put s [] t = s" "a \<notin> set (addrs t)" "rbt t" "ordered rank t"
    using assms(1,3) holds_tree_put by (auto simp: map_ok_def holds_tree_def mk_None_iff)
  note i = insert_at [OF h(1) assms(2) h(3) assms(4,5), of cmp, unfolded h(2)]
  show ?thesis
  proof (cases "tree_insert cmp a k v t")
    case None
    then have "tree_map rank t (rank k) \<noteq> None" using tree_insert_None [OF h(5)] by blast
    moreover have "map_ok rank (count1 s) t" using assms(1) by (simp add: map_ok_def holds_tree_def count1_def)
    moreover have "key_size (count1 s) = key_size s" "element_size (count1 s) = element_size s" by (simp_all add: count1_def)
    ultimately show ?thesis using i None by (intro exI [of _ False] exI [of _ "count1 s"] exI [of _ t]) auto
  next
    case (Some u)
    then obtain gs where gs: "down cmp k t [] = Some gs" "u = fix_at (Nd a C_MAP_RED Lf k v Lf) gs"
      by (auto simp: tree_insert_def)
    have n: "tree_map rank t (rank k) = None" using tree_insert_None [OF h(5), of a k v] Some by (metis option.distinct(1))
    have "sane [] u" unfolding gs(2) by (rule sane_fix [OF sane_new [OF h(1) assms(2) h(3) gs(1)]])
    then have ht: "holds_tree (ends u (put (count1 s) [] u)) u"
      by (simp add: holds_tree_def ends_def set_ends_def at_place_def)
    have "fits Lf gs" using rbt_plug [of gs Lf] plug_down [OF gs(1)] h(4) by simp
    then have "rbt u" unfolding gs(2) by (intro rbt_fix) (simp_all add: fits_def)
    with ht have "map_ok rank (ends u (put (count1 s) [] u)) u" using tree_insert_Some [OF h(5) Some] by (simp add: map_ok_def)
    moreover have "set (addrs u) \<subseteq> insert a (set (addrs t))"
      using entries_plug [of gs Lf] plug_down [OF gs(1)] by (auto simp: gs(2) addrs_entries entries_fix)
    moreover have "key_size (ends u (put (count1 s) [] u)) = key_size s" "element_size (ends u (put (count1 s) [] u)) = element_size s"
      by (simp_all add: ends_def set_ends_def count1_def put_def)
    ultimately show ?thesis using i Some n tree_insert_Some [OF h(5) Some]
      by (intro exI [of _ True] exI [of _ "ends u (put (count1 s) [] u)"] exI [of _ u]) auto
  qed
qed

lemma insert_map:
  assumes "map_ok rank s t" and "a \<noteq> 0" and "nodes s a = None" and "length k = key_size s" and "length v = element_size s"
  shows "\<exists>b s' t'. c_map_insert cmp a (Some k) (Some v) s = Some (b, s') \<and> map_ok rank s' t' \<and>
    (b \<longleftrightarrow> tree_map rank t (rank k) = None) \<and> tree_map rank t' = (if b then (tree_map rank t)(rank k \<mapsto> v) else tree_map rank t)"
  using insert_run [OF assms] by blast

lemma find_map:
  assumes "map_ok rank s t"
  shows "\<exists>it'. c_map_find cmp it k s = Some it' \<and>
    (if it_node it' = 0 then tree_map rank t (rank k) = None
     else \<exists>n. nodes s (it_node it') = Some n \<and> c_data n = tree_map rank t (rank k) \<and> it_prev it' = before (it_node it') t)"
proof (cases "t = Lf")
  case True
  then show ?thesis using assms by (simp add: c_map_find_def map_ok_def holds_tree_def tree_map_def)
next
  case False
  have h: "sane [] t" "put s [] t = s" "ordered rank t" "holds_tree s t" "0 \<notin> set (addrs t)"
    using assms holds_tree_put by (auto simp: map_ok_def holds_tree_def sane_def)
  have s: "search_from cmp k (head s) s = Some (tree_find cmp k t)"
    using search_at [OF h(1) False, of cmp k s] h(2,4) by (simp add: holds_tree_def)
  have hd: "head s \<noteq> 0" using h(4,5) root_in [OF False] by (auto simp: holds_tree_def intro: gr0I)
  note f = tree_find_spec [OF h(3,5), of k]
  show ?thesis
  proof (cases "tree_find cmp k t = 0")
    case True
    then show ?thesis using s hd f by (simp add: c_map_find_def)
  next
    case nz: False
    then obtain key v where e: "(tree_find cmp k t, key, v) \<in> set (entries t)" "tree_map rank t (rank k) = Some v"
      using f by auto
    have a: "tree_find cmp k t \<in> set (addrs t)" using e(1) by (force simp: addrs_entries)
    obtain it' where it': "c_map_prev (it\<lparr>it_node := tree_find cmp k t\<rparr>) s = Some it'" "it_node it' = before (tree_find cmp k t) t"
      using prev_at [OF h(4) a] by blast
    have "\<exists>n. nodes s (tree_find cmp k t) = Some n \<and> c_data n = Some v"
      using mk_entry [OF _ e(1), of 0] h(4) by (simp add: holds_tree_def sane_def)
    then show ?thesis using s hd nz it' e(2) by (auto simp: c_map_find_def)
  qed
qed

end

interpretation by_uint: key_order c_map_cmp_uint "\<lambda>k. uint (key32 k)"
  by unfold_locales (auto simp: c_map_cmp_uint_def word_less_def word_uint_eq_iff)

interpretation by_int: key_order c_map_cmp_int "\<lambda>k. sint (key32 k)"
  by unfold_locales (auto simp: c_map_cmp_int_def)

abbreviation urank :: "u8 list \<Rightarrow> int" where "urank k \<equiv> uint (key32 k)"

lemma one_node_ok:
  assumes "a \<noteq> 0" and "length k = n" and "length v = m"
  shows "\<exists>s. c_map_insert c_map_cmp_uint a (Some k) (Some v) (c_map_new n m) = Some (True, s) \<and>
    map_ok urank s (Nd a C_MAP_BLACK Lf k v Lf) \<and> csize s = 1 \<and> key_size s = n \<and> element_size s = m"
proof -
  let ?n = "c_map_new n m"
  have s: "put ?n [] Lf = ?n" by (simp add: put_def c_map_new_def at_place_def)
  have "sane [] Lf" by (simp add: sane_def)
  from insert_at [OF this assms(1), of k ?n v c_map_cmp_uint]
  have "c_map_insert c_map_cmp_uint a (Some k) (Some v) ?n =
      Some (True, ends (Nd a C_MAP_BLACK Lf k v Lf) (put (count1 ?n) [] (Nd a C_MAP_BLACK Lf k v Lf)))"
    unfolding s using assms(2,3) by (simp add: c_map_new_def tree_insert_def)
  then show ?thesis
    using assms by (simp add: map_ok_def holds_tree_def ends_def set_ends_def at_place_def sane_def rbt_def ordered_def count1_def c_map_new_def)
qed

text \<open>C8: \<open>c_map_insert\<close> is the insertion into a finite map.  On a map whose nodes form an ordered
  red-black tree it returns, with no access through \<open>NULL\<close>, whether the key was new; the nodes then form such
  a tree again, whose parent links, root and ends are right, and the map has the new binding besides the
  old ones.\<close>

theorem c_map_insert_refines_map:
  assumes "map_ok urank s t" and "a \<noteq> 0" and "nodes s a = None" and "length k = key_size s" and "length v = element_size s"
  shows "\<exists>b s' t'. c_map_insert c_map_cmp_uint a (Some k) (Some v) s = Some (b, s') \<and> map_ok urank s' t' \<and>
    (b \<longleftrightarrow> tree_map urank t (urank k) = None) \<and>
    tree_map urank t' = (if b then (tree_map urank t)(urank k \<mapsto> v) else tree_map urank t)"
  by (rule by_uint.insert_map [OF assms])

theorem c_map_insert_refines_map_witness:
  "\<exists>s b s' t'. c_map_insert c_map_cmp_uint 8 (Some [5, 0, 0, 0]) (Some [1]) (c_map_new 4 1) = Some (True, s) \<and>
    c_map_insert c_map_cmp_uint 16 (Some [3, 0, 0, 0]) (Some [2]) s = Some (b, s') \<and> map_ok urank s' t' \<and>
    tree_map urank t' 3 = Some [2] \<and> tree_map urank t' 5 = Some [1]"
proof -
  let ?t = "Nd 8 C_MAP_BLACK Lf [5, 0, 0, 0] [1] Lf"
  obtain s where s: "c_map_insert c_map_cmp_uint 8 (Some [5, 0, 0, 0]) (Some [1]) (c_map_new 4 1) = Some (True, s)"
    "map_ok urank s ?t" "key_size s = 4" "element_size s = 1"
    using one_node_ok [of 8 "[5, 0, 0, 0]" 4 "[1]" 1] by auto
  have k: "urank [5, 0, 0, 0] = 5" "urank [3, 0, 0, 0] = 3" by (simp_all add: key32_def)
  have n: "nodes s 16 = None" using s(2) by (simp add: map_ok_def holds_tree_def)
  have m: "tree_map urank ?t = [5 \<mapsto> [1]]" using k by (simp add: tree_map_def)
  obtain b s' t' where r: "c_map_insert c_map_cmp_uint 16 (Some [3, 0, 0, 0]) (Some [2]) s = Some (b, s')" "map_ok urank s' t'"
    "b \<longleftrightarrow> tree_map urank ?t (urank [3, 0, 0, 0]) = None"
    "tree_map urank t' = (if b then (tree_map urank ?t)(urank [3, 0, 0, 0] \<mapsto> [2]) else tree_map urank ?t)"
    using c_map_insert_refines_map [OF s(2) _ n, of "[3, 0, 0, 0]" "[2]"] s(3,4) by auto
  have "tree_map urank t' 3 = Some [2] \<and> tree_map urank t' 5 = Some [1]" using r(3,4) k m by simp
  then show ?thesis using s(1) r(1,2) by blast
qed

text \<open>\<open>c_map_find\<close> is the lookup: it returns without an access through \<open>NULL\<close>, with an
  iterator at the end when the key is not bound, and otherwise at the node that holds the key's value, whose
  \<open>prev\<close> is the node before it in the order of the keys.\<close>

lemma c_map_find_looks_up:
  assumes "map_ok urank s t"
  shows "\<exists>it'. c_map_find c_map_cmp_uint it k s = Some it' \<and>
    (if c_map_at_end it' then tree_map urank t (urank k) = None
     else \<exists>n. nodes s (it_node it') = Some n \<and> c_data n = tree_map urank t (urank k) \<and> it_prev it' = before (it_node it') t)"
  using by_uint.find_map [OF assms, of it k] by (simp add: c_map_at_end_def)



text \<open>C36: an insertion whose key is already there adds 1 to the size although it inserts nothing;
  when the only entry of the map is erased after that, \<open>c_map_erase\<close> does not see that it is the
  last and goes through the parent of the root, which is \<open>NULL\<close>.\<close>

theorem c_map_erase_after_duplicate_faults:
  assumes "map_ok urank s (Nd a C_MAP_BLACK Lf k v Lf)" and "csize s = 1" and "urank k' = urank k"
    and "b \<noteq> 0" "b \<noteq> a" and "d \<noteq> 0" "d \<noteq> a" and "length k' = key_size s" and "length v' = element_size s"
  shows "\<exists>s'. c_map_insert c_map_cmp_uint b (Some k') (Some v') s = Some (False, s') \<and> csize s' = 2 \<and>
    c_map_erase d \<lparr>it_prev = 0, it_node = a\<rparr> s' = None"
proof -
  let ?t = "Nd a C_MAP_BLACK Lf k v Lf"
  have h: "sane [] ?t" "put s [] ?t = s" using assms(1) holds_tree_put by (auto simp: map_ok_def holds_tree_def)
  have "c_map_cmp_uint k' k = 0" using assms(3) by_uint.same by simp
  then have "c_map_insert c_map_cmp_uint b (Some k') (Some v') s = Some (False, count1 s)"
    using insert_at [OF h(1) assms(4) _ assms(8,9), of c_map_cmp_uint] assms(5) by (simp add: h(2) tree_insert_def)
  moreover have "c_map_erase d \<lparr>it_prev = 0, it_node = a\<rparr> (count1 s) = None"
    using assms h(1) by (simp add: sane_def c_map_erase_def count1_def map_ok_def holds_tree_def erase_target_def splice_def add_blank_def
        c_map_create_node_def Let_def)
  ultimately show ?thesis using assms(2) by (simp add: count1_def)
qed

theorem c_map_erase_after_duplicate_faults_witness:
  "\<exists>s s'. c_map_insert c_map_cmp_uint 8 (Some [5, 0, 0, 0]) (Some [1]) (c_map_new 4 1) = Some (True, s) \<and>
    c_map_insert c_map_cmp_uint 16 (Some [5, 0, 0, 0]) (Some [2]) s = Some (False, s') \<and>
    c_map_erase 24 \<lparr>it_prev = 0, it_node = 8\<rparr> s' = None"
proof -
  obtain s where s: "c_map_insert c_map_cmp_uint 8 (Some [5, 0, 0, 0]) (Some [1]) (c_map_new 4 1) = Some (True, s)"
    "map_ok urank s (Nd 8 C_MAP_BLACK Lf [5, 0, 0, 0] [1] Lf)" "csize s = 1" "key_size s = 4" "element_size s = 1"
    using one_node_ok [of 8 "[5, 0, 0, 0]" 4 "[1]" 1] by auto
  with c_map_erase_after_duplicate_faults [OF s(2,3), of "[5, 0, 0, 0]" 16 24 "[2]"] show ?thesis by auto
qed

end
