(* ===== verification/Vm_Symbols.thy ===== *)
theory Vm_Symbols
  imports Vm_Map_Properties Vm_Elf
begin

text \<open>
  The symbol table of \<open>vm/riscv/sym.c\<close> as a finite map: \<open>sym_load_elf\<close> builds it without a fault in the
  red-black tree, and \<open>sym_find\<close> returns the first name the file gives an address.
\<close>

text \<open>The symbols that are kept, with the pointers to their names, in the order of the file.\<close>

fun sym_entries :: "u64 \<Rightarrow> elf \<Rightarrow> int list \<Rightarrow> (u32 \<times> u8 list) list option" where
  "sym_entries base e [] = Some []"
| "sym_entries base e (p # ps) = do {
     n \<leftarrow> st_name (rawdata e) p;
     t \<leftarrow> strtab e;
     info \<leftarrow> st_info (rawdata e) p;
     if ELF_ST_TYPE info \<in> {0, 1, 2} then do {
       v \<leftarrow> st_value (rawdata e) p;
       xs \<leftarrow> sym_entries base e ps;
       Some ((v, le64 (base + of_int (t + int (unat n)))) # xs)
     }
     else sym_entries base e ps
   }"

lemma urank_le32: "urank (le32 v) = uint v"
proof -
  have "key32 (le32 v) = v"
  proof (rule bit_word_eqI)
    fix n assume "n < LENGTH(32)"
    then consider "n < 8" | "8 \<le> n" "n < 16" | "16 \<le> n" "n < 24" | "24 \<le> n" "n < 32" by fastforce
    then show "bit (key32 (le32 v)) n = bit v n"
      unfolding key32_def le32_def by cases (auto simp: bit_simps nth_Cons')
  qed
  then show ?thesis by simp
qed

lemma length_le [simp]: "length (le32 v) = 4" "length (le64 w) = 8"
  by (simp_all add: le32_def le64_def)

lemma map_of_uint: "map_of (map (\<lambda>(v, n). (uint v, n)) xs) (uint (a :: u32)) = map_of xs a"
  by (induction xs) (auto simp: word_uint_eq_iff)

lemma insert_all:
  assumes "map_ok urank s t" and "key_size s = 4" and "element_size s = 8" and "set (addrs t) \<subseteq> {0<..<a}"
    and "sym_entries base e ps = Some xs" and "0 < a"
  shows "\<exists>s' t'. sym_insert_all base e a ps s = Some s' \<and> map_ok urank s' t' \<and>
    tree_map urank t' = map_of (map (\<lambda>(v, n). (uint v, n)) xs) ++ tree_map urank t"
  using assms
proof (induction ps arbitrary: s t a xs)
  case (Cons p ps)
  from Cons.prems(5) obtain n b info where r: "st_name (rawdata e) p = Some n" "strtab e = Some b" "st_info (rawdata e) p = Some info"
    by (auto simp: bind_eq_Some_conv)
  show ?case
  proof (cases "ELF_ST_TYPE info \<in> {0, 1, 2}")
    case False
    have "set (addrs t) \<subseteq> {0<..<a + 1}" using Cons.prems(4) by force
    moreover have "sym_entries base e ps = Some xs" using Cons.prems(5) False by (simp add: r)
    moreover have "sym_insert base e a p s = Some s" using False by (simp add: sym_insert_def r)
    ultimately show ?thesis using Cons.IH [OF Cons.prems(1-3), of "a + 1" xs] by simp
  next
    case True
    let ?n = "le64 (base + of_int (b + int (unat n)))"
    from True Cons.prems(5) obtain v ys where v: "st_value (rawdata e) p = Some v"
      and ys: "sym_entries base e ps = Some ys" "xs = (v, ?n) # ys"
      by (auto simp: r bind_eq_Some_conv)
    have "nodes s a = None"
      using Cons.prems(1,4) by (auto simp: map_ok_def holds_tree_def mk_None_iff)
    moreover have "a \<noteq> 0" using Cons.prems(6) by simp
    ultimately obtain q s1 t1 where i: "c_map_insert c_map_cmp_uint a (Some (le32 v)) (Some ?n) s = Some (q, s1)" "map_ok urank s1 t1"
      "q \<longleftrightarrow> tree_map urank t (uint v) = None"
      "tree_map urank t1 = (if q then (tree_map urank t)(uint v \<mapsto> ?n) else tree_map urank t)"
      "key_size s1 = 4" "element_size s1 = 8" "set (addrs t1) \<subseteq> insert a (set (addrs t))"
      using by_uint.insert_run [OF Cons.prems(1), of a "le32 v" ?n] Cons.prems(2,3) by (auto simp: urank_le32)
    have m: "tree_map urank t1 = [uint v \<mapsto> ?n] ++ tree_map urank t"
      using i(3,4) by (auto simp: map_add_def fun_eq_iff split: option.splits)
    have "sym_insert base e a p s = Some s1" using True i(1) by (auto simp: sym_insert_def r v)
    moreover have "set (addrs t1) \<subseteq> {0<..<a + 1}" using i(7) Cons.prems(4) \<open>a \<noteq> 0\<close> by force
    ultimately obtain s' t' where "sym_insert_all base e a (p # ps) s = Some s'" "map_ok urank s' t'"
      "tree_map urank t' = map_of (map (\<lambda>(v, n). (uint v, n)) ys) ++ tree_map urank t1"
      using Cons.IH [OF i(2,5,6) _ ys(1), of "a + 1"] by auto
    moreover have "map_of (map (\<lambda>(v, n). (uint v, n)) xs) = map_of (map (\<lambda>(v, n). (uint v, n)) ys) ++ [uint v \<mapsto> ?n]"
      unfolding ys(2) by (rule ext) simp
    ultimately have "sym_insert_all base e a (p # ps) s = Some s' \<and> map_ok urank s' t' \<and>
        tree_map urank t' = map_of (map (\<lambda>(v, n). (uint v, n)) xs) ++ tree_map urank t"
      by (simp only: m map_add_assoc simp_thms)
    then show ?thesis by blast
  qed
qed auto

lemma symbols_load:
  assumes "elf_section e symtab_name = Some sec" and "sec_body sec = Some body" and "sec_size sec = Some sz"
    and "sym_entries base e (sym_positions body sz) = Some xs"
  shows "\<exists>s. sym_load_elf base e = Some s \<and> (\<forall>addr. sym_find s addr = Some (map_of ((0, le64 0) # xs) addr)) \<and>
    (\<exists>u. c_map_delete s = Some u \<and> nodes u = Map.empty)"
proof -
  let ?t = "Nd 1 C_MAP_BLACK Lf (le32 0) (le64 0) Lf"
  have clear: "c_map_clear (c_map_new 4 8) = Some (c_map_new 4 8)" by (simp add: c_map_clear_def c_map_new_def)
  obtain s1 where s1: "c_map_insert c_map_cmp_uint 1 (Some (le32 0)) (Some (le64 0)) (c_map_new 4 8) = Some (True, s1)"
    "map_ok urank s1 ?t" "key_size s1 = 4" "element_size s1 = 8"
    using one_node_ok [of 1 "le32 0" 4 "le64 0" 8] by auto
  have t1: "tree_map urank ?t = [0 \<mapsto> le64 0]" by (simp add: tree_map_def urank_le32)
  obtain s t where r: "sym_insert_all base e 2 (sym_positions body sz) s1 = Some s" "map_ok urank s t"
    "tree_map urank t = map_of (map (\<lambda>(v, n). (uint v, n)) xs) ++ [0 \<mapsto> le64 0]"
    using insert_all [OF s1(2-4) _ assms(4), of 2] t1 by auto
  have "sym_load_elf base e = Some s" using s1(1) r(1) by (simp add: sym_load_elf_def clear assms(1-3))
  moreover have "sym_find s addr = Some (map_of ((0, le64 0) # xs) addr)" for addr
  proof -
    have m: "tree_map urank t (urank (le32 addr)) = map_of ((0, le64 0) # xs) addr"
      by (simp add: urank_le32 r(3) map_of_uint map_add_def) (simp add: word_uint_eq_iff) 
    obtain it where "c_map_find c_map_cmp_uint \<lparr>it_prev = 0, it_node = 0\<rparr> (le32 addr) s = Some it"
      "if it_node it = 0 then tree_map urank t (urank (le32 addr)) = None
       else \<exists>n. nodes s (it_node it) = Some n \<and> c_data n = tree_map urank t (urank (le32 addr)) \<and> it_prev it = before (it_node it) t"
      using by_uint.find_map [OF r(2)] by blast
    then show ?thesis unfolding m by (auto simp: sym_find_def c_map_at_end_def split: if_splits)
  qed
  moreover have "\<exists>u. c_map_delete s = Some u \<and> nodes u = Map.empty"
    using clear_frees_all [of s t] r(2) by (auto simp: c_map_delete_def map_ok_def)
  ultimately show ?thesis by blast
qed

end
