(* ===== verification/Vm_Dasm.thy ===== *)
theory Vm_Dasm
  imports Vm_Decode
begin

text \<open>
  The disassembler: the names of \<open>vm/riscv/cpu.c\<close>, \<open>rv_dasm_inst\<close>, which writes one instruction into a
  buffer, and \<open>rv_dasm_block\<close> of \<open>vm/riscv/riscv.c\<close> with \<open>main\<close> of \<open>vm/dasm.c\<close>.  Texts are HOL strings; a name that is a
  \<open>NULL\<close> pointer has no text and printing it is the result \<open>None\<close>, as is reading a byte outside the file.
\<close>

section \<open>Conversions of printf\<close>

definition digit :: "nat \<Rightarrow> char" where
  "digit n = ''0123456789abcdef'' ! n"

function digits_of :: "nat \<Rightarrow> nat \<Rightarrow> string" where
  "digits_of b n = (if b < 2 \<or> n < b then [digit n] else digits_of b (n div b) @ [digit (n mod b)])"
  by auto
termination by (relation "measure snd") auto

definition fmt_x :: "u32 \<Rightarrow> string" where "fmt_x w = digits_of 16 (unat w)"

definition fmt_d :: "u32 \<Rightarrow> string" where
  "fmt_d w = (if sint w < 0 then ''-'' else []) @ digits_of 10 (nat \<bar>sint w\<bar>)"

definition fmt_09x :: "u32 \<Rightarrow> string" where
  "fmt_09x w = (let t = fmt_x w in replicate (9 - length t) (CHR ''0'') @ t)"

section \<open>Names\<close>

definition r_name :: "string list" where
  "r_name = [''x0'', ''ra'', ''sp'', ''gp'', ''tp'', ''t0'', ''t1'', ''t2'',
     ''s0'', ''s1'', ''a0'', ''a1'', ''a2'', ''a3'', ''a4'', ''a5'',
     ''a6'', ''a7'', ''s2'', ''s3'', ''s4'', ''s5'', ''s6'', ''s7'',
     ''s8'', ''s9'', ''s10'', ''s11'', ''t3'', ''t4'', ''t5'', ''t6'']"

definition R :: "u32 \<Rightarrow> string" where "R i = r_name ! unat i"

definition i_op1 :: "string list" where "i_op1 = [''add'', ''sll'', ''slt'', ''sltu'', ''xor'', ''srl'', ''or'', ''and'']"
definition i_op2 :: "string list" where "i_op2 = [''sub'', ''?'', ''?'', ''?'', ''?'', ''sra'', ''?'', ''?'']"
definition m_op :: "string list" where "m_op = [''mul'', ''mulh'', ''mulhsh'', ''mulhu'', ''div'', ''divu'', ''rem'', ''remu'']"
definition b_op :: "string list" where "b_op = [''beq'', ''bne'', ''?'', ''?'', ''blt'', ''bge'', ''bltu'', ''bgeu'']"
definition l_op :: "string list" where "l_op = [''lb'', ''lh'', ''lw'', ''?'', ''lbu'', ''lhu'', ''?'', ''?'']"
definition s_op :: "string list" where "s_op = [''sb'', ''sh'', ''sw'', ''?'', ''?'', ''?'', ''?'', ''?'']"
definition csr_op :: "string list" where "csr_op = [''?'', ''csrrw'', ''csrrs'', ''csrrc'', ''?'', ''csrrwi'', ''csrrsi'', ''csrrci'']"

text \<open>\<open>csr_name\<close> after \<open>rv_init_csr\<close>; a register that is not listed has the name \<open>NULL\<close>.\<close>

definition rv_init_csr :: "(u32 \<times> string) list" where
  "rv_init_csr = [
    (0x000, ''ustatus''), (0x004, ''uie''), (0x005, ''utvec''), (0x040, ''uscratch''), (0x041, ''uepc''),
    (0x042, ''ucause''), (0x043, ''ubadaddr''), (0x044, ''uip''), (0x001, ''fflags''), (0x002, ''frm''),
    (0x003, ''fcsr''), (0xc00, ''cycle''), (0xc01, ''time''), (0xc02, ''instret''), (0xc80, ''cycleh''),
    (0xc81, ''timeh''), (0xc82, ''instreth''), (0x100, ''sstatus''), (0x102, ''sedeleg''), (0x103, ''sideleg''),
    (0x104, ''sie''), (0x105, ''stvec''), (0x140, ''sscratch''), (0x141, ''sepc''), (0x142, ''scause''),
    (0x143, ''sbadaddr''), (0x144, ''sip''), (0x180, ''sptbr''), (0x200, ''hstatus''), (0x202, ''hedeleg''),
    (0x203, ''hideleg''), (0x204, ''hie''), (0x205, ''htvec''), (0x240, ''hscratch''), (0x241, ''hepc''),
    (0x242, ''hcause''), (0x243, ''hbadaddr''), (0x244, ''hip''), (0xf11, ''mvendorid''), (0xf12, ''marchid''),
    (0xf13, ''mimpid''), (0xf14, ''mhartid''), (0x300, ''mstatus''), (0x301, ''misa''), (0x302, ''medeleg''),
    (0x303, ''mideleg''), (0x304, ''mie''), (0x305, ''mtvec''), (0x340, ''mscratch''), (0x341, ''mepc''),
    (0x342, ''mcause''), (0x343, ''mbadaddr''), (0x344, ''mip''), (0x380, ''mbase''), (0x381, ''mbound''),
    (0x382, ''mibase''), (0x383, ''mibound''), (0x384, ''mdbase''), (0x385, ''mdbound''), (0xb00, ''mcycle''),
    (0xb02, ''minstret''), (0x320, ''mucounteren''), (0x321, ''mscounteren''), (0x322, ''mhcounteren''),
    (0x7a0, ''tselect''), (0x7a1, ''tdata1''), (0x7a2, ''tdata2''), (0x7a3, ''tdata3''), (0x7b0, ''dcsr''),
    (0x7b1, ''dpc''), (0x7b2, ''dscratch'')]"

definition CSR :: "u32 \<Rightarrow> string option" where "CSR i = map_of rv_init_csr i"

definition at3 :: "string list \<Rightarrow> u32 \<Rightarrow> string" where "at3 t i = t ! unat i"

section \<open>One instruction\<close>

text \<open>\<open>%s %s,%s,%s\<close>\<close>

definition fmt3 :: "string \<Rightarrow> string \<Rightarrow> string \<Rightarrow> string \<Rightarrow> string" where
  "fmt3 a b c d = a @ '' '' @ b @ '','' @ c @ '','' @ d"

definition dasm_op :: "insn \<Rightarrow> string" where
  "dasm_op d =
     (if funct7 d = 0 then fmt3 (at3 i_op1 (funct3 d)) (R (rd d)) (R (rs1 d)) (R (rs2 d))
      else if funct7 d = 0x20 then fmt3 (at3 i_op2 (funct3 d)) (R (rd d)) (R (rs1 d)) (R (rs2 d))
      else if funct7 d = 1 then fmt3 (at3 m_op (funct3 d)) (R (rd d)) (R (rs1 d)) (R (rs2 d))
      else ''?'')"

text \<open>The instructions of the group of \<open>ecall\<close> and the CSR accesses; with \<open>funct3\<close> 4 the buffer \<open>old\<close> stays.\<close>

definition dasm_system :: "insn \<Rightarrow> string \<Rightarrow> string option" where
  "dasm_system d old =
     (if funct3 d = 0 \<and> rd d = 0 \<and> rs1 d = 0 then
        Some (if i_imm d = 0 then ''ecall'' else if i_imm d = 1 then ''ebreak'' else if i_imm d = 2 then ''uret''
              else if i_imm d = 0x102 then ''sret'' else if i_imm d = 0x302 then ''mret''
              else if i_imm d = 0x105 then ''wfi'' else ''?'')
      else if funct3 d \<le> 3 then
        map_option (fmt3 (at3 csr_op (funct3 d)) (R (rd d)) (R (rs1 d))) (CSR (csr_id d))
      else if 5 \<le> funct3 d then
        map_option (fmt3 (at3 csr_op (funct3 d)) (R (rd d)) (fmt_x (csr_imm d))) (CSR (csr_id d))
      else Some old)"

definition dasm_fence :: "insn \<Rightarrow> string \<Rightarrow> string" where
  "dasm_fence d old =
     (if funct3 d = 0 then
        let pred = i_imm d AND 7; succ = drop_bit 3 (i_imm d) AND 7
        in ''fence '' @ fmt_d pred @ '', '' @ fmt_d succ
      else if funct3 d = 1 then ''fence.i'' else old)"

definition rv_dasm_inst :: "insn \<Rightarrow> string \<Rightarrow> u32 \<Rightarrow> string option" where
  "rv_dasm_inst d old pc =
     (if op d = 0b01101 then Some (''lui '' @ R (rd d) @ '',0x'' @ fmt_x (u_imm d))
      else if op d = 0b00101 then Some (''auipc '' @ R (rd d) @ '',0x'' @ fmt_x (u_imm d))
      else if op d = 0b11011 then Some (''jal '' @ R (rd d) @ '',0x'' @ fmt_x (pc + j_imm d))
      else if op d = 0b11001 then Some (''jalr '' @ R (rd d) @ '',0x'' @ fmt_x (u_imm d))
      else if op d = 0b01100 then Some (dasm_op d)
      else if op d = 0b00100 then Some (fmt3 (at3 i_op1 (funct3 d) @ ''i'') (R (rd d)) (R (rs1 d)) (fmt_d (i_imm d)))
      else if op d = 0b11000 then Some (fmt3 (at3 b_op (funct3 d)) (R (rs2 d)) (R (rs1 d)) (''0x'' @ fmt_x (pc + b_imm d)))
      else if op d = 0b00000 then
        Some (at3 l_op (funct3 d) @ '' '' @ R (rd d) @ '','' @ fmt_d (i_imm d) @ ''('' @ R (rs1 d) @ '')'')
      else if op d = 0b01000 then
        Some (at3 s_op (funct3 d) @ '' '' @ R (rs2 d) @ '','' @ fmt_d (s_imm d) @ ''('' @ R (rs1 d) @ '')'')
      else if op d = 0b11100 then dasm_system d old
      else if op d = 0b00011 then Some (dasm_fence d old)
      else Some ''?'')"

section \<open>A block\<close>

text \<open>The first word that is not 0, from \<open>p\<close> on: the inner loop does not look at the end of the block.\<close>

partial_function (option) skip_zeros :: "u8 list \<Rightarrow> int \<Rightarrow> int option" where
  "skip_zeros raw p = do { w \<leftarrow> word_at raw p; if w = 0 then skip_zeros raw (p + 4) else Some p }"

text \<open>The lines printed for the words from \<open>p\<close> up to \<open>endp\<close>; \<open>block\<close> is the start, \<open>line\<close> the buffer.\<close>

partial_function (option) dasm_from :: "u8 list \<Rightarrow> int \<Rightarrow> u32 \<Rightarrow> int \<Rightarrow> int \<Rightarrow> string \<Rightarrow> string list option" where
  "dasm_from raw block addr endp p line =
     (if endp \<le> p then Some []
      else do {
        w \<leftarrow> word_at raw p;
        if w = 0 then do {
          q \<leftarrow> skip_zeros raw p;
          rest \<leftarrow> dasm_from raw block addr endp q line;
          Some (''...'' # rest)
        }
        else do {
          let pc = addr + of_int (p - block);
          text \<leftarrow> rv_dasm_inst (rv_decode w) line pc;
          rest \<leftarrow> dasm_from raw block addr endp (p + 4) text;
          Some ((fmt_09x pc @ '' '' @ fmt_09x w @ '' '' @ text) # rest)
        }
      })"

definition rv_dasm_block :: "u8 list \<Rightarrow> int \<Rightarrow> u32 \<Rightarrow> u32 \<Rightarrow> string \<Rightarrow> string list option" where
  "rv_dasm_block raw block addr sz line = dasm_from raw block addr (block + sint sz) block line"

text \<open>\<open>main\<close> of \<open>dasm\<close>, after its first line: \<open>line\<close> is what the buffer on the stack holds.\<close>

definition dasm_main :: "u8 list \<Rightarrow> string \<Rightarrow> string list option" where
  "dasm_main raw line = do {
     r \<leftarrow> elf_load raw;
     case r of
       None \<Rightarrow> Some [''ELF file load fail'']
     | Some e \<Rightarrow> do {
         s \<leftarrow> elf_section e [46, 116, 101, 120, 116];
         body \<leftarrow> sec_body s;
         addr \<leftarrow> sec_addr s;
         sz \<leftarrow> sec_size s;
         rv_dasm_block raw body addr sz line
       }
   }"

end
