(* ===== verification/Vm_Properties.thy ===== *)
theory Vm_Properties
  imports Vm_Safety Vm_Symbols Vm_Dasm
begin

text \<open>The main properties of the RV32 emulator.\<close>

section \<open>Loading\<close>

lemma bytes_at_length: "bytes_at raw p n = Some bs \<Longrightarrow> length bs = n"
  by (auto simp: bytes_at_def split: if_splits)

lemma add_chunk_ok:
  assumes "chunks_ok m" and "length src \<le> unat n"
  shows "chunks_ok (mem_add_chunk b n src m)" "vmem.more (mem_add_chunk b n src m) = vmem.more m"
  using assms by (auto simp: mem_add_chunk_def chunks_ok_def chunk_ok_def)

lemma load_segment_ok:
  assumes "load_segment e p m = Some m'" and "chunks_ok m"
  shows "chunks_ok m' \<and> vmem.more m' = vmem.more m"
proof -
  obtain t where t: "p_type (rawdata e) p = Some t" using assms(1) by (auto simp: load_segment_def bind_eq_Some_conv)
  show ?thesis
  proof (cases "t = PT_LOAD")
    case False
    then show ?thesis using assms by (simp add: load_segment_def t)
  next
    case True
    then have "\<exists>b n src. m' = mem_add_chunk b n src m \<and> length src \<le> unat n"
      using assms(1)
      by (auto simp: load_segment_def t bind_eq_Some_conv dest!: bytes_at_length split: if_splits)
        (intro exI conjI, rule refl, simp add: word_less_nat_alt)+
    then obtain b n src where m: "m' = mem_add_chunk b n src m" and "length src \<le> unat n" by blast
    from add_chunk_ok [OF assms(2) this(2)] show ?thesis by (simp add: m)
  qed
qed

lemma load_segments_ok:
  "load_segments e ps m = Some m' \<Longrightarrow> chunks_ok m \<Longrightarrow> chunks_ok m' \<and> vmem.more m' = vmem.more m"
  by (induction ps arbitrary: m) (auto simp: bind_eq_Some_conv dest!: load_segment_ok)

lemma io_init_ok:
  assumes "chunks_ok m"
  shows "chunks_ok (io_init m)" "vmem.more (io_init m) = vmem.more m"
  using assms
  by (auto simp: io_init_def Let_def mem_add_chunk_def chunks_ok_def chunk_ok_def UART_CHUNK_SIZE_def put_byte_def nth_append
      list_update_append dest: set_update_subset_insert [THEN subsetD])

lemma loaded_ok:
  assumes "mem_load_elf e vm_boot = Some s"
  shows "machine_ok s"
proof -
  have b: "chunks_ok (vm_boot\<lparr>chunks := []\<rparr>)" by (simp add: chunks_ok_def)
  obtain n m where l: "load_segments e (map (\<lambda>i. phdrs e + sizeof_phdr * int i) [0..<unat (n :: u16)]) (vm_boot\<lparr>chunks := []\<rparr>) = Some m"
    and s: "s = io_init m" using assms by (auto simp: mem_load_elf_def bind_eq_Some_conv)
  have m: "chunks_ok m" "vmem.more m = vmem.more vm_boot" using load_segments_ok [OF l b] by simp_all
  have "chunks_ok s" "vmem.more s = vmem.more vm_boot" using io_init_ok [OF m(1)] m(2) by (simp_all add: s)
  then show ?thesis
    using same_registers [of s vm_boot] by (simp add: machine_ok_def files_in_range_def chunks_ok_def vm_boot_def)
qed

section \<open>Runs\<close>

text \<open>The states \<open>rv_run\<close> goes through.\<close>

inductive vm_reach :: "machine \<Rightarrow> machine \<Rightarrow> bool" for s where
  here: "vm_reach s s"
| step: "vm_reach s t \<Longrightarrow> rv_step t = (Inr u, v) \<Longrightarrow> vm_reach s v"

lemma step_machine_ok:
  assumes "machine_ok s" and "rv_step s = (Inr u, t)"
  shows "machine_ok t" "layout t = layout s"
  using step_keeps_step [of s] step_x0 [of s t] assms by (auto simp: step_keeps_def machine_ok_def)

lemma reach_ok:
  assumes "vm_reach s t" and "machine_ok s"
  shows "machine_ok t \<and> layout t = layout s"
  using assms(1)
proof (induction rule: vm_reach.induct)
  case here
  then show ?case using assms(2) by simp
next
  case (step t u v)
  then show ?case using step_machine_ok [of t u v] by simp
qed

text \<open>C4: one step of the emulator is one step of the reference semantics of RV32IM with the CSR
  instructions, for every instruction that it fetches except the immediate right shifts and \<open>csrrc\<close>.\<close>

theorem rv_step_implements_rv32:
  assumes "mem_read_w (vpc s) s = Inr (encode32 i)" and "xr s 0 = 0" and "computed_right i"
  shows "rv_step s = rv32_step i s"
  using assms by (rule step_right)

definition one_word :: "u32 \<Rightarrow> machine" where
  "one_word w = \<lparr>chunks = [\<lparr>ch_mem = le32 w, ch_begin = 0x100, ch_size = 4\<rparr>], stdout = [],
     xr = (\<lambda>_. 0)(1 := 0xfffffff9, 2 := 2), csrs = \<lambda>_. 0, vpc = 0x100\<rparr>"

theorem rv_step_implements_rv32_witness:
  "\<exists>t. rv_step (one_word (encode32 (Op Div 3 1 2))) = (Inr (), t) \<and> xr t 3 = - 3 \<and> vpc t = 0x104"
proof -
  have "mem_read_w (vpc (one_word (encode32 (Op Div 3 1 2)))) (one_word (encode32 (Op Div 3 1 2))) = Inr (encode32 (Op Div 3 1 2))"
    by code_simp
  from rv_step_implements_rv32 [OF this]
  show ?thesis by (simp add: one_word_def ir_def put_ir_def next_pc_def quot_trunc_def)
qed

text \<open>C35: the immediate right shifts \<open>srli\<close> and \<open>srai\<close> do not shift: their case runs on into that of
  \<open>ori\<close>, so the destination gets the source register, or its shifted value when both are the same, with the
  bits of the immediate set.\<close>

theorem right_shift_falls_into_ori:
  assumes "mem_read_w (vpc s) s = Inr (encode32 (ShiftImm f r r1 sh))" and "xr s 0 = 0" and "f \<noteq> Slli"
  shows "rv_step s = (Inr (), next_pc (put_ir r
    ((if r = r1 then shift_val f (ir s r1) (unat sh) else ir s r1) OR (if f = Srli then ucast sh else 0x400 OR ucast sh)) s))"
  using right_shift_step [OF assms] by (simp add: shift_word_def)

theorem right_shift_falls_into_ori_witness:
  "\<exists>t. rv_step (one_word (encode32 (ShiftImm Srli 3 2 1))) = (Inr (), t) \<and> xr t 3 = 3"
proof -
  have "mem_read_w (vpc (one_word (encode32 (ShiftImm Srli 3 2 1)))) (one_word (encode32 (ShiftImm Srli 3 2 1))) =
      Inr (encode32 (ShiftImm Srli 3 2 1))" by code_simp
  from right_shift_falls_into_ori [OF this]
  show ?thesis by (simp add: one_word_def ir_def put_ir_def next_pc_def)
qed

text \<open>C30: the machine is well formed after every step: whatever the word fetched, the decoded indices
  fit the two register files, \<open>x0\<close> is 0, and every chunk has the bytes its size says.\<close>

theorem rv_step_keeps_machine_ok:
  assumes "machine_ok s" and "rv_step s = (Inr u, t)"
  shows "machine_ok t \<and> (\<forall>w. rd (rv_decode w) < 32 \<and> rs1 (rv_decode w) < 32 \<and> rs2 (rv_decode w) < 32 \<and> csr_id (rv_decode w) < 4096)"
  using step_machine_ok(1) [OF assms] by (simp add: field_bounds)

theorem rv_step_keeps_machine_ok_witness:
  "\<exists>t. rv_step (one_word (encode32 (Op Add 0 1 2))) = (Inr (), t) \<and> machine_ok t"
proof -
  let ?s = "one_word (encode32 (Op Add 0 1 2))"
  have f: "mem_read_w (vpc ?s) ?s = Inr (encode32 (Op Add 0 1 2))" by code_simp
  then have r: "rv_step ?s = rv32_step (Op Add 0 1 2) ?s" by (rule step_right) (simp_all add: one_word_def)
  have "machine_ok ?s"
    by (auto simp: one_word_def machine_ok_def files_in_range_def chunk_ok_def le32_def word_le_nat_alt)
  moreover obtain t where "rv_step ?s = (Inr (), t)" using r by (simp only: rv32_step.simps)
  ultimately show ?thesis using rv_step_keeps_machine_ok [of ?s "()" t] by blast
qed

text \<open>C11: the emulator does not read or write outside its own arrays.  Of a program all of
  whose segments end below the last three bytes of the address space, none covering the UART with less than six
  bytes, no instruction that is reached accesses a byte outside the chunk it is in; a bad address ends the run.\<close>

theorem emulator_stays_in_bounds:
  assumes "mem_load_elf e vm_boot = Some s" and "\<forall>p \<in> set (layout s). roomy p"
    and "vm_reach (s\<lparr>vpc := entry\<rparr>) t"
  shows "fst (rv_step t) \<noteq> Inl OutOfBounds"
proof -
  have "machine_ok (s\<lparr>vpc := entry\<rparr>)" using loaded_ok [OF assms(1)] by (simp add: machine_ok_def)
  from reach_ok [OF assms(3) this] have "machine_ok t" "layout t = layout s" by simp_all
  then have "fits_arrays t" using assms(2) by (simp add: fits_layout machine_ok_def files_in_range_def chunks_ok_def)
  then show ?thesis using step_keeps_step [of t] by (auto simp: step_keeps_def)
qed

text \<open>A file of one segment at 0x100: \<open>lui x1,0x10000; addi x2,x0,65; sb x2,0(x1); jal x0,0\<close>, which prints an A.\<close>

definition hello_code :: "u8 list" where
  "hello_code = [0xb7, 0, 0, 0x10, 0x13, 1, 0x10, 4, 0x23, 0x80, 0x20, 0, 0x6f, 0, 0, 0]"

definition hello :: elf where
  "hello = \<lparr>rawdata = replicate 44 0 @ [1, 0] @ replicate 6 0 @
      le32 1 @ le32 84 @ le32 0x100 @ le32 0x100 @ le32 16 @ le32 20 @ le32 5 @ le32 4 @ hello_code,
     shdrs = 0, phdrs = 52, shstrtab = 0, strtab = None\<rparr>"

declare rv_loop.simps [code]

lemma hello_prints: "map_option (\<lambda>q. (fst q, stdout (snd q))) (Option.bind (mem_load_elf hello vm_boot) (rv_run 0x100)) = Some (Inr (), [65])"
  by code_simp

theorem emulator_stays_in_bounds_witness:
  "\<exists>s. mem_load_elf hello vm_boot = Some s \<and> fst (rv_step (s\<lparr>vpc := 0x100\<rparr>)) \<noteq> Inl OutOfBounds"
proof -
  have "map_option layout (mem_load_elf hello vm_boot) = Some [(0x100, 20), (UART, 16)]" by code_simp
  then obtain s where s: "mem_load_elf hello vm_boot = Some s" "layout s = [(0x100, 20), (UART, 16)]" by auto
  have "\<forall>p \<in> set (layout s). roomy p" by (simp add: s(2) roomy_def UART_def)
  from emulator_stays_in_bounds [OF s(1) this vm_reach.here] s(1) show ?thesis by blast
qed

text \<open>C12: the symbol table is the finite map of the file's symbols.  \<open>sym_load_elf\<close> builds it with no
  access through \<open>NULL\<close>; \<open>sym_find\<close> then returns the pointer to the first name that the file gives the address,
  a \<open>NULL\<close> pointer for address 0 and nothing for an address without a symbol; and \<open>sym_free\<close> frees all.\<close>

theorem sym_find_first_name:
  assumes "elf_section e symtab_name = Some sec" and "sec_body sec = Some body" and "sec_size sec = Some sz"
    and "sym_entries base e (sym_positions body sz) = Some xs"
  shows "\<exists>s. sym_load_elf base e = Some s \<and> (\<forall>addr. sym_find s addr = Some (map_of ((0, le64 0) # xs) addr)) \<and>
    (\<exists>u. c_map_delete s = Some u \<and> nodes u = Map.empty)"
  using assms by (rule symbols_load)

text \<open>A file with the symbols \<open>main\<close> and \<open>start\<close> at the address 0x100.\<close>

definition two_symbols :: "u8 list" where
  "two_symbols = [
    127, 69, 76, 70, 1, 0, 0, 0, 0, 0, 0, 0, 0, 0, 0, 0, 2, 0, 243, 0, 1, 0, 0, 0, 0, 1, 0, 0, 0, 0, 0, 0, 52, 0, 0, 0,
    0, 0, 0, 0, 52, 0, 32, 0, 0, 0, 40, 0, 3, 0, 0, 0, 0, 0, 0, 0, 0, 0, 0, 0, 0, 0, 0, 0, 0, 0, 0, 0, 172, 0, 0, 0, 17,
    0, 0, 0, 0, 0, 0, 0, 0, 0, 0, 0, 0, 0, 0, 0, 0, 0, 0, 0, 1, 0, 0, 0, 0, 0, 0, 0, 0, 0, 0, 0, 0, 0, 0, 0, 189, 0, 0,
    0, 12, 0, 0, 0, 0, 0, 0, 0, 0, 0, 0, 0, 0, 0, 0, 0, 0, 0, 0, 0, 9, 0, 0, 0, 0, 0, 0, 0, 0, 0, 0, 0, 0, 0, 0, 0, 201,
    0, 0, 0, 32, 0, 0, 0, 0, 0, 0, 0, 0, 0, 0, 0, 0, 0, 0, 0, 0, 0, 0, 0, 0, 46, 115, 116, 114, 116, 97, 98, 0, 46, 115,
    121, 109, 116, 97, 98, 0, 0, 109, 97, 105, 110, 0, 115, 116, 97, 114, 116, 0, 1, 0, 0, 0, 0, 1, 0, 0, 0, 0, 0, 0, 2,
    0, 1, 0, 6, 0, 0, 0, 0, 1, 0, 0, 0, 0, 0, 0, 2, 0, 1, 0]"

definition two_symbols_elf :: elf where
  "two_symbols_elf = \<lparr>rawdata = two_symbols, shdrs = 52, phdrs = 0, shstrtab = 172, strtab = Some 189\<rparr>"

lemma two_symbols_load: "elf_load two_symbols = Some (Some two_symbols_elf)"
  by code_simp

theorem sym_find_first_name_witness:
  "\<exists>s. sym_load_elf 0x7000 two_symbols_elf = Some s \<and> sym_find s 0x100 = Some (Some (le64 (0x7000 + 189 + 1))) \<and>
    sym_find s 0x104 = Some None"
proof -
  have sec: "elf_section two_symbols_elf symtab_name =
      Some \<lparr>sec_name = Some (172 + 9), sec_body = Some 201, sec_addr = Some 0, sec_size = Some 32\<rparr>" by code_simp
  have "sym_entries 0x7000 two_symbols_elf (sym_positions 201 32) = Some [(0x100, le64 (0x7000 + 189 + 1)), (0x100, le64 (0x7000 + 189 + 6))]"
    by code_simp
  from sym_find_first_name [OF sec _ _ this] show ?thesis by auto
qed

end
