(* ===== verification/Spec2Isabelle.thy ===== *)
theory Spec2Isabelle
  imports Semu_Properties Xv7_Buddy_Properties Xv7_Exec_Stack Xv7_Fs_Properties Xv7_Tx Xv7_Pipe Xv7_Sched Xv7_Socket_Properties Xv7_File_Counts Xv7_Disk_Properties Vm_Properties
begin

text \<open>
  Verification of riscv2os, a repository of operating systems and emulators for RISC-V.  Paths are relative to
  \<open>src/\<close>.  Three programs of it are modelled:

  \<^item> \<open>semu/semu.c\<close>, an emulator of a 64-bit machine that boots Linux (theories \<open>Semu_*\<close>);
  \<^item> \<open>xv7/kernel\<close>, a Unix kernel: xv6 with networking, memory-mapped files, copy-on-write and a buddy
    allocator (\<open>Xv7_*\<close>);
  \<^item> \<open>vm\<close>, an emulator and a disassembler of RV32 programs, with an ELF reader and a red-black tree (\<open>Vm_*\<close>).

  The definitions translate the C code function by function and keep its names; a definition whose name
  would clash with one of HOL has a suffix or the prefix of its file.

  \<^bold>\<open>Conventions\<close>

  \<^bold>\<open>Integers.\<close>  \<open>u8\<close> to \<open>u64\<close> are words of that width and wrap around.  An \<open>int\<close> of the code is a HOL integer or
  a natural number where the code's bounds exclude an overflow, and a word elsewhere; a signed operation that overflows,
  which C leaves undefined, wraps.

  \<^bold>\<open>Errors.\<close>  An operation that can stop is a function from a state to an \<open>outcome\<close>, a pair of \<open>Inl\<close> of the reason or
  \<open>Inr\<close> of the result, and the state reached; \<open>bindS\<close> of \<open>Prelude\<close> sequences them.  The reasons are in \<open>kfault\<close> for the kernel
  (\<open>Panic\<close> with the message of the source, \<open>Asleep\<close> where the caller goes to sleep, \<open>Wild\<close> for
  an access that C leaves undefined), \<open>stop\<close> for \<open>semu\<close> and \<open>vm_stop\<close> for \<open>vm\<close>.
  Error values the code returns (-1, a null pointer) are values of the result.  In the theories of \<open>vm\<close>
  that need no reason, \<open>None\<close> is an access through a null pointer, to a freed node or outside the file.

  \<^bold>\<open>Loops.\<close>  A loop is a recursion with a termination proof, or on the number of its turns.  One that may not
  end is a \<open>partial_function (option)\<close>, whose value \<open>None\<close> is not returning: \<open>firstk_loop\<close>, \<open>strlen_loop\<close>, the loops that follow
  the links of a tree in \<open>Vm_Map\<close>, \<open>rv_loop\<close> and \<open>skip_zeros\<close>.  Fuel occurs in these places: \<open>freewalk\<close>
  has 3, the levels of a page table, and going below the last level is \<open>Wild\<close>;
  walks along the list of sockets have \<open>NPAGES\<close> = 32768, the pages of the memory, as every socket is a page of
  its own; \<open>e1000_recv\<close> has 17 turns, one more than the ring has descriptors, and its theorem shows them to be enough;
  \<open>kill_line\<close> has the characters between the two edit indices.

  \<^bold>\<open>Concurrency.\<close>  What the kernel does under one lock, up to a call of \<open>sleep\<close>, is one step.  Where the claim is about
  interleavings, a step relation runs the pieces of all processes or CPUs in any order: \<open>lock_step\<close> (the accesses to a lock word),
  \<open>proc_step\<close> (scheduler, \<open>sleep\<close>, \<open>wakeup\<close>, \<open>exit\<close>, \<open>wait\<close>), \<open>pipe_step\<close>, \<open>log_step\<close>, \<open>disk_step\<close>, and for the emulators
  \<open>semu_reach\<close> and \<open>vm_reach\<close>.

  \<^bold>\<open>Memory.\<close>  Page tables, user pages, trap frames and strings are bytes of one memory.  Packet buffers, sockets and
  pipes live in pages seen through a record; \<open>page_alloc\<close> and \<open>page_free\<close> write into these views what \<open>kalloc\<close> and \<open>kfree\<close>
  write into the page, so that a dangling pointer reads what it would.

  \<^bold>\<open>Parameters.\<close>  Linker symbols (\<open>kend\<close>, \<open>etext\<close>, \<open>trampoline\<close>), the addresses \<open>malloc\<close> returns, the comparator
  of the map, the bytes that a device delivers and the success of a copy to user memory (where the component does
  not own that memory) are arguments.

  \<^bold>\<open>semu\<close>

  \<open>Semu_Devices\<close> has RAM, CLINT, PLIC, UART and the virtio disk, one record and a load and a store each; \<open>Semu_Bus\<close> the
  decoding of addresses by \<open>RANGE_CHECK\<close> and the copy loops of the disk; \<open>Semu_Cpu\<close> the state of the CPU, its
  control registers and \<open>cpu_translate\<close>; \<open>Semu_Exec\<close> \<open>cpu_execute\<close>, one definition per opcode; \<open>Semu_Trap\<close>
  \<open>cpu_take_trap\<close>, \<open>cpu_check_pending_interrupt\<close> and the turn \<open>semu_step\<close> of the main loop.

  The specifications are the relation \<open>sv39_leaf\<close> of the privileged manual, which \<open>cpu_translate\<close> computes, and
  the reference semantics of \<open>Semu_Isa\<close> with its encoder, which \<open>cpu_execute\<close> implements on every
  encoded instruction.  Further results are in \<open>Semu_Properties\<close>: a transfer of the disk copies its bytes, a supervisor
  trap and \<open>sret\<close> are a round trip, and the cached paging fields agree with SATP in every reachable state.

  \<^bold>\<open>The kernel xv7\<close>

  \<^bold>\<open>Memory.\<close>  \<open>Xv7_List\<close> (\<open>list.c\<close>), \<open>Xv7_Buddy\<close> (\<open>buddy.c\<close>), \<open>Xv7_String\<close> (\<open>string.c\<close>), \<open>Xv7_Kalloc\<close> (\<open>kalloc.c\<close>), \<open>Xv7_Vm\<close>
  (\<open>vm.c\<close>).  \<open>Xv7_Buddy_Inv\<close> has the invariant of the heap, that the existing unsplit blocks tile it and the
  free lists hold those that are not allocated; \<open>Xv7_Buddy_Properties\<close> that \<open>bd_malloc\<close> and \<open>bd_free\<close> keep it and do
  what they should.  \<open>Xv7_Paging\<close> reads a page table as a map from addresses to entries that \<open>mappages\<close> extends;
  \<open>Xv7_User_Memory\<close> reads user memory as a map to bytes that \<open>copyout\<close> writes and \<open>copyin\<close> reads.

  \<^bold>\<open>Disk.\<close>  \<open>Xv7_Virtio\<close> (\<open>virtio_disk.c\<close>) is the driver.  \<open>Xv7_Disk\<close> runs processes, device and interrupts in any order; its
  invariant gives every descriptor one owner.  \<open>Xv7_Disk_Properties\<close> shows that each call is exactly one transfer and that
  the driver does not panic or stall, so above the driver a transfer is one step.  \<open>Xv7_Bio\<close> (\<open>bio.c\<close>) is the
  cache, \<open>Xv7_Cache\<close> its abstract view; \<open>Xv7_Log\<close> (\<open>log.c\<close>) the log, and \<open>Xv7_Recovery\<close> shows that a commit
  cut off after any of its writes and followed by recovery leaves all old or all new contents, and what the
  reservation of \<open>begin_op\<close> guarantees.  \<open>Xv7_Fs\<close> and \<open>Xv7_Dir\<close> (\<open>fs.c\<close>) are the file system, with results in
  \<open>Xv7_Fs_Properties\<close>; \<open>Xv7_Tx\<close> states what the log promises to a transaction.

  \<^bold>\<open>Processes.\<close>  \<open>Xv7_Lock\<close> (\<open>spinlock.c\<close>, \<open>sleeplock.c\<close>) with mutual exclusion; \<open>Xv7_Proc\<close> (\<open>proc.c\<close>, the process table) and
  \<open>Xv7_Sched\<close>, its interleavings; \<open>Xv7_Process\<close> (\<open>proc.c\<close>, with memory, files and mappings); \<open>Xv7_Exec\<close> (\<open>exec.c\<close>) and
  \<open>Xv7_Exec_Stack\<close>, where the arguments lie; \<open>Xv7_Mmap\<close> (\<open>vm.c\<close>, \<open>trap.c\<close>), mapped files; \<open>Xv7_Trap\<close> (\<open>trap.c\<close>, \<open>syscall.c\<close>, \<open>sysproc.c\<close>).

  \<^bold>\<open>Files and devices.\<close>  \<open>Xv7_Pipe\<close> (\<open>pipe.c\<close>) with its order of bytes over all interleavings, \<open>Xv7_Console\<close> (\<open>console.c\<close>)
  with its line editor, \<open>Xv7_Printf\<close> (\<open>printf.c\<close>), \<open>Xv7_File\<close> (\<open>file.c\<close>), \<open>Xv7_Syscall\<close> and \<open>Xv7_Sysfile\<close> (\<open>syscall.c\<close>, \<open>sysfile.c\<close>).
  \<open>Xv7_Files\<close> and \<open>Xv7_File_Counts\<close> show that every system call keeps the reference counts of the file table exact.

  \<^bold>\<open>Network.\<close>  \<open>Xv7_Kstate\<close> (objects in pages), \<open>Xv7_Mbuf\<close> (packet buffers and the checksum of \<open>net.c\<close>), \<open>Xv7_Socket\<close> (\<open>sysnet.c\<close>),
  \<open>Xv7_Net\<close> (the layers of \<open>net.c\<close> and \<open>e1000.c\<close>).  \<open>Xv7_Net_Accounts\<close> gives every page one owner and shows that
  receiving keeps it so, \<open>Xv7_Udp\<close> the round trip of a packet, \<open>Xv7_Socket_Properties\<close> what closing and
  writing sockets do.

  The state grows along the calls: the log's extends the cache's, the file system's the log's, the kernel's (\<open>kernel\<close> of
  \<open>Xv7_File\<close>) combines the network's, the file system's and the console's, and \<open>trapst\<close> adds the CPU's.

  The interfaces between components are locales, each interpreted on the code's definitions where they are:
  \<open>linked_lists\<close> (list to buddy allocator), \<open>page_allocator\<close>, \<open>user_memory\<close>, \<open>block_cache\<close> and its extension \<open>pinning_cache\<close> (cache to
  log), \<open>transactions\<close> (log to file system), \<open>packet_queue\<close> and \<open>byte_queue\<close> (the rings and queues to their
  clients).

  \<^bold>\<open>vm\<close>

  \<open>Vm_Map\<close> (\<open>lib/c_map.c\<close>) works on a heap of nodes with parent links; \<open>Vm_Map_Tree\<close> relates the heap to trees with a
  focus, \<open>Vm_Map_Insert\<close> adds order and balance, \<open>Vm_Map_Properties\<close> proves insertion and search to be those of a
  finite map for every comparator that satisfies the locale \<open>key_order\<close>, among them the two the code has.
  \<open>Vm_Elf\<close> (\<open>lib/elf.c\<close>, \<open>riscv/sym.c\<close>) reads the file; \<open>Vm_Symbols\<close> shows the symbol table to be a finite map.  \<open>Vm_Memory\<close>
  (\<open>riscv/memory.c\<close>), \<open>Vm_Decode\<close> (\<open>riscv/decoder.h\<close>, \<open>riscv/cpu.c\<close>) and \<open>Vm_Cpu\<close> (\<open>vm.c\<close>) are the emulator,
  \<open>Vm_Dasm\<close> (\<open>riscv/cpu.c\<close>, \<open>riscv/riscv.c\<close>, \<open>dasm.c\<close>) the disassembler.  \<open>Vm_Isa\<close> is a reference semantics; \<open>Vm_Step\<close> shows
  that \<open>rv_step\<close> implements it but for the immediate right shifts and \<open>csrrc\<close>, \<open>Vm_Safety\<close> that the emulator
  stays inside its arrays, and \<open>Vm_Properties\<close> collects the results.

  \<^bold>\<open>What is not modelled\<close>

  The kernel's start-up, its PCI and PLIC drivers and the registers of the UART are straight-line accesses to devices.  The
  RAM disk is not compiled.  The assembly of \<open>swtch\<close> and the trampoline, the formatting of debug output and the
  host's file and terminal input and output are left out.  \<open>xv6\<close> is the upstream kernel of which \<open>xv7\<close> has
  the extended components; \<open>fs\<close> holds copies of the file system for the host.  The C libraries and user programs,
  \<open>mkfs\<close>, the tutorial kernels of \<open>mini-riscv-os\<close>, and the graphics demos are not modelled.
\<close>

end
